(* ===== verification/Redis_Prelude.thy ===== *)
theory Redis_Prelude
  imports Main "HOL-Library.Word"
begin

unbundle bit_operations_syntax

text \<open>
  Shared vocabulary of the development: bytes and byte buffers with bounds-checked access,
  little-endian integers as the serialised formats store them, C integer ranges, and
  generic lemmas on lists that several components use.

  A buffer access outside the allocated block is undefined behaviour in C. The model makes
  it a value: \<open>rd\<close> and \<open>wr\<close> return \<open>None\<close> there, and every theorem that an operation
  returns \<open>Some\<close> is also a proof that it stays inside its buffer.
\<close>

named_theorems buf_simps \<open>reads and writes of byte buffers\<close>
named_theorems le_simps \<open>little-endian encodings\<close>

type_synonym byte = "8 word"
type_synonym bytes = "byte list"

section \<open>C integer ranges\<close>

text \<open>The values of a two's complement integer type of \<open>w\<close> bits, as mathematical integers.\<close>

definition fits_signed :: "nat \<Rightarrow> int \<Rightarrow> bool" where
  "fits_signed w v \<longleftrightarrow> - (2 ^ (w - 1)) \<le> v \<and> v < 2 ^ (w - 1)"

abbreviation int64_range :: "int \<Rightarrow> bool" where
  "int64_range v \<equiv> - 9223372036854775808 \<le> v \<and> v \<le> 9223372036854775807"

lemma fits_signed_mono: "fits_signed m v \<Longrightarrow> m \<le> n \<Longrightarrow> fits_signed n v"
proof -
  assume f: "fits_signed m v" and mn: "m \<le> n"
  have "(2::int) ^ (m - 1) \<le> 2 ^ (n - 1)"
    using mn by (intro power_increasing) auto
  with f show "fits_signed n v" unfolding fits_signed_def by linarith
qed

section \<open>Little-endian integers\<close>

primrec le_bytes :: "nat \<Rightarrow> int \<Rightarrow> bytes" where
  "le_bytes 0 v = []"
| "le_bytes (Suc n) v = word_of_int v # le_bytes n (v div 256)"

primrec le_uint :: "bytes \<Rightarrow> int" where
  "le_uint [] = 0"
| "le_uint (b # bs) = uint b + 256 * le_uint bs"

definition le_sint :: "bytes \<Rightarrow> int" where
  "le_sint bs = (let u = le_uint bs; m = 2 ^ (8 * length bs - 1)
     in if u < m then u else u - 2 * m)"

lemma length_le_bytes [simp]: "length (le_bytes n v) = n"
  by (induction n arbitrary: v) auto

lemma le_uint_nonneg [simp]: "0 \<le> le_uint bs"
  by (induction bs) auto

lemma uint_byte_less: "uint (b::byte) < 256"
  using uint_lt2p [of b] by simp

lemma le_uint_bound: "le_uint bs < 256 ^ length bs"
proof (induction bs)
  case (Cons b bs)
  have "uint b + 256 * le_uint bs < 256 * 256 ^ length bs"
    using Cons uint_byte_less [of b] by linarith
  then show ?case by simp
qed simp

lemma uint_byte_of_int: "uint (word_of_int v :: byte) = v mod 256"
  by (simp add: take_bit_eq_mod unsigned_of_int)

lemma le_uint_le_bytes [le_simps]: "le_uint (le_bytes n v) = v mod 256 ^ n"
proof (induction n arbitrary: v)
  case (Suc n)
  have "v mod (256 * 256 ^ n) = v mod 256 + 256 * (v div 256 mod 256 ^ n)"
    by (simp add: zmod_zmult2_eq)
  then show ?case using Suc by (simp add: uint_byte_of_int)
qed simp

lemma pow256: "(256::int) ^ n = 2 ^ (8 * n)"
  by (simp add: power_mult)

lemma le_sint_le_bytes [le_simps]:
  assumes "0 < n" "fits_signed (8 * n) v"
  shows "le_sint (le_bytes n v) = v"
proof -
  let ?m = "2 ^ (8 * n - 1) :: int"
  have two: "(2::int) ^ (8 * n) = 2 * ?m"
    using assms(1) by (simp flip: power_Suc)
  have b: "- ?m \<le> v" "v < ?m" using assms(2) by (auto simp: fits_signed_def)
  have mpos: "0 < ?m" by simp
  have u: "le_uint (le_bytes n v) = v mod (2 * ?m)"
    by (simp only: le_uint_le_bytes pow256 two)
  show ?thesis
  proof (cases "0 \<le> v")
    case True
    then have "v mod (2 * ?m) = v" using b mpos by (intro mod_pos_pos_trivial) linarith+
    then show ?thesis using b u by (simp add: le_sint_def Let_def)
  next
    case False
    have "v mod (2 * ?m) = (v + 2 * ?m) mod (2 * ?m)" by simp
    also have "\<dots> = v + 2 * ?m" using False b mpos by (intro mod_pos_pos_trivial) linarith+
    finally show ?thesis using False b u by (simp add: le_sint_def Let_def)
  qed
qed

lemma le_sint_fits: "bs \<noteq> [] \<Longrightarrow> fits_signed (8 * length bs) (le_sint bs)"
proof -
  assume ne: "bs \<noteq> []"
  have "(2::int) ^ (8 * length bs) = 2 * 2 ^ (8 * length bs - 1)"
    using ne by (cases bs) (auto simp flip: power_Suc)
  with le_uint_bound [of bs] show ?thesis
    by (auto simp: le_sint_def Let_def fits_signed_def pow256 intro: order_trans [of _ 0])
qed

lemma le_bytes_le_uint: "le_bytes (length bs) (le_uint bs) = bs"
proof (induction bs)
  case (Cons b bs)
  have "(uint b + 256 * le_uint bs) div 256 = le_uint bs"
    using uint_byte_less [of b] by simp
  moreover have "word_of_int (uint b + 256 * le_uint bs) = b"
  proof (rule word_uint_eqI)
    show "uint (word_of_int (uint b + 256 * le_uint bs) :: byte) = uint b"
      using uint_byte_less [of b] by (simp only: uint_byte_of_int) simp
  qed
  ultimately show ?case using Cons by simp
qed simp

section \<open>Byte buffers\<close>

definition rd :: "bytes \<Rightarrow> nat \<Rightarrow> nat \<Rightarrow> bytes option" where
  "rd buf off n = (if off + n \<le> length buf then Some (take n (drop off buf)) else None)"

definition wr :: "bytes \<Rightarrow> nat \<Rightarrow> bytes \<Rightarrow> bytes option" where
  "wr buf off bs = (if off + length bs \<le> length buf
     then Some (take off buf @ bs @ drop (off + length bs) buf) else None)"

text \<open>
  \<open>memmove\<close> inside one buffer reads the whole source range before it writes.
  \<open>realloc\<close> keeps the common prefix; bytes beyond the old size are indeterminate in C,
  and the model fills them with an arbitrary byte \<open>g\<close> that every theorem quantifies over.
\<close>

definition memmove :: "bytes \<Rightarrow> nat \<Rightarrow> nat \<Rightarrow> nat \<Rightarrow> bytes option" where
  "memmove buf dst src n = Option.bind (rd buf src n) (wr buf dst)"

definition zrealloc :: "byte \<Rightarrow> bytes \<Rightarrow> nat \<Rightarrow> bytes" where
  "zrealloc g buf n = take n buf @ replicate (n - length buf) g"

lemma length_zrealloc [simp]: "length (zrealloc g buf n) = n"
  by (simp add: zrealloc_def)

lemma wr_length: "wr buf off bs = Some buf' \<Longrightarrow> length buf' = length buf"
  by (auto simp: wr_def split: if_splits)

lemma rd_Some [buf_simps]: "off + n \<le> length buf \<Longrightarrow> rd buf off n = Some (take n (drop off buf))"
  by (simp add: rd_def)

lemma wr_Some [buf_simps]:
  "off + length bs \<le> length buf \<Longrightarrow> wr buf off bs = Some (take off buf @ bs @ drop (off + length bs) buf)"
  by (simp add: wr_def)

lemma rd_wr_same: "wr buf off bs = Some buf' \<Longrightarrow> rd buf' off (length bs) = Some bs"
  by (auto simp: wr_def rd_def split: if_splits)

text \<open>One byte of a buffer.\<close>

definition byte_at :: "bytes \<Rightarrow> nat \<Rightarrow> byte option" where
  "byte_at buf i = (if i < length buf then Some (buf ! i) else None)"

section \<open>Lists\<close>

lemma sorted_wrt_append_mid:
  "sorted_wrt (<) (xs @ y # zs) \<longleftrightarrow>
     sorted_wrt (<) xs \<and> sorted_wrt (<) zs \<and> (\<forall>x\<in>set xs. x < y) \<and> (\<forall>z\<in>set zs. y < (z::'a::order)) \<and>
     (\<forall>x\<in>set xs. \<forall>z\<in>set zs. x < z)"
  by (auto simp: sorted_wrt_append)

lemma find_in: "find P xs = Some x \<Longrightarrow> x \<in> set xs \<and> P x"
  by (induction xs) (auto split: if_splits)

end
