(* ===== verification/Endianconv.thy ===== *)
theory Endianconv
  imports Redis_Prelude
begin

text \<open>
  \<^verbatim>\<open>redis-2.8/src/endianconv.c\<close>: in-place byte reversal of 16, 32 and 64 bit integers.
  The argument is the memory block the pointer refers to; a block too short for the access
  gives \<open>None\<close>. The host is little-endian, so \<open>intrevN\<close> lays its argument out with
  \<open>le_bytes\<close> before it reverses it.
\<close>

definition memrev16 :: "bytes \<Rightarrow> bytes option" where
  "memrev16 x = (if length x < 2 then None else
     let t = x ! 0; x = x[0 := x ! 1]; x = x[1 := t] in Some x)"

definition memrev32 :: "bytes \<Rightarrow> bytes option" where
  "memrev32 x = (if length x < 4 then None else
     let t = x ! 0; x = x[0 := x ! 3]; x = x[3 := t];
         t = x ! 1; x = x[1 := x ! 2]; x = x[2 := t] in Some x)"

definition memrev64 :: "bytes \<Rightarrow> bytes option" where
  "memrev64 x = (if length x < 8 then None else
     let t = x ! 0; x = x[0 := x ! 7]; x = x[7 := t];
         t = x ! 1; x = x[1 := x ! 6]; x = x[6 := t];
         t = x ! 2; x = x[2 := x ! 5]; x = x[5 := t];
         t = x ! 3; x = x[3 := x ! 4]; x = x[4 := t] in Some x)"

definition intrev16 :: "16 word \<Rightarrow> 16 word option" where
  "intrev16 v = map_option (\<lambda>b. word_of_int (le_uint b)) (memrev16 (le_bytes 2 (uint v)))"

definition intrev32 :: "32 word \<Rightarrow> 32 word option" where
  "intrev32 v = map_option (\<lambda>b. word_of_int (le_uint b)) (memrev32 (le_bytes 4 (uint v)))"

definition intrev64 :: "64 word \<Rightarrow> 64 word option" where
  "intrev64 v = map_option (\<lambda>b. word_of_int (le_uint b)) (memrev64 (le_bytes 8 (uint v)))"

lemma length2_conv: "2 \<le> length x \<longleftrightarrow> (\<exists>a b r. x = a # b # r)"
  by (cases x; cases "tl x") auto

lemma length4_conv: "4 \<le> length x \<longleftrightarrow> (\<exists>a b c d r. x = a # b # c # d # r)"
proof
  assume "4 \<le> length x"
  then obtain a b y where "x = a # b # y" "2 \<le> length y"
    using length2_conv [of x] by auto
  then show "\<exists>a b c d r. x = a # b # c # d # r" using length2_conv [of y] by auto
qed auto

lemma length8_conv:
  "8 \<le> length x \<longleftrightarrow> (\<exists>a b c d e f g h r. x = a # b # c # d # e # f # g # h # r)"
proof
  assume "8 \<le> length x"
  then obtain a b c d y where "x = a # b # c # d # y" "4 \<le> length y"
    using length4_conv [of x] by auto
  then show "\<exists>a b c d e f g h r. x = a # b # c # d # e # f # g # h # r"
    using length4_conv [of y] by auto
qed auto

lemma memrev16_rev: "2 \<le> length x \<Longrightarrow> memrev16 x = Some (rev (take 2 x) @ drop 2 x)"
  by (auto simp: length2_conv memrev16_def)

lemma memrev32_rev: "4 \<le> length x \<Longrightarrow> memrev32 x = Some (rev (take 4 x) @ drop 4 x)"
  by (auto simp: length4_conv memrev32_def)

lemma memrev64_rev: "8 \<le> length x \<Longrightarrow> memrev64 x = Some (rev (take 8 x) @ drop 8 x)"
  by (auto simp: length8_conv memrev64_def)

lemmas memrev_rev = memrev16_rev memrev32_rev memrev64_rev

text \<open>Reversing the bytes of an integer twice gives the integer back, at every width.\<close>

lemma word_le_roundtrip:
  assumes "LENGTH('a::len) = 8 * n"
  shows "word_of_int (le_uint (le_bytes n (uint w))) = (w :: 'a word)"
proof -
  have "uint w < 256 ^ n" using uint_lt2p [of w] assms by (simp add: pow256)
  then show ?thesis by (simp add: le_uint_le_bytes)
qed

lemma rev_le_bytes_involution:
  assumes "LENGTH('a::len) = 8 * n"
  shows "word_of_int (le_uint (rev (le_bytes n
           (uint (word_of_int (le_uint (rev (le_bytes n (uint w)))) :: 'a word))))) = (w :: 'a word)"
proof -
  let ?r = "rev (le_bytes n (uint w))"
  have len: "length ?r = n" by simp
  have "le_uint ?r < 256 ^ n" using le_uint_bound [of ?r] by simp
  then have "uint (word_of_int (le_uint ?r) :: 'a word) = le_uint ?r"
    using assms by (simp add: pow256 unsigned_of_int take_bit_int_eq_self)
  moreover have "le_bytes n (le_uint ?r) = ?r"
    using le_bytes_le_uint [of ?r] by (simp only: len)
  ultimately show ?thesis by (simp add: word_le_roundtrip [OF assms])
qed

lemma intrev_involutive:
  shows "Option.bind (intrev16 a) intrev16 = Some a"
    and "Option.bind (intrev32 b) intrev32 = Some b"
    and "Option.bind (intrev64 c) intrev64 = Some c"
  by (simp_all add: intrev16_def intrev32_def intrev64_def memrev_rev rev_le_bytes_involution
      del: le_bytes.simps)

end
