(* ===== verification/Util.thy ===== *)
theory Util
  imports Redis_Prelude
begin

text \<open>
  \<^verbatim>\<open>redis-2.8/src/util.c\<close>: glob matching, memory-size parsing and the conversions
  between \<open>long long\<close> and decimal text. Strings are byte lists without their terminator;
  \<open>sat\<close> reads them the way C does, with the terminating NUL readable at the end and
  every access beyond it undefined (\<open>None\<close>).
\<close>

definition sat :: "bytes \<Rightarrow> nat \<Rightarrow> byte option" where
  "sat b i = (if i < length b then Some (b ! i) else if i = length b then Some 0 else None)"

abbreviation LLONG_MAX :: int where "LLONG_MAX \<equiv> 9223372036854775807"
abbreviation LLONG_MIN :: int where "LLONG_MIN \<equiv> - 9223372036854775808"
abbreviation ULLONG_MAX :: nat where "ULLONG_MAX \<equiv> 18446744073709551615"

text \<open>\<open>tolower\<close> of the C locale, on the \<open>int\<close> value of a (signed) \<open>char\<close>.\<close>

definition c_tolower :: "int \<Rightarrow> int" where
  "c_tolower c = (if 65 \<le> c \<and> c \<le> 90 then c + 32 else c)"

section \<open>stringmatchlen\<close>

text \<open>
  The C function keeps \<open>pattern\<close>/\<open>patternLen\<close> and \<open>string\<close>/\<open>stringLen\<close> in step: the
  pointers and the remaining lengths always move together. The model keeps the positions
  \<open>i\<close> and \<open>j\<close>; \<open>patternLen\<close> is \<open>length p - i\<close> and \<open>stringLen\<close> is \<open>length s - j\<close>.
  The result is \<open>None\<close> where the C code reads beyond a terminator, or advances the string
  pointer beyond the terminator so that \<open>stringLen\<close> turns negative.
\<close>

definition char_eq :: "bool \<Rightarrow> byte \<Rightarrow> byte \<Rightarrow> bool" where
  "char_eq nocase a b = (if nocase then c_tolower (sint a) = c_tolower (sint b) else a = b)"

definition in_range :: "bool \<Rightarrow> byte \<Rightarrow> byte \<Rightarrow> byte \<Rightarrow> bool" where
  "in_range nocase a b x =
     (let start = sint a; end' = sint b; c = sint x;
          (start, end') = (if start > end' then (end', start) else (start, end'));
          (start, end', c) = (if nocase then (c_tolower start, c_tolower end', c_tolower c)
                              else (start, end', c))
      in c \<ge> start \<and> c \<le> end')"

text \<open>The \<open>while(1)\<close> loop of the \<open>'['\<close> case: the final pattern position and the match flag.\<close>

function sm_class :: "bool \<Rightarrow> bytes \<Rightarrow> bytes \<Rightarrow> nat \<Rightarrow> nat \<Rightarrow> bool \<Rightarrow> (nat \<times> bool) option" where
  "sm_class nocase p s i j m =
     (case sat p i of None \<Rightarrow> None | Some pc \<Rightarrow>
      if pc = 92 then
        (case (sat p (i + 1), sat s j) of
           (Some c, Some sc) \<Rightarrow> sm_class nocase p s (i + 2) j (m \<or> c = sc)
         | _ \<Rightarrow> None)
      else if pc = 93 then Some (i, m)
      else if i = length p then Some (i - 1, m)
      else (case (sat p (i + 1), sat s j) of
           (Some c1, Some sc) \<Rightarrow>
             if c1 = 45 \<and> length p - i \<ge> 3 then
               (case sat p (i + 2) of None \<Rightarrow> None
                | Some c2 \<Rightarrow> sm_class nocase p s (i + 3) j (m \<or> in_range nocase pc c2 sc))
             else sm_class nocase p s (i + 1) j (m \<or> char_eq nocase pc sc)
         | _ \<Rightarrow> None))"
  by pat_completeness auto
termination
  by (relation "measure (\<lambda>(nocase, p, s, i, j, m). length p + 1 - i)")
     (auto simp: sat_def split: if_splits)

declare sm_class.simps [simp del]

lemma sm_class_bounds:
  "sm_class nocase p s i j m = Some (i', m') \<Longrightarrow> 0 < i \<Longrightarrow> i - 1 \<le> i' \<and> i' < length p"
proof (induction "length p + 1 - i" arbitrary: i m rule: less_induct)
  case less
  show ?case
  proof (cases "sat p i")
    case None
    with less.prems show ?thesis by (subst (asm) sm_class.simps) simp
  next
    case (Some pc)
    then have i: "i \<le> length p" by (auto simp: sat_def split: if_splits)
    have step: "i - 1 \<le> i' \<and> i' < length p"
      if "sm_class nocase p s i2 j m2 = Some (i', m')" "i < i2" for i2 m2
      using less.hyps [of i2 m2] that i by force
    have here: "pc = 93 \<Longrightarrow> i < length p" using Some by (auto simp: sat_def split: if_splits)
    from less.prems Some show ?thesis
      by (subst (asm) sm_class.simps)
         (auto split: option.splits if_splits dest: step here)
  qed
qed

function skip_stars :: "bytes \<Rightarrow> nat \<Rightarrow> nat" where
  "skip_stars p i = (if sat p (i + 1) = Some 42 then skip_stars p (i + 1) else i)"
  by pat_completeness auto
termination
  by (relation "measure (\<lambda>(p, i). length p - i)") (auto simp: sat_def split: if_splits)

function skip_trailing :: "bytes \<Rightarrow> nat \<Rightarrow> nat" where
  "skip_trailing p i = (if sat p i = Some 42 then skip_trailing p (i + 1) else i)"
  by pat_completeness auto
termination
  by (relation "measure (\<lambda>(p, i). length p + 1 - i)") (auto simp: sat_def split: if_splits)

declare skip_stars.simps [simp del] skip_trailing.simps [simp del]

lemma skip_stars_bounds: "i < length p \<Longrightarrow> i \<le> skip_stars p i \<and> skip_stars p i < length p"
proof (induction p i rule: skip_stars.induct)
  case (1 p i)
  show ?case
  proof (cases "sat p (i + 1) = Some 42")
    case True
    then have "i + 1 < length p" by (auto simp: sat_def split: if_splits)
    with 1 True show ?thesis by (subst (1 2) skip_stars.simps) auto
  next
    case False
    with 1 show ?thesis by (subst (1 2) skip_stars.simps) auto
  qed
qed

text \<open>
  \<open>sm_case\<close> is one pass of the \<open>switch\<close> for every case but \<open>'*'\<close>: \<open>Inl b\<close> is an early
  \<open>return b\<close>, \<open>Inr (i', j')\<close> the positions at the end of the \<open>switch\<close>.
\<close>

definition step_string :: "bytes \<Rightarrow> nat \<Rightarrow> nat \<Rightarrow> (bool + nat \<times> nat) option" where
  "step_string s i j = (if j < length s then Some (Inr (i, j + 1)) else None)"

definition sm_literal :: "bool \<Rightarrow> bytes \<Rightarrow> bytes \<Rightarrow> nat \<Rightarrow> nat \<Rightarrow> (bool + nat \<times> nat) option" where
  "sm_literal nocase p s i j =
     (case (sat p i, sat s j) of
        (Some pc, Some sc) \<Rightarrow>
          if \<not> char_eq nocase pc sc then Some (Inl False) else step_string s i j
      | _ \<Rightarrow> None)"

definition sm_case :: "bool \<Rightarrow> bytes \<Rightarrow> bytes \<Rightarrow> nat \<Rightarrow> nat \<Rightarrow> (bool + nat \<times> nat) option" where
  "sm_case nocase p s i j =
     (case sat p i of None \<Rightarrow> None | Some pc \<Rightarrow>
      if pc = 63 then (if j = length s then Some (Inl False) else step_string s i j)
      else if pc = 91 then
        (case sat p (i + 1) of None \<Rightarrow> None | Some c \<Rightarrow>
          let neg = (c = 94); i0 = (if neg then i + 2 else i + 1) in
          (case sm_class nocase p s i0 j False of None \<Rightarrow> None
           | Some (i', m) \<Rightarrow>
               if m = neg then Some (Inl False) else step_string s i' j))
      else if pc = 92 then
        sm_literal nocase p s (if length p - i \<ge> 2 then i + 1 else i) j
      else sm_literal nocase p s i j)"

lemma sm_case_bounds:
  "sm_case nocase p s i j = Some (Inr (i', j')) \<Longrightarrow> i < length p \<Longrightarrow>
     i \<le> i' \<and> i' < length p \<and> j' = j + 1 \<and> j < length s"
  by (auto simp: sm_case_def sm_literal_def step_string_def Let_def
      split: option.splits if_splits prod.splits dest!: sm_class_bounds)

function stringmatch_at :: "bool \<Rightarrow> bytes \<Rightarrow> bytes \<Rightarrow> nat \<Rightarrow> nat \<Rightarrow> bool option"
  and stringmatch_star :: "bool \<Rightarrow> bytes \<Rightarrow> bytes \<Rightarrow> nat \<Rightarrow> nat \<Rightarrow> bool option" where
  "stringmatch_at nocase p s i j =
     (if i \<ge> length p then Some (i = length p \<and> j = length s)
      else if sat p i = Some 42 then
        (let i = skip_stars p i in
         if length p - i = 1 then Some True else stringmatch_star nocase p s i j)
      else
        (case sm_case nocase p s i j of
           None \<Rightarrow> None
         | Some (Inl b) \<Rightarrow> Some b
         | Some (Inr (i', j')) \<Rightarrow>
             if j' = length s then Some (skip_trailing p (i' + 1) = length p)
             else stringmatch_at nocase p s (i' + 1) j'))"
| "stringmatch_star nocase p s i j =
     (if i \<ge> length p \<or> j \<ge> length s then Some False
      else (case stringmatch_at nocase p s (i + 1) j of
              None \<Rightarrow> None
            | Some True \<Rightarrow> Some True
            | Some False \<Rightarrow> stringmatch_star nocase p s i (j + 1)))"
  by pat_completeness auto
termination
proof (relation "measures [\<lambda>x. case x of Inl (nc, p, s, i, j) \<Rightarrow> 2 * (length p - i) + 1
                                 | Inr (nc, p, s, i, j) \<Rightarrow> 2 * (length p - i),
                          \<lambda>x. case x of Inl (nc, p, s, i, j) \<Rightarrow> length s - j
                                 | Inr (nc, p, s, i, j) \<Rightarrow> length s - j]")
  fix nocase :: bool and p s i j x
  assume "\<not> length p \<le> i" "x = skip_stars p i" "length p - x \<noteq> 1"
  then show "(Inr (nocase, p, s, x, j), Inl (nocase, p, s, i, j)) \<in> measures
      [\<lambda>x. case x of Inl (nc, p, s, i, j) \<Rightarrow> 2 * (length p - i) + 1
                  | Inr (nc, p, s, i, j) \<Rightarrow> 2 * (length p - i),
       \<lambda>x. case x of Inl (nc, p, s, i, j) \<Rightarrow> length s - j
                  | Inr (nc, p, s, i, j) \<Rightarrow> length s - j]"
    using skip_stars_bounds [of i p] by auto
qed (auto dest!: sm_case_bounds simp: not_le)

definition stringmatchlen :: "bytes \<Rightarrow> bytes \<Rightarrow> bool \<Rightarrow> bool option" where
  "stringmatchlen p s nocase = stringmatch_at nocase p s 0 0"

text \<open>\<open>stringmatch\<close> measures both arguments with \<open>strlen\<close>, that is, up to the first NUL.\<close>

definition c_str :: "bytes \<Rightarrow> bytes" where
  "c_str b = takeWhile (\<lambda>x. x \<noteq> 0) b"

definition stringmatch :: "bytes \<Rightarrow> bytes \<Rightarrow> bool \<Rightarrow> bool option" where
  "stringmatch p s nocase = stringmatchlen (c_str p) (c_str s) nocase"

declare stringmatch_at.simps [simp del] stringmatch_star.simps [simp del]


section \<open>memtoll\<close>

definition is_digit :: "byte \<Rightarrow> bool" where
  "is_digit c \<longleftrightarrow> 48 \<le> unat c \<and> unat c \<le> 57"

definition digit_val :: "byte \<Rightarrow> nat" where
  "digit_val c = unat c - 48"

fun strcasecmp_eq :: "bytes \<Rightarrow> bytes \<Rightarrow> bool" where
  "strcasecmp_eq [] [] = True"
| "strcasecmp_eq (a # as) (b # bs) = (char_eq True a b \<and> strcasecmp_eq as bs)"
| "strcasecmp_eq _ _ = False"

text \<open>
  \<open>strtoll\<close> in base 10 on an optional minus sign followed by digits: the clamped value.
  \<open>wrap64\<close> is the two's complement result of the final \<open>val*mul\<close>.
\<close>

definition strtoll10 :: "bytes \<Rightarrow> int" where
  "strtoll10 b =
     (let (neg, ds) = (case b of c # r \<Rightarrow> if c = 45 then (True, r) else (False, b) | [] \<Rightarrow> (False, b));
          n = int (foldl (\<lambda>a c. 10 * a + digit_val c) 0 ds)
      in if neg then max LLONG_MIN (- n) else min LLONG_MAX n)"

definition wrap64 :: "int \<Rightarrow> int" where
  "wrap64 v = (v + 9223372036854775808) mod 18446744073709551616 - 9223372036854775808"

definition mem_unit :: "bytes \<Rightarrow> int \<times> bool" where
  "mem_unit u =
     (if u = [] \<or> strcasecmp_eq u (map of_char ''b'') then (1, False)
      else if strcasecmp_eq u (map of_char ''k'') then (1000, False)
      else if strcasecmp_eq u (map of_char ''kb'') then (1024, False)
      else if strcasecmp_eq u (map of_char ''m'') then (1000 * 1000, False)
      else if strcasecmp_eq u (map of_char ''mb'') then (1024 * 1024, False)
      else if strcasecmp_eq u (map of_char ''g'') then (1000 * 1000 * 1000, False)
      else if strcasecmp_eq u (map of_char ''gb'') then (1024 * 1024 * 1024, False)
      else (1, True))"

text \<open>\<open>memtoll\<close> returns the value and the error flag.\<close>

definition memtoll :: "bytes \<Rightarrow> int \<times> bool" where
  "memtoll p =
     (let sign = (case p of c # _ \<Rightarrow> c = 45 | [] \<Rightarrow> False);
          rest = (if sign then tl p else p);
          u = dropWhile is_digit rest;
          digits = length p - length u;
          (mul, err) = mem_unit u
      in if digits \<ge> 128 then (LLONG_MAX, True)
         else (wrap64 (strtoll10 (take digits p) * mul), err))"

section \<open>Decimal text\<close>

fun digits10 :: "nat \<Rightarrow> nat" where
  "digits10 v =
     (if v < 10 then 1
      else if v < 100 then 2
      else if v < 1000 then 3
      else if v < 1000000000000 then
        (if v < 100000000 then
           (if v < 1000000 then (if v < 10000 then 4 else 5 + (if v \<ge> 100000 then 1 else 0))
            else 7 + (if v \<ge> 10000000 then 1 else 0))
         else if v < 10000000000 then 9 + (if v \<ge> 1000000000 then 1 else 0)
         else 11 + (if v \<ge> 100000000000 then 1 else 0))
      else 12 + digits10 (v div 1000000000000))"

declare digits10.simps [simp del]

definition digit_table :: bytes where
  "digit_table = map of_char
    (''0001020304050607080910111213141516171819'' @
     ''2021222324252627282930313233343536373839'' @
     ''4041424344454647484950515253545556575859'' @
     ''6061626364656667686970717273747576777879'' @
     ''8081828384858687888990919293949596979899'')"

definition put :: "bytes \<Rightarrow> int \<Rightarrow> byte \<Rightarrow> bytes option" where
  "put dst k b = (if 0 \<le> k \<and> nat k < length dst then Some (dst[nat k := b]) else None)"

definition put2 :: "bytes \<Rightarrow> int \<Rightarrow> nat \<Rightarrow> bytes option" where
  "put2 dst k i = Option.bind (put dst k (digit_table ! (i + 1)))
     (\<lambda>d. put d (k - 1) (digit_table ! i))"

text \<open>The \<open>while (value >= 100)\<close> loop, then the last one or two digits.\<close>

fun ll2string_digits :: "nat \<Rightarrow> int \<Rightarrow> bytes \<Rightarrow> bytes option" where
  "ll2string_digits value nxt dst =
     (if value \<ge> 100 then
        (case put2 dst nxt ((value mod 100) * 2) of None \<Rightarrow> None
         | Some d \<Rightarrow> ll2string_digits (value div 100) (nxt - 2) d)
      else if value < 10 then put dst nxt (48 + of_nat value)
      else put2 dst nxt (value * 2))"

declare ll2string_digits.simps [simp del]

definition ll2string :: "bytes \<Rightarrow> nat \<Rightarrow> int \<Rightarrow> (nat \<times> bytes) option" where
  "ll2string dst dstlen svalue =
     (let (value, negative) =
            (if svalue < 0 then
               ((if svalue \<noteq> LLONG_MIN then nat (- svalue) else nat LLONG_MAX + 1), True)
             else (nat svalue, False));
          len = digits10 value + (if negative then 1 else 0)
      in if len \<ge> dstlen then Some (0, dst)
         else Option.bind (put dst (int len) 0) (\<lambda>d.
              Option.bind (ll2string_digits value (int len - 1) d) (\<lambda>d.
              if negative then map_option (Pair len) (put d 0 45) else Some (len, d))))"

fun string2ll_loop :: "nat \<Rightarrow> bytes \<Rightarrow> (nat \<times> bytes) option" where
  "string2ll_loop v [] = Some (v, [])"
| "string2ll_loop v (c # cs) =
     (if is_digit c then
        (if v > ULLONG_MAX div 10 then None
         else let v = (v * 10) mod 2 ^ 64 in
              if v > ULLONG_MAX - digit_val c then None
              else string2ll_loop ((v + digit_val c) mod 2 ^ 64) cs)
      else Some (v, c # cs))"

definition string2ll :: "bytes \<Rightarrow> int option" where
  "string2ll s =
     (if s = [] then None
      else if length s = 1 \<and> hd s = 48 then Some 0
      else
        let negative = (hd s = 45); p = (if negative then tl s else s) in
        if p = [] then None
        else if 49 \<le> unat (hd p) \<and> unat (hd p) \<le> 57 then
          (case string2ll_loop (digit_val (hd p)) (tl p) of
             None \<Rightarrow> None
           | Some (v, rest) \<Rightarrow>
               if rest \<noteq> [] then None
               else if negative then
                 (if int v > (- (LLONG_MIN + 1)) + 1 then None else Some (- int v))
               else if int v > LLONG_MAX then None else Some (int v))
        else if hd p = 48 \<and> length s = 1 then Some 0
        else None)"

text \<open>\<open>long\<close> has \<open>w\<close> bits: 32 on the Windows build, 64 on the Unix one.\<close>

definition string2l :: "nat \<Rightarrow> bytes \<Rightarrow> int option" where
  "string2l w s = (case string2ll s of None \<Rightarrow> None
     | Some v \<Rightarrow> if v < - (2 ^ (w - 1)) \<or> v > 2 ^ (w - 1) - 1 then None else Some v)"

definition pathIsBaseName :: "bytes \<Rightarrow> bool" where
  "pathIsBaseName path \<longleftrightarrow> (of_char (CHR ''/'') \<notin> set (c_str path)) \<and> 92 \<notin> set (c_str path)"

section \<open>Glob patterns without bracket expressions\<close>

datatype tok = Any | Star | Lit byte

fun parse_glob :: "bytes \<Rightarrow> tok list" where
  "parse_glob [] = []"
| "parse_glob (c # cs) =
     (if c = 42 then Star # parse_glob cs
      else if c = 63 then Any # parse_glob cs
      else if c = 92 then (case cs of [] \<Rightarrow> [Lit c] | d # ds \<Rightarrow> Lit d # parse_glob ds)
      else Lit c # parse_glob cs)"

fun glob :: "bool \<Rightarrow> tok list \<Rightarrow> bytes \<Rightarrow> bool" where
  "glob nocase [] s = (s = [])"
| "glob nocase (Lit c # ts) s = (case s of [] \<Rightarrow> False | x # xs \<Rightarrow> char_eq nocase c x \<and> glob nocase ts xs)"
| "glob nocase (Any # ts) s = (case s of [] \<Rightarrow> False | x # xs \<Rightarrow> glob nocase ts xs)"
| "glob nocase (Star # ts) s = (\<exists>k \<le> length s. glob nocase ts (drop k s))"

lemma glob_star_star: "glob nocase (Star # Star # ts) s = glob nocase (Star # ts) s"
proof
  assume "glob nocase (Star # Star # ts) s"
  then obtain k m where "k \<le> length s" "m \<le> length s - k" "glob nocase ts (drop m (drop k s))" by auto
  then show "glob nocase (Star # ts) s" by (auto intro!: exI [of _ "m + k"])
next
  assume "glob nocase (Star # ts) s"
  then have "0 \<le> length s \<and> glob nocase (Star # ts) (drop 0 s)" by simp
  then show "glob nocase (Star # Star # ts) s" using glob.simps(4) [of nocase "Star # ts" s] by blast
qed

lemma glob_Nil: "glob nocase ts [] \<longleftrightarrow> set ts \<subseteq> {Star}"
  by (induction nocase ts "[] :: bytes" rule: glob.induct) auto

lemma parse_glob_skip: "i < length p \<Longrightarrow> p ! i = 42 \<Longrightarrow>
   glob nocase (parse_glob (drop i p)) s = glob nocase (parse_glob (drop (skip_stars p i) p)) s
   \<and> p ! skip_stars p i = 42 \<and> sat p (skip_stars p i + 1) \<noteq> Some 42"
proof (induction p i rule: skip_stars.induct)
  case (1 p i)
  show ?case
  proof (cases "sat p (i + 1) = Some 42")
    case True
    then have l: "Suc i < length p" "p ! Suc i = 42" by (auto simp: sat_def split: if_splits)
    have "drop i p = 42 # 42 # drop (Suc (Suc i)) p"
      using l 1(2,3) by (metis Cons_nth_drop_Suc Suc_lessD)
    moreover have "drop (Suc i) p = 42 # drop (Suc (Suc i)) p"
      using l by (metis Cons_nth_drop_Suc)
    ultimately have "glob nocase (parse_glob (drop i p)) s = glob nocase (parse_glob (drop (Suc i) p)) s"
      using glob_star_star by simp
    moreover have "skip_stars p i = skip_stars p (Suc i)" using True by (subst skip_stars.simps) simp
    ultimately show ?thesis using 1(1) True l by simp
  next
    case False
    then show ?thesis using 1 by (subst (1 2 3) skip_stars.simps) auto
  qed
qed

lemma skip_trailing_iff:
  "i \<le> length p \<Longrightarrow> 91 \<notin> set p \<Longrightarrow> skip_trailing p i = length p \<longleftrightarrow> set (parse_glob (drop i p)) \<subseteq> {Star}"
proof (induction p i rule: skip_trailing.induct)
  case (1 p i)
  show ?case
  proof (cases "sat p i = Some 42")
    case True
    then have l: "i < length p" "p ! i = 42" by (auto simp: sat_def split: if_splits)
    then have "drop i p = 42 # drop (Suc i) p" by (metis Cons_nth_drop_Suc)
    moreover have "skip_trailing p i = skip_trailing p (Suc i)" using True by (subst skip_trailing.simps) simp
    ultimately show ?thesis using 1 True l by simp
  next
    case False
    have e: "skip_trailing p i = i" using False by (subst skip_trailing.simps) simp
    show ?thesis
    proof (cases "i = length p")
      case False
      with 1 have l: "i < length p" by simp
      then have "drop i p = p ! i # drop (Suc i) p" by (metis Cons_nth_drop_Suc)
      moreover have "p ! i \<noteq> 42" using \<open>sat p i \<noteq> Some 42\<close> l by (auto simp: sat_def)
      ultimately show ?thesis using e l by (auto split: list.splits)
    qed (use e in simp)
  qed
qed

lemma char_eq_nul: "c \<noteq> 0 \<Longrightarrow> \<not> char_eq nocase c 0"
  using signed_eq_0_iff [of c] by (auto simp: char_eq_def c_tolower_def split: if_splits)

text \<open>One non-star step of the matcher agrees with one token of the reference.\<close>

lemma sm_literal_glob:
  assumes "i < length p" "j \<le> length s" "p ! i \<noteq> 0"
  shows "sm_literal nocase p s i j =
    Some (if j < length s \<and> char_eq nocase (p ! i) (s ! j) then Inr (i, j + 1) else Inl False)"
  using assms char_eq_nul [of "p ! i" nocase]
  by (auto simp: sm_literal_def sat_def step_string_def split: if_splits)

definition after_case :: "bool \<Rightarrow> bytes \<Rightarrow> bytes \<Rightarrow> (bool + nat \<times> nat) option \<Rightarrow> bool option" where
  "after_case nocase p s r = (case r of None \<Rightarrow> None | Some (Inl b) \<Rightarrow> Some b
     | Some (Inr (i', j')) \<Rightarrow> Some (glob nocase (parse_glob (drop (i' + 1) p)) (drop j' s)))"

lemma sm_case_glob:
  assumes "i < length p" "j \<le> length s" "91 \<notin> set p" "0 \<notin> set p" "p ! i \<noteq> 42"
  shows "after_case nocase p s (sm_case nocase p s i j)
       = Some (glob nocase (parse_glob (drop i p)) (drop j s))"
proof -
  have nz: "\<And>k. k < length p \<Longrightarrow> p ! k \<noteq> 0" "p ! i \<noteq> 91" using assms nth_mem by metis+
  have d: "drop i p = p ! i # drop (Suc i) p" using assms(1) by (metis Cons_nth_drop_Suc)
  have ds: "drop j s = (if j < length s then s ! j # drop (Suc j) s else [])"
    using assms(2) by (simp add: Cons_nth_drop_Suc)
  consider "p ! i = 63" | "p ! i = 92" "Suc i < length p" | "p ! i = 92" "Suc i = length p"
    | "p ! i \<noteq> 63" "p ! i \<noteq> 92" using assms(1) by linarith
  then show ?thesis
  proof cases
    case 1
    then show ?thesis using assms d ds
      by (auto simp: sm_case_def sat_def step_string_def after_case_def)
  next
    case 2
    have d2: "drop (Suc i) p = p ! Suc i # drop (Suc (Suc i)) p" using 2 by (metis Cons_nth_drop_Suc)
    have "sm_case nocase p s i j = sm_literal nocase p s (Suc i) j"
      using 2 assms by (auto simp: sm_case_def sat_def)
    then show ?thesis using 2 sm_literal_glob [of "Suc i" p j s nocase] assms d d2 ds nz(1) [of "Suc i"]
      by (auto simp: after_case_def)
  next
    case 3
    have "sm_case nocase p s i j = sm_literal nocase p s i j"
      using 3 assms by (auto simp: sm_case_def sat_def)
    then show ?thesis using 3 sm_literal_glob [of i p j s nocase] assms d ds nz
      by (auto simp: after_case_def)
  next
    case 4
    have "sm_case nocase p s i j = sm_literal nocase p s i j"
      using 4 assms nz by (simp add: sm_case_def sat_def)
    then show ?thesis using 4 sm_literal_glob [of i p j s nocase] assms d ds nz
      by (auto simp: after_case_def)
  qed
qed

lemma glob_star_rest:
  assumes "ts \<noteq> []" "hd ts \<noteq> Star"
  shows "glob nocase (Star # ts) s \<longleftrightarrow> (\<exists>k < length s. glob nocase ts (drop k s))"
proof -
  have "\<not> glob nocase ts []" using assms by (cases ts) (auto simp: glob_Nil)
  then show ?thesis by (auto simp: le_less)
qed

lemma stringmatch_glob:
  assumes "91 \<notin> set p" "0 \<notin> set p"
  shows "i \<le> length p \<Longrightarrow> j \<le> length s \<Longrightarrow>
      stringmatch_at nocase p s i j = Some (glob nocase (parse_glob (drop i p)) (drop j s))"
    and "i + 1 < length p \<Longrightarrow> j \<le> length s \<Longrightarrow>
      stringmatch_star nocase p s i j
        = Some (\<exists>k. j \<le> k \<and> k < length s \<and> glob nocase (parse_glob (drop (i + 1) p)) (drop k s))"
  using assms
proof (induction nocase p s i j and nocase p s i j rule: stringmatch_at_stringmatch_star.induct)
  case (1 nocase p s i j)
  show ?case
  proof (cases "i = length p")
    case True
    then show ?thesis using 1 by (subst stringmatch_at.simps) auto
  next
    case False
    then have il: "i < length p" using 1 by simp
    show ?thesis
    proof (cases "p ! i = 42")
      case True
      let ?i = "skip_stars p i"
      have b: "i \<le> ?i" "?i < length p" using skip_stars_bounds [OF il] by auto
      note sk = parse_glob_skip [OF il True, of nocase]
      have st: "sat p i = Some 42" using il True by (simp add: sat_def)
      have dd: "drop ?i p = 42 # drop (Suc ?i) p" using b sk by (metis Cons_nth_drop_Suc)
      show ?thesis
      proof (cases "length p - ?i = 1")
        case True
        then have "drop (Suc ?i) p = []" by simp
        then have "glob nocase (parse_glob (drop i p)) (drop j s)" using sk dd by auto
        then show ?thesis using il st True by (subst stringmatch_at.simps) (simp add: Let_def)
      next
        case False
        then have l: "?i + 1 < length p" using b by linarith
        have "p ! Suc ?i \<noteq> 42" using sk l by (auto simp: sat_def)
        then have "parse_glob (drop (Suc ?i) p) \<noteq> []" "hd (parse_glob (drop (Suc ?i) p)) \<noteq> Star"
          using l Cons_nth_drop_Suc [of "Suc ?i" p] by (auto simp flip: Cons_nth_drop_Suc split: list.splits)
        note gs = glob_star_rest [OF this, of nocase "drop j s"]
        have "(\<exists>k. j \<le> k \<and> k < length s \<and> glob nocase (parse_glob (drop (Suc ?i) p)) (drop k s))
           \<longleftrightarrow> (\<exists>k < length (drop j s). glob nocase (parse_glob (drop (Suc ?i) p)) (drop k (drop j s)))"
          (is "?A \<longleftrightarrow> ?B")
        proof
          assume ?A
          then obtain k where "j \<le> k" "k < length s" "glob nocase (parse_glob (drop (Suc ?i) p)) (drop k s)" by blast
          then show ?B by (intro exI [of _ "k - j"]) auto
        next
          assume ?B
          then obtain k where "k < length s - j" "glob nocase (parse_glob (drop (Suc ?i) p)) (drop (k + j) s)"
            by (auto simp: add.commute)
          then show ?A by (intro exI [of _ "k + j"]) auto
        qed
        then show ?thesis using 1(1) [OF _ st refl False] il st False l 1(3-) sk dd gs
          by (subst stringmatch_at.simps) (simp add: Let_def)
      qed
    next
      case False
      then have ns: "sat p i \<noteq> Some 42" using il by (simp add: sat_def)
      note sc = sm_case_glob [OF il 1(4,5,6) False, of nocase]
      show ?thesis
      proof (cases "sm_case nocase p s i j")
        case None
        then show ?thesis using sc by (simp add: after_case_def)
      next
        case (Some r)
        show ?thesis
        proof (cases r)
          case (Inl b)
          then show ?thesis using sc Some il ns by (subst stringmatch_at.simps) (simp add: after_case_def)
        next
          case (Inr q)
          obtain i' j' where q: "q = (i', j')" by (cases q)
          have sc2: "sm_case nocase p s i j = Some (Inr (i', j'))" using Some Inr q by simp
          have bd: "i \<le> i'" "i' < length p" "j' = j + 1" "j < length s"
            using sm_case_bounds [OF sc2 il] by auto
          have g: "glob nocase (parse_glob (drop i p)) (drop j s)
                 = glob nocase (parse_glob (drop (i' + 1) p)) (drop j' s)"
            using sc sc2 by (simp add: after_case_def)
          show ?thesis
          proof (cases "j' = length s")
            case True
            then show ?thesis using il ns sc2 g bd 1(5) skip_trailing_iff [of "i' + 1" p]
              by (subst stringmatch_at.simps) (simp add: glob_Nil)
          next
            case False
            then show ?thesis using il ns sc2 g bd 1(2) [OF _ ns sc2 refl refl False] 1(5,6)
              by (subst stringmatch_at.simps) simp
          qed
        qed
      qed
    qed
  qed
next
  case (2 nocase p s i j)
  show ?case
  proof (cases "j = length s")
    case True
    then show ?thesis using 2 by (subst stringmatch_star.simps) auto
  next
    case False
    then have jl: "j < length s" using 2 by simp
    have at: "stringmatch_at nocase p s (i + 1) j = Some (glob nocase (parse_glob (drop (i + 1) p)) (drop j s))"
      using 2(1) jl 2(3-) by simp
    have ex: "(\<exists>k. j \<le> k \<and> k < length s \<and> glob nocase (parse_glob (drop (i + 1) p)) (drop k s))
       \<longleftrightarrow> glob nocase (parse_glob (drop (i + 1) p)) (drop j s) \<or>
          (\<exists>k. j + 1 \<le> k \<and> k < length s \<and> glob nocase (parse_glob (drop (i + 1) p)) (drop k s))"
      using jl by (metis Suc_eq_plus1 Suc_leD le_antisym not_less_eq_eq order_refl)
    show ?thesis
      using 2 jl at ex by (subst stringmatch_star.simps) (auto split: bool.splits)
  qed
qed

section \<open>Decimal text: the reference printer\<close>

definition dchar :: "nat \<Rightarrow> byte" where
  "dchar k = of_nat (48 + k)"

fun dec :: "nat \<Rightarrow> bytes" where
  "dec n = (if n < 10 then [dchar n] else dec (n div 10) @ [dchar (n mod 10)])"

declare dec.simps [simp del]

definition decimal :: "int \<Rightarrow> bytes" where
  "decimal v = (if v < 0 then 45 # dec (nat (- v)) else dec (nat v))"

lemma dec_small [simp]: "n < 10 \<Longrightarrow> dec n = [dchar n]"
  by (simp add: dec.simps [of n])

lemma dec_step: "10 \<le> n \<Longrightarrow> dec n = dec (n div 10) @ [dchar (n mod 10)]"
  by (simp add: dec.simps [of n])

lemma dec_nonempty [simp]: "dec n \<noteq> []"
  by (simp add: dec.simps [of n])

lemma length_dec_pow: "10 ^ k \<le> n \<Longrightarrow> length (dec n) = k + length (dec (n div 10 ^ k))"
proof (induction k arbitrary: n)
  case (Suc k)
  have "10 * 10 ^ k \<le> n" using Suc.prems by simp
  then have "10 ^ k \<le> n div 10" by (simp add: less_eq_div_iff_mult_less_eq mult.commute)
  moreover have "(1::nat) \<le> 10 ^ k" by simp
  ultimately have "10 \<le> n" using \<open>10 * 10 ^ k \<le> n\<close> by linarith
  then have "length (dec n) = Suc (length (dec (n div 10)))" by (simp add: dec_step)
  also have "\<dots> = Suc (k + length (dec (n div 10 div 10 ^ k)))"
    using Suc.IH [OF \<open>10 ^ k \<le> n div 10\<close>] by simp
  finally show ?case by (simp add: div_mult2_eq)
qed simp

lemma length_dec_eq: "10 ^ k \<le> n \<Longrightarrow> n < 10 ^ Suc k \<Longrightarrow> length (dec n) = Suc k"
proof -
  assume lo: "10 ^ k \<le> n" and hi: "n < 10 ^ Suc k"
  have "n div 10 ^ k < 10" using hi by (simp add: less_mult_imp_div_less)
  then show ?thesis using length_dec_pow [OF lo] by simp
qed

lemma digits10_dec: "digits10 v = length (dec v)"
proof (induction v rule: digits10.induct)
  case (1 v)
  have "10 \<le> v \<Longrightarrow> v < 100 \<Longrightarrow> length (dec v) = 2" using length_dec_eq [of 1 v] by simp
  moreover have "100 \<le> v \<Longrightarrow> v < 1000 \<Longrightarrow> length (dec v) = 3" using length_dec_eq [of 2 v] by simp
  moreover have "1000 \<le> v \<Longrightarrow> v < 10000 \<Longrightarrow> length (dec v) = 4" using length_dec_eq [of 3 v] by simp
  moreover have "10000 \<le> v \<Longrightarrow> v < 100000 \<Longrightarrow> length (dec v) = 5" using length_dec_eq [of 4 v] by simp
  moreover have "100000 \<le> v \<Longrightarrow> v < 1000000 \<Longrightarrow> length (dec v) = 6" using length_dec_eq [of 5 v] by simp
  moreover have "1000000 \<le> v \<Longrightarrow> v < 10000000 \<Longrightarrow> length (dec v) = 7" using length_dec_eq [of 6 v] by simp
  moreover have "10000000 \<le> v \<Longrightarrow> v < 100000000 \<Longrightarrow> length (dec v) = 8" using length_dec_eq [of 7 v] by simp
  moreover have "100000000 \<le> v \<Longrightarrow> v < 1000000000 \<Longrightarrow> length (dec v) = 9" using length_dec_eq [of 8 v] by simp
  moreover have "1000000000 \<le> v \<Longrightarrow> v < 10000000000 \<Longrightarrow> length (dec v) = 10" using length_dec_eq [of 9 v] by simp
  moreover have "10000000000 \<le> v \<Longrightarrow> v < 100000000000 \<Longrightarrow> length (dec v) = 11" using length_dec_eq [of 10 v] by simp
  moreover have "100000000000 \<le> v \<Longrightarrow> v < 1000000000000 \<Longrightarrow> length (dec v) = 12" using length_dec_eq [of 11 v] by simp
  moreover have "1000000000000 \<le> v \<Longrightarrow> length (dec v) = 12 + length (dec (v div 1000000000000))"
    using length_dec_pow [of 12 v] by simp
  ultimately show ?case using 1 by (subst digits10.simps) (simp add: not_less)
qed

lemma nth_concat_pairs:
  "k < n \<Longrightarrow> concat (map (\<lambda>k. [f k, g k]) [0..<n]) ! (2 * k) = f k \<and>
            concat (map (\<lambda>k. [f k, g k]) [0..<n]) ! (2 * k + 1) = g k"
proof (induction n)
  case (Suc n)
  have len: "length (concat (map (\<lambda>k. [f k, g k]) [0..<n])) = 2 * n" by (induction n) auto
  show ?case using Suc len by (cases "k = n") (auto simp: nth_append)
qed simp

lemma digit_table_concat:
  "digit_table = concat (map (\<lambda>k. [dchar (k div 10), dchar (k mod 10)]) [0..<100])"
proof -
  have "[0..<100] = 0 # 1 # [2..<100::nat]" by (simp add: upt_conv_Cons numeral_2_eq_2)
  then show ?thesis by (simp add: digit_table_def dchar_def)
qed

lemma digit_table_pair:
  assumes "k < 100"
  shows "digit_table ! (2 * k) = dchar (k div 10)"
    and "digit_table ! (2 * k + 1) = dchar (k mod 10)"
  using nth_concat_pairs [OF assms, of "\<lambda>k. dchar (k div 10)" "\<lambda>k. dchar (k mod 10)"]
  by (simp_all only: digit_table_concat)

lemma put_at: "put (xs @ y # ys) (int (length xs)) b = Some (xs @ b # ys)"
  by (simp add: put_def)

lemma put2_at:
  assumes "k < 100"
  shows "put2 (xs @ y # z # ys) (int (Suc (length xs))) (2 * k)
       = Some (xs @ dchar (k div 10) # dchar (k mod 10) # ys)"
  using put_at [of "xs @ [y]" z ys] put_at [of xs y "dchar (k mod 10) # ys"]
  by (simp add: put2_def digit_table_pair [OF assms, simplified])

lemma dec_step100:
  assumes "100 \<le> n"
  shows "dec n = dec (n div 100) @ [dchar (n mod 100 div 10), dchar (n mod 100 mod 10)]"
proof -
  have m: "n mod 100 = 10 * (n div 10 mod 10) + n mod 10" using mod_mult2_eq [of n 10 10] by simp
  have "n div 10 mod 10 = n mod 100 div 10" unfolding m by simp
  moreover have "n mod 10 = n mod 100 mod 10" unfolding m by simp
  moreover have "n div 10 div 10 = n div 100" by (simp add: div_mult2_eq [symmetric])
  moreover have "10 \<le> n div 10" using assms by linarith
  ultimately show ?thesis
    using assms dec_step [of n] dec_step [of "n div 10"] by simp
qed

lemma ll2string_digits_correct:
  "length ys = length (dec v) \<Longrightarrow>
   ll2string_digits v (int (length xs + length (dec v)) - 1) (xs @ ys @ zs) = Some (xs @ dec v @ zs)"
proof (induction v arbitrary: ys zs rule: less_induct)
  case (less v)
  consider "v < 10" | "10 \<le> v" "v < 100" | "100 \<le> v" by linarith
  then show ?case
  proof cases
    case 1
    then obtain y where "ys = [y]" using less.prems by (auto simp: length_Suc_conv)
    with 1 put_at [of xs y zs] show ?thesis by (simp add: ll2string_digits.simps [of v] dchar_def)
  next
    case 2
    then have d: "dec v = [dchar (v div 10), dchar (v mod 10)]"
      by (simp add: dec_step)
    then obtain y z where "ys = [y, z]" using less.prems by (auto simp: length_Suc_conv)
    with 2 d put2_at [of v xs y z zs] show ?thesis
      by (simp add: ll2string_digits.simps [of v] mult.commute)
  next
    case 3
    let ?k = "v mod 100" and ?v = "v div 100"
    note d = dec_step100 [OF 3]
    have "length ys = length (dec ?v) + 2" using less.prems d by simp
    then have "length ys = Suc (Suc (length (dec ?v)))" by simp
    then obtain us y z where ys: "ys = us @ [y, z]" "length us = length (dec ?v)"
      by (auto simp: length_Suc_conv_rev)
    have kk: "?k < 100" by simp
    have "put2 (xs @ ys @ zs) (int (length xs + length (dec v)) - 1) (?k * 2)
        = Some ((xs @ us) @ dchar (?k div 10) # dchar (?k mod 10) # zs)"
      using put2_at [OF kk, of "xs @ us" y z zs] ys d by (simp add: mult.commute algebra_simps)
    moreover have "ll2string_digits ?v (int (length xs + length (dec v)) - 1 - 2)
        (xs @ us @ (dchar (?k div 10) # dchar (?k mod 10) # zs))
        = Some (xs @ dec ?v @ (dchar (?k div 10) # dchar (?k mod 10) # zs))"
      using less.IH [of ?v us] ys(2) 3 d by simp
    ultimately show ?thesis using 3 d by (simp add: ll2string_digits.simps [of v])
  qed
qed

lemma split3:
  "a + b < length xs \<Longrightarrow> xs = take a xs @ take b (drop a xs) @ xs ! (a + b) # drop (Suc (a + b)) xs"
  by (metis Cons_nth_drop_Suc append_take_drop_id drop_drop add.commute)

lemma ll2string_spec:
  assumes "int64_range v" "dstlen \<le> length dst"
  shows "ll2string dst dstlen v =
    (if length (decimal v) < dstlen
     then Some (length (decimal v), decimal v @ [0] @ drop (Suc (length (decimal v))) dst)
     else Some (0, dst))"
proof -
  define n where "n = (if v < 0 then nat (- v) else nat v)"
  define neg where "neg = (v < 0)"
  have dv: "decimal v = (if neg then [45] else []) @ dec n"
    by (simp add: decimal_def n_def neg_def)
  have ll: "ll2string dst dstlen v =
     (let len = digits10 n + (if neg then 1 else 0)
      in if len \<ge> dstlen then Some (0, dst)
         else Option.bind (put dst (int len) 0) (\<lambda>d.
              Option.bind (ll2string_digits n (int len - 1) d) (\<lambda>d.
              if neg then map_option (Pair len) (put d 0 45) else Some (len, d))))"
    by (auto simp: ll2string_def n_def neg_def Let_def add.commute)
  let ?len = "length (decimal v)"
  have len: "digits10 n + (if neg then 1 else 0) = ?len"
    by (simp add: dv digits10_dec)
  show ?thesis
  proof (cases "?len < dstlen")
    case False
    then show ?thesis by (simp only: ll Let_def len) simp
  next
    case True
    let ?x = "take (if neg then 1 else 0) dst" and ?y = "take (length (dec n)) (drop (if neg then 1 else 0) dst)"
    let ?z = "drop (Suc ?len) dst"
    have l: "Suc ?len \<le> length dst" using True assms(2) by linarith
    have split: "dst = ?x @ ?y @ dst ! ?len # ?z"
      using l split3 [of "if neg then 1 else 0" "length (dec n)" dst] by (auto simp: dv)
    have lx: "length ?x = (if neg then 1 else 0)" "length ?y = length (dec n)" using l by (auto simp: dv)
    have p1: "put dst (int ?len) 0 = Some (?x @ ?y @ 0 # ?z)"
      using put_at [of "?x @ ?y" "dst ! ?len" ?z 0] split lx by (cases neg) (simp_all add: dv)
    have p2: "ll2string_digits n (int ?len - 1) (?x @ ?y @ 0 # ?z) = Some (?x @ dec n @ 0 # ?z)"
      using ll2string_digits_correct [OF lx(2), of ?x "0 # ?z"] lx(1) by (cases neg) (simp_all add: dv)
    have p3: "neg \<Longrightarrow> put (?x @ dec n @ 0 # ?z) 0 45 = Some (45 # dec n @ 0 # ?z)"
      using l by (cases dst) (auto simp: put_def)
    show ?thesis using True p1 p2 p3 lx(1) 
      by (simp only: ll Let_def len) (simp add: dv)
  qed
qed

definition dval :: "nat \<Rightarrow> bytes \<Rightarrow> nat" where
  "dval v ds = foldl (\<lambda>a c. 10 * a + digit_val c) v ds"

lemma dval_simps [simp]: "dval v [] = v" "dval v (c # cs) = dval (10 * v + digit_val c) cs"
  "dval v (cs @ [c]) = 10 * dval v cs + digit_val c"
  by (simp_all add: dval_def)

lemma dval_ge: "v \<le> dval v ds"
proof (induction ds arbitrary: v)
  case (Cons c cs)
  have "10 * v + digit_val c \<le> dval (10 * v + digit_val c) cs" by (rule Cons.IH)
  then show ?case by simp
qed simp

lemma digit_val_less: "is_digit c \<Longrightarrow> digit_val c < 10"
  by (auto simp: is_digit_def digit_val_def)

lemma unat_dchar: "k < 10 \<Longrightarrow> unat (dchar k) = 48 + k"
  unfolding dchar_def by (subst unat_of_nat) simp

lemma digit_dchar [simp]: "k < 10 \<Longrightarrow> is_digit (dchar k)" "k < 10 \<Longrightarrow> digit_val (dchar k) = k"
  by (simp_all add: is_digit_def digit_val_def unat_dchar)

lemma dchar_digit_val: "is_digit c \<Longrightarrow> dchar (digit_val c) = c"
  unfolding is_digit_def digit_val_def dchar_def by simp

lemma digit_nonzero: "is_digit c \<Longrightarrow> c \<noteq> 48 \<Longrightarrow> 49 \<le> unat c \<and> unat c \<le> 57 \<and> 0 < digit_val c"
  using word_unat_eq_iff [of c 48] by (auto simp: is_digit_def digit_val_def)

lemma string2ll_loop_digits:
  assumes "\<forall>c \<in> set ds. is_digit c" "v \<le> ULLONG_MAX"
  shows "string2ll_loop v ds = (if dval v ds \<le> ULLONG_MAX then Some (dval v ds, []) else None)"
  using assms
proof (induction ds arbitrary: v)
  case (Cons c cs)
  let ?w = "10 * v + digit_val c"
  have d: "is_digit c" "digit_val c < 10" using Cons.prems digit_val_less by auto
  have ge: "?w \<le> dval ?w cs" by (rule dval_ge)
  show ?case
  proof (cases "?w \<le> ULLONG_MAX")
    case True
    then have "(v * 10) mod 2 ^ 64 = 10 * v" "?w mod 2 ^ 64 = ?w" by simp_all
    moreover have "\<not> ULLONG_MAX div 10 < v" "\<not> ULLONG_MAX - digit_val c < 10 * v" using True by simp_all
    ultimately show ?thesis using True d Cons.IH [of ?w] Cons.prems by (simp add: Let_def mult.commute)
  next
    case False
    then have no: "\<not> dval ?w cs \<le> ULLONG_MAX" using ge by linarith
    show ?thesis
    proof (cases "ULLONG_MAX div 10 < v")
      case True
      then show ?thesis using d no by simp
    next
      case ok: False
      then have "(v * 10) mod 2 ^ 64 = v * 10" "ULLONG_MAX - digit_val c < v * 10"
        using False d(2) by (simp, linarith)
      then show ?thesis using d no False ok by (simp add: Let_def)
    qed
  qed
qed simp

lemma string2ll_loop_all_digits:
  "string2ll_loop v cs = Some (v', []) \<Longrightarrow> \<forall>c \<in> set cs. is_digit c"
  by (induction v cs rule: string2ll_loop.induct) (auto simp: Let_def split: if_splits)

lemma set_dec: "c \<in> set (dec n) \<Longrightarrow> is_digit c"
proof (induction n rule: dec.induct)
  case (1 n)
  then show ?case by (cases "n < 10") (auto simp: dec_step)
qed

lemma dval_dec: "dval 0 (dec n) = n"
proof (induction n rule: dec.induct)
  case (1 n)
  then show ?case by (cases "n < 10") (auto simp: dec_step)
qed

lemma hd_dec: "0 < n \<Longrightarrow> hd (dec n) \<noteq> 48"
proof (induction n rule: dec.induct)
  case (1 n)
  show ?case
  proof (cases "n < 10")
    case True
    then have "unat (dchar n) = 48 + n" by (rule unat_dchar)
    then have "dchar n \<noteq> 48" using 1(2) by auto
    then show ?thesis using True by simp
  next
    case False
    then show ?thesis using 1 by (simp add: dec_step)
  qed
qed

lemma dec_dval:
  "ds \<noteq> [] \<Longrightarrow> \<forall>c \<in> set ds. is_digit c \<Longrightarrow> hd ds \<noteq> 48 \<Longrightarrow> dec (dval 0 ds) = ds \<and> 0 < dval 0 ds"
proof (induction ds rule: rev_induct)
  case (snoc c cs)
  have c: "is_digit c" "digit_val c < 10" using snoc.prems digit_val_less by auto
  show ?case
  proof (cases "cs = []")
    case True
    then have "0 < digit_val c" using snoc.prems digit_nonzero [OF c(1)] by simp
    then show ?thesis using True c dchar_digit_val [OF c(1)] by simp
  next
    case False
    then have "dec (dval 0 cs) = cs" "0 < dval 0 cs" using snoc by auto
    then show ?thesis using c dchar_digit_val [OF c(1)] by (simp add: dec_step)
  qed
qed simp

text \<open>What the parser does after the sign: the digits of a positive number, or nothing.\<close>

lemma string2ll_pos:
  assumes "p \<noteq> []"
  shows "(if 49 \<le> unat (hd p) \<and> unat (hd p) \<le> 57
          then (case string2ll_loop (digit_val (hd p)) (tl p) of Some (v, []) \<Rightarrow> Some v | _ \<Rightarrow> None)
          else None)
       = Some n \<longleftrightarrow> 0 < n \<and> n \<le> ULLONG_MAX \<and> p = dec n" (is "?L = Some n \<longleftrightarrow> ?R")
proof -
  obtain c cs where p: "p = c # cs" using assms by (cases p) auto
  have first: "digit_val c = dval 0 [c]" by simp
  show ?thesis
  proof
    assume L: "?L = Some n"
    then have c: "is_digit c" "c \<noteq> 48" and lp: "string2ll_loop (digit_val c) cs = Some (n, [])"
      by (auto simp: p is_digit_def split: if_splits option.splits list.splits)
    from lp have ds: "\<forall>x \<in> set cs. is_digit x" by (rule string2ll_loop_all_digits)
    have "digit_val c \<le> ULLONG_MAX" using digit_val_less [OF c(1)] by simp
    from string2ll_loop_digits [OF ds this] lp
    have n: "n = dval (digit_val c) cs" "n \<le> ULLONG_MAX" by (auto split: if_splits)
    have "dec (dval 0 p) = p \<and> 0 < dval 0 p" using c ds by (intro dec_dval) (auto simp: p)
    then show ?R using n by (simp add: p)
  next
    assume R: ?R
    then have n: "n \<le> ULLONG_MAX" by blast
    have ds: "\<forall>x \<in> set p. is_digit x" and nz: "hd p \<noteq> 48" using R set_dec hd_dec by auto
    have c: "49 \<le> unat c \<and> unat c \<le> 57" using ds nz digit_nonzero [of c] by (simp add: p)
    have "digit_val c \<le> ULLONG_MAX" using digit_val_less [of c] ds p by simp
    moreover have "dval 0 (c # cs) = n" using R dval_dec [of n] p by metis
    ultimately show "?L = Some n"
      using string2ll_loop_digits [of cs "digit_val c"] ds c n by (simp add: p)
  qed
qed

lemma dec_hd_not_minus: "hd (dec n) \<noteq> 45"
  using set_dec [of "hd (dec n)" n] by (auto simp: is_digit_def)

lemma string2ll_spec: "string2ll s = Some v \<longleftrightarrow> int64_range v \<and> s = decimal v"
proof (cases "s = [] \<or> s = [48]")
  case True
  have zero: "decimal v = [48] \<longleftrightarrow> v = 0"
  proof
    assume d: "decimal v = [48]"
    then have "\<not> v < 0" "dval 0 (dec (nat v)) = 0" by (auto simp: decimal_def digit_val_def split: if_splits)
    then show "v = 0" using dval_dec [of "nat v"] by simp
  qed (simp add: decimal_def dchar_def)
  have "decimal v \<noteq> []" by (simp add: decimal_def)
  moreover have "string2ll [] = None" "string2ll [48] = Some 0" by (simp_all add: string2ll_def)
  ultimately show ?thesis using True zero by (elim disjE) (simp, metis zero option.inject
      neg_le_0_iff_le zero_le_numeral)
next
  case False
  define p where "p = (if hd s = 45 then tl s else s)"
  let ?q = "if 49 \<le> unat (hd p) \<and> unat (hd p) \<le> 57
     then (case string2ll_loop (digit_val (hd p)) (tl p) of Some (v, []) \<Rightarrow> Some v | _ \<Rightarrow> None) else None"
  have s1: "length s = 1 \<Longrightarrow> p \<noteq> [] \<Longrightarrow> hd p \<noteq> 48"
    using False by (cases s) (auto simp: p_def split: if_splits)
  have s2: "\<not> (length s = 1 \<and> hd s = 48)" using False by (cases s) auto
  have unf: "string2ll s = (if p = [] then None else (case ?q of None \<Rightarrow> None | Some n \<Rightarrow>
      if hd s = 45 then (if int n > 9223372036854775808 then None else Some (- int n))
      else if int n > LLONG_MAX then None else Some (int n)))"
    using s1 s2 False unfolding string2ll_def Let_def p_def [symmetric]
    by (auto split: option.split list.split)
  show ?thesis
  proof (cases "p = []")
    case True
    then have "s = [45]" using False by (cases s) (auto simp: p_def split: if_splits)
    moreover have "decimal v \<noteq> [45]" using dec_hd_not_minus [of "nat v"] by (auto simp: decimal_def)
    ultimately show ?thesis using True unf by auto
  next
    case ne: False
    note q = string2ll_pos [OF ne]
    have sp: "s = (if hd s = 45 then 45 # p else p)" using False by (cases s) (auto simp: p_def)
    show ?thesis
    proof (cases "hd s = 45")
      case True
      have "string2ll s = Some v \<longleftrightarrow> (\<exists>n. ?q = Some n \<and> int n \<le> 9223372036854775808 \<and> v = - int n)"
        using True ne unf by (auto split: option.splits)
      also have "\<dots> \<longleftrightarrow> (\<exists>n. 0 < n \<and> p = dec n \<and> int n \<le> 9223372036854775808 \<and> v = - int n)"
        unfolding q by auto
      also have "\<dots> \<longleftrightarrow> int64_range v \<and> v < 0 \<and> p = dec (nat (- v))"
        by (auto intro!: exI [of _ "nat (- v)"])
      also have "\<dots> \<longleftrightarrow> int64_range v \<and> s = decimal v"
        using True sp dec_hd_not_minus [of "nat v"] by (auto simp: decimal_def) (metis list.sel(1))
      finally show ?thesis .
    next
      case pos: False
      have "string2ll s = Some v \<longleftrightarrow> (\<exists>n. ?q = Some n \<and> int n \<le> LLONG_MAX \<and> v = int n)"
        using pos ne unf by (auto split: option.splits)
      also have "\<dots> \<longleftrightarrow> (\<exists>n. 0 < n \<and> p = dec n \<and> int n \<le> LLONG_MAX \<and> v = int n)"
        unfolding q by auto
      also have "\<dots> \<longleftrightarrow> int64_range v \<and> 0 < v \<and> p = dec (nat v)"
        by (auto intro!: exI [of _ "nat v"])
      also have "\<dots> \<longleftrightarrow> int64_range v \<and> s = decimal v"
        using pos sp False by (auto simp: decimal_def not_less le_less dchar_def)
      finally show ?thesis .
    qed
  qed
qed

section \<open>memtoll on decimal amounts\<close>

lemma takeWhile_dec: "(u = [] \<or> \<not> is_digit (hd u)) \<Longrightarrow> dropWhile is_digit (dec n @ u) = u"
  using set_dec by (cases u) (auto simp: dropWhile_append)

lemma strtoll10_decimal: "int64_range v \<Longrightarrow> strtoll10 (decimal v) = v"
proof -
  assume v: "int64_range v"
  have d: "foldl (\<lambda>a c. 10 * a + digit_val c) 0 (dec n) = n" for n
    using dval_dec [of n] by (simp add: dval_def)
  obtain c r where c: "dec (nat v) = c # r" by (cases "dec (nat v)") auto
  then have "c \<noteq> 45" using dec_hd_not_minus [of "nat v"] by auto
  moreover have "foldl (\<lambda>a c. 10 * a + digit_val c) 0 (c # r) = nat v" using d c by metis
  ultimately show ?thesis
    using v d [of "nat (- v)"] c by (cases "v < 0") (simp_all add: strtoll10_def decimal_def)
qed

text \<open>
  An amount written as a decimal and a unit is multiplied by the unit modulo \<open>2^64\<close>; the
  error flag is that of the unit alone, so an overflowing amount is not reported.
\<close>

lemma memtoll_decimal:
  assumes "int64_range v" "u = [] \<or> \<not> is_digit (hd u)" "length (decimal v) < 128"
  shows "memtoll (decimal v @ u) = (wrap64 (v * fst (mem_unit u)), snd (mem_unit u))"
proof -
  have neg: "dec n @ u \<noteq> [] \<and> hd (dec n @ u) \<noteq> 45" for n
    using dec_hd_not_minus [of n] by simp
  have s: "(case decimal v @ u of [] \<Rightarrow> False | c # _ \<Rightarrow> c = 45) = (v < 0)"
    using neg [of "nat v"] by (cases "dec (nat v) @ u") (auto simp: decimal_def)
  have dw: "dropWhile is_digit (if v < 0 then tl (decimal v @ u) else decimal v @ u) = u"
    using takeWhile_dec [OF assms(2)] by (auto simp: decimal_def)
  show ?thesis unfolding memtoll_def s dw Let_def
    using strtoll10_decimal [OF assms(1)] assms(3) by (simp split: prod.split)
qed

lemma memtoll_gi: "snd (memtoll (map of_char ''1Gi''))"
  by (simp add: memtoll_def mem_unit_def Let_def is_digit_def char_eq_def c_tolower_def)

section \<open>Properties\<close>

text \<open>
  C34. \<open>string2ll\<close> accepts exactly the canonical decimal texts of the 64-bit integers, and
  returns their value: no leading zero, plus sign, space or \<open>-0\<close>, and no value out of range.
\<close>

theorem string2ll_iff: "string2ll s = Some v \<longleftrightarrow> int64_range v \<and> s = decimal v"
  by (rule string2ll_spec)

text \<open>
  \<open>ll2string\<close> never writes outside its buffer; it writes the decimal text of any 64-bit
  integer followed by a NUL, leaves the rest of the buffer alone and returns the length, or,
  when text and terminator do not fit, returns 0 and leaves the buffer as it was.
\<close>

theorem ll2string_correct:
  assumes "int64_range v" and "dstlen \<le> length dst"
  shows "ll2string dst dstlen v =
    (if length (decimal v) < dstlen
     then Some (length (decimal v), decimal v @ [0] @ drop (Suc (length (decimal v))) dst)
     else Some (0, dst))"
  using assms by (rule ll2string_spec)

theorem ll2string_correct_witness:
  "ll2string (replicate 6 7) 6 (- 120) = Some (4, [45, 49, 50, 48, 0, 7])"
proof -
  have "decimal (- 120) = [45, 49, 50, 48]" by (simp add: decimal_def dec_step dchar_def)
  then show ?thesis using ll2string_correct [of "- 120" 6 "replicate 6 7"] by (simp add: numeral_eq_Suc)
qed

text \<open>
  C36. On patterns without \<open>[\<close> and without NUL bytes, \<open>stringmatchlen\<close> stays inside both
  strings and decides the declarative meaning of the glob: a star matches any run, a
  question mark one byte, a backslash quotes the next byte.
\<close>

theorem stringmatchlen_glob:
  assumes "91 \<notin> set p" and "0 \<notin> set p"
  shows "stringmatchlen p s nocase = Some (glob nocase (parse_glob p) s)"
  using stringmatch_glob(1) [OF assms, of 0 0 s nocase] by (simp add: stringmatchlen_def)

theorem stringmatchlen_glob_witness:
  "stringmatchlen (map of_char ''h?l*'') (map of_char ''hello'') False = Some True \<and>
   stringmatchlen (map of_char ''H*o'') (map of_char ''hell'') True = Some False"
proof -
  have a: "91 \<notin> set (map of_char ''h?l*'' :: bytes)" "0 \<notin> set (map of_char ''h?l*'' :: bytes)"
    and b: "91 \<notin> set (map of_char ''H*o'' :: bytes)" "0 \<notin> set (map of_char ''H*o'' :: bytes)" by simp_all
  have "glob False (parse_glob (map of_char ''h?l*'')) (map of_char ''hello'')" 
    by (simp add: char_eq_def) (rule exI [of _ 2], simp)
  moreover have "\<not> glob True (parse_glob (map of_char ''H*o'')) (map of_char ''hell'')"
    by (auto simp: char_eq_def c_tolower_def drop_Cons split: nat.splits)
  ultimately show ?thesis
    unfolding stringmatchlen_glob [OF a] stringmatchlen_glob [OF b] by simp
qed

text \<open>The loop over a class whose last byte is a backslash, from any place before it.\<close>

lemma sm_class_unterminated:
  assumes "i \<le> length p" "drop i p = w @ [92]" "set w \<inter> {45, 92, 93} = {}" "j \<le> length s"
  shows "sm_class nocase p s i j m = None"
  using assms
proof (induction w arbitrary: i m)
  case Nil
  then have "length p = i + 1" "sat p i = Some 92" by (auto simp: sat_def nth_via_drop dest: arg_cong [where f = length])
  moreover from this have "sat p (i + 1) = Some 0" "sat p (i + 2) = None" by (auto simp: sat_def)
  moreover have "sm_class nocase p s (i + 2) j m' = None" for m' using \<open>sat p (i + 2) = None\<close> by (subst sm_class.simps) simp
  ultimately show ?case by (subst sm_class.simps) (auto split: option.splits)
next
  case (Cons x w)
  have d: "drop (i + 1) p = w @ [92]" using arg_cong [OF Cons.prems(2), of tl] by (simp add: tl_drop drop_Suc)
  have i: "i + 1 < length p" using arg_cong [OF Cons.prems(2), of length] by simp
  have x: "sat p i = Some x" "x \<noteq> 92" "x \<noteq> 93" using Cons.prems(2,3) i by (auto simp: sat_def nth_via_drop)
  have "p ! (i + 1) = hd (w @ [92])" using d i by (metis hd_drop_conv_nth)
  then have y: "sat p (i + 1) = Some (hd (w @ [92]))" "hd (w @ [92]) \<noteq> 45" using i Cons.prems(3) by (cases w, auto simp: sat_def)+
  have "sm_class nocase p s (i + 1) j m' = None" for m'
    by (rule Cons.IH) (use i d Cons.prems(3,4) in auto)
  then show ?case using x y i by (subst sm_class.simps) (auto split: option.splits)
qed

text \<open>Literal bytes of the pattern that are the next bytes of the string, with more of the string to come.\<close>

lemma stringmatch_literals:
  assumes "set u \<inter> {42, 63, 91, 92} = {}" "v \<noteq> []"
  shows "stringmatch_at nocase (a @ u @ q) (b @ u @ v) (length a) (length b) =
    stringmatch_at nocase (a @ u @ q) (b @ u @ v) (length a + length u) (length b + length u)"
  using assms
proof (induction u arbitrary: a b)
  case (Cons x u)
  let ?p = "a @ (x # u) @ q" and ?s = "b @ (x # u) @ v"
  have "sm_case nocase ?p ?s (length a) (length b) = Some (Inr (length a, length b + 1))"
    using Cons.prems(1) by (simp add: sm_case_def sm_literal_def step_string_def sat_def char_eq_def)
  then have "stringmatch_at nocase ?p ?s (length a) (length b) = stringmatch_at nocase ?p ?s (length a + 1) (length b + 1)"
    using Cons.prems by (subst stringmatch_at.simps) (simp add: sat_def)
  also have "\<dots> = stringmatch_at nocase ?p ?s (length a + length (x # u)) (length b + length (x # u))"
    using Cons.IH [of "a @ [x]" "b @ [x]"] Cons.prems by simp
  finally show ?case .
qed simp

text \<open>
  C37. A pattern that ends in a bracket expression whose last byte is a backslash makes \<open>stringmatchlen\<close>
  step over the terminator of the pattern and read beyond it, whatever literal bytes precede the bracket and
  whatever single bytes the expression lists, on every string that has these literal bytes at its start and
  goes on, and on every string at all when the pattern starts with the bracket.
\<close>

theorem stringmatchlen_unterminated_class:
  assumes "set u \<inter> {42, 63, 91, 92} = {}" "set w \<inter> {45, 92, 93} = {}" "u = [] \<or> v \<noteq> []"
  shows "stringmatchlen (u @ [91] @ w @ [92]) (u @ v) nocase = None"
proof -
  let ?p = "u @ [91] @ w @ [92]" and ?i = "if w \<noteq> [] \<and> hd w = 94 then length u + 2 else length u + 1"
  have d: "drop ?i ?p = (if w \<noteq> [] \<and> hd w = 94 then tl w else w) @ [92]" by (cases w) auto
  have w: "set (if w \<noteq> [] \<and> hd w = 94 then tl w else w) \<inter> {45, 92, 93} = {}" using assms(2) by (cases w) auto
  have i: "?i \<le> length ?p" by (cases w) auto
  have cl: "sm_class nocase ?p (u @ v) ?i (length u) False = None"
    by (rule sm_class_unterminated [OF i d w]) simp
  have c: "sat ?p (length u) = Some 91" "sat ?p (length u + 1) = Some (hd (w @ [92]))" by (cases w, simp_all add: sat_def nth_append)+
  have "(if hd (w @ [92]) = 94 then length u + 2 else length u + 1) = ?i" by (cases w) auto
  then have "sm_case nocase ?p (u @ v) (length u) (length u) = None"
    using cl c by (simp add: sm_case_def Let_def)
  then have "stringmatch_at nocase ?p (u @ v) (length u) (length u) = None" using c(1) by (subst stringmatch_at.simps) simp
  moreover have "stringmatch_at nocase ?p (u @ v) 0 0 = stringmatch_at nocase ?p (u @ v) (length u) (length u)"
    using stringmatch_literals [OF assms(1), of v nocase "[]" "[91] @ w @ [92]" "[]"] assms(3) by auto
  ultimately show ?thesis by (simp add: stringmatchlen_def)
qed

theorem stringmatchlen_unterminated_class_witness:
  "stringmatchlen (map of_char ''user[^ab'' @ [92]) (map of_char ''user1'') False = None"
proof -
  have "stringmatchlen (map of_char ''user'' @ [91] @ map of_char ''^ab'' @ [92]) (map of_char ''user'' @ map of_char ''1'') False = None"
    by (rule stringmatchlen_unterminated_class) simp_all
  then show ?thesis by simp
qed

end
