(* ===== verification/Set_Interface.thy ===== *)
theory Set_Interface
  imports Main
begin

text \<open>
  What the set type relies on from the structure that stores its members. An operation
  returns \<open>None\<close> when it would leave its memory; \<open>fits s n\<close> says that \<open>n\<close> more members fit
  the structure's size fields. The laws are those of a finite set, and the lemmas lift them
  from one operation to a whole sequence of operations.
\<close>

datatype 'a set_op = SetAdd 'a | SetRem 'a

fun op_value :: "'a set_op \<Rightarrow> 'a" where
  "op_value (SetAdd x) = x"
| "op_value (SetRem x) = x"

fun spec_op :: "'a set \<Rightarrow> 'a set_op \<Rightarrow> 'a set" where
  "spec_op S (SetAdd x) = insert x S"
| "spec_op S (SetRem x) = S - {x}"

text \<open>
  \<open>run_ops\<close> applies a sequence of insertions and removals through the two operations of a
  structure; the result lists which of them changed the set.
\<close>

fun run_ops :: "('s \<Rightarrow> 'a \<Rightarrow> ('s \<times> bool) option) \<Rightarrow> ('s \<Rightarrow> 'a \<Rightarrow> ('s \<times> bool) option) \<Rightarrow>
    's \<Rightarrow> 'a set_op list \<Rightarrow> ('s \<times> bool list) option" where
  "run_ops add rem s [] = Some (s, [])"
| "run_ops add rem s (x # xs) =
     (case (case x of SetAdd v \<Rightarrow> add s v | SetRem v \<Rightarrow> rem s v) of
        None \<Rightarrow> None
      | Some (s', b) \<Rightarrow> map_option (\<lambda>(t, bs). (t, b # bs)) (run_ops add rem s' xs))"

fun spec_changes :: "'a set \<Rightarrow> 'a set_op list \<Rightarrow> bool list" where
  "spec_changes S [] = []"
| "spec_changes S (x # xs) = (spec_op S x \<noteq> S) # spec_changes (spec_op S x) xs"

locale set_impl =
  fixes inv :: "'s \<Rightarrow> bool"
    and members :: "'s \<Rightarrow> 'a set"
    and valid :: "'a \<Rightarrow> bool"
    and fits :: "'s \<Rightarrow> nat \<Rightarrow> bool"
    and add :: "'s \<Rightarrow> 'a \<Rightarrow> ('s \<times> bool) option"
    and rem :: "'s \<Rightarrow> 'a \<Rightarrow> ('s \<times> bool) option"
    and find :: "'s \<Rightarrow> 'a \<Rightarrow> bool option"
  assumes add_law: "inv s \<Longrightarrow> valid x \<Longrightarrow> fits s (Suc n) \<Longrightarrow>
      \<exists>s'. add s x = Some (s', x \<notin> members s) \<and> inv s' \<and> members s' = insert x (members s) \<and> fits s' n"
    and rem_law: "inv s \<Longrightarrow> valid x \<Longrightarrow> fits s (Suc n) \<Longrightarrow>
      \<exists>s'. rem s x = Some (s', x \<in> members s) \<and> inv s' \<and> members s' = members s - {x} \<and> fits s' n"
    and find_law: "inv s \<Longrightarrow> valid x \<Longrightarrow> find s x = Some (x \<in> members s)"
begin

lemma run_ops_correct:
  "inv s \<Longrightarrow> \<forall>x \<in> set xs. valid (op_value x) \<Longrightarrow> fits s (length xs) \<Longrightarrow>
   \<exists>s'. run_ops add rem s xs = Some (s', spec_changes (members s) xs) \<and> inv s' \<and>
        members s' = foldl spec_op (members s) xs"
proof (induction xs arbitrary: s)
  case (Cons x xs)
  have "\<exists>s'. (case x of SetAdd v \<Rightarrow> add s v | SetRem v \<Rightarrow> rem s v)
        = Some (s', spec_op (members s) x \<noteq> members s) \<and> inv s' \<and>
      members s' = spec_op (members s) x \<and> fits s' (length xs)"
  proof (cases x)
    case (SetAdd v)
    moreover have "(v \<notin> members s) = (insert v (members s) \<noteq> members s)" by blast
    ultimately show ?thesis using add_law [of s v "length xs"] Cons.prems by simp
  next
    case (SetRem v)
    moreover have "(v \<in> members s) = (members s - {v} \<noteq> members s)" by blast
    ultimately show ?thesis using rem_law [of s v "length xs"] Cons.prems by simp
  qed
  then show ?case using Cons by fastforce
qed simp

lemma find_after_run:
  assumes "inv s" "\<forall>x \<in> set xs. valid (op_value x)" "fits s (length xs)" "valid v"
  shows "\<exists>s' bs. run_ops add rem s xs = Some (s', bs) \<and>
    find s' v = Some (v \<in> foldl spec_op (members s) xs)"
  using run_ops_correct [OF assms(1-3)] find_law assms(4) by fastforce

end

end
