(* ===== verification/Intset.thy ===== *)
theory Intset
  imports Redis_Prelude Set_Interface
begin

text \<open>
  \<^verbatim>\<open>redis-2.8/src/intset.c\<close>: sets of integers stored as a sorted array of 2, 4 or 8 byte
  little-endian integers, upgraded to the wider layout when a value needs it.

  The record follows the C struct. \<open>int64_t\<close> values are mathematical integers with a range
  hypothesis where it matters, \<open>uint32_t\<close> counters are naturals with the wrap-around written
  out. The host is little-endian, where the \<open>ifbe\<close> macros are the identity. Every access to
  \<open>contents\<close> is bounds-checked, so an operation that returns \<open>Some\<close> did not leave its block.
\<close>

record intset =
  encoding :: nat
  len :: nat
  contents :: bytes

abbreviation INTSET_ENC_INT16 :: nat where "INTSET_ENC_INT16 \<equiv> 2"
abbreviation INTSET_ENC_INT32 :: nat where "INTSET_ENC_INT32 \<equiv> 4"
abbreviation INTSET_ENC_INT64 :: nat where "INTSET_ENC_INT64 \<equiv> 8"

section \<open>The operations\<close>

definition intsetValueEncoding :: "int \<Rightarrow> nat" where
  "intsetValueEncoding v =
     (if v < - 2147483648 \<or> v > 2147483647 then INTSET_ENC_INT64
      else if v < - 32768 \<or> v > 32767 then INTSET_ENC_INT32
      else INTSET_ENC_INT16)"

definition intsetGetEncoded :: "intset \<Rightarrow> nat \<Rightarrow> nat \<Rightarrow> int option" where
  "intsetGetEncoded is pos enc =
     (if enc = INTSET_ENC_INT64 then map_option le_sint (rd (contents is) (pos * 8) 8)
      else if enc = INTSET_ENC_INT32 then map_option le_sint (rd (contents is) (pos * 4) 4)
      else map_option le_sint (rd (contents is) (pos * 2) 2))"

text \<open>\<open>intsetGetPos\<close> and \<open>intsetSetPos\<close> are \<open>_intsetGet\<close> and \<open>_intsetSet\<close>.\<close>

definition intsetGetPos :: "intset \<Rightarrow> nat \<Rightarrow> int option" where
  "intsetGetPos is pos = intsetGetEncoded is pos (encoding is)"

definition intsetSetPos :: "intset \<Rightarrow> nat \<Rightarrow> int \<Rightarrow> intset option" where
  "intsetSetPos is pos value = map_option (\<lambda>c. is\<lparr>contents := c\<rparr>)
     (if encoding is = INTSET_ENC_INT64 then wr (contents is) (pos * 8) (le_bytes 8 value)
      else if encoding is = INTSET_ENC_INT32 then wr (contents is) (pos * 4) (le_bytes 4 value)
      else wr (contents is) (pos * 2) (le_bytes 2 value))"

definition intsetNew :: intset where
  "intsetNew = \<lparr>encoding = INTSET_ENC_INT16, len = 0, contents = []\<rparr>"

definition intsetResize :: "byte \<Rightarrow> intset \<Rightarrow> nat \<Rightarrow> intset" where
  "intsetResize g is l =
     (let size = (l * encoding is) mod 2 ^ 32
      in is\<lparr>contents := zrealloc g (contents is) size\<rparr>)"

text \<open>
  The binary search loop: \<open>min\<close> and \<open>max\<close> are C \<open>int\<close>s, so the sum computed in
  \<open>unsigned int\<close> does not wrap. The result holds the final \<open>min\<close>, \<open>mid\<close> and \<open>cur\<close>.
\<close>

function intsetSearchLoop :: "intset \<Rightarrow> int \<Rightarrow> int \<Rightarrow> int \<Rightarrow> int \<Rightarrow> int \<Rightarrow> (int \<times> int \<times> int) option" where
  "intsetSearchLoop is value mn mx mid cur =
     (if mx \<ge> mn then
        (let mid = (mn + mx) div 2 in
         case intsetGetPos is (nat mid) of
           None \<Rightarrow> None
         | Some cur \<Rightarrow>
             if value > cur then intsetSearchLoop is value (mid + 1) mx mid cur
             else if value < cur then intsetSearchLoop is value mn (mid - 1) mid cur
             else Some (mn, mid, cur))
      else Some (mn, mid, cur))"
  by pat_completeness auto
termination
  by (relation "measure (\<lambda>(is, value, mn, mx, mid, cur). nat (mx - mn + 1))") auto

declare intsetSearchLoop.simps [simp del]

text \<open>The result is the return value and \<open>*pos\<close>.\<close>

definition intsetSearch :: "intset \<Rightarrow> int \<Rightarrow> (bool \<times> nat) option" where
  "intsetSearch is value =
     (if len is = 0 then Some (False, 0)
      else Option.bind (intsetGetPos is (len is - 1)) (\<lambda>hi.
        if value > hi then Some (False, len is)
        else Option.bind (intsetGetPos is 0) (\<lambda>lo.
          if value < lo then Some (False, 0)
          else map_option (\<lambda>(mn, mid, cur). if value = cur then (True, nat mid) else (False, nat mn))
                 (intsetSearchLoop is value 0 (int (len is) - 1) (- 1) (- 1)))))"

fun intsetUpgradeLoop :: "nat \<Rightarrow> nat \<Rightarrow> nat \<Rightarrow> intset \<Rightarrow> intset option" where
  "intsetUpgradeLoop 0 curenc prepend is = Some is"
| "intsetUpgradeLoop (Suc l) curenc prepend is =
     Option.bind (intsetGetEncoded is l curenc) (\<lambda>v.
     Option.bind (intsetSetPos is (l + prepend) v) (\<lambda>is. intsetUpgradeLoop l curenc prepend is))"

definition intsetUpgradeAndAdd :: "byte \<Rightarrow> intset \<Rightarrow> int \<Rightarrow> intset option" where
  "intsetUpgradeAndAdd g is value =
     (let curenc = encoding is;
          newenc = intsetValueEncoding value;
          l = len is;
          prepend = (if value < 0 then 1 else 0);
          is = is\<lparr>encoding := newenc\<rparr>;
          is = intsetResize g is (len is + 1)
      in Option.bind (intsetUpgradeLoop l curenc prepend is) (\<lambda>is.
         Option.bind (if prepend = 1 then intsetSetPos is 0 value
                      else intsetSetPos is (len is) value) (\<lambda>is.
         Some (is\<lparr>len := (len is + 1) mod 2 ^ 32\<rparr>))))"

definition intsetMoveTail :: "intset \<Rightarrow> nat \<Rightarrow> nat \<Rightarrow> intset option" where
  "intsetMoveTail is from to =
     (let n = len is - from; e = encoding is;
          w = (if e = INTSET_ENC_INT64 then 8 else if e = INTSET_ENC_INT32 then 4 else 2)
      in map_option (\<lambda>c. is\<lparr>contents := c\<rparr>) (memmove (contents is) (to * w) (from * w) (n * w)))"

definition intsetAdd :: "byte \<Rightarrow> intset \<Rightarrow> int \<Rightarrow> (intset \<times> bool) option" where
  "intsetAdd g is value =
     (let valenc = intsetValueEncoding value in
      if valenc > encoding is then map_option (\<lambda>is. (is, True)) (intsetUpgradeAndAdd g is value)
      else Option.bind (intsetSearch is value) (\<lambda>(found, pos).
        if found then Some (is, False)
        else let is = intsetResize g is (len is + 1) in
          Option.bind (if pos < len is then intsetMoveTail is pos (pos + 1) else Some is) (\<lambda>is.
          Option.bind (intsetSetPos is pos value) (\<lambda>is.
          Some (is\<lparr>len := (len is + 1) mod 2 ^ 32\<rparr>, True)))))"

definition intsetRemove :: "byte \<Rightarrow> intset \<Rightarrow> int \<Rightarrow> (intset \<times> bool) option" where
  "intsetRemove g is value =
     (let valenc = intsetValueEncoding value in
      if valenc \<le> encoding is then
        Option.bind (intsetSearch is value) (\<lambda>(found, pos).
        if found then
          let l = len is in
          Option.bind (if pos < l - 1 then intsetMoveTail is (pos + 1) pos else Some is) (\<lambda>is.
          Some ((intsetResize g is (l - 1))\<lparr>len := l - 1\<rparr>, True))
        else Some (is, False))
      else Some (is, False))"

definition intsetFind :: "intset \<Rightarrow> int \<Rightarrow> bool option" where
  "intsetFind is value =
     (let valenc = intsetValueEncoding value in
      if valenc \<le> encoding is then map_option fst (intsetSearch is value) else Some False)"

text \<open>\<open>r\<close> is the value \<open>rand()\<close> returned; an empty set divides by zero.\<close>

definition intsetRandom :: "nat \<Rightarrow> intset \<Rightarrow> int option" where
  "intsetRandom r is = (if len is = 0 then None else intsetGetPos is (r mod len is))"

text \<open>The outer option is the bounds check of the read, the inner one the return value.\<close>

definition intsetGet :: "intset \<Rightarrow> nat \<Rightarrow> int option option" where
  "intsetGet is pos = (if pos < len is then map_option Some (intsetGetPos is pos) else Some None)"

definition intsetLen :: "intset \<Rightarrow> nat" where
  "intsetLen is = len is"

definition intsetBlobLen :: "intset \<Rightarrow> nat" where
  "intsetBlobLen is = 8 + (len is * encoding is) mod 2 ^ 32"

section \<open>Arrays of fixed-width integers\<close>

definition enc_all :: "nat \<Rightarrow> int list \<Rightarrow> bytes" where
  "enc_all w xs = concat (map (le_bytes w) xs)"

lemma enc_all_simps [simp]: "enc_all w [] = []" "enc_all w (x # xs) = le_bytes w x @ enc_all w xs"
  "enc_all w (xs @ ys) = enc_all w xs @ enc_all w ys"
  by (simp_all add: enc_all_def)

lemma length_enc_all [simp]: "length (enc_all w xs) = length xs * w"
  by (induction xs) auto

lemma take_enc_all: "take (n * w) (enc_all w xs) = enc_all w (take n xs)"
proof (induction xs arbitrary: n)
  case (Cons x xs)
  then show ?case by (cases n) (auto simp: take_all)
qed simp

lemma drop_enc_all: "drop (n * w) (enc_all w xs) = enc_all w (drop n xs)"
proof (induction xs arbitrary: n)
  case (Cons x xs)
  then show ?case by (cases n) (auto simp: drop_append)
qed simp

lemma enc_all_nth_split:
  "i < length xs \<Longrightarrow> enc_all w xs = enc_all w (take i xs) @ le_bytes w (xs ! i) @ enc_all w (drop (Suc i) xs)"
  by (metis enc_all_simps(2,3) id_take_nth_drop)

lemma rd_enc_all: "i < length xs \<Longrightarrow> rd (enc_all w xs @ z) (i * w) w = Some (le_bytes w (xs ! i))"
proof -
  assume i: "i < length xs"
  have "(i + 1) * w \<le> length xs * w" using i by (intro mult_le_mono1) simp
  then have le: "i * w + w \<le> length (enc_all w xs @ z)" by (simp add: algebra_simps)
  have "drop (i * w) (enc_all w xs @ z) = le_bytes w (xs ! i) @ enc_all w (drop (Suc i) xs) @ z"
    using i by (subst enc_all_nth_split [OF i]) simp
  then show ?thesis using le by (simp add: rd_def)
qed

lemma wr_enc_all:
  "i < length xs \<Longrightarrow> wr (enc_all w xs) (i * w) (le_bytes w v) = Some (enc_all w (xs[i := v]))"
proof -
  assume i: "i < length xs"
  have "(i + 1) * w \<le> length xs * w" using i by (intro mult_le_mono1) simp
  then have le: "i * w + w \<le> length (enc_all w xs)" by (simp add: algebra_simps)
  have "drop (i * w + w) (enc_all w xs) = enc_all w (drop (Suc i) xs)"
    using drop_enc_all [of "Suc i" w xs] by (simp add: add.commute)
  then show ?thesis using le i by (simp add: wr_def take_enc_all upd_conv_take_nth_drop)
qed

lemma memmove_enc_all:
  assumes "f + n \<le> length xs" "t + n \<le> length xs"
  shows "memmove (enc_all w xs) (t * w) (f * w) (n * w)
       = Some (enc_all w (take t xs @ take n (drop f xs) @ drop (t + n) xs))"
proof -
  have "(f + n) * w \<le> length xs * w" "(t + n) * w \<le> length xs * w"
    using assms by (auto intro: mult_le_mono1)
  then have le: "f * w + n * w \<le> length (enc_all w xs)" "t * w + n * w \<le> length (enc_all w xs)"
    by (simp_all add: algebra_simps)
  have r: "rd (enc_all w xs) (f * w) (n * w) = Some (enc_all w (take n (drop f xs)))"
    using le by (simp add: rd_def drop_enc_all take_enc_all)
  have l: "length (take n (drop f xs)) = n" using assms by simp
  have "drop (t * w + n * w) (enc_all w xs) = enc_all w (drop (t + n) xs)"
    using drop_enc_all [of "t + n" w xs] by (simp add: algebra_simps)
  then show ?thesis using le r l by (simp add: memmove_def wr_def take_enc_all)
qed

lemma bytes_as_enc: "length b = w \<Longrightarrow> \<exists>v. b = le_bytes w v"
  using le_bytes_le_uint [of b] by metis

lemma zrealloc_grow:
  "\<exists>j. zrealloc g (enc_all w xs) ((length xs + 1) * w) = enc_all w (xs @ [j])"
proof -
  obtain v where v: "replicate w g = le_bytes w v" using bytes_as_enc [of "replicate w g" w] by auto
  show ?thesis by (rule exI [of _ v]) (simp add: zrealloc_def v)
qed

lemma zrealloc_shrink: "n \<le> length xs \<Longrightarrow> zrealloc g (enc_all w xs) (n * w) = enc_all w (take n xs)"
  by (simp add: zrealloc_def take_enc_all)

section \<open>Well-formed intsets\<close>

text \<open>
  An intset represents \<open>xs\<close> when its block is exactly the array of \<open>xs\<close> in a valid encoding
  that holds every element. It is well-formed when the array is strictly sorted and small
  enough for the \<open>uint32_t\<close> size computations.
\<close>

definition valid_enc :: "nat \<Rightarrow> bool" where
  "valid_enc e \<longleftrightarrow> e = 2 \<or> e = 4 \<or> e = 8"

definition intset_rep :: "intset \<Rightarrow> int list \<Rightarrow> bool" where
  "intset_rep is xs \<longleftrightarrow> valid_enc (encoding is) \<and> len is = length xs \<and>
     contents is = enc_all (encoding is) xs \<and>
     (\<forall>x \<in> set xs. fits_signed (8 * encoding is) x) \<and> sorted_wrt (<) xs \<and> length xs < 2 ^ 28"

definition elems :: "intset \<Rightarrow> int list" where
  "elems is = map (\<lambda>i. the (intsetGetPos is i)) [0..<len is]"

definition intset_ok :: "intset \<Rightarrow> bool" where
  "intset_ok is \<longleftrightarrow> intset_rep is (elems is)"

lemma valid_enc_pos: "valid_enc e \<Longrightarrow> 0 < e"
  by (auto simp: valid_enc_def)

lemma valid_enc_width: "valid_enc e \<Longrightarrow> (if e = 8 then 8 else if e = 4 then 4 else 2) = e"
  by (auto simp: valid_enc_def)

lemma getEncoded_valid:
  "valid_enc e \<Longrightarrow> intsetGetEncoded is i e = map_option le_sint (rd (contents is) (i * e) e)"
  by (auto simp: valid_enc_def intsetGetEncoded_def)

lemma setPos_valid:
  "valid_enc (encoding is) \<Longrightarrow> intsetSetPos is i v =
     map_option (\<lambda>c. is\<lparr>contents := c\<rparr>) (wr (contents is) (i * encoding is) (le_bytes (encoding is) v))"
  by (auto simp: valid_enc_def intsetSetPos_def)

lemma moveTail_valid:
  "valid_enc (encoding is) \<Longrightarrow> intsetMoveTail is f t = map_option (\<lambda>c. is\<lparr>contents := c\<rparr>)
     (memmove (contents is) (t * encoding is) (f * encoding is) ((len is - f) * encoding is))"
  by (auto simp: valid_enc_def intsetMoveTail_def)

lemma getPos_rep:
  assumes "valid_enc (encoding is)" "contents is = enc_all (encoding is) xs @ z"
    "\<forall>x \<in> set xs. fits_signed (8 * encoding is) x" "i < length xs"
  shows "intsetGetPos is i = Some (xs ! i)"
  using assms by (simp add: intsetGetPos_def getEncoded_valid rd_enc_all le_simps valid_enc_pos)

lemma rep_getPos: "intset_rep is xs \<Longrightarrow> i < length xs \<Longrightarrow> intsetGetPos is i = Some (xs ! i)"
  by (rule getPos_rep [where z = "[]"]) (auto simp: intset_rep_def)

lemma rep_elems: "intset_rep is xs \<Longrightarrow> elems is = xs"
proof -
  assume r: "intset_rep is xs"
  then have "len is = length xs" by (simp add: intset_rep_def)
  then show ?thesis using rep_getPos [OF r] by (auto simp: elems_def intro: nth_equalityI)
qed

lemma rep_ok: "intset_rep is xs \<Longrightarrow> intset_ok is \<and> elems is = xs"
  using rep_elems by (auto simp: intset_ok_def)

lemma valueEncoding_valid: "valid_enc (intsetValueEncoding v)"
  by (auto simp: intsetValueEncoding_def valid_enc_def)

lemma valueEncoding_le:
  assumes "valid_enc e" "int64_range v"
  shows "intsetValueEncoding v \<le> e \<longleftrightarrow> fits_signed (8 * e) v"
  using assms by (auto simp: valid_enc_def intsetValueEncoding_def fits_signed_def)

section \<open>Search\<close>

text \<open>The position of \<open>v\<close> in a strictly sorted list: how many elements are smaller.\<close>

definition rank_of :: "int list \<Rightarrow> int \<Rightarrow> nat" where
  "rank_of xs v = length (filter (\<lambda>x. x < v) xs)"

lemma rank_of_le: "rank_of xs v \<le> length xs"
  by (simp add: rank_of_def)

lemma rank_split:
  assumes "sorted_wrt (<) xs"
  shows "take (rank_of xs v) xs = filter (\<lambda>x. x < v) xs \<and> drop (rank_of xs v) xs = filter (\<lambda>x. \<not> x < v) xs"
  using assms
proof (induction xs)
  case (Cons x xs)
  show ?case
  proof (cases "x < v")
    case True
    then show ?thesis using Cons by (simp add: rank_of_def)
  next
    case False
    then have "filter (\<lambda>x. x < v) xs = []" using Cons.prems by (auto simp: filter_empty_conv)
    moreover have "filter (\<lambda>x. \<not> x < v) xs = xs" using False Cons.prems by (auto simp: filter_id_conv)
    ultimately show ?thesis using False by (simp add: rank_of_def)
  qed
qed (simp add: rank_of_def)

lemma rank_nth:
  assumes "sorted_wrt (<) xs" "i < length xs"
  shows "xs ! i < v \<longleftrightarrow> i < rank_of xs v"
proof
  assume "i < rank_of xs v"
  then have "xs ! i \<in> set (take (rank_of xs v) xs)" using assms(2)
    by (metis length_take min_less_iff_conj nth_mem nth_take)
  then show "xs ! i < v" using rank_split [OF assms(1), of v] by auto
next
  assume lt: "xs ! i < v"
  show "i < rank_of xs v"
  proof (rule ccontr)
    assume "\<not> i < rank_of xs v"
    then have "xs ! i = drop (rank_of xs v) xs ! (i - rank_of xs v)" using assms(2) by simp
    moreover have "i - rank_of xs v < length (drop (rank_of xs v) xs)"
      using assms(2) \<open>\<not> i < rank_of xs v\<close> by simp
    ultimately have "xs ! i \<in> set (drop (rank_of xs v) xs)" by (metis nth_mem)
    then show False using lt rank_split [OF assms(1), of v] by auto
  qed
qed

lemma rank_member:
  assumes "sorted_wrt (<) xs"
  shows "v \<in> set xs \<longleftrightarrow> rank_of xs v < length xs \<and> xs ! rank_of xs v = v"
proof
  assume "v \<in> set xs"
  then obtain i where i: "i < length xs" "xs ! i = v" by (auto simp: in_set_conv_nth)
  have "\<not> i < rank_of xs v" using rank_nth [OF assms i(1), of v] i(2) by simp
  moreover have "\<not> rank_of xs v < i"
  proof
    assume r: "rank_of xs v < i"
    then have "xs ! rank_of xs v < xs ! i" using assms i(1) by (auto simp: sorted_wrt_iff_nth_less)
    then show False using rank_nth [OF assms, of "rank_of xs v" v] r i by auto
  qed
  ultimately show "rank_of xs v < length xs \<and> xs ! rank_of xs v = v" using i by auto
qed (metis nth_mem)

lemma searchLoop_spec:
  assumes r: "intset_rep is xs"
  shows "0 \<le> mn \<Longrightarrow> mn \<le> int (rank_of xs v) \<Longrightarrow> int (rank_of xs v) \<le> mx + 1 \<Longrightarrow> mx < int (length xs) \<Longrightarrow>
    (v \<in> set xs \<longrightarrow> int (rank_of xs v) \<le> mx) \<Longrightarrow> (mx < mn \<longrightarrow> cur \<noteq> v) \<Longrightarrow>
    \<exists>mn' mid' cur'. intsetSearchLoop is v mn mx mid cur = Some (mn', mid', cur') \<and>
      (v \<in> set xs \<longrightarrow> cur' = v \<and> mid' = int (rank_of xs v)) \<and>
      (v \<notin> set xs \<longrightarrow> cur' \<noteq> v \<and> mn' = int (rank_of xs v))"
proof (induction "nat (mx - mn + 1)" arbitrary: mn mx mid cur rule: less_induct)
  case less
  have srt: "sorted_wrt (<) xs" using r by (simp add: intset_rep_def)
  show ?case
  proof (cases "mx \<ge> mn")
    case False
    then show ?thesis using less.prems by (subst intsetSearchLoop.simps) (auto simp: Let_def)
  next
    case True
    let ?m = "(mn + mx) div 2" and ?r = "rank_of xs v"
    have m: "mn \<le> ?m" "?m \<le> mx" using True by auto
    have ml: "nat ?m < length xs" using m less.prems by linarith
    have g: "intsetGetPos is (nat ?m) = Some (xs ! nat ?m)" by (rule rep_getPos [OF r ml])
    have lt: "xs ! nat ?m < v \<longleftrightarrow> nat ?m < ?r" by (rule rank_nth [OF srt ml])
    consider "xs ! nat ?m < v" | "v < xs ! nat ?m" | "xs ! nat ?m = v" by linarith
    then show ?thesis
    proof cases
      case 1
      then have "?m + 1 \<le> int ?r" using lt m less.prems by linarith
      moreover have "nat (mx - (?m + 1) + 1) < nat (mx - mn + 1)" using m True by linarith
      ultimately have "\<exists>mn' mid' cur'. intsetSearchLoop is v (?m + 1) mx ?m (xs ! nat ?m) = Some (mn', mid', cur') \<and>
        (v \<in> set xs \<longrightarrow> cur' = v \<and> mid' = int (rank_of xs v)) \<and>
        (v \<notin> set xs \<longrightarrow> cur' \<noteq> v \<and> mn' = int (rank_of xs v))"
        using less.prems m 1 by (intro less.hyps) auto
      then show ?thesis using g True 1 by (subst intsetSearchLoop.simps) (simp add: Let_def)
    next
      case 2
      have "?r \<le> nat ?m" using lt 2 by linarith
      moreover have "v \<in> set xs \<Longrightarrow> ?r \<noteq> nat ?m" using 2 rank_member [OF srt, of v] by auto
      ultimately have "v \<in> set xs \<longrightarrow> int ?r \<le> ?m - 1" using m less.prems by linarith
      moreover have "nat (?m - 1 - mn + 1) < nat (mx - mn + 1)" using m True by linarith
      ultimately have "\<exists>mn' mid' cur'. intsetSearchLoop is v mn (?m - 1) ?m (xs ! nat ?m) = Some (mn', mid', cur') \<and>
        (v \<in> set xs \<longrightarrow> cur' = v \<and> mid' = int (rank_of xs v)) \<and>
        (v \<notin> set xs \<longrightarrow> cur' \<noteq> v \<and> mn' = int (rank_of xs v))"
        using less.prems m 2 \<open>?r \<le> nat ?m\<close> by (intro less.hyps) auto
      then show ?thesis using g True 2 by (subst intsetSearchLoop.simps) (simp add: Let_def)
    next
      case 3
      then have "v \<in> set xs" using ml nth_mem by metis
      moreover have "nat ?m = ?r"
      proof -
        have "distinct xs" using srt strict_sorted_iff by blast
        then show ?thesis using rank_member [OF srt, of v] \<open>v \<in> set xs\<close> 3 ml nth_eq_iff_index_eq by metis
      qed
      then have "?m = int ?r" using m less.prems by linarith
      ultimately show ?thesis using 3 g True by (subst intsetSearchLoop.simps) (auto simp: Let_def)
    qed
  qed
qed

lemma intsetSearch_spec:
  assumes r: "intset_rep is xs"
  shows "intsetSearch is v = Some (v \<in> set xs, rank_of xs v)"
proof (cases "xs = []")
  case True
  then show ?thesis using r by (simp add: intsetSearch_def intset_rep_def rank_of_def)
next
  case False
  have srt: "sorted_wrt (<) xs" and l: "len is = length xs" using r by (auto simp: intset_rep_def)
  have pos: "0 < length xs" using False by simp
  have hi: "intsetGetPos is (len is - 1) = Some (xs ! (length xs - 1))"
    using rep_getPos [OF r, of "length xs - 1"] pos l by simp
  have lo: "intsetGetPos is 0 = Some (xs ! 0)" using rep_getPos [OF r, of 0] pos by simp
  note rn = rank_nth [OF srt] and rm = rank_member [OF srt, of v] and rl = rank_of_le [of xs v]
  have hi_r: "xs ! (length xs - 1) < v \<longleftrightarrow> length xs - 1 < rank_of xs v" using pos by (intro rn) simp
  have lo_r: "xs ! 0 < v \<longleftrightarrow> 0 < rank_of xs v" using pos by (intro rn)
  consider "v > xs ! (length xs - 1)" | "\<not> v > xs ! (length xs - 1)" "v < xs ! 0"
    | "\<not> v > xs ! (length xs - 1)" "\<not> v < xs ! 0" by blast
  then show ?thesis
  proof cases
    case 1
    then have "rank_of xs v = length xs" using hi_r rl pos by linarith
    then show ?thesis using 1 hi l pos rm by (simp add: intsetSearch_def)
  next
    case 2
    then have "rank_of xs v = 0" using lo_r by simp
    then show ?thesis using 2 hi lo l pos rm by (simp add: intsetSearch_def)
  next
    case 3
    have "rank_of xs v < length xs" using 3 hi_r pos by linarith
    then obtain mn' mid' cur' where
      "intsetSearchLoop is v 0 (int (length xs) - 1) (- 1) (- 1) = Some (mn', mid', cur')"
      "v \<in> set xs \<longrightarrow> cur' = v \<and> mid' = int (rank_of xs v)"
      "v \<notin> set xs \<longrightarrow> cur' \<noteq> v \<and> mn' = int (rank_of xs v)"
      using searchLoop_spec [OF r, of 0 v "int (length xs) - 1" "-1" "-1"] pos by auto
    then show ?thesis using 3 hi lo l pos by (cases "v \<in> set xs") (simp_all add: intsetSearch_def)
  qed
qed


section \<open>Insertion and removal\<close>

definition ins_sorted :: "int \<Rightarrow> int list \<Rightarrow> int list" where
  "ins_sorted v xs = (if v \<in> set xs then xs else take (rank_of xs v) xs @ v # drop (rank_of xs v) xs)"

definition del_sorted :: "int \<Rightarrow> int list \<Rightarrow> int list" where
  "del_sorted v xs = filter (\<lambda>x. x \<noteq> v) xs"

lemma ins_sorted_spec:
  assumes "sorted_wrt (<) xs"
  shows "sorted_wrt (<) (ins_sorted v xs)" "set (ins_sorted v xs) = insert v (set xs)"
    "length (ins_sorted v xs) = (if v \<in> set xs then length xs else Suc (length xs))"
proof -
  have tk: "take (rank_of xs v) xs = filter (\<lambda>x. x < v) xs" "drop (rank_of xs v) xs = filter (\<lambda>x. \<not> x < v) xs"
    using rank_split [OF assms] by auto
  show "sorted_wrt (<) (ins_sorted v xs)"
    using assms by (auto simp: ins_sorted_def tk sorted_wrt_append sorted_wrt_filter less_le
        intro: order.strict_trans2)
  show "set (ins_sorted v xs) = insert v (set xs)" by (auto simp: ins_sorted_def tk)
  show "length (ins_sorted v xs) = (if v \<in> set xs then length xs else Suc (length xs))"
    using rank_of_le [of xs v] by (simp add: ins_sorted_def)
qed

lemma del_sorted_take_drop:
  assumes "sorted_wrt (<) xs" "v \<in> set xs"
  shows "del_sorted v xs = take (rank_of xs v) xs @ drop (Suc (rank_of xs v)) xs"
proof -
  let ?r = "rank_of xs v"
  have r: "?r < length xs" "xs ! ?r = v" using rank_member [OF assms(1)] assms(2) by auto
  have d: "distinct xs" using assms(1) strict_sorted_iff by blast
  have s: "xs = take ?r xs @ v # drop (Suc ?r) xs" using r id_take_nth_drop by metis
  then have "v \<notin> set (take ?r xs)" "v \<notin> set (drop (Suc ?r) xs)"
    using d by (metis distinct_append distinct.simps(2) not_distinct_conv_prefix, metis d distinct_append distinct.simps(2) s)
  then have "filter (\<lambda>x. x \<noteq> v) (take ?r xs) = take ?r xs"
    "filter (\<lambda>x. x \<noteq> v) (drop (Suc ?r) xs) = drop (Suc ?r) xs" by (auto simp: filter_id_conv)
  then have "filter (\<lambda>x. x \<noteq> v) (take ?r xs @ v # drop (Suc ?r) xs) = take ?r xs @ drop (Suc ?r) xs"
    by (simp only: filter_append filter.simps) simp
  then show ?thesis using s by (simp add: del_sorted_def)
qed

lemma upgradeLoop_spec:
  assumes "valid_enc (encoding is)" "valid_enc e" "e \<le> encoding is"
    "\<forall>x \<in> set (xs @ ys). fits_signed (8 * e) x"
    "contents is = enc_all e xs @ mid @ enc_all (encoding is) ys @ tl'"
    "length (enc_all e xs @ mid) = (length xs + p) * encoding is"
  shows "\<exists>mid'. length mid' = p * encoding is \<and> intsetUpgradeLoop (length xs) e p is
     = Some (is\<lparr>contents := mid' @ enc_all (encoding is) (xs @ ys) @ tl'\<rparr>)"
  using assms
proof (induction xs arbitrary: "is" ys mid rule: rev_induct)
  case Nil
  then show ?case by (intro exI [of _ mid]) simp
next
  case (snoc x xs)
  let ?n = "encoding is" and ?l = "length xs"
  have fit: "fits_signed (8 * e) x" using snoc.prems by simp
  have rdx: "intsetGetEncoded is ?l e = Some x"
    using rd_enc_all [of ?l "xs @ [x]" e "mid @ enc_all ?n ys @ tl'"] snoc.prems fit
    by (simp add: getEncoded_valid le_simps valid_enc_pos)
  have len: "?l * e + e + length mid = (?l + p) * ?n + ?n" using snoc.prems(6) by (simp add: algebra_simps)
  have le: "?l * e \<le> (?l + p) * ?n" using snoc.prems(3) by (simp add: mult_le_mono)
  define a where "a = (?l + p) * ?n - ?l * e"
  define mid' where "mid' = take a (le_bytes e x @ mid)"
  have lm: "length (le_bytes e x @ mid) = a + ?n" using len le by (simp add: a_def)
  have wx: "wr (contents is) ((?l + p) * ?n) (le_bytes ?n x)
          = Some (enc_all e xs @ mid' @ le_bytes ?n x @ enc_all ?n ys @ tl')"
  proof -
    have c: "contents is = (enc_all e xs @ mid') @ drop a (le_bytes e x @ mid) @ (enc_all ?n ys @ tl')"
      using snoc.prems(5) by (simp add: mid'_def del: take_append drop_append)
    have l1: "length (enc_all e xs @ mid') = (?l + p) * ?n" using lm le by (simp add: mid'_def a_def)
    have l2: "length (drop a (le_bytes e x @ mid)) = ?n" using lm by simp
    show ?thesis unfolding c wr_def using l1 l2 by simp
  qed
  let ?is = "is\<lparr>contents := enc_all e xs @ mid' @ le_bytes ?n x @ enc_all ?n ys @ tl'\<rparr>"
  have st: "intsetSetPos is (?l + p) x = Some ?is" using wx snoc.prems(1) by (simp add: setPos_valid)
  have "\<exists>m. length m = p * encoding ?is \<and> intsetUpgradeLoop ?l e p ?is
     = Some (?is\<lparr>contents := m @ enc_all (encoding ?is) (xs @ x # ys) @ tl'\<rparr>)"
  proof (rule snoc.IH)
    show "length (enc_all e xs @ mid') = (?l + p) * encoding ?is" using lm le by (simp add: mid'_def a_def)
  qed (use snoc.prems in auto)
  then show ?case using rdx st by auto
qed

lemma enc_size_nowrap: "valid_enc e \<Longrightarrow> n < 2 ^ 28 \<Longrightarrow> n * e mod 2 ^ 32 = (n * e :: nat)"
  by (auto simp: valid_enc_def)

text \<open>A value that needs a wider encoding lies outside the range of the stored ones.\<close>

lemma ins_sorted_outside:
  assumes "\<forall>x \<in> set xs. fits_signed w x" "\<not> fits_signed w v"
  shows "v \<notin> set xs" "ins_sorted v xs = (if v < 0 then v # xs else xs @ [v])"
proof -
  have out: "\<forall>x \<in> set xs. if v < 0 then v < x else x < v"
    using assms by (auto simp: fits_signed_def)
  then show n: "v \<notin> set xs" by auto
  have "rank_of xs v = (if v < 0 then 0 else length xs)"
    using out by (auto simp: rank_of_def filter_empty_conv filter_id_conv less_imp_not_less)
  then show "ins_sorted v xs = (if v < 0 then v # xs else xs @ [v])" using n by (simp add: ins_sorted_def)
qed

text \<open>The block after the resize: the old array, then room, split where the loop ends.\<close>

lemma zrealloc_upgrade_split:
  assumes "e < n" "p \<le> 1"
  obtains mid tl' where "zrealloc g (enc_all e xs) ((length xs + 1) * n) = enc_all e xs @ mid @ tl'"
    "length (enc_all e xs @ mid) = (length xs + p) * n" "length tl' = (1 - p) * n"
proof -
  let ?c = "zrealloc g (enc_all e xs) ((length xs + 1) * n)"
  let ?rest = "drop (length xs * e) ?c" and ?a = "(length xs + p) * n - length xs * e"
  have le: "length xs * e \<le> (length xs + p) * n" using assms by (intro mult_le_mono) auto
  have "length xs * e \<le> (length xs + 1) * n" using assms by (intro mult_le_mono) auto
  then have "take (length xs * e) ?c = enc_all e xs" by (simp add: zrealloc_def min_absorb1)
  then have "?c = enc_all e xs @ take ?a ?rest @ drop ?a ?rest" by (metis append_take_drop_id)
  moreover have "p = 0 \<or> p = 1" using assms(2) by linarith
  ultimately show thesis using that [of "take ?a ?rest" "drop ?a ?rest"] le
    by (auto simp: algebra_simps)
qed

lemma intsetUpgradeAndAdd_spec:
  assumes r: "intset_rep is xs" and v: "int64_range v" and small: "length xs + 1 < 2 ^ 28"
    and up: "intsetValueEncoding v > encoding is"
  shows "\<exists>is'. intsetUpgradeAndAdd g is v = Some is' \<and> intset_rep is' (ins_sorted v xs) \<and>
     encoding is' = intsetValueEncoding v \<and> v \<notin> set xs"
proof -
  let ?e = "encoding is" and ?n = "intsetValueEncoding v" and ?p = "if v < 0 then 1 else 0 :: nat"
  have ve: "valid_enc ?e" and l: "len is = length xs" and c: "contents is = enc_all ?e xs"
    and fit: "\<forall>x \<in> set xs. fits_signed (8 * ?e) x" and srt: "sorted_wrt (<) xs"
    using r by (auto simp: intset_rep_def)
  have vn: "valid_enc ?n" by (rule valueEncoding_valid)
  have "\<not> fits_signed (8 * ?e) v" using up valueEncoding_le [OF ve v] by simp
  note ins = ins_sorted_spec [OF srt, of v] and outside = ins_sorted_outside [OF fit this]
  have fits: "fits_signed (8 * ?n) v" using valueEncoding_le [OF vn v] by simp
  have fitn: "\<forall>x \<in> set xs. fits_signed (8 * ?n) x" using fit up by (auto elim!: fits_signed_mono)
  define is1 where "is1 = intsetResize g (is\<lparr>encoding := ?n\<rparr>) (len (is\<lparr>encoding := ?n\<rparr>) + 1)"
  have e1: "encoding is1 = ?n" "len is1 = length xs" by (simp_all add: is1_def intsetResize_def l Let_def)
  have c1: "contents is1 = zrealloc g (enc_all ?e xs) ((length xs + 1) * ?n)"
    using enc_size_nowrap [OF vn small] by (simp add: is1_def intsetResize_def c l Let_def)
  have p1: "?p \<le> 1" by simp
  obtain mid tl' where split: "contents is1 = enc_all ?e xs @ mid @ tl'"
    "length (enc_all ?e xs @ mid) = (length xs + ?p) * ?n" "length tl' = (1 - ?p) * ?n"
    using zrealloc_upgrade_split [OF up p1, of g xs] c1 by metis
  have "\<exists>m. length m = ?p * encoding is1 \<and> intsetUpgradeLoop (length xs) ?e ?p is1
     = Some (is1\<lparr>contents := m @ enc_all (encoding is1) (xs @ []) @ tl'\<rparr>)"
    by (rule upgradeLoop_spec [where mid = mid]) (use e1 vn ve up fit split in auto)
  then obtain m where m: "length m = ?p * ?n"
    "intsetUpgradeLoop (length xs) ?e ?p is1 = Some (is1\<lparr>contents := m @ enc_all ?n xs @ tl'\<rparr>)"
    using e1 by auto
  obtain w1 w2 where w: "m = (if v < 0 then le_bytes ?n w1 else [])"
    "tl' = (if v < 0 then [] else le_bytes ?n w2)"
    using bytes_as_enc [of m ?n] bytes_as_enc [of tl' ?n] m(1) split(3) by (cases "v < 0") auto
  define is3 where "is3 = is1\<lparr>contents := enc_all ?n (ins_sorted v xs), len := length xs + 1\<rparr>"
  have neg: "v < 0 \<Longrightarrow> intsetSetPos (is1\<lparr>contents := m @ enc_all ?n xs @ tl'\<rparr>) 0 v
      = Some (is1\<lparr>contents := enc_all ?n (ins_sorted v xs)\<rparr>)"
    using wr_enc_all [of 0 "w1 # xs" ?n v] vn e1 w outside by (simp add: setPos_valid)
  have pos: "\<not> v < 0 \<Longrightarrow> intsetSetPos (is1\<lparr>contents := m @ enc_all ?n xs @ tl'\<rparr>) (length xs) v
      = Some (is1\<lparr>contents := enc_all ?n (ins_sorted v xs)\<rparr>)"
    using wr_enc_all [of "length xs" "xs @ [w2]" ?n v] vn e1 w outside by (simp add: setPos_valid)
  have "intsetUpgradeAndAdd g is v = Some is3"
    unfolding intsetUpgradeAndAdd_def Let_def is1_def [symmetric] l
    using m(2) neg pos e1 small by (cases "v < 0") (simp_all add: is3_def)
  moreover have "intset_rep is3 (ins_sorted v xs)"
    using vn fits fitn ins small e1 outside by (auto simp: intset_rep_def is3_def)
  ultimately show ?thesis using e1 outside by (auto simp: is3_def)
qed

text \<open>Shifting the tail by one slot opens the slot where the new value goes.\<close>

lemma moveTail_open_slot:
  assumes ve: "valid_enc (encoding is)" and l: "len is = length xs" and k: "k \<le> length xs"
  shows "\<exists>ys. length ys = Suc (length xs) \<and> ys[k := v] = take k xs @ v # drop k xs \<and>
    (let is1 = is\<lparr>contents := enc_all (encoding is) (xs @ [j])\<rparr>
     in if k < len is1 then intsetMoveTail is1 k (k + 1) else Some is1)
      = Some (is\<lparr>contents := enc_all (encoding is) ys\<rparr>)"
proof (cases "k < length xs")
  case True
  let ?ys = "take k (xs @ [j]) @ [(xs @ [j]) ! k] @ drop k xs"
  have "take (k + 1) (xs @ [j]) = take k (xs @ [j]) @ [(xs @ [j]) ! k]"
    using True by (subst take_Suc_conv_app_nth [symmetric]) simp_all
  moreover have "take (length xs - k) (drop k (xs @ [j])) = drop k xs" using True by simp
  moreover have "drop (k + 1 + (length xs - k)) (xs @ [j]) = []" using True by simp
  moreover have "?ys[k := v] = take k xs @ v # drop k xs" using True by (simp add: list_update_append)
  ultimately show ?thesis
    using memmove_enc_all [of k "length xs - k" "xs @ [j]" "k + 1" "encoding is"] True ve l
    by (intro exI [of _ ?ys]) (simp add: moveTail_valid)
next
  case False
  then show ?thesis using k l by (intro exI [of _ "xs @ [j]"]) (simp add: list_update_append)
qed

lemma intsetAdd_spec:
  assumes r: "intset_rep is xs" and v: "int64_range v" and small: "length xs + 1 < 2 ^ 28"
  shows "\<exists>is'. intsetAdd g is v = Some (is', v \<notin> set xs) \<and> intset_rep is' (ins_sorted v xs) \<and>
     encoding is' = max (encoding is) (intsetValueEncoding v)"
proof (cases "intsetValueEncoding v > encoding is")
  case True
  then show ?thesis using intsetUpgradeAndAdd_spec [OF r v small True, of g]
    by (auto simp: intsetAdd_def max_def)
next
  case False
  let ?e = "encoding is" and ?k = "rank_of xs v"
  have ve: "valid_enc ?e" and l: "len is = length xs" and c: "contents is = enc_all ?e xs"
    and fit: "\<forall>x \<in> set xs. fits_signed (8 * ?e) x" and srt: "sorted_wrt (<) xs"
    using r by (auto simp: intset_rep_def)
  have fv: "fits_signed (8 * ?e) v" using False valueEncoding_le [OF ve v] by simp
  note srch = intsetSearch_spec [OF r, of v] and ins = ins_sorted_spec [OF srt, of v]
  show ?thesis
  proof (cases "v \<in> set xs")
    case True
    then show ?thesis using r srch False
      by (intro exI [of _ "is"]) (auto simp: intsetAdd_def ins_sorted_def max_def)
  next
    case notin: False
    obtain j where j: "zrealloc g (enc_all ?e xs) ((length xs + 1) * ?e) = enc_all ?e (xs @ [j])"
      using zrealloc_grow by blast
    define is1 where "is1 = intsetResize g is (len is + 1)"
    have i1: "is1 = is\<lparr>contents := enc_all ?e (xs @ [j])\<rparr>"
      using enc_size_nowrap [OF ve small] j by (simp add: is1_def intsetResize_def c l Let_def)
    obtain ys where ys: "length ys = Suc (length xs)" "ys[?k := v] = ins_sorted v xs"
      and mv: "(if ?k < len is1 then intsetMoveTail is1 ?k (?k + 1) else Some is1)
          = Some (is\<lparr>contents := enc_all ?e ys\<rparr>)"
      using moveTail_open_slot [OF ve l rank_of_le, of v v j] notin i1
      by (auto simp: ins_sorted_def Let_def)
    have "?k < length ys" using ys(1) rank_of_le [of xs v] by simp
    then have st: "intsetSetPos (is\<lparr>contents := enc_all ?e ys\<rparr>) ?k v
        = Some (is\<lparr>contents := enc_all ?e (ins_sorted v xs)\<rparr>)"
      using wr_enc_all [of ?k ys ?e v] ys(2) ve by (simp add: setPos_valid)
    define is3 where "is3 = is\<lparr>contents := enc_all ?e (ins_sorted v xs), len := length xs + 1\<rparr>"
    have "intsetAdd g is v = Option.bind
        (if ?k < len is1 then intsetMoveTail is1 ?k (?k + 1) else Some is1) (\<lambda>is.
         Option.bind (intsetSetPos is ?k v) (\<lambda>is. Some (is\<lparr>len := (len is + 1) mod 2 ^ 32\<rparr>, True)))"
      unfolding intsetAdd_def Let_def is1_def [symmetric] using False srch notin by simp
    also have "\<dots> = Some (is3, True)" unfolding mv using st small l by (simp add: is3_def)
    finally have "intsetAdd g is v = Some (is3, True)" .
    moreover have "intset_rep is3 (ins_sorted v xs)"
      using ve fv fit ins small notin by (auto simp: intset_rep_def is3_def)
    ultimately show ?thesis using notin False by (auto simp: is3_def max_def)
  qed
qed

lemma intsetRemove_spec:
  assumes r: "intset_rep is xs" and v: "int64_range v"
  shows "\<exists>is'. intsetRemove g is v = Some (is', v \<in> set xs) \<and> intset_rep is' (del_sorted v xs) \<and>
     encoding is' = encoding is"
proof -
  let ?e = "encoding is" and ?k = "rank_of xs v"
  have ve: "valid_enc ?e" and l: "len is = length xs" and c: "contents is = enc_all ?e xs"
    and fit: "\<forall>x \<in> set xs. fits_signed (8 * ?e) x" and srt: "sorted_wrt (<) xs" and sm: "length xs < 2 ^ 28"
    using r by (auto simp: intset_rep_def)
  note srch = intsetSearch_spec [OF r, of v]
  have member_fits: "v \<in> set xs \<Longrightarrow> intsetValueEncoding v \<le> ?e"
    using fit valueEncoding_le [OF ve v] by auto
  show ?thesis
  proof (cases "v \<in> set xs")
    case False
    then have "del_sorted v xs = xs" by (auto simp: del_sorted_def filter_id_conv)
    then show ?thesis using False r srch by (intro exI [of _ "is"]) (auto simp: intsetRemove_def)
  next
    case True
    have k: "?k < length xs" using rank_member [OF srt] True by blast
    define ys where "ys = (if ?k < length xs - 1 then take ?k xs @ drop (Suc ?k) xs @ drop (length xs - 1) xs else xs)"
    have mv: "(if ?k < len is - 1 then intsetMoveTail is (?k + 1) ?k else Some is)
        = Some (is\<lparr>contents := enc_all ?e ys\<rparr>)"
    proof (cases "?k < length xs - 1")
      case True
      then have "?k + (length xs - (?k + 1)) = length xs - 1" by simp
      moreover have "take (length xs - (?k + 1)) (drop (?k + 1) xs) = drop (Suc ?k) xs" by simp
      ultimately show ?thesis
        using memmove_enc_all [of "?k + 1" "length xs - (?k + 1)" xs ?k ?e] True ve l c
        by (simp add: moveTail_valid ys_def)
    next
      case False
      then show ?thesis using l c by (simp add: ys_def)
    qed
    have ty: "take (length xs - 1) ys = del_sorted v xs"
    proof (cases "?k < length xs - 1")
      case False
      then have "?k = length xs - 1" using k by linarith
      then show ?thesis using del_sorted_take_drop [OF srt True] by (simp add: ys_def)
    qed (use del_sorted_take_drop [OF srt True] k in \<open>simp add: ys_def\<close>)
    have yl: "length xs - 1 \<le> length ys" using k by (auto simp: ys_def)
    define is3 where "is3 = is\<lparr>contents := enc_all ?e (del_sorted v xs), len := length xs - 1\<rparr>"
    have "(length xs - 1) * ?e mod 2 ^ 32 = (length xs - 1) * ?e" using sm ve by (auto simp: valid_enc_def)
    then have "intsetRemove g is v = Some (is3, True)"
      unfolding intsetRemove_def Let_def using True srch member_fits mv l ty zrealloc_shrink [OF yl, of g ?e]
      by (simp add: intsetResize_def is3_def)
    moreover have "length (del_sorted v xs) = length xs - 1"
      using del_sorted_take_drop [OF srt True] k by simp
    ultimately show ?thesis using True ve fit srt sm
      by (intro exI [of _ is3]) (auto simp: intset_rep_def is3_def del_sorted_def sorted_wrt_filter)
  qed
qed

lemma intsetFind_spec:
  assumes r: "intset_rep is xs" and v: "int64_range v"
  shows "intsetFind is v = Some (v \<in> set xs)"
proof -
  have "v \<in> set xs \<Longrightarrow> intsetValueEncoding v \<le> encoding is"
    using r valueEncoding_le [OF _ v, of "encoding is"] by (auto simp: intset_rep_def)
  then show ?thesis using intsetSearch_spec [OF r, of v] by (auto simp: intsetFind_def)
qed

lemma intsetNew_rep: "intset_rep intsetNew []"
  by (simp add: intset_rep_def intsetNew_def valid_enc_def)

section \<open>Interface\<close>

lemma sorted_list_of_set_eq: "sorted_wrt (<) xs \<Longrightarrow> xs = sorted_list_of_set (set (xs :: int list))"
  by (metis sorted_list_of_set.idem_if_sorted_distinct strict_sorted_iff)

lemma intset_ok_add:
  assumes "intset_ok is" "int64_range v" "len is + 1 < 2 ^ 28"
  shows "\<exists>is'. intsetAdd g is v = Some (is', v \<notin> set (elems is)) \<and> intset_ok is' \<and>
     set (elems is') = insert v (set (elems is)) \<and> len is' \<le> len is + 1 \<and>
     encoding is' = max (encoding is) (intsetValueEncoding v)"
proof -
  have r: "intset_rep is (elems is)" "len is = length (elems is)"
    using assms(1) by (auto simp: intset_ok_def intset_rep_def)
  then obtain is' where is': "intsetAdd g is v = Some (is', v \<notin> set (elems is))"
    "intset_rep is' (ins_sorted v (elems is))" "encoding is' = max (encoding is) (intsetValueEncoding v)"
    using intsetAdd_spec [OF r(1) assms(2)] assms(3) by metis
  then show ?thesis using rep_ok [OF is'(2)] r(2) ins_sorted_spec [of "elems is" v] r(1)
    by (auto simp: intset_rep_def)
qed

lemma intset_ok_remove:
  assumes "intset_ok is" "int64_range v"
  shows "\<exists>is'. intsetRemove g is v = Some (is', v \<in> set (elems is)) \<and> intset_ok is' \<and>
     set (elems is') = set (elems is) - {v} \<and> len is' \<le> len is \<and> encoding is' = encoding is"
proof -
  have r: "intset_rep is (elems is)" "len is = length (elems is)"
    using assms(1) by (auto simp: intset_ok_def intset_rep_def)
  then obtain is' where is': "intsetRemove g is v = Some (is', v \<in> set (elems is))"
    "intset_rep is' (del_sorted v (elems is))" "encoding is' = encoding is"
    using intsetRemove_spec [OF r(1) assms(2)] by metis
  then show ?thesis using rep_ok [OF is'(2)] r(2)
    by (auto simp: intset_rep_def del_sorted_def)
qed

lemma intset_ok_find: "intset_ok is \<Longrightarrow> int64_range v \<Longrightarrow> intsetFind is v = Some (v \<in> set (elems is))"
  unfolding intset_ok_def by (rule intsetFind_spec)

lemma intset_ok_new: "intset_ok intsetNew \<and> elems intsetNew = []"
  using rep_ok [OF intsetNew_rep] .

interpretation iset: set_impl intset_ok "\<lambda>is. set (elems is)" "\<lambda>v. int64_range v"
  "\<lambda>is n. len is + n < 2 ^ 28" "intsetAdd g" "intsetRemove g" intsetFind for g
proof
  fix "is" v n assume "intset_ok is" "int64_range v" "len is + Suc n < 2 ^ 28"
  then show "\<exists>is'. intsetAdd g is v = Some (is', v \<notin> set (elems is)) \<and> intset_ok is' \<and>
      set (elems is') = insert v (set (elems is)) \<and> len is' + n < 2 ^ 28"
    using intset_ok_add [of "is" v g] by fastforce
next
  fix "is" v n assume "intset_ok is" "int64_range v" "len is + Suc n < 2 ^ 28"
  then show "\<exists>is'. intsetRemove g is v = Some (is', v \<in> set (elems is)) \<and> intset_ok is' \<and>
      set (elems is') = set (elems is) - {v} \<and> len is' + n < 2 ^ 28"
    using intset_ok_remove [of "is" v g] by fastforce
qed (rule intset_ok_find)

section \<open>Properties\<close>

text \<open>
  C4. Adding a 64-bit integer to a well-formed intset stays inside the block, reports whether
  the value was new, keeps the intset well-formed and yields the sorted list of the enlarged
  set; the encoding widens exactly when the value needs it and never narrows. The bytes
  \<open>realloc\<close> leaves uninitialised do not matter.
\<close>

theorem intsetAdd_correct:
  assumes "intset_ok is" and "int64_range v" and "len is + 1 < 2 ^ 28"
  shows "\<exists>is'. intsetAdd g is v = Some (is', v \<notin> set (elems is)) \<and> intset_ok is' \<and>
     elems is' = sorted_list_of_set (insert v (set (elems is))) \<and>
     encoding is' = max (encoding is) (intsetValueEncoding v)"
proof -
  obtain is' where "intsetAdd g is v = Some (is', v \<notin> set (elems is))" "intset_ok is'"
    "set (elems is') = insert v (set (elems is))"
    "encoding is' = max (encoding is) (intsetValueEncoding v)"
    using intset_ok_add [OF assms] by blast
  then show ?thesis using sorted_list_of_set_eq [of "elems is'"]
    by (auto simp: intset_ok_def intset_rep_def)
qed

theorem intsetAdd_correct_witness:
  "\<exists>is'. intsetAdd 7 intsetNew (- 70000) = Some (is', True) \<and> elems is' = [- 70000] \<and> encoding is' = 4"
  using intsetAdd_correct [of intsetNew "- 70000" 7] intset_ok_new
  by (auto simp: intsetNew_def intsetValueEncoding_def)

text \<open>
  Removing a 64-bit integer from a well-formed intset stays inside the block, reports
  whether the value was present, keeps the intset well-formed and yields the sorted list of
  the remaining members in the same encoding.
\<close>

theorem intsetRemove_correct:
  assumes "intset_ok is" and "int64_range v"
  shows "\<exists>is'. intsetRemove g is v = Some (is', v \<in> set (elems is)) \<and> intset_ok is' \<and>
     elems is' = sorted_list_of_set (set (elems is) - {v}) \<and> encoding is' = encoding is"
proof -
  obtain is' where "intsetRemove g is v = Some (is', v \<in> set (elems is))" "intset_ok is'"
    "set (elems is') = set (elems is) - {v}" "encoding is' = encoding is"
    using intset_ok_remove [OF assms] by blast
  then show ?thesis using sorted_list_of_set_eq [of "elems is'"]
    by (auto simp: intset_ok_def intset_rep_def)
qed

definition example_intset :: intset where
  "example_intset = \<lparr>encoding = 2, len = 3, contents = [251, 255, 7, 0, 0, 1]\<rparr>"

lemma le_bytes_2: "le_bytes 2 v = [word_of_int v, word_of_int (v div 256)]"
  by (simp add: numeral_2_eq_2)

lemma example_intset_rep: "intset_rep example_intset [- 5, 7, 256]"
  by (simp add: intset_rep_def example_intset_def valid_enc_def fits_signed_def le_bytes_2)

theorem intsetRemove_correct_witness:
  "\<exists>is'. intsetRemove 0 example_intset 7 = Some (is', True) \<and> elems is' = [- 5, 256]"
  using intsetRemove_correct [of example_intset 7 0] rep_ok [OF example_intset_rep]
  by (auto simp: insert_Diff_if)

text \<open>
  The binary search terminates inside the block on every well-formed intset and returns
  whether the value is a member, together with the number of smaller members: the index of
  the value or the index where it has to be inserted.
\<close>

theorem intsetSearch_correct:
  assumes "intset_ok is"
  shows "intsetSearch is v = Some (v \<in> set (elems is), length (filter (\<lambda>x. x < v) (elems is)))"
  using intsetSearch_spec [of "is" "elems is" v] assms by (simp add: intset_ok_def rank_of_def)

theorem intsetSearch_correct_witness: "intsetSearch example_intset 256 = Some (True, 2)"
  using intsetSearch_correct [of example_intset 256] rep_ok [OF example_intset_rep] by simp

text \<open>
  Any sequence of fewer than \<open>2^28\<close> insertions and removals of 64-bit integers, run on a
  new intset, succeeds, reports for each operation whether it changed the set, and leaves an
  intset whose \<open>intsetFind\<close> answers as the mathematical set the operations denote.
\<close>

theorem intset_run_correct:
  assumes "\<forall>x \<in> set xs. int64_range (op_value x)" and "length xs < 2 ^ 28" and "int64_range v"
  shows "\<exists>is'. run_ops (intsetAdd g) (intsetRemove g) intsetNew xs = Some (is', spec_changes {} xs) \<and>
    intset_ok is' \<and> intsetFind is' v = Some (v \<in> foldl spec_op {} xs)"
proof -
  have new: "intset_ok intsetNew" "len intsetNew + length xs < 2 ^ 28" "set (elems intsetNew) = {}"
    using intset_ok_new assms(2) by (auto simp: intsetNew_def)
  show ?thesis
    using iset.run_ops_correct [OF new(1) assms(1) new(2), of g] intset_ok_find [OF _ assms(3)] new(3) by auto
qed

theorem intset_run_correct_witness:
  "\<exists>is'. run_ops (intsetAdd 0) (intsetRemove 0) intsetNew [SetAdd 5, SetAdd 70000, SetAdd 5, SetRem 5]
      = Some (is', [True, True, False, True]) \<and> intsetFind is' 70000 = Some True"
  using intset_run_correct [of "[SetAdd 5, SetAdd 70000, SetAdd 5, SetRem 5]" 70000 0]
  by (auto simp: insert_commute)

end
