(* ===== verification/Map_Interface.thy ===== *)
theory Map_Interface
  imports Main
begin

text \<open>
  What the key space and the hash and set types rely on from the table that stores their
  fields. An operation returns \<open>None\<close> when it would fail an assertion or leave a table;
  \<open>fits s n\<close> says that \<open>n\<close> more operations fit the structure's size fields. The laws are
  those of a finite map; reading may reorganise the structure, so it returns a state too.
\<close>

datatype ('k, 'v) map_op = MapAdd 'k 'v | MapReplace 'k 'v | MapDelete 'k | MapFetch 'k

datatype 'v map_result = Done bool | Fetched "'v option"

fun spec_map_op :: "('k \<rightharpoonup> 'v) \<Rightarrow> ('k, 'v) map_op \<Rightarrow> ('k \<rightharpoonup> 'v) \<times> 'v map_result" where
  "spec_map_op m (MapAdd k v) = (if m k = None then (m(k \<mapsto> v), Done True) else (m, Done False))"
| "spec_map_op m (MapReplace k v) = (m(k \<mapsto> v), Done (m k = None))"
| "spec_map_op m (MapDelete k) = (m(k := None), Done (m k \<noteq> None))"
| "spec_map_op m (MapFetch k) = (m, Fetched (m k))"

fun spec_map_run :: "('k \<rightharpoonup> 'v) \<Rightarrow> ('k, 'v) map_op list \<Rightarrow> ('k \<rightharpoonup> 'v) \<times> 'v map_result list" where
  "spec_map_run m [] = (m, [])"
| "spec_map_run m (x # xs) =
     (let (m1, r) = spec_map_op m x; (m2, rs) = spec_map_run m1 xs in (m2, r # rs))"

fun map_step :: "('s \<Rightarrow> 'k \<Rightarrow> 'v \<Rightarrow> ('s \<times> bool) option) \<Rightarrow> ('s \<Rightarrow> 'k \<Rightarrow> 'v \<Rightarrow> ('s \<times> bool) option) \<Rightarrow>
    ('s \<Rightarrow> 'k \<Rightarrow> ('s \<times> bool) option) \<Rightarrow> ('s \<Rightarrow> 'k \<Rightarrow> ('s \<times> 'v option) option) \<Rightarrow>
    's \<Rightarrow> ('k, 'v) map_op \<Rightarrow> ('s \<times> 'v map_result) option" where
  "map_step add rep del fetch s (MapAdd k v) = map_option (apsnd Done) (add s k v)"
| "map_step add rep del fetch s (MapReplace k v) = map_option (apsnd Done) (rep s k v)"
| "map_step add rep del fetch s (MapDelete k) = map_option (apsnd Done) (del s k)"
| "map_step add rep del fetch s (MapFetch k) = map_option (apsnd Fetched) (fetch s k)"

fun map_run :: "('s \<Rightarrow> ('k, 'v) map_op \<Rightarrow> ('s \<times> 'v map_result) option) \<Rightarrow>
    's \<Rightarrow> ('k, 'v) map_op list \<Rightarrow> ('s \<times> 'v map_result list) option" where
  "map_run step s [] = Some (s, [])"
| "map_run step s (x # xs) = Option.bind (step s x) (\<lambda>(s1, r).
     map_option (apsnd ((#) r)) (map_run step s1 xs))"

locale map_impl =
  fixes inv :: "'s \<Rightarrow> bool"
    and abs :: "'s \<Rightarrow> 'k \<rightharpoonup> 'v"
    and fits :: "'s \<Rightarrow> nat \<Rightarrow> bool"
    and add rep :: "'s \<Rightarrow> 'k \<Rightarrow> 'v \<Rightarrow> ('s \<times> bool) option"
    and del :: "'s \<Rightarrow> 'k \<Rightarrow> ('s \<times> bool) option"
    and fetch :: "'s \<Rightarrow> 'k \<Rightarrow> ('s \<times> 'v option) option"
  assumes add_law: "inv s \<Longrightarrow> fits s (Suc n) \<Longrightarrow> \<exists>s'. add s k v = Some (s', abs s k = None) \<and>
      inv s' \<and> fits s' n \<and> abs s' = (if abs s k = None then (abs s)(k \<mapsto> v) else abs s)"
    and rep_law: "inv s \<Longrightarrow> fits s (Suc n) \<Longrightarrow> \<exists>s'. rep s k v = Some (s', abs s k = None) \<and>
      inv s' \<and> fits s' n \<and> abs s' = (abs s)(k \<mapsto> v)"
    and del_law: "inv s \<Longrightarrow> fits s (Suc n) \<Longrightarrow> \<exists>s'. del s k = Some (s', abs s k \<noteq> None) \<and>
      inv s' \<and> fits s' n \<and> abs s' = (abs s)(k := None)"
    and fetch_law: "inv s \<Longrightarrow> fits s (Suc n) \<Longrightarrow> \<exists>s'. fetch s k = Some (s', abs s k) \<and>
      inv s' \<and> fits s' n \<and> abs s' = abs s"
begin

lemma map_step_correct:
  assumes "inv s" "fits s (Suc n)"
  shows "\<exists>s'. map_step add rep del fetch s x = Some (s', snd (spec_map_op (abs s) x)) \<and>
    inv s' \<and> fits s' n \<and> abs s' = fst (spec_map_op (abs s) x)"
proof (cases x)
  case (MapAdd k v)
  then show ?thesis using add_law [OF assms, of k v] by auto
next
  case (MapReplace k v)
  then show ?thesis using rep_law [OF assms, of k v] by auto
next
  case (MapDelete k)
  then show ?thesis using del_law [OF assms, of k] by auto
next
  case (MapFetch k)
  then show ?thesis using fetch_law [OF assms, of k] by auto
qed

lemma map_run_correct:
  "inv s \<Longrightarrow> fits s (length xs) \<Longrightarrow>
   \<exists>s'. map_run (map_step add rep del fetch) s xs = Some (s', snd (spec_map_run (abs s) xs)) \<and>
     inv s' \<and> abs s' = fst (spec_map_run (abs s) xs)"
proof (induction xs arbitrary: s)
  case (Cons x xs)
  obtain s1 where s1: "map_step add rep del fetch s x = Some (s1, snd (spec_map_op (abs s) x))"
    "inv s1" "fits s1 (length xs)" "abs s1 = fst (spec_map_op (abs s) x)"
    using map_step_correct [of s "length xs" x] Cons.prems by auto
  show ?case using Cons.IH [OF s1(2,3)] s1(1,4)
    by (auto simp: Let_def split: prod.splits)
qed simp

end

end
