(* ===== verification/Dict.thy ===== *)
theory Dict
  imports Redis_Prelude Map_Interface "HOL-Library.Multiset"
begin

text \<open>
  \<^verbatim>\<open>redis-2.8/src/dict.c\<close>: the chained hash table with incremental rehashing that holds
  the key space and every large collection.

  A \<open>dictht\<close> keeps its buckets as a list of chains, with \<open>[]\<close> for the \<open>NULL\<close> table; the
  \<open>size\<close>, \<open>sizemask\<close> and \<open>used\<close> fields are separate, as in C, and the invariant says how
  they agree. An entry pointer is a location: table, bucket and position in the chain.
  The \<open>dictType\<close> callbacks are the hash function argument \<open>hf\<close> (an \<open>unsigned int\<close>) and
  equality of keys; the \<open>dup\<close> callbacks are \<open>NULL\<close> in every Redis dictionary type, and the
  destructors only free memory. \<open>None\<close> is a failed assertion or an access outside a table.
  \<open>can_resize\<close> is the global \<open>dict_can_resize\<close>.
\<close>

record ('k, 'v) dictht =
  ht_table :: "('k \<times> 'v) list list"
  ht_size :: nat
  ht_sizemask :: nat
  ht_used :: nat

record ('k, 'v) dict =
  ht0 :: "('k, 'v) dictht"
  ht1 :: "('k, 'v) dictht"
  rehashidx :: int
  iterators :: int

type_synonym 'k hash = "'k \<Rightarrow> 32 word"
type_synonym entry_loc = "nat \<times> nat \<times> nat"

abbreviation LONG_MAX :: nat where "LONG_MAX \<equiv> 2147483647"

definition dictReset :: "('k, 'v) dictht" where
  "dictReset = \<lparr>ht_table = [], ht_size = 0, ht_sizemask = 0, ht_used = 0\<rparr>"

definition dictCreate :: "('k, 'v) dict" where
  "dictCreate = \<lparr>ht0 = dictReset, ht1 = dictReset, rehashidx = - 1, iterators = 0\<rparr>"

definition dictIsRehashing :: "('k, 'v) dict \<Rightarrow> bool" where
  "dictIsRehashing d \<longleftrightarrow> rehashidx d \<noteq> - 1"

definition dictSize :: "('k, 'v) dict \<Rightarrow> nat" where
  "dictSize d = ht_used (ht0 d) + ht_used (ht1 d)"

definition dictSlots :: "('k, 'v) dict \<Rightarrow> nat" where
  "dictSlots d = ht_size (ht0 d) + ht_size (ht1 d)"

section \<open>Resizing\<close>

function dictNextPowerLoop :: "nat \<Rightarrow> nat \<Rightarrow> nat" where
  "dictNextPowerLoop sz i = (if i \<ge> sz \<or> i = 0 then i else dictNextPowerLoop sz (i * 2))"
  by pat_completeness auto
termination by (relation "measure (\<lambda>(sz, i). sz - i)") auto

declare dictNextPowerLoop.simps [simp del]

definition dictNextPower :: "nat \<Rightarrow> nat" where
  "dictNextPower sz = (if sz \<ge> LONG_MAX then LONG_MAX else dictNextPowerLoop sz 4)"

text \<open>The boolean is \<open>True\<close> for \<open>DICT_OK\<close>.\<close>

definition dictExpand :: "('k, 'v) dict \<Rightarrow> nat \<Rightarrow> ('k, 'v) dict \<times> bool" where
  "dictExpand d sz =
     (let realsize = dictNextPower sz in
      if dictIsRehashing d \<or> ht_used (ht0 d) > sz then (d, False)
      else
        let n = \<lparr>ht_table = replicate realsize [], ht_size = realsize,
                 ht_sizemask = realsize - 1, ht_used = 0\<rparr> in
        if ht_table (ht0 d) = [] then (d\<lparr>ht0 := n\<rparr>, True)
        else (d\<lparr>ht1 := n, rehashidx := 0\<rparr>, True))"

text \<open>\<open>minimal\<close> is a C \<open>int\<close>: the cast of \<open>used\<close> keeps its low 32 bits, read as signed.\<close>

definition dictResize :: "bool \<Rightarrow> ('k, 'v) dict \<Rightarrow> ('k, 'v) dict \<times> bool" where
  "dictResize can_resize d =
     (if \<not> can_resize \<or> dictIsRehashing d then (d, False)
      else
        let minimal = sint (of_nat (ht_used (ht0 d)) :: 32 word);
            minimal = (if minimal < 4 then 4 else minimal)
        in dictExpand d (nat minimal))"

definition dictExpandIfNeeded :: "bool \<Rightarrow> ('k, 'v) dict \<Rightarrow> ('k, 'v) dict \<times> bool" where
  "dictExpandIfNeeded can_resize d =
     (if dictIsRehashing d then (d, True)
      else if ht_size (ht0 d) = 0 then dictExpand d 4
      else if ht_used (ht0 d) \<ge> ht_size (ht0 d) \<and>
              (can_resize \<or> ht_used (ht0 d) div ht_size (ht0 d) > 5)
      then dictExpand d (ht_used (ht0 d) * 2)
      else (d, True))"

section \<open>Rehashing\<close>

function next_used_bucket :: "('k \<times> 'v) list list \<Rightarrow> nat \<Rightarrow> nat option" where
  "next_used_bucket tbl i =
     (if i < length tbl then (if tbl ! i = [] then next_used_bucket tbl (i + 1) else Some i)
      else None)"
  by pat_completeness auto
termination by (relation "measure (\<lambda>(tbl, i). length tbl - i)") auto

declare next_used_bucket.simps [simp del]

definition bucket_index :: "'k hash \<Rightarrow> ('k, 'v) dictht \<Rightarrow> 'k \<Rightarrow> nat" where
  "bucket_index hf t k = unat (hf k) AND ht_sizemask t"

definition bucket :: "('k, 'v) dictht \<Rightarrow> nat \<Rightarrow> ('k \<times> 'v) list option" where
  "bucket t i = (if i < length (ht_table t) then Some (ht_table t ! i) else None)"

text \<open>Linking an entry at the head of its chain.\<close>

definition link_head :: "('k, 'v) dictht \<Rightarrow> nat \<Rightarrow> 'k \<times> 'v \<Rightarrow> ('k, 'v) dictht option" where
  "link_head t i e = map_option
     (\<lambda>b. t\<lparr>ht_table := (ht_table t)[i := e # b], ht_used := ht_used t + 1\<rparr>) (bucket t i)"

fun move_chain :: "'k hash \<Rightarrow> ('k \<times> 'v) list \<Rightarrow> ('k, 'v) dict \<Rightarrow> ('k, 'v) dict option" where
  "move_chain hf [] d = Some d"
| "move_chain hf (e # es) d =
     Option.bind (link_head (ht1 d) (bucket_index hf (ht1 d) (fst e)) e) (\<lambda>t1.
     move_chain hf es (d\<lparr>ht0 := (ht0 d)\<lparr>ht_used := ht_used (ht0 d) - 1\<rparr>, ht1 := t1\<rparr>))"

text \<open>The \<open>while(n--)\<close> loop; the boolean is the return value.\<close>

fun dictRehashLoop :: "'k hash \<Rightarrow> nat \<Rightarrow> ('k, 'v) dict \<Rightarrow> (('k, 'v) dict \<times> bool) option" where
  "dictRehashLoop hf 0 d = Some (d, True)"
| "dictRehashLoop hf (Suc n) d =
     (if ht_used (ht0 d) = 0 then
        Some (d\<lparr>ht0 := ht1 d, ht1 := dictReset, rehashidx := - 1\<rparr>, False)
      else if \<not> int (ht_size (ht0 d)) > rehashidx d then None
      else case next_used_bucket (ht_table (ht0 d)) (nat (rehashidx d)) of
             None \<Rightarrow> None
           | Some i \<Rightarrow>
               Option.bind (move_chain hf (ht_table (ht0 d) ! i) d) (\<lambda>d.
               dictRehashLoop hf n
                 (d\<lparr>ht0 := (ht0 d)\<lparr>ht_table := (ht_table (ht0 d))[i := []]\<rparr>,
                    rehashidx := int i + 1\<rparr>)))"

definition dictRehash :: "'k hash \<Rightarrow> nat \<Rightarrow> ('k, 'v) dict \<Rightarrow> (('k, 'v) dict \<times> bool) option" where
  "dictRehash hf n d = (if \<not> dictIsRehashing d then Some (d, False) else dictRehashLoop hf n d)"

definition dictRehashStep :: "'k hash \<Rightarrow> ('k, 'v) dict \<Rightarrow> ('k, 'v) dict option" where
  "dictRehashStep hf d = (if iterators d = 0 then map_option fst (dictRehash hf 1 d) else Some d)"

definition rehash_if_needed :: "'k hash \<Rightarrow> ('k, 'v) dict \<Rightarrow> ('k, 'v) dict option" where
  "rehash_if_needed hf d = (if dictIsRehashing d then dictRehashStep hf d else Some d)"

text \<open>
  \<open>ticks\<close> is the sequence of the differences \<open>timeInMilliseconds()-start\<close> the loop reads;
  the loop stops when rehashing is complete or the clock says so.
\<close>

fun dictRehashMilliseconds :: "'k hash \<Rightarrow> int list \<Rightarrow> int \<Rightarrow> nat \<Rightarrow> ('k, 'v) dict \<Rightarrow>
    (('k, 'v) dict \<times> nat) option" where
  "dictRehashMilliseconds hf [] ms rehashes d = Some (d, rehashes)"
| "dictRehashMilliseconds hf (t # ts) ms rehashes d =
     Option.bind (dictRehash hf 100 d) (\<lambda>(d, more).
     if \<not> more then Some (d, rehashes)
     else if t > ms then Some (d, rehashes + 100)
     else dictRehashMilliseconds hf ts ms (rehashes + 100) d)"

section \<open>Lookup, insertion, deletion\<close>

fun find_pos :: "'k \<Rightarrow> ('k \<times> 'v) list \<Rightarrow> nat option" where
  "find_pos k [] = None"
| "find_pos k (e # es) = (if k = fst e then Some 0 else map_option Suc (find_pos k es))"

text \<open>
  The loop over the two tables shared by every search: the location of the key, or, when it
  is absent, the bucket index computed for the last table searched.
\<close>

definition search_tables :: "'k hash \<Rightarrow> ('k, 'v) dict \<Rightarrow> 'k \<Rightarrow> (entry_loc + nat) option" where
  "search_tables hf d k =
     (let i0 = bucket_index hf (ht0 d) k in
      Option.bind (bucket (ht0 d) i0) (\<lambda>b0.
      case find_pos k b0 of
        Some p \<Rightarrow> Some (Inl (0, i0, p))
      | None \<Rightarrow>
          if \<not> dictIsRehashing d then Some (Inr i0)
          else
            let i1 = bucket_index hf (ht1 d) k in
            Option.bind (bucket (ht1 d) i1) (\<lambda>b1.
            case find_pos k b1 of
              Some p \<Rightarrow> Some (Inl (1, i1, p))
            | None \<Rightarrow> Some (Inr i1))))"

definition dictKeyIndex :: "bool \<Rightarrow> 'k hash \<Rightarrow> ('k, 'v) dict \<Rightarrow> 'k \<Rightarrow> (('k, 'v) dict \<times> int) option" where
  "dictKeyIndex can_resize hf d k =
     (let (d, ok) = dictExpandIfNeeded can_resize d in
      if \<not> ok then Some (d, - 1)
      else map_option (\<lambda>r. (d, case r of Inl _ \<Rightarrow> - 1 | Inr i \<Rightarrow> int i)) (search_tables hf d k))"

text \<open>
  \<open>dictAddRaw\<close> leaves the value of the new entry to its caller: \<open>v0\<close> is the indeterminate
  content of the field until then. The second component is the returned entry.
\<close>

definition dictAddRaw :: "bool \<Rightarrow> 'k hash \<Rightarrow> ('k, 'v) dict \<Rightarrow> 'k \<Rightarrow> 'v \<Rightarrow>
    (('k, 'v) dict \<times> entry_loc option) option" where
  "dictAddRaw can_resize hf d k v0 =
     Option.bind (rehash_if_needed hf d) (\<lambda>d.
     Option.bind (dictKeyIndex can_resize hf d k) (\<lambda>(d, index).
     if index = - 1 then Some (d, None)
     else if dictIsRehashing d then
       map_option (\<lambda>t. (d\<lparr>ht1 := t\<rparr>, Some (1, nat index, 0))) (link_head (ht1 d) (nat index) (k, v0))
     else
       map_option (\<lambda>t. (d\<lparr>ht0 := t\<rparr>, Some (0, nat index, 0))) (link_head (ht0 d) (nat index) (k, v0))))"

definition get_ht :: "('k, 'v) dict \<Rightarrow> nat \<Rightarrow> ('k, 'v) dictht" where
  "get_ht d t = (if t = 0 then ht0 d else ht1 d)"

definition put_ht :: "('k, 'v) dict \<Rightarrow> nat \<Rightarrow> ('k, 'v) dictht \<Rightarrow> ('k, 'v) dict" where
  "put_ht d t x = (if t = 0 then d\<lparr>ht0 := x\<rparr> else d\<lparr>ht1 := x\<rparr>)"

definition get_entry :: "('k, 'v) dict \<Rightarrow> entry_loc \<Rightarrow> ('k \<times> 'v) option" where
  "get_entry d l = (case l of (t, i, p) \<Rightarrow>
     Option.bind (bucket (get_ht d t) i) (\<lambda>b. if p < length b then Some (b ! p) else None))"

definition dictSetVal :: "('k, 'v) dict \<Rightarrow> entry_loc \<Rightarrow> 'v \<Rightarrow> ('k, 'v) dict option" where
  "dictSetVal d l v = (case l of (t, i, p) \<Rightarrow>
     Option.bind (bucket (get_ht d t) i) (\<lambda>b.
     if p < length b then
       Some (put_ht d t ((get_ht d t)\<lparr>ht_table := (ht_table (get_ht d t))[i := b[p := (fst (b ! p), v)]]\<rparr>))
     else None))"

definition dictAdd :: "bool \<Rightarrow> 'k hash \<Rightarrow> 'v \<Rightarrow> ('k, 'v) dict \<Rightarrow> 'k \<Rightarrow> 'v \<Rightarrow> (('k, 'v) dict \<times> bool) option" where
  "dictAdd can_resize hf v0 d k v =
     Option.bind (dictAddRaw can_resize hf d k v0) (\<lambda>(d, entry).
     case entry of None \<Rightarrow> Some (d, False)
     | Some l \<Rightarrow> map_option (\<lambda>d. (d, True)) (dictSetVal d l v))"

definition dictFind :: "'k hash \<Rightarrow> ('k, 'v) dict \<Rightarrow> 'k \<Rightarrow> (('k, 'v) dict \<times> entry_loc option) option" where
  "dictFind hf d k =
     (if ht_size (ht0 d) = 0 then Some (d, None)
      else Option.bind (rehash_if_needed hf d) (\<lambda>d.
           map_option (\<lambda>r. (d, case r of Inl l \<Rightarrow> Some l | Inr _ \<Rightarrow> None)) (search_tables hf d k)))"

definition dictFetchValue :: "'k hash \<Rightarrow> ('k, 'v) dict \<Rightarrow> 'k \<Rightarrow> (('k, 'v) dict \<times> 'v option) option" where
  "dictFetchValue hf d k =
     Option.bind (dictFind hf d k) (\<lambda>(d, he).
     case he of None \<Rightarrow> Some (d, None)
     | Some l \<Rightarrow> map_option (\<lambda>e. (d, Some (snd e))) (get_entry d l))"

text \<open>The boolean is \<open>True\<close> when the key was added from scratch.\<close>

definition dictReplace :: "bool \<Rightarrow> 'k hash \<Rightarrow> 'v \<Rightarrow> ('k, 'v) dict \<Rightarrow> 'k \<Rightarrow> 'v \<Rightarrow> (('k, 'v) dict \<times> bool) option" where
  "dictReplace can_resize hf v0 d k v =
     Option.bind (dictAdd can_resize hf v0 d k v) (\<lambda>(d, ok).
     if ok then Some (d, True)
     else Option.bind (dictFind hf d k) (\<lambda>(d, entry).
       case entry of None \<Rightarrow> None
       | Some l \<Rightarrow> map_option (\<lambda>d. (d, False)) (dictSetVal d l v)))"

definition dictReplaceRaw :: "bool \<Rightarrow> 'k hash \<Rightarrow> ('k, 'v) dict \<Rightarrow> 'k \<Rightarrow> 'v \<Rightarrow>
    (('k, 'v) dict \<times> entry_loc option) option" where
  "dictReplaceRaw can_resize hf d k v0 =
     Option.bind (dictFind hf d k) (\<lambda>(d, entry).
     case entry of Some l \<Rightarrow> Some (d, Some l) | None \<Rightarrow> dictAddRaw can_resize hf d k v0)"

definition unlink :: "('k, 'v) dict \<Rightarrow> entry_loc \<Rightarrow> ('k, 'v) dict option" where
  "unlink d l = (case l of (t, i, p) \<Rightarrow>
     Option.bind (bucket (get_ht d t) i) (\<lambda>b.
     if p < length b then
       Some (put_ht d t ((get_ht d t)\<lparr>ht_table := (ht_table (get_ht d t))[i := take p b @ drop (Suc p) b],
                                      ht_used := ht_used (get_ht d t) - 1\<rparr>))
     else None))"

text \<open>
  \<open>dictGenericDelete\<close>; \<open>dictDelete\<close> and \<open>dictDeleteNoFree\<close> differ only in whether they
  free the key and the value.
\<close>

definition dictGenericDelete :: "'k hash \<Rightarrow> ('k, 'v) dict \<Rightarrow> 'k \<Rightarrow> (('k, 'v) dict \<times> bool) option" where
  "dictGenericDelete hf d k =
     (if ht_size (ht0 d) = 0 then Some (d, False)
      else Option.bind (rehash_if_needed hf d) (\<lambda>d.
           Option.bind (search_tables hf d k) (\<lambda>r.
           case r of Inr _ \<Rightarrow> Some (d, False)
           | Inl l \<Rightarrow> map_option (\<lambda>d. (d, True)) (unlink d l))))"

text \<open>
  \<open>_dictClear\<close> of one table: the entries it frees, in order. The loop stops early when
  \<open>used\<close> reaches zero.
\<close>

fun dictClearLoop :: "('k \<times> 'v) list list \<Rightarrow> nat \<Rightarrow> ('k \<times> 'v) list" where
  "dictClearLoop [] used = []"
| "dictClearLoop (b # bs) used = (if used > 0 then b @ dictClearLoop bs (used - length b) else [])"

definition dictClear :: "('k, 'v) dictht \<Rightarrow> ('k, 'v) dictht \<times> ('k \<times> 'v) list" where
  "dictClear t = (dictReset, dictClearLoop (ht_table t) (ht_used t))"

definition dictEmpty :: "('k, 'v) dict \<Rightarrow> ('k, 'v) dict \<times> ('k \<times> 'v) list" where
  "dictEmpty d =
     (let (a, fa) = dictClear (ht0 d); (b, fb) = dictClear (ht1 d)
      in (d\<lparr>ht0 := a, ht1 := b, rehashidx := - 1, iterators := 0\<rparr>, fa @ fb))"

text \<open>\<open>dictRelease\<close> frees both tables and the structure itself: what remains are the frees.\<close>

definition dictRelease :: "('k, 'v) dict \<Rightarrow> ('k \<times> 'v) list" where
  "dictRelease d = snd (dictClear (ht0 d)) @ snd (dictClear (ht1 d))"

section \<open>The invariant and the abstraction\<close>

definition ht_entries :: "('k, 'v) dictht \<Rightarrow> ('k \<times> 'v) list" where
  "ht_entries t = concat (ht_table t)"

definition entries :: "('k, 'v) dict \<Rightarrow> ('k \<times> 'v) list" where
  "entries d = ht_entries (ht0 d) @ ht_entries (ht1 d)"

definition dict_map :: "('k, 'v) dict \<Rightarrow> 'k \<rightharpoonup> 'v" where
  "dict_map d = map_of (entries d)"

text \<open>A table is \<open>NULL\<close>, or a power of two of chains that hold their keys at the masked hash.\<close>

definition ht_shape :: "('k, 'v) dictht \<Rightarrow> bool" where
  "ht_shape t \<longleftrightarrow> (\<exists>e. ht_size t = 2 ^ e) \<and> length (ht_table t) = ht_size t \<and>
     ht_sizemask t = ht_size t - 1"

definition ht_placed :: "'k hash \<Rightarrow> ('k, 'v) dictht \<Rightarrow> bool" where
  "ht_placed hf t \<longleftrightarrow> (\<forall>i < length (ht_table t). \<forall>x \<in> set (ht_table t ! i). bucket_index hf t (fst x) = i)"

definition ht_ok :: "'k hash \<Rightarrow> ('k, 'v) dictht \<Rightarrow> bool" where
  "ht_ok hf t \<longleftrightarrow> ht_shape t \<and> ht_placed hf t \<and> ht_used t = length (ht_entries t)"

definition dict_ok :: "'k hash \<Rightarrow> ('k, 'v) dict \<Rightarrow> bool" where
  "dict_ok hf d \<longleftrightarrow> distinct (map fst (entries d)) \<and>
     (if dictIsRehashing d
      then ht_ok hf (ht0 d) \<and> ht_ok hf (ht1 d) \<and>
           0 \<le> rehashidx d \<and> rehashidx d \<le> int (ht_size (ht0 d)) \<and>
           (\<forall>i < nat (rehashidx d). ht_table (ht0 d) ! i = [])
      else (ht0 d = dictReset \<or> ht_ok hf (ht0 d)) \<and> ht1 d = dictReset)"

lemma and_mask_mod: "n AND (2 ^ e - 1) = (n :: nat) mod 2 ^ e"
  by (metis mask_nat_def take_bit_eq_mask take_bit_eq_mod)

lemma bucket_index_less: "ht_shape t \<Longrightarrow> bucket_index hf t k < length (ht_table t)"
  by (auto simp: ht_shape_def bucket_index_def and_mask_mod [unfolded One_nat_def])

lemma ht_shape_nonempty: "ht_shape t \<Longrightarrow> ht_table t \<noteq> [] \<and> 0 < ht_size t"
  by (auto simp: ht_shape_def)

lemma reset_simps [simp]: "ht_table dictReset = []" "ht_size dictReset = 0" "ht_used dictReset = 0"
  "ht_entries dictReset = []" "ht_sizemask dictReset = 0"
  by (simp_all add: dictReset_def ht_entries_def)

lemma mset_concat_update:
  "i < length xs \<Longrightarrow> mset (concat (xs[i := ys])) + mset (xs ! i) = mset (concat xs) + mset ys"
  by (induction xs arbitrary: i) (auto split: nat.split simp: nth_Cons' list_update_code)

lemma mset_concat_cons:
  "i < length xs \<Longrightarrow> mset (concat (xs[i := y # xs ! i])) = add_mset y (mset (concat xs))"
  using mset_concat_update [of i xs "y # xs ! i"] by simp

lemma mset_length_eq: "mset xs = mset ys \<Longrightarrow> length xs = length ys"
  by (metis size_mset)

lemma ht_ok_keys:
  assumes ok: "ht_ok hf t" and sz: "ht_size t' = ht_size t" "ht_sizemask t' = ht_sizemask t"
    "length (ht_table t') = length (ht_table t)" "ht_used t' = length (ht_entries t')"
    and sub: "\<And>m. m < length (ht_table t) \<Longrightarrow> fst ` set (ht_table t' ! m) \<subseteq> fst ` set (ht_table t ! m)"
  shows "ht_ok hf t'"
proof -
  have b: "bucket_index hf t' = bucket_index hf t" using sz by (auto simp: bucket_index_def)
  have "ht_placed hf t'"
    unfolding ht_placed_def
  proof (intro allI ballI impI)
    fix m x
    assume m: "m < length (ht_table t')" and x: "x \<in> set (ht_table t' ! m)"
    then obtain y where "y \<in> set (ht_table t ! m)" "fst y = fst x" using sub [of m] sz by force
    then show "bucket_index hf t' (fst x) = m" using ok m sz b by (metis ht_ok_def ht_placed_def)
  qed
  then show ?thesis using ok sz by (auto simp: ht_ok_def ht_shape_def)
qed

lemma link_head_ok:
  assumes "ht_ok hf t"
  shows "\<exists>t'. link_head t (bucket_index hf t k) (k, v) = Some t' \<and> ht_ok hf t' \<and>
     mset (ht_entries t') = add_mset (k, v) (mset (ht_entries t)) \<and>
     ht_size t' = ht_size t \<and> ht_sizemask t' = ht_sizemask t \<and>
     ht_table t' ! bucket_index hf t k = (k, v) # ht_table t ! bucket_index hf t k"
proof -
  let ?i = "bucket_index hf t k"
  have sh: "ht_shape t" and pl: "ht_placed hf t" and us: "ht_used t = length (ht_entries t)"
    using assms by (auto simp: ht_ok_def)
  have i: "?i < length (ht_table t)" by (rule bucket_index_less [OF sh])
  define t' where "t' = t\<lparr>ht_table := (ht_table t)[?i := (k, v) # ht_table t ! ?i], ht_used := ht_used t + 1\<rparr>"
  have m: "mset (ht_entries t') = add_mset (k, v) (mset (ht_entries t))"
    using mset_concat_cons [OF i] by (simp add: t'_def ht_entries_def)
  have "length (ht_entries t') = Suc (length (ht_entries t))"
    using mset_length_eq [of "ht_entries t'" "(k, v) # ht_entries t"] m by simp
  moreover have "bucket_index hf t' = bucket_index hf t" by (auto simp: bucket_index_def t'_def)
  ultimately have "ht_ok hf t'"
    using sh pl us i
    by (auto simp: ht_ok_def ht_shape_def ht_placed_def t'_def nth_list_update)
  then show ?thesis using i m by (auto simp: link_head_def bucket_def t'_def)
qed

section \<open>Searching\<close>

lemma find_pos_None: "find_pos k b = None \<longleftrightarrow> k \<notin> fst ` set b"
  by (induction b) auto

lemma find_pos_Some: "find_pos k b = Some p \<Longrightarrow> p < length b \<and> fst (b ! p) = k"
  by (induction b arbitrary: p) (auto split: if_splits)

lemma in_bucket:
  assumes "ht_ok hf t" "x \<in> set (ht_entries t)"
  shows "x \<in> set (ht_table t ! bucket_index hf t (fst x))"
proof -
  obtain b where "b \<in> set (ht_table t)" "x \<in> set b" using assms(2) by (auto simp: ht_entries_def)
  then obtain i where "i < length (ht_table t)" "x \<in> set (ht_table t ! i)" by (metis in_set_conv_nth)
  then show ?thesis using assms(1) by (auto simp: ht_ok_def ht_placed_def)
qed

lemma bucket_subset: "i < length (ht_table t) \<Longrightarrow> set (ht_table t ! i) \<subseteq> set (ht_entries t)"
  unfolding ht_entries_def set_concat by (rule Union_upper) (use nth_mem in blast)

lemma bucket_index_hit:
  assumes "ht_ok hf t"
  shows "bucket t (bucket_index hf t k) = Some (ht_table t ! bucket_index hf t k)"
    and "k \<in> fst ` set (ht_table t ! bucket_index hf t k) \<longleftrightarrow> k \<in> fst ` set (ht_entries t)"
proof -
  have i: "bucket_index hf t k < length (ht_table t)"
    using assms by (auto simp: ht_ok_def intro: bucket_index_less)
  then show "bucket t (bucket_index hf t k) = Some (ht_table t ! bucket_index hf t k)"
    by (simp add: bucket_def)
  show "k \<in> fst ` set (ht_table t ! bucket_index hf t k) \<longleftrightarrow> k \<in> fst ` set (ht_entries t)"
    using in_bucket [OF assms] bucket_subset [OF i] by force
qed

lemma dict_map_entry: "distinct (map fst (entries d)) \<Longrightarrow> (k, v) \<in> set (entries d) \<longleftrightarrow> dict_map d k = Some v"
  by (simp add: dict_map_def)

lemma dict_map_None: "dict_map d k = None \<longleftrightarrow> k \<notin> fst ` set (entries d)"
  by (simp add: dict_map_def map_of_eq_None_iff)

text \<open>The tables in use: the second one exists only during a rehash.\<close>

definition in_use :: "('k, 'v) dict \<Rightarrow> nat \<Rightarrow> bool" where
  "in_use d t \<longleftrightarrow> t = 0 \<or> t = 1 \<and> dictIsRehashing d"

definition loc_ok :: "('k, 'v) dict \<Rightarrow> entry_loc \<Rightarrow> 'k \<Rightarrow> bool" where
  "loc_ok d l k \<longleftrightarrow> (case l of (t, i, p) \<Rightarrow> in_use d t \<and> i < length (ht_table (get_ht d t)) \<and>
     p < length (ht_table (get_ht d t) ! i) \<and> fst (ht_table (get_ht d t) ! i ! p) = k)"

lemma search_tables_spec:
  assumes ok: "dict_ok hf d" and t0: "ht_ok hf (ht0 d)"
  shows "\<exists>r. search_tables hf d k = Some r \<and>
    (case r of Inl l \<Rightarrow> loc_ok d l k \<and> dict_map d k \<noteq> None
     | Inr i \<Rightarrow> dict_map d k = None \<and>
         i = bucket_index hf (if dictIsRehashing d then ht1 d else ht0 d) k)"
proof -
  note hit0 = bucket_index_hit [OF t0, of k]
  let ?i0 = "bucket_index hf (ht0 d) k" and ?i1 = "bucket_index hf (ht1 d) k"
  have i0: "?i0 < length (ht_table (ht0 d))" using t0 by (auto simp: ht_ok_def intro: bucket_index_less)
  show ?thesis
  proof (cases "find_pos k (ht_table (ht0 d) ! ?i0)")
    case (Some p)
    note fp = find_pos_Some [OF Some]
    have "loc_ok d (0, ?i0, p) k"
      using fp i0 by (simp add: loc_ok_def in_use_def get_ht_def)
    moreover have "k \<in> fst ` set (ht_table (ht0 d) ! ?i0)" using Some find_pos_None by (metis option.distinct(1))
    then have "dict_map d k \<noteq> None" using hit0(2) by (simp add: dict_map_None entries_def image_Un)
    ultimately show ?thesis using Some hit0(1) by (simp add: search_tables_def)
  next
    case None
    then have n0: "k \<notin> fst ` set (ht_entries (ht0 d))" using hit0(2) find_pos_None by metis
    show ?thesis
    proof (cases "dictIsRehashing d")
      case False
      then have "ht1 d = dictReset" using ok by (simp add: dict_ok_def)
      then have "dict_map d k = None" using n0 by (auto simp: dict_map_None entries_def)
      then show ?thesis using None False hit0(1) by (simp add: search_tables_def)
    next
      case True
      then have t1: "ht_ok hf (ht1 d)" using ok by (simp add: dict_ok_def)
      note hit1 = bucket_index_hit [OF t1, of k]
      have i1: "?i1 < length (ht_table (ht1 d))" using t1 by (auto simp: ht_ok_def intro: bucket_index_less)
      show ?thesis
      proof (cases "find_pos k (ht_table (ht1 d) ! ?i1)")
        case (Some p)
        note fp = find_pos_Some [OF Some]
        have "loc_ok d (1, ?i1, p) k"
          using fp i1 True by (simp add: loc_ok_def in_use_def get_ht_def)
        moreover have "k \<in> fst ` set (ht_table (ht1 d) ! ?i1)" using Some find_pos_None by (metis option.distinct(1))
        then have "dict_map d k \<noteq> None" using hit1(2) by (simp add: dict_map_None entries_def image_Un)
        ultimately show ?thesis using Some None True hit0(1) hit1(1) by (simp add: search_tables_def)
      next
        case n: None
        then have "k \<notin> fst ` set (ht_entries (ht1 d))" using hit1(2) find_pos_None by metis
        then have "dict_map d k = None" using n0 by (auto simp: dict_map_None entries_def)
        then show ?thesis using n None True hit0(1) hit1(1) by (simp add: search_tables_def)
      qed
    qed
  qed
qed

section \<open>Rehashing\<close>

lemma next_used_bucket_spec:
  assumes "j < length tbl" "tbl ! j \<noteq> []" "i \<le> j"
  shows "\<exists>n. next_used_bucket tbl i = Some n \<and> i \<le> n \<and> n < length tbl \<and> tbl ! n \<noteq> [] \<and>
    (\<forall>m. i \<le> m \<and> m < n \<longrightarrow> tbl ! m = [])"
  using assms
proof (induction tbl i rule: next_used_bucket.induct)
  case (1 tbl i)
  show ?case
  proof (cases "tbl ! i = []")
    case True
    then have "i + 1 \<le> j" using 1 by (cases "i = j") auto
    then obtain n where "next_used_bucket tbl (i + 1) = Some n" "i + 1 \<le> n" "n < length tbl"
      "tbl ! n \<noteq> []" "\<forall>m. i + 1 \<le> m \<and> m < n \<longrightarrow> tbl ! m = []"
      using 1 True by auto
    moreover have "\<forall>m. i \<le> m \<and> m < n \<longrightarrow> tbl ! m = []"
      using calculation(5) True by (metis Suc_eq_plus1 Suc_leI le_neq_implies_less)
    ultimately show ?thesis using 1(2,4)
      by (subst next_used_bucket.simps) (simp add: True)
  next
    case False
    then show ?thesis using 1 by (subst next_used_bucket.simps) auto
  qed
qed

lemma move_chain_ok:
  "ht_ok hf (ht1 d) \<Longrightarrow> \<exists>t1. move_chain hf es d =
       Some (d\<lparr>ht0 := (ht0 d)\<lparr>ht_used := ht_used (ht0 d) - length es\<rparr>, ht1 := t1\<rparr>) \<and>
     ht_ok hf t1 \<and> mset (ht_entries t1) = mset es + mset (ht_entries (ht1 d)) \<and>
     ht_size t1 = ht_size (ht1 d)"
proof (induction es arbitrary: d)
  case Nil
  then show ?case by (intro exI [of _ "ht1 d"]) simp
next
  case (Cons e es)
  obtain t where t: "link_head (ht1 d) (bucket_index hf (ht1 d) (fst e)) e = Some t" "ht_ok hf t"
    "mset (ht_entries t) = add_mset e (mset (ht_entries (ht1 d)))" "ht_size t = ht_size (ht1 d)"
    using link_head_ok [OF Cons.prems, of "fst e" "snd e"] by auto
  let ?d = "d\<lparr>ht0 := (ht0 d)\<lparr>ht_used := ht_used (ht0 d) - 1\<rparr>, ht1 := t\<rparr>"
  obtain t1 where "move_chain hf es ?d =
       Some (?d\<lparr>ht0 := (ht0 ?d)\<lparr>ht_used := ht_used (ht0 ?d) - length es\<rparr>, ht1 := t1\<rparr>)"
     "ht_ok hf t1" "mset (ht_entries t1) = mset es + mset (ht_entries t)" "ht_size t1 = ht_size t"
    using Cons.IH [of ?d] t by auto
  then show ?case using t by auto
qed

lemma dict_map_mset_eq:
  assumes "mset (entries d) = mset (entries d')" "distinct (map fst (entries d))"
  shows "dict_map d' = dict_map d \<and> distinct (map fst (entries d'))"
proof -
  have "distinct (map fst (entries d'))"
    using assms by (metis mset_map mset_eq_imp_distinct_iff)
  moreover have "set (entries d) = set (entries d')" using assms(1) by (metis set_mset_mset)
  ultimately show ?thesis using assms(2) by (simp add: dict_map_def map_of_inject_set)
qed

text \<open>One pass of the rehash loop: a whole chain moves, and the index advances past it.\<close>

definition rehash_one :: "'k hash \<Rightarrow> ('k, 'v) dict \<Rightarrow> nat \<Rightarrow> ('k, 'v) dict option" where
  "rehash_one hf d i = map_option (\<lambda>d. d\<lparr>ht0 := (ht0 d)\<lparr>ht_table := (ht_table (ht0 d))[i := []]\<rparr>,
     rehashidx := int i + 1\<rparr>) (move_chain hf (ht_table (ht0 d) ! i) d)"

lemma rehash_one_ok:
  assumes ok: "dict_ok hf d" and re: "dictIsRehashing d" and i: "i < length (ht_table (ht0 d))"
    and ge: "rehashidx d \<le> int i" and gap: "\<forall>m. nat (rehashidx d) \<le> m \<and> m < i \<longrightarrow> ht_table (ht0 d) ! m = []"
  shows "\<exists>d'. rehash_one hf d i = Some d' \<and> dict_ok hf d' \<and> dictIsRehashing d' \<and>
     mset (entries d') = mset (entries d) \<and> iterators d' = iterators d \<and>
     rehashidx d' = int i + 1 \<and> ht_size (ht0 d') = ht_size (ht0 d) \<and> ht_size (ht1 d') = ht_size (ht1 d)"
proof -
  have t0: "ht_ok hf (ht0 d)" and t1: "ht_ok hf (ht1 d)" and nn: "0 \<le> rehashidx d"
    and em: "\<forall>i < nat (rehashidx d). ht_table (ht0 d) ! i = []" and dk: "distinct (map fst (entries d))"
    using ok re by (auto simp: dict_ok_def)
  let ?b = "ht_table (ht0 d) ! i"
  obtain n1 where mv: "move_chain hf ?b d =
       Some (d\<lparr>ht0 := (ht0 d)\<lparr>ht_used := ht_used (ht0 d) - length ?b\<rparr>, ht1 := n1\<rparr>)"
     and n1: "ht_ok hf n1" "mset (ht_entries n1) = mset ?b + mset (ht_entries (ht1 d))" "ht_size n1 = ht_size (ht1 d)"
    using move_chain_ok [OF t1] by blast
  define n0 where "n0 = (ht0 d)\<lparr>ht_used := ht_used (ht0 d) - length ?b, ht_table := (ht_table (ht0 d))[i := []]\<rparr>"
  define d' where "d' = d\<lparr>ht0 := n0, ht1 := n1, rehashidx := int i + 1\<rparr>"
  have m0: "mset (ht_entries n0) + mset ?b = mset (ht_entries (ht0 d))"
    using mset_concat_update [OF i, of "[]"] by (simp add: n0_def ht_entries_def)
  have "length (ht_entries n0) + length ?b = length (ht_entries (ht0 d))"
    using mset_length_eq [of "ht_entries n0 @ ?b"] m0 by simp
  moreover have "fst ` set (ht_table n0 ! m) \<subseteq> fst ` set (ht_table (ht0 d) ! m)" for m
    using i by (cases "m = i") (auto simp: n0_def)
  moreover have "ht_used (ht0 d) = length (ht_entries (ht0 d))" using t0 by (simp add: ht_ok_def)
  ultimately have n0: "ht_ok hf n0"
    by (intro ht_ok_keys [OF t0]) (simp_all add: n0_def)
  have me: "mset (entries d') = mset (entries d)"
    using m0 n1(2) by (simp add: d'_def entries_def)
  have empty: "\<forall>m < Suc i. ht_table n0 ! m = []"
    using em gap i by (auto simp: n0_def less_Suc_eq) (metis not_le)
  have "int i + 1 \<le> int (ht_size n0)" using i t0 by (simp add: n0_def ht_ok_def ht_shape_def)
  then have "dict_ok hf d'"
    using n0 n1(1) empty dict_map_mset_eq [OF me [symmetric] dk]
    by (auto simp: dict_ok_def dictIsRehashing_def d'_def nat_add_distrib)
  then show ?thesis using mv n1(3) me
    by (intro exI [of _ d']) (simp add: rehash_one_def d'_def n0_def dictIsRehashing_def)
qed

lemma dictRehashLoop_step:
  "ht_used (ht0 d) \<noteq> 0 \<Longrightarrow> rehashidx d < int (ht_size (ht0 d)) \<Longrightarrow>
   next_used_bucket (ht_table (ht0 d)) (nat (rehashidx d)) = Some i \<Longrightarrow>
   dictRehashLoop hf (Suc n) d = Option.bind (rehash_one hf d i) (dictRehashLoop hf n)"
  by (cases "move_chain hf (ht_table (ht0 d) ! i) d") (simp_all add: rehash_one_def)

lemma rehash_finish_ok:
  assumes ok: "dict_ok hf d" and re: "dictIsRehashing d" and z: "ht_used (ht0 d) = 0"
  shows "dict_ok hf (d\<lparr>ht0 := ht1 d, ht1 := dictReset, rehashidx := - 1\<rparr>) \<and>
     mset (entries (d\<lparr>ht0 := ht1 d, ht1 := dictReset, rehashidx := - 1\<rparr>)) = mset (entries d)"
proof -
  have "ht_entries (ht0 d) = []" using assms by (auto simp: dict_ok_def ht_ok_def)
  then show ?thesis using ok re by (auto simp: dict_ok_def dictIsRehashing_def entries_def)
qed

lemma dictRehashLoop_ok:
  assumes "dict_ok hf d" "dictIsRehashing d"
  shows "\<exists>d' more. dictRehashLoop hf n d = Some (d', more) \<and> dict_ok hf d' \<and>
     mset (entries d') = mset (entries d) \<and> iterators d' = iterators d \<and> more = dictIsRehashing d' \<and>
     (more \<longrightarrow> rehashidx d + int n \<le> rehashidx d' \<and> ht_size (ht0 d') = ht_size (ht0 d) \<and> ht_size (ht1 d') = ht_size (ht1 d)) \<and>
     (\<not> more \<longrightarrow> ht_size (ht0 d') = ht_size (ht1 d)) \<and>
     (0 < n \<longrightarrow> rehashidx d = int (ht_size (ht0 d)) \<longrightarrow> \<not> more)"
  using assms
proof (induction n arbitrary: d)
  case 0
  then show ?case by auto
next
  case (Suc n)
  have t0: "ht_ok hf (ht0 d)" and nn: "0 \<le> rehashidx d" and le: "rehashidx d \<le> int (ht_size (ht0 d))"
    and em: "\<forall>i < nat (rehashidx d). ht_table (ht0 d) ! i = []"
    using Suc.prems by (auto simp: dict_ok_def)
  have sz: "length (ht_table (ht0 d)) = ht_size (ht0 d)" "ht_used (ht0 d) = length (ht_entries (ht0 d))"
    using t0 by (auto simp: ht_ok_def ht_shape_def)
  show ?case
  proof (cases "ht_used (ht0 d) = 0")
    case True
    then show ?thesis using rehash_finish_ok [OF Suc.prems True] by (simp add: dictIsRehashing_def)
  next
    case False
    then obtain j where j: "j < length (ht_table (ht0 d))" "ht_table (ht0 d) ! j \<noteq> []"
      using sz by (auto simp: ht_entries_def in_set_conv_nth)
    then have ij: "nat (rehashidx d) \<le> j" using em not_le by metis
    then have lt: "rehashidx d < int (ht_size (ht0 d))" using j sz by linarith
    obtain i where i: "next_used_bucket (ht_table (ht0 d)) (nat (rehashidx d)) = Some i"
      "nat (rehashidx d) \<le> i" "i < length (ht_table (ht0 d))"
      "\<forall>m. nat (rehashidx d) \<le> m \<and> m < i \<longrightarrow> ht_table (ht0 d) ! m = []"
      using next_used_bucket_spec [OF j ij] by blast
    have "rehashidx d \<le> int i" using i(2) by linarith
    then obtain d1 where d1: "rehash_one hf d i = Some d1" "dict_ok hf d1" "dictIsRehashing d1"
      "mset (entries d1) = mset (entries d)" "iterators d1 = iterators d" "rehashidx d1 = int i + 1"
      "ht_size (ht0 d1) = ht_size (ht0 d)" "ht_size (ht1 d1) = ht_size (ht1 d)"
      using rehash_one_ok [OF Suc.prems i(3) _ i(4)] by blast
    obtain d' more where d': "dictRehashLoop hf n d1 = Some (d', more)" "dict_ok hf d'"
      "mset (entries d') = mset (entries d1)" "iterators d' = iterators d1" "more = dictIsRehashing d'"
      "more \<Longrightarrow> rehashidx d1 + int n \<le> rehashidx d' \<and> ht_size (ht0 d') = ht_size (ht0 d1) \<and> ht_size (ht1 d') = ht_size (ht1 d1)"
      "\<not> more \<Longrightarrow> ht_size (ht0 d') = ht_size (ht1 d1)"
      using Suc.IH [OF d1(2,3)] by blast
    have "dictRehashLoop hf (Suc n) d = Some (d', more)"
      using dictRehashLoop_step [OF False lt i(1), of hf n] d1(1) d'(1) by simp
    then show ?thesis using d1 d' i(2) lt by (intro exI [of _ d'] exI [of _ more]) auto
  qed
qed

lemma map_of_mset:
  assumes "mset xs = mset ys" "distinct (map fst xs)"
  shows "map_of ys = map_of xs \<and> distinct (map fst ys)"
proof -
  have "distinct (map fst ys)" using assms by (metis mset_map mset_eq_imp_distinct_iff)
  moreover have "set xs = set ys" using assms(1) by (metis set_mset_mset)
  ultimately show ?thesis using assms(2) by (metis map_of_inject_set)
qed

lemma map_of_mset_add:
  assumes "mset ys = add_mset (k, v) (mset xs)" "distinct (map fst xs)" "k \<notin> fst ` set xs"
  shows "map_of ys = (map_of xs)(k \<mapsto> v) \<and> distinct (map fst ys)"
  using map_of_mset [of "(k, v) # xs" ys] assms by simp

lemma map_of_mset_del:
  assumes "add_mset (k, v) (mset ys) = mset xs" "distinct (map fst xs)"
  shows "map_of ys = (map_of xs)(k := None) \<and> map_of xs k = Some v \<and> distinct (map fst ys)"
proof -
  have "map_of ((k, v) # ys) = map_of xs" "distinct (map fst ((k, v) # ys))"
    using map_of_mset [of xs "(k, v) # ys"] assms by auto
  then have e: "(map_of ys)(k \<mapsto> v) = map_of xs" and k: "map_of ys k = None" and d: "distinct (map fst ys)"
    by (simp_all add: map_of_eq_None_iff)
  show ?thesis using k d by (simp flip: e) (simp add: fun_upd_idem)
qed

lemma dictSize_entries: "dict_ok hf d \<Longrightarrow> dictSize d = length (entries d)"
  by (auto simp: dict_ok_def dictSize_def ht_ok_def entries_def split: if_splits)

lemma dict_ok_ht0: "dict_ok hf d \<Longrightarrow> ht_size (ht0 d) \<noteq> 0 \<Longrightarrow> ht_ok hf (ht0 d)"
  by (auto simp: dict_ok_def split: if_splits)

lemma dict_ok_empty: "dict_ok hf d \<Longrightarrow> ht_size (ht0 d) = 0 \<Longrightarrow> ht0 d = dictReset \<and> ht1 d = dictReset \<and> rehashidx d = - 1"
  using ht_shape_nonempty [of "ht0 d"] by (auto simp: dict_ok_def ht_ok_def dictIsRehashing_def split: if_splits)

lemma dict_nonempty:
  assumes "dict_ok hf d" "dictSize d \<noteq> 0"
  shows "ht_size (ht0 d) \<noteq> 0"
proof
  assume "ht_size (ht0 d) = 0"
  then show False using assms(2) dict_ok_empty [OF assms(1)] by (simp add: dictSize_def)
qed

text \<open>Rewriting one chain of a table in use.\<close>

lemma put_bucket:
  assumes ok: "dict_ok hf d" and t: "in_use d t" and i: "i < length (ht_table (get_ht d t))"
    and b: "b = ht_table (get_ht d t) ! i" and sub: "fst ` set b' \<subseteq> fst ` set b"
    and u: "u + length b = ht_used (get_ht d t) + length b'"
    and d': "d' = put_ht d t ((get_ht d t)\<lparr>ht_table := (ht_table (get_ht d t))[i := b'], ht_used := u\<rparr>)"
  shows "mset (entries d') + mset b = mset (entries d) + mset b' \<and>
    (distinct (map fst (entries d')) \<longrightarrow> dict_ok hf d')"
proof
  let ?t = "get_ht d t"
  let ?n = "?t\<lparr>ht_table := (ht_table ?t)[i := b'], ht_used := u\<rparr>"
  have ht: "ht_ok hf ?t"
    using ok t i by (auto simp: dict_ok_def in_use_def get_ht_def split: if_splits)
  have m: "mset (ht_entries ?n) + mset b = mset (ht_entries ?t) + mset b'"
    using mset_concat_update [OF i] by (simp add: ht_entries_def b)
  then show "mset (entries d') + mset b = mset (entries d) + mset b'"
    using t by (auto simp: d' entries_def put_ht_def get_ht_def in_use_def ac_simps)
  have "length (ht_entries ?n) + length b = length (ht_entries ?t) + length b'"
    using arg_cong [OF m, of size] by simp
  moreover have "ht_used ?t = length (ht_entries ?t)" using ht by (simp add: ht_ok_def)
  moreover have "fst ` set (ht_table ?n ! m) \<subseteq> fst ` set (ht_table ?t ! m)" for m
    using i sub by (cases "m = i") (auto simp: b)
  ultimately have n: "ht_ok hf ?n"
    using u by (intro ht_ok_keys [OF ht]) simp_all
  have "b = [] \<Longrightarrow> b' = []" using sub by auto
  then have "\<And>j. ht_table ?t ! j = [] \<Longrightarrow> ht_table ?n ! j = []"
    using i by (metis b dictht.select_convs(1) dictht.update_convs(1) dictht.surjective dictht.update_convs(4) nth_list_update)
  then show "distinct (map fst (entries d')) \<longrightarrow> dict_ok hf d'"
    using ok t n i
    by (auto simp: dict_ok_def d' put_ht_def get_ht_def in_use_def dictIsRehashing_def split: if_splits)
qed

lemma dictSetVal_spec:
  assumes ok: "dict_ok hf d" and l: "loc_ok d l k"
  shows "\<exists>d'. dictSetVal d l v = Some d' \<and> dict_ok hf d' \<and> dict_map d' = (dict_map d)(k \<mapsto> v) \<and>
     dictSize d' = dictSize d"
proof -
  obtain t i p where l3: "l = (t, i, p)" by (cases l)
  let ?t = "get_ht d t"
  let ?b = "ht_table ?t ! i"
  let ?b' = "?b[p := (k, v)]"
  have L: "in_use d t" "i < length (ht_table ?t)" "p < length ?b" "fst (?b ! p) = k"
    using l by (auto simp: loc_ok_def l3)
  define d' where "d' = put_ht d t (?t\<lparr>ht_table := (ht_table ?t)[i := ?b'], ht_used := ht_used ?t\<rparr>)"
  have keys: "map fst ?b' = map fst ?b"
    using L by (simp add: map_update) (metis list_update_id nth_map)
  then have sub: "fst ` set ?b' \<subseteq> fst ` set ?b" by (metis list.set_map order_refl)
  have run: "dictSetVal d l v = Some d'"
    using L by (simp add: dictSetVal_def l3 bucket_def d'_def)
  note pb = put_bucket [OF ok L(1,2) refl sub _ d'_def]
  obtain R where bp: "mset ?b = add_mset (?b ! p) R" and bp': "mset ?b' = add_mset (k, v) R"
    using mset_update [OF L(3), of "(k, v)"] L(3) by (metis insert_DiffM nth_mem_mset)
  have "mset (entries d') + mset ?b = mset (entries d) + mset ?b'" using pb by simp
  then have e: "add_mset (?b ! p) (mset (entries d')) = add_mset (k, v) (mset (entries d))"
    unfolding bp bp' by simp
  have "?b ! p \<in># mset (entries d)"
    using L(1) subsetD [OF bucket_subset [OF L(2)] nth_mem [OF L(3)]]
    by (auto simp: entries_def in_use_def get_ht_def)
  then obtain zs where zs: "mset (entries d) = add_mset (?b ! p) (mset zs)"
    by (metis ex_mset mset_add)
  then have e': "mset (entries d') = add_mset (k, v) (mset zs)" using e by simp
  have dk: "distinct (map fst (entries d))" using ok by (simp add: dict_ok_def)
  obtain w where w: "?b ! p = (k, w)" using L(4) by (metis prod.collapse)
  have z: "map_of zs = (dict_map d)(k := None)" "distinct (map fst zs)"
    using map_of_mset_del [of k w zs "entries d"] zs dk w by (auto simp: dict_map_def)
  then have "k \<notin> fst ` set zs" by (metis fun_upd_same map_of_eq_None_iff)
  then have "dict_map d' = (dict_map d)(k \<mapsto> v) \<and> distinct (map fst (entries d'))"
    using map_of_mset_add [OF e' z(2)] z(1) by (simp add: dict_map_def)
  moreover have "length (entries d') = length (entries d)"
    using zs e' by (metis size_add_mset size_mset)
  ultimately show ?thesis using run pb dictSize_entries [OF ok] dictSize_entries [of hf d'] by auto
qed

lemma unlink_spec:
  assumes ok: "dict_ok hf d" and l: "loc_ok d l k"
  shows "\<exists>d'. unlink d l = Some d' \<and> dict_ok hf d' \<and> dict_map d' = (dict_map d)(k := None) \<and>
     dictSize d' = dictSize d - 1 \<and> 0 < dictSize d"
proof -
  obtain t i p where l3: "l = (t, i, p)" by (cases l)
  let ?t = "get_ht d t"
  let ?b = "ht_table ?t ! i"
  let ?b' = "take p ?b @ drop (Suc p) ?b"
  have L: "in_use d t" "i < length (ht_table ?t)" "p < length ?b" "fst (?b ! p) = k"
    using l by (auto simp: loc_ok_def l3)
  define d' where "d' = put_ht d t (?t\<lparr>ht_table := (ht_table ?t)[i := ?b'], ht_used := ht_used ?t - 1\<rparr>)"
  have run: "unlink d l = Some d'"
    using L by (simp add: unlink_def l3 bucket_def d'_def)
  have bs: "?b = take p ?b @ ?b ! p # drop (Suc p) ?b" using L(3) by (rule id_take_nth_drop)
  have sub: "fst ` set ?b' \<subseteq> fst ` set ?b" using set_take_subset set_drop_subset by fastforce
  have ht: "ht_ok hf ?t"
    using ok L by (auto simp: dict_ok_def in_use_def get_ht_def split: if_splits)
  have "?b ! p \<in> set (ht_entries ?t)" using L bucket_subset nth_mem by blast
  then have pos: "0 < ht_used ?t" using ht by (cases "ht_entries ?t") (auto simp: ht_ok_def)
  have u: "ht_used ?t - 1 + length ?b = ht_used ?t + length ?b'" using L(3) pos by simp
  note pb = put_bucket [OF ok L(1,2) refl sub u d'_def]
  have bm: "mset ?b = add_mset (?b ! p) (mset ?b')" using arg_cong [OF bs, of mset] by simp
  have "mset (entries d') + mset ?b = mset (entries d) + mset ?b'" using pb by simp
  then have e: "add_mset (?b ! p) (mset (entries d')) = mset (entries d)"
    unfolding bm by simp
  have dk: "distinct (map fst (entries d))" using ok by (simp add: dict_ok_def)
  obtain w where w: "?b ! p = (k, w)" using L(4) by (metis prod.collapse)
  have "dict_map d' = (dict_map d)(k := None) \<and> distinct (map fst (entries d'))"
    using map_of_mset_del [OF _ dk] e w by (metis dict_map_def)
  moreover have "Suc (length (entries d')) = length (entries d)"
    using e by (metis size_add_mset size_mset)
  ultimately show ?thesis using run pb dictSize_entries [OF ok] dictSize_entries [of hf d'] by fastforce
qed

section \<open>Resizing\<close>

lemma dictNextPowerLoop_pow:
  "i = 2 ^ a \<Longrightarrow> \<exists>e. dictNextPowerLoop sz i = 2 ^ e \<and> sz \<le> 2 ^ e \<and> i \<le> 2 ^ e \<and> (2 ^ e = i \<or> 2 ^ e < 2 * sz)"
proof (induction sz i arbitrary: a rule: dictNextPowerLoop.induct)
  case (1 sz i)
  show ?case
  proof (cases "sz \<le> i")
    case True
    then show ?thesis using 1(2) by (subst dictNextPowerLoop.simps) auto
  next
    case False
    then obtain e where "dictNextPowerLoop sz (i * 2) = 2 ^ e" "sz \<le> 2 ^ e" "i * 2 \<le> 2 ^ e" "2 ^ e = i * 2 \<or> 2 ^ e < 2 * sz"
      using 1(1) [of "Suc a"] 1(2) by auto
    moreover have "i \<le> 2 ^ e" using calculation(3) by linarith
    ultimately show ?thesis using False 1(2) by (subst dictNextPowerLoop.simps) (auto intro!: exI [of _ e])
  qed
qed

lemma dictNextPower_pow:
  assumes "sz < LONG_MAX"
  shows "\<exists>e. dictNextPower sz = 2 ^ e \<and> sz \<le> 2 ^ e \<and> 4 \<le> (2::nat) ^ e \<and> (2 ^ e = (4::nat) \<or> 2 ^ e < 2 * sz)"
  using dictNextPowerLoop_pow [of 4 2 sz] assms by (simp add: dictNextPower_def)

lemma fresh_ok: "n = 2 ^ e \<Longrightarrow> ht_ok hf \<lparr>ht_table = replicate n [], ht_size = n, ht_sizemask = n - 1, ht_used = 0\<rparr>"
  by (auto simp: ht_ok_def ht_shape_def ht_placed_def ht_entries_def)

lemma concat_replicate_Nil [simp]: "concat (replicate n []) = []"
  by (induction n) auto

lemma dictExpand_ok:
  fixes d :: "('k, 'v) dict"
  assumes ok: "dict_ok hf d" and sz: "sz < LONG_MAX"
  shows "dict_ok hf (fst (dictExpand d sz)) \<and> entries (fst (dictExpand d sz)) = entries d \<and>
     (snd (dictExpand d sz) \<longleftrightarrow> \<not> dictIsRehashing d \<and> ht_used (ht0 d) \<le> sz) \<and>
     (snd (dictExpand d sz) \<longrightarrow> ht_ok hf (ht0 (fst (dictExpand d sz)))) \<and>
     iterators (fst (dictExpand d sz)) = iterators d"
proof (cases "dictIsRehashing d \<or> ht_used (ht0 d) > sz")
  case True
  then show ?thesis using ok by (auto simp: dictExpand_def)
next
  case False
  let ?n = "\<lparr>ht_table = replicate (dictNextPower sz) [], ht_size = dictNextPower sz,
      ht_sizemask = dictNextPower sz - 1, ht_used = 0\<rparr> :: ('k, 'v) dictht"
  obtain e where "dictNextPower sz = 2 ^ e" using dictNextPower_pow [OF sz] by blast
  then have n: "ht_ok hf ?n" "ht_entries ?n = []" by (rule fresh_ok, simp add: ht_entries_def)
  have not_re: "rehashidx d = - 1" using False by (simp add: dictIsRehashing_def)
  have h1: "ht1 d = dictReset" and h0: "ht0 d = dictReset \<or> ht_ok hf (ht0 d)"
    and dk: "distinct (map fst (entries d))"
    using ok False by (auto simp: dict_ok_def)
  show ?thesis
  proof (cases "ht_table (ht0 d) = []")
    case True
    then have "ht0 d = dictReset" using h0 ht_shape_nonempty [of "ht0 d"] by (auto simp: ht_ok_def)
    then show ?thesis using False True n h1 not_re
      by (simp add: dictExpand_def Let_def dict_ok_def entries_def dictIsRehashing_def)
  next
    case ne: False
    then have "ht_ok hf (ht0 d)" using h0 by auto
    then show ?thesis using False ne n h1 dk not_re
      by (simp add: dictExpand_def Let_def dict_ok_def entries_def dictIsRehashing_def)
  qed
qed

lemma dictExpandIfNeeded_ok:
  assumes ok: "dict_ok hf d" and room: "2 * dictSize d < LONG_MAX"
  shows "\<exists>d'. dictExpandIfNeeded cr d = (d', True) \<and> dict_ok hf d' \<and> entries d' = entries d \<and>
     ht_ok hf (ht0 d') \<and> iterators d' = iterators d"
proof -
  have e: "\<exists>d'. dictExpand d sz = (d', True) \<and> dict_ok hf d' \<and> entries d' = entries d \<and>
      ht_ok hf (ht0 d') \<and> iterators d' = iterators d"
    if "\<not> dictIsRehashing d" "ht_used (ht0 d) \<le> sz" "sz < LONG_MAX" for sz
    using dictExpand_ok [OF ok that(3)] that by (cases "dictExpand d sz") auto
  have used: "ht_used (ht0 d) \<le> dictSize d" by (simp add: dictSize_def)
  show ?thesis
  proof (cases "dictIsRehashing d")
    case True
    then show ?thesis using ok by (simp add: dictExpandIfNeeded_def dict_ok_def)
  next
    case nr: False
    show ?thesis
    proof (cases "ht_size (ht0 d) = 0")
      case True
      then have "ht_used (ht0 d) = 0" using dict_ok_empty [OF ok] by simp
      then show ?thesis using e [of 4] nr True by (simp add: dictExpandIfNeeded_def)
    next
      case False
      then show ?thesis using e [of "ht_used (ht0 d) * 2"] nr used room dict_ok_ht0 [OF ok False] ok
        by (simp add: dictExpandIfNeeded_def)
    qed
  qed
qed

section \<open>Operations as operations on maps\<close>

lemma rehash_if_needed_ok:
  assumes ok: "dict_ok hf d"
  shows "\<exists>d'. rehash_if_needed hf d = Some d' \<and> dict_ok hf d' \<and> dict_map d' = dict_map d \<and>
     dictSize d' = dictSize d \<and> (ht_size (ht0 d) \<noteq> 0 \<longrightarrow> ht_size (ht0 d') \<noteq> 0)"
proof (cases "dictIsRehashing d \<and> iterators d = 0")
  case True
  obtain d' more where d': "dictRehashLoop hf 1 d = Some (d', more)" "dict_ok hf d'"
     "mset (entries d') = mset (entries d)"
     "more \<Longrightarrow> ht_size (ht0 d') = ht_size (ht0 d)" "\<not> more \<Longrightarrow> ht_size (ht0 d') = ht_size (ht1 d)"
    using dictRehashLoop_ok [OF ok, of 1] True by blast
  have "dict_map d' = dict_map d"
    using dict_map_mset_eq [OF d'(3) [symmetric]] ok by (simp add: dict_ok_def)
  moreover have "dictSize d' = dictSize d"
    using dictSize_entries ok d'(2,3) by (metis size_mset)
  moreover have "ht_size (ht1 d) \<noteq> 0" using ok True ht_shape_nonempty by (auto simp: dict_ok_def ht_ok_def)
  ultimately show ?thesis using d' True
    by (cases more) (auto simp: rehash_if_needed_def dictRehashStep_def dictRehash_def)
next
  case False
  then show ?thesis using ok by (auto simp: rehash_if_needed_def dictRehashStep_def)
qed

lemma dictAddRaw_spec:
  assumes ok: "dict_ok hf d" and room: "2 * dictSize d < LONG_MAX"
  shows "\<exists>d' e. dictAddRaw cr hf d k v0 = Some (d', e) \<and> dict_ok hf d' \<and>
     (if dict_map d k = None
      then \<exists>l. e = Some l \<and> loc_ok d' l k \<and> dict_map d' = (dict_map d)(k \<mapsto> v0) \<and> dictSize d' = Suc (dictSize d)
      else e = None \<and> dict_map d' = dict_map d \<and> dictSize d' = dictSize d)"
proof -
  obtain d1 where d1: "rehash_if_needed hf d = Some d1" "dict_ok hf d1" "dict_map d1 = dict_map d"
     "dictSize d1 = dictSize d"
    using rehash_if_needed_ok [OF ok] by blast
  obtain d2 where d2: "dictExpandIfNeeded cr d1 = (d2, True)" "dict_ok hf d2" "entries d2 = entries d1"
     "ht_ok hf (ht0 d2)"
    using dictExpandIfNeeded_ok [OF d1(2)] room d1(4) by auto
  have m2: "dict_map d2 = dict_map d" "dictSize d2 = dictSize d"
    using d2(2,3) d1 by (simp_all add: dict_map_def dictSize_entries)
  obtain r where r: "search_tables hf d2 k = Some r"
    "case r of Inl l \<Rightarrow> loc_ok d2 l k \<and> dict_map d2 k \<noteq> None
     | Inr i \<Rightarrow> dict_map d2 k = None \<and> i = bucket_index hf (if dictIsRehashing d2 then ht1 d2 else ht0 d2) k"
    using search_tables_spec [OF d2(2,4)] by blast
  show ?thesis
  proof (cases r)
    case (Inl l)
    then show ?thesis using r d1(1) d2(1,2) m2 by (simp add: dictAddRaw_def dictKeyIndex_def)
  next
    case (Inr i)
    let ?w = "if dictIsRehashing d2 then 1 else 0 :: nat"
    let ?t = "get_ht d2 ?w"
    have i: "i = bucket_index hf ?t k" and new: "dict_map d2 k = None"
      using r(2) Inr by (simp_all add: get_ht_def)
    have tok: "ht_ok hf ?t" using d2 by (auto simp: get_ht_def dict_ok_def)
    obtain t' where t': "link_head ?t i (k, v0) = Some t'" "ht_ok hf t'"
      "mset (ht_entries t') = add_mset (k, v0) (mset (ht_entries ?t))"
      "ht_size t' = ht_size ?t" "ht_table t' ! i = (k, v0) # ht_table ?t ! i"
      using link_head_ok [OF tok, of k v0] i by blast
    define d' where "d' = put_ht d2 ?w t'"
    have run: "dictAddRaw cr hf d k v0 = Some (d', Some (?w, i, 0))"
      using r(1) d1(1) d2(1) Inr t'(1)
      by (auto simp: dictAddRaw_def dictKeyIndex_def d'_def put_ht_def get_ht_def)
    have m: "mset (entries d') = add_mset (k, v0) (mset (entries d2))"
      using t'(3) by (auto simp: d'_def entries_def put_ht_def get_ht_def)
    have dm: "dict_map d' = (dict_map d2)(k \<mapsto> v0) \<and> distinct (map fst (entries d'))"
      unfolding dict_map_def using d2(2) new
      by (intro map_of_mset_add [OF m]) (auto simp: dict_ok_def dict_map_None)
    have d'ok: "dict_ok hf d'"
      using d2(2) t'(2,4) dm by (auto simp: dict_ok_def d'_def put_ht_def get_ht_def dictIsRehashing_def split: if_splits)
    have "dictSize d' = Suc (dictSize d2)"
      using d'ok d2(2) m by (metis dictSize_entries size_add_mset size_mset)
    moreover have "i < length (ht_table t')"
      using i t'(2,4) tok bucket_index_less [of ?t] by (auto simp: ht_ok_def ht_shape_def)
    then have "loc_ok d' (?w, i, 0) k"
      using t'(5) by (auto simp: loc_ok_def in_use_def get_ht_def d'_def put_ht_def dictIsRehashing_def)
    ultimately show ?thesis using run d'ok dm new m2 by auto
  qed
qed

lemma dictAdd_spec:
  assumes ok: "dict_ok hf d" and room: "2 * dictSize d < LONG_MAX"
  shows "\<exists>d'. dictAdd cr hf v0 d k v = Some (d', dict_map d k = None) \<and> dict_ok hf d' \<and>
     dict_map d' = (if dict_map d k = None then (dict_map d)(k \<mapsto> v) else dict_map d) \<and>
     dictSize d' = (if dict_map d k = None then Suc (dictSize d) else dictSize d)"
proof -
  obtain d1 e where d1: "dictAddRaw cr hf d k v0 = Some (d1, e)" "dict_ok hf d1"
    "if dict_map d k = None
      then \<exists>l. e = Some l \<and> loc_ok d1 l k \<and> dict_map d1 = (dict_map d)(k \<mapsto> v0) \<and> dictSize d1 = Suc (dictSize d)
      else e = None \<and> dict_map d1 = dict_map d \<and> dictSize d1 = dictSize d"
    using dictAddRaw_spec [OF ok room] by blast
  show ?thesis
  proof (cases "dict_map d k = None")
    case True
    then obtain l where l: "e = Some l" "loc_ok d1 l k" "dict_map d1 = (dict_map d)(k \<mapsto> v0)" "dictSize d1 = Suc (dictSize d)"
      using d1(3) by auto
    show ?thesis using dictSetVal_spec [OF d1(2) l(2), of v] d1(1) l True by (auto simp: dictAdd_def)
  next
    case False
    then have "e = None" "dict_map d1 = dict_map d" "dictSize d1 = dictSize d" using d1(3) by auto
    then show ?thesis using d1(1,2) False by (auto simp: dictAdd_def)
  qed
qed

lemma dictFind_spec:
  assumes ok: "dict_ok hf d"
  shows "\<exists>d' e. dictFind hf d k = Some (d', e) \<and> dict_ok hf d' \<and> dict_map d' = dict_map d \<and>
     dictSize d' = dictSize d \<and> (case e of None \<Rightarrow> dict_map d k = None | Some l \<Rightarrow> loc_ok d' l k \<and> dict_map d k \<noteq> None)"
proof (cases "ht_size (ht0 d) = 0")
  case True
  then have "entries d = []" using dict_ok_empty [OF ok] by (simp add: entries_def)
  then show ?thesis using ok True by (simp add: dictFind_def dict_map_def)
next
  case False
  obtain d1 where d1: "rehash_if_needed hf d = Some d1" "dict_ok hf d1" "dict_map d1 = dict_map d"
     "dictSize d1 = dictSize d" "ht_size (ht0 d1) \<noteq> 0"
    using rehash_if_needed_ok [OF ok] False by blast
  obtain r where r: "search_tables hf d1 k = Some r"
    "case r of Inl l \<Rightarrow> loc_ok d1 l k \<and> dict_map d1 k \<noteq> None
     | Inr i \<Rightarrow> dict_map d1 k = None \<and> i = bucket_index hf (if dictIsRehashing d1 then ht1 d1 else ht0 d1) k"
    using search_tables_spec [OF d1(2) dict_ok_ht0 [OF d1(2,5)]] by blast
  then show ?thesis using d1 False by (cases r) (auto simp: dictFind_def)
qed

lemma get_entry_spec:
  assumes ok: "dict_ok hf d" and l: "loc_ok d l k"
  shows "\<exists>v. get_entry d l = Some (k, v) \<and> dict_map d k = Some v"
proof -
  obtain t i p where l3: "l = (t, i, p)" by (cases l)
  have L: "in_use d t" "i < length (ht_table (get_ht d t))" "p < length (ht_table (get_ht d t) ! i)"
    "fst (ht_table (get_ht d t) ! i ! p) = k"
    using l by (auto simp: loc_ok_def l3)
  obtain v where v: "ht_table (get_ht d t) ! i ! p = (k, v)" using L(4) by (metis prod.collapse)
  have "(k, v) \<in> set (entries d)"
    using L(1) subsetD [OF bucket_subset [OF L(2)] nth_mem [OF L(3)]] v
    by (auto simp: entries_def in_use_def get_ht_def)
  then show ?thesis using v L ok dict_map_entry [of d k v]
    by (auto simp: get_entry_def l3 bucket_def dict_ok_def)
qed

lemma dictFetchValue_spec:
  assumes ok: "dict_ok hf d"
  shows "\<exists>d'. dictFetchValue hf d k = Some (d', dict_map d k) \<and> dict_ok hf d' \<and> dict_map d' = dict_map d \<and>
     dictSize d' = dictSize d"
proof -
  obtain d' e where d': "dictFind hf d k = Some (d', e)" "dict_ok hf d'" "dict_map d' = dict_map d"
     "dictSize d' = dictSize d" "case e of None \<Rightarrow> dict_map d k = None | Some l \<Rightarrow> loc_ok d' l k \<and> dict_map d k \<noteq> None"
    using dictFind_spec [OF ok] by blast
  then show ?thesis using get_entry_spec [OF d'(2), of "the e" k]
    by (cases e) (auto simp: dictFetchValue_def)
qed

lemma dictReplace_spec:
  assumes ok: "dict_ok hf d" and room: "2 * dictSize d < LONG_MAX"
  shows "\<exists>d'. dictReplace cr hf v0 d k v = Some (d', dict_map d k = None) \<and> dict_ok hf d' \<and>
     dict_map d' = (dict_map d)(k \<mapsto> v) \<and> dictSize d' \<le> Suc (dictSize d)"
proof -
  obtain d1 where d1: "dictAdd cr hf v0 d k v = Some (d1, dict_map d k = None)" "dict_ok hf d1"
     "dict_map d1 = (if dict_map d k = None then (dict_map d)(k \<mapsto> v) else dict_map d)"
     "dictSize d1 = (if dict_map d k = None then Suc (dictSize d) else dictSize d)"
    using dictAdd_spec [OF ok room] by blast
  show ?thesis
  proof (cases "dict_map d k = None")
    case True
    then show ?thesis using d1 by (simp add: dictReplace_def)
  next
    case False
    obtain d2 e where d2: "dictFind hf d1 k = Some (d2, e)" "dict_ok hf d2" "dict_map d2 = dict_map d1"
     "dictSize d2 = dictSize d1" "case e of None \<Rightarrow> dict_map d1 k = None | Some l \<Rightarrow> loc_ok d2 l k \<and> dict_map d1 k \<noteq> None"
      using dictFind_spec [OF d1(2)] by blast
    then obtain l where l: "e = Some l" "loc_ok d2 l k" using d1(3) False by (cases e) auto
    obtain d3 where "dictSetVal d2 l v = Some d3" "dict_ok hf d3" "dict_map d3 = (dict_map d2)(k \<mapsto> v)"
      "dictSize d3 = dictSize d2"
      using dictSetVal_spec [OF d2(2) l(2)] by blast
    then show ?thesis using d1 d2 l False by (simp add: dictReplace_def)
  qed
qed

lemma dictGenericDelete_spec:
  assumes ok: "dict_ok hf d"
  shows "\<exists>d'. dictGenericDelete hf d k = Some (d', dict_map d k \<noteq> None) \<and> dict_ok hf d' \<and>
     dict_map d' = (dict_map d)(k := None) \<and>
     dictSize d' = (if dict_map d k = None then dictSize d else dictSize d - 1)"
proof (cases "ht_size (ht0 d) = 0")
  case True
  then have "entries d = []" using dict_ok_empty [OF ok] by (simp add: entries_def)
  then show ?thesis using ok True by (simp add: dictGenericDelete_def dict_map_def fun_upd_idem)
next
  case False
  obtain d1 where d1: "rehash_if_needed hf d = Some d1" "dict_ok hf d1" "dict_map d1 = dict_map d"
     "dictSize d1 = dictSize d" "ht_size (ht0 d1) \<noteq> 0"
    using rehash_if_needed_ok [OF ok] False by blast
  obtain r where r: "search_tables hf d1 k = Some r"
    "case r of Inl l \<Rightarrow> loc_ok d1 l k \<and> dict_map d1 k \<noteq> None
     | Inr i \<Rightarrow> dict_map d1 k = None \<and> i = bucket_index hf (if dictIsRehashing d1 then ht1 d1 else ht0 d1) k"
    using search_tables_spec [OF d1(2) dict_ok_ht0 [OF d1(2,5)]] by blast
  show ?thesis
  proof (cases r)
    case (Inl l)
    then show ?thesis using r d1 unlink_spec [OF d1(2), of l k] False by (auto simp: dictGenericDelete_def)
  next
    case (Inr i)
    then show ?thesis using r d1 False by (simp add: dictGenericDelete_def fun_upd_idem)
  qed
qed

lemma dictCreate_ok: "dict_ok hf dictCreate" "dict_map dictCreate = Map.empty" "dictSize dictCreate = 0"
  by (simp_all add: dict_ok_def dictCreate_def entries_def dictIsRehashing_def dict_map_def dictSize_def)

text \<open>\<open>n\<close> more insertions keep twice the number of entries below \<open>LONG_MAX\<close>.\<close>

definition dict_room :: "('k, 'v) dict \<Rightarrow> nat \<Rightarrow> bool" where
  "dict_room d n \<longleftrightarrow> 2 * (dictSize d + n) \<le> LONG_MAX"

interpretation dmap: map_impl "dict_ok hf" dict_map dict_room
  "dictAdd cr hf v0" "dictReplace cr hf v0" "dictGenericDelete hf" "dictFetchValue hf"
  for hf :: "'k hash" and cr and v0 :: 'v
proof
  fix d :: "('k, 'v) dict" and n k and v :: 'v
  assume ok: "dict_ok hf d" and room: "dict_room d (Suc n)"
  have r: "2 * dictSize d < LONG_MAX" using room by (simp add: dict_room_def)
  show "\<exists>d'. dictAdd cr hf v0 d k v = Some (d', dict_map d k = None) \<and> dict_ok hf d' \<and> dict_room d' n \<and>
      dict_map d' = (if dict_map d k = None then (dict_map d)(k \<mapsto> v) else dict_map d)"
    using dictAdd_spec [OF ok r, of cr v0 k v] room by (auto simp: dict_room_def)
  show "\<exists>d'. dictReplace cr hf v0 d k v = Some (d', dict_map d k = None) \<and> dict_ok hf d' \<and> dict_room d' n \<and>
      dict_map d' = (dict_map d)(k \<mapsto> v)"
    using dictReplace_spec [OF ok r, of cr v0 k v] room by (auto simp: dict_room_def)
  show "\<exists>d'. dictGenericDelete hf d k = Some (d', dict_map d k \<noteq> None) \<and> dict_ok hf d' \<and> dict_room d' n \<and>
      dict_map d' = (dict_map d)(k := None)"
    using dictGenericDelete_spec [OF ok, of k] room by (auto simp: dict_room_def)
  show "\<exists>d'. dictFetchValue hf d k = Some (d', dict_map d k) \<and> dict_ok hf d' \<and> dict_room d' n \<and>
      dict_map d' = dict_map d"
    using dictFetchValue_spec [OF ok, of k] room by (auto simp: dict_room_def)
qed

text \<open>C2. From a new dictionary, every sequence of at most \<open>2 ^ 30 - 1\<close> \<open>dictAdd\<close>,
  \<open>dictReplace\<close>, \<open>dictDelete\<close> and \<open>dictFetchValue\<close> calls, with any hash function, whatever
  resizes and incremental rehash steps they trigger, never fails an assertion or leaves a
  table, answers each call as the finite map does, and ends in a dictionary that denotes the
  final map and satisfies the structural invariant.\<close>

theorem dict_run_correct:
  assumes "length xs \<le> 1073741823"
  shows "\<exists>d. map_run (map_step (dictAdd cr hf v0) (dictReplace cr hf v0) (dictGenericDelete hf) (dictFetchValue hf))
      dictCreate xs = Some (d, snd (spec_map_run Map.empty xs)) \<and>
    dict_ok hf d \<and> dict_map d = fst (spec_map_run Map.empty xs)"
  using dmap.map_run_correct [OF dictCreate_ok(1), where xs = xs and cr = cr and ?v0.0 = v0] assms
  by (simp add: dict_room_def dictCreate_ok)

theorem dict_run_correct_witness:
  "\<exists>d. map_run (map_step (dictAdd True (\<lambda>k::nat. of_nat k) 0) (dictReplace True (\<lambda>k. of_nat k) 0)
       (dictGenericDelete (\<lambda>k. of_nat k)) (dictFetchValue (\<lambda>k. of_nat k)))
      dictCreate [MapAdd 1 (10::int), MapReplace 5 20, MapAdd 1 30, MapFetch 1, MapDelete 5, MapFetch 5]
     = Some (d, [Done True, Done True, Done False, Fetched (Some 10), Done True, Fetched None])"
  using dict_run_correct [of "[MapAdd 1 (10::int), MapReplace 5 20, MapAdd 1 30, MapFetch 1, MapDelete 5, MapFetch 5]"
      True "\<lambda>k::nat. of_nat k" 0]
  by auto

text \<open>A call with enough steps finishes a rehash: one step at most per bucket and one to swap.\<close>

text \<open>C31. \<open>dictRehash\<close> on a well-formed dictionary always returns: it keeps the map, the
  number of entries and the invariant; it answers 0 exactly when no rehash is left in
  progress; each of its \<open>n\<close> steps advances the index, and with more steps than buckets left
  in the old table the rehash is complete and the new table is the only one.\<close>

theorem dictRehash_correct:
  assumes ok: "dict_ok hf d"
  shows "\<exists>d' more. dictRehash hf n d = Some (d', more) \<and> dict_ok hf d' \<and> dict_map d' = dict_map d \<and>
     dictSize d' = dictSize d \<and> more = dictIsRehashing d' \<and>
     (more \<longrightarrow> rehashidx d + int n \<le> rehashidx d') \<and>
     (dictIsRehashing d \<longrightarrow> int (ht_size (ht0 d)) - rehashidx d < int n \<longrightarrow>
        \<not> more \<and> ht_size (ht0 d') = ht_size (ht1 d))"
proof (cases "dictIsRehashing d")
  case True
  obtain d' more where d': "dictRehashLoop hf n d = Some (d', more)" "dict_ok hf d'"
     "mset (entries d') = mset (entries d)" "more = dictIsRehashing d'"
     "more \<Longrightarrow> rehashidx d + int n \<le> rehashidx d' \<and> ht_size (ht0 d') = ht_size (ht0 d)"
     "\<not> more \<Longrightarrow> ht_size (ht0 d') = ht_size (ht1 d)"
    using dictRehashLoop_ok [OF ok True, of n] by blast
  have "dict_map d' = dict_map d"
    using dict_map_mset_eq [OF d'(3) [symmetric]] ok by (simp add: dict_ok_def)
  moreover have "dictSize d' = dictSize d" using dictSize_entries ok d'(2,3) by (metis size_mset)
  moreover have "\<not> more" if "int (ht_size (ht0 d)) - rehashidx d < int n"
  proof
    assume m: more
    have "rehashidx d' \<le> int (ht_size (ht0 d'))" using d'(2,4) m by (simp add: dict_ok_def)
    then show False using d'(5) [OF m] that by simp
  qed
  ultimately show ?thesis using d' True by (intro exI [of _ d'] exI [of _ more]) (auto simp: dictRehash_def)
next
  case False
  then show ?thesis using ok by (simp add: dictRehash_def)
qed

text \<open>A dictionary in the middle of a rehash.\<close>

definition demo_dict :: "(nat, string) dict" where
  "demo_dict = \<lparr>ht0 = \<lparr>ht_table = [[(2, ''a'')]], ht_size = 1, ht_sizemask = 0, ht_used = 1\<rparr>,
       ht1 = \<lparr>ht_table = [[], [(3, ''b'')]], ht_size = 2, ht_sizemask = 1, ht_used = 1\<rparr>, rehashidx = 0, iterators = 0\<rparr>"

lemma demo_dict_ok: "dict_ok of_nat demo_dict"
proof -
  have "ht_shape (ht0 demo_dict)" "ht_shape (ht1 demo_dict)"
    by (auto simp: demo_dict_def ht_shape_def intro: exI [of _ 0] exI [of _ 1])
  then show ?thesis
    by (simp add: demo_dict_def dict_ok_def ht_ok_def ht_placed_def bucket_index_def entries_def ht_entries_def
      dictIsRehashing_def less_2_cases_iff All_less_Suc)
qed

theorem dictRehash_correct_witness:
  "\<exists>d' more. dictRehash of_nat 2 demo_dict = Some (d', more) \<and> \<not> more \<and>
     dict_map d' = [2 \<mapsto> ''a'', 3 \<mapsto> ''b''] \<and> ht_size (ht0 d') = 2"
proof -
  have "dict_map demo_dict = [2 \<mapsto> ''a'', 3 \<mapsto> ''b'']"
    by (auto simp: demo_dict_def dict_map_def entries_def ht_entries_def)
  then show ?thesis
    using dictRehash_correct [OF demo_dict_ok, of 2] by (auto simp: demo_dict_def dictIsRehashing_def)
qed

section \<open>Emptying\<close>

lemma dictClearLoop_all: "used = length (concat bs) \<Longrightarrow> dictClearLoop bs used = concat bs"
  by (induction bs arbitrary: used) auto

text \<open>\<open>dictEmpty\<close> on a well-formed dictionary frees every entry exactly once, although its
  loop stops as soon as the counter reaches zero, and leaves a valid empty dictionary.\<close>

theorem dictEmpty_correct:
  assumes "dict_ok hf d"
  shows "snd (dictEmpty d) = entries d \<and> dictRelease d = entries d \<and>
     dict_ok hf (fst (dictEmpty d)) \<and> dict_map (fst (dictEmpty d)) = Map.empty \<and> dictSize (fst (dictEmpty d)) = 0"
proof -
  have "dictClearLoop (ht_table (ht0 d)) (ht_used (ht0 d)) = ht_entries (ht0 d)"
    "dictClearLoop (ht_table (ht1 d)) (ht_used (ht1 d)) = ht_entries (ht1 d)"
    using assms by (auto simp: dict_ok_def ht_ok_def ht_entries_def intro!: dictClearLoop_all split: if_splits)
  then show ?thesis
    by (simp add: dictEmpty_def dictRelease_def dictClear_def entries_def dict_ok_def dictIsRehashing_def
      dict_map_def dictSize_def)
qed

theorem dictEmpty_correct_witness:
  "dict_ok of_nat (fst (dictEmpty demo_dict)) \<and> snd (dictEmpty demo_dict) = [(2, ''a''), (3, ''b'')]"
proof -
  have "entries demo_dict = [(2, ''a''), (3, ''b'')]" by (simp add: demo_dict_def entries_def ht_entries_def)
  then show ?thesis using dictEmpty_correct [OF demo_dict_ok] by simp
qed

end
