(* ===== verification/Dict_Scan.thy ===== *)
theory Dict_Scan
  imports Dict
begin

text \<open>
  \<^verbatim>\<open>redis-2.8/src/dict.c\<close>, \<open>rev\<close> and \<open>dictScan\<close>: the stateless cursor iteration behind
  \<open>SCAN\<close>, \<open>SSCAN\<close>, \<open>HSCAN\<close> and \<open>ZSCAN\<close>. Cursors are \<open>unsigned long\<close>, 32 bits wide in this
  port. The \<open>do\<close>-\<open>while\<close> loop over the larger table is a partial function, \<open>None\<close> when it
  does not end or leaves the table; the theorems show that it returns.
\<close>

type_synonym ulong = "32 word"

function rev_loop :: "nat \<Rightarrow> ulong \<Rightarrow> ulong \<Rightarrow> ulong" where
  "rev_loop s msk v =
     (let s = s div 2 in
      if s > 0 then
        let msk = msk XOR push_bit s msk
        in rev_loop s msk ((drop_bit s v AND msk) OR (push_bit s v AND NOT msk))
      else v)"
  by pat_completeness auto
termination by (relation "measure (\<lambda>(s, msk, v). s)") auto

declare rev_loop.simps [simp del]

definition rev_ulong :: "ulong \<Rightarrow> ulong" where
  "rev_ulong v = rev_loop 32 (NOT 0) v"

partial_function (option) scan_big :: "('k, 'v) dictht \<Rightarrow> ulong \<Rightarrow> ulong \<Rightarrow> ulong \<Rightarrow> (('k \<times> 'v) list \<times> ulong) option" where
  "scan_big t1 m0 m1 v =
     Option.bind (bucket t1 (unat (v AND m1))) (\<lambda>es.
     let v = (((v OR m0) + 1) AND NOT m0) OR (v AND m0)
     in if v AND (m0 XOR m1) \<noteq> 0 then Option.bind (scan_big t1 m0 m1 v) (\<lambda>(fs, w). Some (es @ fs, w)) else Some (es, v))"

declare scan_big.simps [code]

definition sizemask_ulong :: "('k, 'v) dictht \<Rightarrow> ulong" where
  "sizemask_ulong t = of_nat (ht_sizemask t)"

definition next_cursor :: "ulong \<Rightarrow> ulong \<Rightarrow> ulong" where
  "next_cursor m0 v = rev_ulong (rev_ulong (v OR NOT m0) + 1)"

definition dictScan :: "('k, 'v) dict \<Rightarrow> ulong \<Rightarrow> (('k \<times> 'v) list \<times> ulong) option" where
  "dictScan d v =
     (if dictSize d = 0 then Some ([], 0)
      else if \<not> dictIsRehashing d then
        (let m0 = sizemask_ulong (ht0 d) in
         map_option (\<lambda>es. (es, next_cursor m0 v)) (bucket (ht0 d) (unat (v AND m0))))
      else
        (let (t0, t1) = (if ht_size (ht0 d) > ht_size (ht1 d) then (ht1 d, ht0 d) else (ht0 d, ht1 d));
             m0 = sizemask_ulong t0; m1 = sizemask_ulong t1
         in Option.bind (bucket t0 (unat (v AND m0))) (\<lambda>es.
            map_option (\<lambda>(fs, v). (es @ fs, next_cursor m0 v)) (scan_big t1 m0 m1 v))))"


definition swap_bits :: "nat \<Rightarrow> ulong \<Rightarrow> ulong \<Rightarrow> ulong" where
  "swap_bits s m v = (drop_bit s v AND m) OR (push_bit s v AND NOT m)"

lemma rev_unroll: "rev_ulong v = swap_bits 1 0x55555555 (swap_bits 2 0x33333333
   (swap_bits 4 0x0F0F0F0F (swap_bits 8 0x00FF00FF (swap_bits 16 0x0000FFFF v))))"
proof -
  have m: "NOT 0 XOR push_bit 16 (NOT 0) = (0x0000FFFF :: ulong)"
    "0x0000FFFF XOR push_bit 8 0x0000FFFF = (0x00FF00FF :: ulong)"
    "0x00FF00FF XOR push_bit 4 0x00FF00FF = (0x0F0F0F0F :: ulong)"
    "0x0F0F0F0F XOR push_bit 2 0x0F0F0F0F = (0x33333333 :: ulong)"
    "0x33333333 XOR push_bit 1 0x33333333 = (0x55555555 :: ulong)"
    by code_simp+
  have step: "rev_loop s k w = (if s div 2 > 0 then rev_loop (s div 2) (k XOR push_bit (s div 2) k)
      (swap_bits (s div 2) (k XOR push_bit (s div 2) k) w) else w)" for s k w
    by (subst rev_loop.simps) (simp add: Let_def swap_bits_def)
  have d: "32 div 2 = (16::nat)" "16 div 2 = (8::nat)" "8 div 2 = (4::nat)" "4 div 2 = (2::nat)" "2 div 2 = (1::nat)" "1 div 2 = (0::nat)"
    by simp_all
  have p: "0 < (16::nat)" "0 < (8::nat)" "0 < (4::nat)" "0 < (2::nat)" "0 < (1::nat)" "\<not> 0 < (0::nat)" by simp_all
  show ?thesis unfolding rev_ulong_def
    by (subst step, unfold d m, subst if_P, rule p, subst step, unfold d m, subst if_P, rule p,
      subst step, unfold d m, subst if_P, rule p, subst step, unfold d m, subst if_P, rule p,
      subst step, unfold d m, subst if_P, rule p, subst step, unfold d, subst if_not_P, rule p, rule refl)
qed

lemma bit_swap:
  assumes "n < 32"
  shows "bit (swap_bits s m v) n = (if bit m n then bit v (n + s) else s \<le> n \<and> bit v (n - s))"
  using assms by (auto simp: swap_bits_def bit_and_iff bit_or_iff bit_not_iff bit_drop_bit_eq bit_push_bit_iff
    add.commute)

lemma less32_all: "(\<forall>n < (32::nat). P n) \<longleftrightarrow> (\<forall>n \<in> set [0..<32]. P n)" by auto

lemma upt32: "set [0..<32] = {0, 1, 2, 3, 4, 5, 6, 7, 8, 9, 10, 11, 12, 13, 14, 15, 16, 17, 18, 19, 20, 21, 22, 23, 24, 25, 26, 27, 28, 29, 30, 31::nat}"
  by code_simp

lemma mask_bits:
  "\<forall>n < 32. bit (0x0000FFFF :: ulong) n = even (n div 16)"
  "\<forall>n < 32. bit (0x00FF00FF :: ulong) n = even (n div 8)"
  "\<forall>n < 32. bit (0x0F0F0F0F :: ulong) n = even (n div 4)"
  "\<forall>n < 32. bit (0x33333333 :: ulong) n = even (n div 2)"
  "\<forall>n < 32. bit (0x55555555 :: ulong) n = even (n div 1)"
  unfolding less32_all by code_simp+

definition flip :: "nat \<Rightarrow> nat \<Rightarrow> nat" where
  "flip s n = (if even (n div s) then n + s else n - s)"

lemma flip_less: "\<forall>n < 32. \<forall>s \<in> {1,2,4,8,16}. flip s n < 32 \<and> (even (n div s) \<or> s \<le> n)"
  unfolding less32_all by code_simp

lemma flip_all: "\<forall>n < 32. flip 16 (flip 8 (flip 4 (flip 2 (flip 1 n)))) = 31 - n"
  unfolding less32_all upt32 ball_simps by (simp add: flip_def)

lemma bit_swap_flip:
  assumes "n < 32" "s \<in> {1,2,4,8,16}" "\<forall>n < 32. bit m n = even (n div s)"
  shows "bit (swap_bits s m v) n = bit v (flip s n)"
proof -
  have "even (n div s) \<or> s \<le> n" using flip_less assms(1,2) by blast
  then show ?thesis using bit_swap [OF assms(1), of s m v] assms(1,3) by (auto simp: flip_def)
qed

lemma bit_rev: "bit (rev_ulong v) n = (n < 32 \<and> bit v (31 - n))"
proof (cases "n < 32")
  case True
  have f: "\<And>s n. s \<in> {1,2,4,8,16} \<Longrightarrow> n < 32 \<Longrightarrow> flip s n < 32" using flip_less by blast
  have "bit (rev_ulong v) n = bit v (flip 16 (flip 8 (flip 4 (flip 2 (flip 1 n)))))"
    unfolding rev_unroll using True f mask_bits
    by (simp add: bit_swap_flip del: One_nat_def)
  then show ?thesis using True flip_all by simp
next
  case False
  then show ?thesis using bit_imp_le_length [of "rev_ulong v" n] by auto
qed
abbreviation rpos :: "ulong \<Rightarrow> nat" where "rpos v \<equiv> unat (rev_ulong v)"

lemma rev_rev [simp]: "rev_ulong (rev_ulong v) = v"
  by (rule bit_word_eqI) (auto simp: bit_rev)

lemma rpos_0: "rpos v = 0 \<longleftrightarrow> v = 0"
proof -
  have z: "rev_ulong 0 = 0" by (rule bit_word_eqI) (simp add: bit_rev)
  show ?thesis by (metis rev_rev unat_eq_zero z)
qed

lemma or_mask_nat: "(x::nat) OR mask k = x div 2 ^ k * 2 ^ k + (2 ^ k - 1)"
proof -
  have "x OR mask k = push_bit k (drop_bit k x) OR mask k"
    by (rule bit_eqI) (auto simp: bit_simps)
  also have "\<dots> = push_bit k (drop_bit k x) + mask k"
    by (rule disjunctive_add [symmetric]) (auto simp: bit_simps)
  finally show ?thesis by (simp add: push_bit_eq_mult drop_bit_eq_div mask_eq_exp_minus_1)
qed

lemma word_of_nat_unat: "of_nat (unat x) = (x :: ulong)"
  by simp

lemma unat_mask: "k \<le> 32 \<Longrightarrow> unat (mask k :: ulong) = mask k"
  by (rule bit_eqI) (auto simp: bit_unsigned_iff bit_simps)

lemma unat_and_mask: "k \<le> 32 \<Longrightarrow> unat ((x::ulong) AND mask k) = unat x mod 2 ^ k"
  unfolding unsigned_and_eq by (simp add: unat_mask take_bit_eq_mod flip: take_bit_eq_mask)

lemma unat_or_mask: "k \<le> 32 \<Longrightarrow> unat ((x::ulong) OR mask k) = unat x div 2 ^ k * 2 ^ k + (2 ^ k - 1)"
  using or_mask_nat [of "unat x" k] by (simp add: unsigned_or_eq unat_mask)

text \<open>The successor of a cursor advances its reversal to the next multiple of the stride.\<close>

lemma rpos_next:
  assumes "a \<le> 32"
  shows "rpos (next_cursor (mask a) v) = (rpos v div 2 ^ (32 - a) + 1) * 2 ^ (32 - a) mod 2 ^ 32"
proof -
  have "rev_ulong (v OR NOT (mask a)) = rev_ulong v OR mask (32 - a)"
    using assms by (intro bit_word_eqI) (auto simp: bit_rev bit_simps)
  then have "rpos (next_cursor (mask a) v) = unat ((rev_ulong v OR mask (32 - a)) + 1)"
    by (simp add: next_cursor_def)
  also have "\<dots> = (unat (rev_ulong v OR mask (32 - a)) + 1) mod 2 ^ 32"
    by (simp add: unat_word_ariths)
  also have "unat (rev_ulong v OR mask (32 - a)) + 1 = (rpos v div 2 ^ (32 - a) + 1) * 2 ^ (32 - a)"
    by (simp add: unat_or_mask)
  finally show ?thesis .
qed

lemma unat_eq_iff: "unat (x::ulong) = unat y \<longleftrightarrow> x = y"
  by (auto intro: unsigned_word_eqI)

lemma low_bits_rpos:
  assumes "a \<le> 32"
  shows "v AND mask a = w AND mask a \<longleftrightarrow> rpos v div 2 ^ (32 - a) = rpos w div 2 ^ (32 - a)"
proof -
  have "rpos v div 2 ^ (32 - a) = rpos w div 2 ^ (32 - a) \<longleftrightarrow>
      drop_bit (32 - a) (rev_ulong v) = drop_bit (32 - a) (rev_ulong w)"
    unfolding drop_bit_eq_div [symmetric] unat_drop_bit_eq [symmetric] by (rule unat_eq_iff)
  also have "\<dots> \<longleftrightarrow> (\<forall>n < a. bit v n = bit w n)"
  proof safe
    fix n
    assume e: "drop_bit (32 - a) (rev_ulong v) = drop_bit (32 - a) (rev_ulong w)" and n: "n < a"
    have "bit (drop_bit (32 - a) (rev_ulong v)) (a - 1 - n) = bit (drop_bit (32 - a) (rev_ulong w)) (a - 1 - n)"
      using e by simp
    moreover have "31 - (32 - a + (a - 1 - n)) = n" using n assms by simp
    ultimately show "bit v n \<Longrightarrow> bit w n" "bit w n \<Longrightarrow> bit v n" using n assms by (auto simp: bit_drop_bit_eq bit_rev)
  next
    assume "\<forall>n < a. bit v n = bit w n"
    then show "drop_bit (32 - a) (rev_ulong v) = drop_bit (32 - a) (rev_ulong w)"
      using assms by (intro bit_word_eqI) (auto simp: bit_drop_bit_eq bit_rev)
  qed
  also have "\<dots> \<longleftrightarrow> v AND mask a = w AND mask a"
    using assms by (auto simp: bit_eq_iff bit_simps) (metis less_le_trans)+
  finally show ?thesis by simp
qed

lemma rpos_dvd_small:
  assumes "a \<le> 32" "2 ^ (32 - a) dvd rpos v"
  shows "v AND mask a = v"
proof (rule bit_word_eqI)
  fix n assume n: "n < LENGTH(32)"
  have "\<not> bit v n" if "a \<le> n"
  proof -
    have "take_bit (32 - a) (rpos v) = 0" using assms(2) by (simp add: take_bit_eq_mod)
    then have "\<not> bit (take_bit (32 - a) (rpos v)) (31 - n)" by simp
    moreover have "31 - n < 32 - a" using that n by simp
    ultimately have "\<not> bit (rpos v) (31 - n)" by (simp add: bit_take_bit_iff)
    then show ?thesis using n by (simp add: bit_rev bit_unsigned_iff)
  qed
  then show "bit (v AND mask a) n = bit v n" using n by (auto simp: bit_simps not_le [symmetric])
qed

lemma step_high:
  assumes c: "c < 2 ^ a" and j: "(j + 1) * 2 ^ a + c < 2 ^ 32" and a: "a \<le> 32"
  shows "((((of_nat (c + j * 2 ^ a) :: ulong) OR mask a) + 1) AND NOT (mask a)) OR (of_nat (c + j * 2 ^ a) AND mask a)
    = of_nat (c + (j + 1) * 2 ^ a)"
proof -
  let ?v = "of_nat (c + j * 2 ^ a) :: ulong"
  have uv: "unat ?v = c + j * 2 ^ a" using j by (simp add: unat_of_nat del: of_nat_add of_nat_mult)
  have low: "?v AND mask a = of_nat c"
  proof -
    have "unat (?v AND mask a) = (c + j * 2 ^ a) AND mask a" by (simp only: unsigned_and_eq uv unat_mask [OF a])
    also have "\<dots> = c" using c by (simp add: take_bit_eq_mod flip: take_bit_eq_mask)
    finally have "unat (?v AND mask a) = c" .
    then show ?thesis by (metis word_of_nat_unat)
  qed
  have "unat (?v OR mask a) = j * 2 ^ a + (2 ^ a - 1)" using c a uv by (simp add: unat_or_mask)
  then have "?v OR mask a = of_nat (j * 2 ^ a + (2 ^ a - 1))" by (metis word_of_nat_unat)
  moreover have "j * 2 ^ a + (2 ^ a - 1) + 1 = (j + 1) * 2 ^ a" by simp
  ultimately have up: "(?v OR mask a) + 1 = of_nat ((j + 1) * 2 ^ a)"
    by (metis of_nat_1 of_nat_add)
  have e: "of_nat ((j + 1) * 2 ^ a) = push_bit a (of_nat (j + 1) :: ulong)"
    by (simp add: push_bit_eq_mult distrib_right)
  have cb: "bit (of_nat c :: ulong) n \<Longrightarrow> n < a" for n
    using c by (metis bit_of_nat_iff bit_take_bit_iff take_bit_nat_eq_self_iff)
  have "(of_nat ((j + 1) * 2 ^ a) AND NOT (mask a)) OR (of_nat c :: ulong) = push_bit a (of_nat (j + 1)) OR of_nat c"
    unfolding e by (rule bit_word_eqI) (auto simp: bit_simps)
  also have "\<dots> = push_bit a (of_nat (j + 1)) + of_nat c"
    by (rule disjunctive_add [symmetric]) (metis bit_push_bit_iff cb not_le)
  finally show ?thesis unfolding low up e [symmetric] of_nat_add [symmetric] by (simp only: add.commute)
qed

lemma and_diff_mask:
  assumes "a \<le> b" "b \<le> 32"
  shows "w AND (mask a XOR mask b) = (0::ulong) \<longleftrightarrow> unat w div 2 ^ a mod 2 ^ (b - a) = 0"
proof -
  have "unat w div 2 ^ a mod 2 ^ (b - a) = take_bit (b - a) (drop_bit a (unat w))"
    by (simp add: take_bit_eq_mod drop_bit_eq_div)
  moreover have "take_bit (b - a) (drop_bit a (unat w)) = 0 \<longleftrightarrow> (\<forall>n. \<not> (n < b - a \<and> bit w (a + n)))"
    by (auto simp: bit_eq_iff bit_simps bit_unsigned_iff)
  moreover have "w AND (mask a XOR mask b) = 0 \<longleftrightarrow> (\<forall>n. \<not> (a \<le> n \<and> n < b \<and> bit w n))"
    using assms by (auto simp: bit_eq_iff bit_simps) (metis less_le_trans not_le)
  moreover have "(\<forall>n. \<not> (n < b - a \<and> bit w (a + n))) \<longleftrightarrow> (\<forall>n. \<not> (a \<le> n \<and> n < b \<and> bit w n))"
    by (metis add_diff_inverse_nat le_add1 less_diff_conv2 not_le add.commute less_diff_conv)
  ultimately show ?thesis by simp
qed

lemma scan_big_spec:
  assumes c: "c < 2 ^ a" and ab: "a \<le> b" "b \<le> 31" and len: "length (ht_table t) = 2 ^ b"
  shows "n + j = 2 ^ (b - a) \<Longrightarrow> 0 < n \<Longrightarrow>
    scan_big t (mask a) (mask b) (of_nat (c + j * 2 ^ a)) =
      Some (concat (map (\<lambda>i. ht_table t ! (c + i * 2 ^ a)) [j ..< 2 ^ (b - a)]), of_nat (c + 2 ^ b))"
proof (induction n arbitrary: j)
  case (Suc n)
  let ?v = "of_nat (c + j * 2 ^ a) :: ulong"
  have pw: "(2::nat) ^ (b - a) * 2 ^ a = 2 ^ b" using ab by (simp flip: power_add)
  have b31: "(2::nat) ^ b \<le> 2 ^ 31" using ab by (intro power_increasing) auto
  have j: "Suc j \<le> 2 ^ (b - a)" using Suc.prems by simp
  then have jb: "Suc j * 2 ^ a \<le> 2 ^ b" using pw by (metis mult_le_mono1)
  then have lt: "c + j * 2 ^ a < 2 ^ b" using c by simp
  have uv: "unat ?v = c + j * 2 ^ a"
    using lt b31 by (simp add: unat_of_nat del: of_nat_add of_nat_mult)
  have "unat (?v AND mask b) = (c + j * 2 ^ a) AND mask b"
    using ab by (simp only: unsigned_and_eq uv) (simp add: unat_mask)
  also have "\<dots> = c + j * 2 ^ a" using lt by (simp add: take_bit_eq_mod flip: take_bit_eq_mask)
  finally have bk: "bucket t (unat (?v AND mask b)) = Some (ht_table t ! (c + j * 2 ^ a))"
    using lt len by (simp add: bucket_def)
  have "c < 2 ^ 31" "Suc j * 2 ^ a \<le> 2 ^ 31"
    using c jb b31 ab power_increasing [of a 31 "2::nat"] by linarith+
  then have nx: "((?v OR mask a) + 1) AND NOT (mask a) OR (?v AND mask a) = of_nat (c + (j + 1) * 2 ^ a)"
    using c ab by (intro step_high) auto
  let ?w = "of_nat (c + (j + 1) * 2 ^ a) :: ulong"
  have more: "?w AND (mask a XOR mask b) \<noteq> 0 \<longleftrightarrow> Suc j < 2 ^ (b - a)"
  proof -
    have "unat ?w = c + Suc j * 2 ^ a"
      using \<open>c < 2 ^ 31\<close> \<open>Suc j * 2 ^ a \<le> 2 ^ 31\<close>
      by (simp add: unat_of_nat del: of_nat_add of_nat_mult of_nat_Suc)
    then have "unat ?w div 2 ^ a = Suc j" using c by (simp add: div_add1_eq)
    then show ?thesis using and_diff_mask [of a b ?w] ab j
      by (simp only:) (auto simp: le_less)
  qed
  show ?case
  proof (cases "Suc j < 2 ^ (b - a)")
    case True
    have "scan_big t (mask a) (mask b) ?w =
      Some (concat (map (\<lambda>i. ht_table t ! (c + i * 2 ^ a)) [Suc j ..< 2 ^ (b - a)]), of_nat (c + 2 ^ b))"
      using Suc.IH [of "Suc j"] Suc.prems True by simp
    then show ?thesis using True more
      by (subst scan_big.simps) (simp add: bk nx Let_def upt_conv_Cons del: of_nat_add of_nat_mult of_nat_Suc)
  next
    case False
    then have e: "Suc j = 2 ^ (b - a)" using j by simp
    then have "(j + 1) * 2 ^ a = 2 ^ b" using pw by simp
    moreover have "[j ..< 2 ^ (b - a)] = [j]" using e by (metis upt_rec lessI upt_conv_Nil order_refl)
    ultimately show ?thesis using False more
      by (subst scan_big.simps) (simp add: bk nx Let_def del: of_nat_add of_nat_mult of_nat_Suc)
  qed
qed simp

definition scan_size :: "('k, 'v) dict \<Rightarrow> nat" where
  "scan_size d = (if dictIsRehashing d then min (ht_size (ht0 d)) (ht_size (ht1 d)) else ht_size (ht0 d))"

definition small_tables :: "('k, 'v) dict \<Rightarrow> bool" where
  "small_tables d \<longleftrightarrow> ht_size (ht0 d) \<le> 2 ^ 31 \<and> ht_size (ht1 d) \<le> 2 ^ 31"

lemma shape_mask: "ht_shape t \<Longrightarrow> ht_size t = 2 ^ a \<Longrightarrow> sizemask_ulong t = mask a \<and> length (ht_table t) = 2 ^ a"
  by (simp add: ht_shape_def sizemask_ulong_def mask_eq_exp_minus_1 of_nat_diff)

lemma hash_bucket:
  assumes "ht_ok hf t" "ht_size t = 2 ^ a" "a \<le> 31" "x \<in> set (ht_entries t)"
  shows "x \<in> set (ht_table t ! unat (hf (fst x) AND mask a))"
proof -
  have "bucket_index hf t (fst x) = unat (hf (fst x) AND mask a)"
    using assms(1-3) by (simp add: bucket_index_def ht_ok_def ht_shape_def unat_and_mask and_mask_mod [unfolded One_nat_def])
  then show ?thesis using in_bucket [OF assms(1,4)] by simp
qed

lemma unat_and_mask_less: "a \<le> 31 \<Longrightarrow> unat (v AND mask a :: ulong) < 2 ^ a"
  by (simp add: unat_and_mask)

text \<open>One call emits every entry in the stride of the cursor, and moves to the next stride.\<close>

lemma emit_single:
  assumes ok: "ht_ok hf t" and sz: "ht_size t = 2 ^ a" "a \<le> 31" and x: "x \<in> set (ht_entries t)"
    and same: "hf (fst x) AND mask a = v AND mask a"
  shows "x \<in> set (ht_table t ! unat (v AND mask a))"
  using hash_bucket [OF ok sz x] same by simp

lemma emit_big:
  assumes ok: "ht_ok hf t" and sz: "ht_size t = 2 ^ b" "a \<le> b" "b \<le> 31" and x: "x \<in> set (ht_entries t)"
    and same: "unat (hf (fst x) AND mask a) = c"
  shows "x \<in> set (concat (map (\<lambda>i. ht_table t ! (c + i * 2 ^ a)) [0 ..< 2 ^ (b - a)]))"
proof -
  let ?h = "unat (hf (fst x))"
  have i: "unat (hf (fst x) AND mask b) = ?h mod 2 ^ b" and c: "c = ?h mod 2 ^ a"
    using sz same by (auto simp: unat_and_mask)
  let ?j = "?h mod 2 ^ b div 2 ^ a"
  have "?h mod 2 ^ b mod 2 ^ a = c" using c sz(2) by (simp add: mod_mod_cancel le_imp_power_dvd)
  then have "?h mod 2 ^ b = c + ?j * 2 ^ a" by (metis mod_div_mult_eq)
  moreover have "?j < 2 ^ (b - a)"
    using sz(2) by (simp add: less_mult_imp_div_less flip: power_add)
  ultimately show ?thesis using hash_bucket [OF ok sz(1,3) x] i by (auto intro!: bexI [of _ ?j])
qed

lemma next_cursor_low: "v AND m = w AND m \<Longrightarrow> next_cursor m v = next_cursor m w"
proof -
  assume "v AND m = w AND m"
  then have "v OR NOT m = w OR NOT m" by (auto simp: bit_eq_iff bit_simps)
  then show ?thesis by (simp add: next_cursor_def)
qed

lemma big_emits:
  assumes ok: "ht_ok hf t" and sz: "ht_size t = 2 ^ b" "a \<le> b" "b \<le> 31" and v: "v AND mask a = v"
  shows "\<exists>fs w. scan_big t (mask a) (mask b) v = Some (fs, w) \<and> w AND mask a = v \<and> set fs \<subseteq> set (ht_entries t) \<and>
    (\<forall>x \<in> set (ht_entries t). hf (fst x) AND mask a = v AND mask a \<longrightarrow> x \<in> set fs)"
proof -
  let ?c = "unat v"
  have c: "?c < 2 ^ a" using unat_and_mask_less [of a v] v sz by simp
  have len: "length (ht_table t) = 2 ^ b" using ok sz(1) by (simp add: ht_ok_def ht_shape_def)
  let ?fs = "concat (map (\<lambda>i. ht_table t ! (?c + i * 2 ^ a)) [0 ..< 2 ^ (b - a)])"
  have run: "scan_big t (mask a) (mask b) v = Some (?fs, of_nat (?c + 2 ^ b))"
    using scan_big_spec [OF c sz(2,3) len, of "2 ^ (b - a)" 0] by simp
  have "?c + i * 2 ^ a < 2 ^ b" if "i < 2 ^ (b - a)" for i
  proof -
    have "Suc i * 2 ^ a \<le> 2 ^ (b - a) * 2 ^ a" using that by (intro mult_le_mono1) simp
    then show ?thesis using c sz(2) by (simp flip: power_add)
  qed
  then have sub: "set ?fs \<subseteq> set (ht_entries t)"
    using bucket_subset [of _ t] len by auto blast
  have "of_nat (?c + 2 ^ b) AND mask a = v"
  proof -
    have "(2::nat) ^ a \<le> 2 ^ 31" "(2::nat) ^ b \<le> 2 ^ 31" using sz by (intro power_increasing; simp)+
    then have "unat (of_nat (?c + 2 ^ b) :: ulong) = ?c + 2 ^ b"
      using c by (simp add: unat_of_nat del: of_nat_add)
    moreover have "(?c + 2 ^ b) mod 2 ^ a = ?c" using c sz(2) by (simp add: mod_add_right_eq [symmetric] le_imp_power_dvd del: mod_add_right_eq)
    ultimately have "unat (of_nat (?c + 2 ^ b) AND mask a :: ulong) = unat v"
      using sz by (simp add: unat_and_mask)
    then show ?thesis by (simp only: unat_eq_iff)
  qed
  moreover have "x \<in> set ?fs" if "x \<in> set (ht_entries t)" "hf (fst x) AND mask a = v AND mask a" for x
    using emit_big [OF ok sz that(1)] that(2) v by simp
  ultimately show ?thesis using run sub by blast
qed

definition stride :: "nat \<Rightarrow> nat" where "stride a = 2 ^ (32 - a)"

lemma dictScan_step:
  assumes ok: "dict_ok hf d" and ne: "0 < dictSize d" and sm: "small_tables d"
    and a: "scan_size d = 2 ^ a" and v: "stride a dvd rpos v"
  shows "\<exists>em v'. dictScan d v = Some (em, v') \<and> rpos v' = (rpos v + stride a) mod 2 ^ 32 \<and> set em \<subseteq> set (entries d) \<and>
    (\<forall>x \<in> set (entries d). rpos v \<le> rpos (hf (fst x)) \<and> rpos (hf (fst x)) < rpos v + stride a \<longrightarrow> x \<in> set em)"
proof -
  have "ht_size (ht0 d) \<noteq> 0"
  proof
    assume "ht_size (ht0 d) = 0"
    then show False using ne dict_ok_empty [OF ok] by (simp add: dictSize_def)
  qed
  note t0 = dict_ok_ht0 [OF ok this]
  have a31: "a \<le> 31"
    using sm a power_increasing_iff [of "2::nat" a 31] by (auto simp: small_tables_def scan_size_def split: if_splits)
  have v': "v AND mask a = v" using rpos_dvd_small [of a v] v a31 by (simp add: stride_def)
  have nx: "rpos (next_cursor (mask a) v) = (rpos v + stride a) mod 2 ^ 32"
    using rpos_next [of a v] v a31 by (simp add: stride_def dvd_div_mult_self add_mult_distrib add.commute)
  have key: "hf (fst x) AND mask a = v AND mask a"
    if "rpos v \<le> rpos (hf (fst x))" "rpos (hf (fst x)) < rpos v + stride a" for x :: "'a \<times> 'b"
  proof -
    obtain q where q: "rpos v = stride a * q" using v by blast
    have "rpos (hf (fst x)) div stride a = q"
      using that q by (intro div_nat_eqI) (auto simp: algebra_simps)
    then have "rpos (hf (fst x)) div 2 ^ (32 - a) = rpos v div 2 ^ (32 - a)"
      using q by (simp add: stride_def)
    then show ?thesis using low_bits_rpos [of a] a31 by simp
  qed
  show ?thesis
  proof (cases "dictIsRehashing d")
    case False
    have sz: "ht_size (ht0 d) = 2 ^ a" using a False by (simp add: scan_size_def)
    have h1: "ht_entries (ht1 d) = []" using ok False by (simp add: dict_ok_def)
    have m: "sizemask_ulong (ht0 d) = mask a" "length (ht_table (ht0 d)) = 2 ^ a"
      using shape_mask t0 sz by (auto simp: ht_ok_def)
    have lt: "unat (v AND mask a) < length (ht_table (ht0 d))" using m unat_and_mask_less [OF a31] by simp
    have "dictScan d v = Some (ht_table (ht0 d) ! unat (v AND mask a), next_cursor (mask a) v)"
      using ne False m lt by (simp add: dictScan_def bucket_def Let_def)
    then show ?thesis using nx emit_single [OF t0 sz a31 _ key] bucket_subset [OF lt] h1
      by (auto simp: entries_def)
  next
    case True
    have t1: "ht_ok hf (ht1 d)" using ok True by (simp add: dict_ok_def)
    define p where "p = (if ht_size (ht0 d) > ht_size (ht1 d) then (ht1 d, ht0 d) else (ht0 d, ht1 d))"
    obtain s l where sl: "p = (s, l)" by (cases p)
    have sl_ok: "ht_ok hf s" "ht_ok hf l" using t0 t1 sl by (auto simp: p_def split: if_splits)
    have s: "ht_size s = 2 ^ a" using a True sl by (auto simp: scan_size_def p_def min_def split: if_splits)
    obtain b where b: "ht_size l = 2 ^ b" using sl_ok(2) by (auto simp: ht_ok_def ht_shape_def)
    have "ht_size s \<le> ht_size l" "ht_size l \<le> 2 ^ 31"
      using sl sm by (auto simp: p_def small_tables_def split: if_splits)
    then have ab: "a \<le> b" "b \<le> 31" using s b by (metis power_increasing_iff one_less_numeral_iff semiring_norm(76))+
    have ms: "sizemask_ulong s = mask a" "length (ht_table s) = 2 ^ a" "sizemask_ulong l = mask b"
      using shape_mask sl_ok s b by (auto simp: ht_ok_def)
    have ent: "set (entries d) = set (ht_entries s) \<union> set (ht_entries l)"
      using sl by (auto simp: p_def entries_def split: if_splits)
    obtain fs w where big: "scan_big l (mask a) (mask b) v = Some (fs, w)" "w AND mask a = v" "set fs \<subseteq> set (ht_entries l)"
      "\<And>x. x \<in> set (ht_entries l) \<Longrightarrow> hf (fst x) AND mask a = v AND mask a \<Longrightarrow> x \<in> set fs"
      using big_emits [OF sl_ok(2) b ab v'] by blast
    have lt: "unat (v AND mask a) < length (ht_table s)" using ms unat_and_mask_less [OF a31] by simp
    have "next_cursor (mask a) w = next_cursor (mask a) v" using big(2) v' by (intro next_cursor_low) simp
    then have "dictScan d v = Some (ht_table s ! unat (v AND mask a) @ fs, next_cursor (mask a) v)"
      using ne True ms lt big(1) sl unfolding dictScan_def p_def [symmetric] by (simp add: bucket_def Let_def)
    then show ?thesis using nx emit_single [OF sl_ok(1) s a31 _ key] bucket_subset [OF lt] big(3,4) key ent
      by (intro exI conjI) auto
  qed
qed

text \<open>
  A whole iteration: the dictionary may change between the calls, so each call sees the next
  dictionary of a sequence; the caller stops when the cursor returns to 0.
\<close>

fun scan_run :: "('k, 'v) dict list \<Rightarrow> ulong \<Rightarrow> (('k \<times> 'v) list \<times> ulong) option" where
  "scan_run [] v = Some ([], v)"
| "scan_run (d # ds) v = Option.bind (dictScan d v) (\<lambda>(em, v').
     if v' = 0 then Some (em, 0) else map_option (apfst ((@) em)) (scan_run ds v'))"

definition scannable :: "'k hash \<Rightarrow> 'k \<Rightarrow> ('k, 'v) dict \<Rightarrow> bool" where
  "scannable hf k d \<longleftrightarrow> dict_ok hf d \<and> small_tables d \<and> dict_map d k \<noteq> None"

lemma stride_mono: "a \<le> b \<Longrightarrow> stride b dvd stride a"
  by (simp add: stride_def le_imp_power_dvd)

lemma scan_size_pow: "dict_ok hf d \<Longrightarrow> 0 < dictSize d \<Longrightarrow> \<exists>a. scan_size d = 2 ^ a"
proof -
  assume ok: "dict_ok hf d" and ne: "0 < dictSize d"
  have "ht_size (ht0 d) \<noteq> 0"
  proof
    assume "ht_size (ht0 d) = 0"
    then show False using ne dict_ok_empty [OF ok] by (simp add: dictSize_def)
  qed
  then have "\<exists>a. ht_size (ht0 d) = 2 ^ a" using dict_ok_ht0 [OF ok] by (simp add: ht_ok_def ht_shape_def)
  moreover have "dictIsRehashing d \<Longrightarrow> \<exists>a. ht_size (ht1 d) = 2 ^ a" using ok by (simp add: dict_ok_def ht_ok_def ht_shape_def)
  ultimately show ?thesis by (simp add: scan_size_def min_def)
qed

lemma scannable_nonempty: "scannable hf k d \<Longrightarrow> 0 < dictSize d"
  using dictSize_entries [of hf d] by (auto simp: scannable_def dict_map_def)

lemma scan_run_guarantee:
  assumes "\<forall>d \<in> set ds. scannable hf k d" "sorted (map scan_size ds)"
    "\<forall>d \<in> set ds. \<exists>a. scan_size d = 2 ^ a \<and> stride a dvd rpos v"
  shows "\<exists>em w. scan_run ds v = Some (em, w) \<and>
     (ds \<noteq> [] \<longrightarrow> w = 0 \<longrightarrow> rpos v \<le> rpos (hf k) \<longrightarrow> k \<in> fst ` set em) \<and>
     (w \<noteq> 0 \<longrightarrow> ds \<noteq> [] \<longrightarrow> (\<forall>a. scan_size (last ds) = 2 ^ a \<longrightarrow> rpos v + length ds * stride a < 2 ^ 32))"
  using assms
proof (induction ds arbitrary: v)
  case (Cons d ds)
  have d: "dict_ok hf d" "small_tables d" "dict_map d k \<noteq> None" "0 < dictSize d"
    using Cons.prems(1) scannable_nonempty [of hf k d] by (auto simp: scannable_def)
  obtain a where a: "scan_size d = 2 ^ a" "stride a dvd rpos v" using Cons.prems(3) by auto
  obtain em v' where st: "dictScan d v = Some (em, v')" "rpos v' = (rpos v + stride a) mod 2 ^ 32"
    "\<And>x. x \<in> set (entries d) \<Longrightarrow> rpos v \<le> rpos (hf (fst x)) \<Longrightarrow> rpos (hf (fst x)) < rpos v + stride a \<Longrightarrow> x \<in> set em"
    using dictScan_step [OF d(1,4,2) a] by blast
  have kin: "k \<in> fst ` set em" if "rpos v \<le> rpos (hf k)" "rpos (hf k) < rpos v + stride a"
  proof -
    obtain x where "x \<in> set (entries d)" "fst x = k" using d(3) by (auto simp: dict_map_None)
    then show ?thesis using st(3) [of x] that by force
  qed
  have bound: "rpos x < 2 ^ 32" for x using unsigned_less [of "rev_ulong x"] by simp
  have dv: "stride a dvd 2 ^ 32" unfolding stride_def by (rule le_imp_power_dvd) simp
  have sb: "rpos v + stride a \<le> 2 ^ 32"
  proof -
    obtain q m where qm: "rpos v = stride a * q" "2 ^ 32 = stride a * m" using a(2) dv by (metis dvdE)
    then have "stride a * q < stride a * m" using bound [of v] by simp
    then have "Suc q \<le> m" by simp
    then have "stride a * Suc q \<le> stride a * m" by (rule mult_le_mono2)
    then show ?thesis using qm by simp
  qed
  show ?case
  proof (cases "v' = 0")
    case True
    then have "rpos v' = 0" by (simp add: rpos_0)
    have "(0::nat) < stride a" by (simp add: stride_def)
    then have "2 ^ 32 \<le> rpos v + stride a"
      using st(2) \<open>rpos v' = 0\<close> by (metis add_is_0 mod_less not_le less_numeral_extra(3))
    then show ?thesis using st(1) True kin bound [of "hf k"] by simp
  next
    case False
    then have nz: "rpos v' \<noteq> 0" by (simp add: rpos_0)
    then have e: "rpos v' = rpos v + stride a" "rpos v + stride a < 2 ^ 32"
      using st(2) sb by (metis le_neq_implies_less mod_less mod_self)+
    have mono: "\<forall>d' \<in> set ds. \<exists>b. scan_size d' = 2 ^ b \<and> a \<le> b \<and> stride b dvd rpos v'"
    proof
      fix d' assume d': "d' \<in> set ds"
      then obtain b where b: "scan_size d' = 2 ^ b" "stride b dvd rpos v" using Cons.prems(3) by auto
      have "(2::nat) ^ a \<le> 2 ^ b" using Cons.prems(2) d' a b by auto
      then have "a \<le> b" by simp
      then show "\<exists>b. scan_size d' = 2 ^ b \<and> a \<le> b \<and> stride b dvd rpos v'"
        using b e stride_mono by (intro exI [of _ b]) auto
    qed
    obtain em2 w where ih: "scan_run ds v' = Some (em2, w)"
      "ds \<noteq> [] \<Longrightarrow> w = 0 \<Longrightarrow> rpos v' \<le> rpos (hf k) \<Longrightarrow> k \<in> fst ` set em2"
      "w \<noteq> 0 \<Longrightarrow> ds \<noteq> [] \<Longrightarrow> (\<forall>a. scan_size (last ds) = 2 ^ a \<longrightarrow> rpos v' + length ds * stride a < 2 ^ 32)"
    proof -
      have "\<forall>d \<in> set ds. scannable hf k d" "sorted (map scan_size ds)"
        "\<forall>d \<in> set ds. \<exists>a. scan_size d = 2 ^ a \<and> stride a dvd rpos v'"
        using Cons.prems(1,2) mono by (simp, simp, blast)
      from Cons.IH [OF this] show thesis using that by blast
    qed
    have run: "scan_run (d # ds) v = Some (em @ em2, w)" using st(1) False ih(1) by simp
    have "k \<in> fst ` set (em @ em2)" if "w = 0" "rpos v \<le> rpos (hf k)"
    proof (cases "rpos (hf k) < rpos v + stride a")
      case True
      then show ?thesis using kin that by auto
    next
      case big: False
      have "ds \<noteq> []" using ih(1) that(1) False by auto
      then show ?thesis using ih(2) that e big by (simp add: image_Un)
    qed
    moreover have "rpos v + length (d # ds) * stride c < 2 ^ 32"
      if w: "w \<noteq> 0" and c: "scan_size (last (d # ds)) = 2 ^ c" for c
    proof (cases "ds = []")
      case True
      then have "c = a" using c a by simp
      then show ?thesis using True e by simp
    next
      case False
      then obtain b where b: "scan_size (last ds) = 2 ^ b" "a \<le> b" using mono last_in_set by blast
      have cb: "scan_size (last ds) = 2 ^ c" "c = b" using b c False by auto
      have "stride c \<le> stride a" using b(2) cb(2) stride_mono by (auto intro!: dvd_imp_le simp: stride_def)
      then show ?thesis using ih(3) [OF w False] cb(1) e by fastforce
    qed
    ultimately show ?thesis using run by (intro exI [of _ "em @ em2"] exI [of _ w]) auto
  qed
qed simp

text \<open>C3. The guarantee of \<open>dictScan\<close> while the table does not shrink. Let each call of an
  iteration that starts at cursor 0 see the dictionary in any well-formed state, between
  the calls arbitrarily modified, expanded and rehashed, with tables of at most \<open>2 ^ 31\<close>
  buckets and the smaller table of each call no smaller than before. Then every call
  returns, an iteration of as many calls as the last table has buckets has come back to
  cursor 0, and an iteration that came back to 0 has emitted every key that was present
  during all of its calls.\<close>

theorem dictScan_complete:
  assumes "\<forall>d \<in> set ds. dict_ok hf d \<and> small_tables d \<and> dict_map d k \<noteq> None"
    and "sorted (map scan_size ds)" and "ds \<noteq> []"
  shows "\<exists>em w. scan_run ds 0 = Some (em, w) \<and> (w = 0 \<longrightarrow> k \<in> fst ` set em) \<and>
     (scan_size (last ds) \<le> length ds \<longrightarrow> w = 0)"
proof -
  have sc: "\<forall>d \<in> set ds. scannable hf k d" using assms(1) by (simp add: scannable_def)
  have z: "rpos 0 = 0" by (simp add: rpos_0)
  have p: "\<forall>d \<in> set ds. \<exists>a. scan_size d = 2 ^ a \<and> stride a dvd rpos 0"
    using sc scannable_nonempty scan_size_pow z unfolding scannable_def by (metis dvd_0_right)
  obtain em w where r: "scan_run ds 0 = Some (em, w)" "w = 0 \<longrightarrow> k \<in> fst ` set em"
     "w \<noteq> 0 \<longrightarrow> (\<forall>a. scan_size (last ds) = 2 ^ a \<longrightarrow> length ds * stride a < 2 ^ 32)"
    using scan_run_guarantee [OF sc assms(2) p] assms(3) z by auto
  have "w = 0" if "scan_size (last ds) \<le> length ds"
  proof (rule ccontr)
    assume w: "w \<noteq> 0"
    obtain a where a: "scan_size (last ds) = 2 ^ a" using p assms(3) last_in_set by blast
    have "last ds \<in> set ds" using assms(3) by simp
    then have "2 ^ a \<le> (2::nat) ^ 31"
      using sc a by (auto simp: scannable_def small_tables_def scan_size_def split: if_splits)
    then have "a \<le> 31" using power_increasing_iff [of "2::nat" a 31] by simp
    then have "2 ^ a * stride a = 2 ^ 32" by (simp add: stride_def flip: power_add)
    moreover have "2 ^ a * stride a \<le> length ds * stride a" using that a by simp
    ultimately show False using r(3) w a by fastforce
  qed
  then show ?thesis using r by auto
qed
lemma ht_placed_eval: "ht_placed hf t \<longleftrightarrow>
    list_all (\<lambda>(i, b). list_all (\<lambda>x. bucket_index hf t (fst x) = i) b) (enumerate 0 (ht_table t))"
  by (fastforce simp: ht_placed_def list_all_iff enumerate_eq_zip set_zip)

theorem dictScan_complete_witness:
  "\<exists>em w. scan_run [\<lparr>ht0 = \<lparr>ht_table = [[(2::nat, ''a''), (4, ''b'')], [(1, ''c'')]], ht_size = 2, ht_sizemask = 1, ht_used = 3\<rparr>,
       ht1 = dictReset, rehashidx = - 1, iterators = 0\<rparr>,
      \<lparr>ht0 = \<lparr>ht_table = [[], [(1, ''c'')]], ht_size = 2, ht_sizemask = 1, ht_used = 1\<rparr>,
       ht1 = \<lparr>ht_table = [[(4, ''b'')], [], [(2, ''a'')], []], ht_size = 4, ht_sizemask = 3, ht_used = 2\<rparr>,
       rehashidx = 1, iterators = 0\<rparr>] 0 = Some (em, w) \<and> w = 0 \<and> 1 \<in> fst ` set em"
proof -
  let ?hf = "\<lambda>k::nat. of_nat k :: 32 word"
  let ?a = "\<lparr>ht0 = \<lparr>ht_table = [[(2::nat, ''a''), (4, ''b'')], [(1, ''c'')]], ht_size = 2, ht_sizemask = 1, ht_used = 3\<rparr>,
       ht1 = dictReset, rehashidx = - 1, iterators = 0\<rparr>"
  let ?b = "\<lparr>ht0 = \<lparr>ht_table = [[], [(1::nat, ''c'')]], ht_size = 2, ht_sizemask = 1, ht_used = 1\<rparr>,
       ht1 = \<lparr>ht_table = [[(4::nat, ''b'')], [], [(2, ''a'')], []], ht_size = 4, ht_sizemask = 3, ht_used = 2\<rparr>,
       rehashidx = 1, iterators = 0\<rparr>"
  have sh: "ht_shape (ht0 ?a)" "ht_shape (ht0 ?b)" "ht_shape (ht1 ?b)"
    by (auto simp: ht_shape_def intro: exI [of _ 1] exI [of _ 2])
  have pl: "ht_placed ?hf (ht0 ?a)" "ht_placed ?hf (ht0 ?b)" "ht_placed ?hf (ht1 ?b)"
    by (simp_all add: ht_placed_eval bucket_index_def unat_of_nat)
  have "dict_ok ?hf ?a \<and> small_tables ?a \<and> dict_map ?a 1 \<noteq> None"
    using sh(1) pl(1) by (simp add: dict_ok_def ht_ok_def entries_def ht_entries_def dictIsRehashing_def small_tables_def dict_map_def)
  moreover have "dict_ok ?hf ?b \<and> small_tables ?b \<and> dict_map ?b 1 \<noteq> None"
    using sh(2,3) pl(2,3) by (simp add: dict_ok_def ht_ok_def entries_def ht_entries_def dictIsRehashing_def small_tables_def dict_map_def)
  moreover have "sorted (map scan_size [?a, ?b])" "scan_size (last [?a, ?b]) \<le> length [?a, ?b]"
    by (simp_all add: scan_size_def dictIsRehashing_def)
  ultimately show ?thesis using dictScan_complete [of "[?a, ?b]" ?hf 1] by auto
qed

definition shrink0 :: "(nat, nat) dict" where
  "shrink0 = \<lparr>ht0 = \<lparr>ht_table = [[], [], [], [], [(4, 0)], [], [], [], [], [], [], [], [], [], [], []],
       ht_size = 16, ht_sizemask = 15, ht_used = 1\<rparr>,
     ht1 = dictReset, rehashidx = - 1, iterators = 0\<rparr>"

lemma shrink0_resize: "dictResize True shrink0 =
   (shrink0\<lparr>ht1 := \<lparr>ht_table = [[], [], [], []], ht_size = 4, ht_sizemask = 3, ht_used = 0\<rparr>, rehashidx := 0\<rparr>, True)"
proof -
  have "replicate 4 [] = [[], [], [], []::(nat \<times> nat) list]" by (simp add: numeral_eq_Suc)
  moreover have "dictNextPowerLoop 4 4 = 4" by (simp add: dictNextPowerLoop.simps)
  ultimately show ?thesis
    by (simp add: dictResize_def shrink0_def dictExpand_def dictNextPower_def dictIsRehashing_def Let_def)
qed

lemma cursors: "next_cursor 15 0 = 8" "next_cursor 3 16 = 2" "next_cursor 3 18 = 1" "next_cursor 3 17 = 3" "next_cursor 3 19 = 0"
  by code_simp+

text \<open>C35. The guarantee fails when the table shrinks: from a well-formed dictionary with 16
  buckets whose only key has hash 4, the first call of an iteration returns cursor 8; then
  the table is resized to 4 buckets, and the four further calls that bring the cursor back
  to 0 emit nothing, although the key was there all along. The loop over the larger table
  starts at the bits the cursor already has, and so skips bucket 4.\<close>

theorem dictScan_shrink_misses:
  "let d = fst (dictResize True shrink0) in
     dict_ok of_nat shrink0 \<and> dict_ok of_nat d \<and> dict_map shrink0 4 = Some 0 \<and> dict_map d 4 = Some 0 \<and>
     scan_run [shrink0, d, d, d, d] 0 = Some ([], 0)"
proof -
  let ?t0 = "\<lparr>ht_table = [[], [], [], [], [(4::nat, 0::nat)], [], [], [], [], [], [], [], [], [], [], []],
       ht_size = 16, ht_sizemask = 15, ht_used = 1\<rparr>"
  let ?t1 = "\<lparr>ht_table = [[], [], [], []] :: (nat \<times> nat) list list, ht_size = 4, ht_sizemask = 3, ht_used = 0\<rparr>"
  have "ht_shape ?t0" "ht_shape ?t1" by (auto simp: ht_shape_def intro: exI [of _ 4] exI [of _ 2])
  moreover have "ht_placed of_nat ?t0" "ht_placed of_nat ?t1"
    by (simp_all add: ht_placed_eval bucket_index_def unat_of_nat)
  ultimately have t: "ht_ok of_nat ?t0" "ht_ok of_nat ?t1" by (simp_all add: ht_ok_def ht_entries_def)
  have "dict_ok of_nat shrink0 \<and> dict_map shrink0 4 = Some 0"
    using t(1) by (simp add: dict_ok_def shrink0_def dictIsRehashing_def entries_def dict_map_def)
      (simp add: ht_entries_def)
  moreover have "dict_ok of_nat (fst (dictResize True shrink0)) \<and> dict_map (fst (dictResize True shrink0)) 4 = Some 0"
    using t unfolding shrink0_resize
    by (simp add: dict_ok_def shrink0_def dictIsRehashing_def entries_def dict_map_def) (simp add: ht_entries_def)
  moreover have "(let d = fst (dictResize True shrink0) in scan_run [shrink0, d, d, d, d] 0) = Some ([], 0)"
    unfolding shrink0_resize
    by (simp add: shrink0_def dictScan_def dictSize_def dictIsRehashing_def Let_def sizemask_ulong_def bucket_def
        cursors scan_big.simps)
  ultimately show ?thesis by (simp add: Let_def)
qed

end
