(* ===== verification/Dict_Iter.thy ===== *)
theory Dict_Iter
  imports Dict
begin

text \<open>
  \<^verbatim>\<open>redis-2.8/src/dict.c\<close>: the hash functions, the iterators and the random key.
  An entry pointer of an iterator is the rest of its chain: \<open>entry\<close> is the entry last
  returned and \<open>nextEntry\<close> the chain that follows it, saved before the caller may delete it.
\<close>

section \<open>Hash functions\<close>

definition dictIntHashFunction :: "32 word \<Rightarrow> 32 word" where
  "dictIntHashFunction key =
     (let key = key + NOT (push_bit 15 key);
          key = key XOR drop_bit 10 key;
          key = key + push_bit 3 key;
          key = key XOR drop_bit 6 key;
          key = key + NOT (push_bit 11 key);
          key = key XOR drop_bit 16 key
      in key)"

definition gen_m :: "32 word" where "gen_m = 0x5bd1e995"

definition load32 :: "bytes \<Rightarrow> 32 word" where
  "load32 bs = word_of_int (le_uint (take 4 bs))"

fun dictGenHashLoop :: "32 word \<Rightarrow> bytes \<Rightarrow> 32 word \<times> bytes" where
  "dictGenHashLoop h (a # b # c # e # rest) =
     (let k = load32 [a, b, c, e] * gen_m; k = k XOR drop_bit 24 k; k = k * gen_m
      in dictGenHashLoop ((h * gen_m) XOR k) rest)"
| "dictGenHashLoop h bs = (h, bs)"

text \<open>The fall-through \<open>switch\<close> over the last bytes.\<close>

fun dictGenHashTail :: "32 word \<Rightarrow> bytes \<Rightarrow> 32 word" where
  "dictGenHashTail h [a, b, c] = (h XOR push_bit 16 (ucast c) XOR push_bit 8 (ucast b) XOR ucast a) * gen_m"
| "dictGenHashTail h [a, b] = (h XOR push_bit 8 (ucast b) XOR ucast a) * gen_m"
| "dictGenHashTail h [a] = (h XOR ucast a) * gen_m"
| "dictGenHashTail h _ = h"

definition dictGenHashFunction :: "32 word \<Rightarrow> bytes \<Rightarrow> 32 word" where
  "dictGenHashFunction seed key =
     (let (h, rest) = dictGenHashLoop (seed XOR of_nat (length key)) key;
          h = dictGenHashTail h rest;
          h = h XOR drop_bit 13 h;
          h = h * gen_m;
          h = h XOR drop_bit 15 h
      in h)"

definition tolower_byte :: "byte \<Rightarrow> byte" where
  "tolower_byte b = (if 0x41 \<le> b \<and> b \<le> 0x5A then b + 0x20 else b)"

fun dictGenCaseHashFunction :: "32 word \<Rightarrow> bytes \<Rightarrow> 32 word" where
  "dictGenCaseHashFunction hash [] = hash"
| "dictGenCaseHashFunction hash (b # bs) =
     dictGenCaseHashFunction ((push_bit 5 hash + hash) + ucast (tolower_byte b)) bs"

lemma tolower_idem: "tolower_byte (tolower_byte b) = tolower_byte b"
proof -
  have "b + 0x20 \<le> 0x5A \<longrightarrow> \<not> 0x41 \<le> b + 0x20" if "0x41 \<le> b" "b \<le> 0x5A"
    using that by unat_arith
  then show ?thesis by (auto simp: tolower_byte_def)
qed

lemma dictGenCaseHash_tolower:
  "dictGenCaseHashFunction h (map tolower_byte bs) = dictGenCaseHashFunction h bs"
  by (induction bs arbitrary: h) (auto simp: tolower_idem)

text \<open>The contract of the dictionary types with case insensitive keys: keys that their
  comparison identifies have the same hash.\<close>

lemma dictGenCaseHash_respects:
  "map tolower_byte x = map tolower_byte y \<Longrightarrow> dictGenCaseHashFunction h x = dictGenCaseHashFunction h y"
  by (metis dictGenCaseHash_tolower)

section \<open>Iterators\<close>

record ('k, 'v) dictIterator =
  it_table :: nat
  it_index :: int
  it_safe :: bool
  it_entry :: "('k \<times> 'v) option"
  it_next :: "('k \<times> 'v) list"

definition dictGetIterator :: "('k, 'v) dictIterator" where
  "dictGetIterator = \<lparr>it_table = 0, it_index = - 1, it_safe = False, it_entry = None, it_next = []\<rparr>"

definition dictGetSafeIterator :: "('k, 'v) dictIterator" where
  "dictGetSafeIterator = dictGetIterator\<lparr>it_safe := True\<rparr>"

text \<open>The part of the \<open>while(1)\<close> loop with \<open>entry == NULL\<close>: the index moves to the next non-empty
  bucket, from the first table to the second one during a rehash.\<close>

function dictNextBucket :: "('k, 'v) dict \<Rightarrow> ('k, 'v) dictIterator \<Rightarrow> ('k, 'v) dictIterator \<times> ('k \<times> 'v) option" where
  "dictNextBucket d it =
     (let i = it_index it + 1 in
      if i \<ge> int (ht_size (get_ht d (it_table it))) then
        if dictIsRehashing d \<and> it_table it = 0 then
          case ht_table (ht1 d) ! 0 of
            e # es \<Rightarrow> (it\<lparr>it_table := 1, it_index := 0, it_entry := Some e, it_next := es\<rparr>, Some e)
          | [] \<Rightarrow> dictNextBucket d (it\<lparr>it_table := 1, it_index := 0, it_entry := None\<rparr>)
        else (it\<lparr>it_index := i, it_entry := None\<rparr>, None)
      else
        case ht_table (get_ht d (it_table it)) ! nat i of
          e # es \<Rightarrow> (it\<lparr>it_index := i, it_entry := Some e, it_next := es\<rparr>, Some e)
        | [] \<Rightarrow> dictNextBucket d (it\<lparr>it_index := i, it_entry := None\<rparr>))"
  by pat_completeness auto
termination
  by (relation "measures [\<lambda>(d, it). if it_table it = 0 then 1 else 0,
        \<lambda>(d, it). nat (int (ht_size (get_ht d (it_table it))) - it_index it)]") auto

declare dictNextBucket.simps [simp del]

definition dictNext :: "('k, 'v) dict \<Rightarrow> ('k, 'v) dictIterator \<Rightarrow>
    ('k, 'v) dict \<times> ('k, 'v) dictIterator \<times> ('k \<times> 'v) option" where
  "dictNext d it =
     (let first = it_entry it = None \<and> it_index it = - 1 \<and> it_table it = 0;
          d = (if first \<and> it_safe it then d\<lparr>iterators := iterators d + 1\<rparr> else d)
      in case (it_entry it, it_next it) of
           (Some _, e # es) \<Rightarrow> (d, it\<lparr>it_entry := Some e, it_next := es\<rparr>, Some e)
         | _ \<Rightarrow> (d, dictNextBucket d (it\<lparr>it_entry := None\<rparr>)))"

definition dictReleaseIterator :: "('k, 'v) dict \<Rightarrow> ('k, 'v) dictIterator \<Rightarrow> ('k, 'v) dict" where
  "dictReleaseIterator d it =
     (if \<not> (it_index it = - 1 \<and> it_table it = 0) \<and> it_safe it
      then d\<lparr>iterators := iterators d - 1\<rparr> else d)"

fun iterate :: "nat \<Rightarrow> ('k, 'v) dict \<Rightarrow> ('k, 'v) dictIterator \<Rightarrow>
    ('k, 'v) dict \<times> ('k, 'v) dictIterator \<times> ('k \<times> 'v) list" where
  "iterate 0 d it = (d, it, [])"
| "iterate (Suc n) d it =
     (case dictNext d it of
        (d, it, None) \<Rightarrow> (d, it, [])
      | (d, it, Some e) \<Rightarrow> (case iterate n d it of (d, it, es) \<Rightarrow> (d, it, e # es)))"

text \<open>What an iterator has still to return.\<close>

definition to_come :: "('k, 'v) dict \<Rightarrow> ('k, 'v) dictIterator \<Rightarrow> ('k \<times> 'v) list" where
  "to_come d it = (if it_entry it = None then [] else it_next it) @
     concat (drop (nat (it_index it + 1)) (ht_table (get_ht d (it_table it)))) @
     (if it_table it = 0 then ht_entries (ht1 d) else [])"

definition it_ok :: "('k, 'v) dict \<Rightarrow> ('k, 'v) dictIterator \<Rightarrow> bool" where
  "it_ok d it \<longleftrightarrow> - 1 \<le> it_index it \<and> (it_table it = 0 \<or> it_table it = 1 \<and> dictIsRehashing d)"

lemma drop_concat_step:
  "i < length xs \<Longrightarrow> concat (drop i xs) = xs ! i @ concat (drop (Suc i) xs)"
  by (simp flip: Cons_nth_drop_Suc)

lemma dictNextBucket_ok:
  assumes "dict_ok hf d" "it_ok d it" "it_entry it = None"
  shows "it_ok d (fst (dictNextBucket d it)) \<and> it_index (fst (dictNextBucket d it)) \<noteq> - 1 \<and>
     it_safe (fst (dictNextBucket d it)) = it_safe it \<and>
     (case snd (dictNextBucket d it) of
        None \<Rightarrow> to_come d it = []
      | Some e \<Rightarrow> it_entry (fst (dictNextBucket d it)) = Some e \<and> to_come d it = e # to_come d (fst (dictNextBucket d it)))"
  using assms
proof (induction d it rule: dictNextBucket.induct)
  case (1 d it)
  let ?i = "it_index it + 1" and ?t = "get_ht d (it_table it)"
  have len: "length (ht_table ?t) = ht_size ?t"
    using 1(3,4) by (auto simp: dict_ok_def it_ok_def get_ht_def ht_ok_def ht_shape_def split: if_splits)
  have nn: "0 \<le> ?i" using 1(4) by (simp add: it_ok_def)
  show ?case
  proof (cases "?i \<ge> int (ht_size ?t)")
    case end1: True
    then have d0: "drop (nat ?i) (ht_table ?t) = []" using len by simp
    show ?thesis
    proof (cases "dictIsRehashing d \<and> it_table it = 0")
      case True
      have t1: "ht_ok hf (ht1 d)" using 1(3) True by (simp add: dict_ok_def)
      then obtain b bs where tb: "ht_table (ht1 d) = b # bs"
        using ht_shape_nonempty by (metis ht_ok_def list.exhaust)
      show ?thesis
      proof (cases b)
        case Nil
        let ?it = "it\<lparr>it_table := 1, it_index := 0, it_entry := None\<rparr>"
        have e: "dictNextBucket d it = dictNextBucket d ?it"
          using end1 True tb Nil by (subst dictNextBucket.simps) (simp add: Let_def)
        have "it_ok d ?it" using True by (simp add: it_ok_def)
        moreover have "to_come d it = to_come d ?it"
          using True d0 tb Nil 1(5) by (simp add: to_come_def get_ht_def ht_entries_def)
        ultimately show ?thesis using 1(1) [OF refl end1 True, of] tb Nil 1(3) e
          by (simp del: One_nat_def cong: option.case_cong)
      next
        case (Cons x xs)
        then show ?thesis using end1 True tb d0 1(5)
          by (subst (1 2 3 4 5 6) dictNextBucket.simps) (simp add: Let_def it_ok_def to_come_def get_ht_def ht_entries_def)
      qed
    next
      case False
      have "it_table it = 0 \<Longrightarrow> ht_entries (ht1 d) = []" using False 1(3) by (simp add: dict_ok_def)
      then show ?thesis using end1 False d0 nn 1(4,5)
        by (subst (1 2 3 4 5 6) dictNextBucket.simps) (auto simp: Let_def it_ok_def to_come_def)
    qed
  next
    case False
    then have lt: "nat ?i < length (ht_table ?t)" using len nn by simp
    have dr: "nat (?i + 1) = Suc (nat ?i)" using nn by simp
    show ?thesis
    proof (cases "ht_table ?t ! nat ?i")
      case Nil
      let ?it = "it\<lparr>it_index := ?i, it_entry := None\<rparr>"
      have e: "dictNextBucket d it = dictNextBucket d ?it"
        using False Nil by (subst dictNextBucket.simps) (simp add: Let_def)
      have "it_ok d ?it" using 1(4) nn by (simp add: it_ok_def)
      moreover have "to_come d it = to_come d ?it"
        using drop_concat_step [OF lt] Nil 1(5) dr by (simp add: to_come_def)
      ultimately show ?thesis using 1(2) [OF refl False Nil] 1(3) e
        by (simp cong: option.case_cong)
    next
      case (Cons x xs)
      then show ?thesis using False drop_concat_step [OF lt] 1(4,5) dr nn
        by (subst (1 2 3 4 5 6) dictNextBucket.simps) (simp add: Let_def it_ok_def to_come_def)
    qed
  qed
qed


lemma dict_ok_iterators [simp]: "dict_ok hf (d\<lparr>iterators := n\<rparr>) = dict_ok hf d"
  by (simp add: dict_ok_def entries_def dictIsRehashing_def)

lemma to_come_iterators [simp]: "to_come (d\<lparr>iterators := n\<rparr>) it = to_come d it" "it_ok (d\<lparr>iterators := n\<rparr>) it = it_ok d it"
  by (simp_all add: to_come_def it_ok_def get_ht_def dictIsRehashing_def)

definition it_started :: "('k, 'v) dictIterator \<Rightarrow> bool" where
  "it_started it \<longleftrightarrow> it_index it \<noteq> - 1"

lemma dictNext_started:
  assumes "dict_ok hf d" "it_ok d it" "it_started it"
  shows "\<exists>it' r. dictNext d it = (d, it', r) \<and> it_ok d it' \<and> it_started it' \<and> it_safe it' = it_safe it \<and>
    (case r of None \<Rightarrow> to_come d it = [] | Some e \<Rightarrow> to_come d it = e # to_come d it')"
proof (cases "it_entry it = None \<or> it_next it = []")
  case True
  let ?it = "it\<lparr>it_entry := None\<rparr>"
  have "dictNext d it = (d, dictNextBucket d ?it)"
    using True assms(3) by (auto simp: dictNext_def it_started_def Let_def split: option.splits list.splits)
  moreover have "it_ok d ?it" using assms(2) by (simp add: it_ok_def)
  moreover have "to_come d ?it = to_come d it" using True by (auto simp: to_come_def)
  ultimately show ?thesis using dictNextBucket_ok [OF assms(1), of ?it]
    by (cases "dictNextBucket d ?it"; cases "snd (dictNextBucket d ?it)") (auto simp: it_started_def)
next
  case False
  then obtain e0 e es where "it_entry it = Some e0" "it_next it = e # es" by (cases "it_next it") auto
  then show ?thesis using assms by (auto simp: dictNext_def Let_def it_ok_def it_started_def to_come_def)
qed

lemma iterate_started:
  assumes "dict_ok hf d" "it_ok d it" "it_started it" "length (to_come d it) < n"
  shows "\<exists>it'. iterate n d it = (d, it', to_come d it) \<and> it_started it' \<and> it_safe it' = it_safe it"
  using assms(2-)
proof (induction n arbitrary: it)
  case (Suc n)
  obtain it' r where st: "dictNext d it = (d, it', r)" "it_ok d it'" "it_started it'" "it_safe it' = it_safe it"
    "case r of None \<Rightarrow> to_come d it = [] | Some e \<Rightarrow> to_come d it = e # to_come d it'"
    using dictNext_started [OF assms(1) Suc.prems(1,2)] by blast
  show ?case
  proof (cases r)
    case None
    then show ?thesis using st by simp
  next
    case (Some e)
    then have "length (to_come d it') < n" using st(5) Suc.prems(3) by simp
    then show ?thesis using Suc.IH [OF st(2,3)] st Some by auto
  qed
qed simp

text \<open>C32. Iterating over a dictionary that is not modified, with a plain or a safe iterator,
  also in the middle of a rehash: \<open>dictNext\<close> returns every entry of both tables exactly once,
  in table order, and then \<open>NULL\<close>. While a safe iterator is open the count of iterators is
  raised, which suspends rehashing, and releasing it restores the dictionary.\<close>

theorem dictIterate_correct:
  assumes ok: "dict_ok hf d" and n: "length (entries d) < n"
    and it: "it \<in> {dictGetIterator, dictGetSafeIterator}"
  shows "\<exists>d' it'. iterate n d it = (d', it', entries d) \<and>
     iterators d' = (if it_safe it then iterators d + 1 else iterators d) \<and> dictReleaseIterator d' it' = d"
proof -
  define d1 where "d1 = (if it_safe it then d\<lparr>iterators := iterators d + 1\<rparr> else d)"
  have i0: "it_entry it = None" "it_index it = - 1" "it_table it = 0" "it_ok d1 it"
    using it by (auto simp: dictGetIterator_def dictGetSafeIterator_def it_ok_def)
  have ok1: "dict_ok hf d1" and tc: "to_come d1 it = entries d"
    using ok i0 by (auto simp: d1_def to_come_def entries_def get_ht_def ht_entries_def)
  note nb = dictNextBucket_ok [OF ok1 i0(4,1)]
  have same: "it\<lparr>it_entry := None\<rparr> = it" using i0(1) by (cases it) simp
  have nx: "dictNext d it = (d1, dictNextBucket d1 it)"
  proof -
    have "dictNext d it = (d1, dictNextBucket d1 (it\<lparr>it_entry := None\<rparr>))"
      using i0 by (simp add: dictNext_def d1_def Let_def)
    then show ?thesis unfolding same .
  qed
  obtain it1 r where b: "dictNextBucket d1 it = (it1, r)" by (cases "dictNextBucket d1 it")
  have b1: "it_ok d1 it1" "it_started it1" "it_safe it1 = it_safe it"
    using nb b by (auto simp: it_started_def)
  have rel: "dictReleaseIterator d1 it' = d" if "it_started it'" "it_safe it' = it_safe it" for it'
    using that by (auto simp: dictReleaseIterator_def d1_def it_started_def)
  obtain m where m: "n = Suc m" using n by (cases n) auto
  show ?thesis
  proof (cases r)
    case None
    then show ?thesis using nb b nx tc m b1 rel by (simp add: d1_def)
  next
    case (Some e)
    then have e: "entries d = e # to_come d1 it1" using nb b tc by simp
    then obtain it' where "iterate m d1 it1 = (d1, it', to_come d1 it1)" "it_started it'" "it_safe it' = it_safe it1"
      using iterate_started [OF ok1 b1(1,2)] n m by auto
    then show ?thesis using nx b Some m e b1(3) rel by (simp add: d1_def)
  qed
qed

lemma dictCreate_fields: "entries dictCreate = []" "iterators dictCreate = 0" "it_safe dictGetSafeIterator"
  by (simp_all add: entries_def dictCreate_def dictGetSafeIterator_def)

theorem dictIterate_correct_witness:
  "\<exists>d' it'. iterate 1 dictCreate dictGetSafeIterator = (d', it', [] :: (nat \<times> nat) list) \<and>
     iterators d' = 1 \<and> dictReleaseIterator d' it' = dictCreate"
  using dictIterate_correct [OF dictCreate_ok(1), of 1 dictGetSafeIterator]
  by (simp add: dictCreate_fields del: iterate.simps)

section \<open>A random entry\<close>

text \<open>\<open>rs\<close> is the sequence of values \<open>random()\<close> returns; \<open>None\<close> when it runs out before a
  non-empty bucket is drawn.\<close>

definition nth_bucket :: "('k, 'v) dict \<Rightarrow> nat \<Rightarrow> ('k \<times> 'v) list option" where
  "nth_bucket d r =
     (if dictIsRehashing d then
        let h = r mod (ht_size (ht0 d) + ht_size (ht1 d))
        in if h \<ge> ht_size (ht0 d) then bucket (ht1 d) (h - ht_size (ht0 d)) else bucket (ht0 d) h
      else bucket (ht0 d) (r AND ht_sizemask (ht0 d)))"

fun draw_bucket :: "('k, 'v) dict \<Rightarrow> nat list \<Rightarrow> (('k \<times> 'v) list \<times> nat list) option" where
  "draw_bucket d [] = None"
| "draw_bucket d (r # rs) = Option.bind (nth_bucket d r) (\<lambda>b. if b = [] then draw_bucket d rs else Some (b, rs))"

definition dictGetRandomKey :: "'k hash \<Rightarrow> nat list \<Rightarrow> ('k, 'v) dict \<Rightarrow>
    (('k, 'v) dict \<times> ('k \<times> 'v) option) option" where
  "dictGetRandomKey hf rs d =
     (if dictSize d = 0 then Some (d, None)
      else Option.bind (rehash_if_needed hf d) (\<lambda>d.
           Option.bind (draw_bucket d rs) (\<lambda>(b, rs).
           case rs of [] \<Rightarrow> None | r # _ \<Rightarrow> Some (d, Some (b ! (r mod length b))))))"

lemma nth_bucket_ok:
  assumes ok: "dict_ok hf d" and ne: "ht_size (ht0 d) \<noteq> 0"
  shows "\<exists>b. nth_bucket d r = Some b \<and> set b \<subseteq> set (entries d)"
proof -
  have t0: "ht_ok hf (ht0 d)" by (rule dict_ok_ht0 [OF ok ne])
  have b: "\<exists>b. bucket t i = Some b \<and> set b \<subseteq> set (ht_entries t)" if "ht_ok hf t" "i < ht_size t" for t i
    using that bucket_subset [of i t] by (simp add: bucket_def ht_ok_def ht_shape_def)
  have m: "r AND ht_sizemask (ht0 d) < ht_size (ht0 d)"
    using t0 by (auto simp: ht_ok_def ht_shape_def and_mask_mod [unfolded One_nat_def])
  show ?thesis
  proof (cases "dictIsRehashing d")
    case True
    have t1: "ht_ok hf (ht1 d)" using ok True by (simp add: dict_ok_def)
    have "r mod (ht_size (ht0 d) + ht_size (ht1 d)) < ht_size (ht0 d) + ht_size (ht1 d)" using ne by simp
    moreover define h where "h = r mod (ht_size (ht0 d) + ht_size (ht1 d))"
    ultimately have h: "h < ht_size (ht0 d) + ht_size (ht1 d)" by simp
    have e: "nth_bucket d r = (if h \<ge> ht_size (ht0 d) then bucket (ht1 d) (h - ht_size (ht0 d)) else bucket (ht0 d) h)"
      using True by (simp add: nth_bucket_def h_def Let_def)
    show ?thesis
    proof (cases "h \<ge> ht_size (ht0 d)")
      case True
      have "h - ht_size (ht0 d) < ht_size (ht1 d)" using True h by linarith
      then show ?thesis using b [OF t1, of "h - ht_size (ht0 d)"] True e by (simp add: entries_def) blast
    next
      case False
      then show ?thesis using b [OF t0, of h] e by (simp add: entries_def) blast
    qed
  next
    case False
    then show ?thesis using b [OF t0 m] by (auto simp: nth_bucket_def entries_def)
  qed
qed

lemma draw_bucket_member:
  "dict_ok hf d \<Longrightarrow> ht_size (ht0 d) \<noteq> 0 \<Longrightarrow> draw_bucket d rs = Some (b, rs') \<Longrightarrow> b \<noteq> [] \<and> set b \<subseteq> set (entries d)"
proof (induction rs)
  case (Cons r rs)
  then show ?case using nth_bucket_ok [OF Cons.prems(1,2), of r] by (auto split: if_splits)
qed simp

text \<open>An entry \<open>dictGetRandomKey\<close> returns is an entry of the dictionary.\<close>

lemma dictGetRandomKey_member:
  assumes ok: "dict_ok hf d" and r: "dictGetRandomKey hf rs d = Some (d', Some (k, v))"
  shows "dict_map d k = Some v \<and> dict_map d' = dict_map d"
proof -
  have ne: "dictSize d \<noteq> 0" using r by (auto simp: dictGetRandomKey_def split: if_splits)
  then have "ht_size (ht0 d) \<noteq> 0" by (rule dict_nonempty [OF ok])
  then obtain d1 where d1: "rehash_if_needed hf d = Some d1" "dict_ok hf d1" "dict_map d1 = dict_map d"
    "ht_size (ht0 d1) \<noteq> 0"
    using rehash_if_needed_ok [OF ok] by blast
  obtain b q rs' where b: "draw_bucket d1 rs = Some (b, q # rs')" "d' = d1" "(k, v) = b ! (q mod length b)"
  proof -
    have e: "Option.bind (draw_bucket d1 rs) (\<lambda>(b, rs).
        case rs of [] \<Rightarrow> None | r # _ \<Rightarrow> Some (d1, Some (b ! (r mod length b)))) = Some (d', Some (k, v))"
      using r ne d1(1) by (simp add: dictGetRandomKey_def)
    obtain b qs where "draw_bucket d1 rs = Some (b, qs)" using e by (cases "draw_bucket d1 rs") auto
    then show thesis using that e by (cases qs) auto
  qed
  have m: "b \<noteq> [] \<and> set b \<subseteq> set (entries d1)" by (rule draw_bucket_member [OF d1(2,4) b(1)])
  then have "(k, v) \<in> set (entries d1)" using b(3) by (metis length_greater_0_conv mod_less_divisor nth_mem subsetD)
  then show ?thesis using d1(2,3) b(2) dict_map_entry [of d1 k v] by (simp add: dict_ok_def)
qed

end
