(* ===== verification/Adlist.thy ===== *)
theory Adlist
  imports Main
begin

text \<open>
  \<^verbatim>\<open>redis-2.8/src/adlist.c\<close>: the doubly linked list. Nodes live in a store from addresses
  to nodes, pointers are optional addresses with \<open>None\<close> for \<open>NULL\<close>, and an operation
  returns \<open>None\<close> when it dereferences \<open>NULL\<close> or an address that is not allocated. The
  address of a new node is an argument, chosen by the allocator. \<open>dup\<close> and \<open>match\<close> are the
  callbacks of the list, \<open>None\<close> when not set; \<open>free\<close> releases memory only.
\<close>

type_synonym ptr = "nat option"

record 'a listNode =
  node_prev :: ptr
  node_next :: ptr
  node_value :: 'a

type_synonym 'a store = "nat \<rightharpoonup> 'a listNode"

record 'a adlist =
  l_head :: ptr
  l_tail :: ptr
  l_len :: nat
  l_dup :: "('a \<Rightarrow> 'a option) option"
  l_match :: "('a \<Rightarrow> 'a \<Rightarrow> bool) option"

datatype direction = AL_START_HEAD | AL_START_TAIL

record listIter =
  li_next :: ptr
  li_direction :: direction

section \<open>Operations\<close>

definition deref :: "'a store \<Rightarrow> ptr \<Rightarrow> 'a listNode option" where
  "deref h p = Option.bind p h"

definition set_next :: "'a store \<Rightarrow> ptr \<Rightarrow> ptr \<Rightarrow> 'a store option" where
  "set_next h p q = Option.bind p (\<lambda>a. map_option (\<lambda>n. h(a \<mapsto> n\<lparr>node_next := q\<rparr>)) (h a))"

definition set_prev :: "'a store \<Rightarrow> ptr \<Rightarrow> ptr \<Rightarrow> 'a store option" where
  "set_prev h p q = Option.bind p (\<lambda>a. map_option (\<lambda>n. h(a \<mapsto> n\<lparr>node_prev := q\<rparr>)) (h a))"

definition listCreate :: "'a adlist" where
  "listCreate = \<lparr>l_head = None, l_tail = None, l_len = 0, l_dup = None, l_match = None\<rparr>"

fun listReleaseLoop :: "nat \<Rightarrow> 'a store \<Rightarrow> ptr \<Rightarrow> 'a store option" where
  "listReleaseLoop 0 h current = Some h"
| "listReleaseLoop (Suc len) h current =
     Option.bind current (\<lambda>a. Option.bind (h a) (\<lambda>n. listReleaseLoop len (h(a := None)) (node_next n)))"

definition listRelease :: "'a store \<Rightarrow> 'a adlist \<Rightarrow> 'a store option" where
  "listRelease h l = listReleaseLoop (l_len l) h (l_head l)"

definition listAddNodeHead :: "'a store \<Rightarrow> 'a adlist \<Rightarrow> nat \<Rightarrow> 'a \<Rightarrow> ('a store \<times> 'a adlist) option" where
  "listAddNodeHead h l node v =
     (if l_len l = 0 then
        Some (h(node \<mapsto> \<lparr>node_prev = None, node_next = None, node_value = v\<rparr>),
              l\<lparr>l_head := Some node, l_tail := Some node, l_len := l_len l + 1\<rparr>)
      else
        map_option (\<lambda>h. (h, l\<lparr>l_head := Some node, l_len := l_len l + 1\<rparr>))
          (set_prev (h(node \<mapsto> \<lparr>node_prev = None, node_next = l_head l, node_value = v\<rparr>)) (l_head l) (Some node)))"

definition listAddNodeTail :: "'a store \<Rightarrow> 'a adlist \<Rightarrow> nat \<Rightarrow> 'a \<Rightarrow> ('a store \<times> 'a adlist) option" where
  "listAddNodeTail h l node v =
     (if l_len l = 0 then
        Some (h(node \<mapsto> \<lparr>node_prev = None, node_next = None, node_value = v\<rparr>),
              l\<lparr>l_head := Some node, l_tail := Some node, l_len := l_len l + 1\<rparr>)
      else
        map_option (\<lambda>h. (h, l\<lparr>l_tail := Some node, l_len := l_len l + 1\<rparr>))
          (set_next (h(node \<mapsto> \<lparr>node_prev = l_tail l, node_next = None, node_value = v\<rparr>)) (l_tail l) (Some node)))"

text \<open>\<open>if (p != NULL) p->next = q\<close>, and the same for \<open>prev\<close>.\<close>

definition set_next_if :: "'a store \<Rightarrow> ptr \<Rightarrow> ptr \<Rightarrow> 'a store option" where
  "set_next_if h p q = (if p = None then Some h else set_next h p q)"

definition set_prev_if :: "'a store \<Rightarrow> ptr \<Rightarrow> ptr \<Rightarrow> 'a store option" where
  "set_prev_if h p q = (if p = None then Some h else set_prev h p q)"

definition listInsertNode :: "'a store \<Rightarrow> 'a adlist \<Rightarrow> nat \<Rightarrow> nat \<Rightarrow> 'a \<Rightarrow> bool \<Rightarrow> ('a store \<times> 'a adlist) option" where
  "listInsertNode h l old node v after =
     Option.bind (h old) (\<lambda>o_node.
     let p = (if after then Some old else node_prev o_node);
         n = (if after then node_next o_node else Some old);
         l' = (if after \<and> l_tail l = Some old then l\<lparr>l_tail := Some node\<rparr>
               else if \<not> after \<and> l_head l = Some old then l\<lparr>l_head := Some node\<rparr> else l)
     in Option.bind (set_next_if (h(node \<mapsto> \<lparr>node_prev = p, node_next = n, node_value = v\<rparr>)) p (Some node)) (\<lambda>h1.
        map_option (\<lambda>h2. (h2, l'\<lparr>l_len := l_len l' + 1\<rparr>)) (set_prev_if h1 n (Some node))))"

definition listDelNode :: "'a store \<Rightarrow> 'a adlist \<Rightarrow> nat \<Rightarrow> ('a store \<times> 'a adlist) option" where
  "listDelNode h l a =
     Option.bind (h a) (\<lambda>node.
     let p = node_prev node; n = node_next node;
         l1 = (if p = None then l\<lparr>l_head := n\<rparr> else l);
         l2 = (if n = None then l1\<lparr>l_tail := p\<rparr> else l1)
     in Option.bind (set_next_if h p n) (\<lambda>h1.
        map_option (\<lambda>h2. (h2(a := None), l2\<lparr>l_len := l_len l2 - 1\<rparr>)) (set_prev_if h1 n p)))"

definition listGetIterator :: "'a adlist \<Rightarrow> direction \<Rightarrow> listIter" where
  "listGetIterator l dir =
     \<lparr>li_next = (if dir = AL_START_HEAD then l_head l else l_tail l), li_direction = dir\<rparr>"

definition listRewind :: "'a adlist \<Rightarrow> listIter" where
  "listRewind l = \<lparr>li_next = l_head l, li_direction = AL_START_HEAD\<rparr>"

definition listRewindTail :: "'a adlist \<Rightarrow> listIter" where
  "listRewindTail l = \<lparr>li_next = l_tail l, li_direction = AL_START_TAIL\<rparr>"

definition listNext :: "'a store \<Rightarrow> listIter \<Rightarrow> (listIter \<times> ptr) option" where
  "listNext h it =
     (case li_next it of
        None \<Rightarrow> Some (it, None)
      | Some a \<Rightarrow> map_option (\<lambda>n. (it\<lparr>li_next := (if li_direction it = AL_START_HEAD then node_next n else node_prev n)\<rparr>,
                                   Some a)) (h a))"

text \<open>The loops over an iterator take fuel: the number of calls of \<open>listNext\<close> they may make.\<close>

fun listDupLoop :: "nat \<Rightarrow> (nat \<Rightarrow> nat) \<Rightarrow> 'a store \<Rightarrow> listIter \<Rightarrow> 'a adlist \<Rightarrow> ('a store \<times> 'a adlist option) option" where
  "listDupLoop 0 fresh h it copy = None"
| "listDupLoop (Suc n) fresh h it copy =
     Option.bind (listNext h it) (\<lambda>(it, node).
     case node of
       None \<Rightarrow> Some (h, Some copy)
     | Some a \<Rightarrow> Option.bind (h a) (\<lambda>nd.
         case (case l_dup copy of None \<Rightarrow> Some (node_value nd) | Some f \<Rightarrow> f (node_value nd)) of
           None \<Rightarrow> map_option (\<lambda>h. (h, None)) (listRelease h copy)
         | Some v \<Rightarrow> Option.bind (listAddNodeTail h copy (fresh (l_len copy)) v) (\<lambda>(h, copy).
             listDupLoop n fresh h it copy)))"

definition listDup :: "nat \<Rightarrow> (nat \<Rightarrow> nat) \<Rightarrow> 'a store \<Rightarrow> 'a adlist \<Rightarrow> ('a store \<times> 'a adlist option) option" where
  "listDup fuel fresh h orig =
     listDupLoop fuel fresh h (listGetIterator orig AL_START_HEAD)
       (listCreate\<lparr>l_dup := l_dup orig, l_match := l_match orig\<rparr>)"

fun listSearchKeyLoop :: "nat \<Rightarrow> 'a store \<Rightarrow> ('a \<Rightarrow> 'a \<Rightarrow> bool) option \<Rightarrow> listIter \<Rightarrow> 'a \<Rightarrow> ptr option" where
  "listSearchKeyLoop 0 h mt it key = None"
| "listSearchKeyLoop (Suc n) h mt it key =
     Option.bind (listNext h it) (\<lambda>(it, node).
     case node of
       None \<Rightarrow> Some None
     | Some a \<Rightarrow> Option.bind (h a) (\<lambda>nd.
         if (case mt of Some m \<Rightarrow> m (node_value nd) key | None \<Rightarrow> key = node_value nd) then Some (Some a)
         else listSearchKeyLoop n h mt it key))"

definition listSearchKey :: "nat \<Rightarrow> 'a store \<Rightarrow> 'a adlist \<Rightarrow> 'a \<Rightarrow> ptr option" where
  "listSearchKey fuel h l key = listSearchKeyLoop fuel h (l_match l) (listGetIterator l AL_START_HEAD) key"

fun walk :: "('a listNode \<Rightarrow> ptr) \<Rightarrow> 'a store \<Rightarrow> nat \<Rightarrow> ptr \<Rightarrow> ptr option" where
  "walk step h 0 p = Some p"
| "walk step h (Suc i) p = (case p of None \<Rightarrow> Some None | Some a \<Rightarrow> Option.bind (h a) (\<lambda>n. walk step h i (step n)))"

definition listIndex :: "'a store \<Rightarrow> 'a adlist \<Rightarrow> int \<Rightarrow> ptr option" where
  "listIndex h l index =
     (if index < 0 then walk node_prev h (nat (- index - 1)) (l_tail l)
      else walk node_next h (nat index) (l_head l))"

definition listRotate :: "'a store \<Rightarrow> 'a adlist \<Rightarrow> ('a store \<times> 'a adlist) option" where
  "listRotate h l =
     (if l_len l \<le> 1 then Some (h, l)
      else
        Option.bind (deref h (l_tail l)) (\<lambda>tl_node.
        let tail = l_tail l; l1 = l\<lparr>l_tail := node_prev tl_node\<rparr> in
        Option.bind (set_next h (l_tail l1) None) (\<lambda>h.
        Option.bind (set_prev h (l_head l1) tail) (\<lambda>h.
        Option.bind (set_prev h tail None) (\<lambda>h.
        map_option (\<lambda>h. (h, l1\<lparr>l_head := tail\<rparr>)) (set_next h tail (l_head l1)))))))"

section \<open>The abstraction to sequences\<close>

text \<open>\<open>dll h p xs n\<close>: from the store \<open>h\<close>, the nodes \<open>xs\<close>, given with address and value, are
  linked in both directions, between a predecessor \<open>p\<close> and a successor \<open>n\<close>.\<close>

definition first_ptr :: "(nat \<times> 'a) list \<Rightarrow> ptr \<Rightarrow> ptr" where
  "first_ptr xs n = (case xs of [] \<Rightarrow> n | x # _ \<Rightarrow> Some (fst x))"

definition last_ptr :: "ptr \<Rightarrow> (nat \<times> 'a) list \<Rightarrow> ptr" where
  "last_ptr p xs = (if xs = [] then p else Some (fst (last xs)))"

fun dll :: "'a store \<Rightarrow> ptr \<Rightarrow> (nat \<times> 'a) list \<Rightarrow> ptr \<Rightarrow> bool" where
  "dll h p [] n = True"
| "dll h p ((a, v) # xs) n =
     (h a = Some \<lparr>node_prev = p, node_next = first_ptr xs n, node_value = v\<rparr> \<and> dll h (Some a) xs n)"

definition list_rep :: "'a store \<Rightarrow> 'a adlist \<Rightarrow> (nat \<times> 'a) list \<Rightarrow> bool" where
  "list_rep h l xs \<longleftrightarrow> dll h None xs None \<and> distinct (map fst xs) \<and>
     l_head l = first_ptr xs None \<and> l_tail l = last_ptr None xs \<and> l_len l = length xs"

text \<open>The store outside the given addresses is unchanged.\<close>

definition frame :: "nat set \<Rightarrow> 'a store \<Rightarrow> 'a store \<Rightarrow> bool" where
  "frame A h h' \<longleftrightarrow> (\<forall>q. q \<notin> A \<longrightarrow> h' q = h q)"

lemma first_ptr_simps [simp]: "first_ptr [] n = n" "first_ptr (x # xs) n = Some (fst x)"
  by (simp_all add: first_ptr_def)

lemma first_ptr_append [simp]: "first_ptr (xs @ ys) n = first_ptr xs (first_ptr ys n)"
  by (cases xs) auto

lemma last_ptr_simps [simp]: "last_ptr p [] = p" "last_ptr p (x # xs) = last_ptr (Some (fst x)) xs"
  by (simp_all add: last_ptr_def)

lemma last_ptr_append [simp]: "last_ptr p (xs @ ys) = last_ptr (last_ptr p xs) ys"
  by (induction xs arbitrary: p) auto

lemma dll_append [simp]:
  "dll h p (xs @ ys) n \<longleftrightarrow> dll h p xs (first_ptr ys n) \<and> dll h (last_ptr p xs) ys n"
  by (induction h p xs n rule: dll.induct) auto

lemma dll_other: "a \<notin> fst ` set xs \<Longrightarrow> dll (h(a := z)) p xs n = dll h p xs n"
  by (induction h p xs n rule: dll.induct) auto

lemma dll_cong: "(\<And>a. a \<in> fst ` set xs \<Longrightarrow> h' a = h a) \<Longrightarrow> dll h' p xs n = dll h p xs n"
  by (induction h p xs n rule: dll.induct) auto

lemma first_ptr_None: "first_ptr xs None = None \<longleftrightarrow> xs = []"
  by (cases xs) auto

lemma last_ptr_None: "last_ptr None xs = None \<longleftrightarrow> xs = []"
  by (cases xs rule: rev_cases) auto

text \<open>Writing the link of the node next to a segment.\<close>

lemma set_next_last:
  assumes "dll h p xs n" "distinct (map fst xs)"
  shows "\<exists>h'. set_next_if h (last_ptr None xs) q = Some h' \<and> dll h' p xs q \<and> frame (fst ` set xs) h h'"
proof (cases xs rule: rev_cases)
  case Nil
  then show ?thesis by (simp add: set_next_if_def frame_def)
next
  case (snoc ys x)
  obtain a v where x: "x = (a, v)" by (cases x)
  have "a \<notin> fst ` set ys" using assms(2) snoc x by auto
  then show ?thesis using assms(1) snoc x
    by (auto simp: set_next_if_def set_next_def dll_other frame_def)
qed

lemma set_prev_first:
  assumes "dll h p xs n" "distinct (map fst xs)"
  shows "\<exists>h'. set_prev_if h (first_ptr xs None) q = Some h' \<and> dll h' q xs n \<and> frame (fst ` set xs) h h'"
proof (cases xs)
  case Nil
  then show ?thesis by (simp add: set_prev_if_def frame_def)
next
  case (Cons x ys)
  obtain a v where x: "x = (a, v)" by (cases x)
  have "a \<notin> fst ` set ys" using assms(2) Cons x by auto
  then show ?thesis using assms(1) Cons x
    by (auto simp: set_prev_if_def set_prev_def dll_other frame_def)
qed

lemma frame_cong: "frame A h h' \<Longrightarrow> A \<inter> fst ` set xs = {} \<Longrightarrow> dll h' p xs n = dll h p xs n"
  by (rule dll_cong) (auto simp: frame_def)

text \<open>Linking a node between two segments, and taking one out.\<close>

lemma link_between:
  assumes dx: "dll h None xs q" and dy: "dll h q' ys None" and dist: "distinct (map fst (xs @ ys))"
    and new: "node \<notin> fst ` set (xs @ ys)"
  shows "\<exists>h1 h2. set_next_if (h(node \<mapsto> \<lparr>node_prev = last_ptr None xs, node_next = first_ptr ys None, node_value = v\<rparr>))
        (last_ptr None xs) (Some node) = Some h1 \<and>
      set_prev_if h1 (first_ptr ys None) (Some node) = Some h2 \<and>
      dll h2 None (xs @ (node, v) # ys) None \<and> frame (insert node (fst ` set (xs @ ys))) h h2"
proof -
  let ?h = "h(node \<mapsto> \<lparr>node_prev = last_ptr None xs, node_next = first_ptr ys None, node_value = v\<rparr>)"
  have d: "distinct (map fst xs)" "distinct (map fst ys)" "fst ` set xs \<inter> fst ` set ys = {}"
    using dist by auto
  have n: "node \<notin> fst ` set xs" "node \<notin> fst ` set ys" using new by auto
  have "dll ?h None xs q" "dll ?h q' ys None" using dx dy n by (simp_all add: dll_other)
  then obtain h1 where h1: "set_next_if ?h (last_ptr None xs) (Some node) = Some h1" "dll h1 None xs (Some node)"
    "frame (fst ` set xs) ?h h1"
    using set_next_last [of ?h None xs q] d(1) by blast
  have "dll h1 q' ys None"
    using h1(3) d(3) \<open>dll ?h q' ys None\<close> by (simp add: frame_cong [of "fst ` set xs" ?h h1])
  then obtain h2 where h2: "set_prev_if h1 (first_ptr ys None) (Some node) = Some h2" "dll h2 (Some node) ys None"
    "frame (fst ` set ys) h1 h2"
    using set_prev_first [of h1 q' ys None] d(2) by blast
  have "dll h2 None xs (Some node)"
    using h2(3) h1(2) d(3) by (simp add: frame_cong [of "fst ` set ys" h1 h2] Int_commute)
  moreover have "h2 node = ?h node" using h1(3) h2(3) n by (simp add: frame_def)
  moreover have "frame (insert node (fst ` set (xs @ ys))) h h2"
    using h1(3) h2(3) by (auto simp: frame_def image_Un)
  ultimately show ?thesis using h1(1) h2 by auto
qed

lemma unlink_between:
  assumes d: "dll h None (xs @ (a, v) # ys) None" and dist: "distinct (map fst (xs @ (a, v) # ys))"
  shows "\<exists>h1 h2. set_next_if h (last_ptr None xs) (first_ptr ys None) = Some h1 \<and>
      set_prev_if h1 (first_ptr ys None) (last_ptr None xs) = Some h2 \<and>
      dll (h2(a := None)) None (xs @ ys) None \<and> frame (fst ` set (xs @ ys)) h h2 \<and> h2 a = h a"
proof -
  have ds: "distinct (map fst xs)" "distinct (map fst ys)" "fst ` set xs \<inter> fst ` set ys = {}"
    "a \<notin> fst ` set xs" "a \<notin> fst ` set ys"
    using dist by auto
  have dx: "dll h None xs (Some a)" and dy: "dll h (Some a) ys None" using d by auto
  obtain h1 where h1: "set_next_if h (last_ptr None xs) (first_ptr ys None) = Some h1"
    "dll h1 None xs (first_ptr ys None)" "frame (fst ` set xs) h h1"
    using set_next_last [OF dx ds(1)] by blast
  have "dll h1 (Some a) ys None" using dy h1(3) ds(3) by (simp add: frame_cong [of "fst ` set xs" h h1])
  then obtain h2 where h2: "set_prev_if h1 (first_ptr ys None) (last_ptr None xs) = Some h2"
    "dll h2 (last_ptr None xs) ys None" "frame (fst ` set ys) h1 h2"
    using set_prev_first [OF _ ds(2)] by blast
  have "dll h2 None xs (first_ptr ys None)"
    using h2(3) h1(2) ds(3) by (simp add: frame_cong [of "fst ` set ys" h1 h2] Int_commute)
  moreover have "h2 a = h a" using h1(3) h2(3) ds(4,5) by (simp add: frame_def)
  moreover have "frame (fst ` set (xs @ ys)) h h2" using h1(3) h2(3) by (auto simp: frame_def image_Un)
  ultimately show ?thesis using h1(1) h2 ds by (auto simp: dll_other)
qed


section \<open>Each operation on the represented sequence\<close>

lemma dll_dom: "dll h p xs n \<Longrightarrow> fst ` set xs \<subseteq> dom h"
  by (induction h p xs n rule: dll.induct) auto

lemma listAddNodeHead_spec:
  assumes r: "list_rep h l xs" and new: "node \<notin> fst ` set xs"
  shows "\<exists>h' l'. listAddNodeHead h l node v = Some (h', l') \<and> list_rep h' l' ((node, v) # xs) \<and>
    frame (insert node (fst ` set xs)) h h' \<and> l_dup l' = l_dup l \<and> l_match l' = l_match l"
proof (cases "xs = []")
  case True
  then show ?thesis using r by (simp add: listAddNodeHead_def list_rep_def frame_def)
next
  case False
  have d: "dll h None xs None" "distinct (map fst xs)" using r by (simp_all add: list_rep_def)
  obtain h1 h2 where h2: "set_next_if (h(node \<mapsto> \<lparr>node_prev = None, node_next = first_ptr xs None, node_value = v\<rparr>)) None (Some node) = Some h1"
     "set_prev_if h1 (first_ptr xs None) (Some node) = Some h2" "dll h2 None ((node, v) # xs) None"
     "frame (insert node (fst ` set xs)) h h2"
    using link_between [of h "[]" None None xs node v] d new by auto
  have "set_prev (h(node \<mapsto> \<lparr>node_prev = None, node_next = l_head l, node_value = v\<rparr>)) (l_head l) (Some node) = Some h2"
    using h2(1,2) r False by (auto simp: set_next_if_def set_prev_if_def list_rep_def first_ptr_None)
  then show ?thesis using h2(3,4) r False new
    by (auto simp: listAddNodeHead_def list_rep_def last_ptr_def)
qed

lemma listAddNodeTail_spec:
  assumes r: "list_rep h l xs" and new: "node \<notin> fst ` set xs"
  shows "\<exists>h' l'. listAddNodeTail h l node v = Some (h', l') \<and> list_rep h' l' (xs @ [(node, v)]) \<and>
    frame (insert node (fst ` set xs)) h h' \<and> l_dup l' = l_dup l \<and> l_match l' = l_match l"
proof (cases "xs = []")
  case True
  then show ?thesis using r by (simp add: listAddNodeTail_def list_rep_def frame_def)
next
  case False
  have d: "dll h None xs None" "distinct (map fst xs)" using r by (simp_all add: list_rep_def)
  obtain h1 h2 where h2: "set_next_if (h(node \<mapsto> \<lparr>node_prev = last_ptr None xs, node_next = None, node_value = v\<rparr>)) (last_ptr None xs) (Some node) = Some h1"
     "set_prev_if h1 None (Some node) = Some h2" "dll h2 None (xs @ [(node, v)]) None"
     "frame (insert node (fst ` set xs)) h h2"
    using link_between [of h xs None None "[]" node v] d new by auto
  have "set_next (h(node \<mapsto> \<lparr>node_prev = l_tail l, node_next = None, node_value = v\<rparr>)) (l_tail l) (Some node) = Some h2"
    using h2(1,2) r False by (auto simp: set_next_if_def set_prev_if_def list_rep_def last_ptr_None)
  then show ?thesis using h2(3,4) r False new
    by (auto simp: listAddNodeTail_def list_rep_def first_ptr_def split: list.splits)
qed

lemma listInsertNode_spec:
  assumes r: "list_rep h l (xs @ (a, w) # ys)" and new: "node \<notin> fst ` set (xs @ (a, w) # ys)"
  shows "\<exists>h' l'. listInsertNode h l a node v after = Some (h', l') \<and>
    list_rep h' l' (if after then xs @ (a, w) # (node, v) # ys else xs @ (node, v) # (a, w) # ys) \<and>
    frame (insert node (fst ` set (xs @ (a, w) # ys))) h h'"
proof (cases after)
  case True
  have d: "dll h None (xs @ [(a, w)]) (first_ptr ys None)" "dll h (Some a) ys None" "distinct (map fst ((xs @ [(a, w)]) @ ys))"
    using r by (auto simp: list_rep_def)
  have ha: "h a = Some \<lparr>node_prev = last_ptr None xs, node_next = first_ptr ys None, node_value = w\<rparr>" using d(1) by simp
  obtain h1 h2 where h2: "set_next_if (h(node \<mapsto> \<lparr>node_prev = Some a, node_next = first_ptr ys None, node_value = v\<rparr>)) (Some a) (Some node) = Some h1"
     "set_prev_if h1 (first_ptr ys None) (Some node) = Some h2" "dll h2 None ((xs @ [(a, w)]) @ (node, v) # ys) None"
     "frame (insert node (fst ` set ((xs @ [(a, w)]) @ ys))) h h2"
    using link_between [OF d(1,2,3), of node v] new by auto
  have tl: "(l_tail l = Some a) = (ys = [])"
    using r by (cases ys rule: rev_cases) (auto simp: list_rep_def last_ptr_def)
  show ?thesis using h2 ha True tl r new
    by (auto simp: listInsertNode_def Let_def list_rep_def frame_def last_ptr_def)
next
  case False
  have d: "dll h None xs (Some a)" "dll h (last_ptr None xs) ((a, w) # ys) None" "distinct (map fst (xs @ (a, w) # ys))"
    using r by (auto simp: list_rep_def)
  have ha: "h a = Some \<lparr>node_prev = last_ptr None xs, node_next = first_ptr ys None, node_value = w\<rparr>" using d(2) by simp
  obtain h1 h2 where h2: "set_next_if (h(node \<mapsto> \<lparr>node_prev = last_ptr None xs, node_next = Some a, node_value = v\<rparr>)) (last_ptr None xs) (Some node) = Some h1"
     "set_prev_if h1 (Some a) (Some node) = Some h2" "dll h2 None (xs @ (node, v) # (a, w) # ys) None"
     "frame (insert node (fst ` set (xs @ (a, w) # ys))) h h2"
    using link_between [OF d(1,2,3), of node v] new by auto
  have hd: "(l_head l = Some a) = (xs = [])"
    using r by (cases xs) (auto simp: list_rep_def)
  show ?thesis
  proof (cases "xs = []")
    case True
    then show ?thesis using h2 ha False hd r new
      by (auto simp: listInsertNode_def Let_def list_rep_def)
  next
    case ne: False
    then obtain x xs' where "xs = x # xs'" by (cases xs) auto
    then show ?thesis using h2 ha False hd r new ne
      by (auto simp: listInsertNode_def Let_def list_rep_def)
  qed
qed

lemma listDelNode_spec:
  assumes r: "list_rep h l (xs @ (a, w) # ys)"
  shows "\<exists>h' l'. listDelNode h l a = Some (h', l') \<and> list_rep h' l' (xs @ ys) \<and> h' a = None \<and>
    frame (fst ` set (xs @ (a, w) # ys)) h h'"
proof -
  have d: "dll h None (xs @ (a, w) # ys) None" "distinct (map fst (xs @ (a, w) # ys))"
    using r by (auto simp: list_rep_def)
  have ha: "h a = Some \<lparr>node_prev = last_ptr None xs, node_next = first_ptr ys None, node_value = w\<rparr>" using d(1) by simp
  obtain h1 h2 where h2: "set_next_if h (last_ptr None xs) (first_ptr ys None) = Some h1"
      "set_prev_if h1 (first_ptr ys None) (last_ptr None xs) = Some h2"
      "dll (h2(a := None)) None (xs @ ys) None" "frame (fst ` set (xs @ ys)) h h2"
    using unlink_between [OF d] by blast
  define l2 where "l2 = (let l1 = (if xs = [] then l\<lparr>l_head := first_ptr ys None\<rparr> else l)
     in if ys = [] then l1\<lparr>l_tail := last_ptr None xs\<rparr> else l1)"
  have run: "listDelNode h l a = Some (h2(a := None), l2\<lparr>l_len := l_len l2 - 1\<rparr>)"
    using ha h2(1,2) by (simp add: listDelNode_def Let_def l2_def first_ptr_None last_ptr_None)
  have "l_head l2 = first_ptr (xs @ ys) None" "l_len l2 = length xs + length ys + 1"
    using r by (cases xs; simp add: l2_def list_rep_def Let_def)+
  moreover have "l_tail l2 = last_ptr None (xs @ ys)"
    using r by (cases ys rule: rev_cases) (simp_all add: l2_def list_rep_def Let_def)
  ultimately have "list_rep (h2(a := None)) (l2\<lparr>l_len := l_len l2 - 1\<rparr>) (xs @ ys)"
    using h2(3) d(2) by (simp add: list_rep_def)
  then show ?thesis using run h2(4) by (auto simp: frame_def image_Un)
qed

lemma walk_next: "dll h p xs None \<Longrightarrow>
    walk node_next h i (first_ptr xs None) = Some (if i < length xs then Some (fst (xs ! i)) else None)"
proof (induction xs arbitrary: i p)
  case Nil
  then show ?case by (cases i) auto
next
  case (Cons x xs)
  obtain a v where "x = (a, v)" by (cases x)
  then show ?case using Cons by (cases i) auto
qed

lemma walk_prev: "dll h None xs n \<Longrightarrow>
    walk node_prev h i (last_ptr None xs) = Some (if i < length xs then Some (fst (xs ! (length xs - 1 - i))) else None)"
proof (induction xs arbitrary: i n rule: rev_induct)
  case Nil
  then show ?case by (cases i) auto
next
  case (snoc x xs)
  obtain a v where "x = (a, v)" by (cases x)
  then show ?case using snoc by (cases i) (auto simp: nth_append)
qed

definition norm_index :: "nat \<Rightarrow> int \<Rightarrow> nat option" where
  "norm_index n i = (if 0 \<le> i \<and> i < int n then Some (nat i)
     else if i < 0 \<and> - int n \<le> i then Some (nat (int n + i)) else None)"

lemma listIndex_spec:
  assumes "list_rep h l xs"
  shows "listIndex h l i = Some (map_option (\<lambda>j. fst (xs ! j)) (norm_index (length xs) i))"
proof (cases "i < 0")
  case True
  have "length xs - 1 - nat (- i - 1) = nat (int (length xs) + i)" if "nat (- i - 1) < length xs"
    using that True by linarith
  then show ?thesis using True walk_prev [of h xs None "nat (- i - 1)"] assms
    by (auto simp: listIndex_def list_rep_def norm_index_def)
next
  case False
  then show ?thesis using walk_next [of h None xs "nat i"] assms
    by (auto simp: listIndex_def list_rep_def norm_index_def)
qed

lemma set_next_if_Some [simp]: "set_next_if h (Some a) q = set_next h (Some a) q"
  "set_prev_if h (Some a) q = set_prev h (Some a) q"
  by (simp_all add: set_next_if_def set_prev_if_def)

lemma listRotate_spec:
  assumes r: "list_rep h l xs"
  shows "\<exists>h' l'. listRotate h l = Some (h', l') \<and>
    list_rep h' l' (if length xs \<le> 1 then xs else last xs # butlast xs) \<and> frame (fst ` set xs) h h'"
proof (cases "length xs \<le> 1")
  case True
  then show ?thesis using r by (simp add: listRotate_def list_rep_def frame_def)
next
  case False
  then obtain ys a v where xs: "xs = ys @ [(a, v)]" and ne: "ys \<noteq> []"
    by (cases xs rule: rev_cases) auto
  have d: "dll h None ys (Some a)" "distinct (map fst ys)" "a \<notin> fst ` set ys"
    and ha: "h a = Some \<lparr>node_prev = last_ptr None ys, node_next = None, node_value = v\<rparr>"
    and l: "l_head l = first_ptr ys None" "l_tail l = Some a" "l_len l = length ys + 1"
    using r ne by (auto simp: list_rep_def xs first_ptr_def split: list.splits)
  obtain t where t: "last_ptr None ys = Some t" using ne by (cases "last_ptr None ys") (auto simp: last_ptr_None)
  obtain f where f: "first_ptr ys None = Some f" using ne by (cases "first_ptr ys None") (auto simp: first_ptr_None)
  obtain h1 where h1: "set_next h (Some t) None = Some h1" "dll h1 None ys None" "frame (fst ` set ys) h h1"
    using set_next_last [OF d(1,2), of None] t by auto
  obtain h2 where h2: "set_prev h1 (Some f) (Some a) = Some h2" "dll h2 (Some a) ys None" "frame (fst ` set ys) h1 h2"
    using set_prev_first [OF h1(2) d(2), of "Some a"] f by auto
  have ha2: "h2 a = Some \<lparr>node_prev = Some t, node_next = None, node_value = v\<rparr>"
    using ha h1(3) h2(3) d(3) t by (simp add: frame_def)
  let ?h = "h2(a \<mapsto> \<lparr>node_prev = None, node_next = Some f, node_value = v\<rparr>)"
  have run: "listRotate h l = Some (?h, l\<lparr>l_tail := Some t, l_head := Some a\<rparr>)"
  proof -
    have "set_prev h2 (Some a) None = Some (h2(a \<mapsto> \<lparr>node_prev = None, node_next = None, node_value = v\<rparr>))"
      "set_next (h2(a \<mapsto> \<lparr>node_prev = None, node_next = None, node_value = v\<rparr>)) (Some a) (Some f) = Some ?h"
      using ha2 by (simp_all add: set_prev_def set_next_def)
    then show ?thesis using l ha t f h1(1) h2(1) ne by (simp add: listRotate_def deref_def Let_def)
  qed
  have "frame (fst ` set xs) h ?h" using h1(3) h2(3) by (auto simp: frame_def xs image_Un)
  moreover have "last_ptr (Some a) ys = Some t" using t ne by (simp add: last_ptr_def)
  ultimately show ?thesis using run h2(2) d f t l False
    by (auto simp: xs list_rep_def dll_other)
qed

lemma listReleaseLoop_spec:
  "dll h p xs n \<Longrightarrow> distinct (map fst xs) \<Longrightarrow>
   listReleaseLoop (length xs) h (first_ptr xs n) = Some (\<lambda>q. if q \<in> fst ` set xs then None else h q)"
proof (induction xs arbitrary: h p)
  case (Cons x xs)
  obtain a v where x: "x = (a, v)" by (cases x)
  have "dll (h(a := None)) (Some a) xs n" using Cons.prems x by (simp add: dll_other)
  then have "listReleaseLoop (length xs) (h(a := None)) (first_ptr xs n) =
      Some (\<lambda>q. if q \<in> fst ` set xs then None else (h(a := None)) q)"
    using Cons.IH Cons.prems(2) by simp
  moreover have "(\<lambda>q. if q \<in> fst ` set xs then None else (h(a := None)) q) =
      (\<lambda>q. if q \<in> fst ` set (x # xs) then None else h q)" using x by auto
  ultimately show ?case using Cons.prems x by simp
qed simp

lemma listRelease_spec:
  "list_rep h l xs \<Longrightarrow> listRelease h l = Some (\<lambda>q. if q \<in> fst ` set xs then None else h q)"
  using listReleaseLoop_spec [of h None xs None] by (simp add: listRelease_def list_rep_def)

definition matches :: "('a \<Rightarrow> 'a \<Rightarrow> bool) option \<Rightarrow> 'a \<Rightarrow> 'a \<Rightarrow> bool" where
  "matches mt key v = (case mt of Some m \<Rightarrow> m v key | None \<Rightarrow> key = v)"

lemma listSearchKeyLoop_spec:
  "dll h p xs None \<Longrightarrow> length xs < n \<Longrightarrow>
   listSearchKeyLoop n h mt \<lparr>li_next = first_ptr xs None, li_direction = AL_START_HEAD\<rparr> key =
     Some (map_option fst (List.find (\<lambda>x. matches mt key (snd x)) xs))"
proof (induction xs arbitrary: n p)
  case Nil
  then show ?case by (cases n) (auto simp: listNext_def)
next
  case (Cons x xs)
  obtain a v where x: "x = (a, v)" by (cases x)
  obtain m where m: "n = Suc m" using Cons.prems by (cases n) auto
  show ?case using Cons x m by (auto simp: listNext_def matches_def split: option.splits)
qed

lemma listSearchKey_spec:
  assumes "list_rep h l xs" "length xs < fuel"
  shows "listSearchKey fuel h l key = Some (map_option fst (List.find (\<lambda>x. matches (l_match l) key (snd x)) xs))"
  using listSearchKeyLoop_spec [of h None xs fuel "l_match l" key] assms
  by (simp add: listSearchKey_def listGetIterator_def list_rep_def)

definition dup_value :: "('a \<Rightarrow> 'a option) option \<Rightarrow> 'a \<Rightarrow> 'a option" where
  "dup_value f v = (case f of None \<Rightarrow> Some v | Some g \<Rightarrow> g v)"

lemma dup_value_fold: "(case f of None \<Rightarrow> Some v | Some g \<Rightarrow> g v) = dup_value f v"
  by (simp add: dup_value_def)

lemma listDupLoop_spec:
  assumes inj: "inj fresh" and free: "\<And>i. h0 (fresh i) = None"
  shows "dll h0 p ys None \<Longrightarrow> length ys < n \<Longrightarrow> list_rep h copy cs \<Longrightarrow> map fst cs = map fresh [0..<length cs] \<Longrightarrow>
    frame (fst ` set cs) h0 h \<Longrightarrow>
    (case those (map (\<lambda>x. dup_value (l_dup copy) (snd x)) ys) of
       None \<Rightarrow> listDupLoop n fresh h \<lparr>li_next = first_ptr ys None, li_direction = AL_START_HEAD\<rparr> copy = Some (h0, None)
     | Some ws \<Rightarrow> \<exists>h' copy' cs'. listDupLoop n fresh h \<lparr>li_next = first_ptr ys None, li_direction = AL_START_HEAD\<rparr> copy = Some (h', Some copy') \<and>
         list_rep h' copy' cs' \<and> map snd cs' = map snd cs @ ws \<and> frame (fst ` set cs') h0 h' \<and>
         fst ` set cs' \<subseteq> range fresh \<and> l_dup copy' = l_dup copy \<and> l_match copy' = l_match copy)"
proof (induction ys arbitrary: n p h copy cs)
  case Nil
  then obtain m where "n = Suc m" by (cases n) auto
  moreover have "fst ` set cs \<subseteq> range fresh"
    using Nil.prems(4) by (metis (no_types, lifting) list.set_map image_subsetI rangeI)
  ultimately show ?case using Nil.prems by (auto simp: listNext_def)
next
  case (Cons y ys)
  obtain a v where y: "y = (a, v)" by (cases y)
  obtain m where n: "n = Suc m" "length ys < m" using Cons.prems(2) by (cases n) auto
  have cf: "fst ` set cs = fresh ` {0..<length cs}"
    using Cons.prems(4) by (metis atLeastLessThan_upt list.set_map)
  have ha: "h0 a = Some \<lparr>node_prev = p, node_next = first_ptr ys None, node_value = v\<rparr>" "dll h0 (Some a) ys None"
    using Cons.prems(1) y by auto
  have "a \<notin> fst ` set cs" using ha(1) free cf by auto
  then have ha': "h a = h0 a" using Cons.prems(5) by (simp add: frame_def)
  let ?it = "\<lparr>li_next = first_ptr ys None, li_direction = AL_START_HEAD\<rparr>"
  have len: "l_len copy = length cs" using Cons.prems(3) by (simp add: list_rep_def)
  show ?case
  proof (cases "dup_value (l_dup copy) v")
    case None
    have "(\<lambda>q. if q \<in> fst ` set cs then None else h q) = h0"
      using Cons.prems(5) free cf by (auto simp: fun_eq_iff frame_def)
    then show ?thesis using None listRelease_spec [OF Cons.prems(3)] ha ha' n y
      by (simp add: listNext_def dup_value_fold)
  next
    case (Some w)
    let ?f = "fresh (length cs)"
    have nf: "?f \<notin> fst ` set cs" using cf inj by (auto dest: injD)
    obtain h1 c1 where h1: "listAddNodeTail h copy ?f w = Some (h1, c1)" "list_rep h1 c1 (cs @ [(?f, w)])"
      "frame (insert ?f (fst ` set cs)) h h1" "l_dup c1 = l_dup copy" "l_match c1 = l_match copy"
      using listAddNodeTail_spec [OF Cons.prems(3) nf] by blast
    have fr: "frame (fst ` set (cs @ [(?f, w)])) h0 h1"
      using h1(3) Cons.prems(5) by (auto simp: frame_def image_Un)
    have ad: "map fst (cs @ [(?f, w)]) = map fresh [0..<length (cs @ [(?f, w)])]" using Cons.prems(4) by simp
    have step: "listDupLoop n fresh h \<lparr>li_next = first_ptr (y # ys) None, li_direction = AL_START_HEAD\<rparr> copy =
        listDupLoop m fresh h1 ?it c1"
      using Some ha ha' n y h1(1) len by (simp add: listNext_def dup_value_fold)
    show ?thesis using Cons.IH [OF ha(2) n(2) h1(2) ad fr] step Some y h1(4,5)
      by (cases "those (map (\<lambda>x. dup_value (l_dup copy) (snd x)) ys)") auto
  qed
qed

text \<open>\<open>listDup\<close> of a well-linked list copies it when every value can be duplicated: the copy
  is a well-linked list of the duplicated values in new nodes and the original nodes are
  untouched. When a value cannot be duplicated it returns \<open>NULL\<close> with every node it had
  allocated freed again: the store is what it was before the call. It always returns.\<close>

theorem listDup_correct:
  assumes "list_rep h l xs" "inj fresh" "\<forall>i. h (fresh i) = None" "length xs < fuel"
  shows "case those (map (\<lambda>x. dup_value (l_dup l) (snd x)) xs) of
      None \<Rightarrow> listDup fuel fresh h l = Some (h, None)
    | Some ws \<Rightarrow> \<exists>h' copy cs. listDup fuel fresh h l = Some (h', Some copy) \<and> list_rep h' copy cs \<and>
         map snd cs = ws \<and> list_rep h' l xs"
proof -
  let ?c = "listCreate\<lparr>l_dup := l_dup l, l_match := l_match l\<rparr>"
  have d: "dll h None xs None" and c: "list_rep h ?c []" using assms(1) by (auto simp: list_rep_def listCreate_def)
  have eq: "listDup fuel fresh h l = listDupLoop fuel fresh h \<lparr>li_next = first_ptr xs None, li_direction = AL_START_HEAD\<rparr> ?c"
    using assms(1) by (simp add: listDup_def listGetIterator_def list_rep_def)
  note sp = listDupLoop_spec [OF assms(2) spec [OF assms(3)] d assms(4) c, simplified, folded eq]
  show ?thesis
  proof (cases "those (map (\<lambda>x. dup_value (l_dup l) (snd x)) xs)")
    case None
    then show ?thesis using sp by (simp add: frame_def eq)
  next
    case (Some ws)
    then obtain h' copy cs where r: "listDup fuel fresh h l = Some (h', Some copy)" "list_rep h' copy cs" "map snd cs = ws"
      "frame (fst ` set cs) h h'" "fst ` set cs \<subseteq> range fresh"
      using sp by (auto simp: frame_def eq)
    have "fst ` set cs \<inter> fst ` set xs = {}" using r(5) assms(3) dll_dom [OF d] by fastforce
    then have "dll h' None xs None" using d r(4) by (simp add: frame_cong)
    then show ?thesis using r Some assms(1) by (auto simp: list_rep_def)
  qed
qed


theorem listDup_correct_witness:
  "let h = Map.empty(0 \<mapsto> \<lparr>node_prev = None, node_next = Some 1, node_value = (7::int)\<rparr>,
                     1 \<mapsto> \<lparr>node_prev = Some 0, node_next = None, node_value = 9\<rparr>);
       l = \<lparr>l_head = Some 0, l_tail = Some 1, l_len = 2, l_dup = Some (\<lambda>v. if v = 9 then None else Some v), l_match = None\<rparr>
   in listDup 3 (\<lambda>i. i + 5) h l = Some (h, None)"
proof -
  let ?h = "Map.empty(0 \<mapsto> \<lparr>node_prev = None, node_next = Some 1, node_value = (7::int)\<rparr>,
                     1 \<mapsto> \<lparr>node_prev = Some 0, node_next = None, node_value = 9\<rparr>)"
  let ?l = "\<lparr>l_head = Some 0, l_tail = Some 1, l_len = 2, l_dup = Some (\<lambda>v. if v = 9 then None else Some v), l_match = None\<rparr>"
  have "list_rep ?h ?l [(0, 7), (1, 9)]" by (simp add: list_rep_def)
  moreover have "inj (\<lambda>i::nat. i + 5)" by simp
  moreover have "\<forall>i::nat. ?h (i + 5) = None" by simp
  ultimately show ?thesis using listDup_correct [of ?h ?l "[(0, 7), (1, 9)]" "\<lambda>i. i + 5" 3]
    by (simp add: dup_value_def Let_def del: fun_upd_apply)
qed

section \<open>Sequences of operations\<close>

datatype 'a list_op = AddHead 'a | AddTail 'a | InsertAt int 'a bool | DelAt int | Rotate

text \<open>The operations with the node found by \<open>listIndex\<close>; \<open>alloc\<close> is the allocator.\<close>

fun adlist_step :: "('a store \<Rightarrow> nat) \<Rightarrow> 'a store \<times> 'a adlist \<Rightarrow> 'a list_op \<Rightarrow> ('a store \<times> 'a adlist) option" where
  "adlist_step alloc (h, l) (AddHead v) = listAddNodeHead h l (alloc h) v"
| "adlist_step alloc (h, l) (AddTail v) = listAddNodeTail h l (alloc h) v"
| "adlist_step alloc (h, l) (InsertAt i v after) =
     Option.bind (listIndex h l i) (\<lambda>p. case p of None \<Rightarrow> Some (h, l) | Some a \<Rightarrow> listInsertNode h l a (alloc h) v after)"
| "adlist_step alloc (h, l) (DelAt i) =
     Option.bind (listIndex h l i) (\<lambda>p. case p of None \<Rightarrow> Some (h, l) | Some a \<Rightarrow> listDelNode h l a)"
| "adlist_step alloc (h, l) Rotate = listRotate h l"

fun adlist_run :: "('a store \<Rightarrow> nat) \<Rightarrow> 'a store \<times> 'a adlist \<Rightarrow> 'a list_op list \<Rightarrow> ('a store \<times> 'a adlist) option" where
  "adlist_run alloc s [] = Some s"
| "adlist_run alloc s (x # xs) = Option.bind (adlist_step alloc s x) (\<lambda>s. adlist_run alloc s xs)"

fun spec_list_op :: "'a list \<Rightarrow> 'a list_op \<Rightarrow> 'a list" where
  "spec_list_op vs (AddHead v) = v # vs"
| "spec_list_op vs (AddTail v) = vs @ [v]"
| "spec_list_op vs (InsertAt i v after) =
     (case norm_index (length vs) i of None \<Rightarrow> vs
      | Some j \<Rightarrow> if after then take (Suc j) vs @ v # drop (Suc j) vs else take j vs @ v # drop j vs)"
| "spec_list_op vs (DelAt i) =
     (case norm_index (length vs) i of None \<Rightarrow> vs | Some j \<Rightarrow> take j vs @ drop (Suc j) vs)"
| "spec_list_op vs Rotate = (if length vs \<le> 1 then vs else last vs # butlast vs)"

lemma norm_index_less: "norm_index n i = Some j \<Longrightarrow> j < n"
  by (auto simp: norm_index_def split: if_splits)

lemma frame_finite: "frame A h h' \<Longrightarrow> finite A \<Longrightarrow> finite (dom h) \<Longrightarrow> finite (dom h')"
proof -
  assume f: "frame A h h'" "finite A" "finite (dom h)"
  have "dom h' \<subseteq> A \<union> dom h" using f(1) by (auto simp: frame_def dom_def)
  then show ?thesis using f(2,3) by (meson finite_Un finite_subset)
qed

lemma adlist_step_correct:
  assumes alloc: "\<forall>h. finite (dom h) \<longrightarrow> h (alloc h) = None" and fin: "finite (dom h)" and r: "list_rep h l xs"
  shows "\<exists>h' l' xs'. adlist_step alloc (h, l) x = Some (h', l') \<and> finite (dom h') \<and> list_rep h' l' xs' \<and>
    map snd xs' = spec_list_op (map snd xs) x"
proof -
  have new: "alloc h \<notin> fst ` set xs" using alloc fin dll_dom [of h None xs None] r by (auto simp: list_rep_def)
  have split: "xs = take j xs @ (fst (xs ! j), snd (xs ! j)) # drop (Suc j) xs" if "j < length xs" for j
    using that by (simp add: id_take_nth_drop)
  show ?thesis
  proof (cases x)
    case (AddHead v)
    then show ?thesis using listAddNodeHead_spec [OF r new, of v] frame_finite [OF _ _ fin] by fastforce
  next
    case (AddTail v)
    then show ?thesis using listAddNodeTail_spec [OF r new, of v] frame_finite [OF _ _ fin] by fastforce
  next
    case (InsertAt i v after)
    show ?thesis
    proof (cases "norm_index (length xs) i")
      case None
      then show ?thesis using InsertAt listIndex_spec [OF r, of i] r fin by auto
    next
      case (Some j)
      note j = norm_index_less [OF Some]
      let ?a = "fst (xs ! j)" and ?w = "snd (xs ! j)"
      obtain h' l' where h': "listInsertNode h l ?a (alloc h) v after = Some (h', l')"
        "list_rep h' l' (if after then take j xs @ (?a, ?w) # (alloc h, v) # drop (Suc j) xs
           else take j xs @ (alloc h, v) # (?a, ?w) # drop (Suc j) xs)"
        "frame (insert (alloc h) (fst ` set (take j xs @ (?a, ?w) # drop (Suc j) xs))) h h'"
        using listInsertNode_spec [of h l "take j xs" ?a ?w "drop (Suc j) xs" "alloc h" v after] r new
        unfolding split [OF j, symmetric] by blast
      have "finite (dom h')" using frame_finite [OF h'(3) _ fin] by simp
      moreover have "adlist_step alloc (h, l) x = Some (h', l')"
        using InsertAt Some listIndex_spec [OF r, of i] h'(1) by simp
      moreover have "take j (map snd xs) @ [?w] = take (Suc j) (map snd xs)"
        using j by (simp add: take_Suc_conv_app_nth)
      moreover have "?w # drop (Suc j) (map snd xs) = drop j (map snd xs)"
        using j by (metis Cons_nth_drop_Suc length_map nth_map)
      ultimately show ?thesis using h'(2) InsertAt Some
        by (intro exI conjI) (auto simp: take_map drop_map simp flip: append_assoc)
    qed
  next
    case (DelAt i)
    show ?thesis
    proof (cases "norm_index (length xs) i")
      case None
      then show ?thesis using DelAt listIndex_spec [OF r, of i] r fin by auto
    next
      case (Some j)
      note j = norm_index_less [OF Some]
      obtain h' l' where h': "listDelNode h l (fst (xs ! j)) = Some (h', l')" "list_rep h' l' (take j xs @ drop (Suc j) xs)"
        "frame (fst ` set xs) h h'"
        using listDelNode_spec [of h l "take j xs" "fst (xs ! j)" "snd (xs ! j)" "drop (Suc j) xs"] r
        unfolding split [OF j, symmetric] by blast
      then show ?thesis using DelAt Some listIndex_spec [OF r, of i] frame_finite [OF h'(3) _ fin]
        by (auto simp: take_map drop_map)
    qed
  next
    case Rotate
    obtain h' l' where h': "listRotate h l = Some (h', l')"
      "list_rep h' l' (if length xs \<le> 1 then xs else last xs # butlast xs)" "frame (fst ` set xs) h h'"
      using listRotate_spec [OF r] by blast
    have "map snd (if length xs \<le> 1 then xs else last xs # butlast xs) = spec_list_op (map snd xs) Rotate"
      by (cases "xs = []") (auto simp: map_butlast last_map)
    then show ?thesis using h' Rotate frame_finite [OF h'(3) _ fin] by auto
  qed
qed

lemma adlist_run_step:
  assumes alloc: "\<forall>h. finite (dom h) \<longrightarrow> h (alloc h) = None"
  shows "finite (dom h) \<Longrightarrow> list_rep h l xs \<Longrightarrow> \<exists>h' l' xs'. adlist_run alloc (h, l) ops = Some (h', l') \<and>
    list_rep h' l' xs' \<and> map snd xs' = foldl spec_list_op (map snd xs) ops"
proof (induction ops arbitrary: h l xs)
  case (Cons x ops)
  obtain h1 l1 xs1 where "adlist_step alloc (h, l) x = Some (h1, l1)" "finite (dom h1)" "list_rep h1 l1 xs1"
    "map snd xs1 = spec_list_op (map snd xs) x"
    using adlist_step_correct [OF alloc Cons.prems] by blast
  then show ?case using Cons.IH [of h1 l1 xs1] by auto
qed auto

text \<open>C26. For any allocator that returns unused addresses, every sequence of insertions at
  either end, before or after the node at an index, deletions by index and rotations, from
  an empty list, runs without touching \<open>NULL\<close> or a freed node; the result is well linked in
  both directions, with head, tail and length in agreement, and holds the values that the
  same operations give on a plain sequence.\<close>

theorem adlist_run_correct:
  assumes "\<forall>h. finite (dom h) \<longrightarrow> h (alloc h) = None"
  shows "\<exists>h l xs. adlist_run alloc (Map.empty, listCreate) ops = Some (h, l) \<and> list_rep h l xs \<and>
    map snd xs = foldl spec_list_op [] ops"
  using adlist_run_step [OF assms, of Map.empty listCreate "[]"] by (simp add: list_rep_def listCreate_def)

theorem adlist_run_correct_witness:
  "\<exists>h l xs. adlist_run (\<lambda>h. LEAST a. h a = None) (Map.empty, listCreate)
      [AddTail (1::int), AddTail 2, AddHead 0, InsertAt (-1) 5 False, Rotate, DelAt 1] = Some (h, l) \<and>
    list_rep h l xs \<and> map snd xs = [2, 1, 5]"
proof -
  have "h (LEAST a. h a = None) = None" if fin: "finite (dom h)" for h :: "int store"
  proof -
    obtain a where "a \<notin> dom h" using fin by (metis ex_new_if_finite infinite_UNIV_nat)
    then show ?thesis by (intro LeastI) auto
  qed
  then show ?thesis
    using adlist_run_correct [of "\<lambda>h. LEAST a. h a = None"
        "[AddTail (1::int), AddTail 2, AddHead 0, InsertAt (-1) 5 False, Rotate, DelAt 1]"]
    by (simp add: norm_index_def)
qed

end
