(* ===== verification/Object.thy ===== *)
theory Object
  imports Util
begin

text \<open>
  \<^verbatim>\<open>redis-2.8/src/object.c\<close>: string objects and their two encodings. A string object holds
  its bytes, or, when they are the canonical text of a \<open>long\<close>, that integer in place of the
  pointer. \<open>long\<close> has 32 bits in this port. Reference counts are not part of the model:
  sharing only saves memory, since \<open>dbUnshareStringValue\<close> copies before every write.
\<close>

datatype strobj = ENC_RAW bytes | ENC_INT int

definition long_range :: "int \<Rightarrow> bool" where
  "long_range v \<longleftrightarrow> - 2147483648 \<le> v \<and> v \<le> 2147483647"

fun obj_ok :: "strobj \<Rightarrow> bool" where
  "obj_ok (ENC_RAW s) = True"
| "obj_ok (ENC_INT v) = long_range v"

text \<open>The bytes an object stands for, whatever its encoding.\<close>

fun content :: "strobj \<Rightarrow> bytes" where
  "content (ENC_RAW s) = s"
| "content (ENC_INT v) = decimal v"

section \<open>Operations\<close>

definition createStringObjectFromLongLong :: "int \<Rightarrow> strobj" where
  "createStringObjectFromLongLong v =
     (if 0 \<le> v \<and> v < 10000 then ENC_INT v
      else if long_range v then ENC_INT v
      else ENC_RAW (case ll2string (replicate 32 0) 32 v of Some (n, buf) \<Rightarrow> take n buf | None \<Rightarrow> []))"

definition tryObjectEncoding :: "strobj \<Rightarrow> strobj" where
  "tryObjectEncoding o' =
     (case o' of
        ENC_INT v \<Rightarrow> ENC_INT v
      | ENC_RAW s \<Rightarrow> if length s > 21 then ENC_RAW s
                 else case string2l 32 s of None \<Rightarrow> ENC_RAW s | Some v \<Rightarrow> ENC_INT v)"

definition getDecodedObject :: "strobj \<Rightarrow> strobj" where
  "getDecodedObject o' =
     (case o' of
        ENC_RAW s \<Rightarrow> ENC_RAW s
      | ENC_INT v \<Rightarrow> ENC_RAW (case ll2string (replicate 32 0) 32 v of Some (n, buf) \<Rightarrow> c_str buf | None \<Rightarrow> []))"

definition stringObjectLen :: "strobj \<Rightarrow> nat" where
  "stringObjectLen o' =
     (case o' of
        ENC_RAW s \<Rightarrow> length s
      | ENC_INT v \<Rightarrow> (case ll2string (replicate 32 0) 32 v of Some (n, buf) \<Rightarrow> n | None \<Rightarrow> 0))"

text \<open>The bytes that comparison reads: \<open>ll2string\<close> into a buffer of 128 bytes.\<close>

definition compare_bytes :: "strobj \<Rightarrow> bytes" where
  "compare_bytes o' =
     (case o' of
        ENC_RAW s \<Rightarrow> s
      | ENC_INT v \<Rightarrow> (case ll2string (replicate 128 0) 128 v of Some (n, buf) \<Rightarrow> take n buf | None \<Rightarrow> []))"

fun memcmp :: "bytes \<Rightarrow> bytes \<Rightarrow> int" where
  "memcmp (a # as) (b # bs) = (if a < b then - 1 else if b < a then 1 else memcmp as bs)"
| "memcmp _ _ = 0"

definition compareStringObjects :: "strobj \<Rightarrow> strobj \<Rightarrow> int" where
  "compareStringObjects a b =
     (let as = compare_bytes a; bs = compare_bytes b;
          minlen = min (length as) (length bs);
          cmp = memcmp (take minlen as) (take minlen bs)
      in if cmp = 0 then sint (word_of_int (int (length as) - int (length bs)) :: 32 word) else cmp)"

definition equalStringObjects :: "strobj \<Rightarrow> strobj \<Rightarrow> bool" where
  "equalStringObjects a b =
     (case (a, b) of
        (ENC_INT v, ENC_INT w) \<Rightarrow> v = w
      | _ \<Rightarrow> compareStringObjects a b = 0)"

definition isObjectRepresentableAsLongLong :: "strobj \<Rightarrow> int option" where
  "isObjectRepresentableAsLongLong o' = (case o' of ENC_INT v \<Rightarrow> Some v | ENC_RAW s \<Rightarrow> string2ll s)"

definition isspace :: "byte \<Rightarrow> bool" where
  "isspace b \<longleftrightarrow> b = 32 \<or> 9 \<le> b \<and> b \<le> 13"

text \<open>\<open>strtoll\<close> in base 10: the value, the unread rest, and whether it was out of range.\<close>

definition strtoll :: "bytes \<Rightarrow> int \<times> bytes \<times> bool" where
  "strtoll s =
     (let t = dropWhile isspace s;
          (neg, r) = (case t of c # cs \<Rightarrow> if c = 45 then (True, cs) else if c = 43 then (False, cs) else (False, t)
                      | [] \<Rightarrow> (False, []));
          ds = takeWhile is_digit r;
          n = int (foldl (\<lambda>a c. 10 * a + digit_val c) 0 ds);
          v = (if neg then - n else n)
      in if ds = [] then (0, s, False)
         else if v < LLONG_MIN then (LLONG_MIN, dropWhile is_digit r, True)
         else if v > LLONG_MAX then (LLONG_MAX, dropWhile is_digit r, True)
         else (v, dropWhile is_digit r, False))"

text \<open>The argument is \<open>None\<close> for a \<open>NULL\<close> object; a C string ends at its first zero byte.\<close>

definition getLongLongFromObject :: "strobj option \<Rightarrow> int option" where
  "getLongLongFromObject o' =
     (case o' of
        None \<Rightarrow> Some 0
      | Some (ENC_INT v) \<Rightarrow> Some v
      | Some (ENC_RAW s) \<Rightarrow>
          (let t = c_str s; (v, rest, erange) = strtoll t
           in if (t \<noteq> [] \<and> isspace (hd t)) \<or> rest \<noteq> [] \<or> erange then None else Some v))"

definition getLongFromObject :: "strobj option \<Rightarrow> int option" where
  "getLongFromObject o' =
     Option.bind (getLongLongFromObject o') (\<lambda>v. if long_range v then Some v else None)"

section \<open>Encodings are invisible\<close>

lemma long_int64: "long_range v \<Longrightarrow> int64_range v"
  by (simp add: long_range_def)

lemma dec_length_le: "n < 10 ^ Suc k \<Longrightarrow> length (dec n) \<le> Suc k"
proof (induction k arbitrary: n)
  case (Suc k)
  show ?case
  proof (cases "n < 10")
    case False
    then have "length (dec n) = Suc (length (dec (n div 10)))" by (simp add: dec_step)
    then show ?thesis using Suc.IH [of "n div 10"] Suc.prems by (simp add: less_mult_imp_div_less)
  qed simp
qed simp

lemma decimal_len: "int64_range v \<Longrightarrow> length (decimal v) < 32"
proof -
  assume v: "int64_range v"
  have "nat v < 10 ^ Suc 19" "nat (- v) < 10 ^ Suc 19" using v by (auto simp: nat_less_iff)
  then show ?thesis using dec_length_le [of "nat v" 19] dec_length_le [of "nat (- v)" 19]
    by (auto simp: decimal_def)
qed

lemma digit_not_zero: "is_digit c \<Longrightarrow> c \<noteq> 0"
  by (auto simp: is_digit_def)

lemma decimal_no_nul: "0 \<notin> set (decimal v)"
proof -
  have "c \<noteq> 0" if "c \<in> set (dec n)" for c n using that set_dec digit_not_zero by auto
  then show ?thesis by (auto simp: decimal_def)
qed

lemma ll2string_buf:
  assumes "int64_range v" "32 \<le> k"
  shows "ll2string (replicate k 0) k v =
    Some (length (decimal v), decimal v @ [0] @ drop (Suc (length (decimal v))) (replicate k 0))"
  using ll2string_spec [OF assms(1), of k "replicate k 0"] decimal_len [OF assms(1)] assms(2) by simp

lemma stringObjectLen_content: "obj_ok x \<Longrightarrow> stringObjectLen x = length (content x)"
  by (cases x) (simp_all add: stringObjectLen_def ll2string_buf long_int64)

lemma c_str_append_nul: "0 \<notin> set s \<Longrightarrow> c_str (s @ 0 # t) = s"
  by (induction s) (auto simp: c_str_def)

lemma getDecodedObject_content: "obj_ok x \<Longrightarrow> getDecodedObject x = ENC_RAW (content x)"
  by (cases x) (simp_all add: getDecodedObject_def ll2string_buf long_int64 c_str_append_nul decimal_no_nul)

lemma compare_bytes_content: "obj_ok x \<Longrightarrow> compare_bytes x = content x"
  by (cases x) (simp_all add: compare_bytes_def ll2string_buf long_int64)

lemma createStringObjectFromLongLong_content:
  "int64_range v \<Longrightarrow> content (createStringObjectFromLongLong v) = decimal v \<and> obj_ok (createStringObjectFromLongLong v)"
  by (auto simp: createStringObjectFromLongLong_def ll2string_buf long_range_def)

lemma string2l_Some: "string2l 32 s = Some v \<Longrightarrow> long_range v \<and> s = decimal v"
  by (auto simp: string2l_def long_range_def string2ll_spec split: option.splits if_splits)

lemma tryObjectEncoding_content: "obj_ok x \<Longrightarrow> content (tryObjectEncoding x) = content x \<and> obj_ok (tryObjectEncoding x)"
  by (cases x) (auto simp: tryObjectEncoding_def dest: string2l_Some split: option.splits)

lemma memcmp_zero: "length a = length b \<Longrightarrow> memcmp a b = 0 \<longleftrightarrow> a = b"
  by (induction a b rule: memcmp.induct) auto

lemma memcmp_take: "k = min (length a) (length b) \<Longrightarrow> memcmp (take k a) (take k b) = memcmp a b"
  by (induction a b arbitrary: k rule: memcmp.induct) (auto simp: min_def)

lemma sint_small: "- 2147483648 \<le> v \<Longrightarrow> v < 2147483648 \<Longrightarrow> sint (word_of_int v :: 32 word) = v"
  using signed_take_bit_int_eq_self_iff [of 31 v] by (simp add: signed_of_int)

lemma memcmp_lexordp: "memcmp a b < 0 \<or> memcmp a b = 0 \<and> length a < length b \<longleftrightarrow> ord_class.lexordp a b"
  by (induction a b rule: memcmp.induct) auto

lemma compareStringObjects_lex:
  assumes "obj_ok a" "obj_ok b" "length (content a) < 2147483648" "length (content b) < 2147483648"
  shows "compareStringObjects a b < 0 \<longleftrightarrow> ord_class.lexordp (content a) (content b)"
proof -
  have s: "sint (word_of_int (int (length (content a)) - int (length (content b))) :: 32 word)
      = int (length (content a)) - int (length (content b))"
    using assms(3,4) by (intro sint_small) auto
  show ?thesis
    unfolding compareStringObjects_def compare_bytes_content [OF assms(1)] compare_bytes_content [OF assms(2)] Let_def
      memcmp_take [OF refl] s memcmp_lexordp [symmetric] by auto
qed

lemma memcmp_sym: "memcmp b a = - memcmp a b"
  by (induction a b rule: memcmp.induct) auto

lemma compareStringObjects_zero:
  assumes "obj_ok a" "obj_ok b" "length (content a) < 2147483648" "length (content b) < 2147483648"
  shows "compareStringObjects a b = 0 \<longleftrightarrow> content a = content b"
proof -
  have s: "sint (word_of_int (int (length (content a)) - int (length (content b))) :: 32 word)
      = int (length (content a)) - int (length (content b))"
    using assms(3,4) by (intro sint_small) auto
  show ?thesis
    unfolding compareStringObjects_def compare_bytes_content [OF assms(1)] compare_bytes_content [OF assms(2)] Let_def
      memcmp_take [OF refl] s using memcmp_zero [of "content a" "content b"] by auto
qed

lemma decimal_inj: "int64_range v \<Longrightarrow> int64_range w \<Longrightarrow> decimal v = decimal w \<Longrightarrow> v = w"
  using string2ll_spec [of "decimal v" v] string2ll_spec [of "decimal w" w] by simp

lemma equalStringObjects_content:
  assumes "obj_ok a" "obj_ok b" "length (content a) < 2147483648" "length (content b) < 2147483648"
  shows "equalStringObjects a b \<longleftrightarrow> content a = content b"
proof (cases "(\<exists>v. a = ENC_INT v) \<and> (\<exists>w. b = ENC_INT w)")
  case True
  then show ?thesis using assms(1,2) decimal_inj by (auto simp: equalStringObjects_def dest!: long_int64)
next
  case False
  then have "equalStringObjects a b = (compareStringObjects a b = 0)"
    by (cases a; cases b) (auto simp: equalStringObjects_def)
  then show ?thesis using compareStringObjects_zero [OF assms] by simp
qed

lemma takeWhile_digits: "takeWhile is_digit (dec n) = dec n" "dropWhile is_digit (dec n) = []"
  using set_dec by auto

lemma dec_hd_kind: "hd (dec n) \<noteq> 45 \<and> hd (dec n) \<noteq> 43 \<and> \<not> isspace (hd (dec n))"
  using set_dec [of "hd (dec n)" n] by (auto simp: is_digit_def isspace_def word_le_nat_alt)

lemma strtoll_decimal:
  assumes "int64_range v"
  shows "strtoll (decimal v) = (v, [], False) \<and> \<not> isspace (hd (decimal v))"
proof -
  have d: "foldl (\<lambda>a c. 10 * a + digit_val c) 0 (dec n) = n" for n
    using dval_dec [of n] by (simp add: dval_def)
  have minus: "\<not> isspace 45" by (simp add: isspace_def)
  obtain c r where c: "dec (nat v) = c # r" by (cases "dec (nat v)") auto
  have k: "c \<noteq> 45" "c \<noteq> 43" "\<not> isspace c" using dec_hd_kind [of "nat v"] c by auto
  have tw: "takeWhile is_digit (c # r) = c # r" "dropWhile is_digit (c # r) = []"
    "foldl (\<lambda>a c. 10 * a + digit_val c) 0 (c # r) = nat v"
    using takeWhile_digits [of "nat v"] d [of "nat v"] c by auto
  show ?thesis
  proof (cases "v < 0")
    case True
    then show ?thesis using assms minus d [of "nat (- v)"]
      by (simp add: strtoll_def decimal_def takeWhile_digits)
  next
    case False
    then have e: "decimal v = c # r" using c by (simp add: decimal_def)
    show ?thesis unfolding e strtoll_def Let_def using assms k False
      by (simp del: takeWhile.simps dropWhile.simps foldl_Cons add: dropWhile.simps(2) [of isspace] tw)
  qed
qed

lemma c_str_decimal: "c_str (decimal v) = decimal v"
  using decimal_no_nul [of v] by (simp add: c_str_def takeWhile_eq_all_conv) metis

lemma getLongLong_decimal: "int64_range v \<Longrightarrow> getLongLongFromObject (Some (ENC_RAW (decimal v))) = Some v"
  using strtoll_decimal [of v] by (simp add: getLongLongFromObject_def c_str_decimal)

text \<open>C33. The encoding of a string object cannot be observed: encoding it as an integer keeps
  its bytes; its length, its decoded form, its comparison with another object (the
  lexicographic order of the bytes) and the integer read from it are functions of the bytes
  alone, and an object made from a 64-bit integer holds its decimal text.\<close>

theorem string_encoding_invisible:
  assumes "obj_ok a" "obj_ok b" "length (content a) < 2147483648" "length (content b) < 2147483648" "int64_range v"
  shows "content (tryObjectEncoding a) = content a \<and> obj_ok (tryObjectEncoding a) \<and>
    stringObjectLen a = length (content a) \<and> getDecodedObject a = ENC_RAW (content a) \<and>
    (equalStringObjects a b \<longleftrightarrow> content a = content b) \<and>
    (compareStringObjects a b < 0 \<longleftrightarrow> ord_class.lexordp (content a) (content b)) \<and>
    getLongLongFromObject (Some a) = getLongLongFromObject (Some (ENC_RAW (content a))) \<and>
    content (createStringObjectFromLongLong v) = decimal v"
proof -
  have "getLongLongFromObject (Some a) = getLongLongFromObject (Some (ENC_RAW (content a)))"
  proof (cases a)
    case (ENC_INT w)
    then have "int64_range w" using assms(1) long_int64 by simp
    then show ?thesis using getLongLong_decimal [of w] ENC_INT by (simp add: getLongLongFromObject_def)
  qed simp
  then show ?thesis
    using tryObjectEncoding_content [OF assms(1)] stringObjectLen_content [OF assms(1)]
      getDecodedObject_content [OF assms(1)] equalStringObjects_content [OF assms(1-4)]
      compareStringObjects_lex [OF assms(1-4)] createStringObjectFromLongLong_content [OF assms(5)] by simp
qed

theorem string_encoding_invisible_witness:
  "content (tryObjectEncoding (ENC_RAW [45, 49])) = [45, 49] \<and> stringObjectLen (ENC_RAW [45, 49]) = 2 \<and>
   equalStringObjects (ENC_RAW [45, 49]) (ENC_RAW [45, 49])"
  using string_encoding_invisible [of "ENC_RAW [45, 49]" "ENC_RAW [45, 49]" 7] by simp

end
