(* ===== verification/Server.thy ===== *)
theory Server
  imports Object "HOL-Library.AList" "HOL-Library.Monad_Syntax"
begin

text \<open>
  The state the command implementations share, from \<^verbatim>\<open>redis-2.8/src/redis.h\<close>: objects, data
  bases, clients and the server, and the helpers every command uses to reach them.

  A \<open>dict\<close> is an association list with distinct keys, updated by the operations that the
  hash table refines. Client and data base pointers are their numbers. The output
  of a client is the list of the protocol items sent to it. The clock \<open>srv_mstime\<close> does not
  advance during one command. Reference counts, LRU clocks and memory accounting are left
  out. \<open>None\<close> as the result of an operation is a failed assertion, which aborts the server.
\<close>

section \<open>Objects\<close>

datatype robj =
    StrObj strobj
  | ListObj "bytes list"
  | SetObj "bytes list"
  | ZsetObj "(bytes \<times> 64 word) list"
  | HashObj "(bytes \<times> bytes) list"

datatype otype = REDIS_STRING | REDIS_LIST | REDIS_SET | REDIS_ZSET | REDIS_HASH

fun obj_type :: "robj \<Rightarrow> otype" where
  "obj_type (StrObj _) = REDIS_STRING"
| "obj_type (ListObj _) = REDIS_LIST"
| "obj_type (SetObj _) = REDIS_SET"
| "obj_type (ZsetObj _) = REDIS_ZSET"
| "obj_type (HashObj _) = REDIS_HASH"

section \<open>Replies\<close>

abbreviation str :: "string \<Rightarrow> bytes" where
  "str s \<equiv> map of_char s"

datatype reply =
    Status string
  | Error bytes
  | Integer int
  | Bulk bytes
  | NullBulk
  | MultiBulkLen int
  | NullMultiBulk

abbreviation "shared_ok \<equiv> Status ''OK''"
abbreviation "shared_queued \<equiv> Status ''QUEUED''"
abbreviation "shared_czero \<equiv> Integer 0"
abbreviation "shared_cone \<equiv> Integer 1"
abbreviation "shared_emptybulk \<equiv> Bulk []"
abbreviation "shared_wrongtypeerr \<equiv>
  Error (str ''WRONGTYPE Operation against a key holding the wrong kind of value'')"
abbreviation "shared_nokeyerr \<equiv> Error (str ''ERR no such key'')"
abbreviation "shared_syntaxerr \<equiv> Error (str ''ERR syntax error'')"
abbreviation "shared_sameobjecterr \<equiv> Error (str ''ERR source and destination objects are the same'')"
abbreviation "shared_outofrangeerr \<equiv> Error (str ''ERR index out of range'')"
abbreviation "shared_execaborterr \<equiv>
  Error (str ''EXECABORT Transaction discarded because of previous errors.'')"

section \<open>State\<close>

record redisDb =
  db_dict :: "(bytes \<times> robj) list"
  db_expires :: "(bytes \<times> int) list"
  db_blocking_keys :: "(bytes \<times> nat list) list"
  db_ready_keys :: "bytes list"
  db_watched_keys :: "(bytes \<times> nat list) list"

text \<open>The bits of \<open>flags\<close> that the modelled code uses are separate fields; \<open>c_cmd\<close> is the name
  under which the command was found in the command table.\<close>

record client =
  c_db :: nat
  c_argv :: "bytes list"
  c_cmd :: string
  c_multi :: bool
  c_dirty_cas :: bool
  c_dirty_exec :: bool
  c_pubsub :: bool
  c_is_master :: bool
  c_force_repl :: bool
  c_force_aof :: bool
  c_close_after_reply :: bool
  c_authenticated :: bool
  c_mstate :: "(string \<times> bytes list) list"
  c_watched_keys :: "(nat \<times> bytes) list"
  c_pubsub_channels :: "bytes list"
  c_pubsub_patterns :: "bytes list"
  c_reply :: "reply list"

record server =
  srv_db :: "nat \<Rightarrow> redisDb"
  srv_dbnum :: nat
  srv_client :: "nat \<Rightarrow> client"
  srv_clients :: "nat list"
  srv_mstime :: int
  srv_loading :: bool
  srv_masterhost :: bool
  srv_lua_caller :: bool
  srv_lua_time_start :: int
  srv_dirty :: int
  srv_stat_keyspace_hits :: nat
  srv_stat_keyspace_misses :: nat
  srv_stat_expiredkeys :: nat
  srv_notify_keyspace_events :: "32 word"
  srv_pubsub_channels :: "(bytes \<times> nat list) list"
  srv_pubsub_patterns :: "(nat \<times> bytes) list"
  srv_ready_keys :: "(nat \<times> bytes) list"
  srv_aof_on :: bool
  srv_aof :: "(nat \<times> bytes list) list"
  srv_repl :: "(nat \<times> bytes list) list"

definition upd_client :: "nat \<Rightarrow> (client \<Rightarrow> client) \<Rightarrow> server \<Rightarrow> server" where
  "upd_client c f s = s\<lparr>srv_client := (srv_client s)(c := f (srv_client s c))\<rparr>"

definition upd_db :: "nat \<Rightarrow> (redisDb \<Rightarrow> redisDb) \<Rightarrow> server \<Rightarrow> server" where
  "upd_db i f s = s\<lparr>srv_db := (srv_db s)(i := f (srv_db s i))\<rparr>"

definition addReply :: "nat \<Rightarrow> reply \<Rightarrow> server \<Rightarrow> server" where
  "addReply c r = upd_client c (\<lambda>x. x\<lparr>c_reply := c_reply x @ [r]\<rparr>)"

definition addReplies :: "nat \<Rightarrow> reply list \<Rightarrow> server \<Rightarrow> server" where
  "addReplies c rs = upd_client c (\<lambda>x. x\<lparr>c_reply := c_reply x @ rs\<rparr>)"

abbreviation client_db :: "nat \<Rightarrow> server \<Rightarrow> nat" where
  "client_db c s \<equiv> c_db (srv_client s c)"

abbreviation argv :: "nat \<Rightarrow> server \<Rightarrow> nat \<Rightarrow> bytes" where
  "argv c s i \<equiv> c_argv (srv_client s c) ! i"

abbreviation argc :: "nat \<Rightarrow> server \<Rightarrow> nat" where
  "argc c s \<equiv> length (c_argv (srv_client s c))"

definition incr_dirty :: "int \<Rightarrow> server \<Rightarrow> server" where
  "incr_dirty n s = s\<lparr>srv_dirty := srv_dirty s + n\<rparr>"

text \<open>\<open>propagate\<close>: the command goes to the append only file and to the slaves.\<close>

definition propagate :: "nat \<Rightarrow> bytes list \<Rightarrow> bool \<Rightarrow> bool \<Rightarrow> server \<Rightarrow> server" where
  "propagate dbid av to_aof to_repl s =
     (let s = (if srv_aof_on s \<and> to_aof then s\<lparr>srv_aof := srv_aof s @ [(dbid, av)]\<rparr> else s)
      in if to_repl then s\<lparr>srv_repl := srv_repl s @ [(dbid, av)]\<rparr> else s)"

named_theorems server_simps \<open>projections of state updates\<close>

lemma upd_client_simps [server_simps]:
  "srv_client (upd_client c f s) x = (if x = c then f (srv_client s c) else srv_client s x)"
  "srv_db (upd_client c f s) = srv_db s" "srv_dbnum (upd_client c f s) = srv_dbnum s"
  "srv_clients (upd_client c f s) = srv_clients s" "srv_mstime (upd_client c f s) = srv_mstime s"
  "srv_loading (upd_client c f s) = srv_loading s" "srv_masterhost (upd_client c f s) = srv_masterhost s"
  "srv_lua_caller (upd_client c f s) = srv_lua_caller s"
  "srv_lua_time_start (upd_client c f s) = srv_lua_time_start s" "srv_dirty (upd_client c f s) = srv_dirty s"
  "srv_notify_keyspace_events (upd_client c f s) = srv_notify_keyspace_events s"
  "srv_pubsub_channels (upd_client c f s) = srv_pubsub_channels s"
  "srv_pubsub_patterns (upd_client c f s) = srv_pubsub_patterns s"
  "srv_ready_keys (upd_client c f s) = srv_ready_keys s"
  "srv_aof_on (upd_client c f s) = srv_aof_on s" "srv_aof (upd_client c f s) = srv_aof s"
  "srv_repl (upd_client c f s) = srv_repl s"
  "srv_stat_expiredkeys (upd_client c f s) = srv_stat_expiredkeys s"
  "srv_stat_keyspace_hits (upd_client c f s) = srv_stat_keyspace_hits s"
  "srv_stat_keyspace_misses (upd_client c f s) = srv_stat_keyspace_misses s"
  by (simp_all add: upd_client_def)

lemma upd_db_simps [server_simps]:
  "srv_db (upd_db i f s) j = (if j = i then f (srv_db s i) else srv_db s j)"
  "srv_client (upd_db i f s) = srv_client s" "srv_dbnum (upd_db i f s) = srv_dbnum s"
  "srv_clients (upd_db i f s) = srv_clients s" "srv_mstime (upd_db i f s) = srv_mstime s"
  "srv_loading (upd_db i f s) = srv_loading s" "srv_masterhost (upd_db i f s) = srv_masterhost s"
  "srv_lua_caller (upd_db i f s) = srv_lua_caller s"
  "srv_lua_time_start (upd_db i f s) = srv_lua_time_start s" "srv_dirty (upd_db i f s) = srv_dirty s"
  "srv_notify_keyspace_events (upd_db i f s) = srv_notify_keyspace_events s"
  "srv_pubsub_channels (upd_db i f s) = srv_pubsub_channels s"
  "srv_pubsub_patterns (upd_db i f s) = srv_pubsub_patterns s"
  "srv_ready_keys (upd_db i f s) = srv_ready_keys s"
  "srv_aof_on (upd_db i f s) = srv_aof_on s" "srv_aof (upd_db i f s) = srv_aof s"
  "srv_repl (upd_db i f s) = srv_repl s"
  "srv_stat_expiredkeys (upd_db i f s) = srv_stat_expiredkeys s"
  "srv_stat_keyspace_hits (upd_db i f s) = srv_stat_keyspace_hits s"
  "srv_stat_keyspace_misses (upd_db i f s) = srv_stat_keyspace_misses s"
  by (simp_all add: upd_db_def)

section \<open>Initial states\<close>

definition empty_db :: redisDb where
  "empty_db = \<lparr>db_dict = [], db_expires = [], db_blocking_keys = [], db_ready_keys = [], db_watched_keys = []\<rparr>"

definition createClient :: client where
  "createClient = \<lparr>c_db = 0, c_argv = [], c_cmd = [], c_multi = False, c_dirty_cas = False, c_dirty_exec = False,
     c_pubsub = False, c_is_master = False, c_force_repl = False, c_force_aof = False, c_close_after_reply = False,
     c_authenticated = False, c_mstate = [], c_watched_keys = [], c_pubsub_channels = [], c_pubsub_patterns = [],
     c_reply = []\<rparr>"

text \<open>A server that has just started, with the default number of data bases and the given clock.\<close>

definition initServer :: "nat list \<Rightarrow> int \<Rightarrow> server" where
  "initServer cs now = \<lparr>srv_db = (\<lambda>_. empty_db), srv_dbnum = 16, srv_client = (\<lambda>_. createClient), srv_clients = cs,
     srv_mstime = now, srv_loading = False, srv_masterhost = False, srv_lua_caller = False, srv_lua_time_start = 0,
     srv_dirty = 0, srv_stat_keyspace_hits = 0, srv_stat_keyspace_misses = 0, srv_stat_expiredkeys = 0,
     srv_notify_keyspace_events = 0, srv_pubsub_channels = [], srv_pubsub_patterns = [], srv_ready_keys = [],
     srv_aof_on = False, srv_aof = [], srv_repl = []\<rparr>"

definition with_argv :: "nat \<Rightarrow> string list \<Rightarrow> server \<Rightarrow> server" where
  "with_argv c av = upd_client c (\<lambda>x. x\<lparr>c_argv := map (map of_char) av\<rparr>)"

section \<open>Dictionaries of client lists\<close>

text \<open>
  Channels and watched keys are both kept as a dictionary from a name to the list of the
  clients interested in it, and the code that adds and removes a client is the same.
\<close>

definition idx_clients :: "(bytes \<times> nat list) list \<Rightarrow> bytes \<Rightarrow> nat list" where
  "idx_clients d k = (case map_of d k of None \<Rightarrow> [] | Some cs \<Rightarrow> cs)"

definition idx_add :: "(bytes \<times> nat list) list \<Rightarrow> bytes \<Rightarrow> nat \<Rightarrow> (bytes \<times> nat list) list" where
  "idx_add d k c =
     (case map_of d k of
        None \<Rightarrow> (k, [c]) # d
      | Some cs \<Rightarrow> AList.update k (cs @ [c]) d)"

definition idx_del :: "(bytes \<times> nat list) list \<Rightarrow> bytes \<Rightarrow> nat \<Rightarrow> (bytes \<times> nat list) list option" where
  "idx_del d k c =
     (case map_of d k of
        None \<Rightarrow> None
      | Some cs \<Rightarrow>
          if c \<notin> set cs then None
          else let cs = remove1 c cs in Some (if cs = [] then AList.delete k d else AList.update k cs d))"

definition idx_ok :: "(bytes \<times> nat list) list \<Rightarrow> bool" where
  "idx_ok d \<longleftrightarrow> distinct (map fst d) \<and> (\<forall>k cs. map_of d k = Some cs \<longrightarrow> cs \<noteq> [] \<and> distinct cs)"

lemma idx_clients_add: "idx_clients (idx_add d k c) x = (if x = k then idx_clients d k @ [c] else idx_clients d x)"
  by (auto simp: idx_clients_def idx_add_def update_conv' split: option.splits)

lemma idx_add_ok: "idx_ok d \<Longrightarrow> c \<notin> set (idx_clients d k) \<Longrightarrow> idx_ok (idx_add d k c)"
proof (cases "map_of d k")
  case None
  assume "idx_ok d"
  then show ?thesis using None map_of_eq_None_iff [of d k]
    by (simp add: idx_ok_def idx_add_def del: map_of_eq_None_iff)
next
  case (Some cs)
  assume "idx_ok d" "c \<notin> set (idx_clients d k)"
  then show ?thesis using Some
    by (auto simp: idx_ok_def idx_add_def idx_clients_def update_conv' distinct_update simp del: map_of_eq_Some_iff
        split: if_splits)
qed

lemma idx_del_Some:
  assumes "c \<in> set (idx_clients d k)"
  shows "\<exists>d'. idx_del d k c = Some d' \<and> (\<forall>x. idx_clients d' x = (if x = k then remove1 c (idx_clients d k) else idx_clients d x))"
  using assms by (cases "map_of d k") (auto simp: idx_clients_def idx_del_def update_conv' delete_conv' Let_def)

lemma idx_del_ok: "idx_ok d \<Longrightarrow> idx_del d k c = Some d' \<Longrightarrow> idx_ok d'"
  by (auto simp: idx_ok_def idx_del_def update_conv' delete_conv' distinct_update distinct_delete Let_def
      simp del: map_of_eq_Some_iff split: option.splits if_splits) blast+

lemma idx_clients_distinct: "idx_ok d \<Longrightarrow> distinct (idx_clients d k)"
  by (auto simp: idx_ok_def idx_clients_def split: option.splits)

end
