(* ===== verification/Pubsub.thy ===== *)
theory Pubsub
  imports Server
begin

text \<open>
  \<^verbatim>\<open>redis-2.8/src/pubsub.c\<close> and \<^verbatim>\<open>notify.c\<close>: subscriptions, publishing, and the key space
  notifications sent through them. The server keeps, for each channel, the clients that
  subscribed to it and a list of client and pattern pairs; each client keeps its own
  channels and patterns. The invariant says that the two views agree.
\<close>

section \<open>Subscriptions\<close>

definition clientSubscriptionsCount :: "client \<Rightarrow> int" where
  "clientSubscriptionsCount x = int (length (c_pubsub_channels x)) + int (length (c_pubsub_patterns x))"

definition notify_subscription :: "string \<Rightarrow> bytes \<Rightarrow> nat \<Rightarrow> server \<Rightarrow> server" where
  "notify_subscription kind name c s =
     addReplies c [MultiBulkLen 3, Bulk (str kind), Bulk name, Integer (clientSubscriptionsCount (srv_client s c))] s"

definition pubsubSubscribeChannel :: "nat \<Rightarrow> bytes \<Rightarrow> server \<Rightarrow> server \<times> bool" where
  "pubsubSubscribeChannel c channel s =
     (let new = channel \<notin> set (c_pubsub_channels (srv_client s c));
          s = (if new then
                 (upd_client c (\<lambda>x. x\<lparr>c_pubsub_channels := channel # c_pubsub_channels x\<rparr>) s)
                   \<lparr>srv_pubsub_channels := idx_add (srv_pubsub_channels s) channel c\<rparr>
               else s)
      in (notify_subscription ''subscribe'' channel c s, new))"

definition pubsubUnsubscribeChannel :: "nat \<Rightarrow> bytes \<Rightarrow> bool \<Rightarrow> server \<Rightarrow> (server \<times> bool) option" where
  "pubsubUnsubscribeChannel c channel notify s =
     (let found = channel \<in> set (c_pubsub_channels (srv_client s c)) in
      Option.bind
        (if found then
           map_option (\<lambda>d. (upd_client c (\<lambda>x. x\<lparr>c_pubsub_channels := remove1 channel (c_pubsub_channels x)\<rparr>) s)
                             \<lparr>srv_pubsub_channels := d\<rparr>)
             (idx_del (srv_pubsub_channels s) channel c)
         else Some s)
        (\<lambda>s. Some (if notify then notify_subscription ''unsubscribe'' channel c s else s, found)))"

definition pubsubSubscribePattern :: "nat \<Rightarrow> bytes \<Rightarrow> server \<Rightarrow> server \<times> bool" where
  "pubsubSubscribePattern c pat s =
     (let new = pat \<notin> set (c_pubsub_patterns (srv_client s c));
          s = (if new then
                 (upd_client c (\<lambda>x. x\<lparr>c_pubsub_patterns := c_pubsub_patterns x @ [pat]\<rparr>) s)
                   \<lparr>srv_pubsub_patterns := srv_pubsub_patterns s @ [(c, pat)]\<rparr>
               else s)
      in (notify_subscription ''psubscribe'' pat c s, new))"

definition pubsubUnsubscribePattern :: "nat \<Rightarrow> bytes \<Rightarrow> bool \<Rightarrow> server \<Rightarrow> (server \<times> bool) option" where
  "pubsubUnsubscribePattern c pat notify s =
     (let found = pat \<in> set (c_pubsub_patterns (srv_client s c)) in
      Option.bind
        (if found then
           (if (c, pat) \<in> set (srv_pubsub_patterns s)
            then Some ((upd_client c (\<lambda>x. x\<lparr>c_pubsub_patterns := remove1 pat (c_pubsub_patterns x)\<rparr>) s)
                         \<lparr>srv_pubsub_patterns := remove1 (c, pat) (srv_pubsub_patterns s)\<rparr>)
            else None)
         else Some s)
        (\<lambda>s. Some (if notify then notify_subscription ''punsubscribe'' pat c s else s, found)))"

fun unsubscribe_each :: "(bytes \<Rightarrow> server \<Rightarrow> (server \<times> bool) option) \<Rightarrow> bytes list \<Rightarrow> server \<Rightarrow> (server \<times> nat) option" where
  "unsubscribe_each f [] s = Some (s, 0)"
| "unsubscribe_each f (x # xs) s =
     Option.bind (f x s) (\<lambda>(s, b).
     map_option (\<lambda>(s, n). (s, n + (if b then 1 else 0))) (unsubscribe_each f xs s))"

text \<open>\<open>We were subscribed to nothing? Still reply to the client.\<close>\<close>

definition reply_none :: "string \<Rightarrow> nat \<Rightarrow> server \<Rightarrow> server" where
  "reply_none kind c s =
     addReplies c [MultiBulkLen 3, Bulk (str kind), NullBulk, Integer (clientSubscriptionsCount (srv_client s c))] s"

definition pubsubUnsubscribeAllChannels :: "nat \<Rightarrow> bool \<Rightarrow> server \<Rightarrow> (server \<times> nat) option" where
  "pubsubUnsubscribeAllChannels c notify s =
     map_option (\<lambda>(s, count). (if notify \<and> count = 0 then reply_none ''unsubscribe'' c s else s, count))
       (unsubscribe_each (\<lambda>ch. pubsubUnsubscribeChannel c ch notify) (c_pubsub_channels (srv_client s c)) s)"

definition pubsubUnsubscribeAllPatterns :: "nat \<Rightarrow> bool \<Rightarrow> server \<Rightarrow> (server \<times> nat) option" where
  "pubsubUnsubscribeAllPatterns c notify s =
     map_option (\<lambda>(s, count). (if notify \<and> count = 0 then reply_none ''punsubscribe'' c s else s, count))
       (unsubscribe_each (\<lambda>p. pubsubUnsubscribePattern c p notify) (c_pubsub_patterns (srv_client s c)) s)"

section \<open>Publishing\<close>

definition message_reply :: "bytes \<Rightarrow> bytes \<Rightarrow> reply list" where
  "message_reply channel msg = [MultiBulkLen 3, Bulk (str ''message''), Bulk channel, Bulk msg]"

definition pmessage_reply :: "bytes \<Rightarrow> bytes \<Rightarrow> bytes \<Rightarrow> reply list" where
  "pmessage_reply pat channel msg =
     [MultiBulkLen 4, Bulk (str ''pmessage''), Bulk pat, Bulk channel, Bulk msg]"

fun publish_patterns :: "(nat \<times> bytes) list \<Rightarrow> bytes \<Rightarrow> bytes \<Rightarrow> server \<Rightarrow> (server \<times> nat) option" where
  "publish_patterns [] channel msg s = Some (s, 0)"
| "publish_patterns ((c, pat) # ps) channel msg s =
     Option.bind (stringmatchlen pat channel False) (\<lambda>m.
     if m then map_option (\<lambda>(s, n). (s, n + 1)) (publish_patterns ps channel msg (addReplies c (pmessage_reply pat channel msg) s))
     else publish_patterns ps channel msg s)"

definition pubsubPublishMessage :: "bytes \<Rightarrow> bytes \<Rightarrow> server \<Rightarrow> (server \<times> nat) option" where
  "pubsubPublishMessage channel msg s =
     (let cs = idx_clients (srv_pubsub_channels s) channel;
          s = fold (\<lambda>c. addReplies c (message_reply channel msg)) cs s
      in map_option (\<lambda>(s, n). (s, length cs + n)) (publish_patterns (srv_pubsub_patterns s) channel msg s))"

section \<open>Commands\<close>

definition args :: "nat \<Rightarrow> server \<Rightarrow> bytes list" where
  "args c s = tl (c_argv (srv_client s c))"

definition subscribeCommand :: "nat \<Rightarrow> server \<Rightarrow> server option" where
  "subscribeCommand c s =
     (let s = fold (\<lambda>ch s. fst (pubsubSubscribeChannel c ch s)) (args c s) s
      in Some (upd_client c (\<lambda>x. x\<lparr>c_pubsub := True\<rparr>) s))"

definition leave_pubsub :: "nat \<Rightarrow> server \<Rightarrow> server" where
  "leave_pubsub c s =
     (if clientSubscriptionsCount (srv_client s c) = 0 then upd_client c (\<lambda>x. x\<lparr>c_pubsub := False\<rparr>) s else s)"

definition unsubscribeCommand :: "nat \<Rightarrow> server \<Rightarrow> server option" where
  "unsubscribeCommand c s =
     map_option (\<lambda>(s, _). leave_pubsub c s)
       (if argc c s = 1 then pubsubUnsubscribeAllChannels c True s
        else unsubscribe_each (\<lambda>ch. pubsubUnsubscribeChannel c ch True) (args c s) s)"

definition psubscribeCommand :: "nat \<Rightarrow> server \<Rightarrow> server option" where
  "psubscribeCommand c s =
     (let s = fold (\<lambda>p s. fst (pubsubSubscribePattern c p s)) (args c s) s
      in Some (upd_client c (\<lambda>x. x\<lparr>c_pubsub := True\<rparr>) s))"

definition punsubscribeCommand :: "nat \<Rightarrow> server \<Rightarrow> server option" where
  "punsubscribeCommand c s =
     map_option (\<lambda>(s, _). leave_pubsub c s)
       (if argc c s = 1 then pubsubUnsubscribeAllPatterns c True s
        else unsubscribe_each (\<lambda>p. pubsubUnsubscribePattern c p True) (args c s) s)"

definition publishCommand :: "nat \<Rightarrow> server \<Rightarrow> server option" where
  "publishCommand c s =
     map_option (\<lambda>(s, receivers).
       addReply c (Integer (int receivers)) (upd_client c (\<lambda>x. x\<lparr>c_force_repl := True\<rparr>) s))
       (pubsubPublishMessage (argv c s 1) (argv c s 2) s)"

fun matching_channels :: "bytes option \<Rightarrow> bytes list \<Rightarrow> bytes list option" where
  "matching_channels pat [] = Some []"
| "matching_channels pat (ch # chs) =
     Option.bind (case pat of None \<Rightarrow> Some True | Some p \<Rightarrow> stringmatchlen p ch False) (\<lambda>m.
     map_option (\<lambda>r. if m then ch # r else r) (matching_channels pat chs))"

definition pubsubCommand :: "nat \<Rightarrow> server \<Rightarrow> server option" where
  "pubsubCommand c s =
     (if strcasecmp_eq (c_str (argv c s 1)) (str ''channels'') \<and> (argc c s = 2 \<or> argc c s = 3) then
        map_option (\<lambda>chs. addReplies c (MultiBulkLen (int (length chs)) # map Bulk chs) s)
          (matching_channels (if argc c s = 2 then None else Some (argv c s 2)) (map fst (srv_pubsub_channels s)))
      else if strcasecmp_eq (c_str (argv c s 1)) (str ''numsub'') \<and> argc c s \<ge> 2 then
        Some (addReplies c (MultiBulkLen ((int (argc c s) - 2) * 2) #
          concat (map (\<lambda>ch. [Bulk ch, Integer (int (length (idx_clients (srv_pubsub_channels s) ch)))])
            (drop 2 (c_argv (srv_client s c))))) s)
      else if strcasecmp_eq (c_str (argv c s 1)) (str ''numpat'') \<and> argc c s = 2 then
        Some (addReply c (Integer (int (length (srv_pubsub_patterns s)))) s)
      else Some (addReply c (Error (str ''ERR Unknown PUBSUB subcommand or wrong number of arguments for '' @
        [39] @ c_str (argv c s 1) @ [39])) s))"

section \<open>Key space notifications\<close>

definition REDIS_NOTIFY_KEYSPACE :: "32 word" where "REDIS_NOTIFY_KEYSPACE = 1"
definition REDIS_NOTIFY_KEYEVENT :: "32 word" where "REDIS_NOTIFY_KEYEVENT = 2"
definition REDIS_NOTIFY_GENERIC :: "32 word" where "REDIS_NOTIFY_GENERIC = 4"
definition REDIS_NOTIFY_STRING :: "32 word" where "REDIS_NOTIFY_STRING = 8"
definition REDIS_NOTIFY_LIST :: "32 word" where "REDIS_NOTIFY_LIST = 16"
definition REDIS_NOTIFY_SET :: "32 word" where "REDIS_NOTIFY_SET = 32"
definition REDIS_NOTIFY_HASH :: "32 word" where "REDIS_NOTIFY_HASH = 64"
definition REDIS_NOTIFY_ZSET :: "32 word" where "REDIS_NOTIFY_ZSET = 128"
definition REDIS_NOTIFY_EXPIRED :: "32 word" where "REDIS_NOTIFY_EXPIRED = 256"
definition REDIS_NOTIFY_EVICTED :: "32 word" where "REDIS_NOTIFY_EVICTED = 512"
definition REDIS_NOTIFY_ALL :: "32 word" where "REDIS_NOTIFY_ALL = REDIS_NOTIFY_GENERIC OR REDIS_NOTIFY_STRING OR REDIS_NOTIFY_LIST OR
  REDIS_NOTIFY_SET OR REDIS_NOTIFY_HASH OR REDIS_NOTIFY_ZSET OR REDIS_NOTIFY_EXPIRED OR REDIS_NOTIFY_EVICTED"

lemmas notify_defs = REDIS_NOTIFY_KEYSPACE_def REDIS_NOTIFY_KEYEVENT_def REDIS_NOTIFY_GENERIC_def
  REDIS_NOTIFY_STRING_def REDIS_NOTIFY_LIST_def REDIS_NOTIFY_SET_def REDIS_NOTIFY_HASH_def
  REDIS_NOTIFY_ZSET_def REDIS_NOTIFY_EXPIRED_def REDIS_NOTIFY_EVICTED_def REDIS_NOTIFY_ALL_def

definition notify_class :: "char \<Rightarrow> 32 word option" where
  "notify_class ch =
     (if ch = CHR ''A'' then Some REDIS_NOTIFY_ALL
      else if ch = CHR ''g'' then Some REDIS_NOTIFY_GENERIC
      else if ch = CHR ''$'' then Some REDIS_NOTIFY_STRING
      else if ch = CHR ''l'' then Some REDIS_NOTIFY_LIST
      else if ch = CHR ''s'' then Some REDIS_NOTIFY_SET
      else if ch = CHR ''h'' then Some REDIS_NOTIFY_HASH
      else if ch = CHR ''z'' then Some REDIS_NOTIFY_ZSET
      else if ch = CHR ''x'' then Some REDIS_NOTIFY_EXPIRED
      else if ch = CHR ''e'' then Some REDIS_NOTIFY_EVICTED
      else if ch = CHR ''K'' then Some REDIS_NOTIFY_KEYSPACE
      else if ch = CHR ''E'' then Some REDIS_NOTIFY_KEYEVENT
      else None)"

fun classes_flags :: "32 word \<Rightarrow> string \<Rightarrow> 32 word option" where
  "classes_flags flags [] = Some flags"
| "classes_flags flags (ch # cs) =
     (case notify_class ch of None \<Rightarrow> None | Some f \<Rightarrow> classes_flags (flags OR f) cs)"

text \<open>\<open>None\<close> is the result -1.\<close>

definition keyspaceEventsStringToFlags :: "string \<Rightarrow> 32 word option" where
  "keyspaceEventsStringToFlags classes = classes_flags 0 classes"

definition flag_char :: "32 word \<Rightarrow> 32 word \<Rightarrow> char \<Rightarrow> string" where
  "flag_char flags f ch = (if flags AND f \<noteq> 0 then [ch] else [])"

definition keyspaceEventsFlagsToString :: "32 word \<Rightarrow> string" where
  "keyspaceEventsFlagsToString flags =
     (if flags AND REDIS_NOTIFY_ALL = REDIS_NOTIFY_ALL then ''A''
      else flag_char flags REDIS_NOTIFY_GENERIC CHR ''g'' @ flag_char flags REDIS_NOTIFY_STRING CHR ''$'' @
           flag_char flags REDIS_NOTIFY_LIST CHR ''l'' @ flag_char flags REDIS_NOTIFY_SET CHR ''s'' @
           flag_char flags REDIS_NOTIFY_HASH CHR ''h'' @ flag_char flags REDIS_NOTIFY_ZSET CHR ''z'' @
           flag_char flags REDIS_NOTIFY_EXPIRED CHR ''x'' @ flag_char flags REDIS_NOTIFY_EVICTED CHR ''e'') @
     flag_char flags REDIS_NOTIFY_KEYSPACE CHR ''K'' @ flag_char flags REDIS_NOTIFY_KEYEVENT CHR ''E''"

definition event_channel :: "string \<Rightarrow> nat \<Rightarrow> bytes \<Rightarrow> bytes" where
  "event_channel prefix dbid name =
     str prefix @ (case ll2string (replicate 24 0) 24 (int dbid) of Some (n, buf) \<Rightarrow> take n buf | None \<Rightarrow> []) @
     str ''__:'' @ name"

definition notifyKeyspaceEvent :: "32 word \<Rightarrow> string \<Rightarrow> bytes \<Rightarrow> nat \<Rightarrow> server \<Rightarrow> server option" where
  "notifyKeyspaceEvent type event key dbid s =
     (let flags = srv_notify_keyspace_events s in
      if flags AND type = 0 then Some s
      else
        Option.bind (if flags AND REDIS_NOTIFY_KEYSPACE \<noteq> 0
                     then map_option fst (pubsubPublishMessage (event_channel ''__keyspace@'' dbid key) (str event) s)
                     else Some s) (\<lambda>s.
        if flags AND REDIS_NOTIFY_KEYEVENT \<noteq> 0
        then map_option fst (pubsubPublishMessage (event_channel ''__keyevent@'' dbid (str event)) key s)
        else Some s))"

section \<open>The two views of the subscriptions agree\<close>

definition patterns_of :: "nat \<Rightarrow> (nat \<times> bytes) list \<Rightarrow> bytes list" where
  "patterns_of c ps = map snd (filter (\<lambda>x. fst x = c) ps)"

definition pubsub_ok :: "server \<Rightarrow> bool" where
  "pubsub_ok s \<longleftrightarrow> idx_ok (srv_pubsub_channels s) \<and>
     (\<forall>c ch. c \<in> set (idx_clients (srv_pubsub_channels s) ch) \<longleftrightarrow> ch \<in> set (c_pubsub_channels (srv_client s c))) \<and>
     (\<forall>c. distinct (c_pubsub_channels (srv_client s c))) \<and>
     (\<forall>c. patterns_of c (srv_pubsub_patterns s) = c_pubsub_patterns (srv_client s c)) \<and>
     (\<forall>c. distinct (c_pubsub_patterns (srv_client s c)))"

lemma addReplies_simps [server_simps]:
  "srv_client (addReplies c rs s) x =
     (if x = c then (srv_client s c)\<lparr>c_reply := c_reply (srv_client s c) @ rs\<rparr> else srv_client s x)"
  "srv_pubsub_channels (addReplies c rs s) = srv_pubsub_channels s"
  "srv_pubsub_patterns (addReplies c rs s) = srv_pubsub_patterns s"
  "srv_db (addReplies c rs s) = srv_db s" "srv_dirty (addReplies c rs s) = srv_dirty s"
  by (simp_all add: addReplies_def server_simps)

text \<open>The part of the state the invariant reads.\<close>

definition same_subs :: "server \<Rightarrow> server \<Rightarrow> bool" where
  "same_subs s s' \<longleftrightarrow> srv_pubsub_channels s' = srv_pubsub_channels s \<and> srv_pubsub_patterns s' = srv_pubsub_patterns s \<and>
     (\<forall>c. c_pubsub_channels (srv_client s' c) = c_pubsub_channels (srv_client s c) \<and>
          c_pubsub_patterns (srv_client s' c) = c_pubsub_patterns (srv_client s c))"

lemma same_subs_ok: "same_subs s s' \<Longrightarrow> pubsub_ok s' = pubsub_ok s"
  by (simp add: same_subs_def pubsub_ok_def)

lemma same_subs_addReplies [simp]: "same_subs s (addReplies c rs s)"
  by (simp add: same_subs_def server_simps)

lemma same_subs_addReply [simp]: "same_subs s (addReply c r s)"
  by (simp add: same_subs_def addReply_def server_simps)

lemma same_subs_trans: "same_subs a b \<Longrightarrow> same_subs b c \<Longrightarrow> same_subs a c"
  by (simp add: same_subs_def)

lemma pubsub_ok_addReplies [simp]: "pubsub_ok (addReplies c rs s) = pubsub_ok s"
  by (rule same_subs_ok) simp

lemma patterns_of_simps [simp]:
  "patterns_of c (ps @ [(d, p)]) = (if d = c then patterns_of c ps @ [p] else patterns_of c ps)"
  by (simp add: patterns_of_def)

lemma patterns_of_remove1:
  "patterns_of c (remove1 (d, p) ps) = (if d = c then remove1 p (patterns_of c ps) else patterns_of c ps)"
  by (induction ps) (auto simp: patterns_of_def)

lemma patterns_of_mem: "p \<in> set (patterns_of c ps) \<longleftrightarrow> (c, p) \<in> set ps"
  by (force simp: patterns_of_def)

lemma pubsubSubscribeChannel_ok: "pubsub_ok s \<Longrightarrow> pubsub_ok (fst (pubsubSubscribeChannel c ch s))"
  by (auto simp: pubsubSubscribeChannel_def notify_subscription_def Let_def pubsub_ok_def server_simps
      idx_clients_add intro!: idx_add_ok split: if_splits)

lemma pubsubSubscribePattern_ok: "pubsub_ok s \<Longrightarrow> pubsub_ok (fst (pubsubSubscribePattern c p s))"
  by (auto simp: pubsubSubscribePattern_def notify_subscription_def Let_def pubsub_ok_def server_simps)

lemma pubsubUnsubscribeChannel_ok:
  assumes ok: "pubsub_ok s"
  shows "\<exists>s'. pubsubUnsubscribeChannel c ch n s = Some (s', ch \<in> set (c_pubsub_channels (srv_client s c))) \<and> pubsub_ok s' \<and>
     set (c_pubsub_channels (srv_client s' c)) = set (c_pubsub_channels (srv_client s c)) - {ch} \<and>
     c_pubsub_patterns (srv_client s' c) = c_pubsub_patterns (srv_client s c)"
proof (cases "ch \<in> set (c_pubsub_channels (srv_client s c))")
  case False
  then show ?thesis using ok by (simp add: pubsubUnsubscribeChannel_def notify_subscription_def server_simps)
next
  case True
  then have "c \<in> set (idx_clients (srv_pubsub_channels s) ch)" using ok by (simp add: pubsub_ok_def)
  then obtain d where d: "idx_del (srv_pubsub_channels s) ch c = Some d"
    "\<forall>x. idx_clients d x = (if x = ch then remove1 c (idx_clients (srv_pubsub_channels s) ch)
       else idx_clients (srv_pubsub_channels s) x)"
    using idx_del_Some by blast
  have dok: "idx_ok d" using idx_del_ok [OF _ d(1)] ok by (simp add: pubsub_ok_def)
  let ?s = "(upd_client c (\<lambda>x. x\<lparr>c_pubsub_channels := remove1 ch (c_pubsub_channels x)\<rparr>) s)\<lparr>srv_pubsub_channels := d\<rparr>"
  have ds: "distinct (idx_clients (srv_pubsub_channels s) ch)" "distinct (c_pubsub_channels (srv_client s c))"
    using ok by (simp_all add: pubsub_ok_def idx_clients_distinct)
  have "pubsub_ok ?s" using ok dok d(2) ds by (auto simp: pubsub_ok_def server_simps)
  then show ?thesis using True d(1) ds
    by (auto simp: pubsubUnsubscribeChannel_def notify_subscription_def server_simps)
qed

lemma pubsubUnsubscribePattern_ok:
  assumes ok: "pubsub_ok s"
  shows "\<exists>s'. pubsubUnsubscribePattern c p n s = Some (s', p \<in> set (c_pubsub_patterns (srv_client s c))) \<and> pubsub_ok s' \<and>
     set (c_pubsub_patterns (srv_client s' c)) = set (c_pubsub_patterns (srv_client s c)) - {p} \<and>
     c_pubsub_channels (srv_client s' c) = c_pubsub_channels (srv_client s c)"
proof (cases "p \<in> set (c_pubsub_patterns (srv_client s c))")
  case False
  then show ?thesis using ok by (simp add: pubsubUnsubscribePattern_def notify_subscription_def server_simps)
next
  case True
  then have mem: "(c, p) \<in> set (srv_pubsub_patterns s)"
    using ok patterns_of_mem [of p c "srv_pubsub_patterns s"] by (simp add: pubsub_ok_def)
  have ds: "distinct (c_pubsub_patterns (srv_client s c))" using ok by (simp add: pubsub_ok_def)
  let ?s = "(upd_client c (\<lambda>x. x\<lparr>c_pubsub_patterns := remove1 p (c_pubsub_patterns x)\<rparr>) s)
     \<lparr>srv_pubsub_patterns := remove1 (c, p) (srv_pubsub_patterns s)\<rparr>"
  have "pubsub_ok ?s" using ok by (auto simp: pubsub_ok_def server_simps patterns_of_remove1)
  then show ?thesis using True mem ds
    by (auto simp: pubsubUnsubscribePattern_def notify_subscription_def server_simps)
qed

lemma unsubscribe_each_channels:
  "pubsub_ok s \<Longrightarrow> \<exists>s' n. unsubscribe_each (\<lambda>ch. pubsubUnsubscribeChannel c ch b) chs s = Some (s', n) \<and> pubsub_ok s' \<and>
     set (c_pubsub_channels (srv_client s' c)) = set (c_pubsub_channels (srv_client s c)) - set chs"
proof (induction chs arbitrary: s)
  case (Cons ch chs)
  obtain s1 where s1: "pubsubUnsubscribeChannel c ch b s = Some (s1, ch \<in> set (c_pubsub_channels (srv_client s c)))" "pubsub_ok s1"
    "set (c_pubsub_channels (srv_client s1 c)) = set (c_pubsub_channels (srv_client s c)) - {ch}"
    using pubsubUnsubscribeChannel_ok [OF Cons.prems] by blast
  show ?case using Cons.IH [OF s1(2)] s1 by auto
qed simp

lemma unsubscribe_each_patterns:
  "pubsub_ok s \<Longrightarrow> \<exists>s' n. unsubscribe_each (\<lambda>p. pubsubUnsubscribePattern c p b) ps s = Some (s', n) \<and> pubsub_ok s' \<and>
     set (c_pubsub_patterns (srv_client s' c)) = set (c_pubsub_patterns (srv_client s c)) - set ps"
proof (induction ps arbitrary: s)
  case (Cons p ps)
  obtain s1 where s1: "pubsubUnsubscribePattern c p b s = Some (s1, p \<in> set (c_pubsub_patterns (srv_client s c)))" "pubsub_ok s1"
    "set (c_pubsub_patterns (srv_client s1 c)) = set (c_pubsub_patterns (srv_client s c)) - {p}"
    using pubsubUnsubscribePattern_ok [OF Cons.prems] by blast
  show ?case using Cons.IH [OF s1(2)] s1 by auto
qed simp

lemma fold_ok: "(\<And>x s. P s \<Longrightarrow> P (f x s)) \<Longrightarrow> P s \<Longrightarrow> P (fold f xs s)"
  by (induction xs arbitrary: s) auto

lemma pubsub_ok_flag: "(\<And>x. c_pubsub_channels (f x) = c_pubsub_channels x) \<Longrightarrow>
    (\<And>x. c_pubsub_patterns (f x) = c_pubsub_patterns x) \<Longrightarrow> pubsub_ok (upd_client c f s) = pubsub_ok s"
  by (rule same_subs_ok) (simp add: same_subs_def server_simps)

text \<open>C8. On a state in which the server's and the clients' views of the subscriptions agree,
  the four subscription commands, with any arguments, pass every assertion (the channel and
  the client are always found in the server's tables) and reach a state in which they agree
  again: no client stays in a table it left, no empty channel is kept. Unsubscribing without
  arguments leaves no subscription of that kind.\<close>

theorem pubsub_commands_ok:
  assumes ok: "pubsub_ok s"
  shows "(\<exists>s'. subscribeCommand c s = Some s' \<and> pubsub_ok s') \<and>
    (\<exists>s'. psubscribeCommand c s = Some s' \<and> pubsub_ok s') \<and>
    (\<exists>s'. unsubscribeCommand c s = Some s' \<and> pubsub_ok s' \<and> (argc c s = 1 \<longrightarrow> c_pubsub_channels (srv_client s' c) = [])) \<and>
    (\<exists>s'. punsubscribeCommand c s = Some s' \<and> pubsub_ok s' \<and> (argc c s = 1 \<longrightarrow> c_pubsub_patterns (srv_client s' c) = []))"
proof (intro conjI)
  show "\<exists>s'. subscribeCommand c s = Some s' \<and> pubsub_ok s'"
    using fold_ok [of pubsub_ok "\<lambda>ch s. fst (pubsubSubscribeChannel c ch s)", OF pubsubSubscribeChannel_ok ok]
    by (simp add: subscribeCommand_def Let_def pubsub_ok_flag)
  show "\<exists>s'. psubscribeCommand c s = Some s' \<and> pubsub_ok s'"
    using fold_ok [of pubsub_ok "\<lambda>p s. fst (pubsubSubscribePattern c p s)", OF pubsubSubscribePattern_ok ok]
    by (simp add: psubscribeCommand_def Let_def pubsub_ok_flag)
  have leave: "pubsub_ok (leave_pubsub c t) = pubsub_ok t" "c_pubsub_channels (srv_client (leave_pubsub c t) c) = c_pubsub_channels (srv_client t c)"
    "c_pubsub_patterns (srv_client (leave_pubsub c t) c) = c_pubsub_patterns (srv_client t c)" for t
    by (simp_all add: leave_pubsub_def pubsub_ok_flag server_simps)
  obtain s1 n1 where c1: "unsubscribe_each (\<lambda>ch. pubsubUnsubscribeChannel c ch True) (c_pubsub_channels (srv_client s c)) s = Some (s1, n1)"
    "pubsub_ok s1" "c_pubsub_channels (srv_client s1 c) = []"
    using unsubscribe_each_channels [OF ok, of c True "c_pubsub_channels (srv_client s c)"] by auto
  obtain s2 n2 where c2: "unsubscribe_each (\<lambda>ch. pubsubUnsubscribeChannel c ch True) (args c s) s = Some (s2, n2)" "pubsub_ok s2"
    using unsubscribe_each_channels [OF ok] by blast
  show "\<exists>s'. unsubscribeCommand c s = Some s' \<and> pubsub_ok s' \<and> (argc c s = 1 \<longrightarrow> c_pubsub_channels (srv_client s' c) = [])"
    using c1 c2 by (simp add: unsubscribeCommand_def pubsubUnsubscribeAllChannels_def leave reply_none_def server_simps)
  obtain s3 n3 where c3: "unsubscribe_each (\<lambda>p. pubsubUnsubscribePattern c p True) (c_pubsub_patterns (srv_client s c)) s = Some (s3, n3)"
    "pubsub_ok s3" "c_pubsub_patterns (srv_client s3 c) = []"
    using unsubscribe_each_patterns [OF ok, of c True "c_pubsub_patterns (srv_client s c)"] by auto
  obtain s4 n4 where c4: "unsubscribe_each (\<lambda>p. pubsubUnsubscribePattern c p True) (args c s) s = Some (s4, n4)" "pubsub_ok s4"
    using unsubscribe_each_patterns [OF ok] by blast
  show "\<exists>s'. punsubscribeCommand c s = Some s' \<and> pubsub_ok s' \<and> (argc c s = 1 \<longrightarrow> c_pubsub_patterns (srv_client s' c) = [])"
    using c3 c4 by (simp add: punsubscribeCommand_def pubsubUnsubscribeAllPatterns_def leave reply_none_def server_simps)
qed


lemma pubsub_ok_init: "pubsub_ok (initServer cs now)"
  by (simp add: pubsub_ok_def initServer_def createClient_def idx_ok_def idx_clients_def patterns_of_def)

theorem pubsub_commands_ok_witness:
  "\<exists>s'. subscribeCommand 1 (with_argv 1 [''subscribe'', ''news'', ''news''] (initServer [1] 0)) = Some s' \<and> pubsub_ok s'"
proof -
  have "pubsub_ok (with_argv 1 [''subscribe'', ''news'', ''news''] (initServer [1] 0))"
    using pubsub_ok_init by (simp add: with_argv_def pubsub_ok_flag)
  then show ?thesis using pubsub_commands_ok by blast
qed

section \<open>Delivery\<close>

lemma fold_addReplies_client:
  "distinct cs \<Longrightarrow> srv_client (fold (\<lambda>c. addReplies c rs) cs s) x =
     (if x \<in> set cs then (srv_client s x)\<lparr>c_reply := c_reply (srv_client s x) @ rs\<rparr> else srv_client s x)"
  by (induction cs arbitrary: s) (auto simp: server_simps)

lemma fold_addReplies_rest:
  "srv_pubsub_patterns (fold (\<lambda>c. addReplies c rs) cs s) = srv_pubsub_patterns s"
  "srv_pubsub_channels (fold (\<lambda>c. addReplies c rs) cs s) = srv_pubsub_channels s"
  "srv_db (fold (\<lambda>c. addReplies c rs) cs s) = srv_db s"
  by (induction cs arbitrary: s) (auto simp: server_simps)

definition matches_pat :: "bytes \<Rightarrow> bytes \<Rightarrow> bool" where
  "matches_pat channel pat \<longleftrightarrow> stringmatchlen pat channel False = Some True"

lemma publish_patterns_spec:
  "\<forall>x \<in> set ps. stringmatchlen (snd x) channel False \<noteq> None \<Longrightarrow>
   \<exists>s'. publish_patterns ps channel msg s = Some (s', length (filter (\<lambda>x. matches_pat channel (snd x)) ps)) \<and>
     srv_pubsub_channels s' = srv_pubsub_channels s \<and> srv_pubsub_patterns s' = srv_pubsub_patterns s \<and> srv_db s' = srv_db s \<and>
     (\<forall>c. srv_client s' c = (srv_client s c)\<lparr>c_reply := c_reply (srv_client s c) @
        concat (map (\<lambda>p. pmessage_reply p channel msg) (filter (matches_pat channel) (patterns_of c ps)))\<rparr>)"
proof (induction ps arbitrary: s)
  case Nil
  then show ?case by (simp add: patterns_of_def)
next
  case (Cons x ps)
  obtain c p where x: "x = (c, p)" by (cases x)
  obtain m where m: "stringmatchlen p channel False = Some m" using Cons.prems x by auto
  let ?s = "if m then addReplies c (pmessage_reply p channel msg) s else s"
  obtain s' where s': "publish_patterns ps channel msg ?s = Some (s', length (filter (\<lambda>x. matches_pat channel (snd x)) ps))"
     "srv_pubsub_channels s' = srv_pubsub_channels ?s" "srv_pubsub_patterns s' = srv_pubsub_patterns ?s" "srv_db s' = srv_db ?s"
     "\<forall>c. srv_client s' c = (srv_client ?s c)\<lparr>c_reply := c_reply (srv_client ?s c) @
        concat (map (\<lambda>p. pmessage_reply p channel msg) (filter (matches_pat channel) (patterns_of c ps)))\<rparr>"
    using Cons.IH [of ?s] Cons.prems by auto
  have "patterns_of d (x # ps) = (if d = c then p # patterns_of d ps else patterns_of d ps)" for d
    by (simp add: patterns_of_def x)
  moreover have "matches_pat channel p = m" using m by (simp add: matches_pat_def)
  ultimately show ?case using s' m x by (cases m) (auto simp: server_simps)
qed

text \<open>C29. Publishing a message on a state in which the two views agree, when no pattern makes
  the matcher leave its buffer: every client that subscribed to the channel gets the message
  once, and once more for each of its patterns that matches, in the order it subscribed to
  them; no other client gets anything and nothing else changes. The result is the number
  of messages sent.\<close>

theorem pubsubPublishMessage_delivers:
  assumes ok: "pubsub_ok s"
    and pats: "\<forall>x \<in> set (srv_pubsub_patterns s). stringmatchlen (snd x) channel False \<noteq> None"
  shows "\<exists>s'. pubsubPublishMessage channel msg s =
       Some (s', length (idx_clients (srv_pubsub_channels s) channel) +
                 length (filter (\<lambda>x. matches_pat channel (snd x)) (srv_pubsub_patterns s))) \<and>
     srv_pubsub_channels s' = srv_pubsub_channels s \<and> srv_pubsub_patterns s' = srv_pubsub_patterns s \<and> srv_db s' = srv_db s \<and>
     (\<forall>c. srv_client s' c = (srv_client s c)\<lparr>c_reply := c_reply (srv_client s c) @
        (if channel \<in> set (c_pubsub_channels (srv_client s c)) then message_reply channel msg else []) @
        concat (map (\<lambda>p. pmessage_reply p channel msg)
          (filter (matches_pat channel) (c_pubsub_patterns (srv_client s c))))\<rparr>)"
proof -
  let ?cs = "idx_clients (srv_pubsub_channels s) channel"
  let ?s = "fold (\<lambda>c. addReplies c (message_reply channel msg)) ?cs s"
  have d: "distinct ?cs" using ok by (simp add: pubsub_ok_def idx_clients_distinct)
  obtain s' where "publish_patterns (srv_pubsub_patterns s) channel msg ?s =
        Some (s', length (filter (\<lambda>x. matches_pat channel (snd x)) (srv_pubsub_patterns s)))"
     "srv_pubsub_channels s' = srv_pubsub_channels ?s" "srv_pubsub_patterns s' = srv_pubsub_patterns ?s" "srv_db s' = srv_db ?s"
     "\<forall>c. srv_client s' c = (srv_client ?s c)\<lparr>c_reply := c_reply (srv_client ?s c) @
        concat (map (\<lambda>p. pmessage_reply p channel msg) (filter (matches_pat channel) (patterns_of c (srv_pubsub_patterns s))))\<rparr>"
    using publish_patterns_spec [OF pats, of msg ?s] by blast
  then show ?thesis using ok d
    by (simp add: pubsubPublishMessage_def Let_def fold_addReplies_rest fold_addReplies_client pubsub_ok_def)
qed

theorem pubsubPublishMessage_delivers_witness:
  "\<exists>s'. pubsubPublishMessage (str ''news'') (str ''hi'')
      (fst (pubsubSubscribeChannel 2 (str ''news'') (initServer [1, 2] 0))) = Some (s', 1) \<and>
    c_reply (srv_client s' 1) = []"
proof -
  let ?s = "fst (pubsubSubscribeChannel 2 (str ''news'') (initServer [1, 2] 0))"
  have "pubsub_ok ?s" by (rule pubsubSubscribeChannel_ok [OF pubsub_ok_init])
  moreover have p: "srv_pubsub_patterns ?s = []" "idx_clients (srv_pubsub_channels ?s) (str ''news'') = [2]"
    "c_reply (srv_client ?s 1) = []" "c_pubsub_channels (srv_client ?s 1) = []" "c_pubsub_patterns (srv_client ?s 1) = []"
    by (simp_all add: pubsubSubscribeChannel_def initServer_def createClient_def notify_subscription_def Let_def
        server_simps idx_add_def idx_clients_def)
  ultimately show ?thesis using pubsubPublishMessage_delivers [of ?s "str ''news''" "str ''hi''"] by fastforce
qed

section \<open>Notification classes\<close>

lemma classes_flags_append:
  "classes_flags f (a @ b) = Option.bind (classes_flags f a) (\<lambda>g. classes_flags g b)"
  by (induction a arbitrary: f) (auto split: option.splits)

lemma classes_flag_char:
  "notify_class ch = Some g \<Longrightarrow> classes_flags f (flag_char flags g ch) = Some (f OR (if flags AND g \<noteq> 0 then g else 0))"
  by (simp add: flag_char_def)

lemma notify_classes:
  "notify_class CHR ''A'' = Some REDIS_NOTIFY_ALL" "notify_class CHR ''g'' = Some REDIS_NOTIFY_GENERIC"
  "notify_class CHR ''$'' = Some REDIS_NOTIFY_STRING" "notify_class CHR ''l'' = Some REDIS_NOTIFY_LIST"
  "notify_class CHR ''s'' = Some REDIS_NOTIFY_SET" "notify_class CHR ''h'' = Some REDIS_NOTIFY_HASH"
  "notify_class CHR ''z'' = Some REDIS_NOTIFY_ZSET" "notify_class CHR ''x'' = Some REDIS_NOTIFY_EXPIRED"
  "notify_class CHR ''e'' = Some REDIS_NOTIFY_EVICTED" "notify_class CHR ''K'' = Some REDIS_NOTIFY_KEYSPACE"
  "notify_class CHR ''E'' = Some REDIS_NOTIFY_KEYEVENT"
  by (simp_all add: notify_class_def)

lemma and_pow_bit:
  "(f AND 1 \<noteq> (0::32 word)) = bit f 0" "(f AND 2 \<noteq> (0::32 word)) = bit f 1" "(f AND 4 \<noteq> (0::32 word)) = bit f 2"
  "(f AND 8 \<noteq> (0::32 word)) = bit f 3" "(f AND 16 \<noteq> (0::32 word)) = bit f 4" "(f AND 32 \<noteq> (0::32 word)) = bit f 5"
  "(f AND 64 \<noteq> (0::32 word)) = bit f 6" "(f AND 128 \<noteq> (0::32 word)) = bit f 7" "(f AND 256 \<noteq> (0::32 word)) = bit f 8"
  "(f AND 512 \<noteq> (0::32 word)) = bit f 9"
  using and_exp_eq_0_iff_not_bit [of f 0] and_exp_eq_0_iff_not_bit [of f 1] and_exp_eq_0_iff_not_bit [of f 2]
    and_exp_eq_0_iff_not_bit [of f 3] and_exp_eq_0_iff_not_bit [of f 4] and_exp_eq_0_iff_not_bit [of f 5]
    and_exp_eq_0_iff_not_bit [of f 6] and_exp_eq_0_iff_not_bit [of f 7] and_exp_eq_0_iff_not_bit [of f 8]
    and_exp_eq_0_iff_not_bit [of f 9]
  by simp_all

definition flag_if :: "bool \<Rightarrow> 32 word \<Rightarrow> 32 word" where
  "flag_if b g = (if b then g else 0)"

lemma bit_flag_if: "bit (flag_if b g) n = (b \<and> bit g n)"
  by (simp add: flag_if_def)

lemma less10: "n < (10::nat) \<longleftrightarrow> n \<in> {0, 1, 2, 3, 4, 5, 6, 7, 8, 9}"
  by auto

lemma notify_all_value: "REDIS_NOTIFY_ALL = 1020"
  unfolding notify_defs by code_simp

lemma bit_1020: "bit (1020 :: 32 word) n \<longleftrightarrow> 2 \<le> n \<and> n < 10"
proof -
  have e: "(1020 :: 32 word) = mask 10 AND NOT (mask 2)" by code_simp
  show ?thesis unfolding e by (auto simp: bit_simps)
qed

lemma flags_by_bits:
  assumes "f AND NOT 1023 = 0"
  shows "flag_if (bit f 2) 4 OR flag_if (bit f 3) 8 OR flag_if (bit f 4) 16 OR flag_if (bit f 5) 32 OR
    flag_if (bit f 6) 64 OR flag_if (bit f 7) 128 OR flag_if (bit f 8) 256 OR flag_if (bit f 9) 512 OR
    flag_if (bit f 0) 1 OR flag_if (bit f 1) 2 = f"
proof (rule bit_word_eqI)
  fix n :: nat
  have hi: "\<not> bit f n" if "10 \<le> n"
  proof -
    have "(1023 :: 32 word) = mask 10" by code_simp
    then have "\<not> bit (f AND NOT (mask 10)) n" using assms by simp
    then show ?thesis using that bit_imp_le_length [of f n] by (auto simp: bit_simps)
  qed
  have pw: "(4 :: 32 word) = 2 ^ 2" "(8 :: 32 word) = 2 ^ 3" "(16 :: 32 word) = 2 ^ 4" "(32 :: 32 word) = 2 ^ 5"
    "(64 :: 32 word) = 2 ^ 6" "(128 :: 32 word) = 2 ^ 7" "(256 :: 32 word) = 2 ^ 8" "(512 :: 32 word) = 2 ^ 9"
    "(1 :: 32 word) = 2 ^ 0" by simp_all
  have "bit (2 ^ 1 :: 32 word) n = (n = 1)" by (auto simp only: bit_exp_iff) auto
  then have two: "bit (2 :: 32 word) n = (n = 1)" by simp
  show "bit (flag_if (bit f 2) 4 OR flag_if (bit f 3) 8 OR flag_if (bit f 4) 16 OR flag_if (bit f 5) 32 OR
    flag_if (bit f 6) 64 OR flag_if (bit f 7) 128 OR flag_if (bit f 8) 256 OR flag_if (bit f 9) 512 OR
    flag_if (bit f 0) 1 OR flag_if (bit f 1) 2) n = bit f n"
  proof (cases "n < 10")
    case True
    then have "n \<in> {0, 1, 2, 3, 4, 5, 6, 7, 8, 9}" by (simp add: less10)
    then show ?thesis by (elim insertE emptyE) (simp_all add: bit_or_iff bit_flag_if)
  next
    case False
    then show ?thesis using hi two unfolding pw bit_or_iff bit_flag_if bit_exp_iff by auto
  qed
qed


text \<open>The textual form of the notification classes that \<open>CONFIG GET\<close> prints and
  \<open>CONFIG REWRITE\<close> saves reads back as the same set of classes, for every combination of the
  ten flags.\<close>

theorem notify_flags_roundtrip:
  assumes "flags AND NOT 1023 = 0"
  shows "keyspaceEventsStringToFlags (keyspaceEventsFlagsToString flags) = Some flags"
proof -
  have fi: "(if flags AND g \<noteq> 0 then g else 0) = flag_if (flags AND g \<noteq> 0) g" for g by (simp add: flag_if_def)
  show ?thesis
  proof (cases "flags AND REDIS_NOTIFY_ALL = REDIS_NOTIFY_ALL")
    case True
    have b: "bit flags n" if "2 \<le> n" "n < 10" for n
    proof -
      have "bit (flags AND 1020) n" using True bit_1020 [of n] that by (simp add: notify_all_value)
      then show ?thesis by (simp add: bit_and_iff)
    qed
    have e: "(1020 :: 32 word) = 4 OR 8 OR 16 OR 32 OR 64 OR 128 OR 256 OR 512" by code_simp
    have bb: "bit flags 2" "bit flags 3" "bit flags 4" "bit flags 5" "bit flags 6" "bit flags 7" "bit flags 8" "bit flags 9"
      by (simp_all add: b)
    have tr: "flag_if True g = g" for g by (simp add: flag_if_def)
    have "1020 OR flag_if (bit flags 0) 1 OR flag_if (bit flags 1) 2 = flags"
      using flags_by_bits [OF assms] unfolding e or.assoc by (simp only: bb tr)
    moreover have "keyspaceEventsStringToFlags (keyspaceEventsFlagsToString flags) =
        Some (1020 OR flag_if (flags AND 1 \<noteq> 0) 1 OR flag_if (flags AND 2 \<noteq> 0) 2)"
      unfolding keyspaceEventsStringToFlags_def keyspaceEventsFlagsToString_def if_P [OF True] classes_flags_append
      by (simp only: classes_flags.simps notify_classes option.case Option.bind.simps classes_flag_char fi or.left_neutral
        or.assoc notify_all_value REDIS_NOTIFY_KEYSPACE_def REDIS_NOTIFY_KEYEVENT_def)
    ultimately show ?thesis unfolding and_pow_bit by simp
  next
    case False
    then have "keyspaceEventsStringToFlags (keyspaceEventsFlagsToString flags) = Some (
        flag_if (flags AND 4 \<noteq> 0) 4 OR flag_if (flags AND 8 \<noteq> 0) 8 OR flag_if (flags AND 16 \<noteq> 0) 16 OR flag_if (flags AND 32 \<noteq> 0) 32 OR
        flag_if (flags AND 64 \<noteq> 0) 64 OR flag_if (flags AND 128 \<noteq> 0) 128 OR flag_if (flags AND 256 \<noteq> 0) 256 OR
        flag_if (flags AND 512 \<noteq> 0) 512 OR flag_if (flags AND 1 \<noteq> 0) 1 OR flag_if (flags AND 2 \<noteq> 0) 2)"
      by (simp only: keyspaceEventsStringToFlags_def keyspaceEventsFlagsToString_def if_False classes_flags_append
        classes_flag_char notify_classes fi bind.bind_lunit Option.bind.simps or.left_neutral or.assoc)
        (simp only: notify_defs or.assoc)
    then show ?thesis unfolding and_pow_bit flags_by_bits [OF assms] .
  qed
qed

theorem notify_flags_roundtrip_witness:
  "keyspaceEventsStringToFlags (keyspaceEventsFlagsToString 0x15) = Some 0x15"
  by (rule notify_flags_roundtrip) simp

end
