(* ===== verification/Keyspace.thy ===== *)
theory Keyspace
  imports Pubsub "HOL-Library.Sublist"
begin

text \<open>
  \<^verbatim>\<open>redis-2.8/src/db.c\<close>, with the part of \<^verbatim>\<open>multi.c\<close> that marks watching clients and
  \<open>signalListAsReady\<close> of \<^verbatim>\<open>t_list.c\<close>: the key space with its expire times, the commands
  on keys of any type, and the hooks every write goes through.

  \<open>long long\<close> arithmetic on times wraps at 64 bits. \<open>FLUSHALL\<close>'s snapshot and its signal to
  the saving child are input and output and not modelled.
\<close>

section \<open>Hooks\<close>

definition touchWatchedKey :: "nat \<Rightarrow> bytes \<Rightarrow> server \<Rightarrow> server" where
  "touchWatchedKey db key s =
     fold (\<lambda>c. upd_client c (\<lambda>x. x\<lparr>c_dirty_cas := True\<rparr>)) (idx_clients (db_watched_keys (srv_db s db)) key) s"

text \<open>\<open>None\<close> is the data base number -1, all data bases.\<close>

definition touchWatchedKeysOnFlush :: "nat option \<Rightarrow> server \<Rightarrow> server" where
  "touchWatchedKeysOnFlush dbid s =
     fold (\<lambda>c s.
       if \<exists>(db, key) \<in> set (c_watched_keys (srv_client s c)).
            (dbid = None \<or> dbid = Some db) \<and> map_of (db_dict (srv_db s db)) key \<noteq> None
       then upd_client c (\<lambda>x. x\<lparr>c_dirty_cas := True\<rparr>) s else s) (srv_clients s) s"

definition signalModifiedKey :: "nat \<Rightarrow> bytes \<Rightarrow> server \<Rightarrow> server" where
  "signalModifiedKey db key = touchWatchedKey db key"

definition signalListAsReady :: "nat \<Rightarrow> bytes \<Rightarrow> server \<Rightarrow> server" where
  "signalListAsReady db key s =
     (if map_of (db_blocking_keys (srv_db s db)) key = None then s
      else if key \<in> set (db_ready_keys (srv_db s db)) then s
      else (upd_db db (\<lambda>d. d\<lparr>db_ready_keys := key # db_ready_keys d\<rparr>) s)
             \<lparr>srv_ready_keys := srv_ready_keys s @ [(db, key)]\<rparr>)"

section \<open>Expire times\<close>

definition removeExpire :: "nat \<Rightarrow> bytes \<Rightarrow> server \<Rightarrow> (server \<times> bool) option" where
  "removeExpire db key s =
     (if map_of (db_dict (srv_db s db)) key = None then None
      else Some (upd_db db (\<lambda>d. d\<lparr>db_expires := AList.delete key (db_expires d)\<rparr>) s,
                 map_of (db_expires (srv_db s db)) key \<noteq> None))"

definition setExpire :: "nat \<Rightarrow> bytes \<Rightarrow> int \<Rightarrow> server \<Rightarrow> server option" where
  "setExpire db key when s =
     (if map_of (db_dict (srv_db s db)) key = None then None
      else Some (upd_db db (\<lambda>d. d\<lparr>db_expires := AList.update key when (db_expires d)\<rparr>) s))"

definition getExpire :: "nat \<Rightarrow> bytes \<Rightarrow> server \<Rightarrow> int option" where
  "getExpire db key s =
     (case map_of (db_expires (srv_db s db)) key of
        None \<Rightarrow> Some (- 1)
      | Some when \<Rightarrow> if map_of (db_dict (srv_db s db)) key = None then None else Some when)"

definition propagateExpire :: "nat \<Rightarrow> bytes \<Rightarrow> server \<Rightarrow> server" where
  "propagateExpire db key = propagate db [str ''DEL'', key] True True"

definition dbDelete :: "nat \<Rightarrow> bytes \<Rightarrow> server \<Rightarrow> server \<times> bool" where
  "dbDelete db key s =
     (upd_db db (\<lambda>d. d\<lparr>db_expires := AList.delete key (db_expires d), db_dict := AList.delete key (db_dict d)\<rparr>) s,
      map_of (db_dict (srv_db s db)) key \<noteq> None)"

definition expireIfNeeded :: "nat \<Rightarrow> bytes \<Rightarrow> server \<Rightarrow> (server \<times> bool) option" where
  "expireIfNeeded db key s = do {
     when \<leftarrow> getExpire db key s;
     if when < 0 then Some (s, False)
     else if srv_loading s then Some (s, False)
     else
       let now = (if srv_lua_caller s then srv_lua_time_start s else srv_mstime s) in
       if srv_masterhost s then Some (s, now > when)
       else if now \<le> when then Some (s, False)
       else do {
         let s = s\<lparr>srv_stat_expiredkeys := srv_stat_expiredkeys s + 1\<rparr>;
         let s = propagateExpire db key s;
         s \<leftarrow> notifyKeyspaceEvent REDIS_NOTIFY_EXPIRED ''expired'' key db s;
         Some (dbDelete db key s)
       }
   }"

section \<open>Reading and writing keys\<close>

definition lookupKey :: "nat \<Rightarrow> bytes \<Rightarrow> server \<Rightarrow> robj option" where
  "lookupKey db key s = map_of (db_dict (srv_db s db)) key"

definition lookupKeyRead :: "nat \<Rightarrow> bytes \<Rightarrow> server \<Rightarrow> (server \<times> robj option) option" where
  "lookupKeyRead db key s = do {
     (s, _) \<leftarrow> expireIfNeeded db key s;
     let val = lookupKey db key s;
     Some (if val = None then s\<lparr>srv_stat_keyspace_misses := srv_stat_keyspace_misses s + 1\<rparr>
           else s\<lparr>srv_stat_keyspace_hits := srv_stat_keyspace_hits s + 1\<rparr>, val)
   }"

definition lookupKeyWrite :: "nat \<Rightarrow> bytes \<Rightarrow> server \<Rightarrow> (server \<times> robj option) option" where
  "lookupKeyWrite db key s = do {
     (s, _) \<leftarrow> expireIfNeeded db key s;
     Some (s, lookupKey db key s)
   }"

definition lookupKeyReadOrReply :: "nat \<Rightarrow> bytes \<Rightarrow> reply \<Rightarrow> server \<Rightarrow> (server \<times> robj option) option" where
  "lookupKeyReadOrReply c key r s = do {
     (s, v) \<leftarrow> lookupKeyRead (client_db c s) key s;
     Some (if v = None then addReply c r s else s, v)
   }"

definition lookupKeyWriteOrReply :: "nat \<Rightarrow> bytes \<Rightarrow> reply \<Rightarrow> server \<Rightarrow> (server \<times> robj option) option" where
  "lookupKeyWriteOrReply c key r s = do {
     (s, v) \<leftarrow> lookupKeyWrite (client_db c s) key s;
     Some (if v = None then addReply c r s else s, v)
   }"

definition dbAdd :: "nat \<Rightarrow> bytes \<Rightarrow> robj \<Rightarrow> server \<Rightarrow> server option" where
  "dbAdd db key val s =
     (if map_of (db_dict (srv_db s db)) key \<noteq> None then None
      else
        let s = upd_db db (\<lambda>d. d\<lparr>db_dict := (key, val) # db_dict d\<rparr>) s
        in Some (if obj_type val = REDIS_LIST then signalListAsReady db key s else s))"

definition dbOverwrite :: "nat \<Rightarrow> bytes \<Rightarrow> robj \<Rightarrow> server \<Rightarrow> server option" where
  "dbOverwrite db key val s =
     (if map_of (db_dict (srv_db s db)) key = None then None
      else Some (upd_db db (\<lambda>d. d\<lparr>db_dict := AList.update key val (db_dict d)\<rparr>) s))"

definition setKey :: "nat \<Rightarrow> bytes \<Rightarrow> robj \<Rightarrow> server \<Rightarrow> server option" where
  "setKey db key val s = do {
     (s, old) \<leftarrow> lookupKeyWrite db key s;
     s \<leftarrow> (if old = None then dbAdd db key val s else dbOverwrite db key val s);
     (s, _) \<leftarrow> removeExpire db key s;
     Some (signalModifiedKey db key s)
   }"

definition dbExists :: "nat \<Rightarrow> bytes \<Rightarrow> server \<Rightarrow> bool" where
  "dbExists db key s \<longleftrightarrow> map_of (db_dict (srv_db s db)) key \<noteq> None"

text \<open>\<open>picks\<close> are the entries \<open>dictGetRandomKey\<close> chooses, one for each turn of the loop;
  \<open>None\<close> when the loop is still running after all of them.\<close>

fun dbRandomKey :: "nat list \<Rightarrow> nat \<Rightarrow> server \<Rightarrow> (server \<times> bytes option) option" where
  "dbRandomKey [] db s = (if db_dict (srv_db s db) = [] then Some (s, None) else None)"
| "dbRandomKey (r # rs) db s =
     (if db_dict (srv_db s db) = [] then Some (s, None)
      else
        let d = db_dict (srv_db s db); key = fst (d ! (r mod length d)) in
        if map_of (db_expires (srv_db s db)) key = None then Some (s, Some key)
        else do {
          (s, expired) \<leftarrow> expireIfNeeded db key s;
          if expired then dbRandomKey rs db s else Some (s, Some key)
        })"

text \<open>A string ready to be modified in place: the copy with the bytes themselves.\<close>

definition dbUnshareStringValue :: "nat \<Rightarrow> bytes \<Rightarrow> robj \<Rightarrow> server \<Rightarrow> (server \<times> bytes) option" where
  "dbUnshareStringValue db key ob s =
     (case ob of
        StrObj (ENC_RAW v) \<Rightarrow> Some (s, v)
      | StrObj so \<Rightarrow>
          (case getDecodedObject so of
             ENC_RAW v \<Rightarrow> map_option (\<lambda>s. (s, v)) (dbOverwrite db key (StrObj (ENC_RAW v)) s)
           | ENC_INT _ \<Rightarrow> None)
      | _ \<Rightarrow> None)"

definition empty_one :: "nat \<Rightarrow> server \<Rightarrow> server" where
  "empty_one db = upd_db db (\<lambda>d. d\<lparr>db_dict := [], db_expires := []\<rparr>)"

definition emptyDb :: "server \<Rightarrow> server \<times> int" where
  "emptyDb s = fold (\<lambda>j (s, removed). (empty_one j s, removed + int (length (db_dict (srv_db s j)))))
     [0..<srv_dbnum s] (s, 0)"

definition selectDb :: "nat \<Rightarrow> int \<Rightarrow> server \<Rightarrow> server option" where
  "selectDb c dbid s =
     (if dbid < 0 \<or> dbid \<ge> int (srv_dbnum s) then None
      else Some (upd_client c (\<lambda>x. x\<lparr>c_db := nat dbid\<rparr>) s))"

section \<open>Commands\<close>

definition addReplyError :: "nat \<Rightarrow> string \<Rightarrow> server \<Rightarrow> server" where
  "addReplyError c msg = addReply c (Error (str (''ERR '' @ msg)))"

definition flushdbCommand :: "nat \<Rightarrow> server \<Rightarrow> server option" where
  "flushdbCommand c s =
     (let db = client_db c s;
          s = incr_dirty (int (length (db_dict (srv_db s db)))) s;
          s = touchWatchedKeysOnFlush (Some db) s;
          s = empty_one db s
      in Some (addReply c shared_ok s))"

definition flushallCommand :: "nat \<Rightarrow> server \<Rightarrow> server option" where
  "flushallCommand c s =
     (let s = touchWatchedKeysOnFlush None s;
          (s, removed) = emptyDb s;
          s = incr_dirty removed s;
          s = addReply c shared_ok s
      in Some (incr_dirty 1 s))"

fun delKeys :: "nat \<Rightarrow> bytes list \<Rightarrow> server \<Rightarrow> (server \<times> int) option" where
  "delKeys db [] s = Some (s, 0)"
| "delKeys db (key # keys) s = do {
     (s, _) \<leftarrow> expireIfNeeded db key s;
     let (s, found) = dbDelete db key s;
     s \<leftarrow> (if found then do {
            let s = signalModifiedKey db key s;
            s \<leftarrow> notifyKeyspaceEvent REDIS_NOTIFY_GENERIC ''del'' key db s;
            Some (incr_dirty 1 s)
          } else Some s);
     (s, n) \<leftarrow> delKeys db keys s;
     Some (s, n + (if found then 1 else 0))
   }"

definition delCommand :: "nat \<Rightarrow> server \<Rightarrow> server option" where
  "delCommand c s = do {
     (s, deleted) \<leftarrow> delKeys (client_db c s) (args c s) s;
     Some (addReply c (Integer deleted) s)
   }"

definition existsCommand :: "nat \<Rightarrow> server \<Rightarrow> server option" where
  "existsCommand c s = do {
     (s, _) \<leftarrow> expireIfNeeded (client_db c s) (argv c s 1) s;
     Some (addReply c (if dbExists (client_db c s) (argv c s 1) s then shared_cone else shared_czero) s)
   }"

definition selectCommand :: "nat \<Rightarrow> server \<Rightarrow> server option" where
  "selectCommand c s =
     (case getLongFromObject (Some (ENC_RAW (argv c s 1))) of
        None \<Rightarrow> Some (addReplyError c ''invalid DB index'' s)
      | Some dbid \<Rightarrow>
          (case selectDb c dbid s of
             None \<Rightarrow> Some (addReplyError c ''invalid DB index'' s)
           | Some s \<Rightarrow> Some (addReply c shared_ok s)))"

definition randomkeyCommand :: "nat list \<Rightarrow> nat \<Rightarrow> server \<Rightarrow> server option" where
  "randomkeyCommand picks c s = do {
     (s, key) \<leftarrow> dbRandomKey picks (client_db c s) s;
     Some (addReply c (case key of None \<Rightarrow> NullBulk | Some k \<Rightarrow> Bulk k) s)
   }"

fun keysMatching :: "nat \<Rightarrow> bytes \<Rightarrow> bytes list \<Rightarrow> server \<Rightarrow> (server \<times> bytes list) option" where
  "keysMatching db pat [] s = Some (s, [])"
| "keysMatching db pat (key # keys) s = do {
     m \<leftarrow> (if c_str pat = [42] then Some True else stringmatchlen pat key False);
     (s, expired) \<leftarrow> (if m then expireIfNeeded db key s else Some (s, True));
     (s, r) \<leftarrow> keysMatching db pat keys s;
     Some (s, if m \<and> \<not> expired then key # r else r)
   }"

definition keysCommand :: "nat \<Rightarrow> server \<Rightarrow> server option" where
  "keysCommand c s = do {
     (s, ks) \<leftarrow> keysMatching (client_db c s) (argv c s 1) (map fst (db_dict (srv_db s (client_db c s)))) s;
     Some (addReplies c (MultiBulkLen (int (length ks)) # map Bulk ks) s)
   }"

definition dbsizeCommand :: "nat \<Rightarrow> server \<Rightarrow> server option" where
  "dbsizeCommand c s = Some (addReply c (Integer (int (length (db_dict (srv_db s (client_db c s)))))) s)"

definition typeCommand :: "nat \<Rightarrow> server \<Rightarrow> server option" where
  "typeCommand c s = do {
     (s, ob) \<leftarrow> lookupKeyRead (client_db c s) (argv c s 1) s;
     Some (addReply c (Status (case ob of None \<Rightarrow> ''none''
       | Some x \<Rightarrow> (case obj_type x of REDIS_STRING \<Rightarrow> ''string'' | REDIS_LIST \<Rightarrow> ''list'' | REDIS_SET \<Rightarrow> ''set''
                     | REDIS_ZSET \<Rightarrow> ''zset'' | REDIS_HASH \<Rightarrow> ''hash''))) s)
   }"

text \<open>The part of \<open>RENAME\<close> after both keys have been looked up.\<close>

definition rename_tail :: "nat \<Rightarrow> bytes \<Rightarrow> bytes \<Rightarrow> robj \<Rightarrow> int \<Rightarrow> reply \<Rightarrow> nat \<Rightarrow> robj option \<Rightarrow> server \<Rightarrow> server option" where
  "rename_tail db src dst val expire r c old s = do {
     let s = (if old \<noteq> None then fst (dbDelete db dst s) else s);
     s \<leftarrow> dbAdd db dst val s;
     s \<leftarrow> (if expire \<noteq> - 1 then setExpire db dst expire s else Some s);
     let s = fst (dbDelete db src s);
     let s = signalModifiedKey db src s;
     let s = signalModifiedKey db dst s;
     s \<leftarrow> notifyKeyspaceEvent REDIS_NOTIFY_GENERIC ''rename_from'' src db s;
     s \<leftarrow> notifyKeyspaceEvent REDIS_NOTIFY_GENERIC ''rename_to'' dst db s;
     Some (addReply c r (incr_dirty 1 s))
   }"

definition renameGenericCommand :: "bool \<Rightarrow> nat \<Rightarrow> server \<Rightarrow> server option" where
  "renameGenericCommand nx c s =
     (let db = client_db c s; src = argv c s 1; dst = argv c s 2 in
      if src = dst then Some (addReply c shared_sameobjecterr s)
      else do {
        (s, ob) \<leftarrow> lookupKeyWriteOrReply c src shared_nokeyerr s;
        case ob of None \<Rightarrow> Some s
        | Some val \<Rightarrow> do {
            expire \<leftarrow> getExpire db src s;
            (s, old) \<leftarrow> lookupKeyWrite db dst s;
            if old \<noteq> None \<and> nx then Some (addReply c shared_czero s)
            else rename_tail db src dst val expire (if nx then shared_cone else shared_ok) c old s
          }
      })"

definition renameCommand :: "nat \<Rightarrow> server \<Rightarrow> server option" where
  "renameCommand = renameGenericCommand False"

definition renamenxCommand :: "nat \<Rightarrow> server \<Rightarrow> server option" where
  "renamenxCommand = renameGenericCommand True"

definition moveCommand :: "nat \<Rightarrow> server \<Rightarrow> server option" where
  "moveCommand c s =
     (let src = client_db c s; key = argv c s 1 in
      case getLongLongFromObject (Some (ENC_RAW (argv c s 2))) of
        None \<Rightarrow> Some (addReply c shared_outofrangeerr s)
      | Some dbid \<Rightarrow>
          if dbid < - 2147483648 \<or> dbid > 2147483647 \<or> selectDb c dbid s = None
          then Some (addReply c shared_outofrangeerr s)
          else
            let dst = nat dbid in
            if src = dst then Some (addReply c shared_sameobjecterr s)
            else do {
              (s, ob) \<leftarrow> lookupKeyWrite src key s;
              case ob of None \<Rightarrow> Some (addReply c shared_czero s)
              | Some val \<Rightarrow> do {
                  (s, old) \<leftarrow> lookupKeyWrite dst key s;
                  if old \<noteq> None then Some (addReply c shared_czero s)
                  else do {
                    s \<leftarrow> dbAdd dst key val s;
                    let s = fst (dbDelete src key s);
                    Some (addReply c shared_cone (incr_dirty 1 s))
                  }
                }
            })"

text \<open>\<open>unit_seconds\<close> for \<open>UNIT_SECONDS\<close>; the command is rewritten as \<open>DEL\<close> for propagation when the
  time has already passed.\<close>

definition expireGenericCommand :: "int \<Rightarrow> bool \<Rightarrow> nat \<Rightarrow> server \<Rightarrow> server option" where
  "expireGenericCommand basetime unit_seconds c s =
     (let db = client_db c s; key = argv c s 1 in
      case getLongLongFromObject (Some (ENC_RAW (argv c s 2))) of
        None \<Rightarrow> Some (addReplyError c ''value is not an integer or out of range'' s)
      | Some when \<Rightarrow>
          let when = (if unit_seconds then wrap64 (when * 1000) else when);
              when = wrap64 (when + basetime) in
          do {
            (s, ob) \<leftarrow> lookupKeyRead db key s;
            if ob = None then Some (addReply c shared_czero s)
            else if when \<le> srv_mstime s \<and> \<not> srv_loading s \<and> \<not> srv_masterhost s then
              let (s, found) = dbDelete db key s in
              if \<not> found then None
              else do {
                let s = incr_dirty 1 s;
                let s = upd_client c (\<lambda>x. x\<lparr>c_argv := [str ''DEL'', key]\<rparr>) s;
                let s = signalModifiedKey db key s;
                s \<leftarrow> notifyKeyspaceEvent REDIS_NOTIFY_GENERIC ''del'' key db s;
                Some (addReply c shared_cone s)
              }
            else do {
              s \<leftarrow> setExpire db key when s;
              let s = addReply c shared_cone s;
              let s = signalModifiedKey db key s;
              s \<leftarrow> notifyKeyspaceEvent REDIS_NOTIFY_GENERIC ''expire'' key db s;
              Some (incr_dirty 1 s)
            }
          })"

definition expireCommand :: "nat \<Rightarrow> server \<Rightarrow> server option" where
  "expireCommand c s = expireGenericCommand (srv_mstime s) True c s"

definition expireatCommand :: "nat \<Rightarrow> server \<Rightarrow> server option" where
  "expireatCommand c s = expireGenericCommand 0 True c s"

definition pexpireCommand :: "nat \<Rightarrow> server \<Rightarrow> server option" where
  "pexpireCommand c s = expireGenericCommand (srv_mstime s) False c s"

definition pexpireatCommand :: "nat \<Rightarrow> server \<Rightarrow> server option" where
  "pexpireatCommand c s = expireGenericCommand 0 False c s"

definition ttlGenericCommand :: "bool \<Rightarrow> nat \<Rightarrow> server \<Rightarrow> server option" where
  "ttlGenericCommand output_ms c s = do {
     let db = client_db c s;
     let key = argv c s 1;
     (s, ob) \<leftarrow> lookupKeyRead db key s;
     if ob = None then Some (addReply c (Integer (- 2)) s)
     else do {
       expire \<leftarrow> getExpire db key s;
       let ttl = (if expire \<noteq> - 1 then max 0 (wrap64 (expire - srv_mstime s)) else - 1);
       Some (addReply c (Integer (if ttl = - 1 then - 1 else if output_ms then ttl else (ttl + 500) div 1000)) s)
     }
   }"

definition ttlCommand :: "nat \<Rightarrow> server \<Rightarrow> server option" where
  "ttlCommand = ttlGenericCommand False"

definition pttlCommand :: "nat \<Rightarrow> server \<Rightarrow> server option" where
  "pttlCommand = ttlGenericCommand True"

definition persistCommand :: "nat \<Rightarrow> server \<Rightarrow> server option" where
  "persistCommand c s =
     (let db = client_db c s; key = argv c s 1 in
      if map_of (db_dict (srv_db s db)) key = None then Some (addReply c shared_czero s)
      else do {
        (s, removed) \<leftarrow> removeExpire db key s;
        Some (if removed then incr_dirty 1 (addReply c shared_cone s) else addReply c shared_czero s)
      })"

text \<open>
  The entries of the command table handled here, with their arities and flags, in runs of adjacent entries. \<open>SELECT\<close>, which
  changes the client's data base, and \<open>RANDOMKEY\<close>, which draws random numbers, are not among them.
\<close>

type_synonym command_entry = "string \<times> int \<times> string \<times> (nat \<Rightarrow> server \<Rightarrow> server option)"

definition del_entries :: "command_entry list" where
  "del_entries = [(''del'', - 2, ''w'', delCommand), (''exists'', 2, ''rF'', existsCommand)]"

definition move_entries :: "command_entry list" where
  "move_entries =
    [(''move'', 3, ''wF'', moveCommand), (''rename'', 3, ''w'', renameCommand), (''renamenx'', 3, ''wF'', renamenxCommand),
     (''expire'', 3, ''wF'', expireCommand), (''expireat'', 3, ''wF'', expireatCommand), (''pexpire'', 3, ''wF'', pexpireCommand),
     (''pexpireat'', 3, ''wF'', pexpireatCommand), (''keys'', 2, ''rS'', keysCommand)]"

definition dbsize_entries :: "command_entry list" where
  "dbsize_entries = [(''dbsize'', 1, ''rF'', dbsizeCommand)]"

definition type_entries :: "command_entry list" where
  "type_entries = [(''type'', 2, ''rF'', typeCommand)]"

definition flush_entries :: "command_entry list" where
  "flush_entries = [(''flushdb'', 1, ''w'', flushdbCommand), (''flushall'', 1, ''w'', flushallCommand)]"

definition ttl_entries :: "command_entry list" where
  "ttl_entries = [(''ttl'', 2, ''rF'', ttlCommand), (''pttl'', 2, ''rF'', pttlCommand), (''persist'', 2, ''wF'', persistCommand)]"

definition key_commands :: "command_entry list" where
  "key_commands = del_entries @ move_entries @ dbsize_entries @ type_entries @ flush_entries @ ttl_entries"

lemmas key_entries = key_commands_def del_entries_def move_entries_def dbsize_entries_def type_entries_def flush_entries_def ttl_entries_def

text \<open>The test of \<open>processCommand\<close> on the number of arguments.\<close>

definition arity_ok :: "int \<Rightarrow> nat \<Rightarrow> bool" where
  "arity_ok arity n \<longleftrightarrow> \<not> ((arity > 0 \<and> arity \<noteq> int n) \<or> int n < - arity)"

section \<open>The logical view of the key space\<close>

text \<open>
  What every stored value satisfies: an integer encoding fits \<open>long\<close>, a string is at most 512 MB
  long, a collection is not empty and has no duplicates.
\<close>

fun val_ok :: "robj \<Rightarrow> bool" where
  "val_ok (StrObj v) \<longleftrightarrow> obj_ok v \<and> length (content v) \<le> 536870912"
| "val_ok (ListObj xs) \<longleftrightarrow> xs \<noteq> []"
| "val_ok (SetObj xs) \<longleftrightarrow> xs \<noteq> [] \<and> distinct xs"
| "val_ok (ZsetObj xs) \<longleftrightarrow> xs \<noteq> [] \<and> distinct (map fst xs)"
| "val_ok (HashObj xs) \<longleftrightarrow> xs \<noteq> [] \<and> distinct (map fst xs)"

definition db_ok :: "redisDb \<Rightarrow> bool" where
  "db_ok d \<longleftrightarrow> distinct (map fst (db_dict d)) \<and> distinct (map fst (db_expires d)) \<and>
     dom (map_of (db_expires d)) \<subseteq> dom (map_of (db_dict d)) \<and>
     (\<forall>k v. map_of (db_dict d) k = Some v \<longrightarrow> val_ok v)"

text \<open>No subscribed pattern makes the matcher read beyond it.\<close>

definition pats_safe :: "server \<Rightarrow> bool" where
  "pats_safe s \<longleftrightarrow> (\<forall>x \<in> set (srv_pubsub_patterns s). \<forall>ch. stringmatchlen (snd x) ch False \<noteq> None)"

definition ks_ok :: "server \<Rightarrow> bool" where
  "ks_ok s \<longleftrightarrow> (\<forall>d. db_ok (srv_db s d)) \<and> pats_safe s"

definition now :: "server \<Rightarrow> int" where
  "now s = (if srv_lua_caller s then srv_lua_time_start s else srv_mstime s)"

definition expired :: "server \<Rightarrow> nat \<Rightarrow> bytes \<Rightarrow> bool" where
  "expired s d k \<longleftrightarrow> (case map_of (db_expires (srv_db s d)) k of None \<Rightarrow> False | Some w \<Rightarrow> 0 \<le> w \<and> w < now s \<and> \<not> srv_loading s)"

definition live :: "server \<Rightarrow> nat \<Rightarrow> bytes \<Rightarrow> robj option" where
  "live s d k = (if expired s d k then None else map_of (db_dict (srv_db s d)) k)"

definition touched :: "server \<Rightarrow> nat \<Rightarrow> bytes \<Rightarrow> bool" where
  "touched s d k \<longleftrightarrow> (\<forall>c \<in> set (idx_clients (db_watched_keys (srv_db s d)) k). c_dirty_cas (srv_client s c))"

text \<open>
  \<open>env s s'\<close>: clock, roles, watched keys, the clients' data bases and transactions are the
  same, no client has lost its dirty mark, and the stream to the slaves and the count of
  changes have only grown. \<open>step T s s'\<close>: in addition the invariant is kept and only
  the keys in \<open>T\<close> may look different. \<open>safe s s'\<close>: every key that looks different has been
  signalled to the clients that watch it.
\<close>

definition env :: "server \<Rightarrow> server \<Rightarrow> bool" where
  "env s s' \<longleftrightarrow> srv_mstime s' = srv_mstime s \<and> srv_loading s' = srv_loading s \<and> srv_masterhost s' = srv_masterhost s \<and>
     srv_lua_caller s' = srv_lua_caller s \<and> srv_lua_time_start s' = srv_lua_time_start s \<and> srv_dbnum s' = srv_dbnum s \<and>
     srv_clients s' = srv_clients s \<and> srv_notify_keyspace_events s' = srv_notify_keyspace_events s \<and>
     srv_pubsub_patterns s' = srv_pubsub_patterns s \<and>
     (\<forall>d. db_watched_keys (srv_db s' d) = db_watched_keys (srv_db s d)) \<and>
     prefix (srv_repl s) (srv_repl s') \<and> srv_dirty s \<le> srv_dirty s' \<and>
     (\<forall>c. c_db (srv_client s' c) = c_db (srv_client s c) \<and> c_multi (srv_client s' c) = c_multi (srv_client s c) \<and>
          c_mstate (srv_client s' c) = c_mstate (srv_client s c) \<and>
          c_dirty_exec (srv_client s' c) = c_dirty_exec (srv_client s c) \<and>
          c_watched_keys (srv_client s' c) = c_watched_keys (srv_client s c) \<and>
          (c_dirty_cas (srv_client s c) \<longrightarrow> c_dirty_cas (srv_client s' c)))"

definition step :: "(nat \<times> bytes) set \<Rightarrow> server \<Rightarrow> server \<Rightarrow> bool" where
  "step T s s' \<longleftrightarrow> env s s' \<and> (\<forall>d. db_ok (srv_db s d) \<longrightarrow> db_ok (srv_db s' d)) \<and>
     (\<forall>d k. (d, k) \<notin> T \<longrightarrow> live s' d k = live s d k)"

definition safe :: "server \<Rightarrow> server \<Rightarrow> bool" where
  "safe s s' \<longleftrightarrow> (\<exists>T. step T s s' \<and> (\<forall>(d, k) \<in> T. touched s' d k))"

lemma env_refl [simp]: "env s s"
  by (simp add: env_def)

lemma env_trans: "env a b \<Longrightarrow> env b c \<Longrightarrow> env a c"
  unfolding env_def using prefix_order.trans by auto

lemma step_refl [simp]: "step T s s"
  by (simp add: step_def)

lemma step_trans: "step T a b \<Longrightarrow> step U b c \<Longrightarrow> step (T \<union> U) a c"
  unfolding step_def by (auto intro: env_trans)

lemma step_trans0: "step {} a b \<Longrightarrow> step T b c \<Longrightarrow> step T a c" "step T a b \<Longrightarrow> step {} b c \<Longrightarrow> step T a c"
  using step_trans [of "{}" a b T c] step_trans [of T a b "{}" c] by simp_all

lemma step_mono: "step T a b \<Longrightarrow> T \<subseteq> U \<Longrightarrow> step U a b"
  by (auto simp: step_def)

lemma step_ks_ok: "step T s s' \<Longrightarrow> ks_ok s \<Longrightarrow> ks_ok s'"
  by (auto simp: step_def ks_ok_def env_def pats_safe_def)

lemma touched_env: "env s s' \<Longrightarrow> touched s d k \<Longrightarrow> touched s' d k"
  by (simp add: env_def touched_def)

lemma safe_trans: "safe a b \<Longrightarrow> safe b c \<Longrightarrow> safe a c"
  unfolding safe_def
proof clarify
  fix T U
  assume t: "step T a b" "\<forall>(d, k) \<in> T. touched b d k" "step U b c" "\<forall>(d, k) \<in> U. touched c d k"
  have "env b c" using t(3) by (simp add: step_def)
  then have "\<forall>(d, k) \<in> T \<union> U. touched c d k" using t(2,4) touched_env [of b c] by blast
  then show "\<exists>T. step T a c \<and> (\<forall>(d, k) \<in> T. touched c d k)" using step_trans [OF t(1,3)] by blast
qed

lemma safe_step: "step {} a b \<Longrightarrow> safe a b"
  unfolding safe_def by blast

lemma safe_refl [simp]: "safe s s"
  by (rule safe_step) simp

lemma safe_ks_ok: "safe s s' \<Longrightarrow> ks_ok s \<Longrightarrow> ks_ok s'"
  using step_ks_ok by (auto simp: safe_def)

section \<open>Steps that leave the key space alone\<close>

lemma env_now: "env s s' \<Longrightarrow> now s' = now s" "env s s' \<Longrightarrow> srv_loading s' = srv_loading s"
  by (simp_all add: env_def now_def)

lemma expired_env:
  "env s s' \<Longrightarrow> expired s' d k \<longleftrightarrow>
    (case map_of (db_expires (srv_db s' d)) k of None \<Rightarrow> False | Some w \<Rightarrow> 0 \<le> w \<and> w < now s \<and> \<not> srv_loading s)"
  by (simp add: expired_def env_now cong: option.case_cong)

lemma live_same_db:
  "env s s' \<Longrightarrow> db_dict (srv_db s' d) = db_dict (srv_db s d) \<Longrightarrow> db_expires (srv_db s' d) = db_expires (srv_db s d) \<Longrightarrow>
   live s' d k = live s d k"
  by (simp add: live_def expired_env) (simp add: expired_def)

lemma step_same_db: "env s s' \<Longrightarrow> srv_db s' = srv_db s \<Longrightarrow> step {} s s'"
  by (simp add: step_def live_same_db)

lemma step_client:
  assumes "\<And>x. c_db (f x) = c_db x" "\<And>x. c_watched_keys (f x) = c_watched_keys x"
    "\<And>x. c_dirty_cas x \<Longrightarrow> c_dirty_cas (f x)" "\<And>x. c_multi (f x) = c_multi x" "\<And>x. c_mstate (f x) = c_mstate x"
    "\<And>x. c_dirty_exec (f x) = c_dirty_exec x"
  shows "step {} s (upd_client c f s)"
  by (rule step_same_db) (use assms in \<open>simp_all add: env_def server_simps\<close>)

lemma step_addReply [simp]: "step {} s (addReply c r s)"
  unfolding addReply_def by (rule step_client) simp_all

lemma step_addReplies [simp]: "step {} s (addReplies c r s)"
  unfolding addReplies_def by (rule step_client) simp_all

lemma step_addReplyError [simp]: "step {} s (addReplyError c m s)"
  by (simp add: addReplyError_def)

lemma step_incr_dirty [simp]: "0 \<le> n \<Longrightarrow> step {} s (incr_dirty n s)"
  by (rule step_same_db) (simp_all add: env_def incr_dirty_def)

lemma step_propagate [simp]: "step {} s (propagate d av a b s)"
  by (rule step_same_db) (simp_all add: env_def propagate_def Let_def)

lemma step_stats [simp]: "step {} s (s\<lparr>srv_stat_expiredkeys := n\<rparr>)" "step {} s (s\<lparr>srv_stat_keyspace_hits := n\<rparr>)"
  "step {} s (s\<lparr>srv_stat_keyspace_misses := n\<rparr>)"
  by (rule step_same_db; simp add: env_def)+

lemma step_fold: "(\<And>x s. step {} s (f x s)) \<Longrightarrow> step {} s (fold f xs s)"
proof (induction xs arbitrary: s)
  case (Cons x xs)
  then show ?case using step_trans0(1) [of s "f x s" "{}"] by simp
qed simp

lemma publish_patterns_step:
  "\<forall>x \<in> set ps. stringmatchlen (snd x) ch False \<noteq> None \<Longrightarrow>
   \<exists>s' n. publish_patterns ps ch msg s = Some (s', n) \<and> step {} s s' \<and> srv_db s' = srv_db s"
proof (induction ps arbitrary: s)
  case (Cons x ps)
  obtain c p where x: "x = (c, p)" by (cases x)
  obtain m where m: "stringmatchlen p ch False = Some m" using Cons.prems x by auto
  let ?s = "if m then addReplies c (pmessage_reply p ch msg) s else s"
  obtain s' n where "publish_patterns ps ch msg ?s = Some (s', n)" "step {} ?s s'" "srv_db s' = srv_db ?s"
    using Cons.IH [of ?s] Cons.prems by auto
  moreover have "step {} s ?s" "srv_db ?s = srv_db s" by (auto simp: server_simps)
  ultimately show ?case using m x step_trans0(1) [of s ?s "{}" s'] by auto
qed simp

lemma pubsubPublishMessage_step:
  assumes "pats_safe s"
  shows "\<exists>s' n. pubsubPublishMessage ch msg s = Some (s', n) \<and> step {} s s' \<and> srv_db s' = srv_db s"
proof -
  let ?s = "fold (\<lambda>c. addReplies c (message_reply ch msg)) (idx_clients (srv_pubsub_channels s) ch) s"
  have f: "step {} s ?s" "srv_db ?s = srv_db s" "srv_pubsub_patterns ?s = srv_pubsub_patterns s"
    by (auto intro: step_fold simp: fold_addReplies_rest)
  obtain s' n where "publish_patterns (srv_pubsub_patterns s) ch msg ?s = Some (s', n)" "step {} ?s s'" "srv_db s' = srv_db ?s"
    using publish_patterns_step [of "srv_pubsub_patterns s" ch msg ?s] assms by (auto simp: pats_safe_def)
  then show ?thesis using f step_trans0(1) [of s ?s "{}" s'] by (auto simp: pubsubPublishMessage_def Let_def)
qed

lemma step_pats_safe: "step T s s' \<Longrightarrow> pats_safe s \<Longrightarrow> pats_safe s'"
  by (simp add: step_def env_def pats_safe_def)

lemma publish_if_step:
  "pats_safe s \<Longrightarrow> \<exists>s'. (if b then map_option fst (pubsubPublishMessage ch msg s) else Some s) = Some s' \<and>
     step {} s s' \<and> srv_db s' = srv_db s"
  using pubsubPublishMessage_step [of s ch msg] by (cases b) auto

lemma notify_step:
  assumes p: "pats_safe s"
  shows "\<exists>s'. notifyKeyspaceEvent t e k d s = Some s' \<and> step {} s s' \<and> srv_db s' = srv_db s"
proof (cases "srv_notify_keyspace_events s AND t = 0")
  case True
  then show ?thesis by (simp add: notifyKeyspaceEvent_def Let_def)
next
  case False
  let ?f = "srv_notify_keyspace_events s"
  obtain s1 where s1: "(if ?f AND REDIS_NOTIFY_KEYSPACE \<noteq> 0
      then map_option fst (pubsubPublishMessage (event_channel ''__keyspace@'' d k) (str e) s) else Some s) = Some s1"
    "step {} s s1" "srv_db s1 = srv_db s"
    using publish_if_step [OF p] by blast
  obtain s2 where s2: "(if ?f AND REDIS_NOTIFY_KEYEVENT \<noteq> 0
      then map_option fst (pubsubPublishMessage (event_channel ''__keyevent@'' d (str e)) k s1) else Some s1) = Some s2"
    "step {} s1 s2" "srv_db s2 = srv_db s1"
    using publish_if_step [OF step_pats_safe [OF s1(2) p]] by blast
  show ?thesis using False s1 s2 step_trans0(1) [OF s1(2) s2(2)]
    by (simp add: notifyKeyspaceEvent_def Let_def)
qed


lemma publish_repl:
  "publish_patterns ps ch msg s = Some (s', n) \<Longrightarrow> srv_repl s' = srv_repl s \<and> srv_aof s' = srv_aof s \<and> srv_dirty s' = srv_dirty s"
proof (induction ps arbitrary: s n)
  case (Cons x ps)
  obtain c p where x: "x = (c, p)" by (cases x)
  have a: "srv_repl (addReplies c r t) = srv_repl t \<and> srv_aof (addReplies c r t) = srv_aof t \<and> srv_dirty (addReplies c r t) = srv_dirty t" for r t
    by (simp add: addReplies_def server_simps)
  obtain m where m: "stringmatchlen p ch False = Some m" using Cons.prems x by (cases "stringmatchlen p ch False") auto
  show ?case
  proof (cases m)
    case True
    then obtain n' where "publish_patterns ps ch msg (addReplies c (pmessage_reply p ch msg) s) = Some (s', n')"
      using Cons.prems x m by auto
    then show ?thesis using Cons.IH a by metis
  next
    case False
    then show ?thesis using Cons x m by simp
  qed
qed simp

lemma fold_addReplies_repl:
  "srv_repl (fold (\<lambda>c. addReplies c r) cs s) = srv_repl s \<and> srv_aof (fold (\<lambda>c. addReplies c r) cs s) = srv_aof s \<and>
   srv_dirty (fold (\<lambda>c. addReplies c r) cs s) = srv_dirty s"
  by (induction cs arbitrary: s) (simp_all add: addReplies_def server_simps)

lemma pubsubPublishMessage_repl:
  "pubsubPublishMessage ch msg s = Some (s', n) \<Longrightarrow> srv_repl s' = srv_repl s \<and> srv_aof s' = srv_aof s \<and> srv_dirty s' = srv_dirty s"
  using publish_repl fold_addReplies_repl by (fastforce simp: pubsubPublishMessage_def Let_def)

lemma notify_repl:
  "notifyKeyspaceEvent t e k d s = Some s' \<Longrightarrow> srv_repl s' = srv_repl s \<and> srv_aof s' = srv_aof s \<and> srv_dirty s' = srv_dirty s"
  by (auto simp: notifyKeyspaceEvent_def Let_def bind_eq_Some_conv split: if_splits dest!: pubsubPublishMessage_repl)

section \<open>Steps on one key\<close>

text \<open>Replacing the dictionary and the expires of one data base.\<close>

lemma step_upd_db:
  assumes ok: "db_ok (srv_db s d) \<Longrightarrow> db_ok (f (srv_db s d))"
    and w: "db_watched_keys (f (srv_db s d)) = db_watched_keys (srv_db s d)"
    and same: "\<And>k. k \<noteq> key \<Longrightarrow> map_of (db_dict (f (srv_db s d))) k = map_of (db_dict (srv_db s d)) k \<and>
      map_of (db_expires (f (srv_db s d))) k = map_of (db_expires (srv_db s d)) k"
  shows "step {(d, key)} s (upd_db d f s)"
proof -
  have e: "env s (upd_db d f s)" using w by (simp add: env_def server_simps)
  have "live (upd_db d f s) i k = live s i k" if "(i, k) \<noteq> (d, key)" for i k
    using that same [of k] unfolding live_def expired_env [OF e]
    by (cases "i = d") (auto simp: server_simps expired_def)
  then show ?thesis using e ok by (auto simp: step_def server_simps)
qed

lemma dbDelete_step: "step {(d, k)} s (fst (dbDelete d k s))"
  unfolding dbDelete_def fst_conv
  by (rule step_upd_db) (force simp: db_ok_def delete_conv' distinct_delete)+

lemma dbDelete_lookup: "map_of (db_dict (srv_db (fst (dbDelete d k s)) d)) k = None"
  "map_of (db_expires (srv_db (fst (dbDelete d k s)) d)) k = None"
  by (simp_all add: dbDelete_def server_simps delete_conv')

lemma dbDelete_expired_step:
  assumes "expired s d k"
  shows "step {} s (fst (dbDelete d k s))"
proof -
  have st: "step {(d, k)} s (fst (dbDelete d k s))" by (rule dbDelete_step)
  have "live (fst (dbDelete d k s)) d k = live s d k"
    using assms dbDelete_lookup [of d k s] by (simp add: live_def)
  then show ?thesis using st by (auto simp: step_def)
qed

lemma setExpire_step:
  assumes "map_of (db_dict (srv_db s d)) k \<noteq> None"
  shows "\<exists>s'. setExpire d k w s = Some s' \<and> step {(d, k)} s s' \<and> db_dict (srv_db s' d) = db_dict (srv_db s d) \<and>
     map_of (db_expires (srv_db s' d)) k = Some w"
proof -
  have "step {(d, k)} s (upd_db d (\<lambda>x. x\<lparr>db_expires := AList.update k w (db_expires x)\<rparr>) s)"
    by (rule step_upd_db) (use assms in \<open>force simp: db_ok_def update_conv' distinct_update split: if_splits\<close>)+
  then show ?thesis using assms by (simp add: setExpire_def server_simps update_conv')
qed

lemma removeExpire_step:
  assumes "map_of (db_dict (srv_db s d)) k \<noteq> None"
  shows "\<exists>s'. removeExpire d k s = Some (s', map_of (db_expires (srv_db s d)) k \<noteq> None) \<and> step {(d, k)} s s' \<and>
     db_dict (srv_db s' d) = db_dict (srv_db s d) \<and> map_of (db_expires (srv_db s' d)) k = None"
proof -
  have "step {(d, k)} s (upd_db d (\<lambda>x. x\<lparr>db_expires := AList.delete k (db_expires x)\<rparr>) s)"
    by (rule step_upd_db) (use assms in \<open>force simp: db_ok_def delete_conv' distinct_delete split: if_splits\<close>)+
  then show ?thesis using assms by (simp add: removeExpire_def server_simps delete_conv')
qed

lemma signalListAsReady_step: "step {} s (signalListAsReady d k s)"
proof -
  let ?s = "(upd_db d (\<lambda>x. x\<lparr>db_ready_keys := k # db_ready_keys x\<rparr>) s)\<lparr>srv_ready_keys := srv_ready_keys s @ [(d, k)]\<rparr>"
  have e: "env s ?s" by (simp add: env_def server_simps)
  have "live ?s i j = live s i j" for i j by (rule live_same_db [OF e]) (simp_all add: server_simps)
  then have "step {} s ?s" using e by (simp add: step_def server_simps db_ok_def)
  then show ?thesis by (simp add: signalListAsReady_def)
qed

lemma signalListAsReady_db: "db_dict (srv_db (signalListAsReady d k s) i) = db_dict (srv_db s i)"
  "db_expires (srv_db (signalListAsReady d k s) i) = db_expires (srv_db s i)"
  by (simp_all add: signalListAsReady_def server_simps)

lemma dbAdd_step:
  assumes "map_of (db_dict (srv_db s d)) k = None" "val_ok v"
  shows "\<exists>s'. dbAdd d k v s = Some s' \<and> step {(d, k)} s s' \<and> map_of (db_dict (srv_db s' d)) k = Some v \<and>
     db_expires (srv_db s' d) = db_expires (srv_db s d)"
proof -
  let ?s = "upd_db d (\<lambda>x. x\<lparr>db_dict := (k, v) # db_dict x\<rparr>) s"
  have "step {(d, k)} s ?s"
    by (rule step_upd_db) (use assms in \<open>force simp: db_ok_def map_of_eq_None_iff split: if_splits\<close>)+
  moreover have "step {} ?s (signalListAsReady d k ?s)" by (rule signalListAsReady_step)
  ultimately show ?thesis using assms step_trans0(2) [of "{(d, k)}" s ?s]
    by (auto simp: dbAdd_def Let_def signalListAsReady_db server_simps)
qed

lemma dbOverwrite_step:
  assumes "map_of (db_dict (srv_db s d)) k \<noteq> None" "val_ok v"
  shows "\<exists>s'. dbOverwrite d k v s = Some s' \<and> step {(d, k)} s s' \<and> map_of (db_dict (srv_db s' d)) k = Some v \<and>
     db_expires (srv_db s' d) = db_expires (srv_db s d)"
proof -
  have "step {(d, k)} s (upd_db d (\<lambda>x. x\<lparr>db_dict := AList.update k v (db_dict x)\<rparr>) s)"
    by (rule step_upd_db) (use assms in \<open>force simp: db_ok_def update_conv' distinct_update split: if_splits\<close>)+
  then show ?thesis using assms by (simp add: dbOverwrite_def server_simps update_conv')
qed

lemma touch_fold:
  "c_dirty_cas (srv_client (fold (\<lambda>c. upd_client c (\<lambda>x. x\<lparr>c_dirty_cas := True\<rparr>)) cs s) c) \<longleftrightarrow>
     c \<in> set cs \<or> c_dirty_cas (srv_client s c)"
  by (induction cs arbitrary: s) (auto simp: server_simps)

lemma fold_upd_client_db: "srv_db (fold (\<lambda>c. upd_client c f) cs s) = srv_db s"
  by (induction cs arbitrary: s) (auto simp: server_simps)

lemma signalModifiedKey_step: "step {} s (signalModifiedKey d k s)" "touched (signalModifiedKey d k s) d k"
  "srv_db (signalModifiedKey d k s) = srv_db s"
  unfolding signalModifiedKey_def touchWatchedKey_def
  by (auto intro!: step_fold step_client simp: touched_def touch_fold fold_upd_client_db)

text \<open>A change of one key followed by the signal for it is safe.\<close>

lemma safe_signal: "step {(d, k)} s s' \<Longrightarrow> safe s (signalModifiedKey d k s')"
  unfolding safe_def
  using step_trans0(2) [OF _ signalModifiedKey_step(1) [of s' d k]] signalModifiedKey_step(2) [of d k s']
  by (intro exI [of _ "{(d, k)}"]) auto

lemma getExpire_ok: "ks_ok s \<Longrightarrow> getExpire d k s = Some (case map_of (db_expires (srv_db s d)) k of None \<Rightarrow> - 1 | Some w \<Rightarrow> w)"
proof (cases "map_of (db_expires (srv_db s d)) k")
  case (Some w)
  assume "ks_ok s"
  then have "dom (map_of (db_expires (srv_db s d))) \<subseteq> dom (map_of (db_dict (srv_db s d)))"
    by (simp add: ks_ok_def db_ok_def)
  then have "map_of (db_dict (srv_db s d)) k \<noteq> None" using Some by (metis domI domIff subsetD)
  then show ?thesis using Some by (simp add: getExpire_def)
qed (simp add: getExpire_def)

lemma expireIfNeeded_spec:
  assumes ok: "ks_ok s"
  shows "\<exists>s'. expireIfNeeded d k s = Some (s', expired s d k) \<and> step {} s s' \<and>
    (\<not> expired s d k \<longrightarrow> s' = s) \<and> (srv_masterhost s \<longrightarrow> s' = s) \<and>
    (expired s d k \<longrightarrow> \<not> srv_masterhost s \<longrightarrow> map_of (db_dict (srv_db s' d)) k = None \<and> map_of (db_expires (srv_db s' d)) k = None \<and>
       db_dict (srv_db s' d) = AList.delete k (db_dict (srv_db s d)) \<and>
       srv_repl s' = srv_repl s @ [(d, [str ''DEL'', k])])"
proof -
  note g = getExpire_ok [OF ok, of d k]
  show ?thesis
  proof (cases "expired s d k \<and> \<not> srv_masterhost s")
    case False
    then show ?thesis
      using g by (cases "map_of (db_expires (srv_db s d)) k")
        (auto simp: expireIfNeeded_def expired_def now_def Let_def split: if_splits)
  next
    case True
    then obtain w where w: "map_of (db_expires (srv_db s d)) k = Some w" "0 \<le> w" "w < now s" "\<not> srv_loading s"
      by (auto simp: expired_def simp del: map_of_eq_Some_iff split: option.splits)
    let ?s1 = "propagateExpire d k (s\<lparr>srv_stat_expiredkeys := srv_stat_expiredkeys s + 1\<rparr>)"
    have s1: "step {} s ?s1" unfolding propagateExpire_def
      by (rule step_trans0(1) [OF step_stats(1) [of s "srv_stat_expiredkeys s + 1"] step_propagate])
    have r1: "srv_repl ?s1 = srv_repl s @ [(d, [str ''DEL'', k])]" "srv_db ?s1 = srv_db s"
      by (simp_all add: propagateExpire_def propagate_def Let_def)
    have "pats_safe ?s1" using step_ks_ok [OF s1 ok] by (simp add: ks_ok_def)
    then obtain s2 where s2: "notifyKeyspaceEvent REDIS_NOTIFY_EXPIRED ''expired'' k d ?s1 = Some s2" "step {} ?s1 s2"
      "srv_db s2 = srv_db ?s1" "srv_repl s2 = srv_repl ?s1"
      using notify_step [of ?s1 REDIS_NOTIFY_EXPIRED "''expired''" k d] notify_repl [of REDIS_NOTIFY_EXPIRED "''expired''" k d ?s1]
      by blast
    have st: "step {} s s2" by (rule step_trans0(1) [OF s1 s2(2)])
    have ev: "env s s2" using st by (simp add: step_def)
    have ex: "expired s2 d k" using True s2(3) r1(2) by (simp add: expired_env [OF ev]) (simp add: expired_def)
    have "step {} s (fst (dbDelete d k s2))" by (rule step_trans0(1) [OF st dbDelete_expired_step [OF ex]])
    moreover have "snd (dbDelete d k s2)"
      using ok w(1) s2(3) r1(2) by (auto simp: dbDelete_def ks_ok_def db_ok_def simp del: map_of_eq_Some_iff)
    moreover have "expireIfNeeded d k s = Some (dbDelete d k s2)"
      using g w True s2(1) by (simp add: expireIfNeeded_def now_def Let_def)
    moreover have "srv_repl (fst (dbDelete d k s2)) = srv_repl s @ [(d, [str ''DEL'', k])]"
      using s2(4) r1(1) by (simp add: dbDelete_def server_simps)
    moreover have "db_dict (srv_db (fst (dbDelete d k s2)) d) = AList.delete k (db_dict (srv_db s d))"
      using s2(3) r1(2) by (simp add: dbDelete_def server_simps)
    ultimately show ?thesis using True dbDelete_lookup [of d k s2]
      by (cases "dbDelete d k s2") auto
  qed
qed

section \<open>Weakest preconditions of the handlers\<close>

definition wp :: "'a option \<Rightarrow> ('a \<Rightarrow> bool) \<Rightarrow> bool" where
  "wp m P \<longleftrightarrow> (\<exists>x. m = Some x \<and> P x)"

lemma wp_simps [simp]: "wp (Some x) P = P x" "\<not> wp None P"
  by (simp_all add: wp_def)

lemma wp_bind [simp]: "wp (Option.bind m f) P \<longleftrightarrow> wp m (\<lambda>x. wp (f x) P)"
  by (cases m) simp_all

lemma wp_mono: "wp m P \<Longrightarrow> (\<And>x. P x \<Longrightarrow> Q x) \<Longrightarrow> wp m Q"
  by (auto simp: wp_def)

lemma wpD: "wp m P \<Longrightarrow> \<exists>x. m = Some x \<and> P x"
  by (simp add: wp_def)

lemma wp_notify:
  assumes "ks_ok s" "\<And>s'. step {} s s' \<Longrightarrow> ks_ok s' \<Longrightarrow> srv_db s' = srv_db s \<Longrightarrow> P s'"
  shows "wp (notifyKeyspaceEvent t e k d s) P"
proof -
  obtain s' where "notifyKeyspaceEvent t e k d s = Some s'" "step {} s s'" "srv_db s' = srv_db s"
    using notify_step [of s t e k d] assms(1) by (auto simp: ks_ok_def)
  then show ?thesis using assms step_ks_ok by simp
qed

lemma wp_expireIfNeeded:
  assumes "ks_ok s"
    and "\<And>s'. step {} s s' \<Longrightarrow> ks_ok s' \<Longrightarrow> (\<not> expired s d k \<Longrightarrow> s' = s) \<Longrightarrow> 
      (expired s d k \<Longrightarrow> \<not> srv_masterhost s \<Longrightarrow> map_of (db_dict (srv_db s' d)) k = None) \<Longrightarrow> P (s', expired s d k)"
  shows "wp (expireIfNeeded d k s) P"
proof -
  obtain s' where "expireIfNeeded d k s = Some (s', expired s d k)" "step {} s s'" "\<not> expired s d k \<longrightarrow> s' = s"
    "expired s d k \<longrightarrow> \<not> srv_masterhost s \<longrightarrow> map_of (db_dict (srv_db s' d)) k = None"
    using expireIfNeeded_spec [OF assms(1), of d k] by metis
  then show ?thesis using assms step_ks_ok by simp
qed

lemma wp_lookupKeyWrite:
  assumes "ks_ok s"
    and "\<And>s'. step {} s s' \<Longrightarrow> ks_ok s' \<Longrightarrow> P (s', map_of (db_dict (srv_db s' d)) k)"
  shows "wp (lookupKeyWrite d k s) P"
  unfolding lookupKeyWrite_def wp_bind
  by (rule wp_expireIfNeeded) (use assms in \<open>simp_all add: lookupKey_def\<close>)

lemma wp_lookupKeyRead:
  assumes "ks_ok s"
    and "\<And>s'. step {} s s' \<Longrightarrow> ks_ok s' \<Longrightarrow> P (s', map_of (db_dict (srv_db s' d)) k)"
  shows "wp (lookupKeyRead d k s) P"
  unfolding lookupKeyRead_def wp_bind
proof (rule wp_expireIfNeeded [OF assms(1)], goal_cases)
  case (1 s')
  have "step {} s (s'\<lparr>srv_stat_keyspace_hits := n\<rparr>)" "step {} s (s'\<lparr>srv_stat_keyspace_misses := n\<rparr>)" for n
    using step_trans0(1) [OF 1(1)] step_stats by blast+
  then show ?case using assms(2) step_ks_ok [OF _ assms(1)]
    by (fastforce simp: lookupKey_def Let_def)
qed

lemma wp_lookupKeyReadOrReply:
  assumes "ks_ok s"
    and "\<And>s'. step {} s s' \<Longrightarrow> ks_ok s' \<Longrightarrow> P (s', map_of (db_dict (srv_db s' (client_db c s))) k)"
  shows "wp (lookupKeyReadOrReply c k r s) P"
  unfolding lookupKeyReadOrReply_def wp_bind
proof (rule wp_lookupKeyRead [OF assms(1)], goal_cases)
  case (1 s')
  have "step {} s (addReply c r s')" using step_trans0(1) [OF 1(1) step_addReply] .
  then show ?case using assms(2) [of s'] assms(2) [of "addReply c r s'"] step_ks_ok [OF _ assms(1)] 1
    by (auto simp: addReply_def server_simps)
qed

lemma wp_lookupKeyWriteOrReply:
  assumes "ks_ok s"
    and "\<And>s'. step {} s s' \<Longrightarrow> ks_ok s' \<Longrightarrow> P (s', map_of (db_dict (srv_db s' (client_db c s))) k)"
  shows "wp (lookupKeyWriteOrReply c k r s) P"
  unfolding lookupKeyWriteOrReply_def wp_bind
proof (rule wp_lookupKeyWrite [OF assms(1)], goal_cases)
  case (1 s')
  have "step {} s (addReply c r s')" using step_trans0(1) [OF 1(1) step_addReply] .
  then show ?case using assms(2) [of s'] assms(2) [of "addReply c r s'"] step_ks_ok [OF _ assms(1)] 1
    by (auto simp: addReply_def server_simps)
qed

lemma wp_dbAdd:
  assumes "map_of (db_dict (srv_db s d)) k = None" "val_ok v" "ks_ok s"
    and "\<And>s'. step {(d, k)} s s' \<Longrightarrow> ks_ok s' \<Longrightarrow> map_of (db_dict (srv_db s' d)) k = Some v \<Longrightarrow>
      db_expires (srv_db s' d) = db_expires (srv_db s d) \<Longrightarrow> P s'"
  shows "wp (dbAdd d k v s) P"
  using dbAdd_step [OF assms(1,2)] assms(3,4) step_ks_ok by fastforce

lemma wp_dbOverwrite:
  assumes "map_of (db_dict (srv_db s d)) k \<noteq> None" "val_ok v" "ks_ok s"
    and "\<And>s'. step {(d, k)} s s' \<Longrightarrow> ks_ok s' \<Longrightarrow> map_of (db_dict (srv_db s' d)) k = Some v \<Longrightarrow>
      db_expires (srv_db s' d) = db_expires (srv_db s d) \<Longrightarrow> P s'"
  shows "wp (dbOverwrite d k v s) P"
  using dbOverwrite_step [OF assms(1,2)] assms(3,4) step_ks_ok by fastforce

lemma wp_setExpire:
  assumes "map_of (db_dict (srv_db s d)) k \<noteq> None" "ks_ok s"
    and "\<And>s'. step {(d, k)} s s' \<Longrightarrow> ks_ok s' \<Longrightarrow> db_dict (srv_db s' d) = db_dict (srv_db s d) \<Longrightarrow>
      map_of (db_expires (srv_db s' d)) k = Some w \<Longrightarrow> P s'"
  shows "wp (setExpire d k w s) P"
  using setExpire_step [OF assms(1), of w] assms(2,3) step_ks_ok by fastforce

lemma wp_removeExpire:
  assumes "map_of (db_dict (srv_db s d)) k \<noteq> None" "ks_ok s"
    and "\<And>s'. step {(d, k)} s s' \<Longrightarrow> ks_ok s' \<Longrightarrow> db_dict (srv_db s' d) = db_dict (srv_db s d) \<Longrightarrow>
      map_of (db_expires (srv_db s' d)) k = None \<Longrightarrow> P (s', map_of (db_expires (srv_db s d)) k \<noteq> None)"
  shows "wp (removeExpire d k s) P"
  using removeExpire_step [OF assms(1)] assms(2,3) step_ks_ok by fastforce

lemma wp_getExpire:
  assumes "ks_ok s" "P (case map_of (db_expires (srv_db s d)) k of None \<Rightarrow> - 1 | Some w \<Rightarrow> w)"
  shows "wp (getExpire d k s) P"
  using assms getExpire_ok by simp

text \<open>After \<open>setKey\<close> the key is there with the value, never expires, and its watchers know.\<close>

lemma stored_ok: "ks_ok s \<Longrightarrow> map_of (db_dict (srv_db s d)) k = Some v \<Longrightarrow> val_ok v"
  by (auto simp: ks_ok_def db_ok_def simp del: map_of_eq_Some_iff)

lemma wp_setKey:
  assumes "ks_ok s" "val_ok v"
    and "\<And>s'. safe s s' \<Longrightarrow> ks_ok s' \<Longrightarrow> step {(d, k)} s s' \<Longrightarrow> touched s' d k \<Longrightarrow> live s' d k = Some v \<Longrightarrow> map_of (db_expires (srv_db s' d)) k = None \<Longrightarrow> 
       map_of (db_dict (srv_db s' d)) k = Some v \<Longrightarrow> P s'"
  shows "wp (setKey d k v s) P"
proof -
  have fin: "wp (Option.bind (removeExpire d k s2) (\<lambda>(s, _). Some (signalModifiedKey d k s))) P"
    if "step {} s s1" "step {(d, k)} s1 s2" "ks_ok s2" "map_of (db_dict (srv_db s2 d)) k = Some v" for s1 s2
    unfolding wp_bind
  proof (rule wp_removeExpire, goal_cases)
    case (3 s3)
    have st: "step {(d, k)} s s3"
      using step_trans [OF step_trans0(1) [OF that(1,2)] 3(1)] by simp
    have st': "step {(d, k)} s (signalModifiedKey d k s3)"
      by (rule step_trans0(2) [OF st signalModifiedKey_step(1)])
    have "live (signalModifiedKey d k s3) d k = Some v"
      using 3(3,4) that(4) by (simp add: live_def expired_def signalModifiedKey_step(3))
    then show ?case
      using assms(3) [OF safe_signal [OF st] _ st' signalModifiedKey_step(2)] step_ks_ok [OF st' assms(1)] 3(3,4) that(4)
      by (simp add: signalModifiedKey_step(3))
  qed (use that in simp_all)
  show ?thesis unfolding setKey_def wp_bind
  proof (rule wp_lookupKeyWrite [OF assms(1)], goal_cases)
    case (1 s1)
    show ?case
      using wp_dbAdd [OF _ assms(2) 1(2), of d k] wp_dbOverwrite [OF _ assms(2) 1(2), of d k] fin [OF 1(1)]
      by (auto simp: case_prod_unfold)
  qed
qed

section \<open>The commands signal every change\<close>

definition sound :: "server \<Rightarrow> server \<Rightarrow> bool" where
  "sound s s' \<longleftrightarrow> safe s s' \<and> ks_ok s'"

lemma sound_refl: "ks_ok s \<Longrightarrow> sound s s"
  by (simp add: sound_def)

lemma sound_ks_ok: "sound s s' \<Longrightarrow> ks_ok s'"
  by (simp add: sound_def)

lemma sound_step: "step {} s s' \<Longrightarrow> ks_ok s \<Longrightarrow> sound s s'"
  using safe_step step_ks_ok by (simp add: sound_def)

lemma sound_trans: "sound a b \<Longrightarrow> sound b c \<Longrightarrow> sound a c"
  using safe_trans by (auto simp: sound_def)

lemma sound_then: "sound a b \<Longrightarrow> step {} b c \<Longrightarrow> sound a c"
  using sound_trans sound_step sound_ks_ok by blast

lemma sound_signal: "sound s0 s \<Longrightarrow> step {(d, k)} s s' \<Longrightarrow> sound s0 (signalModifiedKey d k s')"
  using safe_signal [of d k s s'] safe_ks_ok [of s] sound_trans [of s0 s] by (auto simp: sound_def)

lemma sound_hooks [simp]: "sound a b \<Longrightarrow> sound a (addReply c r b)" "sound a b \<Longrightarrow> sound a (addReplies c rs b)"
  "sound a b \<Longrightarrow> sound a (addReplyError c m b)" "sound a b \<Longrightarrow> 0 \<le> n \<Longrightarrow> sound a (incr_dirty n b)"
  "sound a b \<Longrightarrow> sound a (signalModifiedKey d k b)"
  by (auto intro: sound_then simp: signalModifiedKey_step)

text \<open>A key may change again once its watchers are marked.\<close>

lemma sound_again:
  assumes "sound s0 s" "step {(d, k)} s s'" "touched s d k"
  shows "sound s0 s'"
proof -
  have "env s s'" using assms(2) by (simp add: step_def)
  then have "safe s s'" using assms(2,3) touched_env unfolding safe_def by blast
  then show ?thesis using sound_trans [OF assms(1)] safe_ks_ok sound_ks_ok [OF assms(1)] by (simp add: sound_def)
qed

lemma safe_touched:
  assumes "safe s s'" "live s' d k \<noteq> live s d k"
  shows "touched s' d k"
  using assms by (auto simp: safe_def step_def)

lemma wp_notify_sound:
  assumes "sound s0 s" "\<And>s'. sound s0 s' \<Longrightarrow> P s'"
  shows "wp (notifyKeyspaceEvent t e k d s) P"
  by (rule wp_notify) (use assms sound_then sound_ks_ok in \<open>blast\<close>)+

text \<open>The rules again, with everything up to the current state in \<open>sound s0 s\<close>.\<close>

lemma snd_expireIfNeeded:
  assumes "sound s0 s"
    and "\<And>s'. sound s0 s' \<Longrightarrow> step {} s s' \<Longrightarrow> (\<not> expired s d k \<Longrightarrow> s' = s) \<Longrightarrow>
      (expired s d k \<Longrightarrow> \<not> srv_masterhost s \<Longrightarrow> map_of (db_dict (srv_db s' d)) k = None) \<Longrightarrow> P (s', expired s d k)"
  shows "wp (expireIfNeeded d k s) P"
  by (rule wp_expireIfNeeded [OF sound_ks_ok [OF assms(1)]]) (use assms(2) sound_then [OF assms(1)] in blast)

lemma snd_lookupKeyWrite:
  assumes "sound s0 s"
    and "\<And>s'. sound s0 s' \<Longrightarrow> step {} s s' \<Longrightarrow> P (s', map_of (db_dict (srv_db s' d)) k)"
  shows "wp (lookupKeyWrite d k s) P"
  by (rule wp_lookupKeyWrite [OF sound_ks_ok [OF assms(1)]]) (use assms(2) sound_then [OF assms(1)] in blast)

lemma snd_lookupKeyRead:
  assumes "sound s0 s"
    and "\<And>s'. sound s0 s' \<Longrightarrow> step {} s s' \<Longrightarrow> P (s', map_of (db_dict (srv_db s' d)) k)"
  shows "wp (lookupKeyRead d k s) P"
  by (rule wp_lookupKeyRead [OF sound_ks_ok [OF assms(1)]]) (use assms(2) sound_then [OF assms(1)] in blast)

lemma snd_lookupKeyReadOrReply:
  assumes "sound s0 s"
    and "\<And>s'. sound s0 s' \<Longrightarrow> step {} s s' \<Longrightarrow> P (s', map_of (db_dict (srv_db s' (client_db c s))) k)"
  shows "wp (lookupKeyReadOrReply c k r s) P"
  by (rule wp_lookupKeyReadOrReply [OF sound_ks_ok [OF assms(1)]]) (use assms(2) sound_then [OF assms(1)] in blast)

lemma snd_lookupKeyWriteOrReply:
  assumes "sound s0 s"
    and "\<And>s'. sound s0 s' \<Longrightarrow> step {} s s' \<Longrightarrow> P (s', map_of (db_dict (srv_db s' (client_db c s))) k)"
  shows "wp (lookupKeyWriteOrReply c k r s) P"
  by (rule wp_lookupKeyWriteOrReply [OF sound_ks_ok [OF assms(1)]]) (use assms(2) sound_then [OF assms(1)] in blast)

lemma snd_getExpire:
  assumes "sound s0 s" "P (case map_of (db_expires (srv_db s d)) k of None \<Rightarrow> - 1 | Some w \<Rightarrow> w)"
  shows "wp (getExpire d k s) P"
  using assms getExpire_ok sound_ks_ok by simp

lemma snd_setKey:
  assumes "sound s0 s" "val_ok v"
    and "\<And>s'. sound s0 s' \<Longrightarrow> step {(d, k)} s s' \<Longrightarrow> touched s' d k \<Longrightarrow> live s' d k = Some v \<Longrightarrow> map_of (db_expires (srv_db s' d)) k = None \<Longrightarrow>
      map_of (db_dict (srv_db s' d)) k = Some v \<Longrightarrow> P s'"
  shows "wp (setKey d k v s) P"
proof (rule wp_setKey [OF sound_ks_ok [OF assms(1)] assms(2)], goal_cases)
  case (1 s')
  then show ?case using assms(3) sound_trans [OF assms(1)] by (simp add: sound_def)
qed

lemma delKeys_sound: "ks_ok s \<Longrightarrow> wp (delKeys d ks s) (\<lambda>(s', n). sound s s')"
proof (induction ks arbitrary: s)
  case (Cons k ks)
  show ?case unfolding delKeys.simps wp_bind
  proof (rule wp_expireIfNeeded [OF Cons.prems], goal_cases)
    case (1 s1)
    obtain s2 f where d: "dbDelete d k s1 = (s2, f)" by (cases "dbDelete d k s1")
    have s1: "sound s s1" using 1(1) Cons.prems by (rule sound_step)
    have st: "step {(d, k)} s1 s2" using dbDelete_step [of d k s1] d by simp
    have rest: "wp (delKeys d ks s3) (\<lambda>(s', n). sound s s')" if "sound s s3" for s3
      by (rule wp_mono [OF Cons.IH]) (use that sound_trans sound_ks_ok in auto)
    have found: "wp (Option.bind (notifyKeyspaceEvent REDIS_NOTIFY_GENERIC ''del'' k d (signalModifiedKey d k s2))
        (\<lambda>s. Some (incr_dirty 1 s))) (\<lambda>s3. sound s s3)"
      unfolding wp_bind
      by (rule wp_notify_sound [of s]) (auto intro!: sound_signal [OF s1 st])
    have lost: "sound s s2" if "\<not> f"
    proof -
      have n: "map_of (db_dict (srv_db s1 d)) k = None" using d that by (auto simp: dbDelete_def)
      have "live s2 d k = live s1 d k"
        using n d dbDelete_lookup [of d k s1] by (simp add: live_def)
      then have "step {} s1 s2" using st by (auto simp: step_def)
      then show ?thesis using s1 sound_then by blast
    qed
    have fin: "wp (Option.bind (delKeys d ks s3) (\<lambda>(s, n). Some (s, n + z))) (\<lambda>(s', n). sound s s')" if "sound s s3" for s3 z
      unfolding wp_bind by (rule wp_mono [OF rest [OF that]]) auto
    show ?case
      using wp_mono [OF found fin] rest [OF lost] d by (cases f) auto
  qed
qed (simp add: sound_refl)

lemma delCommand_sound: "ks_ok s \<Longrightarrow> wp (delCommand c s) (sound s)"
  unfolding delCommand_def wp_bind
  by (rule wp_mono [OF delKeys_sound]) auto

lemma existsCommand_sound: "ks_ok s \<Longrightarrow> wp (existsCommand c s) (sound s)"
  unfolding existsCommand_def wp_bind
  by (rule snd_expireIfNeeded [OF sound_refl]) auto

lemma typeCommand_sound: "ks_ok s \<Longrightarrow> wp (typeCommand c s) (sound s)"
  unfolding typeCommand_def wp_bind
  by (rule snd_lookupKeyRead [OF sound_refl]) auto

lemma dbsizeCommand_sound: "ks_ok s \<Longrightarrow> wp (dbsizeCommand c s) (sound s)"
  by (simp add: dbsizeCommand_def sound_refl)

lemma ttlGenericCommand_sound: "ks_ok s \<Longrightarrow> wp (ttlGenericCommand b c s) (sound s)"
  unfolding ttlGenericCommand_def Let_def wp_bind
  by (rule snd_lookupKeyRead [OF sound_refl]) (auto intro!: snd_getExpire)

lemma keysMatching_sound:
  "ks_ok s \<Longrightarrow> \<forall>k. stringmatchlen pat k False \<noteq> None \<Longrightarrow> wp (keysMatching d pat ks s) (\<lambda>(s', r). sound s s')"
proof (induction ks arbitrary: s)
  case (Cons k ks)
  have rest: "wp (keysMatching d pat ks s1) (\<lambda>(s', n). sound s s')" if "sound s s1" for s1
    by (rule wp_mono [OF Cons.IH]) (use that Cons.prems sound_trans sound_ks_ok in auto)
  obtain m where m: "(if c_str pat = [42] then Some True else stringmatchlen pat k False) = Some m"
    using Cons.prems(2) by (cases "c_str pat = [42]") (simp, metis option.exhaust_sel)
  have "wp (if m then expireIfNeeded d k s else Some (s, True)) (\<lambda>(s', b). sound s s')"
    using wp_expireIfNeeded [OF Cons.prems(1), where P = "\<lambda>(s', b). sound s s'"] Cons.prems(1) by (auto intro: sound_step)
  then show ?case unfolding keysMatching.simps m
    by (auto simp: case_prod_unfold elim!: wp_mono intro!: wp_mono [OF rest])
qed (simp add: sound_refl)

lemma keysCommand_sound:
  "ks_ok s \<Longrightarrow> \<forall>k. stringmatchlen (argv c s 1) k False \<noteq> None \<Longrightarrow> wp (keysCommand c s) (sound s)"
  unfolding keysCommand_def wp_bind
  by (rule wp_mono [OF keysMatching_sound]) auto


lemma step2: "step T s s1 \<Longrightarrow> step T s1 s2 \<Longrightarrow> step T s s2"
  using step_trans [of T s s1 T s2] by simp

lemma expireGenericCommand_sound:
  assumes "ks_ok s"
  shows "wp (expireGenericCommand b u c s) (sound s)"
proof -
  have arg: "step {} t (upd_client c (\<lambda>x. x\<lparr>c_argv := a\<rparr>) t)" for t a by (rule step_client) simp_all
  have past: "wp (Option.bind (notifyKeyspaceEvent REDIS_NOTIFY_GENERIC ''del'' k d
      (signalModifiedKey d k (upd_client c (\<lambda>x. x\<lparr>c_argv := a\<rparr>) (incr_dirty 1 s2)))) (\<lambda>s. Some (addReply c r s))) (sound s)"
    if "sound s s1" "step {(d, k)} s1 s2" for d k a r s1 s2
    unfolding wp_bind
    by (rule wp_notify_sound [OF sound_signal [OF that(1)]])
      (use step_trans0(2) [OF step_trans0(2) [OF that(2) step_incr_dirty] arg] in simp_all)
  have fut: "wp (Option.bind (setExpire d k w s1) (\<lambda>t. Option.bind (notifyKeyspaceEvent REDIS_NOTIFY_GENERIC ''expire'' k d
      (signalModifiedKey d k (addReply c r t))) (\<lambda>t. Some (incr_dirty 1 t)))) (sound s)"
    if "sound s s1" "map_of (db_dict (srv_db s1 d)) k \<noteq> None" for d k w r s1
    unfolding wp_bind
  proof (rule wp_setExpire [OF that(2) sound_ks_ok [OF that(1)]], goal_cases)
    case (1 s2)
    show ?case by (rule wp_notify_sound [OF sound_signal [OF that(1)]])
      (use step_trans0(2) [OF 1(1) step_addReply] in simp_all)
  qed
  show ?thesis
  proof (cases "getLongLongFromObject (Some (ENC_RAW (argv c s 2)))")
    case None
    then show ?thesis using sound_refl [OF assms] by (simp add: expireGenericCommand_def)
  next
    case (Some w)
    show ?thesis unfolding expireGenericCommand_def Some Let_def option.case wp_bind
    proof (rule snd_lookupKeyRead [OF sound_refl [OF assms]], goal_cases)
      case (1 s1)
      have d: "step {(i, k)} s1 (fst (dbDelete i k s1))" for i k by (rule dbDelete_step)
      show ?case
        using 1(1) past [OF 1(1) d] fut [OF 1(1)] by (simp add: case_prod_unfold) (simp add: dbDelete_def)
    qed
  qed
qed

lemma sound_signal2:
  assumes "sound s0 s" "step {(d, a), (d, b)} s s'"
  shows "sound s0 (signalModifiedKey d b (signalModifiedKey d a s'))"
proof -
  let ?a = "signalModifiedKey d a s'" let ?b = "signalModifiedKey d b ?a"
  have st: "step {(d, a), (d, b)} s ?b"
    using step_trans0(2) [OF step_trans0(2) [OF assms(2) signalModifiedKey_step(1)] signalModifiedKey_step(1)] .
  moreover have "touched ?b d a"
    using touched_env [OF _ signalModifiedKey_step(2) [of d a s']] signalModifiedKey_step(1) [of ?a d b] by (simp add: step_def)
  ultimately have "safe s ?b" unfolding safe_def
    by (intro exI [of _ "{(d, a), (d, b)}"]) (auto simp: signalModifiedKey_step(2))
  then show ?thesis using sound_trans [OF assms(1)] safe_ks_ok sound_ks_ok [OF assms(1)] by (simp add: sound_def)
qed

lemma expire_if_present:
  "ks_ok s \<Longrightarrow> map_of (db_dict (srv_db s d)) k = None \<Longrightarrow> map_of (db_expires (srv_db s d)) k = None"
  unfolding ks_ok_def db_ok_def by (metis domIff subsetD)

lemma rename_tail_wp:
  assumes s: "sound s0 s" and ne: "src \<noteq> dst" and vok: "val_ok v" and old: "old = map_of (db_dict (srv_db s d)) dst"
    and P: "\<And>s'. sound s0 s' \<Longrightarrow> step {(d, src), (d, dst)} s s' \<Longrightarrow> map_of (db_dict (srv_db s' d)) dst = Some v \<Longrightarrow>
      map_of (db_expires (srv_db s' d)) dst = (if e = - 1 then None else Some e) \<Longrightarrow>
      map_of (db_dict (srv_db s' d)) src = None \<Longrightarrow> P s'"
  shows "wp (rename_tail d src dst v e r c old s) P"
proof -
  let ?T = "{(d, src), (d, dst)}"
  let ?s1 = "if old \<noteq> None then fst (dbDelete d dst s) else s"
  have k: "ks_ok s" using s by (rule sound_ks_ok)
  have s1: "step ?T s ?s1" using dbDelete_step [of d dst s] step_mono by auto
  have a1: "map_of (db_dict (srv_db ?s1 d)) dst = None" "map_of (db_expires (srv_db ?s1 d)) dst = None"
    using old dbDelete_lookup [of d dst s] expire_if_present [OF k] by auto
  have mono: "step {(d, dst)} x y \<Longrightarrow> step ?T x y" "step {(d, src)} x y \<Longrightarrow> step ?T x y" "step {} x y \<Longrightarrow> step ?T x y" for x y
    using step_mono by blast+
  have tail: "wp (Option.bind (notifyKeyspaceEvent t1 e1 src d (signalModifiedKey d dst (signalModifiedKey d src (fst (dbDelete d src s3)))))
      (\<lambda>s. Option.bind (notifyKeyspaceEvent t2 e2 dst d s) (\<lambda>s. Some (addReply c r (incr_dirty 1 s))))) P"
    if t: "step ?T s s3" "map_of (db_dict (srv_db s3 d)) dst = Some v"
      "map_of (db_expires (srv_db s3 d)) dst = (if e = - 1 then None else Some e)" for s3 t1 e1 t2 e2
  proof -
    let ?s4 = "fst (dbDelete d src s3)" and ?s5 = "signalModifiedKey d dst (signalModifiedKey d src (fst (dbDelete d src s3)))"
    have s4: "step ?T s ?s4" using step2 [OF t(1)] mono(2) [OF dbDelete_step] .
    have s5: "sound s0 ?s5" "step ?T s ?s5"
      using sound_signal2 [OF s s4] step_trans0(2) [OF step_trans0(2) [OF s4 signalModifiedKey_step(1)] signalModifiedKey_step(1)] by auto
    have d: "srv_db ?s5 = srv_db ?s4" by (simp add: signalModifiedKey_step(3))
    have f: "map_of (db_dict (srv_db ?s4 d)) dst = Some v" "map_of (db_dict (srv_db ?s4 d)) src = None"
      "map_of (db_expires (srv_db ?s4 d)) dst = (if e = - 1 then None else Some e)"
      using t(2,3) ne by (auto simp: dbDelete_def server_simps delete_conv')
    show ?thesis unfolding wp_bind
    proof (rule wp_notify [OF sound_ks_ok [OF s5(1)]], rule wp_notify, assumption, goal_cases)
      case (1 s6 s7)
      have "step {} ?s5 (addReply c r (incr_dirty 1 s7))"
        using step_trans0(1) [OF step_trans0(1) [OF 1(1) 1(4)] step_trans0(1) [OF step_incr_dirty step_addReply]] by simp
      then have "sound s0 (addReply c r (incr_dirty 1 s7))" "step ?T s (addReply c r (incr_dirty 1 s7))"
        using sound_then [OF s5(1)] step_trans0(2) [OF s5(2)] by auto
      moreover have "srv_db (addReply c r (incr_dirty 1 s7)) = srv_db ?s4"
        using 1(3,6) d by (simp add: addReply_def incr_dirty_def server_simps)
      ultimately show ?case using P f by simp
    qed
  qed
  show ?thesis unfolding rename_tail_def Let_def wp_bind
  proof (rule wp_dbAdd [OF a1(1) vok step_ks_ok [OF s1 k]], goal_cases)
    case (1 s2)
    have s2: "step ?T s s2" using step2 [OF s1 mono(1) [OF 1(1)]] .
    show ?case
    proof (cases "e = - 1")
      case True
      then show ?thesis using tail [OF s2] 1(3,4) a1(2) by simp
    next
      case False
      have m: "map_of (db_dict (srv_db s2 d)) dst \<noteq> None" using 1(3) by simp
      have "wp (setExpire d dst e s2) (\<lambda>s3. step ?T s s3 \<and> map_of (db_dict (srv_db s3 d)) dst = Some v \<and>
          map_of (db_expires (srv_db s3 d)) dst = Some e)"
        by (rule wp_setExpire [OF m 1(2)]) (use step2 [OF s2 mono(1)] 1(3) in auto)
      then show ?thesis using False tail by (auto elim!: wp_mono)
    qed
  qed
qed

lemma renameGenericCommand_sound:
  assumes "ks_ok s"
  shows "wp (renameGenericCommand nx c s) (sound s)"
proof (cases "argv c s 1 = argv c s 2")
  case True
  then show ?thesis using sound_refl [OF assms] by (simp add: renameGenericCommand_def)
next
  case False
  let ?d = "client_db c s"
  show ?thesis unfolding renameGenericCommand_def Let_def if_not_P [OF False] wp_bind
  proof (rule snd_lookupKeyWriteOrReply [OF sound_refl [OF assms]], goal_cases)
    case (1 s1)
    show ?case
    proof (cases "map_of (db_dict (srv_db s1 ?d)) (argv c s 1)")
      case (Some v)
      show ?thesis unfolding Some prod.case option.case wp_bind
      proof (rule snd_getExpire [OF 1(1)], rule snd_lookupKeyWrite [OF 1(1)], goal_cases)
        case (1 s2)
        then show ?case using rename_tail_wp [OF 1(1) False stored_ok [OF sound_ks_ok [OF \<open>sound s s1\<close>] Some] refl] by simp
      qed
    qed (use 1 in simp)
  qed
qed

text \<open>Every client on a list of watchers is connected and has the key among the keys it watches.\<close>

definition watch_ok :: "server \<Rightarrow> bool" where
  "watch_ok s \<longleftrightarrow> (\<forall>d k. \<forall>c \<in> set (idx_clients (db_watched_keys (srv_db s d)) k).
     c \<in> set (srv_clients s) \<and> (d, k) \<in> set (c_watched_keys (srv_client s c)))"

lemma flush_fold:
  fixes Q :: "nat \<times> bytes \<Rightarrow> server \<Rightarrow> bool"
  assumes Q: "\<And>p c s. Q p (upd_client c (\<lambda>x. x\<lparr>c_dirty_cas := True\<rparr>) s) = Q p s"
  defines "F \<equiv> \<lambda>c s. if \<exists>p \<in> set (c_watched_keys (srv_client s c)). Q p s then upd_client c (\<lambda>x. x\<lparr>c_dirty_cas := True\<rparr>) s else s"
  shows "step {} s (fold F cs s) \<and> srv_db (fold F cs s) = srv_db s \<and>
    (\<forall>c p. c \<in> set cs \<longrightarrow> p \<in> set (c_watched_keys (srv_client s c)) \<longrightarrow> Q p s \<longrightarrow> c_dirty_cas (srv_client (fold F cs s) c))"
proof (induction cs arbitrary: s)
  case (Cons c cs)
  have F: "step {} s (F c s)" "srv_db (F c s) = srv_db s" "Q p (F c s) = Q p s"
    "c_watched_keys (srv_client (F c s) i) = c_watched_keys (srv_client s i)" for p i
    unfolding F_def by (auto intro!: step_client simp: Q server_simps)
  have d: "p \<in> set (c_watched_keys (srv_client s c)) \<Longrightarrow> Q p s \<Longrightarrow> c_dirty_cas (srv_client (F c s) c)" for p
    unfolding F_def by (auto simp: server_simps)
  have keep: "c_dirty_cas (srv_client (F c s) i) \<Longrightarrow> c_dirty_cas (srv_client (fold F cs (F c s)) i)" for i
    using Cons.IH [of "F c s"] by (auto simp: step_def env_def)
  show ?case using Cons.IH [of "F c s"] F d keep step_trans0(1) [OF F(1)] by auto
qed simp

lemma touchWatchedKeysOnFlush_step:
  "step {} s (touchWatchedKeysOnFlush dbid s)" "srv_db (touchWatchedKeysOnFlush dbid s) = srv_db s"
  "watch_ok s \<Longrightarrow> dbid = None \<or> dbid = Some d \<Longrightarrow> map_of (db_dict (srv_db s d)) k \<noteq> None \<Longrightarrow>
     touched (touchWatchedKeysOnFlush dbid s) d k"
proof -
  let ?Q = "\<lambda>(db, key) s. (dbid = None \<or> dbid = Some db) \<and> map_of (db_dict (srv_db s db)) key \<noteq> None"
  have e: "touchWatchedKeysOnFlush dbid s = fold (\<lambda>c s. if \<exists>p \<in> set (c_watched_keys (srv_client s c)). ?Q p s
     then upd_client c (\<lambda>x. x\<lparr>c_dirty_cas := True\<rparr>) s else s) (srv_clients s) s"
    by (simp add: touchWatchedKeysOnFlush_def case_prod_unfold)
  have q: "?Q p (upd_client c (\<lambda>x. x\<lparr>c_dirty_cas := True\<rparr>) t) = ?Q p t" for p c t by (auto simp: server_simps)
  note f = flush_fold [of ?Q s "srv_clients s", OF q, folded e]
  show "step {} s (touchWatchedKeysOnFlush dbid s)" "srv_db (touchWatchedKeysOnFlush dbid s) = srv_db s"
    using f by auto
  assume w: "watch_ok s" and d: "dbid = None \<or> dbid = Some d" "map_of (db_dict (srv_db s d)) k \<noteq> None"
  have "?Q (d, k) s" using d by simp
  then show "touched (touchWatchedKeysOnFlush dbid s) d k"
    using f w unfolding touched_def watch_ok_def by (metis (no_types, lifting))
qed

lemma empty_one_step: "step {(d, k) |k. map_of (db_dict (srv_db s d)) k \<noteq> None} s (empty_one d s)"
proof -
  have e: "env s (empty_one d s)" by (simp add: env_def empty_one_def server_simps)
  have "live (empty_one d s) i k = live s i k" if "i = d \<Longrightarrow> map_of (db_dict (srv_db s d)) k = None" for i k
    using that unfolding live_def expired_env [OF e]
    by (cases "i = d") (auto simp: empty_one_def server_simps expired_def)
  then show ?thesis using e by (auto simp: step_def empty_one_def server_simps db_ok_def)
qed

lemma sound_touched:
  "ks_ok s \<Longrightarrow> step {} s s1 \<Longrightarrow> step T s1 s2 \<Longrightarrow> (\<And>d k. (d, k) \<in> T \<Longrightarrow> touched s1 d k) \<Longrightarrow> sound s s2"
  using step_trans0(1) [of s s1 T s2] touched_env [of s1 s2] step_ks_ok unfolding sound_def safe_def step_def
  by blast

lemma flushdbCommand_sound:
  assumes "ks_ok s" "watch_ok s"
  shows "wp (flushdbCommand c s) (sound s)"
proof -
  let ?d = "client_db c s"
  let ?s1 = "incr_dirty (int (length (db_dict (srv_db s ?d)))) s"
  let ?s2 = "touchWatchedKeysOnFlush (Some ?d) ?s1"
  have w: "watch_ok ?s1" "srv_db ?s1 = srv_db s" using assms(2) by (simp_all add: watch_ok_def incr_dirty_def)
  have "step {} s ?s2" by (rule step_trans0(1) [OF step_incr_dirty touchWatchedKeysOnFlush_step(1)]) simp
  then have "sound s (empty_one ?d ?s2)"
    by (rule sound_touched [OF assms(1) _ empty_one_step]) (use w in \<open>auto simp: touchWatchedKeysOnFlush_step\<close>)
  then show ?thesis by (simp add: flushdbCommand_def Let_def)
qed

lemma emptyDb_step:
  "step {(d, k). map_of (db_dict (srv_db s d)) k \<noteq> None} s
     (fst (fold (\<lambda>j (s, removed). (empty_one j s, removed + int (length (db_dict (srv_db s j))))) js (s, n)))"
proof (induction js arbitrary: s n)
  case (Cons j js)
  let ?T = "\<lambda>s. {(d, k). map_of (db_dict (srv_db s d)) k \<noteq> None}"
  have "?T (empty_one j s) \<subseteq> ?T s" by (auto simp: empty_one_def server_simps split: if_splits)
  moreover have "step (?T s) s (empty_one j s)" by (rule step_mono [OF empty_one_step]) auto
  ultimately show ?case using step2 [OF _ step_mono [OF Cons.IH]] by simp
qed simp

lemma emptyDb_removed: "0 \<le> snd (emptyDb s)"
proof -
  have "0 \<le> n \<Longrightarrow> 0 \<le> snd (fold (\<lambda>j (s, removed). (empty_one j s, removed + int (length (db_dict (srv_db s j))))) js (s, n))" for js n s
    by (induction js arbitrary: s n) auto
  then show ?thesis by (simp add: emptyDb_def)
qed

lemma flushallCommand_sound:
  assumes "ks_ok s" "watch_ok s"
  shows "wp (flushallCommand c s) (sound s)"
proof -
  let ?s1 = "touchWatchedKeysOnFlush None s"
  have "sound s (fst (emptyDb ?s1))" unfolding emptyDb_def
    by (rule sound_touched [OF assms(1) touchWatchedKeysOnFlush_step(1) emptyDb_step])
      (use assms(2) in \<open>auto simp: touchWatchedKeysOnFlush_step\<close>)
  then show ?thesis using emptyDb_removed by (simp add: flushallCommand_def Let_def case_prod_unfold)
qed

lemma signal_entries: "filter (\<lambda>e. fst e \<notin> {''move'', ''persist''}) key_commands =
    del_entries @ [(''rename'', 3, ''w'', renameCommand), (''renamenx'', 3, ''wF'', renamenxCommand),
     (''expire'', 3, ''wF'', expireCommand), (''expireat'', 3, ''wF'', expireatCommand), (''pexpire'', 3, ''wF'', pexpireCommand),
     (''pexpireat'', 3, ''wF'', pexpireatCommand), (''keys'', 2, ''rS'', keysCommand)] @ dbsize_entries @ type_entries @ flush_entries @
     [(''ttl'', 2, ''rF'', ttlCommand), (''pttl'', 2, ''rF'', pttlCommand)]"
  by (simp add: key_entries)

lemma key_commands_sound:
  assumes "ks_ok s" "watch_ok s" "(name, arity, sflags, cmd) \<in> set key_commands" "name \<notin> {''move'', ''persist''}"
    and "name = ''keys'' \<Longrightarrow> \<forall>k. stringmatchlen (argv c s 1) k False \<noteq> None"
  shows "wp (cmd c s) (sound s)"
proof -
  have "(name, arity, sflags, cmd) \<in> set (filter (\<lambda>e. fst e \<notin> {''move'', ''persist''}) key_commands)"
    using assms(3,4) by simp
  then show ?thesis unfolding signal_entries
    using assms(1,2,5) delCommand_sound existsCommand_sound expireGenericCommand_sound keysCommand_sound dbsizeCommand_sound typeCommand_sound
      flushdbCommand_sound flushallCommand_sound ttlGenericCommand_sound renameGenericCommand_sound
    by (auto simp: del_entries_def dbsize_entries_def type_entries_def flush_entries_def expireCommand_def expireatCommand_def
        pexpireCommand_def pexpireatCommand_def ttlCommand_def pttlCommand_def renameCommand_def renamenxCommand_def)
qed

text \<open>\<open>MOVE\<close> and \<open>PERSIST\<close> keep the key space well formed, but do not signal.\<close>

lemma sound_kept: "sound s s' \<Longrightarrow> step UNIV s s'"
  using step_mono by (auto simp: sound_def safe_def)

lemma moveCommand_kept:
  assumes "ks_ok s"
  shows "wp (moveCommand c s) (step UNIV s)"
proof -
  have fin: "wp (dbAdd d k v s1) (\<lambda>s2. step UNIV s (addReply c r (incr_dirty 1 (fst (dbDelete e k s2)))))"
    if "sound s s1" "map_of (db_dict (srv_db s1 d)) k = None" "val_ok v" for d k v s1 e r
  proof (rule wp_dbAdd [OF that(2,3) sound_ks_ok [OF that(1)]], goal_cases)
    case (1 s2)
    have "step UNIV s (fst (dbDelete e k s2))"
      using step_trans [OF sound_kept [OF that(1)] step_trans [OF 1(1) dbDelete_step]] by simp
    then show ?case using step_trans0(2) step_incr_dirty [of 1] step_addReply by (metis zero_le_one)
  qed
  note l = snd_lookupKeyWrite [where ?s0.0 = s]
  show ?thesis
    unfolding moveCommand_def Let_def
    by (auto split: option.split intro!: l sound_kept fin sound_hooks sound_refl [OF assms])
      (metis stored_ok sound_ks_ok)
qed

lemma persistCommand_kept:
  assumes "ks_ok s"
  shows "wp (persistCommand c s) (step UNIV s)"
proof (cases "map_of (db_dict (srv_db s (client_db c s))) (argv c s 1) = None")
  case False
  show ?thesis unfolding persistCommand_def Let_def if_not_P [OF False] wp_bind
  proof (rule wp_removeExpire [OF False assms], goal_cases)
    case (1 s1)
    have "step UNIV s s1" using step_mono [OF 1(1)] by simp
    then have "step UNIV s (addReply c r s1)" for r using step_trans0(2) step_addReply by metis
    then show ?case using step_trans0(2) [OF _ step_incr_dirty [of 1]] by simp
  qed
qed (use step_mono [OF step_addReply] in \<open>auto simp: persistCommand_def\<close>)

lemma key_commands_kept:
  assumes "ks_ok s" "watch_ok s" "(name, arity, sflags, cmd) \<in> set key_commands"
    and "name = ''keys'' \<Longrightarrow> \<forall>k. stringmatchlen (argv c s 1) k False \<noteq> None"
  shows "wp (cmd c s) (step UNIV s)"
proof (cases "name \<in> {''move'', ''persist''}")
  case True
  then have "cmd = moveCommand \<or> cmd = persistCommand" using assms(3) by (auto simp: key_entries)
  then show ?thesis using moveCommand_kept [OF assms(1)] persistCommand_kept [OF assms(1)] by auto
next
  case False
  show ?thesis by (rule wp_mono [OF key_commands_sound [OF assms(1-3) False assms(4)]]) (simp_all add: sound_kept)
qed

lemma watch_ok_env: "env s s' \<Longrightarrow> watch_ok s \<Longrightarrow> watch_ok s'"
  by (simp add: watch_ok_def env_def)

text \<open>
  C6. Commands on keys: \<open>DEL\<close>, \<open>EXISTS\<close>, \<open>MOVE\<close>, \<open>RENAME\<close>, \<open>RENAMENX\<close>, the four forms of \<open>EXPIRE\<close>, \<open>KEYS\<close>,
  \<open>DBSIZE\<close>, \<open>TYPE\<close>, \<open>FLUSHDB\<close>, \<open>FLUSHALL\<close>, \<open>TTL\<close>, \<open>PTTL\<close> and \<open>PERSIST\<close> fail no assertion, and afterwards the expires of every
  data base are still a part of its dictionary with every key at most once. All of them but \<open>MOVE\<close> and
  \<open>PERSIST\<close> have set the dirty flag of every client that watches a key whose visible value the command changed. The
  patterns of subscribers, and of \<open>KEYS\<close>, are ones the matcher does not read beyond.
\<close>

theorem key_commands_signal:
  assumes "ks_ok s" "watch_ok s" "(name, arity, sflags, cmd) \<in> set key_commands"
    and "name = ''keys'' \<Longrightarrow> \<forall>k. stringmatchlen (argv c s 1) k False \<noteq> None"
  shows "\<exists>s'. cmd c s = Some s' \<and> ks_ok s' \<and> watch_ok s' \<and>
    (name \<notin> {''move'', ''persist''} \<longrightarrow> (\<forall>d k. live s' d k \<noteq> live s d k \<longrightarrow> touched s' d k))"
proof -
  obtain s' where s': "cmd c s = Some s'" "step UNIV s s'" using key_commands_kept [OF assms] by (auto simp: wp_def)
  have "watch_ok s'" using s'(2) watch_ok_env assms(2) by (auto simp: step_def)
  moreover have "\<forall>d k. live s' d k \<noteq> live s d k \<longrightarrow> touched s' d k" if "name \<notin> {''move'', ''persist''}"
  proof -
    have "safe s s'" using key_commands_sound [OF assms(1-3) that assms(4)] s'(1) by (simp add: wp_def sound_def)
    then show ?thesis using safe_touched by blast
  qed
  ultimately show ?thesis using s' step_ks_ok [OF s'(2) assms(1)] by blast
qed

section \<open>Reading\<close>

lemma lookupKeyRead_spec:
  assumes "ks_ok s" "\<not> srv_masterhost s"
  shows "\<exists>s'. lookupKeyRead d k s = Some (s', live s d k) \<and> ks_ok s' \<and>
    map_of (db_dict (srv_db s' d)) k = live s d k \<and>
    srv_repl s' = srv_repl s @ (if expired s d k then [(d, [str ''DEL'', k])] else []) \<and>
    (\<forall>i j. live s' i j = live s i j)"
proof -
  obtain s1 where s1: "expireIfNeeded d k s = Some (s1, expired s d k)" "step {} s s1"
    "\<not> expired s d k \<longrightarrow> s1 = s"
    "expired s d k \<longrightarrow> map_of (db_dict (srv_db s1 d)) k = None \<and> srv_repl s1 = srv_repl s @ [(d, [str ''DEL'', k])]"
    using expireIfNeeded_spec [OF assms(1), of d k] assms(2) by blast
  have l: "map_of (db_dict (srv_db s1 d)) k = live s d k" using s1(3,4) by (cases "expired s d k") (auto simp: live_def)
  let ?s2 = "if live s d k = None then s1\<lparr>srv_stat_keyspace_misses := srv_stat_keyspace_misses s1 + 1\<rparr>
             else s1\<lparr>srv_stat_keyspace_hits := srv_stat_keyspace_hits s1 + 1\<rparr>"
  have "step {} s ?s2"
    using step_trans0(1) [OF s1(2) step_stats(2)] step_trans0(1) [OF s1(2) step_stats(3)] by simp
  then have "ks_ok ?s2" "live ?s2 i j = live s i j" for i j
    using step_ks_ok [OF _ assms(1)] by (blast, simp add: step_def)
  moreover have "lookupKeyRead d k s = Some (?s2, live s d k)"
    using s1(1) l by (simp add: lookupKeyRead_def lookupKey_def Let_def)
  moreover have "srv_db ?s2 = srv_db s1" "srv_repl ?s2 = srv_repl s1" by simp_all
  ultimately show ?thesis using l s1(3,4) by (intro exI [of _ ?s2]) (auto simp del: One_nat_def)
qed

section \<open>Random keys\<close>

lemma dbRandomKey_slave:
  assumes "ks_ok s" "srv_masterhost s" "db_dict (srv_db s d) \<noteq> []"
    and "\<And>k. k \<in> fst ` set (db_dict (srv_db s d)) \<Longrightarrow> expired s d k"
  shows "dbRandomKey picks d s = None"
proof (induction picks)
  case (Cons r picks)
  let ?d = "db_dict (srv_db s d)" let ?k = "fst (?d ! (r mod length ?d))"
  have "?k \<in> fst ` set ?d" using assms(3) by simp
  then have e: "expired s d ?k" by (rule assms(4))
  then have "map_of (db_expires (srv_db s d)) ?k \<noteq> None" by (auto simp: expired_def split: option.splits)
  moreover have "expireIfNeeded d ?k s = Some (s, True)"
    using expireIfNeeded_spec [OF assms(1), of d ?k] e assms(2) by auto
  ultimately show ?case using Cons assms(3) by (simp add: Let_def)
qed (use assms(3) in simp)

lemma length_delete_less: "k \<in> fst ` set xs \<Longrightarrow> length (AList.delete k xs) < length xs"
  by (induction xs) (auto simp: delete_simps le_imp_less_Suc length_delete_le)

lemma dbRandomKey_master:
  "ks_ok s \<Longrightarrow> \<not> srv_masterhost s \<Longrightarrow> length (db_dict (srv_db s d)) \<le> length picks \<Longrightarrow>
   \<exists>s' r. dbRandomKey picks d s = Some (s', r) \<and> sound s s' \<and>
     (case r of None \<Rightarrow> (\<forall>k. live s d k = None) | Some k \<Rightarrow> live s d k \<noteq> None)"
proof (induction picks arbitrary: s)
  case Nil
  then show ?case by (simp add: sound_refl live_def)
next
  case (Cons r picks)
  let ?d = "db_dict (srv_db s d)" let ?k = "fst (?d ! (r mod length ?d))"
  show ?case
  proof (cases "?d = []")
    case True
    then show ?thesis using Cons.prems by (simp add: sound_refl live_def)
  next
    case False
    then have k: "?k \<in> fst ` set ?d" by simp
    then have kd: "map_of ?d ?k \<noteq> None" by (simp add: map_of_eq_None_iff)
    obtain s1 where s1: "expireIfNeeded d ?k s = Some (s1, expired s d ?k)" "step {} s s1" "\<not> expired s d ?k \<longrightarrow> s1 = s"
      "expired s d ?k \<longrightarrow> db_dict (srv_db s1 d) = AList.delete ?k ?d"
      using expireIfNeeded_spec [OF Cons.prems(1), of d ?k] Cons.prems(2) by blast
    show ?thesis
    proof (cases "expired s d ?k")
      case True
      have x: "map_of (db_expires (srv_db s d)) ?k \<noteq> None" using True by (auto simp: expired_def split: option.splits)
      have "length (AList.delete ?k ?d) < length ?d" using k by (rule length_delete_less)
      then have "length (db_dict (srv_db s1 d)) \<le> length picks" using Cons.prems(3) s1(4) True by simp
      moreover have "\<not> srv_masterhost s1" using s1(2) Cons.prems(2) by (simp add: step_def env_def)
      ultimately obtain s' q where q: "dbRandomKey picks d s1 = Some (s', q)" "sound s1 s'"
        "case q of None \<Rightarrow> (\<forall>k. live s1 d k = None) | Some k \<Rightarrow> live s1 d k \<noteq> None"
        using Cons.IH [of s1] step_ks_ok [OF s1(2) Cons.prems(1)] by blast
      have "live s1 d k = live s d k" for k using s1(2) by (simp add: step_def)
      then have "case q of None \<Rightarrow> (\<forall>k. live s d k = None) | Some k \<Rightarrow> live s d k \<noteq> None"
        using q(3) by (cases q) simp_all
      then show ?thesis
        using q True False x s1(1) sound_trans [OF sound_step [OF s1(2) Cons.prems(1)] q(2)] by (auto simp: Let_def)
    next
      case nx: False
      then have "live s d ?k \<noteq> None" using kd by (simp add: live_def)
      then show ?thesis using False nx s1(1,3) Cons.prems by (simp add: Let_def sound_refl)
    qed
  qed
qed


text \<open>
  On a master \<open>RANDOMKEY\<close> ends after at most one turn per key of the data base, whatever the random
  numbers are; it answers a key that has not expired, and nil only when there is none.
\<close>

theorem randomkey_master:
  assumes "ks_ok s" "\<not> srv_masterhost s" "length (db_dict (srv_db s (client_db c s))) \<le> length picks"
  shows "\<exists>s' r. randomkeyCommand picks c s = Some s' \<and> ks_ok s' \<and> c_reply (srv_client s' c) \<noteq> [] \<and>
     last (c_reply (srv_client s' c)) = (case r of None \<Rightarrow> NullBulk | Some k \<Rightarrow> Bulk k) \<and>
     (case r of None \<Rightarrow> (\<forall>k. live s (client_db c s) k = None) | Some k \<Rightarrow> live s (client_db c s) k \<noteq> None)"
proof -
  obtain s' r where r: "dbRandomKey picks (client_db c s) s = Some (s', r)" "sound s s'"
    "case r of None \<Rightarrow> (\<forall>k. live s (client_db c s) k = None) | Some k \<Rightarrow> live s (client_db c s) k \<noteq> None"
    using dbRandomKey_master [OF assms] by blast
  then show ?thesis using sound_ks_ok [OF sound_hooks(1) [OF r(2)]]
    by (intro exI [of _ "addReply c (case r of None \<Rightarrow> NullBulk | Some k \<Rightarrow> Bulk k) s'"] exI [of _ r])
      (simp add: randomkeyCommand_def addReply_def server_simps)
qed

text \<open>A server with one client, one key that has no expire and one that expired a long time ago.\<close>

definition demo_server :: "string list \<Rightarrow> server" where
  "demo_server av = upd_db 0 (\<lambda>d. d\<lparr>db_dict := [(str ''a'', StrObj (ENC_RAW (str ''1''))), (str ''b'', StrObj (ENC_RAW (str ''2'')))],
     db_expires := [(str ''b'', 5)]\<rparr>) (with_argv 1 av (initServer [1] 100))"

lemmas demo_defs = demo_server_def with_argv_def initServer_def createClient_def empty_db_def server_simps

lemma demo_ok [simp]: "ks_ok (demo_server av)" "watch_ok (demo_server av)"
  by (auto simp: ks_ok_def db_ok_def pats_safe_def watch_ok_def idx_clients_def demo_defs split: if_splits)

lemma demo_view [simp]: "expired (demo_server av) d k \<longleftrightarrow> d = 0 \<and> k = str ''b''"
  "live (demo_server av) d k = (if d = 0 \<and> k = str ''a'' then Some (StrObj (ENC_RAW (str ''1''))) else None)"
  by (auto simp: live_def expired_def now_def demo_defs)

lemma demo_env [simp]: "\<not> srv_masterhost (demo_server av)" "c_db (srv_client (demo_server av) c) = 0"
  "c_argv (srv_client (demo_server av) (Suc 0)) = map (map of_char) av" "srv_dbnum (demo_server av) = 16"
  "map_of (db_dict (srv_db (demo_server av) (Suc 0))) k = None" "map_of (db_dict (srv_db (demo_server av) 0)) [98] = Some (StrObj (ENC_RAW (str ''2'')))"
  "length (db_dict (srv_db (demo_server av) 0)) = 2"
  by (simp_all add: demo_defs)

text \<open>The demonstration server with client 2 watching the key that has no expire time.\<close>

definition demo_watched :: "string list \<Rightarrow> server" where
  "demo_watched av = upd_db 0 (\<lambda>d. d\<lparr>db_watched_keys := [(str ''a'', [2])]\<rparr>)
     (upd_client 2 (\<lambda>x. x\<lparr>c_watched_keys := [(0, str ''a'')]\<rparr>) ((demo_server av)\<lparr>srv_clients := [1, 2]\<rparr>))"

lemma demo_watched_ok: "ks_ok (demo_watched av)" "watch_ok (demo_watched av)"
  by (auto simp: demo_watched_def ks_ok_def db_ok_def pats_safe_def watch_ok_def idx_clients_def demo_defs split: if_splits)

theorem key_commands_signal_witness:
  "\<exists>s'. renameCommand 1 (demo_watched [''rename'', ''a'', ''b'']) = Some s' \<and> ks_ok s' \<and>
     live s' 0 (str ''a'') = None \<and> live (demo_watched [''rename'', ''a'', ''b'']) 0 (str ''a'') \<noteq> None \<and>
     \<not> c_dirty_cas (srv_client (demo_watched [''rename'', ''a'', ''b'']) 2) \<and> c_dirty_cas (srv_client s' 2)"
proof -
  let ?s = "demo_watched [''rename'', ''a'', ''b'']"
  have before: "live ?s 0 (str ''a'') \<noteq> None" "\<not> c_dirty_cas (srv_client ?s 2)" by code_simp+
  have after: "map_option (\<lambda>s'. (live s' 0 (str ''a''), idx_clients (db_watched_keys (srv_db s' 0)) (str ''a''))) (renameCommand 1 ?s) = Some (None, [2])"
    by code_simp
  from key_commands_signal [OF demo_watched_ok, of "''rename''" 3 "''w''" renameCommand "[''rename'', ''a'', ''b'']" 1]
  obtain s' where s': "renameCommand 1 ?s = Some s'" "ks_ok s'" "\<forall>d k. live s' d k \<noteq> live ?s d k \<longrightarrow> touched s' d k"
    by (auto simp: key_entries)
  moreover have "live s' 0 (str ''a'') = None" "2 \<in> set (idx_clients (db_watched_keys (srv_db s' 0)) (str ''a''))" using after s'(1) by simp_all
  moreover have "touched s' 0 (str ''a'')" using s'(3) before(1) calculation(4) by metis
  ultimately show ?thesis using before unfolding touched_def by blast
qed

theorem randomkey_master_witness: "\<exists>s'. randomkeyCommand [1, 1] 1 (demo_server [''randomkey'']) = Some s' \<and> ks_ok s'"
  using randomkey_master [of "demo_server [''randomkey'']" 1 "[1, 1]"] by auto

text \<open>
  C27. Reading on a master: a lookup answers exactly the value a key has for its clients. A key whose time has passed
  is gone from the data base afterwards, with one \<open>DEL\<close> for the slaves; nothing else changes.
\<close>

theorem lookupKeyRead_live:
  assumes "ks_ok s" "\<not> srv_masterhost s"
  shows "\<exists>s'. lookupKeyRead d k s = Some (s', live s d k) \<and> ks_ok s' \<and>
    map_of (db_dict (srv_db s' d)) k = live s d k \<and>
    srv_repl s' = srv_repl s @ (if expired s d k then [(d, [str ''DEL'', k])] else []) \<and>
    (\<forall>i j. live s' i j = live s i j)"
  by (rule lookupKeyRead_spec [OF assms])

theorem lookupKeyRead_live_witness:
  "\<exists>s'. lookupKeyRead 0 (str ''b'') (demo_server []) = Some (s', None) \<and> srv_repl s' = [(0, [str ''DEL'', str ''b''])]"
proof -
  have "srv_repl (demo_server []) = []" by (simp add: demo_defs)
  then show ?thesis using lookupKeyRead_live [of "demo_server []" 0 "str ''b''"] by auto
qed

text \<open>
  C38. \<open>RANDOMKEY\<close> on a slave never returns when every key of the data base has expired: a slave does not delete
  expired keys, and the loop draws again for ever.
\<close>

theorem randomkey_slave_loops:
  assumes "ks_ok s" "srv_masterhost s" "db_dict (srv_db s (client_db c s)) \<noteq> []"
    and "\<And>k. k \<in> fst ` set (db_dict (srv_db s (client_db c s))) \<Longrightarrow> expired s (client_db c s) k"
  shows "randomkeyCommand picks c s = None"
  using dbRandomKey_slave [OF assms] by (simp add: randomkeyCommand_def)

definition demo_slave :: server where
  "demo_slave = (upd_db 0 (\<lambda>d. d\<lparr>db_dict := [(str ''b'', StrObj (ENC_RAW []))], db_expires := [(str ''b'', 5)]\<rparr>)
     (initServer [1] 100))\<lparr>srv_masterhost := True\<rparr>"

theorem randomkey_slave_loops_witness: "randomkeyCommand (replicate 1000 0) 1 demo_slave = None"
  by (rule randomkey_slave_loops)
    (auto simp: demo_slave_def ks_ok_def db_ok_def pats_safe_def expired_def now_def demo_defs)

section \<open>Moving keys\<close>

lemma expireIfNeeded_id: "ks_ok s \<Longrightarrow> \<not> expired s d k \<Longrightarrow> expireIfNeeded d k s = Some (s, False)"
  using expireIfNeeded_spec [of s d k] by auto

lemma lookupKeyWrite_id: "ks_ok s \<Longrightarrow> \<not> expired s d k \<Longrightarrow> lookupKeyWrite d k s = Some (s, live s d k)"
  by (simp add: lookupKeyWrite_def expireIfNeeded_id lookupKey_def live_def)

lemma wp_lookupKeyWrite_live:
  assumes "sound s0 s" "\<not> srv_masterhost s" "\<And>s'. sound s0 s' \<Longrightarrow> step {} s s' \<Longrightarrow> map_of (db_dict (srv_db s' d)) k = live s d k \<Longrightarrow> P (s', live s d k)"
  shows "wp (lookupKeyWrite d k s) P"
  unfolding lookupKeyWrite_def wp_bind
proof (rule snd_expireIfNeeded [OF assms(1)], goal_cases)
  case (1 s')
  then have "map_of (db_dict (srv_db s' d)) k = live s d k" using assms(2) by (cases "expired s d k") (auto simp: live_def)
  then show ?case using 1 assms(3) by (simp add: lookupKey_def)
qed

text \<open>
  C28. \<open>RENAME\<close> on a master: the value of the source key, with its expire time, is at the destination, whatever was
  there (\<open>RENAMENX\<close> only if nothing was); the source is gone and every other key looks the same.
\<close>

theorem rename_moves:
  assumes "ks_ok s" "\<not> srv_masterhost s" and d: "d = client_db c s" and src: "src = argv c s 1" and dst: "dst = argv c s 2"
    and "src \<noteq> dst" "live s d src = Some v" "nx \<Longrightarrow> live s d dst = None"
  shows "\<exists>s'. renameGenericCommand nx c s = Some s' \<and> live s' d src = None \<and>
    map_of (db_dict (srv_db s' d)) dst = Some v \<and> getExpire d dst s' = getExpire d src s \<and> live s' d dst = Some v \<and>
    (\<forall>i k. (i, k) \<noteq> (d, src) \<longrightarrow> (i, k) \<noteq> (d, dst) \<longrightarrow> live s' i k = live s i k)"
proof -
  let ?e = "case map_of (db_expires (srv_db s d)) src of None \<Rightarrow> - 1 | Some w \<Rightarrow> w"
  have ne: "\<not> expired s d src" using assms(7) by (auto simp: live_def split: if_splits)
  have vok: "val_ok v" using stored_ok [OF assms(1)] assms(7) by (auto simp: live_def split: if_splits)
  have e: "getExpire d src s = Some ?e" by (rule getExpire_ok [OF assms(1)])
  have l: "lookupKeyWriteOrReply c src r s = Some (s, Some v)" for r
    using lookupKeyWrite_id [OF assms(1) ne] assms(7) d by (simp add: lookupKeyWriteOrReply_def)
  have fin: "wp (rename_tail d src dst v ?e r c old s1) (\<lambda>s'. live s' d src = None \<and>
      map_of (db_dict (srv_db s' d)) dst = Some v \<and> getExpire d dst s' = Some ?e \<and> live s' d dst = Some v \<and>
      (\<forall>i k. (i, k) \<noteq> (d, src) \<longrightarrow> (i, k) \<noteq> (d, dst) \<longrightarrow> live s' i k = live s i k))"
    if s1: "sound s s1" "step {} s s1" "old = map_of (db_dict (srv_db s1 d)) dst" for r old s1
  proof (rule rename_tail_wp [OF s1(1) assms(6) vok s1(3)], goal_cases)
    case (1 s')
    have st: "step {(d, src), (d, dst)} s s'" by (rule step_trans0(1) [OF s1(2) 1(2)])
    then have ev: "env s s'" by (simp add: step_def)
    have g: "getExpire d dst s' = Some ?e" unfolding getExpire_ok [OF sound_ks_ok [OF 1(1)]] 1(4) by simp
    have "\<not> expired s' d dst" using 1(4) ne unfolding expired_env [OF ev] expired_def [of s]
      by (auto split: option.splits)
    then show ?case using st 1(3,5) g by (auto simp: step_def live_def)
  qed
  have "wp (renameGenericCommand nx c s) (\<lambda>s'. live s' d src = None \<and>
      map_of (db_dict (srv_db s' d)) dst = Some v \<and> getExpire d dst s' = Some ?e \<and> live s' d dst = Some v \<and>
      (\<forall>i k. (i, k) \<noteq> (d, src) \<longrightarrow> (i, k) \<noteq> (d, dst) \<longrightarrow> live s' i k = live s i k))"
    unfolding renameGenericCommand_def Let_def d [symmetric] src [symmetric] dst [symmetric] if_not_P [OF assms(6)] l
      Option.bind.simps prod.case option.case e wp_bind
  proof (rule wp_lookupKeyWrite_live [OF sound_refl [OF assms(1)] assms(2)], goal_cases)
    case (1 s1)
    have nx: "\<not> (live s d dst \<noteq> None \<and> nx)" using assms(8) by auto
    show ?case unfolding prod.case if_not_P [OF nx] by (rule fin [OF 1(1,2) 1(3) [symmetric]])
  qed
  then show ?thesis unfolding e by (rule wpD)
qed

theorem rename_moves_witness:
  "\<exists>s'. renameGenericCommand True 1 (demo_server [''renamenx'', ''a'', ''b'']) = Some s' \<and> live s' 0 (str ''a'') = None \<and>
     live s' 0 (str ''b'') = Some (StrObj (ENC_RAW (str ''1'')))"
  using rename_moves [of "demo_server [''renamenx'', ''a'', ''b'']" 0 1 "str ''a''" "str ''b''" "StrObj (ENC_RAW (str ''1''))" True]
  by auto

text \<open>
  \<open>MOVE\<close> on a master moves the value to the other data base without its expire time, and leaves the dirty
  flags of all clients as they are: a client watching the key in either data base does not learn of the change.
\<close>

theorem move_forgets:
  assumes "ks_ok s" "d = client_db c s" "k = argv c s 1" "d \<noteq> e"
    and "getLongLongFromObject (Some (ENC_RAW (argv c s 2))) = Some (int e)" "e < srv_dbnum s" "srv_dbnum s \<le> 2147483647"
    and "live s d k = Some v" "map_of (db_dict (srv_db s e)) k = None"
  shows "\<exists>s'. moveCommand c s = Some s' \<and> live s' d k = None \<and> live s' e k = Some v \<and> getExpire e k s' = Some (- 1) \<and>
    (\<forall>x. c_dirty_cas (srv_client s' x) = c_dirty_cas (srv_client s x))"
proof -
  have ne: "\<not> expired s d k" "map_of (db_dict (srv_db s d)) k = Some v"
    using assms(8) by (auto simp: live_def split: if_splits)
  have ee: "map_of (db_expires (srv_db s e)) k = None" by (rule expire_if_present [OF assms(1,9)])
  then have "\<not> expired s e k" "live s e k = None" using assms(9) by (auto simp: expired_def live_def)
  note l = lookupKeyWrite_id [OF assms(1) ne(1)] lookupKeyWrite_id [OF assms(1) this(1)] this(2)
  obtain s1 where s1: "dbAdd e k v s = Some s1" "map_of (db_dict (srv_db s1 e)) k = Some v"
    "db_expires (srv_db s1 e) = db_expires (srv_db s e)" "srv_client s1 = srv_client s"
    using dbAdd_step [OF assms(9) stored_ok [OF assms(1) ne(2)]] assms(9) by (force simp: dbAdd_def Let_def signalListAsReady_def server_simps)
  let ?s2 = "fst (dbDelete d k s1)"
  let ?s3 = "addReply c shared_cone (incr_dirty 1 ?s2)"
  have d: "srv_db ?s3 = srv_db ?s2" by (simp add: addReply_def incr_dirty_def server_simps)
  have e: "map_of (db_dict (srv_db ?s3 e)) k = Some v" "map_of (db_expires (srv_db ?s3 e)) k = None"
    "map_of (db_dict (srv_db ?s3 d)) k = None"
    unfolding d using s1 ee assms(4) by (auto simp: dbDelete_def server_simps delete_conv')
  have "moveCommand c s = Some ?s3"
    using assms(2-7) l assms(8) s1(1) by (simp add: moveCommand_def selectDb_def Let_def)
  moreover have "c_dirty_cas (srv_client ?s3 x) = c_dirty_cas (srv_client s x)" for x
    using s1(4) by (simp add: addReply_def incr_dirty_def dbDelete_def server_simps)
  ultimately show ?thesis using e by (auto simp: live_def expired_def getExpire_def)
qed

theorem move_forgets_witness:
  "\<exists>s'. moveCommand 1 (demo_server [''move'', ''a'', ''1'']) = Some s' \<and> live s' 1 (str ''a'') = Some (StrObj (ENC_RAW (str ''1'')))"
proof -
  have "getLongLongFromObject (Some (ENC_RAW (argv 1 (demo_server [''move'', ''a'', ''1'']) 2))) = Some (int 1)"
    by (simp add: demo_env) code_simp
  then show ?thesis
    using move_forgets [of "demo_server [''move'', ''a'', ''1'']" 0 1 "str ''a''" 1 "StrObj (ENC_RAW (str ''1''))"] by auto
qed

text \<open>
  \<open>PERSIST\<close> does not check whether the time of the key has passed: an expired key that is still in the
  data base, which every other command takes for absent, comes back, and its watchers are not told.
\<close>

theorem persist_revives:
  assumes "expired s d k" "d = client_db c s" "k = argv c s 1" "map_of (db_dict (srv_db s d)) k = Some v"
  shows "live s d k = None \<and> (\<exists>s'. persistCommand c s = Some s' \<and> live s' d k = Some v \<and>
    (\<forall>x. c_dirty_cas (srv_client s' x) = c_dirty_cas (srv_client s x)))"
proof -
  have x: "map_of (db_expires (srv_db s d)) k \<noteq> None" using assms(1) by (auto simp: expired_def split: option.splits)
  let ?s1 = "upd_db d (\<lambda>x. x\<lparr>db_expires := AList.delete k (db_expires x)\<rparr>) s"
  have "persistCommand c s = Some (incr_dirty 1 (addReply c shared_cone ?s1))"
    using x assms(2-4) by (simp add: persistCommand_def removeExpire_def Let_def)
  moreover have "live (incr_dirty 1 (addReply c shared_cone ?s1)) d k = Some v"
    using assms(4) by (simp add: live_def expired_def incr_dirty_def addReply_def server_simps delete_conv')
  ultimately show ?thesis using assms(1)
    by (auto simp: live_def incr_dirty_def addReply_def server_simps)
qed

theorem persist_revives_witness:
  "\<exists>s'. persistCommand 1 (demo_server [''persist'', ''b'']) = Some s' \<and> live s' 0 (str ''b'') = Some (StrObj (ENC_RAW (str ''2'')))"
  using persist_revives [of "demo_server [''persist'', ''b'']" 0 "str ''b''" 1 "StrObj (ENC_RAW (str ''2''))"] by auto

end
