(* ===== verification/Sds.thy ===== *)
theory Sds
  imports Util Object "HOL-Library.Monad_Syntax"
begin

text \<open>
  The dynamic strings of sds.c. A string is a header with the length, the number of free bytes
  and the allocated buffer; the bytes of the string are followed by a zero byte, so that the
  same pointer is also a C string. The header's counters are 32 bits wide and are assigned from
  64-bit sizes: the model writes the conversion out, and the theorems state the size below which
  it loses nothing. An access outside the buffer and a failed assertion are \<open>None\<close>.

  The lemmas show that every operation keeps the header right and computes the bytes it should.
\<close>

section \<open>The header and its invariant\<close>

record sdshdr =
  sds_len :: nat
  sds_free :: nat
  sds_buf :: bytes

abbreviation SDS_MAX_PREALLOC :: nat where "SDS_MAX_PREALLOC \<equiv> 1048576"
abbreviation SDS_LLSTR_SIZE :: nat where "SDS_LLSTR_SIZE \<equiv> 21"

text \<open>The value a 32-bit unsigned header field gets, and its reading as a signed \<open>int\<close>.\<close>

definition uint32 :: "int \<Rightarrow> nat" where
  "uint32 v = nat (v mod 4294967296)"

definition int32 :: "int \<Rightarrow> int" where
  "int32 v = (let u = v mod 4294967296 in if u < 2147483648 then u else u - 4294967296)"

definition sds_ok :: "sdshdr \<Rightarrow> bool" where
  "sds_ok s \<longleftrightarrow> length (sds_buf s) = sds_len s + sds_free s + 1 \<and> sds_buf s ! sds_len s = 0 \<and>
     sds_len s + sds_free s < 4294967296"

definition sds_val :: "sdshdr \<Rightarrow> bytes" where
  "sds_val s = take (sds_len s) (sds_buf s)"

section \<open>Operations\<close>

text \<open>\<open>init\<close> is \<open>None\<close> for a null pointer, whose string is filled with zero bytes.\<close>

definition sdsnewlen :: "byte \<Rightarrow> bytes option \<Rightarrow> nat \<Rightarrow> sdshdr option" where
  "sdsnewlen g init initlen = do {
     let buf = (case init of None \<Rightarrow> replicate (initlen + 1) 0 | Some _ \<Rightarrow> replicate (initlen + 1) g);
     buf \<leftarrow> (case init of
        None \<Rightarrow> Some buf
      | Some t \<Rightarrow> if initlen = 0 then Some buf else rd t 0 initlen \<bind> wr buf 0);
     buf \<leftarrow> wr buf initlen [0];
     Some \<lparr>sds_len = uint32 (int initlen), sds_free = 0, sds_buf = buf\<rparr>
   }"

definition sdsempty :: "byte \<Rightarrow> sdshdr option" where
  "sdsempty g = sdsnewlen g (Some []) 0"

text \<open>\<open>strlen\<close> reads up to the terminator and leaves the buffer when there is none.\<close>

definition strlen :: "bytes \<Rightarrow> nat option" where
  "strlen t = (if 0 \<in> set t then Some (length (c_str t)) else None)"

definition sdsnew :: "byte \<Rightarrow> bytes option \<Rightarrow> sdshdr option" where
  "sdsnew g init = do {
     initlen \<leftarrow> (case init of None \<Rightarrow> Some 0 | Some t \<Rightarrow> strlen t);
     sdsnewlen g init initlen
   }"

definition sdsdup :: "byte \<Rightarrow> sdshdr \<Rightarrow> sdshdr option" where
  "sdsdup g s = sdsnewlen g (Some (sds_buf s)) (sds_len s)"

definition sdsupdatelen :: "sdshdr \<Rightarrow> sdshdr option" where
  "sdsupdatelen s = do {
     reallen \<leftarrow> strlen (sds_buf s);
     Some (s\<lparr>sds_free := uint32 (int (sds_free s) + (int (sds_len s) - int reallen)), sds_len := uint32 (int reallen)\<rparr>)
   }"

definition sdsclear :: "sdshdr \<Rightarrow> sdshdr option" where
  "sdsclear s = do {
     buf \<leftarrow> wr (sds_buf s) 0 [0];
     Some \<lparr>sds_len = 0, sds_free = uint32 (int (sds_free s) + int (sds_len s)), sds_buf = buf\<rparr>
   }"

definition sdsMakeRoomFor :: "byte \<Rightarrow> sdshdr \<Rightarrow> nat \<Rightarrow> sdshdr" where
  "sdsMakeRoomFor g s addlen =
    (if sds_free s \<ge> addlen then s
     else let newlen = sds_len s + addlen;
              newlen = (if newlen < SDS_MAX_PREALLOC then newlen * 2 else newlen + SDS_MAX_PREALLOC)
          in s\<lparr>sds_buf := zrealloc g (sds_buf s) (newlen + 1),
               sds_free := uint32 (int newlen - int (sds_len s))\<rparr>)"

definition sdsRemoveFreeSpace :: "byte \<Rightarrow> sdshdr \<Rightarrow> sdshdr" where
  "sdsRemoveFreeSpace g s = s\<lparr>sds_buf := zrealloc g (sds_buf s) (sds_len s + 1), sds_free := 0\<rparr>"

text \<open>The header itself takes eight bytes.\<close>

definition sdsAllocSize :: "sdshdr \<Rightarrow> nat" where
  "sdsAllocSize s = 8 + sds_len s + sds_free s + 1"

definition sdsIncrLen :: "sdshdr \<Rightarrow> int \<Rightarrow> sdshdr option" where
  "sdsIncrLen s incr =
    (if incr \<ge> 0 \<and> \<not> int (sds_free s) \<ge> incr \<or> incr < 0 \<and> \<not> int (sds_len s) \<ge> - incr then None
     else do {
       let len = uint32 (int (sds_len s) + incr);
       buf \<leftarrow> wr (sds_buf s) len [0];
       Some \<lparr>sds_len = len, sds_free = uint32 (int (sds_free s) - incr), sds_buf = buf\<rparr>
     })"

definition sdsgrowzero :: "byte \<Rightarrow> sdshdr \<Rightarrow> nat \<Rightarrow> sdshdr option" where
  "sdsgrowzero g s len =
    (let curlen = sds_len s in
     if len \<le> curlen then Some s
     else do {
       let s = sdsMakeRoomFor g s (len - curlen);
       buf \<leftarrow> wr (sds_buf s) curlen (replicate (len - curlen + 1) 0);
       let totlen = sds_len s + sds_free s;
       Some \<lparr>sds_len = uint32 (int len), sds_free = uint32 (int totlen - int (uint32 (int len))), sds_buf = buf\<rparr>
     })"

text \<open>The first \<open>len\<close> bytes at \<open>t\<close> are appended; \<open>t\<close> may hold more.\<close>

definition sdscatlen :: "byte \<Rightarrow> sdshdr \<Rightarrow> bytes \<Rightarrow> nat \<Rightarrow> sdshdr option" where
  "sdscatlen g s t len = do {
     let curlen = sds_len s;
     let s = sdsMakeRoomFor g s len;
     bs \<leftarrow> rd t 0 len;
     buf \<leftarrow> wr (sds_buf s) curlen bs;
     buf \<leftarrow> wr buf (curlen + len) [0];
     Some \<lparr>sds_len = uint32 (int (curlen + len)), sds_free = uint32 (int (sds_free s) - int len), sds_buf = buf\<rparr>
   }"

definition sdscat :: "byte \<Rightarrow> sdshdr \<Rightarrow> bytes \<Rightarrow> sdshdr option" where
  "sdscat g s t = strlen t \<bind> sdscatlen g s t"

definition sdscatsds :: "byte \<Rightarrow> sdshdr \<Rightarrow> sdshdr \<Rightarrow> sdshdr option" where
  "sdscatsds g s t = sdscatlen g s (sds_buf t) (sds_len t)"

definition sdscpylen :: "byte \<Rightarrow> sdshdr \<Rightarrow> bytes \<Rightarrow> nat \<Rightarrow> sdshdr option" where
  "sdscpylen g s t len = do {
     let totlen = sds_free s + sds_len s;
     let s = (if totlen < len then sdsMakeRoomFor g s (len - sds_len s) else s);
     let totlen = sds_free s + sds_len s;
     bs \<leftarrow> rd t 0 len;
     buf \<leftarrow> wr (sds_buf s) 0 bs;
     buf \<leftarrow> wr buf len [0];
     Some \<lparr>sds_len = uint32 (int len), sds_free = uint32 (int totlen - int len), sds_buf = buf\<rparr>
   }"

definition sdscpy :: "byte \<Rightarrow> sdshdr \<Rightarrow> bytes \<Rightarrow> sdshdr option" where
  "sdscpy g s t = strlen t \<bind> sdscpylen g s t"

subsection \<open>Numbers\<close>

text \<open>The digits are produced least significant first and the buffer is then reversed in place.\<close>

fun ll2str_digits :: "bytes \<Rightarrow> nat \<Rightarrow> nat \<Rightarrow> (bytes \<times> nat) option" where
  "ll2str_digits s p v = do {
     s \<leftarrow> wr s p [of_nat (48 + v mod 10)];
     if v div 10 = 0 then Some (s, p + 1) else ll2str_digits s (p + 1) (v div 10)
   }"

function reverse_range :: "bytes \<Rightarrow> nat \<Rightarrow> nat \<Rightarrow> bytes option" where
  "reverse_range b s p =
    (if s < p then do {
       aux \<leftarrow> rd b s 1;
       y \<leftarrow> rd b p 1;
       b \<leftarrow> wr b s y;
       b \<leftarrow> wr b p aux;
       reverse_range b (s + 1) (p - 1)
     } else Some b)"
  by pat_completeness auto
termination by (relation "measure (\<lambda>(b, s, p). p - s)") auto

definition sdsll2str :: "bytes \<Rightarrow> int \<Rightarrow> (nat \<times> bytes) option" where
  "sdsll2str s value = do {
     let v = (if value < 0 then nat ((- value) mod 18446744073709551616) else nat value);
     (s, p) \<leftarrow> ll2str_digits s 0 v;
     (s, p) \<leftarrow> (if value < 0 then map_option (\<lambda>s. (s, p + 1)) (wr s p [45]) else Some (s, p));
     s \<leftarrow> wr s p [0];
     s \<leftarrow> reverse_range s 0 (p - 1);
     Some (p, s)
   }"

definition sdsull2str :: "bytes \<Rightarrow> nat \<Rightarrow> (nat \<times> bytes) option" where
  "sdsull2str s v = do {
     (s, p) \<leftarrow> ll2str_digits s 0 v;
     s \<leftarrow> wr s p [0];
     s \<leftarrow> reverse_range s 0 (p - 1);
     Some (p, s)
   }"

definition sdsfromlonglong :: "byte \<Rightarrow> int \<Rightarrow> sdshdr option" where
  "sdsfromlonglong g value = do {
     (len, buf) \<leftarrow> sdsll2str (replicate SDS_LLSTR_SIZE g) value;
     sdsnewlen g (Some buf) len
   }"

subsection \<open>Formatting\<close>

text \<open>
  \<open>sdscatfmt\<close> with its variable arguments as a list. The format is the C string \<open>f\<close>; an
  argument of the wrong kind is undefined in C. A lone \<open>%\<close> at the end takes the terminator for
  the specifier and steps over it.
\<close>

datatype fmt_arg = ArgCStr bytes | ArgSds sdshdr | ArgNum int | ArgUnum nat

definition fmt_put :: "byte \<Rightarrow> sdshdr \<Rightarrow> nat \<Rightarrow> bytes \<Rightarrow> nat \<Rightarrow> (sdshdr \<times> nat) option" where
  "fmt_put g s i str l = do {
     let s = (if sds_free s < l then sdsMakeRoomFor g s l else s);
     bs \<leftarrow> rd str 0 l;
     buf \<leftarrow> wr (sds_buf s) i bs;
     Some (\<lparr>sds_len = uint32 (int (sds_len s) + int l), sds_free = uint32 (int (sds_free s) - int l), sds_buf = buf\<rparr>,
           i + l)
   }"

definition fmt_byte :: "sdshdr \<Rightarrow> nat \<Rightarrow> byte \<Rightarrow> (sdshdr \<times> nat) option" where
  "fmt_byte s i b = do {
     buf \<leftarrow> wr (sds_buf s) i [b];
     Some (\<lparr>sds_len = uint32 (int (sds_len s) + 1), sds_free = uint32 (int (sds_free s) - 1), sds_buf = buf\<rparr>, i + 1)
   }"

definition fmt_arg_put :: "byte \<Rightarrow> sdshdr \<Rightarrow> nat \<Rightarrow> byte \<Rightarrow> fmt_arg \<Rightarrow> (sdshdr \<times> nat) option" where
  "fmt_arg_put g s i next a = (case a of
      ArgCStr str \<Rightarrow> if next = 115 then strlen str \<bind> fmt_put g s i str else None
    | ArgSds t \<Rightarrow> if next = 83 then fmt_put g s i (sds_buf t) (sds_len t) else None
    | ArgNum num \<Rightarrow> if next = 105 \<or> next = 73 then do {
         (l, buf) \<leftarrow> sdsll2str (replicate SDS_LLSTR_SIZE g) num;
         fmt_put g s i buf l } else None
    | ArgUnum unum \<Rightarrow> if next = 117 \<or> next = 85 then do {
         (l, buf) \<leftarrow> sdsull2str (replicate SDS_LLSTR_SIZE g) unum;
         fmt_put g s i buf l } else None)"

fun fmt_loop :: "byte \<Rightarrow> sdshdr \<Rightarrow> nat \<Rightarrow> bytes \<Rightarrow> fmt_arg list \<Rightarrow> (sdshdr \<times> nat) option" where
  "fmt_loop g s i [] args = Some (s, i)"
| "fmt_loop g s i (c # f) args = do {
     let s = (if sds_free s = 0 then sdsMakeRoomFor g s 1 else s);
     if c \<noteq> 37 then do { (s, i) \<leftarrow> fmt_byte s i c; fmt_loop g s i f args }
     else case f of
       [] \<Rightarrow> None
     | next # f' \<Rightarrow>
         if next \<in> set [115, 83, 105, 73, 117, 85] then
           (case args of [] \<Rightarrow> None | a # args \<Rightarrow> do {
              (s, i) \<leftarrow> fmt_arg_put g s i next a; fmt_loop g s i f' args })
         else do { (s, i) \<leftarrow> fmt_byte s i next; fmt_loop g s i f' args }
   }"

definition sdscatfmt :: "byte \<Rightarrow> sdshdr \<Rightarrow> bytes \<Rightarrow> fmt_arg list \<Rightarrow> sdshdr option" where
  "sdscatfmt g s fmt args = do {
     (s, i) \<leftarrow> fmt_loop g s (sds_len s) (c_str fmt) args;
     buf \<leftarrow> wr (sds_buf s) i [0];
     Some (s\<lparr>sds_buf := buf\<rparr>)
   }"

subsection \<open>Trimming, ranges and bytes\<close>

text \<open>\<open>strchr\<close> counts the terminator as part of the set, so zero bytes are trimmed with any set.\<close>

definition strchr_in :: "bytes \<Rightarrow> byte \<Rightarrow> bool" where
  "strchr_in cset c \<longleftrightarrow> c \<in> set (c_str cset) \<or> c = 0"

function trim_left :: "bytes \<Rightarrow> bytes \<Rightarrow> int \<Rightarrow> nat \<Rightarrow> nat option" where
  "trim_left cset b e sp =
    (if int sp \<le> e then do {
       c \<leftarrow> rd b sp 1;
       if strchr_in cset (hd c) then trim_left cset b e (sp + 1) else Some sp
     } else Some sp)"
  by pat_completeness auto
termination by (relation "measure (\<lambda>(cset, b, e, sp). nat (e + 1 - int sp))") auto

function trim_right :: "bytes \<Rightarrow> bytes \<Rightarrow> int \<Rightarrow> int option" where
  "trim_right cset b ep =
    (if ep > 0 then do {
       c \<leftarrow> rd b (nat ep) 1;
       if strchr_in cset (hd c) then trim_right cset b (ep - 1) else Some ep
     } else Some ep)"
  by pat_completeness auto
termination by (relation "measure (\<lambda>(cset, b, ep). nat ep)") auto

definition sdstrim :: "sdshdr \<Rightarrow> bytes \<Rightarrow> sdshdr option" where
  "sdstrim s cset = do {
     let e = int (sds_len s) - 1;
     sp \<leftarrow> trim_left cset (sds_buf s) e 0;
     ep \<leftarrow> trim_right cset (sds_buf s) e;
     let len = (if int sp > ep then 0 else nat (ep - int sp + 1));
     buf \<leftarrow> (if sp \<noteq> 0 then memmove (sds_buf s) 0 sp len else Some (sds_buf s));
     buf \<leftarrow> wr buf len [0];
     Some \<lparr>sds_len = uint32 (int len), sds_free = uint32 (int (sds_free s) + (int (sds_len s) - int len)), sds_buf = buf\<rparr>
   }"

text \<open>The clipping of the two indices: the new length and the first byte kept.\<close>

definition range_clip :: "int \<Rightarrow> int \<Rightarrow> int \<Rightarrow> nat \<times> nat" where
  "range_clip len start e =
    (let start = (if start < 0 then max 0 (len + start) else start);
         e = (if e < 0 then max 0 (len + e) else e);
         newlen = (if start > e then 0 else e - start + 1)
     in if newlen \<noteq> 0 then
          if start \<ge> len then (0, nat start)
          else if e \<ge> len then let e = len - 1 in (nat (if start > e then 0 else e - start + 1), nat start)
          else (nat newlen, nat start)
        else (nat newlen, 0))"

definition sdsrange :: "sdshdr \<Rightarrow> int \<Rightarrow> int \<Rightarrow> sdshdr option" where
  "sdsrange s start e =
    (if sds_len s = 0 then Some s
     else do {
       let (newlen, start) = range_clip (int32 (int (sds_len s))) start e;
       buf \<leftarrow> (if start \<noteq> 0 \<and> newlen \<noteq> 0 then memmove (sds_buf s) 0 start newlen else Some (sds_buf s));
       buf \<leftarrow> wr buf newlen [0];
       Some \<lparr>sds_len = uint32 (int newlen), sds_free = uint32 (int (sds_free s) + (int (sds_len s) - int newlen)), sds_buf = buf\<rparr>
     })"

definition c_lower :: "byte \<Rightarrow> byte" where
  "c_lower c = (if 65 \<le> c \<and> c \<le> 90 then c + 32 else c)"

definition c_upper :: "byte \<Rightarrow> byte" where
  "c_upper c = (if 97 \<le> c \<and> c \<le> 122 then c - 32 else c)"

fun map_range :: "(byte \<Rightarrow> byte) \<Rightarrow> bytes \<Rightarrow> nat \<Rightarrow> nat \<Rightarrow> bytes option" where
  "map_range f b j 0 = Some b"
| "map_range f b j (Suc n) = do {
     c \<leftarrow> rd b j 1;
     b \<leftarrow> wr b j [f (hd c)];
     map_range f b (j + 1) n
   }"

definition sdstolower :: "sdshdr \<Rightarrow> sdshdr option" where
  "sdstolower s = map_option (\<lambda>b. s\<lparr>sds_buf := b\<rparr>) (map_range c_lower (sds_buf s) 0 (nat (int32 (int (sds_len s)))))"

definition sdstoupper :: "sdshdr \<Rightarrow> sdshdr option" where
  "sdstoupper s = map_option (\<lambda>b. s\<lparr>sds_buf := b\<rparr>) (map_range c_upper (sds_buf s) 0 (nat (int32 (int (sds_len s)))))"

fun map_char :: "bytes \<Rightarrow> bytes \<Rightarrow> byte \<Rightarrow> byte" where
  "map_char (x # from) (y # to) c = (if c = x then y else map_char from to c)"
| "map_char _ _ c = c"

definition sdsmapchars :: "sdshdr \<Rightarrow> bytes \<Rightarrow> bytes \<Rightarrow> nat \<Rightarrow> sdshdr option" where
  "sdsmapchars s from to setlen =
    (if setlen \<le> length from \<and> setlen \<le> length to
     then map_option (\<lambda>b. s\<lparr>sds_buf := b\<rparr>) (map_range (map_char (take setlen from) (take setlen to)) (sds_buf s) 0 (sds_len s))
     else None)"

definition sdscmp :: "sdshdr \<Rightarrow> sdshdr \<Rightarrow> int option" where
  "sdscmp s1 s2 = do {
     let minlen = (if sds_len s1 < sds_len s2 then sds_len s1 else sds_len s2);
     a \<leftarrow> rd (sds_buf s1) 0 minlen;
     b \<leftarrow> rd (sds_buf s2) 0 minlen;
     let cmp = memcmp a b;
     Some (if cmp = 0 then int32 (int (sds_len s1) - int (sds_len s2)) else cmp)
   }"

subsection \<open>Splitting and joining\<close>

text \<open>
  \<open>k\<close> is \<open>seplen - 1\<close>. The token array grows by doubling; its capacity is not observable.
\<close>

function split_loop :: "byte \<Rightarrow> bytes \<Rightarrow> nat \<Rightarrow> bytes \<Rightarrow> nat \<Rightarrow> nat \<Rightarrow> nat \<Rightarrow> sdshdr list \<Rightarrow> sdshdr list option" where
  "split_loop g s len sep k j start tokens =
    (if j + k < len then do {
       here \<leftarrow> rd s j (k + 1);
       if here = take (k + 1) sep then do {
         t \<leftarrow> sdsnewlen g (Some (drop start s)) (j - start);
         split_loop g s len sep k (j + k + 1) (j + k + 1) (tokens @ [t])
       } else split_loop g s len sep k (j + 1) start tokens
     } else do {
       t \<leftarrow> sdsnewlen g (Some (drop start s)) (len - start);
       Some (tokens @ [t])
     })"
  by pat_completeness auto
termination by (relation "measure (\<lambda>(g, s, len, sep, k, j, start, tokens). len - j)") auto

text \<open>The outer \<open>None\<close> is an access out of bounds, the inner one the null pointer.\<close>

definition sdssplitlen :: "byte \<Rightarrow> bytes \<Rightarrow> int \<Rightarrow> bytes \<Rightarrow> int \<Rightarrow> sdshdr list option option" where
  "sdssplitlen g s len sep seplen =
    (if seplen < 1 \<or> len < 0 then Some None
     else if len = 0 then Some (Some [])
     else map_option Some (split_loop g s (nat len) sep (nat (seplen - 1)) 0 0 []))"

fun join_loop :: "byte \<Rightarrow> sdshdr \<Rightarrow> bytes list \<Rightarrow> bytes \<Rightarrow> sdshdr option" where
  "join_loop g j [] sep = Some j"
| "join_loop g j (a # argv) sep = do {
     j \<leftarrow> sdscat g j a;
     j \<leftarrow> (if argv \<noteq> [] then sdscat g j sep else Some j);
     join_loop g j argv sep
   }"

definition sdsjoin :: "byte \<Rightarrow> bytes list \<Rightarrow> bytes \<Rightarrow> sdshdr option" where
  "sdsjoin g argv sep = sdsempty g \<bind> (\<lambda>j. join_loop g j argv sep)"

subsection \<open>Quoted representation\<close>

text \<open>\<open>isprint\<close> of the C locale.\<close>

definition isprint :: "byte \<Rightarrow> bool" where
  "isprint c \<longleftrightarrow> 32 \<le> c \<and> c < 127"

definition hex_lower :: "nat \<Rightarrow> byte" where
  "hex_lower n = of_nat (if n < 10 then 48 + n else 87 + n)"

text \<open>What \<open>sdscatprintf\<close> formats with \<open>\<close>\<open>\x%02x\<close>\<open>\<close> for one byte.\<close>

definition printf_x02 :: "byte \<Rightarrow> bytes" where
  "printf_x02 c = [92, 120, hex_lower (unat c div 16), hex_lower (unat c mod 16)]"

definition repr_byte :: "byte \<Rightarrow> sdshdr \<Rightarrow> byte \<Rightarrow> sdshdr option" where
  "repr_byte g s c =
    (if c = 92 \<or> c = 34 then sdscat g s [92, c, 0]
     else if c = 10 then sdscatlen g s [92, 110, 0] 2
     else if c = 13 then sdscatlen g s [92, 114, 0] 2
     else if c = 9 then sdscatlen g s [92, 116, 0] 2
     else if c = 7 then sdscatlen g s [92, 97, 0] 2
     else if c = 8 then sdscatlen g s [92, 98, 0] 2
     else if isprint c then sdscat g s [c, 0]
     else sdscat g s (printf_x02 c @ [0]))"

fun repr_loop :: "byte \<Rightarrow> sdshdr \<Rightarrow> bytes \<Rightarrow> sdshdr option" where
  "repr_loop g s [] = Some s"
| "repr_loop g s (c # p) = do { s \<leftarrow> repr_byte g s c; repr_loop g s p }"

definition sdscatrepr :: "byte \<Rightarrow> sdshdr \<Rightarrow> bytes \<Rightarrow> nat \<Rightarrow> sdshdr option" where
  "sdscatrepr g s p len = do {
     s \<leftarrow> sdscatlen g s [34, 0] 1;
     bs \<leftarrow> rd p 0 len;
     s \<leftarrow> repr_loop g s bs;
     sdscatlen g s [34, 0] 1
   }"

definition is_hex_digit :: "byte \<Rightarrow> bool" where
  "is_hex_digit c \<longleftrightarrow> (c \<ge> 48 \<and> c \<le> 57) \<or> (c \<ge> 97 \<and> c \<le> 102) \<or> (c \<ge> 65 \<and> c \<le> 70)"

definition hex_digit_to_int :: "byte \<Rightarrow> nat" where
  "hex_digit_to_int c =
    (if 48 \<le> c \<and> c \<le> 57 then unat c - 48
     else if 97 \<le> c \<and> c \<le> 102 then unat c - 87
     else if 65 \<le> c \<and> c \<le> 70 then unat c - 55
     else 0)"

text \<open>
  The line is a C string: \<open>p\<close> is what is left of it before the terminator, \<open>peek p i\<close> the
  byte at \<open>p+i\<close>. The tokens are built with \<open>sdscatlen\<close> one byte at a time; here they are the
  byte lists it produces.
\<close>

definition peek :: "bytes \<Rightarrow> nat \<Rightarrow> byte" where
  "peek p i = (if i < length p then p ! i else 0)"

definition unescape :: "byte \<Rightarrow> byte" where
  "unescape c = (if c = 110 then 10 else if c = 114 then 13 else if c = 116 then 9
     else if c = 98 then 8 else if c = 97 then 7 else c)"

function split_token :: "bool \<Rightarrow> bool \<Rightarrow> bytes \<Rightarrow> bytes \<Rightarrow> (bytes \<times> bytes) option" where
  "split_token inq insq current p =
    (if inq then
       if peek p 0 = 92 \<and> peek p 1 = 120 \<and> is_hex_digit (peek p 2) \<and> is_hex_digit (peek p 3) then
         split_token inq insq
           (current @ [of_nat (hex_digit_to_int (peek p 2) * 16 + hex_digit_to_int (peek p 3))]) (drop 4 p)
       else if peek p 0 = 92 \<and> peek p 1 \<noteq> 0 then
         split_token inq insq (current @ [unescape (peek p 1)]) (drop 2 p)
       else if peek p 0 = 34 then
         if peek p 1 \<noteq> 0 \<and> \<not> isspace (peek p 1) then None else Some (current, drop 1 p)
       else if peek p 0 = 0 then None
       else split_token inq insq (current @ [peek p 0]) (drop 1 p)
     else if insq then
       if peek p 0 = 92 \<and> peek p 1 = 39 then split_token inq insq (current @ [39]) (drop 2 p)
       else if peek p 0 = 39 then
         if peek p 1 \<noteq> 0 \<and> \<not> isspace (peek p 1) then None else Some (current, drop 1 p)
       else if peek p 0 = 0 then None
       else split_token inq insq (current @ [peek p 0]) (drop 1 p)
     else
       if peek p 0 \<in> set [32, 10, 13, 9, 0] then Some (current, drop 1 p)
       else if peek p 0 = 34 then split_token True insq current (drop 1 p)
       else if peek p 0 = 39 then split_token inq True current (drop 1 p)
       else split_token inq insq (current @ [peek p 0]) (drop 1 p))"
  by pat_completeness auto
termination
  by (relation "measure (\<lambda>(inq, insq, current, p). length p)") (auto simp: peek_def split: if_splits)

section \<open>Every operation keeps the header and computes the bytes\<close>

text \<open>An operation \<^emph>\<open>yields\<close> bytes when it returns, with a well-formed header that holds them.\<close>

definition yields :: "sdshdr option \<Rightarrow> bytes \<Rightarrow> bool" where
  "yields r v \<longleftrightarrow> (\<exists>s. r = Some s \<and> sds_ok s \<and> sds_val s = v)"

lemma uint32_small [simp]: "0 \<le> v \<Longrightarrow> v < 4294967296 \<Longrightarrow> uint32 v = nat v"
  by (simp add: uint32_def)

lemma int32_small [simp]: "0 \<le> v \<Longrightarrow> v < 2147483648 \<Longrightarrow> int32 v = v"
  by (simp add: int32_def Let_def)

lemma sds_okD:
  assumes "sds_ok s"
  shows "length (sds_buf s) = sds_len s + sds_free s + 1" "sds_buf s ! sds_len s = 0"
    "sds_len s + sds_free s < 4294967296" "length (sds_val s) = sds_len s"
  using assms by (auto simp: sds_ok_def sds_val_def)

lemma yieldsI:
  "r = Some \<lparr>sds_len = l, sds_free = f, sds_buf = b\<rparr> \<Longrightarrow> length b = l + f + 1 \<Longrightarrow> b ! l = 0 \<Longrightarrow>
   l + f < 4294967296 \<Longrightarrow> take l b = v \<Longrightarrow> yields r v"
  by (auto simp: yields_def sds_ok_def sds_val_def)

lemma yieldsE:
  assumes "yields r v"
  obtains s where "r = Some s" "sds_ok s" "sds_val s = v"
  using assms by (auto simp: yields_def)

lemma yields_bind:
  "yields r v \<Longrightarrow> (\<And>s. sds_ok s \<Longrightarrow> sds_val s = v \<Longrightarrow> yields (f s) w) \<Longrightarrow> yields (r \<bind> f) w"
  by (auto simp: yields_def)

lemma len_val: "sds_ok s \<Longrightarrow> sds_len s = length (sds_val s)"
  by (simp add: sds_okD)

lemma take_buf: "sds_ok s \<Longrightarrow> n \<le> sds_len s \<Longrightarrow> take n (sds_buf s) = take n (sds_val s)"
  by (simp add: sds_val_def min_def)

lemma sdsnewlen_yields:
  assumes "n \<le> length t" "n < 4294967296"
  shows "yields (sdsnewlen g (Some t) n) (take n t)"
  using assms by (intro yieldsI [where l = n and f = 0 and b = "take n t @ [0]"])
    (auto simp: sdsnewlen_def Let_def buf_simps nth_append)

lemma sdsnewlen_null: "n < 4294967296 \<Longrightarrow> yields (sdsnewlen g None n) (replicate n 0)"
  by (intro yieldsI [where l = n and f = 0 and b = "replicate (n + 1) 0"])
    (auto simp: sdsnewlen_def Let_def buf_simps replicate_append_same simp flip: replicate_Suc)

lemma sdsempty_yields: "yields (sdsempty g) []"
  unfolding sdsempty_def using sdsnewlen_yields [of 0 "[]" g] by simp

lemma strlen_val: "0 \<in> set t \<Longrightarrow> strlen t = Some (length (c_str t)) \<and> take (length (c_str t)) t = c_str t
    \<and> length (c_str t) \<le> length t"
  using length_takeWhile_le [of "\<lambda>x. x \<noteq> 0" t] takeWhile_eq_take [of "\<lambda>x. x \<noteq> 0" t] by (simp add: strlen_def c_str_def)

lemma sdsnew_yields:
  "0 \<in> set t \<Longrightarrow> length (c_str t) < 4294967296 \<Longrightarrow> yields (sdsnew g (Some t)) (c_str t)"
  using sdsnewlen_yields [of "length (c_str t)" t g] strlen_val [of t] by (simp add: sdsnew_def)

lemma sdsdup_yields: "sds_ok s \<Longrightarrow> yields (sdsdup g s) (sds_val s)"
  using sdsnewlen_yields [of "sds_len s" "sds_buf s" g] sds_okD [of s] by (simp add: sdsdup_def sds_val_def)

lemma sdsclear_yields: "sds_ok s \<Longrightarrow> yields (sdsclear s) []"
  using sds_okD [of s]
  by (intro yieldsI [where l = 0 and f = "sds_free s + sds_len s" and b = "0 # drop 1 (sds_buf s)"])
    (auto simp: sdsclear_def buf_simps nat_add_distrib)

lemma c_str_val:
  assumes "sds_ok s"
  shows "c_str (sds_buf s) = c_str (sds_val s)" and "0 \<in> set (sds_buf s)" and "length (c_str (sds_buf s)) \<le> sds_len s"
proof -
  note d = sds_okD [OF assms]
  have b: "sds_buf s = sds_val s @ 0 # drop (Suc (sds_len s)) (sds_buf s)"
    using d id_take_nth_drop [of "sds_len s" "sds_buf s"] by (simp add: sds_val_def)
  show e: "c_str (sds_buf s) = c_str (sds_val s)"
    by (subst b, cases "0 \<in> set (sds_val s)") (auto simp: c_str_def takeWhile_append takeWhile_eq_all_conv [THEN iffD2, symmetric])
  show "0 \<in> set (sds_buf s)" by (subst b) simp
  show "length (c_str (sds_buf s)) \<le> sds_len s"
    unfolding e using length_takeWhile_le [of "\<lambda>x. x \<noteq> 0" "sds_val s"] d by (simp add: c_str_def)
qed

lemma nth_c_str: "0 \<in> set b \<Longrightarrow> b ! length (c_str b) = 0"
  by (induction b) (auto simp: c_str_def)

lemma sdsupdatelen_yields: "sds_ok s \<Longrightarrow> yields (sdsupdatelen s) (c_str (sds_val s))"
proof -
  assume ok: "sds_ok s"
  note d = sds_okD [OF ok] and c = c_str_val [OF ok]
  let ?l = "length (c_str (sds_buf s))"
  show ?thesis
  proof (rule yieldsI [where l = ?l and f = "sds_free s + (sds_len s - ?l)" and b = "sds_buf s"])
    show "sdsupdatelen s = Some \<lparr>sds_len = ?l, sds_free = sds_free s + (sds_len s - ?l), sds_buf = sds_buf s\<rparr>"
      using c d by (simp add: sdsupdatelen_def strlen_def nat_add_distrib nat_diff_distrib flip: of_nat_diff)
    show "take ?l (sds_buf s) = c_str (sds_val s)" using strlen_val [OF c(2)] c by simp
  qed (use c d nth_c_str [OF c(2)] in auto)
qed

abbreviation room :: "sdshdr \<Rightarrow> nat \<Rightarrow> bool" where
  "room s n \<equiv> sds_len s + n + SDS_MAX_PREALLOC < 4294967296"

lemma sdsMakeRoomFor_ok:
  assumes "sds_ok s" "room s n"
  shows "sds_ok (sdsMakeRoomFor g s n)" "sds_val (sdsMakeRoomFor g s n) = sds_val s"
    "sds_len (sdsMakeRoomFor g s n) = sds_len s" "n \<le> sds_free (sdsMakeRoomFor g s n)"
proof -
  note d = sds_okD [OF assms(1)]
  show "sds_ok (sdsMakeRoomFor g s n)"
    using assms d by (auto simp: sdsMakeRoomFor_def Let_def sds_ok_def zrealloc_def nth_append nat_diff_distrib)
  show "sds_val (sdsMakeRoomFor g s n) = sds_val s"
    using assms d by (auto simp: sdsMakeRoomFor_def Let_def sds_val_def zrealloc_def)
  show "sds_len (sdsMakeRoomFor g s n) = sds_len s" by (simp add: sdsMakeRoomFor_def Let_def)
  show "n \<le> sds_free (sdsMakeRoomFor g s n)"
    using assms d by (auto simp: sdsMakeRoomFor_def Let_def nat_diff_distrib)
qed

lemma sdsRemoveFreeSpace_ok:
  "sds_ok s \<Longrightarrow> sds_ok (sdsRemoveFreeSpace g s) \<and> sds_val (sdsRemoveFreeSpace g s) = sds_val s
     \<and> sdsAllocSize (sdsRemoveFreeSpace g s) = 9 + length (sds_val s)"
  by (auto simp: sdsRemoveFreeSpace_def sds_ok_def sds_val_def zrealloc_def nth_append sdsAllocSize_def)

text \<open>A block written after the string, closed with a zero byte.\<close>

lemma yields_append:
  assumes ok: "sds_ok s" and n: "length bs \<le> sds_free s"
    and r: "r = Some \<lparr>sds_len = sds_len s + length bs, sds_free = sds_free s - length bs,
              sds_buf = sds_val s @ bs @ 0 # drop (sds_len s + length bs + 1) (sds_buf s)\<rparr>"
  shows "yields r (sds_val s @ bs)"
  using sds_okD [OF ok] n by (intro yieldsI [OF r]) (auto simp: nth_append)

lemma wr_end:
  assumes "sds_ok s" "length bs \<le> sds_free s"
  shows "wr (sds_buf s) (sds_len s) bs = Some (sds_val s @ bs @ drop (sds_len s + length bs) (sds_buf s))"
  using sds_okD [OF assms(1)] assms(2) by (simp add: buf_simps sds_val_def)

lemma sdscatlen_yields:
  assumes ok: "sds_ok s" and n: "n \<le> length t" and rm: "room s n"
  shows "yields (sdscatlen g s t n) (sds_val s @ take n t)"
proof -
  let ?s = "sdsMakeRoomFor g s n"
  note m = sdsMakeRoomFor_ok [OF ok rm, of g]
  note d = sds_okD [OF m(1)]
  have "yields (sdscatlen g s t n) (sds_val ?s @ take n t)"
  proof (rule yields_append [OF m(1)])
    show "sdscatlen g s t n = Some \<lparr>sds_len = sds_len ?s + length (take n t), sds_free = sds_free ?s - length (take n t),
        sds_buf = sds_val ?s @ take n t @ 0 # drop (sds_len ?s + length (take n t) + 1) (sds_buf ?s)\<rparr>"
      using n m(3,4) d rm wr_end [OF m(1), of "take n t"]
      by (simp add: sdscatlen_def Let_def buf_simps nat_diff_distrib nat_add_distrib flip: of_nat_diff)
  qed (use n m in simp)
  then show ?thesis using m by simp
qed

lemma sdscat_yields:
  "sds_ok s \<Longrightarrow> 0 \<in> set t \<Longrightarrow> room s (length (c_str t)) \<Longrightarrow> yields (sdscat g s t) (sds_val s @ c_str t)"
  using sdscatlen_yields [of s "length (c_str t)" t g] strlen_val [of t] by (simp add: sdscat_def)

lemma sdscatsds_yields:
  "sds_ok s \<Longrightarrow> sds_ok t \<Longrightarrow> room s (sds_len t) \<Longrightarrow> yields (sdscatsds g s t) (sds_val s @ sds_val t)"
  using sdscatlen_yields [of s "sds_len t" "sds_buf t" g] sds_okD [of t] by (simp add: sdscatsds_def sds_val_def)

lemma sdscpylen_yields:
  assumes ok: "sds_ok s" and n: "n \<le> length t" and rm: "n + SDS_MAX_PREALLOC < 4294967296"
  shows "yields (sdscpylen g s t n) (take n t)"
proof -
  define s' where "s' = (if sds_free s + sds_len s < n then sdsMakeRoomFor g s (n - sds_len s) else s)"
  have ok': "sds_ok s'" and fr: "n \<le> sds_len s' + sds_free s'"
    using sdsMakeRoomFor_ok [OF ok, of "n - sds_len s" g] ok rm by (auto simp: s'_def)
  note d = sds_okD [OF ok']
  have f: "uint32 (int (sds_free s' + sds_len s') - int n) = sds_len s' + sds_free s' - n"
    using fr d by (subst uint32_small) (auto simp: nat_diff_distrib)
  have r: "sdscpylen g s t n = Some \<lparr>sds_len = n, sds_free = sds_len s' + sds_free s' - n,
       sds_buf = take n t @ 0 # drop (n + 1) (sds_buf s')\<rparr>"
    unfolding sdscpylen_def Let_def s'_def [symmetric] f using n fr d rm by (simp add: buf_simps)
  show ?thesis using n fr d by (intro yieldsI [OF r]) (auto simp: nth_append)
qed

lemma sdscpy_yields:
  "sds_ok s \<Longrightarrow> 0 \<in> set t \<Longrightarrow> length (c_str t) + SDS_MAX_PREALLOC < 4294967296 \<Longrightarrow> yields (sdscpy g s t) (c_str t)"
  using sdscpylen_yields [of s "length (c_str t)" t g] strlen_val [of t] by (simp add: sdscpy_def)

text \<open>Growing with zero bytes.\<close>

definition grow_bytes :: "bytes \<Rightarrow> nat \<Rightarrow> bytes" where
  "grow_bytes b n = b @ replicate (n - length b) 0"

lemma sdsgrowzero_yields:
  assumes ok: "sds_ok s" and rm: "n + SDS_MAX_PREALLOC < 4294967296"
  shows "yields (sdsgrowzero g s n) (grow_bytes (sds_val s) n)"
proof (cases "n \<le> sds_len s")
  case True
  then show ?thesis using ok by (simp add: sdsgrowzero_def yields_def grow_bytes_def sds_okD)
next
  case False
  define k where "k = n - sds_len s"
  define s' where "s' = sdsMakeRoomFor g s k"
  have n: "n = sds_len s + k" using False by (simp add: k_def)
  then have rm': "room s k" using rm by simp
  note m = sdsMakeRoomFor_ok [OF ok rm', of g, folded s'_def]
  note d = sds_okD [OF m(1)]
  have f: "uint32 (int (sds_len s' + sds_free s') - int n) = sds_free s' - k"
    using m d n by (subst uint32_small) (auto simp: nat_diff_distrib)
  have w: "wr (sds_buf s') (sds_len s) (replicate (k + 1) 0)
      = Some (sds_val s' @ replicate k 0 @ 0 # drop (sds_len s + k + 1) (sds_buf s'))"
    using d m by (simp add: buf_simps sds_val_def flip: replicate_append_same)
  have "yields (sdsgrowzero g s n) (sds_val s' @ replicate k 0)"
  proof (rule yields_append [OF m(1)])
    show "sdsgrowzero g s n = Some \<lparr>sds_len = sds_len s' + length (replicate k 0), sds_free = sds_free s' - length (replicate k 0),
        sds_buf = sds_val s' @ replicate k 0 @ 0 # drop (sds_len s' + length (replicate k 0) + 1) (sds_buf s')\<rparr>"
      using False m(3) w f rm n unfolding sdsgrowzero_def Let_def k_def [symmetric] s'_def [symmetric] by simp
  qed (use m in simp)
  then show ?thesis using m n sds_okD [OF ok] by (simp add: grow_bytes_def)
qed

text \<open>Taking over bytes that were written behind the string, and cutting bytes off its end.\<close>

lemma sdsIncrLen_grow:
  assumes ok: "sds_ok s" and n: "n \<le> sds_free s"
  shows "yields (sdsIncrLen s (int n)) (take (sds_len s + n) (sds_buf s))"
proof -
  note d = sds_okD [OF ok]
  have r: "sdsIncrLen s (int n) = Some \<lparr>sds_len = sds_len s + n, sds_free = sds_free s - n,
      sds_buf = take (sds_len s + n) (sds_buf s) @ 0 # drop (sds_len s + n + 1) (sds_buf s)\<rparr>"
    using n d by (simp add: sdsIncrLen_def Let_def buf_simps nat_add_distrib nat_diff_distrib flip: of_nat_diff)
  show ?thesis using n d by (intro yieldsI [OF r]) (auto simp: nth_append)
qed

lemma sdsIncrLen_cut:
  assumes ok: "sds_ok s" and n: "n \<le> sds_len s" "0 < n"
  shows "yields (sdsIncrLen s (- int n)) (take (sds_len s - n) (sds_val s))"
proof -
  note d = sds_okD [OF ok]
  have "sds_len s - n \<le> sds_len s" by simp
  have r: "sdsIncrLen s (- int n) = Some \<lparr>sds_len = sds_len s - n, sds_free = sds_free s + n,
      sds_buf = take (sds_len s - n) (sds_buf s) @ 0 # drop (sds_len s - n + 1) (sds_buf s)\<rparr>"
    using n d by (simp add: sdsIncrLen_def Let_def buf_simps nat_add_distrib nat_diff_distrib)
  show ?thesis using n d by (intro yieldsI [OF r]) (auto simp: nth_append sds_val_def)
qed

lemma sdsIncrLen_assert:
  "int (sds_free s) < incr \<or> incr < - int (sds_len s) \<Longrightarrow> sdsIncrLen s incr = None"
  by (auto simp: sdsIncrLen_def)

subsection \<open>Numbers\<close>

declare ll2str_digits.simps [simp del] reverse_range.simps [simp del] trim_left.simps [simp del] trim_right.simps [simp del]

lemma ll2str_digits_dec:
  "p + length (dec v) \<le> length b \<Longrightarrow>
   ll2str_digits b p v = Some (take p b @ rev (dec v) @ drop (p + length (dec v)) b, p + length (dec v))"
proof (induction b p v rule: ll2str_digits.induct)
  case (1 b p v)
  show ?case
  proof (cases "v < 10")
    case True
    then show ?thesis using 1(2) by (subst ll2str_digits.simps) (simp add: buf_simps dchar_def)
  next
    case False
    let ?b = "take p b @ [dchar (v mod 10)] @ drop (Suc p) b"
    have d: "dec v = dec (v div 10) @ [dchar (v mod 10)]" using False by (simp add: dec_step)
    have w: "wr b p [of_nat (48 + v mod 10)] = Some ?b"
      using 1(2) d by (simp add: buf_simps dchar_def)
    have l: "p + 1 + length (dec (v div 10)) \<le> length ?b" using 1(2) d by simp
    have nz: "v div 10 \<noteq> 0" using False by simp
    show ?thesis using 1(1) [OF w nz l] nz l d by (subst ll2str_digits.simps) (simp only: w, simp add: add.commute)
  qed
qed

lemma reverse_range_rev:
  "s \<le> Suc p \<Longrightarrow> p < length b \<Longrightarrow>
   reverse_range b s p = Some (take s b @ rev (take (Suc p - s) (drop s b)) @ drop (Suc p) b)"
proof (induction b s p rule: reverse_range.induct)
  case (1 b s p)
  show ?case
  proof (cases "s < p")
    case True
    define x m y z where "x = take s b" and "m = take (p - Suc s) (drop (Suc s) b)" and "y = b ! p" and "z = drop (Suc p) b"
    have b: "b = x @ b ! s # m @ y # z"
    proof -
      have "b = x @ b ! s # drop (Suc s) b" using True 1(3) by (simp add: x_def id_take_nth_drop)
      also have "drop (Suc s) b = m @ drop (p - Suc s) (drop (Suc s) b)" by (simp only: m_def append_take_drop_id)
      also have "drop (p - Suc s) (drop (Suc s) b) = y # z" using True 1(3) by (simp add: y_def z_def Cons_nth_drop_Suc)
      finally show ?thesis .
    qed
    have lx: "length x = s" and lm: "length m = p - Suc s" using True 1(3) by (auto simp: x_def m_def)
    define c where "c = b ! s"
    let ?b1 = "x @ y # m @ y # z" and ?b2 = "x @ y # m @ c # z"
    have ps: "p = s + Suc (length m)" using lm True by simp
    have steps: "rd b s 1 = Some [c]" "rd b p 1 = Some [y]" "wr b s [y] = Some ?b1" "wr ?b1 p [c] = Some ?b2"
      unfolding ps using lx by (auto simp: b [folded c_def] buf_simps)
    have b': "b = x @ c # m @ y # z" using b by (simp add: c_def)
    have "reverse_range b s p = reverse_range ?b2 (s + 1) (p - 1)"
      using True steps by (subst reverse_range.simps) simp
    also have "\<dots> = Some (take (s + 1) ?b2 @ rev (take (Suc (p - 1) - (s + 1)) (drop (s + 1) ?b2)) @ drop (Suc (p - 1)) ?b2)"
      by (rule 1(1) [OF True steps]) (use True lx lm in auto)
    also have "\<dots> = Some (x @ rev (c # m @ [y]) @ z)" unfolding ps using lx by simp
    also have "\<dots> = Some (take s b @ rev (take (Suc p - s) (drop s b)) @ drop (Suc p) b)"
      unfolding ps using lx by (simp add: b')
    finally show ?thesis .
  next
    case False
    then consider "s = p" | "s = Suc p" using 1(2) by linarith
    then show ?thesis using 1(3)
      by cases (auto simp: reverse_range.simps [of b] Cons_nth_drop_Suc take_Suc_conv_app_nth hd_drop_conv_nth)
  qed
qed


lemma sdsull2str_dec:
  assumes "length (dec v) < length b"
  shows "sdsull2str b v = Some (length (dec v), dec v @ 0 # drop (Suc (length (dec v))) b)"
proof -
  let ?n = "length (dec v)" and ?b = "rev (dec v) @ 0 # drop (Suc (length (dec v))) b"
  have w: "wr (rev (dec v) @ drop ?n b) ?n [0] = Some ?b" using assms by (simp add: buf_simps)
  have "reverse_range ?b 0 (?n - 1) = Some (dec v @ 0 # drop (Suc ?n) b)"
    by (subst reverse_range_rev) (auto simp: Suc_le_eq)
  then show ?thesis using assms w by (simp add: sdsull2str_def ll2str_digits_dec)
qed

lemma sdsll2str_decimal:
  assumes v: "int64_range v" and l: "length (decimal v) < length b"
  shows "sdsll2str b v = Some (length (decimal v), decimal v @ 0 # drop (Suc (length (decimal v))) b)"
proof (cases "v < 0")
  case False
  then show ?thesis using sdsull2str_dec [of "nat v" b] l by (simp add: sdsll2str_def sdsull2str_def decimal_def)
next
  case True
  let ?n = "length (dec (nat (- v)))" and ?d = "dec (nat (- v))"
  have m: "nat (- v mod 18446744073709551616) = nat (- v)" using v True by simp
  have w1: "wr (rev ?d @ drop ?n b) ?n [45] = Some (rev ?d @ 45 # drop (Suc ?n) b)"
    and w2: "wr (rev ?d @ 45 # drop (Suc ?n) b) (Suc ?n) [0] = Some (rev ?d @ 45 # 0 # drop (Suc (Suc ?n)) b)"
    using l True by (auto simp: buf_simps decimal_def)
  have "reverse_range (rev ?d @ 45 # 0 # drop (Suc (Suc ?n)) b) 0 ?n = Some (45 # ?d @ 0 # drop (Suc (Suc ?n)) b)"
    by (subst reverse_range_rev) auto
  then show ?thesis using l True m w1 w2
    by (simp add: sdsll2str_def ll2str_digits_dec decimal_def)
qed

lemma length_dec_le: "n < 10 ^ k \<Longrightarrow> 0 < k \<Longrightarrow> length (dec n) \<le> k"
proof (induction k arbitrary: n)
  case (Suc k)
  then show ?case
  proof (cases "n < 10")
    case False
    then have "n div 10 < 10 ^ k" "0 < k" using Suc.prems by (auto intro: gr0I)
    then show ?thesis using Suc.IH [of "n div 10"] False by (simp add: dec_step)
  qed simp
qed simp

lemma length_decimal_ll: "int64_range v \<Longrightarrow> length (decimal v) < SDS_LLSTR_SIZE"
proof -
  assume v: "int64_range v"
  then have "length (dec (nat \<bar>v\<bar>)) \<le> 19" by (intro length_dec_le) auto
  then show ?thesis by (auto simp: decimal_def abs_if split: if_splits)
qed

lemma length_dec_ull: "v \<le> ULLONG_MAX \<Longrightarrow> length (dec v) < SDS_LLSTR_SIZE"
  using length_dec_le [of v 20] by simp

lemma sdsfromlonglong_yields: "int64_range v \<Longrightarrow> yields (sdsfromlonglong g v) (decimal v)"
proof -
  assume v: "int64_range v"
  note l = length_decimal_ll [OF v]
  show ?thesis
    using sdsll2str_decimal [OF v, of "replicate SDS_LLSTR_SIZE g"] l
      sdsnewlen_yields [of "length (decimal v)" "decimal v @ 0 # drop (Suc (length (decimal v))) (replicate SDS_LLSTR_SIZE g)" g]
    by (simp add: sdsfromlonglong_def)
qed

subsection \<open>Trimming\<close>

definition trim_both :: "(byte \<Rightarrow> bool) \<Rightarrow> bytes \<Rightarrow> bytes" where
  "trim_both P v = rev (dropWhile P (rev (dropWhile P v)))"

lemma trim_both_eq:
  assumes "\<forall>x\<in>set a. P x" "\<forall>x\<in>set z. P x" "m = [] \<or> \<not> P (hd m) \<and> \<not> P (last m)"
  shows "trim_both P (a @ m @ z) = m"
proof (cases "m = []")
  case True
  then show ?thesis using assms by (auto simp: trim_both_def dropWhile_append dropWhile_eq_Nil_conv dest: set_dropWhileD)
next
  case False
  then have "dropWhile P (a @ m @ z) = m @ z"
    using assms by (cases m) (auto simp: dropWhile_append)
  moreover have "dropWhile P (rev (m @ z)) = rev m"
    using assms False by (cases m rule: rev_cases) (auto simp: dropWhile_append)
  ultimately show ?thesis by (simp add: trim_both_def)
qed

lemma trim_left_spec:
  assumes "n \<le> length b" "sp \<le> n"
  shows "\<exists>r. trim_left cset b (int n - 1) sp = Some r \<and> sp \<le> r \<and> r \<le> n \<and>
    (\<forall>i. sp \<le> i \<and> i < r \<longrightarrow> strchr_in cset (b ! i)) \<and> (r < n \<longrightarrow> \<not> strchr_in cset (b ! r))"
  using assms(2)
proof (induction "n - sp" arbitrary: sp)
  case 0
  then show ?case by (auto simp: trim_left.simps [of _ _ _ sp])
next
  case (Suc k)
  then have lt: "sp < n" by simp
  have h: "rd b sp 1 = Some [b ! sp]" using lt assms(1)
    by (simp add: buf_simps take_Suc_conv_app_nth hd_drop_conv_nth flip: Cons_nth_drop_Suc)
  show ?case
  proof (cases "strchr_in cset (b ! sp)")
    case True
    obtain r where r: "trim_left cset b (int n - 1) (sp + 1) = Some r" "sp + 1 \<le> r" "r \<le> n"
      "\<forall>i. sp + 1 \<le> i \<and> i < r \<longrightarrow> strchr_in cset (b ! i)" "r < n \<longrightarrow> \<not> strchr_in cset (b ! r)"
      using Suc.hyps(1) [of "sp + 1"] diff_Suc_Suc Suc.hyps(2) lt Suc_diff_Suc [OF lt] by auto
    moreover have "\<forall>i. sp \<le> i \<and> i < r \<longrightarrow> strchr_in cset (b ! i)"
      using r(4) True by (metis Suc_eq_plus1 le_neq_implies_less Suc_leI)
    ultimately show ?thesis using True h lt by (subst trim_left.simps) auto
  next
    case False
    then show ?thesis using h lt by (subst trim_left.simps) auto
  qed
qed

lemma trim_right_spec:
  assumes "n < length b"
  shows "\<exists>r. trim_right cset b (int n) = Some (int r) \<and> r \<le> n \<and>
    (\<forall>i. r < i \<and> i \<le> n \<longrightarrow> strchr_in cset (b ! i)) \<and> (0 < r \<longrightarrow> \<not> strchr_in cset (b ! r))"
  using assms
proof (induction n)
  case 0
  then show ?case by (intro exI [of _ 0]) (simp add: trim_right.simps)
next
  case (Suc n)
  have h: "rd b (Suc n) 1 = Some [b ! Suc n]" using Suc.prems
    by (simp add: buf_simps take_Suc_conv_app_nth hd_drop_conv_nth flip: Cons_nth_drop_Suc)
  show ?case
  proof (cases "strchr_in cset (b ! Suc n)")
    case True
    obtain r where r: "trim_right cset b (int n) = Some (int r)" "r \<le> n"
      "\<forall>i. r < i \<and> i \<le> n \<longrightarrow> strchr_in cset (b ! i)" "0 < r \<longrightarrow> \<not> strchr_in cset (b ! r)"
      using Suc.IH Suc.prems by auto
    moreover have "trim_right cset b (int (Suc n)) = trim_right cset b (int n)"
      using True h by (subst trim_right.simps) (simp add: nat_add_distrib)
    moreover have "\<forall>i. r < i \<and> i \<le> Suc n \<longrightarrow> strchr_in cset (b ! i)" using r(3) True by (auto simp: le_Suc_eq)
    ultimately show ?thesis by (intro exI [of _ r]) auto
  next
    case False
    moreover have "trim_right cset b (int (Suc n)) = Some (int (Suc n))"
      using False h by (subst trim_right.simps) (simp add: nat_add_distrib)
    ultimately show ?thesis by (intro exI [of _ "Suc n"]) auto
  qed
qed

text \<open>A block moved to the front of the buffer and closed with a zero byte.\<close>

lemma yields_slice:
  assumes ok: "sds_ok s" and n: "i + n \<le> sds_len s"
    and mv: "mv = (if i \<noteq> 0 \<and> n \<noteq> 0 then memmove (sds_buf s) 0 i n else Some (sds_buf s))"
    and r: "r = do { buf \<leftarrow> mv; buf \<leftarrow> wr buf n [0];
        Some \<lparr>sds_len = uint32 (int n), sds_free = uint32 (int (sds_free s) + (int (sds_len s) - int n)), sds_buf = buf\<rparr> }"
  shows "yields r (take n (drop i (sds_val s)))"
proof -
  note d = sds_okD [OF ok]
  define b where "b = (if i \<noteq> 0 \<and> n \<noteq> 0 then take n (drop i (sds_buf s)) @ drop n (sds_buf s) else sds_buf s)"
  have mv': "mv = Some b" using n d by (auto simp: mv b_def memmove_def buf_simps)
  have lb: "length b = length (sds_buf s)" using n d by (auto simp: b_def)
  have tb: "take n b = take n (drop i (sds_val s))" using n d by (auto simp: b_def sds_val_def drop_take)
  have r': "r = Some \<lparr>sds_len = n, sds_free = sds_free s + (sds_len s - n), sds_buf = take n b @ 0 # drop (Suc n) b\<rparr>"
    using n d lb by (simp add: r mv' buf_simps nat_add_distrib nat_diff_distrib flip: of_nat_diff)
  show ?thesis using n d lb tb by (intro yieldsI [OF r']) (auto simp: nth_append)
qed

lemma sdstrim_yields:
  assumes ok: "sds_ok s"
  shows "yields (sdstrim s cset) (trim_both (strchr_in cset) (sds_val s))"
proof -
  note d = sds_okD [OF ok]
  let ?n = "sds_len s" and ?b = "sds_buf s" and ?P = "strchr_in cset"
  have nb: "?n \<le> length ?b" using d by simp
  obtain sp where sp: "trim_left cset ?b (int ?n - 1) 0 = Some sp" "sp \<le> ?n"
    "\<forall>i. i < sp \<longrightarrow> ?P (?b ! i)" "sp < ?n \<longrightarrow> \<not> ?P (?b ! sp)"
    using trim_left_spec [OF nb, of 0 cset] by auto
  obtain ep where ep: "trim_right cset ?b (int ?n - 1) = Some ep" "ep \<le> int ?n - 1"
    "\<forall>i. ep < int i \<and> i < ?n \<longrightarrow> ?P (?b ! i)" "0 < ep \<longrightarrow> \<not> ?P (?b ! nat ep)" "?n \<noteq> 0 \<longrightarrow> 0 \<le> ep"
  proof (cases ?n)
    case 0
    then show ?thesis using that [of "- 1"] by (simp add: trim_right.simps)
  next
    case (Suc k)
    then have "k < length ?b" using d by simp
    from trim_right_spec [OF this, of cset] Suc that show ?thesis by auto
  qed
  define len where "len = (if int sp > ep then 0 else nat (ep - int sp + 1))"
  have ln: "sp + len \<le> ?n" using sp ep by (auto simp: len_def)
  have v: "sds_val s = take sp (sds_val s) @ take len (drop sp (sds_val s)) @ drop (sp + len) (sds_val s)"
    by (metis append_take_drop_id drop_drop add.commute)
  have nthv: "i < ?n \<Longrightarrow> sds_val s ! i = ?b ! i" for i by (simp add: sds_val_def)
  have pre: "\<forall>x\<in>set (take sp (sds_val s)). ?P x"
    using sp d nthv by (auto simp: in_set_conv_nth)
  have post: "\<forall>x\<in>set (drop (sp + len) (sds_val s)). ?P x"
  proof
    fix x assume "x \<in> set (drop (sp + len) (sds_val s))"
    then obtain i where i: "sp + len + i < ?n" "x = ?b ! (sp + len + i)"
      using d nthv by (auto simp: in_set_conv_nth less_diff_conv add.commute)
    have "ep < int (sp + len + i)" by (auto simp: len_def)
    then show "?P x" using ep(3) i by blast
  qed
  have ends: "take len (drop sp (sds_val s)) = [] \<or>
      \<not> ?P (hd (take len (drop sp (sds_val s)))) \<and> \<not> ?P (last (take len (drop sp (sds_val s))))"
  proof (cases "len = 0")
    case False
    have le: "sp < ?n" using ln False by simp
    have epn: "ep = int (sp + len) - 1" using False by (auto simp: len_def split: if_splits)
    have "hd (take len (drop sp (sds_val s))) = ?b ! sp"
      using False le d nthv by (simp add: hd_drop_conv_nth)
    moreover have "last (take len (drop sp (sds_val s))) = ?b ! (sp + len - 1)"
      using False ln d nthv by (simp add: last_conv_nth)
    moreover have "\<not> ?P (?b ! (sp + len - 1))"
    proof (cases "ep = 0")
      case True
      then have "sp + len - 1 = sp" using epn False by simp
      then show ?thesis using sp(4) le by simp
    next
      case nz: False
      then have "nat ep = sp + len - 1" using epn by simp
      then show ?thesis using ep(4) epn nz False by simp
    qed
    ultimately show ?thesis using sp(4) le by simp
  qed simp
  have "trim_both ?P (sds_val s) = take len (drop sp (sds_val s))"
    by (subst v) (rule trim_both_eq [OF pre post ends])
  moreover have "yields (sdstrim s cset) (take len (drop sp (sds_val s)))"
  proof (rule yields_slice [OF ok ln refl])
    show "sdstrim s cset = do { buf \<leftarrow> if sp \<noteq> 0 \<and> len \<noteq> 0 then memmove ?b 0 sp len else Some ?b; buf \<leftarrow> wr buf len [0];
        Some \<lparr>sds_len = uint32 (int len), sds_free = uint32 (int (sds_free s) + (int ?n - int len)), sds_buf = buf\<rparr> }"
      using sp(1,2) ep(1) d by (auto simp: sdstrim_def Let_def simp flip: len_def) (auto simp: memmove_def buf_simps)
  qed
  ultimately show ?thesis by simp
qed

text \<open>A negative index counts from the end; both indices are inclusive.\<close>

definition clip_index :: "nat \<Rightarrow> int \<Rightarrow> nat" where
  "clip_index n i = nat (if i < 0 then max 0 (int n + i) else i)"

definition range_bytes :: "bytes \<Rightarrow> int \<Rightarrow> int \<Rightarrow> bytes" where
  "range_bytes v start e =
     take (Suc (clip_index (length v) e) - clip_index (length v) start) (drop (clip_index (length v) start) v)"

lemma range_clip_spec:
  assumes "0 < n" "range_clip (int n) start e = (k, i)"
  shows "k = 0 \<or> i = clip_index n start" "i + k \<le> n \<or> k = 0"
    "k = min (Suc (clip_index n e) - clip_index n start) (n - clip_index n start)"
  using assms by (auto simp: range_clip_def clip_index_def Let_def max_def split: if_splits)

lemma sdsrange_yields:
  assumes ok: "sds_ok s" and len: "sds_len s < 2147483648"
  shows "yields (sdsrange s start e) (range_bytes (sds_val s) start e)"
proof (cases "sds_len s = 0")
  case True
  then show ?thesis using ok by (simp add: sdsrange_def yields_def range_bytes_def sds_val_def)
next
  case False
  obtain k i where ki: "range_clip (int (sds_len s)) start e = (k, i)" by force
  note r = range_clip_spec [OF _ ki] and d = sds_okD [OF ok]
  define i' where "i' = (if k = 0 then 0 else i)"
  have "range_bytes (sds_val s) start e = take k (drop i' (sds_val s))"
    using r(1,3) False d(4) by (auto simp: range_bytes_def i'_def min_def)
  moreover have "yields (sdsrange s start e) (take k (drop i' (sds_val s)))"
  proof (rule yields_slice [OF ok _ refl])
    show "i' + k \<le> sds_len s" using r(2) False by (auto simp: i'_def)
    show "sdsrange s start e = do { buf \<leftarrow> if i' \<noteq> 0 \<and> k \<noteq> 0 then memmove (sds_buf s) 0 i' k else Some (sds_buf s); buf \<leftarrow> wr buf k [0];
        Some \<lparr>sds_len = uint32 (int k), sds_free = uint32 (int (sds_free s) + (int (sds_len s) - int k)), sds_buf = buf\<rparr> }"
      using False len ki by (simp add: sdsrange_def i'_def)
  qed
  ultimately show ?thesis by simp
qed

lemma map_range_map:
  "j + n \<le> length b \<Longrightarrow> map_range f b j n = Some (take j b @ map f (take n (drop j b)) @ drop (j + n) b)"
proof (induction n arbitrary: b j)
  case (Suc n)
  have b: "b = take j b @ b ! j # drop (Suc j) b" using Suc.prems by (simp add: id_take_nth_drop)
  have r: "rd b j 1 = Some [b ! j]" using Suc.prems
    by (simp add: buf_simps take_Suc_conv_app_nth hd_drop_conv_nth flip: Cons_nth_drop_Suc)
  have w: "wr b j [f (b ! j)] = Some (take j b @ f (b ! j) # drop (Suc j) b)" using Suc.prems by (simp add: buf_simps)
  let ?b = "take j b @ f (b ! j) # drop (Suc j) b"
  have l: "j + 1 + n \<le> length ?b" using Suc.prems by simp
  have "map_range f b j (Suc n) = map_range f ?b (j + 1) n" using r w by simp
  also have "\<dots> = Some (take j b @ f (b ! j) # map f (take n (drop (Suc j) b)) @ drop (Suc (j + n)) b)"
    using Suc.prems by (subst Suc.IH [OF l]) (simp add: min_def add.commute)
  also have "\<dots> = Some (take j b @ map f (take (Suc n) (drop j b)) @ drop (j + Suc n) b)"
    using Suc.prems by (simp flip: Cons_nth_drop_Suc)
  finally show ?case .
qed simp

lemma map_range_yields:
  assumes "sds_ok s"
  shows "yields (map_option (\<lambda>b. s\<lparr>sds_buf := b\<rparr>) (map_range f (sds_buf s) 0 (sds_len s))) (map f (sds_val s))"
  using sds_okD [OF assms] assms
  by (auto simp: map_range_map yields_def sds_ok_def sds_val_def nth_append)

lemma sdstolower_yields: "sds_ok s \<Longrightarrow> sds_len s < 2147483648 \<Longrightarrow> yields (sdstolower s) (map c_lower (sds_val s))"
  using map_range_yields [of s c_lower] by (simp add: sdstolower_def)

lemma sdstoupper_yields: "sds_ok s \<Longrightarrow> sds_len s < 2147483648 \<Longrightarrow> yields (sdstoupper s) (map c_upper (sds_val s))"
  using map_range_yields [of s c_upper] by (simp add: sdstoupper_def)

lemma sdsmapchars_yields:
  "sds_ok s \<Longrightarrow> length from = length to \<Longrightarrow>
   yields (sdsmapchars s from to (length to)) (map (map_char from to) (sds_val s))"
  using map_range_yields [of s "map_char from to"] by (simp add: sdsmapchars_def)

lemma sdscmp_lex:
  assumes "sds_ok s" "sds_ok t" "sds_len s < 2147483648" "sds_len t < 2147483648"
  shows "\<exists>r. sdscmp s t = Some r \<and> (r < 0 \<longleftrightarrow> ord_class.lexordp (sds_val s) (sds_val t)) \<and> (r = 0 \<longleftrightarrow> sds_val s = sds_val t)"
proof -
  note d = sds_okD [OF assms(1)] sds_okD [OF assms(2)]
  let ?v = "sds_val s" and ?w = "sds_val t" and ?m = "min (sds_len s) (sds_len t)"
  let ?df = "int (sds_len s) - int (sds_len t)"
  have i: "int32 ?df = ?df"
  proof (cases "0 \<le> ?df")
    case True then show ?thesis using assms(3,4) by simp
  next
    case False
    have "?df mod 4294967296 = (?df + 4294967296) mod 4294967296" by simp
    also have "\<dots> = ?df + 4294967296" using False assms(3,4) by (intro mod_pos_pos_trivial) linarith+
    finally show ?thesis using False assms(3,4) by (simp add: int32_def Let_def)
  qed
  have "rd (sds_buf s) 0 ?m = Some (take ?m ?v)" "rd (sds_buf t) 0 ?m = Some (take ?m ?w)"
    using d by (auto simp: buf_simps sds_val_def min_def)
  moreover have "(if sds_len s < sds_len t then sds_len s else sds_len t) = ?m" by simp
  moreover have "memcmp (take ?m ?v) (take ?m ?w) = memcmp ?v ?w" using memcmp_take [of ?m ?v ?w] d by simp
  ultimately have "sdscmp s t = Some (if memcmp ?v ?w = 0 then ?df else memcmp ?v ?w)"
    by (simp only: sdscmp_def Let_def i Option.bind.simps)
  moreover have "(if memcmp ?v ?w = 0 then ?df else memcmp ?v ?w) < 0 \<longleftrightarrow> ord_class.lexordp ?v ?w"
    using memcmp_lexordp [of ?v ?w] d by auto
  moreover have "(if memcmp ?v ?w = 0 then ?df else memcmp ?v ?w) = 0 \<longleftrightarrow> ?v = ?w"
    using memcmp_zero [of ?v ?w] d by auto
  ultimately show ?thesis by blast
qed

end
