(* ===== verification/Sds_Text.thy ===== *)
theory Sds_Text
  imports Sds "HOL-Library.Sublist"
begin

text \<open>
  The text routines of sds.c on top of its buffers: joining and splitting by a separator, the
  quoted representation that the slow log, MONITOR and the configuration file use with its
  parser \<open>sdssplitargs\<close>, and the formatter \<open>sdscatfmt\<close>. The buffer is used through the
  contract \<open>string_builder\<close>. The properties of sds.c close the theory.
\<close>

section \<open>Appending in pieces\<close>

text \<open>
  The contract that the routines below rely on: a buffer to which bytes can be appended as long
  as a limit is kept. Appending a list of pieces appends their concatenation.
\<close>

primrec append_all :: "('s \<Rightarrow> bytes \<Rightarrow> 's option) \<Rightarrow> bytes list \<Rightarrow> 's \<Rightarrow> 's option" where
  "append_all cat [] s = Some s"
| "append_all cat (t # ts) s = cat s t \<bind> append_all cat ts"

locale string_builder =
  fixes valid :: "'s \<Rightarrow> bool"
    and val :: "'s \<Rightarrow> bytes"
    and cat :: "'s \<Rightarrow> bytes \<Rightarrow> 's option"
    and limit :: nat
  assumes cat_val: "valid s \<Longrightarrow> length (val s) + length t \<le> limit \<Longrightarrow>
    \<exists>s'. cat s t = Some s' \<and> valid s' \<and> val s' = val s @ t"
begin

lemma append_all_val:
  "valid s \<Longrightarrow> length (val s) + length (concat ts) \<le> limit \<Longrightarrow>
   \<exists>s'. append_all cat ts s = Some s' \<and> valid s' \<and> val s' = val s @ concat ts"
proof (induction ts arbitrary: s)
  case (Cons t ts)
  obtain s1 where s1: "cat s t = Some s1" "valid s1" "val s1 = val s @ t"
    using cat_val [OF Cons.prems(1), of t] Cons.prems(2) by auto
  from Cons.IH [OF s1(2)] s1 Cons.prems(2) show ?case by auto
qed simp

lemma append_all_app: "append_all cat (ts @ us) s = append_all cat ts s \<bind> append_all cat us"
  by (induction ts arbitrary: s) (auto split: Option.bind_splits)

end

abbreviation sds_append :: "byte \<Rightarrow> sdshdr \<Rightarrow> bytes \<Rightarrow> sdshdr option" where
  "sds_append g s t \<equiv> sdscatlen g s t (length t)"

abbreviation sds_limit :: nat where "sds_limit \<equiv> 4293918719"

interpretation sdsb: string_builder sds_ok sds_val "sds_append g" sds_limit for g
proof
  fix s and t :: bytes
  assume "sds_ok s" "length (sds_val s) + length t \<le> sds_limit"
  then show "\<exists>s'. sds_append g s t = Some s' \<and> sds_ok s' \<and> sds_val s' = sds_val s @ t"
    using sdscatlen_yields [of s "length t" t g] by (simp add: len_val yields_def)
qed

lemma append_all_yields:
  "sds_ok s \<Longrightarrow> length (sds_val s) + length (concat ts) \<le> sds_limit \<Longrightarrow>
   yields (append_all (sds_append g) ts s) (sds_val s @ concat ts)"
  unfolding yields_def by (rule sdsb.append_all_val)

lemma sdscatlen_prefix: "n \<le> length t \<Longrightarrow> sdscatlen g s t n = sds_append g s (take n t)"
  by (simp add: sdscatlen_def Let_def buf_simps min_def)

lemma sdscat_prefix: "0 \<in> set t \<Longrightarrow> sdscat g s t = sds_append g s (c_str t)"
  using sdscatlen_prefix [of "length (c_str t)" t g s] strlen_val [of t] by (simp add: sdscat_def)

section \<open>Joining and splitting\<close>

fun join_bytes :: "bytes \<Rightarrow> bytes list \<Rightarrow> bytes" where
  "join_bytes sep [] = []"
| "join_bytes sep [x] = x"
| "join_bytes sep (x # y # xs) = x @ sep @ join_bytes sep (y # xs)"

lemma join_bytes_Cons: "xs \<noteq> [] \<Longrightarrow> join_bytes sep (x # xs) = x @ sep @ join_bytes sep xs"
  by (cases xs) auto

lemma join_loop_yields:
  assumes "sds_ok j" "0 \<in> set sep" "\<forall>a\<in>set argv. 0 \<in> set a"
    and "length (sds_val j) + length (join_bytes (c_str sep) (map c_str argv)) \<le> sds_limit"
  shows "yields (join_loop g j argv sep) (sds_val j @ join_bytes (c_str sep) (map c_str argv))"
  using assms(1,3,4)
proof (induction argv arbitrary: j)
  case Nil
  then show ?case by (simp add: yields_def)
next
  case (Cons a argv)
  have a: "yields (sdscat g j a) (sds_val j @ c_str a)"
    using Cons.prems by (intro sdscat_yields) (cases argv; auto simp: len_val)+
  show ?case
  proof (cases "argv = []")
    case True
    then show ?thesis using a by (auto simp: yields_def)
  next
    case False
    have r: "join_bytes (c_str sep) (map c_str (a # argv)) = c_str a @ c_str sep @ join_bytes (c_str sep) (map c_str argv)"
      using False by (simp add: join_bytes_Cons)
    have "yields (sdscat g j a \<bind> (\<lambda>j. sdscat g j sep \<bind> (\<lambda>j. join_loop g j argv sep)))
        (sds_val j @ join_bytes (c_str sep) (map c_str (a # argv)))"
    proof (rule yields_bind [OF a], rule yields_bind)
      fix j1 assume j1: "sds_ok j1" "sds_val j1 = sds_val j @ c_str a"
      then show "yields (sdscat g j1 sep) (sds_val j1 @ c_str sep)"
        using Cons.prems(3) assms(2) r by (intro sdscat_yields) (auto simp: len_val)
      fix j2 assume j2: "sds_ok j2" "sds_val j2 = sds_val j1 @ c_str sep"
      then show "yields (join_loop g j2 argv sep) (sds_val j @ join_bytes (c_str sep) (map c_str (a # argv)))"
        using Cons.IH [of j2] Cons.prems(2,3) j1 r by simp
    qed
    then show ?thesis using False by simp
  qed
qed

lemma sdsjoin_yields:
  assumes "0 \<in> set sep" "\<forall>a\<in>set argv. 0 \<in> set a"
    and "length (join_bytes (c_str sep) (map c_str argv)) \<le> sds_limit"
  shows "yields (sdsjoin g argv sep) (join_bytes (c_str sep) (map c_str argv))"
  unfolding sdsjoin_def
proof (rule yields_bind [OF sdsempty_yields])
  fix s assume "sds_ok s" "sds_val s = []"
  then show "yields (join_loop g s argv sep) (join_bytes (c_str sep) (map c_str argv))"
    using join_loop_yields [of s sep argv g] assms by simp
qed

declare split_loop.simps [simp del]

text \<open>The tokens are the parts between the separators, and none of them contains a separator.\<close>

lemma split_loop_spec:
  assumes sep: "length sep = Suc k" and s: "length s < 4294967296"
    and "start \<le> j" "j \<le> length s"
    and "\<forall>i. start \<le> i \<and> i < j \<longrightarrow> take (Suc k) (drop i s) \<noteq> sep"
  shows "\<exists>ts. split_loop g s (length s) sep k j start tokens = Some (tokens @ ts) \<and> ts \<noteq> [] \<and>
    (\<forall>t\<in>set ts. sds_ok t \<and> \<not> sublist sep (sds_val t)) \<and> join_bytes sep (map sds_val ts) = drop start s"
  using assms(3-)
proof (induction "length s - j" arbitrary: j start tokens rule: less_induct)
  case less
  have token: "\<exists>t. sdsnewlen g (Some (drop start s)) (e - start) = Some t \<and> sds_ok t \<and>
      sds_val t = take (e - start) (drop start s) \<and> \<not> sublist sep (sds_val t)"
    if e: "start \<le> e" "e \<le> length s" "\<forall>i. start \<le> i \<and> i + Suc k \<le> e \<longrightarrow> take (Suc k) (drop i s) \<noteq> sep" for e
  proof -
    have "\<not> sublist sep (take (e - start) (drop start s))"
    proof
      assume "sublist sep (take (e - start) (drop start s))"
      then obtain a b where ab: "take (e - start) (drop start s) = a @ sep @ b" by (auto simp: sublist_def)
      have la: "start + length a + Suc k \<le> e"
        using arg_cong [OF ab, of length] e(1,2) sep by simp
      have "take (Suc k) (drop (length a) (take (e - start) (drop start s))) = sep" using ab sep by simp
      then have "take (Suc k) (drop (start + length a) s) = sep" using la by (simp add: drop_take min_absorb1 add.commute)
      then show False using e(3) la by auto
    qed
    moreover have "yields (sdsnewlen g (Some (drop start s)) (e - start)) (take (e - start) (drop start s))"
      using e s by (intro sdsnewlen_yields) auto
    ultimately show ?thesis by (auto simp: yields_def)
  qed
  show ?case
  proof (cases "j + k < length s")
    case True
    have rd: "rd s j (k + 1) = Some (take (Suc k) (drop j s))" using True by (simp add: buf_simps)
    show ?thesis
    proof (cases "take (Suc k) (drop j s) = sep")
      case eq: True
      obtain t where t: "sdsnewlen g (Some (drop start s)) (j - start) = Some t" "sds_ok t"
        "sds_val t = take (j - start) (drop start s)" "\<not> sublist sep (sds_val t)"
        using token [of j] less.prems by auto
      obtain ts where ts: "split_loop g s (length s) sep k (j + k + 1) (j + k + 1) (tokens @ [t]) = Some ((tokens @ [t]) @ ts)"
        "ts \<noteq> []" "\<forall>t\<in>set ts. sds_ok t \<and> \<not> sublist sep (sds_val t)" "join_bytes sep (map sds_val ts) = drop (j + k + 1) s"
        using less.hyps [of "j + k + 1" "j + k + 1" "tokens @ [t]", OF _ order_refl] True
        by (simp add: diff_less_mono2) (metis leD)
      have "drop start s = take (j - start) (drop start s) @ sep @ drop (j + k + 1) s"
      proof -
        have "drop start s = take (j - start) (drop start s) @ drop j s"
          using less.prems(1) append_take_drop_id [of "j - start" "drop start s"] by simp
        also have "drop j s = sep @ drop (Suc k) (drop j s)" using eq append_take_drop_id [of "Suc k" "drop j s"] by simp
        finally show ?thesis by (simp add: add.commute)
      qed
      then have "join_bytes sep (map sds_val (t # ts)) = drop start s" using t ts by (simp add: join_bytes_Cons)
      moreover have "split_loop g s (length s) sep k j start tokens = Some (tokens @ t # ts)"
        using True rd eq sep t ts by (subst split_loop.simps) simp
      ultimately show ?thesis using t ts by (intro exI [of _ "t # ts"]) auto
    next
      case ne: False
      have "\<forall>i. start \<le> i \<and> i < Suc j \<longrightarrow> take (Suc k) (drop i s) \<noteq> sep" using ne less.prems by (auto simp: less_Suc_eq)
      then have "\<exists>ts. split_loop g s (length s) sep k (j + 1) start tokens = Some (tokens @ ts) \<and> ts \<noteq> [] \<and>
         (\<forall>t\<in>set ts. sds_ok t \<and> \<not> sublist sep (sds_val t)) \<and> join_bytes sep (map sds_val ts) = drop start s"
        using less.prems True by (intro less.hyps) auto
      moreover have "split_loop g s (length s) sep k j start tokens = split_loop g s (length s) sep k (j + 1) start tokens"
        using True rd ne sep by (subst split_loop.simps) simp
      ultimately show ?thesis by simp
    qed
  next
    case False
    obtain t where t: "sdsnewlen g (Some (drop start s)) (length s - start) = Some t" "sds_ok t"
      "sds_val t = take (length s - start) (drop start s)" "\<not> sublist sep (sds_val t)"
      using token [of "length s"] less.prems False by auto
    then show ?thesis using False by (subst split_loop.simps) simp
  qed
qed

section \<open>Quoting and its parser\<close>

declare split_token.simps [simp del]

lemma peek_simps [simp]:
  "peek [] i = 0" "peek (c # p) 0 = c" "peek (c # p) (Suc i) = peek p i" "peek (c # p) (numeral n) = peek p (pred_numeral n)"
  by (auto simp: peek_def nth_Cons' numeral_eq_Suc)

lemma split_token_rest:
  "split_token inq insq cur p = Some (t, r) \<Longrightarrow> length r \<le> length p \<and> (p \<noteq> [] \<longrightarrow> length r < length p)"
proof (induction "length p" arbitrary: inq insq cur p rule: less_induct)
  case less
  have ih: "length r < length p" if "split_token a b c (drop n p) = Some (t, r)" "0 < n" "p \<noteq> []" for a b c n
    using less.hyps [of "drop n p" a b c] that by (cases p) (auto simp: le_less_trans)
  show ?case
  proof (cases "p = []")
    case True
    then show ?thesis using less.prems by (subst (asm) split_token.simps) (auto split: if_splits)
  next
    case False
    have steps: "split_token a b c (drop (Suc 0) p) = Some (t, r) \<Longrightarrow> length r < length p"
      "split_token a b c (drop 2 p) = Some (t, r) \<Longrightarrow> length r < length p"
      "split_token a b c (drop 4 p) = Some (t, r) \<Longrightarrow> length r < length p" for a b c
      using ih False by auto
    have "length r < length p"
      using less.prems False by (subst (asm) split_token.simps) (auto split: if_splits dest: steps)
    then show ?thesis by simp
  qed
qed

function split_args :: "bytes list \<Rightarrow> bytes \<Rightarrow> bytes list option" where
  "split_args vector p =
    (let p = dropWhile isspace p in
     if p = [] then Some vector
     else case split_token False False [] p of
         None \<Rightarrow> None
       | Some (current, p) \<Rightarrow> split_args (vector @ [current]) p)"
  by pat_completeness auto
termination
  by (relation "measure (\<lambda>(vector, p). length p)")
    (auto dest!: split_token_rest intro: less_le_trans [OF _ length_dropWhile_le])

definition sdssplitargs :: "bytes \<Rightarrow> bytes list option" where
  "sdssplitargs line = split_args [] (c_str line)"

declare split_args.simps [simp del]

subsection \<open>What the representation of a string is\<close>

definition enc :: "byte \<Rightarrow> bytes" where
  "enc c = (if c = 92 \<or> c = 34 then [92, c]
     else if c = 10 then [92, 110] else if c = 13 then [92, 114] else if c = 9 then [92, 116]
     else if c = 7 then [92, 97] else if c = 8 then [92, 98]
     else if isprint c then [c] else printf_x02 c)"

definition repr :: "bytes \<Rightarrow> bytes" where
  "repr p = 34 # concat (map enc p) @ [34]"

lemma unat_byte: "unat (c :: byte) < 256"
  using unsigned_less [where 'a = nat, of c] by simp

lemma hex_lower_16:
  assumes "n < 16"
  shows "is_hex_digit (hex_lower n)" "hex_digit_to_int (hex_lower n) = n" "hex_lower n \<noteq> 0"
proof -
  have "\<forall>n\<in>set [0..<16]. is_hex_digit (hex_lower n) \<and> hex_digit_to_int (hex_lower n) = n \<and> hex_lower n \<noteq> 0"
    by code_simp
  then show "is_hex_digit (hex_lower n)" "hex_digit_to_int (hex_lower n) = n" "hex_lower n \<noteq> 0"
    using assms by auto
qed

lemma repr_byte_enc: "repr_byte g s c = sds_append g s (enc c)"
proof -
  have x: "hex_lower (unat c div 16) \<noteq> 0" "hex_lower (unat c mod 16) \<noteq> 0"
    using unat_byte [of c] by (auto intro!: hex_lower_16(3))
  have z: "isprint c \<Longrightarrow> c \<noteq> 0" by (auto simp: isprint_def)
  have two: "sdscatlen g s [a, b, 0] 2 = sds_append g s [a, b]" for a b
    using sdscatlen_prefix [of 2 "[a, b, 0]" g s] by simp
  show ?thesis using x z by (auto simp: repr_byte_def enc_def sdscat_prefix two c_str_def printf_x02_def)
qed

lemma repr_loop_all: "repr_loop g s p = append_all (sds_append g) (map enc p) s"
  by (induction p arbitrary: s) (auto simp: repr_byte_enc)

lemma sdscatrepr_yields:
  assumes "sds_ok s" "n \<le> length p" "length (sds_val s) + length (repr (take n p)) \<le> sds_limit"
  shows "yields (sdscatrepr g s p n) (sds_val s @ repr (take n p))"
proof -
  have "sdscatrepr g s p n = append_all (sds_append g) ([34] # map enc (take n p) @ [[34]]) s"
    using assms(2) sdscatlen_prefix [of 1 "[34, 0]" g]
    by (simp add: sdscatrepr_def repr_loop_all sdsb.append_all_app buf_simps cong: Option.bind_cong)
  then show ?thesis
    using append_all_yields [of s "[34] # map enc (take n p) @ [[34]]" g] assms by (simp add: repr_def)
qed

lemma enc_no_zero: "0 \<notin> set (enc c)"
  using hex_lower_16(3) unat_byte [of c] by (auto simp: enc_def printf_x02_def isprint_def)

lemma repr_no_zero: "0 \<notin> set (repr p)"
  using enc_no_zero by (auto simp: repr_def)

lemma split_token_enc: "split_token True False cur (enc c @ r) = split_token True False (cur @ [c]) r"
proof -
  have h: "hex_digit_to_int (hex_lower (unat c div 16)) * 16 + hex_digit_to_int (hex_lower (unat c mod 16)) = unat c"
    using unat_byte [of c] by (subst (1 2) hex_lower_16(2)) auto
  have d: "is_hex_digit (hex_lower (unat c div 16))" "is_hex_digit (hex_lower (unat c mod 16))"
    using unat_byte [of c] by (auto intro!: hex_lower_16(1))
  have "split_token True False cur ([92, x] @ r) = split_token True False (cur @ [unescape x]) r" if "x \<noteq> 0" "x \<noteq> 120" for x
    using that by (subst split_token.simps) simp
  moreover have "split_token True False cur ([c] @ r) = split_token True False (cur @ [c]) r" if "c \<noteq> 92" "c \<noteq> 34" "c \<noteq> 0"
    using that by (subst split_token.simps) simp
  moreover have "split_token True False cur (printf_x02 c @ r) = split_token True False (cur @ [c]) r"
    using d h by (subst split_token.simps) (simp add: printf_x02_def)
  moreover have "isprint c \<Longrightarrow> c \<noteq> 0" by (auto simp: isprint_def)
  ultimately show ?thesis by (auto simp: enc_def unescape_def)
qed

lemma split_token_body:
  "split_token True False cur (concat (map enc p) @ r) = split_token True False (cur @ p) r"
  by (induction p arbitrary: cur) (simp_all add: split_token_enc)

lemma split_token_repr:
  assumes "r = [] \<or> isspace (hd r)"
  shows "split_token False False [] (repr p @ r) = Some (p, r)"
proof -
  have "split_token False False [] (repr p @ r) = split_token True False [] (concat (map enc p) @ 34 # r)"
    by (subst split_token.simps) (simp add: repr_def)
  also have "\<dots> = split_token True False p (34 # r)" by (simp add: split_token_body)
  also have "\<dots> = Some (p, r)" using assms by (subst split_token.simps) (cases r; auto)
  finally show ?thesis .
qed

lemma split_args_reprs: "split_args vec (join_bytes [32] (map repr args)) = Some (vec @ args)"
proof (induction args arbitrary: vec)
  case Nil
  then show ?case by (simp add: split_args.simps)
next
  case (Cons a args)
  have q: "dropWhile isspace (repr a @ r) = repr a @ r" "repr a @ r \<noteq> []" for r by (auto simp: repr_def isspace_def)
  show ?case
  proof (cases "args = []")
    case True
    then show ?thesis using q [of "[]"] split_token_repr [of "[]" a]
      by (simp add: split_args.simps [of _ "repr a"] split_args.simps [of _ "[]"])
  next
    case False
    let ?r = "join_bytes [32] (map repr args)"
    have "split_args vec (repr a @ 32 # ?r) = split_args (vec @ [a]) (32 # ?r)"
      using q [of "32 # ?r"] split_token_repr [of "32 # ?r" a] by (simp add: split_args.simps [of vec] isspace_def)
    also have "\<dots> = split_args (vec @ [a]) ?r"
      by (simp add: split_args.simps [of _ "32 # ?r"] split_args.simps [of _ ?r] isspace_def)
    finally show ?thesis using False Cons.IH by (simp add: join_bytes_Cons)
  qed
qed

section \<open>Formatting\<close>

text \<open>What a format means: the reference for \<open>sdscatfmt\<close>.\<close>

fun arg_text :: "byte \<Rightarrow> fmt_arg \<Rightarrow> bytes option" where
  "arg_text nx (ArgCStr str) = (if nx = 115 \<and> 0 \<in> set str then Some (c_str str) else None)"
| "arg_text nx (ArgSds t) = (if nx = 83 \<and> sds_ok t then Some (sds_val t) else None)"
| "arg_text nx (ArgNum v) = (if (nx = 105 \<or> nx = 73) \<and> int64_range v then Some (decimal v) else None)"
| "arg_text nx (ArgUnum v) = (if (nx = 117 \<or> nx = 85) \<and> v \<le> ULLONG_MAX then Some (dec v) else None)"

fun fmt_text :: "bytes \<Rightarrow> fmt_arg list \<Rightarrow> bytes option" where
  "fmt_text [] args = Some []"
| "fmt_text (c # f) args =
    (if c \<noteq> 37 then map_option ((#) c) (fmt_text f args)
     else case f of
       [] \<Rightarrow> None
     | nx # f' \<Rightarrow>
         if nx \<in> set [115, 83, 105, 73, 117, 85] then
           (case args of [] \<Rightarrow> None
            | a # args \<Rightarrow> do { t \<leftarrow> arg_text nx a; u \<leftarrow> fmt_text f' args; Some (t @ u) })
         else map_option ((#) nx) (fmt_text f' args))"

text \<open>Inside the loop the terminator is not in place yet; the counters agree with the buffer.\<close>

definition sds_open :: "sdshdr \<Rightarrow> bool" where
  "sds_open s \<longleftrightarrow> length (sds_buf s) = sds_len s + sds_free s + 1 \<and> sds_len s + sds_free s < 4294967296"

lemma sds_open_room:
  assumes "sds_open s" "room s n"
  shows "sds_open (sdsMakeRoomFor g s n)" "sds_val (sdsMakeRoomFor g s n) = sds_val s"
    "sds_len (sdsMakeRoomFor g s n) = sds_len s" "n \<le> sds_free (sdsMakeRoomFor g s n)"
  using assms by (auto simp: sdsMakeRoomFor_def Let_def sds_open_def sds_val_def zrealloc_def nat_diff_distrib)

definition extends :: "(sdshdr \<times> nat) option \<Rightarrow> sdshdr \<Rightarrow> bytes \<Rightarrow> bool" where
  "extends r s t \<longleftrightarrow> (\<exists>s'. r = Some (s', sds_len s') \<and> sds_open s' \<and> sds_val s' = sds_val s @ t)"

lemma len_open: "sds_open s \<Longrightarrow> sds_len s = length (sds_val s)"
  by (simp add: sds_open_def sds_val_def)

lemma open_write:
  assumes "sds_open s" "length bs \<le> sds_free s"
  shows "extends (do { buf \<leftarrow> wr (sds_buf s) (sds_len s) bs;
      Some (\<lparr>sds_len = uint32 (int (sds_len s) + int (length bs)), sds_free = uint32 (int (sds_free s) - int (length bs)), sds_buf = buf\<rparr>,
        sds_len s + length bs) }) s bs"
  using assms by (auto simp: extends_def buf_simps sds_open_def sds_val_def nat_add_distrib nat_diff_distrib simp flip: of_nat_diff)

lemma fmt_put_extends:
  assumes o: "sds_open s" and l: "l \<le> length str" and rm: "room s l"
  shows "extends (fmt_put g s (sds_len s) str l) s (take l str)"
proof -
  define s' where "s' = (if sds_free s < l then sdsMakeRoomFor g s l else s)"
  have m: "sds_open s'" "sds_val s' = sds_val s" "sds_len s' = sds_len s" "l \<le> sds_free s'"
    using sds_open_room [OF o rm, of g] o by (auto simp: s'_def)
  have "extends (fmt_put g s (sds_len s) str l) s' (take l str)"
    using open_write [OF m(1), of "take l str"] m(3,4) l
    by (simp add: fmt_put_def Let_def buf_simps min_absorb2 flip: s'_def)
  then show ?thesis by (simp add: extends_def m)
qed

lemma fmt_byte_extends: "sds_open s \<Longrightarrow> 0 < sds_free s \<Longrightarrow> extends (fmt_byte s (sds_len s) b) s [b]"
  using open_write [of s "[b]"] by (simp add: fmt_byte_def Suc_le_eq)

lemma fmt_arg_put_extends:
  assumes o: "sds_open s" and t: "arg_text nx a = Some t" and rm: "room s (length t)"
  shows "extends (fmt_arg_put g s (sds_len s) nx a) s t"
proof (cases a)
  case (ArgCStr str)
  then have "0 \<in> set str" "nx = 115" "t = c_str str" using t by (auto split: if_splits)
  then show ?thesis using ArgCStr fmt_put_extends [OF o, of "length t" str g] rm strlen_val [of str]
    by (simp add: fmt_arg_put_def)
next
  case (ArgSds u)
  then have "sds_ok u" "nx = 83" "t = sds_val u" using t by (auto split: if_splits)
  then show ?thesis using ArgSds fmt_put_extends [OF o, of "sds_len u" "sds_buf u" g] rm sds_okD [of u]
    by (simp add: fmt_arg_put_def flip: sds_val_def)
next
  case (ArgNum v)
  then have v: "int64_range v" "nx = 105 \<or> nx = 73" "t = decimal v" using t by (auto split: if_splits)
  show ?thesis using ArgNum v(2,3) sdsll2str_decimal [OF v(1), of "replicate SDS_LLSTR_SIZE g"] length_decimal_ll [OF v(1)]
      fmt_put_extends [OF o, of "length t" "t @ 0 # drop (Suc (length t)) (replicate SDS_LLSTR_SIZE g)" g] rm
    by (auto simp: fmt_arg_put_def)
next
  case (ArgUnum v)
  then have v: "v \<le> ULLONG_MAX" "nx = 117 \<or> nx = 85" "t = dec v" using t by (auto split: if_splits)
  show ?thesis using ArgUnum v(2,3) sdsull2str_dec [of v "replicate SDS_LLSTR_SIZE g"] length_dec_ull [OF v(1)]
      fmt_put_extends [OF o, of "length t" "t @ 0 # drop (Suc (length t)) (replicate SDS_LLSTR_SIZE g)" g] rm
    by (auto simp: fmt_arg_put_def)
qed

lemma extends_bind:
  assumes "extends r s t" "\<And>s'. sds_open s' \<Longrightarrow> sds_val s' = sds_val s @ t \<Longrightarrow> extends (f s' (sds_len s')) s' u"
  shows "extends (r \<bind> (\<lambda>(s, i). f s i)) s (t @ u)"
  using assms by (fastforce simp: extends_def)

lemma fmt_loop_extends:
  "sds_open s \<Longrightarrow> fmt_text f args = Some t \<Longrightarrow> length (sds_val s) + length t \<le> sds_limit - 1 \<Longrightarrow>
   extends (fmt_loop g s (sds_len s) f args) s t"
proof (induction f args arbitrary: s t rule: fmt_text.induct)
  case (1 args)
  then show ?case by (simp add: extends_def)
next
  case (2 c f args)
  define s' where "s' = (if sds_free s = 0 then sdsMakeRoomFor g s 1 else s)"
  have m: "sds_open s'" "sds_val s' = sds_val s" "sds_len s' = sds_len s" "0 < sds_free s'"
    using sds_open_room [of s 1 g] 2(4,6) len_open [OF 2(4)] by (auto simp: s'_def)
  have "extends (fmt_loop g s (sds_len s) (c # f) args) s' t"
  proof (cases "c = 37")
    case False
    then obtain u where u: "fmt_text f args = Some u" "t = c # u" using 2(5) by auto
    have "extends (fmt_byte s' (sds_len s') c \<bind> (\<lambda>(s, i). fmt_loop g s i f args)) s' ([c] @ u)"
      by (rule extends_bind [OF fmt_byte_extends [OF m(1,4)]], rule 2(1)) (use False u 2(6) m in auto)
    then show ?thesis using False u m by (simp flip: s'_def)
  next
    case True
    then obtain nx f' where f: "f = nx # f'" using 2(5) by (cases f) auto
    show ?thesis
    proof (cases "nx \<in> set [115, 83, 105, 73, 117, 85]")
      case nx: True
      then obtain a args' v u where a: "args = a # args'" "arg_text nx a = Some v" "fmt_text f' args' = Some u" "t = v @ u"
        using 2(5) True f by (cases args) (auto split: Option.bind_splits)
      have "extends (fmt_arg_put g s' (sds_len s') nx a \<bind> (\<lambda>(s, i). fmt_loop g s i f' args')) s' (v @ u)"
        by (rule extends_bind [OF fmt_arg_put_extends [OF m(1) a(2)]], use 2(6) a m len_open [OF m(1)] in simp,
            rule 2(2)) (use True f nx a 2(6) m in auto)
      then show ?thesis using True f nx a m by (simp flip: s'_def)
    next
      case nx: False
      then obtain u where u: "fmt_text f' args = Some u" "t = nx # u" using 2(5) True f by auto
      have "extends (fmt_byte s' (sds_len s') nx \<bind> (\<lambda>(s, i). fmt_loop g s i f' args)) s' ([nx] @ u)"
        by (rule extends_bind [OF fmt_byte_extends [OF m(1,4)]], rule 2(3)) (use True f nx u 2(6) m in auto)
      then show ?thesis using True f nx u m by (simp flip: s'_def)
    qed
  qed
  then show ?case by (simp add: extends_def m)
qed

lemma sdscatfmt_yields:
  assumes ok: "sds_ok s" and t: "fmt_text (c_str f) args = Some t" and l: "length (sds_val s) + length t < sds_limit"
  shows "yields (sdscatfmt g s f args) (sds_val s @ t)"
proof -
  have "sds_open s" using ok by (simp add: sds_ok_def sds_open_def)
  from fmt_loop_extends [OF this t, of g] l
  obtain s' where s': "fmt_loop g s (sds_len s) (c_str f) args = Some (s', sds_len s')" "sds_open s'" "sds_val s' = sds_val s @ t"
    by (auto simp: extends_def)
  let ?b = "take (sds_len s') (sds_buf s') @ 0 # drop (Suc (sds_len s')) (sds_buf s')"
  have r: "sdscatfmt g s f args = Some \<lparr>sds_len = sds_len s', sds_free = sds_free s', sds_buf = ?b\<rparr>"
    using s' by (cases s') (simp add: sdscatfmt_def buf_simps sds_open_def)
  have "yields (sdscatfmt g s f args) (sds_val s')"
    using s'(2) by (intro yieldsI [OF r]) (auto simp: sds_open_def sds_val_def nth_append)
  then show ?thesis using s'(3) by simp
qed

section \<open>Properties\<close>

text \<open>
  The operations that change a string in place, as a datatype, with what each means on bytes.
  The arguments are those the callers pass: a destination of less than 2 GB, format arguments of
  the kinds the format names.
\<close>

datatype sds_op =
    Catlen bytes | Cpylen bytes | Growzero nat | Clear | Updatelen | Trim bytes | Range int int
  | Tolower | Toupper | Mapchars bytes bytes | RemoveFreeSpace | MakeRoomFor nat | Catrepr bytes
  | Catfmt bytes "fmt_arg list" | Cut nat

fun sds_step :: "byte \<Rightarrow> sds_op \<Rightarrow> sdshdr \<Rightarrow> sdshdr option" where
  "sds_step g (Catlen t) s = sdscatlen g s t (length t)"
| "sds_step g (Cpylen t) s = sdscpylen g s t (length t)"
| "sds_step g (Growzero n) s = sdsgrowzero g s n"
| "sds_step g Clear s = sdsclear s"
| "sds_step g Updatelen s = sdsupdatelen s"
| "sds_step g (Trim cset) s = sdstrim s cset"
| "sds_step g (Range a e) s = sdsrange s a e"
| "sds_step g Tolower s = sdstolower s"
| "sds_step g Toupper s = sdstoupper s"
| "sds_step g (Mapchars from to) s = sdsmapchars s from to (length to)"
| "sds_step g RemoveFreeSpace s = Some (sdsRemoveFreeSpace g s)"
| "sds_step g (MakeRoomFor n) s = Some (sdsMakeRoomFor g s n)"
| "sds_step g (Catrepr p) s = sdscatrepr g s p (length p)"
| "sds_step g (Catfmt f args) s = sdscatfmt g s f args"
| "sds_step g (Cut n) s = sdsIncrLen s (- int n)"

fun bytes_step :: "sds_op \<Rightarrow> bytes \<Rightarrow> bytes option" where
  "bytes_step (Catlen t) v = Some (v @ t)"
| "bytes_step (Cpylen t) v = Some t"
| "bytes_step (Growzero n) v = Some (grow_bytes v n)"
| "bytes_step Clear v = Some []"
| "bytes_step Updatelen v = Some (c_str v)"
| "bytes_step (Trim cset) v = Some (trim_both (\<lambda>c. c \<in> set (c_str cset) \<or> c = 0) v)"
| "bytes_step (Range a e) v = Some (range_bytes v a e)"
| "bytes_step Tolower v = Some (map c_lower v)"
| "bytes_step Toupper v = Some (map c_upper v)"
| "bytes_step (Mapchars from to) v = (if length from = length to then Some (map (map_char from to) v) else None)"
| "bytes_step RemoveFreeSpace v = Some v"
| "bytes_step (MakeRoomFor n) v = (if n < 1073741824 then Some v else None)"
| "bytes_step (Catrepr p) v = Some (v @ repr p)"
| "bytes_step (Catfmt f args) v = map_option ((@) v) (fmt_text (c_str f) args)"
| "bytes_step (Cut n) v = (if n \<le> length v then Some (take (length v - n) v) else None)"

fun sds_run :: "byte \<Rightarrow> sds_op list \<Rightarrow> sdshdr \<Rightarrow> sdshdr option" where
  "sds_run g [] s = Some s"
| "sds_run g (op # ops) s = sds_step g op s \<bind> sds_run g ops"

fun bytes_run :: "sds_op list \<Rightarrow> bytes \<Rightarrow> bytes option" where
  "bytes_run [] v = Some v"
| "bytes_run (op # ops) v = bytes_step op v \<bind> (\<lambda>v. if length v < 2147483648 then bytes_run ops v else None)"

lemma sds_step_yields:
  assumes ok: "sds_ok s" and len: "length (sds_val s) < 2147483648"
    and w: "bytes_step op (sds_val s) = Some w" "length w < 2147483648"
  shows "yields (sds_step g op s) w"
proof -
  have l: "sds_len s < 2147483648" using len len_val [OF ok] by simp
  note lv = len_val [OF ok]
  have grow: "n \<le> length (grow_bytes v n)" for n v by (simp add: grow_bytes_def)
  show ?thesis
  proof (cases op)
    case (Growzero n)
    then show ?thesis using w grow [of n "sds_val s"] by (auto intro!: sdsgrowzero_yields [OF ok])
  next
    case (Trim cset)
    then show ?thesis using w sdstrim_yields [OF ok, of cset] by (simp add: strchr_in_def [abs_def])
  next
    case (Cut n)
    show ?thesis
    proof (cases n)
      case 0
      have "yields (sdsIncrLen s 0) (sds_val s)" using sdsIncrLen_grow [OF ok, of 0] by (simp add: sds_val_def)
      then show ?thesis using 0 Cut w by simp
    next
      case (Suc m)
      then show ?thesis using sdsIncrLen_cut [OF ok, of n] Cut w lv by (auto split: if_splits)
    qed
  next
    case (Catrepr p)
    then show ?thesis using sdscatrepr_yields [OF ok, of "length p" p g] w by auto
  next
    case (Catlen t)
    then show ?thesis using sdscatlen_yields [OF ok, of "length t" t g] w lv by auto
  next
    case (Cpylen t)
    then show ?thesis using sdscpylen_yields [OF ok, of "length t" t g] w by simp
  next
    case (MakeRoomFor n)
    then show ?thesis using sdsMakeRoomFor_ok [OF ok, of n g] w l by (auto simp: yields_def split: if_splits)
  next
    case (Catfmt f args)
    then show ?thesis using sdscatfmt_yields [OF ok] w by auto
  next
    case Clear
    then show ?thesis using w sdsclear_yields [OF ok] by simp
  next
    case Updatelen
    then show ?thesis using w sdsupdatelen_yields [OF ok] by simp
  next
    case (Range a e)
    then show ?thesis using w sdsrange_yields [OF ok l, of a e] by simp
  next
    case Tolower
    then show ?thesis using w sdstolower_yields [OF ok l] by simp
  next
    case Toupper
    then show ?thesis using w sdstoupper_yields [OF ok l] by simp
  next
    case (Mapchars old new)
    then show ?thesis using w sdsmapchars_yields [OF ok, of old new] by (simp split: if_splits)
  next
    case RemoveFreeSpace
    then show ?thesis using w sdsRemoveFreeSpace_ok [OF ok, of g] by (simp add: yields_def)
  qed
qed

lemma sds_run_yields:
  "sds_ok s \<Longrightarrow> length (sds_val s) < 2147483648 \<Longrightarrow> bytes_run ops (sds_val s) = Some w \<Longrightarrow> yields (sds_run g ops s) w"
proof (induction ops arbitrary: s)
  case Nil
  then show ?case by (simp add: yields_def)
next
  case (Cons op ops)
  then obtain v where v: "bytes_step op (sds_val s) = Some v" "length v < 2147483648" "bytes_run ops v = Some w"
    by (auto split: Option.bind_splits if_splits)
  show ?case
    unfolding sds_run.simps using sds_step_yields [OF Cons.prems(1,2) v(1,2), of g]
    by (rule yields_bind) (use Cons.IH v in auto)
qed

text \<open>
  C24. Refinement: any sequence of string operations, started on the empty string, returns, never
  leaves its buffer and keeps the header (length, free space, terminator) right, and the string
  holds the bytes that the same operations give on byte sequences, whatever the memory held
  before, as long as no string reaches 2 GB.
\<close>

theorem sds_run_correct:
  assumes "bytes_run ops [] = Some w"
  shows "\<exists>s. sdsempty g \<bind> sds_run g ops = Some s \<and> sds_ok s \<and> sds_val s = w"
proof -
  obtain e where "sdsempty g = Some e" "sds_ok e" "sds_val e = []" using sdsempty_yields [of g] by (rule yieldsE)
  then show ?thesis using sds_run_yields [of e ops w g] assms by (auto simp: yields_def)
qed

theorem sds_run_correct_witness:
  "\<exists>s. sdsempty 7 \<bind> sds_run 7 [Catlen [32, 65, 66, 0], Trim [32], Tolower, Growzero 3, Cut 1, Catfmt [45, 37, 105, 0] [ArgNum (- 12)]] = Some s
     \<and> sds_ok s \<and> sds_val s = [97, 98, 45, 45, 49, 50]"
  by (rule sds_run_correct)
    (simp add: trim_both_def c_str_def grow_bytes_def c_lower_def decimal_def dchar_def dec.simps)

text \<open>
  Splitting a string by a separator: the tokens, joined by the separator, are the string,
  and no token contains the separator; a bad separator or length gives the null pointer and the
  empty string no token.
\<close>

theorem sdssplitlen_correct:
  assumes "length s < 2147483648" "sep \<noteq> []"
  shows "\<exists>ts. sdssplitlen g s (int (length s)) sep (int (length sep)) = Some (Some ts) \<and>
    (\<forall>t\<in>set ts. sds_ok t \<and> \<not> sublist sep (sds_val t)) \<and> join_bytes sep (map sds_val ts) = s"
proof (cases "s = []")
  case True
  then show ?thesis using assms by (simp add: sdssplitlen_def Suc_le_eq)
next
  case False
  have "length sep = Suc (nat (int (length sep) - 1))" using assms(2) by (cases sep) auto
  from split_loop_spec [OF this, of s 0 0 g "[]"] assms False
  show ?thesis by (auto simp: sdssplitlen_def Suc_le_eq)
qed

theorem sdssplitlen_correct_witness:
  "\<exists>ts. sdssplitlen 0 [97, 44, 44, 98] (int (length [97, 44, 44, 98::byte])) [44] (int (length [44::byte])) = Some (Some ts) \<and>
    (\<forall>t\<in>set ts. sds_ok t \<and> \<not> sublist [44] (sds_val t)) \<and> join_bytes [44] (map sds_val ts) = [97, 44, 44, 98]"
  by (rule sdssplitlen_correct) auto

subsection \<open>The line that MONITOR clients see\<close>

fun feed_args :: "byte \<Rightarrow> sdshdr \<Rightarrow> strobj list \<Rightarrow> sdshdr option" where
  "feed_args g s [] = Some s"
| "feed_args g s (a # argv) = do {
     s \<leftarrow> (case a of
        ENC_INT v \<Rightarrow> sdscat g s (34 # decimal v @ [34, 0])
      | ENC_RAW p \<Rightarrow> sdscatrepr g s p (length p));
     s \<leftarrow> (if argv \<noteq> [] then sdscatlen g s [32, 0] 1 else Some s);
     feed_args g s argv
   }"

definition feed_line :: "byte \<Rightarrow> sdshdr \<Rightarrow> strobj list \<Rightarrow> sdshdr option" where
  "feed_line g cmdrepr argv = do {
     s \<leftarrow> feed_args g cmdrepr argv;
     sdscatlen g s [13, 10, 0] 2
   }"

lemma set_decimal: "c \<in> set (decimal v) \<Longrightarrow> c = 45 \<or> is_digit c"
  using set_dec by (auto simp: decimal_def split: if_splits)

lemma repr_decimal: "repr (decimal v) = 34 # decimal v @ [34]"
proof -
  have "enc c = [c]" if "c \<in> set (decimal v)" for c
  proof -
    have "c = 45 \<or> 48 \<le> c \<and> c \<le> 57"
      using set_decimal [OF that] by (auto simp: is_digit_def word_le_nat_alt)
    then show ?thesis by (auto simp: enc_def isprint_def word_le_nat_alt word_less_nat_alt)
  qed
  moreover have "(\<forall>c\<in>set p. enc c = [c]) \<Longrightarrow> concat (map enc p) = p" for p by (induction p) auto
  ultimately show ?thesis by (simp add: repr_def)
qed

lemma feed_arg_yields:
  assumes "sds_ok s" "length (sds_val s) + length (repr (content a)) \<le> sds_limit"
  shows "yields (case a of ENC_INT v \<Rightarrow> sdscat g s (34 # decimal v @ [34, 0]) | ENC_RAW p \<Rightarrow> sdscatrepr g s p (length p))
    (sds_val s @ repr (content a))"
proof (cases a)
  case (ENC_RAW p)
  then show ?thesis using assms sdscatrepr_yields [of s "length p" p g] by simp
next
  case (ENC_INT v)
  have "0 \<notin> set (repr (decimal v))" by (rule repr_no_zero)
  then have "c_str (34 # decimal v @ [34, 0]) = repr (decimal v)"
    unfolding repr_decimal c_str_def by (simp, subst takeWhile_append2) auto
  then show ?thesis using ENC_INT assms sdscat_yields [of s "34 # decimal v @ [34, 0]" g] by (simp add: len_val)
qed

lemma feed_args_yields:
  "sds_ok s \<Longrightarrow> length (sds_val s) + length (join_bytes [32] (map (\<lambda>a. repr (content a)) argv)) \<le> sds_limit \<Longrightarrow>
   yields (feed_args g s argv) (sds_val s @ join_bytes [32] (map (\<lambda>a. repr (content a)) argv))"
proof (induction argv arbitrary: s)
  case Nil
  then show ?case by (simp add: yields_def)
next
  case (Cons a argv)
  let ?r = "join_bytes [32] (map (\<lambda>a. repr (content a)) argv)"
  have j: "join_bytes [32] (map (\<lambda>a. repr (content a)) (a # argv)) = repr (content a) @ (if argv = [] then [] else 32 # ?r)"
    by (simp add: join_bytes_Cons)
  show ?case
    unfolding feed_args.simps
  proof (rule yields_bind [OF feed_arg_yields])
    show "length (sds_val s) + length (repr (content a)) \<le> sds_limit" using Cons.prems j by simp
    fix s1 assume s1: "sds_ok s1" "sds_val s1 = sds_val s @ repr (content a)"
    show "yields ((if argv \<noteq> [] then sdscatlen g s1 [32, 0] 1 else Some s1) \<bind> (\<lambda>s. feed_args g s argv))
        (sds_val s @ join_bytes [32] (map (\<lambda>a. repr (content a)) (a # argv)))"
    proof (cases "argv = []")
      case True
      then show ?thesis using s1 by (simp add: yields_def)
    next
      case False
      have "yields (sdscatlen g s1 [32, 0] 1) (sds_val s1 @ [32])"
        using sdscatlen_yields [OF s1(1), of 1 "[32, 0]" g] Cons.prems j False s1 by (simp add: len_val)
      then have "yields (sdscatlen g s1 [32, 0] 1 \<bind> (\<lambda>s. feed_args g s argv)) (sds_val s @ repr (content a) @ 32 # ?r)"
      proof (rule yields_bind)
        fix s2 assume "sds_ok s2" "sds_val s2 = sds_val s1 @ [32]"
        then show "yields (feed_args g s2 argv) (sds_val s @ repr (content a) @ 32 # ?r)"
          using Cons.IH [of s2] Cons.prems(2) j s1 False by simp
      qed
      then show ?thesis using False j by simp
    qed
  qed (rule Cons.prems)
qed

lemma join_no_zero: "\<forall>x\<in>set xs. 0 \<notin> set x \<Longrightarrow> 0 \<notin> set (join_bytes [32] xs)"
  by (induction "[32] :: bytes" xs rule: join_bytes.induct) auto

lemma length_repr: "length (repr p) \<le> 4 * length p + 2"
proof -
  have "length (concat (map enc p)) \<le> 4 * length p"
    by (induction p) (auto simp: enc_def printf_x02_def)
  then show ?thesis by (simp add: repr_def)
qed

lemma length_reprs:
  "length (join_bytes [32] (map (\<lambda>a. repr (content a)) argv)) \<le> 4 * (\<Sum>a\<leftarrow>argv. length (content a) + 1)"
proof (induction argv)
  case (Cons a argv)
  then show ?case using length_repr [of "content a"] by (cases "argv = []") (auto simp: join_bytes_Cons)
qed simp

lemma repr_nonempty [simp]: "repr a \<noteq> []"
  by (simp add: repr_def)

lemma split_args_spaces: "\<forall>c\<in>set t. isspace c \<Longrightarrow> split_args vec (join_bytes [32] (map repr args) @ t) = Some (vec @ args)"
proof (induction args arbitrary: vec)
  case Nil
  then show ?case by (simp add: split_args.simps [of vec] dropWhile_eq_Nil_conv)
next
  case (Cons a args)
  have q: "dropWhile isspace (repr a @ r) = repr a @ r" "repr a @ r \<noteq> []" for r by (auto simp: repr_def isspace_def)
  let ?r = "(if args = [] then t else 32 # join_bytes [32] (map repr args) @ t)"
  have r: "?r = [] \<or> isspace (hd ?r)" using Cons.prems by (cases t) (auto simp: isspace_def)
  have "split_args vec (repr a @ ?r) = split_args (vec @ [a]) ?r"
    using q [of ?r] split_token_repr [OF r, of a] by (simp add: split_args.simps [of vec] Let_def)
  also have "\<dots> = split_args (vec @ [a]) (join_bytes [32] (map repr args) @ t)"
    by (cases "args = []") (simp, simp add: split_args.simps [of _ "32 # _"] split_args.simps [of _ "_ @ t"] isspace_def)
  finally show ?case using Cons by (auto simp: join_bytes_Cons split: if_splits)
qed


text \<open>
  C25. Round trip: the arguments of a command, integers or strings of any bytes, written in
  quotes behind any prefix as MONITOR shows them, are read back by \<open>sdssplitargs\<close> as exactly the
  arguments. The text stays inside its buffer and is the same whatever the memory held.
\<close>

theorem feed_line_parses:
  assumes "sds_ok s" "length (sds_val s) + 4 * (\<Sum>a\<leftarrow>argv. length (content a) + 1) + 4 \<le> sds_limit"
  shows "\<exists>line s'. feed_line g s argv = Some s' \<and> sds_ok s' \<and> sds_val s' = sds_val s @ line \<and>
    0 \<notin> set line \<and> sdssplitargs (line @ [0]) = Some (map content argv)"
proof -
  let ?l = "join_bytes [32] (map (\<lambda>a. repr (content a)) argv)"
  have ll: "length ?l \<le> 4 * (\<Sum>a\<leftarrow>argv. length (content a) + 1)" by (rule length_reprs)
  have f: "yields (feed_line g s argv) (sds_val s @ ?l @ [13, 10])"
    unfolding feed_line_def
  proof (rule yields_bind [OF feed_args_yields [OF assms(1)]])
    show "length (sds_val s) + length ?l \<le> sds_limit" using assms(2) ll by simp
    fix s1 assume "sds_ok s1" "sds_val s1 = sds_val s @ ?l"
    then show "yields (sdscatlen g s1 [13, 10, 0] 2) (sds_val s @ ?l @ [13, 10])"
      using sdscatlen_yields [of s1 2 "[13, 10, 0]" g] assms(2) ll by (simp add: len_val)
  qed
  have z: "0 \<notin> set (?l @ [13, 10])" using join_no_zero [of "map (\<lambda>a. repr (content a)) argv"] repr_no_zero by auto
  then have c: "c_str ((?l @ [13, 10]) @ [0]) = ?l @ [13, 10]" unfolding c_str_def by (subst takeWhile_append2) auto
  have "sdssplitargs ((?l @ [13, 10]) @ [0]) = Some (map content argv)"
    unfolding sdssplitargs_def c using split_args_spaces [of "[13, 10]" "[]" "map content argv"]
    by (simp add: isspace_def comp_def)
  then show ?thesis using f z by (intro exI [of _ "?l @ [13, 10]"]) (auto simp: yields_def)
qed

theorem feed_line_parses_witness:
  "\<exists>line s'. feed_line 3 \<lparr>sds_len = 1, sds_free = 0, sds_buf = [43, 0]\<rparr> [ENC_RAW [115, 0, 34, 10], ENC_INT (- 5)] = Some s' \<and>
     sds_ok s' \<and> sds_val s' = sds_val \<lparr>sds_len = 1, sds_free = 0, sds_buf = [43, 0]\<rparr> @ line \<and>
     0 \<notin> set line \<and> sdssplitargs (line @ [0]) = Some (map content [ENC_RAW [115, 0, 34, 10], ENC_INT (- 5)])"
  by (rule feed_line_parses) (simp_all add: sds_ok_def sds_val_def decimal_def content.simps)

text \<open>A lone \<open>%\<close> at the end of a format makes \<open>sdscatfmt\<close> read behind the terminator.\<close>

lemma sdscatfmt_lone_percent: "sdscatfmt g s [37, 0] args = None"
  by (simp add: sdscatfmt_def c_str_def Let_def)

end
