(* ===== verification/T_String.thy ===== *)
theory T_String
  imports Keyspace Sds
begin

text \<open>
  \<^verbatim>\<open>redis-2.8/src/t_string.c\<close>: the commands on strings, without \<open>INCRBYFLOAT\<close>, whose
  arithmetic is \<open>long double\<close>. \<open>long long\<close> sums and products wrap at 64 bits. An argument vector
  holds bytes, so the encoded copies the code leaves in it show only in the stored values.
\<close>

section \<open>Helpers\<close>

definition checkStringLength :: "nat \<Rightarrow> int \<Rightarrow> server \<Rightarrow> server \<times> bool" where
  "checkStringLength c n s =
     (if n > 512 * 1024 * 1024
      then (addReplyError c ''string exceeds maximum allowed size (512MB)'' s, False) else (s, True))"

definition not_integer :: "nat \<Rightarrow> server \<Rightarrow> server" where
  "not_integer c = addReplyError c ''value is not an integer or out of range''"

text \<open>\<open>checkType\<close> against \<open>REDIS_STRING\<close>: the string inside, or \<open>None\<close> for another type.\<close>

fun as_string :: "robj \<Rightarrow> strobj option" where
  "as_string (StrObj v) = Some v"
| "as_string _ = None"

text \<open>The assignment to \<open>o->ptr\<close> of an object that the data base holds in raw form.\<close>

definition write_ptr :: "nat \<Rightarrow> bytes \<Rightarrow> bytes \<Rightarrow> server \<Rightarrow> server" where
  "write_ptr db key v = upd_db db (\<lambda>d. d\<lparr>db_dict := AList.update key (StrObj (ENC_RAW v)) (db_dict d)\<rparr>)"

section \<open>Setting\<close>

text \<open>The part of \<open>setGenericCommand\<close> after its checks; the time to live is in milliseconds.\<close>

definition set_store :: "nat \<Rightarrow> bytes \<Rightarrow> strobj \<Rightarrow> int option \<Rightarrow> reply \<Rightarrow> nat \<Rightarrow> server \<Rightarrow> server option" where
  "set_store db key val expire ok_reply c s = do {
     s \<leftarrow> setKey db key (StrObj val) s;
     let s = incr_dirty 1 s;
     s \<leftarrow> (case expire of None \<Rightarrow> Some s | Some ms \<Rightarrow> setExpire db key (wrap64 (srv_mstime s + ms)) s);
     s \<leftarrow> notifyKeyspaceEvent REDIS_NOTIFY_STRING ''set'' key db s;
     s \<leftarrow> (case expire of None \<Rightarrow> Some s | Some _ \<Rightarrow> notifyKeyspaceEvent REDIS_NOTIFY_GENERIC ''expire'' key db s);
     Some (addReply c ok_reply s)
   }"

definition setGenericCommand ::
  "bool \<Rightarrow> bool \<Rightarrow> bytes \<Rightarrow> strobj \<Rightarrow> bytes option \<Rightarrow> bool \<Rightarrow> reply \<Rightarrow> reply \<Rightarrow> nat \<Rightarrow> server \<Rightarrow> server option" where
  "setGenericCommand nx xx key val expire unit_seconds ok_reply abort_reply c s =
     (let db = client_db c s;
          ms = (case expire of None \<Rightarrow> Some 0 | Some e \<Rightarrow> getLongLongFromObject (Some (ENC_RAW e))) in
      case ms of
        None \<Rightarrow> Some (not_integer c s)
      | Some milliseconds \<Rightarrow>
          if expire \<noteq> None \<and> milliseconds \<le> 0
          then Some (addReplyError c (''invalid expire time in '' @ c_cmd (srv_client s c)) s)
          else
            let milliseconds = (if unit_seconds then wrap64 (milliseconds * 1000) else milliseconds) in
            do {
              (s, abort) \<leftarrow> (if nx then map_option (\<lambda>(s, v). (s, v \<noteq> None)) (lookupKeyWrite db key s) else Some (s, False));
              (s, abort) \<leftarrow> (if \<not> abort \<and> xx then map_option (\<lambda>(s, v). (s, v = None)) (lookupKeyWrite db key s) else Some (s, abort));
              if abort then Some (addReply c abort_reply s)
              else set_store db key val (if expire = None then None else Some milliseconds) ok_reply c s
            })"

definition opt_is :: "byte \<Rightarrow> byte \<Rightarrow> bytes \<Rightarrow> bool" where
  "opt_is lower upper a \<longleftrightarrow>
     (case c_str a of [p, q] \<Rightarrow> (p = lower \<or> p = upper) \<and> (q = 120 \<or> q = 88) | _ \<Rightarrow> False)"

text \<open>The options of \<open>SET\<close>: NX, XX, the expire argument and whether it is in seconds; \<open>None\<close> for a syntax error.\<close>

type_synonym set_options = "bool \<times> bool \<times> bytes option \<times> bool"

fun set_option_loop :: "bytes list \<Rightarrow> set_options \<Rightarrow> set_options option" where
  "set_option_loop [] acc = Some acc"
| "set_option_loop (a # rest) (nx, xx, expire, secs) =
     (if opt_is 110 78 a then set_option_loop rest (True, xx, expire, secs)
      else if opt_is 120 88 a then set_option_loop rest (nx, True, expire, secs)
      else case rest of
             [] \<Rightarrow> None
           | next # rest' \<Rightarrow>
               if opt_is 101 69 a then set_option_loop rest' (nx, xx, Some next, True)
               else if opt_is 112 80 a then set_option_loop rest' (nx, xx, Some next, False)
               else None)"

definition setCommand :: "nat \<Rightarrow> server \<Rightarrow> server option" where
  "setCommand c s =
     (case set_option_loop (drop 3 (c_argv (srv_client s c))) (False, False, None, True) of
        None \<Rightarrow> Some (addReply c shared_syntaxerr s)
      | Some (nx, xx, expire, secs) \<Rightarrow>
          setGenericCommand nx xx (argv c s 1) (tryObjectEncoding (ENC_RAW (argv c s 2))) expire secs shared_ok NullBulk c s)"

definition setnxCommand :: "nat \<Rightarrow> server \<Rightarrow> server option" where
  "setnxCommand c s = setGenericCommand True False (argv c s 1) (tryObjectEncoding (ENC_RAW (argv c s 2)))
     None True shared_cone shared_czero c s"

definition setexCommand :: "nat \<Rightarrow> server \<Rightarrow> server option" where
  "setexCommand c s = setGenericCommand False False (argv c s 1) (tryObjectEncoding (ENC_RAW (argv c s 3)))
     (Some (argv c s 2)) True shared_ok NullBulk c s"

definition psetexCommand :: "nat \<Rightarrow> server \<Rightarrow> server option" where
  "psetexCommand c s = setGenericCommand False False (argv c s 1) (tryObjectEncoding (ENC_RAW (argv c s 3)))
     (Some (argv c s 2)) False shared_ok NullBulk c s"

section \<open>Getting\<close>

text \<open>The flag is true for \<open>REDIS_OK\<close>.\<close>

definition getGenericCommand :: "nat \<Rightarrow> server \<Rightarrow> (server \<times> bool) option" where
  "getGenericCommand c s = do {
     (s, ob) \<leftarrow> lookupKeyReadOrReply c (argv c s 1) NullBulk s;
     Some (case ob of None \<Rightarrow> (s, True)
           | Some val \<Rightarrow> (case as_string val of None \<Rightarrow> (addReply c shared_wrongtypeerr s, False)
                          | Some v \<Rightarrow> (addReply c (Bulk (content v)) s, True)))
   }"

definition getCommand :: "nat \<Rightarrow> server \<Rightarrow> server option" where
  "getCommand c s = map_option fst (getGenericCommand c s)"

definition getsetCommand :: "nat \<Rightarrow> server \<Rightarrow> server option" where
  "getsetCommand c s = do {
     let db = client_db c s;
     let key = argv c s 1;
     let val = tryObjectEncoding (ENC_RAW (argv c s 2));
     (s, ok) \<leftarrow> getGenericCommand c s;
     if \<not> ok then Some s
     else do {
       s \<leftarrow> setKey db key (StrObj val) s;
       s \<leftarrow> notifyKeyspaceEvent REDIS_NOTIFY_STRING ''set'' key db s;
       Some (incr_dirty 1 s)
     }
   }"

section \<open>Ranges\<close>

definition memcpy_at :: "bytes \<Rightarrow> nat \<Rightarrow> bytes \<Rightarrow> bytes" where
  "memcpy_at v offset w = take offset v @ w @ drop (offset + length w) v"

definition setrange_write :: "nat \<Rightarrow> bytes \<Rightarrow> nat \<Rightarrow> bytes \<Rightarrow> bytes \<Rightarrow> nat \<Rightarrow> server \<Rightarrow> server option" where
  "setrange_write db key offset value old c s = do {
     let v = memcpy_at (grow_bytes old (offset + length value)) offset value;
     let s = write_ptr db key v s;
     let s = signalModifiedKey db key s;
     s \<leftarrow> notifyKeyspaceEvent REDIS_NOTIFY_STRING ''setrange'' key db s;
     Some (addReply c (Integer (int (length v))) (incr_dirty 1 s))
   }"

definition setrangeCommand :: "nat \<Rightarrow> server \<Rightarrow> server option" where
  "setrangeCommand c s =
     (let db = client_db c s; key = argv c s 1; value = argv c s 3 in
      case getLongFromObject (Some (ENC_RAW (argv c s 2))) of
        None \<Rightarrow> Some (if getLongLongFromObject (Some (ENC_RAW (argv c s 2))) = None then not_integer c s
                      else addReplyError c ''value is out of range'' s)
      | Some offset \<Rightarrow>
          if offset < 0 then Some (addReplyError c ''offset is out of range'' s)
          else do {
            (s, ob) \<leftarrow> lookupKeyWrite db key s;
            case ob of
              None \<Rightarrow>
                if value = [] then Some (addReply c shared_czero s)
                else
                  let (s, ok) = checkStringLength c (offset + int (length value)) s in
                  if \<not> ok then Some s
                  else do {
                    s \<leftarrow> dbAdd db key (StrObj (ENC_RAW [])) s;
                    setrange_write db key (nat offset) value [] c s
                  }
            | Some val \<Rightarrow>
                (case as_string val of
                   None \<Rightarrow> Some (addReply c shared_wrongtypeerr s)
                 | Some v \<Rightarrow>
                     if value = [] then Some (addReply c (Integer (int (stringObjectLen v))) s)
                     else
                       let (s, ok) = checkStringLength c (offset + int (length value)) s in
                       if \<not> ok then Some s
                       else do {
                         (s, old) \<leftarrow> dbUnshareStringValue db key val s;
                         setrange_write db key (nat offset) value old c s
                       })
          })"

definition getrange_bounds :: "int \<Rightarrow> int \<Rightarrow> int \<Rightarrow> int \<times> int" where
  "getrange_bounds len start end' =
     (let start = (if start < 0 then len + start else start);
          end' = (if end' < 0 then len + end' else end');
          start = (if start < 0 then 0 else start);
          end' = (if end' < 0 then 0 else end');
          end' = (if end' \<ge> len then len - 1 else end')
      in (start, end'))"

definition getrangeCommand :: "nat \<Rightarrow> server \<Rightarrow> server option" where
  "getrangeCommand c s =
     (case (getLongLongFromObject (Some (ENC_RAW (argv c s 2))), getLongLongFromObject (Some (ENC_RAW (argv c s 3)))) of
        (Some start, Some end') \<Rightarrow> do {
          (s, ob) \<leftarrow> lookupKeyReadOrReply c (argv c s 1) shared_emptybulk s;
          case ob of None \<Rightarrow> Some s
          | Some val \<Rightarrow>
              (case as_string val of None \<Rightarrow> Some (addReply c shared_wrongtypeerr s)
               | Some v \<Rightarrow>
                   let st = content v; len = int (length st); (start, end') = getrange_bounds len start end' in
                   if start > end' \<or> len = 0 then Some (addReply c shared_emptybulk s)
                   else Some (addReply c (Bulk (take (nat (end' - start + 1)) (drop (nat start) st))) s))
        }
      | _ \<Rightarrow> Some (not_integer c s))"

section \<open>Several keys\<close>

fun mget_keys :: "nat \<Rightarrow> nat \<Rightarrow> bytes list \<Rightarrow> server \<Rightarrow> server option" where
  "mget_keys c db [] s = Some s"
| "mget_keys c db (key # keys) s = do {
     (s, ob) \<leftarrow> lookupKeyRead db key s;
     let r = (case ob of None \<Rightarrow> NullBulk
              | Some val \<Rightarrow> (case as_string val of None \<Rightarrow> NullBulk | Some v \<Rightarrow> Bulk (content v)));
     mget_keys c db keys (addReply c r s)
   }"

definition mgetCommand :: "nat \<Rightarrow> server \<Rightarrow> server option" where
  "mgetCommand c s = mget_keys c (client_db c s) (args c s) (addReply c (MultiBulkLen (int (argc c s) - 1)) s)"

fun count_busy :: "nat \<Rightarrow> bytes list \<Rightarrow> server \<Rightarrow> (server \<times> nat) option" where
  "count_busy db (key # val # rest) s = do {
     (s, old) \<leftarrow> lookupKeyWrite db key s;
     (s, n) \<leftarrow> count_busy db rest s;
     Some (s, if old \<noteq> None then n + 1 else n)
   }"
| "count_busy db _ s = Some (s, 0)"

fun mset_pairs :: "nat \<Rightarrow> bytes list \<Rightarrow> server \<Rightarrow> server option" where
  "mset_pairs db (key # val # rest) s = do {
     s \<leftarrow> setKey db key (StrObj (tryObjectEncoding (ENC_RAW val))) s;
     s \<leftarrow> notifyKeyspaceEvent REDIS_NOTIFY_STRING ''set'' key db s;
     mset_pairs db rest s
   }"
| "mset_pairs db _ s = Some s"

definition msetGenericCommand :: "bool \<Rightarrow> nat \<Rightarrow> server \<Rightarrow> server option" where
  "msetGenericCommand nx c s =
     (let db = client_db c s; av = args c s; n = argc c s in
      if n mod 2 = 0 then Some (addReplyError c ''wrong number of arguments for MSET'' s)
      else do {
        (s, busykeys) \<leftarrow> (if nx then count_busy db av s else Some (s, 0));
        if busykeys \<noteq> 0 then Some (addReply c shared_czero s)
        else do {
          s \<leftarrow> mset_pairs db av s;
          Some (addReply c (if nx then shared_cone else shared_ok) (incr_dirty ((int n - 1) div 2) s))
        }
      })"

definition msetCommand :: "nat \<Rightarrow> server \<Rightarrow> server option" where
  "msetCommand = msetGenericCommand False"

definition msetnxCommand :: "nat \<Rightarrow> server \<Rightarrow> server option" where
  "msetnxCommand = msetGenericCommand True"

section \<open>Counters\<close>

definition would_overflow :: "int \<Rightarrow> int \<Rightarrow> bool" where
  "would_overflow oldvalue incr \<longleftrightarrow>
     (incr < 0 \<and> oldvalue < 0 \<and> incr < LLONG_MIN - oldvalue) \<or>
     (incr > 0 \<and> oldvalue > 0 \<and> incr > LLONG_MAX - oldvalue)"

definition incrDecrCommand :: "int \<Rightarrow> nat \<Rightarrow> server \<Rightarrow> server option" where
  "incrDecrCommand incr c s = do {
     let db = client_db c s;
     let key = argv c s 1;
     (s, ob) \<leftarrow> lookupKeyWrite db key s;
     if (case ob of None \<Rightarrow> False | Some val \<Rightarrow> as_string val = None) then Some (addReply c shared_wrongtypeerr s)
     else
       case getLongLongFromObject (Option.bind ob as_string) of
         None \<Rightarrow> Some (not_integer c s)
       | Some oldvalue \<Rightarrow>
           if would_overflow oldvalue incr
           then Some (addReplyError c ''increment or decrement would overflow'' s)
           else do {
             let value = wrap64 (oldvalue + incr);
             let new = StrObj (createStringObjectFromLongLong value);
             s \<leftarrow> (if ob \<noteq> None then dbOverwrite db key new s else dbAdd db key new s);
             let s = signalModifiedKey db key s;
             s \<leftarrow> notifyKeyspaceEvent REDIS_NOTIFY_STRING ''incrby'' key db s;
             Some (addReply c (Integer value) (incr_dirty 1 s))
           }
   }"

definition incrCommand :: "nat \<Rightarrow> server \<Rightarrow> server option" where
  "incrCommand = incrDecrCommand 1"

definition decrCommand :: "nat \<Rightarrow> server \<Rightarrow> server option" where
  "decrCommand = incrDecrCommand (- 1)"

definition incrbyCommand :: "nat \<Rightarrow> server \<Rightarrow> server option" where
  "incrbyCommand c s =
     (case getLongLongFromObject (Some (ENC_RAW (argv c s 2))) of
        None \<Rightarrow> Some (not_integer c s) | Some incr \<Rightarrow> incrDecrCommand incr c s)"

definition decrbyCommand :: "nat \<Rightarrow> server \<Rightarrow> server option" where
  "decrbyCommand c s =
     (case getLongLongFromObject (Some (ENC_RAW (argv c s 2))) of
        None \<Rightarrow> Some (not_integer c s) | Some incr \<Rightarrow> incrDecrCommand (wrap64 (- incr)) c s)"

section \<open>Appending and lengths\<close>

definition append_done :: "nat \<Rightarrow> bytes \<Rightarrow> nat \<Rightarrow> nat \<Rightarrow> server \<Rightarrow> server option" where
  "append_done db key totlen c s = do {
     let s = signalModifiedKey db key s;
     s \<leftarrow> notifyKeyspaceEvent REDIS_NOTIFY_STRING ''append'' key db s;
     Some (addReply c (Integer (int totlen)) (incr_dirty 1 s))
   }"

definition appendCommand :: "nat \<Rightarrow> server \<Rightarrow> server option" where
  "appendCommand c s = do {
     let db = client_db c s;
     let key = argv c s 1;
     let append = argv c s 2;
     (s, ob) \<leftarrow> lookupKeyWrite db key s;
     case ob of
       None \<Rightarrow> do {
         let val = tryObjectEncoding (ENC_RAW append);
         s \<leftarrow> dbAdd db key (StrObj val) s;
         append_done db key (stringObjectLen val) c s
       }
     | Some val \<Rightarrow>
         (case as_string val of
            None \<Rightarrow> Some (addReply c shared_wrongtypeerr s)
          | Some v \<Rightarrow>
              let (s, ok) = checkStringLength c (int (stringObjectLen v) + int (length append)) s in
              if \<not> ok then Some s
              else do {
                (s, old) \<leftarrow> dbUnshareStringValue db key val s;
                let s = write_ptr db key (old @ append) s;
                append_done db key (length (old @ append)) c s
              })
   }"

definition strlenCommand :: "nat \<Rightarrow> server \<Rightarrow> server option" where
  "strlenCommand c s = do {
     (s, ob) \<leftarrow> lookupKeyReadOrReply c (argv c s 1) shared_czero s;
     case ob of None \<Rightarrow> Some s
     | Some val \<Rightarrow>
         Some (case as_string val of None \<Rightarrow> addReply c shared_wrongtypeerr s
               | Some v \<Rightarrow> addReply c (Integer (int (stringObjectLen v))) s)
   }"

text \<open>The entries of the command table, in runs of adjacent entries; \<open>INCRBYFLOAT\<close> is not among them.\<close>

definition get_entries :: "command_entry list" where
  "get_entries =
    [(''get'', 2, ''rF'', getCommand), (''set'', - 3, ''wm'', setCommand), (''setnx'', 3, ''wmF'', setnxCommand),
     (''setex'', 4, ''wm'', setexCommand), (''psetex'', 4, ''wm'', psetexCommand),
     (''append'', 3, ''wm'', appendCommand), (''strlen'', 2, ''rF'', strlenCommand)]"

definition setrange_entries :: "command_entry list" where
  "setrange_entries =
    [(''setrange'', 4, ''wm'', setrangeCommand), (''getrange'', 4, ''r'', getrangeCommand),
     (''substr'', 4, ''r'', getrangeCommand), (''incr'', 2, ''wmF'', incrCommand), (''decr'', 2, ''wmF'', decrCommand),
     (''mget'', - 2, ''r'', mgetCommand)]"

definition incrby_entries :: "command_entry list" where
  "incrby_entries = [(''incrby'', 3, ''wmF'', incrbyCommand), (''decrby'', 3, ''wmF'', decrbyCommand)]"

definition getset_entries :: "command_entry list" where
  "getset_entries = [(''getset'', 3, ''wm'', getsetCommand), (''mset'', - 3, ''wm'', msetCommand), (''msetnx'', - 3, ''wm'', msetnxCommand)]"

definition string_commands :: "command_entry list" where
  "string_commands = get_entries @ setrange_entries @ incrby_entries @ getset_entries"

lemmas string_entries = string_commands_def get_entries_def setrange_entries_def incrby_entries_def getset_entries_def

section \<open>The commands keep the key space well formed and signal every change\<close>

abbreviation max_len :: nat where
  "max_len \<equiv> 536870912"

lemma val_ok_encoded: "length a \<le> max_len \<Longrightarrow> val_ok (StrObj (tryObjectEncoding (ENC_RAW a)))"
  using tryObjectEncoding_content [of "ENC_RAW a"] by simp

lemma val_ok_integer: "int64_range v \<Longrightarrow> val_ok (StrObj (createStringObjectFromLongLong v))"
  using createStringObjectFromLongLong_content [of v] decimal_len [of v] by simp

lemma wrap64_range: "int64_range (wrap64 v)"
  by (simp add: wrap64_def)

lemma wp_map_option [simp]: "wp (map_option f m) P \<longleftrightarrow> wp m (\<lambda>x. P (f x))"
  by (cases m) simp_all

lemma write_ptr_step:
  assumes "map_of (db_dict (srv_db s d)) k \<noteq> None" "length v \<le> max_len"
  shows "step {(d, k)} s (write_ptr d k v s)"
    "map_of (db_dict (srv_db (write_ptr d k v s) d)) k = Some (StrObj (ENC_RAW v))"
    "db_expires (srv_db (write_ptr d k v s) d) = db_expires (srv_db s d)"
proof -
  show "step {(d, k)} s (write_ptr d k v s)" unfolding write_ptr_def
    by (rule step_upd_db) (use assms in \<open>force simp: db_ok_def update_conv' distinct_update split: if_splits\<close>)+
qed (simp_all add: write_ptr_def server_simps update_conv')

lemma wp_dbUnshareStringValue:
  assumes "ks_ok s" "map_of (db_dict (srv_db s d)) k = Some (StrObj v)"
    and "\<And>s'. step {(d, k)} s s' \<Longrightarrow> ks_ok s' \<Longrightarrow> map_of (db_dict (srv_db s' d)) k = Some (StrObj (ENC_RAW (content v))) \<Longrightarrow>
      db_expires (srv_db s' d) = db_expires (srv_db s d) \<Longrightarrow> P (s', content v)"
  shows "wp (dbUnshareStringValue d k (StrObj v) s) P"
proof (cases v)
  case (ENC_RAW x)
  then show ?thesis using assms by (simp add: dbUnshareStringValue_def)
next
  case (ENC_INT n)
  have ok: "val_ok (StrObj v)" using stored_ok [OF assms(1,2)] .
  then have "val_ok (StrObj (ENC_RAW (content v)))" by simp
  moreover have "getDecodedObject v = ENC_RAW (content v)" using getDecodedObject_content ok by simp
  ultimately show ?thesis using wp_dbOverwrite [of s d k "StrObj (ENC_RAW (content v))" "\<lambda>s. P (s, content v)"] assms ENC_INT
    by (simp add: dbUnshareStringValue_def)
qed

lemma sound_not_integer [simp]: "sound a b \<Longrightarrow> sound a (not_integer c b)"
  by (simp add: not_integer_def)

lemma sound_checkStringLength: "sound a b \<Longrightarrow> sound a (fst (checkStringLength c n b))"
  by (simp add: checkStringLength_def)

lemma checkStringLength_ok: "snd (checkStringLength c n s) \<Longrightarrow> fst (checkStringLength c n s) = s \<and> n \<le> int max_len"
  by (auto simp: checkStringLength_def split: if_splits)

text \<open>Replacing the value of one key, then the signal and the event for it.\<close>

lemma signal_notify_sound:
  assumes "sound s0 s" "step {(d, k)} s s'"
  shows "wp (Option.bind (notifyKeyspaceEvent t e k d (signalModifiedKey d k s')) (\<lambda>s. Some (addReply c r (incr_dirty 1 s)))) (sound s0)"
  unfolding wp_bind by (rule wp_notify_sound [OF sound_signal [OF assms]]) simp

text \<open>What \<open>SET\<close> stores: the value, and the expire time when there is one.\<close>

lemma wp_set_store:
  assumes s: "sound s0 s" and v: "val_ok (StrObj v)"
    and P: "\<And>s'. sound s0 s' \<Longrightarrow> step {(d, k)} s s' \<Longrightarrow> map_of (db_dict (srv_db s' d)) k = Some (StrObj v) \<Longrightarrow>
      map_of (db_expires (srv_db s' d)) k = map_option (\<lambda>ms. wrap64 (srv_mstime s + ms)) e \<Longrightarrow> P (addReply c r s')"
  shows "wp (set_store d k v e r c s) P"
  unfolding set_store_def wp_bind
proof (rule snd_setKey [OF s v], goal_cases)
  case (1 s1)
  let ?s1 = "incr_dirty 1 s1"
  let ?ok = "\<lambda>x. sound s0 x \<and> step {(d, k)} s x \<and> map_of (db_dict (srv_db x d)) k = Some (StrObj v) \<and>
    map_of (db_expires (srv_db x d)) k = map_option (\<lambda>ms. wrap64 (srv_mstime s + ms)) e"
  have s1: "sound s0 ?s1" "step {(d, k)} s ?s1" using 1(1) step_trans0(2) [OF 1(2) step_incr_dirty] by auto
  have m: "map_of (db_dict (srv_db ?s1 d)) k = Some (StrObj v)" "map_of (db_expires (srv_db ?s1 d)) k = None"
    "touched ?s1 d k"
    using 1(3,5,6) by (simp_all add: incr_dirty_def touched_def)
  have time: "srv_mstime ?s1 = srv_mstime s" using s1(2) by (simp add: step_def env_def)
  have e: "wp (case e of None \<Rightarrow> Some ?s1 | Some ms \<Rightarrow> setExpire d k (wrap64 (srv_mstime ?s1 + ms)) ?s1) ?ok"
  proof (cases e)
    case None
    then show ?thesis using s1 m by simp
  next
    case (Some ms)
    have "map_of (db_dict (srv_db ?s1 d)) k \<noteq> None" using m(1) by simp
    then have "wp (setExpire d k (wrap64 (srv_mstime ?s1 + ms)) ?s1) ?ok"
      by (rule wp_setExpire [OF _ sound_ks_ok [OF s1(1)]])
        (use m Some time sound_again [OF s1(1) _ m(3)] step2 [OF s1(2)] in simp_all)
    then show ?thesis using Some by simp
  qed
  have n: "wp (notifyKeyspaceEvent t n k d x) ?ok" if "?ok x" for t n x
    by (rule wp_notify [OF sound_ks_ok])
      (use that sound_then step_trans0(2) [of "{(d, k)}" s x] in auto)
  have fin: "wp (case e of None \<Rightarrow> Some x | Some _ \<Rightarrow> notifyKeyspaceEvent t n k d x) (\<lambda>x. P (addReply c r x))" if "?ok x" for t n x
    using that wp_mono [OF n [OF that]] P by (cases e) auto
  show ?case unfolding Let_def wp_bind wp_simps(1)
    by (rule wp_mono [OF e], rule wp_mono [OF n], assumption, rule fin)
qed

lemma setGenericCommand_sound:
  assumes s: "ks_ok s" and v: "val_ok (StrObj v)"
  shows "wp (setGenericCommand nx xx k v e u r1 r2 c s) (sound s)"
proof -
  have l: "wp (if b then map_option (\<lambda>(s, v). (s, f v)) (lookupKeyWrite d k x) else Some (x, b')) (\<lambda>(y, b). sound s y)"
    if "sound s x" for x b b' f d
    using snd_lookupKeyWrite [OF that, where P = "\<lambda>(y, _). sound s y"] that by (auto simp: case_prod_unfold)
  show ?thesis
  proof (cases "case e of None \<Rightarrow> Some 0 | Some e \<Rightarrow> getLongLongFromObject (Some (ENC_RAW e))")
    case None
    then show ?thesis using sound_refl [OF s] unfolding setGenericCommand_def Let_def None option.case by simp
  next
    case (Some ms)
    show ?thesis
    proof (cases "e \<noteq> None \<and> ms \<le> 0")
      case True
      show ?thesis unfolding setGenericCommand_def Let_def Some option.case if_P [OF True] using sound_refl [OF s] by simp
    next
      case False
      show ?thesis unfolding setGenericCommand_def Let_def Some option.case if_not_P [OF False] wp_bind
      proof (rule wp_mono [OF l [OF sound_refl [OF s]]], goal_cases)
        case (1 x)
        then have "sound s (fst x)" by (simp add: case_prod_unfold)
        then show ?case unfolding case_prod_unfold wp_bind
        proof (rule wp_mono [OF l [unfolded case_prod_unfold]], goal_cases)
          case (1 y)
          then show ?case using wp_set_store [OF _ v, where s = "fst y"] by simp
        qed
      qed
    qed
  qed
qed

lemma getGenericCommand_sound: "ks_ok s \<Longrightarrow> wp (getGenericCommand c s) (\<lambda>(s', b). sound s s')"
  unfolding getGenericCommand_def wp_bind
  by (rule snd_lookupKeyReadOrReply [OF sound_refl]) (auto split: option.splits)

lemma getCommand_sound: "ks_ok s \<Longrightarrow> wp (getCommand c s) (sound s)"
  unfolding getCommand_def wp_map_option by (rule wp_mono [OF getGenericCommand_sound]) auto

lemma getsetCommand_sound:
  assumes "ks_ok s" "length (argv c s 2) \<le> max_len"
  shows "wp (getsetCommand c s) (sound s)"
  unfolding getsetCommand_def Let_def wp_bind
proof (rule wp_mono [OF getGenericCommand_sound [OF assms(1)]], goal_cases)
  case (1 x)
  then have x: "sound s (fst x)" by (simp add: case_prod_unfold)
  show ?case using x
    by (auto simp: case_prod_unfold intro!: snd_setKey [OF x val_ok_encoded [OF assms(2)]] wp_notify_sound)
qed

lemma strlenCommand_sound: "ks_ok s \<Longrightarrow> wp (strlenCommand c s) (sound s)"
  unfolding strlenCommand_def wp_bind
  by (rule snd_lookupKeyReadOrReply [OF sound_refl]) (auto split: option.splits)

lemma getrangeCommand_sound: "ks_ok s \<Longrightarrow> wp (getrangeCommand c s) (sound s)"
  unfolding getrangeCommand_def
  by (auto split: option.splits simp: Let_def case_prod_unfold intro!: snd_lookupKeyReadOrReply [OF sound_refl] sound_not_integer sound_refl)

lemma mget_keys_sound: "sound s0 s \<Longrightarrow> wp (mget_keys c d ks s) (sound s0)"
proof (induction ks arbitrary: s)
  case (Cons k ks)
  show ?case unfolding mget_keys.simps Let_def wp_bind
    by (rule snd_lookupKeyRead [OF Cons.prems]) (simp add: Cons.IH)
qed simp

lemma mgetCommand_sound: "ks_ok s \<Longrightarrow> wp (mgetCommand c s) (sound s)"
  unfolding mgetCommand_def by (rule mget_keys_sound) (simp add: sound_refl)

lemma count_busy_sound: "sound s0 s \<Longrightarrow> wp (count_busy d av s) (\<lambda>(s', n). sound s0 s')"
proof (induction av arbitrary: s rule: induct_list012)
  case (3 k v rest)
  show ?case unfolding count_busy.simps wp_bind
    by (rule snd_lookupKeyWrite [OF 3(3)]) (auto intro!: wp_mono [OF 3(1)])
qed auto

lemma mset_pairs_sound: "sound s0 s \<Longrightarrow> \<forall>a \<in> set av. length a \<le> max_len \<Longrightarrow> wp (mset_pairs d av s) (sound s0)"
proof (induction av arbitrary: s rule: induct_list012)
  case (3 k v rest)
  have v: "length v \<le> max_len" using 3(4) by simp
  show ?case unfolding mset_pairs.simps wp_bind
    by (rule snd_setKey [OF 3(3) val_ok_encoded [OF v]], erule wp_notify_sound, rule 3(1)) (use 3(4) in simp_all)
qed auto

lemma msetGenericCommand_sound:
  assumes s: "ks_ok s" and a: "\<forall>a \<in> set (args c s). length a \<le> max_len"
  shows "wp (msetGenericCommand nx c s) (sound s)"
proof (cases "argc c s mod 2 = 0")
  case True
  then show ?thesis using sound_refl [OF s] by (simp add: msetGenericCommand_def Let_def)
next
  case False
  have b: "wp (if nx then count_busy d (args c s) s else Some (s, 0)) (\<lambda>(s', n). sound s s')" for d
    using count_busy_sound [OF sound_refl [OF s]] sound_refl [OF s] by simp
  show ?thesis unfolding msetGenericCommand_def Let_def if_not_P [OF False] wp_bind
  proof (rule wp_mono [OF b], goal_cases)
    case (1 x)
    then have x: "sound s (fst x)" by (simp add: case_prod_unfold)
    have n: "0 \<le> (int (argc c s) - 1) div 2" using False by (cases "argc c s") simp_all
    show ?case using x wp_mono [OF mset_pairs_sound [OF x a]] n by (auto simp: case_prod_unfold)
  qed
qed

text \<open>The end of the commands that build the new string in place.\<close>

lemma setrange_write_sound:
  assumes s: "sound s0 s" and st: "step {(d, k)} s s1" and m: "map_of (db_dict (srv_db s1 d)) k \<noteq> None"
    and l: "max (length old) (offset + length value) \<le> max_len"
  shows "wp (setrange_write d k offset value old c s1) (sound s0)"
proof -
  let ?v = "memcpy_at (grow_bytes old (offset + length value)) offset value"
  have "length ?v = max (length old) (offset + length value)" by (auto simp: memcpy_at_def grow_bytes_def)
  then have "step {(d, k)} s (write_ptr d k ?v s1)" using write_ptr_step(1) [OF m] step2 [OF st] l by simp
  then show ?thesis using signal_notify_sound [OF s] by (simp add: setrange_write_def Let_def)
qed

lemma setrangeCommand_sound:
  assumes s: "ks_ok s"
  shows "wp (setrangeCommand c s) (sound s)"
proof (cases "getLongFromObject (Some (ENC_RAW (argv c s 2)))")
  case None
  then show ?thesis using sound_refl [OF s] by (simp add: setrangeCommand_def)
next
  case (Some off)
  let ?d = "client_db c s" and ?k = "argv c s 1" and ?v = "argv c s 3"
  show ?thesis
  proof (cases "off < 0")
    case True
    then show ?thesis using Some sound_refl [OF s] by (simp add: setrangeCommand_def)
  next
    case False
    show ?thesis unfolding setrangeCommand_def Let_def Some option.case if_not_P [OF False] wp_bind
    proof (rule snd_lookupKeyWrite [OF sound_refl [OF s]], goal_cases)
      case (1 s1)
      note s1 = 1(1)
      let ?n = "off + int (length ?v)"
      have chk: "checkStringLength c ?n s1 = (if ?n \<le> int max_len then (s1, True)
          else (addReplyError c ''string exceeds maximum allowed size (512MB)'' s1, False))"
        by (simp add: checkStringLength_def)
      have new: "wp (Option.bind (dbAdd ?d ?k (StrObj (ENC_RAW [])) s1) (setrange_write ?d ?k (nat off) ?v [] c)) (sound s)"
        if "?n \<le> int max_len" "map_of (db_dict (srv_db s1 ?d)) ?k = None" unfolding wp_bind
        by (rule wp_dbAdd [OF that(2) _ sound_ks_ok [OF s1]]) (use that(1) False in \<open>auto intro!: setrange_write_sound [OF s1]\<close>)
      have old: "wp (Option.bind (dbUnshareStringValue ?d ?k (StrObj v) s1)
          (\<lambda>(s, old). setrange_write ?d ?k (nat off) ?v old c s)) (sound s)"
        if "?n \<le> int max_len" "map_of (db_dict (srv_db s1 ?d)) ?k = Some (StrObj v)" for v unfolding wp_bind
        by (rule wp_dbUnshareStringValue [OF sound_ks_ok [OF s1] that(2)])
          (use that False stored_ok [OF sound_ks_ok [OF s1] that(2)] in \<open>auto intro!: setrange_write_sound [OF s1]\<close>)
      show ?case
      proof (cases "map_of (db_dict (srv_db s1 ?d)) ?k")
        case None
        then show ?thesis using s1 new by (simp add: Let_def chk)
      next
        case (Some ob)
        show ?thesis
        proof (cases ob)
          case (StrObj v)
          then show ?thesis using s1 old [of v] Some by (simp add: Let_def chk)
        qed (use s1 Some in simp_all)
      qed
    qed
  qed
qed

lemma strtoll_range: "int64_range (fst (strtoll s))"
  by (auto simp: strtoll_def Let_def split: prod.splits)

lemma getLongLongFromObject_range:
  assumes "getLongLongFromObject x = Some v" "\<And>y. x = Some y \<Longrightarrow> obj_ok y"
  shows "int64_range v"
proof (cases x)
  case (Some y)
  show ?thesis
  proof (cases y)
    case (ENC_RAW b)
    then have "v = fst (strtoll (c_str b))" using assms(1) Some
      by (auto simp: getLongLongFromObject_def Let_def split: prod.splits if_splits)
    then show ?thesis using strtoll_range by simp
  next
    case (ENC_INT n)
    then show ?thesis using assms Some long_int64 by (simp add: getLongLongFromObject_def)
  qed
qed (use assms in \<open>simp add: getLongLongFromObject_def\<close>)

lemma would_overflow_iff:
  "int64_range a \<Longrightarrow> int64_range b \<Longrightarrow> would_overflow a b \<longleftrightarrow> \<not> int64_range (a + b)"
  by (auto simp: would_overflow_def)

lemma wrap64_id: "int64_range v \<Longrightarrow> wrap64 v = v"
  by (simp add: wrap64_def)

lemma last_reply [simp]: "last (c_reply (srv_client (addReply c r s) c)) = r"
  by (simp add: addReply_def server_simps)

lemma addReply_db [simp]: "srv_db (addReply c r s) = srv_db s" "srv_db (incr_dirty n s) = srv_db s"
  by (simp_all add: addReply_def incr_dirty_def server_simps)

lemma snd_lookupKeyWrite_eq:
  assumes "sound s0 s"
    and "\<And>s'. sound s0 s' \<Longrightarrow> step {} s s' \<Longrightarrow> lookupKeyWrite d k s = Some (s', map_of (db_dict (srv_db s' d)) k) \<Longrightarrow>
      P (s', map_of (db_dict (srv_db s' d)) k)"
  shows "wp (lookupKeyWrite d k s) P"
proof -
  have "wp (lookupKeyWrite d k s) (\<lambda>(s', ob). sound s0 s' \<and> step {} s s' \<and> ob = map_of (db_dict (srv_db s' d)) k)"
    by (rule snd_lookupKeyWrite [OF assms(1)]) simp
  then show ?thesis using assms(2) by (auto simp: wp_def)
qed

text \<open>\<open>INCR\<close> and its relatives on a key without a value or with a string, in every case.\<close>

definition counter :: "robj option \<Rightarrow> int option" where
  "counter ob = (case ob of None \<Rightarrow> Some 0 | Some val \<Rightarrow> Option.bind (as_string val) (\<lambda>v. getLongLongFromObject (Some v)))"

lemma wp_incrDecrCommand:
  assumes s: "ks_ok s" and i: "int64_range incr" and d: "d = client_db c s" and k: "k = argv c s 1"
    and good: "\<And>s1 s2 old. lookupKeyWrite d k s = Some (s1, map_of (db_dict (srv_db s1 d)) k) \<Longrightarrow> step {} s s1 \<Longrightarrow> counter (map_of (db_dict (srv_db s1 d)) k) = Some old \<Longrightarrow> int64_range (old + incr) \<Longrightarrow>
      sound s s2 \<Longrightarrow> step {(d, k)} s1 s2 \<Longrightarrow> db_expires (srv_db s2 d) = db_expires (srv_db s1 d) \<Longrightarrow>
      map_of (db_dict (srv_db s2 d)) k = Some (StrObj (createStringObjectFromLongLong (old + incr))) \<Longrightarrow>
      P (addReply c (Integer (old + incr)) s2)"
    and bad: "\<And>s1 r. lookupKeyWrite d k s = Some (s1, map_of (db_dict (srv_db s1 d)) k) \<Longrightarrow> step {} s s1 \<Longrightarrow> sound s s1 \<Longrightarrow>
      (\<forall>old. counter (map_of (db_dict (srv_db s1 d)) k) = Some old \<longrightarrow> \<not> int64_range (old + incr)) \<Longrightarrow> P (addReply c (Error r) s1)"
  shows "wp (incrDecrCommand incr c s) P"
  unfolding incrDecrCommand_def Let_def d [symmetric] k [symmetric] wp_bind
proof (rule snd_lookupKeyWrite_eq [OF sound_refl [OF s]], goal_cases)
  case (1 s1)
  let ?ob = "map_of (db_dict (srv_db s1 d)) k"
  have ks: "ks_ok s1" by (rule sound_ks_ok [OF 1(1)])
  show ?case
  proof (cases "case ?ob of None \<Rightarrow> False | Some val \<Rightarrow> as_string val = None")
    case True
    then have "counter ?ob = None" by (auto simp: counter_def split: option.splits)
    then show ?thesis using True bad [OF 1(3,2,1)] by simp
  next
    case False
    have c: "getLongLongFromObject (Option.bind ?ob as_string) = counter ?ob"
      using False by (auto simp: counter_def getLongLongFromObject_def [of None] split: option.splits)
    show ?thesis
    proof (cases "counter ?ob")
      case None
      then show ?thesis using False c bad [OF 1(3,2,1)] by (simp add: not_integer_def addReplyError_def)
    next
      case (Some old)
      have ok: "Option.bind ?ob as_string = Some y \<Longrightarrow> obj_ok y" for y
        using stored_ok [OF ks, of d k] by (cases ?ob; simp; case_tac a; simp)
      have old: "int64_range old" by (rule getLongLongFromObject_range [OF _ ok]) (use c Some in auto)
      show ?thesis
      proof (cases "would_overflow old incr")
        case True
        then have "\<not> int64_range (old + incr)" using would_overflow_iff [OF old i] by simp
        then show ?thesis using False c Some True bad [OF 1(3,2,1)] by (simp add: addReplyError_def)
      next
        case ok: False
        then have r: "int64_range (old + incr)" using would_overflow_iff [OF old i] by simp
        let ?new = "StrObj (createStringObjectFromLongLong (old + incr))"
        have fin: "wp (Option.bind (notifyKeyspaceEvent t e k d (signalModifiedKey d k s2)) (\<lambda>s. Some (addReply c (Integer (old + incr)) (incr_dirty 1 s)))) P"
          if "step {(d, k)} s1 s2" "map_of (db_dict (srv_db s2 d)) k = Some ?new" "db_expires (srv_db s2 d) = db_expires (srv_db s1 d)" for s2 t e
        proof -
          have sg: "sound s (signalModifiedKey d k s2)" "step {(d, k)} s1 (signalModifiedKey d k s2)"
            using sound_signal [OF 1(1) that(1)] step_trans0(2) [OF that(1) signalModifiedKey_step(1)] by auto
          note lk = 1(3,2)
          show ?thesis unfolding wp_bind
          proof (rule wp_notify [OF sound_ks_ok [OF sg(1)]], goal_cases)
            case (1 s3)
            have a: "sound s (incr_dirty 1 s3)" using sound_then [OF sg(1) 1(1)] by simp
            have b: "step {(d, k)} s1 (incr_dirty 1 s3)" using step_trans0(2) [OF step_trans0(2) [OF sg(2) 1(1)] step_incr_dirty] by simp
            show ?case unfolding wp_simps
              by (rule good [OF lk Some r a b]) (use that(2,3) 1(3) in \<open>simp_all add: signalModifiedKey_step(3)\<close>)
          qed
        qed
        have w: "wp (if ?ob \<noteq> None then dbOverwrite d k ?new s1 else dbAdd d k ?new s1)
          (\<lambda>s2. step {(d, k)} s1 s2 \<and> map_of (db_dict (srv_db s2 d)) k = Some ?new \<and> db_expires (srv_db s2 d) = db_expires (srv_db s1 d))"
          using wp_dbAdd [OF _ val_ok_integer [OF r] ks, of d k] wp_dbOverwrite [OF _ val_ok_integer [OF r] ks, of d k] by auto
        show ?thesis unfolding prod.case if_not_P [OF False] c Some option.case if_not_P [OF ok] wrap64_id [OF r] wp_bind
          by (rule wp_mono [OF w]) (use fin in auto)
      qed
    qed
  qed
qed

lemma incrDecrCommand_sound: "ks_ok s \<Longrightarrow> int64_range incr \<Longrightarrow> wp (incrDecrCommand incr c s) (sound s)"
  by (rule wp_incrDecrCommand [OF _ _ refl refl]) auto

lemma append_done_sound:
  "sound s0 s \<Longrightarrow> step {(d, k)} s s1 \<Longrightarrow> wp (append_done d k n c s1) (sound s0)"
  using signal_notify_sound by (simp add: append_done_def Let_def)

lemma appendCommand_sound:
  assumes s: "ks_ok s" and a: "length (argv c s 2) \<le> max_len"
  shows "wp (appendCommand c s) (sound s)"
  unfolding appendCommand_def Let_def wp_bind
proof (rule snd_lookupKeyWrite [OF sound_refl [OF s]], goal_cases)
  case (1 s1)
  note s1 = 1(1) and ks = sound_ks_ok [OF 1(1)]
  let ?d = "client_db c s" and ?k = "argv c s 1" and ?v = "argv c s 2"
  show ?case
  proof (cases "map_of (db_dict (srv_db s1 ?d)) ?k")
    case None
    then show ?thesis using append_done_sound [OF s1] wp_dbAdd [OF None val_ok_encoded [OF a] ks] by simp
  next
    case (Some ob)
    show ?thesis
    proof (cases ob)
      case (StrObj v)
      let ?n = "int (stringObjectLen v) + int (length ?v)"
      have m: "map_of (db_dict (srv_db s1 ?d)) ?k = Some (StrObj v)" using Some StrObj by simp
      have len: "stringObjectLen v = length (content v)" using stored_ok [OF ks m] stringObjectLen_content by simp
      have chk: "checkStringLength c ?n s1 = (if ?n \<le> int max_len then (s1, True)
          else (addReplyError c ''string exceeds maximum allowed size (512MB)'' s1, False))"
        by (simp add: checkStringLength_def)
      have w: "wp (dbUnshareStringValue ?d ?k (StrObj v) s1)
          (\<lambda>(s2, old). wp (append_done ?d ?k (length (old @ ?v)) c (write_ptr ?d ?k (old @ ?v) s2)) (sound s))"
        if n: "?n \<le> int max_len"
      proof (rule wp_dbUnshareStringValue [OF ks m], goal_cases)
        case (1 s2)
        have w: "map_of (db_dict (srv_db s2 ?d)) ?k \<noteq> None" "length (content v @ ?v) \<le> max_len" using 1(3) n len by auto
        show ?case using append_done_sound [OF s1 step2 [OF 1(1) write_ptr_step(1) [OF w]]] by simp
      qed
      show ?thesis using s1 Some StrObj w by (cases "?n \<le> int max_len") (auto simp: chk elim!: wp_mono)
    qed (use s1 Some in simp_all)
  qed
qed

lemma string_commands_sound:
  assumes "ks_ok s" "(name, arity, sflags, cmd) \<in> set string_commands" "arity_ok arity (argc c s)"
    and "\<forall>a \<in> set (c_argv (srv_client s c)). length a \<le> 536870912"
  shows "wp (cmd c s) (sound s)"
proof -
  have a: "length (argv c s i) \<le> max_len" if "i < argc c s" for i using assms(4) nth_mem [OF that] by simp
  have b: "\<forall>a \<in> set (args c s). length a \<le> max_len" using assms(4) by (cases "c_argv (srv_client s c)") (auto simp: args_def)
  have i: "int64_range v" if "getLongLongFromObject (Some (ENC_RAW x)) = Some v" for v x
    using getLongLongFromObject_range [OF that] by simp
  show ?thesis
    using assms(2,3) getCommand_sound [OF assms(1)] strlenCommand_sound [OF assms(1)] setrangeCommand_sound [OF assms(1)]
      getrangeCommand_sound [OF assms(1)] incrDecrCommand_sound [OF assms(1)] mgetCommand_sound [OF assms(1)]
      msetGenericCommand_sound [OF assms(1) b] getsetCommand_sound [OF assms(1) a] appendCommand_sound [OF assms(1) a]
      setGenericCommand_sound [OF assms(1) val_ok_encoded [OF a]] sound_refl [OF assms(1)] i wrap64_range
    unfolding string_entries
    by (auto simp: arity_ok_def setCommand_def setnxCommand_def setexCommand_def psetexCommand_def incrCommand_def decrCommand_def
        incrbyCommand_def decrbyCommand_def msetCommand_def msetnxCommand_def split: option.splits)
qed

text \<open>
  C7. The commands on strings keep the key space well formed: no assertion fails, an encoded integer fits
  \<open>long\<close>, no string grows beyond 512 MB, and every key whose visible value changed has marked the clients
  that watch it.
\<close>

theorem string_commands_signal:
  assumes "ks_ok s" "(name, arity, sflags, cmd) \<in> set string_commands" "arity_ok arity (argc c s)"
    and "\<forall>a \<in> set (c_argv (srv_client s c)). length a \<le> 536870912"
  shows "\<exists>s'. cmd c s = Some s' \<and> ks_ok s' \<and> (\<forall>d k. live s' d k \<noteq> live s d k \<longrightarrow> touched s' d k)"
  using string_commands_sound [OF assms] safe_touched by (auto simp: wp_def sound_def)

theorem string_commands_signal_witness:
  "\<exists>s'. appendCommand 1 (demo_server [''append'', ''a'', ''xyz'']) = Some s' \<and> ks_ok s'"
  using string_commands_signal [of "demo_server [''append'', ''a'', ''xyz'']" "''append''" 3 "''wm''" appendCommand 1]
  by (auto simp: string_entries arity_ok_def)

section \<open>Reading back\<close>

lemma lookupKeyReadOrReply_live:
  assumes "ks_ok s" "live s (client_db c s) k = Some v"
  shows "\<exists>s'. lookupKeyReadOrReply c k r s = Some (s', Some v)"
proof -
  have ne: "\<not> expired s (client_db c s) k" "map_of (db_dict (srv_db s (client_db c s))) k = Some v"
    using assms(2) by (auto simp: live_def split: if_splits)
  then show ?thesis using expireIfNeeded_id [OF assms(1) ne(1)]
    by (simp add: lookupKeyReadOrReply_def lookupKeyRead_def lookupKey_def)
qed

lemma getCommand_live:
  assumes "ks_ok s" "live s (client_db c s) (argv c s 1) = Some (StrObj v)"
  shows "\<exists>s'. getCommand c s = Some s' \<and> last (c_reply (srv_client s' c)) = Bulk (content v)"
proof -
  obtain s' where "lookupKeyReadOrReply c (argv c s 1) NullBulk s = Some (s', Some (StrObj v))"
    using lookupKeyReadOrReply_live [OF assms] by blast
  then show ?thesis by (simp add: getCommand_def getGenericCommand_def)
qed

lemma ks_ok_argv: "ks_ok (upd_client c (\<lambda>x. x\<lparr>c_argv := av\<rparr>) s) = ks_ok s"
  by (simp add: ks_ok_def pats_safe_def server_simps)

lemma live_argv: "live (upd_client c (\<lambda>x. x\<lparr>c_argv := av\<rparr>) s) = live s"
  by (intro ext live_same_db) (simp_all add: env_def server_simps)

text \<open>
  C10. What \<open>SET\<close> stores, \<open>GET\<close> reads: after \<open>SET\<close> without options, from any well-formed state and whatever the
  key held before, \<open>GET\<close> answers exactly the bytes given, also when they were encoded as an integer.
\<close>

theorem set_then_get:
  assumes "ks_ok s" "c_argv (srv_client s c) = [w, k, v]" "length v \<le> 536870912"
  shows "\<exists>s1 s2. setCommand c s = Some s1 \<and> last (c_reply (srv_client s1 c)) = shared_ok \<and>
     getCommand c (upd_client c (\<lambda>x. x\<lparr>c_argv := [g, k]\<rparr>) s1) = Some s2 \<and> last (c_reply (srv_client s2 c)) = Bulk v"
proof -
  let ?v = "tryObjectEncoding (ENC_RAW v)" and ?d = "client_db c s"
  have "wp (set_store ?d k ?v None shared_ok c s) (\<lambda>s1. ks_ok s1 \<and> live s1 ?d k = Some (StrObj ?v) \<and> client_db c s1 = ?d \<and>
    last (c_reply (srv_client s1 c)) = shared_ok)"
  proof (rule wp_set_store [OF sound_refl [OF assms(1)] val_ok_encoded [OF assms(3)]], goal_cases)
    case (1 s1)
    then have "client_db c s1 = ?d" by (simp add: step_def env_def)
    then show ?case using 1(3,4) sound_ks_ok [OF sound_hooks(1) [OF 1(1)]]
      by (simp add: live_def expired_def) (simp add: addReply_def server_simps)
  qed
  then obtain s1 where s1: "set_store ?d k ?v None shared_ok c s = Some s1" "ks_ok s1" "live s1 ?d k = Some (StrObj ?v)"
    "client_db c s1 = ?d" "last (c_reply (srv_client s1 c)) = shared_ok" by (auto simp: wp_def)
  have "setCommand c s = Some s1" using s1(1) assms(2) by (simp add: setCommand_def setGenericCommand_def)
  moreover have "content ?v = v" using tryObjectEncoding_content [of "ENC_RAW v"] by simp
  ultimately show ?thesis
    using s1 getCommand_live [of "upd_client c (\<lambda>x. x\<lparr>c_argv := [g, k]\<rparr>) s1" c ?v]
    by (simp add: ks_ok_argv live_argv) (simp add: server_simps)
qed

theorem set_then_get_witness:
  "\<exists>s1 s2. setCommand 1 (demo_server [''set'', ''b'', ''42'']) = Some s1 \<and>
     getCommand 1 (upd_client 1 (\<lambda>x. x\<lparr>c_argv := [str ''get'', str ''b'']\<rparr>) s1) = Some s2 \<and>
     last (c_reply (srv_client s2 1)) = Bulk (str ''42'')"
  using set_then_get [of "demo_server [''set'', ''b'', ''42'']" 1 "str ''set''" "str ''b''" "str ''42''" "str ''get''"] by auto

section \<open>Counting\<close>

text \<open>What adding \<open>n\<close> to the counter of a client's key does: an error that changes no key, or the exact sum.\<close>

definition refused :: "nat \<Rightarrow> server \<Rightarrow> server \<Rightarrow> bool" where
  "refused c s s' \<longleftrightarrow> (\<exists>e. last (c_reply (srv_client s' c)) = Error e) \<and> live s' = live s"

definition counted :: "int \<Rightarrow> nat \<Rightarrow> server \<Rightarrow> server \<Rightarrow> bool" where
  "counted n c s s' \<longleftrightarrow>
    (let d = client_db c s; k = argv c s 1 in
     case counter (live s d k) of
       Some old \<Rightarrow> if int64_range (old + n)
         then last (c_reply (srv_client s' c)) = Integer (old + n) \<and>
           (\<exists>v. map_of (db_dict (srv_db s' d)) k = Some (StrObj v) \<and> content v = decimal (old + n)) \<and>
           (live s d k \<noteq> None \<longrightarrow> map_of (db_expires (srv_db s' d)) k = map_of (db_expires (srv_db s d)) k) \<and>
           (\<forall>i x. (i, x) \<noteq> (d, k) \<longrightarrow> live s' i x = live s i x)
         else refused c s s'
     | None \<Rightarrow> refused c s s')"

lemma incr_spec:
  assumes "ks_ok s" "\<not> srv_masterhost s" "int64_range n"
  shows "\<exists>s'. incrDecrCommand n c s = Some s' \<and> counted n c s s'"
proof -
  define d k where dk: "d = client_db c s" "k = argv c s 1"
  have look: "map_of (db_dict (srv_db s1 d)) k = live s d k \<and> (live s d k \<noteq> None \<longrightarrow> s1 = s)"
    if "lookupKeyWrite d k s = Some (s1, ob)" for s1 ob
  proof (cases "expired s d k")
    case True
    then have "live s d k = None" by (simp add: live_def)
    moreover have "wp (lookupKeyWrite d k s) (\<lambda>(s1, ob). map_of (db_dict (srv_db s1 d)) k = live s d k)"
      by (rule wp_lookupKeyWrite_live [OF sound_refl [OF assms(1)] assms(2)]) simp
    ultimately show ?thesis using that by simp
  next
    case False
    then show ?thesis using that lookupKeyWrite_id [OF assms(1) False] by (auto simp: live_def)
  qed
  have same: "live (addReply c r s1) = live s" if "step {} s s1" for r s1
    using step_trans0(1) [OF that step_addReply [of s1 c r]] by (intro ext) (simp add: step_def)
  have "wp (incrDecrCommand n c s) (counted n c s)"
  proof (rule wp_incrDecrCommand [OF assms(1,3) dk], goal_cases)
    case (1 s1 s2 old)
    have "live (addReply c r s2) i x = live s i x" if "(i, x) \<noteq> (d, k)" for r i x
      using step_trans0(2) [OF step_trans0(1) [OF 1(2,6)] step_addReply] that by (auto simp: step_def)
    then show ?case unfolding counted_def Let_def dk [symmetric]
      using 1 look [OF 1(1)] createStringObjectFromLongLong_content [OF 1(4)] by auto
  next
    case (2 s1 r)
    then show ?case unfolding counted_def refused_def Let_def dk [symmetric]
      using look [OF 2(1)] same [OF 2(2)] by (auto split: option.split)
  qed
  then show ?thesis by (rule wpD)
qed

lemma not_integer_refused: "refused c s (not_integer c s)"
proof -
  have "step {} s (not_integer c s)" by (simp add: not_integer_def)
  then have "live (not_integer c s) = live s" by (intro ext) (simp add: step_def)
  then show ?thesis by (simp add: refused_def not_integer_def addReplyError_def)
qed

text \<open>
  C9. Counters on a master: when the key holds no value, or a string that is an integer, and the sum is a
  64-bit integer, \<open>INCR\<close>, \<open>DECR\<close>, \<open>INCRBY\<close> and \<open>DECRBY\<close> answer the sum, store its decimal text, keep the expire time and
  leave every other key alone; when the value or the argument is not an integer or the sum does not fit, they answer an
  error and no key changes. One case is different: \<open>DECRBY\<close> with the smallest integer, which has no negation in 64 bits, adds it
  instead of subtracting it.
\<close>

theorem incr_correct:
  assumes "ks_ok s" "\<not> srv_masterhost s"
  shows "(\<exists>s'. incrCommand c s = Some s' \<and> counted 1 c s s') \<and>
    (\<exists>s'. decrCommand c s = Some s' \<and> counted (- 1) c s s') \<and>
    (\<exists>s'. incrbyCommand c s = Some s' \<and> (case getLongLongFromObject (Some (ENC_RAW (argv c s 2))) of
        None \<Rightarrow> refused c s s' | Some n \<Rightarrow> counted n c s s')) \<and>
    (\<exists>s'. decrbyCommand c s = Some s' \<and> (case getLongLongFromObject (Some (ENC_RAW (argv c s 2))) of
        None \<Rightarrow> refused c s s' | Some n \<Rightarrow> counted (if n = LLONG_MIN then LLONG_MIN else - n) c s s'))"
proof -
  note spec = incr_spec [OF assms]
  have range: "int64_range n" if "getLongLongFromObject (Some (ENC_RAW (argv c s 2))) = Some n" for n
    using getLongLongFromObject_range [OF that] by simp
  have neg: "wrap64 (- n) = (if n = LLONG_MIN then LLONG_MIN else - n)" "int64_range (wrap64 (- n))" if "int64_range n" for n
    using that wrap64_id [of "- n"] by (auto simp: wrap64_def)
  show ?thesis
    using spec [of 1 c] spec [of "- 1" c] spec [OF range] spec [OF neg(2) [OF range]] neg(1) [OF range] not_integer_refused [of c s]
    by (auto simp: incrCommand_def decrCommand_def incrbyCommand_def decrbyCommand_def split: option.split)
qed

theorem incr_correct_witness:
  "(\<exists>s'. incrbyCommand 1 (demo_server [''incrby'', ''a'', ''41'']) = Some s' \<and> last (c_reply (srv_client s' 1)) = Integer 42) \<and>
   (\<exists>s'. incrbyCommand 1 (demo_server [''incrby'', ''a'', ''9223372036854775807'']) = Some s' \<and>
     (\<exists>e. last (c_reply (srv_client s' 1)) = Error e))"
proof -
  have "decimal 9223372036854775807 = str ''9223372036854775807''" by (simp add: decimal_def dec_step dchar_def)
  then have m: "getLongLongFromObject (Some (ENC_RAW (str ''9223372036854775807''))) = Some 9223372036854775807"
    using getLongLong_decimal [of 9223372036854775807] by simp
  have n: "getLongLongFromObject (Some (ENC_RAW (str ''41''))) = Some 41" "counter (Some (StrObj (ENC_RAW (str ''1'')))) = Some 1"
    by code_simp+
  let ?a = "demo_server [''incrby'', ''a'', ''41'']" and ?b = "demo_server [''incrby'', ''a'', ''9223372036854775807'']"
  have args: "argv 1 ?a 2 = str ''41''" "argv 1 ?b 2 = str ''9223372036854775807''" "argv 1 ?a 1 = str ''a''" "argv 1 ?b 1 = str ''a''"
    "client_db 1 ?a = 0" "client_db 1 ?b = 0" by (simp_all add: demo_env)
  have l: "live ?a 0 (str ''a'') = Some (StrObj (ENC_RAW (str ''1'')))" "live ?b 0 (str ''a'') = Some (StrObj (ENC_RAW (str ''1'')))" by simp_all
  note a = incr_correct [of "demo_server av" 1 for av, OF demo_ok(1) demo_env(1), THEN conjunct2, THEN conjunct2, THEN conjunct1]
  obtain s1 where "incrbyCommand 1 ?a = Some s1" "counted 41 1 ?a s1" using a [of "[''incrby'', ''a'', ''41'']"] unfolding args m n by auto
  moreover obtain s2 where "incrbyCommand 1 ?b = Some s2" "counted 9223372036854775807 1 ?b s2"
    using a [of "[''incrby'', ''a'', ''9223372036854775807'']"] unfolding args m n by auto
  ultimately show ?thesis unfolding counted_def refused_def Let_def args l n by auto
qed

section \<open>Ranges\<close>

lemma nths_cong_length: "(\<And>i. i < length xs \<Longrightarrow> i \<in> A \<longleftrightarrow> i \<in> B) \<Longrightarrow> nths xs A = nths xs B"
  unfolding nths_def by (rule arg_cong [of _ _ "map fst"], rule filter_cong) (auto simp: in_set_zip)

lemma take_drop_nths: "take n (drop m xs) = nths xs {i. m \<le> i \<and> i < m + n}"
proof -
  have "(+) m ` {0..<n} = {m..<m + n}" by (simp add: add.commute)
  also have "\<dots> = {i. m \<le> i \<and> i < m + n}" by auto
  finally have "(+) m ` {..<n} = {i. m \<le> i \<and> i < m + n}" by (simp add: lessThan_atLeast0)
  then show ?thesis by (simp add: nths_drop flip: nths_upt_eq_take)
qed

text \<open>The range with the negative indices counted from the end, both ends cut at 0.\<close>

definition from_end :: "nat \<Rightarrow> int \<Rightarrow> int" where
  "from_end len i = max 0 (if i < 0 then int len + i else i)"

lemma getrange_nths:
  assumes "getrange_bounds (int (length st)) a b = (x, y)"
  shows "(if x > y \<or> int (length st) = 0 then [] else take (nat (y - x + 1)) (drop (nat x) st)) =
    nths st {i. from_end (length st) a \<le> int i \<and> int i \<le> from_end (length st) b}"
proof (cases "st = []")
  case False
  have x: "x = from_end (length st) a" and y: "y = min (int (length st) - 1) (from_end (length st) b)"
    using assms by (auto simp: getrange_bounds_def from_end_def Let_def split: if_splits)
  have l: "int (length st) \<noteq> 0" using False by simp
  show ?thesis
  proof (cases "x > y")
    case True
    then have "nths st {i. from_end (length st) a \<le> int i \<and> int i \<le> from_end (length st) b} = nths st {}"
      unfolding x y by (intro nths_cong_length) auto
    then show ?thesis using True by simp
  next
    case le: False
    have "0 \<le> x" by (simp add: x from_end_def)
    then have "nths st {i. nat x \<le> i \<and> i < nat x + nat (y - x + 1)} =
      nths st {i. from_end (length st) a \<le> int i \<and> int i \<le> from_end (length st) b}"
      using le unfolding x y by (intro nths_cong_length) auto
    then show ?thesis using le l by (simp add: take_drop_nths)
  qed
qed simp

text \<open>
  \<open>GETRANGE\<close> answers exactly the bytes whose index lies in the range, with negative indices counted
  from the end of the string and any 64-bit integers as bounds.
\<close>

theorem getrange_slice:
  assumes "ks_ok s" "live s (client_db c s) (argv c s 1) = Some (StrObj v)"
    and "getLongLongFromObject (Some (ENC_RAW (argv c s 2))) = Some a" "getLongLongFromObject (Some (ENC_RAW (argv c s 3))) = Some b"
  shows "\<exists>s'. getrangeCommand c s = Some s' \<and> last (c_reply (srv_client s' c)) =
    Bulk (nths (content v) {i. from_end (length (content v)) a \<le> int i \<and> int i \<le> from_end (length (content v)) b})"
proof -
  obtain s1 where s1: "lookupKeyReadOrReply c (argv c s 1) shared_emptybulk s = Some (s1, Some (StrObj v))"
    using lookupKeyReadOrReply_live [OF assms(1,2)] by blast
  obtain x y where xy: "getrange_bounds (int (length (content v))) a b = (x, y)" by fastforce
  have "getrangeCommand c s = Some (addReply c (Bulk (if x > y \<or> int (length (content v)) = 0 then []
      else take (nat (y - x + 1)) (drop (nat x) (content v)))) s1)"
    unfolding getrangeCommand_def assms(3,4) s1 option.case prod.case Option.bind.simps as_string.simps Let_def xy by simp
  then show ?thesis unfolding getrange_nths [OF xy] by simp
qed

theorem getrange_slice_witness:
  "\<exists>s'. getrangeCommand 1 (demo_server [''getrange'', ''a'', ''-1'', ''5'']) = Some s' \<and>
     last (c_reply (srv_client s' 1)) = Bulk (nths (str ''1'') {i. 0 \<le> int i \<and> int i \<le> 5})"
proof -
  have "getLongLongFromObject (Some (ENC_RAW (str ''-1''))) = Some (- 1)" "getLongLongFromObject (Some (ENC_RAW (str ''5''))) = Some 5"
    by code_simp+
  then show ?thesis
    using getrange_slice [of "demo_server [''getrange'', ''a'', ''-1'', ''5'']" 1 "ENC_RAW (str ''1'')" "- 1" 5]
    by (auto simp: from_end_def)
qed

section \<open>Overflowing times\<close>

text \<open>
  The product with 1000 is not checked: the largest number of seconds becomes -1000 milliseconds, and the key that
  \<open>SETEX\<close> has just answered \<open>OK\<close> for is already gone.
\<close>

lemma setex_overflow:
  assumes "ks_ok s" "c_argv (srv_client s c) = [w, k, e, v]" "length v \<le> max_len"
    and "getLongLongFromObject (Some (ENC_RAW e)) = Some LLONG_MAX" "1000 \<le> srv_mstime s" "srv_mstime s \<le> LLONG_MAX"
    and "\<not> srv_loading s" "\<not> srv_lua_caller s"
  shows "\<exists>s'. setexCommand c s = Some s' \<and> last (c_reply (srv_client s' c)) = shared_ok \<and> live s' (client_db c s) k = None"
proof -
  let ?v = "tryObjectEncoding (ENC_RAW v)" and ?d = "client_db c s"
  have m: "wrap64 (LLONG_MAX * 1000) = - 1000" by (simp add: wrap64_def)
  have "wrap64 (srv_mstime s - 1000) = srv_mstime s - 1000" by (rule wrap64_id) (use assms(5,6) in simp)
  then have e: "wrap64 (srv_mstime s + - 1000) = srv_mstime s - 1000" by simp
  have "wp (set_store ?d k ?v (Some (- 1000)) shared_ok c s) (\<lambda>s1. live s1 ?d k = None \<and> last (c_reply (srv_client s1 c)) = shared_ok)"
  proof (rule wp_set_store [OF sound_refl [OF assms(1)] val_ok_encoded [OF assms(3)]], goal_cases)
    case (1 s1)
    let ?s1 = "addReply c shared_ok s1"
    have ev: "env s ?s1" using step_trans0(2) [OF 1(2) step_addReply] by (simp add: step_def)
    have "map_of (db_expires (srv_db ?s1 ?d)) k = Some (srv_mstime s - 1000)" using 1(4) e by simp
    then have "expired ?s1 ?d k" using assms(5,7,8) unfolding expired_env [OF ev] by (simp add: now_def)
    then show ?case by (simp add: live_def)
  qed
  then show ?thesis using assms(2,4) m by (auto simp: wp_def setexCommand_def setGenericCommand_def)
qed

end
