(* ===== verification/Multi.thy ===== *)
theory Multi
  imports T_String
begin

text \<open>
  \<^verbatim>\<open>redis-2.8/src/multi.c\<close> and \<open>call\<close> of \<^verbatim>\<open>redis.c\<close>: transactions and optimistic locking.

  The command table is a partial function from names to entries; a client refers to its
  command by name. \<open>EXEC\<close> runs commands of the table it is given, which never holds the four
  commands \<open>processCommand\<close> does not queue. The feed of \<open>MONITOR\<close> clients, the slow log, the
  statistics of \<open>call\<close> and its two branches for Lua are not modelled, and no modelled command
  uses \<open>alsoPropagate\<close>. Handing the argument vectors back to the queue, which only serves to
  free them, has no counterpart.
\<close>

section \<open>Commands and calls\<close>

record redisCommand =
  cmd_name :: string
  cmd_arity :: int
  cmd_sflags :: string
  cmd_proc :: "nat \<Rightarrow> server \<Rightarrow> server option"

type_synonym command_table = "string \<Rightarrow> redisCommand option"

definition is_readonly :: "redisCommand \<Rightarrow> bool" where
  "is_readonly cmd \<longleftrightarrow> CHR ''r'' \<in> set (cmd_sflags cmd)"

definition is_write :: "redisCommand \<Rightarrow> bool" where
  "is_write cmd \<longleftrightarrow> CHR ''w'' \<in> set (cmd_sflags cmd)"

definition call :: "redisCommand \<Rightarrow> nat \<Rightarrow> server \<Rightarrow> server option" where
  "call cmd c s = do {
     let old = srv_client s c;
     let s0 = upd_client c (\<lambda>x. x\<lparr>c_force_aof := False, c_force_repl := False\<rparr>) s;
     s \<leftarrow> cmd_proc cmd c s0;
     let dirty = max 0 (srv_dirty s - srv_dirty s0);
     let to_aof = (c_force_aof (srv_client s c) \<or> dirty \<noteq> 0);
     let to_repl = (c_force_repl (srv_client s c) \<or> dirty \<noteq> 0);
     let s = (if to_aof \<or> to_repl then propagate (client_db c s) (c_argv (srv_client s c)) to_aof to_repl s else s);
     Some (upd_client c (\<lambda>x. x\<lparr>c_force_aof := c_force_aof old, c_force_repl := c_force_repl old\<rparr>) s)
   }"

section \<open>Watching keys\<close>

definition watchForKey :: "nat \<Rightarrow> bytes \<Rightarrow> server \<Rightarrow> server" where
  "watchForKey c key s =
     (let db = client_db c s in
      if (db, key) \<in> set (c_watched_keys (srv_client s c)) then s
      else
        let s = upd_db db (\<lambda>d. d\<lparr>db_watched_keys := idx_add (db_watched_keys d) key c\<rparr>) s
        in upd_client c (\<lambda>x. x\<lparr>c_watched_keys := c_watched_keys x @ [(db, key)]\<rparr>) s)"

fun unwatch_loop :: "nat \<Rightarrow> (nat \<times> bytes) list \<Rightarrow> server \<Rightarrow> server option" where
  "unwatch_loop c [] s = Some s"
| "unwatch_loop c ((db, key) # wks) s = do {
     ws \<leftarrow> idx_del (db_watched_keys (srv_db s db)) key c;
     let s = upd_db db (\<lambda>d. d\<lparr>db_watched_keys := ws\<rparr>) s;
     let s = upd_client c (\<lambda>x. x\<lparr>c_watched_keys := remove1 (db, key) (c_watched_keys x)\<rparr>) s;
     unwatch_loop c wks s
   }"

definition unwatchAllKeys :: "nat \<Rightarrow> server \<Rightarrow> server option" where
  "unwatchAllKeys c s = unwatch_loop c (c_watched_keys (srv_client s c)) s"

definition watchCommand :: "nat \<Rightarrow> server \<Rightarrow> server option" where
  "watchCommand c s =
     (if c_multi (srv_client s c) then Some (addReplyError c ''WATCH inside MULTI is not allowed'' s)
      else Some (addReply c shared_ok (fold (watchForKey c) (args c s) s)))"

definition unwatchCommand :: "nat \<Rightarrow> server \<Rightarrow> server option" where
  "unwatchCommand c s = do {
     s \<leftarrow> unwatchAllKeys c s;
     Some (addReply c shared_ok (upd_client c (\<lambda>x. x\<lparr>c_dirty_cas := False\<rparr>) s))
   }"

section \<open>Transactions\<close>

definition initClientMultiState :: "nat \<Rightarrow> server \<Rightarrow> server" where
  "initClientMultiState c = upd_client c (\<lambda>x. x\<lparr>c_mstate := []\<rparr>)"

definition queueMultiCommand :: "nat \<Rightarrow> server \<Rightarrow> server" where
  "queueMultiCommand c = upd_client c (\<lambda>x. x\<lparr>c_mstate := c_mstate x @ [(c_cmd x, c_argv x)]\<rparr>)"

definition discardTransaction :: "nat \<Rightarrow> server \<Rightarrow> server option" where
  "discardTransaction c s =
     unwatchAllKeys c (upd_client c (\<lambda>x. x\<lparr>c_multi := False, c_dirty_cas := False, c_dirty_exec := False\<rparr>)
       (initClientMultiState c s))"

definition flagTransaction :: "nat \<Rightarrow> server \<Rightarrow> server" where
  "flagTransaction c s =
     (if c_multi (srv_client s c) then upd_client c (\<lambda>x. x\<lparr>c_dirty_exec := True\<rparr>) s else s)"

definition multiCommand :: "nat \<Rightarrow> server \<Rightarrow> server option" where
  "multiCommand c s =
     (if c_multi (srv_client s c) then Some (addReplyError c ''MULTI calls can not be nested'' s)
      else Some (addReply c shared_ok (upd_client c (\<lambda>x. x\<lparr>c_multi := True\<rparr>) s)))"

definition discardCommand :: "nat \<Rightarrow> server \<Rightarrow> server option" where
  "discardCommand c s =
     (if \<not> c_multi (srv_client s c) then Some (addReplyError c ''DISCARD without MULTI'' s)
      else map_option (addReply c shared_ok) (discardTransaction c s))"

definition execCommandPropagateMulti :: "nat \<Rightarrow> server \<Rightarrow> server" where
  "execCommandPropagateMulti c s = propagate (client_db c s) [str ''MULTI''] True True s"

text \<open>The loop over the queued commands; the flag is \<open>must_propagate\<close>.\<close>

fun exec_loop :: "command_table \<Rightarrow> nat \<Rightarrow> (string \<times> bytes list) list \<Rightarrow> bool \<Rightarrow> server \<Rightarrow> (server \<times> bool) option" where
  "exec_loop tbl c [] must s = Some (s, must)"
| "exec_loop tbl c ((name, av) # rest) must s = do {
     let s = upd_client c (\<lambda>x. x\<lparr>c_argv := av, c_cmd := name\<rparr>) s;
     cmd \<leftarrow> tbl name;
     let first = (\<not> must \<and> \<not> is_readonly cmd);
     let s = (if first then execCommandPropagateMulti c s else s);
     s \<leftarrow> call cmd c s;
     exec_loop tbl c rest (must \<or> first) s
   }"

definition execCommand :: "command_table \<Rightarrow> nat \<Rightarrow> server \<Rightarrow> server option" where
  "execCommand tbl c s =
     (let x = srv_client s c in
      if \<not> c_multi x then Some (addReplyError c ''EXEC without MULTI'' s)
      else if c_dirty_cas x \<or> c_dirty_exec x then
        discardTransaction c (addReply c (if c_dirty_exec x then shared_execaborterr else NullMultiBulk) s)
      else do {
        s \<leftarrow> unwatchAllKeys c s;
        let s = addReply c (MultiBulkLen (int (length (c_mstate x)))) s;
        (s, must_propagate) \<leftarrow> exec_loop tbl c (c_mstate x) False s;
        let s = upd_client c (\<lambda>y. y\<lparr>c_argv := c_argv x, c_cmd := c_cmd x\<rparr>) s;
        s \<leftarrow> discardTransaction c s;
        Some (if must_propagate then incr_dirty 1 s else s)
      })"

text \<open>The table of the commands on keys and strings, and the entry of \<open>EXEC\<close>.\<close>

definition data_table :: command_table where
  "data_table = map_of (map (\<lambda>(name, arity, sflags, proc).
     (name, \<lparr>cmd_name = name, cmd_arity = arity, cmd_sflags = sflags, cmd_proc = proc\<rparr>)) (key_commands @ string_commands))"

definition exec_entry :: "command_table \<Rightarrow> redisCommand" where
  "exec_entry tbl = \<lparr>cmd_name = ''exec'', cmd_arity = 1, cmd_sflags = ''sM'', cmd_proc = execCommand tbl\<rparr>"

text \<open>A sequence of calls by any clients, one after the other and outside a transaction.\<close>

fun run_calls :: "command_table \<Rightarrow> (nat \<times> string \<times> bytes list) list \<Rightarrow> server \<Rightarrow> server option" where
  "run_calls tbl [] s = Some s"
| "run_calls tbl ((c, name, av) # rest) s = do {
     cmd \<leftarrow> tbl name;
     s \<leftarrow> call cmd c (upd_client c (\<lambda>x. x\<lparr>c_argv := av, c_cmd := name\<rparr>) s);
     run_calls tbl rest s
   }"

definition by_client :: "nat \<Rightarrow> (string \<times> bytes list) list \<Rightarrow> (nat \<times> string \<times> bytes list) list" where
  "by_client c q = map (Pair c) q"

text \<open>The commands at the head of a queue that are flagged as reading only, and the rest.\<close>

definition read_part :: "command_table \<Rightarrow> (string \<times> bytes list) list \<Rightarrow> (string \<times> bytes list) list" where
  "read_part tbl = takeWhile (\<lambda>(name, av). is_readonly (the (tbl name)))"

definition write_part :: "command_table \<Rightarrow> (string \<times> bytes list) list \<Rightarrow> (string \<times> bytes list) list" where
  "write_part tbl = dropWhile (\<lambda>(name, av). is_readonly (the (tbl name)))"

lemma parts_subset: "set (read_part tbl q) \<subseteq> set q" "set (write_part tbl q) \<subseteq> set q"
  unfolding read_part_def write_part_def by (auto dest: set_takeWhileD set_dropWhileD)

text \<open>
  The loop of \<open>EXEC\<close> is the sequence of the queued calls, with a \<open>MULTI\<close> between the commands that only
  read at its head and the rest.
\<close>

lemma exec_loop_must: "exec_loop tbl c q True s = map_option (\<lambda>s. (s, True)) (run_calls tbl (by_client c q) s)"
proof (induction q arbitrary: s)
  case (Cons x q)
  obtain name av where x: "x = (name, av)" by (cases x)
  show ?case using Cons.IH by (simp add: x by_client_def Let_def split: Option.bind_split)
qed (simp add: by_client_def)

lemma upd_client_propagate: "upd_client c f (propagate d av a b s) = propagate d av a b (upd_client c f s)"
  by (simp add: upd_client_def propagate_def Let_def)

lemma exec_loop_calls:
  "exec_loop tbl c q False s =
     (if write_part tbl q = [] then map_option (\<lambda>s. (s, False)) (run_calls tbl (by_client c q) s)
      else run_calls tbl (by_client c (read_part tbl q)) s \<bind> (\<lambda>s1.
        map_option (\<lambda>s. (s, True)) (run_calls tbl (by_client c (write_part tbl q)) (execCommandPropagateMulti c s1))))"
proof (induction q arbitrary: s)
  case (Cons x q)
  obtain name av where x: "x = (name, av)" by (cases x)
  show ?case
  proof (cases "is_readonly (the (tbl name))")
    case True
    then show ?thesis using Cons.IH
      by (cases "tbl name") (auto simp: x by_client_def read_part_def write_part_def Let_def split: Option.bind_split)
  next
    case False
    then show ?thesis using exec_loop_must [of tbl c q]
      by (cases "tbl name") (auto simp: x by_client_def read_part_def write_part_def execCommandPropagateMulti_def upd_client_propagate
          Let_def server_simps split: Option.bind_split)
  qed
qed (simp add: by_client_def write_part_def)

section \<open>The tables of watched keys\<close>

definition watch_inv :: "server \<Rightarrow> bool" where
  "watch_inv s \<longleftrightarrow> (\<forall>d. idx_ok (db_watched_keys (srv_db s d))) \<and>
     (\<forall>c. distinct (c_watched_keys (srv_client s c))) \<and>
     (\<forall>d k c. c \<in> set (idx_clients (db_watched_keys (srv_db s d)) k) \<longleftrightarrow> (d, k) \<in> set (c_watched_keys (srv_client s c))) \<and>
     (\<forall>c. c_watched_keys (srv_client s c) \<noteq> [] \<longrightarrow> c \<in> set (srv_clients s))"

lemma watch_inv_ok: "watch_inv s \<Longrightarrow> watch_ok s"
  unfolding watch_inv_def watch_ok_def by (metis empty_iff list.set(1))

lemma watch_inv_env: "env s s' \<Longrightarrow> watch_inv s \<Longrightarrow> watch_inv s'"
  by (simp add: watch_inv_def env_def)

text \<open>Fields other than the tables of watched keys do not matter.\<close>

lemma watch_inv_same:
  "(\<And>d. db_watched_keys (srv_db s' d) = db_watched_keys (srv_db s d)) \<Longrightarrow>
   (\<And>c. c_watched_keys (srv_client s' c) = c_watched_keys (srv_client s c)) \<Longrightarrow>
   srv_clients s' = srv_clients s \<Longrightarrow> watch_inv s' = watch_inv s"
  by (simp add: watch_inv_def)

lemma watch_inv_client:
  "(\<And>x. c_watched_keys (f x) = c_watched_keys x) \<Longrightarrow> watch_inv (upd_client c f s) = watch_inv s"
  by (rule watch_inv_same) (simp_all add: server_simps)

lemma watch_inv_addReply [simp]: "watch_inv (addReply c r s) = watch_inv s"
  by (simp add: addReply_def watch_inv_client)

lemma watchForKey_inv:
  assumes "watch_inv s" "c \<in> set (srv_clients s)"
  shows "watch_inv (watchForKey c k s)"
proof (cases "(client_db c s, k) \<in> set (c_watched_keys (srv_client s c))")
  case False
  let ?d = "client_db c s"
  have n: "c \<notin> set (idx_clients (db_watched_keys (srv_db s ?d)) k)" using False assms(1) by (auto simp: watch_inv_def)
  have e: "watchForKey c k s = upd_client c (\<lambda>x. x\<lparr>c_watched_keys := c_watched_keys x @ [(?d, k)]\<rparr>)
      (upd_db ?d (\<lambda>d. d\<lparr>db_watched_keys := idx_add (db_watched_keys d) k c\<rparr>) s)"
    using False by (simp add: watchForKey_def Let_def)
  show ?thesis unfolding e watch_inv_def
    using assms False idx_add_ok [OF _ n] by (auto simp: watch_inv_def server_simps idx_clients_add)
qed (use assms in \<open>simp add: watchForKey_def\<close>)

lemma watchForKey_frame: "srv_clients (watchForKey c k s) = srv_clients s"
  "db_dict (srv_db (watchForKey c k s) d) = db_dict (srv_db s d)"
  "db_expires (srv_db (watchForKey c k s) d) = db_expires (srv_db s d)"
  "client_db i (watchForKey c k s) = client_db i s" "srv_mstime (watchForKey c k s) = srv_mstime s"
  by (simp_all add: watchForKey_def Let_def server_simps)

lemma watchForKey_watched: "(client_db c s, k) \<in> set (c_watched_keys (srv_client (watchForKey c k s) c))"
  "set (c_watched_keys (srv_client s c)) \<subseteq> set (c_watched_keys (srv_client (watchForKey c k s) c))"
  by (auto simp: watchForKey_def Let_def server_simps)

lemma watch_fold:
  "watch_inv s \<Longrightarrow> c \<in> set (srv_clients s) \<Longrightarrow> watch_inv (fold (watchForKey c) ks s) \<and>
   (\<forall>k \<in> set ks. (client_db c s, k) \<in> set (c_watched_keys (srv_client (fold (watchForKey c) ks s) c))) \<and>
   set (c_watched_keys (srv_client s c)) \<subseteq> set (c_watched_keys (srv_client (fold (watchForKey c) ks s) c))"
proof (induction ks arbitrary: s)
  case (Cons k ks)
  note IH = Cons.IH [of "watchForKey c k s", OF watchForKey_inv [OF Cons.prems]]
  show ?case using IH watchForKey_watched [where c = c and s = s and k = k] Cons.prems by (auto simp: watchForKey_frame)
qed simp

text \<open>Unwatching removes every trace of the client and touches nothing else.\<close>

definition same_but_watch :: "server \<Rightarrow> server \<Rightarrow> nat \<Rightarrow> bool" where
  "same_but_watch s s' c \<longleftrightarrow> (\<exists>f w. s' = upd_client c (\<lambda>x. x\<lparr>c_watched_keys := w\<rparr>) (s\<lparr>srv_db := f\<rparr>) \<and>
     (\<forall>d. f d = (srv_db s d)\<lparr>db_watched_keys := db_watched_keys (f d)\<rparr>))"

lemma unwatch_loop_spec:
  "watch_inv s \<Longrightarrow> wks = c_watched_keys (srv_client s c) \<Longrightarrow>
   \<exists>s'. unwatch_loop c wks s = Some s' \<and> watch_inv s' \<and> c_watched_keys (srv_client s' c) = [] \<and> same_but_watch s s' c"
proof (induction wks arbitrary: s)
  case Nil
  have "s = upd_client c (\<lambda>x. x\<lparr>c_watched_keys := []\<rparr>) (s\<lparr>srv_db := srv_db s\<rparr>)"
    using Nil(2) by (simp add: upd_client_def fun_upd_idem)
  then show ?case using Nil unfolding same_but_watch_def by (auto intro!: exI [of _ "srv_db s"] exI [of _ "[]"])
next
  case (Cons wk wks)
  obtain d k where wk: "wk = (d, k)" by (cases wk)
  have inv: "watch_inv s" by fact
  have mem: "c \<in> set (idx_clients (db_watched_keys (srv_db s d)) k)" using Cons.prems wk
    unfolding watch_inv_def by (metis list.set_intros(1))
  obtain ws where ws: "idx_del (db_watched_keys (srv_db s d)) k c = Some ws"
    "\<And>x. idx_clients ws x = (if x = k then remove1 c (idx_clients (db_watched_keys (srv_db s d)) k) else idx_clients (db_watched_keys (srv_db s d)) x)"
    using idx_del_Some [OF mem] by blast
  let ?s = "upd_client c (\<lambda>x. x\<lparr>c_watched_keys := remove1 (d, k) (c_watched_keys x)\<rparr>) (upd_db d (\<lambda>y. y\<lparr>db_watched_keys := ws\<rparr>) s)"
  have w: "c_watched_keys (srv_client ?s c) = wks" using Cons.prems(2) wk by (simp add: server_simps flip: Cons.prems(2))
  have dist: "distinct (idx_clients (db_watched_keys (srv_db s d)) k)" "distinct (c_watched_keys (srv_client s c))"
    using inv idx_clients_distinct by (auto simp: watch_inv_def)
  have "c_watched_keys (srv_client s c) \<noteq> []" using Cons.prems(2) by auto
  then have "c \<in> set (srv_clients s)" using inv by (simp add: watch_inv_def)
  then have "watch_inv ?s" using inv ws idx_del_ok [OF _ ws(1)] dist
    by (auto simp: watch_inv_def server_simps set_remove1_eq split: if_splits)
  then obtain s' where s': "unwatch_loop c wks ?s = Some s'" "watch_inv s'" "c_watched_keys (srv_client s' c) = []" "same_but_watch ?s s' c"
    using Cons.IH [of ?s] w by auto
  obtain f v where f: "s' = upd_client c (\<lambda>x. x\<lparr>c_watched_keys := v\<rparr>) (?s\<lparr>srv_db := f\<rparr>)"
    "\<And>i. f i = (srv_db ?s i)\<lparr>db_watched_keys := db_watched_keys (f i)\<rparr>" using s'(4) unfolding same_but_watch_def by blast
  have "s' = upd_client c (\<lambda>x. x\<lparr>c_watched_keys := v\<rparr>) (s\<lparr>srv_db := f\<rparr>)"
    unfolding f(1) by (simp add: upd_client_def upd_db_def)
  moreover have "f i = (srv_db s i)\<lparr>db_watched_keys := db_watched_keys (f i)\<rparr>" for i
    using f(2) [of i] by (cases "i = d") (simp_all add: server_simps)
  ultimately have "same_but_watch s s' c" unfolding same_but_watch_def by blast
  then show ?case using s' ws(1) wk by simp
qed


lemma same_but_watch_frame:
  assumes "same_but_watch s s' c"
  shows "db_dict (srv_db s' d) = db_dict (srv_db s d)" "db_expires (srv_db s' d) = db_expires (srv_db s d)"
    "srv_repl s' = srv_repl s" "srv_dirty s' = srv_dirty s" "srv_clients s' = srv_clients s" "srv_mstime s' = srv_mstime s"
    "srv_client s' i = (if i = c then (srv_client s c)\<lparr>c_watched_keys := c_watched_keys (srv_client s' c)\<rparr> else srv_client s i)"
    "srv_loading s' = srv_loading s" "srv_masterhost s' = srv_masterhost s" "srv_lua_caller s' = srv_lua_caller s"
    "srv_lua_time_start s' = srv_lua_time_start s" "srv_pubsub_patterns s' = srv_pubsub_patterns s" "srv_aof s' = srv_aof s"
proof -
  obtain f w where f: "s' = upd_client c (\<lambda>x. x\<lparr>c_watched_keys := w\<rparr>) (s\<lparr>srv_db := f\<rparr>)"
    "\<And>d. f d = (srv_db s d)\<lparr>db_watched_keys := db_watched_keys (f d)\<rparr>" using assms unfolding same_but_watch_def by blast
  show "db_dict (srv_db s' d) = db_dict (srv_db s d)" "db_expires (srv_db s' d) = db_expires (srv_db s d)"
    unfolding f(1) by (simp_all add: server_simps) (subst f(2), simp)+
qed (use assms in \<open>auto simp: same_but_watch_def server_simps\<close>)

lemma same_but_watch_client:
  assumes "same_but_watch s s' c"
  shows "c_db (srv_client s' i) = c_db (srv_client s i)" "c_argv (srv_client s' i) = c_argv (srv_client s i)"
    "c_multi (srv_client s' i) = c_multi (srv_client s i)" "c_mstate (srv_client s' i) = c_mstate (srv_client s i)"
    "c_dirty_cas (srv_client s' i) = c_dirty_cas (srv_client s i)" "c_dirty_exec (srv_client s' i) = c_dirty_exec (srv_client s i)"
    "c_reply (srv_client s' i) = c_reply (srv_client s i)"
  using assms by (auto simp: same_but_watch_def server_simps split: if_splits)

lemma same_but_watch_live: "same_but_watch s s' c \<Longrightarrow> live s' = live s"
  by (intro ext) (simp add: live_def expired_def now_def same_but_watch_frame cong: option.case_cong)

lemma same_but_watch_upd:
  assumes "same_but_watch s s' c" "\<And>x w. (f x)\<lparr>c_watched_keys := w\<rparr> = f (x\<lparr>c_watched_keys := w\<rparr>)"
  shows "same_but_watch (upd_client c f s) (upd_client c f s') c"
proof -
  obtain g w where g: "s' = upd_client c (\<lambda>x. x\<lparr>c_watched_keys := w\<rparr>) (s\<lparr>srv_db := g\<rparr>)"
    "\<And>d. g d = (srv_db s d)\<lparr>db_watched_keys := db_watched_keys (g d)\<rparr>" using assms(1) unfolding same_but_watch_def by blast
  have "upd_client c f s' = upd_client c (\<lambda>x. x\<lparr>c_watched_keys := w\<rparr>) ((upd_client c f s)\<lparr>srv_db := g\<rparr>)"
    unfolding g(1) upd_client_def by (simp add: assms(2))
  moreover have "srv_db (upd_client c f s) = srv_db s" by (simp add: server_simps)
  ultimately show ?thesis unfolding same_but_watch_def using g(2) by metis
qed

lemma same_but_watch_ks_ok: "same_but_watch s s' c \<Longrightarrow> ks_ok s \<Longrightarrow> ks_ok s'"
  by (simp add: ks_ok_def db_ok_def pats_safe_def same_but_watch_frame)

lemma unwatchAllKeys_spec:
  "watch_inv s \<Longrightarrow> \<exists>s'. unwatchAllKeys c s = Some s' \<and> watch_inv s' \<and> c_watched_keys (srv_client s' c) = [] \<and> same_but_watch s s' c"
  unfolding unwatchAllKeys_def by (rule unwatch_loop_spec) simp_all

text \<open>A client that is not in a transaction: nothing queued, nothing watched, no flag.\<close>

definition idle :: "client \<Rightarrow> bool" where
  "idle x \<longleftrightarrow> \<not> c_multi x \<and> \<not> c_dirty_cas x \<and> \<not> c_dirty_exec x \<and> c_mstate x = [] \<and> c_watched_keys x = []"

lemma discardTransaction_spec:
  assumes "watch_inv s"
  shows "\<exists>s'. discardTransaction c s = Some s' \<and> watch_inv s' \<and> idle (srv_client s' c) \<and>
    (\<exists>s1. s1 = upd_client c (\<lambda>x. x\<lparr>c_mstate := [], c_multi := False, c_dirty_cas := False, c_dirty_exec := False\<rparr>) s \<and> same_but_watch s1 s' c)"
proof -
  let ?s = "upd_client c (\<lambda>x. x\<lparr>c_mstate := [], c_multi := False, c_dirty_cas := False, c_dirty_exec := False\<rparr>) s"
  have e: "upd_client c (\<lambda>x. x\<lparr>c_multi := False, c_dirty_cas := False, c_dirty_exec := False\<rparr>) (initClientMultiState c s) = ?s"
    by (simp add: initClientMultiState_def upd_client_def)
  have "watch_inv ?s" using assms by (simp add: watch_inv_client)
  then obtain s' where s': "unwatchAllKeys c ?s = Some s'" "watch_inv s'" "c_watched_keys (srv_client s' c) = []" "same_but_watch ?s s' c"
    using unwatchAllKeys_spec by blast
  have "idle (srv_client s' c)" using s'(3) same_but_watch_frame(7) [OF s'(4), of c] by (simp add: idle_def server_simps)
  then show ?thesis using s' by (simp add: discardTransaction_def e)
qed

text \<open>
  The same dictionaries, and in addition the same replies; and the state in which the loop of \<open>EXEC\<close> starts, which differs
  from the one before only in that the client watches nothing any more and has been told how many replies follow.
\<close>

definition same_dicts :: "server \<Rightarrow> server \<Rightarrow> bool" where
  "same_dicts s s' \<longleftrightarrow> (\<forall>d. db_dict (srv_db s' d) = db_dict (srv_db s d) \<and> db_expires (srv_db s' d) = db_expires (srv_db s d))"

definition same_data :: "server \<Rightarrow> server \<Rightarrow> bool" where
  "same_data s s' \<longleftrightarrow> same_dicts s s' \<and> (\<forall>i. c_reply (srv_client s' i) = c_reply (srv_client s i))"

definition opened :: "nat \<Rightarrow> server \<Rightarrow> server \<Rightarrow> bool" where
  "opened c s s0 \<longleftrightarrow> (\<exists>u. same_but_watch s u c \<and> c_watched_keys (srv_client u c) = [] \<and>
     s0 = addReply c (MultiBulkLen (int (length (c_mstate (srv_client s c))))) u)"

section \<open>Commands of the table\<close>

text \<open>
  What \<open>EXEC\<close> relies on: with arguments that fit, a command of the table returns, keeps the invariant, and
  leaves alone what \<open>env\<close> protects: transactions and watched keys of all clients, and what has been sent to
  the slaves.
\<close>

locale commands =
  fixes tbl :: command_table and inv :: "server \<Rightarrow> bool" and fits :: "string \<Rightarrow> bytes list \<Rightarrow> bool"
  assumes proc_runs: "inv s \<Longrightarrow> tbl name = Some cmd \<Longrightarrow> fits name (c_argv (srv_client s c)) \<Longrightarrow>
      \<exists>s'. cmd_proc cmd c s = Some s' \<and> inv s' \<and> env s s'"
    and fits_found: "fits name av \<Longrightarrow> tbl name \<noteq> None"
    and inv_client: "inv s \<Longrightarrow> (\<And>x. c_watched_keys (f x) = c_watched_keys x) \<Longrightarrow> inv (upd_client c f s)"
    and inv_propagate: "inv s \<Longrightarrow> inv (propagate d av a b s)"
    and inv_dirty: "inv s \<Longrightarrow> inv (incr_dirty n s)"
    and inv_watch: "inv s \<Longrightarrow> watch_inv s"
    and inv_unwatch: "inv s \<Longrightarrow> same_but_watch s s' c \<Longrightarrow> watch_inv s' \<Longrightarrow> inv s'"
begin

lemma env_client:
  "(\<And>x. c_db (f x) = c_db x) \<Longrightarrow> (\<And>x. c_watched_keys (f x) = c_watched_keys x) \<Longrightarrow> (\<And>x. c_dirty_cas x \<Longrightarrow> c_dirty_cas (f x)) \<Longrightarrow>
   (\<And>x. c_multi (f x) = c_multi x) \<Longrightarrow> (\<And>x. c_mstate (f x) = c_mstate x) \<Longrightarrow> (\<And>x. c_dirty_exec (f x) = c_dirty_exec x) \<Longrightarrow> env s (upd_client c f s)"
  using step_client [of f s c] by (simp add: step_def)

lemma env_propagate: "env s (propagate d av a b s)"
  using step_propagate by (simp add: step_def)

lemma call_runs:
  assumes "inv s" "tbl name = Some cmd" "fits name (c_argv (srv_client s c))"
  shows "\<exists>s'. call cmd c s = Some s' \<and> inv s' \<and> env s s'"
proof -
  let ?s0 = "upd_client c (\<lambda>x. x\<lparr>c_force_aof := False, c_force_repl := False\<rparr>) s"
  have e0: "env s ?s0" by (rule env_client) simp_all
  have "inv ?s0" by (rule inv_client [OF assms(1)]) simp
  moreover have "c_argv (srv_client ?s0 c) = c_argv (srv_client s c)" by (simp add: server_simps)
  ultimately obtain s1 where s1: "cmd_proc cmd c ?s0 = Some s1" "inv s1" "env ?s0 s1"
    using proc_runs [of ?s0 name cmd c] assms(2,3) by auto
  define a where "a \<longleftrightarrow> c_force_aof (srv_client s1 c) \<or> max 0 (srv_dirty s1 - srv_dirty ?s0) \<noteq> 0"
  define b where "b \<longleftrightarrow> c_force_repl (srv_client s1 c) \<or> max 0 (srv_dirty s1 - srv_dirty ?s0) \<noteq> 0"
  have ab: "call cmd c s = Some (upd_client c (\<lambda>x. x\<lparr>c_force_aof := c_force_aof (srv_client s c), c_force_repl := c_force_repl (srv_client s c)\<rparr>)
      (if a \<or> b then propagate (client_db c s1) (c_argv (srv_client s1 c)) a b s1 else s1))"
    unfolding call_def Let_def s1(1) Option.bind.simps a_def [symmetric] b_def [symmetric] ..
  let ?s2 = "if a \<or> b then propagate (client_db c s1) (c_argv (srv_client s1 c)) a b s1 else s1"
  let ?s3 = "upd_client c (\<lambda>x. x\<lparr>c_force_aof := c_force_aof (srv_client s c), c_force_repl := c_force_repl (srv_client s c)\<rparr>) ?s2"
  have s2: "inv ?s2" "env s1 ?s2" using s1(2) inv_propagate env_propagate by auto
  have "inv ?s3" by (rule inv_client [OF s2(1)]) simp
  moreover have "env ?s2 ?s3" by (rule env_client) simp_all
  then have "env s ?s3" by (rule env_trans [OF e0 env_trans [OF s1(3) env_trans [OF s2(2)]]])
  ultimately show ?thesis using ab by blast
qed

text \<open>The queue runs to its end; \<open>MULTI\<close> goes out before the first command that is not read-only, after all
  that the read-only commands before it have sent.\<close>

lemma exec_loop_runs:
  assumes "inv s" "\<And>name av. (name, av) \<in> set q \<Longrightarrow> fits name av"
  shows "\<exists>s' must'. exec_loop tbl c q must s = Some (s', must') \<and> inv s' \<and> env s s' \<and>
     must' = (must \<or> (\<exists>(name, av) \<in> set q. \<not> is_readonly (the (tbl name))))"
  using assms
proof (induction q arbitrary: must s)
  case (Cons x q)
  obtain name av where x: "x = (name, av)" by (cases x)
  then have f: "fits name av" using Cons.prems(2) by simp
  then obtain cmd where cmd: "tbl name = Some cmd" using fits_found by auto
  let ?first = "\<not> must \<and> \<not> is_readonly cmd"
  let ?s1 = "upd_client c (\<lambda>x. x\<lparr>c_argv := av, c_cmd := name\<rparr>) s"
  let ?s2 = "if ?first then execCommandPropagateMulti c ?s1 else ?s1"
  have s1: "inv ?s1" "env s ?s1" by (rule inv_client [OF Cons.prems(1)], simp) (rule env_client, simp_all)
  have s2: "inv ?s2" "env ?s1 ?s2" using s1 inv_propagate env_propagate by (simp_all add: execCommandPropagateMulti_def)
  have "c_argv (srv_client ?s2 c) = av" by (simp add: execCommandPropagateMulti_def propagate_def Let_def server_simps)
  then obtain s3 where s3: "call cmd c ?s2 = Some s3" "inv s3" "env ?s2 s3" using call_runs [OF s2(1) cmd, of c] f by auto
  obtain s' must' where s': "exec_loop tbl c q (must \<or> ?first) s3 = Some (s', must')" "inv s'" "env s3 s'"
    "must' = ((must \<or> ?first) \<or> (\<exists>(name, av) \<in> set q. \<not> is_readonly (the (tbl name))))"
    using Cons.IH [OF s3(2), of "must \<or> ?first"] Cons.prems(2) by auto
  have "env s s'" using env_trans [OF s1(2) env_trans [OF s2(2) env_trans [OF s3(3) s'(3)]]] .
  moreover have "exec_loop tbl c (x # q) must s = Some (s', must')" using s3(1) s'(1) x cmd by (simp add: Let_def)
  ultimately show ?case using s'(2,4) x cmd by auto
qed simp

lemma run_calls_runs:
  assumes "inv s" "\<And>name av. (name, av) \<in> set q \<Longrightarrow> fits name av"
  shows "\<exists>s'. run_calls tbl (by_client c q) s = Some s' \<and> inv s' \<and> env s s'"
  using exec_loop_runs [where c = c and must = True, OF assms] by (auto simp: exec_loop_must)

lemma discard_runs:
  assumes "inv s"
  shows "\<exists>s'. discardTransaction c s = Some s' \<and> inv s' \<and> idle (srv_client s' c) \<and> srv_repl s' = srv_repl s \<and>
    srv_dirty s' = srv_dirty s \<and> client_db c s' = client_db c s \<and> c_argv (srv_client s' c) = c_argv (srv_client s c) \<and> same_data s s'"
proof -
  let ?s1 = "upd_client c (\<lambda>x. x\<lparr>c_mstate := [], c_multi := False, c_dirty_cas := False, c_dirty_exec := False\<rparr>) s"
  obtain s' where s': "discardTransaction c s = Some s'" "watch_inv s'" "idle (srv_client s' c)" "same_but_watch ?s1 s' c"
    using discardTransaction_spec [OF inv_watch [OF assms]] by blast
  have "inv ?s1" by (rule inv_client [OF assms]) simp
  then have "inv s'" by (rule inv_unwatch [OF _ s'(4,2)])
  then show ?thesis using s' same_but_watch_frame(1-4) [OF s'(4)] same_but_watch_client [OF s'(4)]
    by (simp add: server_simps same_data_def same_dicts_def)
qed

lemma exec_runs:
  assumes s: "inv s" and m: "c_multi (srv_client s c)" "\<not> c_dirty_cas (srv_client s c)" "\<not> c_dirty_exec (srv_client s c)"
    and q: "\<And>name av. (name, av) \<in> set (c_mstate (srv_client s c)) \<Longrightarrow> fits name av"
    and w: "write_part tbl (c_mstate (srv_client s c)) \<noteq> []"
  obtains s0 s1 s2 s' where "opened c s s0" "run_calls tbl (by_client c (read_part tbl (c_mstate (srv_client s c)))) s0 = Some s1"
    "run_calls tbl (by_client c (write_part tbl (c_mstate (srv_client s c)))) (propagate (client_db c s) [str ''MULTI''] True True s1) = Some s2"
    "execCommand tbl c s = Some s'" "inv s'" "idle (srv_client s' c)" "client_db c s' = client_db c s"
    "c_argv (srv_client s' c) = c_argv (srv_client s c)" "same_data s2 s'" "srv_repl s' = srv_repl s2" "srv_dirty s < srv_dirty s'"
    "prefix (srv_repl s) (srv_repl s1)" "prefix (srv_repl s1 @ [(client_db c s, [str ''MULTI''])]) (srv_repl s2)"
proof -
  let ?x = "srv_client s c" and ?q = "c_mstate (srv_client s c)"
  obtain sU where sU: "unwatchAllKeys c s = Some sU" "watch_inv sU" "same_but_watch s sU c" "c_watched_keys (srv_client sU c) = []"
    using unwatchAllKeys_spec [OF inv_watch [OF s]] by blast
  note f = same_but_watch_frame [OF sU(3)]
  let ?s0 = "addReply c (MultiBulkLen (int (length ?q))) sU"
  have s0: "inv ?s0" unfolding addReply_def by (rule inv_client [OF inv_unwatch [OF s sU(3,2)]]) simp
  have op: "opened c s ?s0" unfolding opened_def using sU(3,4) by blast
  have f0: "srv_repl ?s0 = srv_repl s" "srv_dirty ?s0 = srv_dirty s" "client_db c ?s0 = client_db c s"
    using f(3,4) same_but_watch_client(1) [OF sU(3)] by (simp_all add: addReply_def server_simps)
  have qr: "fits name av" if "(name, av) \<in> set (read_part tbl ?q)" for name av using q parts_subset(1) that by blast
  have qw: "fits name av" if "(name, av) \<in> set (write_part tbl ?q)" for name av using q parts_subset(2) that by blast
  obtain s1 where s1: "run_calls tbl (by_client c (read_part tbl ?q)) ?s0 = Some s1" "inv s1" "env ?s0 s1"
    using run_calls_runs [OF s0 qr, where c = c] by blast
  have db: "client_db c s1 = client_db c s" using s1(3) f0(3) by (simp add: env_def)
  let ?m = "propagate (client_db c s) [str ''MULTI''] True True s1"
  obtain s2 where s2: "run_calls tbl (by_client c (write_part tbl ?q)) ?m = Some s2" "inv s2" "env ?m s2"
    using run_calls_runs [OF inv_propagate [OF s1(2)] qw, where c = c] by blast
  have loop: "exec_loop tbl c ?q False ?s0 = Some (s2, True)"
    using w s1(1) s2(1) db by (simp add: exec_loop_calls execCommandPropagateMulti_def)
  let ?s4 = "upd_client c (\<lambda>y. y\<lparr>c_argv := c_argv ?x, c_cmd := c_cmd ?x\<rparr>) s2"
  have "inv ?s4" by (rule inv_client [OF s2(2)]) simp
  then obtain s5 where s5: "discardTransaction c ?s4 = Some s5" "inv s5" "idle (srv_client s5 c)" "srv_repl s5 = srv_repl ?s4"
    "srv_dirty s5 = srv_dirty ?s4" "client_db c s5 = client_db c ?s4" "c_argv (srv_client s5 c) = c_argv (srv_client ?s4 c)"
    "same_data ?s4 s5"
    using discard_runs by blast
  have rep: "srv_repl ?m = srv_repl s1 @ [(client_db c s, [str ''MULTI''])]" "srv_dirty ?m = srv_dirty s1" "client_db c ?m = client_db c s1"
    by (simp_all add: propagate_def Let_def server_simps)
  show thesis
  proof (rule that [OF op s1(1) s2(1)])
    show "execCommand tbl c s = Some (incr_dirty 1 s5)"
      unfolding execCommand_def Let_def sU(1) Option.bind.simps loop prod.case s5(1) using m by simp
    show "inv (incr_dirty 1 s5)" by (rule inv_dirty [OF s5(2)])
    show "idle (srv_client (incr_dirty 1 s5) c)" "c_argv (srv_client (incr_dirty 1 s5) c) = c_argv ?x" "srv_repl (incr_dirty 1 s5) = srv_repl s2"
      using s5(3,4,7) by (simp_all add: incr_dirty_def server_simps)
    show "client_db c (incr_dirty 1 s5) = client_db c s" "srv_dirty s < srv_dirty (incr_dirty 1 s5)"
      using s5(5,6) s1(3) s2(3) f0 db rep by (auto simp: incr_dirty_def server_simps env_def)
    show "same_data s2 (incr_dirty 1 s5)" using s5(8) by (simp add: same_data_def same_dicts_def incr_dirty_def server_simps)
    show "prefix (srv_repl s) (srv_repl s1)" "prefix (srv_repl s1 @ [(client_db c s, [str ''MULTI''])]) (srv_repl s2)"
      using s1(3) s2(3) f0(1) rep(1) by (simp_all add: env_def)
  qed
qed

end

section \<open>The commands on keys and strings\<close>

definition server_ok :: "server \<Rightarrow> bool" where
  "server_ok s \<longleftrightarrow> ks_ok s \<and> watch_inv s"

text \<open>Arguments the protocol and the arity check let through, with a pattern the matcher does not read beyond.\<close>

definition fits :: "string \<Rightarrow> bytes list \<Rightarrow> bool" where
  "fits name av \<longleftrightarrow> (case data_table name of None \<Rightarrow> False | Some cmd \<Rightarrow> arity_ok (cmd_arity cmd) (length av)) \<and>
     (\<forall>a \<in> set av. length a \<le> max_len) \<and> (name = ''keys'' \<longrightarrow> (\<forall>k. stringmatchlen (av ! 1) k False \<noteq> None))"

lemma data_table_entry:
  assumes "data_table name = Some cmd"
  shows "cmd_name cmd = name" "(name, cmd_arity cmd, cmd_sflags cmd, cmd_proc cmd) \<in> set (key_commands @ string_commands)"
  using map_of_SomeD [OF assms [unfolded data_table_def]] by auto

lemma data_command_cases:
  assumes s: "server_ok s" and cmd: "data_table name = Some cmd" and f: "fits name (c_argv (srv_client s c))"
  shows "name \<notin> {''move'', ''persist''} \<Longrightarrow> wp (cmd_proc cmd c s) (sound s)" "wp (cmd_proc cmd c s) (step UNIV s)"
proof -
  have ok: "ks_ok s" "watch_ok s" using s watch_inv_ok by (auto simp: server_ok_def)
  have k: "name = ''keys'' \<Longrightarrow> \<forall>k. stringmatchlen (argv c s 1) k False \<noteq> None" using f by (auto simp: fits_def)
  have str: "wp (cmd_proc cmd c s) (sound s)" if "(name, cmd_arity cmd, cmd_sflags cmd, cmd_proc cmd) \<in> set string_commands"
    by (rule string_commands_sound [OF ok(1) that]) (use f cmd in \<open>auto simp: fits_def\<close>)
  consider "(name, cmd_arity cmd, cmd_sflags cmd, cmd_proc cmd) \<in> set key_commands"
    | "(name, cmd_arity cmd, cmd_sflags cmd, cmd_proc cmd) \<in> set string_commands"
    using data_table_entry(2) [OF cmd] by fastforce
  note key_or_string = this
  show "wp (cmd_proc cmd c s) (sound s)" if "name \<notin> {''move'', ''persist''}"
    by (rule key_or_string, rule key_commands_sound [OF ok _ that k], assumption+, rule str)
  show "wp (cmd_proc cmd c s) (step UNIV s)"
  proof (rule key_or_string)
    assume "(name, cmd_arity cmd, cmd_sflags cmd, cmd_proc cmd) \<in> set key_commands"
    then show ?thesis by (rule key_commands_kept [OF ok _ k])
  next
    assume "(name, cmd_arity cmd, cmd_sflags cmd, cmd_proc cmd) \<in> set string_commands"
    then show ?thesis by (rule wp_mono [OF str sound_kept])
  qed
qed

lemma sound_env: "sound s s' \<Longrightarrow> env s s'"
  by (auto simp: sound_def safe_def step_def)

lemma sound_server_ok: "sound s s' \<Longrightarrow> server_ok s \<Longrightarrow> server_ok s'"
  using sound_env watch_inv_env sound_ks_ok by (auto simp: server_ok_def)

lemma ks_ok_same_db:
  "srv_db s' = srv_db s \<Longrightarrow> srv_pubsub_patterns s' = srv_pubsub_patterns s \<Longrightarrow> ks_ok s' = ks_ok s"
  by (simp add: ks_ok_def pats_safe_def)

interpretation data: commands data_table server_ok fits
proof
  fix s name cmd c
  assume s: "server_ok s" and cmd: "data_table name = Some cmd" "fits name (c_argv (srv_client s c))"
  obtain s' where s': "cmd_proc cmd c s = Some s'" "step UNIV s s'"
    using data_command_cases(2) [OF s cmd] by (auto simp: wp_def)
  have "env s s'" "ks_ok s'" using s'(2) step_ks_ok s by (auto simp: step_def server_ok_def)
  moreover have "watch_inv s'" using watch_inv_env \<open>env s s'\<close> s by (simp add: server_ok_def)
  ultimately show "\<exists>s'. cmd_proc cmd c s = Some s' \<and> server_ok s' \<and> env s s'" using s'(1) by (auto simp: server_ok_def)
next
  fix s :: server and f :: "client \<Rightarrow> client" and c
  assume "server_ok s" "\<And>x. c_watched_keys (f x) = c_watched_keys x"
  then show "server_ok (upd_client c f s)"
    using ks_ok_same_db [of "upd_client c f s" s] watch_inv_client [of f c s] by (simp add: server_ok_def server_simps)
next
  fix s d av a b
  assume "server_ok s"
  then show "server_ok (propagate d av a b s)"
    using step_propagate [of s d av a b] step_ks_ok watch_inv_env by (auto simp: server_ok_def step_def)
next
  fix s n
  assume "server_ok s"
  then show "server_ok (incr_dirty n s)"
    by (simp add: server_ok_def ks_ok_def pats_safe_def watch_inv_def incr_dirty_def)
next
  fix s s' c
  assume "server_ok s" "same_but_watch s s' c" "watch_inv s'"
  then show "server_ok s'" using same_but_watch_ks_ok by (auto simp: server_ok_def)
qed (auto simp: server_ok_def fits_def split: option.splits)

text \<open>
  C5. A transaction runs as a block: with no watched key touched and a queue of modelled commands, one of which is not flagged as
  reading only, \<open>EXEC\<close> announces as many replies as there are commands and does exactly what the queued commands do when they
  are called one after the other, with the same data bases and the same replies at the end. The stream to the slaves gets a \<open>MULTI\<close>
  right before the first command that is not reading only, and the \<open>EXEC\<close> itself at its very end, both in the client's data
  base. The client is out of its transaction and watches nothing; the state is well formed.
\<close>

theorem exec_is_a_block:
  assumes "server_ok s" "c_multi (srv_client s c)" "\<not> c_dirty_cas (srv_client s c)" "\<not> c_dirty_exec (srv_client s c)"
    and q: "q = c_mstate (srv_client s c)" "\<And>name av. (name, av) \<in> set q \<Longrightarrow> fits name av"
    and w: "\<exists>(name, av) \<in> set q. \<not> is_readonly (the (data_table name))"
  shows "\<exists>s0 s1 s2 s' pre body. call (exec_entry data_table) c s = Some s' \<and> server_ok s' \<and> idle (srv_client s' c) \<and>
    opened c (upd_client c (\<lambda>x. x\<lparr>c_force_aof := False, c_force_repl := False\<rparr>) s) s0 \<and>
    run_calls data_table (by_client c (read_part data_table q)) s0 = Some s1 \<and> srv_repl s1 = srv_repl s @ pre \<and>
    run_calls data_table (by_client c (write_part data_table q)) (propagate (client_db c s) [str ''MULTI''] True True s1) = Some s2 \<and>
    srv_repl s2 = srv_repl s1 @ [(client_db c s, [str ''MULTI''])] @ body \<and>
    same_data s2 s' \<and> srv_repl s' = srv_repl s2 @ [(client_db c s, c_argv (srv_client s c))]"
proof -
  let ?s = "upd_client c (\<lambda>x. x\<lparr>c_force_aof := False, c_force_repl := False\<rparr>) s"
  have s: "server_ok ?s" by (rule data.inv_client [OF assms(1)]) simp
  have x: "srv_client ?s c = (srv_client s c)\<lparr>c_force_aof := False, c_force_repl := False\<rparr>" by (simp add: server_simps)
  have wp: "write_part data_table q \<noteq> []" using w by (auto simp: write_part_def)
  obtain s0 s1 s2 s3 where e: "opened c ?s s0" "run_calls data_table (by_client c (read_part data_table q)) s0 = Some s1"
    "run_calls data_table (by_client c (write_part data_table q)) (propagate (client_db c s) [str ''MULTI''] True True s1) = Some s2"
    "execCommand data_table c ?s = Some s3" "server_ok s3" "idle (srv_client s3 c)" "client_db c s3 = client_db c s"
    "c_argv (srv_client s3 c) = c_argv (srv_client s c)" "same_data s2 s3" "srv_repl s3 = srv_repl s2" "srv_dirty s < srv_dirty s3"
    "prefix (srv_repl s) (srv_repl s1)" "prefix (srv_repl s1 @ [(client_db c s, [str ''MULTI''])]) (srv_repl s2)"
  proof (rule data.exec_runs [OF s, of c])
    show "write_part data_table (c_mstate (srv_client ?s c)) \<noteq> []" using wp by (simp add: x q(1))
  qed (use assms(2-4) q that x in \<open>auto simp: server_simps\<close>)
  have d: "max 0 (srv_dirty s3 - srv_dirty ?s) \<noteq> 0" "srv_dirty s3 \<noteq> srv_dirty ?s" using e(11) by (simp_all add: server_simps)
  let ?s4 = "propagate (client_db c s3) (c_argv (srv_client s3 c)) True True s3"
  let ?s5 = "upd_client c (\<lambda>x. x\<lparr>c_force_aof := c_force_aof (srv_client s c), c_force_repl := c_force_repl (srv_client s c)\<rparr>) ?s4"
  have "call (exec_entry data_table) c s = Some ?s5" using e(4) d by (simp add: call_def exec_entry_def Let_def)
  moreover have "server_ok ?s5" by (rule data.inv_client [OF data.inv_propagate [OF e(5)]]) simp
  moreover have "idle (srv_client ?s5 c)" using e(6) by (simp add: idle_def server_simps propagate_def Let_def)
  moreover have "srv_repl ?s5 = srv_repl s2 @ [(client_db c s, c_argv (srv_client s c))]"
    using e(7,8,10) by (simp add: propagate_def Let_def server_simps)
  moreover have "same_data s2 ?s5" using e(9) by (auto simp: same_data_def same_dicts_def propagate_def Let_def server_simps)
  moreover obtain pre body where "srv_repl s1 = srv_repl s @ pre" "srv_repl s2 = srv_repl s1 @ [(client_db c s, [str ''MULTI''])] @ body"
    using e(12,13) by (auto elim!: prefixE)
  ultimately show ?thesis using e(1-3) by blast
qed

text \<open>The demonstration server with client 1 in a transaction of two commands, one of which writes.\<close>

definition demo_multi :: server where
  "demo_multi = upd_client 1 (\<lambda>x. x\<lparr>c_multi := True, c_mstate := [(''get'', [str ''get'', str ''a'']), (''incr'', [str ''incr'', str ''a''])]\<rparr>)
     (demo_server [''EXEC''])"

lemma demo_multi_ok: "server_ok demo_multi"
proof -
  have "watch_inv (demo_server [''EXEC''])"
    by (auto simp: watch_inv_def idx_ok_def idx_clients_def demo_defs)
  then have "server_ok (demo_server [''EXEC''])" by (simp add: server_ok_def)
  then show ?thesis unfolding demo_multi_def by (rule data.inv_client) simp
qed

lemma data_table_demo:
  "data_table ''get'' = Some \<lparr>cmd_name = ''get'', cmd_arity = 2, cmd_sflags = ''rF'', cmd_proc = getCommand\<rparr>"
  "data_table ''incr'' = Some \<lparr>cmd_name = ''incr'', cmd_arity = 2, cmd_sflags = ''wmF'', cmd_proc = incrCommand\<rparr>"
  by (simp_all add: data_table_def key_entries string_entries)

lemma demo_multi_client: "srv_client demo_multi 1 = (srv_client (demo_server [''EXEC'']) 1)
    \<lparr>c_multi := True, c_mstate := [(''get'', [str ''get'', str ''a'']), (''incr'', [str ''incr'', str ''a''])]\<rparr>"
  by (simp add: demo_multi_def server_simps)

lemma demo_multi_fits: "(name, av) \<in> set (c_mstate (srv_client demo_multi 1)) \<Longrightarrow> fits name av"
  unfolding demo_multi_client by (auto simp: fits_def data_table_demo arity_ok_def)

theorem exec_is_a_block_witness:
  "\<exists>s1 s2 s' pre body. call (exec_entry data_table) 1 demo_multi = Some s' \<and>
    run_calls data_table [(1, ''incr'', [str ''incr'', str ''a''])] (propagate 0 [str ''MULTI''] True True s1) = Some s2 \<and> same_data s2 s' \<and>
    srv_repl s' = pre @ [(0, [str ''MULTI''])] @ body @ [(0, [str ''EXEC''])]"
proof -
  let ?q = "[(''get'', [str ''get'', str ''a'']), (''incr'', [str ''incr'', str ''a''])]"
  have q: "?q = c_mstate (srv_client demo_multi 1)" unfolding demo_multi_client by simp
  have fit: "fits name av" if "(name, av) \<in> set ?q" for name av using demo_multi_fits that unfolding q .
  have w: "\<exists>(name, av) \<in> set ?q. \<not> is_readonly (the (data_table name))"
    by (simp add: is_readonly_def data_table_demo)
  have r: "by_client 1 (write_part data_table ?q) = [(1, ''incr'', [str ''incr'', str ''a''])]"
    by (simp add: by_client_def write_part_def is_readonly_def data_table_demo)
  have f: "c_multi (srv_client demo_multi 1)" "\<not> c_dirty_cas (srv_client demo_multi 1)" "\<not> c_dirty_exec (srv_client demo_multi 1)"
    "client_db 1 demo_multi = 0" "c_argv (srv_client demo_multi 1) = [str ''EXEC'']"
    unfolding demo_multi_client by (simp_all add: demo_defs)
  have "\<exists>s0 s1 s2 s' pre body. call (exec_entry data_table) 1 demo_multi = Some s' \<and> server_ok s' \<and> idle (srv_client s' 1) \<and>
    opened 1 (upd_client 1 (\<lambda>x. x\<lparr>c_force_aof := False, c_force_repl := False\<rparr>) demo_multi) s0 \<and> run_calls data_table (by_client 1 (read_part data_table ?q)) s0 = Some s1 \<and> srv_repl s1 = srv_repl demo_multi @ pre \<and>
    run_calls data_table (by_client 1 (write_part data_table ?q)) (propagate (client_db 1 demo_multi) [str ''MULTI''] True True s1) = Some s2 \<and>
    srv_repl s2 = srv_repl s1 @ [(client_db 1 demo_multi, [str ''MULTI''])] @ body \<and>
    same_data s2 s' \<and> srv_repl s' = srv_repl s2 @ [(client_db 1 demo_multi, c_argv (srv_client demo_multi 1))]"
    by (rule exec_is_a_block [OF demo_multi_ok f(1-3) q fit w])
  then obtain s1 s2 s' pre body where s: "call (exec_entry data_table) 1 demo_multi = Some s'" "same_data s2 s'"
    "run_calls data_table [(1, ''incr'', [str ''incr'', str ''a''])] (propagate 0 [str ''MULTI''] True True s1) = Some s2"
    "srv_repl s2 = srv_repl s1 @ [(0, [str ''MULTI''])] @ body" "srv_repl s' = srv_repl s2 @ [(0, [str ''EXEC''])]"
    unfolding f(4,5) r by blast
  then have "srv_repl s' = srv_repl s1 @ [(0, [str ''MULTI''])] @ body @ [(0, [str ''EXEC''])]" by simp
  then show ?thesis using s(1-3) by blast
qed

section \<open>Optimistic locking\<close>

lemma exec_dirty:
  assumes "watch_inv s" "c_multi (srv_client s c)" "c_dirty_cas (srv_client s c) \<or> c_dirty_exec (srv_client s c)"
  shows "\<exists>s'. execCommand tbl c s = Some s' \<and> watch_inv s' \<and> idle (srv_client s' c) \<and> live s' = live s \<and> srv_repl s' = srv_repl s \<and>
    srv_dirty s' = srv_dirty s \<and>
    last (c_reply (srv_client s' c)) = (if c_dirty_exec (srv_client s c) then shared_execaborterr else NullMultiBulk)"
proof -
  let ?r = "if c_dirty_exec (srv_client s c) then shared_execaborterr else NullMultiBulk"
  let ?s1 = "upd_client c (\<lambda>x. x\<lparr>c_mstate := [], c_multi := False, c_dirty_cas := False, c_dirty_exec := False\<rparr>) (addReply c ?r s)"
  have "watch_inv (addReply c ?r s)" using assms(1) by simp
  then obtain s' where s': "discardTransaction c (addReply c ?r s) = Some s'" "watch_inv s'" "idle (srv_client s' c)" "same_but_watch ?s1 s' c"
    using discardTransaction_spec by blast
  have "live ?s1 i k = live s i k" for i k by (simp add: live_def expired_def now_def addReply_def server_simps cong: option.case_cong)
  then have "live s' = live s" using same_but_watch_live [OF s'(4)] by (metis ext)
  moreover have "execCommand tbl c s = Some s'" using assms(2,3) s'(1) by (auto simp: execCommand_def Let_def)
  moreover have "srv_repl s' = srv_repl s" "srv_dirty s' = srv_dirty s" "last (c_reply (srv_client s' c)) = ?r"
    using same_but_watch_frame(3,4) [OF s'(4)] same_but_watch_client(7) [OF s'(4), of c]
    by (simp_all add: addReply_def server_simps)
  ultimately show ?thesis using s'(2,3) by blast
qed

lemma call_sound:
  assumes s: "server_ok s" and cmd: "data_table name = Some cmd" and f: "fits name (c_argv (srv_client s c))" "name \<notin> {''move'', ''persist''}"
  shows "wp (call cmd c s) (sound s)"
proof -
  let ?s0 = "upd_client c (\<lambda>x. x\<lparr>c_force_aof := False, c_force_repl := False\<rparr>) s"
  have st: "step {} t (upd_client c (\<lambda>x. x\<lparr>c_force_aof := p, c_force_repl := q\<rparr>) t)" for t p q by (rule step_client) simp_all
  have s0: "server_ok ?s0" by (rule data.inv_client [OF s]) simp
  have b: "sound s ?s0" using sound_step [OF st] s by (simp add: server_ok_def)
  have "wp (cmd_proc cmd c ?s0) (sound ?s0)"
    by (rule data_command_cases(1) [OF s0 cmd _ f(2)]) (use f(1) in \<open>simp add: server_simps\<close>)
  then obtain s1 where s1: "cmd_proc cmd c ?s0 = Some s1" "sound s s1" using sound_trans [OF b] by (auto simp: wp_def)
  have "sound s (if p then propagate d av x y s1 else s1)" for p d av x y using s1(2) sound_then step_propagate by simp
  then show ?thesis using s1(1) sound_then [OF _ st] by (simp add: call_def Let_def)
qed

lemma run_calls_sound:
  "server_ok s \<Longrightarrow> \<forall>(c, name, av) \<in> set steps. fits name av \<and> name \<notin> {''move'', ''persist''} \<Longrightarrow> wp (run_calls data_table steps s) (sound s)"
proof (induction steps arbitrary: s)
  case Nil
  then show ?case by (simp add: sound_refl server_ok_def)
next
  case (Cons x steps)
  obtain c name av where x: "x = (c, name, av)" by (cases x)
  have f: "fits name av" "name \<notin> {''move'', ''persist''}" using Cons.prems(2) x by auto
  then obtain cmd where cmd: "data_table name = Some cmd" by (auto simp: fits_def split: option.splits)
  let ?s = "upd_client c (\<lambda>x. x\<lparr>c_argv := av, c_cmd := name\<rparr>) s"
  have s: "server_ok ?s" by (rule data.inv_client [OF Cons.prems(1)]) simp
  have "step {} s ?s" by (rule step_client) simp_all
  then have b: "sound s ?s" using sound_step Cons.prems(1) by (simp add: server_ok_def)
  have "wp (call cmd c ?s) (sound ?s)" by (rule call_sound [OF s cmd _ f(2)]) (use f(1) in \<open>simp add: server_simps\<close>)
  then show ?case unfolding x run_calls.simps cmd Option.bind.simps wp_bind
  proof (rule wp_mono, goal_cases)
    case (1 s1)
    have "wp (run_calls data_table steps s1) (sound s1)"
      using Cons.IH [OF sound_server_ok [OF 1 s]] Cons.prems(2) by simp
    then show ?case by (rule wp_mono) (rule sound_trans [OF sound_trans [OF b 1]])
  qed
qed

text \<open>
  C1. Optimistic locking, end to end: a client in \<open>MULTI\<close> watches a key, any clients then run any sequence of the modelled commands on keys and
  strings except \<open>MOVE\<close> and \<open>PERSIST\<close>, which do not signal, while the clock stands still, and the key looks different at the
  end. Then \<open>EXEC\<close> of the watching client runs none of its queued commands: it answers nil, or \<open>EXECABORT\<close> if queueing had
  failed, no key changes, nothing is sent to the slaves, and the client is out of its transaction.
\<close>

theorem optimistic_locking:
  assumes "server_ok s" "(d, k) \<in> set (c_watched_keys (srv_client s c))" "c_multi (srv_client s c)"
    and "\<forall>(i, name, av) \<in> set steps. fits name av \<and> name \<notin> {''move'', ''persist''}"
  shows "\<exists>s1. run_calls data_table steps s = Some s1 \<and> server_ok s1 \<and>
    (live s1 d k \<noteq> live s d k \<longrightarrow>
      (\<exists>s2. execCommand tbl c s1 = Some s2 \<and> live s2 = live s1 \<and> srv_repl s2 = srv_repl s1 \<and> idle (srv_client s2 c) \<and>
        last (c_reply (srv_client s2 c)) = (if c_dirty_exec (srv_client s c) then shared_execaborterr else NullMultiBulk)))"
proof -
  obtain s1 where s1: "run_calls data_table steps s = Some s1" "sound s s1"
    using run_calls_sound [OF assms(1,4)] by (auto simp: wp_def)
  have ok: "server_ok s1" by (rule sound_server_ok [OF s1(2) assms(1)])
  have e: "env s s1" by (rule sound_env [OF s1(2)])
  have c: "c \<in> set (idx_clients (db_watched_keys (srv_db s1 d)) k)" "c_multi (srv_client s1 c)"
    "c_dirty_exec (srv_client s1 c) = c_dirty_exec (srv_client s c)"
    using assms(1-3) e by (auto simp: server_ok_def watch_inv_def env_def)
  have "c_dirty_cas (srv_client s1 c)" if "live s1 d k \<noteq> live s d k"
    using safe_touched [OF _ that] s1(2) c(1) by (auto simp: sound_def touched_def)
  then show ?thesis using s1(1) ok exec_dirty [of s1 c tbl] c(2,3) by (auto simp: server_ok_def)
qed

definition demo_watch :: server where
  "demo_watch = upd_client 1 (\<lambda>x. x\<lparr>c_multi := True\<rparr>) (watchForKey 1 (str ''a'') (demo_server []))"

lemma ks_ok_dbs:
  "(\<And>d. db_dict (srv_db s' d) = db_dict (srv_db s d)) \<Longrightarrow> (\<And>d. db_expires (srv_db s' d) = db_expires (srv_db s d)) \<Longrightarrow>
   srv_pubsub_patterns s' = srv_pubsub_patterns s \<Longrightarrow> ks_ok s' = ks_ok s"
  by (simp add: ks_ok_def db_ok_def pats_safe_def)

lemma watchForKey_more: "srv_pubsub_patterns (watchForKey c k s) = srv_pubsub_patterns s" "srv_repl (watchForKey c k s) = srv_repl s"
  "srv_loading (watchForKey c k s) = srv_loading s" "now (watchForKey c k s) = now s"
  by (simp_all add: watchForKey_def Let_def server_simps now_def)

lemma watchForKey_ks_ok: "ks_ok (watchForKey c k s) = ks_ok s"
  by (rule ks_ok_dbs) (simp_all add: watchForKey_frame watchForKey_more)

lemma watchForKey_live: "live (watchForKey c k s) = live s"
  by (intro ext) (simp add: live_def expired_def watchForKey_frame watchForKey_more cong: option.case_cong)

lemma watch_fold_frame:
  "ks_ok (fold (watchForKey c) ks s) = ks_ok s \<and> live (fold (watchForKey c) ks s) = live s \<and> srv_repl (fold (watchForKey c) ks s) = srv_repl s"
  by (induction ks arbitrary: s) (simp_all add: watchForKey_ks_ok watchForKey_live watchForKey_more)

lemma watch_fold_client:
  "\<exists>ws. srv_client (fold (watchForKey c) ks s) = (srv_client s)(c := (srv_client s c)\<lparr>c_watched_keys := ws\<rparr>) \<and>
     set ws = set (c_watched_keys (srv_client s c)) \<union> Pair (client_db c s) ` set ks"
proof (induction ks arbitrary: s)
  case Nil
  show ?case by (intro exI [of _ "c_watched_keys (srv_client s c)"]) simp
next
  case (Cons k ks)
  obtain v where v: "srv_client (watchForKey c k s) = (srv_client s)(c := (srv_client s c)\<lparr>c_watched_keys := v\<rparr>)"
    "set v = insert (client_db c s, k) (set (c_watched_keys (srv_client s c)))"
    by (cases "(client_db c s, k) \<in> set (c_watched_keys (srv_client s c))")
      (force simp: watchForKey_def Let_def upd_client_def upd_db_def intro: that)+
  obtain ws where "srv_client (fold (watchForKey c) ks (watchForKey c k s)) =
      (srv_client (watchForKey c k s))(c := (srv_client (watchForKey c k s) c)\<lparr>c_watched_keys := ws\<rparr>)"
    "set ws = set (c_watched_keys (srv_client (watchForKey c k s) c)) \<union> Pair (client_db c (watchForKey c k s)) ` set ks"
    using Cons.IH by blast
  then show ?case using v by (intro exI [of _ ws]) (auto simp: watchForKey_frame)
qed

lemma client_frame: "live (upd_client c f s) = live s" "ks_ok (upd_client c f s) = ks_ok s"
  "live (addReply c r s) = live s" "ks_ok (addReply c r s) = ks_ok s" "live (addReplyError c m s) = live s" "ks_ok (addReplyError c m s) = ks_ok s"
  unfolding addReplyError_def addReply_def
  by ((intro ext)?, simp add: live_def expired_def now_def server_simps ks_ok_def pats_safe_def cong: option.case_cong)+

text \<open>A command of one client that changes nothing but that client: it gets a reply and its record changes by \<open>f\<close>.\<close>

definition answered :: "nat \<Rightarrow> reply \<Rightarrow> (client \<Rightarrow> client) \<Rightarrow> server \<Rightarrow> server \<Rightarrow> bool" where
  "answered c r f s s' \<longleftrightarrow> server_ok s' \<and> live s' = live s \<and> srv_repl s' = srv_repl s \<and>
     srv_client s' = (srv_client s)(c := (f (srv_client s c))\<lparr>c_reply := c_reply (srv_client s c) @ [r]\<rparr>)"

lemma answered_reply:
  assumes "server_ok s'" "live s' = live s" "srv_repl s' = srv_repl s" "srv_client s' = (srv_client s)(c := f (srv_client s c))"
    and "c_reply (f (srv_client s c)) = c_reply (srv_client s c)"
  shows "answered c r f s (addReply c r s')"
proof -
  have "server_ok (addReply c r s')" unfolding addReply_def by (rule data.inv_client [OF assms(1)]) simp
  moreover have "srv_client (addReply c r s') = (srv_client s)(c := (f (srv_client s c))\<lparr>c_reply := c_reply (srv_client s c) @ [r]\<rparr>)"
    unfolding addReply_def upd_client_def by (simp add: assms(4,5))
  moreover have "srv_repl (addReply c r s') = srv_repl s" using assms(3) by (simp add: addReply_def server_simps)
  ultimately show ?thesis unfolding answered_def using assms(2) by (simp only: client_frame simp_thms)
qed

lemma answered_unwatch:
  assumes "server_ok s" "same_but_watch (upd_client c f s) s' c" "watch_inv s'" "c_watched_keys (srv_client s' c) = []"
    and "\<And>x. c_reply (f x) = c_reply x" "\<And>x. c_watched_keys (f x) = c_watched_keys x"
  shows "answered c r (\<lambda>x. (f x)\<lparr>c_watched_keys := []\<rparr>) s (addReply c r s')"
proof (rule answered_reply)
  have "server_ok (upd_client c f s)" by (rule data.inv_client [OF assms(1)]) (simp add: assms(6))
  then show "server_ok s'" by (rule data.inv_unwatch [OF _ assms(2,3)])
  show "live s' = live s" using same_but_watch_live [OF assms(2)] by (simp add: client_frame)
  show "srv_repl s' = srv_repl s" using same_but_watch_frame(3) [OF assms(2)] by (simp add: server_simps)
  show "srv_client s' = (srv_client s)(c := (f (srv_client s c))\<lparr>c_watched_keys := []\<rparr>)"
  proof
    fix i
    show "srv_client s' i = ((srv_client s)(c := (f (srv_client s c))\<lparr>c_watched_keys := []\<rparr>)) i"
      using same_but_watch_frame(7) [OF assms(2), of i] unfolding assms(4) by (simp add: server_simps)
  qed
qed (simp add: assms(5))

text \<open>
  C30. The commands around transactions, in every case: each returns, changes no key, sends nothing to the slaves, keeps the lists of
  watchers of the data bases and the lists of watched keys of the clients in agreement, and changes nothing of any
  client but its caller, who gets exactly one reply. \<open>WATCH\<close> inside a transaction, a nested \<open>MULTI\<close> and \<open>DISCARD\<close> without \<open>MULTI\<close>
  answer their errors and change nothing else. Otherwise \<open>WATCH\<close> adds exactly the keys it names, in the client's data base,
  to those it watches; \<open>UNWATCH\<close> leaves it with none and clears its dirty mark; \<open>MULTI\<close> opens the transaction; \<open>DISCARD\<close> leaves
  nothing of it.
\<close>

theorem transaction_commands_ok:
  assumes "server_ok s" "c \<in> set (srv_clients s)"
  shows "(\<exists>s'. watchCommand c s = Some s' \<and>
       (if c_multi (srv_client s c) then answered c (Error (str ''ERR WATCH inside MULTI is not allowed'')) (\<lambda>x. x) s s'
        else \<exists>ws. answered c shared_ok (\<lambda>x. x\<lparr>c_watched_keys := ws\<rparr>) s s' \<and>
          set ws = set (c_watched_keys (srv_client s c)) \<union> Pair (client_db c s) ` set (args c s))) \<and>
     (\<exists>s'. unwatchCommand c s = Some s' \<and> answered c shared_ok (\<lambda>x. x\<lparr>c_dirty_cas := False, c_watched_keys := []\<rparr>) s s') \<and>
     (\<exists>s'. multiCommand c s = Some s' \<and>
       (if c_multi (srv_client s c) then answered c (Error (str ''ERR MULTI calls can not be nested'')) (\<lambda>x. x) s s'
        else answered c shared_ok (\<lambda>x. x\<lparr>c_multi := True\<rparr>) s s')) \<and>
     (\<exists>s'. discardCommand c s = Some s' \<and>
       (if \<not> c_multi (srv_client s c) then answered c (Error (str ''ERR DISCARD without MULTI'')) (\<lambda>x. x) s s'
        else answered c shared_ok (\<lambda>x. x\<lparr>c_mstate := [], c_multi := False, c_dirty_cas := False, c_dirty_exec := False, c_watched_keys := []\<rparr>) s s'))"
    (is "?watch \<and> ?unwatch \<and> ?multi \<and> ?discard")
proof (intro conjI)
  have ok: "ks_ok s" "watch_inv s" using assms(1) by (simp_all add: server_ok_def)
  have err: "answered c r (\<lambda>x. x) s (addReply c r s)" for r by (rule answered_reply [OF assms(1)]) simp_all
  let ?w = "fold (watchForKey c) (args c s) s"
  have w: "server_ok ?w" "live ?w = live s" "srv_repl ?w = srv_repl s"
    using watch_fold [OF ok(2) assms(2)] watch_fold_frame ok(1) by (auto simp: server_ok_def)
  obtain ws where ws: "srv_client ?w = (srv_client s)(c := (srv_client s c)\<lparr>c_watched_keys := ws\<rparr>)"
    "set ws = set (c_watched_keys (srv_client s c)) \<union> Pair (client_db c s) ` set (args c s)" using watch_fold_client by blast
  have "answered c shared_ok (\<lambda>x. x\<lparr>c_watched_keys := ws\<rparr>) s (addReply c shared_ok ?w)"
    by (rule answered_reply [OF w]) (simp_all add: ws(1))
  then show ?watch using err ws(2) by (auto simp: watchCommand_def addReplyError_def)
  obtain s1 where s1: "unwatchAllKeys c s = Some s1" "watch_inv s1" "c_watched_keys (srv_client s1 c) = []" "same_but_watch s s1 c"
    using unwatchAllKeys_spec [OF ok(2)] by blast
  let ?cas = "\<lambda>x :: client. x\<lparr>c_dirty_cas := False\<rparr>"
  have "same_but_watch (upd_client c ?cas s) (upd_client c ?cas s1) c" by (rule same_but_watch_upd [OF s1(4)]) simp
  from answered_unwatch [OF assms(1) this, of shared_ok] show ?unwatch
    using s1 by (simp add: unwatchCommand_def watch_inv_client server_simps)
  have "server_ok (upd_client c (\<lambda>x. x\<lparr>c_multi := True\<rparr>) s)" by (rule data.inv_client [OF assms(1)]) simp
  from answered_reply [OF this, of s c "\<lambda>x. x\<lparr>c_multi := True\<rparr>" shared_ok] show ?multi
    using err by (simp add: multiCommand_def addReplyError_def client_frame) (simp add: upd_client_def)
  obtain s2 where s2: "discardTransaction c s = Some s2" "watch_inv s2" "idle (srv_client s2 c)"
    "same_but_watch (upd_client c (\<lambda>x. x\<lparr>c_mstate := [], c_multi := False, c_dirty_cas := False, c_dirty_exec := False\<rparr>) s) s2 c"
    using discardTransaction_spec [OF ok(2), of c] by blast
  from answered_unwatch [OF assms(1) s2(4,2), of shared_ok] show ?discard
    using s2(1,3) err by (simp add: discardCommand_def addReplyError_def idle_def)
qed

theorem transaction_commands_ok_witness:
  "\<exists>s'. watchCommand 1 (demo_server [''watch'', ''a'', ''b'']) = Some s' \<and> server_ok s' \<and> last (c_reply (srv_client s' 1)) = shared_ok \<and>
     set (c_watched_keys (srv_client s' 1)) = {(0, str ''a''), (0, str ''b'')}"
proof -
  let ?s = "demo_server [''watch'', ''a'', ''b'']"
  have w: "watch_inv ?s" "1 \<in> set (srv_clients ?s)" "\<not> c_multi (srv_client ?s 1)" "args 1 ?s = [str ''a'', str ''b'']"
    "c_watched_keys (srv_client ?s 1) = []" "client_db 1 ?s = 0"
    by (auto simp: watch_inv_def idx_ok_def idx_clients_def args_def demo_defs)
  then have "server_ok ?s" by (simp add: server_ok_def)
  from transaction_commands_ok [OF this w(2), THEN conjunct1] show ?thesis
    unfolding if_not_P [OF w(3)] w(4-6) by (auto simp: answered_def)
qed

theorem optimistic_locking_witness:
  "\<exists>s1 s2. run_calls data_table [(2, ''incr'', [str ''incr'', str ''a''])] demo_watch = Some s1 \<and>
     live s1 0 (str ''a'') \<noteq> live demo_watch 0 (str ''a'') \<and> execCommand data_table 1 s1 = Some s2 \<and>
     live s2 = live s1 \<and> srv_repl s2 = srv_repl s1 \<and> last (c_reply (srv_client s2 1)) = NullMultiBulk"
proof -
  have w: "watch_inv (demo_server [])" "1 \<in> set (srv_clients (demo_server []))"
    by (auto simp: watch_inv_def idx_ok_def idx_clients_def demo_defs)
  have "server_ok (watchForKey 1 (str ''a'') (demo_server []))"
    using watchForKey_inv [OF w] by (simp add: server_ok_def watchForKey_ks_ok)
  then have ok: "server_ok demo_watch" unfolding demo_watch_def by (rule data.inv_client) simp
  have m: "(0, str ''a'') \<in> set (c_watched_keys (srv_client demo_watch 1))" "c_multi (srv_client demo_watch 1)"
    "\<not> c_dirty_exec (srv_client demo_watch 1)"
    by (simp_all add: demo_watch_def watchForKey_def Let_def demo_defs)
  have f: "\<forall>(i, name, av) \<in> set [(2, ''incr'', [str ''incr'', str ''a''])]. fits name av \<and> name \<notin> {''move'', ''persist''}"
    by (simp add: fits_def data_table_demo arity_ok_def)
  have l: "live demo_watch 0 (str ''a'') = Some (StrObj (ENC_RAW (str ''1'')))"
    "map_option (\<lambda>s. live s 0 (str ''a'')) (run_calls data_table [(2, ''incr'', [str ''incr'', str ''a''])] demo_watch) =
       Some (Some (StrObj (createStringObjectFromLongLong 2)))" by code_simp+
  have ne: "StrObj (createStringObjectFromLongLong 2) \<noteq> StrObj (ENC_RAW (str ''1''))" by code_simp
  from optimistic_locking [OF ok m(1,2) f, of data_table] obtain s1 where
    s1: "run_calls data_table [(2, ''incr'', [str ''incr'', str ''a''])] demo_watch = Some s1"
    "live s1 0 (str ''a'') \<noteq> live demo_watch 0 (str ''a'') \<longrightarrow>
      (\<exists>s2. execCommand data_table 1 s1 = Some s2 \<and> live s2 = live s1 \<and> srv_repl s2 = srv_repl s1 \<and> idle (srv_client s2 1) \<and>
        last (c_reply (srv_client s2 1)) = (if c_dirty_exec (srv_client demo_watch 1) then shared_execaborterr else NullMultiBulk))" by blast
  have "live s1 0 (str ''a'') \<noteq> live demo_watch 0 (str ''a'')" using l(2) ne unfolding s1(1) l(1) by simp
  then show ?thesis using s1 unfolding if_not_P [OF m(3)] by blast
qed

section \<open>A snapshot inside a transaction\<close>

text \<open>
  A successful \<open>rdbSave\<close> sets the count of changes to 0. When a queued command does that after a write, the change of
  the count over the whole of \<open>EXEC\<close> is not positive: \<open>MULTI\<close> has gone to the slaves, and \<open>EXEC\<close> does not follow.
\<close>

definition save_entry :: redisCommand where
  "save_entry = \<lparr>cmd_name = ''save'', cmd_arity = 1, cmd_sflags = ''ars'',
     cmd_proc = (\<lambda>c s. Some (addReply c shared_ok (s\<lparr>srv_dirty := 0\<rparr>)))\<rparr>"

definition demo_save :: server where
  "demo_save = (upd_client 1 (\<lambda>x. x\<lparr>c_multi := True, c_mstate := [(''set'', [str ''set'', str ''a'', str ''x'']), (''save'', [str ''save''])]\<rparr>)
     (demo_server [''EXEC'']))\<lparr>srv_dirty := 3\<rparr>"

lemma exec_save_unclosed:
  "map_option srv_repl (call (exec_entry (data_table(''save'' \<mapsto> save_entry))) 1 demo_save) =
     Some [(0, [str ''MULTI'']), (0, [str ''set'', str ''a'', str ''x''])]"
  by code_simp

end
