(* ===== verification/Protocol.thy ===== *)
theory Protocol
  imports Sds_Text
begin

text \<open>
  The request parser of networking.c: bytes from a connection become argument vectors. The state
  is the part of \<open>redisClient\<close> that the parser keeps between reads. The query buffer is the byte
  sequence of its dynamic string, and \<open>sdsrange\<close> acts on it as \<open>range_bytes\<close>, which the theory of
  the strings shows. A failed assertion is \<open>None\<close>. Errors sent to the client are collected in
  \<open>q_errors\<close>.

  The main theorem is about pipelined requests that arrive in pieces, cut anywhere.
\<close>

section \<open>State\<close>

record conn =
  querybuf :: bytes
  q_argv :: "bytes list"
  reqtype :: nat
  multibulklen :: nat
  bulklen :: int
  q_blocked :: bool
  q_close :: bool
  q_slave :: bool
  repl_ack_time :: int
  q_errors :: "bytes list"

abbreviation REDIS_REQ_INLINE :: nat where "REDIS_REQ_INLINE \<equiv> 1"
abbreviation REDIS_REQ_MULTIBULK :: nat where "REDIS_REQ_MULTIBULK \<equiv> 2"
abbreviation REDIS_IOBUF_LEN :: int where "REDIS_IOBUF_LEN \<equiv> 16384"
abbreviation REDIS_INLINE_MAX_SIZE :: int where "REDIS_INLINE_MAX_SIZE \<equiv> 65536"
abbreviation REDIS_MBULK_BIG_ARG :: int where "REDIS_MBULK_BIG_ARG \<equiv> 32768"

definition new_conn :: conn where
  "new_conn = \<lparr>querybuf = [], q_argv = [], reqtype = 0, multibulklen = 0, bulklen = - 1, q_blocked = False,
     q_close = False, q_slave = False, repl_ack_time = 0, q_errors = []\<rparr>"

definition resetClient :: "conn \<Rightarrow> conn" where
  "resetClient c = c\<lparr>q_argv := [], reqtype := 0, multibulklen := 0, bulklen := - 1\<rparr>"

text \<open>\<open>strchr\<close> from an offset of the buffer; a zero byte ends the search.\<close>

definition strchr_from :: "bytes \<Rightarrow> nat \<Rightarrow> byte \<Rightarrow> nat option" where
  "strchr_from q pos ch =
    (let t = c_str (drop pos q); i = length (takeWhile (\<lambda>x. x \<noteq> ch) t)
     in if i < length t then Some (pos + i) else None)"

definition qrange :: "nat \<Rightarrow> conn \<Rightarrow> conn" where
  "qrange pos c = c\<lparr>querybuf := range_bytes (querybuf c) (int pos) (- 1)\<rparr>"

definition qerror :: "string \<Rightarrow> conn \<Rightarrow> conn" where
  "qerror msg c = c\<lparr>q_errors := q_errors c @ [map (of_nat \<circ> of_char) msg]\<rparr>"

definition setProtocolError :: "nat \<Rightarrow> conn \<Rightarrow> conn" where
  "setProtocolError pos c = qrange pos (c\<lparr>q_close := True\<rparr>)"

abbreviation qlen :: "conn \<Rightarrow> int" where
  "qlen c \<equiv> int (length (querybuf c))"

section \<open>Inline requests\<close>

definition processInlineBuffer :: "int \<Rightarrow> conn \<Rightarrow> conn \<times> bool" where
  "processInlineBuffer unixtime c =
    (case strchr_from (querybuf c) 0 10 of
       None \<Rightarrow>
         (if qlen c > REDIS_INLINE_MAX_SIZE
          then setProtocolError 0 (qerror ''Protocol error: too big inline request'' c) else c, False)
     | Some nl \<Rightarrow>
         let newline = (if nl \<noteq> 0 \<and> querybuf c ! (nl - 1) = 13 then nl - 1 else nl);
             querylen = newline
         in case sdssplitargs (take querylen (querybuf c)) of
              None \<Rightarrow> (setProtocolError 0 (qerror ''Protocol error: unbalanced quotes in request'' c), False)
            | Some argv \<Rightarrow>
                let c = (if querylen = 0 \<and> q_slave c then c\<lparr>repl_ack_time := unixtime\<rparr> else c);
                    c = qrange (querylen + 2) c
                in (c\<lparr>q_argv := filter (\<lambda>a. a \<noteq> []) argv\<rparr>, True))"

section \<open>Multi bulk requests\<close>

text \<open>Reading the line that holds the length of the next argument: stop with an error, wait for
  more bytes, or go on at a new position.\<close>

datatype header = Failed conn | Waiting | Known conn nat

definition bulk_header :: "nat \<Rightarrow> conn \<Rightarrow> header" where
  "bulk_header pos c =
    (case strchr_from (querybuf c) pos 13 of
       None \<Rightarrow>
         if qlen c > REDIS_INLINE_MAX_SIZE
         then Failed (setProtocolError 0 (qerror ''Protocol error: too big bulk count string'' c))
         else Waiting
     | Some newline \<Rightarrow>
         if int newline > qlen c - 2 then Waiting
         else if querybuf c ! pos \<noteq> 36 then
           Failed (setProtocolError pos (c\<lparr>q_errors := q_errors c @
             [map (of_nat \<circ> of_char) ''Protocol error: expected '' @ [39, 36, 39, 44, 32] @
              map (of_nat \<circ> of_char) ''got '' @ [39, querybuf c ! pos, 39]]\<rparr>))
         else case string2ll (take (newline - (pos + 1)) (drop (pos + 1) (querybuf c))) of
             None \<Rightarrow> Failed (setProtocolError pos (qerror ''Protocol error: invalid bulk length'' c))
           | Some ll \<Rightarrow>
               if ll < 0 \<or> ll > 536870912
               then Failed (setProtocolError pos (qerror ''Protocol error: invalid bulk length'' c))
               else let pos = pos + (newline - pos + 2);
                        (c, pos) = (if ll \<ge> REDIS_MBULK_BIG_ARG then (qrange pos c, 0) else (c, pos))
                    in Known (c\<lparr>bulklen := ll\<rparr>) pos)"

text \<open>
  The argument itself. The comparison is between \<open>size_t\<close> and \<open>unsigned\<close> values. When the buffer
  holds just the one big argument it becomes the argument, and a fresh buffer takes its place.
\<close>

definition bulk_argument :: "nat \<Rightarrow> conn \<Rightarrow> (conn \<times> nat) option" where
  "bulk_argument pos c =
    (if (qlen c - int pos) mod 18446744073709551616 < (bulklen c + 2) mod 4294967296 then None
     else let (c, pos) =
            (if pos = 0 \<and> bulklen c \<ge> REDIS_MBULK_BIG_ARG \<and> qlen c = bulklen c + 2
             then (c\<lparr>q_argv := q_argv c @ [take (length (querybuf c) - 2) (querybuf c)], querybuf := []\<rparr>, 0)
             else (c\<lparr>q_argv := q_argv c @ [take (nat (bulklen c)) (drop pos (querybuf c))]\<rparr>, pos + nat (bulklen c + 2)))
          in Some (c\<lparr>bulklen := - 1, multibulklen := multibulklen c - 1\<rparr>, pos))"

text \<open>The loop over the arguments; its count is \<open>multibulklen\<close>. \<open>Inl\<close> is an error return.\<close>

fun bulk_loop :: "nat \<Rightarrow> nat \<Rightarrow> conn \<Rightarrow> conn + conn \<times> nat" where
  "bulk_loop 0 pos c = Inr (c, pos)"
| "bulk_loop (Suc n) pos c =
    (case (if bulklen c = - 1 then bulk_header pos c else Known c pos) of
       Failed c \<Rightarrow> Inl c
     | Waiting \<Rightarrow> Inr (c, pos)
     | Known c pos \<Rightarrow>
         (case bulk_argument pos c of
            None \<Rightarrow> Inr (c, pos)
          | Some (c, pos) \<Rightarrow> bulk_loop n pos c))"

definition bulk_finish :: "nat \<Rightarrow> conn \<Rightarrow> conn \<times> bool" where
  "bulk_finish pos c = (case bulk_loop (multibulklen c) pos c of
      Inl c \<Rightarrow> (c, False)
    | Inr (c, pos) \<Rightarrow> let c = (if pos \<noteq> 0 then qrange pos c else c) in (c, multibulklen c = 0))"

definition processMultibulkBuffer :: "conn \<Rightarrow> (conn \<times> bool) option" where
  "processMultibulkBuffer c =
    (if multibulklen c \<noteq> 0 then Some (bulk_finish 0 c)
     else if q_argv c \<noteq> [] then None
     else case strchr_from (querybuf c) 0 13 of
         None \<Rightarrow> Some (if qlen c > REDIS_INLINE_MAX_SIZE
            then setProtocolError 0 (qerror ''Protocol error: too big mbulk count string'' c) else c, False)
       | Some newline \<Rightarrow>
           if int newline > qlen c - 2 then Some (c, False)
           else if querybuf c ! 0 \<noteq> 42 then None
           else case string2ll (take (newline - 1) (drop 1 (querybuf c))) of
               None \<Rightarrow> Some (setProtocolError 0 (qerror ''Protocol error: invalid multibulk length'' c), False)
             | Some ll \<Rightarrow>
                 if ll > 1048576
                 then Some (setProtocolError 0 (qerror ''Protocol error: invalid multibulk length'' c), False)
                 else let pos = newline + 2 in
                   if ll \<le> 0 then Some (qrange pos c, True)
                   else Some (bulk_finish pos (c\<lparr>multibulklen := nat ll\<rparr>)))"

section \<open>Running the requests\<close>

text \<open>
  What the input loop observes of \<open>processCommand\<close>: whether it returned \<open>REDIS_OK\<close>, and whether
  it set the flags of a blocked client and of a client to be closed. The loop may go on as long
  as the buffer has bytes; \<open>None\<close> is a failed assertion, or more rounds than the first argument allows.
\<close>

record outcome =
  o_ok :: bool
  o_blocked :: bool
  o_close :: bool

type_synonym 's handler = "bytes list \<Rightarrow> 's \<Rightarrow> 's \<times> outcome"

fun input_loop :: "nat \<Rightarrow> 's handler \<Rightarrow> int \<Rightarrow> conn \<Rightarrow> 's \<Rightarrow> (conn \<times> 's) option" where
  "input_loop 0 pc t c s = None"
| "input_loop (Suc n) pc t c s =
    (if querybuf c = [] then Some (c, s)
     else if q_blocked c then Some (c, s)
     else if q_close c then Some (c, s)
     else do {
       let c = (if reqtype c = 0
                then c\<lparr>reqtype := if querybuf c ! 0 = 42 then REDIS_REQ_MULTIBULK else REDIS_REQ_INLINE\<rparr> else c);
       (c, ok) \<leftarrow> (if reqtype c = REDIS_REQ_INLINE then Some (processInlineBuffer t c)
                  else if reqtype c = REDIS_REQ_MULTIBULK then processMultibulkBuffer c
                  else None);
       if \<not> ok then Some (c, s)
       else if q_argv c = [] then input_loop n pc t (resetClient c) s
       else let (s, r) = pc (q_argv c) s;
                c = c\<lparr>q_blocked := o_blocked r, q_close := o_close r\<rparr>
            in input_loop n pc t (if o_ok r then resetClient c else c) s
     })"

definition processInputBuffer :: "'s handler \<Rightarrow> int \<Rightarrow> conn \<Rightarrow> 's \<Rightarrow> (conn \<times> 's) option" where
  "processInputBuffer pc t c s = input_loop (length (querybuf c) + 1) pc t c s"

text \<open>How many bytes the next read asks for, and the read itself with the bytes it delivered.\<close>

definition readlen :: "conn \<Rightarrow> int" where
  "readlen c =
    (if reqtype c = REDIS_REQ_MULTIBULK \<and> multibulklen c \<noteq> 0 \<and> bulklen c \<noteq> - 1 \<and> bulklen c \<ge> REDIS_MBULK_BIG_ARG
     then let remaining = int32 (bulklen c + 2 - qlen c) in if remaining < REDIS_IOBUF_LEN then remaining else REDIS_IOBUF_LEN
     else REDIS_IOBUF_LEN)"

text \<open>\<open>Inl\<close> is the client freed because its buffer has grown over the configured limit.\<close>

definition readQueryFromClient :: "'s handler \<Rightarrow> int \<Rightarrow> int \<Rightarrow> bytes \<Rightarrow> conn \<Rightarrow> 's \<Rightarrow> ('s + conn \<times> 's) option" where
  "readQueryFromClient pc t client_max_querybuf_len data c s =
    (let c = c\<lparr>querybuf := querybuf c @ data\<rparr> in
     if qlen c > client_max_querybuf_len then Some (Inl s)
     else map_option Inr (processInputBuffer pc t c s))"

section \<open>The wire format of a request\<close>

definition enc_bulk :: "bytes \<Rightarrow> bytes" where
  "enc_bulk a = 36 # dec (length a) @ 13 # 10 # a @ [13, 10]"

definition enc_request :: "bytes list \<Rightarrow> bytes" where
  "enc_request args = 42 # dec (length args) @ 13 # 10 # concat (map enc_bulk args)"

text \<open>What is still to come of the arguments \<open>as\<close> when the length of the first one is known or not.\<close>

definition pending :: "int \<Rightarrow> bytes list \<Rightarrow> bytes" where
  "pending b as = (if b = - 1 then concat (map enc_bulk as) else hd as @ 13 # 10 # concat (map enc_bulk (tl as)))"

definition bulk_ok :: "bytes \<Rightarrow> bool" where
  "bulk_ok a \<longleftrightarrow> length a \<le> 536870912"

definition request_ok :: "bytes list \<Rightarrow> bool" where
  "request_ok args \<longleftrightarrow> args \<noteq> [] \<and> length args \<le> 1048576 \<and> (\<forall>a\<in>set args. bulk_ok a)"

section \<open>Searching and cutting the buffer\<close>

lemma range_bytes_drop: "range_bytes q (int p) (- 1) = drop p q"
  by (cases q) (auto simp: range_bytes_def clip_index_def)

lemma qrange_drop: "qrange p c = c\<lparr>querybuf := drop p (querybuf c)\<rparr>"
  by (simp add: qrange_def range_bytes_drop)

lemma strchr_from_found:
  assumes "drop pos q = h @ ch # y" "0 \<notin> set h" "ch \<notin> set h" "ch \<noteq> 0"
  shows "strchr_from q pos ch = Some (pos + length h)"
proof -
  have "c_str (drop pos q) = h @ ch # c_str y"
    using assms by (auto simp: c_str_def takeWhile_append)
  moreover have "takeWhile (\<lambda>x. x \<noteq> ch) (h @ ch # c_str y) = h"
    using assms(3) by (induction h) auto
  ultimately show ?thesis by (simp add: strchr_from_def)
qed

lemma strchr_from_none:
  assumes "ch \<notin> set (drop pos q)"
  shows "strchr_from q pos ch = None"
proof -
  have "takeWhile (\<lambda>x. x \<noteq> ch) (c_str (drop pos q)) = c_str (drop pos q)"
    using assms by (auto simp: c_str_def takeWhile_eq_all_conv dest!: set_takeWhileD)
  then show ?thesis by (simp only: strchr_from_def Let_def) simp
qed

lemma dec_clean: "0 \<notin> set (dec n)" "13 \<notin> set (dec n)" "10 \<notin> set (dec n)"
  using set_dec [of 0 n] set_dec [of 13 n] set_dec [of 10 n] by (auto simp: is_digit_def)

lemma string2ll_dec: "int n \<le> LLONG_MAX \<Longrightarrow> string2ll (dec n) = Some (int n)"
  by (simp add: string2ll_spec decimal_def)

text \<open>A buffer that is a prefix of a line followed by the rest holds part of the line or all of it.\<close>

lemma line_cases:
  assumes "x @ f = h @ 13 # 10 # rest"
  obtains (part) u where "h = x @ u" "f \<noteq> []"
    | (cr) "x = h @ [13]" "f \<noteq> []"
    | (whole) y where "x = h @ 13 # 10 # y" "y @ f = rest"
proof -
  from assms consider u where "h = x @ u" "f = u @ 13 # 10 # rest" | u where "x = h @ u" "u @ f = 13 # 10 # rest"
    by (auto simp: append_eq_append_conv2)
  then show thesis
  proof cases
    case 1
    then show ?thesis by (intro part) auto
  next
    case (2 u)
    show ?thesis
    proof (cases u)
      case Nil
      then show ?thesis using 2 part [of "[]"] by auto
    next
      case (Cons a v)
      then show ?thesis using 2 cr whole by (cases v) auto
    qed
  qed
qed

lemma prefix_split: "x @ f = u @ v \<Longrightarrow> length u \<le> length x \<Longrightarrow> \<exists>y. x = u @ y \<and> y @ f = v"
  by (auto simp: append_eq_append_conv2)

lemma length_dec_bulk: "n \<le> 536870912 \<Longrightarrow> length (dec n) \<le> 9"
  by (rule length_dec_le) auto

lemma strchr_line:
  assumes q: "drop pos q @ f = h @ 13 # 10 # rest" and h: "0 \<notin> set h" "13 \<notin> set h"
  obtains (wait) "strchr_from q pos 13 = None \<or> (\<exists>nl. strchr_from q pos 13 = Some nl \<and> int nl > int (length q) - 2)"
      "f \<noteq> []" "length q - pos \<le> length h + 1"
    | (whole) y where "drop pos q = h @ 13 # 10 # y" "y @ f = rest" "strchr_from q pos 13 = Some (pos + length h)"
      "pos + length h + 2 \<le> length q"
  using q
proof (cases rule: line_cases)
  case (part u)
  then have "strchr_from q pos 13 = None" using h by (intro strchr_from_none) auto
  then show ?thesis using part wait by (metis length_append length_drop le_add1 trans_le_add1)
next
  case cr
  then have "strchr_from q pos 13 = Some (pos + length h)" using h by (intro strchr_from_found) auto
  moreover have "length q = pos + length h + 1" using arg_cong [OF cr(1), of length] by simp
  ultimately show ?thesis using cr by (intro wait) auto
next
  case (whole y)
  have "strchr_from q pos 13 = Some (pos + length h)" using h whole(1) by (intro strchr_from_found) auto
  moreover have "pos + length h + 2 \<le> length q" using arg_cong [OF whole(1), of length] by simp
  ultimately show ?thesis using whole that(2) by blast
qed

lemma bulk_header_whole:
  assumes d: "drop pos (querybuf c) = 36 # dec n @ 13 # 10 # y" and n: "n \<le> 536870912"
  shows "bulk_header pos c = (if n < 32768 then Known (c\<lparr>bulklen := int n\<rparr>) (pos + length (dec n) + 3)
    else Known (c\<lparr>querybuf := y, bulklen := int n\<rparr>) 0)"
proof -
  let ?q = "querybuf c"
  have s: "strchr_from ?q pos 13 = Some (pos + Suc (length (dec n)))"
    using strchr_from_found [of pos ?q "36 # dec n" 13] d dec_clean [of n] by simp
  have l: "length ?q = pos + length (dec n) + 3 + length y" using arg_cong [OF d, of length] by simp
  have h: "?q ! pos = 36" using d l hd_drop_conv_nth [of pos ?q] by simp
  have t: "drop (Suc pos) ?q = dec n @ 13 # 10 # y" using d by (metis drop_Suc tl_drop list.sel(3))
  have r: "drop (pos + length (dec n) + 3) ?q = y"
  proof -
    have "drop (pos + length (dec n) + 3) ?q = drop (length (dec n) + 3) (drop pos ?q)" by (simp add: add.commute add.left_commute)
    also have "\<dots> = y" unfolding d by (simp add: numeral_3_eq_3)
    finally show ?thesis .
  qed
  then have r': "drop (pos + (3 + length (dec n))) ?q = y" "drop (3 + (pos + length (dec n))) ?q = y"
    "drop (Suc (Suc (Suc (pos + length (dec n))))) ?q = y" by (simp_all add: ac_simps numeral_3_eq_3)
  have p: "pos + (pos + Suc (length (dec n)) - pos + 2) = pos + length (dec n) + 3" by simp
  have nl: "\<not> int (pos + Suc (length (dec n))) > qlen c - 2" using l by simp
  show ?thesis
    unfolding bulk_header_def s using nl h n
    by (simp add: t p string2ll_dec qrange_drop Let_def r')
qed


text \<open>An argument that is in the buffer is taken; one that is not makes the loop wait.\<close>

lemma bulk_argument_whole:
  assumes d: "drop pos (querybuf c) = a @ 13 # 10 # y" and b: "bulklen c = int (length a)" and a: "bulk_ok a"
    and q: "length (querybuf c) < 1000000000000"
  shows "bulk_argument pos c =
    (if pos = 0 \<and> 32768 \<le> length a \<and> y = []
     then Some (c\<lparr>q_argv := q_argv c @ [a], querybuf := [], bulklen := - 1, multibulklen := multibulklen c - 1\<rparr>, 0)
     else Some (c\<lparr>q_argv := q_argv c @ [a], bulklen := - 1, multibulklen := multibulklen c - 1\<rparr>, pos + length a + 2))"
proof -
  have l: "length (querybuf c) = pos + length a + 2 + length y" using arg_cong [OF d, of length] by (cases "pos \<le> length (querybuf c)") auto
  have m1: "(qlen c - int pos) mod 18446744073709551616 = int (length a + 2 + length y)" using l q by simp
  have m2: "(bulklen c + 2) mod 4294967296 = int (length a + 2)" using a b by (simp add: bulk_ok_def)
  have n: "nat (bulklen c + 2) = length a + 2" using b by simp
  have t: "take (length a) (drop pos (querybuf c)) = a" using d by simp
  have e: "pos = 0 \<and> bulklen c \<ge> 32768 \<and> qlen c = bulklen c + 2 \<longleftrightarrow> pos = 0 \<and> 32768 \<le> length a \<and> y = []"
    using b l by auto
  have t0: "pos = 0 \<Longrightarrow> y = [] \<Longrightarrow> take (length (querybuf c) - 2) (querybuf c) = a" using d l by simp
  show ?thesis
    unfolding bulk_argument_def m1 m2 e n using b t t0 by (simp add: Let_def)
qed

lemma bulk_argument_part:
  assumes "pos \<le> length (querybuf c)" "length (querybuf c) - pos < length a + 2" "bulklen c = int (length a)" "bulk_ok a"
    and "length (querybuf c) < 1000000000000"
  shows "bulk_argument pos c = None"
proof -
  have m1: "(qlen c - int pos) mod 18446744073709551616 = int (length (querybuf c) - pos)" using assms by (simp add: of_nat_diff)
  have m2: "(bulklen c + 2) mod 4294967296 = int (length a + 2)" using assms by (simp add: bulk_ok_def)
  show ?thesis unfolding bulk_argument_def m1 m2 using assms(2) by simp
qed

section \<open>The loop over the arguments\<close>

definition expects :: "nat \<Rightarrow> bytes list \<Rightarrow> bytes \<Rightarrow> bytes \<Rightarrow> conn \<Rightarrow> bool" where
  "expects pos as f later c \<longleftrightarrow> pos \<le> length (querybuf c) \<and> multibulklen c = length as \<and> (\<forall>a\<in>set as. bulk_ok a) \<and>
     (bulklen c = - 1 \<or> as \<noteq> [] \<and> bulklen c = int (length (hd as))) \<and>
     drop pos (querybuf c) @ f = pending (bulklen c) as @ later"

definition sized :: "nat \<Rightarrow> conn \<Rightarrow> bool" where
  "sized pos c \<longleftrightarrow> length (querybuf c) \<le> 65536 \<or> pos = 0 \<and> bulklen c \<ge> 32768 \<and> qlen c \<le> bulklen c + 2"

definition starved :: "nat \<Rightarrow> bytes \<Rightarrow> conn \<Rightarrow> bool" where
  "starved pos f c \<longleftrightarrow> f \<noteq> [] \<and>
     (if bulklen c \<ge> 32768 then int (length (querybuf c) - pos) < bulklen c + 2 else length (querybuf c) - pos \<le> 32769)"

definition same_conn :: "conn \<Rightarrow> conn \<Rightarrow> bool" where
  "same_conn c c' \<longleftrightarrow> c' = c\<lparr>querybuf := querybuf c', q_argv := q_argv c', multibulklen := multibulklen c', bulklen := bulklen c'\<rparr>"

lemma same_conn_refl [simp]: "same_conn c c"
  by (simp add: same_conn_def)

lemma same_conn_trans: "same_conn a b \<Longrightarrow> same_conn b c \<Longrightarrow> same_conn a c"
  by (cases a; cases b; cases c) (auto simp: same_conn_def)

lemma same_connI [simp]:
  "same_conn c (c\<lparr>querybuf := q, q_argv := v, multibulklen := m, bulklen := b\<rparr>)"
  "same_conn c (c\<lparr>q_argv := v, multibulklen := m, bulklen := b\<rparr>)"
  "same_conn c (c\<lparr>querybuf := q\<rparr>)" "same_conn c (c\<lparr>bulklen := b\<rparr>)" "same_conn c (c\<lparr>querybuf := q, bulklen := b\<rparr>)"
  by (auto simp: same_conn_def)

text \<open>The header of an argument, read or known already.\<close>

lemma header_step:
  assumes e: "expects pos (a # as) f later c" and z: "sized pos c"
  obtains (wait) "bulklen c = - 1" "bulk_header pos c = Waiting" "starved pos f c"
    | (known) c1 pos1 where "(if bulklen c = - 1 then bulk_header pos c else Known c pos) = Known c1 pos1"
      "expects pos1 (a # as) f later c1" "bulklen c1 = int (length a)" "sized pos1 c1" "q_argv c1 = q_argv c" "same_conn c c1"
proof (cases "bulklen c = - 1")
  case False
  then show ?thesis using e z by (intro known [of c pos]) (auto simp: expects_def)
next
  case True
  have a: "length a \<le> 536870912" using e by (auto simp: expects_def bulk_ok_def)
  let ?rest = "a @ 13 # 10 # concat (map enc_bulk as) @ later"
  have q: "drop pos (querybuf c) @ f = (36 # dec (length a)) @ 13 # 10 # ?rest"
    using e True by (simp add: expects_def pending_def enc_bulk_def)
  have ql: "length (querybuf c) \<le> 65536" using z True by (simp add: sized_def)
  have h: "0 \<notin> set (36 # dec (length a))" "13 \<notin> set (36 # dec (length a))" using dec_clean by auto
  show ?thesis
  proof (cases rule: strchr_line [OF q h, case_names wait whole])
    case wait
    then have "bulk_header pos c = Waiting" using ql by (auto simp: bulk_header_def)
    moreover have "starved pos f c" using wait(2,3) True length_dec_bulk [OF a] by (simp add: starved_def)
    ultimately show ?thesis using True that(1) by blast
  next
    case (whole y)
    have pos: "pos \<le> length (querybuf c)" using e by (simp add: expects_def)
    have d: "drop pos (querybuf c) = 36 # dec (length a) @ 13 # 10 # y" using whole by simp
    have l: "length (querybuf c) = pos + length (dec (length a)) + 3 + length y" using arg_cong [OF d, of length] pos by simp
    have d': "drop (pos + length (dec (length a)) + 3) (querybuf c) = y"
      using drop_drop [of "length (dec (length a)) + 3" pos "querybuf c"] unfolding d
      by (simp add: ac_simps numeral_3_eq_3)
    show ?thesis
    proof (cases "length a < 32768")
      case small: True
      show ?thesis
        by (rule that(2) [of "c\<lparr>bulklen := int (length a)\<rparr>" "pos + length (dec (length a)) + 3"])
          (use True small e whole(2) d' l ql bulk_header_whole [OF d a] in \<open>auto simp: expects_def pending_def sized_def\<close>)
    next
      case big: False
      show ?thesis
        by (rule that(2) [of "c\<lparr>querybuf := y, bulklen := int (length a)\<rparr>" 0])
          (use True big e whole(2) l ql bulk_header_whole [OF d a] in \<open>auto simp: expects_def pending_def sized_def\<close>)
    qed
  qed
qed


lemma pending_next: "pending (- 1) as = concat (map enc_bulk as)"
  by (simp add: pending_def)

lemma bulk_step:
  assumes e: "expects pos (a # as) f later c" and z: "sized pos c"
  obtains (wait) c1 pos1 where "bulk_loop (Suc n) pos c = Inr (c1, pos1)" "expects pos1 (a # as) f later c1"
      "starved pos1 f c1" "q_argv c1 = q_argv c" "same_conn c c1"
    | (more) c1 pos1 where "bulk_loop (Suc n) pos c = bulk_loop n pos1 c1" "expects pos1 as f later c1" "sized pos1 c1"
      "q_argv c1 = q_argv c @ [a]" "same_conn c c1"
  using e z
proof (cases rule: header_step)
  case wait
  then show ?thesis using that(1) [of c pos] e by simp
next
  case (known c1 pos1)
  have ok: "bulk_ok a" using e by (simp add: expects_def)
  have d: "drop pos1 (querybuf c1) @ f = (a @ [13, 10]) @ concat (map enc_bulk as) @ later" and p1: "pos1 \<le> length (querybuf c1)"
    using known(2,3) by (auto simp: expects_def pending_def)
  have q: "length (querybuf c1) < 1000000000000"
    using known(3,4) ok by (auto simp: sized_def bulk_ok_def)
  show ?thesis
  proof (cases "length (querybuf c1) - pos1 < length a + 2")
    case True
    then have r: "bulk_loop (Suc n) pos c = Inr (c1, pos1)"
      using known(1) bulk_argument_part [OF p1 True known(3) ok q] by simp
    have "f \<noteq> []" using True arg_cong [OF d, of length] by auto
    then have "starved pos1 f c1" using True known(3) by (auto simp: starved_def)
    then show ?thesis using that(1) r known by blast
  next
    case False
    obtain y where y: "drop pos1 (querybuf c1) = (a @ [13, 10]) @ y" "y @ f = concat (map enc_bulk as) @ later"
      using prefix_split [OF d] False by auto
    have d': "drop pos1 (querybuf c1) = a @ 13 # 10 # y" using y by simp
    have l: "length (querybuf c1) = pos1 + length a + 2 + length y" using arg_cong [OF d', of length] p1 by simp
    have dn: "drop (pos1 + length a + 2) (querybuf c1) = y"
      using drop_drop [of "length a + 2" pos1 "querybuf c1"] unfolding y(1) by (simp add: ac_simps)
    note arg = bulk_argument_whole [OF d' known(3) ok q]
    show ?thesis
    proof (cases "pos1 = 0 \<and> 32768 \<le> length a \<and> y = []")
      case True
      let ?c = "c1\<lparr>q_argv := q_argv c1 @ [a], querybuf := [], bulklen := - 1, multibulklen := multibulklen c1 - 1\<rparr>"
      have "bulk_loop (Suc n) pos c = bulk_loop n 0 ?c" using known(1) arg True by simp
      moreover have "expects 0 as f later ?c" using known(2) y(2) True by (auto simp: expects_def pending_next)
      moreover have "same_conn c1 ?c" by (simp add: same_conn_def)
      ultimately show ?thesis using known(5,6) by (intro that(2) [of 0 ?c]) (auto simp: sized_def intro: same_conn_trans)
    next
      case alt: False
      let ?c = "c1\<lparr>q_argv := q_argv c1 @ [a], bulklen := - 1, multibulklen := multibulklen c1 - 1\<rparr>"
      have "bulk_loop (Suc n) pos c = bulk_loop n (pos1 + length a + 2) ?c" using known(1) arg alt by simp
      moreover have "expects (pos1 + length a + 2) as f later ?c"
        using known(2) y(2) l dn by (auto simp: expects_def pending_next)
      moreover have "length (querybuf c1) \<le> 65536" using known(3,4) alt l by (auto simp: sized_def)
      moreover have "same_conn c1 ?c" by (simp add: same_conn_def)
      ultimately show ?thesis using known(5,6)
        by (intro that(2) [of "pos1 + length a + 2" ?c]) (auto simp: sized_def intro: same_conn_trans)
    qed
  qed
qed

lemma bulk_loop_spec:
  "expects pos as f later c \<Longrightarrow> sized pos c \<Longrightarrow>
   \<exists>c' pos' done todo. bulk_loop (length as) pos c = Inr (c', pos') \<and> as = done @ todo \<and> q_argv c' = q_argv c @ done \<and>
     expects pos' todo f later c' \<and> (todo \<noteq> [] \<longrightarrow> starved pos' f c') \<and> (todo = [] \<longrightarrow> sized pos' c') \<and> same_conn c c'"
proof (induction as arbitrary: pos c)
  case Nil
  then show ?case by (intro exI [of _ c] exI [of _ pos]) auto
next
  case (Cons a as)
  from Cons.prems show ?case
  proof (cases rule: bulk_step [where n = "length as"])
    case (wait c1 pos1)
    then show ?thesis
      by (intro exI [of _ c1] exI [of _ pos1] exI [of _ "[]"] exI [of _ "a # as"]) simp
  next
    case (more c1 pos1)
    from Cons.IH [OF more(2,3)] obtain c' pos' dn todo where
      r: "bulk_loop (length as) pos1 c1 = Inr (c', pos')" "as = dn @ todo" "q_argv c' = q_argv c1 @ dn"
        "expects pos' todo f later c'" "todo \<noteq> [] \<longrightarrow> starved pos' f c'" "todo = [] \<longrightarrow> sized pos' c'" "same_conn c1 c'" by blast
    then show ?thesis using more(1,4,5)
      by (intro exI [of _ c'] exI [of _ pos'] exI [of _ "a # dn"] exI [of _ todo]) (auto intro: same_conn_trans)
  qed
qed

lemma same_conn_fields:
  assumes "same_conn c c'"
  shows "reqtype c' = reqtype c" "q_blocked c' = q_blocked c" "q_close c' = q_close c" "q_errors c' = q_errors c"
proof -
  have e: "c' = c\<lparr>querybuf := querybuf c', q_argv := q_argv c', multibulklen := multibulklen c', bulklen := bulklen c'\<rparr>"
    using assms by (simp only: same_conn_def)
  show "reqtype c' = reqtype c" "q_blocked c' = q_blocked c" "q_close c' = q_close c" "q_errors c' = q_errors c"
    by (subst e, simp)+
qed

lemma bulk_finish_spec:
  assumes e: "expects pos as f later c" and z: "sized pos c"
  obtains c' dn todo where "bulk_finish pos c = (c', todo = [])" "as = dn @ todo" "q_argv c' = q_argv c @ dn"
    "expects 0 todo f later c'" "todo \<noteq> [] \<Longrightarrow> starved 0 f c'" "same_conn c c'"
    "todo = [] \<Longrightarrow> length (querybuf c') \<le> 65536"
proof -
  from bulk_loop_spec [OF e z] obtain c1 pos1 dn todo where
    r: "bulk_loop (length as) pos c = Inr (c1, pos1)" "as = dn @ todo" "q_argv c1 = q_argv c @ dn"
      "expects pos1 todo f later c1" "todo \<noteq> [] \<longrightarrow> starved pos1 f c1" "same_conn c c1" "todo = [] \<longrightarrow> sized pos1 c1" by blast
  define c2 where "c2 = c1\<lparr>querybuf := drop pos1 (querybuf c1)\<rparr>"
  have c2: "(if pos1 \<noteq> 0 then qrange pos1 c1 else c1) = c2" by (simp add: qrange_drop c2_def)
  have m: "multibulklen c = length as" "multibulklen c1 = length todo" using e r(4) by (auto simp: expects_def)
  have "bulk_finish pos c = (c2, todo = [])"
    unfolding bulk_finish_def m r(1) by (simp only: sum.case prod.case Let_def c2) (simp add: c2_def m)
  moreover have "expects 0 todo f later c2" using r(4) by (auto simp: expects_def c2_def)
  moreover have "todo \<noteq> [] \<Longrightarrow> starved 0 f c2" using r(5) by (auto simp: starved_def c2_def)
  moreover have "same_conn c c2" "q_argv c2 = q_argv c1" using r(6) by (auto simp: c2_def intro: same_conn_trans)
  moreover have "todo = [] \<Longrightarrow> length (querybuf c2) \<le> 65536"
    using r(4,7) by (auto simp: c2_def sized_def expects_def)
  ultimately show thesis using that r(2,3) by metis
qed

lemma multibulk_start:
  assumes c: "multibulklen c = 0" "q_argv c = []" "bulklen c = - 1" and a: "request_ok args"
    and q: "querybuf c @ f = enc_request args @ later" and len: "length (querybuf c) \<le> 65536"
  obtains (wait) "processMultibulkBuffer c = Some (c, False)" "f \<noteq> []" "length (querybuf c) \<le> 32769"
    | (start) pos where "processMultibulkBuffer c = Some (bulk_finish pos (c\<lparr>multibulklen := length args\<rparr>))"
      "expects pos args f later (c\<lparr>multibulklen := length args\<rparr>)" "sized pos (c\<lparr>multibulklen := length args\<rparr>)"
proof -
  let ?h = "42 # dec (length args)" and ?q = "querybuf c"
  have n: "0 < length args" "length args \<le> 1048576" using a by (auto simp: request_ok_def)
  have h: "0 \<notin> set ?h" "13 \<notin> set ?h" using dec_clean by auto
  have q': "drop 0 ?q @ f = ?h @ 13 # 10 # concat (map enc_bulk args) @ later" using q by (simp add: enc_request_def)
  show thesis
  proof (cases rule: strchr_line [OF q' h, case_names wait whole])
    case wait
    have "processMultibulkBuffer c = Some (c, False)" using wait(1) len c by (auto simp: processMultibulkBuffer_def)
    moreover have "length (dec (length args)) \<le> 7" using n by (intro length_dec_le) auto
    ultimately show ?thesis using wait(2,3) that(1) by simp
  next
    case (whole y)
    let ?p = "length (dec (length args)) + 3"
    have d: "?q = 42 # dec (length args) @ 13 # 10 # y" using whole(1) by simp
    have s: "strchr_from ?q 0 13 = Some (Suc (length (dec (length args))))" using whole(3) by simp
    have l: "length ?q = ?p + length y" using d by simp
    have t: "take (Suc (length (dec (length args))) - 1) (drop 1 ?q) = dec (length args)" "?q ! 0 = 42"
      using d by auto
    have dp: "drop ?p ?q = y" unfolding d by (simp add: numeral_3_eq_3)
    have ll: "string2ll (dec (length args)) = Some (int (length args))" using n by (intro string2ll_dec) simp
    have p: "Suc (length (dec (length args))) + 2 = ?p" by simp
    have "processMultibulkBuffer c = Some (bulk_finish ?p (c\<lparr>multibulklen := length args\<rparr>))"
      unfolding processMultibulkBuffer_def s using c n l t ll p
      by (simp add: Let_def add.commute [of 3] del: One_nat_def add_2_eq_Suc' split: if_splits)
    moreover have "expects ?p args f later (c\<lparr>multibulklen := length args\<rparr>)"
      using a whole(2) c l dp by (auto simp: expects_def pending_next request_ok_def)
    ultimately show ?thesis using len by (intro that(2)) (auto simp: sized_def)
  qed
qed

section \<open>Whole sessions\<close>

definition idle_conn :: "conn \<Rightarrow> bool" where
  "idle_conn c \<longleftrightarrow> multibulklen c = 0 \<and> q_argv c = [] \<and> bulklen c = - 1 \<and> (reqtype c = 0 \<or> reqtype c = REDIS_REQ_MULTIBULK)"

definition awaits :: "bytes list list \<Rightarrow> bytes \<Rightarrow> conn \<Rightarrow> bool" where
  "awaits cmds f c \<longleftrightarrow> \<not> q_blocked c \<and> \<not> q_close c \<and> (\<forall>args\<in>set cmds. request_ok args) \<and>
     (idle_conn c \<and> querybuf c @ f = concat (map enc_request cmds) \<or>
      (\<exists>as later. reqtype c = REDIS_REQ_MULTIBULK \<and> as \<noteq> [] \<and> cmds = (q_argv c @ as) # later \<and>
         expects 0 as f (concat (map enc_request later)) c))"

definition rested :: "conn \<Rightarrow> bool" where
  "rested c \<longleftrightarrow> (if bulklen c \<ge> 32768 then qlen c < bulklen c + 2 else length (querybuf c) \<le> 32769)"

definition quiet :: "'s handler \<Rightarrow> bool" where
  "quiet pc \<longleftrightarrow> (\<forall>args s. snd (pc args s) = \<lparr>o_ok = True, o_blocked = False, o_close = False\<rparr>)"

definition exec_all :: "'s handler \<Rightarrow> bytes list list \<Rightarrow> 's \<Rightarrow> 's" where
  "exec_all pc cmds s = fold (\<lambda>args s. fst (pc args s)) cmds s"

lemma enc_nonempty [simp]: "enc_request args \<noteq> []" "enc_bulk a \<noteq> []"
  by (auto simp: enc_request_def enc_bulk_def)

lemma pending_nonempty: "as \<noteq> [] \<Longrightarrow> pending b as \<noteq> []"
  by (cases as) (auto simp: pending_def)

text \<open>A round of the input loop on a buffer with bytes: it waits, or completes one command.\<close>

lemma round_spec:
  assumes w: "awaits cmds f c" and z: "sized 0 c" and ne: "querybuf c \<noteq> []"
    and c0: "c0 = (if reqtype c = 0
                then c\<lparr>reqtype := if querybuf c ! 0 = 42 then REDIS_REQ_MULTIBULK else REDIS_REQ_INLINE\<rparr> else c)"
  obtains (wait) c1 where "reqtype c0 = REDIS_REQ_MULTIBULK" "processMultibulkBuffer c0 = Some (c1, False)"
      "awaits cmds f c1" "rested c1" "f \<noteq> []" "q_errors c1 = q_errors c"
    | (whole) c1 args later where "reqtype c0 = REDIS_REQ_MULTIBULK" "processMultibulkBuffer c0 = Some (c1, True)"
      "cmds = args # later" "q_argv c1 = args" "args \<noteq> []" "awaits later f (resetClient c1)"
      "length (querybuf c1) < length (querybuf c)" "sized 0 (resetClient c1)" "q_errors c1 = q_errors c"
proof -
  have fl: "\<not> q_blocked c" "\<not> q_close c" "\<forall>args\<in>set cmds. request_ok args" using w by (auto simp: awaits_def)
  have finish: thesis
    if p: "processMultibulkBuffer c0 = Some (bulk_finish pos c2)" and e: "expects pos as f (concat (map enc_request later)) c2"
      and z2: "sized pos c2" and as: "as \<noteq> []" and cm: "cmds = (q_argv c2 @ as) # later"
      and sc: "reqtype c2 = REDIS_REQ_MULTIBULK" "reqtype c0 = REDIS_REQ_MULTIBULK" "\<not> q_blocked c2" "\<not> q_close c2" "q_errors c2 = q_errors c"
      and tot: "length (querybuf c) + length f > length (concat (map enc_request later))" for pos c2 as later
  proof -
    obtain c' dn todo where r: "bulk_finish pos c2 = (c', todo = [])" "as = dn @ todo" "q_argv c' = q_argv c2 @ dn"
      "expects 0 todo f (concat (map enc_request later)) c'" "todo \<noteq> [] \<Longrightarrow> starved 0 f c'" "same_conn c2 c'"
      "todo = [] \<Longrightarrow> length (querybuf c') \<le> 65536"
      using bulk_finish_spec [OF e z2] by metis
    note sf = same_conn_fields [OF r(6)]
    show thesis
    proof (cases "todo = []")
      case False
      have "rested c'" using r(5) [OF False] by (auto simp: rested_def starved_def)
      moreover have "awaits cmds f c'" using fl sf sc cm r False by (auto simp: awaits_def)
      moreover have "f \<noteq> []" using r(5) [OF False] by (simp add: starved_def)
      ultimately show thesis using wait [of c'] p r(1) False sc sf by simp
    next
      case True
      have q: "querybuf c' @ f = concat (map enc_request later)" using r(4) True by (auto simp: expects_def pending_def)
      have "length (querybuf c') < length (querybuf c)" using arg_cong [OF q, of length] tot by simp
      moreover have "awaits later f (resetClient c')" using fl sf sc cm q by (auto simp: awaits_def resetClient_def idle_conn_def)
      moreover have "sized 0 (resetClient c')" using r(7) True by (simp add: sized_def resetClient_def)
      ultimately show thesis using whole [of c' "q_argv c2 @ as" later] p r True sc sf cm as by auto
    qed
  qed
  show thesis
  proof (cases "idle_conn c \<and> querybuf c @ f = concat (map enc_request cmds)")
    case True
    then obtain args later where cm: "cmds = args # later" using ne by (cases cmds) auto
    have a: "request_ok args" using fl cm by simp
    have q0: "querybuf c ! 0 = 42" using True cm ne by (cases "querybuf c") (auto simp: enc_request_def)
    have c0': "c0 = c\<lparr>reqtype := REDIS_REQ_MULTIBULK\<rparr>" using True q0 by (auto simp: c0 idle_conn_def)
    have len: "length (querybuf c0) \<le> 65536" using z True by (simp add: c0' sized_def idle_conn_def)
    have i: "multibulklen c0 = 0" "q_argv c0 = []" "bulklen c0 = - 1" using True by (auto simp: c0' idle_conn_def)
    have q: "querybuf c0 @ f = enc_request args @ concat (map enc_request later)" using True cm by (simp add: c0')
    have tot: "length (querybuf c) + length f > length (concat (map enc_request later))"
      using arg_cong [OF q, of length] by (simp add: c0' enc_request_def)
    from i a q len show thesis
    proof (cases rule: multibulk_start)
      case wait
      then show thesis
        using fl True by (intro that(1) [of c0]) (auto simp: c0' awaits_def rested_def idle_conn_def)
    next
      case (start pos)
      show thesis
        by (rule finish [OF start]) (use a fl tot cm True in \<open>auto simp: c0' request_ok_def idle_conn_def\<close>)
    qed
  next
    case False
    then obtain as later where m: "reqtype c = REDIS_REQ_MULTIBULK" "as \<noteq> []" "cmds = (q_argv c @ as) # later"
      "expects 0 as f (concat (map enc_request later)) c" using w by (auto simp: awaits_def)
    have c0': "c0 = c" using m(1) by (simp add: c0)
    have "multibulklen c \<noteq> 0" using m(2,4) by (auto simp: expects_def)
    then have p: "processMultibulkBuffer c0 = Some (bulk_finish 0 c)" by (simp add: c0' processMultibulkBuffer_def)
    have "querybuf c @ f = pending (bulklen c) as @ concat (map enc_request later)" using m(4) by (simp add: expects_def)
    then have "length (querybuf c) + length f > length (concat (map enc_request later))"
      using pending_nonempty [OF m(2), of "bulklen c"] by (metis length_append less_add_same_cancel2 length_greater_0_conv)
    then show thesis by (intro finish [OF p m(4) z m(2,3)]) (use fl m c0' in auto)
  qed
qed

lemma exec_all_simps [simp]: "exec_all pc [] s = s" "exec_all pc (a # cmds) s = exec_all pc cmds (fst (pc a s))"
  by (simp_all add: exec_all_def)

lemma exec_all_append: "exec_all pc (xs @ ys) s = exec_all pc ys (exec_all pc xs s)"
  by (simp add: exec_all_def)

lemma awaits_nil: "awaits cmds [] c \<Longrightarrow> querybuf c = [] \<Longrightarrow> cmds = []"
  by (auto simp: awaits_def expects_def pending_nonempty)

lemma awaits_empty: "awaits cmds f c \<Longrightarrow> querybuf c = [] \<Longrightarrow> rested c"
  by (auto simp: rested_def)

lemma input_loop_spec:
  assumes pc: "quiet pc"
  shows "awaits cmds f c \<Longrightarrow> sized 0 c \<Longrightarrow> length (querybuf c) < n \<Longrightarrow>
   \<exists>c' dn todo. input_loop n pc t c s = Some (c', exec_all pc dn s) \<and> cmds = dn @ todo \<and> awaits todo f c' \<and> rested c' \<and>
     (f = [] \<longrightarrow> todo = []) \<and> q_errors c' = q_errors c"
proof (induction n arbitrary: cmds c s)
  case (Suc n)
  show ?case
  proof (cases "querybuf c = []")
    case True
    then show ?thesis using Suc.prems awaits_nil awaits_empty
      by (intro exI [of _ c] exI [of _ "[]"] exI [of _ cmds]) auto
  next
    case False
    have fl: "\<not> q_blocked c" "\<not> q_close c" using Suc.prems(1) by (auto simp: awaits_def)
    define c0 where "c0 = (if reqtype c = 0
        then c\<lparr>reqtype := if querybuf c ! 0 = 42 then REDIS_REQ_MULTIBULK else REDIS_REQ_INLINE\<rparr> else c)"
    from Suc.prems(1,2) False c0_def show ?thesis
    proof (cases rule: round_spec)
      case (wait c1)
      have "input_loop (Suc n) pc t c s = Some (c1, s)"
        unfolding input_loop.simps Let_def c0_def [symmetric] using fl False wait(1,2) by simp
      then show ?thesis using wait by (intro exI [of _ c1] exI [of _ "[]"] exI [of _ cmds]) auto
    next
      case (whole c1 args later)
      obtain s1 where pcs: "pc args s = (s1, \<lparr>o_ok = True, o_blocked = False, o_close = False\<rparr>)"
        using pc by (metis quiet_def prod.collapse)
      have r: "resetClient (c1\<lparr>q_blocked := False, q_close := False\<rparr>) = resetClient c1"
        using whole(6) by (cases c1) (auto simp: awaits_def resetClient_def)
      have step: "input_loop (Suc n) pc t c s = input_loop n pc t (resetClient c1) s1"
        unfolding input_loop.simps Let_def c0_def [symmetric] using fl False whole(1,2,4,5) by (simp add: pcs r)
      have "length (querybuf (resetClient c1)) < n" using whole(7) Suc.prems(3) by (simp add: resetClient_def)
      then obtain c' dn todo where "input_loop n pc t (resetClient c1) s1 = Some (c', exec_all pc dn s1)" "later = dn @ todo"
        "awaits todo f c'" "rested c'" "f = [] \<longrightarrow> todo = []" "q_errors c' = q_errors (resetClient c1)"
        using Suc.IH [OF whole(6,8)] by blast
      then show ?thesis using step whole(3,9)
        by (intro exI [of _ c'] exI [of _ "args # dn"] exI [of _ todo]) (auto simp: resetClient_def pcs)
    qed
  qed
qed simp

subsection \<open>Reads of any size\<close>

text \<open>
  The bytes of a connection, delivered by reads whose sizes are chosen freely (by \<open>ns\<close>) between
  one byte and what \<open>readQueryFromClient\<close> asks for. The last component is what was not read yet.
\<close>

fun serve :: "'s handler \<Rightarrow> int \<Rightarrow> int \<Rightarrow> nat list \<Rightarrow> bytes \<Rightarrow> conn \<Rightarrow> 's \<Rightarrow> (conn \<times> 's \<times> bytes) option" where
  "serve pc t lim [] stream c s = Some (c, s, stream)"
| "serve pc t lim (n # ns) stream c s =
    (if stream = [] then Some (c, s, stream)
     else let k = nat (min (max 1 (int n)) (readlen c)) in
       case readQueryFromClient pc t lim (take k stream) c s of
         Some (Inr (c, s)) \<Rightarrow> serve pc t lim ns (drop k stream) c s
       | _ \<Rightarrow> None)"

lemma awaits_bulklen: "awaits cmds f c \<Longrightarrow> bulklen c \<ge> 32768 \<Longrightarrow>
    reqtype c = REDIS_REQ_MULTIBULK \<and> multibulklen c \<noteq> 0 \<and> bulklen c \<le> 536870912"
  by (auto simp: awaits_def idle_conn_def expects_def bulk_ok_def)

lemma readlen_rested:
  assumes "awaits cmds f c" "rested c"
  shows "1 \<le> readlen c" "readlen c \<le> 16384" "bulklen c \<ge> 32768 \<Longrightarrow> qlen c + readlen c \<le> bulklen c + 2"
proof -
  have "bulklen c \<ge> 32768 \<Longrightarrow> int32 (bulklen c + 2 - qlen c) = bulklen c + 2 - qlen c"
    using awaits_bulklen [OF assms(1)] assms(2) by (intro int32_small) (auto simp: rested_def)
  then show "1 \<le> readlen c" "readlen c \<le> 16384" "bulklen c \<ge> 32768 \<Longrightarrow> qlen c + readlen c \<le> bulklen c + 2"
    using awaits_bulklen [OF assms(1)] assms(2) by (auto simp: readlen_def rested_def Let_def)
qed

lemma awaits_read:
  assumes "awaits cmds (d @ f) c"
  shows "awaits cmds f (c\<lparr>querybuf := querybuf c @ d\<rparr>)"
  using assms by (auto simp: awaits_def idle_conn_def expects_def)

lemma sized_read:
  assumes "awaits cmds (d @ f) c" "rested c" "int (length d) \<le> readlen c"
  shows "sized 0 (c\<lparr>querybuf := querybuf c @ d\<rparr>)"
  using readlen_rested [OF assms(1,2)] assms(2,3) by (auto simp: sized_def rested_def split: if_splits)

lemma serve_spec:
  assumes pc: "quiet pc" and lim: "536870914 \<le> lim"
  shows "awaits cmds stream c \<Longrightarrow> rested c \<Longrightarrow> length stream \<le> length ns \<Longrightarrow> (stream = [] \<longrightarrow> cmds = []) \<Longrightarrow>
    \<exists>c'. serve pc t lim ns stream c s = Some (c', exec_all pc cmds s, []) \<and> awaits [] [] c' \<and> q_errors c' = q_errors c"
proof (induction ns arbitrary: cmds stream c s)
  case Nil
  then show ?case by simp
next
  case (Cons n ns)
  show ?case
  proof (cases "stream = []")
    case True
    then show ?thesis using Cons.prems by simp
  next
    case False
    define k where "k = nat (min (max 1 (int n)) (readlen c))"
    define c0 where "c0 = c\<lparr>querybuf := querybuf c @ take k stream\<rparr>"
    note rl = readlen_rested [OF Cons.prems(1,2)]
    have k: "1 \<le> k" "int k \<le> readlen c" using rl by (auto simp: k_def)
    have w: "awaits cmds (take k stream @ drop k stream) c" using Cons.prems(1) by simp
    have z: "sized 0 c0" unfolding c0_def by (rule sized_read [OF w Cons.prems(2)]) (use k in auto)
    have w0: "awaits cmds (drop k stream) c0" unfolding c0_def by (rule awaits_read [OF w])
    have le: "\<not> qlen c0 > lim"
      using z awaits_bulklen [OF w0] lim by (auto simp: sized_def)
    obtain c' dn todo where r: "input_loop (length (querybuf c0) + 1) pc t c0 s = Some (c', exec_all pc dn s)" "cmds = dn @ todo"
      "awaits todo (drop k stream) c'" "rested c'" "drop k stream = [] \<longrightarrow> todo = []" "q_errors c' = q_errors c0"
      using input_loop_spec [OF pc w0 z, of "length (querybuf c0) + 1" t s] by auto
    have "readQueryFromClient pc t lim (take k stream) c s = Some (Inr (c', exec_all pc dn s))"
      unfolding readQueryFromClient_def Let_def c0_def [symmetric] processInputBuffer_def using le r(1) by simp
    then have "serve pc t lim (n # ns) stream c s = serve pc t lim ns (drop k stream) c' (exec_all pc dn s)"
      using False by (simp add: Let_def flip: k_def)
    moreover have "length (drop k stream) \<le> length ns" using Cons.prems(3) k False by (cases stream) auto
    ultimately show ?thesis
      using Cons.IH [OF r(3,4)] r(2,5,6) by (simp add: exec_all_append c0_def)
  qed
qed

section \<open>Properties\<close>

text \<open>
  C11. Any number of pipelined requests, with at most 1024*1024 arguments of at most 512 MB each,
  and whatever bytes the arguments hold, arrives cut in pieces at any place: every command runs
  exactly once, in order, with exactly its arguments, no protocol error is reported, no assertion
  fails, and the buffer ends empty. The handler is any that keeps the client unblocked and open.
\<close>

theorem serve_pipelined:
  assumes "quiet pc" "536870914 \<le> lim" "\<forall>args\<in>set cmds. request_ok args"
    and "length (concat (map enc_request cmds)) \<le> length ns"
  shows "\<exists>c. serve pc t lim ns (concat (map enc_request cmds)) new_conn s = Some (c, exec_all pc cmds s, []) \<and>
    querybuf c = [] \<and> q_errors c = [] \<and> \<not> q_close c"
proof -
  have "awaits cmds (concat (map enc_request cmds)) new_conn" "rested new_conn"
    using assms(3) by (auto simp: awaits_def idle_conn_def new_conn_def rested_def)
  moreover have "concat (map enc_request cmds) = [] \<longrightarrow> cmds = []" by auto
  ultimately obtain c' where "serve pc t lim ns (concat (map enc_request cmds)) new_conn s = Some (c', exec_all pc cmds s, [])"
    "awaits [] [] c'" "q_errors c' = q_errors new_conn"
    using serve_spec [OF assms(1,2)] assms(4) by blast
  then show ?thesis by (auto simp: awaits_def new_conn_def)
qed

definition demo_handler :: "bytes list list handler" where
  "demo_handler args s = (s @ [args], \<lparr>o_ok = True, o_blocked = False, o_close = False\<rparr>)"

lemma quiet_demo: "quiet demo_handler"
  by (simp add: quiet_def demo_handler_def)

theorem serve_pipelined_witness:
  "\<exists>c. serve demo_handler 0 1073741824 (replicate 40 3) (concat (map enc_request [[[71, 69, 84], [0]], [[13, 10]]])) new_conn []
      = Some (c, exec_all demo_handler [[[71, 69, 84], [0]], [[13, 10]]] [], []) \<and> querybuf c = [] \<and> q_errors c = [] \<and> \<not> q_close c"
  by (rule serve_pipelined [OF quiet_demo])
    (simp_all add: request_ok_def bulk_ok_def enc_request_def enc_bulk_def)

subsection \<open>Inline requests\<close>

lemma enc_no_newline: "10 \<notin> set (enc x)" "13 \<notin> set (enc x)"
proof -
  have h: "hex_lower n \<noteq> 10 \<and> hex_lower n \<noteq> 13" if "n < 16" for n
  proof -
    have "\<forall>n\<in>set [0..<16]. hex_lower n \<noteq> 10 \<and> hex_lower n \<noteq> 13" by code_simp
    then show ?thesis using that by auto
  qed
  show "10 \<notin> set (enc x)" "13 \<notin> set (enc x)"
    using h [of "unat x div 16"] h [of "unat x mod 16"] unat_byte [of x]
    by (auto simp: enc_def printf_x02_def isprint_def)
qed

lemma join_notin: "b \<noteq> 32 \<Longrightarrow> \<forall>x\<in>set xs. b \<notin> set x \<Longrightarrow> b \<notin> set (join_bytes [32] xs)"
  by (induction "[32] :: bytes" xs rule: join_bytes.induct) auto

lemma reprs_clean:
  "0 \<notin> set (join_bytes [32] (map repr args))" "10 \<notin> set (join_bytes [32] (map repr args))" "13 \<notin> set (join_bytes [32] (map repr args))"
  using repr_no_zero enc_no_newline by (intro join_notin; auto simp: repr_def)+

text \<open>A line of quoted arguments that ends in CR LF gives the arguments, the empty ones left out.\<close>

lemma inline_parses:
  assumes q: "querybuf c = join_bytes [32] (map repr args) @ 13 # 10 # rest" and c: "\<not> q_slave c"
  shows "processInlineBuffer t c = (c\<lparr>querybuf := rest, q_argv := filter (\<lambda>a. a \<noteq> []) args\<rparr>, True)"
proof -
  let ?l = "join_bytes [32] (map repr args)"
  have "strchr_from (querybuf c) 0 10 = Some (0 + length (?l @ [13]))"
    using q reprs_clean [of args] by (intro strchr_from_found [where y = rest]) auto
  then have s: "strchr_from (querybuf c) 0 10 = Some (Suc (length ?l))" by simp
  have p: "querybuf c ! (Suc (length ?l) - 1) = 13" "take (length ?l) (querybuf c) = ?l" using q by auto
  have a: "sdssplitargs ?l = Some args"
  proof -
    have "c_str ?l = ?l" using reprs_clean(1) [of args] by (auto simp: c_str_def takeWhile_eq_all_conv)
    then show ?thesis using split_args_reprs [of "[]" args] by (simp add: sdssplitargs_def)
  qed
  have d: "drop (length ?l + 2) (querybuf c) = rest" using q by simp
  show ?thesis unfolding processInlineBuffer_def s using p a c d by (simp add: Let_def qrange_drop)
qed

text \<open>
  A line that ends in a bare LF is accepted, but the two bytes of a CR LF are removed for it: the
  next pipelined line loses its first byte. Here \<open>PING\<close> twice runs \<open>PING\<close> and \<open>ING\<close>.
\<close>

lemma inline_bare_newline:
  "processInputBuffer demo_handler 0 (new_conn\<lparr>querybuf := [80, 73, 78, 71, 10, 80, 73, 78, 71, 10]\<rparr>) []
     = Some (new_conn, [[[80, 73, 78, 71]], [[73, 78, 71]]])"
  by code_simp

lemma bulk_loop_small:
  assumes d: "drop pos (querybuf c) = enc_bulk a @ y" and b: "bulklen c = - 1" and a: "length a < 32768"
    and q: "length (querybuf c) < 1000000000000"
  shows "bulk_loop (Suc n) pos c = bulk_loop n (pos + length (enc_bulk a))
    (c\<lparr>q_argv := q_argv c @ [a], bulklen := - 1, multibulklen := multibulklen c - 1\<rparr>)"
proof -
  let ?p = "pos + length (dec (length a)) + 3" and ?c = "c\<lparr>bulklen := int (length a)\<rparr>"
  have d1: "drop pos (querybuf c) = 36 # dec (length a) @ 13 # 10 # a @ 13 # 10 # y" using d by (simp add: enc_bulk_def)
  have h: "bulk_header pos c = Known ?c ?p" using bulk_header_whole [OF d1] a by simp
  have d2: "drop ?p (querybuf ?c) = a @ 13 # 10 # y"
    using drop_drop [of "length (dec (length a)) + 3" pos "querybuf c"] unfolding d1 by (simp add: ac_simps numeral_3_eq_3)
  have e: "?p + length a + 2 = pos + length (enc_bulk a)" by (simp add: enc_bulk_def)
  have "bulk_argument ?p ?c = Some (?c\<lparr>q_argv := q_argv c @ [a], bulklen := - 1, multibulklen := multibulklen c - 1\<rparr>, ?p + length a + 2)"
    using bulk_argument_whole [OF d2] a q by (simp add: bulk_ok_def)
  then show ?thesis unfolding e using b h by simp
qed

text \<open>
  While a client is blocked its buffer grows without being parsed. A buffer of more than 64 KB
  that ends inside the header of an argument is then refused, since the limit for the header
  line is compared with the length of the whole buffer: here three arguments of 30000 bytes of a
  well-formed request have arrived, and the first byte of the fourth.
\<close>

lemma blocked_buffer_refused:
  assumes c: "multibulklen c = 0" "q_argv c = []" "bulklen c = - 1" and a: "length a = 30000"
    and q: "querybuf c = 42 # dec 4 @ 13 # 10 # enc_bulk a @ enc_bulk a @ enc_bulk a @ [36]"
  shows "\<exists>c'. processMultibulkBuffer c = Some (c', False) \<and> q_close c' \<and> length (q_errors c') = Suc (length (q_errors c))"
proof -
  have l: "length (enc_bulk a) = 30010"
    using a length_dec_eq [of 4 30000] by (simp add: enc_bulk_def)
  have dl: "dec 4 = [52]" by (simp add: dchar_def)
  have q': "querybuf c = [42, 52, 13, 10] @ enc_bulk a @ enc_bulk a @ enc_bulk a @ [36]" using q dl by simp
  define k where "k = length (enc_bulk a)"
  let ?n = "\<lambda>i v. c\<lparr>q_argv := v, bulklen := - 1, multibulklen := 4 - i\<rparr>"
  have big: "length (querybuf c) = 90035" using q' l by simp
  have s: "strchr_from (querybuf c) 0 13 = Some 2"
    using strchr_from_found [of 0 "querybuf c" "[42, 52]" 13] q' by simp
  have h: "querybuf c ! 0 = 42" "take 1 (drop 1 (querybuf c)) = dec 4" using q' dl by auto
  have "string2ll (dec 4) = Some 4" using string2ll_dec [of 4] by simp
  then have start: "processMultibulkBuffer c = Some (bulk_finish 4 (c\<lparr>multibulklen := 4\<rparr>))"
    unfolding processMultibulkBuffer_def s using c h big by (simp add: Let_def)
  have d1: "drop 4 (querybuf c) = enc_bulk a @ enc_bulk a @ enc_bulk a @ [36]" unfolding q' by simp
  have d2: "drop (4 + k) (querybuf c) = enc_bulk a @ enc_bulk a @ [36]"
    using d1 by (subst add.commute, subst drop_drop [symmetric]) (simp add: k_def)
  have d3: "drop (4 + k + k) (querybuf c) = enc_bulk a @ [36]"
    using d2 by (subst add.commute, subst drop_drop [symmetric]) (simp add: k_def)
  have d4: "drop (4 + k + k + k) (querybuf c) = [36]"
    using d3 by (subst add.commute, subst drop_drop [symmetric]) (simp add: k_def)
  note d = d1 d2 d3 d4
  have "bulk_loop 4 4 (c\<lparr>multibulklen := 4\<rparr>) = bulk_loop 3 (4 + k) (?n 1 [a])"
    using bulk_loop_small [of 4 "c\<lparr>multibulklen := 4\<rparr>" a _ 3] d(1) a c big by (simp add: k_def)
  also have "\<dots> = bulk_loop 2 (4 + k + k) (?n 2 [a, a])"
    using bulk_loop_small [of "4 + k" "?n 1 [a]" a _ 2] d(2) a big by (simp add: k_def)
  also have "\<dots> = bulk_loop 1 (4 + k + k + k) (?n 3 [a, a, a])"
    using bulk_loop_small [of "4 + k + k" "?n 2 [a, a]" a _ 1, unfolded Suc_1] d(3) a big by (simp add: k_def del: bulk_loop.simps)
  also have "\<dots> = Inl (setProtocolError 0 (qerror ''Protocol error: too big bulk count string'' (?n 3 [a, a, a])))"
    using strchr_from_none [of 13 "4 + k + k + k" "querybuf c"] d(4) big by (simp add: bulk_header_def)
  finally show ?thesis
    unfolding start bulk_finish_def by (simp add: setProtocolError_def qerror_def qrange_drop)
qed

end
