(* ===== verification/Replication.thy ===== *)
theory Replication
  imports Protocol
begin

text \<open>
  The master's side of replication, from replication.c: the backlog, a circular buffer with the
  latest bytes of the command stream; the stream itself, which goes to the backlog and to the
  slaves; and the state machine of a slave that synchronises, in full through a background save
  or in part through the backlog.

  Offsets are \<open>long long\<close> values that count bytes since the server started; they are integers
  here, far from their limit of \<open>2^63\<close>. \<open>sl_out\<close> holds all bytes that were put into the output buffer of
  a slave. They leave it only when the slave is on line, so for a slave that waits it is the
  content of the buffer. \<open>sl_direct\<close> is what was written to the socket directly. What the
  operating system decides (whether a write, a fork or opening a file succeeds) is an argument.
\<close>

section \<open>State\<close>

datatype replstate = REDIS_REPL_WAIT_BGSAVE_START | REDIS_REPL_WAIT_BGSAVE_END | REDIS_REPL_SEND_BULK | REDIS_REPL_ONLINE

record slave =
  sl_id :: nat
  sl_state :: replstate
  sl_out :: bytes
  sl_direct :: bytes
  sl_ack_time :: int

record repl =
  repl_backlog :: "bytes option"
  repl_backlog_size :: nat
  repl_backlog_histlen :: nat
  repl_backlog_idx :: nat
  repl_backlog_off :: int
  master_repl_offset :: int
  slaveseldb :: int
  slaves :: "slave list"
  rdb_child :: bool
  runid :: bytes
  link_down :: bool
  rp_unixtime :: int
  min_slaves_to_write :: int
  min_slaves_max_lag :: int
  good_slaves_count :: int

definition ascii :: "string \<Rightarrow> bytes" where
  "ascii s = map (of_nat \<circ> of_char) s"

definition upd_slaves :: "(slave \<Rightarrow> slave) \<Rightarrow> repl \<Rightarrow> repl" where
  "upd_slaves f r = r\<lparr>slaves := map f (slaves r)\<rparr>"

definition sl_add :: "bytes \<Rightarrow> slave \<Rightarrow> slave" where
  "sl_add bs sl = sl\<lparr>sl_out := sl_out sl @ bs\<rparr>"

section \<open>The backlog\<close>

abbreviation REDIS_REPL_BACKLOG_MIN_SIZE :: int where "REDIS_REPL_BACKLOG_MIN_SIZE \<equiv> 16384"

definition createReplicationBacklog :: "byte \<Rightarrow> repl \<Rightarrow> repl option" where
  "createReplicationBacklog g r =
    (if repl_backlog r \<noteq> None then None
     else let off = master_repl_offset r + 1 in
       Some (r\<lparr>repl_backlog := Some (replicate (repl_backlog_size r) g), repl_backlog_histlen := 0,
         repl_backlog_idx := 0, master_repl_offset := off, repl_backlog_off := off + 1\<rparr>))"

definition resizeReplicationBacklog :: "byte \<Rightarrow> int \<Rightarrow> repl \<Rightarrow> repl" where
  "resizeReplicationBacklog g newsize r =
    (let newsize = (if newsize < REDIS_REPL_BACKLOG_MIN_SIZE then REDIS_REPL_BACKLOG_MIN_SIZE else newsize) in
     if int (repl_backlog_size r) = newsize then r
     else let r = r\<lparr>repl_backlog_size := nat newsize\<rparr> in
       if repl_backlog r = None then r
       else r\<lparr>repl_backlog := Some (replicate (repl_backlog_size r) g), repl_backlog_histlen := 0,
         repl_backlog_idx := 0, repl_backlog_off := master_repl_offset r + 1\<rparr>)"

definition freeReplicationBacklog :: "repl \<Rightarrow> repl option" where
  "freeReplicationBacklog r = (if slaves r \<noteq> [] then None else Some (r\<lparr>repl_backlog := None\<rparr>))"

text \<open>The copy in pieces. A write index outside the buffer would never end the loop or leave the buffer.\<close>

function feed_loop :: "nat \<Rightarrow> bytes \<Rightarrow> nat \<Rightarrow> bytes \<Rightarrow> nat \<Rightarrow> (bytes \<times> nat \<times> nat) option" where
  "feed_loop sz buf idx p histlen =
    (if p = [] then Some (buf, idx, histlen)
     else if sz \<le> idx then None
     else do {
       let thislen = (if sz - idx > length p then length p else sz - idx);
       buf \<leftarrow> wr buf idx (take thislen p);
       let idx = (if idx + thislen = sz then 0 else idx + thislen);
       feed_loop sz buf idx (drop thislen p) (histlen + thislen)
     })"
  by pat_completeness auto
termination by (relation "measure (\<lambda>(sz, buf, idx, p, histlen). length p)") auto

definition feedReplicationBacklog :: "bytes \<Rightarrow> repl \<Rightarrow> repl option" where
  "feedReplicationBacklog p r = do {
     buf \<leftarrow> repl_backlog r;
     let off = master_repl_offset r + int (length p);
     (buf, idx, histlen) \<leftarrow> feed_loop (repl_backlog_size r) buf (repl_backlog_idx r) p (repl_backlog_histlen r);
     let histlen = (if histlen > repl_backlog_size r then repl_backlog_size r else histlen);
     Some (r\<lparr>repl_backlog := Some buf, repl_backlog_histlen := histlen, repl_backlog_idx := idx,
       repl_backlog_off := off - int histlen + 1, master_repl_offset := off\<rparr>)
   }"

definition feedReplicationBacklogWithObject :: "strobj \<Rightarrow> repl \<Rightarrow> repl option" where
  "feedReplicationBacklogWithObject o' r = (case o' of
      ENC_INT v \<Rightarrow> do { (len, buf) \<leftarrow> ll2string (replicate 21 0) 21 v; feedReplicationBacklog (take len buf) r }
    | ENC_RAW p \<Rightarrow> feedReplicationBacklog p r)"

function backlog_read :: "nat \<Rightarrow> bytes \<Rightarrow> nat \<Rightarrow> nat \<Rightarrow> bytes option" where
  "backlog_read sz buf j len =
    (if len = 0 then Some []
     else if sz \<le> j then None
     else do {
       let thislen = (if sz - j < len then sz - j else len);
       bs \<leftarrow> rd buf j thislen;
       rest \<leftarrow> backlog_read sz buf 0 (len - thislen);
       Some (bs @ rest)
     })"
  by pat_completeness auto
termination by (relation "measure (\<lambda>(sz, buf, j, len). len)") auto

text \<open>The bytes sent and their number.\<close>

definition addReplyReplicationBacklog :: "int \<Rightarrow> repl \<Rightarrow> (bytes \<times> int) option" where
  "addReplyReplicationBacklog offset r =
    (if repl_backlog_histlen r = 0 then Some ([], 0)
     else do {
       buf \<leftarrow> repl_backlog r;
       let sz = int (repl_backlog_size r);
       let skip = offset - repl_backlog_off r;
       let j = (int (repl_backlog_idx r) + (sz - int (repl_backlog_histlen r))) mod sz;
       let j = (j + skip) mod sz;
       let len = int (repl_backlog_histlen r) - skip;
       bs \<leftarrow> backlog_read (repl_backlog_size r) buf (nat j) (nat len);
       Some (bs, len)
     })"

section \<open>The command stream\<close>

text \<open>The header line of a request or an argument, written into a buffer of 24 bytes.\<close>

definition stream_header :: "byte \<Rightarrow> int \<Rightarrow> bytes option" where
  "stream_header ch n = do {
     (len, aux) \<leftarrow> ll2string (replicate 23 0) 23 n;
     Some (ch # take len aux @ [13, 10])
   }"

definition select_cmd :: "int \<Rightarrow> bytes option" where
  "select_cmd dictid = do {
     (len, llstr) \<leftarrow> ll2string (replicate 21 0) 21 dictid;
     (n, aux) \<leftarrow> ll2string (replicate 21 0) 21 (int len);
     Some ([42, 50, 13, 10, 36, 54, 13, 10, 83, 69, 76, 69, 67, 84, 13, 10, 36] @ take n aux @ [13, 10] @ take len llstr @ [13, 10])
   }"

fun feed_argv :: "strobj list \<Rightarrow> repl \<Rightarrow> repl option" where
  "feed_argv [] r = Some r"
| "feed_argv (a # argv) r = do {
     h \<leftarrow> stream_header 36 (int (stringObjectLen a));
     r \<leftarrow> feedReplicationBacklog h r;
     r \<leftarrow> feedReplicationBacklogWithObject a r;
     r \<leftarrow> feedReplicationBacklog [13, 10] r;
     feed_argv argv r
   }"

text \<open>What \<open>addReplyMultiBulkLen\<close> and \<open>addReplyBulk\<close> put into an output buffer. The length of an
  encoded integer is counted by division (the negation of the least \<open>long\<close> wraps to itself in the
  code, which has as many digits); the small headers are shared objects of the same text.\<close>

function int_digits :: "int \<Rightarrow> nat" where
  "int_digits n = (let n' = sgn n * (\<bar>n\<bar> div 10) in if n' \<noteq> 0 then Suc (int_digits n') else 1)"
  by pat_completeness auto
termination
proof (relation "measure (\<lambda>n. nat \<bar>n\<bar>)")
  fix n n' :: int
  assume "n' = sgn n * (\<bar>n\<bar> div 10)" "n' \<noteq> 0"
  then show "(n', n) \<in> measure (\<lambda>n. nat \<bar>n\<bar>)"
    by (cases "n > 0"; cases "n < 0") (auto simp: abs_mult)
qed simp

definition addReplyBulkLen :: "strobj \<Rightarrow> nat" where
  "addReplyBulkLen o' = (case o' of
      ENC_RAW p \<Rightarrow> length p
    | ENC_INT v \<Rightarrow> (if v < 0 then 1 + int_digits (- v) else int_digits v))"

definition addReplyLongLongWithPrefix :: "int \<Rightarrow> byte \<Rightarrow> bytes option" where
  "addReplyLongLongWithPrefix ll pfx = do {
     (len, buf) \<leftarrow> ll2string (replicate 127 0) 127 ll;
     Some (pfx # take len buf @ [13, 10])
   }"

definition addReplyBulk :: "strobj \<Rightarrow> bytes option" where
  "addReplyBulk o' = do {
     h \<leftarrow> addReplyLongLongWithPrefix (int (addReplyBulkLen o')) 36;
     Some (h @ content o' @ [13, 10])
   }"

fun reply_argv :: "strobj list \<Rightarrow> bytes option" where
  "reply_argv [] = Some []"
| "reply_argv (a # argv) = do { b \<leftarrow> addReplyBulk a; rest \<leftarrow> reply_argv argv; Some (b @ rest) }"

definition replicationFeedSlaves :: "int \<Rightarrow> strobj list \<Rightarrow> repl \<Rightarrow> repl option" where
  "replicationFeedSlaves dictid argv r =
    (if repl_backlog r = None \<and> slaves r = [] then Some r
     else if slaves r \<noteq> [] \<and> repl_backlog r = None then None
     else do {
       r \<leftarrow> (if slaveseldb r \<noteq> dictid then do {
           cmd \<leftarrow> select_cmd dictid;
           r \<leftarrow> (if repl_backlog r \<noteq> None then feedReplicationBacklogWithObject (ENC_RAW cmd) r else Some r);
           Some (upd_slaves (sl_add cmd) r)
         } else Some r);
       let r = r\<lparr>slaveseldb := dictid\<rparr>;
       r \<leftarrow> (if repl_backlog r \<noteq> None then do {
           h \<leftarrow> stream_header 42 (int (length argv));
           r \<leftarrow> feedReplicationBacklog h r;
           feed_argv argv r
         } else Some r);
       h \<leftarrow> addReplyLongLongWithPrefix (int (length argv)) 42;
       bs \<leftarrow> reply_argv argv;
       Some (upd_slaves (\<lambda>sl. if sl_state sl = REDIS_REPL_WAIT_BGSAVE_START then sl else sl_add (h @ bs) sl) r)
     })"

section \<open>Synchronisation\<close>

definition refreshGoodSlavesCount :: "repl \<Rightarrow> repl" where
  "refreshGoodSlavesCount r =
    (if min_slaves_to_write r = 0 \<or> min_slaves_max_lag r = 0 then r
     else r\<lparr>good_slaves_count := int (length (filter (\<lambda>sl. sl_state sl = REDIS_REPL_ONLINE \<and>
       rp_unixtime r - sl_ack_time sl \<le> min_slaves_max_lag r) (slaves r)))\<rparr>)"

text \<open>
  The client becomes a slave, with \<open>True\<close> as the third component, or must synchronise in full.
  A client whose socket refuses the answer is marked to be closed, which the code reports as
  success too; it leaves the list of slaves with \<open>free_slave\<close>.
\<close>

definition masterTryPartialResynchronization :: "bool \<Rightarrow> bytes list \<Rightarrow> slave \<Rightarrow> repl \<Rightarrow> (repl \<times> slave \<times> bool) option" where
  "masterTryPartialResynchronization write_ok argv c r =
    (let full = (\<lambda>c :: slave.
        let psync_offset = master_repl_offset r + (if repl_backlog r = None then 1 else 0);
            c = c\<lparr>sl_direct := sl_direct c @ ascii ''+FULLRESYNC '' @ runid r @ [32] @ decimal psync_offset @ [13, 10]\<rparr>
        in Some (r, c, \<not> write_ok))
     in if \<not> strcasecmp_eq (argv ! 1) (runid r) then full c
        else case getLongLongFromObject (Some (ENC_RAW (argv ! 2))) of
            None \<Rightarrow> full (sl_add (ascii ''-ERR value is not an integer or out of range'' @ [13, 10]) c)
          | Some psync_offset \<Rightarrow>
              if repl_backlog r = None \<or> psync_offset < repl_backlog_off r \<or>
                 psync_offset > repl_backlog_off r + int (repl_backlog_histlen r) then full c
              else let c = c\<lparr>sl_state := REDIS_REPL_ONLINE, sl_ack_time := rp_unixtime r,
                         sl_direct := sl_direct c @ ascii ''+CONTINUE'' @ [13, 10]\<rparr>
                   in if \<not> write_ok then Some (r\<lparr>slaves := slaves r @ [c]\<rparr>, c, True)
                      else do {
                        (bs, len) \<leftarrow> addReplyReplicationBacklog psync_offset r;
                        let c = sl_add bs c;
                        Some (refreshGoodSlavesCount (r\<lparr>slaves := slaves r @ [c]\<rparr>), c, True)
                      })"


text \<open>The client at the time it asks for synchronisation: nothing is pending for it.\<close>

definition new_slave :: "nat \<Rightarrow> slave" where
  "new_slave c = \<lparr>sl_id = c, sl_state = REDIS_REPL_WAIT_BGSAVE_START, sl_out = [], sl_direct = [], sl_ack_time = 0\<rparr>"

definition copyClientOutputBuffer :: "slave \<Rightarrow> slave \<Rightarrow> slave" where
  "copyClientOutputBuffer dst src = dst\<lparr>sl_out := sl_out src\<rparr>"

definition attach_slave :: "byte \<Rightarrow> slave \<Rightarrow> repl \<Rightarrow> repl option" where
  "attach_slave g c r =
    (let r = r\<lparr>slaveseldb := - 1, slaves := slaves r @ [c]\<rparr>
     in if length (slaves r) = 1 \<and> repl_backlog r = None then createReplicationBacklog g r else Some r)"

text \<open>
  \<open>SYNC\<close> and \<open>PSYNC\<close>. The result is the new state and what the client was sent, with the error
  replies in its output buffer. \<open>write_ok\<close> and \<open>fork_ok\<close> say whether the answer to \<open>PSYNC\<close>
  could be written and whether a background save could be started.
\<close>

definition syncCommand :: "byte \<Rightarrow> bool \<Rightarrow> bool \<Rightarrow> bool \<Rightarrow> nat \<Rightarrow> bytes list \<Rightarrow> repl \<Rightarrow> (repl \<times> slave) option" where
  "syncCommand g write_ok fork_ok has_output cid argv r =
    (let c = new_slave cid in
     if cid \<in> set (map sl_id (slaves r)) then Some (r, c)
     else if link_down r then
       Some (r, sl_add (ascii ''-ERR Can'' @ [39] @ ascii ''t SYNC while not connected with my master'' @ [13, 10]) c)
     else if has_output then
       Some (r, sl_add (ascii ''-ERR SYNC and PSYNC are invalid with pending output'' @ [13, 10]) c)
     else do {
       (r, c, stop) \<leftarrow> (if strcasecmp_eq (argv ! 0) [112, 115, 121, 110, 99]
          then masterTryPartialResynchronization write_ok argv c r else Some (r, c, False));
       if stop then Some (r, c)
       else if rdb_child r then do {
         let c = (case find (\<lambda>sl. sl_state sl = REDIS_REPL_WAIT_BGSAVE_END) (slaves r) of
            Some sl \<Rightarrow> (copyClientOutputBuffer c sl)\<lparr>sl_state := REDIS_REPL_WAIT_BGSAVE_END\<rparr>
          | None \<Rightarrow> c\<lparr>sl_state := REDIS_REPL_WAIT_BGSAVE_START\<rparr>);
         r \<leftarrow> attach_slave g c r;
         Some (r, c)
       }
       else if \<not> fork_ok then Some (r, sl_add (ascii ''-ERR Unable to perform background save'' @ [13, 10]) c)
       else do {
         let c = c\<lparr>sl_state := REDIS_REPL_WAIT_BGSAVE_END\<rparr>;
         r \<leftarrow> attach_slave g c (r\<lparr>rdb_child := True\<rparr>);
         Some (r, c)
       }
     })"

text \<open>At the end of a background save. \<open>opened\<close> holds the slaves for whom the file could be opened
  and the event for sending it registered; the others are freed.\<close>

fun bgsave_slave :: "bool \<Rightarrow> (nat \<Rightarrow> bool) \<Rightarrow> slave \<Rightarrow> slave option" where
  "bgsave_slave ok opened sl = (case sl_state sl of
      REDIS_REPL_WAIT_BGSAVE_START \<Rightarrow> Some (sl\<lparr>sl_state := REDIS_REPL_WAIT_BGSAVE_END\<rparr>)
    | REDIS_REPL_WAIT_BGSAVE_END \<Rightarrow>
        if \<not> ok then None else if \<not> opened (sl_id sl) then None else Some (sl\<lparr>sl_state := REDIS_REPL_SEND_BULK\<rparr>)
    | _ \<Rightarrow> Some sl)"

definition updateSlavesWaitingBgsave :: "bool \<Rightarrow> (nat \<Rightarrow> bool) \<Rightarrow> bool \<Rightarrow> repl \<Rightarrow> repl" where
  "updateSlavesWaitingBgsave ok opened fork_ok r =
    (let startbgsave = (\<exists>sl\<in>set (slaves r). sl_state sl = REDIS_REPL_WAIT_BGSAVE_START);
         freed = (\<exists>sl\<in>set (slaves r). bgsave_slave ok opened sl = None);
         r = r\<lparr>slaves := List.map_filter (bgsave_slave ok opened) (slaves r)\<rparr>;
         r = (if freed then refreshGoodSlavesCount r else r)
     in if \<not> startbgsave then r
        else if fork_ok then r\<lparr>rdb_child := True\<rparr>
        else r\<lparr>slaves := filter (\<lambda>sl. sl_state sl \<noteq> REDIS_REPL_WAIT_BGSAVE_START) (slaves r)\<rparr>)"

definition backgroundSaveDoneHandler :: "bool \<Rightarrow> (nat \<Rightarrow> bool) \<Rightarrow> bool \<Rightarrow> repl \<Rightarrow> repl" where
  "backgroundSaveDoneHandler ok opened fork_ok r = updateSlavesWaitingBgsave ok opened fork_ok (r\<lparr>rdb_child := False\<rparr>)"

text \<open>The last piece of the file has been sent to a slave.\<close>

definition sendBulkToSlave_done :: "nat \<Rightarrow> repl \<Rightarrow> repl" where
  "sendBulkToSlave_done cid r = refreshGoodSlavesCount (upd_slaves (\<lambda>sl.
     if sl_id sl = cid \<and> sl_state sl = REDIS_REPL_SEND_BULK
     then sl\<lparr>sl_state := REDIS_REPL_ONLINE, sl_ack_time := rp_unixtime r\<rparr> else sl) r)"

definition free_slave :: "nat \<Rightarrow> repl \<Rightarrow> repl" where
  "free_slave cid r = refreshGoodSlavesCount (r\<lparr>slaves := filter (\<lambda>sl. sl_id sl \<noteq> cid) (slaves r)\<rparr>)"

section \<open>The bytes of the stream are requests\<close>

declare int_digits.simps [simp del] feed_loop.simps [simp del] backlog_read.simps [simp del]

lemma int_digits_dec: "int_digits (int n) = length (dec n)"
proof (induction n rule: less_induct)
  case (less n)
  show ?case
  proof (cases "n < 10")
    case True
    then have "int n div 10 = 0" by simp
    then show ?thesis using True by (simp add: int_digits.simps Let_def)
  next
    case False
    have e: "sgn (int n) * (\<bar>int n\<bar> div 10) = int (n div 10)" using False by (simp add: zdiv_int)
    show ?thesis using False less [of "n div 10"] unfolding int_digits.simps [of "int n"] Let_def e
      by (simp add: dec_step)
  qed
qed

lemma addReplyBulkLen_content: "addReplyBulkLen o' = length (content o')"
  by (cases o') (auto simp: addReplyBulkLen_def decimal_def int_digits_dec [of "nat _", simplified] simp flip: int_digits_dec)

lemma stream_header_dec:
  assumes "int n \<le> LLONG_MAX"
  shows "stream_header ch (int n) = Some (ch # dec n @ [13, 10])" "addReplyLongLongWithPrefix (int n) ch = Some (ch # dec n @ [13, 10])"
proof -
  have "int64_range (int n)" using assms by simp
  moreover have "length (decimal (int n)) < 21" using length_decimal_ll [OF calculation] .
  ultimately show "stream_header ch (int n) = Some (ch # dec n @ [13, 10])" "addReplyLongLongWithPrefix (int n) ch = Some (ch # dec n @ [13, 10])"
    using ll2string_spec [of "int n" 23 "replicate 23 0"] ll2string_spec [of "int n" 127 "replicate 127 0"]
    by (simp_all add: stream_header_def addReplyLongLongWithPrefix_def decimal_def)
qed

abbreviation select_req :: "int \<Rightarrow> bytes list" where
  "select_req d \<equiv> [[83, 69, 76, 69, 67, 84], decimal d]"

lemma select_cmd_enc: "int64_range d \<Longrightarrow> select_cmd d = Some (enc_request (select_req d))"
proof -
  assume d: "int64_range d"
  note l = length_decimal_ll [OF d]
  let ?n = "length (decimal d)"
  have n: "int64_range (int ?n)" "length (decimal (int ?n)) < 21" using l length_decimal_ll [of "int ?n"] by auto
  show ?thesis
    using ll2string_spec [OF d, of 21 "replicate 21 0"] l ll2string_spec [OF n(1), of 21 "replicate 21 0"] n(2)
    by (simp add: select_cmd_def enc_request_def enc_bulk_def decimal_def [of "int ?n"] dchar_def)
qed

definition arg_ok :: "strobj \<Rightarrow> bool" where
  "arg_ok a \<longleftrightarrow> obj_ok a \<and> bulk_ok (content a)"

lemma reply_argv_enc: "\<forall>a\<in>set argv. arg_ok a \<Longrightarrow> reply_argv argv = Some (concat (map (\<lambda>a. enc_bulk (content a)) argv))"
proof (induction argv)
  case (Cons a argv)
  have "int (length (content a)) \<le> LLONG_MAX" using Cons.prems by (auto simp: arg_ok_def bulk_ok_def)
  then show ?case using Cons by (simp add: addReplyBulk_def addReplyBulkLen_content stream_header_dec enc_bulk_def)
qed simp

section \<open>The backlog holds the last bytes of the stream\<close>

definition backlog_holds :: "bytes \<Rightarrow> nat \<Rightarrow> bytes \<Rightarrow> bool" where
  "backlog_holds W sz buf \<longleftrightarrow> (\<forall>k < length W. length W \<le> k + sz \<longrightarrow> buf ! (k mod sz) = W ! k)"

definition backlog_inv :: "bytes \<Rightarrow> repl \<Rightarrow> bool" where
  "backlog_inv W r \<longleftrightarrow> (\<exists>buf. repl_backlog r = Some buf \<and> 0 < repl_backlog_size r \<and> length buf = repl_backlog_size r \<and>
     backlog_holds W (repl_backlog_size r) buf) \<and> repl_backlog_idx r = length W mod repl_backlog_size r \<and>
     repl_backlog_histlen r = min (repl_backlog_size r) (length W) \<and>
     repl_backlog_off r = master_repl_offset r - int (repl_backlog_histlen r) + 1"

lemma mod_window:
  assumes "(k::nat) < w" "w + t \<le> k + sz" "i < t" "0 < sz"
  shows "k mod sz \<noteq> (w + i) mod sz"
proof
  assume "k mod sz = (w + i) mod sz"
  then have "sz dvd (w + i - k)" using assms mod_eq_dvd_iff_nat [of k "w + i" sz] by simp
  moreover have "0 < w + i - k" "w + i - k < sz" using assms by auto
  ultimately show False by (auto dest: dvd_imp_le)
qed

lemma feed_loop_spec:
  assumes "0 < sz" "length buf = sz" "backlog_holds W sz buf"
  shows "\<exists>buf'. feed_loop sz buf (length W mod sz) p h = Some (buf', length (W @ p) mod sz, h + length p) \<and>
    length buf' = sz \<and> backlog_holds (W @ p) sz buf'"
  using assms
proof (induction "length p" arbitrary: p W buf h rule: less_induct)
  case less
  show ?case
  proof (cases "p = []")
    case True
    then show ?thesis using less.prems by (simp add: feed_loop.simps)
  next
    case False
    let ?i = "length W mod sz"
    define t where "t = (if sz - ?i > length p then length p else sz - ?i)"
    have i: "?i < sz" using less.prems(1) by simp
    have t: "0 < t" "t \<le> length p" "?i + t \<le> sz" using False i by (auto simp: t_def)
    define b where "b = take ?i buf @ take t p @ drop (?i + t) buf"
    have w: "wr buf ?i (take t p) = Some b" using t less.prems(2) by (simp add: buf_simps b_def min_absorb2)
    have lb: "length b = sz" using t less.prems(2) by (simp add: b_def)
    have pos: "(length W + j) mod sz = ?i + j" if "j < t" for j
      using that t(3) mod_add_left_eq [of "length W" sz j, symmetric] by simp
    have nx: "(if ?i + t = sz then 0 else ?i + t) = length (W @ take t p) mod sz"
      using t mod_add_left_eq [of "length W" sz t, symmetric] by auto
    have h: "backlog_holds (W @ take t p) sz b"
      unfolding backlog_holds_def
    proof (intro allI impI)
      fix k assume k: "k < length (W @ take t p)" "length (W @ take t p) \<le> k + sz"
      show "b ! (k mod sz) = (W @ take t p) ! k"
      proof (cases "k < length W")
        case True
        have "k mod sz \<noteq> ?i + j" if "j < t" for j
          using mod_window [of k "length W" t sz j] True k t less.prems(1) that pos by simp
        then have "k mod sz < ?i \<or> ?i + t \<le> k mod sz" by (metis le_add_diff_inverse less_diff_conv2 not_le add.commute add_less_cancel_left)
        then have "b ! (k mod sz) = buf ! (k mod sz)"
          using less.prems(1,2) t i by (auto simp: b_def nth_append min_def)
        then show ?thesis using less.prems(3) True k t by (auto simp: backlog_holds_def nth_append)
      next
        case False
        define j where "j = k - length W"
        have j: "k = length W + j" "j < t" using False k t by (auto simp: j_def)
        then show ?thesis using t pos less.prems(2) i by (auto simp: b_def nth_append)
      qed
    qed
    have dl: "length (drop t p) < length p" using t by simp
    obtain buf' where "feed_loop sz b (length (W @ take t p) mod sz) (drop t p) (h + t)
        = Some (buf', length ((W @ take t p) @ drop t p) mod sz, h + t + length (drop t p))" "length buf' = sz"
      "backlog_holds ((W @ take t p) @ drop t p) sz buf'"
      using less.hyps [OF dl less.prems(1) lb h, of "h + t"] by blast
    moreover have "feed_loop sz buf ?i p h = feed_loop sz b (length (W @ take t p) mod sz) (drop t p) (h + t)"
      using False i w nx unfolding feed_loop.simps [of sz buf ?i] Let_def t_def [symmetric] by simp
    ultimately show ?thesis using t by simp
  qed
qed


definition same_repl :: "repl \<Rightarrow> repl \<Rightarrow> bool" where
  "same_repl r r' \<longleftrightarrow> slaves r' = slaves r \<and> slaveseldb r' = slaveseldb r \<and> rdb_child r' = rdb_child r \<and> runid r' = runid r \<and>
     link_down r' = link_down r \<and> repl_backlog_size r' = repl_backlog_size r"

text \<open>What feeding bytes does: the stream grows by them, nothing else changes.\<close>

definition fed :: "bytes \<Rightarrow> bytes \<Rightarrow> repl \<Rightarrow> repl option \<Rightarrow> bool" where
  "fed W p r res \<longleftrightarrow> (\<exists>r'. res = Some r' \<and> backlog_inv (W @ p) r' \<and> same_repl r r' \<and>
     master_repl_offset r' = master_repl_offset r + int (length p))"

lemma feedReplicationBacklog_fed: "backlog_inv W r \<Longrightarrow> fed W p r (feedReplicationBacklog p r)"
proof -
  assume inv: "backlog_inv W r"
  then obtain buf where b: "repl_backlog r = Some buf" "0 < repl_backlog_size r" "length buf = repl_backlog_size r"
    "backlog_holds W (repl_backlog_size r) buf" "repl_backlog_idx r = length W mod repl_backlog_size r"
    "repl_backlog_histlen r = min (repl_backlog_size r) (length W)" by (auto simp: backlog_inv_def)
  obtain buf' where f: "feed_loop (repl_backlog_size r) buf (repl_backlog_idx r) p (repl_backlog_histlen r)
      = Some (buf', length (W @ p) mod repl_backlog_size r, repl_backlog_histlen r + length p)"
    "length buf' = repl_backlog_size r" "backlog_holds (W @ p) (repl_backlog_size r) buf'"
    using feed_loop_spec [OF b(2,3,4), of p "repl_backlog_histlen r"] b(5) by auto
  have h: "(if repl_backlog_histlen r + length p > repl_backlog_size r then repl_backlog_size r else repl_backlog_histlen r + length p)
      = min (repl_backlog_size r) (length (W @ p))" using b(6) by auto
  show ?thesis
    unfolding fed_def feedReplicationBacklog_def b(1) Let_def using f h b(2)
    by (simp add: backlog_inv_def same_repl_def)
qed

lemma fed_bind:
  assumes "fed W p r res" "\<And>r'. backlog_inv (W @ p) r' \<Longrightarrow> fed (W @ p) q r' (f r')"
  shows "fed W (p @ q) r (res \<bind> f)"
proof -
  obtain r' where r': "res = Some r'" "backlog_inv (W @ p) r'" "same_repl r r'" "master_repl_offset r' = master_repl_offset r + int (length p)"
    using assms(1) by (auto simp: fed_def)
  then show ?thesis using assms(2) [OF r'(2)] by (auto simp: fed_def same_repl_def)
qed

lemma feed_object_fed: "backlog_inv W r \<Longrightarrow> obj_ok a \<Longrightarrow> fed W (content a) r (feedReplicationBacklogWithObject a r)"
proof (cases a)
  case (ENC_INT v)
  assume "backlog_inv W r" "obj_ok a"
  moreover have v: "int64_range v" using \<open>obj_ok a\<close> ENC_INT by (simp add: long_range_def)
  ultimately show ?thesis
    using ENC_INT ll2string_spec [OF v, of 21 "replicate 21 0"] length_decimal_ll [OF v] feedReplicationBacklog_fed [of W r "decimal v"]
    by (simp add: feedReplicationBacklogWithObject_def)
qed (simp add: feedReplicationBacklogWithObject_def feedReplicationBacklog_fed)

lemma feed_argv_fed:
  "backlog_inv W r \<Longrightarrow> \<forall>a\<in>set argv. arg_ok a \<Longrightarrow> fed W (concat (map (\<lambda>a. enc_bulk (content a)) argv)) r (feed_argv argv r)"
proof (induction argv arbitrary: W r)
  case Nil
  then show ?case by (simp add: fed_def same_repl_def)
next
  case (Cons a argv)
  let ?h = "36 # dec (length (content a)) @ [13, 10]"
  have a: "obj_ok a" "int (length (content a)) \<le> LLONG_MAX" using Cons.prems by (auto simp: arg_ok_def bulk_ok_def)
  have l: "stringObjectLen a = length (content a)" using a(1) by (rule stringObjectLen_content)
  have "fed W (?h @ content a @ [13, 10] @ concat (map (\<lambda>a. enc_bulk (content a)) argv)) r
    (feedReplicationBacklog ?h r \<bind> (\<lambda>r. feedReplicationBacklogWithObject a r \<bind> (\<lambda>r. feedReplicationBacklog [13, 10] r \<bind> feed_argv argv)))"
    by (rule fed_bind [OF feedReplicationBacklog_fed [OF Cons.prems(1)]], rule fed_bind [OF feed_object_fed [OF _ a(1)]], assumption,
        rule fed_bind [OF feedReplicationBacklog_fed], assumption) (use Cons in simp)
  then show ?case using a l by (simp add: stream_header_dec enc_bulk_def)
qed


lemma backlog_read_spec:
  assumes "0 < sz" "length buf = sz" "backlog_holds W sz buf" "s + len \<le> length W" "length W \<le> s + sz"
  shows "backlog_read sz buf (s mod sz) len = Some (take len (drop s W))"
  using assms(4,5)
proof (induction len arbitrary: s rule: less_induct)
  case (less len)
  show ?case
  proof (cases "len = 0")
    case True
    then show ?thesis by (simp add: backlog_read.simps)
  next
    case False
    let ?j = "s mod sz"
    define t where "t = (if sz - ?j < len then sz - ?j else len)"
    have j: "?j < sz" using assms(1) by simp
    have t: "0 < t" "t \<le> len" "?j + t \<le> sz" using False j by (auto simp: t_def)
    have bytes: "take t (drop ?j buf) = take t (drop s W)"
    proof (rule nth_equalityI)
      show "length (take t (drop ?j buf)) = length (take t (drop s W))" using t assms(2) less.prems by simp
      fix i assume "i < length (take t (drop ?j buf))"
      then have i: "i < t" by simp
      have "(s + i) mod sz = ?j + i" using i t(3) mod_add_left_eq [of s sz i, symmetric] by simp
      then have "buf ! (?j + i) = W ! (s + i)"
        using assms(3) less.prems i t by (auto simp: backlog_holds_def dest!: spec [of _ "s + i"])
      then show "take t (drop ?j buf) ! i = take t (drop s W) ! i" using i t assms(2) less.prems by simp
    qed
    have rest: "backlog_read sz buf 0 (len - t) = Some (take (len - t) (drop (s + t) W))"
    proof (cases "t = len")
      case True
      then show ?thesis by (simp add: backlog_read.simps)
    next
      case ne: False
      then have "?j + t = sz" using j by (simp add: t_def split: if_splits)
      then have "(s + t) mod sz = 0" using mod_add_left_eq [of s sz t, symmetric] by simp
      then show ?thesis using less.IH [of "len - t" "s + t"] t less.prems False by simp
    qed
    have "backlog_read sz buf ?j len = Some (take t (drop s W) @ take (len - t) (drop (s + t) W))"
      using False j t assms(2) rest unfolding backlog_read.simps [of sz buf ?j] Let_def t_def [symmetric]
      by (simp add: buf_simps bytes)
    also have "take t (drop s W) @ take (len - t) (drop (s + t) W) = take len (drop s W)"
      using take_add [of t "len - t" "drop s W"] t by (simp add: add.commute)
    finally show ?thesis .
  qed
qed

lemma addReplyReplicationBacklog_spec:
  assumes inv: "backlog_inv W r" and s: "s \<le> length W" "length W \<le> s + repl_backlog_size r"
    and off: "offset = master_repl_offset r - int (length W) + 1 + int s"
  shows "addReplyReplicationBacklog offset r = Some (drop s W, int (length W - s))"
proof -
  obtain buf where b: "repl_backlog r = Some buf" "0 < repl_backlog_size r" "length buf = repl_backlog_size r"
    "backlog_holds W (repl_backlog_size r) buf" "repl_backlog_idx r = length W mod repl_backlog_size r"
    "repl_backlog_histlen r = min (repl_backlog_size r) (length W)"
    "repl_backlog_off r = master_repl_offset r - int (repl_backlog_histlen r) + 1" using inv by (auto simp: backlog_inv_def)
  let ?sz = "repl_backlog_size r" and ?h = "repl_backlog_histlen r"
  show ?thesis
  proof (cases "length W = 0")
    case True
    then show ?thesis using b(6) s by (simp add: addReplyReplicationBacklog_def)
  next
    case False
    have h: "?h \<noteq> 0" "?h \<le> length W" using b(2,6) False by auto
    have skip: "offset - repl_backlog_off r = int s - (int (length W) - int ?h)" using off b(7) by simp
    have j: "((int (repl_backlog_idx r) + (int ?sz - int ?h)) mod int ?sz + (int s - (int (length W) - int ?h))) mod int ?sz = int (s mod ?sz)"
    proof -
      have "((int (length W) mod int ?sz + (int ?sz - int ?h)) mod int ?sz + (int s - (int (length W) - int ?h))) mod int ?sz
          = (int (length W) + (int ?sz - int ?h) + (int s - (int (length W) - int ?h))) mod int ?sz"
        by (simp add: mod_simps)
      also have "\<dots> = (int s + int ?sz) mod int ?sz" by (simp add: algebra_simps)
      finally show ?thesis by (simp add: b(5) zmod_int)
    qed
    have len: "int ?h - (int s - (int (length W) - int ?h)) = int (length W - s)" using s by (simp add: of_nat_diff)
    show ?thesis
      unfolding addReplyReplicationBacklog_def b(1) Let_def skip j len using h backlog_read_spec [OF b(2,3,4), of s "length W - s"] s
      by (simp del: of_nat_diff)
  qed
qed


section \<open>Propagated commands\<close>

text \<open>A propagated command: a data base and an argument vector. The requests of the stream are the
  commands, with a \<open>SELECT\<close> before a command on another data base than the one before.\<close>

type_synonym cmd = "int \<times> strobj list"

definition cmd_ok :: "cmd \<Rightarrow> bool" where
  "cmd_ok cm \<longleftrightarrow> int64_range (fst cm) \<and> fst cm \<noteq> - 1 \<and> snd cm \<noteq> [] \<and> length (snd cm) \<le> 1048576 \<and> (\<forall>a\<in>set (snd cm). arg_ok a) \<and>
     content (hd (snd cm)) \<noteq> [83, 69, 76, 69, 67, 84]"

definition sel_reqs :: "int \<Rightarrow> int \<Rightarrow> bytes list list" where
  "sel_reqs cur d = (if cur \<noteq> d then [select_req d] else [])"

fun stream_reqs :: "int \<Rightarrow> cmd list \<Rightarrow> bytes list list" where
  "stream_reqs cur [] = []"
| "stream_reqs cur ((d, argv) # cmds) = sel_reqs cur d @ map content argv # stream_reqs d cmds"

abbreviation enc_reqs :: "bytes list list \<Rightarrow> bytes" where
  "enc_reqs rqs \<equiv> concat (map enc_request rqs)"

lemma cmd_bytes:
  assumes "\<forall>a\<in>set argv. arg_ok a" "length argv \<le> 1048576"
  shows "stream_header 42 (int (length argv)) = Some (42 # dec (length argv) @ [13, 10])"
    "addReplyLongLongWithPrefix (int (length argv)) 42 = Some (42 # dec (length argv) @ [13, 10])"
    "enc_request (map content argv) = (42 # dec (length argv) @ [13, 10]) @ concat (map (\<lambda>a. enc_bulk (content a)) argv)"
  using assms stream_header_dec [of "length argv" 42] by (auto simp: enc_request_def comp_def)

lemma backlog_inv_fields:
  "backlog_inv W (r\<lparr>slaves := x\<rparr>) = backlog_inv W r" "backlog_inv W (r\<lparr>slaveseldb := y\<rparr>) = backlog_inv W r"
  "backlog_inv W (r\<lparr>rdb_child := b\<rparr>) = backlog_inv W r" "backlog_inv W (r\<lparr>good_slaves_count := z\<rparr>) = backlog_inv W r"
  by (simp_all add: backlog_inv_def)

text \<open>A command goes to the backlog and, with its \<open>SELECT\<close>, to every slave but those that wait for a save to start.\<close>

lemma replicationFeedSlaves_spec:
  assumes inv: "backlog_inv W r" and cm: "cmd_ok (d, argv)"
  obtains r' where "replicationFeedSlaves d argv r = Some r'" "backlog_inv (W @ enc_reqs (stream_reqs (slaveseldb r) [(d, argv)])) r'"
    "slaveseldb r' = d" "rdb_child r' = rdb_child r" "runid r' = runid r" "link_down r' = link_down r" "repl_backlog_size r' = repl_backlog_size r"
    "master_repl_offset r' - int (length (W @ enc_reqs (stream_reqs (slaveseldb r) [(d, argv)]))) = master_repl_offset r - int (length W)"
    "slaves r' = map (\<lambda>sl. sl_add (enc_reqs (sel_reqs (slaveseldb r) d @
        (if sl_state sl = REDIS_REPL_WAIT_BGSAVE_START then [] else [map content argv]))) sl) (slaves r)"
proof -
  have b: "repl_backlog r \<noteq> None" using inv by (auto simp: backlog_inv_def)
  let ?sel = "enc_reqs (sel_reqs (slaveseldb r) d)"
  have a: "\<forall>a\<in>set argv. arg_ok a" "length argv \<le> 1048576" "int64_range d" using cm by (auto simp: cmd_ok_def)
  obtain r1 where r1: "(if slaveseldb r \<noteq> d then do { cmd \<leftarrow> select_cmd d;
           r \<leftarrow> (if repl_backlog r \<noteq> None then feedReplicationBacklogWithObject (ENC_RAW cmd) r else Some r);
           Some (upd_slaves (sl_add cmd) r) } else Some r) = Some r1"
      "backlog_inv (W @ ?sel) r1" "slaves r1 = map (sl_add ?sel) (slaves r)" "rdb_child r1 = rdb_child r" "runid r1 = runid r"
      "link_down r1 = link_down r" "repl_backlog_size r1 = repl_backlog_size r" "master_repl_offset r1 = master_repl_offset r + int (length ?sel)"
  proof (cases "slaveseldb r = d")
    case True
    have "map (sl_add []) (slaves r) = slaves r" by (induction "slaves r") (auto simp: sl_add_def)
    then show thesis using True inv by (intro that [of r]) (auto simp: sel_reqs_def)
  next
    case False
    obtain r2 where r2: "feedReplicationBacklogWithObject (ENC_RAW (enc_request (select_req d))) r = Some r2"
      "backlog_inv (W @ enc_request (select_req d)) r2" "same_repl r r2"
      "master_repl_offset r2 = master_repl_offset r + int (length (enc_request (select_req d)))"
      using feed_object_fed [OF inv, of "ENC_RAW (enc_request (select_req d))"] by (auto simp: fed_def)
    show thesis
      by (rule that [of "upd_slaves (sl_add (enc_request (select_req d))) r2"])
        (use False r2 b select_cmd_enc [OF a(3)] in \<open>auto simp: sel_reqs_def upd_slaves_def backlog_inv_fields same_repl_def\<close>)
  qed
  define r2 where "r2 = r1\<lparr>slaveseldb := d\<rparr>"
  have inv2: "backlog_inv (W @ ?sel) r2" using r1(2) by (simp add: r2_def backlog_inv_fields)
  have b2: "repl_backlog r2 \<noteq> None" using inv2 by (auto simp: backlog_inv_def)
  have "fed (W @ ?sel) ((42 # dec (length argv) @ [13, 10]) @ concat (map (\<lambda>a. enc_bulk (content a)) argv)) r2
      (feedReplicationBacklog (42 # dec (length argv) @ [13, 10]) r2 \<bind> feed_argv argv)"
    by (rule fed_bind [OF feedReplicationBacklog_fed [OF inv2] feed_argv_fed]) (use a in auto)
  then obtain r3 where r3: "feedReplicationBacklog (42 # dec (length argv) @ [13, 10]) r2 \<bind> feed_argv argv = Some r3"
    "backlog_inv ((W @ ?sel) @ enc_request (map content argv)) r3" "same_repl r2 r3"
    "master_repl_offset r3 = master_repl_offset r2 + int (length (enc_request (map content argv)))"
    using cmd_bytes(3) [OF a(1,2)] by (auto simp: fed_def)
  let ?f = "\<lambda>sl. if sl_state sl = REDIS_REPL_WAIT_BGSAVE_START then sl else sl_add (enc_request (map content argv)) sl"
  have res: "replicationFeedSlaves d argv r = Some (upd_slaves ?f r3)"
    unfolding replicationFeedSlaves_def using b r1(1) r3(1) b2 cmd_bytes [OF a(1,2)] reply_argv_enc [OF a(1)]
    by (auto simp: r2_def Let_def cong: if_cong)
  have sl: "slaves (upd_slaves ?f r3) = map (\<lambda>sl. sl_add (enc_reqs (sel_reqs (slaveseldb r) d @
        (if sl_state sl = REDIS_REPL_WAIT_BGSAVE_START then [] else [map content argv]))) sl) (slaves r)"
    using r3(3) r1(3) by (auto simp: upd_slaves_def same_repl_def r2_def sl_add_def)
  show thesis
    by (rule that [OF res _ _ _ _ _ _ _ sl])
      (use r1 r3 in \<open>auto simp: upd_slaves_def backlog_inv_fields same_repl_def r2_def\<close>)
qed

fun feed_all :: "cmd list \<Rightarrow> repl \<Rightarrow> repl option" where
  "feed_all [] r = Some r"
| "feed_all ((d, argv) # cmds) r = replicationFeedSlaves d argv r \<bind> feed_all cmds"

lemma feed_all_spec:
  "backlog_inv W r \<Longrightarrow> \<forall>cm\<in>set cmds. cmd_ok cm \<Longrightarrow>
   \<exists>r'. feed_all cmds r = Some r' \<and> backlog_inv (W @ enc_reqs (stream_reqs (slaveseldb r) cmds)) r' \<and>
     runid r' = runid r \<and> link_down r' = link_down r \<and> repl_backlog_size r' = repl_backlog_size r \<and>
     map sl_id (slaves r') = map sl_id (slaves r) \<and>
     master_repl_offset r' = master_repl_offset r + int (length (enc_reqs (stream_reqs (slaveseldb r) cmds)))"
proof (induction cmds arbitrary: W r)
  case (Cons cm cmds)
  obtain d argv where cm: "cm = (d, argv)" by force
  then have ok: "cmd_ok (d, argv)" using Cons.prems(2) by simp
  show ?case
  proof (rule replicationFeedSlaves_spec [OF Cons.prems(1) ok])
    fix r1
    assume r1: "replicationFeedSlaves d argv r = Some r1" "backlog_inv (W @ enc_reqs (stream_reqs (slaveseldb r) [(d, argv)])) r1"
      "slaveseldb r1 = d" "runid r1 = runid r" "link_down r1 = link_down r" "repl_backlog_size r1 = repl_backlog_size r"
      "master_repl_offset r1 - int (length (W @ enc_reqs (stream_reqs (slaveseldb r) [(d, argv)]))) = master_repl_offset r - int (length W)"
      "slaves r1 = map (\<lambda>sl. sl_add (enc_reqs (sel_reqs (slaveseldb r) d @
        (if sl_state sl = REDIS_REPL_WAIT_BGSAVE_START then [] else [map content argv]))) sl) (slaves r)"
    have ids: "map sl_id (slaves r1) = map sl_id (slaves r)" by (simp add: r1(8) sl_add_def comp_def)
    from Cons.IH [OF r1(2)] Cons.prems(2) obtain r' where
      "feed_all cmds r1 = Some r'" "backlog_inv ((W @ enc_reqs (stream_reqs (slaveseldb r) [(d, argv)])) @ enc_reqs (stream_reqs d cmds)) r'"
      "runid r' = runid r1" "link_down r' = link_down r1" "repl_backlog_size r' = repl_backlog_size r1" "map sl_id (slaves r') = map sl_id (slaves r1)"
      "master_repl_offset r' = master_repl_offset r1 + int (length (enc_reqs (stream_reqs d cmds)))"
      using r1(3) by auto
    then show ?case using r1 cm ids by (intro exI [of _ r']) (auto simp: comp_def)
  qed
qed simp

lemma stream_reqs_ok: "\<forall>cm\<in>set cmds. cmd_ok cm \<Longrightarrow> \<forall>rq\<in>set (stream_reqs cur cmds). request_ok rq"
proof (induction cur cmds rule: stream_reqs.induct)
  case (2 cur d argv cmds)
  have "length (decimal d) < 21" using 2(2) length_decimal_ll [of d] by (auto simp: cmd_ok_def)
  then have "request_ok (select_req d)" by (simp add: request_ok_def bulk_ok_def)
  then show ?case using 2 by (auto simp: sel_reqs_def request_ok_def cmd_ok_def arg_ok_def split: if_splits)
qed simp

lemma strcasecmp_eq_refl [simp]: "strcasecmp_eq s s"
  by (induction s) (auto simp: char_eq_def)

lemma psync_accepted:
  assumes inv: "backlog_inv W r" and s: "s \<le> length W" "length W \<le> s + repl_backlog_size r"
    and off: "offset = master_repl_offset r - int (length W) + 1 + int s" "int64_range offset"
    and c: "cid \<notin> set (map sl_id (slaves r))" "\<not> link_down r"
  shows "\<exists>r' c'. syncCommand g True f False cid [[80, 83, 89, 78, 67], runid r, decimal offset] r = Some (r', c') \<and>
    c' \<in> set (slaves r') \<and> sl_id c' = cid \<and> sl_state c' = REDIS_REPL_ONLINE \<and> sl_out c' = drop s W"
proof -
  have b: "repl_backlog r \<noteq> None" "repl_backlog_histlen r = min (repl_backlog_size r) (length W)"
    "repl_backlog_off r = master_repl_offset r - int (repl_backlog_histlen r) + 1" using inv by (auto simp: backlog_inv_def)
  have w: "\<not> offset < repl_backlog_off r" "\<not> offset > repl_backlog_off r + int (repl_backlog_histlen r)"
    using b(2,3) off(1) s by auto
  obtain buf where bf: "repl_backlog r = Some buf" using b(1) by blast
  have ps: "strcasecmp_eq ([[80, 83, 89, 78, 67], runid r, decimal offset] ! 0) [112, 115, 121, 110, 99]"
    by (simp add: char_eq_def c_tolower_def)
  define c' where "c' = sl_add (drop s W) ((new_slave cid)\<lparr>sl_state := REDIS_REPL_ONLINE, sl_ack_time := rp_unixtime r,
      sl_direct := ascii ''+CONTINUE'' @ [13, 10]\<rparr>)"
  have "masterTryPartialResynchronization True [[80, 83, 89, 78, 67], runid r, decimal offset] (new_slave cid) r
      = Some (refreshGoodSlavesCount (r\<lparr>slaves := slaves r @ [c']\<rparr>), c', True)"
    unfolding masterTryPartialResynchronization_def Let_def
    using w bf getLongLong_decimal [OF off(2)] addReplyReplicationBacklog_spec [OF inv s off(1)]
    by (simp add: c'_def new_slave_def)
  then have "syncCommand g True f False cid [[80, 83, 89, 78, 67], runid r, decimal offset] r
      = Some (refreshGoodSlavesCount (r\<lparr>slaves := slaves r @ [c']\<rparr>), c')"
    unfolding syncCommand_def Let_def using c ps by simp
  moreover have "slaves (refreshGoodSlavesCount r0) = slaves r0" for r0 by (simp add: refreshGoodSlavesCount_def)
  ultimately show ?thesis by (auto simp: c'_def sl_add_def new_slave_def)
qed

end
