(* ===== verification/Resync.thy ===== *)
theory Resync
  imports Replication
begin

text \<open>
  What the slaves of a master receive, over the definitions of replication.c in the theory
  Replication and the request parser of the theory Protocol: the stream goes on without a gap after
  a partial resynchronisation; the histories of a master, as an inductive relation, keep an invariant
  which gives the content of every output buffer after a full one; and two cases in which
  synchronisation goes wrong.
\<close>

section \<open>Partial resynchronisation\<close>

lemma backlog_created:
  assumes "repl_backlog r0 = None" "0 < repl_backlog_size r0"
  obtains r1 where "createReplicationBacklog g r0 = Some r1" "backlog_inv [] r1" "slaves r1 = slaves r0" "runid r1 = runid r0"
    "link_down r1 = link_down r0" "slaveseldb r1 = slaveseldb r0" "repl_backlog_size r1 = repl_backlog_size r0" "rdb_child r1 = rdb_child r0"
    "master_repl_offset r1 = master_repl_offset r0 + 1"
  using assms that by (auto simp: createReplicationBacklog_def backlog_inv_def backlog_holds_def)

text \<open>
  C12. Partial resynchronisation loses nothing and repeats nothing. A master with a fresh backlog
  propagates commands. A slave had received the first \<open>n\<close> bytes of the stream when its
  connection broke, at any byte. It asks with \<open>PSYNC\<close> for the next byte: as long as the backlog
  is large enough for what it missed, the master goes on, sends exactly the missing bytes, and
  the slave's parser, over both connections and whatever the sizes of its reads, runs exactly the
  commands of the stream. No access leaves the backlog.
\<close>

theorem partial_resync_exact:
  fixes S :: bytes
  assumes "repl_backlog r0 = None" "0 < repl_backlog_size r0" "\<forall>cm\<in>set cmds. cmd_ok cm" "\<not> link_down r0"
    and "cid \<notin> set (map sl_id (slaves r0))"
    and S: "S = enc_reqs (stream_reqs (slaveseldb r0) cmds)"
    and "n \<le> length S" "length S - n \<le> repl_backlog_size r0"
    and "int64_range (master_repl_offset r0 + 2 + int n)"
    and "quiet pc" "536870914 \<le> lim" "length S \<le> length ns"
  shows "\<exists>r r' c' k. (createReplicationBacklog g r0 \<bind> feed_all cmds) = Some r \<and>
    syncCommand g' True f False cid [[80, 83, 89, 78, 67], runid r, decimal (master_repl_offset r0 + 2 + int n)] r = Some (r', c') \<and>
    c' \<in> set (slaves r') \<and> sl_state c' = REDIS_REPL_ONLINE \<and> sl_out c' = drop n S \<and>
    serve pc t lim ns (take n S @ sl_out c') new_conn s = Some (k, exec_all pc (stream_reqs (slaveseldb r0) cmds) s, [])"
proof -
  obtain r1 where r1: "createReplicationBacklog g r0 = Some r1" "backlog_inv [] r1" "slaves r1 = slaves r0" "runid r1 = runid r0"
    "link_down r1 = link_down r0" "slaveseldb r1 = slaveseldb r0" "repl_backlog_size r1 = repl_backlog_size r0"
    "master_repl_offset r1 = master_repl_offset r0 + 1"
    using backlog_created [OF assms(1,2), of g] by metis
  obtain r where r: "feed_all cmds r1 = Some r" "backlog_inv S r" "link_down r = link_down r1" "repl_backlog_size r = repl_backlog_size r1"
    "map sl_id (slaves r) = map sl_id (slaves r1)" "master_repl_offset r = master_repl_offset r1 + int (length S)"
    using feed_all_spec [OF r1(2) assms(3)] by (auto simp: S r1(6))
  obtain r' c' where rc: "syncCommand g' True f False cid [[80, 83, 89, 78, 67], runid r, decimal (master_repl_offset r0 + 2 + int n)] r = Some (r', c')"
    "c' \<in> set (slaves r')" "sl_state c' = REDIS_REPL_ONLINE" "sl_out c' = drop n S"
  proof -
    have "length S \<le> n + repl_backlog_size r" "\<not> link_down r" "cid \<notin> set (map sl_id (slaves r))"
      "master_repl_offset r0 + 2 + int n = master_repl_offset r - int (length S) + 1 + int n"
      using assms(4,5,7,8) r r1 by auto
    then show thesis using psync_accepted [OF r(2) assms(7)] assms(9) that by metis
  qed
  obtain k where "serve pc t lim ns S new_conn s = Some (k, exec_all pc (stream_reqs (slaveseldb r0) cmds) s, [])"
  proof -
    have "awaits (stream_reqs (slaveseldb r0) cmds) S new_conn" "rested new_conn"
      using stream_reqs_ok [OF assms(3)] by (auto simp: awaits_def idle_conn_def new_conn_def rested_def S)
    moreover have "S = [] \<longrightarrow> stream_reqs (slaveseldb r0) cmds = []" by (auto simp: S)
    ultimately show thesis using serve_spec [OF assms(10,11)] assms(12) that by blast
  qed
  then show ?thesis using r1(1) r(1) rc by auto
qed

definition demo_master :: repl where
  "demo_master = \<lparr>repl_backlog = None, repl_backlog_size = 128, repl_backlog_histlen = 0, repl_backlog_idx = 0, repl_backlog_off = 0,
     master_repl_offset = 0, slaveseldb = - 1, slaves = [], rdb_child = False, runid = [97, 98], link_down = False, rp_unixtime = 0,
     min_slaves_to_write = 0, min_slaves_max_lag = 0, good_slaves_count = 0\<rparr>"

abbreviation demo_cmd :: cmd where
  "demo_cmd \<equiv> (0, [ENC_RAW [73, 78, 67, 82], ENC_RAW [120]])"

lemma demo_cmd_ok: "cmd_ok demo_cmd"
  by (simp add: cmd_ok_def arg_ok_def bulk_ok_def)

theorem partial_resync_exact_witness:
  "\<exists>r r' c' k. (createReplicationBacklog 0 demo_master \<bind> feed_all [demo_cmd]) = Some r \<and>
    syncCommand 0 True True False 7 [[80, 83, 89, 78, 67], runid r, decimal (master_repl_offset demo_master + 2 + int 5)] r = Some (r', c') \<and>
    c' \<in> set (slaves r') \<and> sl_state c' = REDIS_REPL_ONLINE \<and> sl_out c' = drop 5 (enc_reqs (stream_reqs (slaveseldb demo_master) [demo_cmd])) \<and>
    serve demo_handler 0 1073741824 (replicate 60 4) (take 5 (enc_reqs (stream_reqs (slaveseldb demo_master) [demo_cmd])) @ sl_out c') new_conn []
      = Some (k, exec_all demo_handler (stream_reqs (slaveseldb demo_master) [demo_cmd]) [], [])"
  by (rule partial_resync_exact [OF _ _ _ _ _ refl _ _ _ quiet_demo])
    (simp_all add: demo_cmd_ok demo_master_def sel_reqs_def enc_request_def enc_bulk_def decimal_def)

section \<open>Full resynchronisation\<close>

text \<open>What a slave does with a sequence of requests: \<open>SELECT\<close> changes its data base, every other
  command runs in the current one.\<close>

fun interp :: "int \<Rightarrow> bytes list list \<Rightarrow> int \<times> (int \<times> bytes list) list" where
  "interp d [] = (d, [])"
| "interp d (rq # rqs) =
    (if hd rq = [83, 69, 76, 69, 67, 84]
     then interp (case string2ll (rq ! 1) of Some v \<Rightarrow> v | None \<Rightarrow> d) rqs
     else (fst (interp d rqs), (d, rq) # snd (interp d rqs)))"

definition log_of :: "cmd list \<Rightarrow> (int \<times> bytes list) list" where
  "log_of cmds = map (\<lambda>(d, argv). (d, map content argv)) cmds"

lemma interp_append: "interp d (xs @ ys) = (fst (interp (fst (interp d xs)) ys), snd (interp d xs) @ snd (interp (fst (interp d xs)) ys))"
  by (induction d xs rule: interp.induct) auto

lemma interp_sel: "int64_range d \<Longrightarrow> cur = seldb \<or> seldb = - 1 \<Longrightarrow> d \<noteq> - 1 \<Longrightarrow> interp cur (sel_reqs seldb d) = (d, [])"
  using string2ll_spec [of "decimal d" d] by (auto simp: sel_reqs_def)

lemma interp_cmd: "cmd_ok (d, argv) \<Longrightarrow> interp d [map content argv] = (d, [(d, map content argv)])"
  by (cases argv) (auto simp: cmd_ok_def)

text \<open>
  The history of a master: the log of all propagated commands, the number of commands that had
  been propagated when the current background save was started, for a slave whose data came
  from a file, that number for the file, and the slaves that are spoilt. These are the ones that
  waited for a save which could not be started, which leaves them waiting for its end; the ones
  that called \<open>PSYNC\<close> with an offset that is no integer, whose output starts with an error message; and
  the ones that join a save for which a spoilt slave waits, whose output they may be given a copy of.
\<close>

definition sync_args_ok :: "bytes list \<Rightarrow> bool" where
  "sync_args_ok argv \<longleftrightarrow> strcasecmp_eq (argv ! 0) [112, 115, 121, 110, 99] \<longrightarrow> getLongLongFromObject (Some (ENC_RAW (argv ! 2))) \<noteq> None"

definition spoilt :: "bytes list \<Rightarrow> nat set \<Rightarrow> repl \<Rightarrow> bool" where
  "spoilt argv bad r \<longleftrightarrow> \<not> sync_args_ok argv \<or>
     (rdb_child r \<and> (\<exists>sl\<in>set (slaves r). sl_state sl = REDIS_REPL_WAIT_BGSAVE_END \<and> sl_id sl \<in> bad))"

inductive reach :: "repl \<Rightarrow> cmd list \<Rightarrow> nat \<Rightarrow> (nat \<Rightarrow> nat option) \<Rightarrow> nat set \<Rightarrow> bool" where
  reach_start: "repl_backlog r = None \<Longrightarrow> 0 < repl_backlog_size r \<Longrightarrow> slaves r = [] \<Longrightarrow> \<not> rdb_child r \<Longrightarrow> reach r [] 0 (\<lambda>_. None) {}"
| reach_write: "reach r log p sn bad \<Longrightarrow> cmd_ok (d, argv) \<Longrightarrow> replicationFeedSlaves d argv r = Some r' \<Longrightarrow>
    reach r' (log @ [(d, argv)]) p sn bad"
| reach_sync: "reach r log p sn bad \<Longrightarrow> syncCommand g w f out cid argv r = Some (r', c) \<Longrightarrow>
    reach r' log (if \<not> rdb_child r \<and> rdb_child r' then length log else p) (if cid \<in> set (map sl_id (slaves r)) then sn else sn(cid := None))
      (if cid \<in> set (map sl_id (slaves r)) then bad else if spoilt argv bad r then insert cid bad else bad - {cid})"
| reach_bgsave: "reach r log p sn bad \<Longrightarrow> \<not> rdb_child r \<Longrightarrow> reach (r\<lparr>rdb_child := True\<rparr>) log (length log) sn bad"
| reach_saved: "reach r log p sn bad \<Longrightarrow> rdb_child r \<Longrightarrow> r' = backgroundSaveDoneHandler ok opened fork_ok r \<Longrightarrow>
    reach r' log (if rdb_child r' then length log else p)
      (\<lambda>i. if \<exists>sl\<in>set (slaves r). sl_id sl = i \<and> sl_state sl = REDIS_REPL_WAIT_BGSAVE_END then Some p else sn i)
      (if fork_ok then bad else bad \<union> sl_id ` {sl \<in> set (slaves r). sl_state sl = REDIS_REPL_WAIT_BGSAVE_START})"
| reach_sent: "reach r log p sn bad \<Longrightarrow> reach (sendBulkToSlave_done cid r) log p sn bad"
| reach_closed: "reach r log p sn bad \<Longrightarrow> reach (free_slave cid r) log p sn bad"
| reach_resized: "reach r log p sn bad \<Longrightarrow> reach (resizeReplicationBacklog g n r) log p sn bad"
| reach_freed: "reach r log p sn bad \<Longrightarrow> freeReplicationBacklog r = Some r' \<Longrightarrow> reach r' log p sn bad"

text \<open>The output of a slave decodes to the commands \<open>L\<close> and leaves it on the data base of the stream.\<close>

definition out_ok :: "int \<Rightarrow> bytes \<Rightarrow> (int \<times> bytes list) list \<Rightarrow> bool" where
  "out_ok sd out L \<longleftrightarrow> (\<exists>rqs. out = enc_reqs rqs \<and> (\<forall>rq\<in>set rqs. request_ok rq) \<and>
     (sd = - 1 \<or> fst (interp 0 rqs) = sd) \<and> snd (interp 0 rqs) = L)"

definition slave_ok :: "repl \<Rightarrow> cmd list \<Rightarrow> nat \<Rightarrow> (nat \<Rightarrow> nat option) \<Rightarrow> nat set \<Rightarrow> slave \<Rightarrow> bool" where
  "slave_ok r log p sn bad sl \<longleftrightarrow> sl_id sl \<in> bad \<or> (case sl_state sl of
      REDIS_REPL_WAIT_BGSAVE_START \<Rightarrow> rdb_child r \<and> out_ok (slaveseldb r) (sl_out sl) []
    | REDIS_REPL_WAIT_BGSAVE_END \<Rightarrow> rdb_child r \<and> out_ok (slaveseldb r) (sl_out sl) (log_of (drop p log))
    | _ \<Rightarrow> (\<forall>q. sn (sl_id sl) = Some q \<longrightarrow> q \<le> length log \<and> out_ok (slaveseldb r) (sl_out sl) (log_of (drop q log))))"

definition master_ok :: "repl \<Rightarrow> cmd list \<Rightarrow> nat \<Rightarrow> (nat \<Rightarrow> nat option) \<Rightarrow> nat set \<Rightarrow> bool" where
  "master_ok r log p sn bad \<longleftrightarrow> distinct (map sl_id (slaves r)) \<and> 0 < repl_backlog_size r \<and> p \<le> length log \<and>
     (slaves r \<noteq> [] \<longrightarrow> repl_backlog r \<noteq> None) \<and> (repl_backlog r \<noteq> None \<longrightarrow> (\<exists>W. backlog_inv W r)) \<and>
     (\<forall>sl\<in>set (slaves r). slave_ok r log p sn bad sl)"

lemma out_ok_nil: "out_ok (- 1) [] []"
  by (auto simp: out_ok_def intro: exI [of _ "[]"])

lemma out_ok_reset: "out_ok sd out L \<Longrightarrow> out_ok (- 1) out L"
  by (auto simp: out_ok_def)

lemma out_ok_select:
  assumes "out_ok sd out L" "cmd_ok (d, argv)"
  shows "out_ok d (out @ enc_reqs (sel_reqs sd d)) L"
proof -
  obtain rqs where r: "out = enc_reqs rqs" "\<forall>rq\<in>set rqs. request_ok rq" "sd = - 1 \<or> fst (interp 0 rqs) = sd" "snd (interp 0 rqs) = L"
    using assms(1) by (auto simp: out_ok_def)
  have d: "int64_range d" "d \<noteq> - 1" using assms(2) by (auto simp: cmd_ok_def)
  have "\<forall>rq\<in>set (sel_reqs sd d). request_ok rq" using stream_reqs_ok [of "[(d, argv)]" sd] assms(2) by auto
  moreover have "interp (fst (interp 0 rqs)) (sel_reqs sd d) = (d, [])" using interp_sel [OF d(1) _ d(2)] r(3) by auto
  ultimately show ?thesis using r by (auto simp: out_ok_def interp_append intro!: exI [of _ "rqs @ sel_reqs sd d"])
qed

lemma out_ok_cmd:
  assumes "out_ok sd out L" "cmd_ok (d, argv)"
  shows "out_ok d (out @ enc_reqs (sel_reqs sd d @ [map content argv])) (L @ log_of [(d, argv)])"
proof -
  obtain rqs where r: "out @ enc_reqs (sel_reqs sd d) = enc_reqs rqs" "\<forall>rq\<in>set rqs. request_ok rq" "fst (interp 0 rqs) = d" "snd (interp 0 rqs) = L"
    using out_ok_select [OF assms] assms(2) by (auto simp: out_ok_def cmd_ok_def)
  have "request_ok (map content argv)" using stream_reqs_ok [of "[(d, argv)]" sd] assms(2) by auto
  moreover have "snd (interp 0 (rqs @ [map content argv])) = L @ log_of [(d, argv)]" "fst (interp 0 (rqs @ [map content argv])) = d"
    using r interp_cmd [OF assms(2)] by (simp_all add: interp_append log_of_def)
  moreover have "out @ enc_reqs (sel_reqs sd d @ [map content argv]) = enc_reqs (rqs @ [map content argv])" using r(1) by simp
  ultimately show ?thesis using r(2) unfolding out_ok_def by (intro exI [of _ "rqs @ [map content argv]"]) auto
qed

lemma refresh_fields [simp]:
  "slaves (refreshGoodSlavesCount r) = slaves r" "repl_backlog (refreshGoodSlavesCount r) = repl_backlog r"
  "repl_backlog_size (refreshGoodSlavesCount r) = repl_backlog_size r" "rdb_child (refreshGoodSlavesCount r) = rdb_child r"
  "slaveseldb (refreshGoodSlavesCount r) = slaveseldb r" "backlog_inv W (refreshGoodSlavesCount r) = backlog_inv W r"
  by (simp_all add: refreshGoodSlavesCount_def backlog_inv_fields)

lemma master_ok_refresh [simp]: "master_ok (refreshGoodSlavesCount r) log p sn bad = master_ok r log p sn bad"
  by (simp add: master_ok_def slave_ok_def cong: replstate.case_cong)

lemma master_ok_write:
  assumes ok: "master_ok r log p sn bad" and cm: "cmd_ok (d, argv)" and fed: "replicationFeedSlaves d argv r = Some r'"
  shows "master_ok r' (log @ [(d, argv)]) p sn bad"
proof (cases "repl_backlog r = None")
  case True
  then have "slaves r = []" using ok by (auto simp: master_ok_def)
  then have "r' = r" using fed True by (simp add: replicationFeedSlaves_def)
  then show ?thesis using ok \<open>slaves r = []\<close> by (auto simp: master_ok_def)
next
  case False
  then obtain W where inv: "backlog_inv W r" using ok by (auto simp: master_ok_def)
  let ?out = "\<lambda>sl. sl_out sl @ enc_reqs (sel_reqs (slaveseldb r) d @
        (if sl_state sl = REDIS_REPL_WAIT_BGSAVE_START then [] else [map content argv]))"
  obtain r1 W' where r1: "replicationFeedSlaves d argv r = Some r1" "backlog_inv W' r1" "slaveseldb r1 = d" "rdb_child r1 = rdb_child r"
      "repl_backlog_size r1 = repl_backlog_size r" "slaves r1 = map (\<lambda>sl. sl\<lparr>sl_out := ?out sl\<rparr>) (slaves r)"
    by (rule replicationFeedSlaves_spec [OF inv cm]) (rule that, assumption+, simp add: sl_add_def)
  have "slave_ok r1 (log @ [(d, argv)]) p sn bad (sl\<lparr>sl_out := ?out sl\<rparr>)" if sl: "sl \<in> set (slaves r)" for sl
  proof -
    have "slave_ok r log p sn bad sl" "p \<le> length log" using ok sl by (auto simp: master_ok_def)
    then show ?thesis
      using out_ok_select [OF _ cm, of "slaveseldb r" "sl_out sl"] out_ok_cmd [OF _ cm, of "slaveseldb r" "sl_out sl"] r1(3,4)
      by (cases "sl_state sl") (auto simp: slave_ok_def log_of_def)
  qed
  moreover have "r' = r1" "repl_backlog r1 \<noteq> None" using fed r1(1,2) by (auto simp: backlog_inv_def)
  ultimately show ?thesis using ok r1 by (auto simp: master_ok_def comp_def)
qed

lemma slave_ok_reset: "slave_ok r log p sn bad sl \<Longrightarrow> slave_ok (r\<lparr>slaveseldb := - 1, slaves := xs\<rparr>) log p sn bad sl"
  by (cases "sl_state sl") (auto simp: slave_ok_def intro: out_ok_reset)

lemma slave_ok_fields:
  "slave_ok (r\<lparr>slaves := xs\<rparr>) log p sn bad sl = slave_ok r log p sn bad sl"
  "slaveseldb r' = slaveseldb r \<Longrightarrow> rdb_child r' = rdb_child r \<Longrightarrow> slave_ok r' log p sn bad sl = slave_ok r log p sn bad sl"
  by (auto simp: slave_ok_def split: replstate.splits)

text \<open>What is recorded of a client that is not a slave does not matter.\<close>

lemma slave_ok_forget:
  "sl_id sl \<noteq> cid \<Longrightarrow> bad' - {cid} = bad - {cid} \<Longrightarrow> slave_ok r log p (sn(cid := None)) bad' sl = slave_ok r log p sn bad sl"
  by (auto simp: slave_ok_def split: replstate.splits)

lemma master_ok_forget:
  assumes "master_ok r log p sn bad" "cid \<notin> set (map sl_id (slaves r))" "bad' - {cid} = bad - {cid}"
  shows "master_ok r log p (sn(cid := None)) bad'"
proof -
  have "slave_ok r log p (sn(cid := None)) bad' sl = slave_ok r log p sn bad sl" if "sl \<in> set (slaves r)" for sl
    by (rule slave_ok_forget) (use assms(2,3) that in auto)
  then show ?thesis using assms(1) by (simp add: master_ok_def)
qed

lemma master_ok_attach:
  assumes ok: "master_ok r log p sn bad" and c: "sl_id c \<notin> set (map sl_id (slaves r))" "slave_ok (r\<lparr>slaveseldb := - 1\<rparr>) log p sn bad c"
    and att: "attach_slave g c r = Some r'"
  shows "master_ok r' log p sn bad"
proof -
  let ?r = "r\<lparr>slaveseldb := - 1, slaves := slaves r @ [c]\<rparr>"
  have other: "slave_ok ?r log p sn bad sl" if "sl \<in> set (slaves r)" for sl
    using slave_ok_reset [of r log p sn bad sl] ok that by (auto simp: master_ok_def)
  have new: "slave_ok ?r log p sn bad c" using c(2) by (simp add: slave_ok_fields)
  show ?thesis
  proof (cases "repl_backlog r = None")
    case True
    then have e: "slaves r = []" using ok by (auto simp: master_ok_def)
    obtain r1 where "createReplicationBacklog g ?r = Some r1" "backlog_inv [] r1" "slaves r1 = slaves ?r" "slaveseldb r1 = slaveseldb ?r"
      "repl_backlog_size r1 = repl_backlog_size ?r" "rdb_child r1 = rdb_child ?r"
      using backlog_created [of ?r g] True ok by (auto simp: master_ok_def)
    then show ?thesis
      using att e True ok new slave_ok_fields(2) [of r1 ?r] by (auto simp: attach_slave_def master_ok_def backlog_inv_def)
  next
    case False
    then obtain W where W: "backlog_inv W r" using ok by (auto simp: master_ok_def)
    have r': "r' = ?r" using att False by (simp add: attach_slave_def Let_def)
    have "\<exists>W. backlog_inv W r'" using W by (auto simp: r' backlog_inv_fields)
    then show ?thesis using ok c(1) new other False by (auto simp: r' master_ok_def)
  qed
qed

text \<open>A save starts: the slaves that wait for the end of one and are not spoilt were already waiting for it.\<close>

lemma master_ok_fork: "master_ok r log p sn bad \<Longrightarrow> \<not> rdb_child r \<Longrightarrow> master_ok (r\<lparr>rdb_child := True\<rparr>) log (length log) sn bad"
  by (auto simp: master_ok_def slave_ok_def backlog_inv_fields split: replstate.splits)

lemma masterTry_cases:
  assumes "masterTryPartialResynchronization w argv (new_slave cid) r = Some (r1, c, stop)"
  shows "(r1 = r \<and> sl_id c = cid \<and> (getLongLongFromObject (Some (ENC_RAW (argv ! 2))) \<noteq> None \<longrightarrow> sl_out c = [])) \<or>
    (stop \<and> r1 \<in> {r\<lparr>slaves := slaves r @ [c]\<rparr>, refreshGoodSlavesCount (r\<lparr>slaves := slaves r @ [c]\<rparr>)} \<and> sl_id c = cid \<and> sl_state c = REDIS_REPL_ONLINE \<and> repl_backlog r \<noteq> None)"
  using assms by (auto simp: masterTryPartialResynchronization_def new_slave_def sl_add_def Let_def
      split: if_splits option.splits bind_splits)

lemma master_ok_online:
  assumes ok: "master_ok r log p sn bad" and c: "sl_id c \<notin> set (map sl_id (slaves r))" "sl_state c = REDIS_REPL_ONLINE" "repl_backlog r \<noteq> None" "sn (sl_id c) = None"
  shows "master_ok (r\<lparr>slaves := slaves r @ [c]\<rparr>) log p sn bad"
proof -
  obtain W where W: "backlog_inv W r" using ok c(3) by (auto simp: master_ok_def)
  have "\<exists>W. backlog_inv W (r\<lparr>slaves := slaves r @ [c]\<rparr>)" using W by (auto simp: backlog_inv_fields)
  moreover have "slave_ok r log p sn bad c" using c(2,4) by (simp add: slave_ok_def)
  ultimately show ?thesis using ok c unfolding master_ok_def by (simp add: slave_ok_fields(1))
qed

lemma attach_rdb_child: "attach_slave g c r = Some r' \<Longrightarrow> rdb_child r' = rdb_child r"
  by (auto simp: attach_slave_def createReplicationBacklog_def Let_def split: if_splits)

text \<open>The outcomes of \<open>SYNC\<close> or \<open>PSYNC\<close> for a client that is not a slave yet.\<close>

lemma syncCommand_cases:
  assumes sync: "syncCommand g w f out cid argv r = Some (r', c)" and cid: "cid \<notin> set (map sl_id (slaves r))"
  obtains (refused) "r' = r"
    | (online) c1 where "r' \<in> {r\<lparr>slaves := slaves r @ [c1]\<rparr>, refreshGoodSlavesCount (r\<lparr>slaves := slaves r @ [c1]\<rparr>)}" "sl_id c1 = cid"
        "sl_state c1 = REDIS_REPL_ONLINE" "repl_backlog r \<noteq> None"
    | (wait) c2 where "rdb_child r" "attach_slave g c2 r = Some r'" "sl_id c2 = cid" "sl_state c2 = REDIS_REPL_WAIT_BGSAVE_START" "sync_args_ok argv \<longrightarrow> sl_out c2 = []"
    | (join) c2 sl where "rdb_child r" "attach_slave g c2 r = Some r'" "sl_id c2 = cid" "sl_state c2 = REDIS_REPL_WAIT_BGSAVE_END"
        "sl \<in> set (slaves r)" "sl_state sl = REDIS_REPL_WAIT_BGSAVE_END" "sl_out c2 = sl_out sl"
    | (fork) c2 where "\<not> rdb_child r" "attach_slave g c2 (r\<lparr>rdb_child := True\<rparr>) = Some r'" "sl_id c2 = cid" "sl_state c2 = REDIS_REPL_WAIT_BGSAVE_END"
        "sync_args_ok argv \<longrightarrow> sl_out c2 = []"
proof (cases "link_down r \<or> out")
  case True
  then show thesis using sync cid refused by (auto simp: syncCommand_def Let_def split: if_splits)
next
  case False
  obtain r1 c1 stop where tr: "(if strcasecmp_eq (argv ! 0) [112, 115, 121, 110, 99]
      then masterTryPartialResynchronization w argv (new_slave cid) r else Some (r, new_slave cid, False)) = Some (r1, c1, stop)"
    using sync False cid by (auto simp: syncCommand_def Let_def split: bind_splits)
  note sync' = sync [unfolded syncCommand_def Let_def tr]
  consider "stop" "r1 \<in> {r\<lparr>slaves := slaves r @ [c1]\<rparr>, refreshGoodSlavesCount (r\<lparr>slaves := slaves r @ [c1]\<rparr>)}" "sl_id c1 = cid" "sl_state c1 = REDIS_REPL_ONLINE" "repl_backlog r \<noteq> None"
    | (full) "r1 = r" "sl_id c1 = cid" "sync_args_ok argv \<longrightarrow> sl_out c1 = []"
    using tr masterTry_cases [of w argv cid r r1 c1 stop] by (auto simp: sync_args_ok_def new_slave_def split: if_splits)
  then show thesis
  proof cases
    case 1
    then have "r' = r1" using sync' False cid by (auto split: if_splits)
    then show thesis using online 1 by blast
  next
    case full
    show thesis using sync' False cid full refused wait join fork
      by (auto simp: copyClientOutputBuffer_def split: if_splits option.splits bind_splits dest!: find_in)
  qed
qed

lemma master_ok_sync:
  assumes ok: "master_ok r log p sn bad" and sync: "syncCommand g w f out cid argv r = Some (r', c)"
  shows "master_ok r' log (if \<not> rdb_child r \<and> rdb_child r' then length log else p) (if cid \<in> set (map sl_id (slaves r)) then sn else sn(cid := None))
    (if cid \<in> set (map sl_id (slaves r)) then bad else if spoilt argv bad r then insert cid bad else bad - {cid})"
proof (cases "cid \<in> set (map sl_id (slaves r))")
  case True
  then have "r' = r" using sync by (simp add: syncCommand_def Let_def)
  then show ?thesis using ok True by simp
next
  case False
  let ?bad = "if spoilt argv bad r then insert cid bad else bad - {cid}" and ?sn = "sn(cid := None)"
  have f: "master_ok r log p ?sn ?bad" by (rule master_ok_forget [OF ok False]) auto
  from sync False have "master_ok r' log (if \<not> rdb_child r \<and> rdb_child r' then length log else p) ?sn ?bad"
  proof (cases rule: syncCommand_cases)
    case refused
    then show ?thesis using f by simp
  next
    case (online c1)
    have "master_ok (r\<lparr>slaves := slaves r @ [c1]\<rparr>) log p ?sn ?bad" by (rule master_ok_online [OF f]) (use online False in auto)
    then have "master_ok r' log p ?sn ?bad" "rdb_child r' = rdb_child r" using online(1) by auto
    then show ?thesis by simp
  next
    case (wait c2)
    have "slave_ok (r\<lparr>slaveseldb := - 1\<rparr>) log p ?sn ?bad c2" using wait by (simp add: slave_ok_def spoilt_def out_ok_nil)
    then have "master_ok r' log p ?sn ?bad" using master_ok_attach [OF f _ _ wait(2)] wait(3) False by simp
    then show ?thesis using wait(1) by simp
  next
    case (join c2 sl)
    have "slave_ok r log p sn bad sl" using ok join by (auto simp: master_ok_def)
    then have "slave_ok (r\<lparr>slaveseldb := - 1\<rparr>) log p ?sn ?bad c2" using join by (auto simp: slave_ok_def spoilt_def out_ok_reset)
    then have "master_ok r' log p ?sn ?bad" using master_ok_attach [OF f _ _ join(2)] join(3) False by simp
    then show ?thesis using join(1) by simp
  next
    case (fork c2)
    have "slave_ok (r\<lparr>rdb_child := True, slaveseldb := - 1\<rparr>) log (length log) ?sn ?bad c2"
      using fork by (simp add: slave_ok_def spoilt_def out_ok_nil log_of_def)
    then have "master_ok r' log (length log) ?sn ?bad" using master_ok_attach [OF master_ok_fork [OF f fork(1)] _ _ fork(2)] fork(3) False by simp
    then show ?thesis using fork(1) attach_rdb_child [OF fork(2)] by simp
  qed
  then show ?thesis using False by simp
qed

lemma map_filter_ids: "set (map sl_id (List.map_filter (bgsave_slave ok opened) xs)) \<subseteq> set (map sl_id xs)"
  "distinct (map sl_id xs) \<Longrightarrow> distinct (map sl_id (List.map_filter (bgsave_slave ok opened) xs))"
proof -
  have id: "bgsave_slave ok opened x = Some y \<Longrightarrow> sl_id y = sl_id x" for x y
    by (auto split: replstate.splits if_splits)
  show sub: "set (map sl_id (List.map_filter (bgsave_slave ok opened) xs)) \<subseteq> set (map sl_id xs)" for xs
    using id by (induction xs) (auto simp: List.map_filter_simps simp del: bgsave_slave.simps split: option.splits)
  show "distinct (map sl_id xs) \<Longrightarrow> distinct (map sl_id (List.map_filter (bgsave_slave ok opened) xs))"
  proof (induction xs)
    case (Cons x xs)
    show ?case
    proof (cases "bgsave_slave ok opened x")
      case (Some y)
      then show ?thesis using Cons id [OF Some] sub [of xs] by (auto simp: List.map_filter_simps simp del: bgsave_slave.simps)
    qed (use Cons in \<open>simp add: List.map_filter_simps del: bgsave_slave.simps\<close>)
  qed simp
qed

lemma set_map_filter: "set (List.map_filter f xs) = {y. \<exists>x\<in>set xs. f x = Some y}"
  by (induction xs) (auto simp: List.map_filter_simps split: option.splits)

lemma master_ok_saved:
  assumes ok: "master_ok r log p sn bad" and child: "rdb_child r" and r': "r' = backgroundSaveDoneHandler k opened fork_ok r"
  shows "master_ok r' log (if rdb_child r' then length log else p)
      (\<lambda>i. if \<exists>sl\<in>set (slaves r). sl_id sl = i \<and> sl_state sl = REDIS_REPL_WAIT_BGSAVE_END then Some p else sn i)
      (if fork_ok then bad else bad \<union> sl_id ` {sl \<in> set (slaves r). sl_state sl = REDIS_REPL_WAIT_BGSAVE_START})"
    (is "master_ok r' log ?p ?sn ?bad")
proof -
  let ?start = "\<exists>sl\<in>set (slaves r). sl_state sl = REDIS_REPL_WAIT_BGSAVE_START"
  let ?sl = "List.map_filter (bgsave_slave k opened) (slaves r)"
  have "sl_state y \<noteq> REDIS_REPL_WAIT_BGSAVE_START" if "bgsave_slave k opened x = Some y" for x y
    using that by (auto split: replstate.splits if_splits)
  then have moved: "filter (\<lambda>sl. sl_state sl \<noteq> REDIS_REPL_WAIT_BGSAVE_START) ?sl = ?sl"
    by (auto simp: filter_id_conv set_map_filter simp del: bgsave_slave.simps)
  have f: "slaves r' = ?sl" "rdb_child r' = (?start \<and> fork_ok)" "slaveseldb r' = slaveseldb r" "repl_backlog r' = repl_backlog r"
    "repl_backlog_size r' = repl_backlog_size r" "backlog_inv W r' = backlog_inv W r" for W
    using moved by (simp_all add: r' backgroundSaveDoneHandler_def updateSlavesWaitingBgsave_def Let_def backlog_inv_fields)
  have other: "\<not> (\<exists>x\<in>set (slaves r). sl_id x = sl_id sl \<and> sl_state x = REDIS_REPL_WAIT_BGSAVE_END)"
    if "sl \<in> set (slaves r)" "sl_state sl \<noteq> REDIS_REPL_WAIT_BGSAVE_END" for sl
    using ok that by (auto simp: master_ok_def distinct_map dest: inj_onD)
  have "slave_ok r' log ?p ?sn ?bad y" if "sl \<in> set (slaves r)" "bgsave_slave k opened sl = Some y" for sl y
  proof (cases "sl_id sl \<in> ?bad")
    case True
    moreover have "sl_id y = sl_id sl" using that(2) by (auto split: replstate.splits if_splits)
    ultimately show ?thesis by (simp add: slave_ok_def)
  next
    case False
    then have o: "slave_ok r log p sn bad sl" "p \<le> length log" "sl_id sl \<notin> bad" using ok that by (auto simp: master_ok_def split: if_splits)
    show ?thesis
    proof (cases "sl_state sl")
      case REDIS_REPL_WAIT_BGSAVE_START
      then have "fork_ok" "rdb_child r'" using False that(1) f(2) by (auto split: if_splits)
      then show ?thesis using o that REDIS_REPL_WAIT_BGSAVE_START f by (auto simp: slave_ok_def log_of_def)
    next
      case REDIS_REPL_WAIT_BGSAVE_END
      then show ?thesis using o that f by (auto simp: slave_ok_def split: if_splits)
    next
      case REDIS_REPL_SEND_BULK
      then show ?thesis using o that other [OF that(1)] f by (auto simp: slave_ok_def)
    next
      case REDIS_REPL_ONLINE
      then show ?thesis using o that other [OF that(1)] f by (auto simp: slave_ok_def)
    qed
  qed
  then have "\<forall>y\<in>set (slaves r'). slave_ok r' log ?p ?sn ?bad y" by (auto simp: f(1) set_map_filter simp del: bgsave_slave.simps)
  moreover have "slaves r' \<noteq> [] \<longrightarrow> slaves r \<noteq> []" by (auto simp: f(1) List.map_filter_simps)
  ultimately show ?thesis using ok map_filter_ids(2) [of "slaves r" k opened] unfolding master_ok_def f(1,4,5,6) by auto
qed

lemma master_ok_sent: "master_ok r log p sn bad \<Longrightarrow> master_ok (sendBulkToSlave_done cid r) log p sn bad"
proof -
  assume ok: "master_ok r log p sn bad"
  let ?f = "\<lambda>sl. if sl_id sl = cid \<and> sl_state sl = REDIS_REPL_SEND_BULK
     then sl\<lparr>sl_state := REDIS_REPL_ONLINE, sl_ack_time := rp_unixtime r\<rparr> else sl"
  have f: "sl_id (?f sl) = sl_id sl" "slave_ok r log p sn bad sl \<Longrightarrow> slave_ok r log p sn bad (?f sl)" for sl
    by (auto simp: slave_ok_def)
  have "\<forall>sl\<in>set (map ?f (slaves r)). slave_ok r log p sn bad sl" using ok f(2) unfolding master_ok_def set_map by blast
  moreover have "map (sl_id \<circ> ?f) (slaves r) = map sl_id (slaves r)" using f(1) by (simp add: comp_def)
  ultimately have "master_ok (upd_slaves ?f r) log p sn bad"
    using ok unfolding upd_slaves_def master_ok_def backlog_inv_fields by (simp add: slave_ok_fields(1) del: list.set_map map_eq_conv)
  then show ?thesis by (simp add: sendBulkToSlave_done_def)
qed

lemma master_ok_closed:
  assumes ok: "master_ok r log p sn bad"
  shows "master_ok (free_slave cid r) log p sn bad"
proof -
  let ?r = "r\<lparr>slaves := filter (\<lambda>sl. sl_id sl \<noteq> cid) (slaves r)\<rparr>"
  have "distinct (map sl_id (slaves ?r))" using ok by (simp add: master_ok_def distinct_map_filter)
  moreover have "slaves ?r \<noteq> [] \<longrightarrow> slaves r \<noteq> []" by auto
  moreover have "\<forall>sl\<in>set (slaves ?r). slave_ok ?r log p sn bad sl" using ok by (simp add: master_ok_def slave_ok_fields(1))
  ultimately have "master_ok ?r log p sn bad" using ok unfolding master_ok_def backlog_inv_fields by simp
  then show ?thesis by (simp add: free_slave_def)
qed

lemma master_ok_resized:
  assumes ok: "master_ok r log p sn bad"
  shows "master_ok (resizeReplicationBacklog g n r) log p sn bad"
proof -
  let ?r = "resizeReplicationBacklog g n r"
  have f: "slaves ?r = slaves r" "slaveseldb ?r = slaveseldb r" "rdb_child ?r = rdb_child r" "(repl_backlog ?r = None) = (repl_backlog r = None)"
    by (auto simp: resizeReplicationBacklog_def Let_def)
  have "repl_backlog r \<noteq> None \<Longrightarrow> \<exists>W. backlog_inv W ?r"
  proof -
    assume b: "repl_backlog r \<noteq> None"
    then have "?r = r \<or> backlog_inv [] ?r" by (auto simp: resizeReplicationBacklog_def Let_def backlog_inv_def backlog_holds_def)
    then show ?thesis using ok b by (metis master_ok_def)
  qed
  moreover have "0 < repl_backlog_size ?r" using ok by (auto simp: resizeReplicationBacklog_def Let_def master_ok_def)
  ultimately show ?thesis using ok slave_ok_fields(2) [OF f(2,3)] unfolding master_ok_def f by simp
qed

lemma master_ok_freed: "master_ok r log p sn bad \<Longrightarrow> freeReplicationBacklog r = Some r' \<Longrightarrow> master_ok r' log p sn bad"
  by (auto simp: freeReplicationBacklog_def master_ok_def split: if_splits)

lemma reach_master_ok: "reach r log p sn bad \<Longrightarrow> master_ok r log p sn bad"
proof (induction rule: reach.induct)
  case (reach_start r)
  then show ?case by (simp add: master_ok_def)
next
  case (reach_sync r log p sn bad g w f out cid argv r' c)
  then show ?case by (intro master_ok_sync)
next
  case (reach_saved r log p sn bad r' ok opened fork_ok)
  then show ?case by (intro master_ok_saved)
qed (simp_all add: master_ok_write master_ok_fork master_ok_sent master_ok_closed master_ok_resized master_ok_freed)

text \<open>
  C13. Full resynchronisation loses nothing and repeats nothing. Clients become slaves at any time,
  start a background save or join a running one, wait for the next one or continue from the backlog;
  saves are started by others, end and fail, also to start, files are sent, slaves are closed, the
  backlog is resized and freed, and commands on any data base are propagated in between. For a slave
  that was sent a file and is not spoilt, the bytes of its output buffer are, for its parser and any
  sizes of its reads, the commands that were propagated after the moment of the snapshot, in their
  order, each in its data base. Spoilt are the slaves that waited for a save that could not be started,
  that called \<open>PSYNC\<close> with an offset which is no integer, or that joined a save beside such a slave.
\<close>

theorem full_resync:
  assumes "reach r log p sn bad" "sl \<in> set (slaves r)" "sl_state sl \<in> {REDIS_REPL_SEND_BULK, REDIS_REPL_ONLINE}" "sn (sl_id sl) = Some q" "sl_id sl \<notin> bad"
    and "quiet pc" "536870914 \<le> lim" "length (sl_out sl) \<le> length ns"
  shows "\<exists>rqs k. serve pc t lim ns (sl_out sl) new_conn s = Some (k, exec_all pc rqs s, []) \<and> snd (interp 0 rqs) = log_of (drop q log)"
proof -
  have "slave_ok r log p sn bad sl" using reach_master_ok [OF assms(1)] assms(2) by (simp add: master_ok_def)
  then obtain rqs where rq: "sl_out sl = enc_reqs rqs" "\<forall>rq\<in>set rqs. request_ok rq" "snd (interp 0 rqs) = log_of (drop q log)"
    using assms(3-5) by (auto simp: slave_ok_def out_ok_def)
  have "awaits rqs (sl_out sl) new_conn" "rested new_conn" using rq by (auto simp: awaits_def idle_conn_def new_conn_def rested_def)
  moreover have "sl_out sl = [] \<longrightarrow> rqs = []" using rq(1) by (cases rqs) (auto simp: enc_request_def)
  ultimately show ?thesis using serve_spec [OF assms(6,7)] assms(8) rq(3) by blast
qed

text \<open>A slave that waits for its save, after one command before the save and one since.\<close>

abbreviation demo_slave :: slave where
  "demo_slave \<equiv> \<lparr>sl_id = 7, sl_state = REDIS_REPL_WAIT_BGSAVE_END, sl_out = enc_reqs (stream_reqs (- 1) [demo_cmd]), sl_direct = [], sl_ack_time = 0\<rparr>"

lemma demo_waiting:
  obtains r W where "reach r [demo_cmd, demo_cmd] 1 (\<lambda>_. None) {}" "backlog_inv W r" "rdb_child r" "slaves r = [demo_slave]" "repl_backlog_size r = 128"
    "runid r = [97, 98]" "\<not> link_down r" "master_repl_offset r = 1 + int (length W)" "length W = 44"
proof -
  have r0: "reach demo_master [] 0 (\<lambda>_. None) {}" by (rule reach_start) (simp_all add: demo_master_def)
  have "replicationFeedSlaves (fst demo_cmd) (snd demo_cmd) demo_master = Some demo_master" by (simp add: replicationFeedSlaves_def demo_master_def)
  then have r1: "reach demo_master ([] @ [demo_cmd]) 0 (\<lambda>_. None) {}" using reach_write [OF r0 demo_cmd_ok] by simp
  define c where "c = (new_slave 7)\<lparr>sl_state := REDIS_REPL_WAIT_BGSAVE_END\<rparr>"
  obtain r2 where r2: "attach_slave 0 c (demo_master\<lparr>rdb_child := True\<rparr>) = Some r2" "backlog_inv [] r2" "slaves r2 = [c]" "rdb_child r2" "slaveseldb r2 = - 1"
    "repl_backlog_size r2 = 128" "runid r2 = [97, 98]" "\<not> link_down r2" "master_repl_offset r2 = 1"
    using backlog_created [of "demo_master\<lparr>rdb_child := True, slaveseldb := - 1, slaves := [c]\<rparr>" 0]
    by (auto simp: attach_slave_def demo_master_def)
  have "syncCommand 0 True True False 7 [[115]] demo_master = Some (r2, c)"
    using r2(1) by (auto simp: syncCommand_def demo_master_def Let_def c_def char_eq_def c_tolower_def)
  then have r2r: "reach r2 [demo_cmd] 1 (\<lambda>_. None) {}"
    using reach_sync [OF r1, of 0 True True False 7 "[[115]]" r2 c] r2(4)
    by (simp add: spoilt_def sync_args_ok_def char_eq_def c_tolower_def demo_master_def fun_upd_idem)
  show thesis
  proof (rule replicationFeedSlaves_spec [OF r2(2), of 0 "snd demo_cmd"])
    show "cmd_ok (0, snd demo_cmd)" using demo_cmd_ok by simp
    fix r3
    assume r3: "replicationFeedSlaves 0 (snd demo_cmd) r2 = Some r3" "backlog_inv ([] @ enc_reqs (stream_reqs (slaveseldb r2) [(0, snd demo_cmd)])) r3"
      "rdb_child r3 = rdb_child r2" "runid r3 = runid r2" "link_down r3 = link_down r2" "repl_backlog_size r3 = repl_backlog_size r2"
      "master_repl_offset r3 - int (length ([] @ enc_reqs (stream_reqs (slaveseldb r2) [(0, snd demo_cmd)]))) = master_repl_offset r2 - int (length ([] :: bytes))"
      "slaves r3 = map (\<lambda>sl. sl_add (enc_reqs (sel_reqs (slaveseldb r2) 0 @
        (if sl_state sl = REDIS_REPL_WAIT_BGSAVE_START then [] else [map content (snd demo_cmd)]))) sl) (slaves r2)"
    let ?W = "[] @ enc_reqs (stream_reqs (slaveseldb r2) [(0, snd demo_cmd)])"
    have "reach r3 ([demo_cmd] @ [(0, snd demo_cmd)]) 1 (\<lambda>_. None) {}" by (rule reach_write [OF r2r _ r3(1)]) (use demo_cmd_ok in simp)
    moreover have "slaves r3 = [demo_slave]" using r3(8) r2(3,5) by (simp add: c_def sl_add_def new_slave_def)
    moreover have "length ?W = 44" by (simp add: r2(5) sel_reqs_def enc_request_def enc_bulk_def decimal_def)
    moreover have "master_repl_offset r3 = 1 + int (length ?W)" using r3(7) r2(9) by simp
    ultimately show thesis using that [of r3 ?W] r3(2-6) r2 by simp
  qed
qed

lemma demo_reach:
  "\<exists>r sl p sn. reach r [demo_cmd, demo_cmd] p sn {} \<and> sl \<in> set (slaves r) \<and> sl_state sl = REDIS_REPL_SEND_BULK \<and> sl_id sl = 7 \<and> sn 7 = Some 1 \<and> length (sl_out sl) \<le> 60"
proof -
  obtain r3 where r3: "reach r3 [demo_cmd, demo_cmd] 1 (\<lambda>_. None) {}" "rdb_child r3" "slaves r3 = [demo_slave]" using demo_waiting by metis
  have len: "length (sl_out demo_slave) \<le> 60" by (simp add: sel_reqs_def enc_request_def enc_bulk_def decimal_def)
  define r4 where "r4 = backgroundSaveDoneHandler True (\<lambda>_. True) True r3"
  define sn where "sn = (\<lambda>i. if \<exists>sl\<in>set (slaves r3). sl_id sl = i \<and> sl_state sl = REDIS_REPL_WAIT_BGSAVE_END then Some 1 else (\<lambda>_. None) i :: nat option)"
  have "reach r4 [demo_cmd, demo_cmd] (if rdb_child r4 then length [demo_cmd, demo_cmd] else 1) sn {}"
    using reach_saved [OF r3(1,2), of r4 True "\<lambda>_. True" True] by (simp add: r4_def sn_def)
  moreover have "slaves r4 = [demo_slave\<lparr>sl_state := REDIS_REPL_SEND_BULK\<rparr>]"
    by (simp add: r4_def backgroundSaveDoneHandler_def updateSlavesWaitingBgsave_def Let_def r3(3) List.map_filter_simps)
  moreover have "sn 7 = Some 1" using r3(3) by (simp add: sn_def)
  ultimately show ?thesis using len by (intro exI [of _ r4] exI [of _ "demo_slave\<lparr>sl_state := REDIS_REPL_SEND_BULK\<rparr>"] exI) auto
qed

theorem full_resync_witness:
  "\<exists>r sl p sn rqs k. reach r [demo_cmd, demo_cmd] p sn {} \<and> sl \<in> set (slaves r) \<and> sl_state sl = REDIS_REPL_SEND_BULK \<and> sn (sl_id sl) = Some 1 \<and>
     serve demo_handler 0 1073741824 (replicate 60 4) (sl_out sl) new_conn [] = Some (k, exec_all demo_handler rqs [], []) \<and>
     snd (interp 0 rqs) = log_of [demo_cmd]"
proof -
  obtain r sl p sn where d: "reach r [demo_cmd, demo_cmd] p sn {}" "sl \<in> set (slaves r)" "sl_state sl = REDIS_REPL_SEND_BULK" "sn (sl_id sl) = Some 1"
    "length (sl_out sl) \<le> 60"
    using demo_reach by metis
  have "\<exists>rqs k. serve demo_handler 0 1073741824 (replicate 60 4) (sl_out sl) new_conn [] = Some (k, exec_all demo_handler rqs [], []) \<and>
      snd (interp 0 rqs) = log_of (drop 1 [demo_cmd, demo_cmd])"
    by (rule full_resync [OF d(1,2) _ d(4) _ quiet_demo]) (use d in simp_all)
  then have "\<exists>rqs k. serve demo_handler 0 1073741824 (replicate 60 4) (sl_out sl) new_conn [] = Some (k, exec_all demo_handler rqs [], []) \<and>
      snd (interp 0 rqs) = log_of [demo_cmd]" by simp
  then show ?thesis using d by blast
qed

section \<open>Synchronisation that goes wrong\<close>

lemma feed_all_out:
  "backlog_inv W r \<Longrightarrow> \<forall>cm\<in>set cmds. cmd_ok cm \<Longrightarrow> feed_all cmds r = Some r' \<Longrightarrow> sl \<in> set (slaves r) \<Longrightarrow>
   sl_state sl \<noteq> REDIS_REPL_WAIT_BGSAVE_START \<Longrightarrow> sl_add (enc_reqs (stream_reqs (slaveseldb r) cmds)) sl \<in> set (slaves r')"
proof (induction cmds arbitrary: W r sl)
  case Nil
  then show ?case by (simp add: sl_add_def)
next
  case (Cons cm cmds)
  obtain d argv where cm: "cm = (d, argv)" by force
  then have ok: "cmd_ok (d, argv)" using Cons.prems(2) by simp
  show ?case
  proof (rule replicationFeedSlaves_spec [OF Cons.prems(1) ok])
    fix r1
    assume r1: "replicationFeedSlaves d argv r = Some r1" "backlog_inv (W @ enc_reqs (stream_reqs (slaveseldb r) [(d, argv)])) r1" "slaveseldb r1 = d"
      "slaves r1 = map (\<lambda>sl. sl_add (enc_reqs (sel_reqs (slaveseldb r) d @
        (if sl_state sl = REDIS_REPL_WAIT_BGSAVE_START then [] else [map content argv]))) sl) (slaves r)"
    let ?sl = "sl_add (enc_reqs (sel_reqs (slaveseldb r) d @ [map content argv])) sl"
    have "?sl \<in> set (slaves r1)" using Cons.prems(4,5) by (force simp: r1(4))
    then have "sl_add (enc_reqs (stream_reqs (slaveseldb r1) cmds)) ?sl \<in> set (slaves r')"
      using Cons.IH [OF r1(2) _ _ \<open>?sl \<in> set (slaves r1)\<close>] Cons.prems r1(1) cm by (auto simp: sl_add_def)
    then show ?case using cm r1(3) by (simp add: sl_add_def)
  qed
qed

text \<open>
  C39. A slave that joins a running background save is told the wrong offset. It is given a copy of the
  output buffer of a slave that waits for the same save, with the \<open>m\<close> bytes of the stream since the
  save was started, but \<open>+FULLRESYNC\<close> names the offset of the stream after these bytes, and a slave
  counts every byte it receives. After its link breaks, with \<open>n\<close> bytes of the following stream
  \<open>S\<close> received, it asks for the byte after the ones it counted, and the master continues with \<open>S\<close>
  from byte \<open>n + m\<close>: the slave never receives the \<open>m\<close> bytes in between.
\<close>

theorem joined_save_skips:
  fixes S :: bytes
  assumes "backlog_inv W r" "rdb_child r" "find (\<lambda>sl. sl_state sl = REDIS_REPL_WAIT_BGSAVE_END) (slaves r) = Some w"
    and "\<not> link_down r" "cid \<notin> set (map sl_id (slaves r))" "cid' \<notin> set (map sl_id (slaves r))" "cid \<noteq> cid'" "\<not> strcasecmp_eq [63] (runid r)"
    and "\<forall>cm\<in>set cmds. cmd_ok cm" and S: "S = enc_reqs (stream_reqs (- 1) cmds)" and m: "m = length (sl_out w)"
    and "n + m \<le> length S" "length S \<le> repl_backlog_size r" "int64_range (master_repl_offset r + int (m + n) + 1)"
  shows "\<exists>r1 c r2 r3 c'. syncCommand g True f False cid [[80, 83, 89, 78, 67], [63], [45, 49]] r = Some (r1, c) \<and>
    sl_direct c = ascii ''+FULLRESYNC '' @ runid r @ [32] @ decimal (master_repl_offset r) @ [13, 10] \<and>
    feed_all cmds r1 = Some r2 \<and> (\<exists>sl\<in>set (slaves r2). sl_id sl = cid \<and> sl_out sl = sl_out w @ S) \<and>
    syncCommand g' True f' False cid' [[80, 83, 89, 78, 67], runid r2, decimal (master_repl_offset r + int (m + n) + 1)] r2 = Some (r3, c') \<and>
    c' \<in> set (slaves r3) \<and> sl_state c' = REDIS_REPL_ONLINE \<and> sl_out c' = drop (n + m) S"
proof -
  have ne: "slaves r \<noteq> []" using assms(3) by auto
  obtain buf where buf: "repl_backlog r = Some buf" using assms(1) by (auto simp: backlog_inv_def)
  define c where "c = (new_slave cid)\<lparr>sl_direct := ascii ''+FULLRESYNC '' @ runid r @ [32] @ decimal (master_repl_offset r) @ [13, 10],
    sl_out := sl_out w, sl_state := REDIS_REPL_WAIT_BGSAVE_END\<rparr>"
  define r1 where "r1 = r\<lparr>slaveseldb := - 1, slaves := slaves r @ [c]\<rparr>"
  have sync: "syncCommand g True f False cid [[80, 83, 89, 78, 67], [63], [45, 49]] r = Some (r1, c)"
    using assms(2-5,8) ne buf by (simp add: syncCommand_def masterTryPartialResynchronization_def Let_def attach_slave_def
      copyClientOutputBuffer_def c_def r1_def new_slave_def char_eq_def c_tolower_def)
  have inv1: "backlog_inv W r1" using assms(1) by (simp add: r1_def backlog_inv_fields)
  obtain r2 where r2: "feed_all cmds r1 = Some r2" "backlog_inv (W @ S) r2" "link_down r2 = link_down r1" "repl_backlog_size r2 = repl_backlog_size r1"
    "map sl_id (slaves r2) = map sl_id (slaves r1)" "master_repl_offset r2 = master_repl_offset r1 + int (length S)"
    using feed_all_spec [OF inv1 assms(9)] by (auto simp: S r1_def)
  have "sl_add S c \<in> set (slaves r2)"
    using feed_all_out [OF inv1 assms(9) r2(1), of c] by (simp add: r1_def S c_def)
  then have out: "\<exists>sl\<in>set (slaves r2). sl_id sl = cid \<and> sl_out sl = sl_out w @ S" by (auto simp: sl_add_def c_def new_slave_def intro: rev_bexI)
  have "length W + (n + m) \<le> length (W @ S)" "length (W @ S) \<le> length W + (n + m) + repl_backlog_size r2" "\<not> link_down r2"
    "cid' \<notin> set (map sl_id (slaves r2))"
    "master_repl_offset r + int (m + n) + 1 = master_repl_offset r2 - int (length (W @ S)) + 1 + int (length W + (n + m))"
    using assms(4,6,7,12,13) r2(3-6) by (auto simp: r1_def c_def new_slave_def)
  then obtain r3 c' where "syncCommand g' True f' False cid' [[80, 83, 89, 78, 67], runid r2, decimal (master_repl_offset r + int (m + n) + 1)] r2 = Some (r3, c')"
    "c' \<in> set (slaves r3)" "sl_state c' = REDIS_REPL_ONLINE" "sl_out c' = drop (length W + (n + m)) (W @ S)"
    using psync_accepted [OF r2(2)] assms(14) by metis
  then show ?thesis using sync r2(1) out by (auto simp: c_def)
qed

theorem joined_save_skips_witness:
  "\<exists>r1 r2 r3 c'. feed_all [demo_cmd, demo_cmd] r1 = Some r2 \<and>
    (\<exists>sl\<in>set (slaves r2). sl_id sl = 8 \<and> sl_out sl = sl_out demo_slave @ enc_reqs (stream_reqs (- 1) [demo_cmd, demo_cmd])) \<and>
    syncCommand 0 True True False 9 [[80, 83, 89, 78, 67], runid r2, decimal 91] r2 = Some (r3, c') \<and>
    c' \<in> set (slaves r3) \<and> sl_state c' = REDIS_REPL_ONLINE \<and> sl_out c' = drop (1 + 44) (enc_reqs (stream_reqs (- 1) [demo_cmd, demo_cmd]))"
proof -
  obtain r W where r: "backlog_inv W r" "rdb_child r" "slaves r = [demo_slave]" "repl_backlog_size r = 128"
    "runid r = [97, 98]" "\<not> link_down r" "master_repl_offset r = 1 + int (length W)" "length W = 44"
    using demo_waiting by metis
  have off: "master_repl_offset r + int (44 + 1) + 1 = 91" using r(7,8) by simp
  have "\<exists>r1 c r2 r3 c'. syncCommand 0 True True False 8 [[80, 83, 89, 78, 67], [63], [45, 49]] r = Some (r1, c) \<and>
    sl_direct c = ascii ''+FULLRESYNC '' @ runid r @ [32] @ decimal (master_repl_offset r) @ [13, 10] \<and>
    feed_all [demo_cmd, demo_cmd] r1 = Some r2 \<and>
    (\<exists>sl\<in>set (slaves r2). sl_id sl = 8 \<and> sl_out sl = sl_out demo_slave @ enc_reqs (stream_reqs (- 1) [demo_cmd, demo_cmd])) \<and>
    syncCommand 0 True True False 9 [[80, 83, 89, 78, 67], runid r2, decimal (master_repl_offset r + int (44 + 1) + 1)] r2 = Some (r3, c') \<and>
    c' \<in> set (slaves r3) \<and> sl_state c' = REDIS_REPL_ONLINE \<and> sl_out c' = drop (1 + 44) (enc_reqs (stream_reqs (- 1) [demo_cmd, demo_cmd]))"
    by (rule joined_save_skips [OF r(1,2) _ r(6) _ _ _ _ _ refl])
      (use r off demo_cmd_ok in \<open>simp_all add: sel_reqs_def enc_request_def enc_bulk_def decimal_def char_eq_def\<close>)
  then obtain r1 c r2 r3 c' where "feed_all [demo_cmd, demo_cmd] r1 = Some r2"
    "\<exists>sl\<in>set (slaves r2). sl_id sl = 8 \<and> sl_out sl = sl_out demo_slave @ enc_reqs (stream_reqs (- 1) [demo_cmd, demo_cmd])"
    "syncCommand 0 True True False 9 [[80, 83, 89, 78, 67], runid r2, decimal 91] r2 = Some (r3, c')"
    "c' \<in> set (slaves r3)" "sl_state c' = REDIS_REPL_ONLINE" "sl_out c' = drop (1 + 44) (enc_reqs (stream_reqs (- 1) [demo_cmd, demo_cmd]))"
    unfolding off by blast
  then show ?thesis by blast
qed

text \<open>
  When the save for the waiting slaves cannot be started, the code closes the slaves that wait for a
  save to start. But these have already been moved to the next state: they stay, without a save.
\<close>

lemma failed_fork_keeps_waiting:
  assumes "\<exists>sl\<in>set (slaves r). sl_id sl = i \<and> sl_state sl = REDIS_REPL_WAIT_BGSAVE_START"
  shows "let r' = backgroundSaveDoneHandler ok opened False r in
    \<not> rdb_child r' \<and> (\<exists>sl\<in>set (slaves r'). sl_id sl = i \<and> sl_state sl = REDIS_REPL_WAIT_BGSAVE_END)"
proof -
  obtain sl where sl: "sl \<in> set (slaves r)" "sl_id sl = i" "sl_state sl = REDIS_REPL_WAIT_BGSAVE_START" using assms by blast
  have "sl\<lparr>sl_state := REDIS_REPL_WAIT_BGSAVE_END\<rparr> \<in> set (List.map_filter (bgsave_slave ok opened) (slaves r))"
    using sl by (auto simp: set_map_filter simp del: bgsave_slave.simps intro!: bexI [of _ sl]) simp
  then show ?thesis
    using sl by (auto simp: backgroundSaveDoneHandler_def updateSlavesWaitingBgsave_def Let_def simp del: bgsave_slave.simps
      intro!: bexI [of _ "sl\<lparr>sl_state := REDIS_REPL_WAIT_BGSAVE_END\<rparr>"])
qed

end
