(* ===== verification/Skiplist.thy ===== *)
theory Skiplist
  imports Object Dict "HOL-Library.Monad_Syntax"
begin

text \<open>
  The skip list of t_zset.c, which keeps the members of a sorted set ordered by score and then by
  bytes. Nodes live in a store from addresses to nodes; a node has an array of levels, each with a
  pointer to the next node of that level and the number of nodes it skips. An operation returns
  \<open>None\<close> when it dereferences \<open>NULL\<close> or freed memory, leaves an array or fails an assertion. The address
  and the former content of new memory and the random numbers are arguments.

  Scores are values of a linear order: doubles without NaN, which the code asserts. Spans are
  \<open>unsigned int\<close> values and wrap; sums of spans in \<open>unsigned long\<close> variables are natural numbers.
\<close>

section \<open>Nodes\<close>

record zskiplistLevel =
  lv_forward :: "nat option"
  lv_span :: "32 word"

record 's zskiplistNode =
  zn_obj :: "strobj option"
  zn_score :: 's
  zn_backward :: "nat option"
  zn_level :: "zskiplistLevel list"

type_synonym 's zheap = "nat \<rightharpoonup> 's zskiplistNode"

record 's zskiplist =
  zsl_heap :: "'s zheap"
  zsl_header :: nat
  zsl_tail :: "nat option"
  zsl_length :: nat
  zsl_level :: nat

abbreviation ZSKIPLIST_MAXLEVEL :: nat where "ZSKIPLIST_MAXLEVEL \<equiv> 32"

definition get_level :: "'s zheap \<Rightarrow> nat \<Rightarrow> nat \<Rightarrow> zskiplistLevel option" where
  "get_level H x i = do { nd \<leftarrow> H x; if i < length (zn_level nd) then Some (zn_level nd ! i) else None }"

definition set_level :: "'s zheap \<Rightarrow> nat \<Rightarrow> nat \<Rightarrow> zskiplistLevel \<Rightarrow> 's zheap option" where
  "set_level H x i lv = do {
     nd \<leftarrow> H x;
     if i < length (zn_level nd) then Some (H(x \<mapsto> nd\<lparr>zn_level := (zn_level nd)[i := lv]\<rparr>)) else None
   }"

definition set_backward :: "'s zheap \<Rightarrow> nat \<Rightarrow> nat option \<Rightarrow> 's zheap option" where
  "set_backward H x p = do { nd \<leftarrow> H x; Some (H(x \<mapsto> nd\<lparr>zn_backward := p\<rparr>)) }"

definition zslCreateNode :: "zskiplistLevel \<Rightarrow> nat \<Rightarrow> 's \<Rightarrow> strobj option \<Rightarrow> 's zskiplistNode" where
  "zslCreateNode g level score obj = \<lparr>zn_obj = obj, zn_score = score, zn_backward = lv_forward g, zn_level = replicate level g\<rparr>"

definition zslCreate :: "nat \<Rightarrow> zskiplistLevel \<Rightarrow> ('s :: zero) zskiplist" where
  "zslCreate a g =
    (let hd = zslCreateNode g ZSKIPLIST_MAXLEVEL 0 None;
         hd = hd\<lparr>zn_level := map (\<lambda>j. \<lparr>lv_forward = None, lv_span = 0\<rparr>) [0..<ZSKIPLIST_MAXLEVEL], zn_backward := None\<rparr>
     in \<lparr>zsl_heap = [a \<mapsto> hd], zsl_header = a, zsl_tail = None, zsl_length = 0, zsl_level = 1\<rparr>)"

definition zslFreeNode :: "'s zheap \<Rightarrow> nat \<Rightarrow> 's zheap option" where
  "zslFreeNode H x = (if H x = None then None else Some (H(x := None)))"

text \<open>\<open>0xFFFF * ZSKIPLIST_P\<close> is 16383.75.\<close>

fun random_loop :: "nat \<Rightarrow> nat list \<Rightarrow> nat option" where
  "random_loop level [] = None"
| "random_loop level (r # rs) = (if r mod 65536 \<le> 16383 then random_loop (level + 1) rs else Some level)"

definition zslRandomLevel :: "nat list \<Rightarrow> nat option" where
  "zslRandomLevel rs = map_option (\<lambda>level. if level < ZSKIPLIST_MAXLEVEL then level else ZSKIPLIST_MAXLEVEL) (random_loop 1 rs)"

section \<open>Moving forward\<close>

text \<open>
  One level of a search: move while there is a next node and the condition of the search holds, for the
  spans crossed so far and the next node. The levels of a search, from the highest: the node and
  the spans at which each level ended, level 0 first.
\<close>

partial_function (option) walk_level :: "(nat \<Rightarrow> 's zskiplistNode \<Rightarrow> bool option) \<Rightarrow> 's zheap \<Rightarrow> nat \<Rightarrow> nat \<Rightarrow> nat \<Rightarrow> (nat \<times> nat) option" where
  [code]: "walk_level cond H i x rank = do {
     lv \<leftarrow> get_level H x i;
     case lv_forward lv of
       None \<Rightarrow> Some (x, rank)
     | Some f \<Rightarrow> do {
         nd \<leftarrow> H f;
         go \<leftarrow> cond (rank + unat (lv_span lv)) nd;
         if go then walk_level cond H i f (rank + unat (lv_span lv)) else Some (x, rank)
       }
   }"

fun walk_levels :: "(nat \<Rightarrow> 's zskiplistNode \<Rightarrow> bool option) \<Rightarrow> 's zheap \<Rightarrow> nat \<Rightarrow> nat \<Rightarrow> nat \<Rightarrow> (nat \<times> nat) list option" where
  "walk_levels cond H 0 x rank = Some []"
| "walk_levels cond H (Suc i) x rank = do {
     (x, rank) \<leftarrow> walk_level cond H i x rank;
     us \<leftarrow> walk_levels cond H i x rank;
     Some (us @ [(x, rank)])
   }"

definition obj_before :: "('s :: linorder) \<Rightarrow> strobj \<Rightarrow> nat \<Rightarrow> 's zskiplistNode \<Rightarrow> bool option" where
  "obj_before score obj k nd =
    (if zn_score nd < score then Some True
     else if zn_score nd = score then map_option (\<lambda>o'. compareStringObjects o' obj < 0) (zn_obj nd)
     else Some False)"

section \<open>Insertion and deletion\<close>

fun raise_header :: "'s zheap \<Rightarrow> nat \<Rightarrow> nat \<Rightarrow> nat list \<Rightarrow> 's zheap option" where
  "raise_header H header len [] = Some H"
| "raise_header H header len (i # is) = do {
     lv \<leftarrow> get_level H header i;
     H \<leftarrow> set_level H header i (lv\<lparr>lv_span := of_nat len\<rparr>);
     raise_header H header len is
   }"

fun link_levels :: "'s zheap \<Rightarrow> nat \<Rightarrow> (nat \<times> nat) list \<Rightarrow> nat list \<Rightarrow> 's zheap option" where
  "link_levels H x us [] = Some H"
| "link_levels H x us (i # is) = do {
     let u = fst (us ! i);
     let crossed = of_nat (snd (us ! 0)) - of_nat (snd (us ! i));
     ulv \<leftarrow> get_level H u i;
     H \<leftarrow> set_level H x i \<lparr>lv_forward = lv_forward ulv, lv_span = lv_span ulv - crossed\<rparr>;
     H \<leftarrow> set_level H u i \<lparr>lv_forward = Some x, lv_span = crossed + 1\<rparr>;
     link_levels H x us is
   }"

fun bump_levels :: "'s zheap \<Rightarrow> (nat \<times> nat) list \<Rightarrow> nat list \<Rightarrow> 's zheap option" where
  "bump_levels H us [] = Some H"
| "bump_levels H us (i # is) = do {
     ulv \<leftarrow> get_level H (fst (us ! i)) i;
     H \<leftarrow> set_level H (fst (us ! i)) i (ulv\<lparr>lv_span := lv_span ulv + 1\<rparr>);
     bump_levels H us is
   }"

definition zslInsert :: "nat \<Rightarrow> zskiplistLevel \<Rightarrow> nat list \<Rightarrow> ('s :: linorder) zskiplist \<Rightarrow> 's \<Rightarrow> strobj \<Rightarrow> ('s zskiplist \<times> nat) option" where
  "zslInsert x g rs zsl score obj = do {
     us \<leftarrow> walk_levels (obj_before score obj) (zsl_heap zsl) (zsl_level zsl) (zsl_header zsl) 0;
     level \<leftarrow> zslRandomLevel rs;
     H \<leftarrow> raise_header (zsl_heap zsl) (zsl_header zsl) (zsl_length zsl) [zsl_level zsl..<level];
     let us = us @ replicate (level - zsl_level zsl) (zsl_header zsl, 0);
     let newlevel = (if level > zsl_level zsl then level else zsl_level zsl);
     let H = H(x \<mapsto> zslCreateNode g level score (Some obj));
     H \<leftarrow> link_levels H x us [0..<level];
     H \<leftarrow> bump_levels H us [level..<newlevel];
     H \<leftarrow> set_backward H x (if fst (us ! 0) = zsl_header zsl then None else Some (fst (us ! 0)));
     lv \<leftarrow> get_level H x 0;
     (H, tail) \<leftarrow> (case lv_forward lv of
         Some f \<Rightarrow> do { H \<leftarrow> set_backward H f (Some x); Some (H, zsl_tail zsl) }
       | None \<Rightarrow> Some (H, Some x));
     Some (zsl\<lparr>zsl_heap := H, zsl_tail := tail, zsl_length := zsl_length zsl + 1, zsl_level := newlevel\<rparr>, x)
   }"

fun unlink_levels :: "'s zheap \<Rightarrow> nat \<Rightarrow> (nat \<times> nat) list \<Rightarrow> nat list \<Rightarrow> 's zheap option" where
  "unlink_levels H x us [] = Some H"
| "unlink_levels H x us (i # is) = do {
     let u = fst (us ! i);
     ulv \<leftarrow> get_level H u i;
     H \<leftarrow> (if lv_forward ulv = Some x then do {
         xlv \<leftarrow> get_level H x i;
         set_level H u i \<lparr>lv_forward = lv_forward xlv, lv_span = lv_span ulv + (lv_span xlv - 1)\<rparr>
       } else set_level H u i (ulv\<lparr>lv_span := lv_span ulv - 1\<rparr>));
     unlink_levels H x us is
   }"

fun lower_level :: "'s zheap \<Rightarrow> nat \<Rightarrow> nat \<Rightarrow> nat option" where
  "lower_level H header (Suc (Suc l)) = do {
     lv \<leftarrow> get_level H header (Suc l);
     if lv_forward lv = None then lower_level H header (Suc l) else Some (Suc (Suc l))
   }"
| "lower_level H header l = Some l"

definition zslDeleteNode :: "'s zskiplist \<Rightarrow> nat \<Rightarrow> (nat \<times> nat) list \<Rightarrow> 's zskiplist option" where
  "zslDeleteNode zsl x us = do {
     H \<leftarrow> unlink_levels (zsl_heap zsl) x us [0..<zsl_level zsl];
     lv \<leftarrow> get_level H x 0;
     xn \<leftarrow> H x;
     (H, tail) \<leftarrow> (case lv_forward lv of
         Some f \<Rightarrow> do { H \<leftarrow> set_backward H f (zn_backward xn); Some (H, zsl_tail zsl) }
       | None \<Rightarrow> Some (H, zn_backward xn));
     level \<leftarrow> lower_level H (zsl_header zsl) (zsl_level zsl);
     Some (zsl\<lparr>zsl_heap := H, zsl_tail := tail, zsl_length := zsl_length zsl - 1, zsl_level := level\<rparr>)
   }"

definition free_node :: "'s zskiplist \<Rightarrow> nat \<Rightarrow> 's zskiplist option" where
  "free_node zsl x = do { H \<leftarrow> zslFreeNode (zsl_heap zsl) x; Some (zsl\<lparr>zsl_heap := H\<rparr>) }"

text \<open>The next node of level 0 after the node at which a search ended.\<close>

definition next_of :: "'s zskiplist \<Rightarrow> (nat \<times> nat) list \<Rightarrow> nat option option" where
  "next_of zsl us = map_option lv_forward (get_level (zsl_heap zsl) (fst (us ! 0)) 0)"

definition zslDelete :: "('s :: linorder) zskiplist \<Rightarrow> 's \<Rightarrow> strobj \<Rightarrow> ('s zskiplist \<times> bool) option" where
  "zslDelete zsl score obj = do {
     us \<leftarrow> walk_levels (obj_before score obj) (zsl_heap zsl) (zsl_level zsl) (zsl_header zsl) 0;
     nx \<leftarrow> next_of zsl us;
     case nx of
       None \<Rightarrow> Some (zsl, False)
     | Some x \<Rightarrow> do {
         xn \<leftarrow> zsl_heap zsl x;
         found \<leftarrow> (if score = zn_score xn then map_option (\<lambda>xo. equalStringObjects xo obj) (zn_obj xn) else Some False);
         if found then do {
           zsl \<leftarrow> zslDeleteNode zsl x us;
           zsl \<leftarrow> free_node zsl x;
           Some (zsl, True)
         } else Some (zsl, False)
       }
   }"

section \<open>Ranges and ranks\<close>

record 's zrangespec =
  zr_min :: 's
  zr_max :: 's
  zr_minex :: bool
  zr_maxex :: bool

definition zslValueGteMin :: "('s :: linorder) \<Rightarrow> 's zrangespec \<Rightarrow> bool" where
  "zslValueGteMin v spec = (if zr_minex spec then v > zr_min spec else v \<ge> zr_min spec)"

definition zslValueLteMax :: "('s :: linorder) \<Rightarrow> 's zrangespec \<Rightarrow> bool" where
  "zslValueLteMax v spec = (if zr_maxex spec then v < zr_max spec else v \<le> zr_max spec)"

text \<open>The test that the last node reaches the range and the first does not exceed it, for the two kinds of range.\<close>

definition ends_in_range :: "('s zskiplistNode \<Rightarrow> bool option) \<Rightarrow> ('s zskiplistNode \<Rightarrow> bool option) \<Rightarrow> 's zskiplist \<Rightarrow> bool option" where
  "ends_in_range gte lte zsl = (case zsl_tail zsl of
      None \<Rightarrow> Some False
    | Some t \<Rightarrow> do {
        tn \<leftarrow> zsl_heap zsl t;
        g \<leftarrow> gte tn;
        if \<not> g then Some False
        else do {
          lv \<leftarrow> get_level (zsl_heap zsl) (zsl_header zsl) 0;
          case lv_forward lv of
            None \<Rightarrow> Some False
          | Some f \<Rightarrow> do { fn \<leftarrow> zsl_heap zsl f; lte fn }
        }
      })"

definition score_gte :: "('s :: linorder) zrangespec \<Rightarrow> 's zskiplistNode \<Rightarrow> bool option" where
  "score_gte rng nd = Some (zslValueGteMin (zn_score nd) rng)"

definition score_lte :: "('s :: linorder) zrangespec \<Rightarrow> 's zskiplistNode \<Rightarrow> bool option" where
  "score_lte rng nd = Some (zslValueLteMax (zn_score nd) rng)"

definition zslIsInRange :: "('s :: linorder) zskiplist \<Rightarrow> 's zrangespec \<Rightarrow> bool option" where
  "zslIsInRange zsl rng =
    (if zr_min rng > zr_max rng \<or> zr_min rng = zr_max rng \<and> (zr_minex rng \<or> zr_maxex rng) then Some False
     else ends_in_range (score_gte rng) (score_lte rng) zsl)"

text \<open>What the searches for the first and the last node in a range share.\<close>

definition first_from :: "('s zskiplistNode \<Rightarrow> bool option) \<Rightarrow> ('s zskiplistNode \<Rightarrow> bool option) \<Rightarrow> 's zskiplist \<Rightarrow> nat option option" where
  "first_from gte lte zsl = do {
     us \<leftarrow> walk_levels (\<lambda>k nd. map_option Not (gte nd)) (zsl_heap zsl) (zsl_level zsl) (zsl_header zsl) 0;
     nx \<leftarrow> next_of zsl us;
     x \<leftarrow> nx;
     xn \<leftarrow> zsl_heap zsl x;
     l \<leftarrow> lte xn;
     Some (if \<not> l then None else Some x)
   }"

definition last_upto :: "('s zskiplistNode \<Rightarrow> bool option) \<Rightarrow> ('s zskiplistNode \<Rightarrow> bool option) \<Rightarrow> 's zskiplist \<Rightarrow> nat option option" where
  "last_upto gte lte zsl = do {
     us \<leftarrow> walk_levels (\<lambda>k nd. lte nd) (zsl_heap zsl) (zsl_level zsl) (zsl_header zsl) 0;
     let x = fst (us ! 0);
     xn \<leftarrow> zsl_heap zsl x;
     g \<leftarrow> gte xn;
     Some (if \<not> g then None else Some x)
   }"

definition zslFirstInRange :: "('s :: linorder) zskiplist \<Rightarrow> 's zrangespec \<Rightarrow> nat option option" where
  "zslFirstInRange zsl rng = do {
     b \<leftarrow> zslIsInRange zsl rng;
     if \<not> b then Some None else first_from (score_gte rng) (score_lte rng) zsl
   }"

definition zslLastInRange :: "('s :: linorder) zskiplist \<Rightarrow> 's zrangespec \<Rightarrow> nat option option" where
  "zslLastInRange zsl rng = do {
     b \<leftarrow> zslIsInRange zsl rng;
     if \<not> b then Some None else last_upto (score_gte rng) (score_lte rng) zsl
   }"

text \<open>
  The loop that deletes nodes from \<open>x\<close> on while a condition holds, for the number of nodes already
  removed and the node. The dictionary maps the bytes of a member to its node.
\<close>

partial_function (option) delete_while :: "(nat \<Rightarrow> 's zskiplistNode \<Rightarrow> bool option) \<Rightarrow> bytes hash \<Rightarrow> (nat \<times> nat) list \<Rightarrow> nat option \<Rightarrow> nat \<Rightarrow>
    's zskiplist \<Rightarrow> (bytes, nat) dict \<Rightarrow> ('s zskiplist \<times> (bytes, nat) dict \<times> nat) option" where
  [code]: "delete_while cond hf us nx removed zsl d = (case nx of
      None \<Rightarrow> Some (zsl, d, removed)
    | Some x \<Rightarrow> do {
        xn \<leftarrow> zsl_heap zsl x;
        go \<leftarrow> cond removed xn;
        if \<not> go then Some (zsl, d, removed)
        else do {
          lv \<leftarrow> get_level (zsl_heap zsl) x 0;
          zsl \<leftarrow> zslDeleteNode zsl x us;
          xn \<leftarrow> zsl_heap zsl x;
          ob \<leftarrow> zn_obj xn;
          (d, found) \<leftarrow> dictGenericDelete hf d (content ob);
          zsl \<leftarrow> free_node zsl x;
          delete_while cond hf us (lv_forward lv) (removed + 1) zsl d
        }
      })"

definition zslDeleteRangeByScore :: "bytes hash \<Rightarrow> ('s :: linorder) zrangespec \<Rightarrow> 's zskiplist \<Rightarrow> (bytes, nat) dict \<Rightarrow> ('s zskiplist \<times> (bytes, nat) dict \<times> nat) option" where
  "zslDeleteRangeByScore hf rng zsl d = do {
     us \<leftarrow> walk_levels (\<lambda>k nd. Some (if zr_minex rng then zn_score nd \<le> zr_min rng else zn_score nd < zr_min rng))
       (zsl_heap zsl) (zsl_level zsl) (zsl_header zsl) 0;
     nx \<leftarrow> next_of zsl us;
     delete_while (\<lambda>removed nd. Some (if zr_maxex rng then zn_score nd < zr_max rng else zn_score nd \<le> zr_max rng)) hf us nx 0 zsl d
   }"

definition zslDeleteRangeByRank :: "bytes hash \<Rightarrow> nat \<Rightarrow> nat \<Rightarrow> 's zskiplist \<Rightarrow> (bytes, nat) dict \<Rightarrow> ('s zskiplist \<times> (bytes, nat) dict \<times> nat) option" where
  "zslDeleteRangeByRank hf start end' zsl d = do {
     us \<leftarrow> walk_levels (\<lambda>k nd. Some (k < start)) (zsl_heap zsl) (zsl_level zsl) (zsl_header zsl) 0;
     let traversed = snd (us ! 0) + 1;
     nx \<leftarrow> next_of zsl us;
     delete_while (\<lambda>removed nd. Some (traversed + removed \<le> end')) hf us nx 0 zsl d
   }"

text \<open>A search that may end above level 0.\<close>

fun scan_levels :: "(nat \<Rightarrow> 's zskiplistNode \<Rightarrow> bool option) \<Rightarrow> (nat \<Rightarrow> nat \<Rightarrow> bool option) \<Rightarrow> 's zheap \<Rightarrow> nat \<Rightarrow> nat \<Rightarrow> nat \<Rightarrow> (nat \<times> nat) option option" where
  "scan_levels cond found H 0 x rank = Some None"
| "scan_levels cond found H (Suc i) x rank = do {
     (x, rank) \<leftarrow> walk_level cond H i x rank;
     b \<leftarrow> found x rank;
     if b then Some (Some (x, rank)) else scan_levels cond found H i x rank
   }"

definition obj_upto :: "('s :: linorder) \<Rightarrow> strobj \<Rightarrow> nat \<Rightarrow> 's zskiplistNode \<Rightarrow> bool option" where
  "obj_upto score obj k nd =
    (if zn_score nd < score then Some True
     else if zn_score nd = score then map_option (\<lambda>o'. compareStringObjects o' obj \<le> 0) (zn_obj nd)
     else Some False)"

definition same_obj :: "'s zheap \<Rightarrow> strobj \<Rightarrow> nat \<Rightarrow> nat \<Rightarrow> bool option" where
  "same_obj H obj x rank = do { xn \<leftarrow> H x; Some (case zn_obj xn of None \<Rightarrow> False | Some o' \<Rightarrow> equalStringObjects o' obj) }"

definition zslGetRank :: "('s :: linorder) zskiplist \<Rightarrow> 's \<Rightarrow> strobj \<Rightarrow> nat option" where
  "zslGetRank zsl score obj = do {
     res \<leftarrow> scan_levels (obj_upto score obj) (same_obj (zsl_heap zsl) obj) (zsl_heap zsl) (zsl_level zsl) (zsl_header zsl) 0;
     Some (case res of None \<Rightarrow> 0 | Some (x, rank) \<Rightarrow> rank)
   }"

definition zslGetElementByRank :: "'s zskiplist \<Rightarrow> nat \<Rightarrow> nat option option" where
  "zslGetElementByRank zsl rank = do {
     res \<leftarrow> scan_levels (\<lambda>traversed nd. Some (traversed \<le> rank)) (\<lambda>x traversed. Some (traversed = rank)) (zsl_heap zsl) (zsl_level zsl) (zsl_header zsl) 0;
     Some (map_option fst res)
   }"

section \<open>Lexicographic ranges\<close>

text \<open>A bound is one of the two shared objects, which are recognised by their address, or an object.\<close>

datatype lexbound = minstring | maxstring | LexObj strobj

record zlexrangespec =
  zl_min :: lexbound
  zl_max :: lexbound
  zl_minex :: bool
  zl_maxex :: bool

definition shared_text :: "lexbound \<Rightarrow> strobj" where
  "shared_text b = (case b of
      minstring \<Rightarrow> ENC_RAW [109, 105, 110, 115, 116, 114, 105, 110, 103]
    | maxstring \<Rightarrow> ENC_RAW [109, 97, 120, 115, 116, 114, 105, 110, 103]
    | LexObj ob \<Rightarrow> ob)"

definition zslParseLexRangeItem :: "bytes \<Rightarrow> (lexbound \<times> bool) option" where
  "zslParseLexRangeItem s =
    (let c0 = (s @ [0]) ! 0; c1 = (s @ [0, 0]) ! 1 in
     if c0 = 43 then (if c1 \<noteq> 0 then None else Some (maxstring, False))
     else if c0 = 45 then (if c1 \<noteq> 0 then None else Some (minstring, False))
     else if c0 = 40 then Some (LexObj (ENC_RAW (drop 1 s)), True)
     else if c0 = 91 then Some (LexObj (ENC_RAW (drop 1 s)), False)
     else None)"

definition zslParseLexRange :: "strobj \<Rightarrow> strobj \<Rightarrow> zlexrangespec option" where
  "zslParseLexRange mn mx = (case (mn, mx) of
      (ENC_RAW a, ENC_RAW b) \<Rightarrow> do {
        (lo, loex) \<leftarrow> zslParseLexRangeItem a;
        (hi, hiex) \<leftarrow> zslParseLexRangeItem b;
        Some \<lparr>zl_min = lo, zl_max = hi, zl_minex = loex, zl_maxex = hiex\<rparr>
      }
    | _ \<Rightarrow> None)"

definition compareStringObjectsForLexRange :: "lexbound \<Rightarrow> lexbound \<Rightarrow> int" where
  "compareStringObjectsForLexRange a b =
    (if a = b \<and> a \<in> {minstring, maxstring} then 0
     else if a = minstring \<or> b = maxstring then - 1
     else if a = maxstring \<or> b = minstring then 1
     else compareStringObjects (shared_text a) (shared_text b))"

definition zslLexValueGteMin :: "strobj \<Rightarrow> zlexrangespec \<Rightarrow> bool" where
  "zslLexValueGteMin v spec =
    (if zl_minex spec then compareStringObjectsForLexRange (LexObj v) (zl_min spec) > 0
     else compareStringObjectsForLexRange (LexObj v) (zl_min spec) \<ge> 0)"

definition zslLexValueLteMax :: "strobj \<Rightarrow> zlexrangespec \<Rightarrow> bool" where
  "zslLexValueLteMax v spec =
    (if zl_maxex spec then compareStringObjectsForLexRange (LexObj v) (zl_max spec) < 0
     else compareStringObjectsForLexRange (LexObj v) (zl_max spec) \<le> 0)"

definition lex_gte :: "zlexrangespec \<Rightarrow> 's zskiplistNode \<Rightarrow> bool option" where
  "lex_gte rng nd = map_option (\<lambda>ob. zslLexValueGteMin ob rng) (zn_obj nd)"

definition lex_lte :: "zlexrangespec \<Rightarrow> 's zskiplistNode \<Rightarrow> bool option" where
  "lex_lte rng nd = map_option (\<lambda>ob. zslLexValueLteMax ob rng) (zn_obj nd)"

definition zslIsInLexRange :: "'s zskiplist \<Rightarrow> zlexrangespec \<Rightarrow> bool option" where
  "zslIsInLexRange zsl rng =
    (if compareStringObjectsForLexRange (zl_min rng) (zl_max rng) > 1 \<or>
        compareStringObjects (shared_text (zl_min rng)) (shared_text (zl_max rng)) = 0 \<and> (zl_minex rng \<or> zl_maxex rng)
     then Some False else ends_in_range (lex_gte rng) (lex_lte rng) zsl)"

definition zslFirstInLexRange :: "'s zskiplist \<Rightarrow> zlexrangespec \<Rightarrow> nat option option" where
  "zslFirstInLexRange zsl rng = do {
     b \<leftarrow> zslIsInLexRange zsl rng;
     if \<not> b then Some None else first_from (lex_gte rng) (lex_lte rng) zsl
   }"

definition zslLastInLexRange :: "'s zskiplist \<Rightarrow> zlexrangespec \<Rightarrow> nat option option" where
  "zslLastInLexRange zsl rng = do {
     b \<leftarrow> zslIsInLexRange zsl rng;
     if \<not> b then Some None else last_upto (lex_gte rng) (lex_lte rng) zsl
   }"

definition zslDeleteRangeByLex :: "bytes hash \<Rightarrow> zlexrangespec \<Rightarrow> 's zskiplist \<Rightarrow> (bytes, nat) dict \<Rightarrow> ('s zskiplist \<times> (bytes, nat) dict \<times> nat) option" where
  "zslDeleteRangeByLex hf rng zsl d = do {
     us \<leftarrow> walk_levels (\<lambda>k nd. map_option Not (lex_gte rng nd)) (zsl_heap zsl) (zsl_level zsl) (zsl_header zsl) 0;
     nx \<leftarrow> next_of zsl us;
     delete_while (\<lambda>removed nd. lex_lte rng nd) hf us nx 0 zsl d
   }"

end
