(* ===== verification/Skiplist_Insert.thy ===== *)
theory Skiplist_Insert
  imports Skiplist
begin

text \<open>
  The shape of a well-formed skip list: every level links the nodes that are high enough, the spans count
  the nodes skipped, the backward pointers and the tail are right and the elements are sorted. A search ends
  at the right node on every level, and an insertion keeps the list well formed.
\<close>

section \<open>The shape of a skip list\<close>

text \<open>The next node of level \<open>i\<close> among the nodes \<open>B\<close> that follow, by their heights \<open>h\<close>, and the number of nodes up to it.\<close>

definition fwd :: "(nat \<Rightarrow> nat) \<Rightarrow> nat \<Rightarrow> nat list \<Rightarrow> nat option" where
  "fwd h i B = find (\<lambda>b. i < h b) B"

fun spn :: "(nat \<Rightarrow> nat) \<Rightarrow> nat \<Rightarrow> nat list \<Rightarrow> nat" where
  "spn h i [] = 0"
| "spn h i (b # B) = (if i < h b then 1 else Suc (spn h i B))"

definition height :: "'s zheap \<Rightarrow> nat \<Rightarrow> nat" where
  "height H a = (case H a of None \<Rightarrow> 0 | Some nd \<Rightarrow> length (zn_level nd))"

definition link_ok :: "'s zheap \<Rightarrow> (nat \<Rightarrow> nat) \<Rightarrow> nat \<Rightarrow> nat \<Rightarrow> nat list \<Rightarrow> nat \<Rightarrow> bool" where
  "link_ok H h L a B i \<longleftrightarrow> (\<exists>lv. get_level H a i = Some lv \<and> lv_forward lv = fwd h i B \<and> (i < L \<longrightarrow> lv_span lv = of_nat (spn h i B)))"

definition links_ok :: "'s zheap \<Rightarrow> (nat \<Rightarrow> nat) \<Rightarrow> nat \<Rightarrow> nat list \<Rightarrow> bool" where
  "links_ok H h L ns \<longleftrightarrow> (\<forall>A a B i. ns = A @ a # B \<longrightarrow> i < h a \<longrightarrow> link_ok H h L a B i)"

lemma fwd_append: "fwd h i (A @ B) = (if \<exists>a\<in>set A. i < h a then fwd h i A else fwd h i B)"
  by (induction A) (auto simp: fwd_def)

lemma spn_append: "spn h i (A @ B) = (if \<exists>a\<in>set A. i < h a then spn h i A else length A + spn h i B)"
  by (induction A) auto

lemma fwd_low: "\<forall>b\<in>set B. h b \<le> i \<Longrightarrow> fwd h i B = None"
  by (auto simp: fwd_def find_None_iff)

lemma spn_low: "\<forall>b\<in>set B. h b \<le> i \<Longrightarrow> spn h i B = length B"
  by (induction B) auto

lemma fwd_Some: "fwd h i B = Some b \<Longrightarrow> \<exists>B1 B2. B = B1 @ b # B2 \<and> i < h b \<and> (\<forall>x\<in>set B1. h x \<le> i) \<and> spn h i B = Suc (length B1)"
proof (induction B)
  case (Cons x B)
  show ?case
  proof (cases "i < h x")
    case True
    then show ?thesis using Cons.prems by (intro exI [of _ "[]"] exI [of _ B]) (auto simp: fwd_def)
  next
    case False
    then obtain B1 B2 where "B = B1 @ b # B2" "i < h b" "\<forall>x\<in>set B1. h x \<le> i" "spn h i B = Suc (length B1)"
      using Cons by (auto simp: fwd_def)
    then show ?thesis using False by (intro exI [of _ "x # B1"] exI [of _ B2]) auto
  qed
qed (simp add: fwd_def)

lemma fwd_None: "fwd h i B = None \<longleftrightarrow> (\<forall>b\<in>set B. h b \<le> i)"
  by (auto simp: fwd_def find_None_iff)

lemma fwd_cong: "(\<And>b. b \<in> set B \<Longrightarrow> h b = h' b) \<Longrightarrow> fwd h i B = fwd h' i B \<and> spn h i B = spn h' i B"
  by (induction B) (auto simp: fwd_def)

lemma links_okD: "links_ok H h L (A @ a # B) \<Longrightarrow> i < h a \<Longrightarrow> link_ok H h L a B i"
  by (auto simp: links_ok_def)

lemma link_okD: "link_ok H h L a B i \<Longrightarrow> i < L \<Longrightarrow> get_level H a i = Some \<lparr>lv_forward = fwd h i B, lv_span = of_nat (spn h i B)\<rparr>"
  by (auto simp: link_ok_def)

section \<open>Searching\<close>

text \<open>The search ends on level \<open>i\<close> at the last node of the prefix \<open>A\<close> that reaches above level \<open>i\<close>.\<close>

definition ends_at :: "(nat \<Rightarrow> nat) \<Rightarrow> nat list \<Rightarrow> nat \<Rightarrow> nat \<times> nat \<Rightarrow> bool" where
  "ends_at h A i u \<longleftrightarrow> (\<exists>P Q. A = P @ fst u # Q \<and> snd u = length P \<and> i < h (fst u) \<and> (\<forall>b\<in>set Q. h b \<le> i))"

text \<open>The condition of a search holds exactly for the nodes of the prefix, of which the first is the header.\<close>

definition cuts :: "(nat \<Rightarrow> 's zskiplistNode \<Rightarrow> bool option) \<Rightarrow> 's zheap \<Rightarrow> nat list \<Rightarrow> nat \<Rightarrow> bool" where
  "cuts cond H ns k \<longleftrightarrow> 0 < k \<and> k \<le> length ns \<and> (\<forall>p. 0 < p \<longrightarrow> p < length ns \<longrightarrow> (\<exists>nd. H (ns ! p) = Some nd \<and> cond p nd = Some (p < k)))"

lemma walk_spec:
  assumes links: "links_ok H h L ns" and i: "i < L" and len: "length ns < 2 ^ 32" and cut: "cuts cond H ns k"
  shows "ns = P @ x # Q \<Longrightarrow> length P < k \<Longrightarrow> i < h x \<Longrightarrow> \<exists>u. walk_level cond H i x (length P) = Some u \<and> ends_at h (take k ns) i u"
proof (induction "length Q" arbitrary: P x Q rule: less_induct)
  case less
  have lv: "get_level H x i = Some \<lparr>lv_forward = fwd h i Q, lv_span = of_nat (spn h i Q)\<rparr>"
    using links_okD [of H h L P x Q i] links less.prems(1,3) link_okD [OF _ i] by simp
  show ?case
  proof (cases "fwd h i Q")
    case None
    have tk: "take k ns = P @ x # take (k - Suc (length P)) Q" using less.prems(1,2) by (simp add: take_Cons' Suc_diff_le)
    have "walk_level cond H i x (length P) = Some (x, length P)" by (simp add: walk_level.simps lv None)
    moreover have "ends_at h (take k ns) i (x, length P)"
      unfolding ends_at_def tk using None less.prems(3) by (auto simp: fwd_None dest: in_set_takeD)
    ultimately show ?thesis by blast
  next
    case (Some f)
    then obtain B1 B2 where B: "Q = B1 @ f # B2" "i < h f" "\<forall>x\<in>set B1. h x \<le> i" "spn h i Q = Suc (length B1)" using fwd_Some by blast
    let ?p = "length P + Suc (length B1)"
    have nsp: "ns = (P @ x # B1) @ f # B2" using less.prems(1) B(1) by simp
    have p: "?p < length ns" "ns ! ?p = f" "0 < ?p" using nsp by (simp_all add: nth_append)
    have "unat (of_nat (spn h i Q) :: 32 word) = Suc (length B1)" using p(1) len B(4) by (simp add: unat_of_nat take_bit_nat_eq_self del: of_nat_Suc)
    then have r: "length P + unat (lv_span \<lparr>lv_forward = fwd h i Q, lv_span = of_nat (spn h i Q)\<rparr>) = ?p" by simp
    obtain nd where nd: "H f = Some nd" "cond ?p nd = Some (?p < k)" using cut p by (auto simp: cuts_def)
    show ?thesis
    proof (cases "?p < k")
      case True
      have "\<exists>u. walk_level cond H i f (length (P @ x # B1)) = Some u \<and> ends_at h (take k ns) i u"
        by (rule less.hyps [OF _ nsp]) (use B True in auto)
      moreover have "walk_level cond H i x (length P) = walk_level cond H i f (length (P @ x # B1))"
        unfolding walk_level.simps [of cond H i x] lv bind.bind_lunit r using Some nd True by simp
      ultimately show ?thesis by simp
    next
      case False
      have tk: "take k ns = P @ x # take (k - Suc (length P)) B1"
        using less.prems(1,2) False B(1) by (simp add: take_Cons' Suc_diff_le)
      have "walk_level cond H i x (length P) = Some (x, length P)"
        unfolding walk_level.simps [of cond H i x] lv bind.bind_lunit r using Some nd False by simp
      moreover have "ends_at h (take k ns) i (x, length P)"
        unfolding ends_at_def tk using B(3) less.prems(3) by (auto dest: in_set_takeD)
      ultimately show ?thesis by blast
    qed
  qed
qed

lemma walk_levels_spec:
  assumes links: "links_ok H h L ns" and len: "length ns < 2 ^ 32" and cut: "cuts cond H ns k"
  shows "n \<le> L \<Longrightarrow> ns = P @ x # Q \<Longrightarrow> length P < k \<Longrightarrow> n \<le> h x \<Longrightarrow>
    \<exists>us. walk_levels cond H n x (length P) = Some us \<and> length us = n \<and> (\<forall>i<n. ends_at h (take k ns) i (us ! i))"
proof (induction n arbitrary: P x Q)
  case (Suc n)
  obtain u where u: "walk_level cond H n x (length P) = Some u" "ends_at h (take k ns) n u"
    using walk_spec [OF links _ len cut Suc.prems(2,3), of n] Suc.prems(1,4) by auto
  then obtain P' Q' where pq: "take k ns = P' @ fst u # Q'" "snd u = length P'" "n < h (fst u)" by (auto simp: ends_at_def)
  then have "ns = P' @ fst u # (Q' @ drop k ns)" by (metis append.assoc append_Cons append_take_drop_id)
  moreover have "length P' < k" using arg_cong [OF pq(1), of length] by simp
  ultimately obtain us where us: "walk_levels cond H n (fst u) (length P') = Some us" "length us = n" "\<forall>i<n. ends_at h (take k ns) i (us ! i)"
    using Suc.IH [of P' "fst u" "Q' @ drop k ns"] Suc.prems(1) pq(3) by auto
  show ?case using u us pq(2) by (intro exI [of _ "us @ [u]"]) (auto simp: nth_append less_Suc_eq split: prod.splits)
qed simp

section \<open>Effects on the store\<close>

text \<open>Everything of a node but its links.\<close>

definition data :: "'s zheap \<Rightarrow> nat \<Rightarrow> (strobj option \<times> 's \<times> nat option \<times> nat) option" where
  "data H b = map_option (\<lambda>nd. (zn_obj nd, zn_score nd, zn_backward nd, length (zn_level nd))) (H b)"

definition crossed :: "(nat \<times> nat) list \<Rightarrow> nat \<Rightarrow> 32 word" where
  "crossed us i = of_nat (snd (us ! 0)) - of_nat (snd (us ! i))"

lemma set_level_effect:
  assumes "get_level H x i \<noteq> None"
  obtains H' where "set_level H x i lv = Some H'" "data H' = data H" "\<And>b j. get_level H' b j = (if b = x \<and> j = i then Some lv else get_level H b j)"
proof -
  obtain nd where nd: "H x = Some nd" "i < length (zn_level nd)" using assms by (auto simp: get_level_def split: if_splits bind_splits)
  show thesis
    by (rule that [of "H(x \<mapsto> nd\<lparr>zn_level := (zn_level nd)[i := lv]\<rparr>)"])
      (use nd in \<open>auto simp: set_level_def get_level_def data_def fun_eq_iff\<close>)
qed

lemma raise_header_effect:
  "distinct is \<Longrightarrow> \<forall>i\<in>set is. get_level H hdr i \<noteq> None \<Longrightarrow>
   \<exists>H'. raise_header H hdr len is = Some H' \<and> data H' = data H \<and>
     (\<forall>b j. get_level H' b j = (if b = hdr \<and> j \<in> set is then map_option (\<lambda>lv. lv\<lparr>lv_span := of_nat len\<rparr>) (get_level H b j) else get_level H b j))"
proof (induction "is" arbitrary: H)
  case (Cons i "is")
  obtain lv where lv: "get_level H hdr i = Some lv" using Cons.prems by auto
  obtain H1 where H1: "set_level H hdr i (lv\<lparr>lv_span := of_nat len\<rparr>) = Some H1" "data H1 = data H"
      "\<And>b j. get_level H1 b j = (if b = hdr \<and> j = i then Some (lv\<lparr>lv_span := of_nat len\<rparr>) else get_level H b j)"
    by (rule set_level_effect [of H hdr i]) (use lv in auto)
  have "\<forall>j\<in>set is. get_level H1 hdr j \<noteq> None" using Cons.prems by (auto simp: H1(3))
  then obtain H' where "raise_header H1 hdr len is = Some H'" "data H' = data H1"
      "\<forall>b j. get_level H' b j = (if b = hdr \<and> j \<in> set is then map_option (\<lambda>lv. lv\<lparr>lv_span := of_nat len\<rparr>) (get_level H1 b j) else get_level H1 b j)"
    using Cons.IH [of H1] Cons.prems(1) by auto
  then show ?case using H1 lv Cons.prems(1) by (intro exI [of _ H']) auto
qed simp

definition new_link :: "'s zheap \<Rightarrow> (nat \<times> nat) list \<Rightarrow> nat \<Rightarrow> zskiplistLevel" where
  "new_link H us j = (let ulv = the (get_level H (fst (us ! j)) j) in \<lparr>lv_forward = lv_forward ulv, lv_span = lv_span ulv - crossed us j\<rparr>)"

lemma link_levels_effect:
  "distinct is \<Longrightarrow> \<forall>i\<in>set is. get_level H x i \<noteq> None \<and> get_level H (fst (us ! i)) i \<noteq> None \<and> fst (us ! i) \<noteq> x \<Longrightarrow>
   \<exists>H'. link_levels H x us is = Some H' \<and> data H' = data H \<and>
     (\<forall>b j. get_level H' b j = (if j \<in> set is \<and> b = x then Some (new_link H us j)
        else if j \<in> set is \<and> b = fst (us ! j) then Some \<lparr>lv_forward = Some x, lv_span = crossed us j + 1\<rparr>
        else get_level H b j))"
proof (induction "is" arbitrary: H)
  case (Cons i "is")
  let ?u = "fst (us ! i)"
  obtain ulv where ulv: "get_level H ?u i = Some ulv" using Cons.prems by auto
  obtain H1 where H1: "set_level H x i \<lparr>lv_forward = lv_forward ulv, lv_span = lv_span ulv - crossed us i\<rparr> = Some H1" "data H1 = data H"
      "\<And>b j. get_level H1 b j = (if b = x \<and> j = i then Some \<lparr>lv_forward = lv_forward ulv, lv_span = lv_span ulv - crossed us i\<rparr> else get_level H b j)"
    by (rule set_level_effect [of H x i]) (use Cons.prems in auto)
  obtain H2 where H2: "set_level H1 ?u i \<lparr>lv_forward = Some x, lv_span = crossed us i + 1\<rparr> = Some H2" "data H2 = data H1"
      "\<And>b j. get_level H2 b j = (if b = ?u \<and> j = i then Some \<lparr>lv_forward = Some x, lv_span = crossed us i + 1\<rparr> else get_level H1 b j)"
    by (rule set_level_effect [of H1 ?u i]) (use Cons.prems in \<open>auto simp: H1(3)\<close>)
  have i: "i \<notin> set is" "?u \<noteq> x" using Cons.prems by auto
  have same: "get_level H2 b j = get_level H b j" if "j \<in> set is" for b j using that i by (auto simp: H1(3) H2(3))
  have "\<forall>j\<in>set is. get_level H2 x j \<noteq> None \<and> get_level H2 (fst (us ! j)) j \<noteq> None \<and> fst (us ! j) \<noteq> x"
    using Cons.prems same by auto
  moreover have "new_link H2 us j = new_link H us j" if "j \<in> set is" for j using same [OF that] by (simp add: new_link_def)
  ultimately obtain H' where H': "link_levels H2 x us is = Some H'" "data H' = data H2"
     "\<forall>b j. get_level H' b j = (if j \<in> set is \<and> b = x then Some (new_link H us j)
        else if j \<in> set is \<and> b = fst (us ! j) then Some \<lparr>lv_forward = Some x, lv_span = crossed us j + 1\<rparr>
        else get_level H2 b j)"
    using Cons.IH [of H2] Cons.prems(1) by (auto cong: if_cong)
  have "link_levels H x us (i # is) = Some H'" using ulv H1(1) H2(1) H'(1) by (simp add: crossed_def)
  moreover have "new_link H us i = \<lparr>lv_forward = lv_forward ulv, lv_span = lv_span ulv - crossed us i\<rparr>" using ulv by (simp add: new_link_def)
  ultimately show ?case using H1(2) H2(2) H'(2) i by (intro exI [of _ H']) (auto simp: H'(3) H2(3) H1(3))
qed simp

lemma bump_levels_effect:
  "distinct is \<Longrightarrow> \<forall>i\<in>set is. get_level H (fst (us ! i)) i \<noteq> None \<Longrightarrow>
   \<exists>H'. bump_levels H us is = Some H' \<and> data H' = data H \<and>
     (\<forall>b j. get_level H' b j = (if j \<in> set is \<and> b = fst (us ! j) then map_option (\<lambda>lv. lv\<lparr>lv_span := lv_span lv + 1\<rparr>) (get_level H b j) else get_level H b j))"
proof (induction "is" arbitrary: H)
  case (Cons i "is")
  let ?u = "fst (us ! i)"
  obtain lv where lv: "get_level H ?u i = Some lv" using Cons.prems by auto
  obtain H1 where H1: "set_level H ?u i (lv\<lparr>lv_span := lv_span lv + 1\<rparr>) = Some H1" "data H1 = data H"
      "\<And>b j. get_level H1 b j = (if b = ?u \<and> j = i then Some (lv\<lparr>lv_span := lv_span lv + 1\<rparr>) else get_level H b j)"
    by (rule set_level_effect [of H ?u i]) (use lv in auto)
  have "\<forall>j\<in>set is. get_level H1 (fst (us ! j)) j \<noteq> None" using Cons.prems by (auto simp: H1(3))
  then obtain H' where "bump_levels H1 us is = Some H'" "data H' = data H1"
      "\<forall>b j. get_level H' b j = (if j \<in> set is \<and> b = fst (us ! j) then map_option (\<lambda>lv. lv\<lparr>lv_span := lv_span lv + 1\<rparr>) (get_level H1 b j) else get_level H1 b j)"
    using Cons.IH [of H1] Cons.prems(1) by auto
  then show ?case using H1 lv Cons.prems(1) by (intro exI [of _ H']) auto
qed simp

definition unlinked :: "'s zheap \<Rightarrow> nat \<Rightarrow> (nat \<times> nat) list \<Rightarrow> nat \<Rightarrow> zskiplistLevel" where
  "unlinked H x us j = (let ulv = the (get_level H (fst (us ! j)) j); xlv = the (get_level H x j) in
     if lv_forward ulv = Some x then \<lparr>lv_forward = lv_forward xlv, lv_span = lv_span ulv + (lv_span xlv - 1)\<rparr>
     else ulv\<lparr>lv_span := lv_span ulv - 1\<rparr>)"

lemma unlink_levels_effect:
  "distinct is \<Longrightarrow> \<forall>i\<in>set is. fst (us ! i) \<noteq> x \<and> (\<exists>ulv. get_level H (fst (us ! i)) i = Some ulv \<and> (lv_forward ulv = Some x \<longrightarrow> get_level H x i \<noteq> None)) \<Longrightarrow>
   \<exists>H'. unlink_levels H x us is = Some H' \<and> data H' = data H \<and>
     (\<forall>b j. get_level H' b j = (if j \<in> set is \<and> b = fst (us ! j) then Some (unlinked H x us j) else get_level H b j))"
proof (induction "is" arbitrary: H)
  case (Cons i "is")
  let ?u = "fst (us ! i)"
  obtain ulv where ulv: "get_level H ?u i = Some ulv" "lv_forward ulv = Some x \<longrightarrow> get_level H x i \<noteq> None" "?u \<noteq> x" using Cons.prems by auto
  obtain H1 where H1: "set_level H ?u i (unlinked H x us i) = Some H1" "data H1 = data H"
      "\<And>b j. get_level H1 b j = (if b = ?u \<and> j = i then Some (unlinked H x us i) else get_level H b j)"
    by (rule set_level_effect [of H ?u i]) (use ulv in auto)
  have same: "get_level H1 b j = get_level H b j" if "j \<in> set is" for b j using that Cons.prems(1) by (auto simp: H1(3))
  have "unlinked H1 x us j = unlinked H x us j" if "j \<in> set is" for j using same [OF that] by (simp add: unlinked_def)
  moreover have "\<forall>i\<in>set is. fst (us ! i) \<noteq> x \<and> (\<exists>ulv. get_level H1 (fst (us ! i)) i = Some ulv \<and> (lv_forward ulv = Some x \<longrightarrow> get_level H1 x i \<noteq> None))"
    using Cons.prems(2) same by auto
  ultimately obtain H' where H': "unlink_levels H1 x us is = Some H'" "data H' = data H1"
     "\<forall>b j. get_level H' b j = (if j \<in> set is \<and> b = fst (us ! j) then Some (unlinked H x us j) else get_level H1 b j)"
    using Cons.IH [of H1] Cons.prems(1) by (auto cong: if_cong)
  have "unlink_levels H x us (i # is) = Some H'"
    using ulv H1(1) H'(1) by (cases "get_level H x i") (auto simp: unlinked_def Let_def cong: if_cong)
  then show ?case using H1 H' by (intro exI [of _ H']) auto
qed simp

lemma set_backward_effect:
  assumes "H x \<noteq> None"
  obtains H' where "set_backward H x p = Some H'" "get_level H' = get_level H"
    "\<And>b. data H' b = (if b = x then map_option (\<lambda>(ob, s, q, n). (ob, s, p, n)) (data H b) else data H b)"
proof -
  obtain nd where nd: "H x = Some nd" using assms by auto
  show thesis
    by (rule that [of "H(x \<mapsto> nd\<lparr>zn_backward := p\<rparr>)"]) (use nd in \<open>auto simp: set_backward_def get_level_def data_def fun_eq_iff\<close>)
qed

section \<open>The invariant\<close>

definition key_less :: "('s :: linorder) \<times> bytes \<Rightarrow> 's \<times> bytes \<Rightarrow> bool" where
  "key_less a b \<longleftrightarrow> fst a < fst b \<or> fst a = fst b \<and> ord_class.lexordp (snd a) (snd b)"

definition node_item :: "'s zheap \<Rightarrow> nat \<Rightarrow> 's \<times> bytes" where
  "node_item H a = (case H a of Some nd \<Rightarrow> (zn_score nd, content (the (zn_obj nd))) | None \<Rightarrow> undefined)"

definition member_ok :: "strobj \<Rightarrow> bool" where
  "member_ok ob \<longleftrightarrow> obj_ok ob \<and> length (content ob) < 2147483648"

definition node_ok :: "'s zheap \<Rightarrow> nat \<Rightarrow> bool" where
  "node_ok H a \<longleftrightarrow> (\<exists>nd ob. H a = Some nd \<and> zn_obj nd = Some ob \<and> member_ok ob)"

definition backs_ok :: "'s zheap \<Rightarrow> nat list \<Rightarrow> bool" where
  "backs_ok H ns \<longleftrightarrow> (\<forall>A a b B. ns = A @ a # b # B \<longrightarrow> Option.bind (H b) zn_backward = (if A = [] then None else Some a))"

text \<open>The first of the nodes \<open>ns\<close> is the header.\<close>

definition zsl_ok :: "('s :: linorder) zskiplist \<Rightarrow> nat list \<Rightarrow> bool" where
  "zsl_ok z ns \<longleftrightarrow> ns \<noteq> [] \<and> hd ns = zsl_header z \<and> distinct ns \<and> dom (zsl_heap z) = set ns \<and> length ns = Suc (zsl_length z) \<and>
     height (zsl_heap z) (zsl_header z) = ZSKIPLIST_MAXLEVEL \<and> 1 \<le> zsl_level z \<and> zsl_level z \<le> ZSKIPLIST_MAXLEVEL \<and>
     (\<forall>a\<in>set (tl ns). 1 \<le> height (zsl_heap z) a \<and> height (zsl_heap z) a \<le> zsl_level z \<and> node_ok (zsl_heap z) a) \<and>
     links_ok (zsl_heap z) (height (zsl_heap z)) (zsl_level z) ns \<and> backs_ok (zsl_heap z) ns \<and>
     Option.bind (zsl_heap z (zsl_header z)) zn_obj = None \<and>
     zsl_tail z = (if tl ns = [] then None else Some (last ns)) \<and>
     sorted_wrt key_less (map (node_item (zsl_heap z)) (tl ns))"

definition items :: "'s zskiplist \<Rightarrow> nat list \<Rightarrow> ('s \<times> bytes) list" where
  "items z ns = map (node_item (zsl_heap z)) (tl ns)"

lemma key_less_irrefl [simp]: "\<not> key_less a a"
  by (simp add: key_less_def lexordp_irreflexive')

lemma key_less_trans: "key_less a b \<Longrightarrow> key_less b c \<Longrightarrow> key_less a c"
  by (auto simp: key_less_def intro: lexordp_trans)

lemma key_less_linear: "key_less a b \<or> a = b \<or> key_less b a"
  using lexordp_linear [of "snd a" "snd b"] by (cases a; cases b) (auto simp: key_less_def)

text \<open>All that the invariant asks of a node but its links is in \<open>data\<close>.\<close>

lemma data_cong:
  assumes "data H' a = data H a"
  shows "height H' a = height H a" "node_item H' a = node_item H a" "node_ok H' a = node_ok H a"
    "Option.bind (H' a) zn_backward = Option.bind (H a) zn_backward" "Option.bind (H' a) zn_obj = Option.bind (H a) zn_obj" "(H' a = None) = (H a = None)"
  using assms by (cases "H' a"; cases "H a"; simp add: data_def height_def node_item_def node_ok_def)+

lemma ends_at_unique:
  assumes "ends_at h A i u" "distinct A" "A = P @ a # Q" "i < h a"
  shows "fst u = a \<longleftrightarrow> (\<forall>q\<in>set Q. h q \<le> i)" "fst u = a \<Longrightarrow> snd u = length P"
proof -
  obtain P' Q' where u: "A = P' @ fst u # Q'" "snd u = length P'" "i < h (fst u)" "\<forall>b\<in>set Q'. h b \<le> i" using assms(1) by (auto simp: ends_at_def)
  have eq: "P = P' \<and> Q = Q'" if "fst u = a"
  proof -
    have "distinct (P @ a # Q)" "distinct (P' @ a # Q')" using assms(2,3) u(1) that by metis+
    then have "a \<notin> set P" "a \<notin> set Q" "a \<notin> set P'" "a \<notin> set Q'" by auto
    then show ?thesis using append_Cons_eq_iff [of a P Q P' Q'] assms(3) u(1) that by auto
  qed
  then show "fst u = a \<Longrightarrow> snd u = length P" using u(2) by simp
  have "fst u = a" if q: "\<forall>q\<in>set Q. h q \<le> i"
  proof (rule ccontr)
    assume ne: "fst u \<noteq> a"
    have "fst u \<notin> set Q" using u(3) q by auto
    moreover have "fst u \<in> set (P @ a # Q)" using u(1) assms(3) by simp
    ultimately obtain P1 P2 where P: "P = P1 @ fst u # P2" using ne by (auto dest: split_list)
    then have "P1 @ fst u # (P2 @ a # Q) = P' @ fst u # Q'" using assms(3) u(1) by simp
    moreover have "distinct (P1 @ fst u # (P2 @ a # Q))" "distinct (P' @ fst u # Q')" using assms(2,3) u(1) P by auto
    then have "fst u \<notin> set P1" "fst u \<notin> set (P2 @ a # Q)" "fst u \<notin> set P'" by auto
    ultimately have "P2 @ a # Q = Q'" using append_Cons_eq_iff [of "fst u" P1 "P2 @ a # Q" P' Q'] by blast
    then show False using u(4) assms(4) by auto
  qed
  then show "fst u = a \<longleftrightarrow> (\<forall>q\<in>set Q. h q \<le> i)" using eq u(4) by blast
qed

lemma ends_at_in: "ends_at h A i u \<Longrightarrow> fst u \<in> set A \<and> i < h (fst u)"
  by (auto simp: ends_at_def)

text \<open>The three places of a node in a list with a new node.\<close>

lemma split_insert:
  assumes "A @ x # B = P @ a # R"
  obtains (left) Q where "A = P @ a # Q" "R = Q @ x # B" | (new) "a = x" "R = B" "P = A" | (right) Q where "B = Q @ a # R" "P = A @ x # Q"
proof -
  consider us where "A = P @ us" "us @ x # B = a # R" | us where "A @ us = P" "x # B = us @ a # R"
    using assms by (auto simp: append_eq_append_conv2)
  then show thesis
  proof cases
    case 1
    then show thesis using left new by (cases us) auto
  next
    case 2
    then show thesis using right new by (cases us) auto
  qed
qed

lemma links_raise:
  assumes links: "links_ok H h L ns" and hd: "ns = hdr # ns'" "distinct ns" "\<forall>a\<in>set ns'. h a \<le> L" "Suc (length ns') = Suc len"
    and H1: "\<forall>b j. get_level H1 b j = (if b = hdr \<and> j \<in> {L..<l} then map_option (\<lambda>lv. lv\<lparr>lv_span := of_nat len\<rparr>) (get_level H b j) else get_level H b j)"
  shows "links_ok H1 h (max l L) ns"
  unfolding links_ok_def
proof (intro allI impI)
  fix A a B i assume ns: "ns = A @ a # B" and i: "i < h a"
  have old: "link_ok H h L a B i" using links ns i by (auto simp: links_ok_def)
  show "link_ok H1 h (max l L) a B i"
  proof (cases "a = hdr")
    case True
    then have B: "B = ns'" using hd(1,2) ns by (cases A) auto
    have "L \<le> i \<Longrightarrow> \<forall>b\<in>set ns'. h b \<le> i" using hd(3) by force
    then have "L \<le> i \<Longrightarrow> spn h i ns' = len" using spn_low [of ns' h i] hd(4) by simp
    then show ?thesis using old True by (auto simp: link_ok_def H1 B)
  next
    case False
    then have "a \<in> set ns'" using hd(1) ns by (cases A) auto
    then have "i < L" using hd(3) i by auto
    then show ?thesis using old False by (auto simp: link_ok_def H1)
  qed
qed

section \<open>Insertion\<close>

lemma fwd_Cons: "fwd h i (b # B) = (if i < h b then Some b else fwd h i B)"
  by (simp add: fwd_def)

lemma fwd_upd: "x \<notin> set B \<Longrightarrow> fwd (h(x := l)) i B = fwd h i B" "x \<notin> set B \<Longrightarrow> spn (h(x := l)) i B = spn h i B"
  by (induction B) (auto simp: fwd_def)

lemma crossed_length:
  assumes "snd (us ! 0) = length A - 1" "A = P @ a # Q" "snd (us ! i) = length P"
  shows "crossed us i = of_nat (length Q)"
  using assms by (simp add: crossed_def)

definition inserted_link :: "'s zheap \<Rightarrow> nat \<Rightarrow> nat \<Rightarrow> nat \<Rightarrow> (nat \<times> nat) list \<Rightarrow> nat \<Rightarrow> nat \<Rightarrow> zskiplistLevel option" where
  "inserted_link H x level T us b j =
    (if j < level \<and> b = x then Some (new_link H us j)
     else if j < level \<and> b = fst (us ! j) then Some \<lparr>lv_forward = Some x, lv_span = crossed us j + 1\<rparr>
     else if level \<le> j \<and> j < T \<and> b = fst (us ! j) then map_option (\<lambda>lv. lv\<lparr>lv_span := lv_span lv + 1\<rparr>) (get_level H b j)
     else get_level H b j)"

lemma links_insert:
  assumes links: "links_ok H h T (A @ B)" and dist: "distinct (A @ B)" "x \<notin> set (A @ B)"
    and us: "\<forall>i<T. ends_at h A i (us ! i)" "snd (us ! 0) = length A - 1" and lvl: "level \<le> T" "\<forall>b\<in>set (tl (A @ B)). h b \<le> T" "A \<noteq> []"
    and H': "\<And>b j. b \<noteq> x \<or> j < level \<Longrightarrow> get_level H' b j = inserted_link H x level T us b j"
  shows "links_ok H' (h(x := level)) T (A @ x # B)"
  unfolding links_ok_def
proof (intro allI impI)
  fix P a R i assume ns: "A @ x # B = P @ a # R" and i: "i < (h(x := level)) a"
  let ?h = "h(x := level)"
  have xn: "x \<notin> set A" "x \<notin> set B" and dA: "distinct A" using dist by auto
  from ns show "link_ok H' ?h T a R i"
  proof (cases rule: split_insert)
    case (left Q)
    have ax: "a \<noteq> x" "x \<notin> set Q" using left(1) xn by auto
    then have ih: "i < h a" using i by simp
    have "A @ B = P @ a # (Q @ B)" using left(1) by simp
    then obtain lv where lv: "get_level H a i = Some lv" "lv_forward lv = fwd h i (Q @ B)" "i < T \<longrightarrow> lv_span lv = of_nat (spn h i (Q @ B))"
      using links_okD [of H h T P a "Q @ B" i] links ih by (auto simp: link_ok_def)
    show ?thesis
    proof (cases "i < T")
      case False
      then have "P = []" using left(1) ih lvl(2) by (cases P) auto
      then have low: "\<forall>b\<in>set (Q @ B). h b \<le> i" using left(1) lvl(2) False by force
      then have "\<forall>b\<in>set (Q @ x # B). ?h b \<le> i" using lvl(1) False by auto
      then have "fwd ?h i R = None" "fwd h i (Q @ B) = None" using low left(2) fwd_None by auto
      then show ?thesis using lv False ax lvl(1) by (auto simp: link_ok_def H' inserted_link_def)
    next
      case iT: True
      note un = ends_at_unique [OF us(1) [rule_format, OF iT] dA left(1) ih]
      show ?thesis
      proof (cases "\<exists>q\<in>set Q. i < h q")
        case True
        then have "fst (us ! i) \<noteq> a" using un(1) by auto
        moreover have "fwd ?h i R = fwd h i Q" "spn ?h i R = spn h i Q"
          using True ax(2) fwd_upd [OF ax(2)] by (auto simp: left(2) fwd_append spn_append split: if_splits)
        moreover have "fwd h i (Q @ B) = fwd h i Q" "spn h i (Q @ B) = spn h i Q" using True by (auto simp: fwd_append spn_append)
        ultimately show ?thesis using lv ax by (auto simp: link_ok_def H' inserted_link_def)
      next
        case False
        then have u: "fst (us ! i) = a" and r: "snd (us ! i) = length P" using un by (auto simp: not_less)
        have cr: "crossed us i = of_nat (length Q)" by (rule crossed_length [OF us(2) left(1) r])
        have noQ: "\<not> (\<exists>q\<in>set Q. i < ?h q)" using False ax(2) by auto
        have new: "fwd ?h i R = (if i < level then Some x else fwd h i B)" "spn ?h i R = (if i < level then Suc (length Q) else Suc (length Q + spn h i B))"
          using noQ xn by (auto simp: left(2) fwd_append spn_append fwd_upd fwd_Cons)
        have old: "fwd h i (Q @ B) = fwd h i B" "spn h i (Q @ B) = length Q + spn h i B" using False by (auto simp: fwd_append spn_append)
        show ?thesis using lv iT u cr ax new old by (auto simp: link_ok_def H' inserted_link_def)
      qed
    qed
  next
    case new
    then have il: "i < level" "i < T" using i lvl(1) by auto
    obtain P' Q' where u: "A = P' @ fst (us ! i) # Q'" "snd (us ! i) = length P'" "i < h (fst (us ! i))" "\<forall>b\<in>set Q'. h b \<le> i"
      using us(1) il(2) by (auto simp: ends_at_def)
    have cr: "crossed us i = of_nat (length Q')" by (rule crossed_length [OF us(2) u(1,2)])
    have "A @ B = P' @ fst (us ! i) # (Q' @ B)" using arg_cong [OF u(1), of "\<lambda>z. z @ B"] by simp
    then have "link_ok H h T (fst (us ! i)) (Q' @ B) i" using links u(3) links_okD by metis
    moreover have "fwd h i (Q' @ B) = fwd h i B" "spn h i (Q' @ B) = length Q' + spn h i B" using u(4) by (auto simp: fwd_append spn_append)
    ultimately have "new_link H us i = \<lparr>lv_forward = fwd h i B, lv_span = of_nat (spn h i B)\<rparr>"
      using il(2) cr by (auto simp: link_ok_def new_link_def Let_def)
    then show ?thesis using new il xn by (auto simp: link_ok_def H' inserted_link_def fwd_upd)
  next
    case (right Q)
    have ax: "a \<noteq> x" "a \<notin> set A" "x \<notin> set R" using right dist by auto
    have "A @ B = (A @ Q) @ a # R" using right(1) by simp
    then have "link_ok H h T a R i" using links_okD [of H h T "A @ Q" a R i] links i ax(1) by simp
    moreover have "fst (us ! i) \<noteq> a" if "i < T" using ends_at_in [OF us(1) [rule_format, OF that]] ax(2) by auto
    ultimately show ?thesis using ax lvl(1) by (auto simp: link_ok_def H' inserted_link_def fwd_upd)
  qed
qed

lemma random_loop_ge: "random_loop n rs = Some l \<Longrightarrow> n \<le> l"
  by (induction n rs rule: random_loop.induct) (auto split: if_splits)

lemma zslRandomLevel_bounds: "zslRandomLevel rs = Some l \<Longrightarrow> 1 \<le> l \<and> l \<le> ZSKIPLIST_MAXLEVEL"
  using random_loop_ge [of 1 rs] by (auto simp: zslRandomLevel_def split: if_splits)

text \<open>A condition that holds for a prefix cuts the list there.\<close>

lemma takeWhile_prefix:
  "sorted_wrt (\<lambda>a b. P b \<longrightarrow> P a) xs \<Longrightarrow> p < length xs \<Longrightarrow> P (xs ! p) \<longleftrightarrow> p < length (takeWhile P xs)"
proof (induction xs arbitrary: p)
  case (Cons x xs)
  then show ?case by (cases p) (auto dest: nth_mem)
qed simp

lemma cuts_prefix:
  assumes "ns \<noteq> []" "sorted_wrt (\<lambda>a b. P b \<longrightarrow> P a) (tl ns)" "\<And>p nd. 0 < p \<Longrightarrow> p < length ns \<Longrightarrow> H (ns ! p) = Some nd \<Longrightarrow> cond p nd = Some (P (ns ! p))"
    and "\<forall>a\<in>set (tl ns). H a \<noteq> None"
  shows "cuts cond H ns (Suc (length (takeWhile P (tl ns))))"
  unfolding cuts_def
proof (intro conjI allI impI)
  obtain y ys where ns: "ns = y # ys" using assms(1) by (cases ns) auto
  show "Suc (length (takeWhile P (tl ns))) \<le> length ns" using length_takeWhile_le [of P ys] by (simp add: ns)
  fix p assume p: "0 < p" "p < length ns"
  then obtain q where q: "p = Suc q" "q < length ys" using ns by (cases p) auto
  have "ns ! p \<in> set (tl ns)" using q ns by simp
  then obtain nd where nd: "H (ns ! p) = Some nd" using assms(4) by blast
  have "P (ns ! p) \<longleftrightarrow> p < Suc (length (takeWhile P (tl ns)))" using takeWhile_prefix [OF assms(2), of q] q ns by simp
  then show "\<exists>nd. H (ns ! p) = Some nd \<and> cond p nd = Some (p < Suc (length (takeWhile P (tl ns))))"
    using nd assms(3) [OF p nd] by auto
qed simp

abbreviation bwd :: "'s zheap \<Rightarrow> nat \<Rightarrow> nat option" where
  "bwd H b \<equiv> Option.bind (H b) zn_backward"

lemma backs_insert:
  assumes b: "backs_ok H (A @ B)" and d: "distinct (A @ B)" "x \<notin> set (A @ B)" "A \<noteq> []"
    and x: "bwd H' x = (if tl A = [] then None else Some (last A))" and f: "B \<noteq> [] \<Longrightarrow> bwd H' (hd B) = Some x"
    and rest: "\<And>b. b \<in> set (A @ B) \<Longrightarrow> B = [] \<or> b \<noteq> hd B \<Longrightarrow> bwd H' b = bwd H b"
  shows "backs_ok H' (A @ x # B)"
  unfolding backs_ok_def
proof (intro allI impI)
  fix P a b R assume "A @ x # B = P @ a # b # R"
  then have ns: "A @ x # B = (P @ [a]) @ b # R" by simp
  then show "bwd H' b = (if P = [] then None else Some a)"
  proof (cases rule: split_insert)
    case (left Q)
    have "b \<in> set A" "B = [] \<or> b \<noteq> hd B" using left(1) d by auto
    moreover have "A @ B = P @ a # b # (Q @ B)" using left by simp
    ultimately show ?thesis using rest b by (auto simp: backs_ok_def)
  next
    case new
    then have "A = P @ [a]" by simp
    then show ?thesis using x new(1) by (cases P) auto
  next
    case (right Q)
    show ?thesis
    proof (cases Q rule: rev_cases)
      case Nil
      then have "a = x" "P = A" "B = b # R" using right by auto
      then show ?thesis using f d(3) by auto
    next
      case (snoc Q' q)
      then have q: "B = Q' @ q # b # R" "P = A @ x # Q'" "a = q" using right by auto
      then have "A @ B = (A @ Q') @ a # b # R" by simp
      then have "bwd H b = Some a" using b d(3) unfolding backs_ok_def by (metis append_is_Nil_conv)
      moreover have "b \<noteq> hd B" using d(1) q by (cases Q') auto
      ultimately show ?thesis using rest [of b] q by auto
    qed
  qed
qed

lemma zsl_okD:
  assumes "zsl_ok z ns"
  obtains ns' where "ns = zsl_header z # ns'" "distinct ns" "dom (zsl_heap z) = set ns" "length ns' = zsl_length z" "height (zsl_heap z) (zsl_header z) = 32"
    "1 \<le> zsl_level z" "zsl_level z \<le> 32" "\<forall>a\<in>set ns'. 1 \<le> height (zsl_heap z) a \<and> height (zsl_heap z) a \<le> zsl_level z \<and> node_ok (zsl_heap z) a"
    "links_ok (zsl_heap z) (height (zsl_heap z)) (zsl_level z) ns" "backs_ok (zsl_heap z) ns"
    "Option.bind (zsl_heap z (zsl_header z)) zn_obj = None" "zsl_tail z = (if ns' = [] then None else Some (last ns))"
    "sorted_wrt key_less (map (node_item (zsl_heap z)) ns')" "items z ns = map (node_item (zsl_heap z)) ns'"
  using assms by (cases ns) (auto simp: zsl_ok_def items_def)

text \<open>A search in a well-formed list.\<close>

lemma zsl_search:
  assumes ok: "zsl_ok z ns" and len: "length ns < 2 ^ 32" and cut: "cuts cond (zsl_heap z) ns k"
  obtains us where "walk_levels cond (zsl_heap z) (zsl_level z) (zsl_header z) 0 = Some us" "length us = zsl_level z"
    "\<forall>i<zsl_level z. ends_at (height (zsl_heap z)) (take k ns) i (us ! i)" "us ! 0 = (last (take k ns), k - 1)"
proof -
  obtain ns' where z: "ns = zsl_header z # ns'" "height (zsl_heap z) (zsl_header z) = 32" "1 \<le> zsl_level z" "zsl_level z \<le> 32"
      "\<forall>a\<in>set ns'. 1 \<le> height (zsl_heap z) a" "links_ok (zsl_heap z) (height (zsl_heap z)) (zsl_level z) ns"
    using zsl_okD [OF ok] by metis
  have k: "0 < k" "k \<le> length ns" using cut by (auto simp: cuts_def)
  obtain us where us: "walk_levels cond (zsl_heap z) (zsl_level z) (zsl_header z) (length ([] :: nat list)) = Some us" "length us = zsl_level z"
      "\<forall>i<zsl_level z. ends_at (height (zsl_heap z)) (take k ns) i (us ! i)"
    using walk_levels_spec [OF z(6) len cut, of "zsl_level z" "[]" "zsl_header z" ns'] z k by auto
  obtain P Q where u0: "take k ns = P @ fst (us ! 0) # Q" "snd (us ! 0) = length P" "\<forall>b\<in>set Q. height (zsl_heap z) b \<le> 0"
    using us(3) [rule_format, of 0] z(3) by (auto simp: ends_at_def)
  have "set Q \<subseteq> set ns'"
  proof
    fix b assume "b \<in> set Q"
    moreover have "tl (take k ns) = tl P @ fst (us ! 0) # Q \<or> tl (take k ns) = Q" using u0(1) by (cases P) auto
    ultimately have "b \<in> set (tl (take k ns))" by auto
    then show "b \<in> set ns'" using z(1) k by (cases k) (auto dest: in_set_takeD)
  qed
  then have "Q = []" using u0(3) z(5) by (cases Q) force+
  then have "fst (us ! 0) = last (take k ns)" "length (take k ns) = Suc (length P)" using u0(1) by simp_all
  then have "fst (us ! 0) = last (take k ns)" "snd (us ! 0) = k - 1" using u0(2) k by auto
  then have "us ! 0 = (last (take k ns), k - 1)" by (metis prod.collapse)
  then show thesis using that us by simp
qed

lemma obj_before_item:
  assumes "member_ok obj" "node_ok H a" "H a = Some nd"
  shows "obj_before score obj p nd = Some (key_less (node_item H a) (score, content obj))"
proof -
  obtain ob where "zn_obj nd = Some ob" "member_ok ob" using assms(2,3) by (auto simp: node_ok_def)
  moreover have "compareStringObjects ob obj < 0 \<longleftrightarrow> ord_class.lexordp (content ob) (content obj)"
    using compareStringObjects_lex [of ob obj] assms(1) calculation(2) by (simp add: member_ok_def)
  ultimately show ?thesis using assms(3) by (auto simp: obj_before_def node_item_def key_less_def)
qed

definition rank_of :: "('s :: linorder) zskiplist \<Rightarrow> nat list \<Rightarrow> 's \<times> bytes \<Rightarrow> nat" where
  "rank_of z ns key = Suc (length (takeWhile (\<lambda>a. key_less (node_item (zsl_heap z) a) key) (tl ns)))"

lemma zsl_cut:
  assumes ok: "zsl_ok z ns" and obj: "member_ok obj"
  shows "cuts (obj_before score obj) (zsl_heap z) ns (rank_of z ns (score, content obj))"
proof -
  obtain ns' where z: "ns = zsl_header z # ns'" "\<forall>a\<in>set ns'. node_ok (zsl_heap z) a" "sorted_wrt key_less (map (node_item (zsl_heap z)) ns')"
    using zsl_okD [OF ok] by metis
  show ?thesis unfolding rank_of_def
  proof (rule cuts_prefix)
    show "sorted_wrt (\<lambda>a b. key_less (node_item (zsl_heap z) b) (score, content obj) \<longrightarrow> key_less (node_item (zsl_heap z) a) (score, content obj)) (tl ns)"
      using z(1,3) by (auto simp: sorted_wrt_map elim!: sorted_wrt_mono_rel [rotated] dest: key_less_trans)
    show "\<forall>a\<in>set (tl ns). zsl_heap z a \<noteq> None" using z(1,2) by (auto simp: node_ok_def)
    fix p nd assume p: "0 < p" "p < length ns" "zsl_heap z (ns ! p) = Some nd"
    then have "ns ! p \<in> set ns'" using z(1) by (cases p) auto
    then show "obj_before score obj p nd = Some (key_less (node_item (zsl_heap z) (ns ! p)) (score, content obj))"
      using obj_before_item [OF obj, of "zsl_heap z" "ns ! p" nd] p(3) z(2) by blast
  qed (use z in simp)
qed

lemma data_new: "data (H(x \<mapsto> zslCreateNode g level score (Some obj))) b =
    (if b = x then Some (Some obj, score, lv_forward g, level) else data H b)"
  by (simp add: data_def zslCreateNode_def)

lemma get_level_new: "get_level (H(x \<mapsto> zslCreateNode g level score (Some obj))) b j =
    (if b = x then if j < level then Some g else None else get_level H b j)"
  by (simp add: get_level_def zslCreateNode_def)

text \<open>The changes of the links of an insertion, up to the pointers backwards.\<close>

lemma insert_links:
  assumes ok: "zsl_ok z ns" and x: "zsl_heap z x = None" and level: "1 \<le> level" "level \<le> 32" and k: "0 < k" "k \<le> length ns"
    and us: "length us = zsl_level z" "\<forall>i<zsl_level z. ends_at (height (zsl_heap z)) (take k ns) i (us ! i)" "us ! 0 = (last (take k ns), k - 1)"
  defines "tp \<equiv> if level > zsl_level z then level else zsl_level z"
    and "us' \<equiv> us @ replicate (level - zsl_level z) (zsl_header z, 0)"
  shows "\<exists>H1 H2 H3. raise_header (zsl_heap z) (zsl_header z) (zsl_length z) [zsl_level z..<level] = Some H1 \<and>
    link_levels (H1(x \<mapsto> zslCreateNode g level score (Some obj))) x us' [0..<level] = Some H2 \<and> bump_levels H2 us' [level..<tp] = Some H3 \<and>
    (\<forall>b. data H3 b = (if b = x then Some (Some obj, score, lv_forward g, level) else data (zsl_heap z) b)) \<and>
    links_ok H3 ((height (zsl_heap z))(x := level)) tp (take k ns @ x # drop k ns)"
proof -
  obtain ns' where z: "ns = zsl_header z # ns'" "distinct ns" "dom (zsl_heap z) = set ns" "length ns' = zsl_length z" "height (zsl_heap z) (zsl_header z) = 32"
    "1 \<le> zsl_level z" "zsl_level z \<le> 32" "\<forall>a\<in>set ns'. height (zsl_heap z) a \<le> zsl_level z"
    "links_ok (zsl_heap z) (height (zsl_heap z)) (zsl_level z) ns"
    using zsl_okD [OF ok] by metis
  let ?H = "zsl_heap z" and ?h = "height (zsl_heap z)" and ?A = "take k ns" and ?B = "drop k ns" and ?hd = "zsl_header z"
  have tp: "zsl_level z \<le> tp" "level \<le> tp" "tp \<le> 32" "max level (zsl_level z) = tp" using level z(7) by (auto simp: tp_def)
  have levels: "get_level ?H b j \<noteq> None \<longleftrightarrow> j < ?h b" for b j by (auto simp: get_level_def height_def split: option.splits)
  obtain H1 where H1: "raise_header ?H ?hd (zsl_length z) [zsl_level z..<level] = Some H1" "data H1 = data ?H"
      "\<forall>b j. get_level H1 b j = (if b = ?hd \<and> j \<in> set [zsl_level z..<level]
         then map_option (\<lambda>lv. lv\<lparr>lv_span := of_nat (zsl_length z)\<rparr>) (get_level ?H b j) else get_level ?H b j)"
    using raise_header_effect [of "[zsl_level z..<level]" ?H ?hd "zsl_length z"] levels z(5) level by auto
  have links1: "links_ok H1 ?h tp ns"
    using links_raise [OF z(9) z(1,2,8), of "zsl_length z" H1 level] H1(3) z(4) tp(4) by (simp add: max.commute)
  have levels1: "get_level H1 b j \<noteq> None \<longleftrightarrow> j < ?h b" for b j using H1(3) levels [of b j] by auto
  have A: "?A \<noteq> []" "hd ?A = ?hd" "ns = ?A @ ?B" "?A = ?hd # tl ?A" using k z(1) by (cases k; auto)+
  have xns: "x \<notin> set ns" using x z(3) by auto
  have us': "ends_at ?h ?A i (us' ! i)" if "i < tp" for i
  proof (cases "i < zsl_level z")
    case True
    then show ?thesis using us(1,2) by (simp add: us'_def nth_append)
  next
    case False
    then have "us' ! i = (?hd, 0)" using that us(1) by (auto simp: us'_def nth_append tp_def split: if_splits)
    moreover have "\<forall>b\<in>set (tl ?A). ?h b \<le> i"
    proof
      fix b assume "b \<in> set (tl ?A)"
      then have "b \<in> set ns'" using z(1) k by (cases k) (auto dest: in_set_takeD)
      then show "?h b \<le> i" using z(8) False by force
    qed
    ultimately show ?thesis using A(4) z(5) that tp(3) by (auto simp: ends_at_def intro!: exI [of _ "[]"] exI [of _ "tl ?A"])
  qed
  have u: "fst (us' ! i) \<in> set ns" "fst (us' ! i) \<noteq> x" "i < ?h (fst (us' ! i))" if "i < tp" for i
    using ends_at_in [OF us' [OF that]] xns by (auto dest: in_set_takeD)
  define H2 where "H2 = H1(x \<mapsto> zslCreateNode g level score (Some obj))"
  note gl2 = get_level_new [of H1 x g level score obj, folded H2_def]
  have c2: "\<forall>i\<in>set [0..<level]. get_level H2 x i \<noteq> None \<and> get_level H2 (fst (us' ! i)) i \<noteq> None \<and> fst (us' ! i) \<noteq> x"
  proof
    fix i assume i: "i \<in> set [0..<level]"
    then have it: "i < tp" using tp(2) by simp
    show "get_level H2 x i \<noteq> None \<and> get_level H2 (fst (us' ! i)) i \<noteq> None \<and> fst (us' ! i) \<noteq> x"
      using u [OF it] i levels1 [of "fst (us' ! i)" i] by (simp add: gl2)
  qed
  obtain H3 where H3: "link_levels H2 x us' [0..<level] = Some H3" "data H3 = data H2"
     "\<forall>b j. get_level H3 b j = (if j \<in> set [0..<level] \<and> b = x then Some (new_link H2 us' j)
        else if j \<in> set [0..<level] \<and> b = fst (us' ! j) then Some \<lparr>lv_forward = Some x, lv_span = crossed us' j + 1\<rparr>
        else get_level H2 b j)"
    using link_levels_effect [OF _ c2] by auto
  have c3: "\<forall>i\<in>set [level..<tp]. get_level H3 (fst (us' ! i)) i \<noteq> None"
  proof
    fix i assume i: "i \<in> set [level..<tp]"
    then have it: "i < tp" by simp
    show "get_level H3 (fst (us' ! i)) i \<noteq> None" using u [OF it] i levels1 [of "fst (us' ! i)" i] by (simp add: H3(3) gl2)
  qed
  obtain H4 where H4: "bump_levels H3 us' [level..<tp] = Some H4" "data H4 = data H3"
     "\<forall>b j. get_level H4 b j = (if j \<in> set [level..<tp] \<and> b = fst (us' ! j) then map_option (\<lambda>lv. lv\<lparr>lv_span := lv_span lv + 1\<rparr>) (get_level H3 b j) else get_level H3 b j)"
    using bump_levels_effect [OF _ c3] by auto
  have nl: "new_link H2 us' j = new_link H1 us' j" if "j < level" for j
    using u(2) [of j] that tp(2) by (simp add: new_link_def gl2)
  have "get_level H4 b j = inserted_link H1 x level tp us' b j" if "b \<noteq> x \<or> j < level" for b j
    using that u(2) [of j] nl [of j] tp(2) by (auto simp: H4(3) H3(3) gl2 inserted_link_def cong: if_cong)
  moreover have "snd (us' ! 0) = length ?A - 1" using us(1,3) z(6) k by (simp add: us'_def nth_append)
  moreover have "\<forall>b\<in>set (tl (?A @ ?B)). ?h b \<le> tp" using z(1,8) tp(1) by auto
  ultimately have "links_ok H4 (?h(x := level)) tp (?A @ x # ?B)"
    using links_insert [of H1 ?h tp ?A ?B x us' level H4] links1 z(2) xns us' tp(2) A(1) by simp
  moreover have "data H4 b = (if b = x then Some (Some obj, score, lv_forward g, level) else data ?H b)" for b
    using H4(2) H3(2) H1(2) by (simp add: H2_def data_new)
  ultimately show ?thesis using H1(1) H3(1) H4(1) by (auto simp: H2_def)
qed

lemma sorted_insert:
  assumes "sorted_wrt key_less (map f xs)" "\<forall>a\<in>set xs. f a \<noteq> key"
  shows "sorted_wrt key_less (map f (takeWhile (\<lambda>a. key_less (f a) key) xs) @ key # map f (dropWhile (\<lambda>a. key_less (f a) key) xs))"
  using assms
proof (induction xs)
  case (Cons x xs)
  show ?case
  proof (cases "key_less (f x) key")
    case True
    have "\<forall>a\<in>set xs. key_less (f x) (f a)" using Cons.prems(1) by simp
    moreover have "set (takeWhile P xs) \<subseteq> set xs" "set (dropWhile P xs) \<subseteq> set xs" for P by (auto dest: set_takeWhileD set_dropWhileD)
    ultimately show ?thesis using True Cons by (auto simp: subset_iff)
  next
    case False
    then have "key_less key (f x)" using key_less_linear [of "f x" key] Cons.prems(2) by auto
    then show ?thesis using False Cons.prems(1) by (auto intro: key_less_trans)
  qed
qed simp

lemma zsl_ok_backward:
  assumes "H1 f \<noteq> None"
  obtains H2 where "set_backward H1 f p = Some H2" "get_level H2 = get_level H1" "\<And>b. height H2 b = height H1 b"
    "\<And>b. node_item H2 b = node_item H1 b" "\<And>b. node_ok H2 b = node_ok H1 b" "\<And>b. Option.bind (H2 b) zn_obj = Option.bind (H1 b) zn_obj"
    "\<And>b. bwd H2 b = (if b = f then p else bwd H1 b)" "dom H2 = dom H1"
proof -
  obtain nd where nd: "H1 f = Some nd" using assms by auto
  show thesis
    by (rule that [of "H1(f \<mapsto> nd\<lparr>zn_backward := p\<rparr>)"])
      (use nd in \<open>auto simp: set_backward_def get_level_def fun_eq_iff height_def node_item_def node_ok_def\<close>)
qed

lemma links_ok_cong: "get_level H' = get_level H \<Longrightarrow> links_ok H' h L ns = links_ok H h L ns"
  by (simp add: links_ok_def link_ok_def)

lemma zslInsert_ok:
  fixes z :: "('s :: linorder) zskiplist"
  assumes ok: "zsl_ok z ns" and len: "length ns < 2 ^ 32" and x: "zsl_heap z x = None" and level: "zslRandomLevel rs = Some level"
    and obj: "member_ok obj" and new: "(score, content obj) \<notin> set (items z ns)"
  defines "k \<equiv> rank_of z ns (score, content obj)"
  shows "\<exists>z'. zslInsert x g rs z score obj = Some (z', x) \<and> zsl_ok z' (take k ns @ x # drop k ns) \<and> 0 < k \<and> k \<le> length ns \<and>
    node_item (zsl_heap z') x = (score, content obj) \<and> (\<forall>a\<in>set ns. node_item (zsl_heap z') a = node_item (zsl_heap z) a) \<and> zsl_header z' = zsl_header z"
proof -
  obtain ns' where z: "ns = zsl_header z # ns'" "distinct ns" "dom (zsl_heap z) = set ns" "length ns' = zsl_length z" "height (zsl_heap z) (zsl_header z) = 32"
    "1 \<le> zsl_level z" "zsl_level z \<le> 32" "\<forall>a\<in>set ns'. 1 \<le> height (zsl_heap z) a \<and> height (zsl_heap z) a \<le> zsl_level z \<and> node_ok (zsl_heap z) a"
    "backs_ok (zsl_heap z) ns" "Option.bind (zsl_heap z (zsl_header z)) zn_obj = None" "zsl_tail z = (if ns' = [] then None else Some (last ns))"
    "sorted_wrt key_less (map (node_item (zsl_heap z)) ns')" "items z ns = map (node_item (zsl_heap z)) ns'"
    using zsl_okD [OF ok] by metis
  let ?H = "zsl_heap z" and ?A = "take k ns" and ?B = "drop k ns" and ?hd = "zsl_header z"
  have cut: "cuts (obj_before score obj) ?H ns k" unfolding k_def by (rule zsl_cut [OF ok obj])
  then have k: "0 < k" "k \<le> length ns" by (auto simp: cuts_def)
  have lv: "1 \<le> level" "level \<le> 32" using zslRandomLevel_bounds [OF level] by auto
  obtain us where us: "walk_levels (obj_before score obj) ?H (zsl_level z) ?hd 0 = Some us" "length us = zsl_level z"
      "\<forall>i<zsl_level z. ends_at (height ?H) ?A i (us ! i)" "us ! 0 = (last ?A, k - 1)"
    using zsl_search [OF ok len cut] .
  define tp where "tp = (if level > zsl_level z then level else zsl_level z)"
  define us' where "us' = us @ replicate (level - zsl_level z) (?hd, 0)"
  obtain H1 H2 H3 where H: "raise_header ?H ?hd (zsl_length z) [zsl_level z..<level] = Some H1"
      "link_levels (H1(x \<mapsto> zslCreateNode g level score (Some obj))) x us' [0..<level] = Some H2" "bump_levels H2 us' [level..<tp] = Some H3"
      "\<And>b. data H3 b = (if b = x then Some (Some obj, score, lv_forward g, level) else data ?H b)"
      "links_ok H3 ((height ?H)(x := level)) tp (?A @ x # ?B)"
    using insert_links [OF ok x lv k us(2,3,4), of g score obj] unfolding tp_def us'_def by blast
  have xns: "x \<notin> set ns" using x z(3) by auto
  have same: "height H3 b = height ?H b" "node_item H3 b = node_item ?H b" "node_ok H3 b = node_ok ?H b" "bwd H3 b = bwd ?H b"
      "Option.bind (H3 b) zn_obj = Option.bind (?H b) zn_obj" "(H3 b = None) = (?H b = None)" if "b \<noteq> x" for b
    using H(4) [of b] that data_cong [of H3 b ?H] by auto
  have dx: "data H3 x = Some (Some obj, score, lv_forward g, level)" using H(4) by simp
  then have xn: "H3 x \<noteq> None" "height H3 x = level" "node_item H3 x = (score, content obj)" "node_ok H3 x"
    using obj by (auto simp: data_def height_def node_item_def node_ok_def)
  have dom3: "dom H3 = insert x (set ns)"
  proof -
    have "b \<in> dom H3 \<longleftrightarrow> b = x \<or> b \<in> dom ?H" for b using same(6) [of b] xn(1) by (cases "b = x") (auto simp: domIff)
    then show ?thesis using z(3) by auto
  qed
  let ?p = "if fst (us' ! 0) = ?hd then None else Some (fst (us' ! 0))"
  obtain H4 where H4: "set_backward H3 x ?p = Some H4" "get_level H4 = get_level H3" "\<And>b. height H4 b = height H3 b"
      "\<And>b. node_item H4 b = node_item H3 b" "\<And>b. node_ok H4 b = node_ok H3 b" "\<And>b. Option.bind (H4 b) zn_obj = Option.bind (H3 b) zn_obj"
      "\<And>b. bwd H4 b = (if b = x then ?p else bwd H3 b)" "dom H4 = dom H3"
    by (rule zsl_ok_backward [of H3 x ?p, OF xn(1)]) (rule that)
  have A: "?A \<noteq> []" "?A = ?hd # tl ?A" "ns = ?A @ ?B" using k z(1) by (cases k; auto)+
  have dA: "distinct (?A @ ?B)" "x \<notin> set (?A @ ?B)" using z(2) xns by auto
  have u0: "us' ! 0 = (last ?A, k - 1)" using us(2,4) z(6) by (simp add: us'_def nth_append)
  have px: "?p = (if tl ?A = [] then None else Some (last ?A))"
  proof (cases "tl ?A = []")
    case True
    then show ?thesis using A(2) u0 by (metis fst_conv last.simps)
  next
    case False
    then have "last ?A \<in> set (tl ?A)" by (metis last_in_set last_tl)
    then have "last ?A \<noteq> ?hd" using dA(1) A(2) by (metis distinct.simps(2) distinct_append)
    then show ?thesis using False u0 by simp
  qed
  have h4: "height H4 = (height ?H)(x := level)" using H4(3) same(1) xn(2) by (auto simp: fun_eq_iff)
  have l4: "links_ok H4 (height H4) tp (?A @ x # ?B)" using H(5) links_ok_cong [OF H4(2)] h4 by simp
  obtain lx where lx: "get_level H4 x 0 = Some lx" "lv_forward lx = fwd (height H4) 0 ?B"
    using links_okD [OF l4, of 0] lv(1) by (auto simp: h4 link_ok_def)
  have f: "lv_forward lx = (case ?B of [] \<Rightarrow> None | b # _ \<Rightarrow> Some b)"
  proof (cases ?B)
    case (Cons b B)
    have "b \<in> set ?B" using Cons by simp
    moreover have "?B = drop (k - 1) ns'" using z(1) k(1) by (cases k) auto
    ultimately have b: "b \<in> set ns'" "b \<noteq> x" using dA(2) in_set_dropD [of b "k - 1" ns'] by auto
    then have "0 < height H4 b" using z(8) by (auto simp: h4)
    then show ?thesis using lx(2) Cons by (simp add: fwd_Cons)
  qed (use lx in \<open>simp add: fwd_def\<close>)
  obtain H5 tail where H5: "(case lv_forward lx of Some f \<Rightarrow> do { H \<leftarrow> set_backward H4 f (Some x); Some (H, zsl_tail z) } | None \<Rightarrow> Some (H4, Some x)) = Some (H5, tail)"
      "get_level H5 = get_level H4" "\<And>b. height H5 b = height H4 b" "\<And>b. node_item H5 b = node_item H4 b" "\<And>b. node_ok H5 b = node_ok H4 b"
      "\<And>b. Option.bind (H5 b) zn_obj = Option.bind (H4 b) zn_obj" "\<And>b. bwd H5 b = (if ?B \<noteq> [] \<and> b = hd ?B then Some x else bwd H4 b)" "dom H5 = dom H4"
      "tail = (if ?B = [] then Some x else zsl_tail z)"
  proof (cases ?B)
    case Nil
    then show thesis using f by (intro that [of H4 "Some x"]) auto
  next
    case (Cons b B)
    then have "b \<in> dom H4" using H4(8) dom3 in_set_dropD [of b k ns] by auto
    then have "H4 b \<noteq> None" by auto
    then obtain H5 where "set_backward H4 b (Some x) = Some H5" "get_level H5 = get_level H4" "\<And>c. height H5 c = height H4 c"
      "\<And>c. node_item H5 c = node_item H4 c" "\<And>c. node_ok H5 c = node_ok H4 c" "\<And>c. Option.bind (H5 c) zn_obj = Option.bind (H4 c) zn_obj"
      "\<And>c. bwd H5 c = (if c = b then Some x else bwd H4 c)" "dom H5 = dom H4"
      by (rule zsl_ok_backward [of H4 b "Some x"]) (rule that)
    then show thesis using f Cons by (intro that [of H5 "zsl_tail z"]) auto
  qed
  define z' where "z' = z\<lparr>zsl_heap := H5, zsl_tail := tail, zsl_length := zsl_length z + 1, zsl_level := tp\<rparr>"
  have run: "zslInsert x g rs z score obj = Some (z', x)"
    unfolding zslInsert_def us(1) level
    using H(1-3) H4(1) lx(1) H5(1) by (simp add: Let_def tp_def [symmetric] us'_def [symmetric] z'_def split del: if_split cong: if_cong)
  have h5: "height H5 = (height ?H)(x := level)" using H5(3) h4 by (auto simp: fun_eq_iff)
  have items5: "node_item H5 a = node_item ?H a" "node_ok H5 a = node_ok ?H a" if "a \<in> set ns" for a
    using that xns H5(4,5) H4(4,5) same(2,3) by metis+
  have x5: "node_item H5 x = (score, content obj)" "node_ok H5 x" using H5(4,5) H4(4,5) xn by simp_all
  have tw: "map (node_item H5) (tl (?A @ x # ?B)) = map (node_item ?H) (takeWhile (\<lambda>a. key_less (node_item ?H a) (score, content obj)) ns') @
      (score, content obj) # map (node_item ?H) (dropWhile (\<lambda>a. key_less (node_item ?H a) (score, content obj)) ns')"
  proof -
    have "tl (?A @ x # ?B) = takeWhile (\<lambda>a. key_less (node_item ?H a) (score, content obj)) ns' @ x # dropWhile (\<lambda>a. key_less (node_item ?H a) (score, content obj)) ns'"
      unfolding k_def rank_of_def z(1) by (simp add: takeWhile_eq_take [symmetric] dropWhile_eq_drop [symmetric])
    moreover have "set ns' \<subseteq> set ns" using z(1) by auto
    ultimately show ?thesis using items5(1) x5(1) by (auto dest!: set_takeWhileD set_dropWhileD)
  qed
  have tlset: "set (tl (?A @ x # ?B)) = insert x (set ns')"
  proof -
    have "set (tl (?A @ x # ?B)) = insert x (set (tl (?A @ ?B)))" using A(1) by (cases ?A) auto
    then show ?thesis using z(1) by simp
  qed
  have "zsl_ok z' (?A @ x # ?B)"
    unfolding zsl_ok_def
  proof (intro conjI)
    show "\<forall>a\<in>set (tl (?A @ x # ?B)). 1 \<le> height (zsl_heap z') a \<and> height (zsl_heap z') a \<le> zsl_level z' \<and> node_ok (zsl_heap z') a"
      unfolding tlset using z(1,8) x5(2) items5(2) h5 lv by (auto simp: z'_def tp_def)
    show "links_ok (zsl_heap z') (height (zsl_heap z')) (zsl_level z') (?A @ x # ?B)"
      using l4 links_ok_cong [OF H5(2)] h5 h4 by (simp add: z'_def)
    show "backs_ok (zsl_heap z') (?A @ x # ?B)"
    proof (rule backs_insert [of ?H])
      have hx: "?B = [] \<or> hd ?B \<noteq> x" using dA(2) hd_in_set [of ?B] unfolding set_append by blast
      show "bwd (zsl_heap z') x = (if tl ?A = [] then None else Some (last ?A))" using px H5(7) H4(7) hx by (auto simp: z'_def)
      fix b assume "b \<in> set (?A @ ?B)" "?B = [] \<or> b \<noteq> hd ?B"
      moreover from this have "b \<noteq> x" using dA(2) by blast
      ultimately show "bwd (zsl_heap z') b = bwd ?H b" using H5(7) H4(7) same(4) by (auto simp: z'_def)
    qed (use z(9) dA A(1) H5(7) in \<open>auto simp: z'_def\<close>)
    show "zsl_tail z' = (if tl (?A @ x # ?B) = [] then None else Some (last (?A @ x # ?B)))"
    proof -
      have ne: "tl (?A @ x # ?B) \<noteq> []" using A(1) by (cases ?A) simp_all
      have "zsl_tail z' = Some (last (?A @ x # ?B))"
      proof (cases "?B = []")
        case False
        then have "k < length ns" by simp
        then have "ns' \<noteq> []" using arg_cong [OF z(1), of length] k(1) by (cases "ns' = []") simp_all
        then show ?thesis using \<open>k < length ns\<close> z(11) H5(9) by (simp add: z'_def last_drop)
      qed (simp add: z'_def H5(9))
      then show ?thesis unfolding if_not_P [OF ne] .
    qed
    show "sorted_wrt key_less (map (node_item (zsl_heap z')) (tl (?A @ x # ?B)))"
    proof -
      have "\<forall>a\<in>set ns'. node_item ?H a \<noteq> (score, content obj)" using new unfolding z(13) by (metis image_eqI set_map)
      from sorted_insert [OF z(12) this] show ?thesis using tw by (simp add: z'_def)
    qed
    show "Option.bind (zsl_heap z' (zsl_header z')) zn_obj = None" using H5(6) H4(6) same(5) z(1,10) xns by (auto simp: z'_def)
    show "height (zsl_heap z') (zsl_header z') = ZSKIPLIST_MAXLEVEL" using h5 z(1,5) xns by (auto simp: z'_def)
    show "dom (zsl_heap z') = set (?A @ x # ?B)" using H5(8) H4(8) dom3 set_append [of ?A ?B] by (simp add: z'_def)
    have "distinct ?A" "distinct ?B" "set ?A \<inter> set ?B = {}" "x \<notin> set ?A" "x \<notin> set ?B"
      using dA unfolding distinct_append set_append Un_iff by blast+
    then show "distinct (?A @ x # ?B)" by auto
    show "hd (?A @ x # ?B) = zsl_header z'" using hd_append2 [OF A(1), of "x # ?B"] arg_cong [OF A(2), of hd] by (simp add: z'_def)
    show "length (?A @ x # ?B) = Suc (zsl_length z')" using k z(4) arg_cong [OF z(1), of length] by (simp add: z'_def)
  qed (use z(6,7) lv in \<open>auto simp: z'_def tp_def\<close>)
  then show ?thesis using run k x5(1) items5(1) by (intro exI [of _ z']) (auto simp: z'_def)
qed

end
