(* ===== verification/Skiplist_Ops.thy ===== *)
theory Skiplist_Ops
  imports Skiplist_Insert
begin

text \<open>
  Deletion from a well-formed skip list, the searches for the ends of a range, access by rank, and the
  deletion of a range with its entries in the dictionary.
\<close>

section \<open>Deletion\<close>

lemma split_delete:
  assumes "A @ B = P @ a # R"
  obtains (left) Q where "A = P @ a # Q" "R = Q @ B" | (right) Q where "B = Q @ a # R" "P = A @ Q"
proof -
  consider us where "A = P @ us" "us @ B = a # R" | us where "A @ us = P" "B = us @ a # R"
    using assms by (auto simp: append_eq_append_conv2)
  then show thesis
  proof cases
    case 1
    then show thesis using left right [of "[]"] by (cases us) auto
  next
    case 2
    then show thesis using right by auto
  qed
qed

lemma links_delete:
  assumes links: "links_ok H h L (A @ x # B)" and dist: "distinct (A @ x # B)" and us: "\<forall>i<L. ends_at h A i (us ! i)"
    and low: "\<forall>b\<in>set (tl (A @ x # B)). h b \<le> L" "A \<noteq> []"
    and H': "\<And>b j. get_level H' b j = (if j < L \<and> b = fst (us ! j) then Some (unlinked H x us j) else get_level H b j)"
  shows "links_ok H' h L (A @ B)"
  unfolding links_ok_def
proof (intro allI impI)
  fix P a R i assume ns: "A @ B = P @ a # R" and i: "i < h a"
  have dA: "distinct A" "x \<notin> set A" "x \<notin> set B" using dist by auto
  from ns show "link_ok H' h L a R i"
  proof (cases rule: split_delete)
    case (left Q)
    have "A @ x # B = P @ a # (Q @ x # B)" using left(1) by simp
    then obtain lv where lv: "get_level H a i = Some lv" "lv_forward lv = fwd h i (Q @ x # B)" "i < L \<longrightarrow> lv_span lv = of_nat (spn h i (Q @ x # B))"
      using links_okD [of H h L P a "Q @ x # B" i] links i by (auto simp: link_ok_def)
    show ?thesis
    proof (cases "i < L")
      case False
      then have "P = []" using left(1) i low by (cases P) auto
      then have "\<forall>b\<in>set (Q @ x # B). h b \<le> i" using left(1) low(1) False by force
      then have "fwd h i R = None" "fwd h i (Q @ x # B) = None" using left(2) fwd_None [of h i R] fwd_None [of h i "Q @ x # B"] by auto
      then show ?thesis using lv False by (auto simp: link_ok_def H')
    next
      case iL: True
      note un = ends_at_unique [OF us [rule_format, OF iL] dA(1) left(1) i]
      show ?thesis
      proof (cases "\<exists>q\<in>set Q. i < h q")
        case True
        then have "fst (us ! i) \<noteq> a" using un(1) by auto
        then show ?thesis using lv True by (auto simp: link_ok_def H' left(2) fwd_append spn_append)
      next
        case False
        then have u: "fst (us ! i) = a" using un by (auto simp: not_less)
        have old: "fwd h i (Q @ x # B) = (if i < h x then Some x else fwd h i B)"
            "spn h i (Q @ x # B) = (if i < h x then Suc (length Q) else Suc (length Q + spn h i B))"
          using False by (auto simp: fwd_append spn_append fwd_Cons)
        have new: "fwd h i R = fwd h i B" "spn h i R = length Q + spn h i B" using False by (auto simp: left(2) fwd_append spn_append)
        have "fwd h i B \<noteq> Some x" using fwd_Some [of h i B x] dA(3) by auto
        moreover have "i < h x \<Longrightarrow> get_level H x i = Some \<lparr>lv_forward = fwd h i B, lv_span = of_nat (spn h i B)\<rparr>"
          using links_okD [OF links] link_okD iL by blast
        ultimately show ?thesis using lv iL u old new by (auto simp: link_ok_def H' unlinked_def Let_def)
      qed
    qed
  next
    case (right Q)
    have "A @ x # B = (A @ x # Q) @ a # R" using right(1) by simp
    then have "link_ok H h L a R i" using links_okD [of H h L "A @ x # Q" a R i] links i by simp
    moreover have "a \<notin> set A" using right dist by auto
    then have "fst (us ! i) \<noteq> a" if "i < L" using ends_at_in [OF us [rule_format, OF that]] by auto
    ultimately show ?thesis by (auto simp: link_ok_def H')
  qed
qed

lemma backs_delete:
  assumes b: "backs_ok H (A @ x # B)" and d: "distinct (A @ x # B)" "A \<noteq> []"
    and f: "B \<noteq> [] \<Longrightarrow> bwd H' (hd B) = bwd H x" and rest: "\<And>b. b \<in> set (A @ B) \<Longrightarrow> B = [] \<or> b \<noteq> hd B \<Longrightarrow> bwd H' b = bwd H b"
  shows "backs_ok H' (A @ B)"
  unfolding backs_ok_def
proof (intro allI impI)
  fix P a b R assume "A @ B = P @ a # b # R"
  then have ns: "A @ B = (P @ [a]) @ b # R" by simp
  then show "bwd H' b = (if P = [] then None else Some a)"
  proof (cases rule: split_delete)
    case (left Q)
    have "b \<in> set A" "B = [] \<or> b \<noteq> hd B" using left(1) d by auto
    moreover have "A @ x # B = P @ a # b # (Q @ x # B)" using left by simp
    ultimately show ?thesis using rest b by (auto simp: backs_ok_def)
  next
    case (right Q)
    show ?thesis
    proof (cases Q rule: rev_cases)
      case Nil
      then have q: "A = P @ [a]" "B = b # R" using right by auto
      then have "A @ x # B = P @ a # x # (b # R)" by simp
      then show ?thesis using f q b by (auto simp: backs_ok_def)
    next
      case (snoc Q' q)
      then have q: "B = Q' @ q # b # R" "P = A @ Q'" "a = q" using right by auto
      then have "A @ x # B = (A @ x # Q') @ a # b # R" by simp
      then have "bwd H b = Some a" using b unfolding backs_ok_def by (metis append_is_Nil_conv list.distinct(1))
      moreover have "b \<noteq> hd B" using d(1) q by (cases Q') auto
      ultimately show ?thesis using rest [of b] q d(2) by auto
    qed
  qed
qed

lemma links_less: "links_ok H h L ns \<Longrightarrow> L' \<le> L \<Longrightarrow> links_ok H h L' ns"
  by (fastforce simp: links_ok_def link_ok_def)


lemma lower_level_spec:
  assumes links: "links_ok H h L (hdr # ns)" and h: "h hdr = 32" "L \<le> 32"
  shows "l \<le> L \<Longrightarrow> 1 \<le> l \<Longrightarrow> \<forall>b\<in>set ns. h b \<le> l \<Longrightarrow> \<exists>l'. lower_level H hdr l = Some l' \<and> 1 \<le> l' \<and> l' \<le> l \<and> (\<forall>b\<in>set ns. h b \<le> l')"
proof (induction l)
  case (Suc l)
  show ?case
  proof (cases l)
    case (Suc m)
    have "link_ok H h L hdr ns l" using links_okD [of H h L "[]" hdr ns l] links h Suc.prems(1) by simp
    then obtain lv where lv: "get_level H hdr l = Some lv" "lv_forward lv = fwd h l ns" by (auto simp: link_ok_def)
    show ?thesis
    proof (cases "fwd h l ns")
      case None
      then have "\<forall>b\<in>set ns. h b \<le> l" by (simp add: fwd_None)
      then show ?thesis using Suc.IH Suc.prems(1) lv None Suc by auto
    qed (use lv Suc Suc.prems in auto)
  qed (use Suc.prems in auto)
qed simp

lemma zslDeleteNode_ok:
  fixes z :: "('s :: linorder) zskiplist"
  assumes ok: "zsl_ok z (A @ x # B)" and A: "A \<noteq> []" and us: "\<forall>i<zsl_level z. ends_at (height (zsl_heap z)) A i (us ! i)"
  shows "\<exists>z1 z'. zslDeleteNode z x us = Some z1 \<and> zsl_heap z1 x \<noteq> None \<and> Option.bind (zsl_heap z1 x) zn_obj = Option.bind (zsl_heap z x) zn_obj \<and>
    free_node z1 x = Some z' \<and> zsl_ok z' (A @ B) \<and>
    (\<forall>a\<in>set (A @ B). node_item (zsl_heap z') a = node_item (zsl_heap z) a \<and> height (zsl_heap z') a = height (zsl_heap z) a) \<and>
    zsl_header z' = zsl_header z \<and> zsl_level z' \<le> zsl_level z"
proof -
  let ?H = "zsl_heap z" and ?hd = "zsl_header z" and ?h = "height (zsl_heap z)" and ?ns = "A @ x # B"
  obtain ns' where z: "?ns = ?hd # ns'" "distinct ?ns" "dom ?H = set ?ns" "length ns' = zsl_length z" "?h ?hd = 32"
    "1 \<le> zsl_level z" "zsl_level z \<le> 32" "\<forall>a\<in>set ns'. 1 \<le> ?h a \<and> ?h a \<le> zsl_level z \<and> node_ok ?H a"
    "links_ok ?H ?h (zsl_level z) ?ns" "backs_ok ?H ?ns" "Option.bind (?H ?hd) zn_obj = None" "zsl_tail z = (if ns' = [] then None else Some (last ?ns))"
    "sorted_wrt key_less (map (node_item ?H) ns')"
    using zsl_okD [OF ok] by metis
  obtain A' where A': "A = ?hd # A'" "ns' = A' @ x # B" using z(1) A by (cases A) auto
  have dist: "x \<notin> set A" "x \<notin> set B" "distinct (A @ B)" "distinct A" using z(2) by auto
  have levels: "get_level ?H b j \<noteq> None \<longleftrightarrow> j < ?h b" for b j by (auto simp: get_level_def height_def split: option.splits)
  have c1: "\<forall>i\<in>set [0..<zsl_level z]. fst (us ! i) \<noteq> x \<and>
      (\<exists>ulv. get_level ?H (fst (us ! i)) i = Some ulv \<and> (lv_forward ulv = Some x \<longrightarrow> get_level ?H x i \<noteq> None))"
  proof
    fix i assume "i \<in> set [0..<zsl_level z]"
    then have i: "i < zsl_level z" by simp
    then obtain P Q where u: "A = P @ fst (us ! i) # Q" "i < ?h (fst (us ! i))" using us by (auto simp: ends_at_def)
    have "?ns = P @ fst (us ! i) # (Q @ x # B)" using arg_cong [OF u(1), of "\<lambda>l. l @ x # B"] by simp
    then have "link_ok ?H ?h (zsl_level z) (fst (us ! i)) (Q @ x # B) i" using links_okD z(9) u(2) by metis
    moreover have "fwd ?h i (Q @ x # B) = Some x \<Longrightarrow> i < ?h x" using fwd_Some [of ?h i "Q @ x # B" x] by auto
    moreover have "fst (us ! i) \<noteq> x" using dist(1) arg_cong [OF u(1), of set] by auto
    ultimately show "fst (us ! i) \<noteq> x \<and> (\<exists>ulv. get_level ?H (fst (us ! i)) i = Some ulv \<and> (lv_forward ulv = Some x \<longrightarrow> get_level ?H x i \<noteq> None))"
      using levels [of x i] by (auto simp: link_ok_def)
  qed
  obtain H1 where H1: "unlink_levels ?H x us [0..<zsl_level z] = Some H1" "data H1 = data ?H"
      "\<And>b j. get_level H1 b j = (if j < zsl_level z \<and> b = fst (us ! j) then Some (unlinked ?H x us j) else get_level ?H b j)"
    using unlink_levels_effect [OF _ c1] by auto
  have same: "height H1 b = ?h b" "node_item H1 b = node_item ?H b" "node_ok H1 b = node_ok ?H b" "bwd H1 b = bwd ?H b"
      "Option.bind (H1 b) zn_obj = Option.bind (?H b) zn_obj" "(H1 b = None) = (?H b = None)" for b
    using data_cong [of H1 b ?H] H1(2) by auto
  have l1: "links_ok H1 ?h (zsl_level z) (A @ B)"
    by (rule links_delete [OF z(9,2) us _ A H1(3)]) (use z(8) A' in auto)
  have x1: "?h x \<ge> 1" "x \<in> set ns'" using z(8) A' by auto
  obtain xn where xn: "H1 x = Some xn" using same(6) [of x] z(3) by auto
  have lx: "get_level H1 x 0 = Some \<lparr>lv_forward = fwd ?h 0 B, lv_span = of_nat (spn ?h 0 B)\<rparr>"
  proof -
    have "fst (us ! 0) \<noteq> x" using c1 z(6) by simp
    then show ?thesis using links_okD [OF z(9), of 0] link_okD [of ?H ?h "zsl_level z" x B 0] x1 z(6) by (simp add: H1(3))
  qed
  have f: "fwd ?h 0 B = (case B of [] \<Rightarrow> None | b # _ \<Rightarrow> Some b)" using z(8) A' by (cases B) (auto simp: fwd_Cons fwd_def)
  have xb: "zn_backward xn = (if A' = [] then None else Some (last A))"
  proof -
    obtain P a where P: "A = P @ [a]" using A by (cases A rule: rev_cases) auto
    then have "bwd ?H x = (if P = [] then None else Some a)" using z(10) by (auto simp: backs_ok_def)
    then show ?thesis using same(4) [of x] xn P A'(1) by (cases P) auto
  qed
  obtain H2 tail where H2: "(case fwd ?h 0 B of Some f \<Rightarrow> do { H \<leftarrow> set_backward H1 f (zn_backward xn); Some (H, zsl_tail z) } | None \<Rightarrow> Some (H1, zn_backward xn)) = Some (H2, tail)"
      "get_level H2 = get_level H1" "\<And>b. height H2 b = height H1 b" "\<And>b. node_item H2 b = node_item H1 b" "\<And>b. node_ok H2 b = node_ok H1 b"
      "\<And>b. Option.bind (H2 b) zn_obj = Option.bind (H1 b) zn_obj" "\<And>b. bwd H2 b = (if B \<noteq> [] \<and> b = hd B then zn_backward xn else bwd H1 b)" "dom H2 = dom H1"
      "tail = (if B = [] then zn_backward xn else zsl_tail z)"
  proof (cases B)
    case Nil
    then show thesis using f by (intro that [of H1 "zn_backward xn"]) auto
  next
    case (Cons b B')
    then have nb: "H1 b \<noteq> None" using same(6) [of b] z(3) by auto
    obtain H5 where "set_backward H1 b (zn_backward xn) = Some H5" "get_level H5 = get_level H1" "\<And>c. height H5 c = height H1 c"
      "\<And>c. node_item H5 c = node_item H1 c" "\<And>c. node_ok H5 c = node_ok H1 c" "\<And>c. Option.bind (H5 c) zn_obj = Option.bind (H1 c) zn_obj"
      "\<And>c. bwd H5 c = (if c = b then zn_backward xn else bwd H1 c)" "dom H5 = dom H1"
      by (rule zsl_ok_backward [of H1 b "zn_backward xn", OF nb]) (rule that)
    then show thesis using f Cons by (intro that [of H5 "zsl_tail z"]) auto
  qed
  have h2: "height H2 = ?h" using H2(3) same(1) by (auto simp: fun_eq_iff)
  have l2: "links_ok H2 ?h (zsl_level z) (?hd # (A' @ B))" using l1 links_ok_cong [OF H2(2)] A'(1) by simp
  obtain l where l: "lower_level H2 ?hd (zsl_level z) = Some l" "1 \<le> l" "l \<le> zsl_level z" "\<forall>b\<in>set (A' @ B). ?h b \<le> l"
    using lower_level_spec [OF l2 z(5,7), of "zsl_level z"] z(6,8) A'(2) by auto
  define z1 where "z1 = z\<lparr>zsl_heap := H2, zsl_tail := tail, zsl_length := zsl_length z - 1, zsl_level := l\<rparr>"
  have run: "zslDeleteNode z x us = Some z1"
    unfolding zslDeleteNode_def H1(1) by (simp add: lx xn H2(1) l(1) z1_def)
  have x2: "H2 x \<noteq> None" using H2(8) xn by auto
  define H3 where "H3 = H2(x := None)"
  define z' where "z' = z1\<lparr>zsl_heap := H3\<rparr>"
  have free: "free_node z1 x = Some z'" using x2 by (simp add: free_node_def zslFreeNode_def z'_def z1_def H3_def)
  have s3: "height H3 b = ?h b" "node_item H3 b = node_item ?H b" "node_ok H3 b = node_ok ?H b" "bwd H3 b = bwd H2 b"
      "Option.bind (H3 b) zn_obj = Option.bind (?H b) zn_obj" "get_level H3 b j = get_level H2 b j" if "b \<noteq> x" for b j
    using that H2(3-6) [of b] same [of b] by (auto simp: H3_def height_def node_item_def node_ok_def get_level_def)
  have notx: "a \<noteq> x" if "a \<in> set (A @ B)" for a using that dist by auto
  have l3: "links_ok H3 (height H3) l (A @ B)"
    unfolding links_ok_def
  proof (intro allI impI)
    fix P a R i assume ns: "A @ B = P @ a # R" and i: "i < height H3 a"
    have "a \<in> set (A @ B)" "set R \<subseteq> set (A @ B)" unfolding ns by auto
    then have a: "a \<noteq> x" "x \<notin> set R" using dist by auto
    have "link_ok H2 ?h l a R i" using links_less [OF l2 l(3)] i s3(1) [OF a(1)] ns A'(1) links_okD by (metis append_Cons)
    moreover have "fwd (height H3) i R = fwd ?h i R \<and> spn (height H3) i R = spn ?h i R" by (rule fwd_cong) (use s3(1) a in metis)
    ultimately show "link_ok H3 (height H3) l a R i" using s3(6) [OF a(1)] by (simp add: link_ok_def)
  qed
  have "zsl_ok z' (A @ B)"
    unfolding zsl_ok_def
  proof (intro conjI)
    show "dom (zsl_heap z') = set (A @ B)" using H2(8) same(6) z(3) dist by (auto simp: z'_def H3_def domIff dom_def)
    show "length (A @ B) = Suc (zsl_length z')" using z(4) A' by (simp add: z'_def z1_def)
    show "links_ok (zsl_heap z') (height (zsl_heap z')) (zsl_level z') (A @ B)" using l3 by (simp add: z'_def z1_def)
    show "backs_ok (zsl_heap z') (A @ B)"
    proof (rule backs_delete [OF z(10,2) A])
      show "bwd (zsl_heap z') (hd B) = bwd ?H x" if "B \<noteq> []"
      proof -
        have "hd B \<noteq> x" using dist(2) hd_in_set [OF that] by metis
        then show ?thesis using that s3(4) [of "hd B"] H2(7) same(4) [of x] xn by (simp add: z'_def)
      qed
      fix b assume "b \<in> set (A @ B)" "B = [] \<or> b \<noteq> hd B"
      then show "bwd (zsl_heap z') b = bwd ?H b" using notx s3(4) H2(7) same(4) by (auto simp: z'_def)
    qed
    show "\<forall>a\<in>set (tl (A @ B)). 1 \<le> height (zsl_heap z') a \<and> height (zsl_heap z') a \<le> zsl_level z' \<and> node_ok (zsl_heap z') a"
    proof
      fix a assume a: "a \<in> set (tl (A @ B))"
      then have "a \<in> set (A' @ B)" "a \<noteq> x" using A'(1) dist by auto
      then show "1 \<le> height (zsl_heap z') a \<and> height (zsl_heap z') a \<le> zsl_level z' \<and> node_ok (zsl_heap z') a"
        using z(8) A'(2) l(4) s3(1,3) by (auto simp: z'_def z1_def)
    qed
    show "zsl_tail z' = (if tl (A @ B) = [] then None else Some (last (A @ B)))"
      using H2(9) xb z(12) A' by (auto simp: z'_def z1_def)
    have hx: "?hd \<noteq> x" using dist(1) A'(1) by auto
    show "height (zsl_heap z') (zsl_header z') = ZSKIPLIST_MAXLEVEL" using s3(1) [OF hx] z(5) by (simp add: z'_def z1_def)
    show "Option.bind (zsl_heap z' (zsl_header z')) zn_obj = None" using s3(5) [OF hx] z(11) by (simp add: z'_def z1_def)
    have "map (node_item H3) (A' @ B) = map (node_item ?H) (A' @ B)"
    proof (rule map_cong [OF refl])
      fix a assume "a \<in> set (A' @ B)"
      then have "a \<noteq> x" using notx A'(1) by auto
      then show "node_item H3 a = node_item ?H a" by (rule s3(2))
    qed
    moreover have "sorted_wrt key_less (map (node_item ?H) (A' @ B))" using z(13) A'(2) by (auto simp: sorted_wrt_append)
    moreover have "tl (A @ B) = A' @ B" "zsl_heap z' = H3" using A'(1) by (simp_all add: z'_def)
    ultimately show "sorted_wrt key_less (map (node_item (zsl_heap z')) (tl (A @ B)))" by metis
  qed (use A A' dist(3) l(2,3) z(7) in \<open>auto simp: z'_def z1_def\<close>)
  moreover have "Option.bind (zsl_heap z1 x) zn_obj = Option.bind (?H x) zn_obj" using H2(6) same(5) by (simp add: z1_def)
  ultimately show ?thesis using run free x2 notx s3(1,2) l(3)
    by (intro exI [of _ z1] exI [of _ z']) (simp add: z1_def z'_def)
qed

section \<open>Ranges and ranks\<close>

lemma zsl_node:
  assumes "zsl_ok z ns" "0 < p" "p < length ns"
  obtains nd ob where "zsl_heap z (ns ! p) = Some nd" "zn_obj nd = Some ob" "member_ok ob" "node_item (zsl_heap z) (ns ! p) = (zn_score nd, content ob)"
    "ns ! p \<in> set (tl ns)"
proof -
  obtain ns' where z: "ns = zsl_header z # ns'" "\<forall>a\<in>set ns'. node_ok (zsl_heap z) a" using zsl_okD [OF assms(1)] by metis
  then have "ns ! p \<in> set ns'" using assms(2,3) by (cases p) auto
  then show thesis using that z by (auto simp: node_ok_def node_item_def)
qed

lemma next_of_spec:
  assumes ok: "zsl_ok z ns" and k: "0 < k" "k \<le> length ns" "us ! 0 = (last (take k ns), k - 1)"
  shows "next_of z us = Some (if k < length ns then Some (ns ! k) else None)"
proof -
  obtain ns' where z: "ns = zsl_header z # ns'" "height (zsl_heap z) (zsl_header z) = 32" "1 \<le> zsl_level z"
      "\<forall>a\<in>set ns'. 1 \<le> height (zsl_heap z) a" "links_ok (zsl_heap z) (height (zsl_heap z)) (zsl_level z) ns"
    using zsl_okD [OF ok] by metis
  have lt: "k - 1 < length ns" using k by simp
  have l: "last (take k ns) = ns ! (k - 1)" using k(1,2) by (cases k) (simp_all add: take_Suc_conv_app_nth)
  have ns: "ns = take (k - 1) ns @ ns ! (k - 1) # drop k ns" using id_take_nth_drop [OF lt] k(1) by simp
  have pos: "0 < height (zsl_heap z) a" if "a \<in> set ns" for a using that z(1,2,4) by auto
  then have "0 < height (zsl_heap z) (ns ! (k - 1))" using lt by simp
  then have "link_ok (zsl_heap z) (height (zsl_heap z)) (zsl_level z) (ns ! (k - 1)) (drop k ns) 0" using links_okD ns z(5) by metis
  moreover have "fwd (height (zsl_heap z)) 0 (drop k ns) = (if k < length ns then Some (ns ! k) else None)"
  proof (cases "k < length ns")
    case True
    then have "drop k ns = ns ! k # drop (Suc k) ns" by (simp add: Cons_nth_drop_Suc)
    then show ?thesis using True pos [of "ns ! k"] by (simp add: fwd_Cons)
  qed (simp add: fwd_def)
  ultimately show ?thesis using k(3) l by (auto simp: next_of_def link_ok_def)
qed

text \<open>
  A range: \<open>gte\<close> holds from some node on, \<open>lte\<close> up to some node. These are the properties of the
  two bounds of both kinds of range.
\<close>

definition bound_ok :: "('s zskiplistNode \<Rightarrow> bool option) \<Rightarrow> 's zheap \<Rightarrow> (nat \<Rightarrow> bool) \<Rightarrow> nat list \<Rightarrow> bool" where
  "bound_ok f H P ns \<longleftrightarrow> (\<forall>a\<in>set (tl ns). \<exists>nd. H a = Some nd \<and> f nd = Some (P a))"

lemma bound_nth: "bound_ok f H P ns \<Longrightarrow> 0 < p \<Longrightarrow> p < length ns \<Longrightarrow> \<exists>nd. H (ns ! p) = Some nd \<and> f nd = Some (P (ns ! p))"
  by (cases ns; cases p) (auto simp: bound_ok_def)

lemma cuts_bound:
  assumes "bound_ok f H P ns" "ns \<noteq> []" "sorted_wrt (\<lambda>a b. P b \<longrightarrow> P a) (tl ns)"
  shows "cuts (\<lambda>k. f) H ns (Suc (length (takeWhile P (tl ns))))"
proof (rule cuts_prefix [OF assms(2,3)])
  show "\<forall>a\<in>set (tl ns). H a \<noteq> None" using assms(1) unfolding bound_ok_def by blast
  fix p nd assume p: "0 < p" "p < length ns" "H (ns ! p) = Some nd"
  then show "f nd = Some (P (ns ! p))" using bound_nth [OF assms(1) p(1,2)] by simp
qed

lemma bound_not: "bound_ok f H P ns \<Longrightarrow> bound_ok (\<lambda>nd. map_option Not (f nd)) H (\<lambda>a. \<not> P a) ns"
  unfolding bound_ok_def by fastforce

lemma ends_in_range_spec:
  assumes ok: "zsl_ok z ns" and g: "bound_ok gte (zsl_heap z) G ns" and l: "bound_ok lte (zsl_heap z) L ns"
  shows "ends_in_range gte lte z = Some (tl ns \<noteq> [] \<and> G (last ns) \<and> L (hd (tl ns)))"
proof -
  obtain ns' where z: "ns = zsl_header z # ns'" "zsl_tail z = (if ns' = [] then None else Some (last ns))" using zsl_okD [OF ok] by metis
  have lv: "map_option lv_forward (get_level (zsl_heap z) (zsl_header z) 0) = Some (if ns' = [] then None else Some (hd ns'))"
    using next_of_spec [OF ok, of 1 "[(zsl_header z, 0)]"] z(1) by (cases ns') (simp_all add: next_of_def)
  then obtain lv where lv: "get_level (zsl_heap z) (zsl_header z) 0 = Some lv" "lv_forward lv = (if ns' = [] then None else Some (hd ns'))" by auto
  show ?thesis
  proof (cases "ns' = []")
    case True
    then show ?thesis using z by (simp add: ends_in_range_def)
  next
    case False
    then have "last ns \<in> set (tl ns)" "hd ns' \<in> set (tl ns)" using z(1) by auto
    then obtain tn fn where "zsl_heap z (last ns) = Some tn" "gte tn = Some (G (last ns))" "zsl_heap z (hd ns') = Some fn" "lte fn = Some (L (hd ns'))"
      using g l unfolding bound_ok_def by blast
    then show ?thesis using False z lv by (auto simp: ends_in_range_def)
  qed
qed

lemma first_from_spec:
  assumes ok: "zsl_ok z ns" "length ns < 2 ^ 32" and g: "bound_ok gte (zsl_heap z) G ns" and l: "bound_ok lte (zsl_heap z) L ns"
    and mono: "sorted_wrt (\<lambda>a b. G a \<longrightarrow> G b) (tl ns)" "sorted_wrt (\<lambda>a b. L b \<longrightarrow> L a) (tl ns)" and ex: "\<exists>a\<in>set (tl ns). G a"
  shows "first_from gte lte z = Some (find (\<lambda>a. G a \<and> L a) (tl ns))"
proof -
  let ?k = "Suc (length (takeWhile (\<lambda>a. \<not> G a) (tl ns)))"
  have ne: "ns \<noteq> []" using ok(1) by (simp add: zsl_ok_def)
  have cut: "cuts (\<lambda>k nd. map_option Not (gte nd)) (zsl_heap z) ns ?k"
    by (rule cuts_bound [OF bound_not [OF g] ne]) (use mono(1) in \<open>auto elim: sorted_wrt_mono_rel [rotated]\<close>)
  have kle: "?k < length ns"
  proof -
    have "length (takeWhile (\<lambda>a. \<not> G a) (tl ns)) < length (tl ns)"
      using ex takeWhile_eq_all_conv [of "\<lambda>a. \<not> G a" "tl ns"] length_takeWhile_le [of "\<lambda>a. \<not> G a" "tl ns"]
      by (metis le_neq_implies_less takeWhile_eq_take take_all_iff order_refl)
    then show ?thesis by simp
  qed
  obtain us where us: "walk_levels (\<lambda>k nd. map_option Not (gte nd)) (zsl_heap z) (zsl_level z) (zsl_header z) 0 = Some us"
      "us ! 0 = (last (take ?k ns), ?k - 1)"
    using zsl_search [OF ok cut] by metis
  have nx: "next_of z us = Some (Some (ns ! ?k))" using next_of_spec [OF ok(1) _ _ us(2)] kle by simp
  obtain nd where nd: "zsl_heap z (ns ! ?k) = Some nd" "lte nd = Some (L (ns ! ?k))" using bound_nth [OF l _ kle] by auto
  have x: "ns ! ?k = tl ns ! length (takeWhile (\<lambda>a. \<not> G a) (tl ns))" using kle by (simp add: nth_tl)
  have "find (\<lambda>a. G a \<and> L a) (tl ns) = (if L (ns ! ?k) then Some (ns ! ?k) else None)"
  proof -
    have split: "tl ns = takeWhile (\<lambda>a. \<not> G a) (tl ns) @ ns ! ?k # drop ?k (tl ns)" (is "_ = ?T @ _ # ?D")
      using id_take_nth_drop [of "length (takeWhile (\<lambda>a. \<not> G a) (tl ns))" "tl ns"] kle x by (simp add: takeWhile_eq_take [symmetric])
    have T: "\<forall>a\<in>set ?T. \<not> G a" by (auto dest: set_takeWhileD)
    have Gx: "G (ns ! ?k)" using nth_length_takeWhile [of "\<lambda>a. \<not> G a" "tl ns"] kle x by simp
    have "sorted_wrt (\<lambda>a b. L b \<longrightarrow> L a) (?T @ ns ! ?k # ?D)" using mono(2) split by metis
    then have D: "\<not> L (ns ! ?k) \<Longrightarrow> \<forall>a\<in>set ?D. \<not> L a" by (auto simp: sorted_wrt_append)
    have f: "find P (xs @ ys) = (case find P xs of None \<Rightarrow> find P ys | Some v \<Rightarrow> Some v)" for P and xs ys :: "nat list"
      by (induction xs) auto
    have "find (\<lambda>a. G a \<and> L a) ?T = None" using T by (auto simp: find_None_iff)
    moreover have "\<not> L (ns ! ?k) \<Longrightarrow> find (\<lambda>a. G a \<and> L a) ?D = None" using D by (auto simp: find_None_iff)
    ultimately have "find (\<lambda>a. G a \<and> L a) (?T @ ns ! ?k # ?D) = (if L (ns ! ?k) then Some (ns ! ?k) else None)"
      using Gx f [of _ ?T "ns ! ?k # ?D"] by auto
    then show ?thesis using split by metis
  qed
  then show ?thesis using us(1) nx nd by (simp add: first_from_def)
qed

lemma last_upto_spec:
  assumes ok: "zsl_ok z ns" "length ns < 2 ^ 32" and g: "bound_ok gte (zsl_heap z) G ns" and l: "bound_ok lte (zsl_heap z) L ns"
    and mono: "sorted_wrt (\<lambda>a b. G a \<longrightarrow> G b) (tl ns)" "sorted_wrt (\<lambda>a b. L b \<longrightarrow> L a) (tl ns)" and ne: "tl ns \<noteq> []" "L (hd (tl ns))"
  shows "last_upto gte lte z = Some (find (\<lambda>a. G a \<and> L a) (rev (tl ns)))"
proof -
  let ?T = "takeWhile L (tl ns)" and ?D = "dropWhile L (tl ns)"
  have nn: "ns \<noteq> []" using ok(1) by (simp add: zsl_ok_def)
  have cut: "cuts (\<lambda>k. lte) (zsl_heap z) ns (Suc (length ?T))" by (rule cuts_bound [OF l nn mono(2)])
  obtain us where us: "walk_levels (\<lambda>k. lte) (zsl_heap z) (zsl_level z) (zsl_header z) 0 = Some us" "us ! 0 = (last (take (Suc (length ?T)) ns), Suc (length ?T) - 1)"
    using zsl_search [OF ok cut] by metis
  have T: "?T \<noteq> []" using ne by (cases "tl ns") auto
  then obtain T' x where x: "?T = T' @ [x]" by (cases ?T rule: rev_cases) auto
  have "take (Suc (length ?T)) ns = hd ns # ?T" using nn by (cases ns) (simp_all add: takeWhile_eq_take [symmetric])
  then have u: "fst (us ! 0) = x" using us(2) x by simp
  have xin: "x \<in> set (tl ns)" using x set_takeWhileD [of x L "tl ns"] by auto
  obtain nd where nd: "zsl_heap z x = Some nd" "gte nd = Some (G x)" using g xin by (auto simp: bound_ok_def)
  have split: "tl ns = (T' @ [x]) @ ?D" using x by (metis takeWhile_dropWhile_id)
  have Lx: "L x" "\<forall>a\<in>set T'. L a" using x set_takeWhileD [of _ L "tl ns"] by auto
  have D: "\<forall>a\<in>set ?D. \<not> L a"
  proof (cases ?D)
    case (Cons y D')
    have "\<not> L y" using hd_dropWhile [of L "tl ns"] Cons by simp
    moreover have "sorted_wrt (\<lambda>a b. L b \<longrightarrow> L a) ?D" using mono(2) split by (metis sorted_wrt_append)
    ultimately show ?thesis using Cons by auto
  next
    case Nil
    then show ?thesis by (metis empty_iff list.set(1))
  qed
  have "sorted_wrt (\<lambda>a b. G a \<longrightarrow> G b) ((T' @ [x]) @ ?D)" using mono(1) split by metis
  then have G: "\<not> G x \<Longrightarrow> \<forall>a\<in>set T'. \<not> G a" by (auto simp: sorted_wrt_append)
  have f: "find P (xs @ ys) = (case find P xs of None \<Rightarrow> find P ys | Some v \<Rightarrow> Some v)" for P and xs ys :: "nat list"
    by (induction xs) auto
  have "find (\<lambda>a. G a \<and> L a) (rev ?D) = None" using D by (auto simp: find_None_iff)
  moreover have "\<not> G x \<Longrightarrow> find (\<lambda>a. G a \<and> L a) (rev T') = None" using G by (auto simp: find_None_iff)
  ultimately have "find (\<lambda>a. G a \<and> L a) (rev ((T' @ [x]) @ ?D)) = (if G x then Some x else None)" using Lx(1) by (simp add: f)
  then have "find (\<lambda>a. G a \<and> L a) (rev (tl ns)) = (if G x then Some x else None)" using split by metis
  then show ?thesis using us(1) u nd by (simp add: last_upto_def)
qed

text \<open>The score of a node and the two bounds of a range of scores.\<close>

abbreviation node_score :: "'s zskiplist \<Rightarrow> nat \<Rightarrow> 's" where
  "node_score z a \<equiv> fst (node_item (zsl_heap z) a)"

lemma score_bounds:
  assumes ok: "zsl_ok z ns"
  shows "bound_ok (score_gte rng) (zsl_heap z) (\<lambda>a. zslValueGteMin (node_score z a) rng) ns"
    "bound_ok (score_lte rng) (zsl_heap z) (\<lambda>a. zslValueLteMax (node_score z a) rng) ns"
    "sorted_wrt (\<lambda>a b. node_score z a \<le> node_score z b) (tl ns)"
proof -
  obtain ns' where z: "ns = zsl_header z # ns'" "\<forall>a\<in>set ns'. node_ok (zsl_heap z) a" "sorted_wrt key_less (map (node_item (zsl_heap z)) ns')"
    using zsl_okD [OF ok] by metis
  show "bound_ok (score_gte rng) (zsl_heap z) (\<lambda>a. zslValueGteMin (node_score z a) rng) ns"
    "bound_ok (score_lte rng) (zsl_heap z) (\<lambda>a. zslValueLteMax (node_score z a) rng) ns"
    using z(1,2) by (force simp: bound_ok_def node_ok_def node_item_def score_gte_def score_lte_def)+
  show "sorted_wrt (\<lambda>a b. node_score z a \<le> node_score z b) (tl ns)"
    using z(1,3) by (auto simp: sorted_wrt_map key_less_def elim!: sorted_wrt_mono_rel [rotated])
qed

lemma score_mono:
  "u \<le> v \<Longrightarrow> zslValueGteMin u rng \<Longrightarrow> zslValueGteMin v rng" "u \<le> v \<Longrightarrow> zslValueLteMax v rng \<Longrightarrow> zslValueLteMax u rng"
  by (auto simp: zslValueGteMin_def zslValueLteMax_def split: if_splits)

definition score_in_range :: "('s :: linorder) zrangespec \<Rightarrow> 's \<Rightarrow> bool" where
  "score_in_range rng v \<longleftrightarrow> zslValueGteMin v rng \<and> zslValueLteMax v rng"

lemma sorted_wrt_ends:
  assumes "sorted_wrt R xs" "a \<in> set xs"
  shows "a = last xs \<or> R a (last xs)" "a = hd xs \<or> R (hd xs) a"
proof -
  show "a = hd xs \<or> R (hd xs) a" using assms by (cases xs) auto
  obtain ys y where "xs = ys @ [y]" using assms(2) by (cases xs rule: rev_cases) auto
  then show "a = last xs \<or> R a (last xs)" using assms by (auto simp: sorted_wrt_append)
qed

lemma range_searches:
  assumes ok: "zsl_ok z ns" "length ns < 2 ^ 32"
  shows "zslFirstInRange z rng = Some (find (\<lambda>a. score_in_range rng (node_score z a)) (tl ns))"
    "zslLastInRange z rng = Some (find (\<lambda>a. score_in_range rng (node_score z a)) (rev (tl ns)))"
proof -
  let ?G = "\<lambda>a. zslValueGteMin (node_score z a) rng" and ?L = "\<lambda>a. zslValueLteMax (node_score z a) rng"
  note b = score_bounds [OF ok(1)]
  have mono: "sorted_wrt (\<lambda>a b. ?G a \<longrightarrow> ?G b) (tl ns)" "sorted_wrt (\<lambda>a b. ?L b \<longrightarrow> ?L a) (tl ns)"
    using b(3) by (auto elim!: sorted_wrt_mono_rel [rotated] intro: score_mono)
  have lt: "tl ns \<noteq> [] \<Longrightarrow> last ns = last (tl ns)" by (cases ns) auto
  show "zslFirstInRange z rng = Some (find (\<lambda>a. score_in_range rng (node_score z a)) (tl ns))"
    "zslLastInRange z rng = Some (find (\<lambda>a. score_in_range rng (node_score z a)) (rev (tl ns)))"
  proof -
    consider (empty) "zr_min rng > zr_max rng \<or> zr_min rng = zr_max rng \<and> (zr_minex rng \<or> zr_maxex rng)"
      | (out) "\<not> (zr_min rng > zr_max rng \<or> zr_min rng = zr_max rng \<and> (zr_minex rng \<or> zr_maxex rng))" "\<not> (tl ns \<noteq> [] \<and> ?G (last ns) \<and> ?L (hd (tl ns)))"
      | (ins) "\<not> (zr_min rng > zr_max rng \<or> zr_min rng = zr_max rng \<and> (zr_minex rng \<or> zr_maxex rng))" "tl ns \<noteq> []" "?G (last ns)" "?L (hd (tl ns))" by blast
    then have "zslFirstInRange z rng = Some (find (\<lambda>a. ?G a \<and> ?L a) (tl ns)) \<and> zslLastInRange z rng = Some (find (\<lambda>a. ?G a \<and> ?L a) (rev (tl ns)))"
    proof cases
      case empty
      then have "\<not> (zslValueGteMin v rng \<and> zslValueLteMax v rng)" for v by (auto simp: zslValueGteMin_def zslValueLteMax_def split: if_splits)
      then have "find (\<lambda>a. ?G a \<and> ?L a) xs = None" for xs unfolding find_None_iff by blast
      then show ?thesis using empty by (simp add: zslFirstInRange_def zslLastInRange_def zslIsInRange_def)
    next
      case out
      have "\<not> (?G a \<and> ?L a)" if "a \<in> set (tl ns)" for a
      proof
        assume a: "?G a \<and> ?L a"
        have ne: "tl ns \<noteq> []" using that by auto
        have "?G (last ns)" using a sorted_wrt_ends(1) [OF b(3) that] score_mono(1) lt [OF ne] by metis
        moreover have "?L (hd (tl ns))" using a sorted_wrt_ends(2) [OF b(3) that] score_mono(2) by metis
        ultimately show False using out(2) ne by blast
      qed
      then have "find (\<lambda>a. ?G a \<and> ?L a) (tl ns) = None" "find (\<lambda>a. ?G a \<and> ?L a) (rev (tl ns)) = None" unfolding find_None_iff set_rev by blast+
      then show ?thesis using out ends_in_range_spec [OF ok(1) b(1,2), of rng rng] by (simp add: zslFirstInRange_def zslLastInRange_def zslIsInRange_def)
    next
      case ins
      have "\<exists>a\<in>set (tl ns). ?G a" using ins lt by (metis last_in_set)
      then show ?thesis
        using ins ends_in_range_spec [OF ok(1) b(1,2), of rng rng] first_from_spec [OF ok b(1,2) mono] last_upto_spec [OF ok b(1,2) mono ins(2,4)]
        by (auto simp: zslFirstInRange_def zslLastInRange_def zslIsInRange_def)
    qed
    then show "zslFirstInRange z rng = Some (find (\<lambda>a. score_in_range rng (node_score z a)) (tl ns))"
      "zslLastInRange z rng = Some (find (\<lambda>a. score_in_range rng (node_score z a)) (rev (tl ns)))" by (simp_all add: score_in_range_def)
  qed
qed

lemma scan_levels_spec:
  assumes links: "links_ok H h L ns" and len: "length ns < 2 ^ 32" and cut: "cuts cond H ns k"
    and found: "\<And>p. p < k \<Longrightarrow> found (ns ! p) p = Some (Q p)" and pos: "\<forall>a\<in>set ns. 0 < h a"
  shows "n \<le> L \<Longrightarrow> ns = P @ x # R \<Longrightarrow> length P < k \<Longrightarrow> n \<le> h x \<Longrightarrow>
    \<exists>res. scan_levels cond found H n x (length P) = Some res \<and>
      (case res of Some (u, r) \<Rightarrow> r < k \<and> u = ns ! r \<and> Q r | None \<Rightarrow> n = 0 \<or> \<not> Q (k - 1))"
proof (induction n arbitrary: P x R)
  case (Suc n)
  have kl: "k \<le> length ns" using cut by (simp add: cuts_def)
  obtain u where u: "walk_level cond H n x (length P) = Some u" "ends_at h (take k ns) n u"
    using walk_spec [OF links _ len cut Suc.prems(2,3), of n] Suc.prems(1,4) by auto
  then obtain P' Q' where pq: "take k ns = P' @ fst u # Q'" "snd u = length P'" "n < h (fst u)" "\<forall>b\<in>set Q'. h b \<le> n" by (auto simp: ends_at_def)
  have ns: "ns = P' @ fst u # (Q' @ drop k ns)" using pq(1) by (metis append.assoc append_Cons append_take_drop_id)
  have lt: "length P' < k" using arg_cong [OF pq(1), of length] by simp
  have un: "fst u = ns ! length P'" using ns by (metis nth_append_length)
  have f: "found (fst u) (snd u) = Some (Q (length P'))" using found [OF lt] un pq(2) by simp
  show ?case
  proof (cases "Q (length P')")
    case True
    then show ?thesis using u(1) f lt un pq(2) by (intro exI [of _ "Some u"]) (auto split: prod.splits)
  next
    case False
    have "n \<le> h (fst u)" "n \<le> L" using pq(3) Suc.prems(1) by simp_all
    then obtain res where res: "scan_levels cond found H n (fst u) (length P') = Some res"
        "case res of Some (u, r) \<Rightarrow> r < k \<and> u = ns ! r \<and> Q r | None \<Rightarrow> n = 0 \<or> \<not> Q (k - 1)"
      using Suc.IH [OF _ ns lt] by blast
    have "\<not> Q (k - 1)" if "n = 0"
    proof -
      have "set Q' \<subseteq> set ns" using arg_cong [OF pq(1), of set] set_take_subset [of k ns] by auto
      then have "Q' = []" using pq(4) pos that by (cases Q') force+
      then have "k = Suc (length P')" using arg_cong [OF pq(1), of length] kl by simp
      then show ?thesis using False by simp
    qed
    then show ?thesis using u(1) f False pq(2) res by (intro exI [of _ res]) (auto split: prod.splits option.splits)
  qed
qed simp

lemma zsl_heights_pos: "zsl_ok z ns \<Longrightarrow> \<forall>a\<in>set ns. 0 < height (zsl_heap z) a"
  by (erule zsl_okD) auto

lemma zsl_scan:
  assumes ok: "zsl_ok z ns" and len: "length ns < 2 ^ 32" and cut: "cuts cond (zsl_heap z) ns k"
    and found: "\<And>p. p < k \<Longrightarrow> found (ns ! p) p = Some (Q p)"
  shows "\<exists>res. scan_levels cond found (zsl_heap z) (zsl_level z) (zsl_header z) 0 = Some res \<and>
      (case res of Some (u, r) \<Rightarrow> r < k \<and> u = ns ! r \<and> Q r | None \<Rightarrow> \<not> Q (k - 1))"
proof -
  obtain ns' where z: "ns = [] @ zsl_header z # ns'" "height (zsl_heap z) (zsl_header z) = 32" "1 \<le> zsl_level z" "zsl_level z \<le> 32"
      "links_ok (zsl_heap z) (height (zsl_heap z)) (zsl_level z) ns"
    using zsl_okD [OF ok] by (metis append_Nil)
  have "0 < k" using cut by (simp add: cuts_def)
  then show ?thesis using scan_levels_spec [of "zsl_heap z" "height (zsl_heap z)" "zsl_level z" ns cond k found Q, OF z(5) len cut found zsl_heights_pos [OF ok] order_refl z(1)] z(2-4)
    by (auto split: option.splits)
qed

lemma zslGetElementByRank_ok:
  assumes ok: "zsl_ok z ns" and len: "length ns < 2 ^ 32"
  shows "zslGetElementByRank z rank = Some (if rank < length ns then Some (ns ! rank) else None)"
proof -
  let ?k = "min (Suc rank) (length ns)"
  have ne: "ns \<noteq> []" "\<forall>a\<in>set (tl ns). zsl_heap z a \<noteq> None" using ok by (auto simp: zsl_ok_def node_ok_def)
  have "cuts (\<lambda>traversed nd. Some (traversed \<le> rank)) (zsl_heap z) ns ?k"
    unfolding cuts_def
  proof (intro conjI allI impI)
    fix p assume p: "0 < p" "p < length ns"
    obtain nd where "zsl_heap z (ns ! p) = Some nd" by (rule zsl_node [OF ok p])
    then show "\<exists>nd. zsl_heap z (ns ! p) = Some nd \<and> Some (p \<le> rank) = Some (p < ?k)" using p by auto
  qed (use ne in auto)
  from zsl_scan [OF ok len this, of "\<lambda>x traversed. Some (traversed = rank)" "\<lambda>p. p = rank"]
  obtain res where res: "scan_levels (\<lambda>traversed nd. Some (traversed \<le> rank)) (\<lambda>x traversed. Some (traversed = rank)) (zsl_heap z) (zsl_level z) (zsl_header z) 0 = Some res"
      "case res of Some (u, r) \<Rightarrow> r < ?k \<and> u = ns ! r \<and> r = rank | None \<Rightarrow> ?k - 1 \<noteq> rank" by auto
  have "map_option fst res = (if rank < length ns then Some (ns ! rank) else None)"
    using res(2) ne by (cases res) (auto split: prod.splits)
  then show ?thesis using res(1) by (simp add: zslGetElementByRank_def)
qed

lemma obj_upto_item:
  assumes "member_ok obj" "zn_obj nd = Some ob" "member_ok ob"
  shows "obj_upto score obj p nd = Some (\<not> key_less (score, content obj) (zn_score nd, content ob))"
proof -
  have "compareStringObjects ob obj \<le> 0 \<longleftrightarrow> ord_class.lexordp (content ob) (content obj) \<or> content ob = content obj"
    using compareStringObjects_lex [of ob obj] compareStringObjects_zero [of ob obj] assms by (auto simp: member_ok_def)
  moreover have "\<dots> \<longleftrightarrow> \<not> ord_class.lexordp (content obj) (content ob)"
    using lexordp_linear [of "content ob" "content obj"] lexordp_antisym [of "content ob" "content obj"] lexordp_irreflexive' [of "content ob"] by auto
  ultimately show ?thesis using assms(2) by (auto simp: obj_upto_def key_less_def)
qed

lemma zslGetRank_ok:
  assumes ok: "zsl_ok z ns" and len: "length ns < 2 ^ 32" and obj: "member_ok obj" and dist: "distinct (map snd (items z ns))"
  shows "p < length (items z ns) \<Longrightarrow> items z ns ! p = (score, content obj) \<Longrightarrow> zslGetRank z score obj = Some (Suc p)"
    "content obj \<notin> snd ` set (items z ns) \<Longrightarrow> zslGetRank z score obj = Some 0"
proof -
  obtain ns' where z: "ns = zsl_header z # ns'" "Option.bind (zsl_heap z (zsl_header z)) zn_obj = None" "dom (zsl_heap z) = set ns"
      "sorted_wrt key_less (map (node_item (zsl_heap z)) ns')" "items z ns = map (node_item (zsl_heap z)) ns'"
    using zsl_okD [OF ok] by metis
  let ?C = "\<lambda>a. \<not> key_less (score, content obj) (node_item (zsl_heap z) a)"
  let ?k = "Suc (length (takeWhile ?C (tl ns)))"
  let ?Q = "\<lambda>p. 0 < p \<and> snd (node_item (zsl_heap z) (ns ! p)) = content obj"
  have cut: "cuts (obj_upto score obj) (zsl_heap z) ns ?k"
  proof (rule cuts_prefix)
    show "sorted_wrt (\<lambda>a b. ?C b \<longrightarrow> ?C a) (tl ns)"
      using z(1,4) by (auto simp: sorted_wrt_map elim!: sorted_wrt_mono_rel [rotated] dest: key_less_trans)
    show "\<forall>a\<in>set (tl ns). zsl_heap z a \<noteq> None" using z(1,3) by (auto simp: domIff)
    fix p nd assume p: "0 < p" "p < length ns" "zsl_heap z (ns ! p) = Some nd"
    obtain ob where "zn_obj nd = Some ob" "member_ok ob" "node_item (zsl_heap z) (ns ! p) = (zn_score nd, content ob)"
      using zsl_node [OF ok p(1,2)] p(3) by (metis option.inject)
    then show "obj_upto score obj p nd = Some (?C (ns ! p))" using obj_upto_item [OF obj] by metis
  qed (use z in simp)
  have kl: "?k \<le> length ns" using cut by (simp add: cuts_def)
  have found: "same_obj (zsl_heap z) obj (ns ! p) p = Some (?Q p)" if "p < ?k" for p
  proof (cases "p = 0")
    case True
    obtain hn where "zsl_heap z (zsl_header z) = Some hn" using z(1,3) by (metis domD list.set_intros(1))
    then show ?thesis using z(1,2) True by (simp add: same_obj_def)
  next
    case False
    have p: "0 < p" "p < length ns" using False that kl by simp_all
    obtain nd ob where nd: "zsl_heap z (ns ! p) = Some nd" "zn_obj nd = Some ob" "member_ok ob" "node_item (zsl_heap z) (ns ! p) = (zn_score nd, content ob)"
      by (rule zsl_node [OF ok p])
    have "equalStringObjects ob obj \<longleftrightarrow> content ob = content obj" using equalStringObjects_content [of ob obj] nd(3) obj by (simp add: member_ok_def)
    then show ?thesis using nd False by (simp add: same_obj_def)
  qed
  obtain res where res: "scan_levels (obj_upto score obj) (same_obj (zsl_heap z) obj) (zsl_heap z) (zsl_level z) (zsl_header z) 0 = Some res"
      "case res of Some (u, r) \<Rightarrow> r < ?k \<and> u = ns ! r \<and> ?Q r | None \<Rightarrow> \<not> ?Q (?k - 1)"
    using zsl_scan [of z ns "obj_upto score obj" ?k "same_obj (zsl_heap z) obj" ?Q, OF ok len cut found] by blast
  have item: "node_item (zsl_heap z) (ns ! Suc q) = items z ns ! q" if "q < length ns'" for q using z(1,5) that by simp
  show "zslGetRank z score obj = Some 0" if no: "content obj \<notin> snd ` set (items z ns)"
  proof -
    have "\<not> ?Q r" if "r < ?k" for r
    proof (cases r)
      case (Suc q)
      then have "q < length ns'" using that kl z(1) by simp
      then have "node_item (zsl_heap z) (ns ! r) \<in> set (items z ns)" using z(1,5) Suc by simp
      then show ?thesis using no by (metis image_eqI)
    qed simp
    then have "res = None" using res(2) by (cases res) auto
    then show ?thesis using res(1) by (simp add: zslGetRank_def)
  qed
  show "zslGetRank z score obj = Some (Suc p)" if p: "p < length (items z ns)" "items z ns ! p = (score, content obj)"
  proof -
    have pl: "p < length ns'" using p(1) z(5) by simp
    have uniq: "r = Suc p" if r: "r < length ns" "?Q r" for r
    proof -
      obtain q where q: "r = Suc q" "q < length ns'" using r z(1) by (cases r) auto
      then have "map snd (items z ns) ! q = map snd (items z ns) ! p" using r item p(2) z(5) pl by simp
      then have "q = p" using nth_eq_iff_index_eq [OF dist, of q p] q(2) pl z(5) by (metis length_map)
      then show ?thesis using q(1) by simp
    qed
    have "ns' ! p \<in> set ns'" using pl by simp
    have ik: "node_item (zsl_heap z) (ns' ! p) = (score, content obj)" using item [OF pl] p(2) z(1) by simp
    have "takeWhile ?C ns' = take (Suc p) ns'"
    proof (rule takeWhile_eq_take_P_nth)
      fix i assume i: "i < Suc p" "i < length ns'"
      show "?C (ns' ! i)"
      proof (cases "i = p")
        case False
        then have "key_less (node_item (zsl_heap z) (ns' ! i)) (node_item (zsl_heap z) (ns' ! p))"
          using z(4) i pl sorted_wrt_nth_less [of key_less "map (node_item (zsl_heap z)) ns'" i p] by simp
        then show ?thesis using ik key_less_trans [of "(score, content obj)" "node_item (zsl_heap z) (ns' ! i)" "(score, content obj)"] by auto
      qed (simp add: ik)
    next
      assume l: "Suc p < length ns'"
      show "\<not> ?C (ns' ! Suc p)"
        using z(4) l sorted_wrt_nth_less [of key_less "map (node_item (zsl_heap z)) ns'" p "Suc p"] ik by simp
    qed
    then have "?k = Suc (Suc p)" using pl z(1) by simp
    then have "?Q (?k - 1)" using ik z(1) by simp
    then obtain u r where "res = Some (u, r)" "r < ?k" "?Q r" using res(2) by (cases res) auto
    then show ?thesis using res(1) uniq [of r] kl by (simp add: zslGetRank_def)
  qed
qed

section \<open>Deleting ranges\<close>

definition zcond :: "(nat \<Rightarrow> 's zskiplistNode \<Rightarrow> bool option) \<Rightarrow> (nat \<Rightarrow> 's \<times> bytes \<Rightarrow> bool) \<Rightarrow> bool" where
  "zcond cond C \<longleftrightarrow> (\<forall>r nd ob. zn_obj nd = Some ob \<longrightarrow> member_ok ob \<longrightarrow> cond r nd = Some (C r (zn_score nd, content ob)))"

lemma zslDelete_ok:
  fixes z :: "('s :: linorder) zskiplist"
  assumes ok: "zsl_ok z ns" "length ns < 2 ^ 32" and obj: "member_ok obj"
  shows "(score, content obj) \<in> set (items z ns) \<Longrightarrow>
      \<exists>A x B z'. ns = A @ x # B \<and> A \<noteq> [] \<and> node_item (zsl_heap z) x = (score, content obj) \<and> zslDelete z score obj = Some (z', True) \<and> zsl_ok z' (A @ B) \<and>
        (\<forall>a\<in>set (A @ B). node_item (zsl_heap z') a = node_item (zsl_heap z) a) \<and> zsl_header z' = zsl_header z"
    "(score, content obj) \<notin> set (items z ns) \<Longrightarrow> zslDelete z score obj = Some (z, False)"
proof -
  obtain ns' where z: "ns = zsl_header z # ns'" "sorted_wrt key_less (map (node_item (zsl_heap z)) ns')" "items z ns = map (node_item (zsl_heap z)) ns'"
    using zsl_okD [OF ok(1)] by metis
  let ?k = "rank_of z ns (score, content obj)"
  note cut = zsl_cut [OF ok(1) obj, of score]
  have k: "0 < ?k" "?k \<le> length ns" using cut by (auto simp: cuts_def)
  obtain us where us: "walk_levels (obj_before score obj) (zsl_heap z) (zsl_level z) (zsl_header z) 0 = Some us"
      "\<forall>i<zsl_level z. ends_at (height (zsl_heap z)) (take ?k ns) i (us ! i)" "us ! 0 = (last (take ?k ns), ?k - 1)"
    using zsl_search [OF ok cut] by metis
  note nx = next_of_spec [OF ok(1) k us(3)]
  let ?P = "\<lambda>a. key_less (node_item (zsl_heap z) a) (score, content obj)"
  have xk: "\<not> ?P (ns ! ?k)" if "?k < length ns"
    using nth_length_takeWhile [of ?P ns'] that z(1) by (simp add: rank_of_def)
  have eq: "(if score = zn_score nd then map_option (\<lambda>xo. equalStringObjects xo obj) (zn_obj nd) else Some False) =
      Some (node_item (zsl_heap z) (ns ! ?k) = (score, content obj))" if lt: "?k < length ns" and hn: "zsl_heap z (ns ! ?k) = Some nd" for nd
  proof -
    obtain nd' ob where "zsl_heap z (ns ! ?k) = Some nd'" "zn_obj nd' = Some ob" "member_ok ob" "node_item (zsl_heap z) (ns ! ?k) = (zn_score nd', content ob)"
      by (rule zsl_node [OF ok(1) k(1) lt])
    then show ?thesis using hn equalStringObjects_content [of ob obj] obj by (auto simp: member_ok_def)
  qed
  show "zslDelete z score obj = Some (z, False)" if no: "(score, content obj) \<notin> set (items z ns)"
  proof (cases "?k < length ns")
    case True
    obtain nd where nd: "zsl_heap z (ns ! ?k) = Some nd" "ns ! ?k \<in> set (tl ns)" by (rule zsl_node [OF ok(1) k(1) True])
    then have "node_item (zsl_heap z) (ns ! ?k) \<noteq> (score, content obj)" using no z(1,3) by (metis image_eqI list.sel(3) set_map)
    then show ?thesis using us(1) nx True nd(1) eq [OF True nd(1)] by (simp add: zslDelete_def)
  qed (use us(1) nx in \<open>simp add: zslDelete_def\<close>)
  show "\<exists>A x B z'. ns = A @ x # B \<and> A \<noteq> [] \<and> node_item (zsl_heap z) x = (score, content obj) \<and> zslDelete z score obj = Some (z', True) \<and> zsl_ok z' (A @ B) \<and>
        (\<forall>a\<in>set (A @ B). node_item (zsl_heap z') a = node_item (zsl_heap z) a) \<and> zsl_header z' = zsl_header z"
    if yes: "(score, content obj) \<in> set (items z ns)"
  proof -
    obtain p where p: "p < length ns'" "node_item (zsl_heap z) (ns' ! p) = (score, content obj)" using yes z(3) by (auto simp: in_set_conv_nth)
    have "takeWhile ?P ns' = take p ns'"
    proof (rule takeWhile_eq_take_P_nth)
      fix i assume i: "i < p" "i < length ns'"
      then show "?P (ns' ! i)" using sorted_wrt_nth_less [OF z(2), of i p] p by simp
    qed (simp add: p)
    then have kp: "?k = Suc p" "?k < length ns" using p(1) z(1) by (simp_all add: rank_of_def)
    let ?x = "ns ! ?k" and ?A = "take ?k ns" and ?B = "drop (Suc ?k) ns"
    have split: "ns = ?A @ ?x # ?B" using id_take_nth_drop [OF kp(2)] .
    have ix: "node_item (zsl_heap z) ?x = (score, content obj)" using p(2) kp(1) z(1) by simp
    obtain nd where nd: "zsl_heap z ?x = Some nd" by (rule zsl_node [OF ok(1) k(1) kp(2)])
    have okA: "zsl_ok z (?A @ ?x # ?B)" using ok(1) split by simp
    have A: "?A \<noteq> []" using k z(1) by simp
    obtain z1 z' where z': "zslDeleteNode z ?x us = Some z1" "free_node z1 ?x = Some z'" "zsl_ok z' (?A @ ?B)"
        "\<forall>a\<in>set (?A @ ?B). node_item (zsl_heap z') a = node_item (zsl_heap z) a \<and> height (zsl_heap z') a = height (zsl_heap z) a" "zsl_header z' = zsl_header z"
      using zslDeleteNode_ok [OF okA A us(2)] by blast
    have "zslDelete z score obj = Some (z', True)"
      using us(1) nx kp(2) nd eq [OF kp(2) nd] ix z'(1,2) by (simp add: zslDelete_def)
    then show ?thesis using split A ix z'(3-5) by blast
  qed
qed

lemma delete_while_ok:
  fixes z :: "('s :: linorder) zskiplist"
  assumes c: "zcond cond C"
  shows "zsl_ok z (A @ M @ R) \<Longrightarrow> A \<noteq> [] \<Longrightarrow> \<forall>i<zsl_level z. ends_at (height (zsl_heap z)) A i (us ! i) \<Longrightarrow> dict_ok hf d \<Longrightarrow>
    \<forall>j<length M. C (r + j) (node_item (zsl_heap z) (M ! j)) \<Longrightarrow> R = [] \<or> \<not> C (r + length M) (node_item (zsl_heap z) (hd R)) \<Longrightarrow>
    \<exists>z' d'. delete_while cond hf us (case M @ R of [] \<Rightarrow> None | b # _ \<Rightarrow> Some b) r z d = Some (z', d', r + length M) \<and> zsl_ok z' (A @ R) \<and>
      dict_ok hf d' \<and> dict_map d' = (\<lambda>k. if k \<in> (\<lambda>a. snd (node_item (zsl_heap z) a)) ` set M then None else dict_map d k) \<and> dictSize d' \<le> dictSize d \<and>
      (\<forall>a\<in>set (A @ R). node_item (zsl_heap z') a = node_item (zsl_heap z) a) \<and> zsl_header z' = zsl_header z"
proof (induction M arbitrary: z d r)
  case Nil
  show ?case
  proof (cases R)
    case Nil
    then show ?thesis using \<open>zsl_ok z (A @ [] @ R)\<close> \<open>dict_ok hf d\<close> by (simp add: delete_while.simps)
  next
    case (Cons b R')
    have ok: "zsl_ok z (A @ b # R')" using Nil.prems(1) Cons by simp
    have p: "0 < length A" "length A < length (A @ b # R')" using Nil.prems(2) by auto
    obtain nd ob where "zsl_heap z b = Some nd" "zn_obj nd = Some ob" "member_ok ob" "node_item (zsl_heap z) b = (zn_score nd, content ob)"
      using zsl_node [OF ok p] by (metis nth_append_length)
    then show ?thesis using c Nil.prems(1,4,6) Cons by (simp add: delete_while.simps zcond_def)
  qed
next
  case (Cons x M)
  have ok: "zsl_ok z (A @ x # (M @ R))" using Cons.prems(1) by simp
  have p: "0 < length A" "length A < length (A @ x # M @ R)" using Cons.prems(2) by auto
  obtain nd ob where nd: "zsl_heap z x = Some nd" "zn_obj nd = Some ob" "member_ok ob" "node_item (zsl_heap z) x = (zn_score nd, content ob)"
    using zsl_node [OF ok p] by (metis nth_append_length)
  have go: "cond r nd = Some True" using c nd Cons.prems(5) by (auto simp: zcond_def)
  obtain z1 z2 where z12: "zslDeleteNode z x us = Some z1" "zsl_heap z1 x \<noteq> None" "Option.bind (zsl_heap z1 x) zn_obj = Option.bind (zsl_heap z x) zn_obj"
      "free_node z1 x = Some z2" "zsl_ok z2 (A @ (M @ R))"
      "\<forall>a\<in>set (A @ (M @ R)). node_item (zsl_heap z2) a = node_item (zsl_heap z) a \<and> height (zsl_heap z2) a = height (zsl_heap z) a"
      "zsl_header z2 = zsl_header z" "zsl_level z2 \<le> zsl_level z"
    using zslDeleteNode_ok [OF ok Cons.prems(2,3)] by blast
  obtain xn1 where xn1: "zsl_heap z1 x = Some xn1" "zn_obj xn1 = Some ob" using z12(2,3) nd by auto
  obtain d1 f where d1: "dictGenericDelete hf d (content ob) = Some (d1, f)" "dict_ok hf d1" "dictSize d1 \<le> dictSize d" "dict_map d1 = (dict_map d)(content ob := None)"
    using dictGenericDelete_spec [OF Cons.prems(4), of "content ob"] by auto
  have lv: "map_option lv_forward (get_level (zsl_heap z) x 0) = Some (case M @ R of [] \<Rightarrow> None | b # _ \<Rightarrow> Some b)"
    using next_of_spec [OF ok, of "Suc (length A)" "[(x, length A)]"] by (auto simp: next_of_def nth_append split: list.splits)
  then obtain lvx where lvx: "get_level (zsl_heap z) x 0 = Some lvx" "lv_forward lvx = (case M @ R of [] \<Rightarrow> None | b # _ \<Rightarrow> Some b)" by auto
  have ends: "\<forall>i<zsl_level z2. ends_at (height (zsl_heap z2)) A i (us ! i)"
  proof (intro allI impI)
    fix i assume "i < zsl_level z2"
    then have "ends_at (height (zsl_heap z)) A i (us ! i)" using Cons.prems(3) z12(8) by simp
    then show "ends_at (height (zsl_heap z2)) A i (us ! i)" using z12(6) unfolding ends_at_def by (metis Un_iff in_set_conv_decomp list.set_intros(2) set_append)
  qed
  have C1: "\<forall>j<length M. C (r + 1 + j) (node_item (zsl_heap z2) (M ! j))"
  proof (intro allI impI)
    fix j assume j: "j < length M"
    then have "C (r + Suc j) (node_item (zsl_heap z) ((x # M) ! Suc j))" using Cons.prems(5) by (metis Suc_less_eq length_Cons)
    then show "C (r + 1 + j) (node_item (zsl_heap z2) (M ! j))" using z12(6) j by simp
  qed
  have C2: "R = [] \<or> \<not> C (r + 1 + length M) (node_item (zsl_heap z2) (hd R))"
    using Cons.prems(6) z12(6) by (cases R) auto
  obtain z' d' where fin: "delete_while cond hf us (case M @ R of [] \<Rightarrow> None | b # _ \<Rightarrow> Some b) (r + 1) z2 d1 = Some (z', d', r + 1 + length M)" "zsl_ok z' (A @ R)"
      "dict_ok hf d'" "dict_map d' = (\<lambda>k. if k \<in> (\<lambda>a. snd (node_item (zsl_heap z2) a)) ` set M then None else dict_map d1 k)"  "dictSize d' \<le> dictSize d1"
      "\<forall>a\<in>set (A @ R). node_item (zsl_heap z') a = node_item (zsl_heap z2) a" "zsl_header z' = zsl_header z2"
    using Cons.IH [OF z12(5) Cons.prems(2) ends d1(2) C1 C2] by blast
  have "(\<lambda>a. snd (node_item (zsl_heap z2) a)) ` set M = (\<lambda>a. snd (node_item (zsl_heap z) a)) ` set M" using z12(6) by force
  then have "dict_map d' = (\<lambda>k. if k \<in> (\<lambda>a. snd (node_item (zsl_heap z) a)) ` set (x # M) then None else dict_map d k)"
    using fin(4) d1(4) nd(4) by (auto simp: fun_eq_iff)
  moreover have "delete_while cond hf us (case (x # M) @ R of [] \<Rightarrow> None | b # _ \<Rightarrow> Some b) r z d = Some (z', d', r + length (x # M))"
    using fin(1) nd(1) go lvx z12(1,4) xn1 d1(1) by (simp add: delete_while.simps [of cond hf us "Some x"])
  ultimately show ?case using fin z12(6,7) d1(3) by auto
qed

end
