(* ===== verification/Zset.thy ===== *)
theory Zset
  imports Skiplist_Ops
begin

text \<open>
  A sorted set in its skip list encoding, from t_zset.c: a dictionary from members to their nodes and
  the skip list of the nodes. The dictionary of the code holds a pointer to the score inside the
  node. The address for new memory is chosen by an allocator among the free ones; the sum of two scores may
  be no number, which the argument \<open>sum_of\<close> answers with \<open>None\<close>.
\<close>

section \<open>Operations\<close>

record 's zset =
  zs_dict :: "(bytes, nat) dict"
  zs_zsl :: "'s zskiplist"

definition createZsetObject :: "nat \<Rightarrow> zskiplistLevel \<Rightarrow> ('s :: zero) zset" where
  "createZsetObject a g = \<lparr>zs_dict = dictCreate, zs_zsl = zslCreate a g\<rparr>"

text \<open>The node of a member, through the dictionary.\<close>

definition member_node :: "bytes hash \<Rightarrow> bytes \<Rightarrow> 's zset \<Rightarrow> ('s zset \<times> (entry_loc \<times> nat \<times> 's zskiplistNode) option) option" where
  "member_node hf k zs = do {
     (d, de) \<leftarrow> dictFind hf (zs_dict zs) k;
     let zs = zs\<lparr>zs_dict := d\<rparr>;
     case de of
       None \<Rightarrow> Some (zs, None)
     | Some l \<Rightarrow> do {
         e \<leftarrow> get_entry d l;
         nd \<leftarrow> zsl_heap (zs_zsl zs) (snd e);
         Some (zs, Some (l, snd e, nd))
       }
   }"

datatype 's zadd_result = ZNan | ZDone (z_added: nat) (z_updated: nat) (z_score: 's)

text \<open>The part of \<open>zaddGenericCommand\<close> for one element. The object of the dictionary's key is the one of the node.\<close>

definition zadd_element :: "bool \<Rightarrow> bytes hash \<Rightarrow> ('s zheap \<Rightarrow> nat) \<Rightarrow> zskiplistLevel \<Rightarrow> ('s \<Rightarrow> 's \<Rightarrow> 's option) \<Rightarrow>
    nat list \<Rightarrow> bool \<Rightarrow> ('s :: linorder) \<Rightarrow> strobj \<Rightarrow> 's zset \<Rightarrow> ('s zset \<times> 's zadd_result) option" where
  "zadd_element cr hf alloc g sum_of rs incr score arg zs = do {
     let ele = tryObjectEncoding arg;
     (zs, de) \<leftarrow> member_node hf (content ele) zs;
     case de of
       Some (l, a, nd) \<Rightarrow> do {
         curobj \<leftarrow> zn_obj nd;
         let curscore = zn_score nd;
         case (if incr then sum_of score curscore else Some score) of
           None \<Rightarrow> Some (zs, ZNan)
         | Some score \<Rightarrow>
             if score \<noteq> curscore then do {
               (zsl, ok) \<leftarrow> zslDelete (zs_zsl zs) curscore curobj;
               if \<not> ok then None
               else do {
                 (zsl, znode) \<leftarrow> zslInsert (alloc (zsl_heap zsl)) g rs zsl score curobj;
                 d \<leftarrow> dictSetVal (zs_dict zs) l znode;
                 Some (\<lparr>zs_dict = d, zs_zsl = zsl\<rparr>, ZDone 0 1 score)
               }
             } else Some (zs, ZDone 0 0 score)
       }
     | None \<Rightarrow> do {
         (zsl, znode) \<leftarrow> zslInsert (alloc (zsl_heap (zs_zsl zs))) g rs (zs_zsl zs) score ele;
         (d, ok) \<leftarrow> dictAdd cr hf 0 (zs_dict zs) (content ele) znode;
         if \<not> ok then None else Some (\<lparr>zs_dict = d, zs_zsl = zsl\<rparr>, ZDone 1 0 score)
       }
   }"

definition htNeedsResize :: "('k, 'v) dict \<Rightarrow> bool" where
  "htNeedsResize d = (let sz = dictSlots d; used = dictSize d in sz \<noteq> 0 \<and> used \<noteq> 0 \<and> sz > 4 \<and> used * 100 div sz < 10)"

definition shrink_dict :: "bool \<Rightarrow> 's zset \<Rightarrow> 's zset" where
  "shrink_dict cr zs = (if htNeedsResize (zs_dict zs) then zs\<lparr>zs_dict := fst (dictResize cr (zs_dict zs))\<rparr> else zs)"

text \<open>One member of \<open>zremCommand\<close>; the booleans say whether it was deleted and whether the set is empty then.\<close>

definition zrem_element :: "bool \<Rightarrow> bytes hash \<Rightarrow> strobj \<Rightarrow> ('s :: linorder) zset \<Rightarrow> ('s zset \<times> bool \<times> bool) option" where
  "zrem_element cr hf arg zs = do {
     (zs, de) \<leftarrow> member_node hf (content arg) zs;
     case de of
       None \<Rightarrow> Some (zs, False, False)
     | Some (l, a, nd) \<Rightarrow> do {
         (zsl, ok) \<leftarrow> zslDelete (zs_zsl zs) (zn_score nd) arg;
         if \<not> ok then None
         else do {
           (d, found) \<leftarrow> dictGenericDelete hf (zs_dict zs) (content arg);
           let zs = shrink_dict cr \<lparr>zs_dict = d, zs_zsl = zsl\<rparr>;
           Some (zs, True, dictSize (zs_dict zs) = 0)
         }
       }
   }"

definition zsetLength :: "'s zset \<Rightarrow> nat" where
  "zsetLength zs = zsl_length (zs_zsl zs)"

text \<open>The indexes of a range by rank, \<open>None\<close> for an empty range.\<close>

definition sanitize_indexes :: "int \<Rightarrow> int \<Rightarrow> int \<Rightarrow> (int \<times> int) option" where
  "sanitize_indexes start end' llen =
    (let start = (if start < 0 then llen + start else start);
         end' = (if end' < 0 then llen + end' else end');
         start = (if start < 0 then 0 else start)
     in if start > end' \<or> start \<ge> llen then None
        else Some (start, if end' \<ge> llen then llen - 1 else end'))"

definition zremrange_rank :: "bool \<Rightarrow> bytes hash \<Rightarrow> int \<Rightarrow> int \<Rightarrow> 's zset \<Rightarrow> ('s zset \<times> nat) option" where
  "zremrange_rank cr hf start end' zs =
    (case sanitize_indexes start end' (int (zsetLength zs)) of
      None \<Rightarrow> Some (zs, 0)
    | Some (start, end') \<Rightarrow> do {
        (zsl, d, deleted) \<leftarrow> zslDeleteRangeByRank hf (nat (start + 1)) (nat (end' + 1)) (zs_zsl zs) (zs_dict zs);
        Some (shrink_dict cr \<lparr>zs_dict = d, zs_zsl = zsl\<rparr>, deleted)
      })"

definition zremrange_score :: "bool \<Rightarrow> bytes hash \<Rightarrow> ('s :: linorder) zrangespec \<Rightarrow> 's zset \<Rightarrow> ('s zset \<times> nat) option" where
  "zremrange_score cr hf rng zs = do {
     (zsl, d, deleted) \<leftarrow> zslDeleteRangeByScore hf rng (zs_zsl zs) (zs_dict zs);
     Some (shrink_dict cr \<lparr>zs_dict = d, zs_zsl = zsl\<rparr>, deleted)
   }"

definition zremrange_lex :: "bool \<Rightarrow> bytes hash \<Rightarrow> zlexrangespec \<Rightarrow> 's zset \<Rightarrow> ('s zset \<times> nat) option" where
  "zremrange_lex cr hf rng zs = do {
     (zsl, d, deleted) \<leftarrow> zslDeleteRangeByLex hf rng (zs_zsl zs) (zs_dict zs);
     Some (shrink_dict cr \<lparr>zs_dict = d, zs_zsl = zsl\<rparr>, deleted)
   }"

definition zscore_member :: "bytes hash \<Rightarrow> strobj \<Rightarrow> 's zset \<Rightarrow> ('s zset \<times> 's option) option" where
  "zscore_member hf arg zs = do {
     (zs, de) \<leftarrow> member_node hf (content (tryObjectEncoding arg)) zs;
     Some (zs, map_option (\<lambda>(l, a, nd). zn_score nd) de)
   }"

definition zrank_member :: "bytes hash \<Rightarrow> bool \<Rightarrow> strobj \<Rightarrow> ('s :: linorder) zset \<Rightarrow> ('s zset \<times> nat option) option" where
  "zrank_member hf reverse arg zs = do {
     let llen = zsetLength zs;
     let ele = tryObjectEncoding arg;
     (zs, de) \<leftarrow> member_node hf (content ele) zs;
     case de of
       None \<Rightarrow> Some (zs, None)
     | Some (l, a, nd) \<Rightarrow> do {
         rank \<leftarrow> zslGetRank (zs_zsl zs) (zn_score nd) ele;
         if rank = 0 then None else Some (zs, Some (if reverse then llen - rank else rank - 1))
       }
   }"

definition node_rank :: "('s :: linorder) zskiplist \<Rightarrow> nat \<Rightarrow> nat option" where
  "node_rank zsl x = do { nd \<leftarrow> zsl_heap zsl x; ob \<leftarrow> zn_obj nd; zslGetRank zsl (zn_score nd) ob }"

definition zcount_range :: "('s :: linorder) zrangespec \<Rightarrow> 's zset \<Rightarrow> int option" where
  "zcount_range rng zs = do {
     let zsl = zs_zsl zs;
     zn \<leftarrow> zslFirstInRange zsl rng;
     case zn of
       None \<Rightarrow> Some 0
     | Some x \<Rightarrow> do {
         rank \<leftarrow> node_rank zsl x;
         let count = int (zsl_length zsl) - (int rank - 1);
         zn \<leftarrow> zslLastInRange zsl rng;
         case zn of
           None \<Rightarrow> Some count
         | Some x \<Rightarrow> do {
             rank \<leftarrow> node_rank zsl x;
             Some (count - (int (zsl_length zsl) - int rank))
           }
       }
   }"

fun zrange_loop :: "bool \<Rightarrow> 's zheap \<Rightarrow> nat \<Rightarrow> nat option \<Rightarrow> ('s \<times> bytes) list option" where
  "zrange_loop reverse H 0 ln = Some []"
| "zrange_loop reverse H (Suc rangelen) ln = do {
     x \<leftarrow> ln;
     nd \<leftarrow> H x;
     ele \<leftarrow> zn_obj nd;
     lv \<leftarrow> get_level H x 0;
     rest \<leftarrow> zrange_loop reverse H rangelen (if reverse then zn_backward nd else lv_forward lv);
     Some ((zn_score nd, content ele) # rest)
   }"

definition zrange_rank :: "bool \<Rightarrow> int \<Rightarrow> int \<Rightarrow> 's zset \<Rightarrow> ('s \<times> bytes) list option" where
  "zrange_rank reverse start end' zs =
    (case sanitize_indexes start end' (int (zsetLength zs)) of
      None \<Rightarrow> Some []
    | Some (start, end') \<Rightarrow> do {
        let zsl = zs_zsl zs;
        ln \<leftarrow> (if reverse then (if start > 0 then zslGetElementByRank zsl (nat (int (zsetLength zs) - start)) else Some (zsl_tail zsl))
              else if start > 0 then zslGetElementByRank zsl (nat (start + 1))
              else do { lv \<leftarrow> get_level (zsl_heap zsl) (zsl_header zsl) 0; Some (lv_forward lv) });
        zrange_loop reverse (zsl_heap zsl) (nat (end' - start + 1)) ln
      })"

section \<open>What a sorted set promises\<close>

text \<open>The elements in their order: by score, then by bytes, one for each member.\<close>

datatype 's zop =
    ZAdd bool 's bytes "nat list"
  | ZRem bytes
  | ZRemRangeByRank int int
  | ZRemRangeByScore "'s zrangespec"
  | ZScore bytes
  | ZRank bool bytes
  | ZCount "'s zrangespec"
  | ZRange bool int int
  | ZCard

datatype 's zres = RAdd "'s zadd_result" | RNum int | RScore "'s option" | RRank "nat option" | RList "('s \<times> bytes) list"

definition score_of :: "('s \<times> bytes) list \<Rightarrow> bytes \<Rightarrow> 's option" where
  "score_of L c = map_option fst (find (\<lambda>e. snd e = c) L)"

definition drop_member :: "bytes \<Rightarrow> ('s \<times> bytes) list \<Rightarrow> ('s \<times> bytes) list" where
  "drop_member c L = filter (\<lambda>e. snd e \<noteq> c) L"

definition put_element :: "('s :: linorder) \<times> bytes \<Rightarrow> ('s \<times> bytes) list \<Rightarrow> ('s \<times> bytes) list" where
  "put_element e L = takeWhile (\<lambda>x. key_less x e) L @ e # dropWhile (\<lambda>x. key_less x e) L"

definition slice :: "int \<Rightarrow> int \<Rightarrow> 'a list \<Rightarrow> 'a list \<times> 'a list" where
  "slice start end' L = (case sanitize_indexes start end' (int (length L)) of
      None \<Rightarrow> ([], L)
    | Some (s, e) \<Rightarrow> (take (nat (e - s + 1)) (drop (nat s) L), take (nat s) L @ drop (nat (e + 1)) L))"

fun spec_zop :: "('s \<Rightarrow> 's \<Rightarrow> 's option) \<Rightarrow> (('s :: linorder) \<times> bytes) list \<Rightarrow> 's zop \<Rightarrow> ('s \<times> bytes) list \<times> 's zres" where
  "spec_zop sum_of L (ZAdd incr s c rs) = (case score_of L c of
      None \<Rightarrow> (put_element (s, c) L, RAdd (ZDone 1 0 s))
    | Some cur \<Rightarrow> (case (if incr then sum_of s cur else Some s) of
          None \<Rightarrow> (L, RAdd ZNan)
        | Some s \<Rightarrow> if s = cur then (L, RAdd (ZDone 0 0 s)) else (put_element (s, c) (drop_member c L), RAdd (ZDone 0 1 s))))"
| "spec_zop sum_of L (ZRem c) = (drop_member c L, RNum (if score_of L c = None then 0 else 1))"
| "spec_zop sum_of L (ZRemRangeByRank s e) = (snd (slice s e L), RNum (int (length (fst (slice s e L)))))"
| "spec_zop sum_of L (ZRemRangeByScore rng) = (filter (\<lambda>e. \<not> score_in_range rng (fst e)) L, RNum (int (length (filter (\<lambda>e. score_in_range rng (fst e)) L))))"
| "spec_zop sum_of L (ZScore c) = (L, RScore (score_of L c))"
| "spec_zop sum_of L (ZRank reverse c) = (L, RRank (if score_of L c = None then None
      else Some (length (takeWhile (\<lambda>e. snd e \<noteq> c) (if reverse then rev L else L)))))"
| "spec_zop sum_of L (ZCount rng) = (L, RNum (int (length (filter (\<lambda>e. score_in_range rng (fst e)) L))))"
| "spec_zop sum_of L (ZRange reverse s e) = (L, RList (fst (slice s e (if reverse then rev L else L))))"
| "spec_zop sum_of L ZCard = (L, RNum (int (length L)))"

fun zop_ok :: "'s zop \<Rightarrow> bool" where
  "zop_ok (ZAdd incr s c rs) = (length c < 2147483648 \<and> zslRandomLevel rs \<noteq> None)"
| "zop_ok (ZRem c) = (length c < 2147483648)"
| "zop_ok (ZScore c) = (length c < 2147483648)"
| "zop_ok (ZRank reverse c) = (length c < 2147483648)"
| "zop_ok _ = True"

fun zset_step :: "bool \<Rightarrow> bytes hash \<Rightarrow> ('s zheap \<Rightarrow> nat) \<Rightarrow> zskiplistLevel \<Rightarrow> ('s \<Rightarrow> 's \<Rightarrow> 's option) \<Rightarrow> ('s :: linorder) zset \<Rightarrow> 's zop \<Rightarrow> ('s zset \<times> 's zres) option" where
  "zset_step cr hf alloc g sum_of zs (ZAdd incr s c rs) = map_option (apsnd RAdd) (zadd_element cr hf alloc g sum_of rs incr s (ENC_RAW c) zs)"
| "zset_step cr hf alloc g sum_of zs (ZRem c) = map_option (\<lambda>(zs, deleted, _). (zs, RNum (if deleted then 1 else 0))) (zrem_element cr hf (ENC_RAW c) zs)"
| "zset_step cr hf alloc g sum_of zs (ZRemRangeByRank s e) = map_option (apsnd (\<lambda>n. RNum (int n))) (zremrange_rank cr hf s e zs)"
| "zset_step cr hf alloc g sum_of zs (ZRemRangeByScore rng) = map_option (apsnd (\<lambda>n. RNum (int n))) (zremrange_score cr hf rng zs)"
| "zset_step cr hf alloc g sum_of zs (ZScore c) = map_option (apsnd RScore) (zscore_member hf (ENC_RAW c) zs)"
| "zset_step cr hf alloc g sum_of zs (ZRank reverse c) = map_option (apsnd RRank) (zrank_member hf reverse (ENC_RAW c) zs)"
| "zset_step cr hf alloc g sum_of zs (ZCount rng) = map_option (\<lambda>n. (zs, RNum n)) (zcount_range rng zs)"
| "zset_step cr hf alloc g sum_of zs (ZRange reverse s e) = map_option (\<lambda>l. (zs, RList l)) (zrange_rank reverse s e zs)"
| "zset_step cr hf alloc g sum_of zs ZCard = Some (zs, RNum (int (zsetLength zs)))"

fun zrun :: "('st \<Rightarrow> 's zop \<Rightarrow> ('st \<times> 's zres) option) \<Rightarrow> 'st \<Rightarrow> 's zop list \<Rightarrow> ('st \<times> 's zres list) option" where
  "zrun step s [] = Some (s, [])"
| "zrun step s (x # xs) = do { (s, r) \<leftarrow> step s x; (s, rs) \<leftarrow> zrun step s xs; Some (s, r # rs) }"

fun spec_zrun :: "('s \<Rightarrow> 's \<Rightarrow> 's option) \<Rightarrow> (('s :: linorder) \<times> bytes) list \<Rightarrow> 's zop list \<Rightarrow> ('s \<times> bytes) list \<times> 's zres list" where
  "spec_zrun sum_of L [] = (L, [])"
| "spec_zrun sum_of L (x # xs) = (let (L, r) = spec_zop sum_of L x; (L, rs) = spec_zrun sum_of L xs in (L, r # rs))"

locale sorted_set =
  fixes rel :: "'st \<Rightarrow> (('s :: linorder) \<times> bytes) list \<Rightarrow> bool"
    and fits :: "'st \<Rightarrow> nat \<Rightarrow> bool"
    and sum_of :: "'s \<Rightarrow> 's \<Rightarrow> 's option"
    and step :: "'st \<Rightarrow> 's zop \<Rightarrow> ('st \<times> 's zres) option"
  assumes step_law: "rel st L \<Longrightarrow> fits st (Suc n) \<Longrightarrow> zop_ok x \<Longrightarrow>
    \<exists>st'. step st x = Some (st', snd (spec_zop sum_of L x)) \<and> rel st' (fst (spec_zop sum_of L x)) \<and> fits st' n"
begin

lemma zrun_correct:
  "rel st L \<Longrightarrow> fits st (length xs) \<Longrightarrow> \<forall>x\<in>set xs. zop_ok x \<Longrightarrow>
   \<exists>st'. zrun step st xs = Some (st', snd (spec_zrun sum_of L xs)) \<and> rel st' (fst (spec_zrun sum_of L xs))"
proof (induction xs arbitrary: st L)
  case (Cons x xs)
  obtain st1 where s1: "step st x = Some (st1, snd (spec_zop sum_of L x))" "rel st1 (fst (spec_zop sum_of L x))" "fits st1 (length xs)"
    using step_law [OF Cons.prems(1), of "length xs" x] Cons.prems(2,3) by auto
  then show ?case using Cons.IH [OF s1(2,3)] Cons.prems(3) by (auto simp: split: prod.splits)
qed simp

end

end
