(* ===== verification/Zset_Laws.thy ===== *)
theory Zset_Laws
  imports Zset
begin

text \<open>
  The sorted set of Zset meets its specification: the dictionary maps each member to its node, every
  operation returns, keeps that and answers as the sorted list of the elements does.
\<close>

section \<open>The dictionary and the skip list agree\<close>

abbreviation node_member :: "'s zskiplist \<Rightarrow> nat \<Rightarrow> bytes" where
  "node_member z a \<equiv> snd (node_item (zsl_heap z) a)"

definition agree :: "(bytes \<rightharpoonup> nat) \<Rightarrow> 's zskiplist \<Rightarrow> nat list \<Rightarrow> bool" where
  "agree m z ns \<longleftrightarrow> (\<forall>c a. m c = Some a \<longleftrightarrow> a \<in> set (tl ns) \<and> node_member z a = c)"

definition zset_ok :: "bytes hash \<Rightarrow> ('s :: linorder) zset \<Rightarrow> nat list \<Rightarrow> bool" where
  "zset_ok hf zs ns \<longleftrightarrow> zsl_ok (zs_zsl zs) ns \<and> dict_ok hf (zs_dict zs) \<and> agree (dict_map (zs_dict zs)) (zs_zsl zs) ns"

definition zset_rel :: "bytes hash \<Rightarrow> ('s :: linorder) zset \<Rightarrow> ('s \<times> bytes) list \<Rightarrow> bool" where
  "zset_rel hf zs L \<longleftrightarrow> (\<exists>ns. zset_ok hf zs ns \<and> L = items (zs_zsl zs) ns)"

definition zset_fits :: "'s zset \<Rightarrow> nat \<Rightarrow> bool" where
  "zset_fits zs n \<longleftrightarrow> Suc (zsl_length (zs_zsl zs) + n) < 2 ^ 32 \<and> 2 * (dictSize (zs_dict zs) + n) \<le> LONG_MAX"

lemma agree_distinct:
  assumes "agree m z ns" "distinct ns"
  shows "distinct (map snd (items z ns))"
proof -
  have "inj_on (node_member z) (set (tl ns))"
  proof (rule inj_onI)
    fix a b assume "a \<in> set (tl ns)" "b \<in> set (tl ns)" "node_member z a = node_member z b"
    then have "m (node_member z a) = Some a" "m (node_member z a) = Some b" using assms(1) by (auto simp: agree_def)
    then show "a = b" by simp
  qed
  then show ?thesis using assms(2) by (simp add: items_def distinct_map comp_def distinct_tl)
qed

lemma score_of_agree:
  assumes "agree m z ns"
  shows "score_of (items z ns) c = map_option (node_score z) (m c)"
proof -
  have "find (\<lambda>e. snd e = c) (map (node_item (zsl_heap z)) xs) = map_option (node_item (zsl_heap z)) (find (\<lambda>a. node_member z a = c) xs)" for xs
    by (induction xs) auto
  moreover have "find (\<lambda>a. node_member z a = c) (tl ns) = m c"
  proof (cases "find (\<lambda>a. node_member z a = c) (tl ns)")
    case None
    then have "m c \<noteq> Some a" for a using assms by (auto simp: agree_def find_None_iff)
    then show ?thesis using None by (cases "m c") auto
  next
    case (Some a)
    then have "m c = Some a" using assms find_in [OF Some] unfolding agree_def by blast
    then show ?thesis using Some by simp
  qed
  ultimately show ?thesis by (simp add: score_of_def items_def option.map_comp comp_def)
qed

text \<open>What the lookup of a member returns.\<close>

lemma member_node_ok:
  assumes ok: "zset_ok hf zs ns"
  obtains d where "dict_ok hf d" "dict_map d = dict_map (zs_dict zs)" "dictSize d = dictSize (zs_dict zs)" "zset_ok hf (zs\<lparr>zs_dict := d\<rparr>) ns"
    "score_of (items (zs_zsl zs) ns) c = None \<Longrightarrow> member_node hf c zs = Some (zs\<lparr>zs_dict := d\<rparr>, None) \<and> dict_map d c = None"
    "\<And>s. score_of (items (zs_zsl zs) ns) c = Some s \<Longrightarrow> \<exists>l a nd ob. member_node hf c zs = Some (zs\<lparr>zs_dict := d\<rparr>, Some (l, a, nd)) \<and> loc_ok d l c \<and>
      a \<in> set (tl ns) \<and> dict_map d c = Some a \<and> zsl_heap (zs_zsl zs) a = Some nd \<and> zn_obj nd = Some ob \<and> member_ok ob \<and> content ob = c \<and> zn_score nd = s \<and>
      node_item (zsl_heap (zs_zsl zs)) a = (s, c)"
proof -
  have z: "zsl_ok (zs_zsl zs) ns" "dict_ok hf (zs_dict zs)" "agree (dict_map (zs_dict zs)) (zs_zsl zs) ns" using ok by (auto simp: zset_ok_def)
  obtain d e where d: "dictFind hf (zs_dict zs) c = Some (d, e)" "dict_ok hf d" "dict_map d = dict_map (zs_dict zs)" "dictSize d = dictSize (zs_dict zs)"
      "case e of None \<Rightarrow> dict_map (zs_dict zs) c = None | Some l \<Rightarrow> loc_ok d l c \<and> dict_map (zs_dict zs) c \<noteq> None"
    using dictFind_spec [OF z(2)] by blast
  have sc: "score_of (items (zs_zsl zs) ns) c = map_option (node_score (zs_zsl zs)) (dict_map d c)" using score_of_agree [OF z(3)] d(3) by simp
  show thesis
  proof (rule that [of d])
    show "zset_ok hf (zs\<lparr>zs_dict := d\<rparr>) ns" using z d by (simp add: zset_ok_def)
    show "member_node hf c zs = Some (zs\<lparr>zs_dict := d\<rparr>, None) \<and> dict_map d c = None" if "score_of (items (zs_zsl zs) ns) c = None"
      using that sc d by (auto simp: member_node_def split: option.splits)
    fix s assume s: "score_of (items (zs_zsl zs) ns) c = Some s"
    then obtain a where a: "dict_map d c = Some a" "node_score (zs_zsl zs) a = s" using sc by auto
    then obtain l where l: "e = Some l" "loc_ok d l c" using d(3,5) by (cases e) auto
    have e: "get_entry d l = Some (c, a)" using get_entry_spec [OF d(2) l(2)] a(1) by auto
    have mem: "a \<in> set (tl ns)" "node_member (zs_zsl zs) a = c" using z(3) a(1) d(3) by (auto simp: agree_def)
    then have "node_ok (zsl_heap (zs_zsl zs)) a" using z(1) by (auto simp: zsl_ok_def)
    then obtain nd ob where nd: "zsl_heap (zs_zsl zs) a = Some nd" "zn_obj nd = Some ob" "member_ok ob" by (auto simp: node_ok_def)
    then have it: "node_item (zsl_heap (zs_zsl zs)) a = (zn_score nd, content ob)" by (simp add: node_item_def)
    have "member_node hf c zs = Some (zs\<lparr>zs_dict := d\<rparr>, Some (l, a, nd))" using d(1) l(1) e nd(1) by (simp add: member_node_def)
    then show "\<exists>l a nd ob. member_node hf c zs = Some (zs\<lparr>zs_dict := d\<rparr>, Some (l, a, nd)) \<and> loc_ok d l c \<and>
      a \<in> set (tl ns) \<and> dict_map d c = Some a \<and> zsl_heap (zs_zsl zs) a = Some nd \<and> zn_obj nd = Some ob \<and> member_ok ob \<and> content ob = c \<and> zn_score nd = s \<and>
      node_item (zsl_heap (zs_zsl zs)) a = (s, c)"
      using l mem a nd it by auto
  qed (use d in auto)
qed

lemma insert_agree:
  assumes ok: "zsl_ok z ns" "agree m z ns" and k: "0 < k" "k \<le> length ns" and x: "zsl_heap z x = None"
    and z': "node_item (zsl_heap z') x = (s, c)" "\<forall>a\<in>set ns. node_item (zsl_heap z') a = node_item (zsl_heap z) a" and new: "m c = None"
  shows "agree (m(c \<mapsto> x)) z' (take k ns @ x # drop k ns)"
proof -
  have ns: "ns \<noteq> []" "dom (zsl_heap z) = set ns" using ok(1) by (auto simp: zsl_ok_def)
  have t: "set (tl (take k ns @ x # drop k ns)) = insert x (set (tl ns))"
  proof -
    obtain y ys where y: "ns = y # ys" using ns(1) by (cases ns) auto
    obtain j where j: "k = Suc j" using k(1) by (cases k) auto
    have "set (take j ys) \<union> set (drop j ys) = set ys" by (metis append_take_drop_id set_append)
    then show ?thesis by (auto simp: y j)
  qed
  have xn: "x \<notin> set ns" using x ns(2) by auto
  have tl: "set (tl ns) \<subseteq> set ns" by (cases ns) auto
  show ?thesis unfolding agree_def t
  proof (intro allI)
    fix c' a
    show "(m(c \<mapsto> x)) c' = Some a \<longleftrightarrow> a \<in> insert x (set (tl ns)) \<and> node_member z' a = c'"
    proof (cases "a = x")
      case True
      have "m c' \<noteq> Some x" using ok(2) xn tl by (auto simp: agree_def)
      then show ?thesis using True z'(1) by auto
    next
      case False
      have m: "m c' = Some a \<longleftrightarrow> a \<in> set (tl ns) \<and> node_member z a = c'" "m c = Some a \<longleftrightarrow> a \<in> set (tl ns) \<and> node_member z a = c"
        using ok(2) unfolding agree_def by blast+
      have "a \<in> set (tl ns) \<longrightarrow> node_member z' a = node_member z a" using z'(2) tl by auto
      then show ?thesis using False new m by auto
    qed
  qed
qed

lemma insert_items:
  assumes ok: "zsl_ok z ns" and k: "k = rank_of z ns key"
    and z': "node_item (zsl_heap z') x = key" "\<forall>a\<in>set ns. node_item (zsl_heap z') a = node_item (zsl_heap z) a"
  shows "items z' (take k ns @ x # drop k ns) = put_element key (items z ns)"
proof -
  obtain ns' where z: "ns = zsl_header z # ns'" "items z ns = map (node_item (zsl_heap z)) ns'" using zsl_okD [OF ok] by metis
  let ?P = "\<lambda>a. key_less (node_item (zsl_heap z) a) key"
  have "tl (take k ns @ x # drop k ns) = takeWhile ?P ns' @ x # dropWhile ?P ns'"
    unfolding k rank_of_def z(1) by (simp add: takeWhile_eq_take [symmetric] dropWhile_eq_drop [symmetric])
  moreover have "map (node_item (zsl_heap z')) (takeWhile ?P ns') = map (node_item (zsl_heap z)) (takeWhile ?P ns')"
    "map (node_item (zsl_heap z')) (dropWhile ?P ns') = map (node_item (zsl_heap z)) (dropWhile ?P ns')"
    using z'(2) z(1) by (auto dest!: set_takeWhileD set_dropWhileD)
  ultimately show ?thesis using z'(1) z(2) by (simp add: items_def put_element_def takeWhile_map dropWhile_map comp_def)
qed

lemma delete_agree:
  assumes ok: "zsl_ok z (A @ x # B)" "agree m z (A @ x # B)" and A: "A \<noteq> []" and x: "node_member z x = c"
    and z': "\<forall>a\<in>set (A @ B). node_item (zsl_heap z') a = node_item (zsl_heap z) a"
  shows "agree (m(c := None)) z' (A @ B)" "items z' (A @ B) = drop_member c (items z (A @ x # B))"
proof -
  obtain a A' where A': "A = a # A'" using A by (cases A) auto
  have d: "distinct (A @ x # B)" using ok(1) by (simp add: zsl_ok_def)
  have x1: "m c = Some x" using ok(2) x A' by (auto simp: agree_def)
  have uniq: "node_member z b \<noteq> c" if "b \<in> set (A' @ B)" for b
  proof
    assume "node_member z b = c"
    then have "m c = Some b" using ok(2) that A' by (auto simp: agree_def)
    then show False using x1 that d A' by auto
  qed
  show "agree (m(c := None)) z' (A @ B)" unfolding agree_def
  proof (intro allI)
    fix c' b
    have "m c' = Some b \<longleftrightarrow> b \<in> set (tl (A @ x # B)) \<and> node_member z b = c'" using ok(2) by (simp add: agree_def)
    moreover have "b \<in> set (A' @ B) \<Longrightarrow> node_member z' b = node_member z b" using z' A' by auto
    ultimately show "(m(c := None)) c' = Some b \<longleftrightarrow> b \<in> set (tl (A @ B)) \<and> node_member z' b = c'"
      using uniq [of b] x A' by auto
  qed
  have "map (node_item (zsl_heap z')) (A' @ B) = map (node_item (zsl_heap z)) (A' @ B)" using z' A' by auto
  moreover have "filter (\<lambda>e. snd e \<noteq> c) (map (node_item (zsl_heap z)) (A' @ B)) = map (node_item (zsl_heap z)) (A' @ B)"
    unfolding filter_id_conv using uniq by (metis (no_types, lifting) imageE set_map)
  ultimately show "items z' (A @ B) = drop_member c (items z (A @ x # B))"
    using x A' by (simp add: items_def drop_member_def)
qed

lemma items_mem: "agree m z ns \<Longrightarrow> (s, c) \<in> set (items z ns) \<longleftrightarrow> (\<exists>a. m c = Some a \<and> node_item (zsl_heap z) a = (s, c))"
  unfolding agree_def items_def by (auto simp: image_iff) (metis snd_conv)+

lemma insert_law:
  fixes z :: "('s :: linorder) zskiplist"
  assumes ok: "zsl_ok z ns" "agree m z ns" and len: "length ns < 2 ^ 32" and x: "zsl_heap z x = None" and rs: "zslRandomLevel rs \<noteq> None"
    and obj: "member_ok obj" and new: "m (content obj) = None"
  shows "\<exists>z' ns'. zslInsert x g rs z s obj = Some (z', x) \<and> zsl_ok z' ns' \<and> agree (m(content obj \<mapsto> x)) z' ns' \<and>
    items z' ns' = put_element (s, content obj) (items z ns) \<and> length ns' = Suc (length ns)"
proof -
  obtain level where lv: "zslRandomLevel rs = Some level" using rs by auto
  let ?k = "rank_of z ns (s, content obj)"
  have "(s, content obj) \<notin> set (items z ns)" using items_mem [OF ok(2)] new by simp
  then obtain z' where z': "zslInsert x g rs z s obj = Some (z', x)" "zsl_ok z' (take ?k ns @ x # drop ?k ns)" "0 < ?k" "?k \<le> length ns"
      "node_item (zsl_heap z') x = (s, content obj)" "\<forall>a\<in>set ns. node_item (zsl_heap z') a = node_item (zsl_heap z) a"
    using zslInsert_ok [OF ok(1) len x lv obj] by blast
  then show ?thesis using insert_agree [OF ok z'(3,4) x z'(5,6) new] insert_items [OF ok(1) refl z'(5,6)]
    by (intro exI [of _ z'] exI [of _ "take ?k ns @ x # drop ?k ns"]) simp
qed

lemma delete_law:
  fixes z :: "('s :: linorder) zskiplist"
  assumes ok: "zsl_ok z ns" "agree m z ns" and len: "length ns < 2 ^ 32" and obj: "member_ok obj"
    and a: "m (content obj) = Some a" "node_item (zsl_heap z) a = (s, content obj)"
  shows "\<exists>z' ns'. zslDelete z s obj = Some (z', True) \<and> zsl_ok z' ns' \<and> agree (m(content obj := None)) z' ns' \<and>
    items z' ns' = drop_member (content obj) (items z ns) \<and> Suc (length ns') = length ns"
proof -
  have "(s, content obj) \<in> set (items z ns)" using items_mem [OF ok(2)] a by auto
  then obtain A x B z' where d: "ns = A @ x # B" "A \<noteq> []" "node_item (zsl_heap z) x = (s, content obj)" "zslDelete z s obj = Some (z', True)"
      "zsl_ok z' (A @ B)" "\<forall>a\<in>set (A @ B). node_item (zsl_heap z') a = node_item (zsl_heap z) a"
    using zslDelete_ok(1) [OF ok(1) len obj] by blast
  then show ?thesis using delete_agree [of z A x B m "content obj" z'] ok by (intro exI [of _ z'] exI [of _ "A @ B"]) auto
qed

lemma zset_relI: "zsl_ok z ns \<Longrightarrow> dict_ok hf d \<Longrightarrow> agree (dict_map d) z ns \<Longrightarrow> L = items z ns \<Longrightarrow> zset_rel hf \<lparr>zs_dict = d, zs_zsl = z\<rparr> L"
  by (auto simp: zset_rel_def zset_ok_def)

lemma tryObjectEncoding_member: "length c < 2147483648 \<Longrightarrow> content (tryObjectEncoding (ENC_RAW c)) = c \<and> member_ok (tryObjectEncoding (ENC_RAW c))"
  using tryObjectEncoding_content [of "ENC_RAW c"] by (simp add: member_ok_def)

lemma zadd_law:
  fixes zs :: "('s :: linorder) zset"
  assumes ok: "zset_ok hf zs ns" and fits: "zset_fits zs (Suc n)" and c: "length c < 2147483648" and rs: "zslRandomLevel rs \<noteq> None"
    and alloc: "\<And>H :: 's zheap. finite (dom H) \<Longrightarrow> H (alloc H) = None"
  shows "\<exists>zs'. zset_step cr hf alloc g sum_of zs (ZAdd incr s c rs) = Some (zs', snd (spec_zop sum_of (items (zs_zsl zs) ns) (ZAdd incr s c rs))) \<and>
    zset_rel hf zs' (fst (spec_zop sum_of (items (zs_zsl zs) ns) (ZAdd incr s c rs))) \<and> zset_fits zs' n"
proof -
  let ?z = "zs_zsl zs" and ?L = "items (zs_zsl zs) ns" and ?ele = "tryObjectEncoding (ENC_RAW c)"
  have z: "zsl_ok ?z ns" "agree (dict_map (zs_dict zs)) ?z ns" using ok by (auto simp: zset_ok_def)
  have ele: "content ?ele = c" "member_ok ?ele" using tryObjectEncoding_member [OF c] by auto
  have lens: "length ns = Suc (zsl_length ?z)" "length ns < 2 ^ 32" using z(1) fits by (auto simp: zsl_ok_def zset_fits_def)
  have fin: "zsl_ok z' ns' \<Longrightarrow> finite (dom (zsl_heap z'))" for z' :: "'s zskiplist" and ns' by (simp add: zsl_ok_def)
  have lenz: "zsl_ok z' ns' \<Longrightarrow> length ns' = Suc (zsl_length z')" for z' :: "'s zskiplist" and ns' by (simp add: zsl_ok_def)
  show ?thesis
  proof (rule member_node_ok [OF ok, of c])
    fix d
    assume d: "dict_ok hf d" "dict_map d = dict_map (zs_dict zs)" "dictSize d = dictSize (zs_dict zs)" "zset_ok hf (zs\<lparr>zs_dict := d\<rparr>) ns"
      and none: "score_of ?L c = None \<Longrightarrow> member_node hf c zs = Some (zs\<lparr>zs_dict := d\<rparr>, None) \<and> dict_map d c = None"
      and some: "\<And>s. score_of ?L c = Some s \<Longrightarrow> \<exists>l a nd ob. member_node hf c zs = Some (zs\<lparr>zs_dict := d\<rparr>, Some (l, a, nd)) \<and> loc_ok d l c \<and>
      a \<in> set (tl ns) \<and> dict_map d c = Some a \<and> zsl_heap ?z a = Some nd \<and> zn_obj nd = Some ob \<and> member_ok ob \<and> content ob = c \<and> zn_score nd = s \<and>
      node_item (zsl_heap ?z) a = (s, c)"
    have room: "2 * dictSize d < LONG_MAX" using fits d(3) by (simp add: zset_fits_def)
    have same: "zset_rel hf (zs\<lparr>zs_dict := d\<rparr>) ?L" "zset_fits (zs\<lparr>zs_dict := d\<rparr>) n" using d fits by (auto simp: zset_rel_def zset_fits_def)
    show ?thesis
    proof (cases "score_of ?L c")
      case None
      note m = none [OF None]
      obtain z' ns' where i: "zslInsert (alloc (zsl_heap ?z)) g rs ?z s ?ele = Some (z', alloc (zsl_heap ?z))" "zsl_ok z' ns'"
          "agree ((dict_map d)(c \<mapsto> alloc (zsl_heap ?z))) z' ns'" "items z' ns' = put_element (s, c) ?L" "length ns' = Suc (length ns)"
        using insert_law [OF z(1) z(2) [folded d(2)] lens(2) alloc [OF fin [OF z(1)]] rs ele(2), of g s] m ele(1) by auto
      obtain d' where d': "dictAdd cr hf 0 d c (alloc (zsl_heap ?z)) = Some (d', True)" "dict_ok hf d'" "dict_map d' = (dict_map d)(c \<mapsto> alloc (zsl_heap ?z))"
          "dictSize d' = Suc (dictSize d)"
        using dictAdd_spec [OF d(1) room, of cr 0 c "alloc (zsl_heap ?z)"] m by auto
      have "zset_step cr hf alloc g sum_of zs (ZAdd incr s c rs) = Some (\<lparr>zs_dict = d', zs_zsl = z'\<rparr>, RAdd (ZDone 1 0 s))"
        using m i(1) d'(1) by (simp add: zadd_element_def ele(1))
      moreover have "zset_rel hf \<lparr>zs_dict = d', zs_zsl = z'\<rparr> (put_element (s, c) ?L)" by (rule zset_relI [OF i(2) d'(2)]) (simp_all add: d'(3) i(3,4))
      moreover have "zset_fits \<lparr>zs_dict = d', zs_zsl = z'\<rparr> n" using fits d'(4) d(3) i(5) lenz [OF i(2)] lens(1) by (simp add: zset_fits_def)
      ultimately show ?thesis using None by auto
    next
      case (Some cur)
      then obtain l a nd ob where m: "member_node hf c zs = Some (zs\<lparr>zs_dict := d\<rparr>, Some (l, a, nd))" "loc_ok d l c" "dict_map d c = Some a"
          "zn_obj nd = Some ob" "member_ok ob" "content ob = c" "zn_score nd = cur" "node_item (zsl_heap ?z) a = (cur, c)"
        using some [OF Some] by blast
      show ?thesis
      proof (cases "if incr then sum_of s cur else Some s")
        case None
        then have "zset_step cr hf alloc g sum_of zs (ZAdd incr s c rs) = Some (zs\<lparr>zs_dict := d\<rparr>, RAdd ZNan)"
          using m(1,4,7) by (simp add: zadd_element_def ele(1) Let_def split del: if_split cong: if_cong)
        then show ?thesis using Some None same by (simp split del: if_split)
      next
        case news: (Some s')
        show ?thesis
        proof (cases "s' = cur")
          case True
          then have "zset_step cr hf alloc g sum_of zs (ZAdd incr s c rs) = Some (zs\<lparr>zs_dict := d\<rparr>, RAdd (ZDone 0 0 s'))"
            using m(1,4,7) news by (simp add: zadd_element_def ele(1) Let_def split del: if_split cong: if_cong)
          then show ?thesis using Some news True same by (simp split del: if_split)
        next
          case False
          obtain z1 ns1 where z1: "zslDelete ?z cur ob = Some (z1, True)" "zsl_ok z1 ns1" "agree ((dict_map d)(c := None)) z1 ns1"
              "items z1 ns1 = drop_member c ?L" "Suc (length ns1) = length ns"
            using delete_law [OF z(1) z(2) [folded d(2)] lens(2) m(5), of a cur] m(3,6,8) by auto
          let ?x = "alloc (zsl_heap z1)"
          have l1: "length ns1 < 2 ^ 32" using z1(5) lens(2) by simp
          have n1: "((dict_map d)(c := None)) (content ob) = None" using m(6) by simp
          obtain z2 ns2 where z2: "zslInsert ?x g rs z1 s' ob = Some (z2, ?x)" "zsl_ok z2 ns2" "agree ((dict_map d)(c \<mapsto> ?x)) z2 ns2"
              "items z2 ns2 = put_element (s', c) (drop_member c ?L)" "length ns2 = length ns"
            using insert_law [OF z1(2,3) l1 alloc [OF fin [OF z1(2)]] rs m(5) n1, of g s'] unfolding m(6) fun_upd_upd z1(4,5) by blast
          obtain d' where d': "dictSetVal d l ?x = Some d'" "dict_ok hf d'" "dict_map d' = (dict_map d)(c \<mapsto> ?x)" "dictSize d' = dictSize d"
            using dictSetVal_spec [OF d(1) m(2), of ?x] by blast
          have "zset_step cr hf alloc g sum_of zs (ZAdd incr s c rs) = Some (\<lparr>zs_dict = d', zs_zsl = z2\<rparr>, RAdd (ZDone 0 1 s'))"
            using m(1,4,7) news False z1(1) z2(1) d'(1) by (simp add: zadd_element_def ele(1) Let_def split del: if_split cong: if_cong)
          moreover have "zset_rel hf \<lparr>zs_dict = d', zs_zsl = z2\<rparr> (put_element (s', c) (drop_member c ?L))"
            by (rule zset_relI [OF z2(2) d'(2)]) (simp_all add: d'(3) z2(3,4))
          moreover have "zset_fits \<lparr>zs_dict = d', zs_zsl = z2\<rparr> n" using fits d'(4) d(3) z2(5) lenz [OF z2(2)] lens(1) by (simp add: zset_fits_def)
          ultimately show ?thesis using Some news False by (simp split del: if_split)
        qed
      qed
    qed
  qed
qed

lemma shrink_dict_ok:
  assumes ok: "zset_ok hf zs ns" and sz: "2 * dictSize (zs_dict zs) \<le> LONG_MAX"
  shows "zset_ok hf (shrink_dict cr zs) ns" "zs_zsl (shrink_dict cr zs) = zs_zsl zs" "dictSize (zs_dict (shrink_dict cr zs)) = dictSize (zs_dict zs)"
proof -
  let ?d = "zs_dict zs"
  have d: "dict_ok hf ?d" using ok by (simp add: zset_ok_def)
  have u: "ht_used (ht0 ?d) < 2 ^ 30" using sz by (simp add: dictSize_def)
  define mn where "mn = sint (of_nat (ht_used (ht0 ?d)) :: 32 word)"
  have "mn = int (ht_used (ht0 ?d))" unfolding mn_def using u sint_small [of "int (ht_used (ht0 ?d))"] by simp
  then have lt: "nat (if mn < 4 then 4 else mn) < LONG_MAX" using u by simp
  have e: "dict_ok hf (fst (dictResize cr ?d)) \<and> entries (fst (dictResize cr ?d)) = entries ?d"
  proof (cases "\<not> cr \<or> dictIsRehashing ?d")
    case False
    then show ?thesis using dictExpand_ok [OF d lt] by (simp add: dictResize_def mn_def [symmetric] Let_def split del: if_split)
  qed (use d in \<open>simp add: dictResize_def\<close>)
  then have "dictSize (fst (dictResize cr ?d)) = dictSize ?d" "dict_map (fst (dictResize cr ?d)) = dict_map ?d"
    using dictSize_entries [of hf ?d] dictSize_entries [of hf "fst (dictResize cr ?d)"] d by (simp_all add: dict_map_def)
  then show "zset_ok hf (shrink_dict cr zs) ns" "zs_zsl (shrink_dict cr zs) = zs_zsl zs" "dictSize (zs_dict (shrink_dict cr zs)) = dictSize (zs_dict zs)"
    using ok e by (auto simp: shrink_dict_def zset_ok_def)
qed

lemma shrink_law:
  assumes "zsl_ok z ns" "dict_ok hf d" "agree (dict_map d) z ns" "L = items z ns" "length ns \<le> Suc (zsl_length (zs_zsl zs))" "dictSize d \<le> dictSize (zs_dict zs)"
    and fits: "zset_fits zs (Suc n)"
  shows "zset_rel hf (shrink_dict cr \<lparr>zs_dict = d, zs_zsl = z\<rparr>) L \<and> zset_fits (shrink_dict cr \<lparr>zs_dict = d, zs_zsl = z\<rparr>) n"
proof -
  have ok: "zset_ok hf \<lparr>zs_dict = d, zs_zsl = z\<rparr> ns" using assms(1-3) by (simp add: zset_ok_def)
  have sz: "2 * dictSize (zs_dict \<lparr>zs_dict = d, zs_zsl = z\<rparr>) \<le> LONG_MAX" using fits assms(6) by (simp add: zset_fits_def)
  have "length ns = Suc (zsl_length z)" using assms(1) by (simp add: zsl_ok_def)
  then show ?thesis using shrink_dict_ok [OF ok sz, of cr] fits assms(4-6) by (auto simp: zset_rel_def zset_fits_def)
qed

lemma zrem_law:
  fixes zs :: "('s :: linorder) zset"
  assumes ok: "zset_ok hf zs ns" and fits: "zset_fits zs (Suc n)" and c: "length c < 2147483648"
  shows "\<exists>zs'. zset_step cr hf alloc g sum_of zs (ZRem c) = Some (zs', snd (spec_zop sum_of (items (zs_zsl zs) ns) (ZRem c))) \<and>
    zset_rel hf zs' (fst (spec_zop sum_of (items (zs_zsl zs) ns) (ZRem c))) \<and> zset_fits zs' n"
proof -
  let ?z = "zs_zsl zs" and ?L = "items (zs_zsl zs) ns"
  have z: "zsl_ok ?z ns" "agree (dict_map (zs_dict zs)) ?z ns" using ok by (auto simp: zset_ok_def)
  have lens: "length ns = Suc (zsl_length ?z)" "length ns < 2 ^ 32" using z(1) fits by (auto simp: zsl_ok_def zset_fits_def)
  have ob: "member_ok (ENC_RAW c)" using c by (simp add: member_ok_def)
  show ?thesis
  proof (rule member_node_ok [OF ok, of c])
    fix d
    assume d: "dict_ok hf d" "dict_map d = dict_map (zs_dict zs)" "dictSize d = dictSize (zs_dict zs)" "zset_ok hf (zs\<lparr>zs_dict := d\<rparr>) ns"
      and none: "score_of ?L c = None \<Longrightarrow> member_node hf c zs = Some (zs\<lparr>zs_dict := d\<rparr>, None) \<and> dict_map d c = None"
      and some: "\<And>s. score_of ?L c = Some s \<Longrightarrow> \<exists>l a nd ob. member_node hf c zs = Some (zs\<lparr>zs_dict := d\<rparr>, Some (l, a, nd)) \<and> loc_ok d l c \<and>
      a \<in> set (tl ns) \<and> dict_map d c = Some a \<and> zsl_heap ?z a = Some nd \<and> zn_obj nd = Some ob \<and> member_ok ob \<and> content ob = c \<and> zn_score nd = s \<and>
      node_item (zsl_heap ?z) a = (s, c)"
    show ?thesis
    proof (cases "score_of ?L c")
      case None
      have "drop_member c ?L = ?L" using None by (auto simp: score_of_def drop_member_def find_None_iff intro!: filter_True)
      moreover have "zset_rel hf (zs\<lparr>zs_dict := d\<rparr>) ?L" "zset_fits (zs\<lparr>zs_dict := d\<rparr>) n" using d fits by (auto simp: zset_rel_def zset_fits_def)
      ultimately show ?thesis using None none [OF None] by (simp add: zrem_element_def)
    next
      case (Some s)
      then obtain l a nd where m: "member_node hf c zs = Some (zs\<lparr>zs_dict := d\<rparr>, Some (l, a, nd))" "dict_map d c = Some a" "zn_score nd = s"
          "node_item (zsl_heap ?z) a = (s, c)"
        using some [OF Some] by blast
      obtain z1 ns1 where z1: "zslDelete ?z s (ENC_RAW c) = Some (z1, True)" "zsl_ok z1 ns1" "agree ((dict_map d)(c := None)) z1 ns1"
          "items z1 ns1 = drop_member c ?L" "Suc (length ns1) = length ns"
        using delete_law [OF z(1) z(2) [folded d(2)] lens(2) ob, of a s] m(2,4) by auto
      obtain d' where d': "dictGenericDelete hf d c = Some (d', True)" "dict_ok hf d'" "dict_map d' = (dict_map d)(c := None)" "dictSize d' \<le> dictSize d"
        using dictGenericDelete_spec [OF d(1), of c] m(2) by auto
      have "zset_rel hf (shrink_dict cr \<lparr>zs_dict = d', zs_zsl = z1\<rparr>) (drop_member c ?L) \<and> zset_fits (shrink_dict cr \<lparr>zs_dict = d', zs_zsl = z1\<rparr>) n"
        by (rule shrink_law [OF z1(2) d'(2) _ z1(4) [symmetric] _ _ fits]) (use z1 d' d(3) lens in auto)
      moreover have "zset_step cr hf alloc g sum_of zs (ZRem c) = Some (shrink_dict cr \<lparr>zs_dict = d', zs_zsl = z1\<rparr>, RNum 1)"
        using m(1,3) z1(1) d'(1) by (simp add: zrem_element_def Let_def)
      ultimately show ?thesis using Some by (intro exI [of _ "shrink_dict cr \<lparr>zs_dict = d', zs_zsl = z1\<rparr>"]) simp
    qed
  qed
qed

lemma delete_range_law:
  fixes z :: "('s :: linorder) zskiplist"
  assumes ok: "zsl_ok z (A @ M @ R)" "length (A @ M @ R) < 2 ^ 32" and d: "dict_ok hf d" "agree (dict_map d) z (A @ M @ R)" and A: "A \<noteq> []"
    and cut: "cuts start (zsl_heap z) (A @ M @ R) (length A)" and c: "zcond cond C"
    and M: "\<forall>j<length M. C j (node_item (zsl_heap z) (M ! j))" and R: "R = [] \<or> \<not> C (length M) (node_item (zsl_heap z) (hd R))"
  obtains us z' d' where "walk_levels start (zsl_heap z) (zsl_level z) (zsl_header z) 0 = Some us" "snd (us ! 0) = length A - 1"
    "(do { nx \<leftarrow> next_of z us; delete_while cond hf us nx 0 z d }) = Some (z', d', length M)" "zsl_ok z' (A @ R)" "dict_ok hf d'"
    "agree (dict_map d') z' (A @ R)" "dictSize d' \<le> dictSize d" "items z' (A @ R) = map (node_item (zsl_heap z)) (tl A @ R)"
proof -
  obtain us where us: "walk_levels start (zsl_heap z) (zsl_level z) (zsl_header z) 0 = Some us"
      "\<forall>i<zsl_level z. ends_at (height (zsl_heap z)) (take (length A) (A @ M @ R)) i (us ! i)" "us ! 0 = (last (take (length A) (A @ M @ R)), length A - 1)"
    using zsl_search [OF ok cut] by metis
  have nx: "next_of z us = Some (case M @ R of [] \<Rightarrow> None | b # _ \<Rightarrow> Some b)"
    using next_of_spec [OF ok(1) _ _ us(3)] A by (cases M; cases R) (auto simp: nth_append)
  have ends: "\<forall>i<zsl_level z. ends_at (height (zsl_heap z)) A i (us ! i)" using us(2) by simp
  obtain z' d' where z': "delete_while cond hf us (case M @ R of [] \<Rightarrow> None | b # _ \<Rightarrow> Some b) 0 z d = Some (z', d', 0 + length M)" "zsl_ok z' (A @ R)" "dict_ok hf d'"
      "dict_map d' = (\<lambda>k. if k \<in> (\<lambda>a. node_member z a) ` set M then None else dict_map d k)" "dictSize d' \<le> dictSize d"
      "\<forall>a\<in>set (A @ R). node_item (zsl_heap z') a = node_item (zsl_heap z) a"
    using delete_while_ok [OF c ok(1) A ends d(1), of 0] M R by auto
  obtain h A' where A': "A = h # A'" using A by (cases A) auto
  have dist: "distinct (A @ M @ R)" using ok(1) by (simp add: zsl_ok_def)
  have "agree (dict_map d') z' (A @ R)" unfolding agree_def
  proof (intro allI)
    fix k a
    have inj: "k = node_member z b \<Longrightarrow> b \<in> set M \<Longrightarrow> dict_map d k = Some b" for b using d(2) A' by (auto simp: agree_def)
    have ma: "dict_map d k = Some a \<longleftrightarrow> a \<in> set (A' @ M @ R) \<and> node_member z a = k" using d(2) A' by (simp add: agree_def)
    have same: "a \<in> set (A' @ R) \<Longrightarrow> node_member z' a = node_member z a" using z'(6) A' by auto
    have dis: "a \<in> set (A' @ R) \<Longrightarrow> a \<notin> set M" using dist A' by auto
    show "dict_map d' k = Some a \<longleftrightarrow> a \<in> set (tl (A @ R)) \<and> node_member z' a = k"
    proof (cases "k \<in> (\<lambda>a. node_member z a) ` set M")
      case True
      then obtain b where b: "b \<in> set M" "dict_map d k = Some b" using inj by auto
      then have "a \<in> set (A' @ R) \<Longrightarrow> node_member z a \<noteq> k" using ma dis by auto
      then show ?thesis using True same A' unfolding z'(4) by auto
    next
      case False
      then have "a \<in> set M \<Longrightarrow> node_member z a \<noteq> k" by auto
      then show ?thesis using False ma same A' unfolding z'(4) by auto
    qed
  qed
  moreover have "items z' (A @ R) = map (node_item (zsl_heap z)) (tl A @ R)" using z'(6) A' by (simp add: items_def)
  ultimately show thesis using that [of us z' d'] us nx z' by simp
qed

lemma filter_monotone:
  "sorted_wrt (\<lambda>a b. G a \<longrightarrow> G b) xs \<Longrightarrow> filter G xs = dropWhile (\<lambda>a. \<not> G a) xs \<and> filter (\<lambda>a. \<not> G a) xs = takeWhile (\<lambda>a. \<not> G a) xs"
  by (induction xs) auto

lemma filter_between:
  assumes G: "sorted_wrt (\<lambda>a b. G a \<longrightarrow> G b) xs" and L: "sorted_wrt (\<lambda>a b. L b \<longrightarrow> L a) xs"
  shows "filter (\<lambda>a. G a \<and> L a) xs = takeWhile L (dropWhile (\<lambda>a. \<not> G a) xs)"
    "filter (\<lambda>a. \<not> (G a \<and> L a)) xs = takeWhile (\<lambda>a. \<not> G a) xs @ dropWhile L (dropWhile (\<lambda>a. \<not> G a) xs)"
proof -
  let ?D = "dropWhile (\<lambda>a. \<not> G a) xs" and ?T = "takeWhile (\<lambda>a. \<not> G a) xs"
  have D: "filter G xs = ?D" "filter (\<lambda>a. \<not> G a) xs = ?T" using filter_monotone [OF G] by auto
  have "sorted_wrt (\<lambda>a b. \<not> L a \<longrightarrow> \<not> L b) ?D" unfolding D(1) [symmetric] by (rule sorted_wrt_filter) (use L in \<open>auto elim: sorted_wrt_mono_rel [rotated]\<close>)
  from filter_monotone [OF this] have LD: "filter L ?D = takeWhile L ?D" "filter (\<lambda>a. \<not> L a) ?D = dropWhile L ?D" by auto
  show "filter (\<lambda>a. G a \<and> L a) xs = takeWhile L ?D" using LD(1) by (simp add: D(1) [symmetric] filter_filter conj_commute)
  have "filter (\<lambda>a. \<not> (G a \<and> L a)) (?T @ ?D) = filter (\<lambda>a. True) ?T @ filter (\<lambda>a. \<not> L a) ?D"
    unfolding filter_append by (intro arg_cong2 [of _ _ _ _ append] filter_cong) (auto simp: D [symmetric])
  then show "filter (\<lambda>a. \<not> (G a \<and> L a)) xs = ?T @ dropWhile L ?D" using LD(2) by simp
qed

lemma range_step:
  fixes zs :: "('s :: linorder) zset"
  assumes ok: "zset_ok hf zs (A @ M @ R)" and fits: "zset_fits zs (Suc n)" and A: "A \<noteq> []"
    and cut: "cuts start (zsl_heap (zs_zsl zs)) (A @ M @ R) (length A)" and c: "zcond cond C"
    and M: "\<forall>j<length M. C j (node_item (zsl_heap (zs_zsl zs)) (M ! j))" and R: "R = [] \<or> \<not> C (length M) (node_item (zsl_heap (zs_zsl zs)) (hd R))"
  obtains us z' d' where "walk_levels start (zsl_heap (zs_zsl zs)) (zsl_level (zs_zsl zs)) (zsl_header (zs_zsl zs)) 0 = Some us" "snd (us ! 0) = length A - 1"
    "(do { nx \<leftarrow> next_of (zs_zsl zs) us; delete_while cond hf us nx 0 (zs_zsl zs) (zs_dict zs) }) = Some (z', d', length M)"
    "zset_rel hf (shrink_dict cr \<lparr>zs_dict = d', zs_zsl = z'\<rparr>) (map (node_item (zsl_heap (zs_zsl zs))) (tl A @ R))"
    "zset_fits (shrink_dict cr \<lparr>zs_dict = d', zs_zsl = z'\<rparr>) n"
proof -
  have z: "zsl_ok (zs_zsl zs) (A @ M @ R)" "dict_ok hf (zs_dict zs)" "agree (dict_map (zs_dict zs)) (zs_zsl zs) (A @ M @ R)" using ok by (auto simp: zset_ok_def)
  have len: "length (A @ M @ R) = Suc (zsl_length (zs_zsl zs))" using z(1) by (simp add: zsl_ok_def)
  then have l32: "length (A @ M @ R) < 2 ^ 32" using fits by (simp add: zset_fits_def)
  show thesis
  proof (rule delete_range_law [OF z(1) l32 z(2,3) A cut c M R])
    fix us z' d'
    assume w: "walk_levels start (zsl_heap (zs_zsl zs)) (zsl_level (zs_zsl zs)) (zsl_header (zs_zsl zs)) 0 = Some us" "snd (us ! 0) = length A - 1"
      "(do { nx \<leftarrow> next_of (zs_zsl zs) us; delete_while cond hf us nx 0 (zs_zsl zs) (zs_dict zs) }) = Some (z', d', length M)"
      and z': "zsl_ok z' (A @ R)" "dict_ok hf d'" "agree (dict_map d') z' (A @ R)" "dictSize d' \<le> dictSize (zs_dict zs)"
        "items z' (A @ R) = map (node_item (zsl_heap (zs_zsl zs))) (tl A @ R)"
    have "length (A @ R) \<le> Suc (zsl_length (zs_zsl zs))" using len by simp
    from shrink_law [OF z'(1,2,3) z'(5) [symmetric] this z'(4) fits, of cr] show thesis using that [OF w] by blast
  qed
qed

lemma zremrange_score_law:
  fixes zs :: "('s :: linorder) zset"
  assumes ok: "zset_ok hf zs ns" and fits: "zset_fits zs (Suc n)"
  shows "\<exists>zs'. zset_step cr hf alloc g sum_of zs (ZRemRangeByScore rng) = Some (zs', snd (spec_zop sum_of (items (zs_zsl zs) ns) (ZRemRangeByScore rng))) \<and>
    zset_rel hf zs' (fst (spec_zop sum_of (items (zs_zsl zs) ns) (ZRemRangeByScore rng))) \<and> zset_fits zs' n"
proof -
  let ?z = "zs_zsl zs"
  let ?G = "\<lambda>a. zslValueGteMin (node_score ?z a) rng" and ?L = "\<lambda>a. zslValueLteMax (node_score ?z a) rng"
  let ?start = "\<lambda>k nd :: 's zskiplistNode. Some (if zr_minex rng then zn_score nd \<le> zr_min rng else zn_score nd < zr_min rng)"
  let ?cond = "\<lambda>(k :: nat) nd :: 's zskiplistNode. Some (if zr_maxex rng then zn_score nd < zr_max rng else zn_score nd \<le> zr_max rng)"
  have z: "zsl_ok ?z ns" using ok by (simp add: zset_ok_def)
  obtain ns' where ns: "ns = zsl_header ?z # ns'" "items ?z ns = map (node_item (zsl_heap ?z)) ns'" using zsl_okD [OF z] by metis
  note b = score_bounds [OF z]
  have mono: "sorted_wrt (\<lambda>a b. ?G a \<longrightarrow> ?G b) ns'" "sorted_wrt (\<lambda>a b. ?L b \<longrightarrow> ?L a) ns'"
    using b(3) ns(1) by (auto elim!: sorted_wrt_mono_rel [rotated] intro: score_mono)
  let ?A = "zsl_header ?z # takeWhile (\<lambda>a. \<not> ?G a) ns'" and ?D = "dropWhile (\<lambda>a. \<not> ?G a) ns'"
  let ?M = "takeWhile ?L ?D" and ?R = "dropWhile ?L ?D"
  have split: "ns = ?A @ ?M @ ?R" using ns(1) by simp
  have start: "?start k = (\<lambda>nd. map_option Not (score_gte rng nd))" for k
    by (auto simp: fun_eq_iff score_gte_def zslValueGteMin_def not_less not_le)
  have "cuts ?start (zsl_heap ?z) ns (Suc (length (takeWhile (\<lambda>a. \<not> ?G a) (tl ns))))"
    unfolding start by (rule cuts_bound [OF bound_not [OF b(1)]]) (use mono(1) ns(1) in \<open>auto elim: sorted_wrt_mono_rel [rotated]\<close>)
  then have cut: "cuts ?start (zsl_heap ?z) (?A @ ?M @ ?R) (length ?A)" using ns(1) by simp
  have c: "zcond ?cond (\<lambda>r e. zslValueLteMax (fst e) rng)" by (simp add: zcond_def zslValueLteMax_def)
  have M: "\<forall>j<length ?M. zslValueLteMax (fst (node_item (zsl_heap ?z) (?M ! j))) rng" using nth_mem set_takeWhileD by fastforce
  have R: "?R = [] \<or> \<not> zslValueLteMax (fst (node_item (zsl_heap ?z) (hd ?R))) rng" using hd_dropWhile [of ?L ?D] by blast
  have f: "filter (\<lambda>e. score_in_range rng (fst e)) (items ?z ns) = map (node_item (zsl_heap ?z)) ?M"
    "filter (\<lambda>e. \<not> score_in_range rng (fst e)) (items ?z ns) = map (node_item (zsl_heap ?z)) (tl ?A @ ?R)"
    using filter_between [OF mono] unfolding ns(2) filter_map score_in_range_def comp_def by simp_all
  show ?thesis
  proof (rule range_step [OF ok [unfolded arg_cong [OF split, of "zset_ok hf zs"]] fits list.distinct(2) cut c M R, of cr])
    fix us z' d'
    assume w: "walk_levels ?start (zsl_heap ?z) (zsl_level ?z) (zsl_header ?z) 0 = Some us"
      "(do { nx \<leftarrow> next_of ?z us; delete_while ?cond hf us nx 0 ?z (zs_dict zs) }) = Some (z', d', length ?M)"
      and r: "zset_rel hf (shrink_dict cr \<lparr>zs_dict = d', zs_zsl = z'\<rparr>) (map (node_item (zsl_heap ?z)) (tl ?A @ ?R))"
        "zset_fits (shrink_dict cr \<lparr>zs_dict = d', zs_zsl = z'\<rparr>) n"
    have "zslDeleteRangeByScore hf rng ?z (zs_dict zs) = Some (z', d', length ?M)"
      unfolding zslDeleteRangeByScore_def w(1) using w(2) by simp
    then have "zset_step cr hf alloc g sum_of zs (ZRemRangeByScore rng) = Some (shrink_dict cr \<lparr>zs_dict = d', zs_zsl = z'\<rparr>, RNum (int (length ?M)))"
      by (simp add: zremrange_score_def)
    then show ?thesis using r f by (intro exI [of _ "shrink_dict cr \<lparr>zs_dict = d', zs_zsl = z'\<rparr>"]) simp
  qed
qed

lemma sanitize_indexes_bounds: "sanitize_indexes start end' llen = Some (s, e) \<Longrightarrow> 0 \<le> s \<and> s \<le> e \<and> e < llen"
  by (auto simp: sanitize_indexes_def Let_def split: if_splits)

lemma sanitize_indexes_nat:
  assumes "sanitize_indexes start end' (int len) = Some (s', e')"
  obtains s e where "s' = int s" "e' = int e" "s \<le> e" "e < len"
  using sanitize_indexes_bounds [OF assms] that [of "nat s'" "nat e'"] by auto

lemma cuts_rank:
  assumes "zsl_ok z ns" "Suc s \<le> length ns"
  shows "cuts (\<lambda>k nd. Some (k < Suc s)) (zsl_heap z) ns (Suc s)"
proof -
  have "zsl_heap z (ns ! p) \<noteq> None" if "p < length ns" for p
    using assms(1) nth_mem [OF that] by (auto simp: zsl_ok_def)
  then show ?thesis using assms(2) by (auto simp: cuts_def)
qed

lemma zremrange_rank_law:
  fixes zs :: "('s :: linorder) zset"
  assumes ok: "zset_ok hf zs ns" and fits: "zset_fits zs (Suc n)"
  shows "\<exists>zs'. zset_step cr hf alloc g sum_of zs (ZRemRangeByRank i j) = Some (zs', snd (spec_zop sum_of (items (zs_zsl zs) ns) (ZRemRangeByRank i j))) \<and>
    zset_rel hf zs' (fst (spec_zop sum_of (items (zs_zsl zs) ns) (ZRemRangeByRank i j))) \<and> zset_fits zs' n"
proof -
  let ?z = "zs_zsl zs"
  have z: "zsl_ok ?z ns" using ok by (simp add: zset_ok_def)
  obtain ns' where ns: "ns = zsl_header ?z # ns'" "length ns' = zsl_length ?z" "items ?z ns = map (node_item (zsl_heap ?z)) ns'" using zsl_okD [OF z] by metis
  show ?thesis
  proof (cases "sanitize_indexes i j (int (zsetLength zs))")
    case None
    moreover have "zset_rel hf zs (items ?z ns)" "zset_fits zs n" using ok fits by (auto simp: zset_rel_def zset_fits_def)
    ultimately show ?thesis using ns by (simp add: zremrange_rank_def slice_def zsetLength_def)
  next
    case (Some se)
    obtain s e where se: "sanitize_indexes i j (int (zsetLength zs)) = Some (int s, int e)" "s \<le> e" "e < length ns'"
      using Some sanitize_indexes_nat by (metis ns(2) surj_pair zsetLength_def)
    let ?A = "zsl_header ?z # take s ns'" and ?M = "take (Suc e - s) (drop s ns')" and ?R = "drop (Suc e) ns'"
    have split: "ns = ?A @ ?M @ ?R" unfolding ns(1) using se(2) append_take_drop_id [of "Suc e - s" "drop s ns'"] by simp
    have len: "length ?A = Suc s" "length ?M = Suc e - s" using se(2,3) by auto
    have "cuts (\<lambda>k nd. Some (k < Suc s)) (zsl_heap ?z) ns (Suc s)" by (rule cuts_rank [OF z]) (use se ns(1) in auto)
    then have cut: "cuts (\<lambda>k nd. Some (k < Suc s)) (zsl_heap ?z) (?A @ ?M @ ?R) (length ?A)" unfolding len(1) split [symmetric] .
    have c: "zcond (\<lambda>r nd. Some (Suc s + r \<le> Suc e)) (\<lambda>r (q :: 's \<times> bytes). Suc s + r \<le> Suc e)" by (simp add: zcond_def)
    have M: "\<forall>k<length ?M. Suc s + k \<le> Suc e" and R: "?R = [] \<or> \<not> Suc s + length ?M \<le> Suc e" using len(2) se(2) by auto
    show ?thesis
    proof (rule range_step [OF ok [unfolded arg_cong [OF split, of "zset_ok hf zs"]] fits list.distinct(2) cut c M R, of cr])
      fix us z' d'
      assume w: "walk_levels (\<lambda>k nd. Some (k < Suc s)) (zsl_heap ?z) (zsl_level ?z) (zsl_header ?z) 0 = Some us" "snd (us ! 0) = length ?A - 1"
        "(do { nx \<leftarrow> next_of ?z us; delete_while (\<lambda>r nd. Some (Suc s + r \<le> Suc e)) hf us nx 0 ?z (zs_dict zs) }) = Some (z', d', length ?M)"
        and r: "zset_rel hf (shrink_dict cr \<lparr>zs_dict = d', zs_zsl = z'\<rparr>) (map (node_item (zsl_heap ?z)) (tl ?A @ ?R))"
          "zset_fits (shrink_dict cr \<lparr>zs_dict = d', zs_zsl = z'\<rparr>) n"
      have "zslDeleteRangeByRank hf (Suc s) (Suc e) ?z (zs_dict zs) = Some (z', d', length ?M)"
        unfolding zslDeleteRangeByRank_def w(1) using w(2,3) len(1) by simp
      then have st: "zset_step cr hf alloc g sum_of zs (ZRemRangeByRank i j) = Some (shrink_dict cr \<lparr>zs_dict = d', zs_zsl = z'\<rparr>, RNum (int (length ?M)))"
        using se(1) by (simp add: zremrange_rank_def nat_add_distrib)
      have sl: "slice i j (items ?z ns) = (map (node_item (zsl_heap ?z)) ?M, map (node_item (zsl_heap ?z)) (tl ?A @ ?R))"
        using se ns(2) unfolding ns(3) by (simp add: slice_def zsetLength_def take_map drop_map nat_add_distrib nat_diff_distrib Suc_diff_le)
      then show ?thesis using r st by (intro exI [of _ "shrink_dict cr \<lparr>zs_dict = d', zs_zsl = z'\<rparr>"]) simp
    qed
  qed
qed

lemma zset_same: "zset_ok hf zs ns \<Longrightarrow> zset_fits zs (Suc n) \<Longrightarrow> zset_rel hf zs (items (zs_zsl zs) ns) \<and> zset_fits zs n"
  by (auto simp: zset_rel_def zset_fits_def)

lemma zscore_law:
  fixes zs :: "('s :: linorder) zset"
  assumes ok: "zset_ok hf zs ns" and fits: "zset_fits zs (Suc n)" and c: "length c < 2147483648"
  shows "\<exists>zs'. zset_step cr hf alloc g sum_of zs (ZScore c) = Some (zs', snd (spec_zop sum_of (items (zs_zsl zs) ns) (ZScore c))) \<and>
    zset_rel hf zs' (fst (spec_zop sum_of (items (zs_zsl zs) ns) (ZScore c))) \<and> zset_fits zs' n"
proof (rule member_node_ok [OF ok, of c])
  fix d
  assume d: "dictSize d = dictSize (zs_dict zs)" "zset_ok hf (zs\<lparr>zs_dict := d\<rparr>) ns"
    and none: "score_of (items (zs_zsl zs) ns) c = None \<Longrightarrow> member_node hf c zs = Some (zs\<lparr>zs_dict := d\<rparr>, None) \<and> dict_map d c = None"
    and some: "\<And>s. score_of (items (zs_zsl zs) ns) c = Some s \<Longrightarrow> \<exists>l a nd ob. member_node hf c zs = Some (zs\<lparr>zs_dict := d\<rparr>, Some (l, a, nd)) \<and> loc_ok d l c \<and>
      a \<in> set (tl ns) \<and> dict_map d c = Some a \<and> zsl_heap (zs_zsl zs) a = Some nd \<and> zn_obj nd = Some ob \<and> member_ok ob \<and> content ob = c \<and> zn_score nd = s \<and>
      node_item (zsl_heap (zs_zsl zs)) a = (s, c)"
  have "zscore_member hf (ENC_RAW c) zs = Some (zs\<lparr>zs_dict := d\<rparr>, score_of (items (zs_zsl zs) ns) c)"
    using none some tryObjectEncoding_member [OF c] by (cases "score_of (items (zs_zsl zs) ns) c") (auto simp: zscore_member_def)
  moreover have "zset_rel hf (zs\<lparr>zs_dict := d\<rparr>) (items (zs_zsl zs) ns) \<and> zset_fits (zs\<lparr>zs_dict := d\<rparr>) n"
    using zset_same [OF d(2)] fits d(1) by (simp add: zset_fits_def)
  ultimately show ?thesis by simp
qed

lemma index_of_member:
  assumes d: "distinct (map snd L)" and m: "(s, c) \<in> set L"
  obtains p where "p < length L" "L ! p = (s, c)" "length (takeWhile (\<lambda>e. snd e \<noteq> c) L) = p" "length (takeWhile (\<lambda>e. snd e \<noteq> c) (rev L)) = length L - Suc p"
proof -
  obtain A B where L: "L = A @ (s, c) # B" using m by (meson split_list)
  have "c \<notin> snd ` set A" "c \<notin> snd ` set B" using d L by auto
  then have "\<forall>e\<in>set A. snd e \<noteq> c" "\<forall>e\<in>set (rev B). snd e \<noteq> c" by auto
  then have "takeWhile (\<lambda>e. snd e \<noteq> c) (A @ (s, c) # B) = A" "takeWhile (\<lambda>e. snd e \<noteq> c) (rev B @ (s, c) # rev A) = rev B"
    by (simp, subst takeWhile_append2) auto
  then show thesis using that [of "length A"] L by simp
qed

lemma zrank_law:
  fixes zs :: "('s :: linorder) zset"
  assumes ok: "zset_ok hf zs ns" and fits: "zset_fits zs (Suc n)" and c: "length c < 2147483648"
  shows "\<exists>zs'. zset_step cr hf alloc g sum_of zs (ZRank reverse c) = Some (zs', snd (spec_zop sum_of (items (zs_zsl zs) ns) (ZRank reverse c))) \<and>
    zset_rel hf zs' (fst (spec_zop sum_of (items (zs_zsl zs) ns) (ZRank reverse c))) \<and> zset_fits zs' n"
proof (rule member_node_ok [OF ok, of c])
  let ?L = "items (zs_zsl zs) ns" and ?ele = "tryObjectEncoding (ENC_RAW c)"
  fix d
  assume d: "dict_map d = dict_map (zs_dict zs)" "dictSize d = dictSize (zs_dict zs)" "zset_ok hf (zs\<lparr>zs_dict := d\<rparr>) ns"
    and none: "score_of (items (zs_zsl zs) ns) c = None \<Longrightarrow> member_node hf c zs = Some (zs\<lparr>zs_dict := d\<rparr>, None) \<and> dict_map d c = None"
    and some: "\<And>s. score_of (items (zs_zsl zs) ns) c = Some s \<Longrightarrow> \<exists>l a nd ob. member_node hf c zs = Some (zs\<lparr>zs_dict := d\<rparr>, Some (l, a, nd)) \<and> loc_ok d l c \<and>
      a \<in> set (tl ns) \<and> dict_map d c = Some a \<and> zsl_heap (zs_zsl zs) a = Some nd \<and> zn_obj nd = Some ob \<and> member_ok ob \<and> content ob = c \<and> zn_score nd = s \<and>
      node_item (zsl_heap (zs_zsl zs)) a = (s, c)"
  have z: "zsl_ok (zs_zsl zs) ns" "agree (dict_map (zs_dict zs)) (zs_zsl zs) ns" using ok by (auto simp: zset_ok_def)
  have ele: "content ?ele = c" "member_ok ?ele" using tryObjectEncoding_member [OF c] by auto
  have len: "length ns < 2 ^ 32" "length ?L = zsl_length (zs_zsl zs)" using z(1) fits by (auto simp: zsl_ok_def zset_fits_def items_def)
  have dist: "distinct (map snd ?L)" by (rule agree_distinct [OF z(2)]) (use z(1) in \<open>simp add: zsl_ok_def\<close>)
  have same: "zset_rel hf (zs\<lparr>zs_dict := d\<rparr>) ?L \<and> zset_fits (zs\<lparr>zs_dict := d\<rparr>) n"
    using zset_same [OF d(3)] fits d(2) by (simp add: zset_fits_def)
  show ?thesis
  proof (cases "score_of ?L c")
    case None
    then show ?thesis using none [OF None] same by (simp add: zrank_member_def ele(1))
  next
    case (Some s)
    then obtain l a nd where m: "member_node hf c zs = Some (zs\<lparr>zs_dict := d\<rparr>, Some (l, a, nd))" "dict_map d c = Some a" "zn_score nd = s"
        "node_item (zsl_heap (zs_zsl zs)) a = (s, c)"
      using some [OF Some] by blast
    have "(s, c) \<in> set ?L" using items_mem [OF z(2)] m(2,4) d(1) by auto
    from index_of_member [OF dist this] obtain p where p: "p < length ?L" "?L ! p = (s, c)"
        "length (takeWhile (\<lambda>e. snd e \<noteq> c) ?L) = p" "length (takeWhile (\<lambda>e. snd e \<noteq> c) (rev ?L)) = length ?L - Suc p" by metis
    have "zslGetRank (zs_zsl zs) s ?ele = Some (Suc p)" using zslGetRank_ok(1) [OF z(1) len(1) ele(2) dist p(1)] p(2) ele(1) by simp
    then have "zset_step cr hf alloc g sum_of zs (ZRank reverse c) = Some (zs\<lparr>zs_dict := d\<rparr>, RRank (Some (if reverse then length ?L - Suc p else p)))"
      using m(1,3) by (simp add: zrank_member_def ele(1) zsetLength_def len(2))
    then show ?thesis using same Some p(3,4) by simp
  qed
qed

text \<open>The nodes of a sorted set seen from one of them.\<close>

lemma node_in_list:
  assumes ok: "zsl_ok z (A @ x # B)" and A: "A \<noteq> []"
  obtains nd ob lv where "zsl_heap z x = Some nd" "zn_obj nd = Some ob" "node_item (zsl_heap z) x = (zn_score nd, content ob)"
    "get_level (zsl_heap z) x 0 = Some lv" "lv_forward lv = (if B = [] then None else Some (hd B))"
    "zn_backward nd = (if tl A = [] then None else Some (last A))"
proof -
  let ?p = "length A"
  have nth: "(A @ x # B) ! ?p = x" by simp
  obtain nd ob where nd: "zsl_heap z x = Some nd" "zn_obj nd = Some ob" "node_item (zsl_heap z) x = (zn_score nd, content ob)"
    by (rule zsl_node [OF ok, of ?p]) (use A in \<open>simp_all only: nth, auto\<close>)
  have "next_of z [(x, ?p)] = Some (if B = [] then None else Some (hd B))"
    using next_of_spec [OF ok, of "Suc ?p" "[(x, ?p)]"] by (cases B) (simp_all add: nth_append)
  then obtain lv where lv: "get_level (zsl_heap z) x 0 = Some lv" "lv_forward lv = (if B = [] then None else Some (hd B))" by (auto simp: next_of_def)
  have "backs_ok (zsl_heap z) (A @ x # B)" using ok by (simp add: zsl_ok_def)
  moreover have "A @ x # B = butlast A @ last A # x # B" using A by simp
  ultimately have "bwd (zsl_heap z) x = (if butlast A = [] then None else Some (last A))" unfolding backs_ok_def by blast
  moreover have "butlast A = [] \<longleftrightarrow> tl A = []" using A by (cases A) auto
  ultimately show thesis using that [OF nd lv] nd(1) by simp
qed

lemma zrange_forward:
  "zsl_ok z (A @ B) \<Longrightarrow> A \<noteq> [] \<Longrightarrow> n \<le> length B \<Longrightarrow>
   zrange_loop False (zsl_heap z) n (if B = [] then None else Some (hd B)) = Some (map (node_item (zsl_heap z)) (take n B))"
proof (induction n arbitrary: A B)
  case (Suc n)
  then obtain b B' where B: "B = b # B'" by (cases B) auto
  obtain nd ob lv where nd: "zsl_heap z b = Some nd" "zn_obj nd = Some ob" "node_item (zsl_heap z) b = (zn_score nd, content ob)"
      "get_level (zsl_heap z) b 0 = Some lv" "lv_forward lv = (if B' = [] then None else Some (hd B'))"
    using node_in_list [OF Suc.prems(1) [unfolded B] Suc.prems(2)] by metis
  have "zrange_loop False (zsl_heap z) n (lv_forward lv) = Some (map (node_item (zsl_heap z)) (take n B'))"
    unfolding nd(5) by (rule Suc.IH [of "A @ [b]"]) (use Suc.prems B in auto)
  then show ?case using nd B by simp
qed simp

lemma zrange_backward:
  "zsl_ok z (h # A @ B) \<Longrightarrow> n \<le> length A \<Longrightarrow>
   zrange_loop True (zsl_heap z) n (if A = [] then None else Some (last A)) = Some (map (node_item (zsl_heap z)) (take n (rev A)))"
proof (induction n arbitrary: A B)
  case (Suc n)
  then obtain b A' where A: "A = A' @ [b]" by (cases A rule: rev_cases) auto
  obtain nd ob lv where nd: "zsl_heap z b = Some nd" "zn_obj nd = Some ob" "node_item (zsl_heap z) b = (zn_score nd, content ob)"
      "get_level (zsl_heap z) b 0 = Some lv" "zn_backward nd = (if A' = [] then None else Some (last A'))"
    by (rule node_in_list [of z "h # A'" b B]) (use Suc.prems(1) A in \<open>auto split: if_splits\<close>)
  have "zrange_loop True (zsl_heap z) n (zn_backward nd) = Some (map (node_item (zsl_heap z)) (take n (rev A')))"
    unfolding nd(5) by (rule Suc.IH [of A' "b # B"]) (use Suc.prems A in auto)
  then show ?case using nd A by simp
qed simp

lemma zrange_law:
  fixes zs :: "('s :: linorder) zset"
  assumes ok: "zset_ok hf zs ns" and fits: "zset_fits zs (Suc n)"
  shows "\<exists>zs'. zset_step cr hf alloc g sum_of zs (ZRange reverse i j) = Some (zs', snd (spec_zop sum_of (items (zs_zsl zs) ns) (ZRange reverse i j))) \<and>
    zset_rel hf zs' (fst (spec_zop sum_of (items (zs_zsl zs) ns) (ZRange reverse i j))) \<and> zset_fits zs' n"
proof -
  let ?z = "zs_zsl zs"
  have z: "zsl_ok ?z ns" using ok by (simp add: zset_ok_def)
  obtain ns' where ns: "ns = zsl_header ?z # ns'" "length ns' = zsl_length ?z" "items ?z ns = map (node_item (zsl_heap ?z)) ns'"
      "zsl_tail ?z = (if ns' = [] then None else Some (last ns))"
    using zsl_okD [OF z] by metis
  have len: "length ns < 2 ^ 32" using z fits by (simp add: zsl_ok_def zset_fits_def)
  let ?xs = "if reverse then rev ns' else ns'"
  have "zrange_rank reverse i j zs = Some (map (node_item (zsl_heap ?z)) (fst (slice i j ?xs)))"
  proof (cases "sanitize_indexes i j (int (zsetLength zs))")
    case None
    then show ?thesis using ns(2) by (simp add: zrange_rank_def slice_def zsetLength_def)
  next
    case (Some se)
    obtain s e where se: "sanitize_indexes i j (int (zsetLength zs)) = Some (int s, int e)" "s \<le> e" "e < length ns'"
      using Some sanitize_indexes_nat by (metis ns(2) surj_pair zsetLength_def)
    have el: "zslGetElementByRank ?z r = Some (if r \<le> length ns' then Some (ns ! r) else None)" for r
      using zslGetElementByRank_ok [OF z len] ns(1) by (simp add: less_Suc_eq_le)
    have n: "nat (int e - int s + 1) = Suc e - s" using se(2) by auto
    have sl: "fst (slice i j ?xs) = take (Suc e - s) (drop s ?xs)" using se(1) ns(2) n by (simp add: slice_def zsetLength_def)
    show ?thesis
    proof (cases reverse)
      case True
      let ?A = "take (length ns' - s) ns'"
      have ne: "?A \<noteq> []" using se by auto
      have l: "last ?A = ns ! (length ns' - s)" using last_conv_nth [OF ne] ns(1) se by (simp add: nth_Cons')
      have t: "zsl_tail ?z = Some (ns ! length ns')" using ns(1,4) se by (auto simp: last_conv_nth)
      have i: "nat (int (length ns') - int s) = length ns' - s" by simp
      have "(if int s > 0 then zslGetElementByRank ?z (nat (int (zsetLength zs) - int s)) else Some (zsl_tail ?z)) = Some (Some (last ?A))"
        unfolding l using t i el [of "length ns' - s"] ns(2) by (simp add: zsetLength_def)
      then have "zrange_rank reverse i j zs = zrange_loop True (zsl_heap ?z) (Suc e - s) (if ?A = [] then None else Some (last ?A))"
        using True se(1) ne n by (simp add: zrange_rank_def Let_def)
      also have "\<dots> = Some (map (node_item (zsl_heap ?z)) (take (Suc e - s) (rev ?A)))"
      proof (rule zrange_backward)
        show "zsl_ok ?z (zsl_header ?z # ?A @ drop (length ns' - s) ns')" using z ns(1) by simp
      qed (use se(2,3) in simp)
      finally show ?thesis using True sl se by (simp add: rev_take)
    next
      case False
      let ?B = "drop s ns'"
      have hd: "hd ?B = ns ! Suc s" "?B \<noteq> []" using se ns(1) by (simp_all add: hd_drop_conv_nth)
      have "next_of ?z [(zsl_header ?z, 0)] = Some (Some (ns ! 1))"
        using next_of_spec [OF z, of 1 "[(zsl_header ?z, 0)]"] ns(1) se by (cases ns') auto
      then obtain lv where lv: "get_level (zsl_heap ?z) (zsl_header ?z) 0 = Some lv" "lv_forward lv = Some (ns ! 1)" by (auto simp: next_of_def)
      have "zrange_rank reverse i j zs = zrange_loop False (zsl_heap ?z) (Suc e - s) (if ?B = [] then None else Some (hd ?B))"
        using False se hd el [of "Suc s"] n lv by (cases "s = 0") (simp_all add: zrange_rank_def zsetLength_def Let_def nat_add_distrib)
      also have "\<dots> = Some (map (node_item (zsl_heap ?z)) (take (Suc e - s) ?B))"
      proof (rule zrange_forward)
        show "zsl_ok ?z ((zsl_header ?z # take s ns') @ ?B)" using z ns(1) by simp
      qed (use se(2,3) in simp_all)
      finally show ?thesis using False sl by simp
    qed
  qed
  moreover have "fst (slice i j (map f xs)) = map f (fst (slice i j xs))" for f :: "nat \<Rightarrow> 's \<times> bytes" and xs
    by (auto simp: slice_def take_map drop_map split: option.splits prod.splits)
  ultimately show ?thesis using zset_same [OF ok fits] ns(3) by (simp add: rev_map)
qed

lemma node_rank_ok:
  assumes ok: "zset_ok hf zs ns" and fits: "zset_fits zs n" and p: "p < length (tl ns)"
  shows "node_rank (zs_zsl zs) (tl ns ! p) = Some (Suc p)"
proof -
  have z: "zsl_ok (zs_zsl zs) ns" "agree (dict_map (zs_dict zs)) (zs_zsl zs) ns" using ok by (auto simp: zset_ok_def)
  have len: "length ns < 2 ^ 32" "distinct ns" using z(1) fits by (auto simp: zsl_ok_def zset_fits_def)
  have nth: "ns ! Suc p = tl ns ! p" "Suc p < length ns" using p by (cases ns; simp)+
  obtain nd ob where nd: "zsl_heap (zs_zsl zs) (tl ns ! p) = Some nd" "zn_obj nd = Some ob" "member_ok ob"
      "node_item (zsl_heap (zs_zsl zs)) (tl ns ! p) = (zn_score nd, content ob)"
    using zsl_node [OF z(1) _ nth(2)] nth(1) by (metis zero_less_Suc)
  then show ?thesis using zslGetRank_ok(1) [OF z(1) len(1) nd(3) agree_distinct [OF z(2) len(2)], of p] p by (simp add: node_rank_def items_def)
qed

lemma find_between:
  assumes "\<forall>a\<in>set T. \<not> P a" "\<forall>a\<in>set M. P a" "\<forall>a\<in>set R. \<not> P a"
  shows "find P (T @ M @ R) = (if M = [] then None else Some (hd M))"
proof -
  have "find P T = None" "find P R = None" using assms by (auto simp: find_None_iff)
  moreover have "find P (xs @ ys) = (case find P xs of None \<Rightarrow> find P ys | Some a \<Rightarrow> Some a)" for xs ys by (induction xs) auto
  ultimately show ?thesis using assms(2) by (cases M) auto
qed

lemma zcount_law:
  fixes zs :: "('s :: linorder) zset"
  assumes ok: "zset_ok hf zs ns" and fits: "zset_fits zs (Suc n)"
  shows "\<exists>zs'. zset_step cr hf alloc g sum_of zs (ZCount rng) = Some (zs', snd (spec_zop sum_of (items (zs_zsl zs) ns) (ZCount rng))) \<and>
    zset_rel hf zs' (fst (spec_zop sum_of (items (zs_zsl zs) ns) (ZCount rng))) \<and> zset_fits zs' n"
proof -
  let ?z = "zs_zsl zs" and ?P = "\<lambda>a. score_in_range rng (node_score (zs_zsl zs) a)"
  let ?G = "\<lambda>a. zslValueGteMin (node_score ?z a) rng" and ?L = "\<lambda>a. zslValueLteMax (node_score ?z a) rng"
  have z: "zsl_ok ?z ns" using ok by (simp add: zset_ok_def)
  have len: "length ns < 2 ^ 32" "length (tl ns) = zsl_length ?z" using z fits by (auto simp: zsl_ok_def zset_fits_def)
  have mono: "sorted_wrt (\<lambda>a b. ?G a \<longrightarrow> ?G b) (tl ns)" "sorted_wrt (\<lambda>a b. ?L b \<longrightarrow> ?L a) (tl ns)"
    using score_bounds(3) [OF z] by (auto elim!: sorted_wrt_mono_rel [rotated] intro: score_mono)
  define T where "T = takeWhile (\<lambda>a. \<not> ?G a) (tl ns)"
  define M where "M = takeWhile ?L (dropWhile (\<lambda>a. \<not> ?G a) (tl ns))"
  define R where "R = dropWhile ?L (dropWhile (\<lambda>a. \<not> ?G a) (tl ns))"
  have split: "tl ns = T @ M @ R" by (simp add: T_def M_def R_def)
  have f: "filter ?P (tl ns) = M" "filter (\<lambda>a. \<not> ?P a) (tl ns) = T @ R"
    using filter_between [OF mono] unfolding score_in_range_def T_def M_def R_def by simp_all
  have "set (T @ R) = {a \<in> set (tl ns). \<not> ?P a}" "set M = {a \<in> set (tl ns). ?P a}" unfolding f [symmetric] by auto
  then have TR: "\<forall>a\<in>set T. \<not> ?P a" "\<forall>a\<in>set R. \<not> ?P a" and MP: "\<forall>a\<in>set M. ?P a" by auto
  have first: "zslFirstInRange ?z rng = Some (if M = [] then None else Some (hd M))"
    using range_searches(1) [OF z len(1), of rng] find_between [OF TR(1) MP TR(2)] split by simp
  have "find ?P (rev R @ rev M @ rev T) = (if rev M = [] then None else Some (hd (rev M)))"
    by (rule find_between) (use TR MP in auto)
  then have last: "zslLastInRange ?z rng = Some (if M = [] then None else Some (last M))"
    using range_searches(2) [OF z len(1), of rng] split by (simp add: hd_rev)
  have "zcount_range rng zs = Some (int (length M))"
  proof (cases "M = []")
    case False
    have "hd M = tl ns ! length T" "last M = tl ns ! (length T + length M - 1)"
      using False split by (cases M; auto simp: nth_append hd_conv_nth last_conv_nth)+
    moreover have "length T < length (tl ns)" "length T + length M - 1 < length (tl ns)" using False split by (cases M; simp)+
    ultimately have "node_rank ?z (hd M) = Some (Suc (length T))" "node_rank ?z (last M) = Some (length T + length M)"
      using node_rank_ok [OF ok fits, of "length T"] node_rank_ok [OF ok fits, of "length T + length M - 1"] False split by auto
    then show ?thesis using False first last by (simp add: zcount_range_def Let_def)
  qed (simp add: zcount_range_def first)
  moreover have "filter (\<lambda>e. score_in_range rng (fst e)) (items ?z ns) = map (node_item (zsl_heap ?z)) M" using f(1) by (simp add: items_def filter_map comp_def)
  ultimately show ?thesis using zset_same [OF ok fits] by simp
qed

section \<open>Any sequence of operations\<close>

definition allocates :: "('s zheap \<Rightarrow> nat) \<Rightarrow> bool" where
  "allocates alloc \<longleftrightarrow> (\<forall>H. finite (dom H) \<longrightarrow> H (alloc H) = None)"

lemma zset_step_law:
  fixes zs :: "('s :: linorder) zset"
  assumes "zset_rel hf zs L" "allocates alloc" "zset_fits zs (Suc n)" "zop_ok x"
  shows "\<exists>zs'. zset_step cr hf alloc g sum_of zs x = Some (zs', snd (spec_zop sum_of L x)) \<and> zset_rel hf zs' (fst (spec_zop sum_of L x)) \<and> zset_fits zs' n"
proof -
  obtain ns where ok: "zset_ok hf zs ns" and L: "L = items (zs_zsl zs) ns" using assms(1) by (auto simp: zset_rel_def)
  note laws = zadd_law zrem_law zremrange_rank_law zremrange_score_law zscore_law zrank_law zcount_law zrange_law
  show ?thesis
  proof (cases x)
    case (ZAdd incr s c rs)
    then show ?thesis using zadd_law [OF ok assms(3)] assms(2,4) L by (simp add: allocates_def)
  next
    case ZCard
    have "length L = zsl_length (zs_zsl zs)" using ok L by (simp add: zset_ok_def zsl_ok_def items_def)
    then show ?thesis using ZCard zset_same [OF ok assms(3)] L by (simp add: zsetLength_def)
  qed (use laws(2-8) [OF ok assms(3)] assms(4) L in simp_all)
qed

interpretation zsl_set: sorted_set "\<lambda>zs L. zset_rel hf zs L \<and> allocates alloc" zset_fits sum_of "zset_step cr hf alloc g sum_of"
  for hf and alloc :: "('s :: linorder) zheap \<Rightarrow> nat" and sum_of cr g
  using zset_step_law by unfold_locales blast

lemma zset_rel_sorted: "zset_rel hf zs L \<Longrightarrow> sorted_wrt key_less L \<and> distinct (map snd L) \<and> zsetLength zs = length L"
  by (auto simp: zset_rel_def zset_ok_def zsl_ok_def zsetLength_def items_def [symmetric] intro!: agree_distinct)
     (simp_all add: items_def)

lemma createZsetObject_ok: "zset_rel hf (createZsetObject a g :: ('s :: {linorder, zero}) zset) []"
proof -
  let ?z = "zslCreate a g :: 's zskiplist"
  have "zsl_ok ?z [a]"
    by (auto simp: zslCreate_def Let_def zslCreateNode_def zsl_ok_def links_ok_def backs_ok_def link_ok_def get_level_def height_def fwd_def Cons_eq_append_conv)
  moreover have "dict_ok hf (dictCreate :: (bytes, nat) dict)" "dict_map (dictCreate :: (bytes, nat) dict) = Map.empty" 
    by (simp_all add: dictCreate_ok)
  ultimately have "zset_ok hf (createZsetObject a g :: 's zset) [a]" by (simp add: zset_ok_def createZsetObject_def agree_def)
  then show ?thesis by (auto simp: zset_rel_def items_def)
qed

text \<open>
  C14. A sorted set in the skip list encoding behaves as the list of its elements sorted by score and then by
  bytes: every sequence of ZADD, ZINCRBY, ZREM, ZREMRANGEBYRANK, ZREMRANGEBYSCORE, ZSCORE, ZRANK, ZREVRANK,
  ZCOUNT, ZRANGE, ZREVRANGE and ZCARD on a new set returns, whatever levels the random numbers give, and
  answers as the sorted list does.
\<close>

theorem zset_run_correct:
  fixes xs :: "('s :: {linorder, zero}) zop list"
  assumes "allocates alloc" and "\<forall>x\<in>set xs. zop_ok x" and "2 * length xs \<le> LONG_MAX"
  shows "\<exists>zs. zrun (zset_step cr hf alloc g sum_of) (createZsetObject a g) xs = Some (zs, snd (spec_zrun sum_of [] xs)) \<and>
    zset_rel hf zs (fst (spec_zrun sum_of [] xs)) \<and>
    sorted_wrt key_less (fst (spec_zrun sum_of [] xs)) \<and> distinct (map snd (fst (spec_zrun sum_of [] xs)))"
proof -
  have "zset_fits (createZsetObject a g :: 's zset) (length xs)"
    using assms(3) by (simp add: zset_fits_def createZsetObject_def zslCreate_def Let_def dictCreate_ok)
  then show ?thesis
    using zsl_set.zrun_correct [of hf "createZsetObject a g" "[]" alloc xs cr g sum_of] assms(1,2) createZsetObject_ok [of hf a g] zset_rel_sorted by blast
qed

lemma allocates_above: "allocates (\<lambda>H :: 's zheap. Suc (Max (insert 0 (dom H))))"
proof -
  have "H (Suc (Max (insert 0 (dom H)))) = None" if "finite (dom H)" for H :: "'s zheap"
  proof (rule ccontr)
    assume "H (Suc (Max (insert 0 (dom H)))) \<noteq> None"
    then have "Suc (Max (insert 0 (dom H))) \<in> insert 0 (dom H)" by auto
    then have "Suc (Max (insert 0 (dom H))) \<le> Max (insert 0 (dom H))" using that by (intro Max_ge) auto
    then show False by simp
  qed
  then show ?thesis by (simp add: allocates_def)
qed

theorem zset_run_correct_witness:
  "\<exists>zs. zrun (zset_step True (\<lambda>k. 0) (\<lambda>H. Suc (Max (insert 0 (dom H)))) \<lparr>lv_forward = None, lv_span = 0\<rparr> (\<lambda>x y. Some (x + y))) (createZsetObject 1 \<lparr>lv_forward = None, lv_span = 0\<rparr>)
      [ZAdd False 5 [97] [65535], ZAdd False (3 :: int) [98] [0, 65535], ZAdd True 7 [98] [1, 2, 16384], ZRange False 0 (- 1), ZRank True [98]] =
    Some (zs, [RAdd (ZDone 1 0 5), RAdd (ZDone 1 0 3), RAdd (ZDone 0 1 10), RList [(5, [97]), (10, [98])], RRank (Some 0)])"
  using zset_run_correct [of "\<lambda>H. Suc (Max (insert 0 (dom H)))"
      "[ZAdd False 5 [97] [65535], ZAdd False (3 :: int) [98] [0, 65535], ZAdd True 7 [98] [1, 2, 16384], ZRange False 0 (- 1), ZRank True [98]]"
      True "\<lambda>k. 0" "\<lparr>lv_forward = None, lv_span = 0\<rparr>" "\<lambda>x y. Some (x + y)" 1]
  by (auto simp: allocates_above zslRandomLevel_def score_of_def put_element_def drop_member_def key_less_def slice_def sanitize_indexes_def)


section \<open>Lexicographic ranges\<close>

text \<open>
  The test for empty ranges compares the bytes of the two bounds, and the open ends are shared objects with the
  bytes of a name: a range from the open lower end up to the member with that name, excluded, is taken for
  empty, although smaller members are in the range.
\<close>

lemma lex_range_minstring:
  assumes "zslParseLexRange (ENC_RAW [45]) (ENC_RAW (40 # content (shared_text minstring))) = Some rng"
  shows "zslIsInLexRange z rng = Some False" "zslFirstInLexRange z rng = Some None"
    "zslLexValueGteMin (ENC_RAW [97]) rng" "zslLexValueLteMax (ENC_RAW [97]) rng"
proof -
  have rng: "rng = \<lparr>zl_min = minstring, zl_max = LexObj (shared_text minstring), zl_minex = False, zl_maxex = True\<rparr>"
    using assms by (simp add: zslParseLexRange_def zslParseLexRangeItem_def shared_text_def)
  show "zslIsInLexRange z rng = Some False"
    by (simp add: rng zslIsInLexRange_def compareStringObjects_def shared_text_def compare_bytes_def)
  then show "zslFirstInLexRange z rng = Some None" by (simp add: zslFirstInLexRange_def)
  show "zslLexValueGteMin (ENC_RAW [97]) rng" "zslLexValueLteMax (ENC_RAW [97]) rng"
    by (simp_all add: rng zslLexValueGteMin_def zslLexValueLteMax_def compareStringObjectsForLexRange_def compareStringObjects_def shared_text_def compare_bytes_def)
qed

end
