(* ===== verification/Ziplist.thy ===== *)
theory Ziplist
  imports Util "HOL-Library.Monad_Syntax"
begin

text \<open>
  The ziplist of ziplist.c: a list of strings and integers in one block of memory. The model works on the
  block itself, a list of bytes; a pointer into it is an offset and \<open>NULL\<close> is \<open>None\<close>. An operation
  returns \<open>None\<close> when it reads or writes outside the block or fails an assertion. The argument \<open>g\<close> is the
  content of memory that a reallocation adds.
\<close>

section \<open>Encodings\<close>

abbreviation ZIP_END :: byte where "ZIP_END \<equiv> 255"
abbreviation ZIP_BIGLEN :: nat where "ZIP_BIGLEN \<equiv> 254"
abbreviation ZIP_STR_MASK :: byte where "ZIP_STR_MASK \<equiv> 192"
abbreviation ZIP_STR_06B :: byte where "ZIP_STR_06B \<equiv> 0"
abbreviation ZIP_STR_14B :: byte where "ZIP_STR_14B \<equiv> 64"
abbreviation ZIP_STR_32B :: byte where "ZIP_STR_32B \<equiv> 128"
abbreviation ZIP_INT_16B :: byte where "ZIP_INT_16B \<equiv> 192"
abbreviation ZIP_INT_32B :: byte where "ZIP_INT_32B \<equiv> 208"
abbreviation ZIP_INT_64B :: byte where "ZIP_INT_64B \<equiv> 224"
abbreviation ZIP_INT_24B :: byte where "ZIP_INT_24B \<equiv> 240"
abbreviation ZIP_INT_8B :: byte where "ZIP_INT_8B \<equiv> 254"
abbreviation ZIP_INT_IMM_MIN :: byte where "ZIP_INT_IMM_MIN \<equiv> 241"
abbreviation ZIP_INT_IMM_MAX :: byte where "ZIP_INT_IMM_MAX \<equiv> 253"
abbreviation ZIPLIST_HEADER_SIZE :: nat where "ZIPLIST_HEADER_SIZE \<equiv> 10"
abbreviation UINT16_MAX :: nat where "UINT16_MAX \<equiv> 65535"

definition uint_at :: "nat \<Rightarrow> bytes \<Rightarrow> nat \<Rightarrow> nat option" where
  "uint_at n zl p = map_option (\<lambda>b. nat (le_uint b)) (rd zl p n)"

definition ZIP_IS_STR :: "byte \<Rightarrow> bool" where
  "ZIP_IS_STR enc \<longleftrightarrow> (enc AND ZIP_STR_MASK) < ZIP_STR_MASK"

definition ZIP_ENTRY_ENCODING :: "byte \<Rightarrow> byte" where
  "ZIP_ENTRY_ENCODING b = (if b < ZIP_STR_MASK then b AND ZIP_STR_MASK else b)"

definition zipIntSize :: "byte \<Rightarrow> nat" where
  "zipIntSize encoding =
    (if encoding = ZIP_INT_8B then 1 else if encoding = ZIP_INT_16B then 2 else if encoding = ZIP_INT_24B then 3
     else if encoding = ZIP_INT_32B then 4 else if encoding = ZIP_INT_64B then 8 else 0)"

text \<open>The bytes that are written; their number is what the function returns, also when it writes nothing.\<close>

definition zipEncodeLength :: "byte \<Rightarrow> nat \<Rightarrow> bytes" where
  "zipEncodeLength encoding rawlen =
    (if ZIP_IS_STR encoding then
       (if rawlen \<le> 63 then [ZIP_STR_06B OR of_nat rawlen]
        else if rawlen \<le> 16383 then [ZIP_STR_14B OR (of_nat (rawlen div 256) AND 63), of_nat rawlen]
        else [ZIP_STR_32B, of_nat (rawlen div 2 ^ 24), of_nat (rawlen div 2 ^ 16), of_nat (rawlen div 2 ^ 8), of_nat rawlen])
     else [encoding])"

text \<open>The encoding, the number of bytes of the length and the length.\<close>

definition ZIP_DECODE_LENGTH :: "bytes \<Rightarrow> nat \<Rightarrow> (byte \<times> nat \<times> nat) option" where
  "ZIP_DECODE_LENGTH zl p = do {
     b \<leftarrow> byte_at zl p;
     let encoding = ZIP_ENTRY_ENCODING b;
     if encoding < ZIP_STR_MASK then
       (if encoding = ZIP_STR_06B then Some (encoding, 1, unat (b AND 63))
        else if encoding = ZIP_STR_14B then do {
          b1 \<leftarrow> byte_at zl (p + 1);
          Some (encoding, 2, unat (b AND 63) * 2 ^ 8 + unat b1)
        } else if encoding = ZIP_STR_32B then do {
          b1 \<leftarrow> byte_at zl (p + 1);
          b2 \<leftarrow> byte_at zl (p + 2);
          b3 \<leftarrow> byte_at zl (p + 3);
          b4 \<leftarrow> byte_at zl (p + 4);
          Some (encoding, 5, unat b1 * 2 ^ 24 + unat b2 * 2 ^ 16 + unat b3 * 2 ^ 8 + unat b4)
        } else None)
     else Some (encoding, 1, zipIntSize encoding)
   }"

definition zipPrevEncodeLength :: "nat \<Rightarrow> bytes" where
  "zipPrevEncodeLength len = (if len < ZIP_BIGLEN then [of_nat len] else of_nat ZIP_BIGLEN # le_bytes 4 (int len))"

definition zipPrevEncodeLengthForceLarge :: "nat \<Rightarrow> bytes" where
  "zipPrevEncodeLengthForceLarge len = of_nat ZIP_BIGLEN # le_bytes 4 (int len)"

definition ZIP_DECODE_PREVLENSIZE :: "bytes \<Rightarrow> nat \<Rightarrow> nat option" where
  "ZIP_DECODE_PREVLENSIZE zl p = do { b \<leftarrow> byte_at zl p; Some (if unat b < ZIP_BIGLEN then 1 else 5) }"

definition ZIP_DECODE_PREVLEN :: "bytes \<Rightarrow> nat \<Rightarrow> (nat \<times> nat) option" where
  "ZIP_DECODE_PREVLEN zl p = do {
     prevlensize \<leftarrow> ZIP_DECODE_PREVLENSIZE zl p;
     prevlen \<leftarrow> (if prevlensize = 1 then map_option unat (byte_at zl p) else uint_at 4 zl (p + 1));
     Some (prevlensize, prevlen)
   }"

definition zipPrevLenByteDiff :: "bytes \<Rightarrow> nat \<Rightarrow> nat \<Rightarrow> int option" where
  "zipPrevLenByteDiff zl p len = do {
     prevlensize \<leftarrow> ZIP_DECODE_PREVLENSIZE zl p;
     Some (int (length (zipPrevEncodeLength len)) - int prevlensize)
   }"

definition zipRawEntryLength :: "bytes \<Rightarrow> nat \<Rightarrow> nat option" where
  "zipRawEntryLength zl p = do {
     prevlensize \<leftarrow> ZIP_DECODE_PREVLENSIZE zl p;
     (encoding, lensize, len) \<leftarrow> ZIP_DECODE_LENGTH zl (p + prevlensize);
     Some (prevlensize + lensize + len)
   }"

definition zipTryEncoding :: "bytes \<Rightarrow> (int \<times> byte) option" where
  "zipTryEncoding entry =
    (if length entry \<ge> 32 \<or> entry = [] then None
     else do {
       value \<leftarrow> string2ll entry;
       Some (value,
         if value \<ge> 0 \<and> value \<le> 12 then ZIP_INT_IMM_MIN + word_of_int value
         else if value \<ge> - 128 \<and> value \<le> 127 then ZIP_INT_8B
         else if value \<ge> - 32768 \<and> value \<le> 32767 then ZIP_INT_16B
         else if value \<ge> - 8388608 \<and> value \<le> 8388607 then ZIP_INT_24B
         else if value \<ge> - 2147483648 \<and> value \<le> 2147483647 then ZIP_INT_32B
         else ZIP_INT_64B)
     })"

definition zipSaveInteger :: "int \<Rightarrow> byte \<Rightarrow> bytes option" where
  "zipSaveInteger value encoding =
    (if encoding = ZIP_INT_8B then Some (le_bytes 1 value)
     else if encoding = ZIP_INT_16B then Some (le_bytes 2 value)
     else if encoding = ZIP_INT_24B then Some (drop 1 (le_bytes 4 (value * 2 ^ 8)))
     else if encoding = ZIP_INT_32B then Some (le_bytes 4 value)
     else if encoding = ZIP_INT_64B then Some (le_bytes 8 value)
     else if encoding \<ge> ZIP_INT_IMM_MIN \<and> encoding \<le> ZIP_INT_IMM_MAX then Some []
     else None)"

definition zipLoadInteger :: "bytes \<Rightarrow> nat \<Rightarrow> byte \<Rightarrow> int option" where
  "zipLoadInteger zl p encoding =
    (if encoding = ZIP_INT_8B then map_option le_sint (rd zl p 1)
     else if encoding = ZIP_INT_16B then map_option le_sint (rd zl p 2)
     else if encoding = ZIP_INT_32B then map_option le_sint (rd zl p 4)
     else if encoding = ZIP_INT_24B then map_option (\<lambda>b. le_sint (0 # b) div 2 ^ 8) (rd zl p 3)
     else if encoding = ZIP_INT_64B then map_option le_sint (rd zl p 8)
     else if encoding \<ge> ZIP_INT_IMM_MIN \<and> encoding \<le> ZIP_INT_IMM_MAX then Some (uint (encoding AND 15) - 1)
     else None)"

record zlentry =
  ze_prevrawlensize :: nat
  ze_prevrawlen :: nat
  ze_lensize :: nat
  ze_len :: nat
  ze_encoding :: byte
  ze_p :: nat

abbreviation ze_headersize :: "zlentry \<Rightarrow> nat" where
  "ze_headersize e \<equiv> ze_prevrawlensize e + ze_lensize e"

definition zipEntry :: "bytes \<Rightarrow> nat \<Rightarrow> zlentry option" where
  "zipEntry zl p = do {
     (prevrawlensize, prevrawlen) \<leftarrow> ZIP_DECODE_PREVLEN zl p;
     (encoding, lensize, len) \<leftarrow> ZIP_DECODE_LENGTH zl (p + prevrawlensize);
     Some \<lparr>ze_prevrawlensize = prevrawlensize, ze_prevrawlen = prevrawlen, ze_lensize = lensize, ze_len = len,
       ze_encoding = encoding, ze_p = p\<rparr>
   }"

section \<open>The header\<close>

definition ZIPLIST_BYTES :: "bytes \<Rightarrow> nat option" where
  "ZIPLIST_BYTES zl = uint_at 4 zl 0"

definition ZIPLIST_TAIL_OFFSET :: "bytes \<Rightarrow> nat option" where
  "ZIPLIST_TAIL_OFFSET zl = uint_at 4 zl 4"

definition ZIPLIST_LENGTH :: "bytes \<Rightarrow> nat option" where
  "ZIPLIST_LENGTH zl = uint_at 2 zl 8"

definition set_tail_offset :: "int \<Rightarrow> bytes \<Rightarrow> bytes option" where
  "set_tail_offset v zl = wr zl 4 (le_bytes 4 v)"

definition ZIPLIST_INCR_LENGTH :: "int \<Rightarrow> bytes \<Rightarrow> bytes option" where
  "ZIPLIST_INCR_LENGTH incr zl = do {
     len \<leftarrow> ZIPLIST_LENGTH zl;
     if len < UINT16_MAX then wr zl 8 (le_bytes 2 (int len + incr)) else Some zl
   }"

definition ziplistNew :: "bytes" where
  "ziplistNew = le_bytes 4 11 @ le_bytes 4 10 @ le_bytes 2 0 @ [ZIP_END]"

definition ziplistResize :: "byte \<Rightarrow> bytes \<Rightarrow> nat \<Rightarrow> bytes option" where
  "ziplistResize g zl len =
    (let len = len mod 2 ^ 32; zl = zrealloc g zl len
     in Option.bind (wr zl 0 (le_bytes 4 (int len))) (\<lambda>zl. if len = 0 then None else wr zl (len - 1) [ZIP_END]))"

section \<open>Updates\<close>

partial_function (option) ziplistCascadeUpdate :: "byte \<Rightarrow> bytes \<Rightarrow> nat \<Rightarrow> nat \<Rightarrow> bytes option" where
  "ziplistCascadeUpdate g zl p curlen = do {
     b \<leftarrow> byte_at zl p;
     if b = ZIP_END then Some zl
     else do {
       cur \<leftarrow> zipEntry zl p;
       let rawlen = ze_headersize cur + ze_len cur;
       let rawlensize = length (zipPrevEncodeLength rawlen);
       b \<leftarrow> byte_at zl (p + rawlen);
       if b = ZIP_END then Some zl
       else do {
         next \<leftarrow> zipEntry zl (p + rawlen);
         if ze_prevrawlen next = rawlen then Some zl
         else if ze_prevrawlensize next < rawlensize then do {
           let extra = rawlensize - ze_prevrawlensize next;
           zl \<leftarrow> ziplistResize g zl (curlen + extra);
           let np = p + rawlen;
           tl \<leftarrow> ZIPLIST_TAIL_OFFSET zl;
           zl \<leftarrow> (if tl \<noteq> np then set_tail_offset (int (tl + extra)) zl else Some zl);
           zl \<leftarrow> memmove zl (np + rawlensize) (np + ze_prevrawlensize next) (curlen - np - ze_prevrawlensize next - 1);
           zl \<leftarrow> wr zl np (zipPrevEncodeLength rawlen);
           ziplistCascadeUpdate g zl (p + rawlen) (curlen + extra)
         } else if ze_prevrawlensize next > rawlensize then wr zl (p + rawlen) (zipPrevEncodeLengthForceLarge rawlen)
         else wr zl (p + rawlen) (zipPrevEncodeLength rawlen)
       }
     }
   }"

definition cascade_update :: "byte \<Rightarrow> bytes \<Rightarrow> nat \<Rightarrow> bytes option" where
  "cascade_update g zl p = do { curlen \<leftarrow> ZIPLIST_BYTES zl; ziplistCascadeUpdate g zl p curlen }"

fun delete_scan :: "bytes \<Rightarrow> nat \<Rightarrow> nat \<Rightarrow> (nat \<times> nat) option" where
  "delete_scan zl p 0 = Some (p, 0)"
| "delete_scan zl p (Suc num) = do {
     b \<leftarrow> byte_at zl p;
     if b = ZIP_END then Some (p, 0)
     else do {
       n \<leftarrow> zipRawEntryLength zl p;
       (p, deleted) \<leftarrow> delete_scan zl (p + n) num;
       Some (p, Suc deleted)
     }
   }"

definition ziplistDelete_num :: "byte \<Rightarrow> bytes \<Rightarrow> nat \<Rightarrow> nat \<Rightarrow> bytes option" where
  "ziplistDelete_num g zl p num = do {
     first \<leftarrow> zipEntry zl p;
     (p, deleted) \<leftarrow> delete_scan zl p num;
     let totlen = p - ze_p first;
     if totlen > 0 then do {
       b \<leftarrow> byte_at zl p;
       (zl, nextdiff) \<leftarrow> (if b \<noteq> ZIP_END then do {
           nextdiff \<leftarrow> zipPrevLenByteDiff zl p (ze_prevrawlen first);
           let p = nat (int p - nextdiff);
           zl \<leftarrow> wr zl p (zipPrevEncodeLength (ze_prevrawlen first));
           tl \<leftarrow> ZIPLIST_TAIL_OFFSET zl;
           zl \<leftarrow> set_tail_offset (int tl - int totlen) zl;
           tail \<leftarrow> zipEntry zl p;
           b \<leftarrow> byte_at zl (p + ze_headersize tail + ze_len tail);
           zl \<leftarrow> (if b \<noteq> ZIP_END then do { tl \<leftarrow> ZIPLIST_TAIL_OFFSET zl; set_tail_offset (int tl + nextdiff) zl } else Some zl);
           bytes \<leftarrow> ZIPLIST_BYTES zl;
           zl \<leftarrow> memmove zl (ze_p first) p (bytes - p - 1);
           Some (zl, nextdiff)
         } else do {
           zl \<leftarrow> set_tail_offset (int (ze_p first) - int (ze_prevrawlen first)) zl;
           Some (zl, 0)
         });
       bytes \<leftarrow> ZIPLIST_BYTES zl;
       zl \<leftarrow> ziplistResize g zl (nat (int bytes - int totlen + nextdiff));
       zl \<leftarrow> ZIPLIST_INCR_LENGTH (- int deleted) zl;
       if nextdiff \<noteq> 0 then cascade_update g zl (ze_p first) else Some zl
     } else Some zl
   }"

text \<open>The last part of an insertion, from \<open>Write the entry\<close> on.\<close>

definition write_entry :: "nat \<Rightarrow> nat \<Rightarrow> byte \<Rightarrow> bytes \<Rightarrow> bytes \<Rightarrow> bytes option" where
  "write_entry p prevlen encoding s zl = do {
     zl \<leftarrow> wr zl p (zipPrevEncodeLength prevlen);
     let p = p + length (zipPrevEncodeLength prevlen);
     zl \<leftarrow> wr zl p (zipEncodeLength encoding (length s));
     let p = p + length (zipEncodeLength encoding (length s));
     payload \<leftarrow> (case zipTryEncoding s of None \<Rightarrow> Some s | Some (value, encoding) \<Rightarrow> zipSaveInteger value encoding);
     zl \<leftarrow> wr zl p payload;
     ZIPLIST_INCR_LENGTH 1 zl
   }"

definition ziplistInsert :: "byte \<Rightarrow> bytes \<Rightarrow> nat \<Rightarrow> bytes \<Rightarrow> bytes option" where
  "ziplistInsert g zl p s = do {
     curlen \<leftarrow> ZIPLIST_BYTES zl;
     b \<leftarrow> byte_at zl p;
     prevlen \<leftarrow> (if b \<noteq> ZIP_END then map_option snd (ZIP_DECODE_PREVLEN zl p)
       else do {
         ptail \<leftarrow> ZIPLIST_TAIL_OFFSET zl;
         b \<leftarrow> byte_at zl ptail;
         if b \<noteq> ZIP_END then zipRawEntryLength zl ptail else Some 0
       });
     let encoding = (case zipTryEncoding s of Some (value, encoding) \<Rightarrow> encoding | None \<Rightarrow> 0);
     let reqlen = (if zipTryEncoding s \<noteq> None then zipIntSize encoding else length s)
       + length (zipPrevEncodeLength prevlen) + length (zipEncodeLength encoding (length s));
     nextdiff \<leftarrow> (if b \<noteq> ZIP_END then zipPrevLenByteDiff zl p reqlen else Some 0);
     zl \<leftarrow> ziplistResize g zl (nat (int (curlen + reqlen) + nextdiff));
     b \<leftarrow> byte_at zl p;
     zl \<leftarrow> (if b \<noteq> ZIP_END then do {
         zl \<leftarrow> memmove zl (p + reqlen) (nat (int p - nextdiff)) (nat (int curlen - int p - 1 + nextdiff));
         zl \<leftarrow> wr zl (p + reqlen) (zipPrevEncodeLength reqlen);
         tl \<leftarrow> ZIPLIST_TAIL_OFFSET zl;
         zl \<leftarrow> set_tail_offset (int (tl + reqlen)) zl;
         tail \<leftarrow> zipEntry zl (p + reqlen);
         b \<leftarrow> byte_at zl (p + reqlen + ze_headersize tail + ze_len tail);
         if b \<noteq> ZIP_END then do { tl \<leftarrow> ZIPLIST_TAIL_OFFSET zl; set_tail_offset (int tl + nextdiff) zl } else Some zl
       } else set_tail_offset (int p) zl);
     zl \<leftarrow> (if nextdiff \<noteq> 0 then cascade_update g zl (p + reqlen) else Some zl);
     write_entry p prevlen encoding s zl
   }"

section \<open>Access\<close>

definition ziplistPush :: "byte \<Rightarrow> bytes \<Rightarrow> bytes \<Rightarrow> bool \<Rightarrow> bytes option" where
  "ziplistPush g zl s head = do {
     p \<leftarrow> (if head then Some ZIPLIST_HEADER_SIZE else do { n \<leftarrow> ZIPLIST_BYTES zl; Some (n - 1) });
     ziplistInsert g zl p s
   }"

text \<open>The loops of \<open>ziplistIndex\<close>: the position reached and the value of the counter after the last test.\<close>

fun index_back :: "bytes \<Rightarrow> nat \<Rightarrow> nat \<Rightarrow> nat \<Rightarrow> (nat \<times> int) option" where
  "index_back zl p prevlen 0 = Some (p, if prevlen > 0 then - 1 else 0)"
| "index_back zl p prevlen (Suc index) =
    (if prevlen > 0 then
       (if prevlen \<le> p then do {
          (size, prevlen') \<leftarrow> ZIP_DECODE_PREVLEN zl (p - prevlen);
          index_back zl (p - prevlen) prevlen' index
        } else None)
     else Some (p, int (Suc index)))"

fun index_forward :: "bytes \<Rightarrow> nat \<Rightarrow> nat \<Rightarrow> (nat \<times> int) option" where
  "index_forward zl p 0 = do { b \<leftarrow> byte_at zl p; Some (p, if b \<noteq> ZIP_END then - 1 else 0) }"
| "index_forward zl p (Suc index) = do {
     b \<leftarrow> byte_at zl p;
     if b \<noteq> ZIP_END then do { n \<leftarrow> zipRawEntryLength zl p; index_forward zl (p + n) index }
     else Some (p, int (Suc index))
   }"

definition ziplistIndex :: "bytes \<Rightarrow> int \<Rightarrow> nat option option" where
  "ziplistIndex zl index = do {
     (p, index) \<leftarrow> (if index < 0 then do {
         let index = - index - 1;
         p \<leftarrow> ZIPLIST_TAIL_OFFSET zl;
         b \<leftarrow> byte_at zl p;
         if b \<noteq> ZIP_END then do {
           (size, prevlen) \<leftarrow> ZIP_DECODE_PREVLEN zl p;
           index_back zl p prevlen (nat index)
         } else Some (p, index)
       } else index_forward zl ZIPLIST_HEADER_SIZE (nat index));
     b \<leftarrow> byte_at zl p;
     Some (if b = ZIP_END \<or> index > 0 then None else Some p)
   }"

definition ziplistNext :: "bytes \<Rightarrow> nat \<Rightarrow> nat option option" where
  "ziplistNext zl p = do {
     b \<leftarrow> byte_at zl p;
     if b = ZIP_END then Some None
     else do {
       n \<leftarrow> zipRawEntryLength zl p;
       b \<leftarrow> byte_at zl (p + n);
       Some (if b = ZIP_END then None else Some (p + n))
     }
   }"

definition ziplistPrev :: "bytes \<Rightarrow> nat \<Rightarrow> nat option option" where
  "ziplistPrev zl p = do {
     b \<leftarrow> byte_at zl p;
     if b = ZIP_END then do {
       p \<leftarrow> ZIPLIST_TAIL_OFFSET zl;
       b \<leftarrow> byte_at zl p;
       Some (if b = ZIP_END then None else Some p)
     } else if p = ZIPLIST_HEADER_SIZE then Some None
     else do {
       (size, prevlen) \<leftarrow> ZIP_DECODE_PREVLEN zl p;
       if prevlen > 0 \<and> prevlen \<le> p then Some (Some (p - prevlen)) else None
     }
   }"

text \<open>The string or the integer of an entry; \<open>None\<close> at the end of the list.\<close>

definition ziplistGet :: "bytes \<Rightarrow> nat option \<Rightarrow> (bytes + int) option option" where
  "ziplistGet zl p = (case p of
      None \<Rightarrow> Some None
    | Some p \<Rightarrow> do {
        b \<leftarrow> byte_at zl p;
        if b = ZIP_END then Some None
        else do {
          entry \<leftarrow> zipEntry zl p;
          if ZIP_IS_STR (ze_encoding entry) then do { s \<leftarrow> rd zl (p + ze_headersize entry) (ze_len entry); Some (Some (Inl s)) }
          else do { v \<leftarrow> zipLoadInteger zl (p + ze_headersize entry) (ze_encoding entry); Some (Some (Inr v)) }
        }
      })"

definition ziplistDelete :: "byte \<Rightarrow> bytes \<Rightarrow> nat \<Rightarrow> bytes option" where
  "ziplistDelete g zl p = ziplistDelete_num g zl p 1"

definition ziplistDeleteRange :: "byte \<Rightarrow> bytes \<Rightarrow> nat \<Rightarrow> nat \<Rightarrow> bytes option" where
  "ziplistDeleteRange g zl index num = do {
     p \<leftarrow> ziplistIndex zl (int index);
     case p of None \<Rightarrow> Some zl | Some p \<Rightarrow> ziplistDelete_num g zl p num
   }"

definition ziplistCompare :: "bytes \<Rightarrow> nat \<Rightarrow> bytes \<Rightarrow> bool option" where
  "ziplistCompare zl p sstr = do {
     b \<leftarrow> byte_at zl p;
     if b = ZIP_END then Some False
     else do {
       entry \<leftarrow> zipEntry zl p;
       if ZIP_IS_STR (ze_encoding entry) then
         (if ze_len entry = length sstr then do { s \<leftarrow> rd zl (p + ze_headersize entry) (ze_len entry); Some (s = sstr) } else Some False)
       else (case zipTryEncoding sstr of
           Some (sval, sencoding) \<Rightarrow> do { zval \<leftarrow> zipLoadInteger zl (p + ze_headersize entry) (ze_encoding entry); Some (zval = sval) }
         | None \<Rightarrow> Some False)
     }
   }"

text \<open>\<open>enc\<close> is the encoding of the value looked for once it was tried: \<open>Some None\<close> stands for \<open>UCHAR_MAX\<close>.\<close>

partial_function (option) find_loop :: "bytes \<Rightarrow> nat \<Rightarrow> bytes \<Rightarrow> nat \<Rightarrow> nat \<Rightarrow> int option option \<Rightarrow> nat option option" where
  "find_loop zl p vstr skip skipcnt enc = do {
     b \<leftarrow> byte_at zl p;
     if b = ZIP_END then Some None
     else do {
       prevlensize \<leftarrow> ZIP_DECODE_PREVLENSIZE zl p;
       (encoding, lensize, len) \<leftarrow> ZIP_DECODE_LENGTH zl (p + prevlensize);
       let q = p + prevlensize + lensize;
       if skipcnt = 0 then
         (if ZIP_IS_STR encoding then do {
            same \<leftarrow> (if len = length vstr then do { s \<leftarrow> rd zl q len; Some (s = vstr) } else Some False);
            if same then Some (Some p) else find_loop zl (q + len) vstr skip skip enc
          } else do {
            let enc = (case enc of None \<Rightarrow> Some (map_option fst (zipTryEncoding vstr)) | Some e \<Rightarrow> Some e);
            case enc of
              Some (Some vll) \<Rightarrow> do {
                ll \<leftarrow> zipLoadInteger zl q encoding;
                if ll = vll then Some (Some p) else find_loop zl (q + len) vstr skip skip enc
              }
            | _ \<Rightarrow> find_loop zl (q + len) vstr skip skip enc
          })
       else find_loop zl (q + len) vstr skip (skipcnt - 1) enc
     }
   }"

definition ziplistFind :: "bytes \<Rightarrow> nat \<Rightarrow> bytes \<Rightarrow> nat \<Rightarrow> nat option option" where
  "ziplistFind zl p vstr skip = find_loop zl p vstr skip 0 None"

partial_function (option) count_loop :: "bytes \<Rightarrow> nat \<Rightarrow> nat \<Rightarrow> nat option" where
  "count_loop zl p len = do {
     b \<leftarrow> byte_at zl p;
     if b = ZIP_END then Some len
     else do { n \<leftarrow> zipRawEntryLength zl p; count_loop zl (p + n) (len + 1) }
   }"

definition ziplistLen :: "bytes \<Rightarrow> (bytes \<times> nat) option" where
  "ziplistLen zl = do {
     n \<leftarrow> ZIPLIST_LENGTH zl;
     if n < UINT16_MAX then Some (zl, n)
     else do {
       len \<leftarrow> count_loop zl ZIPLIST_HEADER_SIZE 0;
       zl \<leftarrow> (if len < UINT16_MAX then wr zl 8 (le_bytes 2 (int len)) else Some zl);
       Some (zl, len)
     }
   }"

definition ziplistBlobLen :: "bytes \<Rightarrow> nat option" where
  "ziplistBlobLen zl = ZIPLIST_BYTES zl"

end
