(* ===== verification/Ziplist_Update.thy ===== *)
theory Ziplist_Update
  imports Ziplist
begin

text \<open>
  The layout of a well-formed ziplist as a list of entries, what reading an entry returns, and that an
  insertion, a deletion and the cascade of updates they start keep the layout and stay inside the block.
\<close>

section \<open>Entries\<close>

text \<open>What an entry stores for a string: its length or the encoding of an integer, and the string or the integer.\<close>

definition zl_encoding :: "bytes \<Rightarrow> byte" where
  "zl_encoding s = (case zipTryEncoding s of Some (v, e) \<Rightarrow> e | None \<Rightarrow> ZIP_ENTRY_ENCODING (hd (zipEncodeLength 0 (length s))))"

definition zl_head :: "bytes \<Rightarrow> bytes" where
  "zl_head s = zipEncodeLength (case zipTryEncoding s of Some (v, e) \<Rightarrow> e | None \<Rightarrow> 0) (length s)"

definition zl_payload :: "bytes \<Rightarrow> bytes" where
  "zl_payload s = (case zipTryEncoding s of Some (v, e) \<Rightarrow> the (zipSaveInteger v e) | None \<Rightarrow> s)"

definition zl_body :: "bytes \<Rightarrow> bytes" where
  "zl_body s = zl_head s @ zl_payload s"

lemma byte_at_append [simp]: "byte_at (A @ b # R) (length A) = Some b"
  by (simp add: byte_at_def)

lemma rd_at: "length A = p \<Longrightarrow> length B = n \<Longrightarrow> rd (A @ B @ R) p n = Some B"
  by (simp add: rd_def)

lemma wr_at: "length A = p \<Longrightarrow> length B = length bs \<Longrightarrow> wr (A @ B @ R) p bs = Some (A @ bs @ R)"
  by (simp add: wr_def)

lemma byte_imm:
  assumes "0 \<le> v" "v \<le> 12"
  shows "(\<lambda>e :: byte. ZIP_INT_IMM_MIN \<le> e \<and> e \<le> ZIP_INT_IMM_MAX \<and> uint (e AND 15) - 1 = v \<and> ZIP_STR_MASK \<le> e \<and> \<not> ZIP_IS_STR e \<and>
    ZIP_ENTRY_ENCODING e = e \<and> e \<notin> {ZIP_END, ZIP_INT_8B, ZIP_INT_16B, ZIP_INT_24B, ZIP_INT_32B, ZIP_INT_64B}) (ZIP_INT_IMM_MIN + word_of_int v)"
    (is "?P v")
proof -
  have "v \<in> set [0..12]" using assms by simp
  moreover have "\<forall>v\<in>set [0..12]. ?P v" by code_simp
  ultimately show ?thesis by blast
qed

lemma zipTryEncoding_bounds: "zipTryEncoding s = Some (v, e) \<Longrightarrow> s = decimal v \<and> int64_range v"
  by (auto simp: zipTryEncoding_def string2ll_spec split: if_splits bind_splits)

lemma zipTryEncoding_enc:
  assumes "zipTryEncoding s = Some (v, e)"
  shows "ZIP_STR_MASK \<le> e \<and> e \<noteq> ZIP_END \<and> \<not> ZIP_IS_STR e \<and> ZIP_ENTRY_ENCODING e = e"
proof -
  consider "e \<in> {ZIP_INT_8B, ZIP_INT_16B, ZIP_INT_24B, ZIP_INT_32B, ZIP_INT_64B}" | "0 \<le> v" "v \<le> 12" "e = ZIP_INT_IMM_MIN + word_of_int v"
    using assms by (fastforce simp: zipTryEncoding_def split: if_splits bind_splits)
  then show ?thesis
  proof cases
    case 2
    then show ?thesis using byte_imm [OF 2(1,2), folded 2(3)] by blast
  qed (auto simp: ZIP_IS_STR_def ZIP_ENTRY_ENCODING_def)
qed

lemma le_sint_24: "- 8388608 \<le> v \<Longrightarrow> v \<le> 8388607 \<Longrightarrow> le_sint (0 # drop 1 (le_bytes 4 (v * 2 ^ 8))) div 2 ^ 8 = v"
proof -
  assume v: "- 8388608 \<le> v" "v \<le> 8388607"
  have "0 # drop 1 (le_bytes 4 (v * 2 ^ 8)) = le_bytes 4 (v * 2 ^ 8)" using uint_byte_of_int [of "v * 2 ^ 8"]
    by (simp add: numeral_eq_Suc) (metis mod_mult_self2_is_0 uint_0_iff)
  moreover have "le_sint (le_bytes 4 (v * 2 ^ 8)) = v * 2 ^ 8" using v by (intro le_sint_le_bytes) (auto simp: fits_signed_def)
  ultimately show ?thesis by simp
qed

lemma zipSaveInteger_ok:
  assumes "zipTryEncoding s = Some (v, e)"
  shows "\<exists>pl. zipSaveInteger v e = Some pl \<and> length pl = zipIntSize e \<and> (\<forall>A R. zipLoadInteger (A @ pl @ R) (length A) e = Some v)"
proof -
  have r: "int64_range v" using zipTryEncoding_bounds [OF assms] by simp
  consider "0 \<le> v" "v \<le> 12" "e = ZIP_INT_IMM_MIN + word_of_int v"
    | "- 128 \<le> v" "v \<le> 127" "e = ZIP_INT_8B" | "- 32768 \<le> v" "v \<le> 32767" "e = ZIP_INT_16B"
    | "- 8388608 \<le> v" "v \<le> 8388607" "e = ZIP_INT_24B" | "- 2147483648 \<le> v" "v \<le> 2147483647" "e = ZIP_INT_32B" | "e = ZIP_INT_64B"
    using assms by (fastforce simp: zipTryEncoding_def split: if_splits bind_splits)
  then show ?thesis
  proof cases
    case 1
    then show ?thesis using byte_imm [OF 1(1,2), folded 1(3)] by (simp add: zipSaveInteger_def zipLoadInteger_def zipIntSize_def)
  next
    case 2
    then show ?thesis using le_sint_le_bytes [of 1 v] by (simp add: zipSaveInteger_def zipIntSize_def zipLoadInteger_def rd_def fits_signed_def)
  next
    case 3
    then show ?thesis using le_sint_le_bytes [of 2 v] by (simp add: zipSaveInteger_def zipIntSize_def zipLoadInteger_def rd_def fits_signed_def)
  next
    case 4
    then show ?thesis using le_sint_24 [of v] by (simp add: zipSaveInteger_def zipIntSize_def zipLoadInteger_def rd_def)
  next
    case 5
    then show ?thesis using le_sint_le_bytes [of 4 v] by (simp add: zipSaveInteger_def zipIntSize_def zipLoadInteger_def rd_def fits_signed_def)
  next
    case 6
    then show ?thesis using le_sint_le_bytes [of 8 v] r by (simp add: zipSaveInteger_def zipIntSize_def zipLoadInteger_def rd_def fits_signed_def)
  qed
qed

lemma str_06: "n \<le> 63 \<Longrightarrow> (\<lambda>b :: byte. ZIP_ENTRY_ENCODING b = ZIP_STR_06B \<and> unat (b AND 63) = n) (ZIP_STR_06B OR of_nat n)" (is "_ \<Longrightarrow> ?P n")
proof -
  assume "n \<le> 63"
  then have "n \<in> set [0..<64]" by auto
  moreover have "\<forall>n\<in>set [0..<64]. ?P n" by code_simp
  ultimately show ?thesis by blast
qed

lemma str_14: "n \<le> 63 \<Longrightarrow> (\<lambda>b :: byte. ZIP_ENTRY_ENCODING b = ZIP_STR_14B \<and> unat (b AND 63) = n) (ZIP_STR_14B OR (of_nat n AND 63))" (is "_ \<Longrightarrow> ?P n")
proof -
  assume "n \<le> 63"
  then have "n \<in> set [0..<64]" by auto
  moreover have "\<forall>n\<in>set [0..<64]. ?P n" by code_simp
  ultimately show ?thesis by blast
qed

lemma unat_byte_of_nat: "unat (of_nat n :: byte) = n mod 256"
  by (simp add: unsigned_of_nat take_bit_eq_mod)

lemma is_str_0 [simp]: "ZIP_IS_STR 0"
  by (simp add: ZIP_IS_STR_def)

lemma e32: "n = 256 * a + r \<Longrightarrow> a = 256 * b + q \<Longrightarrow> b = 256 * c + p \<Longrightarrow> c * 16777216 + p * 65536 + q * 256 + r = (n :: nat)"
  by simp

lemma base256: "n < 2 ^ 32 \<Longrightarrow> n div 2 ^ 24 mod 256 * 2 ^ 24 + n div 2 ^ 16 mod 256 * 2 ^ 16 + n div 2 ^ 8 mod 256 * 2 ^ 8 + n mod 256 = (n :: nat)"
proof -
  assume n: "n < 2 ^ 32"
  define a b c where "a = n div 256" and "b = a div 256" and "c = b div 256"
  have e: "n div 2 ^ 8 = a" "n div 2 ^ 16 = b" "n div 2 ^ 24 = c" by (simp_all add: a_def b_def c_def div_mult2_eq [symmetric])
  have "n = 256 * a + n mod 256" "a = 256 * b + a mod 256" "b = 256 * c + b mod 256" unfolding a_def b_def c_def by simp_all
  moreover have "c mod 256 = c" using n by (simp add: c_def b_def a_def div_mult2_eq [symmetric] less_mult_imp_div_less)
  ultimately have "c mod 256 * 16777216 + b mod 256 * 65536 + a mod 256 * 256 + n mod 256 = n" by (metis (no_types) e32)
  then show ?thesis unfolding e by simp
qed

lemma byte_at_Cons: "byte_at (A @ b # R) (length A + k) = byte_at (b # R) k"
  by (simp add: byte_at_def nth_append)

lemma byte_at_Cons0: "byte_at (b # R) 0 = Some b" "byte_at (b # R) (Suc k) = byte_at R k"
  by (auto simp: byte_at_def)

lemma decode_body:
  assumes "length s < 2 ^ 32"
  shows "ZIP_DECODE_LENGTH (A @ zl_body s @ R) (length A) = Some (zl_encoding s, length (zl_head s), length (zl_payload s))"
proof (cases "zipTryEncoding s")
  case (Some ve)
  obtain v e where ve: "zipTryEncoding s = Some (v, e)" using Some by (cases ve) auto
  obtain pl where pl: "zipSaveInteger v e = Some pl" "length pl = zipIntSize e" using zipSaveInteger_ok [OF ve] by blast
  then show ?thesis using zipTryEncoding_enc [OF ve]
    by (simp add: zl_body_def zl_head_def zl_payload_def zl_encoding_def ve zipEncodeLength_def ZIP_DECODE_LENGTH_def not_less [symmetric])
next
  case None
  let ?n = "length s"
  have b: "zl_body s = zipEncodeLength 0 ?n @ s" "zl_head s = zipEncodeLength 0 ?n" "zl_payload s = s" "zl_encoding s = ZIP_ENTRY_ENCODING (hd (zipEncodeLength 0 ?n))"
    by (simp_all add: zl_body_def zl_head_def zl_payload_def zl_encoding_def None)
  consider "?n \<le> 63" | "63 < ?n" "?n \<le> 16383" | "16383 < ?n" by linarith
  then show ?thesis
  proof cases
    case 1
    then show ?thesis using str_06 [OF 1] unfolding b by (simp add: zipEncodeLength_def ZIP_DECODE_LENGTH_def)
  next
    case 2
    then have k: "?n div 256 \<le> 63" by simp
    then show ?thesis using str_14 [OF k] 2 byte_at_Cons [of A _ _ 1] unfolding b
      by (simp add: zipEncodeLength_def ZIP_DECODE_LENGTH_def byte_at_Cons0 unat_byte_of_nat)
  next
    case 3
    have e: "ZIP_ENTRY_ENCODING ZIP_STR_32B = ZIP_STR_32B" by (simp add: ZIP_ENTRY_ENCODING_def)
    have d: "byte_at (A @ [x0, x1, x2, x3, x4] @ R') (length A) = Some x0" "byte_at (A @ [x0, x1, x2, x3, x4] @ R') (length A + 1) = Some x1"
      "byte_at (A @ [x0, x1, x2, x3, x4] @ R') (length A + 2) = Some x2" "byte_at (A @ [x0, x1, x2, x3, x4] @ R') (length A + 3) = Some x3"
      "byte_at (A @ [x0, x1, x2, x3, x4] @ R') (length A + 4) = Some x4" for x0 x1 x2 x3 x4 R'
      by (simp_all add: byte_at_def nth_append)
    have h: "zipEncodeLength 0 ?n = [ZIP_STR_32B, of_nat (?n div 2 ^ 24), of_nat (?n div 2 ^ 16), of_nat (?n div 2 ^ 8), of_nat ?n]"
      using 3 by (simp add: zipEncodeLength_def)
    show ?thesis unfolding b h append_assoc ZIP_DECODE_LENGTH_def d bind.bind_lunit Let_def unat_byte_of_nat base256 [OF assms] by (simp add: e)
  qed
qed

section \<open>The layout of a list\<close>

text \<open>
  An entry: whether the field for the length of the entry before it has five bytes, and the string it stands
  for. \<open>raws k es\<close> are the bytes of the entries \<open>es\<close> behind an entry of \<open>k\<close> bytes.
\<close>

type_synonym zentry = "bool \<times> bytes"

abbreviation psize :: "zentry \<Rightarrow> nat" where
  "psize e \<equiv> (if fst e then 5 else 1)"

definition enc_prev :: "bool \<Rightarrow> nat \<Rightarrow> bytes" where
  "enc_prev big k = (if big then 254 # le_bytes 4 (int k) else [of_nat k])"

definition rawlen :: "zentry \<Rightarrow> nat" where
  "rawlen e = psize e + length (zl_body (snd e))"

fun raws :: "nat \<Rightarrow> zentry list \<Rightarrow> bytes" where
  "raws k [] = []"
| "raws k (e # es) = enc_prev (fst e) k @ zl_body (snd e) @ raws (rawlen e) es"

fun zl_wf :: "nat \<Rightarrow> zentry list \<Rightarrow> bool" where
  "zl_wf k [] = True"
| "zl_wf k (e # es) = ((fst e \<or> k < 254) \<and> zl_wf (rawlen e) es)"

definition lastlen :: "nat \<Rightarrow> zentry list \<Rightarrow> nat" where
  "lastlen k es = (if es = [] then k else rawlen (last es))"

definition rawsize :: "zentry list \<Rightarrow> nat" where
  "rawsize es = sum_list (map rawlen es)"

definition ent :: "nat \<Rightarrow> zentry \<Rightarrow> nat \<Rightarrow> zlentry" where
  "ent k e p = \<lparr>ze_prevrawlensize = psize e, ze_prevrawlen = k, ze_lensize = length (zl_head (snd e)), ze_len = length (zl_payload (snd e)),
    ze_encoding = zl_encoding (snd e), ze_p = p\<rparr>"

lemma length_enc_prev [simp]: "length (enc_prev b k) = (if b then 5 else 1)"
  by (simp add: enc_prev_def)

lemma length_raws [simp]: "length (raws k es) = rawsize es"
  by (induction es arbitrary: k) (auto simp: rawsize_def rawlen_def)

lemma rawsize_simps [simp]: "rawsize [] = 0" "rawsize (e # es) = rawlen e + rawsize es" "rawsize (A @ B) = rawsize A + rawsize B"
  by (simp_all add: rawsize_def)

lemma lastlen_simps [simp]: "lastlen k [] = k" "lastlen k (e # es) = lastlen (rawlen e) es" "lastlen k (A @ [e]) = rawlen e" "lastlen k (A @ B) = lastlen (lastlen k A) B"
  by (auto simp: lastlen_def)

lemma raws_append: "raws k (A @ B) = raws k A @ raws (lastlen k A) B"
  by (induction A arbitrary: k) auto

lemma wf_append: "zl_wf k (A @ B) \<longleftrightarrow> zl_wf k A \<and> zl_wf (lastlen k A) B"
  by (induction A arbitrary: k) auto

lemma head_nonempty [simp]: "zl_head s \<noteq> []" "0 < length (zl_head s)"
  by (auto simp: zl_head_def zipEncodeLength_def)

lemma rawlen_ge: "2 \<le> rawlen e"
proof -
  have "1 \<le> length (zl_head (snd e))" using head_nonempty(2) [of "snd e"] by linarith
  then show ?thesis by (simp add: rawlen_def zl_body_def)
qed

lemma rawlen_pos [simp]: "0 < rawlen e" "rawlen e \<noteq> 0"
  using rawlen_ge [of e] by auto

lemma lastlen_le: "lastlen k es \<le> max k (rawsize es)"
proof (induction es arbitrary: k)
  case (Cons e es)
  show ?case using Cons.IH [of "rawlen e"] by (simp add: max_def split: if_splits)
qed simp

lemma headersize_ent [simp]: "ze_lensize (ent k e p) = length (zl_head (snd e))" "ze_len (ent k e p) = length (zl_payload (snd e))"
  "ze_prevrawlensize (ent k e p) = psize e" "ze_prevrawlen (ent k e p) = k" "ze_p (ent k e p) = p" "ze_encoding (ent k e p) = zl_encoding (snd e)"
  by (simp_all add: ent_def)

lemma rawlen_ent: "psize e + length (zl_head (snd e)) + length (zl_payload (snd e)) = rawlen e"
  by (simp add: rawlen_def zl_body_def)

text \<open>Reading an entry.\<close>

lemma prevlen_at:
  assumes "b \<or> k < 254" "k < 2 ^ 32" "length A = p"
  shows "byte_at (A @ enc_prev b k @ R) p = Some (hd (enc_prev b k))" "hd (enc_prev b k) \<noteq> ZIP_END"
    "ZIP_DECODE_PREVLENSIZE (A @ enc_prev b k @ R) p = Some (if b then 5 else 1)" "ZIP_DECODE_PREVLEN (A @ enc_prev b k @ R) p = Some (if b then 5 else 1, k)"
proof -
  have small: "unat (of_nat k :: byte) = k" if "k < 254" using that by (simp add: unat_byte_of_nat)
  show b: "byte_at (A @ enc_prev b k @ R) p = Some (hd (enc_prev b k))" using assms(3) byte_at_append [of A] by (auto simp: enc_prev_def)
  show "hd (enc_prev b k) \<noteq> ZIP_END"
  proof (cases b)
    case False
    then have "unat (of_nat k :: byte) = k" "k < 254" using small assms(1) by auto
    then have "(of_nat k :: byte) \<noteq> ZIP_END" by auto
    then show ?thesis using False by (simp add: enc_prev_def)
  qed (simp add: enc_prev_def)
  show ps: "ZIP_DECODE_PREVLENSIZE (A @ enc_prev b k @ R) p = Some (if b then 5 else 1)"
    using assms(1) small by (auto simp: ZIP_DECODE_PREVLENSIZE_def b) (simp_all add: enc_prev_def)
  have "rd ((A @ [254]) @ le_bytes 4 (int k) @ R) (p + 1) 4 = Some (le_bytes 4 (int k))" by (rule rd_at) (use assms(3) in auto)
  then have "uint_at 4 (A @ 254 # le_bytes 4 (int k) @ R) (p + 1) = Some k" using assms(2) by (simp add: uint_at_def le_uint_le_bytes)
  then show "ZIP_DECODE_PREVLEN (A @ enc_prev b k @ R) p = Some (if b then 5 else 1, k)"
    using assms(1) small by (auto simp: ZIP_DECODE_PREVLEN_def ps b) (simp_all add: enc_prev_def)
qed

lemma entry_at:
  assumes "fst e \<or> k < 254" "k < 2 ^ 32" "length (snd e) < 2 ^ 32" "length A = p" "zl = A @ enc_prev (fst e) k @ zl_body (snd e) @ R"
  shows "byte_at zl p = Some (hd (enc_prev (fst e) k))" "hd (enc_prev (fst e) k) \<noteq> ZIP_END"
    "ZIP_DECODE_PREVLENSIZE zl p = Some (psize e)" "ZIP_DECODE_PREVLEN zl p = Some (psize e, k)"
    "ZIP_DECODE_LENGTH zl (p + psize e) = Some (zl_encoding (snd e), length (zl_head (snd e)), length (zl_payload (snd e)))"
    "zipRawEntryLength zl p = Some (rawlen e)" "zipEntry zl p = Some (ent k e p)"
proof -
  note zl = assms(5)
  note pl = prevlen_at(1,3,4) [OF assms(1,2,4), of "zl_body (snd e) @ R", folded zl]
  show "byte_at zl p = Some (hd (enc_prev (fst e) k))" "hd (enc_prev (fst e) k) \<noteq> ZIP_END"
    "ZIP_DECODE_PREVLENSIZE zl p = Some (psize e)" "ZIP_DECODE_PREVLEN zl p = Some (psize e, k)" using pl prevlen_at(2) [OF assms(1,2,4)] by auto
  have dl: "ZIP_DECODE_LENGTH zl (p + psize e) = Some (zl_encoding (snd e), length (zl_head (snd e)), length (zl_payload (snd e)))"
    using decode_body [OF assms(3), of "A @ enc_prev (fst e) k" R] assms(4) zl by simp
  then show "ZIP_DECODE_LENGTH zl (p + psize e) = Some (zl_encoding (snd e), length (zl_head (snd e)), length (zl_payload (snd e)))" .
  show "zipRawEntryLength zl p = Some (rawlen e)" using pl(2) dl by (simp add: zipRawEntryLength_def rawlen_ent [symmetric] split del: if_split)
  show "zipEntry zl p = Some (ent k e p)" using pl(3) dl by (simp add: zipEntry_def ent_def split del: if_split)
qed

section \<open>The header and the block\<close>

definition hdr :: "nat \<Rightarrow> int \<Rightarrow> nat \<Rightarrow> bytes" where
  "hdr tot tail cnt = le_bytes 4 (int tot) @ le_bytes 4 tail @ le_bytes 2 (int cnt)"

lemma length_hdr [simp]: "length (hdr tot tail cnt) = 10"
  by (simp add: hdr_def)

lemma uint_at_le: "length A = p \<Longrightarrow> 0 \<le> v \<Longrightarrow> v < 256 ^ n \<Longrightarrow> uint_at n (A @ le_bytes n v @ R) p = Some (nat v)"
  by (simp add: uint_at_def rd_at le_uint_le_bytes)

lemma hdr_get [simp]:
  "tot < 2 ^ 32 \<Longrightarrow> ZIPLIST_BYTES (hdr tot tail cnt @ R) = Some tot"
  "0 \<le> tail \<Longrightarrow> tail < 2 ^ 32 \<Longrightarrow> ZIPLIST_TAIL_OFFSET (hdr tot tail cnt @ R) = Some (nat tail)"
  "cnt < 65536 \<Longrightarrow> ZIPLIST_LENGTH (hdr tot tail cnt @ R) = Some cnt"
  using uint_at_le [of "[]" 0 "int tot" 4] uint_at_le [of "le_bytes 4 (int tot)" 4 tail 4] uint_at_le [of "le_bytes 4 (int tot) @ le_bytes 4 tail" 8 "int cnt" 2]
  by (simp_all add: hdr_def ZIPLIST_BYTES_def ZIPLIST_TAIL_OFFSET_def ZIPLIST_LENGTH_def)

lemma hdr_set_tail [simp]: "set_tail_offset v (hdr tot tail cnt @ R) = Some (hdr tot v cnt @ R)"
  using wr_at [of "le_bytes 4 (int tot)" 4 "le_bytes 4 tail" "le_bytes 4 v"] by (simp add: hdr_def set_tail_offset_def)

lemma hdr_incr:
  assumes "cnt < 65536" "0 \<le> int cnt + i"
  shows "ZIPLIST_INCR_LENGTH i (hdr tot tail cnt @ R) = Some (hdr tot tail (if cnt < 65535 then nat (int cnt + i) else cnt) @ R)"
proof -
  have "wr (hdr tot tail cnt @ R) 8 (le_bytes 2 (int cnt + i)) = Some (hdr tot tail (nat (int cnt + i)) @ R)"
    using wr_at [of "le_bytes 4 (int tot) @ le_bytes 4 tail" 8 "le_bytes 2 (int cnt)" "le_bytes 2 (int cnt + i)"] assms(2) by (simp add: hdr_def)
  then show ?thesis using hdr_get(3) [OF assms(1)] by (simp add: ZIPLIST_INCR_LENGTH_def)
qed

text \<open>The block after a change of its size: the last byte is the end marker.\<close>

lemma resize_grow:
  assumes "10 + length X + n < 2 ^ 32" "0 < n"
  shows "ziplistResize g (hdr tot tail cnt @ X) (10 + length X + n) = Some (hdr (10 + length X + n) tail cnt @ X @ replicate (n - 1) g @ [ZIP_END])"
proof -
  let ?len = "10 + length X + n"
  obtain m where m: "n = Suc m" using assms(2) by (cases n) auto
  have z: "zrealloc g (hdr tot tail cnt @ X) ?len = hdr tot tail cnt @ X @ replicate m g @ [g]"
    by (simp add: zrealloc_def m replicate_append_same)
  have "wr (hdr tot tail cnt @ X @ replicate m g @ [g]) 0 (le_bytes 4 (int ?len)) = Some (hdr ?len tail cnt @ X @ replicate m g @ [g])"
    using wr_at [of "[]" 0 "le_bytes 4 (int tot)" "le_bytes 4 (int ?len)"] by (simp add: hdr_def)
  moreover have "wr ((hdr ?len tail cnt @ X @ replicate m g) @ [g] @ []) (?len - 1) [ZIP_END] = Some ((hdr ?len tail cnt @ X @ replicate m g) @ [ZIP_END] @ [])"
    by (rule wr_at) (simp_all add: m)
  moreover have "?len mod 2 ^ 32 = ?len" "?len \<noteq> 0" using assms(1) by simp_all
  ultimately show ?thesis unfolding ziplistResize_def Let_def by (simp only: z bind.bind_lunit if_False) (simp add: m)
qed

lemma resize_shrink:
  assumes "11 + length X < 2 ^ 32" "Y \<noteq> []"
  shows "ziplistResize g (hdr tot tail cnt @ X @ Y) (11 + length X) = Some (hdr (11 + length X) tail cnt @ X @ [ZIP_END])"
proof -
  let ?len = "11 + length X"
  obtain y Z where Y: "Y = y # Z" using assms(2) by (cases Y) auto
  have z: "zrealloc g (hdr tot tail cnt @ X @ Y) ?len = hdr tot tail cnt @ X @ [y]" by (simp add: zrealloc_def Y)
  have "wr (hdr tot tail cnt @ X @ [y]) 0 (le_bytes 4 (int ?len)) = Some (hdr ?len tail cnt @ X @ [y])"
    using wr_at [of "[]" 0 "le_bytes 4 (int tot)" "le_bytes 4 (int ?len)"] by (simp add: hdr_def)
  moreover have "wr ((hdr ?len tail cnt @ X) @ [y] @ []) (?len - 1) [ZIP_END] = Some ((hdr ?len tail cnt @ X) @ [ZIP_END] @ [])"
    by (rule wr_at) simp_all
  moreover have "?len mod 2 ^ 32 = ?len" "?len \<noteq> 0" using assms(1) by simp_all
  ultimately show ?thesis unfolding ziplistResize_def Let_def by (simp only: z bind.bind_lunit if_False) simp
qed

section \<open>The cascade of updates\<close>

fun cascade :: "nat \<Rightarrow> zentry list \<Rightarrow> zentry list" where
  "cascade k [] = []"
| "cascade k (e # B) = (if fst e \<or> k < 254 then e # B else (True, snd e) # cascade (rawlen (True, snd e)) B)"

lemma cascade_contents: "map snd (cascade k B) = map snd B"
  by (induction k B rule: cascade.induct) auto

lemma cascade_length [simp]: "length (cascade k B) = length B"
  by (metis cascade_contents length_map)

lemma rawlen_big: "rawlen (True, s) = rawlen (False, s) + 4"
  by (simp add: rawlen_def)

lemma cascade_wf: "zl_wf j B \<Longrightarrow> zl_wf k (cascade k B)"
  by (induction k B arbitrary: j rule: cascade.induct) auto

lemma cascade_size: "rawsize B \<le> rawsize (cascade k B) \<and> rawsize (cascade k B) \<le> rawsize B + 4 * length B"
proof (induction k B rule: cascade.induct)
  case (2 k e B)
  have "fst e = False \<Longrightarrow> rawlen (True, snd e) = rawlen e + 4" using rawlen_big [of "snd e"] by (cases e) auto
  then show ?case using 2 by auto
qed simp

lemma cascade_id: "zl_wf k B \<Longrightarrow> cascade k B = B"
  by (cases B) auto

lemma len_body: "length (zl_body s) < 2 ^ 32 \<Longrightarrow> length s < 2 ^ 32"
proof (cases "zipTryEncoding s")
  case (Some ve)
  then have "length s < 32" by (auto simp: zipTryEncoding_def split: if_splits)
  then show ?thesis by simp
qed (simp add: zl_body_def zl_payload_def)

lemma len_entry: "rawlen e < 2 ^ 32 \<Longrightarrow> length (snd e) < 2 ^ 32"
  by (rule len_body) (simp add: rawlen_def)

lemma zipPrevEncodeLength_enc: "zipPrevEncodeLength k = enc_prev (\<not> k < 254) k" "zipPrevEncodeLengthForceLarge k = enc_prev True k"
  by (simp_all add: zipPrevEncodeLength_def zipPrevEncodeLengthForceLarge_def enc_prev_def)

lemma byte_at_here: "length A = p \<Longrightarrow> byte_at (A @ b # R) p = Some b"
  by auto

lemma memmove_at:
  assumes "rd zl src n = Some T" "zl = A @ B @ R" "length A = dst" "length B = length T"
  shows "memmove zl dst src n = Some (A @ T @ R)"
  unfolding memmove_def assms(1) bind.bind_lunit unfolding assms(2) by (rule wr_at) (use assms in auto)

text \<open>One step: the field for the length of the entry before grows from one byte to five.\<close>

lemma grow_field:
  assumes tot: "tot = 11 + length Q + 1 + length T" "tot + 4 < 2 ^ 32" and tl: "0 \<le> tail" "tail < 2 ^ 32"
  shows "(do {
      zl \<leftarrow> ziplistResize g (hdr tot tail cnt @ Q @ [jb] @ T @ [ZIP_END]) (tot + 4);
      tl \<leftarrow> ZIPLIST_TAIL_OFFSET zl;
      zl \<leftarrow> (if tl \<noteq> 10 + length Q then set_tail_offset (int (tl + 4)) zl else Some zl);
      zl \<leftarrow> memmove zl (10 + length Q + 5) (10 + length Q + 1) (tot - (10 + length Q) - 1 - 1);
      wr zl (10 + length Q) (enc_prev True m)
    }) = Some (hdr (tot + 4) (if tail = int (10 + length Q) then tail else tail + 4) cnt @ Q @ enc_prev True m @ T @ [ZIP_END])"
proof -
  let ?tail = "if tail = int (10 + length Q) then tail else tail + 4"
  have r: "ziplistResize g (hdr tot tail cnt @ Q @ [jb] @ T @ [ZIP_END]) (tot + 4) = Some (hdr (tot + 4) tail cnt @ Q @ [jb] @ T @ [ZIP_END] @ replicate 3 g @ [ZIP_END])"
  proof -
    have e: "10 + length (Q @ [jb] @ T @ [ZIP_END]) + 4 = tot + 4" "4 - 1 = (3 :: nat)" using tot(1) by simp_all
    show ?thesis using resize_grow [of "Q @ [jb] @ T @ [ZIP_END]" 4 g tot tail cnt, unfolded e] tot(2) by simp
  qed
  have t: "(if nat tail \<noteq> 10 + length Q then set_tail_offset (int (nat tail + 4)) (hdr (tot + 4) tail cnt @ X) else Some (hdr (tot + 4) tail cnt @ X))
      = Some (hdr (tot + 4) ?tail cnt @ X)" for X
    using tl(1) by auto
  have n: "tot - (10 + length Q) - 1 - 1 = length T" using tot(1) by simp
  obtain U W where U: "[jb] @ T @ [ZIP_END] @ replicate 3 g = U @ W" "length U = 5" "length W = length T"
    by (rule that [OF append_take_drop_id [of 5, symmetric]]) auto
  have m: "memmove (hdr (tot + 4) ?tail cnt @ Q @ [jb] @ T @ [ZIP_END] @ replicate 3 g @ [ZIP_END]) (10 + length Q + 5) (10 + length Q + 1) (length T)
      = Some ((hdr (tot + 4) ?tail cnt @ Q @ U) @ T @ [ZIP_END])"
  proof (rule memmove_at)
    show "rd (hdr (tot + 4) ?tail cnt @ Q @ [jb] @ T @ [ZIP_END] @ replicate 3 g @ [ZIP_END]) (10 + length Q + 1) (length T) = Some T"
      using rd_at [of "hdr (tot + 4) ?tail cnt @ Q @ [jb]" "10 + length Q + 1" T "length T" "[ZIP_END] @ replicate 3 g @ [ZIP_END]"] by simp
    show "hdr (tot + 4) ?tail cnt @ Q @ [jb] @ T @ [ZIP_END] @ replicate 3 g @ [ZIP_END] = (hdr (tot + 4) ?tail cnt @ Q @ U) @ W @ [ZIP_END]"
      using arg_cong [OF U(1), of "\<lambda>x. hdr (tot + 4) ?tail cnt @ Q @ x @ [ZIP_END]"] by simp
  qed (use U in simp_all)
  have w: "wr ((hdr (tot + 4) ?tail cnt @ Q @ U) @ T @ [ZIP_END]) (10 + length Q) (enc_prev True m) = Some ((hdr (tot + 4) ?tail cnt @ Q) @ enc_prev True m @ T @ [ZIP_END])"
    using wr_at [of "hdr (tot + 4) ?tail cnt @ Q" "10 + length Q" U "enc_prev True m" "T @ [ZIP_END]"] U(2) by simp
  show ?thesis unfolding r bind.bind_lunit hdr_get(2) [OF tl] t n m w by simp
qed

lemma butlast_size: "rawsize (butlast es) \<le> rawsize es"
  by (induction es) auto

lemma cascade_ok:
  "zl = hdr tot (int (10 + length P + rawsize (butlast (e # B)))) cnt @ P @ enc_prev (fst e) k @ zl_body (snd e) @ raws j B @ [ZIP_END] \<Longrightarrow>
   tot = 11 + length P + rawsize (e # B) \<Longrightarrow> tot + 4 * length B < 2 ^ 32 \<Longrightarrow> fst e \<or> k < 254 \<Longrightarrow> k < 2 ^ 32 \<Longrightarrow> j < 2 ^ 32 \<Longrightarrow> zl_wf j B \<Longrightarrow>
   p = 10 + length P \<Longrightarrow> B' = cascade (rawlen e) B \<Longrightarrow>
   ziplistCascadeUpdate g zl p tot = Some (hdr (11 + length P + rawsize (e # B')) (int (10 + length P + rawsize (butlast (e # B')))) cnt @
     P @ enc_prev (fst e) k @ zl_body (snd e) @ raws (rawlen e) B' @ [ZIP_END])"
proof (induction B arbitrary: zl tot P e k j p B')
  case Nil
  note zl = Nil.prems(1)
  have re: "rawlen e < 2 ^ 32" using Nil.prems(2,3) by simp
  note at = entry_at [OF Nil.prems(4,5) len_entry [OF re], of "hdr tot (int (10 + length P + rawsize (butlast [e]))) cnt @ P" p zl "[ZIP_END]"]
  have "byte_at ((hdr tot (int (10 + length P + rawsize (butlast [e]))) cnt @ P @ enc_prev (fst e) k @ zl_body (snd e)) @ ZIP_END # []) (p + rawlen e) = Some ZIP_END"
    by (rule byte_at_here) (simp add: Nil.prems(8) rawlen_def split del: if_split)
  then have nx: "byte_at zl (p + rawlen e) = Some ZIP_END" using zl by simp
  have at': "byte_at zl p = Some (hd (enc_prev (fst e) k))" "hd (enc_prev (fst e) k) \<noteq> ZIP_END" "zipEntry zl p = Some (ent k e p)"
    using at Nil.prems(8) zl by simp_all
  have "ziplistCascadeUpdate g zl p tot = Some zl"
    unfolding ziplistCascadeUpdate.simps [of g zl p tot] at' bind.bind_lunit Let_def headersize_ent rawlen_ent nx by (simp add: at'(2))
  then show ?case using Nil.prems by simp
next
  case (Cons f B)
  let ?H = "hdr tot (int (10 + length P + rawsize (butlast (e # f # B)))) cnt"
  let ?Q = "P @ enc_prev (fst e) k @ zl_body (snd e)"
  note zl = Cons.prems(1)
  have sz: "rawlen e < 2 ^ 32" "rawlen f < 2 ^ 32" using Cons.prems(2,3) by auto
  have Q: "length ?Q = length P + rawlen e" by (simp add: rawlen_def)
  have wf: "fst f \<or> j < 254" "zl_wf (rawlen f) B" using Cons.prems(7) by auto
  note at = entry_at [OF Cons.prems(4,5) len_entry [OF sz(1)], of "?H @ P" p zl "raws j (f # B) @ [ZIP_END]"]
  note nx = entry_at [OF wf(1) Cons.prems(6) len_entry [OF sz(2)], of "?H @ ?Q" "p + rawlen e" zl "raws (rawlen f) B @ [ZIP_END]"]
  have at': "byte_at zl p = Some (hd (enc_prev (fst e) k))" "hd (enc_prev (fst e) k) \<noteq> ZIP_END" "zipEntry zl p = Some (ent k e p)"
    using at Cons.prems(8) zl by simp_all
  have nx': "byte_at zl (p + rawlen e) = Some (hd (enc_prev (fst f) j))" "hd (enc_prev (fst f) j) \<noteq> ZIP_END" "zipEntry zl (p + rawlen e) = Some (ent j f (p + rawlen e))"
    using nx Cons.prems(8) zl Q by simp_all
  let ?big = "\<not> rawlen e < 254"
  have unf: "ziplistCascadeUpdate g zl p tot = (if j = rawlen e then Some zl
      else if \<not> fst f \<and> ?big then do {
           zl \<leftarrow> ziplistResize g zl (tot + 4);
           tl \<leftarrow> ZIPLIST_TAIL_OFFSET zl;
           zl \<leftarrow> (if tl \<noteq> p + rawlen e then set_tail_offset (int (tl + 4)) zl else Some zl);
           zl \<leftarrow> memmove zl (p + rawlen e + 5) (p + rawlen e + 1) (tot - (p + rawlen e) - 1 - 1);
           zl \<leftarrow> wr zl (p + rawlen e) (enc_prev True (rawlen e));
           ziplistCascadeUpdate g zl (p + rawlen e) (tot + 4)
      } else wr zl (p + rawlen e) (enc_prev (fst f) (rawlen e)))"
    unfolding ziplistCascadeUpdate.simps [of g zl p tot] at' nx' bind.bind_lunit Let_def headersize_ent rawlen_ent zipPrevEncodeLength_enc length_enc_prev
    using at'(2) nx'(2) by (cases "fst f"; cases "rawlen e < 254") (simp_all cong: if_cong)
  have stop: "wr zl (p + rawlen e) (enc_prev (fst f) (rawlen e)) = Some (?H @ ?Q @ raws (rawlen e) (f # B) @ [ZIP_END])"
    using wr_at [of "?H @ ?Q" "p + rawlen e" "enc_prev (fst f) j" "enc_prev (fst f) (rawlen e)" "zl_body (snd f) @ raws (rawlen f) B @ [ZIP_END]"] zl Q Cons.prems(8) by simp
  show ?case
  proof (cases "fst f \<or> \<not> ?big")
    case True
    then have B': "B' = f # B" using Cons.prems(9) by simp
    have "ziplistCascadeUpdate g zl p tot = Some (?H @ ?Q @ raws (rawlen e) (f # B) @ [ZIP_END])"
      unfolding unf stop using True zl by auto
    then show ?thesis using B' Cons.prems(2) by simp
  next
    case False
    then have f: "f = (False, snd f)" "j < 254" "j \<noteq> rawlen e" using wf(1) by (cases f; auto)+
    let ?f = "(True, snd f)"
    have rf: "rawlen ?f = rawlen f + 4" using f(1) rawlen_big [of "snd f"] by simp
    have B': "B' = ?f # cascade (rawlen ?f) B" using False Cons.prems(9) by simp
    let ?tail = "int (10 + length ?Q + rawsize (butlast (?f # B)))"
    have t: "(if int (10 + length P + rawsize (butlast (e # f # B))) = int (10 + length ?Q) then int (10 + length P + rawsize (butlast (e # f # B)))
        else int (10 + length P + rawsize (butlast (e # f # B))) + 4) = ?tail"
      unfolding Q using rf rawlen_pos(1) [of f] by (cases B) (auto simp del: rawlen_pos)
    have zl': "zl = ?H @ ?Q @ [of_nat j] @ (zl_body (snd f) @ raws (rawlen f) B) @ [ZIP_END]" using zl f(1) by (cases f) (simp add: enc_prev_def)
    have g: "(do {
           zl \<leftarrow> ziplistResize g zl (tot + 4);
           tl \<leftarrow> ZIPLIST_TAIL_OFFSET zl;
           zl \<leftarrow> (if tl \<noteq> p + rawlen e then set_tail_offset (int (tl + 4)) zl else Some zl);
           zl \<leftarrow> memmove zl (p + rawlen e + 5) (p + rawlen e + 1) (tot - (p + rawlen e) - 1 - 1);
           wr zl (p + rawlen e) (enc_prev True (rawlen e))
      }) = Some (hdr (tot + 4) ?tail cnt @ ?Q @ enc_prev True (rawlen e) @ (zl_body (snd f) @ raws (rawlen f) B) @ [ZIP_END])"
    proof -
      have len: "tot = 11 + length ?Q + 1 + length (zl_body (snd f) @ raws (rawlen f) B)" using Cons.prems(2) Q f(1) by (cases f) (simp add: rawlen_def)
      have tb: "tot + 4 < 2 ^ 32" "int (10 + length P + rawsize (butlast (e # f # B))) < 2 ^ 32"
        using Cons.prems(2,3) butlast_size [of "e # f # B"] by auto
      have pq: "p + rawlen e = 10 + length ?Q" using Cons.prems(8) Q by simp
      show ?thesis unfolding pq zl' using grow_field [OF len tb(1) of_nat_0_le_iff tb(2), of g cnt "of_nat j" "rawlen e"] unfolding t .
    qed
    have step: "ziplistCascadeUpdate g (hdr (tot + 4) ?tail cnt @ ?Q @ enc_prev True (rawlen e) @ (zl_body (snd f) @ raws (rawlen f) B) @ [ZIP_END]) (p + rawlen e) (tot + 4)
      = Some (hdr (11 + length ?Q + rawsize (?f # cascade (rawlen ?f) B)) (int (10 + length ?Q + rawsize (butlast (?f # cascade (rawlen ?f) B)))) cnt @
     ?Q @ enc_prev (fst ?f) (rawlen e) @ zl_body (snd ?f) @ raws (rawlen ?f) (cascade (rawlen ?f) B) @ [ZIP_END])"
      by (rule Cons.IH [where e = ?f and k = "rawlen e" and j = "rawlen f"]) (use Cons.prems(2,3,8) sz wf(2) rf Q in auto)
    have "ziplistCascadeUpdate g zl p tot = do { zl \<leftarrow> (do {
           zl \<leftarrow> ziplistResize g zl (tot + 4);
           tl \<leftarrow> ZIPLIST_TAIL_OFFSET zl;
           zl \<leftarrow> (if tl \<noteq> p + rawlen e then set_tail_offset (int (tl + 4)) zl else Some zl);
           zl \<leftarrow> memmove zl (p + rawlen e + 5) (p + rawlen e + 1) (tot - (p + rawlen e) - 1 - 1);
           wr zl (p + rawlen e) (enc_prev True (rawlen e))
      }); ziplistCascadeUpdate g zl (p + rawlen e) (tot + 4) }"
      unfolding unf using False f(3) by (auto simp: bind_assoc)
    then show ?thesis unfolding g bind.bind_lunit step B' unfolding Q by (simp add: ac_simps)
  qed
qed

section \<open>Insertion\<close>

definition cnt_ok :: "nat \<Rightarrow> nat \<Rightarrow> bool" where
  "cnt_ok cnt n \<longleftrightarrow> cnt = n \<and> cnt < 65535 \<or> cnt = 65535"

text \<open>The block \<open>zl\<close> holds the entries \<open>es\<close>.\<close>

definition zl_rep :: "bytes \<Rightarrow> zentry list \<Rightarrow> bool" where
  "zl_rep zl es \<longleftrightarrow> zl_wf 0 es \<and> 11 + rawsize es < 2 ^ 32 \<and>
    (\<exists>cnt. cnt_ok cnt (length es) \<and> zl = hdr (11 + rawsize es) (int (10 + rawsize (butlast es))) cnt @ raws 0 es @ [ZIP_END])"

lemma resize_room:
  assumes "11 + length X + n < 2 ^ 32"
  obtains W where "ziplistResize g (hdr tot tail cnt @ X @ [ZIP_END]) (11 + length X + n) = Some (hdr (11 + length X + n) tail cnt @ X @ W @ [ZIP_END])"
    "length W = n" "n \<noteq> 0 \<Longrightarrow> \<exists>W'. W = ZIP_END # W'"
proof (cases "n = 0")
  case True
  have "ziplistResize g (hdr tot tail cnt @ X @ [ZIP_END]) (11 + length X) = Some (hdr (11 + length X) tail cnt @ X @ [ZIP_END])"
    by (rule resize_shrink) (use assms True in simp_all)
  then show ?thesis using that [of "[]"] True by simp
next
  case False
  have e: "10 + length (X @ [ZIP_END]) + n = 11 + length X + n" by simp
  have "ziplistResize g (hdr tot tail cnt @ (X @ [ZIP_END])) (11 + length X + n) = Some (hdr (11 + length X + n) tail cnt @ (X @ [ZIP_END]) @ replicate (n - 1) g @ [ZIP_END])"
    using resize_grow [of "X @ [ZIP_END]" n g tot tail cnt, unfolded e] False assms by simp
  then show ?thesis using that [of "ZIP_END # replicate (n - 1) g"] False by simp
qed

text \<open>The new entry is written piece by piece over the room made for it.\<close>

lemma write_entry_ok:
  assumes G: "length G = rawlen (big, s)" "big \<longleftrightarrow> \<not> k < 254" and p: "p = 10 + length X"
    and enc: "encoding = (case zipTryEncoding s of Some (value, encoding) \<Rightarrow> encoding | None \<Rightarrow> 0)" and cnt: "cnt_ok cnt n"
  shows "\<exists>cnt'. cnt_ok cnt' (Suc n) \<and> write_entry p k encoding s (hdr tot tail cnt @ X @ G @ Y) = Some (hdr tot tail cnt' @ X @ enc_prev big k @ zl_body s @ Y)"
proof -
  obtain G1 G2 G3 where g: "G = G1 @ G2 @ G3" "length G1 = length (enc_prev big k)" "length G2 = length (zl_head s)" "length G3 = length (zl_payload s)"
  proof (rule that)
    let ?a = "length (enc_prev big k)" and ?b = "length (zl_head s)"
    show "G = take ?a G @ take ?b (drop ?a G) @ drop ?b (drop ?a G)" by (simp only: append_take_drop_id)
  qed (use G(1) in \<open>auto simp: rawlen_def zl_body_def split: if_splits\<close>)
  have pe: "zipPrevEncodeLength k = enc_prev big k" using G(2) by (simp add: zipPrevEncodeLength_enc)
  have he: "zipEncodeLength encoding (length s) = zl_head s" by (simp add: zl_head_def enc)
  have pl: "(case zipTryEncoding s of None \<Rightarrow> Some s | Some (value, encoding) \<Rightarrow> zipSaveInteger value encoding) = Some (zl_payload s)"
    using zipSaveInteger_ok by (auto simp: zl_payload_def split: option.splits) fastforce
  let ?H = "hdr tot tail cnt"
  have w1: "wr (?H @ X @ G @ Y) p (enc_prev big k) = Some (?H @ X @ enc_prev big k @ G2 @ G3 @ Y)"
    using wr_at [of "?H @ X" p G1 "enc_prev big k" "G2 @ G3 @ Y"] g p by simp
  have w2: "wr (?H @ X @ enc_prev big k @ G2 @ G3 @ Y) (p + length (enc_prev big k)) (zl_head s) = Some (?H @ X @ enc_prev big k @ zl_head s @ G3 @ Y)"
    using wr_at [of "?H @ X @ enc_prev big k" "p + length (enc_prev big k)" G2 "zl_head s" "G3 @ Y"] g p by simp
  have w3: "wr (?H @ X @ enc_prev big k @ zl_head s @ G3 @ Y) (p + length (enc_prev big k) + length (zl_head s)) (zl_payload s)
      = Some (?H @ X @ enc_prev big k @ zl_head s @ zl_payload s @ Y)"
    using wr_at [of "?H @ X @ enc_prev big k @ zl_head s" "p + length (enc_prev big k) + length (zl_head s)" G3 "zl_payload s" Y] g p by simp
  define cnt' where "cnt' = (if cnt < 65535 then nat (int cnt + 1) else cnt)"
  have "cnt < 65536" "0 \<le> int cnt + 1" using cnt by (auto simp: cnt_ok_def)
  note inc = hdr_incr [OF this, folded cnt'_def]
  have "cnt_ok cnt' (Suc n)" using cnt by (auto simp: cnt'_def cnt_ok_def)
  then show ?thesis unfolding write_entry_def Let_def pe he pl w1 bind.bind_lunit w2 w3 inc by (auto simp: zl_body_def)
qed

lemma end_at: "length A = p \<Longrightarrow> byte_at (A @ [ZIP_END]) p = Some ZIP_END"
  by auto

lemma tail_entry:
  assumes "zl_wf 0 es" "11 + rawsize es < 2 ^ 32" "es \<noteq> []"
  shows "byte_at (hdr tot tail cnt @ raws 0 es @ R) (10 + rawsize (butlast es)) \<noteq> Some ZIP_END"
    "byte_at (hdr tot tail cnt @ raws 0 es @ R) (10 + rawsize (butlast es)) \<noteq> None"
    "zipRawEntryLength (hdr tot tail cnt @ raws 0 es @ R) (10 + rawsize (butlast es)) = Some (lastlen 0 es)"
    "ZIP_DECODE_PREVLEN (hdr tot tail cnt @ raws 0 es @ R) (10 + rawsize (butlast es)) = Some (psize (last es), lastlen 0 (butlast es))"
proof -
  obtain A e where es: "es = A @ [e]" using assms(3) by (cases es rule: rev_cases) auto
  have k: "lastlen 0 A < 2 ^ 32" "rawlen e < 2 ^ 32" using lastlen_le [of 0 A] assms(2) es by auto
  have f: "fst e \<or> lastlen 0 A < 254" using assms(1) es by (simp add: wf_append)
  note at = entry_at [OF f k(1) len_entry [OF k(2)], of "hdr tot tail cnt @ raws 0 A" "10 + rawsize A" "hdr tot tail cnt @ raws 0 es @ R" R]
  show "byte_at (hdr tot tail cnt @ raws 0 es @ R) (10 + rawsize (butlast es)) \<noteq> Some ZIP_END"
    "byte_at (hdr tot tail cnt @ raws 0 es @ R) (10 + rawsize (butlast es)) \<noteq> None"
    "zipRawEntryLength (hdr tot tail cnt @ raws 0 es @ R) (10 + rawsize (butlast es)) = Some (lastlen 0 es)"
    "ZIP_DECODE_PREVLEN (hdr tot tail cnt @ raws 0 es @ R) (10 + rawsize (butlast es)) = Some (psize (last es), lastlen 0 (butlast es))"
    using at es by (simp_all add: raws_append)
qed

lemma reqlen_eq:
  assumes "encoding = (case zipTryEncoding s of Some (value, encoding) \<Rightarrow> encoding | None \<Rightarrow> 0)"
  shows "(if zipTryEncoding s \<noteq> None then zipIntSize encoding else length s) + length (zipPrevEncodeLength k) + length (zipEncodeLength encoding (length s))
    = rawlen (\<not> k < 254, s)"
proof -
  have "length (zl_payload s) = (if zipTryEncoding s \<noteq> None then zipIntSize encoding else length s)"
    using assms zipSaveInteger_ok by (auto simp: zl_payload_def split: option.splits) fastforce
  moreover have "zl_head s = zipEncodeLength encoding (length s)" by (simp add: zl_head_def assms)
  ultimately show ?thesis by (simp add: rawlen_def zl_body_def zipPrevEncodeLength_enc)
qed

lemma rawlen_le: "rawlen (b, s) \<le> length s + 18"
proof -
  have "length (zl_payload s) \<le> length s + 8"
  proof (cases "zipTryEncoding s")
    case (Some ve)
    then obtain v e where ve: "zipTryEncoding s = Some (v, e)" by (cases ve) auto
    obtain pl where "zipSaveInteger v e = Some pl" "length pl = zipIntSize e" using zipSaveInteger_ok [OF ve] by blast
    then show ?thesis by (simp add: zl_payload_def ve zipIntSize_def)
  qed (simp add: zl_payload_def)
  moreover have "length (zl_head s) \<le> 5" by (simp add: zl_head_def zipEncodeLength_def)
  ultimately show ?thesis by (simp add: rawlen_def zl_body_def)
qed

lemma insert_at_end:
  assumes rep: "zl_rep zl es" and fits: "11 + rawsize es + length s + 18 < 2 ^ 32"
  shows "\<exists>zl'. ziplistInsert g zl (10 + rawsize es) s = Some zl' \<and> zl_rep zl' (es @ [(\<not> lastlen 0 es < 254, s)])"
proof -
  let ?k = "lastlen 0 es" let ?new = "(\<not> ?k < 254, s)"
  obtain cnt where wf: "zl_wf 0 es" "11 + rawsize es < 2 ^ 32" and cnt: "cnt_ok cnt (length es)"
    and zl: "zl = hdr (11 + rawsize es) (int (10 + rawsize (butlast es))) cnt @ raws 0 es @ [ZIP_END]"
    using rep by (auto simp: zl_rep_def)
  define encoding where "encoding = (case zipTryEncoding s of Some (value, encoding) \<Rightarrow> encoding | None \<Rightarrow> 0)"
  have tot: "ZIPLIST_BYTES zl = Some (11 + rawsize es)" unfolding zl by (rule hdr_get(1) [OF wf(2)])
  have tl: "ZIPLIST_TAIL_OFFSET zl = Some (10 + rawsize (butlast es))"
    unfolding zl using hdr_get(2) [of "int (10 + rawsize (butlast es))"] wf(2) butlast_size [of es] by simp
  have b: "byte_at zl (10 + rawsize es) = Some ZIP_END" unfolding zl using end_at [of "hdr (11 + rawsize es) (int (10 + rawsize (butlast es))) cnt @ raws 0 es"] by simp
  have pv: "(do { b \<leftarrow> byte_at zl (10 + rawsize (butlast es)); if b \<noteq> ZIP_END then zipRawEntryLength zl (10 + rawsize (butlast es)) else Some 0 }) = Some ?k"
  proof (cases "es = []")
    case True
    then show ?thesis using b by simp
  next
    case False
    show ?thesis using tail_entry(1-3) [OF wf False, of "11 + rawsize es" "int (10 + rawsize (butlast es))" cnt "[ZIP_END]", folded zl] by auto
  qed
  have req: "rawlen ?new \<le> length s + 18" by (rule rawlen_le)
  obtain W where W: "ziplistResize g zl (11 + rawsize es + rawlen ?new) = Some (hdr (11 + rawsize es + rawlen ?new) (int (10 + rawsize (butlast es))) cnt @ raws 0 es @ W @ [ZIP_END])"
      "length W = rawlen ?new" "\<exists>W'. W = ZIP_END # W'"
    using resize_room [of "raws 0 es" "rawlen ?new" g "11 + rawsize es" "int (10 + rawsize (butlast es))" cnt] fits req unfolding zl by auto
  obtain W' where W': "W = ZIP_END # W'" using W(3) by blast
  have b2: "byte_at (hdr (11 + rawsize es + rawlen ?new) (int (10 + rawsize (butlast es))) cnt @ raws 0 es @ W @ [ZIP_END]) (10 + rawsize es) = Some ZIP_END"
    using byte_at_here [of "hdr (11 + rawsize es + rawlen ?new) (int (10 + rawsize (butlast es))) cnt @ raws 0 es"] W' by simp
  obtain cnt' where c': "cnt_ok cnt' (Suc (length es))" "
     write_entry (10 + rawsize es) ?k encoding s (hdr (11 + rawsize es + rawlen ?new) (int (10 + rawsize es)) cnt @ raws 0 es @ W @ [ZIP_END])
      = Some (hdr (11 + rawsize es + rawlen ?new) (int (10 + rawsize es)) cnt' @ raws 0 es @ enc_prev (\<not> ?k < 254) ?k @ zl_body s @ [ZIP_END])"
    using write_entry_ok [OF W(2) refl _ encoding_def cnt, of "10 + rawsize es" "raws 0 es" "11 + rawsize es + rawlen ?new" "int (10 + rawsize es)" "[ZIP_END]"] by auto
  have "ziplistInsert g zl (10 + rawsize es) s = Some (hdr (11 + rawsize es + rawlen ?new) (int (10 + rawsize es)) cnt' @ raws 0 es @ enc_prev (\<not> ?k < 254) ?k @ zl_body s @ [ZIP_END])"
    unfolding ziplistInsert_def tot b bind.bind_lunit tl encoding_def [symmetric]
    by (simp only: bind.bind_lunit simp_thms if_False if_True Let_def pv reqlen_eq [OF encoding_def]) (use W(1) b2 c'(2) in \<open>simp add: Let_def del: of_nat_add\<close>)
  moreover have "zl_rep (hdr (11 + rawsize es + rawlen ?new) (int (10 + rawsize es)) cnt' @ raws 0 es @ enc_prev (\<not> ?k < 254) ?k @ zl_body s @ [ZIP_END]) (es @ [?new])"
    unfolding zl_rep_def using wf fits req c'(1) by (auto simp: wf_append raws_append add.assoc intro!: exI [of _ cnt'])
  ultimately show ?thesis by blast
qed

lemma make_room:
  assumes W: "int (length W) = int req + nd" and nd: "nd = int (length F') - int (length F)" and F: "length F' \<le> 5"
    and p: "p = 10 + length X" and cur: "curlen = 11 + length X + length F + length Y"
  shows "\<exists>G. length G = req \<and> Option.bind (memmove (hdr tot tail cnt @ X @ F @ Y @ W @ [ZIP_END]) (p + req) (nat (int p - nd)) (nat (int curlen - int p - 1 + nd)))
      (\<lambda>zl. wr zl (p + req) F') = Some (hdr tot tail cnt @ X @ G @ F' @ Y @ [ZIP_END])"
proof -
  let ?H = "hdr tot tail cnt"
  let ?u = "10 + length X + length F - length F'"
  have cut: "\<exists>U T. xs = U @ T \<and> length U = n" if "n \<le> length xs" for n and xs :: bytes
    by (rule exI [of _ "take n xs"], rule exI [of _ "drop n xs"]) (use that in simp)
  obtain U T where UT: "?H @ X @ F = U @ T" "length U = ?u"
  proof -
    have "?u \<le> length (?H @ X @ F)" by simp
    from cut [OF this] show thesis using that by blast
  qed
  have lT: "length T = length F'" using arg_cong [OF UT(1), of length] UT(2) F by simp
  have src: "nat (int p - nd) = ?u" "nat (int curlen - int p - 1 + nd) = length (T @ Y)" unfolding p cur nd using F lT by auto
  have buf1: "?H @ X @ F @ Y @ W @ [ZIP_END] = U @ (T @ Y) @ W @ [ZIP_END]" using arg_cong [OF UT(1), of "\<lambda>x. x @ Y @ W @ [ZIP_END]"] by simp
  have rd: "rd (?H @ X @ F @ Y @ W @ [ZIP_END]) ?u (length (T @ Y)) = Some (T @ Y)" unfolding buf1 by (rule rd_at [OF UT(2) refl])
  have lR: "length (F @ Y @ W) = req + length (T @ Y)" using W lT unfolding nd by simp
  obtain G B where GB: "F @ Y @ W = G @ B" "length G = req" using cut [of req "F @ Y @ W"] lR by auto
  have lB: "length B = length (T @ Y)" using arg_cong [OF GB(1), of length] GB(2) lR by simp
  have buf2: "?H @ X @ F @ Y @ W @ [ZIP_END] = (?H @ X @ G) @ B @ [ZIP_END]" using arg_cong [OF GB(1), of "\<lambda>x. ?H @ X @ x @ [ZIP_END]"] by simp
  have mm: "memmove (?H @ X @ F @ Y @ W @ [ZIP_END]) (p + req) (nat (int p - nd)) (nat (int curlen - int p - 1 + nd)) = Some ((?H @ X @ G) @ (T @ Y) @ [ZIP_END])"
    unfolding src by (rule memmove_at [OF rd buf2]) (use lB GB(2) p in simp_all)
  have "wr ((?H @ X @ G) @ T @ (Y @ [ZIP_END])) (p + req) F' = Some ((?H @ X @ G) @ F' @ (Y @ [ZIP_END]))"
    by (rule wr_at) (use GB(2) p lT in simp_all)
  then show ?thesis unfolding mm by (intro exI [of _ G]) (use GB(2) in simp)
qed

lemma tail_shift: "rawsize (butlast (A @ f # B)) + req + (if B = [] then 0 else d) = rawsize A + req + rawsize (butlast (f # B)) + (if B = [] then 0 else d)"
  by (simp add: butlast_append)

definition insert_entry :: "zentry list \<Rightarrow> bytes \<Rightarrow> zentry list \<Rightarrow> zentry list" where
  "insert_entry A s B = (let new = (\<not> lastlen 0 A < 254, s) in
     A @ new # (case B of [] \<Rightarrow> [] | f # B \<Rightarrow> let f' = (\<not> rawlen new < 254, snd f) in f' # cascade (rawlen f') B))"

text \<open>
  The room for the new entry must cover what the field of the next entry loses. This fails when a field
  was left larger than its value needs and the new entry has less than four bytes.
\<close>

definition no_overrun :: "zentry list \<Rightarrow> bytes \<Rightarrow> zentry list \<Rightarrow> bool" where
  "no_overrun A s B \<longleftrightarrow> (let req = rawlen (\<not> lastlen 0 A < 254, s) in B \<noteq> [] \<and> fst (hd B) \<and> req < 254 \<longrightarrow> 4 \<le> req)"

lemma insert_before:
  assumes rep: "zl_rep zl (A @ f # B)" and fits: "11 + rawsize (A @ f # B) + length s + 22 + 4 * length B < 2 ^ 32" and room: "no_overrun A s (f # B)"
  shows "\<exists>zl'. ziplistInsert g zl (10 + rawsize A) s = Some zl' \<and> zl_rep zl' (insert_entry A s (f # B))"
proof -
  let ?k = "lastlen 0 A" let ?new = "(\<not> ?k < 254, s)" let ?p = "10 + rawsize A"
  define req where "req = rawlen ?new"
  define f' where "f' = (\<not> req < 254, snd f)"
  define B' where "B' = cascade (rawlen f') B"
  define nd where "nd = int (psize f') - int (psize f)"
  obtain cnt where wf: "zl_wf 0 (A @ f # B)" and cnt: "cnt_ok cnt (length (A @ f # B))"
    and zl: "zl = hdr (11 + rawsize (A @ f # B)) (int (10 + rawsize (butlast (A @ f # B)))) cnt @ raws 0 (A @ f # B) @ [ZIP_END]"
    using rep by (auto simp: zl_rep_def)
  define Y where "Y = zl_body (snd f) @ raws (rawlen f) B"
  let ?F = "enc_prev (fst f) ?k" and ?F' = "enc_prev (fst f') req" and ?X = "raws 0 A"
  have zl': "zl = hdr (11 + rawsize (A @ f # B)) (int (10 + rawsize (butlast (A @ f # B)))) cnt @ ?X @ ?F @ Y @ [ZIP_END]" unfolding zl Y_def by (simp add: raws_append)
  have wA: "zl_wf 0 A" "fst f \<or> ?k < 254" "zl_wf (rawlen f) B" using wf by (auto simp: wf_append)
  have req: "req \<le> length s + 18" "0 < req" unfolding req_def using rawlen_le by auto
  have szs: "?k < 2 ^ 32" "rawlen f < 2 ^ 32" "req < 2 ^ 32" using lastlen_le [of 0 A] fits req(1) by auto
  have rf: "int (rawlen f') = int (rawlen f) + nd" by (simp add: f'_def nd_def rawlen_def)
  have rfb: "rawlen f' \<le> rawlen f + 4" by (simp add: f'_def rawlen_def)
  have Yl: "length ?F + length Y = rawsize (f # B)" "length ?F' + length Y = rawsize (f' # B)" by (auto simp: Y_def rawlen_def f'_def)
  define encoding where "encoding = (case zipTryEncoding s of Some (value, encoding) \<Rightarrow> encoding | None \<Rightarrow> 0)"
  let ?cur = "11 + rawsize (A @ f # B)"
  have tot: "ZIPLIST_BYTES zl = Some ?cur" unfolding zl by (rule hdr_get(1)) (use fits in simp)
  note at = entry_at [OF wA(2) szs(1) len_entry [OF szs(2)], of "hdr ?cur (int (10 + rawsize (butlast (A @ f # B)))) cnt @ ?X" ?p zl "raws (rawlen f) B @ [ZIP_END]"]
  have at': "byte_at zl ?p = Some (hd ?F)" "hd ?F \<noteq> ZIP_END" "ZIP_DECODE_PREVLENSIZE zl ?p = Some (psize f)" "ZIP_DECODE_PREVLEN zl ?p = Some (psize f, ?k)"
    using at zl' by (simp_all add: Y_def)
  have diff: "zipPrevLenByteDiff zl ?p req = Some nd" by (simp add: zipPrevLenByteDiff_def at' zipPrevEncodeLength_enc nd_def f'_def)
  have grow: "0 \<le> int req + nd" using room unfolding no_overrun_def Let_def nd_def f'_def req_def [symmetric] by (auto simp: not_less)
  define n where "n = nat (int req + nd)"
  have n: "int n = int req + nd" "n \<le> req + 4" using grow by (auto simp: n_def nd_def)
  have len: "11 + length (?X @ ?F @ Y) = ?cur" using Yl(1) by simp
  obtain W where W: "ziplistResize g zl (?cur + n) = Some (hdr (?cur + n) (int (10 + rawsize (butlast (A @ f # B)))) cnt @ ?X @ ?F @ Y @ W @ [ZIP_END])" "length W = n"
    using resize_room [of "?X @ ?F @ Y" n g ?cur "int (10 + rawsize (butlast (A @ f # B)))" cnt, unfolded len] fits n req(1) unfolding zl' by auto
  have cn: "nat (int (?cur + req) + nd) = ?cur + n" using n(1) by linarith
  let ?zl1 = "hdr (?cur + n) (int (10 + rawsize (butlast (A @ f # B)))) cnt @ ?X @ ?F @ Y @ W @ [ZIP_END]"
  have b1: "byte_at ?zl1 ?p = Some (hd ?F)"
    using prevlen_at(1) [OF wA(2) szs(1), of "hdr (?cur + n) (int (10 + rawsize (butlast (A @ f # B)))) cnt @ ?X" ?p "Y @ W @ [ZIP_END]"] by simp
  obtain G where G: "length G = req" "Option.bind (memmove ?zl1 (?p + req) (nat (int ?p - nd)) (nat (int ?cur - int ?p - 1 + nd))) (\<lambda>zl. wr zl (?p + req) ?F')
      = Some (hdr (?cur + n) (int (10 + rawsize (butlast (A @ f # B)))) cnt @ ?X @ G @ ?F' @ Y @ [ZIP_END])"
  proof -
    have "int (length W) = int req + nd" "nd = int (length ?F') - int (length ?F)" "length ?F' \<le> 5" "?p = 10 + length ?X" "?cur = 11 + length ?X + length ?F + length Y"
      using W(2) n(1) Yl(1) by (auto simp: nd_def)
    from make_room [OF this, of "?cur + n" "int (10 + rawsize (butlast (A @ f # B)))" cnt] show thesis using that by blast
  qed
  have pe: "zipPrevEncodeLength req = ?F'" by (simp add: zipPrevEncodeLength_enc f'_def)
  let ?t1 = "int (10 + rawsize (butlast (A @ f # B)))" let ?t2 = "?t1 + int req" let ?t3 = "int (10 + (rawsize A + req) + rawsize (butlast (f' # B)))"
  have tb: "0 \<le> ?t1" "?t1 < 2 ^ 32" "0 \<le> ?t2" "?t2 < 2 ^ 32" using butlast_size [of "A @ f # B"] fits req(1) by auto
  have nxt: "zipEntry (hdr (?cur + n) t cnt @ ?X @ G @ ?F' @ Y @ [ZIP_END]) (?p + req) = Some (ent req f' (?p + req))"
    "byte_at (hdr (?cur + n) t cnt @ ?X @ G @ ?F' @ Y @ [ZIP_END]) (?p + req + rawlen f') = Some (if B = [] then ZIP_END else hd (enc_prev (fst (hd B)) (rawlen f)))" for t
  proof -
    have ff: "fst f' \<or> req < 254" "length (snd f') < 2 ^ 32" using len_entry [OF szs(2)] by (auto simp: f'_def)
    show "zipEntry (hdr (?cur + n) t cnt @ ?X @ G @ ?F' @ Y @ [ZIP_END]) (?p + req) = Some (ent req f' (?p + req))"
      by (rule entry_at(7) [OF ff(1) szs(3) ff(2), of "hdr (?cur + n) t cnt @ ?X @ G"]) (simp_all add: G(1) Y_def f'_def)
    show "byte_at (hdr (?cur + n) t cnt @ ?X @ G @ ?F' @ Y @ [ZIP_END]) (?p + req + rawlen f') = Some (if B = [] then ZIP_END else hd (enc_prev (fst (hd B)) (rawlen f)))"
    proof (cases B)
      case Nil
      then show ?thesis using byte_at_here [of "hdr (?cur + n) t cnt @ ?X @ G @ ?F' @ zl_body (snd f)" "?p + req + rawlen f'" ZIP_END "[]"] G(1) by (simp add: Y_def rawlen_def f'_def)
    next
      case (Cons h C)
      have "fst h \<or> rawlen f < 254" using wA(3) Cons by simp
      from prevlen_at(1) [OF this szs(2), of "hdr (?cur + n) t cnt @ ?X @ G @ ?F' @ zl_body (snd f)" "?p + req + rawlen f'" "zl_body (snd h) @ raws (rawlen h) C @ [ZIP_END]"]
      show ?thesis using Cons G(1) by (simp add: Y_def rawlen_def f'_def)
    qed
  qed
  have nend: "B \<noteq> [] \<Longrightarrow> hd (enc_prev (fst (hd B)) (rawlen f)) \<noteq> ZIP_END"
    using wA(3) prevlen_at(2) [OF _ szs(2)] by (cases B) auto
  have t3: "?t2 + (if B = [] then 0 else nd) = ?t3" using rf by (auto simp: butlast_append)
  let ?zl3 = "hdr (?cur + n) ?t3 cnt @ ?X @ G @ ?F' @ Y @ [ZIP_END]"
  have mid: "(do {
         zl \<leftarrow> memmove ?zl1 (?p + req) (nat (int ?p - nd)) (nat (int ?cur - int ?p - 1 + nd));
         zl \<leftarrow> wr zl (?p + req) (zipPrevEncodeLength req);
         tl \<leftarrow> ZIPLIST_TAIL_OFFSET zl;
         zl \<leftarrow> set_tail_offset (int (tl + req)) zl;
         tail \<leftarrow> zipEntry zl (?p + req);
         b \<leftarrow> byte_at zl (?p + req + ze_headersize tail + ze_len tail);
         if b \<noteq> ZIP_END then do { tl \<leftarrow> ZIPLIST_TAIL_OFFSET zl; set_tail_offset (int tl + nd) zl } else Some zl
       }) = Some ?zl3"
  proof -
    have a1: "?p + req + (psize f' + length (zl_head (snd f'))) + length (zl_payload (snd f')) = ?p + req + rawlen f'" using rawlen_ent [of f'] by simp
    have a2: "int (nat ?t1 + req) = ?t2" by simp
    show ?thesis unfolding pe bind_assoc [symmetric] G(2) bind.bind_lunit hdr_get(2) [OF tb(1,2)] a2 hdr_set_tail nxt(1) headersize_ent a1 nxt(2) hdr_get(2) [OF tb(3,4)]
      using t3 nend tb(3) by (cases "B = []") (simp_all only: if_True if_False, auto intro!: arg_cong2 [of _ _ _ _ "\<lambda>a b. hdr a b cnt"])
  qed
  let ?zl4 = "hdr (11 + (rawsize A + req) + rawsize (f' # B')) (int (10 + (rawsize A + req) + rawsize (butlast (f' # B')))) cnt @ ?X @ G @ ?F' @ zl_body (snd f') @ raws (rawlen f') B' @ [ZIP_END]"
  have tot3: "?cur + n = 11 + (rawsize A + req) + rawsize (f' # B)" using n(1) rf by simp
  have cas: "(if nd \<noteq> 0 then cascade_update g ?zl3 (?p + req) else Some ?zl3) = Some ?zl4"
  proof (cases "nd = 0")
    case True
    then have "f' = f" using rf by (cases f; cases f') (auto simp: nd_def f'_def split: if_splits)
    moreover have "B' = B" unfolding B'_def \<open>f' = f\<close> by (rule cascade_id [OF wA(3)])
    ultimately show ?thesis using True tot3 by (simp add: Y_def ac_simps)
  next
    case False
    have "ZIPLIST_BYTES ?zl3 = Some (?cur + n)" by (rule hdr_get(1)) (use fits n req(1) in simp)
    moreover have "ziplistCascadeUpdate g ?zl3 (?p + req) (?cur + n) =
        Some (hdr (11 + length (?X @ G) + rawsize (f' # B')) (int (10 + length (?X @ G) + rawsize (butlast (f' # B')))) cnt @
         (?X @ G) @ enc_prev (fst f') req @ zl_body (snd f') @ raws (rawlen f') B' @ [ZIP_END])"
      by (rule cascade_ok [where j = "rawlen f" and B = B])
        (use fits n req szs wA(3) tot3 G(1) rfb in \<open>auto simp: Y_def f'_def B'_def\<close>)
    ultimately show ?thesis using False G(1) by (simp add: cascade_update_def)
  qed
  obtain cnt' where c': "cnt_ok cnt' (Suc (length (A @ f # B)))" "write_entry ?p ?k encoding s ?zl4 =
      Some (hdr (11 + (rawsize A + req) + rawsize (f' # B')) (int (10 + (rawsize A + req) + rawsize (butlast (f' # B')))) cnt' @ ?X @
        enc_prev (\<not> ?k < 254) ?k @ zl_body s @ ?F' @ zl_body (snd f') @ raws (rawlen f') B' @ [ZIP_END])"
    using write_entry_ok [OF _ refl _ encoding_def cnt, of G ?k ?p ?X "11 + (rawsize A + req) + rawsize (f' # B')" "int (10 + (rawsize A + req) + rawsize (butlast (f' # B')))"
        "?F' @ zl_body (snd f') @ raws (rawlen f') B' @ [ZIP_END]"] G(1) req_def by auto
  let ?zl5 = "hdr (11 + (rawsize A + req) + rawsize (f' # B')) (int (10 + (rawsize A + req) + rawsize (butlast (f' # B')))) cnt' @ ?X @
        enc_prev (\<not> ?k < 254) ?k @ zl_body s @ ?F' @ zl_body (snd f') @ raws (rawlen f') B' @ [ZIP_END]"
  have "ziplistInsert g zl ?p s = Some ?zl5"
    unfolding ziplistInsert_def tot at' bind.bind_lunit encoding_def [symmetric]
    using at'(2) by (simp only: bind.bind_lunit simp_thms if_False if_True Let_def option.map snd_conv reqlen_eq [OF encoding_def] req_def [symmetric] diff cn W(1) b1 mid cas c'(2))
  moreover have "zl_rep ?zl5 (insert_entry A s (f # B))"
  proof -
    have es: "insert_entry A s (f # B) = A @ ?new # f' # B'" by (simp add: insert_entry_def f'_def B'_def req_def Let_def)
    have "zl_wf 0 (A @ ?new # f' # B')" using wA cascade_wf [OF wA(3), of "rawlen f'"] by (auto simp: wf_append f'_def B'_def req_def)
    moreover have "rawsize B' \<le> rawsize B + 4 * length B" using cascade_size by (simp add: B'_def)
    moreover have "length (A @ ?new # f' # B') = Suc (length (A @ f # B))" by (simp add: B'_def)
    ultimately show ?thesis unfolding es zl_rep_def using fits req(1) rfb c'(1)
      by (auto simp: raws_append req_def [symmetric] butlast_append ac_simps intro!: exI [of _ cnt'])
  qed
  ultimately show ?thesis by blast
qed

section \<open>Deletion\<close>

lemma scan_entries:
  "length P = p \<Longrightarrow> zl = P @ raws k (M @ R) @ [ZIP_END] \<Longrightarrow> zl_wf k (M @ R) \<Longrightarrow> k < 2 ^ 32 \<Longrightarrow> rawsize (M @ R) < 2 ^ 32 \<Longrightarrow> num = length M \<or> R = [] \<and> num > length M \<Longrightarrow>
   delete_scan zl p num = Some (p + rawsize M, length M)"
proof (induction M arbitrary: P p k num)
  case Nil
  show ?case
  proof (cases num)
    case (Suc n)
    then have "R = []" using Nil.prems(6) by auto
    then have "byte_at zl p = Some ZIP_END" using Nil.prems(1,2) end_at [of P p] by simp
    then show ?thesis using Suc by simp
  qed simp
next
  case (Cons e M)
  obtain n where n: "num = Suc n" "n = length M \<or> R = [] \<and> n > length M" using Cons.prems(6) by (cases num) auto
  have re: "rawlen e < 2 ^ 32" using Cons.prems(5) by simp
  have f: "fst e \<or> k < 254" using Cons.prems(3) by simp
  have zl: "zl = P @ enc_prev (fst e) k @ zl_body (snd e) @ raws (rawlen e) (M @ R) @ [ZIP_END]" using Cons.prems(2) by simp
  note at = entry_at [OF f Cons.prems(4) len_entry [OF re] Cons.prems(1) zl]
  have "delete_scan zl (p + rawlen e) n = Some (p + rawlen e + rawsize M, length M)"
    by (rule Cons.IH [of "P @ enc_prev (fst e) k @ zl_body (snd e)" _ "rawlen e"]) (use Cons.prems n zl re in \<open>auto simp: rawlen_def\<close>)
  then show ?case unfolding n(1) using at by simp
qed

text \<open>The entries that stay, with the field of the first one behind the deleted ones adjusted.\<close>

definition delete_entries :: "zentry list \<Rightarrow> zentry list \<Rightarrow> zentry list" where
  "delete_entries A R = A @ (case R of [] \<Rightarrow> [] | f # R \<Rightarrow> let f' = (\<not> lastlen 0 A < 254, snd f) in f' # cascade (rawlen f') R)"

lemma cnt_minus:
  assumes "cnt_ok cnt n" "m \<le> n"
  shows "\<exists>cnt'. cnt_ok cnt' (n - m) \<and> ZIPLIST_INCR_LENGTH (- int m) (hdr tot tail cnt @ R) = Some (hdr tot tail cnt' @ R)"
proof -
  let ?c = "if cnt < 65535 then n - m else cnt"
  have "cnt < 65535 \<Longrightarrow> cnt = n" "cnt < 65536" using assms(1) by (auto simp: cnt_ok_def)
  then have "ZIPLIST_INCR_LENGTH (- int m) (hdr tot tail cnt @ R) = Some (hdr tot tail ?c @ R)"
    using hdr_incr [of cnt "- int m" tot tail R] hdr_get(3) [of cnt tot tail R] assms(2) by (cases "cnt < 65535") (simp_all add: ZIPLIST_INCR_LENGTH_def nat_diff_distrib')
  moreover have "cnt_ok ?c (n - m)" using assms by (auto simp: cnt_ok_def)
  ultimately show ?thesis by blast
qed

lemma lastlen_le_butlast: "es \<noteq> [] \<Longrightarrow> rawsize es = rawsize (butlast es) + lastlen k es"
  by (cases es rule: rev_cases) auto

lemma delete_tail:
  assumes rep: "zl_rep zl (A @ M)" and M: "M \<noteq> []" and num: "length M \<le> num"
  shows "\<exists>zl'. ziplistDelete_num g zl (10 + rawsize A) num = Some zl' \<and> zl_rep zl' A"
proof -
  let ?k = "lastlen 0 A" let ?p = "10 + rawsize A"
  obtain e M' where Me: "M = e # M'" using M by (cases M) auto
  obtain cnt where wf: "zl_wf 0 (A @ M)" "11 + rawsize (A @ M) < 2 ^ 32" and cnt: "cnt_ok cnt (length (A @ M))"
    and zl: "zl = hdr (11 + rawsize (A @ M)) (int (10 + rawsize (butlast (A @ M)))) cnt @ raws 0 (A @ M) @ [ZIP_END]"
    using rep by (auto simp: zl_rep_def)
  let ?H = "hdr (11 + rawsize (A @ M)) (int (10 + rawsize (butlast (A @ M)))) cnt"
  have zl': "zl = (?H @ raws 0 A) @ raws ?k (M @ []) @ [ZIP_END]" unfolding zl by (simp add: raws_append)
  have szs: "?k < 2 ^ 32" "rawlen e < 2 ^ 32" using lastlen_le [of 0 A] wf(2) Me by auto
  have wA: "zl_wf 0 A" "zl_wf ?k (M @ [])" "fst e \<or> ?k < 254" using wf(1) Me by (auto simp: wf_append)
  have en: "zipEntry zl ?p = Some (ent ?k e ?p)"
    by (rule entry_at(7) [OF wA(3) szs(1) len_entry [OF szs(2)], of "?H @ raws 0 A" _ _ "raws (rawlen e) M' @ [ZIP_END]"]) (use zl' Me in simp_all)
  have sc: "delete_scan zl ?p num = Some (?p + rawsize M, length M)"
    by (rule scan_entries [OF _ zl' wA(2) szs(1)]) (use wf(2) num in auto)
  have b: "byte_at zl (?p + rawsize M) = Some ZIP_END" unfolding zl' using end_at [of "?H @ raws 0 (A @ M)" "?p + rawsize M"] by (simp add: raws_append)
  have tl: "int ?p - int ?k = int (10 + rawsize (butlast A))" using lastlen_le_butlast [of A 0] by (cases "A = []") auto
  let ?zl1 = "hdr (11 + rawsize (A @ M)) (int (10 + rawsize (butlast A))) cnt @ raws 0 A @ raws ?k M @ [ZIP_END]"
  have st: "set_tail_offset (int ?p - int ?k) zl = Some ?zl1" unfolding zl' tl by simp
  have tot: "ZIPLIST_BYTES ?zl1 = Some (11 + rawsize (A @ M))" by (rule hdr_get(1) [OF wf(2)])
  have rz: "ziplistResize g ?zl1 (11 + rawsize A) = Some (hdr (11 + rawsize A) (int (10 + rawsize (butlast A))) cnt @ raws 0 A @ [ZIP_END])"
    using resize_shrink [of "raws 0 A" "raws ?k M @ [ZIP_END]" g] wf(2) by simp
  obtain cnt' where c': "cnt_ok cnt' (length A)"
      "ZIPLIST_INCR_LENGTH (- int (length M)) (hdr (11 + rawsize A) (int (10 + rawsize (butlast A))) cnt @ raws 0 A @ [ZIP_END])
        = Some (hdr (11 + rawsize A) (int (10 + rawsize (butlast A))) cnt' @ raws 0 A @ [ZIP_END])"
    using cnt_minus [OF cnt, of "length M" "11 + rawsize A" "int (10 + rawsize (butlast A))" "raws 0 A @ [ZIP_END]"] by auto
  have ln: "?p + rawsize M - ?p = rawsize M" "nat (int (11 + rawsize (A @ M)) - int (rawsize M) + 0) = 11 + rawsize A" "0 < rawsize M" using Me by auto
  have "ziplistDelete_num g zl ?p num = Some (hdr (11 + rawsize A) (int (10 + rawsize (butlast A))) cnt' @ raws 0 A @ [ZIP_END])"
    unfolding ziplistDelete_num_def en sc bind.bind_lunit
    using ln(3) by (simp only: prod.case Let_def headersize_ent ln b bind.bind_lunit simp_thms if_True if_False st tot rz c'(2))
  moreover have "zl_rep (hdr (11 + rawsize A) (int (10 + rawsize (butlast A))) cnt' @ raws 0 A @ [ZIP_END]) A"
    unfolding zl_rep_def using wA(1) wf(2) c'(1) by auto
  ultimately show ?thesis by blast
qed

lemma delete_mid:
  assumes rep: "zl_rep zl (A @ M @ f # R)" and M: "M \<noteq> []" and num: "num = length M" and fits: "15 + rawsize (A @ M @ f # R) + 4 * length R < 2 ^ 32"
  shows "\<exists>zl'. ziplistDelete_num g zl (10 + rawsize A) num = Some zl' \<and> zl_rep zl' (delete_entries A (f # R))"
proof -
  let ?k = "lastlen 0 A" let ?p = "10 + rawsize A" let ?j = "lastlen ?k M" let ?es = "A @ M @ f # R"
  define f' where "f' = (\<not> ?k < 254, snd f)"
  define R' where "R' = cascade (rawlen f') R"
  define nd where "nd = int (psize f') - int (psize f)"
  define Y where "Y = zl_body (snd f) @ raws (rawlen f) R"
  let ?F = "enc_prev (fst f) ?j" and ?F' = "enc_prev (fst f') ?k" and ?X = "raws 0 A" and ?Mb = "raws ?k M"
  obtain e M' where Me: "M = e # M'" using M by (cases M) auto
  obtain cnt where wf: "zl_wf 0 ?es" "11 + rawsize ?es < 2 ^ 32" and cnt: "cnt_ok cnt (length ?es)"
    and zl: "zl = hdr (11 + rawsize ?es) (int (10 + rawsize (butlast ?es))) cnt @ raws 0 ?es @ [ZIP_END]"
    using rep by (auto simp: zl_rep_def)
  let ?cur = "11 + rawsize ?es" let ?t1 = "int (10 + rawsize (butlast ?es))"
  have zl': "zl = (hdr ?cur ?t1 cnt @ ?X) @ raws ?k (M @ f # R) @ [ZIP_END]" unfolding zl by (simp add: raws_append)
  have zlF: "zl = hdr ?cur ?t1 cnt @ ?X @ ?Mb @ ?F @ Y @ [ZIP_END]" unfolding zl by (simp add: raws_append Y_def)
  have szs: "?k < 2 ^ 32" "rawlen e < 2 ^ 32" "rawlen f < 2 ^ 32" "?j < 2 ^ 32"
    using lastlen_le [of 0 A] lastlen_le [of ?k M] wf(2) Me by (auto simp: max_def split: if_splits)
  have wA: "zl_wf 0 A" "zl_wf ?k (M @ f # R)" "fst e \<or> ?k < 254" "fst f \<or> ?j < 254" "zl_wf (rawlen f) R" using wf(1) Me by (auto simp: wf_append)
  have en: "zipEntry zl ?p = Some (ent ?k e ?p)"
    by (rule entry_at(7) [OF wA(3) szs(1) len_entry [OF szs(2)], of "hdr ?cur ?t1 cnt @ ?X" _ _ "raws (rawlen e) (M' @ f # R) @ [ZIP_END]"]) (use zl' Me in simp_all)
  have sc: "delete_scan zl ?p num = Some (?p + rawsize M, length M)"
    by (rule scan_entries [OF _ zl' wA(2) szs(1)]) (use wf(2) num in auto)
  note at = prevlen_at(1,3) [OF wA(4) szs(4), of "hdr ?cur ?t1 cnt @ ?X @ ?Mb" "?p + rawsize M" "Y @ [ZIP_END]"]
  have b: "byte_at zl (?p + rawsize M) = Some (hd ?F)" "hd ?F \<noteq> ZIP_END" using at(1) prevlen_at(2) [OF wA(4) szs(4)] zlF by simp_all
  have diff: "zipPrevLenByteDiff zl (?p + rawsize M) ?k = Some nd"
    using at(2) zlF by (simp add: zipPrevLenByteDiff_def zipPrevEncodeLength_enc nd_def f'_def)
  have big: "nd \<le> int (rawsize M)"
  proof (cases "?k < 254")
    case False
    then have "5 \<le> rawlen e" using wA(3) by (simp add: rawlen_def)
    then show ?thesis using Me by (simp add: nd_def)
  qed (auto simp: nd_def f'_def)
  define m where "m = nat (int (rawsize M) - nd)"
  have m: "int m = int (rawsize M) - nd" using big by (simp add: m_def)
  have p2: "nat (int (?p + rawsize M) - nd) = ?p + m" using m by linarith
  have lF: "m + psize f' = rawsize M + psize f" using m by (simp add: nd_def)
  obtain Mb' T where MT: "?Mb @ ?F = Mb' @ T" "length Mb' = m" "length T = psize f'"
    by (rule that [OF append_take_drop_id [of m, symmetric]]) (use lF in auto)
  have pe: "zipPrevEncodeLength ?k = ?F'" by (simp add: zipPrevEncodeLength_enc f'_def)
  have w1: "wr zl (?p + m) ?F' = Some (hdr ?cur ?t1 cnt @ ?X @ Mb' @ ?F' @ Y @ [ZIP_END])"
  proof -
    have "zl = (hdr ?cur ?t1 cnt @ ?X @ Mb') @ T @ (Y @ [ZIP_END])" using zlF arg_cong [OF MT(1), of "\<lambda>x. hdr ?cur ?t1 cnt @ ?X @ x @ Y @ [ZIP_END]"] by simp
    then show ?thesis using wr_at [of "hdr ?cur ?t1 cnt @ ?X @ Mb'" "?p + m" T ?F' "Y @ [ZIP_END]"] MT by simp
  qed
  have rf: "int (rawlen f') = int (rawlen f) + nd" "rawlen f' \<le> rawlen f + 4" by (auto simp: f'_def nd_def rawlen_def)
  let ?t2 = "?t1 - int (rawsize M)" let ?t3 = "int (10 + rawsize A + rawsize (butlast (f' # R)))"
  have bl: "butlast ?es = A @ M @ butlast (f # R)" by (simp add: butlast_append)
  have tb: "0 \<le> ?t1" "?t1 < 2 ^ 32" "0 \<le> ?t2" "?t2 < 2 ^ 32" using butlast_size [of ?es] wf(2) unfolding bl by auto
  have t3: "?t2 + (if R = [] then 0 else nd) = ?t3" unfolding bl using rf by auto
  have nxt: "zipEntry (hdr ?cur t cnt @ ?X @ Mb' @ ?F' @ Y @ [ZIP_END]) (?p + m) = Some (ent ?k f' (?p + m))"
    "byte_at (hdr ?cur t cnt @ ?X @ Mb' @ ?F' @ Y @ [ZIP_END]) (?p + m + rawlen f') = Some (if R = [] then ZIP_END else hd (enc_prev (fst (hd R)) (rawlen f)))" for t
  proof -
    have ff: "fst f' \<or> ?k < 254" "length (snd f') < 2 ^ 32" using len_entry [OF szs(3)] by (auto simp: f'_def)
    show "zipEntry (hdr ?cur t cnt @ ?X @ Mb' @ ?F' @ Y @ [ZIP_END]) (?p + m) = Some (ent ?k f' (?p + m))"
      by (rule entry_at(7) [OF ff(1) szs(1) ff(2), of "hdr ?cur t cnt @ ?X @ Mb'"]) (simp_all add: MT(2) Y_def f'_def)
    show "byte_at (hdr ?cur t cnt @ ?X @ Mb' @ ?F' @ Y @ [ZIP_END]) (?p + m + rawlen f') = Some (if R = [] then ZIP_END else hd (enc_prev (fst (hd R)) (rawlen f)))"
    proof (cases R)
      case Nil
      then show ?thesis using byte_at_here [of "hdr ?cur t cnt @ ?X @ Mb' @ ?F' @ zl_body (snd f)" "?p + m + rawlen f'" ZIP_END "[]"] MT(2) by (simp add: Y_def rawlen_def f'_def)
    next
      case (Cons h C)
      have "fst h \<or> rawlen f < 254" using wA(5) Cons by simp
      from prevlen_at(1) [OF this szs(3), of "hdr ?cur t cnt @ ?X @ Mb' @ ?F' @ zl_body (snd f)" "?p + m + rawlen f'" "zl_body (snd h) @ raws (rawlen h) C @ [ZIP_END]"]
      show ?thesis using Cons MT(2) by (simp add: Y_def rawlen_def f'_def)
    qed
  qed
  have nend: "R \<noteq> [] \<Longrightarrow> hd (enc_prev (fst (hd R)) (rawlen f)) \<noteq> ZIP_END"
    using wA(5) prevlen_at(2) [OF _ szs(3)] by (cases R) auto
  obtain Z where Z: "memmove (hdr ?cur ?t3 cnt @ ?X @ Mb' @ ?F' @ Y @ [ZIP_END]) ?p (?p + m) (?cur - (?p + m) - 1) = Some (hdr ?cur ?t3 cnt @ ?X @ (?F' @ Y) @ Z)" "Z \<noteq> []"
  proof -
    let ?T = "Mb' @ ?F' @ Y @ [ZIP_END]"
    have n: "?cur - (?p + m) - 1 = length (?F' @ Y)" using lF by (simp add: Y_def rawlen_def)
    have rd: "rd (hdr ?cur ?t3 cnt @ ?X @ Mb' @ ?F' @ Y @ [ZIP_END]) (?p + m) (length (?F' @ Y)) = Some (?F' @ Y)"
      using rd_at [of "hdr ?cur ?t3 cnt @ ?X @ Mb'" "?p + m" "?F' @ Y" "length (?F' @ Y)" "[ZIP_END]"] MT(2) by simp
    have sp: "hdr ?cur ?t3 cnt @ ?X @ ?T = (hdr ?cur ?t3 cnt @ ?X) @ take (length (?F' @ Y)) ?T @ drop (length (?F' @ Y)) ?T" by (simp only: append_assoc append_take_drop_id)
    have "memmove (hdr ?cur ?t3 cnt @ ?X @ ?T) ?p (?p + m) (length (?F' @ Y)) = Some ((hdr ?cur ?t3 cnt @ ?X) @ (?F' @ Y) @ drop (length (?F' @ Y)) ?T)"
      by (rule memmove_at [OF rd sp]) simp_all
    then show thesis using that [of "drop (length (?F' @ Y)) ?T"] unfolding n by simp
  qed
  have upd: "(do {
           zl \<leftarrow> wr zl (?p + m) ?F';
           tl \<leftarrow> ZIPLIST_TAIL_OFFSET zl;
           zl \<leftarrow> set_tail_offset (int tl - int (rawsize M)) zl;
           tail \<leftarrow> zipEntry zl (?p + m);
           b \<leftarrow> byte_at zl (?p + m + ze_headersize tail + ze_len tail);
           zl \<leftarrow> (if b \<noteq> ZIP_END then do { tl \<leftarrow> ZIPLIST_TAIL_OFFSET zl; set_tail_offset (int tl + nd) zl } else Some zl);
           bytes \<leftarrow> ZIPLIST_BYTES zl;
           zl \<leftarrow> memmove zl ?p (?p + m) (bytes - (?p + m) - 1);
           Some (zl, nd)
         }) = Some (hdr ?cur ?t3 cnt @ ?X @ (?F' @ Y) @ Z, nd)"
  proof -
    have a1: "?p + m + (psize f' + length (zl_head (snd f'))) + length (zl_payload (snd f')) = ?p + m + rawlen f'" using rawlen_ent [of f'] by simp
    have a2: "int (nat ?t1) - int (rawsize M) = ?t2" "int (nat ?t2) = ?t2" using tb(1,3) by simp_all
    have tt: "(if (if R = [] then ZIP_END else hd (enc_prev (fst (hd R)) (rawlen f))) \<noteq> ZIP_END
        then Some (hdr ?cur (?t2 + nd) cnt @ ?X @ Mb' @ ?F' @ Y @ [ZIP_END]) else Some (hdr ?cur ?t2 cnt @ ?X @ Mb' @ ?F' @ Y @ [ZIP_END]))
        = Some (hdr ?cur ?t3 cnt @ ?X @ Mb' @ ?F' @ Y @ [ZIP_END])"
      using t3 nend by (cases "R = []") (simp_all only: if_True if_False hdr_set_tail simp_thms add_0_right)
    show ?thesis unfolding w1 bind.bind_lunit hdr_get(2) [OF tb(1,2)] a2 hdr_set_tail nxt(1) headersize_ent a1 nxt(2) hdr_get(2) [OF tb(3,4)] a2 tt hdr_get(1) [OF wf(2)] Z(1) by simp
  qed
  have tot1: "nat (int ?cur - int (rawsize M) + nd) = 11 + length (?X @ ?F' @ Y)" using rf lF m by (simp add: Y_def rawlen_def)
  have rz: "ziplistResize g (hdr ?cur ?t3 cnt @ ?X @ (?F' @ Y) @ Z) (11 + length (?X @ ?F' @ Y)) = Some (hdr (11 + length (?X @ ?F' @ Y)) ?t3 cnt @ ?X @ ?F' @ Y @ [ZIP_END])"
    using resize_shrink [of "?X @ ?F' @ Y" Z g ?cur ?t3 cnt] Z(2) fits rf(2) by (simp add: Y_def rawlen_def f'_def)
  have tot: "ZIPLIST_BYTES (hdr ?cur ?t3 cnt @ ?X @ (?F' @ Y) @ Z) = Some ?cur" by (rule hdr_get(1) [OF wf(2)])
  have len: "11 + length (?X @ ?F' @ Y) = 11 + length ?X + rawsize (f' # R)" by (simp add: Y_def rawlen_def f'_def)
  obtain cnt' where c': "cnt_ok cnt' (length A + Suc (length R))"
      "ZIPLIST_INCR_LENGTH (- int (length M)) (hdr (11 + length (?X @ ?F' @ Y)) ?t3 cnt @ ?X @ ?F' @ Y @ [ZIP_END]) = Some (hdr (11 + length (?X @ ?F' @ Y)) ?t3 cnt' @ ?X @ ?F' @ Y @ [ZIP_END])"
    using cnt_minus [OF cnt, of "length M" "11 + length (?X @ ?F' @ Y)" ?t3 "?X @ ?F' @ Y @ [ZIP_END]"] by auto
  let ?zl5 = "hdr (11 + length ?X + rawsize (f' # R')) (int (10 + length ?X + rawsize (butlast (f' # R')))) cnt' @ ?X @ ?F' @ zl_body (snd f') @ raws (rawlen f') R' @ [ZIP_END]"
  let ?zl4 = "hdr (11 + length (?X @ ?F' @ Y)) ?t3 cnt' @ ?X @ ?F' @ Y @ [ZIP_END]"
  have cas: "(if nd \<noteq> 0 then cascade_update g ?zl4 ?p else Some ?zl4) = Some ?zl5"
  proof (cases "nd = 0")
    case True
    then have "f' = f" using rf by (cases f; cases f') (auto simp: nd_def f'_def split: if_splits)
    moreover have "R' = R" unfolding R'_def \<open>f' = f\<close> by (rule cascade_id [OF wA(5)])
    ultimately show ?thesis unfolding len using True by (simp add: Y_def)
  next
    case False
    have "ZIPLIST_BYTES ?zl4 = Some (11 + length (?X @ ?F' @ Y))" by (rule hdr_get(1)) (use fits rf(2) len in simp)
    moreover have "ziplistCascadeUpdate g ?zl4 ?p (11 + length (?X @ ?F' @ Y)) = Some ?zl5"
      by (rule cascade_ok [where j = "rawlen f" and B = R])
        (use fits szs wA(5) rf(2) in \<open>auto simp: Y_def f'_def R'_def rawlen_def\<close>)
    ultimately show ?thesis using False by (simp add: cascade_update_def)
  qed
  have ln: "?p + rawsize M - ?p = rawsize M" "0 < rawsize M" using Me by auto
  have "ziplistDelete_num g zl ?p num = Some ?zl5"
    unfolding ziplistDelete_num_def en sc bind.bind_lunit
    using ln(2) b(2) by (simp only: prod.case Let_def headersize_ent ln b bind.bind_lunit simp_thms if_True if_False diff p2 pe upd tot tot1 rz c'(2) cas)
  moreover have "zl_rep ?zl5 (delete_entries A (f # R))"
  proof -
    have es: "delete_entries A (f # R) = A @ f' # R'" by (simp add: delete_entries_def f'_def R'_def Let_def)
    have "zl_wf 0 (A @ f' # R')" using wA cascade_wf [OF wA(5), of "rawlen f'"] by (auto simp: wf_append f'_def R'_def)
    moreover have "rawsize R' \<le> rawsize R + 4 * length R" using cascade_size by (simp add: R'_def)
    moreover have "length (A @ f' # R') = length A + Suc (length R)" by (simp add: R'_def)
    ultimately show ?thesis unfolding es zl_rep_def using fits rf(2) c'(1)
      by (auto simp: raws_append butlast_append ac_simps intro!: exI [of _ cnt'])
  qed
  ultimately show ?thesis by blast
qed

end
