(* ===== verification/Ziplist_Access.thy ===== *)
theory Ziplist_Access
  imports Ziplist_Update
begin

text \<open>
  Access to a well-formed ziplist by position, index and content, and the theorems on insertion and
  deletion.
\<close>

section \<open>Access\<close>

definition zl_value :: "bytes \<Rightarrow> bytes + int" where
  "zl_value s = (case zipTryEncoding s of Some (v, e) \<Rightarrow> Inr v | None \<Rightarrow> Inl s)"

lemma zl_value_inj: "zl_value s = zl_value t \<longleftrightarrow> s = t"
  using zipTryEncoding_bounds [of s] zipTryEncoding_bounds [of t] by (auto simp: zl_value_def split: option.splits)

lemma is_str_encoding: "ZIP_IS_STR (zl_encoding s) \<longleftrightarrow> zipTryEncoding s = None"
proof (cases "zipTryEncoding s")
  case None
  have "ZIP_IS_STR (ZIP_ENTRY_ENCODING (hd (zipEncodeLength 0 n)))" for n
  proof -
    consider "n \<le> 63" | "63 < n" "n \<le> 16383" | "16383 < n" by linarith
    then show ?thesis
    proof cases
      case 1
      then show ?thesis using str_06 [OF 1] by (simp add: zipEncodeLength_def)
    next
      case 2
      then have "n div 256 \<le> 63" by simp
      then show ?thesis using str_14 [of "n div 256"] 2 by (simp add: zipEncodeLength_def ZIP_IS_STR_def)
    qed (simp add: zipEncodeLength_def ZIP_IS_STR_def ZIP_ENTRY_ENCODING_def)
  qed
  then show ?thesis using None by (simp add: zl_encoding_def)
next
  case (Some ve)
  then show ?thesis using zipTryEncoding_enc by (cases ve) (auto simp: zl_encoding_def)
qed

text \<open>An entry of a list at the position behind the entries \<open>A\<close>.\<close>

definition pos :: "zentry list \<Rightarrow> nat" where
  "pos A = 10 + rawsize A"

lemma rep_entry:
  assumes rep: "zl_rep zl (A @ e # B)"
  shows "byte_at zl (pos A) = Some (hd (enc_prev (fst e) (lastlen 0 A)))" "hd (enc_prev (fst e) (lastlen 0 A)) \<noteq> ZIP_END"
    "ZIP_DECODE_PREVLENSIZE zl (pos A) = Some (psize e)" "ZIP_DECODE_PREVLEN zl (pos A) = Some (psize e, lastlen 0 A)"
    "ZIP_DECODE_LENGTH zl (pos A + psize e) = Some (zl_encoding (snd e), length (zl_head (snd e)), length (zl_payload (snd e)))"
    "zipRawEntryLength zl (pos A) = Some (rawlen e)" "zipEntry zl (pos A) = Some (ent (lastlen 0 A) e (pos A))"
    "rd zl (pos A + (psize e + length (zl_head (snd e)))) (length (zl_payload (snd e))) = Some (zl_payload (snd e))"
    "zipTryEncoding (snd e) = Some (v, enc) \<Longrightarrow> zipLoadInteger zl (pos A + (psize e + length (zl_head (snd e)))) enc = Some v"
proof -
  obtain cnt where wf: "zl_wf 0 (A @ e # B)" "11 + rawsize (A @ e # B) < 2 ^ 32"
    and zl: "zl = hdr (11 + rawsize (A @ e # B)) (int (10 + rawsize (butlast (A @ e # B)))) cnt @ raws 0 (A @ e # B) @ [ZIP_END]"
    using rep by (auto simp: zl_rep_def)
  let ?H = "hdr (11 + rawsize (A @ e # B)) (int (10 + rawsize (butlast (A @ e # B)))) cnt" let ?R = "raws (rawlen e) B @ [ZIP_END]"
  have zl': "zl = (?H @ raws 0 A) @ enc_prev (fst e) (lastlen 0 A) @ zl_body (snd e) @ ?R" unfolding zl by (simp add: raws_append)
  have szs: "lastlen 0 A < 2 ^ 32" "rawlen e < 2 ^ 32" using lastlen_le [of 0 A] wf(2) by auto
  have f: "fst e \<or> lastlen 0 A < 254" using wf(1) by (simp add: wf_append)
  have p: "length (?H @ raws 0 A) = pos A" by (simp add: pos_def)
  note at = entry_at [OF f szs(1) len_entry [OF szs(2)] p zl']
  show "byte_at zl (pos A) = Some (hd (enc_prev (fst e) (lastlen 0 A)))" "hd (enc_prev (fst e) (lastlen 0 A)) \<noteq> ZIP_END"
    "ZIP_DECODE_PREVLENSIZE zl (pos A) = Some (psize e)" "ZIP_DECODE_PREVLEN zl (pos A) = Some (psize e, lastlen 0 A)"
    "ZIP_DECODE_LENGTH zl (pos A + psize e) = Some (zl_encoding (snd e), length (zl_head (snd e)), length (zl_payload (snd e)))"
    "zipRawEntryLength zl (pos A) = Some (rawlen e)" "zipEntry zl (pos A) = Some (ent (lastlen 0 A) e (pos A))" by (rule at)+
  have zq: "zl = (?H @ raws 0 A @ enc_prev (fst e) (lastlen 0 A) @ zl_head (snd e)) @ zl_payload (snd e) @ ?R" using zl' by (simp add: zl_body_def)
  have q: "length (?H @ raws 0 A @ enc_prev (fst e) (lastlen 0 A) @ zl_head (snd e)) = pos A + (psize e + length (zl_head (snd e)))" by (simp add: pos_def)
  show "rd zl (pos A + (psize e + length (zl_head (snd e)))) (length (zl_payload (snd e))) = Some (zl_payload (snd e))"
    unfolding zq by (rule rd_at [OF q refl])
  show "zipLoadInteger zl (pos A + (psize e + length (zl_head (snd e)))) enc = Some v" if ve: "zipTryEncoding (snd e) = Some (v, enc)"
  proof -
    obtain pl where pl: "zipSaveInteger v enc = Some pl" "\<forall>A R. zipLoadInteger (A @ pl @ R) (length A) enc = Some v" using zipSaveInteger_ok [OF ve] by blast
    have "zl_payload (snd e) = pl" using ve pl(1) by (simp add: zl_payload_def)
    then show ?thesis using pl(2) unfolding zq q [symmetric] by (simp only:)
  qed
qed

lemma rep_end: "zl_rep zl es \<Longrightarrow> byte_at zl (pos es) = Some ZIP_END"
  by (auto simp: zl_rep_def pos_def byte_at_def nth_append)

lemma pos_Cons: "pos A + rawlen e = pos (A @ [e])"
  by (simp add: pos_def)

lemma ziplistNext_ok:
  assumes "zl_rep zl (A @ e # B)"
  shows "ziplistNext zl (pos A) = Some (if B = [] then None else Some (pos (A @ [e])))"
proof (cases B)
  case Nil
  then show ?thesis using rep_entry [OF assms] rep_end [OF assms] by (simp add: ziplistNext_def pos_Cons)
next
  case (Cons f C)
  then have "zl_rep zl ((A @ [e]) @ f # C)" using assms by simp
  from rep_entry(1,2) [OF this] show ?thesis using rep_entry [OF assms] Cons by (simp add: ziplistNext_def pos_Cons)
qed

lemma ziplistPrev_ok:
  assumes "zl_rep zl (A @ e # B)"
  shows "ziplistPrev zl (pos A) = Some (if A = [] then None else Some (pos (butlast A)))"
proof (cases A rule: rev_cases)
  case Nil
  then show ?thesis using rep_entry(1,2) [OF assms] by (simp add: ziplistPrev_def pos_def)
next
  case (snoc A' a)
  have "pos A \<noteq> 10" using rawlen_pos(1) [of a] snoc by (simp add: pos_def)
  moreover have "pos A - rawlen a = pos A'" "rawlen a \<le> pos A" using snoc by (simp_all add: pos_def)
  ultimately show ?thesis using rep_entry(1,2,4) [OF assms] snoc by (simp add: ziplistPrev_def)
qed

lemma rep_tail:
  assumes "zl_rep zl es"
  shows "ZIPLIST_TAIL_OFFSET zl = Some (pos (butlast es))" "ZIPLIST_BYTES zl = Some (pos es + 1)"
proof -
  obtain cnt where wf: "11 + rawsize es < 2 ^ 32" and zl: "zl = hdr (11 + rawsize es) (int (10 + rawsize (butlast es))) cnt @ raws 0 es @ [ZIP_END]"
    using assms by (auto simp: zl_rep_def)
  show "ZIPLIST_TAIL_OFFSET zl = Some (pos (butlast es))"
    unfolding zl using hdr_get(2) [of "int (10 + rawsize (butlast es))"] wf butlast_size [of es] by (simp add: pos_def)
  show "ZIPLIST_BYTES zl = Some (pos es + 1)" unfolding zl using hdr_get(1) [OF wf] by (simp add: pos_def)
qed

lemma int_encoding: "zipTryEncoding s = Some (v, enc) \<Longrightarrow> zl_encoding s = enc \<and> \<not> ZIP_IS_STR enc"
  using is_str_encoding [of s] by (simp add: zl_encoding_def)

lemma ziplistGet_ok:
  assumes rep: "zl_rep zl (A @ e # B)"
  shows "ziplistGet zl (Some (pos A)) = Some (Some (zl_value (snd e)))"
proof (cases "zipTryEncoding (snd e)")
  case None
  then have "rd zl (pos A + (psize e + length (zl_head (snd e)))) (length (snd e)) = Some (snd e)" "length (zl_payload (snd e)) = length (snd e)"
    using rep_entry(8) [OF rep] by (simp_all add: zl_payload_def)
  then show ?thesis using rep_entry(1,2,7) [OF rep] None is_str_encoding [of "snd e"] by (simp add: ziplistGet_def zl_value_def cong: if_cong)
next
  case (Some ve)
  then obtain v enc where ve: "zipTryEncoding (snd e) = Some (v, enc)" by (cases ve) auto
  show ?thesis using rep_entry(1,2,7) [OF rep] rep_entry(9) [OF rep ve] int_encoding [OF ve] ve by (simp add: ziplistGet_def zl_value_def cong: if_cong)
qed

lemma ziplistCompare_ok:
  assumes rep: "zl_rep zl (A @ e # B)"
  shows "ziplistCompare zl (pos A) s = Some (snd e = s)"
proof (cases "zipTryEncoding (snd e)")
  case None
  then have "rd zl (pos A + (psize e + length (zl_head (snd e)))) (length (snd e)) = Some (snd e)" "length (zl_payload (snd e)) = length (snd e)"
    using rep_entry(8) [OF rep] by (simp_all add: zl_payload_def)
  then show ?thesis using rep_entry(1,2,7) [OF rep] None is_str_encoding [of "snd e"] by (auto simp: ziplistCompare_def cong: if_cong)
next
  case (Some ve)
  then obtain v enc where ve: "zipTryEncoding (snd e) = Some (v, enc)" by (cases ve) auto
  have "(case zipTryEncoding s of None \<Rightarrow> False | Some (sval, _) \<Rightarrow> v = sval) = (snd e = s)"
    using ve zipTryEncoding_bounds [of s] zipTryEncoding_bounds [OF ve] by (auto split: option.splits)
  then show ?thesis using rep_entry(1,2,7) [OF rep] rep_entry(9) [OF rep ve] int_encoding [OF ve]
    by (auto simp: ziplistCompare_def split: option.splits cong: if_cong)
qed

lemma index_forward_ok:
  "zl_rep zl (A @ B) \<Longrightarrow> index_forward zl (pos A) i = Some (if i < length B then (pos (A @ take i B), - 1) else (pos (A @ B), int (i - length B)))"
proof (induction i arbitrary: A B)
  case 0
  show ?case
  proof (cases B)
    case Nil
    then show ?thesis using rep_end [of zl A] 0 by simp
  next
    case (Cons e C)
    then show ?thesis using rep_entry(1,2) [of zl A e C] 0 by simp
  qed
next
  case (Suc i)
  show ?case
  proof (cases B)
    case Nil
    then show ?thesis using rep_end [of zl A] Suc.prems by simp
  next
    case (Cons e C)
    then have rep: "zl_rep zl (A @ e # C)" using Suc.prems by simp
    then show ?thesis using rep_entry(1,2,6) [OF rep] Suc.IH [of "A @ [e]" C] Cons by (simp add: pos_Cons)
  qed
qed

lemma index_back_ok:
  "zl_rep zl (A @ e # B) \<Longrightarrow> index_back zl (pos A) (lastlen 0 A) i =
    Some (if i \<le> length A then (pos (take (length A - i) A), if i < length A then - 1 else 0) else (pos [], int (i - length A)))"
proof (induction i arbitrary: A e B)
  case 0
  show ?case by (cases A rule: rev_cases) simp_all
next
  case (Suc i)
  show ?case
  proof (cases A rule: rev_cases)
    case (snoc A' a)
    then have rep: "zl_rep zl (A' @ a # e # B)" using Suc.prems by simp
    have "pos A - rawlen a = pos A'" "rawlen a \<le> pos A" using snoc by (simp_all add: pos_def)
    then show ?thesis using rep_entry(4) [OF rep] Suc.IH [OF rep] snoc by simp
  qed simp
qed

lemma ziplistIndex_ok:
  assumes rep: "zl_rep zl es"
  shows "ziplistIndex zl (int i) = Some (if i < length es then Some (pos (take i es)) else None)"
    "ziplistIndex zl (- int i - 1) = Some (if i < length es then Some (pos (take (length es - 1 - i) es)) else None)"
proof -
  have ent: "byte_at zl (pos (take j es)) \<noteq> Some ZIP_END \<and> byte_at zl (pos (take j es)) \<noteq> None" if "j < length es" for j
  proof -
    have "zl_rep zl (take j es @ es ! j # drop (Suc j) es)" using rep that by (simp add: id_take_nth_drop [symmetric])
    from rep_entry(1,2) [OF this] show ?thesis by simp
  qed
  have p0: "pos [] = 10" by (simp add: pos_def)
  show "ziplistIndex zl (int i) = Some (if i < length es then Some (pos (take i es)) else None)"
    using index_forward_ok [of zl "[]" es i] rep ent [of i] rep_end [OF rep] by (auto simp: ziplistIndex_def p0)
  show "ziplistIndex zl (- int i - 1) = Some (if i < length es then Some (pos (take (length es - 1 - i) es)) else None)"
  proof (cases es rule: rev_cases)
    case Nil
    then show ?thesis using rep_tail(1) [OF rep] rep_end [OF rep] by (simp add: ziplistIndex_def)
  next
    case (snoc A e)
    then have r: "zl_rep zl (A @ e # [])" using rep by simp
    have t: "ZIPLIST_TAIL_OFFSET zl = Some (pos A)" using rep_tail(1) [OF rep] snoc by simp
    have tk: "take j A = take j es" if "j \<le> length A" for j using that snoc by simp
    have "ziplistIndex zl (- int i - 1) = do {
        (p, index) \<leftarrow> index_back zl (pos A) (lastlen 0 A) i; b \<leftarrow> byte_at zl p; Some (if b = ZIP_END \<or> index > 0 then None else Some p) }"
      using t rep_entry(1,2,4) [OF r] by (simp add: ziplistIndex_def)
    also have "\<dots> = Some (if i < length es then Some (pos (take (length es - 1 - i) es)) else None)"
    proof (cases "i \<le> length A")
      case True
      have j: "length es - 1 - i = length A - i" "length A - i < length es" "i < length es" using True snoc by auto
      have t: "take (length A - i) A = take (length A - i) es" by (rule tk) simp
      obtain b where "byte_at zl (pos (take (length A - i) es)) = Some b" "b \<noteq> ZIP_END" using ent [OF j(2)] by auto
      then show ?thesis unfolding index_back_ok [OF r] t j(1) using True j(3) by simp
    next
      case False
      obtain b where "byte_at zl (pos []) = Some b" "b \<noteq> ZIP_END" using ent [of 0] snoc by auto
      then show ?thesis unfolding index_back_ok [OF r] using False snoc by simp
    qed
    finally show ?thesis .
  qed
qed

fun zfind :: "nat \<Rightarrow> nat \<Rightarrow> 'a \<Rightarrow> 'a list \<Rightarrow> nat option" where
  "zfind skip cnt v [] = None"
| "zfind skip cnt v (s # ss) = (if cnt = 0 then (if s = v then Some 0 else map_option Suc (zfind skip skip v ss)) else map_option Suc (zfind skip (cnt - 1) v ss))"

lemma find_loop_ok:
  "zl_rep zl (A @ B) \<Longrightarrow> enc \<in> {None, Some (map_option fst (zipTryEncoding v))} \<Longrightarrow>
   find_loop zl (pos A) v skip cnt enc = Some (map_option (\<lambda>j. pos (A @ take j B)) (zfind skip cnt v (map snd B)))"
proof (induction B arbitrary: A cnt enc)
  case Nil
  then show ?case using rep_end [of zl A] by (simp add: find_loop.simps)
next
  case (Cons e C)
  note rep = Cons.prems(1)
  note at = rep_entry [OF rep]
  let ?q = "pos A + psize e + length (zl_head (snd e))"
  have nx: "?q + length (zl_payload (snd e)) = pos (A @ [e])" by (simp add: pos_def rawlen_ent [symmetric])
  have q: "?q = pos A + (psize e + length (zl_head (snd e)))" by simp
  have r: "zl_rep zl ((A @ [e]) @ C)" using rep by simp
  have next_ok: "find_loop zl (pos (A @ [e])) v skip c en = Some (map_option (\<lambda>j. pos ((A @ [e]) @ take j C)) (zfind skip c v (map snd C)))"
    if "en \<in> {None, Some (map_option fst (zipTryEncoding v))}" for c en using Cons.IH [OF r that] .
  have step: "find_loop zl (pos A) v skip cnt enc = (if cnt = 0 then
      (if snd e = v then Some (Some (pos A)) else Some (map_option (\<lambda>j. pos ((A @ [e]) @ take j C)) (zfind skip skip v (map snd C))))
      else Some (map_option (\<lambda>j. pos ((A @ [e]) @ take j C)) (zfind skip (cnt - 1) v (map snd C))))"
  proof (cases "zipTryEncoding (snd e)")
    case None
    have "rd zl ?q (length (snd e)) = Some (snd e)" "length (zl_payload (snd e)) = length (snd e)" "ZIP_IS_STR (zl_encoding (snd e))"
      using at(8) None is_str_encoding [of "snd e"] unfolding q by (simp_all add: zl_payload_def)
    then show ?thesis
      unfolding find_loop.simps [of zl "pos A"] at(1,3,5) bind.bind_lunit prod.case Let_def nx
      using at(2) next_ok Cons.prems(2) by (auto simp: next_ok cong: if_cong)
  next
    case (Some ve)
    then obtain w en where ve: "zipTryEncoding (snd e) = Some (w, en)" by (cases ve) auto
    have enc': "(case enc of None \<Rightarrow> Some (map_option fst (zipTryEncoding v)) | Some e \<Rightarrow> Some e) = Some (map_option fst (zipTryEncoding v))" using Cons.prems(2) by auto
    have same: "(case zipTryEncoding v of None \<Rightarrow> False | Some (x, _) \<Rightarrow> w = x) = (snd e = v)"
      using ve zipTryEncoding_bounds [of v] zipTryEncoding_bounds [OF ve] by (auto split: option.splits)
    have ld: "zipLoadInteger zl ?q en = Some w" using at(9) [OF ve] unfolding q by simp
    show ?thesis
      unfolding find_loop.simps [of zl "pos A"] at(1,3,5) bind.bind_lunit prod.case Let_def nx enc'
      using at(2) int_encoding [OF ve] ld same next_ok Cons.prems(2) by (cases "zipTryEncoding v") (auto simp: next_ok cong: if_cong)
  qed
  show ?case unfolding step by (cases "zfind skip skip v (map snd C)"; cases "zfind skip (cnt - 1) v (map snd C)") auto
qed

lemma ziplistFind_ok:
  "zl_rep zl (A @ B) \<Longrightarrow> ziplistFind zl (pos A) v skip = Some (map_option (\<lambda>j. pos (A @ take j B)) (zfind skip 0 v (map snd B)))"
  by (simp add: ziplistFind_def find_loop_ok)

lemma count_loop_ok: "zl_rep zl (A @ B) \<Longrightarrow> count_loop zl (pos A) n = Some (n + length B)"
proof (induction B arbitrary: A n)
  case Nil
  then show ?case using rep_end [of zl A] by (simp add: count_loop.simps)
next
  case (Cons e C)
  then show ?case using rep_entry(1,2,6) [OF Cons.prems] Cons.IH [of "A @ [e]" "Suc n"]
    unfolding count_loop.simps [of zl "pos A"] by (simp add: pos_Cons)
qed

lemma ziplistLen_ok: "zl_rep zl es \<Longrightarrow> \<exists>zl'. ziplistLen zl = Some (zl', length es) \<and> zl_rep zl' es"
proof -
  assume rep: "zl_rep zl es"
  obtain cnt where cnt: "cnt_ok cnt (length es)" and zl: "zl = hdr (11 + rawsize es) (int (10 + rawsize (butlast es))) cnt @ raws 0 es @ [ZIP_END]"
    using rep by (auto simp: zl_rep_def)
  have c: "cnt < 65536" using cnt by (auto simp: cnt_ok_def)
  have l: "ZIPLIST_LENGTH zl = Some cnt" unfolding zl by (rule hdr_get(3) [OF c])
  show ?thesis
  proof (cases "cnt < 65535")
    case True
    then show ?thesis using cnt l rep by (auto simp: ziplistLen_def cnt_ok_def)
  next
    case False
    let ?zl = "hdr (11 + rawsize es) (int (10 + rawsize (butlast es))) (length es) @ raws 0 es @ [ZIP_END]"
    have "wr zl 8 (le_bytes 2 (int (length es))) = Some ?zl"
      using wr_at [of "le_bytes 4 (int (11 + rawsize es)) @ le_bytes 4 (int (10 + rawsize (butlast es)))" 8 "le_bytes 2 (int cnt)" "le_bytes 2 (int (length es))" "raws 0 es @ [ZIP_END]"]
      unfolding zl by (simp add: hdr_def)
    moreover have "zl_rep ?zl es" if "length es < 65535" using rep that by (auto simp: zl_rep_def cnt_ok_def)
    moreover have "count_loop zl 10 0 = Some (length es)" using count_loop_ok [of zl "[]" es 0] rep by (simp add: pos_def)
    ultimately show ?thesis using False l rep by (cases "length es < 65535") (auto simp: ziplistLen_def)
  qed
qed

lemma ziplistNew_ok: "zl_rep ziplistNew []"
  by (auto simp: zl_rep_def ziplistNew_def hdr_def cnt_ok_def)

section \<open>Insertion and deletion are correct\<close>

lemma insert_contents: "map snd (insert_entry A s B) = map snd A @ s # map snd B"
  by (cases B) (simp_all add: insert_entry_def Let_def cascade_contents)

lemma delete_contents: "map snd (delete_entries A R) = map snd A @ map snd R"
  by (cases R) (simp_all add: delete_entries_def Let_def cascade_contents)

lemma ziplistInsert_ok:
  assumes "zl_rep zl (A @ B)" "33 + rawsize (A @ B) + length s + 4 * length B < 2 ^ 32" "no_overrun A s B"
  shows "\<exists>zl'. ziplistInsert g zl (pos A) s = Some zl' \<and> zl_rep zl' (insert_entry A s B)"
proof (cases B)
  case Nil
  then show ?thesis using insert_at_end [of zl A s g] assms(1,2) by (simp add: insert_entry_def pos_def Let_def)
next
  case (Cons f C)
  then show ?thesis using insert_before [of zl A f C s g] assms by (simp add: pos_def)
qed

lemma ziplistDelete_ok:
  assumes "zl_rep zl (A @ M @ R)" "15 + rawsize (A @ M @ R) + 4 * length R < 2 ^ 32" "M \<noteq> []" "num = length M \<or> R = [] \<and> length M \<le> num"
  shows "\<exists>zl'. ziplistDelete_num g zl (pos A) num = Some zl' \<and> zl_rep zl' (delete_entries A R)"
proof (cases R)
  case Nil
  then show ?thesis using delete_tail [of zl A M num g] assms by (auto simp: delete_entries_def pos_def)
next
  case (Cons f C)
  then show ?thesis using delete_mid [of zl A M f C num g] assms by (auto simp: pos_def)
qed

lemma rep_length: "zl_rep zl es \<Longrightarrow> length zl = 11 + rawsize es"
  by (auto simp: zl_rep_def)

text \<open>
  C15. An insertion at any entry of a well-formed list of less than 4 GB, or at its end, returns and gives a well-formed list with
  the new string at that place and all others kept, including the cascade of updates through the following entries. One case is
  excluded, by \<open>no_overrun\<close>: a new entry of less than four bytes in front of an entry whose field for the previous
  length has five bytes. There the code first makes the block smaller, and the insertion can then leave it.
\<close>

theorem ziplist_insert_correct:
  assumes "zl_rep zl (A @ B)" "33 + rawsize (A @ B) + length s + 4 * length B < 2 ^ 32" "no_overrun A s B"
  shows "\<exists>zl' es. ziplistInsert g zl (pos A) s = Some zl' \<and> zl_rep zl' es \<and> map snd es = map snd A @ s # map snd B"
  using ziplistInsert_ok [OF assms, of g] insert_contents by blast

lemma raw_small: "rawlen (False, [97]) = 3" "rawlen (False, [98]) = 3" "rawlen (False, [49]) = 2"
  by code_simp+

text \<open>A list of the strings a and b.\<close>

lemma rep_small: "\<exists>zl. zl_rep zl ([(False, [97])] @ [(False, [98])])"
  by (rule exI [of _ "hdr 17 13 2 @ raws 0 [(False, [97]), (False, [98])] @ [ZIP_END]"]) (auto simp: zl_rep_def raw_small cnt_ok_def intro!: exI [of _ 2])

theorem ziplist_insert_correct_witness:
  "\<exists>zl zl' es. zl_rep zl [(False, [97]), (False, [98])] \<and> ziplistInsert 0 zl (pos [(False, [97])]) [49] = Some zl' \<and> zl_rep zl' es \<and> map snd es = [[97], [49], [98]]"
proof -
  obtain zl where zl: "zl_rep zl ([(False, [97])] @ [(False, [98])])" using rep_small by blast
  obtain zl' es where "ziplistInsert 0 zl (pos [(False, [97])]) [49] = Some zl'" "zl_rep zl' es" "map snd es = [[97], [49], [98]]"
    using ziplist_insert_correct [OF zl, of "[49]" 0] by (auto simp: raw_small no_overrun_def)
  then show ?thesis using zl by (intro exI [of _ zl] exI [of _ zl'] exI [of _ es]) simp
qed

lemma raw_a: "rawlen (False, replicate 300 120) = 303" "rawlen (True, replicate 247 121) = 254" "rawlen (False, replicate 247 121) = 250"
  "rawlen (b, [99]) = (if b then 7 else 3)" "rawlen (False, [49]) = 2"
proof -
  have n: "zipTryEncoding (replicate 300 120) = None" "zipTryEncoding (replicate 247 121) = None" by (simp_all add: zipTryEncoding_def)
  then show "rawlen (False, replicate 300 120) = 303" "rawlen (True, replicate 247 121) = 254" "rawlen (False, replicate 247 121) = 250"
    by (simp_all add: rawlen_def zl_body_def zl_head_def zl_payload_def zipEncodeLength_def)
  have c: "zipTryEncoding [99] = None" by code_simp
  show "rawlen (b, [99]) = (if b then 7 else 3)" by (simp add: rawlen_def zl_body_def zl_head_def zl_payload_def zipEncodeLength_def c)
  have d: "zipTryEncoding [49] = Some (1, 242)" by code_simp
  show "rawlen (False, [49]) = 2" by (simp add: rawlen_def zl_body_def zl_head_def zl_payload_def zipEncodeLength_def d zipSaveInteger_def ZIP_IS_STR_def)
qed

text \<open>
  C16. Deleting one or more entries of a well-formed list returns and gives a well-formed list of the others, with the
  field of the entry behind them adjusted and the change carried through the following entries.
\<close>

theorem ziplist_delete_correct:
  assumes "zl_rep zl (A @ M @ R)" "15 + rawsize (A @ M @ R) + 4 * length R < 2 ^ 32" "M \<noteq> []" "num = length M \<or> R = [] \<and> length M \<le> num"
  shows "\<exists>zl' es. ziplistDelete_num g zl (pos A) num = Some zl' \<and> zl_rep zl' es \<and> map snd es = map snd A @ map snd R"
  using ziplistDelete_ok [OF assms, of g] delete_contents by blast

theorem ziplist_delete_correct_witness:
  "\<exists>zl zl' es. zl_rep zl [(False, [97]), (False, [98])] \<and> ziplistDelete_num 0 zl (pos []) 1 = Some zl' \<and> zl_rep zl' es \<and> map snd es = [[98]]"
proof -
  obtain zl where zl: "zl_rep zl ([] @ [(False, [97])] @ [(False, [98])])" using rep_small by auto
  obtain zl' es where "ziplistDelete_num 0 zl (pos []) 1 = Some zl'" "zl_rep zl' es" "map snd es = [[98]]"
    using ziplist_delete_correct [OF zl, of 1 0] by (auto simp: raw_small)
  then show ?thesis using zl by (intro exI [of _ zl] exI [of _ zl'] exI [of _ es]) simp
qed

lemma overrun:
  assumes rep: "zl_rep zl (A @ (True, t) # B)" and k: "lastlen 0 A < 254" and s: "rawlen (False, s) = 2"
  shows "ziplistInsert g zl (pos A) s = None"
proof -
  let ?es = "A @ (True, t) # B" let ?cur = "11 + rawsize ?es"
  obtain cnt where wf: "?cur < 2 ^ 32" and zl: "zl = hdr ?cur (int (10 + rawsize (butlast ?es))) cnt @ raws 0 ?es @ [ZIP_END]"
    using rep by (auto simp: zl_rep_def)
  define encoding where "encoding = (case zipTryEncoding s of Some (value, encoding) \<Rightarrow> encoding | None \<Rightarrow> 0)"
  note at = rep_entry(1-4) [OF rep]
  have tot: "ZIPLIST_BYTES zl = Some ?cur" unfolding zl by (rule hdr_get(1) [OF wf])
  have req: "rawlen (\<not> lastlen 0 A < 254, s) = 2" using k s by simp
  have diff: "zipPrevLenByteDiff zl (pos A) 2 = Some (- 4)" using at(3) by (simp add: zipPrevLenByteDiff_def zipPrevEncodeLength_def)
  have big: "6 \<le> rawlen (True, t)" using rawlen_ge [of "(False, t)"] rawlen_big [of t] by simp
  have cur: "nat (int (?cur + 2) + - 4) = ?cur - 2" by simp
  obtain X Y where XY: "raws 0 ?es @ [ZIP_END] = X @ Y" "length X = rawsize ?es - 2" "Y \<noteq> []"
    by (rule that [OF append_take_drop_id [of "rawsize ?es - 2", symmetric]]) auto
  have sz: "?cur - 2 = 11 + length X" using XY(2) big by simp
  let ?zl1 = "hdr (?cur - 2) (int (10 + rawsize (butlast ?es))) cnt @ X @ [ZIP_END]"
  have rz: "ziplistResize g zl (?cur - 2) = Some ?zl1" unfolding zl XY(1) sz by (rule resize_shrink) (use XY(3) wf sz in auto)
  have b: "byte_at ?zl1 (pos A) = byte_at zl (pos A)"
  proof -
    have "rawsize A < length X" using XY(2) big by simp
    moreover have "(raws 0 ?es @ [ZIP_END]) ! rawsize A = X ! rawsize A" unfolding XY(1) using calculation by (simp add: nth_append)
    ultimately show ?thesis unfolding zl by (simp add: byte_at_def pos_def nth_append)
  qed
  have rd: "rd ?zl1 (nat (int (pos A) - - 4)) (nat (int ?cur - int (pos A) - 1 + - 4)) = None"
    using sz big by (simp add: rd_def pos_def XY(2))
  show ?thesis unfolding ziplistInsert_def tot at bind.bind_lunit encoding_def [symmetric]
    using at(2) by (simp only: bind.bind_lunit simp_thms if_False if_True Let_def option.map snd_conv reqlen_eq [OF encoding_def] req diff cur rz b at memmove_def rd bind.bind_lzero)
qed

text \<open>
  C40. The exception occurs: three strings are pushed and the first one is deleted, which leaves a field of five bytes for
  a length that fits in one. An insertion of a one digit number before the last string then first cuts
  two bytes off the block and afterwards reads behind its new end.
\<close>

theorem ziplist_overrun_reachable:
  "\<exists>zl p. (do {
      zl \<leftarrow> ziplistPush g ziplistNew (replicate 300 120) False;
      zl \<leftarrow> ziplistPush g zl (replicate 247 121) False;
      zl \<leftarrow> ziplistPush g zl [99] False;
      ziplistDelete g zl 10
    }) = Some zl \<and> ziplistIndex zl 1 = Some (Some p) \<and> ziplistGet zl (Some p) = Some (Some (Inl [99])) \<and> ziplistInsert g zl p [49] = None"
proof -
  let ?x = "replicate 300 120 :: bytes" and ?y = "replicate 247 121 :: bytes"
  have push: "\<exists>zl'. ziplistPush g zl s False = Some zl' \<and> zl_rep zl' (es @ [(\<not> lastlen 0 es < 254, s)])"
    if "zl_rep zl es" "33 + rawsize es + length s < 2 ^ 32" for zl es s
    using ziplistInsert_ok [of zl es "[]" s g] that rep_tail(2) [OF that(1)] by (auto simp: ziplistPush_def insert_entry_def no_overrun_def Let_def)
  obtain z1 where z1: "ziplistPush g ziplistNew ?x False = Some z1" "zl_rep z1 [(False, ?x)]" using push [OF ziplistNew_ok, of ?x] by auto
  obtain z2 where z2: "ziplistPush g z1 ?y False = Some z2" "zl_rep z2 [(False, ?x), (True, ?y)]" using push [OF z1(2), of ?y] by (auto simp: raw_a)
  obtain z3 where z3: "ziplistPush g z2 [99] False = Some z3" "zl_rep z3 [(False, ?x), (True, ?y), (True, [99])]"
    using push [OF z2(2), of "[99]"] by (auto simp: raw_a)
  obtain z4 where z4: "ziplistDelete g z3 10 = Some z4" "zl_rep z4 ([(False, ?y)] @ (True, [99]) # [])"
    using ziplistDelete_ok [of z3 "[]" "[(False, ?x)]" "[(True, ?y), (True, [99])]" 1 g] z3(2)
    by (auto simp: raw_a ziplistDelete_def pos_def delete_entries_def Let_def)
  have i: "ziplistIndex z4 1 = Some (Some (pos [(False, ?y)]))" using ziplistIndex_ok(1) [OF z4(2), of 1] by simp
  have gt: "ziplistGet z4 (Some (pos [(False, ?y)])) = Some (Some (Inl [99]))"
  proof -
    have "zl_value [99] = Inl [99]" by code_simp
    then show ?thesis using ziplistGet_ok [OF z4(2)] by simp
  qed
  have "ziplistInsert g z4 (pos [(False, ?y)]) [49] = None" by (rule overrun [OF z4(2)]) (simp_all add: raw_a)
  then show ?thesis using z1 z2 z3 z4 i gt by auto
qed

end
