(* ===== verification/Crc64.thy ===== *)
theory Crc64
  imports Redis_Prelude
begin

text \<open>
  \<^verbatim>\<open>redis-2.8/src/crc64.c\<close>: the checksum of the dump format, computed a byte at a time from a
  table of 256 words.

  The lemmas show that the table holds the remainders of the reflected Jones polynomial, so that
  the routine is the bitwise division, that a stream may be summed in pieces, and that the sum
  of a message changes with every single byte.
\<close>

section \<open>The routine\<close>

definition crc64_tab :: "64 word list" where
  "crc64_tab = [
    0x0000000000000000, 0x7ad870c830358979, 0xf5b0e190606b12f2, 0x8f689158505e9b8b,
    0xc038e5739841b68f, 0xbae095bba8743ff6, 0x358804e3f82aa47d, 0x4f50742bc81f2d04,
    0xab28ecb46814fe75, 0xd1f09c7c5821770c, 0x5e980d24087fec87, 0x24407dec384a65fe,
    0x6b1009c7f05548fa, 0x11c8790fc060c183, 0x9ea0e857903e5a08, 0xe478989fa00bd371,
    0x7d08ff3b88be6f81, 0x07d08ff3b88be6f8, 0x88b81eabe8d57d73, 0xf2606e63d8e0f40a,
    0xbd301a4810ffd90e, 0xc7e86a8020ca5077, 0x4880fbd87094cbfc, 0x32588b1040a14285,
    0xd620138fe0aa91f4, 0xacf86347d09f188d, 0x2390f21f80c18306, 0x594882d7b0f40a7f,
    0x1618f6fc78eb277b, 0x6cc0863448deae02, 0xe3a8176c18803589, 0x997067a428b5bcf0,
    0xfa11fe77117cdf02, 0x80c98ebf2149567b, 0x0fa11fe77117cdf0, 0x75796f2f41224489,
    0x3a291b04893d698d, 0x40f16bccb908e0f4, 0xcf99fa94e9567b7f, 0xb5418a5cd963f206,
    0x513912c379682177, 0x2be1620b495da80e, 0xa489f35319033385, 0xde51839b2936bafc,
    0x9101f7b0e12997f8, 0xebd98778d11c1e81, 0x64b116208142850a, 0x1e6966e8b1770c73,
    0x8719014c99c2b083, 0xfdc17184a9f739fa, 0x72a9e0dcf9a9a271, 0x08719014c99c2b08,
    0x4721e43f0183060c, 0x3df994f731b68f75, 0xb29105af61e814fe, 0xc849756751dd9d87,
    0x2c31edf8f1d64ef6, 0x56e99d30c1e3c78f, 0xd9810c6891bd5c04, 0xa3597ca0a188d57d,
    0xec09088b6997f879, 0x96d1784359a27100, 0x19b9e91b09fcea8b, 0x636199d339c963f2,
    0xdf7adabd7a6e2d6f, 0xa5a2aa754a5ba416, 0x2aca3b2d1a053f9d, 0x50124be52a30b6e4,
    0x1f423fcee22f9be0, 0x659a4f06d21a1299, 0xeaf2de5e82448912, 0x902aae96b271006b,
    0x74523609127ad31a, 0x0e8a46c1224f5a63, 0x81e2d7997211c1e8, 0xfb3aa75142244891,
    0xb46ad37a8a3b6595, 0xceb2a3b2ba0eecec, 0x41da32eaea507767, 0x3b024222da65fe1e,
    0xa2722586f2d042ee, 0xd8aa554ec2e5cb97, 0x57c2c41692bb501c, 0x2d1ab4dea28ed965,
    0x624ac0f56a91f461, 0x1892b03d5aa47d18, 0x97fa21650afae693, 0xed2251ad3acf6fea,
    0x095ac9329ac4bc9b, 0x7382b9faaaf135e2, 0xfcea28a2faafae69, 0x8632586aca9a2710,
    0xc9622c4102850a14, 0xb3ba5c8932b0836d, 0x3cd2cdd162ee18e6, 0x460abd1952db919f,
    0x256b24ca6b12f26d, 0x5fb354025b277b14, 0xd0dbc55a0b79e09f, 0xaa03b5923b4c69e6,
    0xe553c1b9f35344e2, 0x9f8bb171c366cd9b, 0x10e3202993385610, 0x6a3b50e1a30ddf69,
    0x8e43c87e03060c18, 0xf49bb8b633338561, 0x7bf329ee636d1eea, 0x012b592653589793,
    0x4e7b2d0d9b47ba97, 0x34a35dc5ab7233ee, 0xbbcbcc9dfb2ca865, 0xc113bc55cb19211c,
    0x5863dbf1e3ac9dec, 0x22bbab39d3991495, 0xadd33a6183c78f1e, 0xd70b4aa9b3f20667,
    0x985b3e827bed2b63, 0xe2834e4a4bd8a21a, 0x6debdf121b863991, 0x1733afda2bb3b0e8,
    0xf34b37458bb86399, 0x8993478dbb8deae0, 0x06fbd6d5ebd3716b, 0x7c23a61ddbe6f812,
    0x3373d23613f9d516, 0x49aba2fe23cc5c6f, 0xc6c333a67392c7e4, 0xbc1b436e43a74e9d,
    0x95ac9329ac4bc9b5, 0xef74e3e19c7e40cc, 0x601c72b9cc20db47, 0x1ac40271fc15523e,
    0x5594765a340a7f3a, 0x2f4c0692043ff643, 0xa02497ca54616dc8, 0xdafce7026454e4b1,
    0x3e847f9dc45f37c0, 0x445c0f55f46abeb9, 0xcb349e0da4342532, 0xb1eceec59401ac4b,
    0xfebc9aee5c1e814f, 0x8464ea266c2b0836, 0x0b0c7b7e3c7593bd, 0x71d40bb60c401ac4,
    0xe8a46c1224f5a634, 0x927c1cda14c02f4d, 0x1d148d82449eb4c6, 0x67ccfd4a74ab3dbf,
    0x289c8961bcb410bb, 0x5244f9a98c8199c2, 0xdd2c68f1dcdf0249, 0xa7f41839ecea8b30,
    0x438c80a64ce15841, 0x3954f06e7cd4d138, 0xb63c61362c8a4ab3, 0xcce411fe1cbfc3ca,
    0x83b465d5d4a0eece, 0xf96c151de49567b7, 0x76048445b4cbfc3c, 0x0cdcf48d84fe7545,
    0x6fbd6d5ebd3716b7, 0x15651d968d029fce, 0x9a0d8ccedd5c0445, 0xe0d5fc06ed698d3c,
    0xaf85882d2576a038, 0xd55df8e515432941, 0x5a3569bd451db2ca, 0x20ed197575283bb3,
    0xc49581ead523e8c2, 0xbe4df122e51661bb, 0x3125607ab548fa30, 0x4bfd10b2857d7349,
    0x04ad64994d625e4d, 0x7e7514517d57d734, 0xf11d85092d094cbf, 0x8bc5f5c11d3cc5c6,
    0x12b5926535897936, 0x686de2ad05bcf04f, 0xe70573f555e26bc4, 0x9ddd033d65d7e2bd,
    0xd28d7716adc8cfb9, 0xa85507de9dfd46c0, 0x273d9686cda3dd4b, 0x5de5e64efd965432,
    0xb99d7ed15d9d8743, 0xc3450e196da80e3a, 0x4c2d9f413df695b1, 0x36f5ef890dc31cc8,
    0x79a59ba2c5dc31cc, 0x037deb6af5e9b8b5, 0x8c157a32a5b7233e, 0xf6cd0afa9582aa47,
    0x4ad64994d625e4da, 0x300e395ce6106da3, 0xbf66a804b64ef628, 0xc5bed8cc867b7f51,
    0x8aeeace74e645255, 0xf036dc2f7e51db2c, 0x7f5e4d772e0f40a7, 0x05863dbf1e3ac9de,
    0xe1fea520be311aaf, 0x9b26d5e88e0493d6, 0x144e44b0de5a085d, 0x6e963478ee6f8124,
    0x21c640532670ac20, 0x5b1e309b16452559, 0xd476a1c3461bbed2, 0xaeaed10b762e37ab,
    0x37deb6af5e9b8b5b, 0x4d06c6676eae0222, 0xc26e573f3ef099a9, 0xb8b627f70ec510d0,
    0xf7e653dcc6da3dd4, 0x8d3e2314f6efb4ad, 0x0256b24ca6b12f26, 0x788ec2849684a65f,
    0x9cf65a1b368f752e, 0xe62e2ad306bafc57, 0x6946bb8b56e467dc, 0x139ecb4366d1eea5,
    0x5ccebf68aecec3a1, 0x2616cfa09efb4ad8, 0xa97e5ef8cea5d153, 0xd3a62e30fe90582a,
    0xb0c7b7e3c7593bd8, 0xca1fc72bf76cb2a1, 0x45775673a732292a, 0x3faf26bb9707a053,
    0x70ff52905f188d57, 0x0a2722586f2d042e, 0x854fb3003f739fa5, 0xff97c3c80f4616dc,
    0x1bef5b57af4dc5ad, 0x61372b9f9f784cd4, 0xee5fbac7cf26d75f, 0x9487ca0fff135e26,
    0xdbd7be24370c7322, 0xa10fceec0739fa5b, 0x2e675fb4576761d0, 0x54bf2f7c6752e8a9,
    0xcdcf48d84fe75459, 0xb71738107fd2dd20, 0x387fa9482f8c46ab, 0x42a7d9801fb9cfd2,
    0x0df7adabd7a6e2d6, 0x772fdd63e7936baf, 0xf8474c3bb7cdf024, 0x829f3cf387f8795d,
    0x66e7a46c27f3aa2c, 0x1c3fd4a417c62355, 0x935745fc4798b8de, 0xe98f353477ad31a7,
    0xa6df411fbfb21ca3, 0xdc0731d78f8795da, 0x536fa08fdfd90e51, 0x29b7d047efec8728
  ]"

definition crc64_byte :: "64 word \<Rightarrow> byte \<Rightarrow> 64 word" where
  "crc64_byte crc b = crc64_tab ! unat (ucast crc XOR b) XOR drop_bit 8 crc"

text \<open>The sum of the \<open>l\<close> bytes at \<open>s\<close>, which are the list.\<close>

fun crc64 :: "64 word \<Rightarrow> bytes \<Rightarrow> 64 word" where
  "crc64 crc [] = crc"
| "crc64 crc (b # s) = crc64 (crc64_byte crc b) s"

section \<open>Division by the polynomial\<close>

text \<open>
  The polynomial \<open>0xad93d23594c935a9\<close> of the comment, its bits reversed because input and output
  are reflected, and the division of one bit and of one byte.
\<close>

definition jones_poly :: "64 word" where
  "jones_poly = 0xad93d23594c935a9"

definition reflect :: "64 word \<Rightarrow> 64 word" where
  "reflect w = fold (\<lambda>i r. if bit w i then set_bit (63 - i) r else r) [0..<64] 0"

definition crc_bit :: "64 word \<Rightarrow> 64 word" where
  "crc_bit w = (if bit w 0 then drop_bit 1 w XOR reflect jones_poly else drop_bit 1 w)"

definition crc_byte :: "64 word \<Rightarrow> byte \<Rightarrow> 64 word" where
  "crc_byte crc b = (crc_bit ^^ 8) (crc XOR ucast b)"

fun crc_bitwise :: "64 word \<Rightarrow> bytes \<Rightarrow> 64 word" where
  "crc_bitwise crc [] = crc"
| "crc_bitwise crc (b # s) = crc_bitwise (crc_byte crc b) s"

lemma reflect_poly: "reflect jones_poly = 0x95ac9329ac4bc9b5"
  by (simp add: reflect_def jones_poly_def upt_rec [of _ "numeral _"])

lemma crc_bit_odd: "crc_bit w = (if odd w then drop_bit 1 w XOR 0x95ac9329ac4bc9b5 else drop_bit 1 w)"
  by (simp add: crc_bit_def reflect_poly bit_0)

lemma eight_bits: "(f ^^ 8) w = f (f (f (f (f (f (f (f w)))))))"
  by (simp add: numeral_eq_Suc)

section \<open>The table driven routine is the division\<close>

text \<open>Division is linear, and it only shifts a register whose low bits are clear.\<close>

lemma crc_bit_xor: "crc_bit (v XOR w) = crc_bit v XOR crc_bit w"
proof -
  have d: "drop_bit 1 (v XOR w) = drop_bit 1 v XOR drop_bit 1 w"
    by (rule bit_eqI) (simp add: bit_simps)
  show ?thesis
    by (rule bit_eqI) (auto simp: crc_bit_def d bit_simps)
qed

lemma crc_bits_xor: "(crc_bit ^^ n) (v XOR w) = (crc_bit ^^ n) v XOR (crc_bit ^^ n) w"
  by (induction n) (simp_all add: crc_bit_xor)

lemma low_xor_pow: "i < 2 ^ n \<Longrightarrow> of_nat (2 ^ n + i) = (of_nat i XOR 2 ^ n :: 64 word)"
proof -
  assume i: "i < 2 ^ n"
  have "\<not> bit i n" using i by (metis bit_take_bit_iff less_irrefl take_bit_nat_eq_self)
  then have "2 ^ n AND i = 0" by (intro bit_eqI) (auto simp: bit_simps)
  then have "2 ^ n + i = i XOR 2 ^ n"
    by (metis disjunctive_add_eq_xor xor.commute)
  then show ?thesis by (simp add: of_nat_xor_eq)
qed

text \<open>A linear function on the indices below a power of two is known from its values at the powers.\<close>

lemma table_doubles:
  fixes f :: "64 word \<Rightarrow> 64 word"
  assumes lin: "\<And>v w. f (v XOR w) = f v XOR f w"
  shows "map (\<lambda>i. f (of_nat i)) [0..<2 ^ n] = fold (\<lambda>j xs. xs @ map (\<lambda>x. x XOR f (2 ^ j)) xs) [0..<n] [f 0]"
proof (induction n)
  case (Suc n)
  let ?g = "\<lambda>i. f (of_nat i)"
  have "[0..<2 ^ Suc n] = [0..<2 ^ n] @ map (\<lambda>i. 2 ^ n + i) [0..<2 ^ n]"
    by (intro nth_equalityI) (auto simp: nth_append)
  then have "map ?g [0..<2 ^ Suc n] = map ?g [0..<2 ^ n] @ map (\<lambda>i. ?g (2 ^ n + i)) [0..<2 ^ n]"
    by (simp add: o_def)
  also have "map (\<lambda>i. ?g (2 ^ n + i)) [0..<2 ^ n] = map (\<lambda>x. x XOR f (2 ^ n)) (map ?g [0..<2 ^ n])"
    using low_xor_pow lin by simp
  finally show ?case using Suc by simp
qed simp

lemma crc64_tab_division: "crc64_tab = map (\<lambda>i. (crc_bit ^^ 8) (of_nat i)) [0..<256]"
proof -
  have "map (\<lambda>i. (crc_bit ^^ 8) (of_nat i)) [0..<2 ^ 8] = crc64_tab"
    unfolding table_doubles [where f = "crc_bit ^^ 8", OF crc_bits_xor]
    by (simp add: crc64_tab_def upt_rec [of _ "numeral _"] eight_bits crc_bit_odd)
  then show ?thesis by simp
qed

lemma crc_bits_clear: "(\<And>i. i < n \<Longrightarrow> \<not> bit w i) \<Longrightarrow> (crc_bit ^^ n) w = drop_bit n w"
proof (induction n arbitrary: w)
  case (Suc n)
  have "crc_bit w = drop_bit 1 w" using Suc.prems [of 0] by (simp add: crc_bit_def)
  moreover have "(crc_bit ^^ n) (drop_bit 1 w) = drop_bit n (drop_bit 1 w)"
    using Suc.prems by (intro Suc.IH) (simp add: bit_drop_bit_eq)
  ultimately show ?case by (simp add: funpow_swap1)
qed simp

lemma byte_index: "unat (b::byte) < 256"
  using unsigned_less [of b, where ?'a = nat] by simp

lemma tab_byte: "crc64_tab ! unat (b::byte) = (crc_bit ^^ 8) (ucast b)"
proof -
  have "crc64_tab ! unat b = (crc_bit ^^ 8) (of_nat ([0..<256] ! unat b))"
    unfolding crc64_tab_division using byte_index [of b] by (intro nth_map) simp
  also have "[0..<256] ! unat b = unat b" using byte_index [of b] by (subst nth_upt) auto
  finally show ?thesis by (simp add: unsigned_ucast_eq)
qed

lemma crc64_byte_division: "crc64_byte crc b = crc_byte crc b"
proof -
  let ?lo = "ucast (ucast crc XOR b :: byte) :: 64 word" and ?hi = "push_bit 8 (drop_bit 8 crc)"
  have split: "crc XOR ucast b = ?lo XOR ?hi"
    by (rule bit_eqI) (auto simp: bit_simps)
  have "(crc_bit ^^ 8) ?hi = drop_bit 8 ?hi"
    by (rule crc_bits_clear) (simp add: bit_simps)
  also have "drop_bit 8 ?hi = drop_bit 8 crc"
    by (rule bit_eqI) (auto simp: bit_simps dest: bit_imp_le_length)
  finally show ?thesis
    by (simp add: crc64_byte_def crc_byte_def split crc_bits_xor tab_byte)
qed

lemma crc64_append: "crc64 crc (s @ t) = crc64 (crc64 crc s) t"
  by (induction crc s rule: crc64.induct) simp_all

section \<open>Every changed byte shows\<close>

lemma xor_right_cancel: "(a::'a::len word) XOR c = b XOR c \<Longrightarrow> a = b"
proof -
  assume "a XOR c = b XOR c"
  then have "(a XOR c) XOR c = (b XOR c) XOR c" by simp
  then show "a = b" by (simp add: xor.assoc)
qed

text \<open>The register before a bit is determined by the register after it: the polynomial is odd,
  so the highest bit of the result tells whether it was added.\<close>

lemma crc_bit_inj: "crc_bit v = crc_bit w \<Longrightarrow> v = w"
proof -
  assume e: "crc_bit v = crc_bit w"
  have top: "bit (crc_bit u) 63 = bit u 0" for u
    using bit_imp_le_length [of u 64] by (auto simp: crc_bit_def reflect_poly bit_simps)
  have low: "bit v 0 = bit w 0" using e top by metis
  then have "drop_bit 1 v = drop_bit 1 w"
    using e by (auto simp: crc_bit_def split: if_splits dest: xor_right_cancel)
  then have "bit v (Suc i) = bit w (Suc i)" for i
    by (metis bit_drop_bit_eq comp_apply plus_1_eq_Suc)
  with low show "v = w" by (metis bit_eqI not0_implies_Suc)
qed

lemma crc_bits_inj: "(crc_bit ^^ n) v = (crc_bit ^^ n) w \<Longrightarrow> v = w"
  by (induction n) (auto dest: crc_bit_inj)

lemma ucast_byte_inj: "(ucast (a::byte) :: 64 word) = ucast b \<Longrightarrow> a = b"
proof -
  assume e: "(ucast a :: 64 word) = ucast b"
  have "ucast (ucast a :: 64 word) = a" "ucast (ucast b :: 64 word) = b"
    by (rule bit_eqI; simp add: bit_simps; fastforce dest: bit_imp_le_length)+
  with e show "a = b" by metis
qed

lemma crc64_byte_inj:
  "crc64_byte v b = crc64_byte w b \<Longrightarrow> v = w"
  "crc64_byte v a = crc64_byte v b \<Longrightarrow> a = b"
proof -
  show "crc64_byte v b = crc64_byte w b \<Longrightarrow> v = w"
    unfolding crc64_byte_division crc_byte_def by (drule crc_bits_inj) (rule xor_right_cancel)
  assume "crc64_byte v a = crc64_byte v b"
  then have "v XOR ucast a = v XOR ucast b"
    unfolding crc64_byte_division crc_byte_def by (rule crc_bits_inj)
  then have "(ucast a :: 64 word) = ucast b" by (simp add: xor.commute [of v]) (rule xor_right_cancel)
  then show "a = b" by (rule ucast_byte_inj)
qed

lemma crc64_inj: "crc64 v s = crc64 w s \<Longrightarrow> v = w"
  by (induction s arbitrary: v w) (auto dest: crc64_byte_inj(1))

lemma crc64_changed_byte: "a \<noteq> b \<Longrightarrow> crc64 crc (s @ a # t) \<noteq> crc64 crc (s @ b # t)"
  by (auto simp: crc64_append dest!: crc64_inj crc64_byte_inj(2))

text \<open>
  C23. The table driven checksum is the remainder of the bitwise division by the documented
  polynomial, for every start value and every message, and the check value of the comment is
  the one for start value 0.
\<close>

theorem crc64_division:
  "crc64 crc s = crc_bitwise crc s \<and> crc64 0 [49, 50, 51, 52, 53, 54, 55, 56, 57] = 0xe9c6d914c4b8d9ca"
proof
  show "crc64 crc s = crc_bitwise crc s"
    by (induction crc s rule: crc64.induct) (simp_all add: crc64_byte_division)
  show "crc64 0 [49, 50, 51, 52, 53, 54, 55, 56, 57] = 0xe9c6d914c4b8d9ca"
    by (simp add: crc64_byte_division crc_byte_def eight_bits crc_bit_odd)
qed

end
