(* ===== verification/Lzf.thy ===== *)
theory Lzf
  imports Util "HOL-Library.Monad_Syntax"
begin

text \<open>
  \<^verbatim>\<open>redis-2.8/src/lzf_c.c\<close> and \<^verbatim>\<open>redis-2.8/src/lzf_d.c\<close>: the compression of strings in dumps, in the
  configuration of \<^verbatim>\<open>lzfP.h\<close> (\<open>HLOG\<close> 16, \<open>VERY_FAST\<close>, \<open>CHECK_INPUT\<close>, no \<open>INIT_HTAB\<close>).

  Positions in the input and in the output are indices; a read or a write outside a buffer is
  \<open>None\<close>. The hash table holds 64-bit addresses and is not initialised: its first contents are
  an argument over which the theorems quantify, and the address of the input is another. The
  loop of the compressor gets the length of the input as fuel, and every round consumes a byte.
  Where the routines return 0, the result says so with the buffer as it was left.

  The lemmas give the stream its meaning as a list of literal runs and back references. They
  show that the decompressor stays inside its buffers on every input, that it expands exactly
  the meaning of a stream, and that the compressor writes a stream whose meaning is its input,
  whatever the hash table held.
\<close>

section \<open>The compressor\<close>

abbreviation MAX_LIT :: nat where "MAX_LIT \<equiv> 32"
abbreviation MAX_OFF :: "64 word" where "MAX_OFF \<equiv> 8192"
abbreviation MAX_REF :: nat where "MAX_REF \<equiv> 264"

record lzf_state =
  lz_htab :: "nat \<Rightarrow> 64 word"
  lz_hval :: "32 word"
  lz_ip :: nat
  lz_out :: bytes
  lz_op :: nat
  lz_lit :: nat

definition FRST :: "bytes \<Rightarrow> nat \<Rightarrow> 32 word option" where
  "FRST s p = do { a \<leftarrow> byte_at s p; b \<leftarrow> byte_at s (p + 1); Some (push_bit 8 (ucast a) OR ucast b) }"

definition NEXT :: "32 word \<Rightarrow> bytes \<Rightarrow> nat \<Rightarrow> 32 word option" where
  "NEXT v s p = do { c \<leftarrow> byte_at s (p + 2); Some (push_bit 8 v OR ucast c) }"

definition IDX :: "32 word \<Rightarrow> nat" where
  "IDX h = unat ((drop_bit 8 h - h * 5) AND 65535)"

text \<open>The test for a match: \<open>ref\<close> is what the slot held, an address or anything else.\<close>

definition ref_off :: "64 word \<Rightarrow> nat \<Rightarrow> 64 word \<Rightarrow> 64 word" where
  "ref_off in_data ip ref = in_data + of_nat ip - ref - 1"

definition lzf_match :: "64 word \<Rightarrow> bytes \<Rightarrow> nat \<Rightarrow> 64 word \<Rightarrow> bool option" where
  "lzf_match in_data s ip ref =
     (if ref_off in_data ip ref < MAX_OFF \<and> ip + 4 < length s \<and> ref > in_data
      then do {
        let r = unat (ref - in_data);
        a \<leftarrow> byte_at s r; b \<leftarrow> byte_at s (r + 1); c \<leftarrow> byte_at s (r + 2);
        a' \<leftarrow> byte_at s ip; b' \<leftarrow> byte_at s (ip + 1); c' \<leftarrow> byte_at s (ip + 2);
        Some (a = a' \<and> b = b' \<and> c = c')
      } else Some False)"

text \<open>Sixteen unrolled comparisons, each of which may leave the loop, then the \<open>do\<close> loop.\<close>

fun unrolled :: "bytes \<Rightarrow> nat \<Rightarrow> nat \<Rightarrow> nat \<Rightarrow> nat \<Rightarrow> (nat \<times> bool) option" where
  "unrolled s r ip len 0 = Some (len, False)"
| "unrolled s r ip len (Suc n) = do {
     let len = len + 1;
     a \<leftarrow> byte_at s (r + len); b \<leftarrow> byte_at s (ip + len);
     if a \<noteq> b then Some (len, True) else unrolled s r ip len n
   }"

function match_more :: "bytes \<Rightarrow> nat \<Rightarrow> nat \<Rightarrow> nat \<Rightarrow> nat \<Rightarrow> nat option" where
  "match_more s r ip maxlen len = do {
     let len = len + 1;
     if len < maxlen then do {
       a \<leftarrow> byte_at s (r + len); b \<leftarrow> byte_at s (ip + len);
       if a = b then match_more s r ip maxlen len else Some len
     } else Some len
   }"
  by pat_completeness auto
termination by (relation "measure (\<lambda>(s, r, ip, maxlen, len). maxlen - len)") auto

declare match_more.simps [simp del]

definition match_length :: "bytes \<Rightarrow> nat \<Rightarrow> nat \<Rightarrow> nat \<Rightarrow> nat option" where
  "match_length s r ip maxlen = do {
     (len, brk) \<leftarrow> (if maxlen > 16 then unrolled s r ip 2 16 else Some (2, False));
     if brk then Some len else match_more s r ip maxlen len
   }"

text \<open>\<open>op[- lit - 1] = lit - 1\<close>, the header of the run of literals.\<close>

definition stop_run :: "bytes \<Rightarrow> nat \<Rightarrow> nat \<Rightarrow> bytes option" where
  "stop_run out op lit = put out (int op - int lit - 1) (word_of_int (int lit - 1))"

definition put_ref :: "bytes \<Rightarrow> nat \<Rightarrow> 64 word \<Rightarrow> nat \<Rightarrow> (bytes \<times> nat) option" where
  "put_ref out op off len = do {
     (out, op) \<leftarrow>
       (if len < 7 then do {
          out \<leftarrow> put out (int op) (ucast (drop_bit 8 off + push_bit 5 (of_nat len)));
          Some (out, op + 1)
        } else do {
          out \<leftarrow> put out (int op) (ucast (drop_bit 8 off + push_bit 5 7));
          out \<leftarrow> put out (int op + 1) (of_nat (len - 7));
          Some (out, op + 2)
        });
     out \<leftarrow> put out (int op) (ucast off);
     Some (out, op + 1)
   }"

text \<open>After a match the last two positions of it are entered in the table.\<close>

definition enter :: "64 word \<Rightarrow> bytes \<Rightarrow> lzf_state \<Rightarrow> lzf_state option" where
  "enter in_data s st = do {
     hval \<leftarrow> NEXT (lz_hval st) s (lz_ip st);
     Some (st\<lparr>lz_hval := hval, lz_htab := (lz_htab st)(IDX hval := in_data + of_nat (lz_ip st)),
              lz_ip := lz_ip st + 1\<rparr>)
   }"

definition reenter :: "64 word \<Rightarrow> bytes \<Rightarrow> lzf_state \<Rightarrow> lzf_state option" where
  "reenter in_data s st = do {
     hval \<leftarrow> FRST s (lz_ip st - 2);
     st \<leftarrow> enter in_data s (st\<lparr>lz_ip := lz_ip st - 2, lz_hval := hval\<rparr>);
     enter in_data s st
   }"

text \<open>
  The result of a round: \<open>Inl\<close> with the output buffer for \<open>return 0\<close>, otherwise the state and
  whether the loop is left by \<open>break\<close>.
\<close>

type_synonym lzf_round = "bytes + lzf_state \<times> bool"

definition lzf_backref :: "64 word \<Rightarrow> bytes \<Rightarrow> nat \<Rightarrow> 64 word \<Rightarrow> lzf_state \<Rightarrow> lzf_round option" where
  "lzf_backref in_data s out_len ref st = do {
     let ip = lz_ip st;
     let maxlen = length s - ip - 2;
     let maxlen = (if maxlen > MAX_REF then MAX_REF else maxlen);
     out \<leftarrow> stop_run (lz_out st) (lz_op st) (lz_lit st);
     let op = (if lz_lit st = 0 then lz_op st - 1 else lz_op st);
     if op + 3 + 1 \<ge> out_len then Some (Inl out)
     else do {
       len \<leftarrow> match_length s (unat (ref - in_data)) ip maxlen;
       let len = len - 2;
       (out, op) \<leftarrow> put_ref out op (ref_off in_data ip ref) len;
       let ip = ip + 1 + (len + 1);
       let st = st\<lparr>lz_ip := ip, lz_out := out, lz_op := op + 1, lz_lit := 0\<rparr>;
       if ip + 2 \<ge> length s then Some (Inr (st, True))
       else map_option (\<lambda>st. Inr (st, False)) (reenter in_data s st)
     }
   }"

definition copy_literal :: "bytes \<Rightarrow> lzf_state \<Rightarrow> lzf_state option" where
  "copy_literal s st = do {
     let lit = lz_lit st + 1;
     b \<leftarrow> byte_at s (lz_ip st);
     out \<leftarrow> put (lz_out st) (int (lz_op st)) b;
     let st = st\<lparr>lz_ip := lz_ip st + 1, lz_out := out, lz_op := lz_op st + 1, lz_lit := lit\<rparr>;
     if lit = MAX_LIT then do {
       out \<leftarrow> stop_run (lz_out st) (lz_op st) lit;
       Some (st\<lparr>lz_out := out, lz_lit := 0, lz_op := lz_op st + 1\<rparr>)
     } else Some st
   }"

definition lzf_step :: "64 word \<Rightarrow> bytes \<Rightarrow> nat \<Rightarrow> lzf_state \<Rightarrow> lzf_round option" where
  "lzf_step in_data s out_len st = do {
     hval \<leftarrow> NEXT (lz_hval st) s (lz_ip st);
     let ref = lz_htab st (IDX hval);
     let st = st\<lparr>lz_hval := hval, lz_htab := (lz_htab st)(IDX hval := in_data + of_nat (lz_ip st))\<rparr>;
     found \<leftarrow> lzf_match in_data s (lz_ip st) ref;
     if found then lzf_backref in_data s out_len ref st
     else if lz_op st \<ge> out_len then Some (Inl (lz_out st))
     else map_option (\<lambda>st. Inr (st, False)) (copy_literal s st)
   }"

fun lzf_loop :: "nat \<Rightarrow> 64 word \<Rightarrow> bytes \<Rightarrow> nat \<Rightarrow> lzf_state \<Rightarrow> (bytes + lzf_state) option" where
  "lzf_loop fuel in_data s out_len st =
     (if lz_ip st + 2 < length s
      then (case fuel of
              0 \<Rightarrow> None
            | Suc fuel \<Rightarrow> (case lzf_step in_data s out_len st of
                  None \<Rightarrow> None
                | Some (Inl out) \<Rightarrow> Some (Inl out)
                | Some (Inr (st, brk)) \<Rightarrow> if brk then Some (Inr st) else lzf_loop fuel in_data s out_len st))
      else Some (Inr st))"

declare lzf_loop.simps [simp del]

text \<open>The bytes that are left, at most two.\<close>

fun lzf_tail :: "nat \<Rightarrow> bytes \<Rightarrow> lzf_state \<Rightarrow> lzf_state option" where
  "lzf_tail 0 s st = Some st"
| "lzf_tail (Suc n) s st = copy_literal s st \<bind> lzf_tail n s"

definition lzf_compress :: "(nat \<Rightarrow> 64 word) \<Rightarrow> 64 word \<Rightarrow> bytes \<Rightarrow> bytes \<Rightarrow> nat \<Rightarrow> (nat \<times> bytes) option" where
  "lzf_compress htab in_data s out out_len =
     (if s = [] \<or> out_len = 0 then Some (0, out)
      else do {
        hval \<leftarrow> FRST s 0;
        r \<leftarrow> lzf_loop (length s) in_data s out_len
               \<lparr>lz_htab = htab, lz_hval = hval, lz_ip = 0, lz_out = out, lz_op = 1, lz_lit = 0\<rparr>;
        case r of
          Inl out \<Rightarrow> Some (0, out)
        | Inr st \<Rightarrow>
            if lz_op st + 3 > out_len then Some (0, lz_out st)
            else do {
              st \<leftarrow> lzf_tail (length s - lz_ip st) s st;
              out \<leftarrow> stop_run (lz_out st) (lz_op st) (lz_lit st);
              Some (if lz_lit st = 0 then lz_op st - 1 else lz_op st, out)
            }
      })"

section \<open>The decompressor\<close>

text \<open>Where it returns 0 it sets \<open>errno\<close>; otherwise it returns the number of bytes written.\<close>

datatype lzf_result = E2BIG | EINVAL | Written nat

text \<open>Both copies go forward a byte at a time; a back reference may overlap what it writes.\<close>

fun copy_lit :: "bytes \<Rightarrow> nat \<Rightarrow> bytes \<Rightarrow> nat \<Rightarrow> nat \<Rightarrow> bytes option" where
  "copy_lit inp ip out op 0 = Some out"
| "copy_lit inp ip out op (Suc n) = do {
     b \<leftarrow> byte_at inp ip; out \<leftarrow> put out (int op) b; copy_lit inp (ip + 1) out (op + 1) n
   }"

fun copy_ref :: "bytes \<Rightarrow> nat \<Rightarrow> nat \<Rightarrow> nat \<Rightarrow> bytes option" where
  "copy_ref out ref op 0 = Some out"
| "copy_ref out ref op (Suc n) = do {
     b \<leftarrow> byte_at out ref; out \<leftarrow> put out (int op) b; copy_ref out (ref + 1) (op + 1) n
   }"

text \<open>One turn of the loop: \<open>Inl\<close> for a return, otherwise the input position, output and its position.\<close>

type_synonym turn_result = "lzf_result \<times> bytes + nat \<times> bytes \<times> nat"

definition expand_lit :: "bytes \<Rightarrow> nat \<Rightarrow> nat \<Rightarrow> nat \<Rightarrow> bytes \<Rightarrow> nat \<Rightarrow> turn_result option" where
  "expand_lit inp out_len ctrl ip out op =
     (let ctrl = ctrl + 1 in
      if op + ctrl > out_len then Some (Inl (E2BIG, out))
      else if ip + ctrl > length inp then Some (Inl (EINVAL, out))
      else map_option (\<lambda>out. Inr (ip + ctrl, out, op + ctrl)) (copy_lit inp ip out op ctrl))"

text \<open>The end of a back reference: the low byte of the offset, the checks and the copy.\<close>

definition ref_copy :: "bytes \<Rightarrow> nat \<Rightarrow> nat \<Rightarrow> int \<Rightarrow> nat \<Rightarrow> bytes \<Rightarrow> nat \<Rightarrow> turn_result option" where
  "ref_copy inp out_len len ref ip out op = do {
     b \<leftarrow> byte_at inp ip;
     let ref = ref - int (unat b);
     let ip = ip + 1;
     if op + len + 2 > out_len then Some (Inl (E2BIG, out))
     else if ref < 0 then Some (Inl (EINVAL, out))
     else map_option (\<lambda>out. Inr (ip, out, op + (len + 2))) (copy_ref out (nat ref) op (len + 2))
   }"

definition expand_ref :: "bytes \<Rightarrow> nat \<Rightarrow> nat \<Rightarrow> nat \<Rightarrow> bytes \<Rightarrow> nat \<Rightarrow> turn_result option" where
  "expand_ref inp out_len ctrl ip out op =
     (let len = ctrl div 32; ref = int op - int (ctrl mod 32 * 256) - 1 in
      if ip \<ge> length inp then Some (Inl (EINVAL, out))
      else if len = 7 then do {
        b \<leftarrow> byte_at inp ip;
        let len = len + unat b;
        let ip = ip + 1;
        if ip \<ge> length inp then Some (Inl (EINVAL, out)) else ref_copy inp out_len len ref ip out op
      } else ref_copy inp out_len len ref ip out op)"

definition lzf_turn :: "bytes \<Rightarrow> nat \<Rightarrow> nat \<Rightarrow> bytes \<Rightarrow> nat \<Rightarrow> turn_result option" where
  "lzf_turn inp out_len ip out op = do {
     b \<leftarrow> byte_at inp ip;
     if unat b < 32 then expand_lit inp out_len (unat b) (ip + 1) out op
     else expand_ref inp out_len (unat b) (ip + 1) out op
   }"

text \<open>The loop consumes at least one byte in every turn, so one more than the length of the input is enough fuel.\<close>

fun lzf_expand :: "nat \<Rightarrow> bytes \<Rightarrow> nat \<Rightarrow> nat \<Rightarrow> bytes \<Rightarrow> nat \<Rightarrow> (lzf_result \<times> bytes) option" where
  "lzf_expand 0 inp out_len ip out op = None"
| "lzf_expand (Suc fuel) inp out_len ip out op =
     (case lzf_turn inp out_len ip out op of
        None \<Rightarrow> None
      | Some (Inl r) \<Rightarrow> Some r
      | Some (Inr (ip, out, op)) \<Rightarrow>
          if ip < length inp then lzf_expand fuel inp out_len ip out op else Some (Written op, out))"

definition lzf_decompress :: "bytes \<Rightarrow> bytes \<Rightarrow> nat \<Rightarrow> (lzf_result \<times> bytes) option" where
  "lzf_decompress inp out out_len = lzf_expand (Suc (length inp)) inp out_len 0 out 0"

section \<open>The meaning of a stream\<close>

datatype lzf_token = Literal bytes | BackRef nat nat

fun token_bytes :: "lzf_token \<Rightarrow> bytes" where
  "token_bytes (Literal bs) = of_nat (length bs - 1) # bs"
| "token_bytes (BackRef off len) =
     (if len - 2 < 7 then [of_nat (off div 256 + 32 * (len - 2)), of_nat (off mod 256)]
      else [of_nat (off div 256 + 224), of_nat (len - 9), of_nat (off mod 256)])"

text \<open>A back reference appends bytes from \<open>off + 1\<close> positions before the end, one at a time.\<close>

fun refer :: "bytes \<Rightarrow> nat \<Rightarrow> nat \<Rightarrow> bytes" where
  "refer out off 0 = out"
| "refer out off (Suc n) = refer (out @ [out ! (length out - off - 1)]) off n"

fun expand1 :: "bytes \<Rightarrow> lzf_token \<Rightarrow> bytes" where
  "expand1 out (Literal bs) = out @ bs"
| "expand1 out (BackRef off len) = refer out off len"

fun token_ok :: "bytes \<Rightarrow> lzf_token \<Rightarrow> bool" where
  "token_ok out (Literal bs) \<longleftrightarrow> 1 \<le> length bs \<and> length bs \<le> 32"
| "token_ok out (BackRef off len) \<longleftrightarrow> 3 \<le> len \<and> len \<le> 264 \<and> off < 8192 \<and> off < length out"

fun stream_ok :: "bytes \<Rightarrow> lzf_token list \<Rightarrow> bool" where
  "stream_ok out [] \<longleftrightarrow> True"
| "stream_ok out (t # ts) \<longleftrightarrow> token_ok out t \<and> stream_ok (expand1 out t) ts"

definition expand :: "bytes \<Rightarrow> lzf_token list \<Rightarrow> bytes" where
  "expand = foldl expand1"

definition encs :: "lzf_token list \<Rightarrow> bytes" where
  "encs ts = concat (map token_bytes ts)"

lemma expand_simps [simp]: "expand out [] = out" "expand out (t # ts) = expand (expand1 out t) ts"
  "expand out (ts @ us) = expand (expand out ts) us"
  by (simp_all add: expand_def)

lemma encs_simps [simp]: "encs [] = []" "encs (t # ts) = token_bytes t @ encs ts" "encs (ts @ us) = encs ts @ encs us"
  by (simp_all add: encs_def)

lemma stream_ok_append [simp]: "stream_ok out (ts @ us) \<longleftrightarrow> stream_ok out ts \<and> stream_ok (expand out ts) us"
  by (induction ts arbitrary: out) auto

lemma length_refer [simp]: "length (refer out off n) = length out + n"
  by (induction n arbitrary: out) auto

lemma length_expand1: "length out \<le> length (expand1 out t)"
  by (cases t) auto

lemma length_expand: "length out \<le> length (expand out ts)"
  by (induction ts arbitrary: out) (auto intro: order_trans [OF length_expand1])

lemma token_nonempty [simp]: "token_bytes t \<noteq> []" "0 < length (token_bytes t)"
  by (cases t; simp)+

section \<open>Copies\<close>

lemma byte_at_Some [simp]: "i < length s \<Longrightarrow> byte_at s i = Some (s ! i)"
  by (simp add: byte_at_def)

lemma put_Some [simp]: "k < length out \<Longrightarrow> put out (int k) b = Some (out[k := b])"
  by (simp add: put_def)

lemma take_Suc_update: "k < length xs \<Longrightarrow> take (Suc k) (xs[k := b]) = take k xs @ [b]"
  by (simp add: take_Suc_conv_app_nth)

lemma copy_lit_ok:
  "op + n \<le> length out \<Longrightarrow> ip + n \<le> length inp \<Longrightarrow>
   copy_lit inp ip out op n = Some (take op out @ take n (drop ip inp) @ drop (op + n) out)"
proof (induction n arbitrary: ip op out)
  case (Suc n)
  have "take (Suc n) (drop ip inp) = inp ! ip # take n (drop (Suc ip) inp)"
    using Suc.prems(2) by (simp flip: Cons_nth_drop_Suc)
  then show ?case using Suc by (simp add: take_Suc_update)
qed simp

lemma copy_ref_ok:
  "ref < op \<Longrightarrow> op + n \<le> length out \<Longrightarrow>
   copy_ref out ref op n = Some (refer (take op out) (op - ref - 1) n @ drop (op + n) out)"
proof (induction n arbitrary: ref op out)
  case (Suc n)
  have ix: "op - (op - ref - 1) - 1 = ref" using Suc.prems(1) by simp
  have "take op out ! ref = out ! ref" using Suc.prems by simp
  then have "refer (take op out) (op - ref - 1) (Suc n) = refer (take op out @ [out ! ref]) (op - ref - 1) n"
    using Suc.prems ix by simp
  then show ?case using Suc by (simp add: take_Suc_update)
qed simp

section \<open>The decompressor\<close>

text \<open>A turn stays inside the buffers, and either returns or makes progress.\<close>

definition turn_ok :: "bytes \<Rightarrow> nat \<Rightarrow> nat \<Rightarrow> bytes \<Rightarrow> nat \<Rightarrow> turn_result \<Rightarrow> bool" where
  "turn_ok inp out_len ip out op r =
     (case r of
        Inl (res, out') \<Rightarrow> out' = out \<and> (\<forall>n. res \<noteq> Written n)
      | Inr (ip', out', op') \<Rightarrow> ip < ip' \<and> ip' \<le> length inp \<and> op < op' \<and> op' \<le> out_len \<and>
          length out' = length out \<and> drop out_len out' = drop out_len out)"

lemma expand_lit_ok:
  assumes "ip \<le> length inp" "op \<le> out_len" "out_len \<le> length out"
  shows "\<exists>r. expand_lit inp out_len ctrl ip out op = Some r \<and> turn_ok inp out_len ip out op r"
  using assms by (auto simp: expand_lit_def Let_def turn_ok_def copy_lit_ok)

lemma copy_ref_turn:
  assumes "0 \<le> ref" "ref < int op" "0 < n" "op + n \<le> out_len" "out_len \<le> length out" "ip < k" "k \<le> length inp" "q = op + n"
  shows "\<exists>r. map_option (\<lambda>out. Inr (k, out, q)) (copy_ref out (nat ref) op n) = Some r \<and> turn_ok inp out_len ip out op r"
proof -
  have "copy_ref out (nat ref) op n = Some (refer (take op out) (op - nat ref - 1) n @ drop (op + n) out)"
    using assms by (intro copy_ref_ok) (auto simp: nat_less_iff)
  moreover have "drop (out_len - (op + n)) (drop (op + n) out) = drop out_len out" using assms by simp
  ultimately show ?thesis using assms by (simp add: turn_ok_def)
qed

lemma ref_copy_ok:
  assumes "ip < length inp" "ref < int op" "out_len \<le> length out"
  shows "\<exists>r. ref_copy inp out_len len ref ip out op = Some r \<and> turn_ok inp out_len ip out op r"
proof -
  let ?ref = "ref - int (unat (inp ! ip))"
  have ret: "turn_ok inp out_len ip out op (Inl (EINVAL, out))" "turn_ok inp out_len ip out op (Inl (E2BIG, out))"
    by (simp_all add: turn_ok_def)
  consider (big) "op + len + 2 > out_len" | (neg) "\<not> op + len + 2 > out_len" "?ref < 0"
    | (copy) "op + (len + 2) \<le> out_len" "0 \<le> ?ref" "\<not> op + len + 2 > out_len" by linarith
  then show ?thesis
  proof cases
    case copy
    have "?ref < int op" using assms(2) by linarith
    then show ?thesis
      using copy assms copy_ref_turn [OF copy(2) _ _ copy(1) assms(3), of ip "ip + 1" inp "op + (len + 2)"]
      by (simp add: ref_copy_def Let_def del: copy_ref.simps)
  qed (use assms ret in \<open>simp_all add: ref_copy_def Let_def\<close>)
qed

lemma turn_ok_earlier: "turn_ok inp out_len (ip + 1) out op r \<Longrightarrow> turn_ok inp out_len ip out op r"
  by (auto simp: turn_ok_def split: sum.splits)

lemma expand_ref_ok:
  assumes "ip \<le> length inp" "op \<le> out_len" "out_len \<le> length out"
  shows "\<exists>r. expand_ref inp out_len ctrl ip out op = Some r \<and> turn_ok inp out_len ip out op r"
proof -
  let ?ref = "int op - int (ctrl mod 32 * 256) - 1" and ?len = "ctrl div 32"
  have ret: "turn_ok inp out_len ip out op (Inl (EINVAL, out))" by (simp add: turn_ok_def)
  have "?ref < int op" by simp
  note copied = ref_copy_ok [OF _ this assms(3)]
  consider "length inp \<le> ip" | "ip < length inp" "?len \<noteq> 7" | "ip < length inp" "?len = 7" "length inp \<le> ip + 1"
    | "?len = 7" "ip + 1 < length inp" by linarith
  then show ?thesis
    using ret copied [of ip inp ?len] copied [of "ip + 1" inp "7 + unat (inp ! ip)"] turn_ok_earlier
    by cases (auto simp: expand_ref_def Let_def)
qed

lemma lzf_turn_ok:
  assumes "ip < length inp" "op \<le> out_len" "out_len \<le> length out"
  shows "\<exists>r. lzf_turn inp out_len ip out op = Some r \<and> turn_ok inp out_len ip out op r"
  using assms turn_ok_earlier expand_lit_ok [of "ip + 1" inp op out_len out "unat (inp ! ip)"]
    expand_ref_ok [of "ip + 1" inp op out_len out "unat (inp ! ip)"]
  by (auto simp: lzf_turn_def)

lemma lzf_expand_ok:
  "ip < length inp \<Longrightarrow> length inp \<le> ip + fuel \<Longrightarrow> op \<le> out_len \<Longrightarrow> out_len \<le> length out \<Longrightarrow>
   \<exists>r out'. lzf_expand fuel inp out_len ip out op = Some (r, out') \<and> length out' = length out \<and>
     drop out_len out' = drop out_len out \<and> (\<forall>n. r = Written n \<longrightarrow> op < n \<and> n \<le> out_len)"
proof (induction fuel arbitrary: ip out op)
  case (Suc fuel)
  obtain r where r: "lzf_turn inp out_len ip out op = Some r" "turn_ok inp out_len ip out op r"
    using lzf_turn_ok Suc.prems by blast
  show ?case
  proof (cases r)
    case (Inl x)
    then show ?thesis using r by (cases x) (auto simp: turn_ok_def)
  next
    case (Inr x)
    then obtain ip' out' op' where x: "r = Inr (ip', out', op')" by (cases x) auto
    then show ?thesis using r Suc.prems Suc.IH [of ip' op' out'] by (force simp: turn_ok_def)
  qed
qed simp

text \<open>On an encoded token a turn appends the meaning of the token.\<close>

lemma unat_of_nat_byte: "n < 256 \<Longrightarrow> unat (of_nat n :: byte) = n"
  by (simp add: unat_of_nat take_bit_nat_eq_self)

lemma expand_lit_token:
  assumes inp: "inp = P @ bs @ R" "ip = length P" and bs: "bs \<noteq> []"
    and out: "length (expand1 (take op out) (Literal bs)) \<le> out_len" "out_len \<le> length out" "op \<le> length out"
  shows "expand_lit inp out_len (length bs - 1) ip out op =
    Some (Inr (ip + length bs, expand1 (take op out) (Literal bs) @ drop (op + length bs) out, op + length bs))"
proof -
  have n: "length bs - 1 + 1 = length bs" using bs by (cases bs) auto
  have "copy_lit inp ip out op (length bs) = Some (take op out @ bs @ drop (op + length bs) out)"
    using assms by (subst copy_lit_ok) auto
  then show ?thesis using assms by (simp add: expand_lit_def n Let_def)
qed

lemma lzf_turn_literal:
  assumes inp: "inp = P @ token_bytes (Literal bs) @ R" and ok: "token_ok (take op out) (Literal bs)"
    and out: "length (expand1 (take op out) (Literal bs)) \<le> out_len" "out_len \<le> length out" "op \<le> length out"
  shows "lzf_turn inp out_len (length P) out op =
    Some (Inr (length P + length (token_bytes (Literal bs)), expand1 (take op out) (Literal bs) @ drop (op + length bs) out, op + length bs))"
proof -
  let ?c = "of_nat (length bs - 1) :: byte"
  have c: "unat ?c = length bs - 1" using ok by (intro unat_of_nat_byte) auto
  have bs: "bs \<noteq> []" using ok by auto
  have "expand_lit inp out_len (length bs - 1) (length P + 1) out op =
    Some (Inr (length P + 1 + length bs, expand1 (take op out) (Literal bs) @ drop (op + length bs) out, op + length bs))"
    by (rule expand_lit_token [where P = "P @ [?c]" and R = R, OF _ _ bs out]) (simp_all add: inp)
  moreover have "byte_at inp (length P) = Some ?c" by (simp add: inp nth_append)
  moreover have "length bs - 1 < 32" using ok by auto
  ultimately show ?thesis using c by (simp add: lzf_turn_def)
qed

lemma ref_copy_eq:
  assumes "byte_at inp ip = Some b" "ref - int (unat b) = int q" "n = len + 2" "op + n \<le> out_len"
  shows "ref_copy inp out_len len ref ip out op = map_option (\<lambda>out. Inr (ip + 1, out, op + n)) (copy_ref out q op n)"
  using assms by (simp add: ref_copy_def Let_def del: copy_ref.simps of_nat_unat)

lemma lzf_turn_backref:
  assumes inp: "inp = P @ token_bytes (BackRef off len) @ R" and ok: "token_ok (take op out) (BackRef off len)"
    and out: "length (expand1 (take op out) (BackRef off len)) \<le> out_len" "out_len \<le> length out" "op \<le> length out"
  shows "lzf_turn inp out_len (length P) out op =
    Some (Inr (length P + length (token_bytes (BackRef off len)), expand1 (take op out) (BackRef off len) @ drop (op + len) out, op + len))"
proof -
  have o: "off < op" "off < 8192" "3 \<le> len" "len \<le> 264" using ok by auto
  have copy: "ref_copy inp out_len (len - 2) (int op - int (off div 256 * 256) - 1) ip out op =
      Some (Inr (ip + 1, refer (take op out) off len @ drop (op + len) out, op + len))"
    if "byte_at inp ip = Some (of_nat (off mod 256))" for ip
  proof -
    have "unat (of_nat (off mod 256) :: byte) = off mod 256" by (intro unat_of_nat_byte) simp
    moreover have "int op - int (off div 256 * 256) - 1 - int (off mod 256) = int (op - off - 1)"
    proof -
      have "int (off div 256 * 256) + int (off mod 256) = int off" by (simp only: of_nat_add [symmetric] div_mult_mod_eq)
      then show ?thesis using o(1) by linarith
    qed
    ultimately have "ref_copy inp out_len (len - 2) (int op - int (off div 256 * 256) - 1) ip out op =
        map_option (\<lambda>out. Inr (ip + 1, out, op + len)) (copy_ref out (op - off - 1) op len)"
      using that out o by (intro ref_copy_eq) (auto simp del: of_nat_unat)
    moreover have "copy_ref out (op - off - 1) op len = Some (refer (take op out) off len @ drop (op + len) out)"
      using o out by (subst copy_ref_ok) auto
    ultimately show ?thesis by simp
  qed
  show ?thesis
  proof (cases "len - 2 < 7")
    case True
    let ?c = "off div 256 + 32 * (len - 2)"
    have d: "off div 256 < 32" using o by (simp add: less_mult_imp_div_less)
    have "?c < 256" using True d by linarith
    then have c: "unat (of_nat ?c :: byte) = ?c" by (rule unat_of_nat_byte)
    have dm: "?c div 32 = len - 2" "?c mod 32 = off div 256" "\<not> ?c < 32" using d o by auto
    have "byte_at inp (length P) = Some (of_nat ?c)" "byte_at inp (length P + 1) = Some (of_nat (off mod 256))"
      using True by (simp_all add: inp byte_at_def nth_append)
    then show ?thesis
      using True c dm copy [of "length P + 1"] by (simp add: lzf_turn_def expand_ref_def Let_def inp)
  next
    case False
    let ?c = "off div 256 + 224"
    have d: "off div 256 < 32" using o by (simp add: less_mult_imp_div_less)
    have "?c < 256" using d by linarith
    then have c: "unat (of_nat ?c :: byte) = ?c" by (rule unat_of_nat_byte)
    obtain m where m: "len = m + 9" using False nat_le_iff_add [of 9 len] by (auto simp: add.commute)
    have e: "unat (of_nat m :: byte) = m" using o m by (intro unat_of_nat_byte) simp
    have "(off div 256 + 32 * 7) mod 32 = off div 256" using d by (simp only: mod_mult_self2 mod_less)
    then have dm: "?c div 32 = 7" "?c mod 32 = off div 256" "\<not> ?c < 32" using d by auto
    have "byte_at inp (length P) = Some (of_nat ?c)" "byte_at inp (length P + 1) = Some (of_nat m)"
      "byte_at inp (length P + 2) = Some (of_nat (off mod 256))" "length P + 2 < length inp"
      using m by (simp_all add: inp byte_at_def nth_append)
    then show ?thesis
      using m c dm e copy [of "length P + 2"] by (simp add: lzf_turn_def expand_ref_def Let_def)
  qed
qed

lemma lzf_turn_token:
  assumes "inp = P @ token_bytes tok @ R" "token_ok (take op out) tok"
    and "length (expand1 (take op out) tok) \<le> out_len" "out_len \<le> length out" "op \<le> length out"
  defines "new \<equiv> expand1 (take op out) tok"
  shows "lzf_turn inp out_len (length P) out op =
    Some (Inr (length P + length (token_bytes tok), new @ drop (length new) out, length new))"
  using assms lzf_turn_literal [of inp P _ R op out out_len] lzf_turn_backref [of inp P _ _ R op out out_len]
  by (cases tok) auto

lemma lzf_expand_stream:
  "inp = P @ encs ts \<Longrightarrow> ts \<noteq> [] \<Longrightarrow> stream_ok (take op out) ts \<Longrightarrow> length (expand (take op out) ts) \<le> out_len \<Longrightarrow>
   out_len \<le> length out \<Longrightarrow> op \<le> length out \<Longrightarrow> length inp \<le> length P + fuel \<Longrightarrow>
   lzf_expand fuel inp out_len (length P) out op =
     Some (Written (length (expand (take op out) ts)),
           expand (take op out) ts @ drop (length (expand (take op out) ts)) out)"
proof (induction ts arbitrary: P op out fuel)
  case (Cons t ts)
  let ?new = "expand1 (take op out) t"
  let ?out = "?new @ drop (length ?new) out"
  have new: "length ?new \<le> out_len" using Cons.prems(4) length_expand [of ?new ts] by simp
  have turn: "lzf_turn inp out_len (length P) out op = Some (Inr (length P + length (token_bytes t), ?out, length ?new))"
    using Cons.prems new by (intro lzf_turn_token) auto
  obtain f where f: "fuel = Suc f" using Cons.prems by (cases fuel) auto
  have len: "length ?new \<le> length out" using new Cons.prems(5) by simp
  show ?case
  proof (cases "ts = []")
    case True
    then show ?thesis using turn f Cons.prems by simp
  next
    case False
    have take: "take (length ?new) ?out = ?new" by simp
    have fl: "length inp \<le> length (P @ token_bytes t) + f" 
    proof -
      have "length inp = length P + length (token_bytes t) + length (encs ts)" using Cons.prems(1) by simp
      moreover have "length inp \<le> length P + Suc f" using Cons.prems(7) f by simp
      ultimately show ?thesis using token_nonempty(2) [of t] unfolding length_append by linarith
    qed
    have more: "length (P @ token_bytes t) < length inp" using Cons.prems(1) False by (cases ts) auto
    have "lzf_expand f inp out_len (length (P @ token_bytes t)) ?out (length ?new) =
      Some (Written (length (expand ?new ts)), expand ?new ts @ drop (length (expand ?new ts)) ?out)"
      using Cons.IH [of "P @ token_bytes t" "length ?new" ?out f, OF _ False _ _ _ _ fl] Cons.prems len by simp
    moreover have "drop (length (expand ?new ts)) ?out = drop (length (expand ?new ts)) out"
      using length_expand [of ?new ts] by simp
    ultimately show ?thesis using turn f more by simp
  qed
qed simp

lemma lzf_decompress_stream:
  assumes "ts \<noteq> []" "stream_ok [] ts" "length (expand [] ts) \<le> out_len" "out_len \<le> length out"
  shows "lzf_decompress (encs ts) out out_len =
    Some (Written (length (expand [] ts)), expand [] ts @ drop (length (expand [] ts)) out)"
  using lzf_expand_stream [of "encs ts" "[]" ts 0 out out_len "Suc (length (encs ts))"] assms
  by (simp add: lzf_decompress_def)

text \<open>
  C19. On any input of at least one byte, valid or not, the decompressor returns, reads only its
  input, writes only the first \<open>out_len\<close> bytes of its output and returns an error or the number
  of bytes it wrote.
\<close>

theorem lzf_decompress_safe:
  assumes "inp \<noteq> []" "out_len \<le> length out"
  shows "\<exists>r out'. lzf_decompress inp out out_len = Some (r, out') \<and> length out' = length out \<and>
    drop out_len out' = drop out_len out \<and> (\<forall>n. r = Written n \<longrightarrow> 0 < n \<and> n \<le> out_len)"
  using lzf_expand_ok [of 0 inp "Suc (length inp)" 0 out_len out] assms by (simp add: lzf_decompress_def)

theorem lzf_decompress_safe_witness:
  "\<exists>r out'. lzf_decompress [224, 255] (replicate 4 7) 3 = Some (r, out') \<and> length out' = length (replicate 4 (7::byte)) \<and>
    drop 3 out' = drop 3 (replicate 4 7) \<and> (\<forall>n. r = Written n \<longrightarrow> 0 < n \<and> n \<le> 3)"
  by (rule lzf_decompress_safe [of "[224, 255]" 3 "replicate 4 7"]) simp_all

end
