(* ===== verification/Lzf_Compress.thy ===== *)
theory Lzf_Compress
  imports Lzf
begin

text \<open>
  The compressor of \<^verbatim>\<open>redis-2.8/src/lzf_c.c\<close>: what its buffer holds between two rounds, what the
  test for a match accepts, and that the stream it writes has the input as its meaning.
\<close>

section \<open>The compressor\<close>

text \<open>What the buffer of the compressor holds between two rounds: the encoding of tokens whose
  expansion with the pending literals is the input read so far, and room for the next header.\<close>

definition holds :: "bytes \<Rightarrow> lzf_token list \<Rightarrow> bytes \<Rightarrow> lzf_state \<Rightarrow> bool" where
  "holds s ts pend st \<longleftrightarrow>
     stream_ok [] ts \<and> expand [] ts @ pend = take (lz_ip st) s \<and> lz_ip st \<le> length s \<and>
     lz_lit st = length pend \<and> length pend < 32 \<and> lz_op st = length (encs ts) + 1 + length pend \<and>
     (\<exists>h rest. lz_out st = encs ts @ h # pend @ rest)"

definition comp_inv :: "bytes \<Rightarrow> nat \<Rightarrow> nat \<Rightarrow> lzf_state \<Rightarrow> bool" where
  "comp_inv s sz out_len st \<longleftrightarrow>
     (\<exists>ts pend. holds s ts pend st) \<and> length (lz_out st) = sz \<and> lz_op st \<le> out_len + 1 \<and> out_len < sz"

lemma stop_run_at:
  "op = length E + 1 + length pend \<Longrightarrow>
   stop_run (E @ h # pend @ rest) op (length pend) = Some (E @ word_of_int (int (length pend) - 1) # pend @ rest)"
  using put_at [of E h "pend @ rest" "word_of_int (int (length pend) - 1)"] by (simp add: stop_run_def)

lemma lit_header: "pend \<noteq> [] \<Longrightarrow> word_of_int (int (length pend) - 1) # pend = token_bytes (Literal pend)"
  by (cases pend) simp_all

text \<open>Closing the run turns the pending literals into a token.\<close>

lemma close_run:
  assumes "holds s ts pend st"
  obtains us rest where "stop_run (lz_out st) (lz_op st) (lz_lit st) = Some (encs us @ rest)"
    and "(if lz_lit st = 0 then lz_op st - 1 else lz_op st) = length (encs us)"
    and "stream_ok [] us" "expand [] us = take (lz_ip st) s" "length (encs us @ rest) = length (lz_out st)"
proof -
  obtain h rest where out: "lz_out st = encs ts @ h # pend @ rest" using assms by (auto simp: holds_def)
  have stop: "stop_run (lz_out st) (lz_op st) (lz_lit st) = Some (encs ts @ word_of_int (int (length pend) - 1) # pend @ rest)"
    using assms out stop_run_at [of "lz_op st" "encs ts" pend h rest] by (simp add: holds_def)
  show thesis
  proof (cases "pend = []")
    case True
    then show ?thesis using assms stop out that [of ts "word_of_int (int (length pend) - 1) # rest"] by (simp add: holds_def)
  next
    case False
    then have "stop_run (lz_out st) (lz_op st) (lz_lit st) = Some (encs (ts @ [Literal pend]) @ rest)"
      using stop lit_header [OF False] by simp
    moreover have "stream_ok [] (ts @ [Literal pend])" using assms False by (cases pend) (auto simp: holds_def)
    ultimately show ?thesis using assms False out that [of "ts @ [Literal pend]" rest] by (simp add: holds_def)
  qed
qed

lemma copy_literal_ok:
  assumes h: "holds s ts pend st" and ip: "lz_ip st < length s" and room: "lz_op st + 1 < length (lz_out st)"
  shows "\<exists>st'. copy_literal s st = Some st' \<and> (\<exists>ts pend. holds s ts pend st') \<and> lz_ip st' = lz_ip st + 1 \<and>
    length (lz_out st') = length (lz_out st) \<and>
    lz_op st' = lz_op st + (if lz_lit st' = 0 then 2 else 1)"
proof -
  let ?b = "s ! lz_ip st"
  obtain hd rest where out: "lz_out st = encs ts @ hd # pend @ rest" using h by (auto simp: holds_def)
  obtain x y rest' where rest: "rest = x # y # rest'"
    using room h out by (cases rest; cases "tl rest") (auto simp: holds_def)
  have put: "put (lz_out st) (int (lz_op st)) ?b = Some (encs ts @ hd # (pend @ [?b]) @ y # rest')"
    using put_at [of "encs ts @ hd # pend" x "y # rest'" ?b] h by (simp add: out rest holds_def)
  have takeS: "take (lz_ip st) s @ [?b] = take (lz_ip st + 1) s" using ip by (simp add: take_Suc_conv_app_nth)
  have ex: "expand [] ts @ pend @ [?b] = take (lz_ip st + 1) s" 
  proof -
    have "expand [] ts @ pend = take (lz_ip st) s" using h by (simp add: holds_def)
    then show ?thesis using takeS by (metis append_assoc)
  qed
  show ?thesis
  proof (cases "lz_lit st + 1 = 32")
    case False
    let ?st = "st\<lparr>lz_ip := lz_ip st + 1, lz_out := encs ts @ hd # (pend @ [?b]) @ y # rest', lz_op := lz_op st + 1, lz_lit := lz_lit st + 1\<rparr>"
    have "copy_literal s st = Some ?st" using put ip False by (simp add: copy_literal_def Let_def)
    moreover have "holds s ts (pend @ [?b]) ?st" using h ex ip False by (auto simp: holds_def)
    ultimately show ?thesis using out rest by auto
  next
    case True
    let ?p = "pend @ [?b]" and ?us = "ts @ [Literal (pend @ [?b])]"
    let ?st = "st\<lparr>lz_ip := lz_ip st + 1, lz_out := encs ?us @ y # rest', lz_op := lz_op st + 2, lz_lit := 0\<rparr>"
    have n: "length ?p = 32" using h True by (simp add: holds_def)
    have "stop_run (encs ts @ hd # ?p @ y # rest') (lz_op st + 1) (length ?p) = Some (encs ?us @ y # rest')"
      using stop_run_at [of "lz_op st + 1" "encs ts" ?p hd "y # rest'"] lit_header [of ?p] h by (simp add: holds_def)
    then have "copy_literal s st = Some ?st" using put ip True n by (simp add: copy_literal_def Let_def)
    moreover have "holds s ?us [] ?st" using h ex ip n by (auto simp: holds_def)
    ultimately show ?thesis using out rest by auto
  qed
qed

section \<open>Matches\<close>

text \<open>Whatever the slot held, an address that passes the tests lies in the input before \<open>ip\<close>.\<close>

lemma ref_in_input:
  fixes in_data ref :: "64 word"
  assumes base: "8192 \<le> unat in_data" "unat in_data + ip < 2 ^ 64"
    and test: "ref_off in_data ip ref < 8192" "in_data < ref"
  shows "unat (ref - in_data) + unat (ref_off in_data ip ref) + 1 = ip" "0 < unat (ref - in_data)"
    "unat (ref_off in_data ip ref) < 8192"
proof -
  let ?B = "unat in_data" and ?R = "unat ref"
  have BR: "?B < ?R" using test(2) by (simp add: word_less_nat_alt)
  have R: "?R < 2 ^ 64" using unsigned_less [of ref, where ?'a = nat] by simp
  have off: "unat (ref_off in_data ip ref) < 8192" using test(1) by (simp add: word_less_nat_alt)
  have lt: "?R < ?B + ip"
  proof (rule ccontr)
    assume n: "\<not> ?R < ?B + ip"
    define w where "w = 18446744073709551616 + (?B + ip) - ?R - 1"
    have "w + ?R + 1 = 18446744073709551616 + (?B + ip)" using R by (simp add: w_def)
    then have "(of_nat (w + ?R + 1) :: 64 word) = of_nat (18446744073709551616 + (?B + ip))" by (rule arg_cong)
    then have "of_nat w + ref + 1 = in_data + of_nat ip" by simp
    then have "ref_off in_data ip ref = of_nat w" by (simp add: ref_off_def algebra_simps)
    moreover have "w < 2 ^ 64" using n R base by (simp add: w_def)
    ultimately have "unat (ref_off in_data ip ref) = w" by (simp add: unat_of_nat take_bit_nat_eq_self)
    then show False using off base R by (simp add: w_def)
  qed
  define v where "v = ?B + ip - ?R - 1"
  have "v + ?R + 1 = ?B + ip" using lt by (simp add: v_def)
  then have "(of_nat (v + ?R + 1) :: 64 word) = of_nat (?B + ip)" by (rule arg_cong)
  then have "1 + (of_nat v + ref) = in_data + of_nat ip" by simp
  then have "ref_off in_data ip ref = of_nat v" by (simp add: ref_off_def algebra_simps)
  then have o: "unat (ref_off in_data ip ref) = ?B + ip - ?R - 1"
    using base by (simp add: unat_of_nat take_bit_nat_eq_self v_def)
  have "ref - in_data = of_nat (?R - ?B)" using BR by (simp add: of_nat_diff)
  then have r: "unat (ref - in_data) = ?R - ?B" using R by (simp add: unat_of_nat take_bit_nat_eq_self)
  show "unat (ref - in_data) + unat (ref_off in_data ip ref) + 1 = ip" "0 < unat (ref - in_data)"
    unfolding o r using lt BR by linarith+
  show "unat (ref_off in_data ip ref) < 8192" by (rule off)
qed

definition same_at :: "bytes \<Rightarrow> nat \<Rightarrow> nat \<Rightarrow> nat \<Rightarrow> bool" where
  "same_at s r ip n \<longleftrightarrow> (\<forall>k<n. s ! (r + k) = s ! (ip + k))"

lemma same_at_Suc: "same_at s r ip (Suc n) \<longleftrightarrow> same_at s r ip n \<and> s ! (r + n) = s ! (ip + n)"
  by (auto simp: same_at_def less_Suc_eq)

lemma same_at_3: "same_at s r ip 3 \<longleftrightarrow> s ! r = s ! ip \<and> s ! (r + 1) = s ! (ip + 1) \<and> s ! (r + 2) = s ! (ip + 2)"
  unfolding numeral_3_eq_3 same_at_Suc by (simp add: same_at_def)

lemma lzf_match_ok:
  assumes base: "8192 \<le> unat in_data" "unat in_data + length s \<le> 2 ^ 64" and ip: "ip < length s"
  obtains "lzf_match in_data s ip ref = Some False"
  | r where "lzf_match in_data s ip ref = Some True" "unat (ref - in_data) = r"
      "r + unat (ref_off in_data ip ref) + 1 = ip" "unat (ref_off in_data ip ref) < 8192"
      "same_at s r ip 3" "ip + 4 < length s"
proof (cases "ref_off in_data ip ref < MAX_OFF \<and> ip + 4 < length s \<and> ref > in_data")
  case False
  then have "lzf_match in_data s ip ref = Some False" unfolding lzf_match_def by (rule if_not_P)
  then show thesis by (rule that(1))
next
  case True
  let ?r = "unat (ref - in_data)"
  have lt: "unat in_data + ip < 2 ^ 64" using base(2) ip by linarith
  have r: "?r + unat (ref_off in_data ip ref) + 1 = ip" "unat (ref_off in_data ip ref) < 8192"
    using ref_in_input [OF base(1) lt] True by blast+
  have "?r + 2 < length s" "ip + 2 < length s" using True r(1) by linarith+
  then have "lzf_match in_data s ip ref = Some (same_at s ?r ip 3)"
    unfolding lzf_match_def if_P [OF True] Let_def same_at_3 by simp
  then show thesis using that r True by (cases "same_at s ?r ip 3") auto
qed

lemma unrolled_ok:
  "same_at s r ip (Suc len) \<Longrightarrow> r < ip \<Longrightarrow> ip + len + n < length s \<Longrightarrow>
   \<exists>l b. unrolled s r ip len n = Some (l, b) \<and> len \<le> l \<and> l \<le> len + n \<and>
     (b \<longrightarrow> len < l \<and> same_at s r ip l) \<and> (\<not> b \<longrightarrow> l = len + n \<and> same_at s r ip (Suc l))"
proof (induction n arbitrary: len)
  case (Suc n)
  show ?case
  proof (cases "s ! (r + Suc len) = s ! (ip + Suc len)")
    case True
    then have "same_at s r ip (Suc (Suc len))" using Suc.prems(1) by (simp add: same_at_Suc [of _ _ _ "Suc len"])
    then obtain l b where "unrolled s r ip (Suc len) n = Some (l, b)" "Suc len \<le> l" "l \<le> Suc len + n"
      "(b \<longrightarrow> Suc len < l \<and> same_at s r ip l) \<and> (\<not> b \<longrightarrow> l = Suc len + n \<and> same_at s r ip (Suc l))"
      using Suc.IH [of "Suc len"] Suc.prems by auto
    then show ?thesis using True Suc.prems by (cases b) (auto simp: Let_def)
  next
    case False
    then have "unrolled s r ip len (Suc n) = Some (Suc len, True)" using Suc.prems by (simp add: Let_def)
    then show ?thesis using Suc.prems(1) by auto
  qed
qed auto

lemma match_more_ok:
  "same_at s r ip (Suc len) \<Longrightarrow> r < ip \<Longrightarrow> ip + maxlen \<le> length s \<Longrightarrow>
   \<exists>l. match_more s r ip maxlen len = Some l \<and> len < l \<and> l \<le> max (Suc len) maxlen \<and> same_at s r ip l"
proof (induction "maxlen - len" arbitrary: len rule: less_induct)
  case less
  show ?case
  proof (cases "Suc len < maxlen \<and> s ! (r + Suc len) = s ! (ip + Suc len)")
    case True
    then have "same_at s r ip (Suc (Suc len))" using less.prems(1) by (simp add: same_at_Suc [of _ _ _ "Suc len"])
    then obtain l where "match_more s r ip maxlen (Suc len) = Some l" "Suc len < l" "l \<le> max (Suc (Suc len)) maxlen" "same_at s r ip l"
      using less.hyps [of "Suc len"] less.prems True by (auto simp: diff_less_mono2)
    then show ?thesis using True less.prems by (subst match_more.simps) (simp add: Let_def)
  next
    case False
    then have "match_more s r ip maxlen len = Some (Suc len)"
      using less.prems by (subst match_more.simps) (auto simp: Let_def)
    then show ?thesis using less.prems(1) by simp
  qed
qed

lemma match_length_ok:
  assumes a: "same_at s r ip 3" and r: "r < ip" and ip: "ip + 4 < length s"
  obtains len where "match_length s r ip (if length s - ip - 2 > MAX_REF then MAX_REF else length s - ip - 2) = Some len"
    "3 \<le> len" "len \<le> MAX_REF" "ip + len \<le> length s" "same_at s r ip len"
proof -
  define maxlen where "maxlen = (if length s - ip - 2 > MAX_REF then MAX_REF else length s - ip - 2)"
  have m: "maxlen \<le> MAX_REF" "ip + maxlen + 2 \<le> length s" "3 \<le> maxlen" using ip by (auto simp: maxlen_def)
  have "\<exists>len. match_length s r ip maxlen = Some len \<and> 3 \<le> len \<and> len \<le> MAX_REF \<and> ip + len \<le> length s \<and> same_at s r ip len"
  proof (cases "16 < maxlen")
    case False
    then show ?thesis using match_more_ok [of s r ip 2 maxlen] a r m by (auto simp: match_length_def max_def split: if_splits)
  next
    case True
    have "same_at s r ip (Suc 2)" "ip + 2 + 16 < length s" using a m True by (simp_all add: numeral_3_eq_3 numeral_2_eq_2)
    from unrolled_ok [OF this(1) r this(2)]
    have "\<exists>l b. unrolled s r ip 2 16 = Some (l, b) \<and> 2 \<le> l \<and> l \<le> 18 \<and>
      (b \<longrightarrow> 2 < l \<and> same_at s r ip l) \<and> (\<not> b \<longrightarrow> l = 18 \<and> same_at s r ip (Suc l))" by simp
    then obtain l b where u: "unrolled s r ip 2 16 = Some (l, b)" "2 \<le> l" "l \<le> 18"
      "b \<Longrightarrow> 2 < l \<and> same_at s r ip l" "\<not> b \<Longrightarrow> l = 18 \<and> same_at s r ip (Suc l)" by blast
    show ?thesis
    proof (cases b)
      case True
      then show ?thesis using u m \<open>16 < maxlen\<close> by (auto simp: match_length_def)
    next
      case False
      then show ?thesis using u m \<open>16 < maxlen\<close> match_more_ok [of s r ip 18 maxlen] r
        by (auto simp: match_length_def max_def split: if_splits)
    qed
  qed
  then show thesis using that unfolding maxlen_def by blast
qed

text \<open>A reference to a place that agrees with what follows reproduces what follows.\<close>

lemma refer_same_at:
  "same_at s r ip n \<Longrightarrow> r + off + 1 = ip \<Longrightarrow> ip + n \<le> length s \<Longrightarrow> refer (take ip s) off n = take (ip + n) s"
proof (induction n arbitrary: r ip)
  case (Suc n)
  have "s ! (r + 0) = s ! (ip + 0)" using Suc.prems(1) unfolding same_at_def by blast
  moreover have "ip - Suc off = r" using Suc.prems(2) by simp
  ultimately have "take ip s @ [take ip s ! (length (take ip s) - off - 1)] = take (Suc ip) s"
    using Suc.prems by (simp add: take_Suc_conv_app_nth min_def)
  moreover have "same_at s (Suc r) (Suc ip) n" using Suc.prems(1) by (auto simp: same_at_def)
  ultimately show ?case using Suc.IH [of "Suc r" "Suc ip"] Suc.prems by simp
qed simp

section \<open>A round of the compressor\<close>

lemma put_mid: "k = length E \<Longrightarrow> put (E @ x # rest) (int k) b = Some (E @ b # rest)"
  using put_at by simp

lemma ucast_of_nat_byte: "n < 2 ^ 64 \<Longrightarrow> (ucast (of_nat n :: 64 word) :: byte) = of_nat n"
  by (simp add: unsigned_of_nat take_bit_nat_eq_self)

lemma ref_bytes:
  fixes off :: "64 word"
  assumes "unat off < 8192" "l \<le> 7"
  shows "(ucast (drop_bit 8 off + push_bit 5 (of_nat l)) :: byte) = of_nat (unat off div 256 + 32 * l)"
    "(ucast off :: byte) = of_nat (unat off mod 256)"
proof -
  have "drop_bit 8 off = of_nat (unat off div 256)"
  proof -
    have "unat (drop_bit 8 off) = unat off div 256" by (simp only: unat_drop_bit_eq) (simp add: drop_bit_eq_div)
    then have "(of_nat (unat (drop_bit 8 off)) :: 64 word) = of_nat (unat off div 256)" by (rule arg_cong)
    then show ?thesis by simp
  qed
  then have e: "drop_bit 8 off + push_bit 5 (of_nat l) = of_nat (unat off div 256 + 32 * l)"
    by (simp add: push_bit_eq_mult mult.commute)
  have "unat off div 256 + 32 * l < 2 ^ 64" using assms by simp
  from ucast_of_nat_byte [OF this]
  show "(ucast (drop_bit 8 off + push_bit 5 (of_nat l)) :: byte) = of_nat (unat off div 256 + 32 * l)"
    unfolding e .
  show "(ucast off :: byte) = of_nat (unat off mod 256)"
    by (simp add: word_unat_eq_iff unsigned_ucast_eq take_bit_eq_mod unat_of_nat)
qed

lemma put_ref_ok:
  assumes len: "3 \<le> len" "len \<le> 264" and off: "unat off < 8192" and room: "3 < length rest"
  shows "\<exists>h rest'. put_ref (E @ rest) (length E) off (len - 2) =
      Some (E @ token_bytes (BackRef (unat off) len) @ h # rest', length (E @ token_bytes (BackRef (unat off) len))) \<and>
    length (token_bytes (BackRef (unat off) len) @ h # rest') = length rest"
proof -
  obtain a b c d rest' where rest: "rest = a # b # c # d # rest'"
    using room by (cases rest; cases "tl rest"; cases "tl (tl rest)"; cases "tl (tl (tl rest))") auto
  show ?thesis
  proof (cases "len - 2 < 7")
    case True
    have "put (E @ a # b # c # d # rest') (int (length E)) x = Some (E @ x # b # c # d # rest')"
      "put (E @ x # b # c # d # rest') (int (Suc (length E))) y = Some (E @ x # y # c # d # rest')" for x y
      using put_mid [of "Suc (length E)" "E @ [x]" b "c # d # rest'"] by (simp_all add: put_mid)
    then show ?thesis using True ref_bytes [OF off, of "len - 2"] by (simp add: put_ref_def rest)
  next
    case False
    have "put (E @ a # b # c # d # rest') (int (length E)) x = Some (E @ x # b # c # d # rest')"
      "put (E @ x # b # c # d # rest') (int (length E) + 1) y = Some (E @ x # y # c # d # rest')"
      "put (E @ x # y # c # d # rest') (int (Suc (Suc (length E)))) z = Some (E @ x # y # z # d # rest')" for x y z
      using put_mid [of "Suc (length E)" "E @ [x]" b "c # d # rest'"] put_mid [of "Suc (Suc (length E))" "E @ [x, y]" c "d # rest'"]
      by (simp_all add: put_mid add.commute)
    then show ?thesis using False ref_bytes [OF off, of 7] by (simp add: put_ref_def rest)
  qed
qed

lemma FRST_ok: "p + 1 < length s \<Longrightarrow> \<exists>v. FRST s p = Some v"
  by (simp add: FRST_def)

lemma enter_ok: "lz_ip st + 2 < length s \<Longrightarrow> \<exists>v t. enter in_data s st = Some (st\<lparr>lz_hval := v, lz_htab := t, lz_ip := lz_ip st + 1\<rparr>)"
  by (auto simp: enter_def NEXT_def)

definition round_ok :: "bytes \<Rightarrow> nat \<Rightarrow> nat \<Rightarrow> lzf_state \<Rightarrow> lzf_round \<Rightarrow> bool" where
  "round_ok s sz out_len st r =
     (case r of
        Inl out \<Rightarrow> length out = sz
      | Inr (st', brk) \<Rightarrow> comp_inv s sz out_len st' \<and> lz_ip st < lz_ip st' \<and> (brk \<longrightarrow> length s \<le> lz_ip st' + 2))"

lemma holds_cong:
  "holds s ts pend st \<Longrightarrow> lz_ip st' = lz_ip st \<Longrightarrow> lz_out st' = lz_out st \<Longrightarrow> lz_op st' = lz_op st \<Longrightarrow>
   lz_lit st' = lz_lit st \<Longrightarrow> holds s ts pend st'"
  by (simp add: holds_def)

lemma comp_inv_cong:
  "comp_inv s sz out_len st \<Longrightarrow> lz_ip st' = lz_ip st \<Longrightarrow> lz_out st' = lz_out st \<Longrightarrow> lz_op st' = lz_op st \<Longrightarrow>
   lz_lit st' = lz_lit st \<Longrightarrow> comp_inv s sz out_len st'"
  unfolding comp_inv_def using holds_cong by metis

text \<open>The two positions entered in the table do not matter for the output.\<close>

lemma reenter_ok:
  assumes inv: "comp_inv s sz out_len st" and ip: "2 \<le> lz_ip st" "lz_ip st + 2 < length s"
  shows "\<exists>st'. reenter in_data s st = Some st' \<and> comp_inv s sz out_len st' \<and> lz_ip st' = lz_ip st"
proof -
  have "lz_ip st - 2 + 1 < length s" using ip(2) by linarith
  then obtain v where v: "FRST s (lz_ip st - 2) = Some v" using FRST_ok by blast
  let ?st0 = "st\<lparr>lz_ip := lz_ip st - 2, lz_hval := v\<rparr>"
  obtain a t where a: "enter in_data s ?st0 = Some (?st0\<lparr>lz_hval := a, lz_htab := t, lz_ip := lz_ip ?st0 + 1\<rparr>)"
    using enter_ok [of ?st0 s in_data] ip by fastforce
  let ?st1 = "?st0\<lparr>lz_hval := a, lz_htab := t, lz_ip := lz_ip ?st0 + 1\<rparr>"
  obtain b u where b: "enter in_data s ?st1 = Some (?st1\<lparr>lz_hval := b, lz_htab := u, lz_ip := lz_ip ?st1 + 1\<rparr>)"
    using enter_ok [of ?st1 s in_data] ip by fastforce
  let ?st2 = "?st1\<lparr>lz_hval := b, lz_htab := u, lz_ip := lz_ip ?st1 + 1\<rparr>"
  have "lz_ip ?st2 = lz_ip st" using ip by simp
  moreover from this have "comp_inv s sz out_len ?st2" by (intro comp_inv_cong [OF inv]) simp_all
  ultimately show ?thesis using v a b by (auto simp: reenter_def)
qed

lemma lzf_backref_ok:
  assumes inv: "comp_inv s sz out_len st" and r: "unat (ref - in_data) = r"
    "r + unat (ref_off in_data (lz_ip st) ref) + 1 = lz_ip st" "unat (ref_off in_data (lz_ip st) ref) < 8192"
    "same_at s r (lz_ip st) 3" "lz_ip st + 4 < length s"
  shows "\<exists>res. lzf_backref in_data s out_len ref st = Some res \<and> round_ok s sz out_len st res"
proof -
  let ?ip = "lz_ip st" and ?off = "ref_off in_data (lz_ip st) ref"
  obtain ts pend where h: "holds s ts pend st" and sz: "length (lz_out st) = sz" "out_len < sz"
    using inv by (auto simp: comp_inv_def)
  obtain us rest where us: "stop_run (lz_out st) (lz_op st) (lz_lit st) = Some (encs us @ rest)"
    "(if lz_lit st = 0 then lz_op st - 1 else lz_op st) = length (encs us)"
    "stream_ok [] us" "expand [] us = take ?ip s" "length (encs us @ rest) = length (lz_out st)"
    by (rule close_run [OF h])
  have "r < ?ip" using r(2) by linarith
  from match_length_ok [OF r(4) this r(5)] obtain len where len:
    "match_length s r ?ip (if length s - ?ip - 2 > MAX_REF then MAX_REF else length s - ?ip - 2) = Some len"
    "3 \<le> len" "len \<le> MAX_REF" "?ip + len \<le> length s" "same_at s r ?ip len" .
  show ?thesis
  proof (cases "length (encs us) + 3 + 1 \<ge> out_len")
    case True
    then have "lzf_backref in_data s out_len ref st = Some (Inl (encs us @ rest))"
      using us by (simp add: lzf_backref_def Let_def)
    then show ?thesis using us sz by (simp add: round_ok_def)
  next
    case False
    then have "3 < length rest" using us(5) sz by simp
    from put_ref_ok [OF len(2,3) r(3) this, of "encs us"] obtain h rest' where p:
      "put_ref (encs us @ rest) (length (encs us)) ?off (len - 2) =
         Some (encs us @ token_bytes (BackRef (unat ?off) len) @ h # rest', length (encs us @ token_bytes (BackRef (unat ?off) len)))"
      "length (token_bytes (BackRef (unat ?off) len) @ h # rest') = length rest" by blast
    let ?vs = "us @ [BackRef (unat ?off) len]"
    let ?st = "st\<lparr>lz_ip := ?ip + len, lz_out := encs ?vs @ h # rest', lz_op := length (encs ?vs) + 1, lz_lit := 0\<rparr>"
    have ex: "expand [] ?vs = take (?ip + len) s" using us(4) refer_same_at [OF len(5) r(2) len(4)] by simp
    have "holds s ?vs [] ?st"
      using us(3,4) ex len r by (auto simp: holds_def)
    moreover have "length (token_bytes (BackRef (unat ?off) len)) \<le> 3" by simp
    ultimately have inv': "comp_inv s sz out_len ?st"
      using p(2) us(5) sz False by (auto simp: comp_inv_def simp del: token_bytes.simps)
    obtain m where m: "len = m + 2" using len(2) nat_le_iff_add [of 2 len] by (auto simp: add.commute)
    have "lzf_backref in_data s out_len ref st =
      (if ?ip + len + 2 \<ge> length s then Some (Inr (?st, True)) else map_option (\<lambda>st. Inr (st, False)) (reenter in_data s ?st))"
      using False us(1,2) p(1) len(1) m unfolding lzf_backref_def Let_def r(1)
      by (simp del: token_bytes.simps cong: if_cong)
    then show ?thesis
      using inv' reenter_ok [OF inv', of in_data] len by (auto simp: round_ok_def simp del: token_bytes.simps)
  qed
qed

lemma lzf_step_ok:
  assumes base: "8192 \<le> unat in_data" "unat in_data + length s \<le> 2 ^ 64"
    and inv: "comp_inv s sz out_len st" and ip: "lz_ip st + 2 < length s"
  shows "\<exists>res. lzf_step in_data s out_len st = Some res \<and> round_ok s sz out_len st res"
proof -
  obtain hval where hval: "NEXT (lz_hval st) s (lz_ip st) = Some hval" using ip by (simp add: NEXT_def)
  define ref where "ref = lz_htab st (IDX hval)"
  let ?st = "st\<lparr>lz_hval := hval, lz_htab := (lz_htab st)(IDX hval := in_data + of_nat (lz_ip st))\<rparr>"
  have inv': "comp_inv s sz out_len ?st" by (rule comp_inv_cong [OF inv]) simp_all
  have same: "round_ok s sz out_len ?st res = round_ok s sz out_len st res" for res
    by (simp add: round_ok_def split: sum.split)
  have step: "lzf_step in_data s out_len st = lzf_match in_data s (lz_ip st) ref \<bind>
      (\<lambda>found. if found then lzf_backref in_data s out_len ref ?st
        else if lz_op st \<ge> out_len then Some (Inl (lz_out st))
        else map_option (\<lambda>st. Inr (st, False)) (copy_literal s ?st))"
    using hval by (simp add: lzf_step_def Let_def ref_def cong: if_cong)
  have "lz_ip st < length s" using ip by simp
  from base this show ?thesis
  proof (rule lzf_match_ok [where ref = ref])
    assume m: "lzf_match in_data s (lz_ip st) ref = Some False"
    show ?thesis
    proof (cases "lz_op st \<ge> out_len")
      case True
      then show ?thesis using m step inv by (auto simp: round_ok_def comp_inv_def)
    next
      case False
      obtain ts pend where h: "holds s ts pend ?st" using inv' by (auto simp: comp_inv_def)
      have room: "lz_op ?st + 1 < length (lz_out ?st)" and ip': "lz_ip ?st < length s"
        using False inv ip by (auto simp: comp_inv_def)
      from copy_literal_ok [OF h ip' room] obtain st' where st': "copy_literal s ?st = Some st'"
        "\<exists>ts pend. holds s ts pend st'" "lz_ip st' = lz_ip st + 1" "length (lz_out st') = length (lz_out st)"
        "lz_op st' = lz_op st + (if lz_lit st' = 0 then 2 else 1)" by auto
      have "comp_inv s sz out_len st'" using st' inv False by (auto simp: comp_inv_def)
      then show ?thesis using m step st' False by (simp add: round_ok_def)
    qed
  next
    fix r
    assume "lzf_match in_data s (lz_ip st) ref = Some True" and r: "unat (ref - in_data) = r"
      "r + unat (ref_off in_data (lz_ip st) ref) + 1 = lz_ip st" "unat (ref_off in_data (lz_ip st) ref) < 8192"
      "same_at s r (lz_ip st) 3" "lz_ip st + 4 < length s"
    then have "lzf_step in_data s out_len st = lzf_backref in_data s out_len ref ?st" using step by simp
    then show ?thesis using lzf_backref_ok [OF inv' r(1)] r same by simp
  qed
qed

lemma lzf_loop_ok:
  assumes base: "8192 \<le> unat in_data" "unat in_data + length s \<le> 2 ^ 64"
  shows "comp_inv s sz out_len st \<Longrightarrow> length s \<le> lz_ip st + fuel \<Longrightarrow>
    \<exists>r. lzf_loop fuel in_data s out_len st = Some r \<and>
      (case r of Inl out \<Rightarrow> length out = sz | Inr st' \<Rightarrow> comp_inv s sz out_len st' \<and> length s \<le> lz_ip st' + 2)"
proof (induction fuel arbitrary: st)
  case 0
  then show ?case by (subst lzf_loop.simps) simp
next
  case (Suc fuel)
  show ?case
  proof (cases "lz_ip st + 2 < length s")
    case False
    then show ?thesis using Suc.prems by (subst lzf_loop.simps) simp
  next
    case True
    from lzf_step_ok [OF base Suc.prems(1) True] obtain res where
      res: "lzf_step in_data s out_len st = Some res" "round_ok s sz out_len st res" by blast
    show ?thesis
    proof (cases res)
      case (Inl out)
      then show ?thesis using res True by (subst lzf_loop.simps) (simp add: round_ok_def)
    next
      case (Inr x)
      then obtain st' brk where x: "res = Inr (st', brk)" by (cases x) auto
      then show ?thesis
        using res True Suc.IH [of st'] Suc.prems by (subst lzf_loop.simps) (auto simp: round_ok_def)
    qed
  qed
qed

lemma lzf_tail_ok:
  assumes "holds s ts pend st" "lz_ip st + n = length s" "n \<le> 2" "lz_op st + 3 \<le> out_len" "out_len < length (lz_out st)"
  shows "\<exists>ts pend st'. lzf_tail n s st = Some st' \<and> holds s ts pend st' \<and> lz_ip st' = length s \<and>
    length (lz_out st') = length (lz_out st) \<and> (if lz_lit st' = 0 then lz_op st' - 1 else lz_op st') \<le> out_len"
proof -
  consider "n = 0" | "n = 1" | "n = Suc 1" using assms(3) by linarith
  then show ?thesis
  proof cases
    case 1
    then show ?thesis using assms by auto
  next
    case 2
    have "lz_ip st < length s" "lz_op st + 1 < length (lz_out st)" using 2 assms by linarith+
    from copy_literal_ok [OF assms(1) this] obtain st1 ts1 p1 where st1: "copy_literal s st = Some st1"
      "holds s ts1 p1 st1" "lz_ip st1 = lz_ip st + 1" "length (lz_out st1) = length (lz_out st)"
      "lz_op st1 = lz_op st + (if lz_lit st1 = 0 then 2 else 1)" by blast
    have "(if lz_lit st1 = 0 then lz_op st1 - 1 else lz_op st1) \<le> out_len" using st1(5) assms(4) by simp
    moreover have "lzf_tail n s st = Some st1" using 2 st1(1) by simp
    moreover have "lz_ip st1 = length s" using 2 assms(2) st1(3) by simp
    ultimately show ?thesis using st1(2,4) by blast
  next
    case 3
    have "lz_ip st < length s" "lz_op st + 1 < length (lz_out st)" using 3 assms by linarith+
    from copy_literal_ok [OF assms(1) this] obtain st1 ts1 p1 where st1: "copy_literal s st = Some st1"
      "holds s ts1 p1 st1" "lz_ip st1 = lz_ip st + 1" "length (lz_out st1) = length (lz_out st)"
      "lz_op st1 = lz_op st + (if lz_lit st1 = 0 then 2 else 1)" by blast
    then have op1: "lz_op st1 \<le> lz_op st + 2" by (auto split: if_splits)
    have "lz_ip st1 < length s" "lz_op st1 + 1 < length (lz_out st1)" using 3 assms st1(3,4) op1 by linarith+
    from copy_literal_ok [OF st1(2) this] obtain st2 ts2 p2 where st2: "copy_literal s st1 = Some st2"
      "holds s ts2 p2 st2" "lz_ip st2 = lz_ip st1 + 1" "length (lz_out st2) = length (lz_out st1)"
      "lz_op st2 = lz_op st1 + (if lz_lit st2 = 0 then 2 else 1)" by blast
    have "(if lz_lit st2 = 0 then lz_op st2 - 1 else lz_op st2) \<le> out_len" using st2(5) op1 assms(4) by simp
    moreover have "lzf_tail n s st = Some st2" using 3 st1(1) st2(1) by simp
    moreover have "lz_ip st2 = length s" using 3 assms(2) st1(3) st2(3) by simp
    moreover have "length (lz_out st2) = length (lz_out st)" using st2(4) st1(4) by simp
    ultimately show ?thesis using st2(2) by blast
  qed
qed

text \<open>
  C18. The compressor never leaves its buffers when the output has one byte more than \<open>out_len\<close>,
  whatever addresses the uninitialised hash table holds, and when it reports success the stream
  it wrote fits into \<open>out_len\<close> bytes and decompresses to the input.
\<close>

theorem lzf_roundtrip:
  assumes "8192 \<le> unat in_data" "unat in_data + length s \<le> 2 ^ 64" "2 \<le> length s" "out_len < length out"
  shows "\<exists>n out'. lzf_compress htab in_data s out out_len = Some (n, out') \<and> length out' = length out \<and> n \<le> out_len \<and>
    (n \<noteq> 0 \<longrightarrow> (\<forall>dst. length s \<le> length dst \<longrightarrow>
       lzf_decompress (take n out') dst (length s) = Some (Written (length s), s @ drop (length s) dst)))"
proof (cases "out_len = 0")
  case True
  then show ?thesis by (simp add: lzf_compress_def)
next
  case False
  obtain v where v: "FRST s 0 = Some v" using FRST_ok [of 0 s] assms(3) by auto
  let ?st = "\<lparr>lz_htab = htab, lz_hval = v, lz_ip = 0, lz_out = out, lz_op = 1, lz_lit = 0\<rparr>"
  obtain h rest where out: "out = h # rest" using assms(4) by (cases out) auto
  have "holds s [] [] ?st" by (simp add: holds_def out)
  then have "comp_inv s (length out) out_len ?st" using assms(4) by (auto simp: comp_inv_def)
  from lzf_loop_ok [OF assms(1,2) this, of "length s"] obtain r where
    r: "lzf_loop (length s) in_data s out_len ?st = Some r"
      "case r of Inl out' \<Rightarrow> length out' = length out
        | Inr st \<Rightarrow> comp_inv s (length out) out_len st \<and> length s \<le> lz_ip st + 2" by auto
  have c: "lzf_compress htab in_data s out out_len =
    (case r of Inl out \<Rightarrow> Some (0, out)
     | Inr st \<Rightarrow> if lz_op st + 3 > out_len then Some (0, lz_out st)
        else lzf_tail (length s - lz_ip st) s st \<bind> (\<lambda>st. stop_run (lz_out st) (lz_op st) (lz_lit st) \<bind>
          (\<lambda>out. Some (if lz_lit st = 0 then lz_op st - 1 else lz_op st, out))))"
    using v r(1) False assms(3) by (auto simp: lzf_compress_def)
  show ?thesis
  proof (cases r)
    case (Inl out')
    then show ?thesis using r(2) c by simp
  next
    case (Inr st)
    then obtain ts pend where h: "holds s ts pend st" and sz: "length (lz_out st) = length out"
      and ip: "length s \<le> lz_ip st + 2" using r(2) by (auto simp: comp_inv_def)
    show ?thesis
    proof (cases "lz_op st + 3 > out_len")
      case True
      then show ?thesis using Inr c sz by simp
    next
      case False
      have le: "lz_ip st \<le> length s" using h by (simp add: holds_def)
      have args: "lz_ip st + (length s - lz_ip st) = length s" "length s - lz_ip st \<le> 2" "lz_op st + 3 \<le> out_len"
        "out_len < length (lz_out st)" using le ip False sz assms(4) by simp_all
      from lzf_tail_ok [OF h args] obtain st2 ts2 p2 where
        t: "lzf_tail (length s - lz_ip st) s st = Some st2" "holds s ts2 p2 st2" "lz_ip st2 = length s"
          "length (lz_out st2) = length (lz_out st)" "(if lz_lit st2 = 0 then lz_op st2 - 1 else lz_op st2) \<le> out_len"
        by blast
      obtain us rest2 where us: "stop_run (lz_out st2) (lz_op st2) (lz_lit st2) = Some (encs us @ rest2)"
        "(if lz_lit st2 = 0 then lz_op st2 - 1 else lz_op st2) = length (encs us)"
        "stream_ok [] us" "expand [] us = take (lz_ip st2) s" "length (encs us @ rest2) = length (lz_out st2)"
        by (rule close_run [OF t(2)])
      have "lzf_compress htab in_data s out out_len = Some (length (encs us), encs us @ rest2)"
        using c Inr False t(1) us(1,2) by simp
      moreover have "us \<noteq> []" using us(4) t(3) assms(3) by auto
      moreover have "expand [] us = s" using us(4) t(3) by simp
      ultimately show ?thesis
        using us t(4,5) sz lzf_decompress_stream [of us "length s"] by auto
    qed
  qed
qed

theorem lzf_roundtrip_witness:
  "\<exists>n out'. lzf_compress (\<lambda>_. 70000) 65536 (replicate 24 97) (replicate 21 0) 20 = Some (n, out') \<and>
    length out' = length (replicate 21 (0::byte)) \<and> n \<le> 20 \<and>
    (n \<noteq> 0 \<longrightarrow> (\<forall>dst. length (replicate 24 (97::byte)) \<le> length dst \<longrightarrow>
       lzf_decompress (take n out') dst (length (replicate 24 (97::byte))) =
         Some (Written (length (replicate 24 (97::byte))), replicate 24 97 @ drop (length (replicate 24 (97::byte))) dst)))"
  by (rule lzf_roundtrip [of 65536 "replicate 24 97" 20 "replicate 21 0" "\<lambda>_. 70000"]) simp_all

text \<open>
  The spare byte behind \<open>out_len\<close> is needed: when a full run of literals ends at the limit, the position moves one
  behind it, and the next match stops the run of length 0 by a write there, before the room is tested.
\<close>

lemma full_run_leaves:
  assumes "copy_literal s st = Some st'" "lz_lit st + 1 = MAX_LIT" "lz_op st + 1 = out_len" "length (lz_out st) = out_len"
  shows "lz_op st' = out_len + 1" "lz_lit st' = 0" "length (lz_out st') = out_len"
    "lzf_backref in_data s' out_len ref (st'\<lparr>lz_hval := v, lz_htab := h\<rparr>) = None"
proof -
  show st': "lz_op st' = out_len + 1" "lz_lit st' = 0" "length (lz_out st') = out_len"
    using assms by (auto simp: copy_literal_def Let_def stop_run_def put_def split: bind_splits if_splits)
  show "lzf_backref in_data s' out_len ref (st'\<lparr>lz_hval := v, lz_htab := h\<rparr>) = None"
    using st' by (simp add: lzf_backref_def Let_def stop_run_def put_def)
qed

end
