(* ===== verification/Rio.thy ===== *)
theory Rio
  imports Sds Object Crc64
begin

text \<open>
  \<^verbatim>\<open>redis-2.8/src/rio.c\<close> and \<^verbatim>\<open>redis-2.8/src/rio.h\<close>: streams of bytes over a string or over a file,
  with a running checksum and a limit on the size of one transfer.

  A file is its bytes, the position of the stream in it and the space left on the device: a
  write that does not fit fails and leaves the file as it was, as \<open>fwrite\<close> of one item reports.
  The callback of the checksum is a flag, since \<open>rioGenericUpdateChecksum\<close> is the only one that
  changes the stream. A read returns \<open>None\<close> inside the result where the function returns 0, and the
  whole result is \<open>None\<close> for an access outside a buffer.

  The lemmas reduce a transfer, cut into chunks of any size, to one append to the bytes written
  or one step over the bytes that are left.
\<close>

section \<open>Streams\<close>

record rio_file =
  f_data :: bytes
  f_pos :: nat
  f_space :: nat
  f_buffered :: nat
  f_autosync :: nat

datatype rio_io = BufferIO sdshdr nat | FileIO rio_file

record rio =
  rio_io :: rio_io
  rio_update_cksum :: bool
  rio_cksum :: "64 word"
  rio_processed_bytes :: nat
  rio_max_chunk :: nat

text \<open>The flag is the return value.\<close>

definition rioBufferWrite :: "byte \<Rightarrow> sdshdr \<Rightarrow> nat \<Rightarrow> bytes \<Rightarrow> (rio_io \<times> bool) option" where
  "rioBufferWrite g ptr pos bs = do {
     ptr \<leftarrow> sdscatlen g ptr bs (length bs);
     Some (BufferIO ptr (pos + length bs), True)
   }"

text \<open>The subtraction is in \<open>size_t\<close>.\<close>

definition rioBufferRead :: "sdshdr \<Rightarrow> nat \<Rightarrow> nat \<Rightarrow> (rio_io \<times> bytes option) option" where
  "rioBufferRead ptr pos len =
     (if nat ((int (sds_len ptr) - int pos) mod 2 ^ 64) < len then Some (BufferIO ptr pos, None)
      else do {
        bs \<leftarrow> rd (sds_buf ptr) pos len;
        Some (BufferIO ptr (pos + len), Some bs)
      })"

definition rioFileWrite :: "rio_file \<Rightarrow> bytes \<Rightarrow> rio_io \<times> bool" where
  "rioFileWrite f bs =
     (let ok = length bs \<le> f_space f;
          f = (if ok then f\<lparr>f_data := f_data f @ bs, f_pos := f_pos f + length bs, f_space := f_space f - length bs\<rparr> else f);
          f = f\<lparr>f_buffered := f_buffered f + length bs\<rparr>;
          f = (if f_autosync f \<noteq> 0 \<and> f_buffered f \<ge> f_autosync f then f\<lparr>f_buffered := 0\<rparr> else f)
      in (FileIO f, ok))"

definition rioFileRead :: "rio_file \<Rightarrow> nat \<Rightarrow> rio_io \<times> bytes option" where
  "rioFileRead f len =
     (if f_pos f + len \<le> length (f_data f)
      then (FileIO (f\<lparr>f_pos := f_pos f + len\<rparr>), Some (take len (drop (f_pos f) (f_data f))))
      else (FileIO (f\<lparr>f_pos := length (f_data f)\<rparr>), None))"

definition rioTell :: "rio \<Rightarrow> nat" where
  "rioTell r = (case rio_io r of BufferIO ptr pos \<Rightarrow> pos | FileIO f \<Rightarrow> f_pos f)"

definition rioInitWithBuffer :: "sdshdr \<Rightarrow> rio" where
  "rioInitWithBuffer s = \<lparr>rio_io = BufferIO s 0, rio_update_cksum = False, rio_cksum = 0, rio_processed_bytes = 0, rio_max_chunk = 0\<rparr>"

definition rioInitWithFile :: "bytes \<Rightarrow> nat \<Rightarrow> rio" where
  "rioInitWithFile contents space =
     \<lparr>rio_io = FileIO \<lparr>f_data = contents, f_pos = 0, f_space = space, f_buffered = 0, f_autosync = 0\<rparr>,
      rio_update_cksum = False, rio_cksum = 0, rio_processed_bytes = 0, rio_max_chunk = 0\<rparr>"

definition rioSetAutoSync :: "rio \<Rightarrow> nat \<Rightarrow> rio option" where
  "rioSetAutoSync r n = (case rio_io r of BufferIO _ _ \<Rightarrow> None | FileIO f \<Rightarrow> Some (r\<lparr>rio_io := FileIO (f\<lparr>f_autosync := n\<rparr>)\<rparr>))"

definition rioGenericUpdateChecksum :: "rio \<Rightarrow> bytes \<Rightarrow> rio" where
  "rioGenericUpdateChecksum r bs = r\<lparr>rio_cksum := crc64 (rio_cksum r) bs\<rparr>"

definition update_cksum :: "rio \<Rightarrow> bytes \<Rightarrow> rio" where
  "update_cksum r bs = (if rio_update_cksum r then rioGenericUpdateChecksum r bs else r)"

definition io_write :: "byte \<Rightarrow> rio \<Rightarrow> bytes \<Rightarrow> (rio \<times> bool) option" where
  "io_write g r bs =
     map_option (\<lambda>(io, ok). (r\<lparr>rio_io := io\<rparr>, ok))
       (case rio_io r of BufferIO ptr pos \<Rightarrow> rioBufferWrite g ptr pos bs | FileIO f \<Rightarrow> Some (rioFileWrite f bs))"

definition io_read :: "rio \<Rightarrow> nat \<Rightarrow> (rio \<times> bytes option) option" where
  "io_read r len =
     map_option (\<lambda>(io, bs). (r\<lparr>rio_io := io\<rparr>, bs))
       (case rio_io r of BufferIO ptr pos \<Rightarrow> rioBufferRead ptr pos len | FileIO f \<Rightarrow> Some (rioFileRead f len))"

definition chunk :: "rio \<Rightarrow> nat \<Rightarrow> nat" where
  "chunk r len = (if rio_max_chunk r \<noteq> 0 \<and> rio_max_chunk r < len then rio_max_chunk r else len)"

lemma chunk_pos: "0 < len \<Longrightarrow> 0 < chunk r len"
  by (simp add: chunk_def)

lemma chunk_le: "chunk r len \<le> len"
  by (simp add: chunk_def)

function rioWrite :: "byte \<Rightarrow> rio \<Rightarrow> bytes \<Rightarrow> (rio \<times> bool) option" where
  "rioWrite g r bs =
     (if bs = [] then Some (r, True)
      else
        let n = chunk r (length bs) in do {
          (r, ok) \<leftarrow> io_write g (update_cksum r (take n bs)) (take n bs);
          if \<not> ok then Some (r, False)
          else rioWrite g (r\<lparr>rio_processed_bytes := rio_processed_bytes r + n\<rparr>) (drop n bs)
        })"
  by pat_completeness auto
termination
  by (relation "measure (\<lambda>(g, r, bs). length bs)") (auto simp: chunk_pos)

function rioRead :: "rio \<Rightarrow> nat \<Rightarrow> (rio \<times> bytes option) option" where
  "rioRead r len =
     (if len = 0 then Some (r, Some [])
      else
        let n = chunk r len in do {
          (r, res) \<leftarrow> io_read r n;
          case res of
            None \<Rightarrow> Some (r, None)
          | Some bs \<Rightarrow> do {
              let r = update_cksum r bs;
              (r, rest) \<leftarrow> rioRead (r\<lparr>rio_processed_bytes := rio_processed_bytes r + n\<rparr>) (len - n);
              Some (r, map_option (\<lambda>rest. bs @ rest) rest)
            }
        })"
  by pat_completeness auto
termination
  by (relation "measure (\<lambda>(r, len). len)") (auto simp: chunk_pos)

declare rioWrite.simps [simp del] rioRead.simps [simp del]

text \<open>The protocol items of the append only file; the result is the number of bytes, 0 for a failed write.\<close>

definition rioWriteBulkCount :: "byte \<Rightarrow> rio \<Rightarrow> byte \<Rightarrow> int \<Rightarrow> (rio \<times> nat) option" where
  "rioWriteBulkCount g r prefix count = do {
     (n, digits) \<leftarrow> ll2string (replicate 127 g) 127 count;
     let cbuf = prefix # digits;
     let clen = 1 + n;
     cbuf \<leftarrow> put cbuf (int clen) 13;
     cbuf \<leftarrow> put cbuf (int (clen + 1)) 10;
     let clen = clen + 2;
     bs \<leftarrow> rd cbuf 0 clen;
     (r, ok) \<leftarrow> rioWrite g r bs;
     Some (r, if ok then clen else 0)
   }"

definition rioWriteBulkString :: "byte \<Rightarrow> rio \<Rightarrow> bytes \<Rightarrow> (rio \<times> nat) option" where
  "rioWriteBulkString g r buf = do {
     (r, nwritten) \<leftarrow> rioWriteBulkCount g r 36 (int32 (int (length buf)));
     if nwritten = 0 then Some (r, 0)
     else do {
       (r, ok) \<leftarrow> (if length buf > 0 then rioWrite g r buf else Some (r, True));
       if \<not> ok then Some (r, 0)
       else do {
         (r, ok) \<leftarrow> rioWrite g r [13, 10];
         Some (r, if ok then nwritten + length buf + 2 else 0)
       }
     }
   }"

definition rioWriteBulkLongLong :: "byte \<Rightarrow> rio \<Rightarrow> int \<Rightarrow> (rio \<times> nat) option" where
  "rioWriteBulkLongLong g r l = do {
     (llen, lbuf) \<leftarrow> ll2string (replicate 32 g) 32 l;
     bs \<leftarrow> rd lbuf 0 llen;
     rioWriteBulkString g r bs
   }"

section \<open>Writing\<close>

text \<open>The bytes a stream has written, and a stream that is ready for the next write.\<close>

definition written :: "rio \<Rightarrow> bytes" where
  "written r = (case rio_io r of BufferIO ptr pos \<Rightarrow> sds_val ptr | FileIO f \<Rightarrow> f_data f)"

definition at_end :: "rio \<Rightarrow> bool" where
  "at_end r = (case rio_io r of BufferIO ptr pos \<Rightarrow> sds_ok ptr | FileIO f \<Rightarrow> f_pos f = length (f_data f))"

definition has_room :: "rio \<Rightarrow> nat \<Rightarrow> bool" where
  "has_room r n = (case rio_io r of BufferIO ptr pos \<Rightarrow> room ptr n | FileIO f \<Rightarrow> n \<le> f_space f)"

definition disk_full :: "rio \<Rightarrow> nat \<Rightarrow> bool" where
  "disk_full r n = (case rio_io r of BufferIO ptr pos \<Rightarrow> False | FileIO f \<Rightarrow> f_space f < n)"

text \<open>The sum that a stream has after \<open>bs\<close> passed through it.\<close>

definition summed :: "rio \<Rightarrow> bytes \<Rightarrow> 64 word" where
  "summed r bs = (if rio_update_cksum r then crc64 (rio_cksum r) bs else rio_cksum r)"

fun on_buffer :: "rio_io \<Rightarrow> bool" where
  "on_buffer (BufferIO ptr pos) = True"
| "on_buffer (FileIO f) = False"

definition same_setup :: "rio \<Rightarrow> rio \<Rightarrow> bool" where
  "same_setup r r' \<longleftrightarrow> on_buffer (rio_io r') = on_buffer (rio_io r) \<and> rio_update_cksum r' = rio_update_cksum r \<and> rio_max_chunk r' = rio_max_chunk r"

definition wrote :: "rio \<Rightarrow> bytes \<Rightarrow> rio \<Rightarrow> bool" where
  "wrote r bs r' \<longleftrightarrow> written r' = written r @ bs \<and> at_end r' \<and> rio_cksum r' = summed r bs \<and> same_setup r r' \<and>
     rio_processed_bytes r' = rio_processed_bytes r + length bs \<and>
     (\<forall>n. has_room r (length bs + n) \<longrightarrow> has_room r' n) \<and> (\<forall>n. disk_full r (length bs + n) \<longrightarrow> disk_full r' n)"

lemma wrote_Nil [simp]: "at_end r \<Longrightarrow> wrote r [] r"
  by (simp add: wrote_def summed_def same_setup_def)

lemma wrote_trans: "wrote r bs r' \<Longrightarrow> wrote r' cs r'' \<Longrightarrow> wrote r (bs @ cs) r''"
  unfolding wrote_def summed_def same_setup_def by (auto simp: crc64_append add.assoc)

lemma has_room_le: "has_room r n \<Longrightarrow> m \<le> n \<Longrightarrow> has_room r m"
  by (auto simp: has_room_def split: rio_io.splits)

lemma summed_update [simp]: "rio_cksum (update_cksum r bs) = summed r bs"
  by (simp add: update_cksum_def summed_def rioGenericUpdateChecksum_def)

lemma update_cksum_keeps [simp]: "rio_io (update_cksum r bs) = rio_io r" "rio_update_cksum (update_cksum r bs) = rio_update_cksum r"
  "rio_max_chunk (update_cksum r bs) = rio_max_chunk r" "rio_processed_bytes (update_cksum r bs) = rio_processed_bytes r"
  by (simp_all add: update_cksum_def rioGenericUpdateChecksum_def)

definition left :: "rio \<Rightarrow> bytes" where
  "left r = (case rio_io r of BufferIO ptr pos \<Rightarrow> drop pos (sds_val ptr) | FileIO f \<Rightarrow> drop (f_pos f) (f_data f))"

definition readable :: "rio \<Rightarrow> bool" where
  "readable r = (case rio_io r of
     BufferIO ptr pos \<Rightarrow> sds_ok ptr \<and> pos \<le> sds_len ptr | FileIO f \<Rightarrow> f_pos f \<le> length (f_data f))"

definition took :: "rio \<Rightarrow> bytes \<Rightarrow> rio \<Rightarrow> bool" where
  "took r bs r' \<longleftrightarrow> left r = bs @ left r' \<and> readable r' \<and> rio_cksum r' = summed r bs \<and> same_setup r r' \<and>
     rio_processed_bytes r' = rio_processed_bytes r + length bs"

text \<open>
  The contract of a backend, the functions behind the pointers of a stream: what a write of a block
  that fits does, that a write to a full device fails, and what a read of bytes that are there does.
\<close>

locale rio_backend =
  fixes mk :: "'x \<Rightarrow> rio_io"
    and put_op :: "'x \<Rightarrow> bytes \<Rightarrow> (rio_io \<times> bool) option"
    and get_op :: "'x \<Rightarrow> nat \<Rightarrow> (rio_io \<times> bytes option) option"
    and g :: byte
  assumes dispatch: "rio_io r = mk x \<Longrightarrow> io_write g r bs = map_option (\<lambda>(io, ok). (r\<lparr>rio_io := io\<rparr>, ok)) (put_op x bs)"
      "rio_io r = mk x \<Longrightarrow> io_read r n = map_option (\<lambda>(io, bs). (r\<lparr>rio_io := io\<rparr>, bs)) (get_op x n)"
    and same_kind: "on_buffer (mk x) = on_buffer (mk y)"
    and put_has_room: "rio_io r = mk x \<Longrightarrow> at_end r \<Longrightarrow> has_room r (length bs) \<Longrightarrow>
      \<exists>y. put_op x bs = Some (mk y, True) \<and> (\<forall>r'. rio_io r' = mk y \<longrightarrow>
        written r' = written r @ bs \<and> at_end r' \<and> (\<forall>n. has_room r (length bs + n) \<longrightarrow> has_room r' n) \<and>
        (\<forall>n. disk_full r (length bs + n) \<longrightarrow> disk_full r' n))"
    and put_full: "rio_io r = mk x \<Longrightarrow> disk_full r (length bs) \<Longrightarrow> \<exists>y. put_op x bs = Some (mk y, False)"
    and get_there: "rio_io r = mk x \<Longrightarrow> readable r \<Longrightarrow> left r = bs @ rest \<Longrightarrow>
      \<exists>y. get_op x (length bs) = Some (mk y, Some bs) \<and> (\<forall>r'. rio_io r' = mk y \<longrightarrow> readable r' \<and> left r' = rest)"
begin

lemma write_step:
  assumes r: "rio_io r = mk x" "at_end r" "has_room r (length bs)"
  shows "\<exists>r'. io_write g (update_cksum r bs) bs = Some (r', True) \<and>
    wrote r bs (r'\<lparr>rio_processed_bytes := rio_processed_bytes r' + length bs\<rparr>)"
proof -
  obtain y where y: "put_op x bs = Some (mk y, True)"
    "\<And>r'. rio_io r' = mk y \<Longrightarrow> written r' = written r @ bs \<and> at_end r' \<and> (\<forall>n. has_room r (length bs + n) \<longrightarrow> has_room r' n) \<and>
        (\<forall>n. disk_full r (length bs + n) \<longrightarrow> disk_full r' n)" using put_has_room [OF r] by blast
  let ?r = "(update_cksum r bs)\<lparr>rio_io := mk y\<rparr>"
  have "io_write g (update_cksum r bs) bs = Some (?r, True)" using dispatch(1) [of "update_cksum r bs" x bs] r(1) y(1) by simp
  moreover have "wrote r bs (?r\<lparr>rio_processed_bytes := rio_processed_bytes ?r + length bs\<rparr>)"
    using y(2) [of "?r\<lparr>rio_processed_bytes := rio_processed_bytes ?r + length bs\<rparr>"] r(1) same_kind [of x y]
    by (simp add: wrote_def same_setup_def)
  ultimately show ?thesis by blast
qed

lemma write_fails: "rio_io r = mk x \<Longrightarrow> disk_full r (length bs) \<Longrightarrow> \<exists>r'. io_write g (update_cksum r bs) bs = Some (r', False)"
  using put_full [of r x bs] dispatch(1) [of "update_cksum r bs" x bs] by auto

lemma read_step:
  assumes r: "rio_io r = mk x" "readable r" "left r = bs @ rest"
  shows "\<exists>r'. io_read r (length bs) = Some (r', Some bs) \<and>
    took r bs ((update_cksum r' bs)\<lparr>rio_processed_bytes := rio_processed_bytes r' + length bs\<rparr>)"
proof -
  obtain y where y: "get_op x (length bs) = Some (mk y, Some bs)" "\<And>r'. rio_io r' = mk y \<Longrightarrow> readable r' \<and> left r' = rest"
    using get_there [OF r] by blast
  let ?r = "r\<lparr>rio_io := mk y\<rparr>"
  have "io_read r (length bs) = Some (?r, Some bs)" using dispatch(2) [OF r(1)] y(1) by simp
  moreover have "took r bs ((update_cksum ?r bs)\<lparr>rio_processed_bytes := rio_processed_bytes ?r + length bs\<rparr>)"
    using y(2) [of "(update_cksum ?r bs)\<lparr>rio_processed_bytes := rio_processed_bytes ?r + length bs\<rparr>"] r(1,3) same_kind [of x y]
    by (simp add: took_def same_setup_def summed_def update_cksum_def rioGenericUpdateChecksum_def)
  ultimately show ?thesis by blast
qed

end

section \<open>The two backends\<close>

lemma buffer_read:
  assumes ok: "sds_ok ptr" "pos \<le> sds_len ptr" "drop pos (sds_val ptr) = bs @ rest"
  shows "rioBufferRead ptr pos (length bs) = Some (BufferIO ptr (pos + length bs), Some bs)"
    "pos + length bs \<le> sds_len ptr" "drop (pos + length bs) (sds_val ptr) = rest"
proof -
  have len: "length (sds_val ptr) = sds_len ptr" using ok(1) by (simp add: len_val)
  show n: "pos + length bs \<le> sds_len ptr" using ok(2) arg_cong [OF ok(3), of length] len by simp
  have "sds_len ptr < 2 ^ 64" using ok(1) by (simp add: sds_ok_def)
  then have m: "nat ((int (sds_len ptr) - int pos) mod 2 ^ 64) = sds_len ptr - pos"
    using ok(2) by (simp add: mod_pos_pos_trivial nat_diff_distrib flip: of_nat_diff)
  have "take (length bs) (drop pos (sds_buf ptr)) = take (length bs) (drop pos (sds_val ptr))"
    using n by (simp add: sds_val_def drop_take)
  also have "\<dots> = bs" using ok(3) by simp
  finally have "rd (sds_buf ptr) pos (length bs) = Some bs" using n ok(1) by (simp add: rd_def sds_ok_def)
  then show "rioBufferRead ptr pos (length bs) = Some (BufferIO ptr (pos + length bs), Some bs)"
    using m n by (simp add: rioBufferRead_def)
  show "drop (pos + length bs) (sds_val ptr) = rest"
    using ok(3) by (metis append_eq_conv_conj drop_drop add.commute)
qed

interpretation buffer_io: rio_backend "\<lambda>(ptr, pos). BufferIO ptr pos" "\<lambda>(ptr, pos). rioBufferWrite g ptr pos"
  "\<lambda>(ptr, pos). rioBufferRead ptr pos" g for g
proof (unfold_locales, goal_cases)
  case (4 r x bs)
  obtain ptr pos where x: "x = (ptr, pos)" by (cases x)
  have ok: "sds_ok ptr" "room ptr (length bs)" using 4 by (simp_all add: x at_end_def has_room_def)
  from sdscatlen_yields [OF ok(1) _ ok(2), of bs g] obtain ptr' where
    p: "sdscatlen g ptr bs (length bs) = Some ptr'" "sds_ok ptr'" "sds_val ptr' = sds_val ptr @ bs"
    by (auto simp: yields_def)
  have "sds_len ptr' = sds_len ptr + length bs" using p(2,3) ok(1) by (metis len_val length_append)
  then show ?case using p 4(1)
    by (intro exI [of _ "(ptr', pos + length bs)"])
      (auto simp: x rioBufferWrite_def written_def at_end_def has_room_def disk_full_def)
next
  case (6 r x bs rest)
  obtain ptr pos where x: "x = (ptr, pos)" by (cases x)
  then have "sds_ok ptr" "pos \<le> sds_len ptr" "drop pos (sds_val ptr) = bs @ rest" using 6 by (simp_all add: readable_def left_def)
  from buffer_read [OF this] this(1) show ?case
    by (intro exI [of _ "(ptr, pos + length bs)"]) (auto simp: x readable_def left_def)
qed (auto simp: io_write_def io_read_def disk_full_def split: prod.splits)

interpretation file_io: rio_backend FileIO "\<lambda>f bs. Some (rioFileWrite f bs)" "\<lambda>f n. Some (rioFileRead f n)" g for g
proof (unfold_locales, goal_cases)
  case (4 r f bs)
  then show ?case by (auto simp: rioFileWrite_def Let_def written_def at_end_def has_room_def disk_full_def)
next
  case (5 r f bs)
  then show ?case by (auto simp: rioFileWrite_def Let_def disk_full_def)
next
  case (6 r f bs rest)
  then have ok: "f_pos f \<le> length (f_data f)" "drop (f_pos f) (f_data f) = bs @ rest" by (simp_all add: readable_def left_def)
  have n: "f_pos f + length bs \<le> length (f_data f)" using ok(1) arg_cong [OF ok(2), of length] by simp
  have "drop (f_pos f + length bs) (f_data f) = rest"
    using ok(2) by (metis append_eq_conv_conj drop_drop add.commute)
  then show ?case using n ok by (simp add: rioFileRead_def readable_def left_def)
qed (simp_all add: io_write_def io_read_def)

lemma io_write_ok:
  assumes "at_end r" "has_room r (length bs)"
  shows "\<exists>r'. io_write g (update_cksum r bs) bs = Some (r', True) \<and>
    wrote r bs (r'\<lparr>rio_processed_bytes := rio_processed_bytes r' + length bs\<rparr>)"
  using buffer_io.write_step [of r _ bs g] file_io.write_step [of r _ bs g] assms by (cases "rio_io r") auto

lemma io_write_full: "disk_full r (length bs) \<Longrightarrow> \<exists>r'. io_write g (update_cksum r bs) bs = Some (r', False)"
  using buffer_io.write_fails [of r _ bs g] file_io.write_fails [of r _ bs g] by (cases "rio_io r") auto

lemma io_read_ok:
  assumes "readable r" "left r = bs @ rest"
  shows "\<exists>r'. io_read r (length bs) = Some (r', Some bs) \<and>
    took r bs ((update_cksum r' bs)\<lparr>rio_processed_bytes := rio_processed_bytes r' + length bs\<rparr>)"
  using buffer_io.read_step [of r _ bs rest] file_io.read_step [of r _ bs rest] assms by (cases "rio_io r") auto

lemma write_chunk:
  assumes "at_end r" "has_room r (length (take n bs))" "n \<le> length bs"
  shows "\<exists>r1. io_write g (update_cksum r (take n bs)) (take n bs) = Some (r1, True) \<and>
    wrote r (take n bs) (r1\<lparr>rio_processed_bytes := rio_processed_bytes r1 + n\<rparr>)"
proof -
  have "length (take n bs) = n" using assms(3) by simp
  with io_write_ok [OF assms(1,2), of g] show ?thesis by simp
qed

lemma rioWrite_ok:
  "at_end r \<Longrightarrow> has_room r (length bs) \<Longrightarrow> \<exists>r'. rioWrite g r bs = Some (r', True) \<and> wrote r bs r'"
proof (induction "length bs" arbitrary: r bs rule: less_induct)
  case less
  show ?case
  proof (cases "bs = []")
    case True
    then show ?thesis using less.prems by (simp add: rioWrite.simps)
  next
    case False
    let ?n = "chunk r (length bs)"
    have n: "0 < ?n" "?n \<le> length bs" using False chunk_pos chunk_le by auto
    have "has_room r (length (take ?n bs))" using less.prems(2) n by (auto elim: has_room_le)
    from write_chunk [OF less.prems(1) this n(2), of g] obtain r1 where
      r1: "io_write g (update_cksum r (take ?n bs)) (take ?n bs) = Some (r1, True)"
      and w: "wrote r (take ?n bs) (r1\<lparr>rio_processed_bytes := rio_processed_bytes r1 + ?n\<rparr>)" by blast
    let ?r1 = "r1\<lparr>rio_processed_bytes := rio_processed_bytes r1 + ?n\<rparr>"
    have "at_end ?r1" "has_room ?r1 (length (drop ?n bs))" "length (drop ?n bs) < length bs"
      using w less.prems(2) n by (auto simp: wrote_def)
    from less.hyps [OF this(3,1,2)] obtain r' where r': "rioWrite g ?r1 (drop ?n bs) = Some (r', True)"
      "wrote ?r1 (drop ?n bs) r'" by blast
    have "rioWrite g r bs = Some (r', True)"
      using False r1 r'(1) by (subst rioWrite.simps) (simp add: Let_def)
    then show ?thesis using wrote_trans [OF w r'(2)] by simp
  qed
qed

lemma rioWrite_full:
  "at_end r \<Longrightarrow> disk_full r (length bs) \<Longrightarrow> \<exists>r'. rioWrite g r bs = Some (r', False)"
proof (induction "length bs" arbitrary: r bs rule: less_induct)
  case less
  let ?n = "chunk r (length bs)"
  have ne: "bs \<noteq> []" using less.prems(2) by (auto simp: disk_full_def split: rio_io.splits)
  have n: "0 < ?n" "?n \<le> length bs" using ne chunk_pos chunk_le by auto
  show ?case
  proof (cases "disk_full r (length (take ?n bs))")
    case True
    from io_write_full [OF this, of g] ne show ?thesis by (subst rioWrite.simps) (auto simp: Let_def)
  next
    case False
    then have "has_room r (length (take ?n bs))"
      using less.prems(2) by (auto simp: has_room_def disk_full_def split: rio_io.splits)
    from write_chunk [OF less.prems(1) this n(2), of g] obtain r1 where
      r1: "io_write g (update_cksum r (take ?n bs)) (take ?n bs) = Some (r1, True)"
      and w: "wrote r (take ?n bs) (r1\<lparr>rio_processed_bytes := rio_processed_bytes r1 + ?n\<rparr>)" by blast
    let ?r1 = "r1\<lparr>rio_processed_bytes := rio_processed_bytes r1 + ?n\<rparr>"
    have "at_end ?r1" "disk_full ?r1 (length (drop ?n bs))" "length (drop ?n bs) < length bs"
      using w less.prems(2) n by (auto simp: wrote_def)
    from less.hyps [OF this(3,1,2)] show ?thesis
      using ne r1 by (subst rioWrite.simps) (auto simp: Let_def)
  qed
qed

text \<open>The protocol items as bytes.\<close>

lemma rioWriteBulkCount_ok:
  assumes c: "int64_range c" and r: "at_end r" "has_room r (length (decimal c) + 3)"
  shows "\<exists>r'. rioWriteBulkCount g r p c = Some (r', length (decimal c) + 3) \<and> wrote r (p # decimal c @ [13, 10]) r'"
proof -
  let ?d = "decimal c" and ?rest = "drop (Suc (length (decimal c))) (replicate 127 g)"
  have len: "length ?d < 32" using decimal_len [OF c] .
  have ll: "ll2string (replicate 127 g) 127 c = Some (length ?d, ?d @ [0] @ ?rest)"
    using ll2string_spec [OF c, of 127 "replicate 127 g"] len by simp
  obtain x rest where rest: "?rest = x # rest" using len by (cases ?rest) auto
  have p1: "put (p # ?d @ [0] @ ?rest) (int (1 + length ?d)) 13 = Some (p # ?d @ [13] @ ?rest)"
    using put_at [of "p # ?d" 0 ?rest 13] by simp
  have p2: "put (p # ?d @ [13] @ ?rest) (int (1 + length ?d + 1)) 10 = Some (p # ?d @ [13, 10] @ rest)"
    using put_at [of "p # ?d @ [13]" x rest 10] rest by simp
  have bs: "rd (p # ?d @ [13, 10] @ rest) 0 (1 + length ?d + 2) = Some (p # ?d @ [13, 10])" by (simp add: rd_def)
  have "has_room r (length (p # ?d @ [13, 10]))" using r(2) by (simp add: numeral_3_eq_3)
  from rioWrite_ok [OF r(1) this, of g] obtain r' where
    "rioWrite g r (p # ?d @ [13, 10]) = Some (r', True)" "wrote r (p # ?d @ [13, 10]) r'" by blast
  then show ?thesis using ll p1 p2 bs by (simp add: rioWriteBulkCount_def Let_def)
qed

lemma rioWriteBulkString_ok:
  assumes s: "length s < 2147483648" and r: "at_end r" "has_room r (length (decimal (int (length s))) + length s + 5)"
  shows "\<exists>r'. rioWriteBulkString g r s = Some (r', length (decimal (int (length s))) + length s + 5) \<and>
    wrote r (36 # decimal (int (length s)) @ [13, 10] @ s @ [13, 10]) r'"
proof -
  let ?d = "decimal (int (length s))"
  have i32: "int32 (int (length s)) = int (length s)" using s by (simp add: int32_def Let_def)
  have "has_room r (length ?d + 3)" by (rule has_room_le [OF r(2)]) simp
  from rioWriteBulkCount_ok [OF _ r(1) this, of g 36] s obtain r1 where
    r1: "rioWriteBulkCount g r 36 (int (length s)) = Some (r1, length ?d + 3)" "wrote r (36 # ?d @ [13, 10]) r1" by auto
  have n1: "length (36 # ?d @ [13, 10]) + (length s + 2) = length ?d + length s + 5" by simp
  have f1: "at_end r1" "has_room r1 (length s + 2)" using r1(2) r(2) unfolding wrote_def by (auto simp flip: n1)
  have "has_room r1 (length s)" by (rule has_room_le [OF f1(2)]) simp
  from rioWrite_ok [OF f1(1) this, of g] obtain r2 where r2: "rioWrite g r1 s = Some (r2, True)" "wrote r1 s r2" by blast
  have f2: "at_end r2" "has_room r2 (length [13::byte, 10])" using r2(2) f1(2) unfolding wrote_def by auto
  from rioWrite_ok [OF f2, of g] obtain r3 where r3: "rioWrite g r2 [13, 10] = Some (r3, True)" "wrote r2 [13, 10] r3" by blast
  have s0: "s = [] \<Longrightarrow> r2 = r1" using r2(1) by (simp add: rioWrite.simps)
  have "rioWriteBulkString g r s = Some (r3, length ?d + length s + 5)"
    using r1(1) r2(1) r3(1) s0 by (auto simp: rioWriteBulkString_def i32)
  moreover have "wrote r (36 # ?d @ [13, 10] @ s @ [13, 10]) r3"
    using wrote_trans [OF r1(2) wrote_trans [OF r2(2) r3(2)]] by simp
  ultimately show ?thesis by blast
qed

section \<open>Reading\<close>

lemma took_Nil [simp]: "readable r \<Longrightarrow> took r [] r"
  by (simp add: took_def summed_def same_setup_def)

lemma took_trans: "took r bs r' \<Longrightarrow> took r' cs r'' \<Longrightarrow> took r (bs @ cs) r''"
  unfolding took_def summed_def same_setup_def by (auto simp: crc64_append)

lemma rioRead_ok:
  "readable r \<Longrightarrow> left r = bs @ rest \<Longrightarrow> \<exists>r'. rioRead r (length bs) = Some (r', Some bs) \<and> took r bs r'"
proof (induction "length bs" arbitrary: r bs rule: less_induct)
  case less
  show ?case
  proof (cases "bs = []")
    case True
    then show ?thesis using less.prems by (simp add: rioRead.simps)
  next
    case False
    let ?n = "chunk r (length bs)"
    have n: "0 < ?n" "?n \<le> length bs" using False chunk_pos chunk_le by auto
    have l: "length (take ?n bs) = ?n" using n by simp
    have "left r = take ?n bs @ (drop ?n bs @ rest)" using less.prems(2) by simp
    from io_read_ok [OF less.prems(1) this] obtain r1 where
      r1: "io_read r ?n = Some (r1, Some (take ?n bs))"
        "took r (take ?n bs) ((update_cksum r1 (take ?n bs))\<lparr>rio_processed_bytes := rio_processed_bytes r1 + ?n\<rparr>)"
      unfolding l by blast
    let ?r1 = "(update_cksum r1 (take ?n bs))\<lparr>rio_processed_bytes := rio_processed_bytes r1 + ?n\<rparr>"
    have "readable ?r1" "left ?r1 = drop ?n bs @ rest" "length (drop ?n bs) < length bs"
      using r1(2) less.prems(2) n by (auto simp: took_def) (metis append_take_drop_id append_assoc same_append_eq)
    from less.hyps [OF this(3,1,2)] obtain r' where r': "rioRead ?r1 (length bs - ?n) = Some (r', Some (drop ?n bs))"
      "took ?r1 (drop ?n bs) r'" by auto
    have "rioRead r (length bs) = Some (r', Some bs)"
      using False r1(1) r'(1) by (subst rioRead.simps) (simp add: Let_def)
    then show ?thesis using took_trans [OF r1(2) r'(2)] by simp
  qed
qed

end
