(* ===== verification/Rdb.thy ===== *)
theory Rdb
  imports Rio Object Lzf_Compress "HOL-Library.Monad_Syntax"
begin

text \<open>
  \<^verbatim>\<open>redis-2.8/src/rdb.c\<close>, lengths, integers and strings: how they are written to and read from a
  dump.

  A function that saves takes the stream, or \<open>None\<close> for the null pointer with which the size of an
  object is measured, and returns the stream and the number of bytes, -1 for a failed write. A
  function that loads returns the stream and its value. \<open>None\<close> as the whole result is a failed
  assertion, a panic or an access outside a buffer. What the code finds in memory it did not
  initialise, and the addresses of its strings, are in \<open>rdb_env\<close>.

  The lemmas give every save function the bytes it emits and every load function the bytes it
  takes, so that the round trips compose.
\<close>

section \<open>Raw data\<close>

record rdb_env =
  env_g :: byte
  env_htab :: "bytes \<Rightarrow> nat \<Rightarrow> 64 word"
  env_addr :: "bytes \<Rightarrow> 64 word"
  env_compression :: bool

type_synonym save = "rio option \<Rightarrow> (rio option \<times> int) option"

abbreviation REDIS_RDB_LENERR :: "32 word" where "REDIS_RDB_LENERR \<equiv> 0xFFFFFFFF"
abbreviation (input) REDIS_RDB_ENC_INT8 :: nat where "REDIS_RDB_ENC_INT8 \<equiv> 0"
abbreviation (input) REDIS_RDB_ENC_INT16 :: nat where "REDIS_RDB_ENC_INT16 \<equiv> 1"
abbreviation (input) REDIS_RDB_ENC_INT32 :: nat where "REDIS_RDB_ENC_INT32 \<equiv> 2"
abbreviation (input) REDIS_RDB_ENC_LZF :: nat where "REDIS_RDB_ENC_LZF \<equiv> 3"

definition rdbWriteRaw :: "rdb_env \<Rightarrow> bytes \<Rightarrow> save" where
  "rdbWriteRaw e p rdb =
     (case rdb of
        None \<Rightarrow> Some (None, int32 (int (length p)))
      | Some r \<Rightarrow> do {
          (r, ok) \<leftarrow> rioWrite (env_g e) r p;
          Some (Some r, if ok then int32 (int (length p)) else - 1)
        })"

text \<open>The pattern \<open>if ((n = f(rdb)) == -1) return -1; nwritten += n;\<close>.\<close>

definition and_then :: "save \<Rightarrow> save \<Rightarrow> save" where
  "and_then f h rdb = do {
     (rdb, n) \<leftarrow> f rdb;
     if n = - 1 then Some (rdb, - 1)
     else do {
       (rdb, m) \<leftarrow> h rdb;
       if m = - 1 then Some (rdb, - 1) else Some (rdb, n + m)
     }
   }"

definition rdbSaveType :: "rdb_env \<Rightarrow> byte \<Rightarrow> save" where
  "rdbSaveType e type = rdbWriteRaw e [type]"

definition rdbLoadType :: "rio \<Rightarrow> (rio \<times> int) option" where
  "rdbLoadType rdb = do {
     (rdb, buf) \<leftarrow> rioRead rdb 1;
     Some (rdb, case buf of None \<Rightarrow> - 1 | Some buf \<Rightarrow> uint (hd buf))
   }"

definition rdbLoadTime :: "rio \<Rightarrow> (rio \<times> int) option" where
  "rdbLoadTime rdb = do {
     (rdb, buf) \<leftarrow> rioRead rdb 4;
     Some (rdb, case buf of None \<Rightarrow> - 1 | Some buf \<Rightarrow> le_sint buf)
   }"

definition rdbSaveMillisecondTime :: "rdb_env \<Rightarrow> int \<Rightarrow> save" where
  "rdbSaveMillisecondTime e t = rdbWriteRaw e (le_bytes 8 t)"

definition rdbLoadMillisecondTime :: "rio \<Rightarrow> (rio \<times> int) option" where
  "rdbLoadMillisecondTime rdb = do {
     (rdb, buf) \<leftarrow> rioRead rdb 8;
     Some (rdb, case buf of None \<Rightarrow> - 1 | Some buf \<Rightarrow> le_sint buf)
   }"

section \<open>Lengths\<close>

text \<open>\<open>htonl\<close> and \<open>ntohl\<close> on a little-endian machine: the bytes in memory, most significant first.\<close>

definition htonl :: "32 word \<Rightarrow> bytes" where
  "htonl len = rev (le_bytes 4 (uint len))"

definition ntohl :: "bytes \<Rightarrow> 32 word" where
  "ntohl buf = word_of_int (le_uint (rev buf))"

definition rdbSaveLen :: "rdb_env \<Rightarrow> 32 word \<Rightarrow> save" where
  "rdbSaveLen e len =
     (if len < 64 then rdbWriteRaw e [ucast (len AND 0xFF) OR push_bit 6 0]
      else if len < 16384
      then rdbWriteRaw e [ucast (drop_bit 8 len AND 0xFF) OR push_bit 6 1, ucast (len AND 0xFF)]
      else and_then (rdbWriteRaw e [push_bit 6 2]) (rdbWriteRaw e (htonl len)))"

text \<open>The length and the flag that the caller may ask for with \<open>isencoded\<close>.\<close>

definition rdbLoadLen :: "rio \<Rightarrow> (rio \<times> 32 word \<times> bool) option" where
  "rdbLoadLen rdb = do {
     (rdb, buf) \<leftarrow> rioRead rdb 1;
     case buf of
       None \<Rightarrow> Some (rdb, REDIS_RDB_LENERR, False)
     | Some buf \<Rightarrow>
         let b0 = hd buf; type = drop_bit 6 (b0 AND 0xC0) in
         if type = 3 then Some (rdb, ucast (b0 AND 0x3F), True)
         else if type = 0 then Some (rdb, ucast (b0 AND 0x3F), False)
         else if type = 1 then do {
           (rdb, buf) \<leftarrow> rioRead rdb 1;
           case buf of
             None \<Rightarrow> Some (rdb, REDIS_RDB_LENERR, False)
           | Some buf \<Rightarrow> Some (rdb, push_bit 8 (ucast (b0 AND 0x3F)) OR ucast (hd buf), False)
         } else do {
           (rdb, buf) \<leftarrow> rioRead rdb 4;
           case buf of None \<Rightarrow> Some (rdb, REDIS_RDB_LENERR, False) | Some buf \<Rightarrow> Some (rdb, ntohl buf, False)
         }
   }"

section \<open>Integers\<close>

text \<open>The encoding, empty where the function returns 0; \<open>>>\<close> on a negative number is arithmetic.\<close>

definition rdbEncodeInteger :: "int \<Rightarrow> bytes" where
  "rdbEncodeInteger v =
     (if - 128 \<le> v \<and> v \<le> 127 then [0xC0, word_of_int v]
      else if - 32768 \<le> v \<and> v \<le> 32767 then [0xC1, word_of_int v, word_of_int (v div 256)]
      else if - 2147483648 \<le> v \<and> v \<le> 2147483647
      then [0xC2, word_of_int v, word_of_int (v div 256), word_of_int (v div 65536), word_of_int (v div 16777216)]
      else [])"

definition integer_width :: "nat \<Rightarrow> nat option" where
  "integer_width enctype =
     (if enctype = REDIS_RDB_ENC_INT8 then Some 1 else if enctype = REDIS_RDB_ENC_INT16 then Some 2
      else if enctype = REDIS_RDB_ENC_INT32 then Some 4 else None)"

definition rdbLoadIntegerObject :: "rdb_env \<Rightarrow> rio \<Rightarrow> nat \<Rightarrow> bool \<Rightarrow> (rio \<times> strobj option) option" where
  "rdbLoadIntegerObject e rdb enctype encode = do {
     n \<leftarrow> integer_width enctype;
     (rdb, enc) \<leftarrow> rioRead rdb n;
     case enc of
       None \<Rightarrow> Some (rdb, None)
     | Some enc \<Rightarrow>
         let val = le_sint enc in
         if encode then Some (rdb, Some (createStringObjectFromLongLong val))
         else do { s \<leftarrow> sdsfromlonglong (env_g e) val; Some (rdb, Some (ENC_RAW (sds_val s))) }
   }"

definition rdbTryIntegerEncoding :: "bytes \<Rightarrow> bytes option" where
  "rdbTryIntegerEncoding s =
     (let (value, rest, _) = strtoll (c_str s) in
      if rest \<noteq> [] then Some []
      else do {
        (_, buf) \<leftarrow> ll2string (replicate 32 0) 32 value;
        Some (if length (c_str buf) \<noteq> length s \<or> c_str buf \<noteq> s then [] else rdbEncodeInteger value)
      })"

section \<open>Strings\<close>

text \<open>0 for a string that does not get shorter.\<close>

definition rdbSaveLzfStringObject :: "rdb_env \<Rightarrow> bytes \<Rightarrow> save" where
  "rdbSaveLzfStringObject e s rdb =
     (if length s \<le> 4 then Some (rdb, 0)
      else do {
        let outlen = length s - 4;
        (comprlen, out) \<leftarrow> lzf_compress (env_htab e s) (env_addr e s) s (replicate (outlen + 1) (env_g e)) outlen;
        if comprlen = 0 then Some (rdb, 0)
        else do {
          out \<leftarrow> rd out 0 comprlen;
          and_then (rdbWriteRaw e [0xC3])
            (and_then (rdbSaveLen e (of_nat comprlen))
              (and_then (rdbSaveLen e (of_nat (length s))) (rdbWriteRaw e out))) rdb
        }
      })"

definition rdbLoadLzfStringObject :: "rdb_env \<Rightarrow> rio \<Rightarrow> (rio \<times> strobj option) option" where
  "rdbLoadLzfStringObject e rdb = do {
     (rdb, clen, _) \<leftarrow> rdbLoadLen rdb;
     if clen = REDIS_RDB_LENERR then Some (rdb, None)
     else do {
       (rdb, len, _) \<leftarrow> rdbLoadLen rdb;
       if len = REDIS_RDB_LENERR then Some (rdb, None)
       else do {
         (rdb, c) \<leftarrow> rioRead rdb (unat clen);
         case c of
           None \<Rightarrow> Some (rdb, None)
         | Some c \<Rightarrow> do {
             (res, val) \<leftarrow> lzf_decompress c (replicate (unat len + 1) 0) (unat len);
             Some (rdb, case res of Written n \<Rightarrow> Some (ENC_RAW (take (unat len) val)) | _ \<Rightarrow> None)
           }
       }
     }
   }"

definition rdbSaveVerbatim :: "rdb_env \<Rightarrow> bytes \<Rightarrow> save" where
  "rdbSaveVerbatim e s =
     (if length s > 0 then and_then (rdbSaveLen e (of_nat (length s))) (rdbWriteRaw e s)
      else rdbSaveLen e (of_nat (length s)))"

definition rdbSaveRawString :: "rdb_env \<Rightarrow> bytes \<Rightarrow> save" where
  "rdbSaveRawString e s rdb = do {
     enc \<leftarrow> (if length s \<le> 11 then rdbTryIntegerEncoding s else Some []);
     if enc \<noteq> [] then rdbWriteRaw e enc rdb
     else do {
       (rdb, n) \<leftarrow> (if env_compression e \<and> length s > 20 then rdbSaveLzfStringObject e s rdb else Some (rdb, 0));
       if n = - 1 then Some (rdb, - 1)
       else if n > 0 then Some (rdb, n)
       else rdbSaveVerbatim e s rdb
     }
   }"

definition rdbSaveLongLongAsStringObject :: "rdb_env \<Rightarrow> int \<Rightarrow> save" where
  "rdbSaveLongLongAsStringObject e value rdb =
     (let enc = rdbEncodeInteger value in
      if enc \<noteq> [] then rdbWriteRaw e enc rdb
      else do {
        (enclen, buf) \<leftarrow> ll2string (replicate 32 (env_g e)) 32 value;
        if \<not> enclen < 32 then None
        else do {
          p \<leftarrow> rd buf 0 enclen;
          and_then (rdbSaveLen e (of_nat enclen)) (rdbWriteRaw e p) rdb
        }
      })"

definition rdbSaveStringObject :: "rdb_env \<Rightarrow> strobj \<Rightarrow> save" where
  "rdbSaveStringObject e obj =
     (case obj of ENC_INT v \<Rightarrow> rdbSaveLongLongAsStringObject e v | ENC_RAW s \<Rightarrow> rdbSaveRawString e s)"

definition rdbGenericLoadStringObject :: "rdb_env \<Rightarrow> bool \<Rightarrow> rio \<Rightarrow> (rio \<times> strobj option) option" where
  "rdbGenericLoadStringObject e encode rdb = do {
     (rdb, len, isencoded) \<leftarrow> rdbLoadLen rdb;
     if isencoded
     then (if unat len \<le> 2 then rdbLoadIntegerObject e rdb (unat len) encode
           else if unat len = REDIS_RDB_ENC_LZF then rdbLoadLzfStringObject e rdb
           else None)
     else if len = REDIS_RDB_LENERR then Some (rdb, None)
     else do {
       (rdb, val) \<leftarrow> rioRead rdb (unat len);
       Some (rdb, map_option ENC_RAW val)
     }
   }"

definition rdbLoadStringObject :: "rdb_env \<Rightarrow> rio \<Rightarrow> (rio \<times> strobj option) option" where
  "rdbLoadStringObject e = rdbGenericLoadStringObject e False"

definition rdbLoadEncodedStringObject :: "rdb_env \<Rightarrow> rio \<Rightarrow> (rio \<times> strobj option) option" where
  "rdbLoadEncodedStringObject e = rdbGenericLoadStringObject e True"

section \<open>Emitting and taking\<close>

definition emits :: "save \<Rightarrow> bytes \<Rightarrow> bool" where
  "emits f bs \<longleftrightarrow>
     f None = Some (None, int (length bs)) \<and>
     (\<forall>r. at_end r \<longrightarrow> has_room r (length bs) \<longrightarrow> (\<exists>r'. f (Some r) = Some (Some r', int (length bs)) \<and> wrote r bs r')) \<and>
     (\<forall>r. at_end r \<longrightarrow> disk_full r (length bs) \<longrightarrow> (\<exists>r'. f (Some r) = Some (Some r', - 1)))"

definition loads :: "(rio \<Rightarrow> (rio \<times> 'a) option) \<Rightarrow> bytes \<Rightarrow> 'a \<Rightarrow> bool" where
  "loads f bs v \<longleftrightarrow> (\<forall>r rest. readable r \<longrightarrow> left r = bs @ rest \<longrightarrow> (\<exists>r'. f r = Some (r', v) \<and> took r bs r'))"

lemma emits_raw: "length bs < 2147483648 \<Longrightarrow> emits (rdbWriteRaw e bs) bs"
  using rioWrite_ok [of _ bs "env_g e"] rioWrite_full [of _ bs "env_g e"]
  by (fastforce simp: emits_def rdbWriteRaw_def)

lemma full_split: "disk_full r (n + m) \<Longrightarrow> disk_full r n \<or> has_room r n"
  by (auto simp: disk_full_def has_room_def split: rio_io.splits)

lemma emits_and_then:
  assumes f: "emits f bs" and h: "emits h cs"
  shows "emits (and_then f h) (bs @ cs)"
  unfolding emits_def
proof (intro conjI allI impI)
  show "and_then f h None = Some (None, int (length (bs @ cs)))"
    using f h by (simp add: emits_def and_then_def)
next
  fix r assume r: "at_end r" "has_room r (length (bs @ cs))"
  then have "has_room r (length bs)" by (auto elim: has_room_le)
  then obtain r1 where r1: "f (Some r) = Some (Some r1, int (length bs))" "wrote r bs r1"
    using f r(1) unfolding emits_def by blast
  have "at_end r1" "has_room r1 (length cs)" using r1(2) r(2) by (auto simp: wrote_def)
  then obtain r2 where "h (Some r1) = Some (Some r2, int (length cs))" "wrote r1 cs r2"
    using h unfolding emits_def by blast
  then show "\<exists>r'. and_then f h (Some r) = Some (Some r', int (length (bs @ cs))) \<and> wrote r (bs @ cs) r'"
    using r1 wrote_trans by (auto simp: and_then_def)
next
  fix r assume r: "at_end r" "disk_full r (length (bs @ cs))"
  then have "disk_full r (length bs) \<or> has_room r (length bs)" using full_split [of r "length bs" "length cs"] by simp
  then show "\<exists>r'. and_then f h (Some r) = Some (Some r', - 1)"
  proof
    assume "disk_full r (length bs)"
    then show ?thesis using f r(1) unfolding emits_def by (fastforce simp: and_then_def)
  next
    assume "has_room r (length bs)"
    then obtain r1 where r1: "f (Some r) = Some (Some r1, int (length bs))" "wrote r bs r1"
      using f r(1) unfolding emits_def by blast
    then have "at_end r1" "disk_full r1 (length cs)" using r(2) by (auto simp: wrote_def)
    then obtain r2 where "h (Some r1) = Some (Some r2, - 1)" using h unfolding emits_def by blast
    then show ?thesis using r1 by (simp add: and_then_def)
  qed
qed

lemma loads_bind:
  assumes f: "loads f bs v" and h: "loads (h v) cs w"
  shows "loads (\<lambda>r. f r \<bind> (\<lambda>(r, v). h v r)) (bs @ cs) w"
  unfolding loads_def
proof (intro allI impI)
  fix r rest assume r: "readable r" "left r = (bs @ cs) @ rest"
  then obtain r1 where r1: "f r = Some (r1, v)" "took r bs r1" using f unfolding loads_def by auto
  then have "readable r1" "left r1 = cs @ rest" using r(2) by (auto simp: took_def)
  then obtain r2 where "h v r1 = Some (r2, w)" "took r1 cs r2" using h unfolding loads_def by blast
  then show "\<exists>r'. (f r \<bind> (\<lambda>(r, v). h v r)) = Some (r', w) \<and> took r (bs @ cs) r'"
    using r1 took_trans by auto
qed

lemma loads_return: "loads (\<lambda>r. Some (r, v)) [] v"
  by (auto simp: loads_def)

lemma loads_map:
  assumes "loads f bs v" "\<And>r. h r = map_option (\<lambda>(r, x). (r, k x)) (f r)"
  shows "loads h bs (k v)"
  using assms(1) unfolding loads_def assms(2) by fastforce

lemma loads_read: "loads (\<lambda>r. rioRead r (length bs)) bs (Some bs)"
  unfolding loads_def using rioRead_ok by blast

section \<open>Lengths come back\<close>

definition len_bytes :: "32 word \<Rightarrow> bytes" where
  "len_bytes len =
     (if len < 64 then [ucast (len AND 0xFF) OR push_bit 6 0]
      else if len < 16384 then [ucast (drop_bit 8 len AND 0xFF) OR push_bit 6 1, ucast (len AND 0xFF)]
      else push_bit 6 2 # htonl len)"

lemma length_len_bytes: "0 < length (len_bytes len)" "length (len_bytes len) \<le> 5"
  by (auto simp: len_bytes_def htonl_def)

lemma emits_len: "emits (rdbSaveLen e len) (len_bytes len)"
proof -
  have "emits (and_then (rdbWriteRaw e [push_bit 6 2]) (rdbWriteRaw e (htonl len))) ([push_bit 6 2] @ htonl len)"
    by (intro emits_and_then emits_raw) (simp_all add: htonl_def)
  then show ?thesis using emits_raw [of "[_]" e] emits_raw [of "[_, _]" e]
    by (simp add: rdbSaveLen_def len_bytes_def)
qed

text \<open>The two parts of a first byte.\<close>

lemma type_bits: "drop_bit 6 (b AND 0xC0) = drop_bit 6 (b::byte)"
proof (rule bit_eqI)
  fix n
  assume "possible_bit TYPE(byte) n"
  consider "n = 0" | "n = 1" | "2 \<le> n" by linarith
  then show "bit (drop_bit 6 (b AND 0xC0)) n = bit (drop_bit 6 b) n"
    by cases (auto simp: bit_simps dest: bit_imp_le_length)
qed

lemma low_bits: "b AND 0x3F = take_bit 6 (b::byte)" "len AND 0xFF = take_bit 8 (len::32 word)"
  by (simp_all add: take_bit_eq_mask mask_eq_exp_minus_1)

lemma high_zero: "unat len < 2 ^ n \<Longrightarrow> bit len k \<Longrightarrow> k < n" for len :: "'a::len word"
proof -
  assume n: "unat len < 2 ^ n" and b: "bit len k"
  have "bit (unat len) k" using b by (simp add: bit_unsigned_iff bit_imp_le_length)
  then have "bit (take_bit n (unat len)) k" using n by (simp add: take_bit_nat_eq_self)
  then show "k < n" by (simp add: bit_take_bit_iff)
qed

text \<open>What follows the first byte.\<close>

definition len_rest :: "byte \<Rightarrow> rio \<Rightarrow> (rio \<times> 32 word \<times> bool) option" where
  "len_rest b0 rdb =
     (if drop_bit 6 b0 = 3 then Some (rdb, ucast (take_bit 6 b0), True)
      else if drop_bit 6 b0 = 0 then Some (rdb, ucast (take_bit 6 b0), False)
      else if drop_bit 6 b0 = 1 then rioRead rdb 1 \<bind> (\<lambda>(rdb, buf). Some (rdb, (case buf of
             None \<Rightarrow> (REDIS_RDB_LENERR, False) | Some buf \<Rightarrow> (push_bit 8 (ucast (take_bit 6 b0)) OR ucast (hd buf), False))))
      else rioRead rdb 4 \<bind> (\<lambda>(rdb, buf). Some (rdb, (case buf of
           None \<Rightarrow> (REDIS_RDB_LENERR, False) | Some buf \<Rightarrow> (ntohl buf, False)))))"

lemma rdbLoadLen_via: "rdbLoadLen = (\<lambda>r. rioRead r (length [b0]) \<bind> (\<lambda>(r, buf). (case buf of
    None \<Rightarrow> (\<lambda>rdb. Some (rdb, REDIS_RDB_LENERR, False)) | Some buf \<Rightarrow> len_rest (hd buf)) r))"
  unfolding rdbLoadLen_def type_bits low_bits len_rest_def
  by (rule ext) (auto simp: Let_def split: option.splits Option.bind_splits)

lemma loads_first: "loads (len_rest b0) bs v \<Longrightarrow> loads rdbLoadLen (b0 # bs) v"
  using loads_bind [OF loads_read [of "[b0]"], of "\<lambda>buf. case buf of
      None \<Rightarrow> (\<lambda>rdb. Some (rdb, REDIS_RDB_LENERR, False)) | Some buf \<Rightarrow> len_rest (hd buf)" bs v]
  unfolding rdbLoadLen_via [of b0] by simp

lemma loads_encoding: "drop_bit 6 b0 = 3 \<Longrightarrow> loads rdbLoadLen [b0] (ucast (take_bit 6 b0), True)"
  by (rule loads_first) (simp add: loads_return len_rest_def [abs_def])

lemma loads_read_map: "loads (\<lambda>r. rioRead r (length bs) \<bind> (\<lambda>(r, buf). Some (r, k buf))) bs (k (Some bs))"
  using loads_bind [OF loads_read [of bs] loads_return, of k] by simp

lemma loads_len: "loads rdbLoadLen (len_bytes len) (len, False)"
proof -
  consider (six) "len < 64" | (fourteen) "\<not> len < 64" "len < 16384" | (word) "\<not> len < 64" "\<not> len < 16384" by blast
  then show ?thesis
  proof cases
    case six
    define b where "b = (ucast (len AND 0xFF) OR push_bit 6 0 :: byte)"
    have z: "bit len k \<Longrightarrow> k < 6" for k using high_zero [of len 6 k] six by (simp add: word_less_nat_alt)
    have "drop_bit 6 b = 0"
      by (rule bit_eqI) (auto simp: b_def low_bits bit_simps dest: z)
    moreover have "ucast (take_bit 6 b) = len"
      by (rule bit_eqI) (auto simp: b_def low_bits bit_simps dest: z)
    ultimately have "loads rdbLoadLen [b] (len, False)"
      by (intro loads_first) (simp add: loads_return len_rest_def [abs_def])
    then show ?thesis using six by (simp add: len_bytes_def b_def)
  next
    case fourteen
    define b where "b = (ucast (drop_bit 8 len AND 0xFF) OR push_bit 6 1 :: byte)"
    define c where "c = (ucast (len AND 0xFF) :: byte)"
    have z: "bit len k \<Longrightarrow> k < 14" for k using high_zero [of len 14 k] fourteen by (simp add: word_less_nat_alt)
    have d: "drop_bit 6 b = 1"
      by (rule bit_eqI) (auto simp: b_def low_bits bit_simps dest: z)
    have v: "push_bit 8 (ucast (take_bit 6 b)) OR ucast c = len"
    proof (rule bit_eqI)
      fix k
      show "bit (push_bit 8 (ucast (take_bit 6 b)) OR ucast c :: 32 word) k = bit len k"
        using z [of k] by (cases "k < 8") (auto simp: b_def c_def low_bits bit_simps)
    qed
    have "loads (len_rest b) [c] (len, False)"
      using loads_read_map [of "[c]" "\<lambda>buf. case buf of None \<Rightarrow> (REDIS_RDB_LENERR, False)
        | Some buf \<Rightarrow> (push_bit 8 (ucast (take_bit 6 b)) OR ucast (hd buf), False)"] d v
      by (simp add: len_rest_def [abs_def])
    then have "loads rdbLoadLen [b, c] (len, False)" by (rule loads_first)
    then show ?thesis using fourteen by (simp add: len_bytes_def b_def c_def)
  next
    case word
    have four: "length (htonl len) = 4" by (simp add: htonl_def)
    have v: "ntohl (htonl len) = len"
      using uint_lt2p [of len] by (simp add: ntohl_def htonl_def le_uint_le_bytes)
    have "loads (len_rest (push_bit 6 2)) (htonl len) (len, False)"
      using loads_read_map [of "htonl len" "\<lambda>buf. case buf of None \<Rightarrow> (REDIS_RDB_LENERR, False)
        | Some buf \<Rightarrow> (ntohl buf, False)"] four v by (simp add: len_rest_def [abs_def])
    then have "loads rdbLoadLen (push_bit 6 2 # htonl len) (len, False)" by (rule loads_first)
    then show ?thesis using word by (simp add: len_bytes_def)
  qed
qed

lemma loadsE:
  assumes "loads f bs v" "readable r" "left r = bs @ rest"
  shows "\<exists>r'. f r = Some (r', v) \<and> took r bs r' \<and> readable r' \<and> left r' = rest"
  using assms unfolding loads_def took_def by fastforce

section \<open>Strings come back\<close>

text \<open>The rest of a string after its length.\<close>

definition string_rest :: "rdb_env \<Rightarrow> bool \<Rightarrow> 32 word \<times> bool \<Rightarrow> rio \<Rightarrow> (rio \<times> strobj option) option" where
  "string_rest e encode = (\<lambda>(len, isencoded) rdb.
     if isencoded
     then (if unat len \<le> 2 then rdbLoadIntegerObject e rdb (unat len) encode
           else if unat len = REDIS_RDB_ENC_LZF then rdbLoadLzfStringObject e rdb
           else None)
     else if len = REDIS_RDB_LENERR then Some (rdb, None)
     else rioRead rdb (unat len) \<bind> (\<lambda>(rdb, val). Some (rdb, map_option ENC_RAW val)))"

lemma loads_string_via:
  "loads rdbLoadLen bs v \<Longrightarrow> loads (string_rest e encode v) cs w \<Longrightarrow> loads (rdbGenericLoadStringObject e encode) (bs @ cs) w"
  using loads_bind [of rdbLoadLen bs v "string_rest e encode" cs w]
  by (simp add: rdbGenericLoadStringObject_def [abs_def] string_rest_def split_beta' cong: if_cong)

lemma le_bytes_small:
  "le_bytes 1 v = [word_of_int v]" "le_bytes 2 v = [word_of_int v, word_of_int (v div 256)]"
  "le_bytes 4 v = [word_of_int v, word_of_int (v div 256), word_of_int (v div 65536), word_of_int (v div 16777216)]"
  using zdiv_zmult2_eq [of 256 v 256] zdiv_zmult2_eq [of 256 v 65536] by (simp_all add: numeral_eq_Suc)

lemma encode_integer_shape:
  assumes "rdbEncodeInteger v \<noteq> []"
  obtains t n where "rdbEncodeInteger v = t # le_bytes n v" "drop_bit 6 t = 3" "take_bit 6 t < 3"
    "integer_width (unat (take_bit 6 t)) = Some n" "fits_signed (8 * n) v" "0 < n" "n \<le> 4" "int64_range v"
proof -
  consider "- 128 \<le> v \<and> v \<le> 127" | "\<not> (- 128 \<le> v \<and> v \<le> 127)" "- 32768 \<le> v \<and> v \<le> 32767"
    | "\<not> (- 128 \<le> v \<and> v \<le> 127)" "\<not> (- 32768 \<le> v \<and> v \<le> 32767)" "- 2147483648 \<le> v \<and> v \<le> 2147483647"
    using assms by (auto simp: rdbEncodeInteger_def split: if_splits)
  then show thesis
  proof cases
    case 1
    then show thesis
      by (intro that [of "0xC0" 1]) (auto simp: rdbEncodeInteger_def integer_width_def fits_signed_def le_bytes_small)
  next
    case 2
    then show thesis
      by (intro that [of "0xC1" 2]) (auto simp: rdbEncodeInteger_def integer_width_def fits_signed_def le_bytes_small)
  next
    case 3
    then show thesis
      by (intro that [of "0xC2" 4]) (auto simp: rdbEncodeInteger_def integer_width_def fits_signed_def le_bytes_small)
  qed
qed

lemma loads_integer:
  assumes "rdbEncodeInteger v \<noteq> []"
  shows "\<exists>ob. loads (rdbGenericLoadStringObject e encode) (rdbEncodeInteger v) (Some ob) \<and> content ob = decimal v \<and> obj_ok ob"
proof -
  from assms obtain t n where t: "rdbEncodeInteger v = t # le_bytes n v" "drop_bit 6 t = 3" "take_bit 6 t < 3"
    "integer_width (unat (take_bit 6 t)) = Some n" "fits_signed (8 * n) v" "0 < n" "n \<le> 4" "int64_range v"
    by (rule encode_integer_shape)
  let ?l = "ucast (take_bit 6 t) :: 32 word"
  have val: "le_sint (le_bytes n v) = v" using t by (intro le_sint_le_bytes)
  have ul: "unat ?l = unat (take_bit 6 t)" 
    using byte_index [of "take_bit 6 t"] by (simp add: unsigned_ucast_eq take_bit_nat_eq_self)
  have small: "unat (take_bit 6 t) \<le> 2" using t(3) by (simp add: word_less_nat_alt)
  from sdsfromlonglong_yields [OF t(8), of "env_g e"] obtain s where
    s: "sdsfromlonglong (env_g e) v = Some s" "sds_val s = decimal v" by (auto simp: yields_def)
  define ob where "ob = (if encode then createStringObjectFromLongLong v else ENC_RAW (decimal v))"
  have "loads (string_rest e encode (?l, True)) (le_bytes n v) (Some ob)"
    using loads_read [of "le_bytes n v"] t(4) small ul val s
    unfolding loads_def string_rest_def rdbLoadIntegerObject_def ob_def
    by (auto simp: Let_def)
  from loads_string_via [OF loads_encoding [OF t(2)] this] have
    "loads (rdbGenericLoadStringObject e encode) (rdbEncodeInteger v) (Some ob)" using t(1) by simp
  moreover have "content ob = decimal v \<and> obj_ok ob"
    using createStringObjectFromLongLong_content [OF t(8)] by (simp add: ob_def)
  ultimately show ?thesis by blast
qed

lemma loads_verbatim:
  assumes "length s < 4294967295"
  shows "loads (rdbGenericLoadStringObject e encode) (len_bytes (of_nat (length s)) @ s) (Some (ENC_RAW s))"
proof (rule loads_string_via [OF loads_len])
  have u: "unat (of_nat (length s) :: 32 word) = length s" using assms by (simp add: unat_of_nat take_bit_nat_eq_self)
  then have ne: "of_nat (length s) \<noteq> REDIS_RDB_LENERR" using assms by (auto simp: word_unat_eq_iff)
  show "loads (string_rest e encode (of_nat (length s), False)) s (Some (ENC_RAW s))"
    using loads_read_map [of s "map_option ENC_RAW"] u ne by (simp add: string_rest_def)
qed

definition env_ok :: "rdb_env \<Rightarrow> bool" where
  "env_ok e \<longleftrightarrow> (\<forall>s. length s < 2147483648 \<longrightarrow> 8192 \<le> unat (env_addr e s) \<and> unat (env_addr e s) + length s \<le> 2 ^ 64)"

lemma len_word: "n < 4294967295 \<Longrightarrow> unat (of_nat n :: 32 word) = n \<and> of_nat n \<noteq> REDIS_RDB_LENERR"
proof -
  assume n: "n < 4294967295"
  then have u: "unat (of_nat n :: 32 word) = n" by (simp add: unat_of_nat take_bit_nat_eq_self)
  then show ?thesis using n by (auto simp: word_unat_eq_iff)
qed

lemma loads_lzf:
  assumes len: "length c < 4294967295" "length s < 4294967295"
    and dec: "\<And>dst. length s \<le> length dst \<Longrightarrow> lzf_decompress c dst (length s) = Some (Written (length s), s @ drop (length s) dst)"
  shows "loads (rdbGenericLoadStringObject e encode)
    ([0xC3] @ len_bytes (of_nat (length c)) @ len_bytes (of_nat (length s)) @ c) (Some (ENC_RAW s))"
proof (rule loads_string_via)
  show "loads rdbLoadLen [0xC3] (3, True)" using loads_encoding [of "0xC3"] by simp
  let ?dst = "replicate (length s + 1) 0 :: bytes"
  have d: "lzf_decompress c ?dst (length s) = Some (Written (length s), s @ drop (length s) ?dst)" by (rule dec) simp
  note cl = len_word [OF len(1)] and sl = len_word [OF len(2)]
  show "loads (string_rest e encode (3, True)) (len_bytes (of_nat (length c)) @ len_bytes (of_nat (length s)) @ c) (Some (ENC_RAW s))"
    unfolding loads_def
  proof (intro allI impI)
    fix r rest
    assume r: "readable r" "left r = (len_bytes (of_nat (length c)) @ len_bytes (of_nat (length s)) @ c) @ rest"
    then have r': "left r = len_bytes (of_nat (length c)) @ (len_bytes (of_nat (length s)) @ c @ rest)" by simp
    from loadsE [OF loads_len r(1) r'] obtain r1 where
      r1: "rdbLoadLen r = Some (r1, of_nat (length c), False)" "took r (len_bytes (of_nat (length c))) r1" "readable r1"
        "left r1 = len_bytes (of_nat (length s)) @ c @ rest" by blast
    from loadsE [OF loads_len r1(3,4)] obtain r2 where
      r2: "rdbLoadLen r1 = Some (r2, of_nat (length s), False)" "took r1 (len_bytes (of_nat (length s))) r2" "readable r2"
        "left r2 = c @ rest" by blast
    from loadsE [OF loads_read r2(3,4)] obtain r3 where r3: "rioRead r2 (length c) = Some (r3, Some c)" "took r2 c r3" by blast
    have "rdbLoadLzfStringObject e r = Some (r3, Some (ENC_RAW s))"
      using r1(1) r2(1) r3(1) cl sl d by (simp add: rdbLoadLzfStringObject_def)
    then show "\<exists>r'. string_rest e encode (3, True) r = Some (r', Some (ENC_RAW s)) \<and>
        took r (len_bytes (of_nat (length c)) @ len_bytes (of_nat (length s)) @ c) r'"
      using took_trans [OF r1(2) took_trans [OF r2(2) r3(2)]] by (simp add: string_rest_def)
  qed
qed

section \<open>Saving a string\<close>

text \<open>A string has two encodings that do not depend on the stream: what is emitted can be loaded again, in whatever process.\<close>

definition string_bytes :: "save \<Rightarrow> bytes \<Rightarrow> bytes \<Rightarrow> bool" where
  "string_bytes f s bs \<longleftrightarrow> emits f bs \<and> bs \<noteq> [] \<and> length bs \<le> length s + 7 \<and>
     (\<forall>d encode. \<exists>ob. loads (rdbGenericLoadStringObject d encode) bs (Some ob) \<and> content ob = s \<and> obj_ok ob)"

lemma saves_verbatim:
  assumes "length s < 2147483648"
  shows "string_bytes (rdbSaveVerbatim e s) s (len_bytes (of_nat (length s)) @ s)"
proof -
  have "emits (rdbSaveVerbatim e s) (len_bytes (of_nat (length s)) @ s)"
    using emits_and_then [OF emits_len emits_raw [OF assms], of e "of_nat (length s)" e] emits_len [of e 0]
    by (cases "s = []") (simp_all add: rdbSaveVerbatim_def)
  moreover have "\<exists>ob. loads (rdbGenericLoadStringObject d encode) (len_bytes (of_nat (length s)) @ s) (Some ob) \<and> content ob = s \<and> obj_ok ob"
    for d encode using loads_verbatim [of s d encode] assms by (intro exI [of _ "ENC_RAW s"]) auto
  ultimately show ?thesis using length_len_bytes [of "of_nat (length s)"] by (auto simp: string_bytes_def)
qed

lemma saves_integer:
  assumes "rdbEncodeInteger v \<noteq> []"
  shows "string_bytes (rdbWriteRaw e (rdbEncodeInteger v)) (decimal v) (rdbEncodeInteger v)"
proof -
  have "length (rdbEncodeInteger v) \<le> 5" by (simp add: rdbEncodeInteger_def)
  then show ?thesis using assms emits_raw [of "rdbEncodeInteger v" e] loads_integer [OF assms]
    by (simp add: string_bytes_def)
qed

lemma rdbTryIntegerEncoding_cases:
  obtains "rdbTryIntegerEncoding s = Some []"
  | v where "rdbTryIntegerEncoding s = Some (rdbEncodeInteger v)" "rdbEncodeInteger v \<noteq> []" "s = decimal v"
proof -
  obtain v rest ov where st: "strtoll (c_str s) = (v, rest, ov)" by (cases "strtoll (c_str s)") auto
  have range: "int64_range v" using st by (auto simp: strtoll_def Let_def split: prod.splits if_splits)
  have buf: "c_str (decimal v @ [0] @ drop (Suc (length (decimal v))) (replicate 32 0)) = decimal v"
    by (simp add: c_str_append_nul decimal_no_nul)
  have "rdbTryIntegerEncoding s = Some (if rest \<noteq> [] \<or> decimal v \<noteq> s then [] else rdbEncodeInteger v)"
    using st ll2string_buf [OF range, of 32] buf by (auto simp: rdbTryIntegerEncoding_def)
  then show thesis using that by (cases "rest \<noteq> [] \<or> decimal v \<noteq> s \<or> rdbEncodeInteger v = []") auto
qed

lemma emits_positive:
  assumes "emits f bs" "bs \<noteq> []"
  shows "emits (\<lambda>rdb. f rdb \<bind> (\<lambda>(rdb, n). if n = - 1 then Some (rdb, - 1) else if n > 0 then Some (rdb, n) else h rdb)) bs"
  using assms unfolding emits_def by fastforce

lemma saves_lzf:
  assumes e: "env_ok e" and len: "length s < 2147483648" "20 < length s"
  obtains "\<And>rdb. rdbSaveLzfStringObject e s rdb = Some (rdb, 0)"
  | bs where "string_bytes (rdbSaveLzfStringObject e s) s bs"
proof -
  let ?outlen = "length s - 4"
  let ?buf = "replicate (?outlen + 1) (env_g e)"
  have addr: "8192 \<le> unat (env_addr e s)" "unat (env_addr e s) + length s \<le> 2 ^ 64" using e len(1) by (auto simp: env_ok_def)
  have "2 \<le> length s" "?outlen < length ?buf" using len by simp_all
  from lzf_roundtrip [OF addr this, of "env_htab e s"] obtain n out where
    c: "lzf_compress (env_htab e s) (env_addr e s) s ?buf ?outlen = Some (n, out)" "length out = length ?buf" "n \<le> ?outlen"
    and dec: "n \<noteq> 0 \<Longrightarrow> length s \<le> length dst \<Longrightarrow>
      lzf_decompress (take n out) dst (length s) = Some (Written (length s), s @ drop (length s) dst)" for dst by blast
  show thesis
  proof (cases "n = 0")
    case True
    then have "rdbSaveLzfStringObject e s rdb = Some (rdb, 0)" for rdb
      using c len by (simp add: rdbSaveLzfStringObject_def Let_def)
    then show thesis by (rule that(1))
  next
    case False
    let ?c = "take n out"
    let ?bs = "[0xC3] @ len_bytes (of_nat (length ?c)) @ len_bytes (of_nat (length s)) @ ?c"
    have n: "length ?c = n" using c(2,3) by simp
    have f: "rdbSaveLzfStringObject e s = and_then (rdbWriteRaw e [0xC3]) (and_then (rdbSaveLen e (of_nat n))
        (and_then (rdbSaveLen e (of_nat (length s))) (rdbWriteRaw e ?c)))"
      using c False len by (intro ext) (simp add: rdbSaveLzfStringObject_def Let_def rd_def)
    have "length ?c < 2147483648" using n c(3) len(1) by linarith
    then have "emits (rdbSaveLzfStringObject e s) ?bs"
      unfolding f n by (intro emits_and_then emits_len emits_raw) simp_all
    moreover have "loads (rdbGenericLoadStringObject d encode) ?bs (Some (ENC_RAW s))" for d encode
      by (rule loads_lzf) (use n c(3) len dec [OF False] in auto)
    then have "\<exists>ob. loads (rdbGenericLoadStringObject d encode) ?bs (Some ob) \<and> content ob = s \<and> obj_ok ob" for d encode
      by (intro exI [of _ "ENC_RAW s"]) auto
    moreover have "length ?bs \<le> length s + 7"
      using n c(3) len length_len_bytes(2) [of "of_nat n"] length_len_bytes(2) [of "of_nat (length s)"] by simp
    ultimately have "string_bytes (rdbSaveLzfStringObject e s) s ?bs" by (simp add: string_bytes_def)
    then show thesis by (rule that(2))
  qed
qed

lemma saves_rest:
  assumes e: "env_ok e" and len: "length s < 2147483648"
    and not_int: "\<not> length s \<le> 11 \<or> rdbTryIntegerEncoding s = Some []"
  shows "\<exists>bs. string_bytes (rdbSaveRawString e s) s bs"
proof -
  have f: "rdbSaveRawString e s = (\<lambda>rdb. (if env_compression e \<and> length s > 20 then rdbSaveLzfStringObject e s rdb else Some (rdb, 0)) \<bind>
      (\<lambda>(rdb, n). if n = - 1 then Some (rdb, - 1) else if n > 0 then Some (rdb, n) else rdbSaveVerbatim e s rdb))"
    using not_int by (intro ext) (auto simp: rdbSaveRawString_def)
  have verb: "rdbSaveRawString e s = rdbSaveVerbatim e s \<Longrightarrow> ?thesis" using saves_verbatim [OF len, of e] by auto
  show ?thesis
  proof (cases "env_compression e \<and> length s > 20")
    case False
    then show ?thesis by (intro verb ext) (auto simp: f)
  next
    case True
    then have lt: "20 < length s" by simp
    show ?thesis
    proof (rule saves_lzf [OF e len lt])
      assume "\<And>rdb. rdbSaveLzfStringObject e s rdb = Some (rdb, 0)"
      then show ?thesis using True by (intro verb ext) (simp add: f)
    next
      fix bs
      assume bs: "string_bytes (rdbSaveLzfStringObject e s) s bs"
      then have "emits (rdbSaveRawString e s) bs"
        using True emits_positive [of "rdbSaveLzfStringObject e s" bs "rdbSaveVerbatim e s"] by (simp add: f string_bytes_def)
      then show ?thesis using bs by (auto simp: string_bytes_def)
    qed
  qed
qed

lemma saves_raw:
  assumes e: "env_ok e" and len: "length s < 2147483648"
  shows "\<exists>bs. string_bytes (rdbSaveRawString e s) s bs"
proof (rule rdbTryIntegerEncoding_cases [of s])
  fix v
  assume v: "rdbTryIntegerEncoding s = Some (rdbEncodeInteger v)" "rdbEncodeInteger v \<noteq> []" "s = decimal v"
  show ?thesis
  proof (cases "length s \<le> 11")
    case True
    then have "rdbSaveRawString e s = rdbWriteRaw e (rdbEncodeInteger v)"
      using v by (intro ext) (simp add: rdbSaveRawString_def)
    then show ?thesis using saves_integer [OF v(2), of e] v(3) by auto
  next
    case False
    then show ?thesis using saves_rest [OF e len] by blast
  qed
next
  assume "rdbTryIntegerEncoding s = Some []"
  then show ?thesis using saves_rest [OF e len] by blast
qed

lemma saves_string:
  assumes "env_ok e" "obj_ok ob" "length (content ob) < 2147483648"
  shows "\<exists>bs. string_bytes (rdbSaveStringObject e ob) (content ob) bs"
proof (cases ob)
  case (ENC_RAW s)
  then show ?thesis using saves_raw [OF assms(1)] assms(3) by (simp add: rdbSaveStringObject_def)
next
  case (ENC_INT v)
  then have "rdbEncodeInteger v \<noteq> []" using assms(2) by (auto simp: rdbEncodeInteger_def long_range_def)
  then show ?thesis using saves_integer [of v e] ENC_INT
    by (auto simp: rdbSaveStringObject_def rdbSaveLongLongAsStringObject_def [abs_def] Let_def)
qed

text \<open>
  C20. A string object of any encoding that is written to a stream, whatever the size of its
  chunks, is appended as bytes from which both ways of loading give, in any process, an object with the same
  content and leave the stream right after them, with the same checksum on both sides; the
  size that is measured without a stream is the number of these bytes, and on a full disk the
  write reports its failure.
\<close>

theorem rdb_string_roundtrip:
  assumes "env_ok e" "obj_ok ob" "length (content ob) < 2147483648"
  shows "\<exists>bs. length bs \<le> length (content ob) + 7 \<and>
    rdbSaveStringObject e ob None = Some (None, int (length bs)) \<and>
    (\<forall>w. at_end w \<longrightarrow> has_room w (length bs) \<longrightarrow> (\<exists>w'. rdbSaveStringObject e ob (Some w) = Some (Some w', int (length bs)) \<and>
       written w' = written w @ bs \<and> rio_cksum w' = summed w bs)) \<and>
    (\<forall>w. at_end w \<longrightarrow> disk_full w (length bs) \<longrightarrow> (\<exists>w'. rdbSaveStringObject e ob (Some w) = Some (Some w', - 1))) \<and>
    (\<forall>r rest d encode. readable r \<longrightarrow> left r = bs @ rest \<longrightarrow>
       (\<exists>r' ob'. rdbGenericLoadStringObject d encode r = Some (r', Some ob') \<and> content ob' = content ob \<and> obj_ok ob' \<and>
          left r' = rest \<and> rio_cksum r' = summed r bs))"
proof -
  obtain bs where bs: "string_bytes (rdbSaveStringObject e ob) (content ob) bs"
    using saves_string [OF assms] by blast
  then have em: "emits (rdbSaveStringObject e ob) bs" and len: "length bs \<le> length (content ob) + 7"
    by (simp_all add: string_bytes_def)
  have ld: "\<exists>r' ob'. rdbGenericLoadStringObject d encode r = Some (r', Some ob') \<and> content ob' = content ob \<and> obj_ok ob' \<and>
      left r' = rest \<and> rio_cksum r' = summed r bs" if r: "readable r" "left r = bs @ rest" for r rest d encode
  proof -
    obtain ob' where ob': "loads (rdbGenericLoadStringObject d encode) bs (Some ob')" "content ob' = content ob" "obj_ok ob'"
      using bs by (auto simp: string_bytes_def)
    from loadsE [OF ob'(1) r] show ?thesis using ob' by (auto simp: took_def)
  qed
  show ?thesis using em len ld unfolding emits_def wrote_def by blast
qed

definition demo_rdb_env :: rdb_env where
  "demo_rdb_env = \<lparr>env_g = 0, env_htab = (\<lambda>_ _. 70000), env_addr = (\<lambda>_. 65536), env_compression = True\<rparr>"

lemma demo_rdb_env_ok: "env_ok demo_rdb_env"
  by (simp add: env_ok_def demo_rdb_env_def)

theorem rdb_string_roundtrip_witness:
  "\<exists>bs. length bs \<le> length (content (ENC_RAW [104, 105])) + 7 \<and>
    rdbSaveStringObject demo_rdb_env (ENC_RAW [104, 105]) None = Some (None, int (length bs)) \<and>
    (\<forall>w. at_end w \<longrightarrow> has_room w (length bs) \<longrightarrow> (\<exists>w'. rdbSaveStringObject demo_rdb_env (ENC_RAW [104, 105]) (Some w) = Some (Some w', int (length bs)) \<and>
       written w' = written w @ bs \<and> rio_cksum w' = summed w bs)) \<and>
    (\<forall>w. at_end w \<longrightarrow> disk_full w (length bs) \<longrightarrow> (\<exists>w'. rdbSaveStringObject demo_rdb_env (ENC_RAW [104, 105]) (Some w) = Some (Some w', - 1))) \<and>
    (\<forall>r rest d encode. readable r \<longrightarrow> left r = bs @ rest \<longrightarrow>
       (\<exists>r' ob'. rdbGenericLoadStringObject d encode r = Some (r', Some ob') \<and> content ob' = content (ENC_RAW [104, 105]) \<and> obj_ok ob' \<and>
          left r' = rest \<and> rio_cksum r' = summed r bs))"
  by (rule rdb_string_roundtrip [OF demo_rdb_env_ok]) simp_all

end
