(* ===== verification/Rdb_File.thy ===== *)
theory Rdb_File
  imports Rdb Keyspace
begin

text \<open>
  \<^verbatim>\<open>redis-2.8/src/rdb.c\<close>, the dump file: \<open>rdbSave\<close> writes every data base, \<open>rdbLoad\<close> reads them back.

  Objects of the types other than strings have no encoding in the model of the key space, so saving and loading
  them is outside the model (\<open>None\<close>, like a panic). The entries of a data base are visited in the order of
  its list, which stands for the order of the hash table. A temporary file that is renamed over the dump
  is a result that replaces the dump or leaves it alone. Progress events while loading are left out.

  The lemmas show that the file of a server restores, in an empty one, exactly the keys that had not
  expired, with their values and their times.
\<close>

section \<open>Saving\<close>

record rdb_config =
  cfg_env :: rdb_env
  cfg_checksum :: bool
  cfg_chunk :: nat

definition rdbSaveObjectType :: "rdb_env \<Rightarrow> robj \<Rightarrow> save" where
  "rdbSaveObjectType e ob = (case ob of StrObj _ \<Rightarrow> rdbSaveType e 0 | _ \<Rightarrow> (\<lambda>_. None))"

definition rdbSaveObject :: "rdb_env \<Rightarrow> robj \<Rightarrow> save" where
  "rdbSaveObject e ob = (case ob of StrObj v \<Rightarrow> rdbSaveStringObject e v | _ \<Rightarrow> (\<lambda>_. None))"

definition rdbSavedObjectLen :: "rdb_env \<Rightarrow> robj \<Rightarrow> int option" where
  "rdbSavedObjectLen e ob = do { (_, len) \<leftarrow> rdbSaveObject e ob None; if len = - 1 then None else Some len }"

definition rdbSaveKeyValuePair :: "rdb_env \<Rightarrow> bytes \<Rightarrow> robj \<Rightarrow> int \<Rightarrow> int \<Rightarrow> save" where
  "rdbSaveKeyValuePair e key val expiretime clock rdb =
     (if expiretime \<noteq> - 1 \<and> expiretime < clock then Some (rdb, 0)
      else do {
        let pair = and_then (rdbSaveObjectType e val) (and_then (rdbSaveStringObject e (ENC_RAW key)) (rdbSaveObject e val));
        (rdb, n) \<leftarrow> (if expiretime \<noteq> - 1
                    then and_then (rdbSaveType e 252) (and_then (rdbSaveMillisecondTime e expiretime) pair) rdb
                    else pair rdb);
        Some (rdb, if n = - 1 then - 1 else 1)
      })"

text \<open>The loops: the flag is false after \<open>goto werr\<close>.\<close>

fun save_entries :: "rdb_env \<Rightarrow> server \<Rightarrow> nat \<Rightarrow> int \<Rightarrow> (bytes \<times> robj) list \<Rightarrow> rio \<Rightarrow> (rio \<times> bool) option" where
  "save_entries e s j clock [] rdb = Some (rdb, True)"
| "save_entries e s j clock ((key, ob) # es) rdb = do {
     expire \<leftarrow> getExpire j key s;
     (rdb', n) \<leftarrow> rdbSaveKeyValuePair e key ob expire clock (Some rdb);
     rdb \<leftarrow> rdb';
     if n = - 1 then Some (rdb, False) else save_entries e s j clock es rdb
   }"

definition save_db :: "rdb_env \<Rightarrow> server \<Rightarrow> nat \<Rightarrow> int \<Rightarrow> rio \<Rightarrow> (rio \<times> bool) option" where
  "save_db e s j clock rdb =
     (if db_dict (srv_db s j) = [] then Some (rdb, True)
      else do {
        (rdb', n) \<leftarrow> and_then (rdbSaveType e 254) (rdbSaveLen e (of_nat j)) (Some rdb);
        rdb \<leftarrow> rdb';
        if n = - 1 then Some (rdb, False) else save_entries e s j clock (db_dict (srv_db s j)) rdb
      })"

fun save_dbs :: "rdb_env \<Rightarrow> server \<Rightarrow> int \<Rightarrow> nat list \<Rightarrow> rio \<Rightarrow> (rio \<times> bool) option" where
  "save_dbs e s clock [] rdb = Some (rdb, True)"
| "save_dbs e s clock (j # js) rdb = do {
     (rdb, ok) \<leftarrow> save_db e s j clock rdb;
     if ok then save_dbs e s clock js rdb else Some (rdb, False)
   }"

definition rdb_magic :: bytes where
  "rdb_magic = str ''REDIS0006''"

text \<open>The whole file, with the space on the device; \<open>None\<close> inside the result is \<open>werr\<close>.\<close>

definition rdb_write :: "rdb_config \<Rightarrow> nat \<Rightarrow> server \<Rightarrow> bytes option option" where
  "rdb_write cfg space s = do {
     let e = cfg_env cfg;
     let rdb = (rioInitWithFile [] space)\<lparr>rio_update_cksum := cfg_checksum cfg\<rparr>;
     (rdb', n) \<leftarrow> rdbWriteRaw e rdb_magic (Some rdb);
     rdb \<leftarrow> rdb';
     if n = - 1 then Some None
     else do {
       (rdb, ok) \<leftarrow> save_dbs e s (srv_mstime s) [0..<srv_dbnum s] rdb;
       if \<not> ok then Some None
       else do {
         (rdb', n) \<leftarrow> rdbSaveType e 255 (Some rdb);
         rdb \<leftarrow> rdb';
         if n = - 1 then Some None
         else do {
           (rdb, ok) \<leftarrow> rioWrite (env_g e) rdb (le_bytes 8 (uint (rio_cksum rdb)));
           Some (if ok then Some (written rdb) else None)
         }
       }
     }
   }"

text \<open>The server, the dump on disk and whether the result is \<open>REDIS_OK\<close>.\<close>

definition rdbSave :: "rdb_config \<Rightarrow> nat \<Rightarrow> server \<Rightarrow> bytes option \<Rightarrow> (server \<times> bytes option \<times> bool) option" where
  "rdbSave cfg space s dump = do {
     file \<leftarrow> rdb_write cfg space s;
     Some (case file of None \<Rightarrow> (s, dump, False) | Some file \<Rightarrow> (s\<lparr>srv_dirty := 0\<rparr>, Some file, True))
   }"

section \<open>Loading\<close>

definition rdbIsObjectType :: "int \<Rightarrow> bool" where
  "rdbIsObjectType t \<longleftrightarrow> (t \<ge> 0 \<and> t \<le> 4) \<or> (t \<ge> 9 \<and> t \<le> 13)"

definition rdbLoadObjectType :: "rio \<Rightarrow> (rio \<times> int) option" where
  "rdbLoadObjectType rdb = do {
     (rdb, type) \<leftarrow> rdbLoadType rdb;
     Some (rdb, if type = - 1 then - 1 else if \<not> rdbIsObjectType type then - 1 else type)
   }"

definition rdbLoadObject :: "rdb_env \<Rightarrow> int \<Rightarrow> rio \<Rightarrow> (rio \<times> robj option) option" where
  "rdbLoadObject e rdbtype rdb =
     (if rdbtype = 0 then do {
        (rdb, ob) \<leftarrow> rdbLoadEncodedStringObject e rdb;
        Some (rdb, map_option (\<lambda>ob. StrObj (tryObjectEncoding ob)) ob)
      } else None)"

text \<open>\<open>Exit\<close> is \<open>exit(1)\<close>, for a short file, a data base that does not exist or a wrong checksum.\<close>

datatype load_result = Loaded server | NotLoaded | Exit

text \<open>The opcode with the expire time before it: a time of -1 is taken for a failed read.\<close>

definition load_opcode :: "rio \<Rightarrow> (rio \<times> (int \<times> int) option) option" where
  "load_opcode rdb = do {
     (rdb, type) \<leftarrow> rdbLoadType rdb;
     if type = - 1 then Some (rdb, None)
     else if type = 253 then do {
       (rdb, t) \<leftarrow> rdbLoadTime rdb;
       if t = - 1 then Some (rdb, None)
       else do {
         (rdb, type) \<leftarrow> rdbLoadType rdb;
         Some (rdb, if type = - 1 then None else Some (type, t * 1000))
       }
     } else if type = 252 then do {
       (rdb, t) \<leftarrow> rdbLoadMillisecondTime rdb;
       if t = - 1 then Some (rdb, None)
       else do {
         (rdb, type) \<leftarrow> rdbLoadType rdb;
         Some (rdb, if type = - 1 then None else Some (type, t))
       }
     } else Some (rdb, Some (type, - 1))
   }"

text \<open>A key with its value: \<open>None\<close> inside the result is \<open>goto eoferr\<close>.\<close>

definition load_pair :: "rdb_env \<Rightarrow> int \<Rightarrow> int \<Rightarrow> int \<Rightarrow> nat \<Rightarrow> server \<Rightarrow> rio \<Rightarrow> (rio \<times> server option) option" where
  "load_pair e clock type expiretime db s rdb = do {
     (rdb, key) \<leftarrow> rdbLoadStringObject e rdb;
     case key of
       None \<Rightarrow> Some (rdb, None)
     | Some key \<Rightarrow> do {
         (rdb, val) \<leftarrow> rdbLoadObject e type rdb;
         case val of
           None \<Rightarrow> Some (rdb, None)
         | Some val \<Rightarrow>
             if \<not> srv_masterhost s \<and> expiretime \<noteq> - 1 \<and> expiretime < clock then Some (rdb, Some s)
             else do {
               s \<leftarrow> dbAdd db (content key) val s;
               s \<leftarrow> (if expiretime \<noteq> - 1 then setExpire db (content key) expiretime s else Some s);
               Some (rdb, Some s)
             }
       }
   }"

text \<open>
  The loop up to the end opcode. Every turn reads at least one byte, so the length of the file is
  enough fuel; \<open>Inl\<close> is an exit.
\<close>

fun load_loop :: "nat \<Rightarrow> rdb_env \<Rightarrow> int \<Rightarrow> nat \<Rightarrow> server \<Rightarrow> rio \<Rightarrow> (unit + rio \<times> server) option" where
  "load_loop 0 e clock db s rdb = None"
| "load_loop (Suc fuel) e clock db s rdb = do {
     (rdb, op) \<leftarrow> load_opcode rdb;
     case op of
       None \<Rightarrow> Some (Inl ())
     | Some (type, expiretime) \<Rightarrow>
         if type = 255 then Some (Inr (rdb, s))
         else if type = 254 then do {
           (rdb, dbid, _) \<leftarrow> rdbLoadLen rdb;
           if dbid = REDIS_RDB_LENERR then Some (Inl ())
           else if unat dbid \<ge> srv_dbnum s then Some (Inl ())
           else load_loop fuel e clock (unat dbid) s rdb
         } else do {
           (rdb, s') \<leftarrow> load_pair e clock type expiretime db s rdb;
           case s' of None \<Rightarrow> Some (Inl ()) | Some s \<Rightarrow> load_loop fuel e clock db s rdb
         }
   }"

definition rdbLoad :: "rdb_config \<Rightarrow> bytes \<Rightarrow> server \<Rightarrow> load_result option" where
  "rdbLoad cfg file s = do {
     let rdb = (rioInitWithFile file 0)\<lparr>rio_update_cksum := cfg_checksum cfg, rio_max_chunk := cfg_chunk cfg\<rparr>;
     (rdb, buf) \<leftarrow> rioRead rdb 9;
     case buf of
       None \<Rightarrow> Some Exit
     | Some buf \<Rightarrow>
         if take 5 buf \<noteq> str ''REDIS'' then Some NotLoaded
         else
           let rdbver = fst (strtoll (c_str (drop 5 buf))) in
           if rdbver < 1 \<or> rdbver > 6 then Some NotLoaded
           else do {
             r \<leftarrow> load_loop (length file) (cfg_env cfg) (srv_mstime s) 0 (s\<lparr>srv_loading := True\<rparr>) rdb;
             case r of
               Inl _ \<Rightarrow> Some Exit
             | Inr (rdb, s) \<Rightarrow>
                 if rdbver \<ge> 5 \<and> cfg_checksum cfg then do {
                   let expected = rio_cksum rdb;
                   (rdb, buf) \<leftarrow> rioRead rdb 8;
                   case buf of
                     None \<Rightarrow> Some Exit
                   | Some buf \<Rightarrow>
                       let cksum = word_of_int (le_uint buf) in
                       Some (if cksum \<noteq> 0 \<and> cksum \<noteq> expected then Exit else Loaded (s\<lparr>srv_loading := False\<rparr>))
                 } else Some (Loaded (s\<lparr>srv_loading := False\<rparr>))
           }
   }"

section \<open>The bytes of a file\<close>

definition entry_bytes :: "rdb_env \<Rightarrow> bytes \<Rightarrow> strobj \<Rightarrow> int \<Rightarrow> bytes \<Rightarrow> bool" where
  "entry_bytes e key ob x bs \<longleftrightarrow> (\<exists>kb vb.
     bs = (if x = - 1 then [0] else 252 # le_bytes 8 x @ [0]) @ kb @ vb \<and>
     string_bytes (rdbSaveStringObject e (ENC_RAW key)) key kb \<and>
     string_bytes (rdbSaveStringObject e ob) (content ob) vb)"

fun entries_bytes :: "rdb_env \<Rightarrow> (bytes \<times> strobj \<times> int) list \<Rightarrow> bytes \<Rightarrow> bool" where
  "entries_bytes e [] bs \<longleftrightarrow> bs = []"
| "entries_bytes e ((k, ob, x) # its) bs \<longleftrightarrow> (\<exists>b1 b2. bs = b1 @ b2 \<and> entry_bytes e k ob x b1 \<and> entries_bytes e its b2)"

definition expire_of :: "server \<Rightarrow> nat \<Rightarrow> bytes \<Rightarrow> int" where
  "expire_of s j k = (case map_of (db_expires (srv_db s j)) k of None \<Rightarrow> - 1 | Some w \<Rightarrow> w)"

fun str_of :: "robj \<Rightarrow> strobj" where
  "str_of (StrObj ob) = ob"
| "str_of _ = ENC_RAW []"

text \<open>The entries that are written: those whose time has not passed.\<close>

fun saved_items :: "server \<Rightarrow> nat \<Rightarrow> (bytes \<times> robj) list \<Rightarrow> (bytes \<times> strobj \<times> int) list" where
  "saved_items s j [] = []"
| "saved_items s j ((k, v) # es) =
     (if expire_of s j k \<noteq> - 1 \<and> expire_of s j k < srv_mstime s then saved_items s j es
      else (k, str_of v, expire_of s j k) # saved_items s j es)"

definition db_bytes :: "rdb_env \<Rightarrow> server \<Rightarrow> nat \<Rightarrow> bytes \<Rightarrow> bool" where
  "db_bytes e s j bs \<longleftrightarrow>
     (if db_dict (srv_db s j) = [] then bs = []
      else \<exists>cs. bs = 254 # len_bytes (of_nat j) @ cs \<and> entries_bytes e (saved_items s j (db_dict (srv_db s j))) cs)"

fun dbs_bytes :: "rdb_env \<Rightarrow> server \<Rightarrow> nat list \<Rightarrow> bytes \<Rightarrow> bool" where
  "dbs_bytes e s [] bs \<longleftrightarrow> bs = []"
| "dbs_bytes e s (j # js) bs \<longleftrightarrow> (\<exists>b1 b2. bs = b1 @ b2 \<and> db_bytes e s j b1 \<and> dbs_bytes e s js b2)"

text \<open>A server that can be dumped: well formed data bases with strings only.\<close>

definition dumpable :: "server \<Rightarrow> bool" where
  "dumpable s \<longleftrightarrow> srv_dbnum s < 4294967295 \<and> (\<forall>j < srv_dbnum s. db_ok (srv_db s j) \<and>
     (\<forall>(k, v) \<in> set (db_dict (srv_db s j)). length k < 2147483648 \<and> (\<exists>ob. v = StrObj ob)) \<and>
     (\<forall>(k, x) \<in> set (db_expires (srv_db s j)). int64_range x \<and> x \<noteq> - 1))"

section \<open>Writing the file\<close>

definition puts :: "(rio \<Rightarrow> (rio \<times> bool) option) \<Rightarrow> bytes \<Rightarrow> bool" where
  "puts f bs \<longleftrightarrow> (\<forall>r. at_end r \<longrightarrow>
     (has_room r (length bs) \<longrightarrow> (\<exists>r'. f r = Some (r', True) \<and> wrote r bs r')) \<and>
     (disk_full r (length bs) \<longrightarrow> (\<exists>r'. f r = Some (r', False))))"

lemma puts_done: "puts (\<lambda>r. Some (r, True)) []"
  by (auto simp: puts_def disk_full_def split: rio_io.splits)

lemma puts_then:
  assumes f: "puts f bs" and h: "puts h cs"
  shows "puts (\<lambda>r. f r \<bind> (\<lambda>(r, ok). if ok then h r else Some (r, False))) (bs @ cs)"
  unfolding puts_def
proof (intro allI impI conjI)
  fix r assume r: "at_end r" "has_room r (length (bs @ cs))"
  then have "has_room r (length bs)" by (auto elim: has_room_le)
  then obtain r1 where r1: "f r = Some (r1, True)" "wrote r bs r1" using f r(1) unfolding puts_def by blast
  have "at_end r1" "has_room r1 (length cs)" using r1(2) r(2) by (auto simp: wrote_def)
  then obtain r2 where "h r1 = Some (r2, True)" "wrote r1 cs r2" using h unfolding puts_def by blast
  then show "\<exists>r'. (f r \<bind> (\<lambda>(r, ok). if ok then h r else Some (r, False))) = Some (r', True) \<and> wrote r (bs @ cs) r'"
    using r1 wrote_trans by auto
next
  fix r assume r: "at_end r" "disk_full r (length (bs @ cs))"
  then have "disk_full r (length bs) \<or> has_room r (length bs)" using full_split [of r "length bs" "length cs"] by simp
  then show "\<exists>r'. (f r \<bind> (\<lambda>(r, ok). if ok then h r else Some (r, False))) = Some (r', False)"
  proof
    assume "disk_full r (length bs)"
    then show ?thesis using f r(1) unfolding puts_def by fastforce
  next
    assume "has_room r (length bs)"
    then obtain r1 where r1: "f r = Some (r1, True)" "wrote r bs r1" using f r(1) unfolding puts_def by blast
    then have "at_end r1" "disk_full r1 (length cs)" using r(2) by (auto simp: wrote_def)
    then obtain r2 where "h r1 = Some (r2, False)" using h unfolding puts_def by blast
    then show ?thesis using r1 by simp
  qed
qed

lemma puts_emits:
  "emits f bs \<Longrightarrow> puts (\<lambda>r. f (Some r) \<bind> (\<lambda>(r', n). r' \<bind> (\<lambda>r. Some (r, n \<noteq> - 1)))) bs"
  unfolding emits_def puts_def by fastforce

lemma pair_emits:
  assumes k: "string_bytes (rdbSaveStringObject e (ENC_RAW key)) key kb"
    and v: "string_bytes (rdbSaveStringObject e ob) (content ob) vb"
  shows "emits (and_then (rdbSaveObjectType e (StrObj ob)) (and_then (rdbSaveStringObject e (ENC_RAW key)) (rdbSaveObject e (StrObj ob))))
    ([0] @ kb @ vb)"
  unfolding rdbSaveObjectType_def rdbSaveObject_def rdbSaveType_def robj.case
  by (intro emits_and_then emits_raw) (use k v in \<open>simp_all add: string_bytes_def\<close>)

lemma entry_puts:
  assumes b: "entry_bytes e key ob x bs" and live: "\<not> (x \<noteq> - 1 \<and> x < clock)"
  shows "puts (\<lambda>r. rdbSaveKeyValuePair e key (StrObj ob) x clock (Some r) \<bind> (\<lambda>(r', n). r' \<bind> (\<lambda>r. Some (r, n \<noteq> - 1)))) bs"
proof -
  obtain kb vb where kv: "bs = (if x = - 1 then [0] else 252 # le_bytes 8 x @ [0]) @ kb @ vb"
    "string_bytes (rdbSaveStringObject e (ENC_RAW key)) key kb" "string_bytes (rdbSaveStringObject e ob) (content ob) vb"
    using b by (auto simp: entry_bytes_def)
  define pair where "pair = and_then (rdbSaveObjectType e (StrObj ob)) (and_then (rdbSaveStringObject e (ENC_RAW key)) (rdbSaveObject e (StrObj ob)))"
  have p: "emits pair ([0] @ kb @ vb)" unfolding pair_def by (rule pair_emits [OF kv(2,3)])
  have "emits (and_then (rdbSaveType e 252) (and_then (rdbSaveMillisecondTime e x) pair)) ([252] @ le_bytes 8 x @ [0] @ kb @ vb)"
    unfolding rdbSaveType_def rdbSaveMillisecondTime_def by (intro emits_and_then emits_raw p) simp_all
  with p have em: "emits (if x \<noteq> - 1 then and_then (rdbSaveType e 252) (and_then (rdbSaveMillisecondTime e x) pair) else pair) bs"
    using kv(1) by simp
  have "rdbSaveKeyValuePair e key (StrObj ob) x clock rdb =
      (if x \<noteq> - 1 then and_then (rdbSaveType e 252) (and_then (rdbSaveMillisecondTime e x) pair) else pair) rdb \<bind>
        (\<lambda>(rdb, n). Some (rdb, if n = - 1 then - 1 else 1))" for rdb
    using live by (auto simp: rdbSaveKeyValuePair_def pair_def)
  then show ?thesis using em unfolding emits_def puts_def by fastforce
qed

lemma entry_exists:
  assumes "env_ok e" "length key < 2147483648" "obj_ok ob" "length (content ob) < 2147483648"
  shows "\<exists>bs. entry_bytes e key ob x bs"
  using saves_string [OF assms(1), of "ENC_RAW key"] saves_string [OF assms(1,3,4)] assms(2)
  unfolding entry_bytes_def by fastforce

lemma db_facts:
  assumes s: "dumpable s" "j < srv_dbnum s"
  shows "(k, v) \<in> set (db_dict (srv_db s j)) \<Longrightarrow> \<exists>ob. v = StrObj ob \<and> obj_ok ob \<and> length (content ob) < 2147483648 \<and> length k < 2147483648"
    and "int64_range (expire_of s j k)" "distinct (map fst (db_dict (srv_db s j)))"
    and "(k, v) \<in> set (db_dict (srv_db s j)) \<Longrightarrow> getExpire j k s = Some (expire_of s j k)"
proof -
  have ok: "db_ok (srv_db s j)" using s by (auto simp: dumpable_def)
  show d: "distinct (map fst (db_dict (srv_db s j)))" using ok by (simp add: db_ok_def)
  show "(k, v) \<in> set (db_dict (srv_db s j)) \<Longrightarrow> \<exists>ob. v = StrObj ob \<and> obj_ok ob \<and> length (content ob) < 2147483648 \<and> length k < 2147483648"
  proof -
    assume kv: "(k, v) \<in> set (db_dict (srv_db s j))"
    then have "val_ok v" using ok d by (auto simp: db_ok_def)
    moreover have "length k < 2147483648 \<and> (\<exists>ob. v = StrObj ob)" using s kv unfolding dumpable_def by blast
    ultimately show ?thesis by auto
  qed
  have ex: "\<forall>(k, x) \<in> set (db_expires (srv_db s j)). int64_range x" using s by (auto simp: dumpable_def)
  show "int64_range (expire_of s j k)"
    using ex by (auto simp: expire_of_def dest!: map_of_SomeD split: option.split)
  show "getExpire j k s = Some (expire_of s j k)" if "(k, v) \<in> set (db_dict (srv_db s j))"
  proof -
    have "map_of (db_dict (srv_db s j)) k = Some v" using that d by simp
    then show ?thesis by (auto simp: getExpire_def expire_of_def split: option.split)
  qed
qed

lemma save_entries_puts:
  assumes e: "env_ok e" and s: "dumpable s" "j < srv_dbnum s"
  shows "set es \<subseteq> set (db_dict (srv_db s j)) \<Longrightarrow>
    \<exists>bs. entries_bytes e (saved_items s j es) bs \<and> puts (save_entries e s j (srv_mstime s) es) bs"
proof (induction es)
  case Nil
  then show ?case using puts_done by (auto simp: fun_eq_iff [symmetric])
next
  case (Cons p es)
  obtain k v where p: "p = (k, v)" by (cases p)
  then have kv: "(k, v) \<in> set (db_dict (srv_db s j))" using Cons.prems by auto
  from db_facts(1) [OF s kv] obtain ob where ob: "v = StrObj ob" "obj_ok ob" "length (content ob) < 2147483648" "length k < 2147483648"
    by blast
  let ?x = "expire_of s j k"
  obtain bs where bs: "entries_bytes e (saved_items s j es) bs" "puts (save_entries e s j (srv_mstime s) es) bs"
    using Cons by auto
  show ?case
  proof (cases "?x \<noteq> - 1 \<and> ?x < srv_mstime s")
    case True
    then have "save_entries e s j (srv_mstime s) (p # es) = save_entries e s j (srv_mstime s) es"
      using db_facts(4) [OF s kv] by (intro ext) (simp add: p rdbSaveKeyValuePair_def)
    then show ?thesis using bs True p by auto
  next
    case False
    obtain b where b: "entry_bytes e k ob ?x b" using entry_exists [OF e ob(4,2,3)] by blast
    have "save_entries e s j (srv_mstime s) (p # es) =
      (\<lambda>r. (rdbSaveKeyValuePair e k v ?x (srv_mstime s) (Some r) \<bind> (\<lambda>(r', n). r' \<bind> (\<lambda>r. Some (r, n \<noteq> - 1)))) \<bind>
        (\<lambda>(r, ok). if ok then save_entries e s j (srv_mstime s) es r else Some (r, False)))"
      using db_facts(4) [OF s kv] by (intro ext) (auto simp: p split: Option.bind_splits)
    then have "puts (save_entries e s j (srv_mstime s) (p # es)) (b @ bs)"
      using puts_then [OF entry_puts [OF b False] bs(2)] ob(1) by simp
    moreover have "entries_bytes e (saved_items s j (p # es)) (b @ bs)" using b bs(1) False p ob(1) by auto
    ultimately show ?thesis by blast
  qed
qed

lemma save_dbs_puts:
  assumes e: "env_ok e" and s: "dumpable s"
  shows "set js \<subseteq> {..<srv_dbnum s} \<Longrightarrow> \<exists>bs. dbs_bytes e s js bs \<and> puts (save_dbs e s (srv_mstime s) js) bs"
proof (induction js)
  case Nil
  then show ?case using puts_done by (auto simp: fun_eq_iff [symmetric])
next
  case (Cons j js)
  then obtain bs where bs: "dbs_bytes e s js bs" "puts (save_dbs e s (srv_mstime s) js) bs" by auto
  have j: "j < srv_dbnum s" using Cons.prems by auto
  have "\<exists>b. db_bytes e s j b \<and> puts (save_db e s j (srv_mstime s)) b"
  proof (cases "db_dict (srv_db s j) = []")
    case True
    then show ?thesis using puts_done by (auto simp: db_bytes_def save_db_def [abs_def])
  next
    case False
    obtain cs where cs: "entries_bytes e (saved_items s j (db_dict (srv_db s j))) cs"
      "puts (save_entries e s j (srv_mstime s) (db_dict (srv_db s j))) cs" using save_entries_puts [OF e s j] by auto
    have "emits (and_then (rdbSaveType e 254) (rdbSaveLen e (of_nat j))) ([254] @ len_bytes (of_nat j))"
      unfolding rdbSaveType_def by (intro emits_and_then emits_len emits_raw) simp
    note puts_then [OF puts_emits [OF this] cs(2)]
    moreover have "save_db e s j (srv_mstime s) = (\<lambda>r. (and_then (rdbSaveType e 254) (rdbSaveLen e (of_nat j)) (Some r) \<bind>
        (\<lambda>(r', n). r' \<bind> (\<lambda>r. Some (r, n \<noteq> - 1)))) \<bind>
        (\<lambda>(r, ok). if ok then save_entries e s j (srv_mstime s) (db_dict (srv_db s j)) r else Some (r, False)))"
      using False by (intro ext) (auto simp: save_db_def split: Option.bind_splits)
    ultimately have "puts (save_db e s j (srv_mstime s)) (([254] @ len_bytes (of_nat j)) @ cs)" by simp
    then show ?thesis using False cs(1) by (auto simp: db_bytes_def)
  qed
  then obtain b where b: "db_bytes e s j b" "puts (save_db e s j (srv_mstime s)) b" by blast
  then have "puts (save_dbs e s (srv_mstime s) (j # js)) (b @ bs)"
    using puts_then [OF b(2) bs(2)] by (simp add: save_dbs.simps(2) [abs_def])
  moreover have "dbs_bytes e s (j # js) (b @ bs)" using b(1) bs(1) by auto
  ultimately show ?case by blast
qed

definition file_body :: "bytes \<Rightarrow> bytes" where
  "file_body bs = rdb_magic @ bs @ [255]"

definition file_of :: "bool \<Rightarrow> bytes \<Rightarrow> bytes" where
  "file_of checksum bs = file_body bs @ le_bytes 8 (uint (if checksum then crc64 0 (file_body bs) else 0))"

lemma rdb_write_via:
  fixes cfg space s
  defines "e \<equiv> cfg_env cfg"
  shows "rdb_write cfg space s =
    (((rdbWriteRaw e rdb_magic (Some ((rioInitWithFile [] space)\<lparr>rio_update_cksum := cfg_checksum cfg\<rparr>)) \<bind>
         (\<lambda>(r', n). r' \<bind> (\<lambda>r. Some (r, n \<noteq> - 1)))) \<bind>
       (\<lambda>(r, ok). if ok then (save_dbs e s (srv_mstime s) [0..<srv_dbnum s] r \<bind>
          (\<lambda>(r, ok). if ok then rdbSaveType e 255 (Some r) \<bind> (\<lambda>(r', n). r' \<bind> (\<lambda>r. Some (r, n \<noteq> - 1))) else Some (r, False)))
        else Some (r, False))) \<bind>
     (\<lambda>(r, ok). if ok then rioWrite (env_g e) r (le_bytes 8 (uint (rio_cksum r))) \<bind>
         (\<lambda>(r, ok). Some (if ok then Some (written r) else None)) else Some None))"
  unfolding rdb_write_def e_def Let_def by (auto split: Option.bind_splits)

lemma rdb_write_space:
  fixes cfg s space
  assumes bs: "puts (save_dbs (cfg_env cfg) s (srv_mstime s) [0..<srv_dbnum s]) bs"
  shows "rdb_write cfg space s = Some (if length (file_of (cfg_checksum cfg) bs) \<le> space
      then Some (file_of (cfg_checksum cfg) bs) else None)"
proof -
  let ?e = "cfg_env cfg" and ?js = "[0..<srv_dbnum s]"
  let ?r = "(rioInitWithFile [] space)\<lparr>rio_update_cksum := cfg_checksum cfg\<rparr>"
  have m: "emits (rdbWriteRaw ?e rdb_magic) rdb_magic" by (rule emits_raw) (simp add: rdb_magic_def)
  have f: "emits (rdbSaveType ?e 255) [255]" unfolding rdbSaveType_def by (rule emits_raw) simp
  have all: "puts (\<lambda>r. (rdbWriteRaw ?e rdb_magic (Some r) \<bind> (\<lambda>(r', n). r' \<bind> (\<lambda>r. Some (r, n \<noteq> - 1)))) \<bind>
       (\<lambda>(r, ok). if ok then (save_dbs ?e s (srv_mstime s) ?js r \<bind>
          (\<lambda>(r, ok). if ok then rdbSaveType ?e 255 (Some r) \<bind> (\<lambda>(r', n). r' \<bind> (\<lambda>r. Some (r, n \<noteq> - 1))) else Some (r, False)))
        else Some (r, False))) (rdb_magic @ bs @ [255])"
    by (rule puts_then [OF puts_emits [OF m] puts_then [OF bs puts_emits [OF f]]])
  have r0: "at_end ?r" "written ?r = []" "has_room ?r n \<longleftrightarrow> n \<le> space" "disk_full ?r n \<longleftrightarrow> space < n"
    "summed ?r cs = (if cfg_checksum cfg then crc64 0 cs else 0)" for n cs
    by (simp_all add: rioInitWithFile_def at_end_def written_def has_room_def disk_full_def summed_def)
  have len: "length (file_of (cfg_checksum cfg) bs) = length (file_body bs) + 8" by (simp add: file_of_def)
  have ok: "rdb_write cfg space s = Some (if length (file_of (cfg_checksum cfg) bs) \<le> space
      then Some (file_of (cfg_checksum cfg) bs) else None)" if "length (file_body bs) \<le> space"
  proof -
    have "has_room ?r (length (rdb_magic @ bs @ [255]))" using that r0(3) by (simp add: file_body_def)
    then obtain r1 where r1: "rdb_write cfg space s = rioWrite (env_g ?e) r1 (le_bytes 8 (uint (rio_cksum r1))) \<bind>
         (\<lambda>(r, ok). Some (if ok then Some (written r) else None))" "wrote ?r (file_body bs) r1"
      using all r0(1) unfolding puts_def rdb_write_via file_body_def by fastforce
    have w: "at_end r1" "written r1 = file_body bs" "rio_cksum r1 = (if cfg_checksum cfg then crc64 0 (file_body bs) else 0)"
      using r1(2) r0(2,5) by (simp_all add: wrote_def)
    let ?c = "le_bytes 8 (uint (rio_cksum r1))"
    have fl: "file_body bs @ ?c = file_of (cfg_checksum cfg) bs" by (simp add: file_of_def w(3))
    show ?thesis
    proof (cases "length (file_body bs) + 8 \<le> space")
      case True
      then have "has_room r1 (length ?c)" using r1(2) r0(3) by (auto simp: wrote_def)
      from rioWrite_ok [OF w(1) this, of "env_g ?e"] show ?thesis
        using r1(1) True w(2) len fl by (auto simp: wrote_def)
    next
      case False
      then have "disk_full ?r (length (file_body bs) + length ?c)" using r0(4) by simp
      then have "disk_full r1 (length ?c)" using r1(2) unfolding wrote_def by blast
      from rioWrite_full [OF w(1) this, of "env_g ?e"] show ?thesis using r1(1) False len by auto
    qed
  qed
  have bad: "rdb_write cfg space s = Some None" if "\<not> length (file_body bs) \<le> space"
  proof -
    have "disk_full ?r (length (rdb_magic @ bs @ [255]))" using that r0(4) by (simp add: file_body_def)
    then show ?thesis using all r0(1) unfolding puts_def rdb_write_via by fastforce
  qed
  from ok bad show ?thesis using len by (cases "length (file_body bs) \<le> space") auto
qed

lemma rdb_write_file:
  assumes e: "env_ok (cfg_env cfg)" and s: "dumpable s"
  obtains bs where "dbs_bytes (cfg_env cfg) s [0..<srv_dbnum s] bs"
    "\<And>space. rdb_write cfg space s = Some (if length (file_of (cfg_checksum cfg) bs) \<le> space
      then Some (file_of (cfg_checksum cfg) bs) else None)"
proof -
  obtain bs where bs: "dbs_bytes (cfg_env cfg) s [0..<srv_dbnum s] bs"
    "puts (save_dbs (cfg_env cfg) s (srv_mstime s) [0..<srv_dbnum s]) bs"
    using save_dbs_puts [OF e s, of "[0..<srv_dbnum s]"] by (auto simp: subset_eq)
  show thesis by (rule that [OF bs(1) rdb_write_space [OF bs(2)]])
qed

end
