(* ===== verification/Rdb_Load.thy ===== *)
theory Rdb_Load
  imports Rdb_File
begin

text \<open>
  \<^verbatim>\<open>redis-2.8/src/rdb.c\<close>, reading a dump back: the loop of \<open>rdbLoad\<close> over the bytes that
  \<open>rdbSave\<close> wrote, entry by entry and data base by data base.

  What a data base shows to a client, the content and the time of each key, is \<open>view\<close>. The lemmas
  follow it through the loop, and the theorem puts the two halves together.
\<close>

section \<open>Reading the file\<close>

lemma loads_type: "loads rdbLoadType [b] (uint b)"
  using loads_read_map [of "[b]" "\<lambda>buf. case buf of None \<Rightarrow> - 1 | Some buf \<Rightarrow> uint (hd buf)"]
  by (simp add: rdbLoadType_def [abs_def])

lemma loads_ms: "int64_range x \<Longrightarrow> loads rdbLoadMillisecondTime (le_bytes 8 x) x"
proof -
  assume "int64_range x"
  then have "le_sint (le_bytes 8 x) = x" by (intro le_sint_le_bytes) (auto simp: fits_signed_def)
  then show ?thesis
    using loads_read_map [of "le_bytes 8 x" "\<lambda>buf. case buf of None \<Rightarrow> - 1 | Some buf \<Rightarrow> le_sint buf"]
    by (simp add: rdbLoadMillisecondTime_def [abs_def])
qed

lemma loads_opcode: "b \<noteq> 252 \<Longrightarrow> b \<noteq> 253 \<Longrightarrow> loads load_opcode [b] (Some (uint b, - 1))"
proof -
  assume b: "b \<noteq> 252" "b \<noteq> 253"
  have u: "uint b \<noteq> 252" "uint b \<noteq> 253" using b by (auto simp: word_uint_eq_iff)
  moreover have "uint b \<noteq> - 1" using uint_ge_0 [of b] by linarith
  ultimately have u: "uint b \<noteq> 252" "uint b \<noteq> 253" "uint b \<noteq> - 1" by blast+
  show ?thesis
    unfolding loads_def
  proof (intro allI impI)
    fix r rest assume "readable r" "left r = [b] @ rest"
    from loadsE [OF loads_type this] show "\<exists>r'. load_opcode r = Some (r', Some (uint b, - 1)) \<and> took r [b] r'"
      using u by (auto simp: load_opcode_def)
  qed
qed

lemma loads_opcode_ms:
  assumes x: "int64_range x" "x \<noteq> - 1"
  shows "loads load_opcode (252 # le_bytes 8 x @ [b]) (Some (uint b, x))"
  unfolding loads_def
proof (intro allI impI)
  fix r rest assume r: "readable r" "left r = (252 # le_bytes 8 x @ [b]) @ rest"
  have l: "left r = [252] @ (le_bytes 8 x @ [b] @ rest)" using r(2) by simp
  from loadsE [OF loads_type r(1) l] obtain r1 where r1: "rdbLoadType r = Some (r1, 252)" "took r [252] r1" "readable r1"
    "left r1 = le_bytes 8 x @ [b] @ rest" by auto
  from loadsE [OF loads_ms [OF x(1)] r1(3,4)] obtain r2 where r2: "rdbLoadMillisecondTime r1 = Some (r2, x)"
    "took r1 (le_bytes 8 x) r2" "readable r2" "left r2 = [b] @ rest" by auto
  from loadsE [OF loads_type r2(3,4)] obtain r3 where r3: "rdbLoadType r2 = Some (r3, uint b)" "took r2 [b] r3" by blast
  have "uint b \<noteq> - 1" using uint_ge_0 [of b] by linarith
  then have "load_opcode r = Some (r3, Some (uint b, x))" using r1(1) r2(1) r3(1) x(2) by (simp add: load_opcode_def)
  then show "\<exists>r'. load_opcode r = Some (r', Some (uint b, x)) \<and> took r (252 # le_bytes 8 x @ [b]) r'"
    using took_trans [OF r1(2) took_trans [OF r2(2) r3(2)]] by simp
qed

text \<open>What a server shows of its keys: the content and the time of each.\<close>

definition shown :: "robj \<Rightarrow> bytes option" where
  "shown v = (case v of StrObj ob \<Rightarrow> Some (content ob) | _ \<Rightarrow> None)"

definition view :: "server \<Rightarrow> nat \<Rightarrow> bytes \<Rightarrow> (bytes option \<times> int option) option" where
  "view s j k = map_option (\<lambda>v. (shown v, map_of (db_expires (srv_db s j)) k)) (map_of (db_dict (srv_db s j)) k)"

definition fresh_times :: "server \<Rightarrow> bool" where
  "fresh_times s \<longleftrightarrow> (\<forall>j k. map_of (db_dict (srv_db s j)) k = None \<longrightarrow> map_of (db_expires (srv_db s j)) k = None)"

text \<open>An entry that a load drops, and the view after one entry.\<close>

definition dropped :: "server \<Rightarrow> int \<Rightarrow> bool" where
  "dropped t x \<longleftrightarrow> \<not> srv_masterhost t \<and> x \<noteq> - 1 \<and> x < srv_mstime t"

definition with_item :: "server \<Rightarrow> (bytes \<rightharpoonup> bytes option \<times> int option) \<Rightarrow> bytes \<times> strobj \<times> int \<Rightarrow>
    (bytes \<rightharpoonup> bytes option \<times> int option)" where
  "with_item t m = (\<lambda>(k, ob, x). if dropped t x then m else m(k \<mapsto> (Some (content ob), if x = - 1 then None else Some x)))"

text \<open>Two servers with the same settings.\<close>

definition settings_eq :: "server \<Rightarrow> server \<Rightarrow> bool" where
  "settings_eq t u \<longleftrightarrow> srv_dbnum u = srv_dbnum t \<and> srv_masterhost u = srv_masterhost t \<and> srv_mstime u = srv_mstime t"

lemma settings_eq_refl [simp]: "settings_eq t t"
  by (simp add: settings_eq_def)

lemma settings_eq_trans: "settings_eq t u \<Longrightarrow> settings_eq u v \<Longrightarrow> settings_eq t v"
  by (simp add: settings_eq_def)

lemma dropped_cong: "settings_eq t u \<Longrightarrow> dropped u = dropped t"
  by (auto simp: settings_eq_def dropped_def fun_eq_iff)

lemma with_item_cong: "settings_eq t u \<Longrightarrow> with_item u = with_item t"
  by (simp add: with_item_def fun_eq_iff dropped_cong)

definition adds :: "server \<Rightarrow> nat \<Rightarrow> (bytes \<times> strobj \<times> int) list \<Rightarrow> server \<Rightarrow> bool" where
  "adds t j its u \<longleftrightarrow> settings_eq t u \<and> fresh_times u \<and>
     view u = (view t)(j := foldl (with_item t) (view t j) its)"

lemma add_pair:
  assumes t: "fresh_times t" "view t j k = None" and val: "shown val = Some (content ob)" "obj_type val = REDIS_STRING"
  obtains u where "dbAdd j k val t \<bind> (\<lambda>u. if x \<noteq> - 1 then setExpire j k x u else Some u) = Some u"
    "settings_eq t u" "fresh_times u" "view u = (view t)(j := (view t j)(k \<mapsto> (Some (content ob), if x = - 1 then None else Some x)))"
proof -
  have d: "map_of (db_dict (srv_db t j)) k = None" using t(2) by (simp add: view_def)
  then have x0: "map_of (db_expires (srv_db t j)) k = None" using t(1) by (simp add: fresh_times_def)
  let ?u = "upd_db j (\<lambda>d. d\<lparr>db_dict := (k, val) # db_dict d\<rparr>) t"
  have add: "dbAdd j k val t = Some ?u" using d val(2) by (simp add: dbAdd_def)
  have v1: "view ?u = (view t)(j := (view t j)(k \<mapsto> (Some (content ob), None)))"
    using x0 val(1) by (auto simp: view_def upd_db_def fun_eq_iff)
  show thesis
  proof (cases "x = - 1")
    case True
    then show thesis using add v1 t(1) by (intro that [of ?u]) (auto simp: settings_eq_def upd_db_def fresh_times_def)
  next
    case False
    let ?w = "upd_db j (\<lambda>d. d\<lparr>db_expires := AList.update k x (db_expires d)\<rparr>) ?u"
    have set: "setExpire j k x ?u = Some ?w" by (simp add: setExpire_def upd_db_def)
    have "view ?w = (view t)(j := (view t j)(k \<mapsto> (Some (content ob), Some x)))"
      using val(1) by (auto simp: view_def upd_db_def fun_eq_iff update_conv')
    then show thesis using False add set t(1)
      by (intro that [of ?w]) (auto simp: settings_eq_def upd_db_def fresh_times_def update_conv')
  qed
qed

lemma load_pair_loads:
  assumes k: "string_bytes (rdbSaveStringObject e (ENC_RAW key)) key kb"
    and v: "string_bytes (rdbSaveStringObject e ob) (content ob) vb"
    and t: "fresh_times t" "view t j key = None"
  shows "\<exists>u. loads (load_pair ld (srv_mstime t) 0 x j t) (kb @ vb) (Some u) \<and> adds t j [(key, ob, x)] u"
proof -
  obtain ko where ko: "loads (rdbLoadStringObject ld) kb (Some ko)" "content ko = key"
    using k unfolding string_bytes_def rdbLoadStringObject_def by blast
  obtain vo where vo: "loads (rdbLoadEncodedStringObject ld) vb (Some vo)" "content vo = content ob" "obj_ok vo"
    using v unfolding string_bytes_def rdbLoadEncodedStringObject_def by blast
  define val where "val = StrObj (tryObjectEncoding vo)"
  have val: "shown val = Some (content ob)" "obj_type val = REDIS_STRING"
    using tryObjectEncoding_content [OF vo(3)] vo(2) by (simp_all add: val_def shown_def)
  have vl: "loads (rdbLoadObject ld 0) vb (Some val)"
    using loads_bind [OF vo(1) loads_return, of "map_option (\<lambda>ob. StrObj (tryObjectEncoding ob))"]
    by (simp add: rdbLoadObject_def [abs_def] val_def)
  have pair: "\<exists>r'. load_pair ld (srv_mstime t) 0 x j t r =
      (if dropped t x then Some (r', Some t)
       else (dbAdd j key val t \<bind> (\<lambda>u. if x \<noteq> - 1 then setExpire j key x u else Some u)) \<bind> (\<lambda>u. Some (r', Some u))) \<and>
      took r (kb @ vb) r'" if r: "readable r" "left r = (kb @ vb) @ rest" for r rest
  proof -
    have l: "left r = kb @ (vb @ rest)" using r(2) by simp
    from loadsE [OF ko(1) r(1) l] obtain r1 where r1: "rdbLoadStringObject ld r = Some (r1, Some ko)" "took r kb r1" "readable r1"
      "left r1 = vb @ rest" by blast
    from loadsE [OF vl r1(3,4)] obtain r2 where r2: "rdbLoadObject ld 0 r1 = Some (r2, Some val)" "took r1 vb r2" by blast
    show ?thesis using r1(1) r2(1) ko(2) took_trans [OF r1(2) r2(2)]
      by (intro exI [of _ r2]) (auto simp: load_pair_def dropped_def)
  qed
  show ?thesis
  proof (cases "dropped t x")
    case True
    then have "loads (load_pair ld (srv_mstime t) 0 x j t) (kb @ vb) (Some t)" using pair unfolding loads_def by fastforce
    then show ?thesis using True t(1) by (auto simp: adds_def with_item_def)
  next
    case False
    obtain u where u: "dbAdd j key val t \<bind> (\<lambda>u. if x \<noteq> - 1 then setExpire j key x u else Some u) = Some u"
      "settings_eq t u" "fresh_times u" "view u = (view t)(j := (view t j)(key \<mapsto> (Some (content ob), if x = - 1 then None else Some x)))"
      using add_pair [OF t val] .
    have "loads (load_pair ld (srv_mstime t) 0 x j t) (kb @ vb) (Some u)"
      using pair False u(1) unfolding loads_def by fastforce
    then show ?thesis using u(2,3,4) False by (auto simp: adds_def with_item_def)
  qed
qed

lemma adds_Nil: "fresh_times t \<Longrightarrow> adds t j [] t"
  by (simp add: adds_def)

lemma adds_Cons: "adds t j [it] t1 \<Longrightarrow> adds t1 j its u \<Longrightarrow> adds t j (it # its) u"
  unfolding adds_def using settings_eq_trans by (auto simp: with_item_cong)

lemma adds_other: "adds t j [(k, ob, x)] u \<Longrightarrow> k' \<noteq> k \<Longrightarrow> view u j k' = view t j k'"
  by (simp add: adds_def with_item_def)

lemma load_entry:
  assumes b: "entry_bytes e k ob x bs" and x: "int64_range x" and t: "fresh_times t" "view t j k = None"
    and r: "readable r" "left r = bs @ rest"
  obtains r' u where "\<And>f. load_loop (Suc f) ld (srv_mstime t) j t r = load_loop f ld (srv_mstime t) j u r'"
    "took r bs r'" "adds t j [(k, ob, x)] u"
proof -
  obtain kb vb where kv: "bs = (if x = - 1 then [0] else 252 # le_bytes 8 x @ [0]) @ kb @ vb"
    "string_bytes (rdbSaveStringObject e (ENC_RAW k)) k kb" "string_bytes (rdbSaveStringObject e ob) (content ob) vb"
    using b by (auto simp: entry_bytes_def)
  let ?p = "if x = - 1 then [0] else 252 # le_bytes 8 x @ [0]"
  have op: "loads load_opcode ?p (Some (0, x))"
    using loads_opcode [of 0] loads_opcode_ms [OF x, of 0] by simp
  have l: "left r = ?p @ ((kb @ vb) @ rest)" using r(2) kv(1) by simp
  from loadsE [OF op r(1) l] obtain r1 where r1: "load_opcode r = Some (r1, Some (0, x))" "took r ?p r1" "readable r1"
    "left r1 = (kb @ vb) @ rest" by blast
  obtain u where u: "loads (load_pair ld (srv_mstime t) 0 x j t) (kb @ vb) (Some u)" "adds t j [(k, ob, x)] u"
    using load_pair_loads [OF kv(2,3) t] by blast
  from loadsE [OF u(1) r1(3,4)] obtain r2 where r2: "load_pair ld (srv_mstime t) 0 x j t r1 = Some (r2, Some u)" "took r1 (kb @ vb) r2"
    by blast
  show thesis
  proof (rule that [of u r2])
    show "load_loop (Suc f) ld (srv_mstime t) j t r = load_loop f ld (srv_mstime t) j u r2" for f
      using r1(1) r2(1) by simp
    show "took r bs r2" using took_trans [OF r1(2) r2(2)] kv(1) by simp
  qed (rule u(2))
qed

lemma entry_nonempty: "entry_bytes e k ob x bs \<Longrightarrow> 0 < length bs"
  by (auto simp: entry_bytes_def split: if_splits)

lemma load_entries:
  "entries_bytes e its bs \<Longrightarrow> fresh_times t \<Longrightarrow> distinct (map fst its) \<Longrightarrow>
   (\<And>k ob x. (k, ob, x) \<in> set its \<Longrightarrow> view t j k = None \<and> int64_range x) \<Longrightarrow> readable r \<Longrightarrow> left r = bs @ rest \<Longrightarrow>
   \<exists>r' u. (\<forall>f. load_loop (f + length its) ld (srv_mstime t) j t r = load_loop f ld (srv_mstime t) j u r') \<and>
     took r bs r' \<and> adds t j its u \<and> length its \<le> length bs"
proof (induction its arbitrary: bs t r)
  case Nil
  then show ?case using adds_Nil [of t j] by (intro exI [of _ r] exI [of _ t]) simp
next
  case (Cons it its)
  obtain k ob x where it: "it = (k, ob, x)" by (cases it) auto
  obtain b1 b2 where b: "bs = b1 @ b2" "entry_bytes e k ob x b1" "entries_bytes e its b2"
    using Cons.prems(1) by (auto simp: it)
  have kx: "view t j k = None" "int64_range x" using Cons.prems(4) [of k ob x] by (simp_all add: it)
  have l: "left r = b1 @ (b2 @ rest)" using Cons.prems(6) b(1) by simp
  obtain r1 t1 where r1: "\<And>f. load_loop (Suc f) ld (srv_mstime t) j t r = load_loop f ld (srv_mstime t) j t1 r1"
    "took r b1 r1" "adds t j [(k, ob, x)] t1"
    using load_entry [OF b(2) kx(2) Cons.prems(2) kx(1) Cons.prems(5) l] by blast
  have t1: "fresh_times t1" "srv_mstime t1 = srv_mstime t" using r1(3) by (simp_all add: adds_def settings_eq_def)
  have next': "view t1 j k' = None \<and> int64_range x'" if "(k', ob', x') \<in> set its" for k' ob' x'
  proof -
    have "k' \<noteq> k" using that Cons.prems(3) by (force simp: it)
    then show ?thesis using Cons.prems(4) [of k' ob' x'] that adds_other [OF r1(3)] by simp
  qed
  have rl: "readable r1" "left r1 = b2 @ rest" using r1(2) l by (auto simp: took_def)
  have dist: "distinct (map fst its)" using Cons.prems(3) by simp
  have "\<exists>r' u. (\<forall>f. load_loop (f + length its) ld (srv_mstime t1) j t1 r1 = load_loop f ld (srv_mstime t1) j u r') \<and>
     took r1 b2 r' \<and> adds t1 j its u \<and> length its \<le> length b2"
    by (rule Cons.IH [OF b(3) t1(1) dist _ rl]) (rule next')
  then obtain r2 u where r2: "\<And>f. load_loop (f + length its) ld (srv_mstime t) j t1 r1 = load_loop f ld (srv_mstime t) j u r2"
      "took r1 b2 r2" "adds t1 j its u" "length its \<le> length b2" by (auto simp: t1(2))
  show ?case
  proof (intro exI conjI allI)
    show "load_loop (f + length (it # its)) ld (srv_mstime t) j t r = load_loop f ld (srv_mstime t) j u r2" for f
      using r1(1) r2(1) by simp
    show "took r bs r2" using took_trans [OF r1(2) r2(2)] b(1) by simp
    show "adds t j (it # its) u" using adds_Cons [OF _ r2(3)] r1(3) it by simp
    show "length (it # its) \<le> length bs" using r2(4) entry_nonempty [OF b(2)] b(1) by (simp only: length_Cons length_append)
  qed
qed

lemma saved_items_sub:
  "(k, ob, x) \<in> set (saved_items s j es) \<Longrightarrow> k \<in> fst ` set es \<and> x = expire_of s j k"
  by (induction s j es rule: saved_items.induct) (auto split: if_splits)

lemma saved_items_distinct: "distinct (map fst es) \<Longrightarrow> distinct (map fst (saved_items s j es))"
  by (induction s j es rule: saved_items.induct) (force dest: saved_items_sub)+

definition items_view :: "server \<Rightarrow> server \<Rightarrow> nat \<Rightarrow> bytes \<Rightarrow> (bytes option \<times> int option) option" where
  "items_view s t j = foldl (with_item t) Map.empty (saved_items s j (db_dict (srv_db s j)))"

lemma load_db:
  assumes s: "dumpable s" "j < srv_dbnum s" and b: "db_bytes e s j bs"
    and t: "fresh_times t" "view t j = Map.empty" "srv_dbnum t = srv_dbnum s" and r: "readable r" "left r = bs @ rest"
  shows "\<exists>n r' u d'. (\<forall>f. load_loop (f + n) ld (srv_mstime t) d t r = load_loop f ld (srv_mstime t) d' u r') \<and>
     took r bs r' \<and> n \<le> length bs \<and> settings_eq t u \<and> fresh_times u \<and> view u = (view t)(j := items_view s t j)"
proof (cases "db_dict (srv_db s j) = []")
  case True
  then have bs: "bs = []" and "items_view s t j = Map.empty" using b by (simp_all add: db_bytes_def items_view_def)
  then have "(view t)(j := items_view s t j) = view t" using t(2) fun_upd_idem_iff [of "view t" j] by metis
  then show ?thesis using r(1) t(1) bs by (intro exI [of _ 0] exI [of _ r] exI [of _ t] exI [of _ d]) simp
next
  case False
  let ?its = "saved_items s j (db_dict (srv_db s j))"
  obtain cs where cs: "bs = 254 # len_bytes (of_nat j) @ cs" "entries_bytes e ?its cs" using b False by (auto simp: db_bytes_def)
  have jn: "unat (of_nat j :: 32 word) = j" "of_nat j \<noteq> REDIS_RDB_LENERR"
    using len_word [of j] s by (auto simp: dumpable_def)
  have l: "left r = [254] @ (len_bytes (of_nat j) @ cs @ rest)" using r(2) cs(1) by simp
  have "loads load_opcode [254] (Some (254, - 1))" using loads_opcode [of 254] by simp
  from loadsE [OF this r(1) l] obtain r1 where r1: "load_opcode r = Some (r1, Some (254, - 1))" "took r [254] r1" "readable r1"
    "left r1 = len_bytes (of_nat j) @ cs @ rest" by blast
  from loadsE [OF loads_len r1(3,4)] obtain r2 where r2: "rdbLoadLen r1 = Some (r2, of_nat j, False)"
    "took r1 (len_bytes (of_nat j)) r2" "readable r2" "left r2 = cs @ rest" by blast
  have sel: "load_loop (Suc f) ld (srv_mstime t) d t r = load_loop f ld (srv_mstime t) j t r2" for f
    using r1(1) r2(1) jn s(2) t(3) by simp
  have its: "view t j k = None \<and> int64_range x" if "(k, ob, x) \<in> set ?its" for k ob x
    using saved_items_sub [OF that] db_facts(2) [OF s] t(2) by simp
  have "\<exists>r' u. (\<forall>f. load_loop (f + length ?its) ld (srv_mstime t) j t r2 = load_loop f ld (srv_mstime t) j u r') \<and>
     took r2 cs r' \<and> adds t j ?its u \<and> length ?its \<le> length cs"
    by (rule load_entries [OF cs(2) t(1) saved_items_distinct [OF db_facts(3) [OF s]] _ r2(3,4)]) (rule its)
  then obtain r3 u where r3: "\<And>f. load_loop (f + length ?its) ld (srv_mstime t) j t r2 = load_loop f ld (srv_mstime t) j u r3"
      "took r2 cs r3" "adds t j ?its u" "length ?its \<le> length cs" by blast
  show ?thesis
  proof (intro exI conjI allI)
    show "load_loop (f + Suc (length ?its)) ld (srv_mstime t) d t r = load_loop f ld (srv_mstime t) j u r3" for f
      using sel [of "f + length ?its"] r3(1) by simp
    show "took r bs r3" using took_trans [OF r1(2) took_trans [OF r2(2) r3(2)]] cs(1) by simp
    show "Suc (length ?its) \<le> length bs" using r3(4) cs(1) by simp
    show "settings_eq t u" "fresh_times u" "view u = (view t)(j := items_view s t j)"
      using r3(3) t(2) by (simp_all add: adds_def items_view_def)
  qed
qed

lemma items_view_cong: "settings_eq t u \<Longrightarrow> items_view s u j = items_view s t j"
  by (simp add: items_view_def with_item_cong)

lemma load_dbs:
  assumes s: "dumpable s"
  shows "dbs_bytes e s js bs \<Longrightarrow> distinct js \<Longrightarrow> set js \<subseteq> {..<srv_dbnum s} \<Longrightarrow> fresh_times t \<Longrightarrow>
   (\<And>j. j \<in> set js \<Longrightarrow> view t j = Map.empty) \<Longrightarrow> srv_dbnum t = srv_dbnum s \<Longrightarrow> readable r \<Longrightarrow> left r = bs @ rest \<Longrightarrow>
   \<exists>n r' u d'. (\<forall>f. load_loop (f + n) ld (srv_mstime t) d t r = load_loop f ld (srv_mstime t) d' u r') \<and>
     took r bs r' \<and> n \<le> length bs \<and> settings_eq t u \<and>
     (\<forall>j. view u j = (if j \<in> set js then items_view s t j else view t j))"
proof (induction js arbitrary: bs t r d)
  case Nil
  then show ?case by (intro exI [of _ 0] exI [of _ r] exI [of _ t] exI [of _ d]) simp
next
  case (Cons j js)
  obtain b1 b2 where b: "bs = b1 @ b2" "db_bytes e s j b1" "dbs_bytes e s js b2" using Cons.prems(1) by auto
  have j: "j < srv_dbnum s" "view t j = Map.empty" using Cons.prems(3,5) by auto
  have l: "left r = b1 @ (b2 @ rest)" using Cons.prems(8) b(1) by simp
  from load_db [OF s j(1) b(2) Cons.prems(4) j(2) Cons.prems(6,7) l, of ld d] obtain n1 r1 t1 d1 where
    r1: "\<And>f. load_loop (f + n1) ld (srv_mstime t) d t r = load_loop f ld (srv_mstime t) d1 t1 r1" "took r b1 r1" "n1 \<le> length b1"
      "settings_eq t t1" "fresh_times t1" "view t1 = (view t)(j := items_view s t j)" by blast
  have t1: "srv_dbnum t1 = srv_dbnum s" "srv_mstime t1 = srv_mstime t" using r1(4) Cons.prems(6) by (auto simp: settings_eq_def)
  have v1: "view t1 i = Map.empty" if "i \<in> set js" for i
    using that Cons.prems(2,5) r1(6) by auto
  have "readable r1" "left r1 = b2 @ rest" using r1(2) l by (auto simp: took_def)
  from Cons.IH [OF b(3) _ _ r1(5) v1 t1(1) this, of d1] Cons.prems(2,3) obtain n2 r2 u d2 where
    r2: "\<And>f. load_loop (f + n2) ld (srv_mstime t) d1 t1 r1 = load_loop f ld (srv_mstime t) d2 u r2" "took r1 b2 r2" "n2 \<le> length b2"
      "settings_eq t1 u" "\<forall>i. view u i = (if i \<in> set js then items_view s t1 i else view t1 i)" by (auto simp: t1(2))
  show ?case
  proof (intro exI conjI)
    show "\<forall>f. load_loop (f + (n2 + n1)) ld (srv_mstime t) d t r = load_loop f ld (srv_mstime t) d2 u r2"
      using r1(1) r2(1) by (simp flip: add.assoc)
    show "took r bs r2" using took_trans [OF r1(2) r2(2)] b(1) by simp
    show "n2 + n1 \<le> length bs" using r1(3) r2(3) b(1) by simp
    show "settings_eq t u" using settings_eq_trans [OF r1(4) r2(4)] .
    show "\<forall>i. view u i = (if i \<in> set (j # js) then items_view s t i else view t i)"
      using r2(5) r1(6) items_view_cong [OF r1(4)] by auto
  qed
qed

text \<open>The keys that come back: those whose time had passed neither at the save nor, on a master, at the load.\<close>

definition gone :: "server \<Rightarrow> server \<Rightarrow> nat \<Rightarrow> bytes \<Rightarrow> bool" where
  "gone s t j k \<longleftrightarrow> (case map_of (db_expires (srv_db s j)) k of
     None \<Rightarrow> False | Some x \<Rightarrow> x < srv_mstime s \<or> \<not> srv_masterhost t \<and> x < srv_mstime t)"

lemma with_item_app:
  "with_item t m (k, ob, x) = (if dropped t x then m else m(k \<mapsto> (Some (content ob), if x = - 1 then None else Some x)))"
  by (simp add: with_item_def)

lemma not_dropped: "\<not> dropped t (- 1)"
  by (simp add: dropped_def)

lemma fold_saved:
  "distinct (map fst es) \<Longrightarrow> (\<And>k v. (k, v) \<in> set es \<Longrightarrow> \<exists>ob. v = StrObj ob) \<Longrightarrow>
   foldl (with_item t) m (saved_items s j es) k =
     (case map_of es k of None \<Rightarrow> m k
      | Some v \<Rightarrow> if expire_of s j k \<noteq> - 1 \<and> (expire_of s j k < srv_mstime s \<or> dropped t (expire_of s j k)) then m k
          else Some (shown v, if expire_of s j k = - 1 then None else Some (expire_of s j k)))"
proof (induction es arbitrary: m)
  case (Cons p es)
  obtain k' v where p: "p = (k', v)" by (cases p)
  obtain ob where ob: "v = StrObj ob" using Cons.prems(2) [of k' v] p by auto
  have IH: "foldl (with_item t) m' (saved_items s j es) k = (case map_of es k of None \<Rightarrow> m' k
      | Some v \<Rightarrow> if expire_of s j k \<noteq> - 1 \<and> (expire_of s j k < srv_mstime s \<or> dropped t (expire_of s j k)) then m' k
          else Some (shown v, if expire_of s j k = - 1 then None else Some (expire_of s j k)))" for m'
    using Cons.prems by (intro Cons.IH) auto
  have no: "map_of es k' = None" using Cons.prems(1) p by (auto simp: map_of_eq_None_iff)
  show ?case
  proof (cases "k = k'")
    case True
    then show ?thesis using no ob by (auto simp: p IH [unfolded True] with_item_app shown_def not_dropped)
  next
    case False
    then show ?thesis by (auto simp: p IH with_item_app split: option.split)
  qed
qed simp

lemma items_view_restores:
  assumes s: "dumpable s" "j < srv_dbnum s"
  shows "items_view s t j k = (if gone s t j k then None else view s j k)"
proof -
  let ?d = "srv_db s j"
  have str: "\<exists>ob. v = StrObj ob" if "(k, v) \<in> set (db_dict ?d)" for k v using db_facts(1) [OF s that] by blast
  have ne: "x \<noteq> - 1" if "map_of (db_expires ?d) k = Some x" for x
    using s map_of_SomeD [OF that] unfolding dumpable_def by fastforce
  show ?thesis
    unfolding items_view_def
    by (subst fold_saved [OF db_facts(3) [OF s] str])
      (auto simp: view_def gone_def expire_of_def dropped_def split: option.split dest: ne)
qed

lemma magic_version: "take 5 rdb_magic = str ''REDIS''" "fst (strtoll (c_str (drop 5 rdb_magic))) = 6" "length rdb_magic = 9"
  by (simp_all add: rdb_magic_def c_str_def strtoll_def isspace_def is_digit_def digit_val_def)

lemma le_word_bytes: "(word_of_int (le_uint (le_bytes 8 (uint c))) :: 64 word) = c"
  using uint_lt2p [of c] by (simp add: le_uint_le_bytes)

lemma rdbLoad_file:
  assumes s: "dumpable s" and b: "dbs_bytes e s [0..<srv_dbnum s] bs"
    and t: "srv_dbnum t = srv_dbnum s" "\<And>j. db_dict (srv_db t j) = [] \<and> db_expires (srv_db t j) = []"
  shows "\<exists>u. rdbLoad cfg (file_of checksum bs) t = Some (Loaded u) \<and>
    (\<forall>j k. j < srv_dbnum s \<longrightarrow> view u j k = (if gone s t j k then None else view s j k))"
proof -
  let ?file = "file_of checksum bs" and ?e = "cfg_env cfg" and ?t = "t\<lparr>srv_loading := True\<rparr>"
  let ?c = "if checksum then crc64 0 (file_body bs) else 0"
  let ?r = "(rioInitWithFile ?file 0)\<lparr>rio_update_cksum := cfg_checksum cfg, rio_max_chunk := cfg_chunk cfg\<rparr>"
  have r0: "readable ?r" "left ?r = rdb_magic @ (bs @ [255] @ le_bytes 8 (uint ?c))" "rio_cksum ?r = 0"
    by (simp_all add: rioInitWithFile_def readable_def left_def file_of_def file_body_def)
  from loadsE [OF loads_read r0(1,2)] obtain r1 where r1: "rioRead ?r 9 = Some (r1, Some rdb_magic)" "took ?r rdb_magic r1"
    "readable r1" "left r1 = bs @ ([255] @ le_bytes 8 (uint ?c))" unfolding magic_version(3) by blast
  have t': "fresh_times ?t" "srv_dbnum ?t = srv_dbnum s" "\<And>j. j \<in> set [0..<srv_dbnum s] \<Longrightarrow> view ?t j = Map.empty"
    "srv_mstime ?t = srv_mstime t"
    using t by (simp_all add: fresh_times_def view_def fun_eq_iff)
  have js: "distinct [0..<srv_dbnum s]" "set [0..<srv_dbnum s] \<subseteq> {..<srv_dbnum s}" by auto
  from load_dbs [OF s b js t'(1,3,2) r1(3,4), of ?e 0] obtain n r2 u d where
    r2: "\<And>f. load_loop (f + n) ?e (srv_mstime t) 0 ?t r1 = load_loop f ?e (srv_mstime t) d u r2" "took r1 bs r2" "n \<le> length bs"
      "\<And>j. view u j = (if j \<in> set [0..<srv_dbnum s] then items_view s ?t j else view ?t j)" unfolding t'(4) by blast
  have r2': "readable r2" "left r2 = [255] @ le_bytes 8 (uint ?c)" using r2(2) r1(4) by (auto simp: took_def)
  have "loads load_opcode [255] (Some (255, - 1))" using loads_opcode [of 255] by simp
  from loadsE [OF this r2'] obtain r3 where r3: "load_opcode r2 = Some (r3, Some (255, - 1))" "took r2 [255] r3" "readable r3"
    "left r3 = le_bytes 8 (uint ?c) @ []" by auto
  have "length ?file = Suc (length ?file - n - 1) + n" using r2(3) by (simp add: file_of_def file_body_def)
  then have "load_loop (length ?file) ?e (srv_mstime t) 0 ?t r1 = load_loop (Suc (length ?file - n - 1)) ?e (srv_mstime t) d u r2"
    using r2(1) [of "Suc (length ?file - n - 1)"] by metis
  also have "\<dots> = Some (Inr (r3, u))" using r3(1) by simp
  finally have loop: "load_loop (length ?file) ?e (srv_mstime t) 0 ?t r1 = Some (Inr (r3, u))" .
  have "took ?r (rdb_magic @ bs @ [255]) r3" using took_trans [OF r1(2) took_trans [OF r2(2) r3(2)]] .
  then have sum: "rio_cksum r3 = (if cfg_checksum cfg then crc64 0 (file_body bs) else 0)"
    by (simp add: took_def summed_def rioInitWithFile_def file_body_def)
  from loadsE [OF loads_read r3(3,4)] obtain r4 where r4: "rioRead r3 8 = Some (r4, Some (le_bytes 8 (uint ?c)))" by auto
  have ck: "(word_of_int (le_uint (le_bytes 8 (uint ?c))) :: 64 word) = ?c" by (rule le_word_bytes)
  have "rdbLoad cfg ?file t = Some (Loaded (u\<lparr>srv_loading := False\<rparr>))"
    using r1(1) loop r4 sum unfolding rdbLoad_def Let_def
    by (simp add: magic_version ck del: of_int_of_bool)
  moreover have "view (u\<lparr>srv_loading := False\<rparr>) j k = (if gone s t j k then None else view s j k)" if "j < srv_dbnum s" for j k
  proof -
    have "view (u\<lparr>srv_loading := False\<rparr>) j k = view u j k" "gone s ?t j k = gone s t j k"
      by (simp_all add: view_def gone_def split: option.split)
    then show ?thesis using r2(4) [of j] that items_view_restores [OF s that, of ?t k] by simp
  qed
  ultimately show ?thesis by blast
qed

text \<open>
  C17. A dump restores data bases of strings: when every value is a string, no expire time is -1 and the keys are shorter than
  2 GB, the file that \<open>rdbSave\<close> writes, when the device has room for it, is read back by \<open>rdbLoad\<close> on an empty server of
  another process with as many data bases, with any chunk size and with or without checksums on either side, and every data base
  then shows exactly the keys it had, with their contents and their times, except those whose time had passed at the save or, on
  a master, at the load. When the device has no room the old dump stays. The other types of value are outside this model.
\<close>

theorem rdb_file_roundtrip:
  assumes "env_ok (cfg_env cfg)" "dumpable s"
    and "srv_dbnum t = srv_dbnum s" "\<forall>j. db_dict (srv_db t j) = [] \<and> db_expires (srv_db t j) = []"
  shows "\<exists>dump. (\<forall>space old. rdbSave cfg space s old =
      Some (if length dump \<le> space then (s\<lparr>srv_dirty := 0\<rparr>, Some dump, True) else (s, old, False))) \<and>
    (\<forall>cfg'. \<exists>u. rdbLoad cfg' dump t = Some (Loaded u) \<and>
      (\<forall>j k. j < srv_dbnum s \<longrightarrow> view u j k = (if gone s t j k then None else view s j k)))"
proof -
  from rdb_write_file [OF assms(1,2)] obtain bs where bs: "dbs_bytes (cfg_env cfg) s [0..<srv_dbnum s] bs"
    "\<And>space. rdb_write cfg space s = Some (if length (file_of (cfg_checksum cfg) bs) \<le> space
      then Some (file_of (cfg_checksum cfg) bs) else None)" by blast
  have "\<exists>u. rdbLoad cfg' (file_of (cfg_checksum cfg) bs) t = Some (Loaded u) \<and>
      (\<forall>j k. j < srv_dbnum s \<longrightarrow> view u j k = (if gone s t j k then None else view s j k))" for cfg'
    using rdbLoad_file [OF assms(2) bs(1) assms(3)] assms(4) by blast
  then show ?thesis using bs(2) by (intro exI [of _ "file_of (cfg_checksum cfg) bs"]) (simp add: rdbSave_def)
qed

theorem rdb_file_roundtrip_witness:
  "\<exists>dump u. rdbSave \<lparr>cfg_env = demo_rdb_env, cfg_checksum = True, cfg_chunk = 1\<rparr> (length dump) (demo_server []) None =
      Some ((demo_server [])\<lparr>srv_dirty := 0\<rparr>, Some dump, True) \<and>
    rdbLoad \<lparr>cfg_env = demo_rdb_env, cfg_checksum = True, cfg_chunk = 3\<rparr> dump (initServer [] 0) = Some (Loaded u) \<and>
    view u 0 (str ''a'') = Some (Some (str ''1''), None) \<and> view u 0 (str ''b'') = None"
proof -
  let ?cfg = "\<lparr>cfg_env = demo_rdb_env, cfg_checksum = True, cfg_chunk = 1\<rparr>"
    and ?s = "demo_server []" and ?t = "initServer [] 0"
  have s: "env_ok (cfg_env ?cfg)" "dumpable ?s"
    by (auto simp: demo_rdb_env_ok dumpable_def db_ok_def demo_defs split: if_splits)
  have t: "srv_dbnum ?t = srv_dbnum ?s" "\<forall>j. db_dict (srv_db ?t j) = [] \<and> db_expires (srv_db ?t j) = []"
    by (simp_all add: demo_defs)
  have v: "view ?s 0 (str ''a'') = Some (Some (str ''1''), None)" "\<not> gone ?s ?t 0 (str ''a'')" "gone ?s ?t 0 (str ''b'')" "0 < srv_dbnum ?s"
    by (simp_all add: view_def gone_def shown_def demo_defs)
  from rdb_file_roundtrip [OF s t] obtain dump where
    save: "\<And>space old. rdbSave ?cfg space ?s old =
      Some (if length dump \<le> space then (?s\<lparr>srv_dirty := 0\<rparr>, Some dump, True) else (?s, old, False))"
    and load: "\<And>cfg'. \<exists>u. rdbLoad cfg' dump ?t = Some (Loaded u) \<and>
      (\<forall>j k. j < srv_dbnum ?s \<longrightarrow> view u j k = (if gone ?s ?t j k then None else view ?s j k))" by blast
  obtain u where u: "rdbLoad \<lparr>cfg_env = demo_rdb_env, cfg_checksum = True, cfg_chunk = 3\<rparr> dump ?t = Some (Loaded u)"
    "\<forall>j k. j < srv_dbnum ?s \<longrightarrow> view u j k = (if gone ?s ?t j k then None else view ?s j k)" using load by blast
  have "view u 0 (str ''a'') = Some (Some (str ''1''), None)" "view u 0 (str ''b'') = None"
    using u(2) [rule_format, OF v(4)] v(1-3) by simp_all
  then show ?thesis using u(1) save [of "length dump" None] by (intro exI [of _ dump] exI [of _ u] conjI) simp_all
qed

end
