(* ===== verification/Migrate.thy ===== *)
theory Migrate
  imports Rdb_Load
begin

text \<open>
  \<^verbatim>\<open>redis-2.8/src/migrate.c\<close>: \<open>DUMP\<close> and \<open>RESTORE\<close>. A payload is a string object in dump format with
  the version of the format and the checksum behind it. \<open>MIGRATE\<close> talks to another server and is left
  out. Objects other than strings are outside the model, as in the dump file.

  The lemmas show that \<open>RESTORE\<close> recreates what \<open>DUMP\<close> described and that the checksum rejects a
  payload in which one byte was changed.
\<close>

section \<open>Payloads\<close>

text \<open>The assertions on the two writes only ask for a result that is not 0.\<close>

definition createDumpPayload :: "rdb_env \<Rightarrow> robj \<Rightarrow> bytes option" where
  "createDumpPayload e ob = do {
     s \<leftarrow> sdsempty (env_g e);
     let payload = rioInitWithBuffer s;
     (payload', n) \<leftarrow> rdbSaveObjectType e ob (Some payload);
     payload \<leftarrow> (if n = 0 then None else payload');
     (payload', n) \<leftarrow> rdbSaveObject e ob (Some payload);
     payload \<leftarrow> (if n = 0 then None else payload');
     ptr \<leftarrow> (case rio_io payload of BufferIO ptr pos \<Rightarrow> Some ptr | FileIO f \<Rightarrow> None);
     ptr \<leftarrow> sdscatlen (env_g e) ptr [6, 0] 2;
     let crc = crc64 0 (sds_val ptr);
     ptr \<leftarrow> sdscatlen (env_g e) ptr (le_bytes 8 (uint crc)) 8;
     Some (sds_val ptr)
   }"

definition verifyDumpPayload :: "bytes \<Rightarrow> bool" where
  "verifyDumpPayload p =
     (if length p < 10 then False
      else
        let footer = drop (length p - 10) p;
            rdbver = (push_bit 8 (ucast (footer ! 1)) OR ucast (footer ! 0) :: 16 word)
        in if rdbver \<noteq> 6 then False
           else
             let crc = crc64 0 (take (length p - 8) p)
             in le_bytes 8 (uint crc) = take 8 (drop 2 footer))"

section \<open>Commands\<close>

definition dumpCommand :: "rdb_env \<Rightarrow> nat \<Rightarrow> server \<Rightarrow> server option" where
  "dumpCommand e c s = do {
     (s, ob) \<leftarrow> lookupKeyRead (client_db c s) (argv c s 1) s;
     case ob of
       None \<Rightarrow> Some (addReply c NullBulk s)
     | Some ob \<Rightarrow> do { payload \<leftarrow> createDumpPayload e ob; Some (addReply c (Bulk payload) s) }
   }"

definition restore_object :: "rdb_env \<Rightarrow> bytes \<Rightarrow> robj option option" where
  "restore_object e p = do {
     ptr \<leftarrow> sdsnewlen (env_g e) (Some p) (length p);
     (payload, type) \<leftarrow> rdbLoadObjectType (rioInitWithBuffer ptr);
     if type = - 1 then Some None
     else do { (payload, ob) \<leftarrow> rdbLoadObject e type payload; Some ob }
   }"

definition restoreCommand :: "rdb_env \<Rightarrow> nat \<Rightarrow> server \<Rightarrow> server option" where
  "restoreCommand e c s = do {
     let db = client_db c s;
     let key = argv c s 1;
     (s, old) \<leftarrow> lookupKeyWrite db key s;
     if old \<noteq> None then Some (addReplyError c ''Target key name is busy.'' s)
     else
       case getLongLongFromObject (Some (ENC_RAW (argv c s 2))) of
         None \<Rightarrow> Some (addReplyError c ''value is not an integer or out of range'' s)
       | Some ttl \<Rightarrow>
           if ttl < 0 then Some (addReplyError c ''Invalid TTL value, must be >= 0'' s)
           else if \<not> verifyDumpPayload (argv c s 3)
           then Some (addReplyError c ''DUMP payload version or checksum are wrong'' s)
           else do {
             ob \<leftarrow> restore_object e (argv c s 3);
             case ob of
               None \<Rightarrow> Some (addReplyError c ''Bad data format'' s)
             | Some ob \<Rightarrow> do {
                 s \<leftarrow> dbAdd db key ob s;
                 s \<leftarrow> (if ttl \<noteq> 0 then setExpire db key (wrap64 (srv_mstime s + ttl)) s else Some s);
                 Some (incr_dirty 1 (addReply c shared_ok (signalModifiedKey db key s)))
               }
           }
   }"

section \<open>Payloads are what they promise\<close>

text \<open>The bytes of the object, the version, and the checksum of both.\<close>

definition sealed :: "bytes \<Rightarrow> bytes" where
  "sealed bs = (bs @ [6, 0]) @ le_bytes 8 (uint (crc64 0 (bs @ [6, 0])))"

lemma verify_sealed: "verifyDumpPayload (sealed bs)"
  by (simp add: verifyDumpPayload_def sealed_def nth_append Let_def)

lemma two_bytes:
  "(ucast (push_bit 8 (ucast a) OR ucast b :: 16 word) :: byte) = b"
  "(ucast (drop_bit 8 (push_bit 8 (ucast a) OR ucast b :: 16 word)) :: byte) = a" for a b :: byte
  by (rule bit_eqI, auto simp: bit_simps dest: bit_imp_le_length)+

lemma verify_split:
  assumes v: "verifyDumpPayload p"
  obtains bs where "p = sealed bs"
proof -
  have len: "10 \<le> length p" using v by (rule contrapos_pp) (simp add: verifyDumpPayload_def)
  let ?f = "drop (length p - 10) p"
  have ver: "(push_bit 8 (ucast (?f ! 1)) OR ucast (?f ! 0) :: 16 word) = 6"
    and crc: "le_bytes 8 (uint (crc64 0 (take (length p - 8) p))) = take 8 (drop 2 ?f)"
    using v len by (auto simp: verifyDumpPayload_def Let_def split: if_splits)
  have f: "?f ! 0 = 6" "?f ! 1 = 0"
    using two_bytes [of "?f ! 1" "?f ! 0"] unfolding ver by simp_all
  have lf: "length ?f = 10" using len by simp
  have "F = F ! 0 # F ! 1 # drop 2 F" if "length F = 10" for F :: bytes
    using that by (cases F; cases "tl F") auto
  from this [OF lf] have "?f = ?f ! 0 # ?f ! 1 # drop 2 ?f" .
  then have e: "?f = [6, 0] @ drop 2 ?f" using f by simp
  have "length p - 8 = length p - 10 + 2" using len by simp
  then have "take (length p - 8) p = take (length p - 10) p @ take 2 ?f" by (simp only: take_add)
  also have "take 2 ?f = [6, 0]" by (subst e) simp
  finally have body: "take (length p - 8) p = take (length p - 10) p @ [6, 0]" .
  have "take 8 (drop 2 ?f) = drop 2 ?f" using lf by simp
  then have "p = sealed (take (length p - 10) p)"
    unfolding sealed_def using crc body e append_take_drop_id [of "length p - 10" p] by simp
  then show thesis by (rule that)
qed

lemma le_word_inj: "le_bytes 8 (uint (v::64 word)) = le_bytes 8 (uint w) \<Longrightarrow> v = w"
  by (metis le_word_bytes)

text \<open>
  C22. The checksum of a payload detects every change of a single byte, be it in the object, in the
  version or in the checksum itself.
\<close>

theorem dump_payload_detects:
  assumes "verifyDumpPayload (a @ x # b)" "x \<noteq> y"
  shows "\<not> verifyDumpPayload (a @ y # b)"
proof
  assume "verifyDumpPayload (a @ y # b)"
  then obtain cs where cs: "a @ y # b = sealed cs" by (rule verify_split)
  obtain bs where bs: "a @ x # b = sealed bs" using verify_split [OF assms(1)] .
  let ?p = "bs @ [6, 0]" and ?q = "cs @ [6, 0]"
  let ?c = "\<lambda>p. le_bytes 8 (uint (crc64 0 p))"
  have len: "length ?p = length ?q"
    using arg_cong [OF bs, of length] arg_cong [OF cs, of length] by (simp add: sealed_def)
  show False
  proof (cases "length a < length ?p")
    case True
    then have "?p = a @ x # take (length ?p - length a - 1) b" "?q = a @ y # take (length ?p - length a - 1) b"
      using arg_cong [OF bs, of "take (length ?p)"] arg_cong [OF cs, of "take (length ?q)"] len
      by (simp_all add: sealed_def take_Cons' split: if_splits)
    then have "crc64 0 ?p \<noteq> crc64 0 ?q" using crc64_changed_byte [OF assms(2)] by metis
    moreover have "?c ?p = ?c ?q"
      using arg_cong [OF bs, of "drop (length ?p)"] arg_cong [OF cs, of "drop (length ?q)"] len True
      by (simp add: sealed_def drop_Cons' split: if_splits)
    ultimately show False using le_word_inj by blast
  next
    case False
    then have "?p = take (length ?p) a" "?q = take (length ?p) a"
      using arg_cong [OF bs, of "take (length ?p)"] arg_cong [OF cs, of "take (length ?q)"] len by (simp_all add: sealed_def)
    then have "?p = ?q" by metis
    then have "bs = cs" by simp
    then have "a @ x # b = a @ y # b" using bs cs by simp
    then show False using assms(2) by simp
  qed
qed

section \<open>What is dumped can be restored\<close>

lemma createDumpPayload_ok:
  assumes e: "env_ok e" and ob: "obj_ok ob" "length (content ob) \<le> 536870912"
  obtains bs where "createDumpPayload e (StrObj ob) = Some (sealed (0 # bs))"
    "string_bytes (rdbSaveStringObject e ob) (content ob) bs"
proof -
  have len: "length (content ob) < 2147483648" using ob(2) by simp
  obtain bs where bs: "string_bytes (rdbSaveStringObject e ob) (content ob) bs" using saves_string [OF e ob(1) len] by blast
  then have bl: "length bs \<le> 536870919" "bs \<noteq> []" using ob(2) by (auto simp: string_bytes_def)
  obtain s where s: "sdsempty (env_g e) = Some s" "sds_ok s" "sds_val s = []" using sdsempty_yields [of "env_g e"] by (auto simp: yields_def)
  let ?r = "rioInitWithBuffer s"
  have r: "at_end ?r" "written ?r = []" "has_room ?r (1 + length bs)" "rio_io ?r = BufferIO s 0"
    using s bl len_val [OF s(2)] by (simp_all add: rioInitWithBuffer_def at_end_def written_def has_room_def)
  have "emits (rdbSaveObjectType e (StrObj ob)) [0]"
    unfolding rdbSaveObjectType_def rdbSaveType_def robj.case by (rule emits_raw) simp
  then obtain r1 where r1: "rdbSaveObjectType e (StrObj ob) (Some ?r) = Some (Some r1, 1)" "wrote ?r [0] r1"
    using r(1,3) has_room_le [of ?r "1 + length bs" 1] unfolding emits_def by fastforce
  then have "at_end r1" "has_room r1 (length bs)" using r(3) by (auto simp: wrote_def)
  then obtain r2 where r2: "rdbSaveObject e (StrObj ob) (Some r1) = Some (Some r2, int (length bs))" "wrote r1 bs r2"
    using bs unfolding string_bytes_def emits_def by (auto simp: rdbSaveObject_def)
  have "wrote ?r ([0] @ bs) r2" by (rule wrote_trans [OF r1(2) r2(2)])
  then obtain ptr pos where p: "rio_io r2 = BufferIO ptr pos" "sds_ok ptr" "sds_val ptr = 0 # bs"
    using r(2,4) by (cases "rio_io r2") (auto simp: wrote_def written_def at_end_def same_setup_def)
  have room: "room ptr 2" using bl len_val [OF p(2)] p(3) by simp
  from sdscatlen_yields [OF p(2) _ room, of "[6, 0]" "env_g e"] obtain ptr1 where
    p1: "sdscatlen (env_g e) ptr [6, 0] 2 = Some ptr1" "sds_ok ptr1" "sds_val ptr1 = (0 # bs) @ [6, 0]" by (auto simp: yields_def p(3))
  let ?crc = "le_bytes 8 (uint (crc64 0 ((0 # bs) @ [6, 0])))"
  have room1: "room ptr1 8" using bl len_val [OF p1(2)] p1(3) by simp
  from sdscatlen_yields [OF p1(2) _ room1, of ?crc "env_g e"] obtain ptr2 where
    p2: "sdscatlen (env_g e) ptr1 ?crc 8 = Some ptr2" "sds_val ptr2 = sealed (0 # bs)" by (auto simp: yields_def p1(3) sealed_def)
  have "createDumpPayload e (StrObj ob) = Some (sealed (0 # bs))"
    using s(1) r1(1) r2(1) bl(2) p(1) p1(1,3) p2 by (simp add: createDumpPayload_def Let_def)
  then show thesis using bs by (rule that)
qed

lemma restore_object_ok:
  assumes bs: "string_bytes (rdbSaveStringObject e ob) (content ob) bs" and len: "length (sealed (0 # bs)) < 4294967296"
  shows "\<exists>v. restore_object ld (sealed (0 # bs)) = Some (Some v) \<and> shown v = Some (content ob) \<and> obj_type v = REDIS_STRING"
proof -
  let ?p = "sealed (0 # bs)"
  obtain ptr where ptr: "sdsnewlen (env_g ld) (Some ?p) (length ?p) = Some ptr" "sds_ok ptr" "sds_val ptr = ?p"
    using sdsnewlen_yields [of "length ?p" ?p "env_g ld"] len by (auto simp: yields_def)
  let ?r = "rioInitWithBuffer ptr"
  obtain rest where rest: "?p = [0] @ (bs @ rest)" by (simp add: sealed_def)
  have r: "readable ?r" "left ?r = [0] @ (bs @ rest)" using ptr rest by (simp_all add: rioInitWithBuffer_def readable_def left_def)
  from loadsE [OF loads_type r] obtain r1 where r1: "rdbLoadType ?r = Some (r1, 0)" "readable r1" "left r1 = bs @ rest" by auto
  obtain vo where vo: "loads (rdbLoadEncodedStringObject ld) bs (Some vo)" "content vo = content ob" "obj_ok vo"
    using bs unfolding string_bytes_def rdbLoadEncodedStringObject_def by blast
  from loadsE [OF vo(1) r1(2,3)] obtain r2 where r2: "rdbLoadEncodedStringObject ld r1 = Some (r2, Some vo)" by blast
  have "restore_object ld ?p = Some (Some (StrObj (tryObjectEncoding vo)))"
    using ptr(1) r1(1) r2 by (simp add: restore_object_def rdbLoadObjectType_def rdbLoadObject_def rdbIsObjectType_def)
  then show ?thesis using tryObjectEncoding_content [OF vo(3)] vo(2) by (auto simp: shown_def)
qed

text \<open>
  C21. \<open>RESTORE\<close> of the payload that \<open>DUMP\<close> makes of a string object, under a name that is free in a
  well-formed data base, answers OK and gives that key a string with the same content and the time to
  live that was asked for.
\<close>

theorem dump_restore:
  assumes "env_ok e" "obj_ok ob" "length (content ob) \<le> 536870912"
  shows "\<exists>p. createDumpPayload e (StrObj ob) = Some p \<and>
    (\<forall>ld c s s1 ttl. lookupKeyWrite (client_db c s) (argv c s 1) s = Some (s1, None) \<longrightarrow> fresh_times s1 \<longrightarrow>
       argv c s1 3 = p \<longrightarrow> getLongLongFromObject (Some (ENC_RAW (argv c s1 2))) = Some ttl \<longrightarrow> 0 \<le> ttl \<longrightarrow>
       (\<exists>u. restoreCommand ld c s =
              Some (incr_dirty 1 (addReply c shared_ok (signalModifiedKey (client_db c s) (argv c s 1) u))) \<and>
          view u (client_db c s) (argv c s 1) =
            Some (Some (content ob), if ttl = 0 then None else Some (wrap64 (srv_mstime s1 + ttl)))))"
proof -
  obtain bs where bs: "createDumpPayload e (StrObj ob) = Some (sealed (0 # bs))"
    "string_bytes (rdbSaveStringObject e ob) (content ob) bs" using createDumpPayload_ok [OF assms] .
  have "length bs \<le> 536870919" using bs(2) assms(3) by (simp add: string_bytes_def)
  then have len: "length (sealed (0 # bs)) < 4294967296" by (simp add: sealed_def)
  have "\<exists>u. restoreCommand ld c s =
      Some (incr_dirty 1 (addReply c shared_ok (signalModifiedKey (client_db c s) (argv c s 1) u))) \<and>
      view u (client_db c s) (argv c s 1) = Some (Some (content ob), if ttl = 0 then None else Some (wrap64 (srv_mstime s1 + ttl)))"
    if look: "lookupKeyWrite (client_db c s) (argv c s 1) s = Some (s1, None)" and fr: "fresh_times s1"
      and args: "argv c s1 3 = sealed (0 # bs)" "getLongLongFromObject (Some (ENC_RAW (argv c s1 2))) = Some ttl" "0 \<le> ttl"
    for ld c s s1 ttl
  proof -
    obtain v where v: "restore_object ld (sealed (0 # bs)) = Some (Some v)" "shown v = Some (content ob)" "obj_type v = REDIS_STRING"
      using restore_object_ok [OF bs(2) len] by blast
    let ?db = "client_db c s" and ?key = "argv c s 1"
    have free: "view s1 ?db ?key = None" using look by (auto simp: lookupKeyWrite_def lookupKey_def view_def split: Option.bind_splits)
    let ?u = "upd_db ?db (\<lambda>d. d\<lparr>db_dict := (?key, v) # db_dict d\<rparr>) s1"
    have add: "dbAdd ?db ?key v s1 = Some ?u" using free v(3) by (simp add: dbAdd_def view_def)
    have ms: "srv_mstime ?u = srv_mstime s1" by (simp add: upd_db_def)
    let ?w = "upd_db ?db (\<lambda>d. d\<lparr>db_expires := AList.update ?key (wrap64 (srv_mstime s1 + ttl)) (db_expires d)\<rparr>) ?u"
    have set: "setExpire ?db ?key (wrap64 (srv_mstime s1 + ttl)) ?u = Some ?w" by (simp add: setExpire_def upd_db_def)
    have no: "map_of (db_expires (srv_db s1 ?db)) ?key = None" using free fr by (simp add: view_def fresh_times_def)
    have "restoreCommand ld c s = Some (incr_dirty 1 (addReply c shared_ok
        (signalModifiedKey ?db ?key (if ttl = 0 then ?u else ?w))))"
      using look args v(1) verify_sealed [of "0 # bs"] add set ms by (simp add: restoreCommand_def Let_def)
    moreover have "view (if ttl = 0 then ?u else ?w) ?db ?key =
        Some (Some (content ob), if ttl = 0 then None else Some (wrap64 (srv_mstime s1 + ttl)))"
      using v(2) no by (simp add: view_def upd_db_def update_conv')
    ultimately show ?thesis by blast
  qed
  then show ?thesis using bs(1) by blast
qed

definition demo_restore :: "bytes \<Rightarrow> server" where
  "demo_restore p = upd_client 1 (\<lambda>x. x\<lparr>c_argv := [str ''restore'', str ''x'', str ''0'', p]\<rparr>) (initServer [1] 0)"

theorem dump_restore_witness:
  "\<exists>p u. createDumpPayload demo_rdb_env (StrObj (ENC_RAW [104, 105])) = Some p \<and>
    restoreCommand demo_rdb_env 1 (demo_restore p) = Some (incr_dirty 1 (addReply 1 shared_ok (signalModifiedKey 0 (str ''x'') u))) \<and>
    view u 0 (str ''x'') = Some (Some [104, 105], None)"
proof -
  obtain p where p: "createDumpPayload demo_rdb_env (StrObj (ENC_RAW [104, 105])) = Some p"
    "\<forall>ld c s s1 ttl. lookupKeyWrite (client_db c s) (argv c s 1) s = Some (s1, None) \<longrightarrow> fresh_times s1 \<longrightarrow>
       argv c s1 3 = p \<longrightarrow> getLongLongFromObject (Some (ENC_RAW (argv c s1 2))) = Some ttl \<longrightarrow> 0 \<le> ttl \<longrightarrow>
       (\<exists>u. restoreCommand ld c s =
              Some (incr_dirty 1 (addReply c shared_ok (signalModifiedKey (client_db c s) (argv c s 1) u))) \<and>
          view u (client_db c s) (argv c s 1) =
            Some (Some [104, 105], if ttl = 0 then None else Some (wrap64 (srv_mstime s1 + ttl))))"
    using dump_restore [OF demo_rdb_env_ok, of "ENC_RAW [104, 105]"] by auto
  let ?s = "demo_restore p"
  have args: "client_db 1 ?s = 0" "argv 1 ?s 1 = str ''x''" "argv 1 ?s 2 = str ''0''" "argv 1 ?s 3 = p"
    by (simp_all add: demo_restore_def demo_defs)
  have look: "lookupKeyWrite 0 (str ''x'') ?s = Some (?s, None)" "fresh_times ?s"
    by (simp_all add: demo_restore_def demo_defs lookupKeyWrite_def expireIfNeeded_def getExpire_def lookupKey_def fresh_times_def)
  have "getLongLongFromObject (Some (ENC_RAW (str ''0''))) = Some 0" by code_simp
  then show ?thesis using p(1) p(2) [rule_format, where c = 1 and s = ?s and ?s1.0 = ?s and ttl = 0 and ld = demo_rdb_env] look args by auto
qed

section \<open>Payloads that stop the server\<close>

text \<open>
  The checksum is not a secret: a client can seal bytes of its choice. An encoding that does not exist
  reaches a panic, and an empty compressed string makes the decompressor read before it checks
  its input.
\<close>

lemma restore_reads:
  assumes "length (sealed (0 # bs)) < 4294967296"
  obtains r where "readable r" "left r = bs @ [6, 0] @ le_bytes 8 (uint (crc64 0 ((0 # bs) @ [6, 0])))"
    "restore_object e (sealed (0 # bs)) = rdbLoadObject e 0 r \<bind> (\<lambda>(r, ob). Some ob)"
proof -
  let ?p = "sealed (0 # bs)"
  obtain ptr where ptr: "sdsnewlen (env_g e) (Some ?p) (length ?p) = Some ptr" "sds_ok ptr" "sds_val ptr = ?p"
    using sdsnewlen_yields [of "length ?p" ?p "env_g e"] assms by (auto simp: yields_def)
  let ?r = "rioInitWithBuffer ptr"
  have r: "readable ?r" "left ?r = [0] @ (bs @ [6, 0] @ le_bytes 8 (uint (crc64 0 ((0 # bs) @ [6, 0]))))"
    using ptr by (simp_all add: rioInitWithBuffer_def readable_def left_def sealed_def)
  from loadsE [OF loads_type r] obtain r1 where
    r1: "rdbLoadType ?r = Some (r1, 0)" "readable r1" "left r1 = bs @ [6, 0] @ le_bytes 8 (uint (crc64 0 ((0 # bs) @ [6, 0])))" by auto
  have "restore_object e ?p = rdbLoadObject e 0 r1 \<bind> (\<lambda>(r, ob). Some ob)"
    using ptr(1) r1(1) by (simp add: restore_object_def rdbLoadObjectType_def rdbIsObjectType_def)
  then show thesis using r1(2,3) by (intro that)
qed

lemma restore_unknown_encoding: "verifyDumpPayload (sealed [0, 0xC4]) \<and> restore_object e (sealed [0, 0xC4]) = None"
proof -
  have l: "length (sealed [0, 0xC4]) < 4294967296" by (simp add: sealed_def)
  from restore_reads [OF l, of e] obtain r where r: "readable r" "left r = [0xC4] @ ([6, 0] @ le_bytes 8 (uint (crc64 0 ([0, 0xC4] @ [6, 0]))))"
    "restore_object e (sealed [0, 0xC4]) = rdbLoadObject e 0 r \<bind> (\<lambda>(r, ob). Some ob)" by auto
  have "loads rdbLoadLen [0xC4] (4, True)" using loads_encoding [of "0xC4"] by simp
  from loadsE [OF this r(1,2)] have "rdbLoadEncodedStringObject e r = None"
    by (auto simp: rdbLoadEncodedStringObject_def rdbGenericLoadStringObject_def)
  then show ?thesis using r(3) verify_sealed by (simp add: rdbLoadObject_def)
qed

lemma restore_empty_lzf: "verifyDumpPayload (sealed [0, 0xC3, 0, 1]) \<and> restore_object e (sealed [0, 0xC3, 0, 1]) = None"
proof -
  have l: "length (sealed [0, 0xC3, 0, 1]) < 4294967296" by (simp add: sealed_def)
  let ?rest = "[6, 0] @ le_bytes 8 (uint (crc64 0 ([0, 0xC3, 0, 1] @ [6, 0])))"
  from restore_reads [OF l, of e] obtain r where r: "readable r" "left r = [0xC3] @ ([0] @ [1] @ ?rest)"
    "restore_object e (sealed [0, 0xC3, 0, 1]) = rdbLoadObject e 0 r \<bind> (\<lambda>(r, ob). Some ob)" by auto
  have a: "loads rdbLoadLen [0xC3] (3, True)" using loads_encoding [of "0xC3"] by simp
  have z: "loads rdbLoadLen [0] (0, False)" "loads rdbLoadLen [1] (1, False)"
    using loads_len [of 0] loads_len [of 1] by (simp_all add: len_bytes_def)
  from loadsE [OF a r(1,2)] obtain r1 where r1: "rdbLoadLen r = Some (r1, 3, True)" "readable r1" "left r1 = [0] @ ([1] @ ?rest)" by blast
  from loadsE [OF z(1) r1(2,3)] obtain r2 where r2: "rdbLoadLen r1 = Some (r2, 0, False)" "readable r2" "left r2 = [1] @ ?rest" by blast
  from loadsE [OF z(2) r2(2,3)] obtain r3 where r3: "rdbLoadLen r2 = Some (r3, 1, False)" by blast
  have "lzf_decompress [] out n = None" for out n
    by (simp add: lzf_decompress_def lzf_turn_def byte_at_def)
  then have "rdbLoadLzfStringObject e r1 = None"
    using r2(1) r3 by (simp add: rdbLoadLzfStringObject_def rioRead.simps)
  then have "rdbLoadEncodedStringObject e r = None"
    using r1(1) by (simp add: rdbLoadEncodedStringObject_def rdbGenericLoadStringObject_def)
  then show ?thesis using r(3) verify_sealed by (simp add: rdbLoadObject_def)
qed

theorem dump_payload_detects_witness: "\<not> verifyDumpPayload ([0, 2, 104] @ 110 # drop 4 (sealed [0, 2, 104, 105]))"
  by (rule dump_payload_detects [of "[0, 2, 104]" 105]) (use verify_sealed [of "[0, 2, 104, 105]"] in \<open>simp_all add: sealed_def\<close>)

end
