(* ===== verification/Spec2Isabelle.thy ===== *)
theory Spec2Isabelle
  imports Redis_Prelude Endianconv Util Set_Interface Intset Map_Interface Dict Dict_Scan Dict_Iter Adlist
    Object Server Pubsub Keyspace Sds Sds_Text T_String Multi Protocol Replication Resync
    Skiplist Skiplist_Insert Skiplist_Ops Zset Zset_Laws Ziplist Ziplist_Update Ziplist_Access
    Crc64 Lzf Lzf_Compress Rio Rdb Rdb_File Rdb_Load Migrate
begin

text \<open>
  A verification development for the Redis 2.8 server under \<^verbatim>\<open>redis-2.8/src\<close>, the C program of the
  repository. Every definition that models code keeps the name of the C function or names the part of a
  function it translates; the theorems stand in the theory of the component they are about.

  \<^bold>\<open>The program.\<close> Clients send requests over sockets (networking.c). A complete request is a vector of
  byte strings, and the command it names runs at once, or is queued between MULTI and EXEC (redis.c,
  multi.c). Commands work on the key space (db.c): for each data base a hash table from keys to values and
  one from keys to expire times (dict.c). Values are strings (t_string.c, object.c) and aggregates kept in
  lists (adlist.c), integer sets (intset.c), packed lists (ziplist.c) and skip lists (t_zset.c). A command
  that changes a key marks the clients that WATCH it, publishes an event (notify.c, pubsub.c) and is sent to
  the slaves (replication.c). The data bases are written to a dump and read from it (rdb.c), over streams with a
  checksum (rio.c, crc64.c) and with compressed strings (lzf_c.c, lzf_d.c); single values travel in the same format (migrate.c).

  \<^bold>\<open>Conventions.\<close> A C function is a HOL function on explicit state. \<open>None\<close> is undefined behaviour, a failed
  assertion or a panic, never a normal result: a theorem that an operation returns \<open>Some\<close> also says that it
  stays inside its buffers, dereferences no dead pointer and ends. Error replies are values. Loops that the
  code bounds are \<open>fun\<close>; loops that could run forever are \<open>partial_function (option)\<close> and are proved to
  return, or take fuel that a lemma shows to be enough. Memory that is new has arbitrary content, and
  what the system decides (addresses, random numbers, the clock, the sizes of reads) is an argument that the
  theorems quantify over. Pointers are addresses of an explicit store where aliasing matters (lists, skip
  lists) and offsets into a block where the code works on raw bytes. \<open>long\<close> has 32 bits and
  \<open>long long\<close> 64, as in the Windows build.

  \<^bold>\<open>Theories.\<close>
  \<^item> Redis_Prelude: bytes, bounds-checked buffers, little-endian integers, shared lemmas. Endianconv:
    endianconv.c.
  \<^item> Util: util.c. Decimal conversions are inverse to each other and stay in their buffer; the glob matcher is
    equivalent to a definition on parsed patterns and reads behind an unterminated class.
  \<^item> Set_Interface and Intset: intset.c on the packed block. Insertion and removal with the change of the
    encoding refine a set of integers for every sequence of operations.
  \<^item> Map_Interface, Dict, Dict_Iter, Dict_Scan: dict.c with chaining and incremental rehashing. Any sequence of
    operations refines a map while the table grows, shrinks and moves; rehashing ends; iterators visit
    every entry once; a scan visits every element that stays, whatever resizing happens between the calls, except
    for the case of a shrinking table that the last theorem shows.
  \<^item> Adlist: adlist.c on a store of nodes, refines a sequence.
  \<^item> Object: the encodings of string objects cannot be told apart by any operation on their content.
  \<^item> Server, Keyspace, Pubsub: the state of the server, db.c with expires, notify.c and pubsub.c. Invariants of
    the key space and of the two indexes of subscriptions; every change of a key signals it, except by MOVE and PERSIST,
    which do not signal; a publication reaches exactly the subscribers.
  \<^item> T_String: t_string.c. Commands keep the invariant and signal their changes; SET then GET; the
    results and overflow checks of INCR, DECR, INCRBY and DECRBY are exact but for DECRBY of the smallest integer; GETRANGE is
    a slice.
  \<^item> Multi: multi.c and the dispatch of queued commands. EXEC runs only when no watched key changed since
    WATCH through a command that signals, and then does what the queued commands do one after the other, as one block for the
    slaves; WATCH, UNWATCH, MULTI and DISCARD have exactly their documented effect and errors.
  \<^item> Sds, Sds_Text: sds.c on allocated blocks with their headers. Any sequence of operations refines a byte
    string; quoting and splitting a line are inverse.
  \<^item> Protocol: the request parser of networking.c. Pipelined requests cut in pieces of any size run once and in
    order; the fuel of the input loop is the length of the buffer plus one, since each round removes a byte.
  \<^item> Replication, Resync: the master side of replication.c. A partial resynchronisation sends exactly the
    missing bytes; in every history a slave with a file receives exactly the commands after the snapshot, unless it waited
    for a save that could not be started, asked with an offset that is no integer, or joined a save beside such a slave; a
    slave that joins a running save is told a wrong offset.
  \<^item> Skiplist, Skiplist_Insert, Skiplist_Ops, Zset, Zset_Laws: the skip list of t_zset.c on a store of nodes with
    arrays of levels, and sorted sets on top of it. Every operation keeps the links, spans and backward
    pointers right, and any sequence of operations refines the sorted list of the elements.
  \<^item> Ziplist, Ziplist_Update, Ziplist_Access: ziplist.c on its block of bytes. Reading, searching, inserting and deleting
    agree with the list of strings; insertions and deletions carry the cascade of length updates through; one
    case of insertion leaves the block, and three pushes and a deletion lead to it.
  \<^item> Crc64: crc64.c. The 256 entries of the table and the loop compute the remainder of a division by a polynomial,
    and a change of one byte always changes it.
  \<^item> Lzf, Lzf_Compress: lzf_c.c and lzf_d.c on buffers with bounds. The decompressor is safe on every input that is
    not empty, and expands what the compressor wrote to the input of the compressor, whatever its uninitialised
    hash table held, when the output has a byte to spare, which a full run of literals shows to be needed. The fuel of either loop is the length of its input, and every round consumes a byte.
  \<^item> Rio: rio.c and rio.h, streams over a string or a file with checksums and chunks, behind a common interface.
  \<^item> Rdb, Rdb_File, Rdb_Load: rdb.c. Lengths, integers and strings are read back from the bytes they were
    written as; the file of a server restores in an empty one the keys that had not expired, with their
    values and times, for servers that hold only strings. The fuel of the loading loop is the length of the file.
  \<^item> Migrate: DUMP and RESTORE of migrate.c. A payload restores the value it was made of; a change of
    one byte is rejected; two payloads that a client can make stop the server.

  \<^bold>\<open>Interfaces.\<close> \<open>set_impl\<close>, \<open>map_impl\<close>, \<open>string_builder\<close>, \<open>commands\<close>, \<open>sorted_set\<close> and \<open>rio_backend\<close> are locales with the laws their clients use, each
  interpreted on the definitions that model the code; the theorems on sequences of operations are proved
  in them once.

  \<^bold>\<open>Not modelled.\<close> Sockets and the event loop, the append only file, fork and MIGRATE, the slave side of
  replication, sentinel.c and the tools are input and output; scripting.c needs the Lua interpreter and
  hyperloglog.c floating point. Reference counts are left out where no operation observes them. Sums of
  scores and their texts are arguments, since they are floating point; scores themselves are a linear order.
  The values of the modelled key space other than strings are opaque, so dumps hold strings only.
  The C# application of the repository is another language and is left aside.
\<close>

end
